(* ===== verification/Prelude.thy ===== *)
theory Prelude
  imports Main "HOL-Library.Word"
begin

text \<open>
  Shared vocabulary of the development: the C integer types at their width, the
  result type of every fallible operation, and the generic lemmas on words and
  results that the component theories use.
\<close>

unbundle bit_operations_syntax

section \<open>Machine types\<close>

type_synonym u8 = "8 word"       \<comment> \<open>\<open>lu_byte\<close>, \<open>unsigned char\<close>\<close>
type_synonym u32 = "32 word"     \<comment> \<open>\<open>unsigned int\<close>, \<open>lu_int32\<close>, \<open>Instruction\<close>\<close>
type_synonym u64 = "64 word"     \<comment> \<open>\<open>size_t\<close>, \<open>lu_mem\<close>, a pointer\<close>

section \<open>Collections of facts\<close>

named_theorems seq_simps \<open>unfolding of sequenced computations\<close>

section \<open>Errors and results\<close>

datatype lua_error =
    RunError string        \<comment> \<open>\<open>luaG_runerror\<close> with its message\<close>
  | SyntaxError string     \<comment> \<open>\<open>luaX_syntaxerror\<close>, \<open>luaX_lexerror\<close>, \<open>LUA_ERRSYNTAX\<close>\<close>
  | MemError               \<comment> \<open>\<open>LUA_ERRMEM\<close>\<close>
  | Undefined              \<comment> \<open>a run C leaves undefined: null dereference, access out of bounds\<close>
  | OutOfFuel              \<comment> \<open>the model's own bound on a loop, never a behaviour of the code\<close>

type_synonym 'a result = "lua_error + 'a"

fun seqR :: "'a result \<Rightarrow> ('a \<Rightarrow> 'b result) \<Rightarrow> 'b result" where
  "seqR (Inl e) f = Inl e"
| "seqR (Inr x) f = f x"

lemma seqR_cong [fundef_cong]:
  assumes "m = m'" and "\<And>x. m' = Inr x \<Longrightarrow> f x = g x"
  shows "seqR m f = seqR m' g"
  using assms by (cases m') auto

lemma seqR_Inr [seq_simps]: "seqR m f = Inr y \<longleftrightarrow> (\<exists>x. m = Inr x \<and> f x = Inr y)"
  by (cases m) auto

lemma seqR_Inl [seq_simps]: "seqR m f = Inl e \<longleftrightarrow> m = Inl e \<or> (\<exists>x. m = Inr x \<and> f x = Inl e)"
  by (cases m) auto

lemma seqR_InrE [elim!]:
  assumes "seqR m f = Inr y" obtains x where "m = Inr x" "f x = Inr y"
  using assms by (cases m) auto

section \<open>Bits of small numbers\<close>

lemma bit_int_bound:
  assumes "bit (a :: int) k" "0 \<le> a" "a < 2 ^ n"
  shows "k < n"
  using assms by (metis bit_take_bit_iff take_bit_int_eq_self)

lemma bit_nat_bound:
  assumes "bit (a :: nat) k" "a < 2 ^ n"
  shows "k < n"
  using assms by (metis bit_take_bit_iff take_bit_nat_eq_self)

lemma and_mask_mod:
  "(x :: int) AND 3 = x mod 4" "(x :: int) AND 7 = x mod 8" "(x :: int) AND 31 = x mod 32"
  using take_bit_eq_mask [of 2 x] take_bit_eq_mask [of 3 x] take_bit_eq_mask [of 5 x]
  by (simp_all add: mask_eq_exp_minus_1 take_bit_eq_mod)

lemma unat_exp_32: "k < 32 \<Longrightarrow> unat (2 ^ k :: u32) = 2 ^ k"
proof -
  assume "k < 32"
  then have "(2::nat) ^ k < 2 ^ 32" by (intro power_strict_increasing) auto
  moreover have "unat (of_nat (2 ^ k) :: u32) = 2 ^ k mod 2 ^ 32"
    by (simp only: unat_of_nat) simp
  ultimately show ?thesis by simp
qed

lemma unat_eq_1_iff: "unat (x :: 'a::len word) = 1 \<longleftrightarrow> x = 1"
  using word_unat_eq_iff [of x 1] by simp

end
