(* ===== verification/Numbers.thy ===== *)
theory Numbers
  imports Prelude
begin

text \<open>
  \<open>lua_Number\<close> is a C double (\<open>luaconf.h\<close>): here its 64-bit pattern, read as the
  binary64 format of IEEE 754. Modelled are the operations the core uses that need no
  rounding: the comparison macros \<open>luai_numeq\<close>, \<open>luai_numlt\<close>, \<open>luai_numle\<close>,
  \<open>luai_numisnan\<close>, and the conversions \<open>cast_num\<close> (int to double) and
  \<open>lua_number2int\<close> (double to int, by truncation).
\<close>

type_synonym lua_Number = "64 word"

section \<open>The fields of a double\<close>

definition dbl_neg :: "lua_Number \<Rightarrow> bool" where
  "dbl_neg n \<longleftrightarrow> bit n 63"

definition dbl_exp :: "lua_Number \<Rightarrow> nat" where
  "dbl_exp n = unat (take_bit 11 (drop_bit 52 n))"

definition dbl_frac :: "lua_Number \<Rightarrow> nat" where
  "dbl_frac n = unat (take_bit 52 n)"

definition dbl_mag :: "lua_Number \<Rightarrow> nat" where
  "dbl_mag n = unat (take_bit 63 n)"

definition dbl_nan :: "lua_Number \<Rightarrow> bool" where
  "dbl_nan n \<longleftrightarrow> dbl_exp n = 2047 \<and> dbl_frac n \<noteq> 0"

definition dbl_zero :: "lua_Number \<Rightarrow> bool" where
  "dbl_zero n \<longleftrightarrow> dbl_mag n = 0"

section \<open>Comparison\<close>

definition luai_numeq :: "lua_Number \<Rightarrow> lua_Number \<Rightarrow> bool" where
  "luai_numeq a b \<longleftrightarrow>
     \<not> dbl_nan a \<and> \<not> dbl_nan b \<and> (a = b \<or> dbl_zero a \<and> dbl_zero b)"

definition luai_numisnan :: "lua_Number \<Rightarrow> bool" where
  "luai_numisnan a \<longleftrightarrow> \<not> luai_numeq a a"

text \<open>
  Two doubles that are no NaN are ordered as their magnitudes read as integers, with
  the sign.
\<close>

definition dbl_key :: "lua_Number \<Rightarrow> int" where
  "dbl_key n = (if dbl_neg n then - int (dbl_mag n) else int (dbl_mag n))"

definition luai_numlt :: "lua_Number \<Rightarrow> lua_Number \<Rightarrow> bool" where
  "luai_numlt a b \<longleftrightarrow> \<not> dbl_nan a \<and> \<not> dbl_nan b \<and> dbl_key a < dbl_key b"

definition luai_numle :: "lua_Number \<Rightarrow> lua_Number \<Rightarrow> bool" where
  "luai_numle a b \<longleftrightarrow> \<not> dbl_nan a \<and> \<not> dbl_nan b \<and> dbl_key a \<le> dbl_key b"

definition luai_numunm :: "lua_Number \<Rightarrow> lua_Number" where
  "luai_numunm a = flip_bit 63 a"

section \<open>Conversion from and to C ints\<close>

text \<open>The exponent of the leading bit of a positive number.\<close>

fun ilog2 :: "nat \<Rightarrow> nat" where
  "ilog2 n = (if n \<le> 1 then 0 else Suc (ilog2 (n div 2)))"

declare ilog2.simps [simp del]

definition dbl_pack :: "bool \<Rightarrow> nat \<Rightarrow> nat \<Rightarrow> lua_Number" where
  "dbl_pack s e f = of_nat ((if s then 2 ^ 63 else 0) + e * 2 ^ 52 + f)"

definition dbl_of_nat :: "bool \<Rightarrow> nat \<Rightarrow> lua_Number" where
  "dbl_of_nat s m = (if m = 0 then 0
     else dbl_pack s (1023 + ilog2 m) ((m - 2 ^ ilog2 m) * 2 ^ (52 - ilog2 m)))"

definition cast_num :: "int \<Rightarrow> lua_Number" where
  "cast_num k = dbl_of_nat (k < 0) (nat \<bar>k\<bar>)"

definition INT_MIN :: int where "INT_MIN = - (2 ^ 31)"
definition INT_MAX :: int where "INT_MAX = 2 ^ 31 - 1"
definition MAX_INT :: int where "MAX_INT = INT_MAX - 2"

text \<open>
  The truncated magnitude: \<open>(2\<^sup>5\<^sup>2 + frac) * 2\<^bsup>exp - 1075\<^esup>\<close> for a normal number.
\<close>

definition dbl_trunc :: "lua_Number \<Rightarrow> nat" where
  "dbl_trunc n =
     (if dbl_exp n < 1023 then 0
      else if dbl_exp n \<le> 1075 then (2 ^ 52 + dbl_frac n) div 2 ^ (1075 - dbl_exp n)
      else (2 ^ 52 + dbl_frac n) * 2 ^ (dbl_exp n - 1075))"

text \<open>
  \<open>(int)(d)\<close>. C leaves the conversion of a value outside the range of int undefined; on
  the targets that use this form of the macro (SSE2) it yields \<open>INT_MIN\<close>. Every use in
  the modelled code compares the result with the argument again.
\<close>

definition lua_number2int :: "lua_Number \<Rightarrow> int" where
  "lua_number2int d =
     (let k = (if dbl_neg d then - int (dbl_trunc d) else int (dbl_trunc d))
      in if dbl_exp d = 2047 \<or> k < INT_MIN \<or> INT_MAX < k then INT_MIN else k)"

lemma int_limits [simp]: "INT_MIN = -2147483648" "INT_MAX = 2147483647" "MAX_INT = 2147483645"
  by (simp_all add: INT_MIN_def INT_MAX_def MAX_INT_def)

section \<open>Fields as arithmetic\<close>

lemma dbl_arith:
  "dbl_neg n \<longleftrightarrow> odd (unat n div 2 ^ 63)"
  "dbl_exp n = unat n div 2 ^ 52 mod 2 ^ 11"
  "dbl_frac n = unat n mod 2 ^ 52"
  "dbl_mag n = unat n mod 2 ^ 63"
proof -
  have "bit n 63 \<longleftrightarrow> bit (unat n) 63" by (simp add: bit_unsigned_iff)
  then show "dbl_neg n \<longleftrightarrow> odd (unat n div 2 ^ 63)"
    by (simp add: dbl_neg_def bit_iff_odd)
qed (simp_all add: dbl_exp_def dbl_frac_def dbl_mag_def unsigned_take_bit_eq
      unsigned_drop_bit_eq take_bit_eq_mod drop_bit_eq_div unat_mod_distrib unat_div_distrib)

lemma ilog2_bounds:
  assumes "0 < n" shows "2 ^ ilog2 n \<le> n" and "n < 2 ^ Suc (ilog2 n)"
proof -
  have "2 ^ ilog2 n \<le> n \<and> n < 2 ^ Suc (ilog2 n)"
    using assms
  proof (induction n rule: ilog2.induct)
    case (1 n)
    show ?case
    proof (cases "n \<le> 1")
      case True
      with 1 show ?thesis by (simp add: ilog2.simps [of n])
    next
      case False
      with 1 have "2 ^ ilog2 (n div 2) \<le> n div 2 \<and> n div 2 < 2 ^ Suc (ilog2 (n div 2))"
        by auto
      with False show ?thesis
        by (auto simp: ilog2.simps [of n])
    qed
  qed
  then show "2 ^ ilog2 n \<le> n" and "n < 2 ^ Suc (ilog2 n)" by auto
qed

lemma ilog2_le:
  assumes "0 < n" "n < 2 ^ Suc k" shows "ilog2 n \<le> k"
proof (rule ccontr)
  assume "\<not> ilog2 n \<le> k"
  then have "(2::nat) ^ Suc k \<le> 2 ^ ilog2 n" by (intro power_increasing) auto
  with ilog2_bounds(1) [OF assms(1)] assms(2) show False by simp
qed

lemma dbl_pack_fields:
  assumes "e < 2048" "f < 2 ^ 52"
  shows "dbl_neg (dbl_pack s e f) = s" "dbl_exp (dbl_pack s e f) = e"
    "dbl_frac (dbl_pack s e f) = f" "dbl_mag (dbl_pack s e f) = e * 2 ^ 52 + f"
proof -
  have u: "unat (dbl_pack s e f) = (if s then 2 ^ 63 else 0) + e * 2 ^ 52 + f"
    unfolding dbl_pack_def unat_of_nat by (rule mod_less) (use assms in simp)
  then have u': "unat (dbl_pack s e f) = ((if s then 2048 else 0) + e) * 2 ^ 52 + f"
    by simp
  have m: "e * 2 ^ 52 + f < 2 ^ 63" using assms by simp
  show "dbl_mag (dbl_pack s e f) = e * 2 ^ 52 + f"
    using m u by (cases s) (simp_all add: dbl_arith add.assoc)
  show "dbl_frac (dbl_pack s e f) = f"
    using assms unfolding dbl_arith u' by (subst mod_mult_self3) simp
  have "unat (dbl_pack s e f) div 2 ^ 52 = (if s then 2048 else 0) + e"
    unfolding u' using assms by (subst div_mult_self3) simp_all
  then show "dbl_exp (dbl_pack s e f) = e"
    using assms by (simp add: dbl_arith)
  have "unat (dbl_pack s e f) div 2 ^ 63 = (if s then 1 else 0)"
    using m u by (cases s) (simp_all add: div_add_self1 add.assoc)
  then show "dbl_neg (dbl_pack s e f) = s"
    by (cases s) (simp_all add: dbl_arith)
qed

section \<open>The conversions on C ints\<close>

definition is_int32 :: "int \<Rightarrow> bool" where
  "is_int32 k \<longleftrightarrow> INT_MIN \<le> k \<and> k \<le> INT_MAX"

lemma ilog2_int32: "0 < m \<Longrightarrow> m < 2 ^ 32 \<Longrightarrow> ilog2 m \<le> 31"
  using ilog2_le [of m 31] by simp

lemma dbl_of_nat_fields:
  fixes m :: nat
  assumes "0 < m" "m < 2 ^ 32"
  defines "e \<equiv> ilog2 m"
  shows "dbl_neg (dbl_of_nat s m) = s" "dbl_exp (dbl_of_nat s m) = 1023 + e"
    "dbl_frac (dbl_of_nat s m) = (m - 2 ^ e) * 2 ^ (52 - e)"
    "dbl_mag (dbl_of_nat s m) = (1023 + e) * 2 ^ 52 + (m - 2 ^ e) * 2 ^ (52 - e)"
proof -
  have e: "e \<le> 31" using ilog2_int32 assms by (simp add: e_def)
  have "m - 2 ^ e < 2 ^ e" using ilog2_bounds [OF assms(1)] by (simp add: e_def)
  then have "(m - 2 ^ e) * 2 ^ (52 - e) < 2 ^ e * 2 ^ (52 - e)" by simp
  also have "\<dots> = 2 ^ 52" using e by (simp flip: power_add)
  finally have f: "(m - 2 ^ e) * 2 ^ (52 - e) < 2 ^ 52" .
  have "dbl_of_nat s m = dbl_pack s (1023 + e) ((m - 2 ^ e) * 2 ^ (52 - e))"
    using assms(1) by (simp add: dbl_of_nat_def e_def)
  with dbl_pack_fields [OF _ f, of "1023 + e" s] e
  show "dbl_neg (dbl_of_nat s m) = s" "dbl_exp (dbl_of_nat s m) = 1023 + e"
    "dbl_frac (dbl_of_nat s m) = (m - 2 ^ e) * 2 ^ (52 - e)"
    "dbl_mag (dbl_of_nat s m) = (1023 + e) * 2 ^ 52 + (m - 2 ^ e) * 2 ^ (52 - e)" by simp_all
qed

lemma dbl_trunc_of_nat:
  assumes "0 < m" "m < 2 ^ 32"
  shows "dbl_trunc (dbl_of_nat s m) = m"
proof -
  define e where "e = ilog2 m"
  note F = dbl_of_nat_fields [OF assms, folded e_def]
  have le: "2 ^ e \<le> m" using ilog2_bounds(1) [OF assms(1)] by (simp add: e_def)
  have e: "e \<le> 31" using ilog2_int32 [OF assms] by (simp add: e_def)
  have "(2::nat) ^ 52 = 2 ^ e * 2 ^ (52 - e)" using e by (simp flip: power_add)
  then have "2 ^ 52 + (m - 2 ^ e) * 2 ^ (52 - e) = m * 2 ^ (52 - e)"
    using le by (simp flip: add_mult_distrib del: power_numeral)
  moreover have "1075 - (1023 + e) = 52 - e" by simp
  ultimately show ?thesis
    using F e by (simp add: dbl_trunc_def)
qed

lemma dbl_zero_0 [simp]: "dbl_zero 0" "\<not> dbl_nan 0" "\<not> dbl_neg 0"
  by (simp_all add: dbl_zero_def dbl_nan_def dbl_neg_def dbl_mag_def dbl_exp_def)

lemma cast_num_0 [simp]: "cast_num 0 = 0"
  by (simp add: cast_num_def dbl_of_nat_def)

lemma cast_num_cases:
  assumes "is_int32 k" "k \<noteq> 0"
  shows "cast_num k = dbl_of_nat (k < 0) (nat \<bar>k\<bar>)" "0 < nat \<bar>k\<bar>" "nat \<bar>k\<bar> < 2 ^ 32"
  using assms by (auto simp: cast_num_def is_int32_def)

lemma cast_num_fields:
  assumes "is_int32 k" "k \<noteq> 0"
  shows "dbl_neg (cast_num k) \<longleftrightarrow> k < 0" and "dbl_trunc (cast_num k) = nat \<bar>k\<bar>"
    and "dbl_exp (cast_num k) < 2047" and "0 < dbl_mag (cast_num k)"
proof -
  note C = cast_num_cases [OF assms]
  show "dbl_neg (cast_num k) \<longleftrightarrow> k < 0"
    unfolding C(1) by (rule dbl_of_nat_fields(1) [OF C(2,3)])
  show "dbl_trunc (cast_num k) = nat \<bar>k\<bar>"
    unfolding C(1) by (rule dbl_trunc_of_nat [OF C(2,3)])
  show "dbl_exp (cast_num k) < 2047"
    unfolding C(1) dbl_of_nat_fields(2) [OF C(2,3)] using ilog2_int32 [OF C(2,3)] by linarith
  show "0 < dbl_mag (cast_num k)"
    unfolding C(1) dbl_of_nat_fields(4) [OF C(2,3)] by simp
qed

lemma number2int_cast_num: "is_int32 k \<Longrightarrow> lua_number2int (cast_num k) = k"
proof (cases "k = 0")
  case True
  then show ?thesis
    by (simp add: lua_number2int_def dbl_trunc_def dbl_exp_def)
next
  case False
  assume "is_int32 k"
  then show ?thesis
    using cast_num_fields [OF _ False]
    by (simp add: lua_number2int_def is_int32_def)
qed

lemma cast_num_not_nan [simp]: "is_int32 k \<Longrightarrow> \<not> dbl_nan (cast_num k)"
  using cast_num_fields(3) [of k] dbl_zero_0(2) by (cases "k = 0") (simp, simp add: dbl_nan_def)

lemma cast_num_zero_iff [simp]: "is_int32 k \<Longrightarrow> dbl_zero (cast_num k) \<longleftrightarrow> k = 0"
  using cast_num_fields(4) [of k] by (cases "k = 0") (simp, simp add: dbl_zero_def)

lemma cast_num_inject: "is_int32 k \<Longrightarrow> is_int32 l \<Longrightarrow> cast_num k = cast_num l \<longleftrightarrow> k = l"
  by (metis number2int_cast_num)

lemma cast_num_numeq: "is_int32 k \<Longrightarrow> is_int32 l \<Longrightarrow> luai_numeq (cast_num k) (cast_num l) \<longleftrightarrow> k = l"
  by (auto simp: luai_numeq_def cast_num_inject)

lemma number2int_range: "is_int32 (lua_number2int d)"
  by (auto simp: lua_number2int_def Let_def is_int32_def)

section \<open>Equality of numbers is a partial equivalence\<close>

lemma numeq_sym: "luai_numeq a b \<longleftrightarrow> luai_numeq b a"
  by (auto simp: luai_numeq_def)

lemma numeq_trans: "luai_numeq a b \<Longrightarrow> luai_numeq b c \<Longrightarrow> luai_numeq a c"
  by (auto simp: luai_numeq_def)

lemma numeq_refl: "luai_numeq a b \<Longrightarrow> luai_numeq a a"
  by (auto simp: luai_numeq_def)

lemma numisnan_iff: "luai_numisnan a \<longleftrightarrow> dbl_nan a"
  by (auto simp: luai_numisnan_def luai_numeq_def)

lemma number2int_cong: "luai_numeq a b \<Longrightarrow> lua_number2int a = lua_number2int b"
proof -
  have z: "lua_number2int d = 0" if "dbl_zero d" for d
  proof -
    have "2 ^ 63 dvd unat d" using that by (simp add: dbl_zero_def dbl_arith mod_eq_0_iff_dvd)
    then obtain q where "unat d = 2 ^ 52 * (2 ^ 11 * q)" by (auto elim!: dvdE)
    then have "dbl_exp d = 0" by (simp add: dbl_arith)
    then show ?thesis by (simp add: lua_number2int_def dbl_trunc_def)
  qed
  show "luai_numeq a b \<Longrightarrow> lua_number2int a = lua_number2int b"
    by (auto simp: luai_numeq_def z)
qed

end
