(* ===== verification/Opcodes.thy ===== *)
theory Opcodes
  imports Prelude
begin

text \<open>
  The instruction format of \<open>lopcodes.h\<close> and the table of instruction properties of
  \<open>lopcodes.c\<close>: field extraction and insertion on 32-bit words, written with the same
  shifts and masks as the macros, and the laws that make an instruction a record of
  fields. \<open>GET_OPCODE\<close> returns the raw number: a damaged instruction may hold a value
  that is no opcode.
\<close>

section \<open>Sizes and positions of the fields\<close>

definition SIZE_C :: nat where "SIZE_C = 9"
definition SIZE_B :: nat where "SIZE_B = 9"
definition SIZE_Bx :: nat where "SIZE_Bx = SIZE_C + SIZE_B"
definition SIZE_A :: nat where "SIZE_A = 8"
definition SIZE_OP :: nat where "SIZE_OP = 6"
definition POS_OP :: nat where "POS_OP = 0"
definition POS_A :: nat where "POS_A = POS_OP + SIZE_OP"
definition POS_C :: nat where "POS_C = POS_A + SIZE_A"
definition POS_B :: nat where "POS_B = POS_C + SIZE_C"
definition POS_Bx :: nat where "POS_Bx = POS_C"

lemmas field_defs = SIZE_C_def SIZE_B_def SIZE_Bx_def SIZE_A_def SIZE_OP_def
  POS_OP_def POS_A_def POS_C_def POS_B_def POS_Bx_def

definition MAXARG_Bx :: int where "MAXARG_Bx = push_bit SIZE_Bx 1 - 1"
definition MAXARG_sBx :: int where "MAXARG_sBx = drop_bit 1 MAXARG_Bx"
definition MAXARG_A :: int where "MAXARG_A = push_bit SIZE_A 1 - 1"
definition MAXARG_B :: int where "MAXARG_B = push_bit SIZE_B 1 - 1"
definition MAXARG_C :: int where "MAXARG_C = push_bit SIZE_C 1 - 1"

lemma MAXARG_values [simp]:
  "MAXARG_Bx = 262143" "MAXARG_sBx = 131071" "MAXARG_A = 255" "MAXARG_B = 511" "MAXARG_C = 511"
  by (simp_all add: MAXARG_Bx_def MAXARG_sBx_def MAXARG_A_def MAXARG_B_def MAXARG_C_def field_defs)

section \<open>Masks and field access\<close>

definition MASK1 :: "nat \<Rightarrow> nat \<Rightarrow> u32" where
  "MASK1 n p = push_bit p (NOT (push_bit n (NOT 0)))"

definition MASK0 :: "nat \<Rightarrow> nat \<Rightarrow> u32" where
  "MASK0 n p = NOT (MASK1 n p)"

definition GET_OPCODE :: "u32 \<Rightarrow> nat" where
  "GET_OPCODE i = unat (drop_bit POS_OP i AND MASK1 SIZE_OP 0)"

definition SET_OPCODE :: "u32 \<Rightarrow> nat \<Rightarrow> u32" where
  "SET_OPCODE i op = (i AND MASK0 SIZE_OP POS_OP) OR
     (push_bit POS_OP (of_nat op) AND MASK1 SIZE_OP POS_OP)"

definition GETARG_A :: "u32 \<Rightarrow> int" where
  "GETARG_A i = uint (drop_bit POS_A i AND MASK1 SIZE_A 0)"

definition SETARG_A :: "u32 \<Rightarrow> int \<Rightarrow> u32" where
  "SETARG_A i u = (i AND MASK0 SIZE_A POS_A) OR
     (push_bit POS_A (word_of_int u) AND MASK1 SIZE_A POS_A)"

definition GETARG_B :: "u32 \<Rightarrow> int" where
  "GETARG_B i = uint (drop_bit POS_B i AND MASK1 SIZE_B 0)"

definition SETARG_B :: "u32 \<Rightarrow> int \<Rightarrow> u32" where
  "SETARG_B i b = (i AND MASK0 SIZE_B POS_B) OR
     (push_bit POS_B (word_of_int b) AND MASK1 SIZE_B POS_B)"

definition GETARG_C :: "u32 \<Rightarrow> int" where
  "GETARG_C i = uint (drop_bit POS_C i AND MASK1 SIZE_C 0)"

definition SETARG_C :: "u32 \<Rightarrow> int \<Rightarrow> u32" where
  "SETARG_C i b = (i AND MASK0 SIZE_C POS_C) OR
     (push_bit POS_C (word_of_int b) AND MASK1 SIZE_C POS_C)"

definition GETARG_Bx :: "u32 \<Rightarrow> int" where
  "GETARG_Bx i = uint (drop_bit POS_Bx i AND MASK1 SIZE_Bx 0)"

definition SETARG_Bx :: "u32 \<Rightarrow> int \<Rightarrow> u32" where
  "SETARG_Bx i b = (i AND MASK0 SIZE_Bx POS_Bx) OR
     (push_bit POS_Bx (word_of_int b) AND MASK1 SIZE_Bx POS_Bx)"

definition GETARG_sBx :: "u32 \<Rightarrow> int" where
  "GETARG_sBx i = GETARG_Bx i - MAXARG_sBx"

definition SETARG_sBx :: "u32 \<Rightarrow> int \<Rightarrow> u32" where
  "SETARG_sBx i b = SETARG_Bx i (uint (word_of_int (b + MAXARG_sBx) :: u32))"

definition CREATE_ABC :: "nat \<Rightarrow> int \<Rightarrow> int \<Rightarrow> int \<Rightarrow> u32" where
  "CREATE_ABC op a b c =
     push_bit POS_OP (of_nat op) OR push_bit POS_A (word_of_int a) OR
     push_bit POS_B (word_of_int b) OR push_bit POS_C (word_of_int c)"

definition CREATE_ABx :: "nat \<Rightarrow> int \<Rightarrow> int \<Rightarrow> u32" where
  "CREATE_ABx op a bc =
     push_bit POS_OP (of_nat op) OR push_bit POS_A (word_of_int a) OR
     push_bit POS_Bx (word_of_int bc)"

lemmas getarg_defs = GET_OPCODE_def GETARG_A_def GETARG_B_def GETARG_C_def GETARG_Bx_def
lemmas setarg_defs = SET_OPCODE_def SETARG_A_def SETARG_B_def SETARG_C_def SETARG_Bx_def

section \<open>RK operands\<close>

definition BITRK :: int where "BITRK = push_bit (SIZE_B - 1) 1"
definition ISK :: "int \<Rightarrow> bool" where "ISK x \<longleftrightarrow> x AND BITRK \<noteq> 0"
definition INDEXK :: "int \<Rightarrow> int" where "INDEXK r = r AND NOT BITRK"
definition MAXINDEXRK :: int where "MAXINDEXRK = BITRK - 1"
definition RKASK :: "int \<Rightarrow> int" where "RKASK x = x OR BITRK"
definition NO_REG :: int where "NO_REG = MAXARG_A"

lemma BITRK_values [simp]: "BITRK = 256" "MAXINDEXRK = 255" "NO_REG = 255"
  by (simp_all add: BITRK_def MAXINDEXRK_def NO_REG_def field_defs)

section \<open>Opcodes\<close>

datatype OpCode =
    OP_MOVE | OP_LOADK | OP_LOADBOOL | OP_LOADNIL | OP_GETUPVAL
  | OP_GETGLOBAL | OP_GETTABLE | OP_SETGLOBAL | OP_SETUPVAL | OP_SETTABLE
  | OP_NEWTABLE | OP_SELF
  | OP_ADD | OP_SUB | OP_MUL | OP_DIV | OP_MOD | OP_POW | OP_UNM | OP_NOT | OP_LEN
  | OP_CONCAT | OP_JMP
  | OP_EQ | OP_LT | OP_LE | OP_TEST | OP_TESTSET
  | OP_CALL | OP_TAILCALL | OP_RETURN
  | OP_FORLOOP | OP_FORPREP | OP_TFORLOOP | OP_SETLIST
  | OP_CLOSE | OP_CLOSURE | OP_VARARG

text \<open>The numbering of the C enumeration.\<close>

definition OpCodes :: "OpCode list" where
  "OpCodes = [OP_MOVE, OP_LOADK, OP_LOADBOOL, OP_LOADNIL, OP_GETUPVAL,
     OP_GETGLOBAL, OP_GETTABLE, OP_SETGLOBAL, OP_SETUPVAL, OP_SETTABLE,
     OP_NEWTABLE, OP_SELF,
     OP_ADD, OP_SUB, OP_MUL, OP_DIV, OP_MOD, OP_POW, OP_UNM, OP_NOT, OP_LEN,
     OP_CONCAT, OP_JMP,
     OP_EQ, OP_LT, OP_LE, OP_TEST, OP_TESTSET,
     OP_CALL, OP_TAILCALL, OP_RETURN,
     OP_FORLOOP, OP_FORPREP, OP_TFORLOOP, OP_SETLIST,
     OP_CLOSE, OP_CLOSURE, OP_VARARG]"

primrec op_num :: "OpCode \<Rightarrow> nat" where
  "op_num OP_MOVE = 0"
| "op_num OP_LOADK = 1"
| "op_num OP_LOADBOOL = 2"
| "op_num OP_LOADNIL = 3"
| "op_num OP_GETUPVAL = 4"
| "op_num OP_GETGLOBAL = 5"
| "op_num OP_GETTABLE = 6"
| "op_num OP_SETGLOBAL = 7"
| "op_num OP_SETUPVAL = 8"
| "op_num OP_SETTABLE = 9"
| "op_num OP_NEWTABLE = 10"
| "op_num OP_SELF = 11"
| "op_num OP_ADD = 12"
| "op_num OP_SUB = 13"
| "op_num OP_MUL = 14"
| "op_num OP_DIV = 15"
| "op_num OP_MOD = 16"
| "op_num OP_POW = 17"
| "op_num OP_UNM = 18"
| "op_num OP_NOT = 19"
| "op_num OP_LEN = 20"
| "op_num OP_CONCAT = 21"
| "op_num OP_JMP = 22"
| "op_num OP_EQ = 23"
| "op_num OP_LT = 24"
| "op_num OP_LE = 25"
| "op_num OP_TEST = 26"
| "op_num OP_TESTSET = 27"
| "op_num OP_CALL = 28"
| "op_num OP_TAILCALL = 29"
| "op_num OP_RETURN = 30"
| "op_num OP_FORLOOP = 31"
| "op_num OP_FORPREP = 32"
| "op_num OP_TFORLOOP = 33"
| "op_num OP_SETLIST = 34"
| "op_num OP_CLOSE = 35"
| "op_num OP_CLOSURE = 36"
| "op_num OP_VARARG = 37"

definition NUM_OPCODES :: nat where "NUM_OPCODES = op_num OP_VARARG + 1"

lemma op_num_less: "op_num op < 38"
  by (cases op) simp_all

lemma op_num_less_64 [simp]: "op_num op < 64"
  using op_num_less [of op] by simp

lemma op_num_nth: "OpCodes ! op_num op = op"
  by (cases op) (simp_all add: OpCodes_def)

lemma op_num_inject [simp]: "op_num x = op_num y \<longleftrightarrow> x = y"
  by (metis op_num_nth)

definition luaP_opnames :: "string list" where
  "luaP_opnames = [''MOVE'', ''LOADK'', ''LOADBOOL'', ''LOADNIL'', ''GETUPVAL'', ''GETGLOBAL'',
     ''GETTABLE'', ''SETGLOBAL'', ''SETUPVAL'', ''SETTABLE'', ''NEWTABLE'', ''SELF'', ''ADD'', ''SUB'',
     ''MUL'', ''DIV'', ''MOD'', ''POW'', ''UNM'', ''NOT'', ''LEN'', ''CONCAT'', ''JMP'', ''EQ'', ''LT'', ''LE'',
     ''TEST'', ''TESTSET'', ''CALL'', ''TAILCALL'', ''RETURN'', ''FORLOOP'', ''FORPREP'', ''TFORLOOP'',
     ''SETLIST'', ''CLOSE'', ''CLOSURE'', ''VARARG'']"

section \<open>Instruction properties\<close>

datatype OpMode = iABC | iABx | iAsBx

datatype OpArgMask = OpArgN | OpArgU | OpArgR | OpArgK

primrec opmode_num :: "OpMode \<Rightarrow> nat" where
  "opmode_num iABC = 0" | "opmode_num iABx = 1" | "opmode_num iAsBx = 2"

primrec opargmask_num :: "OpArgMask \<Rightarrow> nat" where
  "opargmask_num OpArgN = 0" | "opargmask_num OpArgU = 1"
| "opargmask_num OpArgR = 2" | "opargmask_num OpArgK = 3"

definition opmode :: "nat \<Rightarrow> nat \<Rightarrow> OpArgMask \<Rightarrow> OpArgMask \<Rightarrow> OpMode \<Rightarrow> u8" where
  "opmode t a b c m =
     push_bit 7 (of_nat t) OR push_bit 6 (of_nat a) OR push_bit 4 (of_nat (opargmask_num b)) OR
     push_bit 2 (of_nat (opargmask_num c)) OR of_nat (opmode_num m)"

definition luaP_opmodes :: "u8 list" where
  "luaP_opmodes = [
    opmode 0 1 OpArgR OpArgN iABC,   \<comment> \<open>MOVE\<close>
    opmode 0 1 OpArgK OpArgN iABx,   \<comment> \<open>LOADK\<close>
    opmode 0 1 OpArgU OpArgU iABC,   \<comment> \<open>LOADBOOL\<close>
    opmode 0 1 OpArgR OpArgN iABC,   \<comment> \<open>LOADNIL\<close>
    opmode 0 1 OpArgU OpArgN iABC,   \<comment> \<open>GETUPVAL\<close>
    opmode 0 1 OpArgK OpArgN iABx,   \<comment> \<open>GETGLOBAL\<close>
    opmode 0 1 OpArgR OpArgK iABC,   \<comment> \<open>GETTABLE\<close>
    opmode 0 0 OpArgK OpArgN iABx,   \<comment> \<open>SETGLOBAL\<close>
    opmode 0 0 OpArgU OpArgN iABC,   \<comment> \<open>SETUPVAL\<close>
    opmode 0 0 OpArgK OpArgK iABC,   \<comment> \<open>SETTABLE\<close>
    opmode 0 1 OpArgU OpArgU iABC,   \<comment> \<open>NEWTABLE\<close>
    opmode 0 1 OpArgR OpArgK iABC,   \<comment> \<open>SELF\<close>
    opmode 0 1 OpArgK OpArgK iABC,   \<comment> \<open>ADD\<close>
    opmode 0 1 OpArgK OpArgK iABC,   \<comment> \<open>SUB\<close>
    opmode 0 1 OpArgK OpArgK iABC,   \<comment> \<open>MUL\<close>
    opmode 0 1 OpArgK OpArgK iABC,   \<comment> \<open>DIV\<close>
    opmode 0 1 OpArgK OpArgK iABC,   \<comment> \<open>MOD\<close>
    opmode 0 1 OpArgK OpArgK iABC,   \<comment> \<open>POW\<close>
    opmode 0 1 OpArgR OpArgN iABC,   \<comment> \<open>UNM\<close>
    opmode 0 1 OpArgR OpArgN iABC,   \<comment> \<open>NOT\<close>
    opmode 0 1 OpArgR OpArgN iABC,   \<comment> \<open>LEN\<close>
    opmode 0 1 OpArgR OpArgR iABC,   \<comment> \<open>CONCAT\<close>
    opmode 0 0 OpArgR OpArgN iAsBx,  \<comment> \<open>JMP\<close>
    opmode 1 0 OpArgK OpArgK iABC,   \<comment> \<open>EQ\<close>
    opmode 1 0 OpArgK OpArgK iABC,   \<comment> \<open>LT\<close>
    opmode 1 0 OpArgK OpArgK iABC,   \<comment> \<open>LE\<close>
    opmode 1 1 OpArgR OpArgU iABC,   \<comment> \<open>TEST\<close>
    opmode 1 1 OpArgR OpArgU iABC,   \<comment> \<open>TESTSET\<close>
    opmode 0 1 OpArgU OpArgU iABC,   \<comment> \<open>CALL\<close>
    opmode 0 1 OpArgU OpArgU iABC,   \<comment> \<open>TAILCALL\<close>
    opmode 0 0 OpArgU OpArgN iABC,   \<comment> \<open>RETURN\<close>
    opmode 0 1 OpArgR OpArgN iAsBx,  \<comment> \<open>FORLOOP\<close>
    opmode 0 1 OpArgR OpArgN iAsBx,  \<comment> \<open>FORPREP\<close>
    opmode 1 0 OpArgN OpArgU iABC,   \<comment> \<open>TFORLOOP\<close>
    opmode 0 0 OpArgU OpArgU iABC,   \<comment> \<open>SETLIST\<close>
    opmode 0 0 OpArgN OpArgN iABC,   \<comment> \<open>CLOSE\<close>
    opmode 0 1 OpArgU OpArgN iABx,   \<comment> \<open>CLOSURE\<close>
    opmode 0 1 OpArgU OpArgN iABC]   \<comment> \<open>VARARG\<close>"

definition getOpMode :: "nat \<Rightarrow> nat" where
  "getOpMode m = unat (luaP_opmodes ! m AND 3)"

definition getBMode :: "nat \<Rightarrow> nat" where
  "getBMode m = unat (drop_bit 4 (luaP_opmodes ! m) AND 3)"

definition getCMode :: "nat \<Rightarrow> nat" where
  "getCMode m = unat (drop_bit 2 (luaP_opmodes ! m) AND 3)"

definition testAMode :: "nat \<Rightarrow> bool" where
  "testAMode m \<longleftrightarrow> luaP_opmodes ! m AND push_bit 6 1 \<noteq> 0"

definition testTMode :: "nat \<Rightarrow> bool" where
  "testTMode m \<longleftrightarrow> luaP_opmodes ! m AND push_bit 7 1 \<noteq> 0"

section \<open>Laws of the fields\<close>

lemma bit_MASK1 [bit_simps]: "bit (MASK1 n p) k \<longleftrightarrow> p \<le> k \<and> k < p + n \<and> k < 32"
  by (auto simp: MASK1_def bit_simps)

lemma bit_MASK0 [bit_simps]: "bit (MASK0 n p) k \<longleftrightarrow> \<not> (p \<le> k \<and> k < p + n) \<and> k < 32"
  by (auto simp: MASK0_def bit_simps)

text \<open>One generic field: width \<open>n\<close> at position \<open>p\<close>.\<close>

definition get_field :: "nat \<Rightarrow> nat \<Rightarrow> u32 \<Rightarrow> u32" where
  "get_field n p i = drop_bit p i AND MASK1 n 0"

definition set_field :: "nat \<Rightarrow> nat \<Rightarrow> u32 \<Rightarrow> u32 \<Rightarrow> u32" where
  "set_field n p i u = (i AND MASK0 n p) OR (push_bit p u AND MASK1 n p)"

lemma get_set_field:
  assumes "n + p \<le> 32"
  shows "get_field n p (set_field n p i u) = take_bit n u"
  by (rule bit_eqI) (use assms in \<open>auto simp: get_field_def set_field_def bit_simps\<close>)

lemma get_set_field_other:
  assumes "p + n \<le> q \<or> q + m \<le> p" and "q + m \<le> 32"
  shows "get_field m q (set_field n p i u) = get_field m q i"
  by (rule bit_eqI) (use assms in \<open>auto simp: get_field_def set_field_def bit_simps\<close>)

lemma set_field_id: "set_field n p i (get_field n p i) = i"
  by (rule bit_eqI) (auto simp: get_field_def set_field_def bit_simps)

lemma uint_take_bit_32: "uint (take_bit n (word_of_int u :: u32)) = take_bit (min n 32) u"
  by (simp add: unsigned_take_bit_eq uint_word_of_int_eq min.commute)

lemma uint_take_bit_small:
  assumes "0 \<le> u" "u < 2 ^ n" "n \<le> 32"
  shows "uint (take_bit n (word_of_int u :: u32)) = u"
  using assms by (simp add: uint_take_bit_32 take_bit_int_eq_self)

lemmas field_conv =
  getarg_defs [folded get_field_def] setarg_defs [folded set_field_def]

lemma getarg_bounds:
  "0 \<le> GETARG_A i" "GETARG_A i \<le> MAXARG_A" "0 \<le> GETARG_B i" "GETARG_B i \<le> MAXARG_B"
  "0 \<le> GETARG_C i" "GETARG_C i \<le> MAXARG_C" "0 \<le> GETARG_Bx i" "GETARG_Bx i \<le> MAXARG_Bx"
proof -
  have *: "uint (w AND MASK1 n 0) \<le> 2 ^ n - 1" if "n < 32" for n and w :: u32
  proof -
    have "w AND MASK1 n 0 = take_bit n w"
      by (rule bit_eqI) (use that in \<open>auto simp: bit_simps\<close>)
    moreover have "take_bit n (uint w) < 2 ^ n" by simp
    ultimately show ?thesis
      by (simp add: unsigned_take_bit_eq)
  qed
  show "GETARG_A i \<le> MAXARG_A" using * [of 8] by (simp add: GETARG_A_def field_defs)
  show "GETARG_B i \<le> MAXARG_B" using * [of 9] by (simp add: GETARG_B_def field_defs)
  show "GETARG_C i \<le> MAXARG_C" using * [of 9] by (simp add: GETARG_C_def field_defs)
  show "GETARG_Bx i \<le> MAXARG_Bx" using * [of 18] by (simp add: GETARG_Bx_def field_defs)
qed (simp_all add: getarg_defs)

lemma SET_OPCODE_get:
  "GET_OPCODE (SET_OPCODE i op) = op mod 64" "GETARG_A (SET_OPCODE i op) = GETARG_A i"
  "GETARG_B (SET_OPCODE i op) = GETARG_B i" "GETARG_C (SET_OPCODE i op) = GETARG_C i"
  "GETARG_Bx (SET_OPCODE i op) = GETARG_Bx i"
proof -
  have "unat (take_bit 6 (of_nat op :: u32)) = op mod 64"
    by (simp add: unsigned_take_bit_eq take_bit_eq_mod unat_of_nat unat_mod_distrib mod_mod_cancel)
  then show "GET_OPCODE (SET_OPCODE i op) = op mod 64"
    by (simp add: field_conv field_defs get_set_field)
qed (simp_all add: field_conv field_defs get_set_field_other)

lemma SETARG_A_get [simp]:
  "GET_OPCODE (SETARG_A i u) = GET_OPCODE i" "GETARG_B (SETARG_A i u) = GETARG_B i"
  "GETARG_C (SETARG_A i u) = GETARG_C i" "GETARG_Bx (SETARG_A i u) = GETARG_Bx i"
  by (simp_all add: field_conv field_defs get_set_field_other)

lemma SETARG_A_same [simp]:
  "0 \<le> u \<Longrightarrow> u \<le> MAXARG_A \<Longrightarrow> GETARG_A (SETARG_A i u) = u"
  by (simp add: field_conv field_defs get_set_field uint_take_bit_small)

lemma SETARG_B_get [simp]:
  "GET_OPCODE (SETARG_B i u) = GET_OPCODE i" "GETARG_A (SETARG_B i u) = GETARG_A i"
  "GETARG_C (SETARG_B i u) = GETARG_C i"
  by (simp_all add: field_conv field_defs get_set_field_other)

lemma SETARG_B_same [simp]:
  "0 \<le> u \<Longrightarrow> u \<le> MAXARG_B \<Longrightarrow> GETARG_B (SETARG_B i u) = u"
  by (simp add: field_conv field_defs get_set_field uint_take_bit_small)

lemma SETARG_C_get [simp]:
  "GET_OPCODE (SETARG_C i u) = GET_OPCODE i" "GETARG_A (SETARG_C i u) = GETARG_A i"
  "GETARG_B (SETARG_C i u) = GETARG_B i"
  by (simp_all add: field_conv field_defs get_set_field_other)

lemma SETARG_C_same [simp]:
  "0 \<le> u \<Longrightarrow> u \<le> MAXARG_C \<Longrightarrow> GETARG_C (SETARG_C i u) = u"
  by (simp add: field_conv field_defs get_set_field uint_take_bit_small)

lemma SETARG_Bx_get [simp]:
  "GET_OPCODE (SETARG_Bx i u) = GET_OPCODE i" "GETARG_A (SETARG_Bx i u) = GETARG_A i"
  by (simp_all add: field_conv field_defs get_set_field_other)

lemma SETARG_Bx_same [simp]:
  "0 \<le> u \<Longrightarrow> u \<le> MAXARG_Bx \<Longrightarrow> GETARG_Bx (SETARG_Bx i u) = u"
  by (simp add: field_conv field_defs get_set_field uint_take_bit_small)

lemma SETARG_sBx_get [simp]:
  "GET_OPCODE (SETARG_sBx i u) = GET_OPCODE i" "GETARG_A (SETARG_sBx i u) = GETARG_A i"
  by (simp_all add: SETARG_sBx_def)

lemma SETARG_sBx_same [simp]:
  assumes "\<bar>b\<bar> \<le> MAXARG_sBx"
  shows "GETARG_sBx (SETARG_sBx i b) = b"
proof -
  have "uint (word_of_int (b + MAXARG_sBx) :: u32) = b + MAXARG_sBx"
    using assms by (simp add: uint_word_of_int del: of_int_add)
  with assms show ?thesis
    by (simp add: GETARG_sBx_def SETARG_sBx_def)
qed

section \<open>Whole instructions\<close>

lemma get_field_CREATE_ABC:
  assumes "op < 64" "0 \<le> a" "a \<le> MAXARG_A" "0 \<le> b" "b \<le> MAXARG_B" "0 \<le> c" "c \<le> MAXARG_C"
  shows "get_field 6 0 (CREATE_ABC op a b c) = take_bit 6 (of_nat op)"
    and "get_field 8 6 (CREATE_ABC op a b c) = take_bit 8 (word_of_int a)"
    and "get_field 9 14 (CREATE_ABC op a b c) = take_bit 9 (word_of_int c)"
    and "get_field 9 23 (CREATE_ABC op a b c) = take_bit 9 (word_of_int b)"
proof -
  have bounds: "bit op k \<Longrightarrow> k < 6" "bit a k \<Longrightarrow> k < 8" "bit b k \<Longrightarrow> k < 9" "bit c k \<Longrightarrow> k < 9" for k
    using assms by (auto dest: bit_nat_bound [where n = 6] bit_int_bound [where n = 8]
      bit_int_bound [where n = 9])
  note defs = get_field_def CREATE_ABC_def field_defs bit_simps
  show "get_field 6 0 (CREATE_ABC op a b c) = take_bit 6 (of_nat op)"
    by (rule bit_eqI) (auto simp: defs)
  show "get_field 8 6 (CREATE_ABC op a b c) = take_bit 8 (word_of_int a)"
    by (rule bit_eqI) (auto simp: defs dest: bounds)
  show "get_field 9 14 (CREATE_ABC op a b c) = take_bit 9 (word_of_int c)"
    by (rule bit_eqI) (auto simp: defs dest: bounds)
  show "get_field 9 23 (CREATE_ABC op a b c) = take_bit 9 (word_of_int b)"
    by (rule bit_eqI) (auto simp: defs dest: bounds)
qed

lemma unat_take_bit_of_nat: "op < 2 ^ n \<Longrightarrow> n \<le> 32 \<Longrightarrow> unat (take_bit n (of_nat op :: u32)) = op"
  using uint_take_bit_small [of "int op" n] by (simp add: unat_eq_nat_uint)

lemma get_field_CREATE_ABx:
  assumes "op < 64" "0 \<le> a" "a \<le> MAXARG_A" "0 \<le> bc" "bc \<le> MAXARG_Bx"
  shows "get_field 6 0 (CREATE_ABx op a bc) = take_bit 6 (of_nat op)"
    and "get_field 8 6 (CREATE_ABx op a bc) = take_bit 8 (word_of_int a)"
    and "get_field 18 14 (CREATE_ABx op a bc) = take_bit 18 (word_of_int bc)"
proof -
  have bounds: "bit op k \<Longrightarrow> k < 6" "bit a k \<Longrightarrow> k < 8" "bit bc k \<Longrightarrow> k < 18" for k
    using assms by (auto dest: bit_nat_bound [where n = 6] bit_int_bound [where n = 8]
      bit_int_bound [where n = 18])
  note defs = get_field_def CREATE_ABx_def field_defs bit_simps
  show "get_field 6 0 (CREATE_ABx op a bc) = take_bit 6 (of_nat op)"
    by (rule bit_eqI) (auto simp: defs)
  show "get_field 8 6 (CREATE_ABx op a bc) = take_bit 8 (word_of_int a)"
    by (rule bit_eqI) (auto simp: defs dest: bounds)
  show "get_field 18 14 (CREATE_ABx op a bc) = take_bit 18 (word_of_int bc)"
    by (rule bit_eqI) (auto simp: defs dest: bounds)
qed

lemma CREATE_ABC_get [simp]:
  assumes "op < 64" "0 \<le> a" "a \<le> MAXARG_A" "0 \<le> b" "b \<le> MAXARG_B" "0 \<le> c" "c \<le> MAXARG_C"
  shows "GET_OPCODE (CREATE_ABC op a b c) = op" and "GETARG_A (CREATE_ABC op a b c) = a"
    and "GETARG_B (CREATE_ABC op a b c) = b" and "GETARG_C (CREATE_ABC op a b c) = c"
  using assms get_field_CREATE_ABC [OF assms]
  by (simp_all add: field_conv field_defs uint_take_bit_small unat_take_bit_of_nat)

lemma CREATE_ABx_get [simp]:
  assumes "op < 64" "0 \<le> a" "a \<le> MAXARG_A" "0 \<le> bc" "bc \<le> MAXARG_Bx"
  shows "GET_OPCODE (CREATE_ABx op a bc) = op" and "GETARG_A (CREATE_ABx op a bc) = a"
    and "GETARG_Bx (CREATE_ABx op a bc) = bc"
  using assms get_field_CREATE_ABx [OF assms]
  by (simp_all add: field_conv field_defs uint_take_bit_small unat_take_bit_of_nat)

section \<open>Constants in operands\<close>

lemma BITRK_exp: "BITRK = 2 ^ 8"
  by simp

lemma ISK_bit: "ISK x \<longleftrightarrow> bit x 8"
  unfolding ISK_def BITRK_exp by (simp add: and_exp_eq_0_iff_not_bit del: power_numeral)

lemma RKASK_set_bit: "RKASK x = set_bit 8 x"
  unfolding RKASK_def BITRK_exp by (simp add: set_bit_def push_bit_eq_mult del: power_numeral)

lemma INDEXK_unset_bit: "INDEXK x = unset_bit 8 x"
  unfolding INDEXK_def BITRK_exp
  by (simp add: unset_bit_eq_and_not push_bit_eq_mult del: power_numeral)

lemma bit_8: "0 \<le> (x :: int) \<Longrightarrow> x < 512 \<Longrightarrow> bit x 8 \<longleftrightarrow> 256 \<le> x"
proof -
  assume x: "0 \<le> x" "x < 512"
  then have "x div 256 = (if 256 \<le> x then 1 else 0)" by auto
  then show ?thesis by (simp add: bit_iff_odd)
qed

lemma register_not_ISK [simp]: "0 \<le> x \<Longrightarrow> x < 256 \<Longrightarrow> \<not> ISK x"
  by (simp add: ISK_bit bit_8)

lemma RKASK_ISK [simp]: "ISK (RKASK x)"
  by (simp add: ISK_bit RKASK_set_bit bit_simps)

lemma RKASK_add: "0 \<le> x \<Longrightarrow> x \<le> MAXINDEXRK \<Longrightarrow> RKASK x = x + BITRK"
  by (simp add: RKASK_set_bit set_bit_eq bit_8)

lemma INDEXK_RKASK: "0 \<le> x \<Longrightarrow> x \<le> MAXINDEXRK \<Longrightarrow> INDEXK (RKASK x) = x"
  by (simp add: RKASK_add) (simp add: INDEXK_unset_bit unset_bit_eq bit_8)

text \<open>C1: an instruction is a faithful record of its fields: what \<open>CREATE_ABC\<close> packs, the
  accessors unpack.\<close>

theorem CREATE_ABC_decodes:
  assumes "0 \<le> a" "a \<le> MAXARG_A" "0 \<le> b" "b \<le> MAXARG_B" "0 \<le> c" "c \<le> MAXARG_C"
  shows "(GET_OPCODE (CREATE_ABC (op_num op) a b c), GETARG_A (CREATE_ABC (op_num op) a b c),
      GETARG_B (CREATE_ABC (op_num op) a b c), GETARG_C (CREATE_ABC (op_num op) a b c)) = (op_num op, a, b, c)"
  using assms by (simp del: MAXARG_values)

theorem CREATE_ABC_decodes_witness:
  "(GET_OPCODE (CREATE_ABC (op_num OP_CALL) 3 511 0), GETARG_A (CREATE_ABC (op_num OP_CALL) 3 511 0),
    GETARG_B (CREATE_ABC (op_num OP_CALL) 3 511 0), GETARG_C (CREATE_ABC (op_num OP_CALL) 3 511 0)) =
   (op_num OP_CALL, 3, 511, 0)"
  by (rule CREATE_ABC_decodes) simp_all

text \<open>Patching a jump changes nothing else: a signed offset within \<open>MAXARG_sBx\<close> is read back
  as it was written, and the opcode and register A of the instruction stay.\<close>

theorem SETARG_sBx_patches:
  assumes "\<bar>b\<bar> \<le> MAXARG_sBx"
  shows "GETARG_sBx (SETARG_sBx i b) = b \<and> GET_OPCODE (SETARG_sBx i b) = GET_OPCODE i \<and>
    GETARG_A (SETARG_sBx i b) = GETARG_A i"
  using SETARG_sBx_same [OF assms] by simp

theorem SETARG_sBx_patches_witness:
  "GETARG_sBx (SETARG_sBx 0x8000001F (-131071)) = -131071 \<and>
    GET_OPCODE (SETARG_sBx 0x8000001F (-131071)) = GET_OPCODE 0x8000001F \<and>
    GETARG_A (SETARG_sBx 0x8000001F (-131071)) = GETARG_A 0x8000001F"
  by (rule SETARG_sBx_patches) simp

text \<open>The tables agree with the enumeration and with each other: every opcode has a name and
  a property byte whose fields fit, and the opcodes marked as tests (each is followed by a jump,
  which \<open>getjumpcontrol\<close> relies on) are the comparisons, \<open>TEST\<close>, \<open>TESTSET\<close> and
  \<open>TFORLOOP\<close>.\<close>

theorem opcode_tables_agree:
  "length luaP_opnames = NUM_OPCODES \<and> length luaP_opmodes = NUM_OPCODES \<and>
   op_num op < NUM_OPCODES \<and> OpCodes ! op_num op = op \<and>
   getOpMode (op_num op) \<in> opmode_num ` {iABC, iABx, iAsBx} \<and>
   (testTMode (op_num op) \<longleftrightarrow> op \<in> {OP_EQ, OP_LT, OP_LE, OP_TEST, OP_TESTSET, OP_TFORLOOP}) \<and>
   (getOpMode (op_num op) = opmode_num iAsBx \<longleftrightarrow> op \<in> {OP_JMP, OP_FORLOOP, OP_FORPREP})"
  by (cases op)
    (simp_all add: NUM_OPCODES_def luaP_opnames_def luaP_opmodes_def OpCodes_def getOpMode_def
      testTMode_def opmode_def)

end
