(* ===== verification/Objects.thy ===== *)
theory Objects
  imports Numbers
begin

text \<open>
  Tagged values (\<open>lobject.h\<close>) and the generic functions over them (\<open>lobject.c\<close>):
  raw equality, the "floating point byte", integer logarithms, formatted messages and
  the display form of a chunk name.
\<close>

section \<open>Values\<close>

text \<open>
  A collectable value is a pointer to its object; two such values are the same when the
  pointers are. \<open>DEADKEY\<close> is the tag the collector leaves in a table key.
\<close>

type_synonym addr = "64 word"

datatype TValue =
    NIL
  | BOOLEAN bool
  | LIGHTUSERDATA addr
  | NUMBER lua_Number
  | STRING addr
  | TABLE addr
  | FUNCTION addr
  | USERDATA addr
  | THREAD addr
  | DEADKEY addr

fun ttype :: "TValue \<Rightarrow> nat" where
  "ttype NIL = 0"
| "ttype (BOOLEAN b) = 1"
| "ttype (LIGHTUSERDATA p) = 2"
| "ttype (NUMBER n) = 3"
| "ttype (STRING p) = 4"
| "ttype (TABLE p) = 5"
| "ttype (FUNCTION p) = 6"
| "ttype (USERDATA p) = 7"
| "ttype (THREAD p) = 8"
| "ttype (DEADKEY p) = 11"

definition iscollectable :: "TValue \<Rightarrow> bool" where
  "iscollectable v \<longleftrightarrow> ttype v \<ge> 4"

fun gcvalue :: "TValue \<Rightarrow> addr" where
  "gcvalue (STRING p) = p"
| "gcvalue (TABLE p) = p"
| "gcvalue (FUNCTION p) = p"
| "gcvalue (USERDATA p) = p"
| "gcvalue (THREAD p) = p"
| "gcvalue (DEADKEY p) = p"
| "gcvalue v = 0"

fun l_isfalse :: "TValue \<Rightarrow> bool" where
  "l_isfalse NIL = True"
| "l_isfalse (BOOLEAN b) = (\<not> b)"
| "l_isfalse v = False"

fun luaO_rawequalObj :: "TValue \<Rightarrow> TValue \<Rightarrow> bool" where
  "luaO_rawequalObj t1 t2 =
     (if ttype t1 \<noteq> ttype t2 then False
      else case t1 of
        NIL \<Rightarrow> True
      | NUMBER a \<Rightarrow> (case t2 of NUMBER b \<Rightarrow> luai_numeq a b | _ \<Rightarrow> False)
      | BOOLEAN a \<Rightarrow> (case t2 of BOOLEAN b \<Rightarrow> a = b | _ \<Rightarrow> False)
      | LIGHTUSERDATA a \<Rightarrow> (case t2 of LIGHTUSERDATA b \<Rightarrow> a = b | _ \<Rightarrow> False)
      | _ \<Rightarrow> gcvalue t1 = gcvalue t2)"

declare luaO_rawequalObj.simps [simp del]

lemma rawequal_iff:
  "luaO_rawequalObj a b \<longleftrightarrow>
     (case (a, b) of (NUMBER m, NUMBER n) \<Rightarrow> luai_numeq m n | _ \<Rightarrow> a = b)"
  by (cases a; cases b) (simp_all add: luaO_rawequalObj.simps)

lemma rawequal_sym: "luaO_rawequalObj a b \<longleftrightarrow> luaO_rawequalObj b a"
  by (auto simp: rawequal_iff numeq_sym split: TValue.splits)

lemma rawequal_trans: "luaO_rawequalObj a b \<Longrightarrow> luaO_rawequalObj b c \<Longrightarrow> luaO_rawequalObj a c"
  by (auto simp: rawequal_iff split: TValue.splits intro: numeq_trans)

lemma rawequal_nil [simp]: "luaO_rawequalObj NIL b \<longleftrightarrow> b = NIL" "luaO_rawequalObj a NIL \<longleftrightarrow> a = NIL"
  by (auto simp: rawequal_iff split: TValue.splits)

section \<open>Floating point bytes\<close>

definition FB_MANT_SIZE :: nat where "FB_MANT_SIZE = 3"
definition FB_MANT_IMPLIED :: int where "FB_MANT_IMPLIED = push_bit FB_MANT_SIZE 1"
definition FB_MANT_MASK :: int where "FB_MANT_MASK = FB_MANT_IMPLIED - 1"
definition FB_EXP_SIZE :: nat where "FB_EXP_SIZE = 5"
definition FB_EXP_MASK :: int where "FB_EXP_MASK = push_bit FB_EXP_SIZE 1 - 1"

lemma FB_values [simp]:
  "FB_MANT_SIZE = 3" "FB_MANT_IMPLIED = 8" "FB_MANT_MASK = 7" "FB_EXP_SIZE = 5" "FB_EXP_MASK = 31"
  by (simp_all add: FB_MANT_SIZE_def FB_MANT_IMPLIED_def FB_MANT_MASK_def FB_EXP_SIZE_def FB_EXP_MASK_def)

text \<open>
  The loop of \<open>luaO_int2fb\<close> on an unsigned int, wrap-around of \<open>x + 1\<close> included; it
  returns the final mantissa and exponent.
\<close>

function int2fb_loop :: "u32 \<Rightarrow> int \<Rightarrow> u32 \<times> int" where
  "int2fb_loop x e =
     (if x \<ge> word_of_int (2 * FB_MANT_IMPLIED) then int2fb_loop (drop_bit 1 (x + 1)) (e + 1)
      else (x, e))"
  by pat_completeness auto
termination
proof (relation "measure (\<lambda>(x, e). unat x)", simp)
  fix x :: u32 and e :: int
  assume "x \<ge> word_of_int (2 * FB_MANT_IMPLIED)"
  then have x: "16 \<le> unat x" by (simp add: word_le_nat_alt)
  have "unat (drop_bit 1 (x + 1)) = (unat x + 1) mod 2 ^ 32 div 2"
    by (simp add: unsigned_drop_bit_eq unat_word_ariths drop_bit_eq_div)
  also have "\<dots> \<le> (unat x + 1) div 2" by (intro div_le_mono) simp
  also have "\<dots> < unat x" using x by simp
  finally show "((drop_bit 1 (x + 1), e + 1), (x, e)) \<in> measure (\<lambda>(x, e). unat x)" by simp
qed

declare int2fb_loop.simps [simp del]

definition luaO_int2fb :: "u32 \<Rightarrow> int" where
  "luaO_int2fb x0 =
     (case int2fb_loop x0 0 of (x, e) \<Rightarrow>
        if uint x < FB_MANT_IMPLIED then uint x
        else push_bit FB_MANT_SIZE (e + 1) OR (uint x - FB_MANT_IMPLIED))"

definition luaO_fb2int :: "int \<Rightarrow> int" where
  "luaO_fb2int x =
     (let e = drop_bit FB_MANT_SIZE x AND FB_EXP_MASK in
      if e = 0 then x
      else push_bit (nat (e - 1)) ((x AND FB_MANT_MASK) + FB_MANT_IMPLIED))"

section \<open>Integer logarithm\<close>

definition log_2 :: "nat list" where
  "log_2 =
     [0,1,2,2,3,3,3,3] @ replicate 8 4 @ replicate 16 5 @ replicate 32 6 @
     replicate 64 7 @ replicate 128 8"

function log2_loop :: "u32 \<Rightarrow> int \<Rightarrow> u32 \<times> int" where
  "log2_loop x l = (if x \<ge> 256 then log2_loop (drop_bit 8 x) (l + 8) else (x, l))"
  by pat_completeness auto
termination
  by (relation "measure (\<lambda>(x, l). unat x)")
    (auto simp: word_le_nat_alt unsigned_drop_bit_eq drop_bit_eq_div unat_div_distrib)

declare log2_loop.simps [simp del]

definition luaO_log2 :: "u32 \<Rightarrow> int" where
  "luaO_log2 x0 = (case log2_loop x0 (-1) of (x, l) \<Rightarrow> l + int (log_2 ! unat x))"

definition ceillog2 :: "u32 \<Rightarrow> int" where
  "ceillog2 x = luaO_log2 (x - 1) + 1"

section \<open>Strings to numbers\<close>

text \<open>
  \<open>str2number\<close> is \<open>lua_str2number\<close> (\<open>strtod\<close>) and \<open>strtoul16\<close> is \<open>strtoul\<close> in base 16
  with the conversion to a double, both with the number of characters they consumed.
\<close>

definition isspace :: "char \<Rightarrow> bool" where
  "isspace c \<longleftrightarrow> c \<in> {CHR '' '', CHR 0x09, CHR 0x0A, CHR 0x0B, CHR 0x0C, CHR 0x0D}"

definition luaO_str2d :: "(string \<Rightarrow> lua_Number \<times> nat) \<Rightarrow> (string \<Rightarrow> lua_Number \<times> nat) \<Rightarrow> string \<Rightarrow>
    bool \<times> lua_Number" where
  "luaO_str2d str2number strtoul16 s =
     (case str2number s of (result, endptr) \<Rightarrow>
        if endptr = 0 then (False, result)
        else
          (case (if endptr < length s \<and> s ! endptr \<in> {CHR ''x'', CHR ''X''} then strtoul16 s
                 else (result, endptr)) of (result, endptr) \<Rightarrow>
             if endptr = length s then (True, result)
             else (dropWhile isspace (drop endptr s) = [], result)))"

section \<open>Display form of a chunk name\<close>

text \<open>
  C strings are lists of characters without their terminator. The destination has
  \<open>bufflen\<close> bytes; \<open>size_t\<close> arithmetic wraps.
\<close>

definition strcspn :: "string \<Rightarrow> string \<Rightarrow> nat" where
  "strcspn s reject = length (takeWhile (\<lambda>c. c \<notin> set reject) s)"

definition luaO_chunkid :: "string \<Rightarrow> u64 \<Rightarrow> string" where
  "luaO_chunkid source bufflen =
     (if source \<noteq> [] \<and> hd source = CHR ''='' then take (unat (bufflen - 1)) (tl source)
      else if source \<noteq> [] \<and> hd source = CHR ''@'' then
        (let source = tl source;
             bufflen = bufflen - 8;
             l = of_nat (length source) :: u64
         in if l > bufflen then ''...'' @ drop (unat (l - bufflen)) source
            else source)
      else
        (let len = of_nat (strcspn source [CHR 0x0A, CHR 0x0D]) :: u64;
             bufflen = bufflen - 17;
             len = (if len > bufflen then bufflen else len)
         in ''[string '' @ [CHR 0x22] @
            (if unat len < length source then take (unat len) source @ ''...'' else source) @
            [CHR 0x22] @ '']''))"

section \<open>Formatted messages\<close>

text \<open>
  \<open>luaO_pushvfstring\<close> pushes one piece per literal run and per directive and concatenates
  them. The arguments are typed as the directive reads them; the decimal form of a number
  (\<open>sprintf "%.14g"\<close>) and of a pointer (\<open>"%p"\<close>) are the C library's, given as
  \<open>num2str\<close> and \<open>ptr2str\<close>. The result is the list of pieces and the count \<open>n\<close>; an
  argument of another type than the directive's is \<open>None\<close> (undefined in C).
\<close>

datatype fmt_arg = ArgStr "string option" | ArgChar char | ArgInt int | ArgNum lua_Number | ArgPtr addr

fun directive :: "(lua_Number \<Rightarrow> string) \<Rightarrow> (addr \<Rightarrow> string) \<Rightarrow> char \<Rightarrow> fmt_arg list \<Rightarrow>
    (string \<times> fmt_arg list) option" where
  "directive num2str ptr2str c args =
     (if c = CHR ''s'' then
        (case args of ArgStr s # args \<Rightarrow> Some (case s of None \<Rightarrow> ''(null)'' | Some s \<Rightarrow> s, args)
         | _ \<Rightarrow> None)
      else if c = CHR ''c'' then
        (case args of ArgChar ch # args \<Rightarrow> Some (if ch = CHR 0x00 then [] else [ch], args) | _ \<Rightarrow> None)
      else if c = CHR ''d'' then
        (case args of ArgInt i # args \<Rightarrow> Some (num2str (cast_num i), args) | _ \<Rightarrow> None)
      else if c = CHR ''f'' then
        (case args of ArgNum n # args \<Rightarrow> Some (num2str n, args) | _ \<Rightarrow> None)
      else if c = CHR ''p'' then
        (case args of ArgPtr p # args \<Rightarrow> Some (ptr2str p, args) | _ \<Rightarrow> None)
      else if c = CHR ''%'' then Some (''%'', args)
      else Some ([CHR ''%'', c], args))"

text \<open>
  A lone \<open>%\<close> at the end of the format reads the terminator as the directive and then
  continues beyond it: undefined in C, \<open>None\<close> here.
\<close>

function pushvfstring_loop :: "(lua_Number \<Rightarrow> string) \<Rightarrow> (addr \<Rightarrow> string) \<Rightarrow> string \<Rightarrow>
    fmt_arg list \<Rightarrow> string list \<Rightarrow> nat \<Rightarrow> (string list \<times> nat) option" where
  "pushvfstring_loop num2str ptr2str fmt args stack n =
     (case dropWhile (\<lambda>c. c \<noteq> CHR ''%'') fmt of
        [] \<Rightarrow> Some (stack @ [fmt], n)
      | [_] \<Rightarrow> None
      | _ # d # rest \<Rightarrow>
          (case directive num2str ptr2str d args of
             None \<Rightarrow> None
           | Some (piece, args') \<Rightarrow>
               pushvfstring_loop num2str ptr2str rest args'
                 (stack @ [takeWhile (\<lambda>c. c \<noteq> CHR ''%'') fmt, piece]) (n + 2)))"
  by pat_completeness auto
termination
proof (relation "measure (\<lambda>(f, g, fmt, args, stack, n). length fmt)", simp)
  fix num2str :: "lua_Number \<Rightarrow> string" and ptr2str :: "addr \<Rightarrow> string" and fmt :: string
    and args args' :: "fmt_arg list" and stack :: "string list" and n :: nat
    and c rest' d rest and r piece
  assume "dropWhile (\<lambda>c. c \<noteq> CHR ''%'') fmt = c # rest'" "rest' = d # rest"
  then have "length rest + 2 \<le> length fmt"
    using length_dropWhile_le [of "\<lambda>c. c \<noteq> CHR ''%''" fmt] by simp
  then show "((num2str, ptr2str, rest, args',
      stack @ [takeWhile (\<lambda>c. c \<noteq> CHR ''%'') fmt, piece], n + 2),
      num2str, ptr2str, fmt, args, stack, n) \<in> measure (\<lambda>(f, g, fmt, args, stack, n). length fmt)"
    by simp
qed

declare pushvfstring_loop.simps [simp del] directive.simps [simp del]

definition luaO_pushvfstring :: "(lua_Number \<Rightarrow> string) \<Rightarrow> (addr \<Rightarrow> string) \<Rightarrow> string \<Rightarrow>
    fmt_arg list \<Rightarrow> (string list \<times> nat) option" where
  "luaO_pushvfstring num2str ptr2str fmt args =
     pushvfstring_loop num2str ptr2str fmt args [[]] 1"

section \<open>Laws of the floating point byte\<close>

lemma int2fb_loop_spec:
  assumes "int2fb_loop x e = (m, e')" "uint x < 2 ^ 32 - 1"
  shows "\<exists>k. e' = e + int k \<and> uint m < 16 \<and> (0 < k \<longrightarrow> 8 \<le> uint m) \<and>
    uint x \<le> uint m * 2 ^ k \<and> uint m * 2 ^ k < uint x + 2 ^ k"
  using assms
proof (induction x e rule: int2fb_loop.induct)
  case (1 x e)
  show ?case
  proof (cases "16 \<le> uint x")
    case False
    then have "m = x" "e' = e"
      using 1(2) by (auto simp: int2fb_loop.simps [of x] word_le_def)
    with False show ?thesis by (intro exI [of _ 0]) simp
  next
    case True
    let ?x = "drop_bit 1 (x + 1)"
    have x': "uint ?x = (uint x + 1) div 2"
      using 1(3) by (simp add: unsigned_drop_bit_eq uint_word_ariths drop_bit_eq_div uint_div_distrib)
    have guard: "x \<ge> word_of_int (2 * FB_MANT_IMPLIED)" using True by (simp add: word_le_def)
    then have "int2fb_loop ?x (e + 1) = (m, e')"
      using 1(2) by (simp add: int2fb_loop.simps [of x])
    moreover have "uint ?x < 2 ^ 32 - 1" using 1(3) x' by simp
    ultimately obtain k where k: "e' = e + 1 + int k" "uint m < 16" "0 < k \<longrightarrow> 8 \<le> uint m"
      "uint ?x \<le> uint m * 2 ^ k" "uint m * 2 ^ k < uint ?x + 2 ^ k"
      using "1.IH" [OF guard] by blast
    have m: "8 \<le> uint m"
    proof (cases k)
      case 0
      then show ?thesis using k x' True by simp
    qed (use k in simp)
    have lo: "uint x \<le> 2 * uint ?x" and hi: "2 * uint ?x \<le> uint x + 1"
      using x' by linarith+
    have "uint m * 2 ^ Suc k \<ge> uint x" using k(4) lo by simp
    moreover have "uint m * 2 ^ Suc k < uint x + 2 ^ Suc k" using k(5) hi by simp
    ultimately show ?thesis
      using k m by (intro exI [of _ "Suc k"]) simp
  qed
qed

lemma or_shift_3: "0 \<le> a \<Longrightarrow> a < 8 \<Longrightarrow> push_bit 3 k OR a = k * 8 + (a :: int)"
proof -
  assume a: "0 \<le> a" "a < 8"
  have "push_bit 3 k AND a = 0"
    by (rule bit_eqI) (use a in \<open>auto simp: bit_simps dest: bit_int_bound [of a _ 3]\<close>)
  then show ?thesis by (simp flip: disjunctive_add_eq_or add: push_bit_eq_mult)
qed

lemma fb2int_int2fb:
  assumes "uint x < 2 ^ 32 - 1" "int2fb_loop x 0 = (m, int k)"
    "uint m < 16" "0 < k \<longrightarrow> 8 \<le> uint m" "uint m * 2 ^ k < uint x + 2 ^ k"
  shows "luaO_fb2int (luaO_int2fb x) = uint m * 2 ^ k"
proof (cases "uint m < 8")
  case True
  then have "k = 0" using assms(4) by (cases k) auto
  moreover have "drop_bit 3 (uint m) = 0" using True by (simp add: drop_bit_eq_div)
  ultimately show ?thesis
    using True assms(2) by (simp add: luaO_fb2int_def luaO_int2fb_def)
next
  case False
  have "7 * (2::int) ^ k \<le> (uint m - 1) * 2 ^ k" using False by (intro mult_right_mono) auto
  also have "\<dots> < 2 ^ 32" using assms(1,5) by (simp add: algebra_simps)
  finally have "(2::int) ^ k < 2 ^ 30" by simp
  then have k: "k < 30" by (rule power_less_imp_less_exp [rotated]) simp
  have "luaO_int2fb x = (int k + 1) * 8 + (uint m - 8)" (is "?b = _")
    using assms(2,3) False by (simp add: luaO_int2fb_def or_shift_3)
  moreover from this have "drop_bit 3 ?b = int k + 1"
    using False assms(3) by (simp add: drop_bit_eq_div)
  moreover have "(int k + 1) AND 31 = int k + 1"
    using k by (simp add: and_mask_mod)
  moreover have "?b AND 7 = uint m - 8"
  proof -
    have "uint m mod 8 = uint m - 8" using False assms(3) by presburger
    then show ?thesis using calculation(1) by (simp add: and_mask_mod)
  qed
  ultimately show ?thesis
    by (simp add: luaO_fb2int_def push_bit_eq_mult)
qed

lemma int2fb_cases:
  assumes "uint x < 2 ^ 32 - 1"
  obtains m k where "int2fb_loop x 0 = (m, int k)" "uint m < 16" "0 < k \<longrightarrow> 8 \<le> uint m"
    "uint x \<le> uint m * 2 ^ k" "uint m * 2 ^ k < uint x + 2 ^ k"
    "luaO_fb2int (luaO_int2fb x) = uint m * 2 ^ k"
proof -
  obtain m e' where eq: "int2fb_loop x 0 = (m, e')" by (cases "int2fb_loop x 0") auto
  from int2fb_loop_spec [OF eq assms] obtain k where k: "e' = int k" "uint m < 16"
    "0 < k \<longrightarrow> 8 \<le> uint m" "uint x \<le> uint m * 2 ^ k" "uint m * 2 ^ k < uint x + 2 ^ k"
    by auto
  with that [of m k] fb2int_int2fb [of x m k] eq assms show thesis by simp
qed

text \<open>A size passed through the floating point byte comes back not smaller, and larger by
  less than one seventh; sizes below 16 come back exact.\<close>

theorem int2fb_round_up:
  assumes "uint x < 2 ^ 32 - 1"
  shows "uint x \<le> luaO_fb2int (luaO_int2fb x) \<and>
    7 * (luaO_fb2int (luaO_int2fb x) - uint x) \<le> uint x \<and>
    (uint x < 16 \<longrightarrow> luaO_fb2int (luaO_int2fb x) = uint x)"
proof -
  from assms obtain m k where mk: "int2fb_loop x 0 = (m, int k)" "0 < k \<longrightarrow> 8 \<le> uint m"
    "uint x \<le> uint m * 2 ^ k" "uint m * 2 ^ k < uint x + 2 ^ k"
    "luaO_fb2int (luaO_int2fb x) = uint m * 2 ^ k" by (rule int2fb_cases)
  have "7 * (uint m * 2 ^ k - uint x) \<le> uint x"
  proof (cases "k = 0")
    case False
    then have "8 * (2 :: int) ^ k \<le> uint m * 2 ^ k" using mk(2) by simp
    moreover have "7 * (R - X) \<le> X" if "8 * P \<le> R" "R < X + P" for P R X :: int
      using that by presburger
    ultimately show ?thesis using mk(4) by blast
  qed (use mk in simp)
  moreover have "m = x \<and> k = 0" if "uint x < 16"
    using mk(1) that by (simp add: int2fb_loop.simps [of x] word_le_def)
  ultimately show ?thesis using mk(3,5) by auto
qed

theorem int2fb_round_up_witness:
  "uint (100 :: u32) < 2 ^ 32 - 1 \<and> luaO_fb2int (luaO_int2fb 100) = 104 \<and>
    7 * (luaO_fb2int (luaO_int2fb 100) - uint (100 :: u32)) \<le> uint (100 :: u32)"
proof -
  have h: "uint (100 :: u32) < 2 ^ 32 - 1" by simp
  have "luaO_fb2int (luaO_int2fb 100) = 104" by code_simp
  with h int2fb_round_up [OF h] show ?thesis by simp
qed

section \<open>Laws of the integer logarithm\<close>

lemma ilog2_eqI: "2 ^ k \<le> n \<Longrightarrow> n < 2 ^ Suc k \<Longrightarrow> ilog2 n = k"
proof -
  assume k: "2 ^ k \<le> n" "n < 2 ^ Suc k"
  then have "0 < n" by (cases n) auto
  from ilog2_bounds [OF this] k have "(2::nat) ^ k < 2 ^ Suc (ilog2 n)" "(2::nat) ^ ilog2 n < 2 ^ Suc k"
    by linarith+
  then have "k < Suc (ilog2 n)" "ilog2 n < Suc k" by (simp_all only: power_strict_increasing_iff)
  then show ?thesis by simp
qed

lemma log_2_nth: "i < 256 \<Longrightarrow> log_2 ! i = (if i = 0 then 0 else Suc (ilog2 i))"
proof -
  assume "i < 256"
  then consider "i \<in> {0, 1, 2, 3, 4, 5, 6, 7}" | j where "3 \<le> j" "j < 8" "2 ^ j \<le> i" "i < 2 ^ Suc j"
  proof (cases "i < 8")
    case True
    then have "i \<in> {0, 1, 2, 3, 4, 5, 6, 7}" by auto
    then show ?thesis by (rule that(1))
  next
    case False
    then have i: "0 < i" "8 \<le> i" by simp_all
    have "\<not> ilog2 i < 3"
    proof
      assume "ilog2 i < 3"
      then have "(2::nat) ^ Suc (ilog2 i) \<le> 2 ^ 3" by (intro power_increasing) auto
      with ilog2_bounds [OF i(1)] i(2) show False by simp
    qed
    moreover have "ilog2 i \<le> 7" using ilog2_le [OF i(1), of 7] \<open>i < 256\<close> by simp
    ultimately show ?thesis using that(2) [of "ilog2 i"] ilog2_bounds [OF i(1)] by simp
  qed
  then show ?thesis
  proof cases
    case 1
    have small: "ilog2 (Suc 0) = 0" "ilog2 2 = 1" "ilog2 3 = 1" "ilog2 4 = 2" "ilog2 5 = 2"
      "ilog2 6 = 2" "ilog2 7 = 2" by (rule ilog2_eqI; simp)+
    from 1 show ?thesis by (auto simp: log_2_def small)
  next
    case 2
    then have "j \<in> {3, 4, 5, 6, 7}" by auto
    with 2 ilog2_eqI [OF 2(3,4)] show ?thesis by (auto simp: log_2_def nth_append)
  qed
qed

lemma ilog2_div_256: "256 \<le> n \<Longrightarrow> ilog2 n = ilog2 (n div 256) + 8"
proof (rule ilog2_eqI)
  assume "256 \<le> n"
  then have p: "0 < n div 256" by simp
  note b = ilog2_bounds [OF p]
  show "2 ^ (ilog2 (n div 256) + 8) \<le> n"
    using b(1) by (simp add: power_add)
  show "n < 2 ^ Suc (ilog2 (n div 256) + 8)"
    using b(2) by (simp add: power_add)
qed

lemma log2_loop_spec:
  assumes "log2_loop x l = (y, l')"
  shows "unat y < 256 \<and> (unat y = 0 \<longleftrightarrow> unat x = 0) \<and>
    (unat x \<noteq> 0 \<longrightarrow> l' + int (ilog2 (unat y)) = l + int (ilog2 (unat x))) \<and>
    (unat x = 0 \<longrightarrow> l' = l)"
  using assms
proof (induction x l rule: log2_loop.induct)
  case (1 x l)
  show ?case
  proof (cases "256 \<le> unat x")
    case False
    then show ?thesis using 1(2) by (simp add: log2_loop.simps [of x] word_le_nat_alt)
  next
    case True
    then have g: "x \<ge> 256" by (simp add: word_le_nat_alt)
    have d: "unat (drop_bit 8 x) = unat x div 256"
      by (simp add: unsigned_drop_bit_eq drop_bit_eq_div unat_div_distrib)
    with "1.IH" [OF g] "1.prems" g True ilog2_div_256 [OF True] show ?thesis
      by (auto simp: log2_loop.simps [of x])
  qed
qed

lemma luaO_log2_eq: "luaO_log2 x = (if x = 0 then -1 else int (ilog2 (unat x)))"
proof -
  obtain y l where eq: "log2_loop x (-1) = (y, l)" by (cases "log2_loop x (-1)") auto
  from log2_loop_spec [OF eq] eq show ?thesis
    by (auto simp: luaO_log2_def log_2_nth unat_eq_zero)
qed

lemma ceillog2_bounds:
  assumes "x \<noteq> 0"
  shows "0 \<le> ceillog2 x \<and> unat x \<le> 2 ^ nat (ceillog2 x) \<and>
    (0 < ceillog2 x \<longrightarrow> 2 ^ (nat (ceillog2 x) - 1) < unat x)"
proof (cases "x = 1")
  case True
  then show ?thesis by (simp add: ceillog2_def luaO_log2_eq)
next
  case False
  have "unat x \<noteq> 0" "unat x \<noteq> 1"
    using assms False by (simp_all only: unat_eq_1_iff unat_eq_zero not_False_eq_True)
  then have "1 < unat x" by simp
  then have x1: "unat (x - 1) = unat x - 1" "x - 1 \<noteq> 0"
    using False assms unat_minus_one [of x] by simp_all
  then have "ceillog2 x = int (Suc (ilog2 (unat x - 1)))"
    by (simp add: ceillog2_def luaO_log2_eq)
  moreover have "2 ^ ilog2 (unat x - 1) \<le> unat x - 1" "unat x - 1 < 2 ^ Suc (ilog2 (unat x - 1))"
    using ilog2_bounds [of "unat x - 1"] \<open>1 < unat x\<close> by simp_all
  ultimately show ?thesis using \<open>1 < unat x\<close> by (simp add: nat_add_distrib) linarith?
qed

text \<open>\<open>ceillog2\<close> of a positive \<open>x\<close> is the least exponent whose power of two reaches
  \<open>x\<close>; it is what sizes the hash part of a table and files an integer key in its slice.\<close>

theorem ceillog2_least:
  assumes "x \<noteq> 0"
  shows "0 \<le> ceillog2 x \<and> (\<forall>e. unat x \<le> 2 ^ e \<longleftrightarrow> nat (ceillog2 x) \<le> e)"
proof -
  let ?c = "nat (ceillog2 x)"
  have b: "unat x \<le> 2 ^ ?c" "0 < ?c \<Longrightarrow> 2 ^ (?c - 1) < unat x" "0 \<le> ceillog2 x"
    using ceillog2_bounds [OF assms] by auto
  have "?c \<le> e" if "unat x \<le> 2 ^ e" for e
  proof (rule ccontr)
    assume "\<not> ?c \<le> e"
    then have "(2 :: nat) ^ e \<le> 2 ^ (?c - 1)" by (intro power_increasing) auto
    also have "2 ^ (?c - 1) < unat x" using b(2) \<open>\<not> ?c \<le> e\<close> by simp
    finally show False using that by simp
  qed
  moreover have "unat x \<le> 2 ^ e" if "?c \<le> e" for e
    using b(1) power_increasing [OF that, of "2 :: nat"] by (rule order_trans) simp
  ultimately show ?thesis using b(3) by blast
qed

theorem ceillog2_least_witness:
  "(5 :: u32) \<noteq> 0 \<and> ceillog2 5 = 3 \<and> unat (5 :: u32) \<le> 2 ^ 3 \<and> \<not> unat (5 :: u32) \<le> 2 ^ 2"
proof -
  have h: "(5 :: u32) \<noteq> 0" by simp
  have "ceillog2 5 = 3" by code_simp
  with h ceillog2_least [OF h] show ?thesis by simp
qed

text \<open>
  The comment beside the macro promises \<open>i \<ge> 1\<close> with \<open>2\<^sup>i\<^sup>-\<^sup>1 \<le> x < 2\<^sup>i\<close>; on a power of two
  (and at 1) the macro returns one less.
\<close>

lemma ceillog2_power_of_two: "k < 32 \<Longrightarrow> ceillog2 (2 ^ k) = int k"
proof -
  assume k: "k < 32"
  have u: "unat (2 ^ k :: u32) = 2 ^ k" using k
    by (rule unat_exp_32)
  show ?thesis
  proof (cases "k = 0")
    case True
    then show ?thesis by (simp add: ceillog2_def luaO_log2_eq)
  next
    case False
    have "(2::nat) \<le> 2 ^ k" using False by (cases k) auto
    then have "unat (2 ^ k - 1 :: u32) = 2 ^ k - 1" "(2 ^ k - 1 :: u32) \<noteq> 0"
      using u k False unat_minus_one [of "2 ^ k :: u32"] by auto
    moreover have "ilog2 (2 ^ k - 1) = k - 1"
      by (rule ilog2_eqI) (use False in \<open>cases k; simp\<close>)+
    ultimately show ?thesis using False by (simp add: ceillog2_def luaO_log2_eq)
  qed
qed

section \<open>Laws of messages and chunk names\<close>

lemma strcspn_le: "strcspn s r \<le> length s"
  by (simp add: strcspn_def length_takeWhile_le)

lemma unat_of_nat_le: "unat (of_nat n :: 'a::len word) \<le> n"
  by (simp add: unat_of_nat)

text \<open>The display form of a chunk name, with its terminator, fits the buffer it is written to,
  whatever the name, for every buffer that holds at least the fixed part \<open>[string "..."]\<close>
  (\<open>LUA_IDSIZE\<close> is 60).\<close>

theorem chunkid_fits:
  assumes "17 \<le> unat bufflen" "length source < 2 ^ 64"
  shows "length (luaO_chunkid source bufflen) + 1 \<le> unat bufflen"
proof -
  have b: "unat (bufflen - 17) = unat bufflen - 17" "unat (bufflen - 8) = unat bufflen - 8"
    "unat (bufflen - 1) = unat bufflen - 1"
    using assms(1) by (simp_all add: unat_sub_if' )
  consider (eq) t where "source = CHR ''='' # t" | (at) t where "source = CHR ''@'' # t"
    | (other) "source = [] \<or> hd source \<noteq> CHR ''='' \<and> hd source \<noteq> CHR ''@''"
    by (cases source) auto
  then show ?thesis
  proof cases
    case eq
    then show ?thesis using b assms by (simp add: luaO_chunkid_def)
  next
    case at
    then have t: "unat (of_nat (length t) :: u64) = length t"
      using assms(2) by (simp add: unat_of_nat)
    show ?thesis
    proof (cases "(of_nat (length t) :: u64) > bufflen - 8")
      case True
      then have "unat (of_nat (length t) - (bufflen - 8)) = length t - (unat bufflen - 8)"
        using t b by (simp add: unat_sub word_less_nat_alt word_le_nat_alt)
      with True at t b assms show ?thesis
        by (simp add: luaO_chunkid_def Let_def word_less_nat_alt)
    next
      case False
      with at t b assms show ?thesis
        by (simp add: luaO_chunkid_def Let_def word_less_nat_alt)
    qed
  next
    case other
    define l where "l = (of_nat (strcspn source [CHR 0x0A, CHR 0x0D]) :: u64)"
    define m where "m = (if l > bufflen - 17 then bufflen - 17 else l)"
    have "luaO_chunkid source bufflen = ''[string '' @ [CHR 0x22] @
      (if unat m < length source then take (unat m) source @ ''...'' else source) @ [CHR 0x22] @ '']''"
      using other by (auto simp: luaO_chunkid_def Let_def l_def m_def)
    moreover have "unat m \<le> unat bufflen - 17"
      using b by (auto simp: m_def word_less_nat_alt)
    ultimately show ?thesis using assms(1) by auto
  qed
qed

theorem chunkid_fits_witness:
  "luaO_chunkid ''=stdin'' 60 = ''stdin'' \<and> luaO_chunkid ''@a.lua'' 60 = ''a.lua'' \<and>
    length (luaO_chunkid (replicate 100 CHR ''x'') 60) + 1 \<le> unat (60 :: u64)"
proof -
  have "luaO_chunkid ''=stdin'' 60 = ''stdin''" "luaO_chunkid ''@a.lua'' 60 = ''a.lua''"
    by code_simp+
  with chunkid_fits [of 60 "replicate 100 CHR ''x''"] show ?thesis by simp
qed

lemma pushvfstring_loop_count:
  assumes "pushvfstring_loop num2str ptr2str fmt args stack n = Some (st, n')"
  shows "length st + n = length stack + n' + 1 \<and>
    (CHR ''%'' \<notin> set fmt \<longrightarrow> st = stack @ [fmt])"
  using assms
proof (induction num2str ptr2str fmt args stack n rule: pushvfstring_loop.induct)
  case (1 num2str ptr2str fmt args stack n)
  show ?case
  proof (cases "dropWhile (\<lambda>c. c \<noteq> CHR ''%'') fmt")
    case Nil
    then have "st = stack @ [fmt] \<and> n' = n"
      using "1.prems" pushvfstring_loop.simps [of num2str ptr2str fmt args stack n, unfolded Nil] by simp
    with Nil show ?thesis by (simp add: dropWhile_eq_Nil_conv)
  next
    case (Cons p rest')
    then have "CHR ''%'' \<in> set fmt"
      using dropWhile_eq_Nil_conv [of "\<lambda>c. c \<noteq> CHR ''%''" fmt] by auto
    moreover obtain d rest piece args' where "rest' = d # rest"
      "directive num2str ptr2str d args = Some (piece, args')"
      "pushvfstring_loop num2str ptr2str rest args'
         (stack @ [takeWhile (\<lambda>c. c \<noteq> CHR ''%'') fmt, piece]) (n + 2) = Some (st, n')"
      using "1.prems" pushvfstring_loop.simps [of num2str ptr2str fmt args stack n, unfolded Cons]
      by (auto split: list.splits option.splits prod.splits)
    moreover from "1.IH" [OF Cons this(1) this(2) refl this(3)]
    have "length st + (n + 2) = length stack + 2 + n' + 1" by simp
    ultimately show ?thesis by simp
  qed
qed

text \<open>\<open>luaO_pushvfstring\<close> leaves exactly the number of pieces on the stack that it then
  asks \<open>luaV_concat\<close> to concatenate, and a format with no directive is pushed as it is.\<close>

theorem pushvfstring_balanced:
  assumes "luaO_pushvfstring num2str ptr2str fmt args = Some (pieces, n)"
  shows "length pieces = n + 1 \<and> (CHR ''%'' \<notin> set fmt \<longrightarrow> concat pieces = fmt)"
  using pushvfstring_loop_count [OF assms [unfolded luaO_pushvfstring_def]] by auto

theorem pushvfstring_balanced_witness:
  "luaO_pushvfstring (\<lambda>_. ''7'') (\<lambda>_. ''p'') ''%s:%d:'' [ArgStr (Some ''f''), ArgInt 7] =
     Some ([[], [], ''f'', '':'', ''7'', '':''], 5) \<and>
   length [[], [], ''f'', '':'', ''7'', '':''] = (5 :: nat) + 1"
proof -
  have h: "luaO_pushvfstring (\<lambda>_. ''7'') (\<lambda>_. ''p'') ''%s:%d:'' [ArgStr (Some ''f''), ArgInt 7] =
     Some ([[], [], ''f'', '':'', ''7'', '':''], 5)"
    by (simp add: luaO_pushvfstring_def pushvfstring_loop.simps directive.simps)
  with pushvfstring_balanced [OF h] show ?thesis by simp
qed

end
