(* ===== verification/Table.thy ===== *)
theory Table
  imports Objects
begin

text \<open>
  Lua tables (\<open>ltable.c\<close>): an array part and a hash part that is a chained scatter table
  with Brent's variation. The definitions follow the C file function by function; a
  pointer to a node is its index in the node vector, a pointer to a value is a slot.
  Theory \<open>TableProof\<close> holds the invariant and the laws.
\<close>

section \<open>State\<close>

record Node =
  i_val :: TValue
  i_key :: TValue
  gnext :: "nat option"

text \<open>
  \<open>sizearray\<close> is the length of \<open>array\<close>; \<open>lastfree\<close> is an index, which \<open>getfreepos\<close> may leave
  one below the vector; \<open>isdummy\<close> says that \<open>node\<close> is the shared \<open>dummynode\<close>.
\<close>

record Table =
  flags :: u8
  lsizenode :: nat
  metatable :: "addr option"
  array :: "TValue list"
  node :: "Node list"
  lastfree :: int
  isdummy :: bool

datatype slot = ArrSlot nat | NodeSlot nat

definition nilnode :: Node where
  "nilnode = \<lparr>i_val = NIL, i_key = NIL, gnext = None\<rparr>"

definition MAXBITS :: nat where "MAXBITS = 26"
definition MAXASIZE :: int where "MAXASIZE = push_bit MAXBITS 1"

definition twoto :: "nat \<Rightarrow> nat" where "twoto x = push_bit x 1"

definition sizearray :: "Table \<Rightarrow> nat" where "sizearray t = length (array t)"

definition sizenode :: "Table \<Rightarrow> nat" where "sizenode t = twoto (lsizenode t)"

text \<open>Reading and writing through the pointer a search function returned; \<open>None\<close> is
  \<open>luaO_nilobject\<close>.\<close>

fun read_slot :: "Table \<Rightarrow> slot option \<Rightarrow> TValue" where
  "read_slot t None = NIL"
| "read_slot t (Some (ArrSlot i)) = array t ! i"
| "read_slot t (Some (NodeSlot i)) = i_val (node t ! i)"

fun write_slot :: "Table \<Rightarrow> slot \<Rightarrow> TValue \<Rightarrow> Table" where
  "write_slot t (ArrSlot i) v = t\<lparr>array := (array t)[i := v]\<rparr>"
| "write_slot t (NodeSlot i) v = t\<lparr>node := (node t)[i := (node t ! i)\<lparr>i_val := v\<rparr>]\<rparr>"

section \<open>Hashing\<close>

text \<open>The main position depends on the table only through its number of nodes; \<open>sh\<close> reads
  the hash field of a string.\<close>

definition hashpow2 :: "nat \<Rightarrow> u32 \<Rightarrow> nat" where
  "hashpow2 sz n = unat (n AND (of_nat sz - 1))"

definition hashmod :: "nat \<Rightarrow> u32 \<Rightarrow> nat" where
  "hashmod sz n = unat (n mod ((of_nat sz - 1) OR 1))"

definition IntPoint :: "addr \<Rightarrow> u32" where
  "IntPoint p = ucast p"

definition hashnum :: "nat \<Rightarrow> lua_Number \<Rightarrow> nat" where
  "hashnum sz n =
     (if luai_numeq n 0 then 0
      else hashmod sz ((ucast n :: u32) + ucast (drop_bit 32 n)))"

definition mainposition :: "(addr \<Rightarrow> u32) \<Rightarrow> nat \<Rightarrow> TValue \<Rightarrow> nat" where
  "mainposition sh sz key =
     (case key of
        NUMBER n \<Rightarrow> hashnum sz n
      | STRING p \<Rightarrow> hashpow2 sz (sh p)
      | BOOLEAN b \<Rightarrow> hashpow2 sz (if b then 1 else 0)
      | LIGHTUSERDATA p \<Rightarrow> hashmod sz (IntPoint p)
      | _ \<Rightarrow> hashmod sz (IntPoint (gcvalue key)))"

definition arrayindex :: "TValue \<Rightarrow> int" where
  "arrayindex key =
     (case key of
        NUMBER n \<Rightarrow>
          (let k = lua_number2int n in if luai_numeq (cast_num k) n then k else -1)
      | _ \<Rightarrow> -1)"

section \<open>Chains\<close>

text \<open>
  The nodes a \<open>do ... while (n)\<close> loop visits from node \<open>i\<close>. A chain visits no node twice
  in a well-formed table, so as many steps as there are nodes are enough
  (\<open>chain_reach\<close>).
\<close>

fun chain_upto :: "Node list \<Rightarrow> nat \<Rightarrow> nat \<Rightarrow> nat list" where
  "chain_upto nd 0 i = []"
| "chain_upto nd (Suc f) i =
     i # (case gnext (nd ! i) of None \<Rightarrow> [] | Some j \<Rightarrow> chain_upto nd f j)"

definition chain :: "Node list \<Rightarrow> nat \<Rightarrow> nat list" where
  "chain nd i = chain_upto nd (length nd) i"

section \<open>Search\<close>

definition luaH_getnum :: "Table \<Rightarrow> int \<Rightarrow> slot option" where
  "luaH_getnum t key =
     (if (word_of_int (key - 1) :: u32) < of_nat (sizearray t) then Some (ArrSlot (nat (key - 1)))
      else
        let nk = cast_num key in
        map_option NodeSlot
          (find (\<lambda>n. case i_key (node t ! n) of NUMBER x \<Rightarrow> luai_numeq x nk | _ \<Rightarrow> False)
             (chain (node t) (hashnum (sizenode t) nk))))"

definition luaH_getstr :: "(addr \<Rightarrow> u32) \<Rightarrow> Table \<Rightarrow> addr \<Rightarrow> slot option" where
  "luaH_getstr sh t key =
     map_option NodeSlot
       (find (\<lambda>n. case i_key (node t ! n) of STRING p \<Rightarrow> p = key | _ \<Rightarrow> False)
          (chain (node t) (hashpow2 (sizenode t) (sh key))))"

definition get_generic :: "(addr \<Rightarrow> u32) \<Rightarrow> Table \<Rightarrow> TValue \<Rightarrow> slot option" where
  "get_generic sh t key =
     map_option NodeSlot
       (find (\<lambda>n. luaO_rawequalObj (i_key (node t ! n)) key)
          (chain (node t) (mainposition sh (sizenode t) key)))"

definition luaH_get :: "(addr \<Rightarrow> u32) \<Rightarrow> Table \<Rightarrow> TValue \<Rightarrow> slot option" where
  "luaH_get sh t key =
     (case key of
        NIL \<Rightarrow> None
      | STRING p \<Rightarrow> luaH_getstr sh t p
      | NUMBER n \<Rightarrow>
          (let k = lua_number2int n in
           if luai_numeq (cast_num k) n then luaH_getnum t k
           else get_generic sh t key)
      | _ \<Rightarrow> get_generic sh t key)"

section \<open>Traversal\<close>

definition LUA_QL :: "string \<Rightarrow> string" where
  "LUA_QL x = [CHR 0x27] @ x @ [CHR 0x27]"

definition findindex :: "(addr \<Rightarrow> u32) \<Rightarrow> Table \<Rightarrow> TValue \<Rightarrow> int result" where
  "findindex sh t key =
     (if key = NIL then Inr (-1)
      else
        let i = arrayindex key in
        if 0 < i \<and> i \<le> int (sizearray t) then Inr (i - 1)
        else
          case find (\<lambda>n. luaO_rawequalObj (i_key (node t ! n)) key \<or>
                      ttype (i_key (node t ! n)) = 11 \<and> iscollectable key \<and>
                        gcvalue (i_key (node t ! n)) = gcvalue key)
                 (chain (node t) (mainposition sh (sizenode t) key)) of
            Some n \<Rightarrow> Inr (int n + int (sizearray t))
          | None \<Rightarrow> Inl (RunError (''invalid key to '' @ LUA_QL ''next'')))"

text \<open>The result is the pair written to the stack, \<open>None\<close> at the end.\<close>

definition luaH_next :: "(addr \<Rightarrow> u32) \<Rightarrow> Table \<Rightarrow> TValue \<Rightarrow> (TValue \<times> TValue) option result" where
  "luaH_next sh t key =
     seqR (findindex sh t key) (\<lambda>i0.
       let i = nat (i0 + 1) in
       case find (\<lambda>i. array t ! i \<noteq> NIL) [i ..< sizearray t] of
         Some i \<Rightarrow> Inr (Some (NUMBER (cast_num (int i + 1)), array t ! i))
       | None \<Rightarrow>
           (case find (\<lambda>i. i_val (node t ! i) \<noteq> NIL)
                   [max i (sizearray t) - sizearray t ..< sizenode t] of
              Some i \<Rightarrow> Inr (Some (i_key (node t ! i), i_val (node t ! i)))
            | None \<Rightarrow> Inr None))"

section \<open>Counting for a rehash\<close>

text \<open>Counts and sizes are non-negative C ints, here natural numbers.\<close>

function computesizes_loop :: "nat list \<Rightarrow> nat \<Rightarrow> nat \<Rightarrow> nat \<Rightarrow> nat \<Rightarrow> nat \<Rightarrow> nat \<times> nat" where
  "computesizes_loop nums n_array bt a n_array_active n_array_optimal =
     (let pow2 = 2 ^ bt in
      if pow2 div 2 < n_array then
        let used = nums ! bt;
            a' = (if used > 0 then a + used else a);
            better = used > 0 \<and> a' > pow2 div 2;
            optimal = (if better then pow2 else n_array_optimal);
            active = (if better then a' else n_array_active)
        in if a' = n_array then (optimal, active)
           else computesizes_loop nums n_array (bt + 1) a' active optimal
      else (n_array_optimal, n_array_active))"
  by pat_completeness auto
termination
proof (relation "measure (\<lambda>(nums, n, bt, _). n - bt)", goal_cases)
  case (2 nums n bt a act opt pow2 used a' better optimal active)
  have "bt \<le> 2 ^ bt div 2" by (cases bt) (auto intro: Suc_leI less_exp)
  with 2 show ?case by simp
qed simp

declare computesizes_loop.simps [simp del]

text \<open>Returns the new \<open>*n_array\<close> and the function's result.\<close>

definition computesizes :: "nat list \<Rightarrow> nat \<Rightarrow> nat \<times> nat" where
  "computesizes nums n_array = computesizes_loop nums n_array 0 0 0 0"

definition countint :: "TValue \<Rightarrow> nat list \<Rightarrow> nat \<times> nat list" where
  "countint key nums =
     (let k = arrayindex key in
      if 0 < k \<and> k \<le> MAXASIZE then
        let lg = nat (ceillog2 (word_of_int k)) in (1, nums[lg := nums ! lg + 1])
      else (0, nums))"

text \<open>The inner loop, from \<open>i\<close> to \<open>lim\<close>.\<close>

definition count_range :: "TValue list \<Rightarrow> nat \<Rightarrow> nat \<Rightarrow> nat" where
  "count_range arr i lim = length (filter (\<lambda>i. arr ! (i - 1) \<noteq> NIL) [i ..< lim + 1])"

function numusearray_loop :: "TValue list \<Rightarrow> nat list \<Rightarrow> nat \<Rightarrow> nat \<Rightarrow> nat \<Rightarrow> nat \<Rightarrow> nat \<times> nat list" where
  "numusearray_loop arr nums bt pow2 i n_array_used =
     (if bt \<le> MAXBITS then
        let lim = (if pow2 > length arr then length arr else pow2) in
        if pow2 > length arr \<and> i > lim then (n_array_used, nums)
        else
          let used = count_range arr i lim in
          numusearray_loop arr (nums[bt := nums ! bt + used]) (bt + 1) (pow2 * 2)
            (max i (lim + 1)) (n_array_used + used)
      else (n_array_used, nums))"
  by pat_completeness auto
termination
  by (relation "measure (\<lambda>(arr, nums, bt, _). MAXBITS + 1 - bt)") auto

declare numusearray_loop.simps [simp del]

definition numusearray :: "Table \<Rightarrow> nat list \<Rightarrow> nat \<times> nat list" where
  "numusearray t nums = numusearray_loop (array t) nums 0 1 1 0"

text \<open>Result: total use, the extra array candidates, and the counts.\<close>

fun numusehash_loop :: "Node list \<Rightarrow> nat \<Rightarrow> nat \<Rightarrow> nat \<Rightarrow> nat list \<Rightarrow> nat \<times> nat \<times> nat list" where
  "numusehash_loop nd 0 totaluse n_extra nums = (totaluse, n_extra, nums)"
| "numusehash_loop nd (Suc i) totaluse n_extra nums =
     (if i_val (nd ! i) \<noteq> NIL then
        case countint (i_key (nd ! i)) nums of
          (c, nums) \<Rightarrow> numusehash_loop nd i (totaluse + 1) (n_extra + c) nums
      else numusehash_loop nd i totaluse n_extra nums)"

definition numusehash :: "Table \<Rightarrow> nat list \<Rightarrow> nat \<Rightarrow> nat \<times> nat \<times> nat list" where
  "numusehash t nums n_array_used =
     (case numusehash_loop (node t) (sizenode t) 0 0 nums of
        (totaluse, n_extra, nums) \<Rightarrow> (totaluse, n_array_used + n_extra, nums))"

section \<open>Growing and shrinking\<close>

text \<open>
  Allocation is taken to succeed. \<open>setarrayvector\<close> is called with a size that is at least
  the present one.
\<close>

definition setarrayvector :: "Table \<Rightarrow> nat \<Rightarrow> Table" where
  "setarrayvector t sz =
     t\<lparr>array := take sz (array t) @ replicate (sz - length (array t)) NIL\<rparr>"

definition setnodevector :: "Table \<Rightarrow> nat \<Rightarrow> Table result" where
  "setnodevector t sz =
     (if sz = 0 then
        Inr (t\<lparr>node := [nilnode], isdummy := True, lsizenode := 0, lastfree := 0\<rparr>)
      else
        let lsize = nat (ceillog2 (of_nat sz)) in
        if lsize > MAXBITS then Inl (RunError ''table overflow'')
        else
          let sz = twoto lsize in
          Inr (t\<lparr>node := replicate sz nilnode, isdummy := False, lsizenode := lsize,
                 lastfree := int sz\<rparr>))"

text \<open>
  \<open>resize\<close>, \<open>rehash\<close> and \<open>newkey\<close> call each other: the first two are written over the
  insertion function \<open>nk\<close> they end up calling.
\<close>

type_synonym insertion = "Table \<Rightarrow> TValue \<Rightarrow> (Table \<times> slot) result"

definition luaH_set_by :: "insertion \<Rightarrow> (addr \<Rightarrow> u32) \<Rightarrow> insertion" where
  "luaH_set_by nk sh t key =
     (let p = luaH_get sh t key;
          t = t\<lparr>flags := 0\<rparr>
      in case p of
           Some s \<Rightarrow> Inr (t, s)
         | None \<Rightarrow>
             if key = NIL then Inl (RunError ''table index is nil'')
             else if (case key of NUMBER n \<Rightarrow> luai_numisnan n | _ \<Rightarrow> False)
             then Inl (RunError ''table index is NaN'')
             else nk t key)"

definition luaH_setnum_by :: "insertion \<Rightarrow> Table \<Rightarrow> int \<Rightarrow> (Table \<times> slot) result" where
  "luaH_setnum_by nk t key =
     (case luaH_getnum t key of
        Some s \<Rightarrow> Inr (t, s)
      | None \<Rightarrow> nk t (NUMBER (cast_num key)))"

definition luaH_setstr_by :: "insertion \<Rightarrow> (addr \<Rightarrow> u32) \<Rightarrow> Table \<Rightarrow> addr \<Rightarrow> (Table \<times> slot) result" where
  "luaH_setstr_by nk sh t key =
     (case luaH_getstr sh t key of
        Some s \<Rightarrow> Inr (t, s)
      | None \<Rightarrow> nk t (STRING key))"

text \<open>The two loops of \<open>resize\<close>: the vanishing slice of the array upwards, then the old
  nodes downwards.\<close>

fun reinsert_array :: "insertion \<Rightarrow> TValue list \<Rightarrow> nat list \<Rightarrow> Table \<Rightarrow> Table result" where
  "reinsert_array nk src [] t = Inr t"
| "reinsert_array nk src (i # is) t =
     (if src ! i \<noteq> NIL then
        seqR (luaH_setnum_by nk t (int i + 1)) (\<lambda>(t, dst).
          reinsert_array nk src is (write_slot t dst (src ! i)))
      else reinsert_array nk src is t)"

fun reinsert_nodes :: "insertion \<Rightarrow> (addr \<Rightarrow> u32) \<Rightarrow> Node list \<Rightarrow> nat \<Rightarrow> Table \<Rightarrow> Table result" where
  "reinsert_nodes nk sh nold 0 t = Inr t"
| "reinsert_nodes nk sh nold (Suc i) t =
     (if i_val (nold ! i) \<noteq> NIL then
        seqR (luaH_set_by nk sh t (i_key (nold ! i))) (\<lambda>(t, dst).
          reinsert_nodes nk sh nold i (write_slot t dst (i_val (nold ! i))))
      else reinsert_nodes nk sh nold i t)"

definition resize_by :: "insertion \<Rightarrow> (addr \<Rightarrow> u32) \<Rightarrow> Table \<Rightarrow> nat \<Rightarrow> nat \<Rightarrow> Table result" where
  "resize_by nk sh t nasize nhsize =
     (let oldasize = sizearray t;
          oldhsize = lsizenode t;
          nold = node t;
          t = (if nasize > oldasize then setarrayvector t nasize else t)
      in seqR (setnodevector t nhsize) (\<lambda>t.
         seqR (if nasize < oldasize
               then reinsert_array nk (array t) [nasize ..< oldasize] (t\<lparr>array := take nasize (array t)\<rparr>)
               else Inr t) (\<lambda>t.
         reinsert_nodes nk sh nold (twoto oldhsize) t)))"

definition rehash_by :: "insertion \<Rightarrow> (addr \<Rightarrow> u32) \<Rightarrow> Table \<Rightarrow> TValue \<Rightarrow> Table result" where
  "rehash_by nk sh t ek =
     (let nums = replicate (MAXBITS + 1) 0 in
      case numusearray t nums of (nasize, nums) \<Rightarrow>
      let totaluse = nasize in
      case numusehash t nums nasize of (hashuse, nasize, nums) \<Rightarrow>
      let totaluse = totaluse + hashuse in
      case countint ek nums of (c, nums) \<Rightarrow>
      let nasize = nasize + c;
          totaluse = totaluse + 1 in
      case computesizes nums nasize of (nasize, na) \<Rightarrow>
      resize_by nk sh t nasize (totaluse - na))"

section \<open>Insertion\<close>

fun freepos :: "Node list \<Rightarrow> nat \<Rightarrow> int \<times> nat option" where
  "freepos nd 0 = (-1, None)"
| "freepos nd (Suc l) = (if i_key (nd ! l) = NIL then (int l, Some l) else freepos nd l)"

definition getfreepos :: "Table \<Rightarrow> Table \<times> nat option" where
  "getfreepos t =
     (if lastfree t > 0 then
        case freepos (node t) (nat (lastfree t)) of (l, n) \<Rightarrow> (t\<lparr>lastfree := l\<rparr>, n)
      else (t\<lparr>lastfree := lastfree t - 1\<rparr>, None))"

text \<open>Make \<open>n\<close> the node of a colliding \<open>mp\<close>, whose predecessor in its chain is \<open>pred\<close>.\<close>

definition move_node :: "Node list \<Rightarrow> nat \<Rightarrow> nat \<Rightarrow> nat \<Rightarrow> Node list" where
  "move_node nd pred mp n =
     (let nd = nd[pred := (nd ! pred)\<lparr>gnext := Some n\<rparr>];
          nd = nd[n := nd ! mp]
      in nd[mp := (nd ! mp)\<lparr>gnext := None, i_val := NIL\<rparr>])"

definition link_node :: "Node list \<Rightarrow> nat \<Rightarrow> nat \<Rightarrow> Node list" where
  "link_node nd mp n =
     (let nd = nd[n := (nd ! n)\<lparr>gnext := gnext (nd ! mp)\<rparr>]
      in nd[mp := (nd ! mp)\<lparr>gnext := Some n\<rparr>])"

definition set_key :: "Node list \<Rightarrow> nat \<Rightarrow> TValue \<Rightarrow> Node list" where
  "set_key nd mp key = nd[mp := (nd ! mp)\<lparr>i_key := key\<rparr>]"

text \<open>
  The recursion of \<open>newkey\<close> through \<open>rehash\<close> is bounded by fuel; \<open>newkey_fuel\<close> in
  \<open>TableProof\<close> shows that two levels are enough. A chain that does not lead to its
  colliding node would be followed through a null pointer (\<open>Undefined\<close>).
\<close>

primrec newkey :: "(addr \<Rightarrow> u32) \<Rightarrow> nat \<Rightarrow> insertion" where
  "newkey sh 0 t key = Inl OutOfFuel"
| "newkey sh (Suc fuel) t key =
     (let mp = mainposition sh (sizenode t) key in
      if i_val (node t ! mp) \<noteq> NIL \<or> isdummy t then
        case getfreepos t of
          (t, None) \<Rightarrow>
            seqR (rehash_by (newkey sh fuel) sh t key) (\<lambda>t.
              luaH_set_by (newkey sh fuel) sh t key)
        | (t, Some n) \<Rightarrow>
            let othern = mainposition sh (sizenode t) (i_key (node t ! mp)) in
            if othern \<noteq> mp then
              case find (\<lambda>i. gnext (node t ! i) = Some mp) (chain (node t) othern) of
                None \<Rightarrow> Inl Undefined
              | Some pred \<Rightarrow>
                  Inr (t\<lparr>node := set_key (move_node (node t) pred mp n) mp key\<rparr>, NodeSlot mp)
            else Inr (t\<lparr>node := set_key (link_node (node t) mp n) n key\<rparr>, NodeSlot n)
      else Inr (t\<lparr>node := set_key (node t) mp key\<rparr>, NodeSlot mp))"

definition NEWKEY_FUEL :: nat where "NEWKEY_FUEL = 2"

definition luaH_set :: "(addr \<Rightarrow> u32) \<Rightarrow> Table \<Rightarrow> TValue \<Rightarrow> (Table \<times> slot) result" where
  "luaH_set sh = luaH_set_by (newkey sh NEWKEY_FUEL) sh"

definition luaH_setnum :: "(addr \<Rightarrow> u32) \<Rightarrow> Table \<Rightarrow> int \<Rightarrow> (Table \<times> slot) result" where
  "luaH_setnum sh = luaH_setnum_by (newkey sh NEWKEY_FUEL)"

definition luaH_setstr :: "(addr \<Rightarrow> u32) \<Rightarrow> Table \<Rightarrow> addr \<Rightarrow> (Table \<times> slot) result" where
  "luaH_setstr sh = luaH_setstr_by (newkey sh NEWKEY_FUEL) sh"

definition luaH_resizearray :: "(addr \<Rightarrow> u32) \<Rightarrow> Table \<Rightarrow> nat \<Rightarrow> Table result" where
  "luaH_resizearray sh t nasize =
     (let nsize = (if isdummy t then 0 else sizenode t)
      in resize_by (newkey sh NEWKEY_FUEL) sh t nasize nsize)"

definition luaH_new :: "nat \<Rightarrow> nat \<Rightarrow> Table result" where
  "luaH_new narray nhash =
     (let t = \<lparr>flags = NOT 0, lsizenode = 0, metatable = None, array = [],
               node = [nilnode], lastfree = 0, isdummy = True\<rparr>;
          t = setarrayvector t narray
      in setnodevector t nhash)"

section \<open>Length\<close>

text \<open>
  The doubling search makes at most 32 steps before the \<open>unsigned\<close> bound passes
  \<open>MAX_INT\<close>; the linear search ends within one step more than there are slots. Both
  bounds are fuel, and \<open>unbound_search_boundary\<close> shows they are enough.
\<close>

definition getnum_nil :: "Table \<Rightarrow> u32 \<Rightarrow> bool" where
  "getnum_nil t j \<longleftrightarrow> read_slot t (luaH_getnum t (sint j)) = NIL"

fun linear_search :: "Table \<Rightarrow> nat \<Rightarrow> u32 \<Rightarrow> u32 result" where
  "linear_search t 0 i = Inl OutOfFuel"
| "linear_search t (Suc f) i = (if \<not> getnum_nil t i then linear_search t f (i + 1) else Inr (i - 1))"

text \<open>The doubling loop hands its two bounds on, or the answer of the linear search.\<close>

fun doubling_search :: "Table \<Rightarrow> nat \<Rightarrow> u32 \<Rightarrow> u32 \<Rightarrow> (u32 + u32 \<times> u32) result" where
  "doubling_search t 0 i j = Inl OutOfFuel"
| "doubling_search t (Suc f) i j =
     (if \<not> getnum_nil t j then
        let i = j; j = j * 2 in
        if j > word_of_int MAX_INT
        then seqR (linear_search t (sizearray t + length (node t) + 1) 1) (\<lambda>r. Inr (Inl r))
        else doubling_search t f i j
      else Inr (Inr (i, j)))"

text \<open>The binary searches run while \<open>j - i > 1\<close> in unsigned arithmetic; the width of the
  interval bounds their steps.\<close>

fun binary_search :: "(u32 \<Rightarrow> bool) \<Rightarrow> nat \<Rightarrow> u32 \<Rightarrow> u32 \<Rightarrow> u32 result" where
  "binary_search absent 0 i j = Inl OutOfFuel"
| "binary_search absent (Suc f) i j =
     (if j - i > 1 then
        let m = (i + j) div 2 in
        if absent m then binary_search absent f i m else binary_search absent f m j
      else Inr i)"

definition unbound_search :: "Table \<Rightarrow> u32 \<Rightarrow> u32 result" where
  "unbound_search t j =
     seqR (doubling_search t 33 j (j + 1)) (\<lambda>r.
       case r of
         Inl i \<Rightarrow> Inr i
       | Inr (i, j) \<Rightarrow> binary_search (getnum_nil t) 33 i j)"

definition luaH_getn :: "Table \<Rightarrow> int result" where
  "luaH_getn t =
     (let j = of_nat (sizearray t) :: u32 in
      if j > 0 \<and> array t ! (unat j - 1) = NIL then
        seqR (binary_search (\<lambda>middle. array t ! (unat middle - 1) = NIL) 33 0 j) (\<lambda>i. Inr (sint i))
      else if isdummy t then Inr (sint j)
      else seqR (unbound_search t j) (\<lambda>i. Inr (sint i)))"

end
