(* ===== verification/TableChain.thy ===== *)
theory TableChain
  imports Table
begin

text \<open>
  The chained scatter table of \<open>ltable.c\<close>: the invariant of a node vector, search along a
  chain, and the three ways \<open>newkey\<close> places a key. What the node vector needs of the
  hash function is the interface \<open>hashing\<close>; \<open>mainposition\<close> provides it.
\<close>

section \<open>Keys\<close>

definition live :: "TValue \<Rightarrow> bool" where
  "live k \<longleftrightarrow> k \<noteq> NIL \<and> ttype k \<noteq> 11"

definition valid_key :: "TValue \<Rightarrow> bool" where
  "valid_key k \<longleftrightarrow> live k \<and> luaO_rawequalObj k k"

lemma valid_live: "valid_key k \<Longrightarrow> live k"
  by (simp add: valid_key_def)

lemma live_nil [simp]: "\<not> live NIL"
  by (simp add: live_def)

lemma valid_nil [simp]: "\<not> valid_key NIL"
  by (simp add: valid_key_def)

lemma rawequal_ttype: "luaO_rawequalObj a b \<Longrightarrow> ttype a = ttype b"
  by (simp add: luaO_rawequalObj.simps split: if_splits)

lemma rawequal_live: "luaO_rawequalObj a b \<Longrightarrow> live a \<longleftrightarrow> live b"
  using rawequal_ttype [of a b] by (auto simp: live_def)

lemma rawequal_refl1: "luaO_rawequalObj a b \<Longrightarrow> luaO_rawequalObj a a"
  using rawequal_sym rawequal_trans by blast

lemma rawequal_valid: "luaO_rawequalObj a b \<Longrightarrow> live a \<Longrightarrow> valid_key a \<and> valid_key b"
  unfolding valid_key_def using rawequal_refl1 rawequal_sym rawequal_live by blast

lemma valid_key_iff: "valid_key k \<longleftrightarrow> live k \<and> (case k of NUMBER n \<Rightarrow> \<not> luai_numisnan n | _ \<Rightarrow> True)"
  by (auto simp: valid_key_def rawequal_iff luai_numisnan_def split: TValue.splits)

section \<open>The invariant of a node vector\<close>

definition nxt :: "Node list \<Rightarrow> (nat \<times> nat) set" where
  "nxt nd = {(a, b). a < length nd \<and> gnext (nd ! a) = Some b}"

lemma nxt_iff: "(a, b) \<in> nxt nd \<longleftrightarrow> a < length nd \<and> gnext (nd ! a) = Some b"
  by (simp add: nxt_def)

definition links_ok :: "Node list \<Rightarrow> bool" where
  "links_ok nd \<longleftrightarrow>
     (\<forall>a b. (a, b) \<in> nxt nd \<longrightarrow> b < length nd) \<and>
     (\<exists>r :: nat \<Rightarrow> nat. \<forall>a b. (a, b) \<in> nxt nd \<longrightarrow> r a < r b) \<and>
     (\<forall>a a' b. (a, b) \<in> nxt nd \<longrightarrow> (a', b) \<in> nxt nd \<longrightarrow> a = a') \<and>
     (\<forall>i < length nd. i_key (nd ! i) = NIL \<longrightarrow>
        i_val (nd ! i) = NIL \<and> gnext (nd ! i) = None \<and> (\<forall>a. (a, i) \<notin> nxt nd))"

text \<open>
  Every live key is reachable from its main position; a key that is not in its main
  position collides with one that is (or with a dead key); equal keys share a node; only
  valid keys have a value.
\<close>

definition keys_ok :: "(TValue \<Rightarrow> nat) \<Rightarrow> Node list \<Rightarrow> bool" where
  "keys_ok m nd \<longleftrightarrow>
     (\<forall>i < length nd. live (i_key (nd ! i)) \<longrightarrow>
        valid_key (i_key (nd ! i)) \<and> (m (i_key (nd ! i)), i) \<in> (nxt nd)\<^sup>* \<and>
        (m (i_key (nd ! i)) \<noteq> i \<longrightarrow> live (i_key (nd ! m (i_key (nd ! i)))) \<longrightarrow>
           m (i_key (nd ! m (i_key (nd ! i)))) = m (i_key (nd ! i)))) \<and>
     (\<forall>i < length nd. \<forall>j < length nd. live (i_key (nd ! i)) \<longrightarrow>
        luaO_rawequalObj (i_key (nd ! i)) (i_key (nd ! j)) \<longrightarrow> i = j) \<and>
     (\<forall>i < length nd. i_val (nd ! i) \<noteq> NIL \<longrightarrow> live (i_key (nd ! i)))"

lemma links_okD:
  assumes "links_ok nd"
  shows "(a, b) \<in> nxt nd \<Longrightarrow> b < length nd"
    and "(a, b) \<in> nxt nd \<Longrightarrow> (a', b) \<in> nxt nd \<Longrightarrow> a = a'"
    and "i < length nd \<Longrightarrow> i_key (nd ! i) = NIL \<Longrightarrow> i_val (nd ! i) = NIL"
    and "i < length nd \<Longrightarrow> i_key (nd ! i) = NIL \<Longrightarrow> (a, i) \<notin> nxt nd"
    and "i_key (nd ! i) = NIL \<Longrightarrow> (i, a) \<notin> nxt nd"
proof -
  have L: "\<forall>a b. (a, b) \<in> nxt nd \<longrightarrow> b < length nd"
    "\<forall>a a' b. (a, b) \<in> nxt nd \<longrightarrow> (a', b) \<in> nxt nd \<longrightarrow> a = a'"
    "\<forall>i < length nd. i_key (nd ! i) = NIL \<longrightarrow>
        i_val (nd ! i) = NIL \<and> gnext (nd ! i) = None \<and> (\<forall>a. (a, i) \<notin> nxt nd)"
    using assms unfolding links_ok_def by - (elim conjE, assumption)+
  show "(a, b) \<in> nxt nd \<Longrightarrow> b < length nd" using L(1) by blast
  show "(a, b) \<in> nxt nd \<Longrightarrow> (a', b) \<in> nxt nd \<Longrightarrow> a = a'" using L(2) by blast
  show "i < length nd \<Longrightarrow> i_key (nd ! i) = NIL \<Longrightarrow> i_val (nd ! i) = NIL" using L(3) by blast
  show "i < length nd \<Longrightarrow> i_key (nd ! i) = NIL \<Longrightarrow> (a, i) \<notin> nxt nd" using L(3) by blast
  show "i_key (nd ! i) = NIL \<Longrightarrow> (i, a) \<notin> nxt nd" using L(3) by (auto simp: nxt_iff)
qed

lemma links_ok_rank:
  assumes "links_ok nd" obtains r :: "nat \<Rightarrow> nat" where "\<And>a b. (a, b) \<in> nxt nd \<Longrightarrow> r a < r b"
  using assms unfolding links_ok_def by auto

lemma links_ok_irrefl: "links_ok nd \<Longrightarrow> (a, a) \<notin> nxt nd"
  by (metis less_irrefl links_ok_rank)

section \<open>A chain visits what is reachable\<close>

lemma chain_upto_rank:
  assumes r: "\<And>a b. (a, b) \<in> nxt nd \<Longrightarrow> r a < (r b :: nat)"
    and b: "\<And>a b. (a, b) \<in> nxt nd \<Longrightarrow> b < length nd" and "i < length nd"
  shows "distinct (chain_upto nd f i) \<and>
    (\<forall>j \<in> set (chain_upto nd f i). j < length nd \<and> (i, j) \<in> (nxt nd)\<^sup>* \<and> r i \<le> r j)"
  using \<open>i < length nd\<close>
proof (induction f arbitrary: i)
  case (Suc f)
  show ?case
  proof (cases "gnext (nd ! i)")
    case None
    with Suc.prems show ?thesis by simp
  next
    case (Some j)
    then have ij: "(i, j) \<in> nxt nd" using Suc.prems by (simp add: nxt_iff)
    note IH = Suc.IH [OF b [OF ij]]
    have "r i < r j" using r [OF ij] .
    then show ?thesis using IH Some Suc.prems ij
      by (auto intro: converse_rtrancl_into_rtrancl dest: order_less_le_trans)
  qed
qed simp

lemma chain_upto_closed:
  assumes "length (chain_upto nd f i) < f" "(i, j) \<in> (nxt nd)\<^sup>*"
  shows "j \<in> set (chain_upto nd f i)"
  using assms
proof (induction f arbitrary: i)
  case (Suc f)
  show ?case
  proof (cases "i = j")
    case False
    with Suc.prems(2) obtain k where k: "(i, k) \<in> nxt nd" "(k, j) \<in> (nxt nd)\<^sup>*"
      by (meson converse_rtranclE)
    with Suc show ?thesis by (simp add: nxt_iff)
  qed simp
qed simp

lemma chain_reach:
  assumes "links_ok nd" "i < length nd"
  shows "set (chain nd i) = {j. (i, j) \<in> (nxt nd)\<^sup>*}"
proof -
  obtain r :: "nat \<Rightarrow> nat" where r: "\<And>a b. (a, b) \<in> nxt nd \<Longrightarrow> r a < r b"
    using links_ok_rank [OF assms(1)] by blast
  note R = chain_upto_rank [OF r links_okD(1) [OF assms(1)] assms(2), simplified]
  have less: "j < length nd" if "(i, j) \<in> (nxt nd)\<^sup>*" for j
    using that assms by (induction rule: rtrancl_induct) (auto dest: links_okD(1))
  have "{j. (i, j) \<in> (nxt nd)\<^sup>*} \<subseteq> set (chain nd i)"
  proof (cases "length (chain nd i) < length nd")
    case True
    then show ?thesis using chain_upto_closed unfolding chain_def by blast
  next
    case False
    have "set (chain nd i) \<subseteq> {..<length nd}" using R unfolding chain_def by auto
    moreover have "card (set (chain nd i)) \<ge> card {..<length nd}"
      using False R distinct_card [of "chain nd i"] unfolding chain_def by simp
    ultimately have "set (chain nd i) = {..<length nd}" by (intro card_seteq) auto
    with less show ?thesis by auto
  qed
  with R show ?thesis unfolding chain_def by auto
qed

lemma find_unique:
  assumes "\<And>i. i \<in> set xs \<Longrightarrow> P i \<Longrightarrow> i = k" "k \<in> set xs" "P k"
  shows "find P xs = Some k"
  using assms
  by (metis (full_types) find_None_iff2 find_Some_iff nth_mem option.exhaust)

section \<open>Contents\<close>

definition content :: "Node list \<Rightarrow> (TValue \<times> TValue) set" where
  "content nd = {(i_key (nd ! i), i_val (nd ! i)) |i. i < length nd \<and> i_val (nd ! i) \<noteq> NIL}"

definition live_keys :: "Node list \<Rightarrow> TValue set" where
  "live_keys nd = {i_key (nd ! i) |i. i < length nd \<and> live (i_key (nd ! i))}"

definition used_nodes :: "Node list \<Rightarrow> nat set" where
  "used_nodes nd = {i. i < length nd \<and> i_key (nd ! i) \<noteq> NIL}"

text \<open>What placing a new key \<open>k\<close> at node \<open>i\<close> means; node \<open>j\<close> is the one taken into use.\<close>

definition placed :: "(TValue \<Rightarrow> nat) \<Rightarrow> Node list \<Rightarrow> TValue \<Rightarrow> Node list \<Rightarrow> nat \<Rightarrow> nat \<Rightarrow> bool" where
  "placed m nd k nd' i j \<longleftrightarrow>
     links_ok nd' \<and> keys_ok m nd' \<and> length nd' = length nd \<and> i < length nd \<and>
     i_key (nd' ! i) = k \<and> i_val (nd' ! i) = NIL \<and> content nd' = content nd \<and>
     live_keys nd' \<subseteq> insert k (live_keys nd) \<and>
     used_nodes nd' = insert j (used_nodes nd)"

lemma content_eqI:
  assumes "length nd' = length nd" "inj_on f {..<length nd}" "f ` {..<length nd} \<subseteq> {..<length nd}"
    and "\<And>i. i < length nd \<Longrightarrow> i_val (nd' ! f i) = i_val (nd ! i) \<and>
      (i_val (nd ! i) \<noteq> NIL \<longrightarrow> i_key (nd' ! f i) = i_key (nd ! i))"
  shows "content nd' = content nd"
proof -
  have f: "f ` {..<length nd} = {..<length nd}" using assms by (intro endo_inj_surj) auto
  have "content nd' = {(i_key (nd' ! j), i_val (nd' ! j)) |j. j \<in> f ` {..<length nd} \<and> i_val (nd' ! j) \<noteq> NIL}"
    unfolding content_def assms(1) f by simp
  also have "\<dots> = {(i_key (nd' ! f i), i_val (nd' ! f i)) |i. i < length nd \<and> i_val (nd' ! f i) \<noteq> NIL}"
    by auto
  also have "\<dots> = content nd"
    unfolding content_def using assms(4) by (intro Collect_cong ex_cong1) auto
  finally show ?thesis .
qed

lemma live_keysI: "i < length nd \<Longrightarrow> live (i_key (nd ! i)) \<Longrightarrow> i_key (nd ! i) \<in> live_keys nd"
  unfolding live_keys_def by blast

lemma live_keys_subI:
  assumes "\<And>i. i < length nd' \<Longrightarrow> live (i_key (nd' ! i)) \<Longrightarrow> i_key (nd' ! i) \<in> A"
  shows "live_keys nd' \<subseteq> A"
  unfolding live_keys_def using assms by blast

lemma used_node_live: "keys_ok m nd \<Longrightarrow> i < length nd \<Longrightarrow> i_val (nd ! i) \<noteq> NIL \<Longrightarrow> live (i_key (nd ! i))"
  by (simp add: keys_ok_def)

lemma keys_okD:
  assumes "keys_ok m nd" "i < length nd" "live (i_key (nd ! i))"
  shows "valid_key (i_key (nd ! i))" and "(m (i_key (nd ! i)), i) \<in> (nxt nd)\<^sup>*"
    and "m (i_key (nd ! i)) \<noteq> i \<Longrightarrow> live (i_key (nd ! m (i_key (nd ! i)))) \<Longrightarrow>
           m (i_key (nd ! m (i_key (nd ! i)))) = m (i_key (nd ! i))"
    and "j < length nd \<Longrightarrow> luaO_rawequalObj (i_key (nd ! i)) (i_key (nd ! j)) \<Longrightarrow> i = j"
  using assms unfolding keys_ok_def by - (blast, blast, blast, blast)

lemma keys_okI:
  assumes "\<And>i. i < length nd \<Longrightarrow> live (i_key (nd ! i)) \<Longrightarrow> valid_key (i_key (nd ! i))"
    and "\<And>i. i < length nd \<Longrightarrow> live (i_key (nd ! i)) \<Longrightarrow> (m (i_key (nd ! i)), i) \<in> (nxt nd)\<^sup>*"
    and "\<And>i. i < length nd \<Longrightarrow> live (i_key (nd ! i)) \<Longrightarrow> m (i_key (nd ! i)) \<noteq> i \<Longrightarrow>
           live (i_key (nd ! m (i_key (nd ! i)))) \<Longrightarrow>
           m (i_key (nd ! m (i_key (nd ! i)))) = m (i_key (nd ! i))"
    and "\<And>i j. i < length nd \<Longrightarrow> j < length nd \<Longrightarrow> live (i_key (nd ! i)) \<Longrightarrow>
           luaO_rawequalObj (i_key (nd ! i)) (i_key (nd ! j)) \<Longrightarrow> i = j"
    and "\<And>i. i < length nd \<Longrightarrow> i_val (nd ! i) \<noteq> NIL \<Longrightarrow> live (i_key (nd ! i))"
  shows "keys_ok m nd"
  unfolding keys_ok_def using assms by blast

lemma links_okI:
  assumes "\<And>a b. (a, b) \<in> nxt nd \<Longrightarrow> b < length nd"
    and "\<And>a b. (a, b) \<in> nxt nd \<Longrightarrow> r a < (r b :: nat)"
    and "\<And>a a' b. (a, b) \<in> nxt nd \<Longrightarrow> (a', b) \<in> nxt nd \<Longrightarrow> a = a'"
    and "\<And>i. i < length nd \<Longrightarrow> i_key (nd ! i) = NIL \<Longrightarrow> i_val (nd ! i) = NIL"
    and "\<And>i a. i < length nd \<Longrightarrow> i_key (nd ! i) = NIL \<Longrightarrow> (i, a) \<notin> nxt nd"
    and "\<And>i a. i < length nd \<Longrightarrow> i_key (nd ! i) = NIL \<Longrightarrow> (a, i) \<notin> nxt nd"
  shows "links_ok nd"
proof -
  have "gnext (nd ! i) = None" if "i < length nd" "i_key (nd ! i) = NIL" for i
    using assms(5) [OF that] that(1) by (cases "gnext (nd ! i)") (auto simp: nxt_iff)
  moreover have "\<exists>r :: nat \<Rightarrow> nat. \<forall>a b. (a, b) \<in> nxt nd \<longrightarrow> r a < r b" using assms(2) by blast
  ultimately show ?thesis unfolding links_ok_def using assms(1,3,4,6) by blast
qed

section \<open>The interface of a hash function\<close>

locale hashing =
  fixes m :: "TValue \<Rightarrow> nat" and N :: nat
  assumes m_less: "m k < N"
    and m_cong: "luaO_rawequalObj a b \<Longrightarrow> m a = m b"
begin

lemma find_key:
  assumes "links_ok nd" "keys_ok m nd" "length nd = N" "valid_key k"
    and P: "\<And>n. n < length nd \<Longrightarrow> P n \<longleftrightarrow> luaO_rawequalObj (i_key (nd ! n)) k"
  shows "find P (chain nd (m k)) = Some i \<longleftrightarrow> i < length nd \<and> luaO_rawequalObj (i_key (nd ! i)) k"
proof -
  have set: "set (chain nd (m k)) = {j. (m k, j) \<in> (nxt nd)\<^sup>*}"
    using chain_reach assms m_less by auto
  have less: "j < length nd" if "j \<in> set (chain nd (m k))" for j
    using that unfolding set mem_Collect_eq
    by (cases rule: rtrancl.cases) (use assms m_less in \<open>auto dest: links_okD(1)\<close>)
  have uniq: "i = j" if "i < length nd" "j < length nd" "luaO_rawequalObj (i_key (nd ! i)) k"
    "luaO_rawequalObj (i_key (nd ! j)) k" for i j
  proof -
    have "live (i_key (nd ! i))" using that(3) assms(4) rawequal_live valid_live by blast
    moreover have "luaO_rawequalObj (i_key (nd ! i)) (i_key (nd ! j))"
      using that(3,4) rawequal_sym rawequal_trans by blast
    ultimately show ?thesis using assms(2) that(1,2) unfolding keys_ok_def by blast
  qed
  show ?thesis
  proof
    assume "find P (chain nd (m k)) = Some i"
    then have "i \<in> set (chain nd (m k))" "P i" by (auto simp: find_Some_iff)
    then show "i < length nd \<and> luaO_rawequalObj (i_key (nd ! i)) k" using less P by auto
  next
    assume i: "i < length nd \<and> luaO_rawequalObj (i_key (nd ! i)) k"
    then have "live (i_key (nd ! i))" using assms(4) rawequal_live valid_live by blast
    then have "(m (i_key (nd ! i)), i) \<in> (nxt nd)\<^sup>*" using i assms(2) unfolding keys_ok_def by blast
    then have "i \<in> set (chain nd (m k))" using set m_cong i by auto
    then show "find P (chain nd (m k)) = Some i"
      using i less P uniq by (intro find_unique) auto
  qed
qed

text \<open>The main position is free: the key goes there, whatever stale key it held.\<close>

lemma place_free:
  assumes inv: "links_ok nd" "keys_ok m nd" and len: "length nd = N" and k: "valid_key k"
    and new: "\<And>j. j < length nd \<Longrightarrow> \<not> luaO_rawequalObj (i_key (nd ! j)) k"
    and free: "i_val (nd ! m k) = NIL"
  shows "placed m nd k (set_key nd (m k) k) (m k) (m k)"
proof -
  let ?nd = "set_key nd (m k) k"
  have mk: "m k < length nd" using m_less len by simp
  have nth: "?nd ! i = (if i = m k then (nd ! i)\<lparr>i_key := k\<rparr> else nd ! i)" if "i < length nd" for i
    using that by (simp add: set_key_def)
  have l: "length ?nd = length nd" by (simp add: set_key_def)
  have nxt: "nxt ?nd = nxt nd" using l nth by (auto simp: nxt_def split: if_splits)
  obtain r :: "nat \<Rightarrow> nat" where r: "\<And>a b. (a, b) \<in> nxt nd \<Longrightarrow> r a < r b"
    using links_ok_rank [OF inv(1)] by blast
  have kn: "k \<noteq> NIL" using k by auto
  have new': "\<not> luaO_rawequalObj k (i_key (nd ! j))" if "j < length nd" for j
    using new [OF that] rawequal_sym by blast
  have "links_ok ?nd"
    by (rule links_okI [where r = r]; unfold nxt l)
      (use links_okD [OF inv(1)] r nth kn in \<open>auto split: if_splits\<close>)
  moreover have key: "i_key (?nd ! i) = (if i = m k then k else i_key (nd ! i))" if "i < length nd" for i
    using nth [OF that] by simp
  have "keys_ok m ?nd"
  proof (rule keys_okI; unfold nxt l)
    fix i assume i: "i < length nd" "live (i_key (?nd ! i))"
    then show "valid_key (i_key (?nd ! i))"
      using keys_okD(1) [OF inv(2)] k key by auto
    show "(m (i_key (?nd ! i)), i) \<in> (nxt nd)\<^sup>*"
      using i keys_okD(2) [OF inv(2)] key by auto
    show "m (i_key (?nd ! m (i_key (?nd ! i)))) = m (i_key (?nd ! i))"
      if "m (i_key (?nd ! i)) \<noteq> i" "live (i_key (?nd ! m (i_key (?nd ! i))))"
      using i that keys_okD(3) [OF inv(2)] key m_less len by (cases "i = m k") auto
    show "i = j" if j: "j < length nd" "luaO_rawequalObj (i_key (?nd ! i)) (i_key (?nd ! j))" for j
      using i j key new new' keys_okD(4) [OF inv(2)] by (auto split: if_splits)
  next
    fix i assume "i < length nd" "i_val (?nd ! i) \<noteq> NIL"
    then show "live (i_key (?nd ! i))"
      using used_node_live [OF inv(2)] nth free by (auto split: if_splits)
  qed
  moreover have "content ?nd = content nd"
    by (rule content_eqI [where f = id]) (use l nth free in auto)
  moreover have "live_keys ?nd \<subseteq> insert k (live_keys nd)"
    by (rule live_keys_subI; unfold l) (auto simp: key live_keysI)
  moreover have "used_nodes ?nd = insert (m k) (used_nodes nd)"
    unfolding used_nodes_def l using key kn mk by (auto split: if_splits)
  ultimately show ?thesis
    unfolding placed_def using l mk nth free by auto
qed

text \<open>The colliding node is in its main position: the key goes to the free node \<open>n\<close>, which is
  linked after it.\<close>

lemma place_link:
  assumes inv: "links_ok nd" "keys_ok m nd" and len: "length nd = N" and k: "valid_key k"
    and new: "\<And>j. j < length nd \<Longrightarrow> \<not> luaO_rawequalObj (i_key (nd ! j)) k"
    and mp: "i_val (nd ! m k) \<noteq> NIL" "m (i_key (nd ! m k)) = m k"
    and n: "n < length nd" "i_key (nd ! n) = NIL"
  shows "placed m nd k (set_key (link_node nd (m k) n) n k) n n"
proof -
  define mp where "mp = m k"
  let ?nd = "set_key (link_node nd (m k) n) n k"
  have mk: "mp < length nd" using m_less len by (simp add: mp_def)
  have live_mp: "live (i_key (nd ! mp))"
    using used_node_live [OF inv(2) mk] assms(6) by (simp add: mp_def)
  then have neq: "n \<noteq> mp" using n by auto
  have n_val: "i_val (nd ! n) = NIL" using links_okD(3) [OF inv(1) n] .
  have nth: "?nd ! i = (if i = n then (nd ! n)\<lparr>gnext := gnext (nd ! mp), i_key := k\<rparr>
      else if i = mp then (nd ! mp)\<lparr>gnext := Some n\<rparr> else nd ! i)" if "i < length nd" for i
    using that neq n mk by (simp add: set_key_def link_node_def Let_def mp_def [symmetric])
  have l: "length ?nd = length nd" by (simp add: set_key_def link_node_def Let_def)
  have n_out: "(n, b) \<notin> nxt nd" and n_in: "(b, n) \<notin> nxt nd" for b
    using links_okD(4) [OF inv(1) n] links_okD(5) [OF inv(1) n(2)] by auto
  have nxt: "(a, b) \<in> nxt ?nd \<longleftrightarrow>
      (if a = n then (mp, b) \<in> nxt nd else if a = mp then b = n else (a, b) \<in> nxt nd)" for a b
    unfolding nxt_iff l using nth n mk by (auto split: if_splits)
  obtain r :: "nat \<Rightarrow> nat" where r: "\<And>a b. (a, b) \<in> nxt nd \<Longrightarrow> r a < r b"
    using links_ok_rank [OF inv(1)] by blast
  have kn: "k \<noteq> NIL" using k by auto
  have key: "i_key (?nd ! i) = (if i = n then k else i_key (nd ! i))" if "i < length nd" for i
    using nth [OF that] by simp
  have val: "i_val (?nd ! i) = i_val (nd ! i)" if "i < length nd" for i
    using nth [OF that] by simp
  have new': "\<not> luaO_rawequalObj k (i_key (nd ! j))" if "j < length nd" for j
    using new [OF that] rawequal_sym by blast
  have links: "links_ok ?nd"
  proof (rule links_okI [where r = "\<lambda>i. if i = n then 2 * r mp + 1 else 2 * r i"]; unfold l nxt)
    fix a b assume ab: "if a = n then (mp, b) \<in> nxt nd else if a = mp then b = n else (a, b) \<in> nxt nd"
    show "b < length nd" using ab links_okD(1) [OF inv(1)] n by (auto split: if_splits)
    show "(if a = n then 2 * r mp + 1 else 2 * r a) < (if b = n then 2 * r mp + 1 else 2 * r b)"
      using ab r [of a b] r [of mp b] n_in neq by (auto split: if_splits)
    fix a' assume "if a' = n then (mp, b) \<in> nxt nd else if a' = mp then b = n else (a', b) \<in> nxt nd"
    with ab show "a = a'" using n_in links_okD(2) [OF inv(1)] by (auto split: if_splits)
  qed (use links_okD [OF inv(1)] key val n n_val kn live_mp n_in neq in \<open>auto split: if_splits\<close>)
  have path: "(a, b) \<in> (nxt ?nd)\<^sup>*" if "(a, b) \<in> (nxt nd)\<^sup>*" for a b
    using that
  proof (induction rule: rtrancl_induct)
    case (step b c)
    have "(b, c) \<in> (nxt ?nd)\<^sup>*"
    proof (cases "b = mp")
      case True
      then have "(mp, n) \<in> nxt ?nd" "(n, c) \<in> nxt ?nd" using step(2) nxt neq by auto
      with True show ?thesis by (meson converse_rtrancl_into_rtrancl rtrancl.rtrancl_refl)
    next
      case False
      then show ?thesis using step(2) nxt n_out by (metis r_into_rtrancl)
    qed
    with step(3) show ?case by simp
  qed simp
  have "keys_ok m ?nd"
  proof (rule keys_okI; unfold l)
    fix i assume i: "i < length nd" "live (i_key (?nd ! i))"
    then show "valid_key (i_key (?nd ! i))"
      using keys_okD(1) [OF inv(2)] k key by auto
    show "(m (i_key (?nd ! i)), i) \<in> (nxt ?nd)\<^sup>*"
    proof (cases "i = n")
      case True
      moreover have "(mp, n) \<in> nxt ?nd" using nxt neq by simp
      ultimately show ?thesis using key i by (simp add: mp_def r_into_rtrancl)
    next
      case False
      then show ?thesis using i keys_okD(2) [OF inv(2), of i] key path by auto
    qed
    show "m (i_key (?nd ! m (i_key (?nd ! i)))) = m (i_key (?nd ! i))"
      if h: "m (i_key (?nd ! i)) \<noteq> i" "live (i_key (?nd ! m (i_key (?nd ! i))))"
    proof (cases "i = n")
      case True
      then show ?thesis using key [OF i(1)] key [OF mk] neq mp(2) by (simp add: mp_def)
    next
      case False
      have mi: "m (i_key (nd ! i)) < length nd" using m_less len by simp
      have "m (i_key (nd ! i)) \<noteq> n"
      proof
        assume "m (i_key (nd ! i)) = n"
        then have "(n, i) \<in> (nxt nd)\<^sup>*" using i keys_okD(2) [OF inv(2), of i] False key by auto
        with False n_out show False by (metis converse_rtranclE)
      qed
      then show ?thesis using i h False keys_okD(3) [OF inv(2), of i] key mi by auto
    qed
    show "i = j" if j: "j < length nd" "luaO_rawequalObj (i_key (?nd ! i)) (i_key (?nd ! j))" for j
      using i j key new new' keys_okD(4) [OF inv(2)] by (auto split: if_splits)
  next
    fix i assume i: "i < length nd" "i_val (?nd ! i) \<noteq> NIL"
    then show "live (i_key (?nd ! i))"
      using used_node_live [OF inv(2)] key val n_val by (cases "i = n") auto
  qed
  moreover have "content ?nd = content nd"
    by (rule content_eqI [where f = id]) (use l key val n_val in auto)
  moreover have "live_keys ?nd \<subseteq> insert k (live_keys nd)"
    by (rule live_keys_subI; unfold l) (auto simp: key live_keysI)
  moreover have "used_nodes ?nd = insert n (used_nodes nd)"
    unfolding used_nodes_def l using key kn n by (auto split: if_splits)
  ultimately show ?thesis
    unfolding placed_def using links l key val n_val n by auto
qed

text \<open>The colliding node is out of its main position: it moves to the free node \<open>n\<close>, its chain
  is redone through \<open>n\<close>, and the key takes its place.\<close>

lemma place_move:
  assumes inv: "links_ok nd" "keys_ok m nd" and len: "length nd = N" and k: "valid_key k"
    and new: "\<And>j. j < length nd \<Longrightarrow> \<not> luaO_rawequalObj (i_key (nd ! j)) k"
    and mp: "mp = m k" "i_val (nd ! mp) \<noteq> NIL" "m (i_key (nd ! mp)) \<noteq> mp"
    and n: "n < length nd" "i_key (nd ! n) = NIL"
    and pred: "(pred, mp) \<in> nxt nd"
  shows "placed m nd k (set_key (move_node nd pred mp n) mp k) mp n"
proof -
  let ?nd = "set_key (move_node nd pred mp n) mp k"
  have mk: "mp < length nd" using m_less len by (simp add: mp(1))
  have live_mp: "live (i_key (nd ! mp))" using used_node_live [OF inv(2) mk] mp by simp
  then have neq: "n \<noteq> mp" using n by auto
  have n_val: "i_val (nd ! n) = NIL" using links_okD(3) [OF inv(1) n] .
  have n_out: "(n, b) \<notin> nxt nd" and n_in: "(b, n) \<notin> nxt nd" for b
    using links_okD(4) [OF inv(1) n] links_okD(5) [OF inv(1) n(2)] by auto
  have pr: "pred < length nd" "pred \<noteq> n" "pred \<noteq> mp"
    using pred n_out links_ok_irrefl [OF inv(1)] by (auto simp: nxt_iff)
  have pk: "i_key (nd ! pred) \<noteq> NIL" using pred links_okD(5) [OF inv(1)] by blast
  have nth: "?nd ! i = (if i = mp then (nd ! mp)\<lparr>gnext := None, i_val := NIL, i_key := k\<rparr>
      else if i = n then nd ! mp
      else if i = pred then (nd ! pred)\<lparr>gnext := Some n\<rparr> else nd ! i)" if "i < length nd" for i
    using that neq n mk pr by (simp add: set_key_def move_node_def Let_def nth_list_update)
  have l: "length ?nd = length nd" by (simp add: set_key_def move_node_def Let_def)
  have nxt: "(a, b) \<in> nxt ?nd \<longleftrightarrow>
      (if a = mp then False else if a = n then (mp, b) \<in> nxt nd
       else if a = pred then b = n else (a, b) \<in> nxt nd)" for a b
    unfolding nxt_iff l using nth n mk pr by (auto split: if_splits)
  obtain r :: "nat \<Rightarrow> nat" where r: "\<And>a b. (a, b) \<in> nxt nd \<Longrightarrow> r a < r b"
    using links_ok_rank [OF inv(1)] by blast
  have kn: "k \<noteq> NIL" using k by auto
  have key: "i_key (?nd ! i) = (if i = mp then k else if i = n then i_key (nd ! mp) else i_key (nd ! i))"
    if "i < length nd" for i using nth [OF that] by simp
  have val: "i_val (?nd ! i) = (if i = mp then NIL else if i = n then i_val (nd ! mp) else i_val (nd ! i))"
    if "i < length nd" for i using nth [OF that] by simp
  have new': "\<not> luaO_rawequalObj k (i_key (nd ! j))" if "j < length nd" for j
    using new [OF that] rawequal_sym by blast
  have links: "links_ok ?nd"
  proof (rule links_okI [where r = "\<lambda>i. if i = n then r mp else r i"]; unfold l nxt)
    fix a b assume ab: "if a = mp then False else if a = n then (mp, b) \<in> nxt nd
      else if a = pred then b = n else (a, b) \<in> nxt nd"
    show "b < length nd" using ab links_okD(1) [OF inv(1)] n by (auto split: if_splits)
    show "(if a = n then r mp else r a) < (if b = n then r mp else r b)"
      using ab r [of a b] r [of mp b] r [OF pred] n_in neq by (auto split: if_splits)
    fix a' assume "if a' = mp then False else if a' = n then (mp, b) \<in> nxt nd
      else if a' = pred then b = n else (a', b) \<in> nxt nd"
    with ab show "a = a'" using n_in links_okD(2) [OF inv(1)] by (auto split: if_splits)
  next
    fix i a assume i: "i < length nd" "i_key (?nd ! i) = NIL"
    then have i': "i \<noteq> mp" "i \<noteq> n" "i_key (nd ! i) = NIL"
      using key kn live_mp by (auto split: if_splits)
    show "i_val (?nd ! i) = NIL" using i(1) i' val links_okD(3) [OF inv(1)] by simp
    show "\<not> (if i = mp then False else if i = n then (mp, a) \<in> nxt nd
      else if i = pred then a = n else (i, a) \<in> nxt nd)"
      using i' pk links_okD(5) [OF inv(1) i'(3)] by auto
    show "\<not> (if a = mp then False else if a = n then (mp, i) \<in> nxt nd
      else if a = pred then i = n else (a, i) \<in> nxt nd)"
      using i(1) i' links_okD(4) [OF inv(1) i(1) i'(3)] by auto
  qed
  define f where "f a = (if a = mp then n else a)" for a
  have path: "(f a, f b) \<in> (nxt ?nd)\<^sup>*" if "(a, b) \<in> (nxt nd)\<^sup>*" for a b
    using that
  proof (induction rule: rtrancl_induct)
    case (step b c)
    have "b = pred \<longleftrightarrow> c = mp"
    proof
      show "c = mp" if "b = pred" using step(2) pred that by (simp add: nxt_iff)
      show "b = pred" if "c = mp" using step(2) pred that links_okD(2) [OF inv(1)] by blast
    qed
    moreover have "b \<noteq> n" using step(2) n_out by auto
    ultimately have "(f b, f c) \<in> nxt ?nd"
      unfolding nxt f_def using step(2) neq pr by auto
    with step(3) show ?case by simp
  qed simp
  have not_n: "m (i_key (nd ! i)) \<noteq> n" if "i < length nd" "live (i_key (nd ! i))" for i
  proof
    assume "m (i_key (nd ! i)) = n"
    then have "(n, i) \<in> (nxt nd)\<^sup>*" using keys_okD(2) [OF inv(2) that] by simp
    with n_out that(2) n show False by (metis converse_rtranclE live_nil)
  qed
  have not_mp: "m (i_key (nd ! i)) \<noteq> mp" if "i < length nd" "live (i_key (nd ! i))" "i \<noteq> mp" for i
    using keys_okD(3) [OF inv(2) that(1,2)] live_mp mp(3) that(3) by metis
  have "keys_ok m ?nd"
  proof (rule keys_okI; unfold l)
    fix i assume i: "i < length nd" "live (i_key (?nd ! i))"
    then show "valid_key (i_key (?nd ! i))"
      using keys_okD(1) [OF inv(2)] k key mk by (auto split: if_splits)
    show "(m (i_key (?nd ! i)), i) \<in> (nxt ?nd)\<^sup>*"
      using path [OF keys_okD(2) [OF inv(2) mk live_mp]] path [OF keys_okD(2) [OF inv(2), of i]]
        i key not_mp mp by (auto simp: f_def split: if_splits)
    show "m (i_key (?nd ! m (i_key (?nd ! i)))) = m (i_key (?nd ! i))"
      if h: "m (i_key (?nd ! i)) \<noteq> i" "live (i_key (?nd ! m (i_key (?nd ! i))))"
    proof -
      define i' where "i' = (if i = n then mp else i)"
      have ki: "i_key (?nd ! i) = i_key (nd ! i')" "i' < length nd" "live (i_key (nd ! i'))" "i \<noteq> mp"
        using h i key mk mp(1) by (auto simp: i'_def split: if_splits)
      have mi: "m (i_key (nd ! i')) < length nd" using m_less len by simp
      have "m (i_key (nd ! i')) \<noteq> mp" using not_mp [OF ki(2,3)] mp(3) by (cases "i' = mp") auto
      moreover have "m (i_key (nd ! i')) \<noteq> n" using not_n [OF ki(2,3)] .
      moreover have "m (i_key (nd ! i')) \<noteq> i'"
        using h(1) ki mp(3) by (auto simp: i'_def split: if_splits)
      ultimately show ?thesis
        using keys_okD(3) [OF inv(2) ki(2,3)] h(2) key [OF mi] by (simp add: ki(1))
    qed
    show "i = j" if j: "j < length nd" "luaO_rawequalObj (i_key (?nd ! i)) (i_key (?nd ! j))" for j
      using i j key new [OF mk] new' [OF mk] new [of i] new' [of j] neq mk
        keys_okD(4) [OF inv(2), of i j] keys_okD(4) [OF inv(2), of mp j] keys_okD(4) [OF inv(2), of i mp]
      by (auto split: if_splits)
  next
    fix i assume i: "i < length nd" "i_val (?nd ! i) \<noteq> NIL"
    then show "live (i_key (?nd ! i))"
      using used_node_live [OF inv(2)] key val live_mp by (auto split: if_splits)
  qed
  moreover have "content ?nd = content nd"
    by (rule content_eqI [where f = "\<lambda>i. if i = mp then n else if i = n then mp else i"])
      (use l key val n_val n mk neq in \<open>auto simp: inj_on_def\<close>)
  moreover have "live_keys ?nd \<subseteq> insert k (live_keys nd)"
    by (rule live_keys_subI; unfold l) (use mk in \<open>auto simp: key live_keysI\<close>)
  moreover have "used_nodes ?nd = insert n (used_nodes nd)"
    unfolding used_nodes_def l using key kn n live_mp mk by (auto split: if_splits)
  ultimately show ?thesis
    unfolding placed_def using links l key val mk by auto
qed

text \<open>A colliding node out of its main position has a predecessor in its chain.\<close>

lemma find_pred:
  assumes inv: "links_ok nd" "keys_ok m nd" and len: "length nd = N"
    and mp: "mp < length nd" "live (i_key (nd ! mp))" "m (i_key (nd ! mp)) \<noteq> mp"
  obtains pred where
    "find (\<lambda>i. gnext (nd ! i) = Some mp) (chain nd (m (i_key (nd ! mp)))) = Some pred"
    "(pred, mp) \<in> nxt nd"
proof -
  let ?o = "m (i_key (nd ! mp))"
  have o: "?o < length nd" using m_less len by simp
  from keys_okD(2) [OF inv(2) mp(1,2)] mp(3) obtain p where
    p: "(?o, p) \<in> (nxt nd)\<^sup>*" "(p, mp) \<in> nxt nd" by (metis rtranclE)
  then have "p \<in> set (chain nd ?o)" using chain_reach [OF inv(1) o] by simp
  moreover have "(i, mp) \<in> nxt nd" if "i \<in> set (chain nd ?o)" "gnext (nd ! i) = Some mp" for i
  proof -
    have "(?o, i) \<in> (nxt nd)\<^sup>*" using that(1) chain_reach [OF inv(1) o] by simp
    then have "i < length nd" using o by (cases rule: rtrancl.cases) (auto dest: links_okD(1) [OF inv(1)])
    with that(2) show ?thesis by (simp add: nxt_iff)
  qed
  ultimately have "find (\<lambda>i. gnext (nd ! i) = Some mp) (chain nd ?o) = Some p"
    using p(2) links_okD(2) [OF inv(1)] by (intro find_unique) (auto simp: nxt_iff)
  with p(2) show thesis by (rule that [rotated])
qed

end

end
