(* ===== verification/TableCount.thy ===== *)
theory TableCount
  imports Table
begin

text \<open>
  The census \<open>rehash\<close> takes of the integer keys: after \<open>numusearray\<close>, \<open>numusehash\<close> and
  \<open>countint\<close> the array \<open>nums\<close> counts, by slice, a list of candidate indices, and
  \<open>computesizes\<close> chooses the array size from these counts.
\<close>

section \<open>Slices\<close>

definition clog :: "int \<Rightarrow> nat" where
  "clog k = nat (ceillog2 (word_of_int k))"

lemma clog_le_iff:
  assumes "0 < k" "k \<le> MAXASIZE"
  shows "clog k \<le> e \<longleftrightarrow> k \<le> 2 ^ e"
proof -
  let ?x = "word_of_int k :: u32"
  have k: "k \<le> 2 ^ 26" using assms(2) by (simp add: MAXASIZE_def MAXBITS_def push_bit_eq_mult)
  have ux: "unat ?x = nat k"
    using assms(1) k by (simp add: unat_eq_nat_uint uint_word_of_int)
  then have "?x \<noteq> 0" using assms(1) by (metis nat_eq_iff2 unat_0 zless_nat_eq_int_zless order_less_irrefl int_ops(1))
  note b = ceillog2_bounds [OF this, folded clog_def, unfolded ux]
  have real: "nat k \<le> 2 ^ e \<longleftrightarrow> k \<le> 2 ^ e" by (simp add: nat_le_iff)
  have "nat k \<le> 2 ^ e" if "clog k \<le> e"
  proof -
    have "nat k \<le> 2 ^ clog k" using b by blast
    also have "\<dots> \<le> 2 ^ e" using that by (rule power_increasing) simp
    finally show ?thesis .
  qed
  moreover have "clog k \<le> e" if "nat k \<le> 2 ^ e"
  proof (rule ccontr)
    assume "\<not> clog k \<le> e"
    then have c: "(2 :: nat) ^ e \<le> 2 ^ (clog k - 1)" "0 < ceillog2 ?x"
      by (auto simp: clog_def intro!: power_increasing)
    note c(1)
    also have "2 ^ (clog k - 1) < nat k" using b c(2) by blast
    finally show False using that by simp
  qed
  ultimately show ?thesis using real by blast
qed

lemma clog_max: "0 < k \<Longrightarrow> k \<le> MAXASIZE \<Longrightarrow> clog k \<le> MAXBITS"
  using clog_le_iff [of k MAXBITS] by (simp add: MAXASIZE_def push_bit_eq_mult)

lemma clog_eqI:
  assumes "0 < k" "k \<le> MAXASIZE" "k \<le> 2 ^ b" "b = 0 \<or> 2 ^ (b - 1) < k"
  shows "clog k = b"
  using clog_le_iff [OF assms(1,2), of b] clog_le_iff [OF assms(1,2), of "b - 1"] assms(3,4)
  by (cases b) auto

section \<open>Counts\<close>

definition counts :: "nat list \<Rightarrow> int list \<Rightarrow> bool" where
  "counts nums L \<longleftrightarrow> length nums = MAXBITS + 1 \<and>
     (\<forall>b \<le> MAXBITS. nums ! b = length (filter (\<lambda>k. clog k = b) L)) \<and>
     (\<forall>k \<in> set L. 0 < k \<and> k \<le> MAXASIZE)"

lemma counts_empty: "counts (replicate (MAXBITS + 1) 0) []"
  unfolding counts_def by (simp del: replicate_Suc)

lemma counts_slice:
  assumes "counts nums L" "b \<le> MAXBITS" "\<forall>k \<in> set M. 0 < k \<and> k \<le> MAXASIZE \<and> clog k = b"
  shows "counts (nums[b := nums ! b + length M]) (L @ M)"
proof -
  have "filter (\<lambda>k. clog k = b) M = M" using assms(3) by simp
  moreover have "filter (\<lambda>k. clog k = b') M = []" if "b' \<noteq> b" for b'
    using assms(3) that by (auto simp: filter_empty_conv)
  ultimately show ?thesis using assms unfolding counts_def by (auto simp: nth_list_update)
qed

definition ints_of :: "TValue \<Rightarrow> int list" where
  "ints_of key = (if 0 < arrayindex key \<and> arrayindex key \<le> MAXASIZE then [arrayindex key] else [])"

lemma countint_counts:
  assumes "counts nums L" "countint key nums = (c, nums')"
  shows "counts nums' (L @ ints_of key) \<and> c = length (ints_of key)"
proof (cases "0 < arrayindex key \<and> arrayindex key \<le> MAXASIZE")
  case True
  let ?b = "clog (arrayindex key)"
  have "nums' = nums[?b := nums ! ?b + length [arrayindex key]]" "c = 1"
    using assms(2) True by (auto simp: countint_def clog_def Let_def)
  with counts_slice [OF assms(1) clog_max, of "arrayindex key" "[arrayindex key]"] True show ?thesis
    by (simp add: ints_of_def)
next
  case False
  with assms show ?thesis by (auto simp: countint_def ints_of_def Let_def)
qed

section \<open>The array part\<close>

definition seg :: "TValue list \<Rightarrow> nat \<Rightarrow> nat \<Rightarrow> int list" where
  "seg arr i lim = map int (filter (\<lambda>i. arr ! (i - 1) \<noteq> NIL) [i ..< lim + 1])"

lemma seg_split: "i \<le> m + 1 \<Longrightarrow> m \<le> n \<Longrightarrow> seg arr i n = seg arr i m @ seg arr (m + 1) n"
  unfolding seg_def by (metis add_le_mono1 filter_append le_add_diff_inverse map_append upt_add_eq_append)

lemma seg_empty: "lim < i \<Longrightarrow> seg arr i lim = []"
  by (simp add: seg_def)

lemma numusearray_loop_counts:
  assumes "numusearray_loop arr nums bt pow2 i u = (n, nums')" "counts nums L" "pow2 = 2 ^ bt"
    and "i = (if bt = 0 then 1 else min (2 ^ (bt - 1)) (length arr) + 1)" "bt \<le> MAXBITS + 1"
  shows "counts nums' (L @ seg arr i (min (length arr) (2 ^ MAXBITS))) \<and>
    n = u + length (seg arr i (min (length arr) (2 ^ MAXBITS)))"
  using assms
proof (induction arr nums bt pow2 i u arbitrary: L rule: numusearray_loop.induct)
  case (1 arr nums bt pow2 i u)
  let ?m = "min (length arr) (2 ^ MAXBITS)" and ?lim = "min (length arr) (2 ^ bt)"
  note unf = numusearray_loop.simps [of arr nums bt pow2 i u]
  have lim: "(if pow2 > length arr then length arr else pow2) = ?lim" using "1.prems"(3) by simp
  consider (last) "bt = MAXBITS + 1" | (break) "bt \<le> MAXBITS" "pow2 > length arr" "i > length arr"
    | (step) "bt \<le> MAXBITS" "\<not> (pow2 > length arr \<and> i > ?lim)"
  proof (cases "bt = MAXBITS + 1")
    case False
    then have "bt \<le> MAXBITS" using "1.prems"(5) by simp
    moreover have "?lim = length arr" if "pow2 > length arr" using that "1.prems"(3) by simp
    ultimately show ?thesis using break step by (metis (no_types))
  qed (rule last)
  then show ?case
  proof cases
    case last
    then have "seg arr i ?m = []" using "1.prems"(4) by (intro seg_empty) auto
    with last unf "1.prems"(1,2) show ?thesis by simp
  next
    case break
    then have "seg arr i ?m = []" by (intro seg_empty) auto
    with break unf "1.prems"(1,2) show ?thesis by (simp add: Let_def)
  next
    case step
    let ?M = "seg arr i ?lim"
    have mono: "(2::nat) ^ (bt - 1) \<le> 2 ^ bt" "(2::nat) ^ bt \<le> 2 ^ MAXBITS"
      using step(1) by (auto intro: power_increasing)
    have i: "i \<le> ?lim + 1" 
    proof (cases "bt = 0")
      case False
      have "min (2 ^ (bt - 1)) (length arr) \<le> ?lim"
        using min.mono [OF mono(1) order_refl, of "length arr"] by (simp add: min.commute)
      with False show ?thesis using "1.prems"(4) by simp
    qed (use "1.prems"(4) in simp)
    have rec: "numusearray_loop arr (nums[bt := nums ! bt + length ?M]) (bt + 1) (pow2 * 2)
        (?lim + 1) (u + length ?M) = (n, nums')"
      using "1.prems"(1) step i unf lim by (simp add: Let_def count_range_def seg_def max_def split: if_splits)
    have M: "\<forall>k \<in> set ?M. 0 < k \<and> k \<le> MAXASIZE \<and> clog k = bt"
    proof
      fix k assume "k \<in> set ?M"
      then obtain j where j: "k = int j" "i \<le> j" "j \<le> ?lim" by (auto simp: seg_def)
      have "0 < j" using j(2) "1.prems"(4) by (auto split: if_splits)
      moreover have "j \<le> 2 ^ MAXBITS" using j(3) mono by linarith
      then have "int j \<le> MAXASIZE"
        by (simp add: MAXASIZE_def push_bit_eq_mult MAXBITS_def)
      moreover have "int j \<le> 2 ^ bt" using j(3) by (metis min.boundedE of_nat_le_iff of_nat_numeral of_nat_power)
      moreover have "bt = 0 \<or> 2 ^ (bt - 1) < int j"
      proof (cases "bt = 0")
        case False
        then have "min (2 ^ (bt - 1)) (length arr) < j" using j(2) "1.prems"(4) by simp
        moreover have "j \<le> length arr" using j(3) by simp
        ultimately have "2 ^ (bt - 1) < j" by (simp add: min_def split: if_splits)
        then show ?thesis by (metis of_nat_less_iff of_nat_numeral of_nat_power)
      qed simp
      ultimately show "0 < k \<and> k \<le> MAXASIZE \<and> clog k = bt"
        unfolding j(1) by (intro conjI clog_eqI) auto
    qed
    have next_i: "?lim + 1 = (if bt + 1 = 0 then 1 else min (2 ^ (bt + 1 - 1)) (length arr) + 1)"
      by (simp add: min.commute)
    have IH: "counts nums' ((L @ ?M) @ seg arr (?lim + 1) ?m) \<and>
        n = u + length ?M + length (seg arr (?lim + 1) ?m)"
    proof -
      have cond: "bt \<le> MAXBITS" "\<not> (length arr < pow2 \<and> (if length arr < pow2 then length arr else pow2) < i)"
        using step lim by auto
      have args: "max i ((if length arr < pow2 then length arr else pow2) + 1) = ?lim + 1"
        "count_range arr i (if length arr < pow2 then length arr else pow2) = length ?M"
        using i lim by (auto simp: count_range_def seg_def)
      show ?thesis
        using "1.IH" [OF cond(1) refl cond(2) refl, unfolded args, OF rec counts_slice [OF "1.prems"(2) step(1) M]]
          "1.prems"(3) next_i step(1) by simp
    qed
    have "seg arr i ?m = ?M @ seg arr (?lim + 1) ?m"
      by (rule seg_split [OF i min.mono [OF order_refl mono(2)]])
    with IH show ?thesis by simp
  qed
qed

lemma numusearray_counts:
  assumes "numusearray t nums = (n, nums')" "counts nums L"
  defines "M \<equiv> seg (array t) 1 (min (length (array t)) (2 ^ MAXBITS))"
  shows "counts nums' (L @ M) \<and> n = length M"
  using numusearray_loop_counts [OF assms(1) [unfolded numusearray_def] assms(2)]
  unfolding M_def by simp

section \<open>The hash part\<close>

definition node_ints :: "Node list \<Rightarrow> nat list \<Rightarrow> int list" where
  "node_ints nd is =
     concat (map (\<lambda>i. if i_val (nd ! i) \<noteq> NIL then ints_of (i_key (nd ! i)) else []) is)"

lemma numusehash_loop_counts:
  assumes "numusehash_loop nd n u e nums = (u', e', nums')" "counts nums L"
  shows "counts nums' (L @ node_ints nd (rev [0 ..< n])) \<and>
    u' = u + length (filter (\<lambda>i. i_val (nd ! i) \<noteq> NIL) [0 ..< n]) \<and>
    e' = e + length (node_ints nd (rev [0 ..< n]))"
  using assms
proof (induction nd n u e nums arbitrary: L rule: numusehash_loop.induct)
  case (2 nd i u e nums)
  show ?case
  proof (cases "i_val (nd ! i) = NIL")
    case True
    with 2 show ?thesis by (simp add: node_ints_def)
  next
    case False
    obtain c nums1 where c: "countint (i_key (nd ! i)) nums = (c, nums1)" by fastforce
    with "2.prems"(1) False have "numusehash_loop nd i (u + 1) (e + c) nums1 = (u', e', nums')"
      by simp
    moreover note countint_counts [OF "2.prems"(2) c]
    ultimately show ?thesis
      using "2.IH"(1) [OF False c [symmetric]] False by (fastforce simp: node_ints_def)
  qed
qed (simp add: node_ints_def)

section \<open>Choosing the array size\<close>

definition upto_count :: "int list \<Rightarrow> nat \<Rightarrow> nat" where
  "upto_count L n = length (filter (\<lambda>k. k \<le> int n) L)"

lemma upto_step:
  assumes "counts nums L" "bt \<le> MAXBITS"
  shows "upto_count L (2 ^ bt) = (if bt = 0 then 0 else upto_count L (2 ^ (bt - 1))) + nums ! bt"
proof -
  have *: "(k \<le> int (2 ^ bt)) = (if bt = 0 then clog k = bt else k \<le> int (2 ^ (bt - 1)) \<or> clog k = bt)"
    "bt \<noteq> 0 \<Longrightarrow> \<not> (k \<le> int (2 ^ (bt - 1)) \<and> clog k = bt)" if "k \<in> set L" for k
  proof -
    have k: "0 < k" "k \<le> MAXASIZE" using assms(1) that by (auto simp: counts_def)
    show "(k \<le> int (2 ^ bt)) = (if bt = 0 then clog k = bt else k \<le> int (2 ^ (bt - 1)) \<or> clog k = bt)"
      "bt \<noteq> 0 \<Longrightarrow> \<not> (k \<le> int (2 ^ (bt - 1)) \<and> clog k = bt)"
      using clog_le_iff [OF k, of bt] clog_le_iff [OF k, of "bt - 1"] by auto
  qed
  have n: "nums ! bt = length (filter (\<lambda>k. clog k = bt) L)" using assms by (simp add: counts_def)
  show ?thesis
  proof (cases "bt = 0")
    case True
    then have "filter (\<lambda>k. k \<le> int (2 ^ bt)) L = filter (\<lambda>k. clog k = bt) L"
      using *(1) by (intro filter_cong) auto
    with True n show ?thesis by (simp add: upto_count_def)
  next
    case False
    have "length (filter (\<lambda>k. P k \<or> Q k) M) = length (filter P M) + length (filter Q M)"
      if "\<And>k. k \<in> set M \<Longrightarrow> \<not> (P k \<and> Q k)" for P Q and M :: "int list"
      using that by (induction M) auto
    from this [of L "\<lambda>k. k \<le> int (2 ^ (bt - 1))" "\<lambda>k. clog k = bt"] *(2) [OF _ False]
    have "length (filter (\<lambda>k. k \<le> int (2 ^ (bt - 1)) \<or> clog k = bt) L) =
      upto_count L (2 ^ (bt - 1)) + nums ! bt" unfolding upto_count_def n by simp
    moreover have "filter (\<lambda>k. k \<le> int (2 ^ bt)) L =
        filter (\<lambda>k. k \<le> int (2 ^ (bt - 1)) \<or> clog k = bt) L"
      using *(1) False by (intro filter_cong) auto
    ultimately show ?thesis using False by (simp add: upto_count_def)
  qed
qed

lemma upto_all: "counts nums L \<Longrightarrow> upto_count L (2 ^ MAXBITS) = length L"
proof -
  assume "counts nums L"
  then have "filter (\<lambda>k. k \<le> int (2 ^ MAXBITS)) L = L"
    by (auto simp: counts_def MAXASIZE_def push_bit_eq_mult)
  then show ?thesis by (simp add: upto_count_def)
qed

text \<open>\<open>a\<close> is the number of candidates up to \<open>2\<^bsup>bt - 1\<^esup>\<close>, and \<open>opt\<close>, \<open>act\<close> are the best size
  so far and its candidates.\<close>

definition sizes_inv :: "int list \<Rightarrow> nat \<Rightarrow> nat \<Rightarrow> nat \<Rightarrow> bool" where
  "sizes_inv L bt act opt \<longleftrightarrow> act = upto_count L opt \<and>
     (opt = 0 \<or> (\<exists>b < bt. opt = 2 ^ b \<and> opt < 2 * act)) \<and>
     (distinct L \<longrightarrow> (\<forall>b < bt. 2 ^ b < 2 * upto_count L (2 ^ b) \<longrightarrow> 2 ^ b \<le> opt))"

lemma upto_distinct:
  assumes "distinct L" "\<forall>k \<in> set L. 0 < k"
  shows "upto_count L n \<le> n"
proof -
  have "set (filter (\<lambda>k. k \<le> int n) L) \<subseteq> {1 .. int n}" using assms(2) by auto
  then have "card (set (filter (\<lambda>k. k \<le> int n) L)) \<le> card {1 .. int n}" by (intro card_mono) auto
  then show ?thesis using distinct_card [of "filter (\<lambda>k. k \<le> int n) L"] assms(1)
    by (simp add: upto_count_def)
qed

lemma half_less: "pow2 = 2 ^ bt \<Longrightarrow> pow2 div 2 < a \<longleftrightarrow> pow2 < 2 * (a :: nat)"
  by (cases bt) auto

lemma computesizes_loop_spec:
  assumes "computesizes_loop nums n bt a act opt = (opt', act')" "counts nums L" "n = length L"
    and "a = (if bt = 0 then 0 else upto_count L (2 ^ (bt - 1)))" "sizes_inv L bt act opt" "bt \<le> MAXBITS"
    and "0 < n \<longrightarrow> a < n"
  shows "sizes_inv L (MAXBITS + 1) act' opt'"
  using assms
proof (induction nums n bt a act opt rule: computesizes_loop.induct)
  case (1 nums n bt a act opt)
  have more: "sizes_inv L (MAXBITS + 1) act opt"
    if "sizes_inv L b act opt" "b \<le> MAXBITS + 1"
      and stop: "\<And>b'. b \<le> b' \<Longrightarrow> distinct L \<Longrightarrow> \<not> 2 ^ b' < 2 * upto_count L (2 ^ b')" for b act opt
  proof -
    have "opt = 0 \<or> (\<exists>b' < MAXBITS + 1. opt = 2 ^ b' \<and> opt < 2 * act)"
      using that(1,2) unfolding sizes_inv_def by (elim conjE disjE exE) (simp, metis less_le_trans)
    moreover have "2 ^ b' \<le> opt" if "distinct L" "2 ^ b' < 2 * upto_count L (2 ^ b')" for b'
      using that \<open>sizes_inv L b act opt\<close> stop [of b'] unfolding sizes_inv_def by (cases "b' < b") auto
    ultimately show ?thesis using that(1) unfolding sizes_inv_def by blast
  qed
  have le: "upto_count L m \<le> n" for m using "1.prems"(3) by (simp add: upto_count_def)
  note unf = computesizes_loop.simps [of nums n bt a act opt]
  define a' where "a' = a + nums ! bt"
  have a': "a' = upto_count L (2 ^ bt)" using upto_step [OF "1.prems"(2,6)] "1.prems"(4) by (simp add: a'_def)
  show ?case
  proof (cases "2 ^ bt div 2 < n")
    case False
    then have "n \<le> 2 ^ bt div 2" by simp
    have stop: "\<not> 2 ^ b' < 2 * upto_count L (2 ^ b')" if "bt \<le> b'" for b'
    proof
      assume "2 ^ b' < 2 * upto_count L (2 ^ b')"
      then have "2 ^ b' div 2 < upto_count L (2 ^ b')" using half_less [OF refl] by blast
      also have "\<dots> \<le> n" by (rule le)
      also have "\<dots> \<le> 2 ^ bt div 2" by fact
      also have "\<dots> \<le> 2 ^ b' div 2" using power_increasing [OF that, of "2 :: nat"] by (intro div_le_mono) simp
      finally show False by simp
    qed
    have "(opt', act') = (opt, act)" using False unf "1.prems"(1) by (simp add: Let_def)
    then show ?thesis using more [OF "1.prems"(5) _ stop] "1.prems"(6) by simp
  next
    case True
    define better where "better \<longleftrightarrow> nums ! bt > 0 \<and> a' > 2 ^ bt div 2"
    define opt1 where "opt1 = (if better then 2 ^ bt else opt)"
    define act1 where "act1 = (if better then a' else act)"
    have aa: "(if nums ! bt > 0 then a + nums ! bt else a) = a'" by (simp add: a'_def)
    have inv: "sizes_inv L (bt + 1) act1 opt1"
    proof -
      have "2 ^ bt \<le> opt1" if d: "distinct L" and up: "2 ^ bt < 2 * upto_count L (2 ^ bt)"
      proof (cases better)
        case False
        then have "nums ! bt = 0" using up a' half_less [OF refl, of bt a'] by (auto simp: better_def)
        then have "a = upto_count L (2 ^ bt)" using a' by (simp add: a'_def)
        moreover have "a \<le> 2 ^ bt div 2"
          using "1.prems"(2,4) upto_distinct [OF d] by (cases bt) (auto simp: counts_def)
        ultimately show ?thesis using up half_less [OF refl, of bt a] by simp
      qed (simp add: opt1_def)
      moreover have "2 ^ b \<le> opt1" if "2 ^ b \<le> opt" "b < bt" for b
        using that power_increasing [of b bt "2 :: nat"] by (auto simp: opt1_def)
      moreover have "act1 = upto_count L opt1" using "1.prems"(5) a' by (simp add: opt1_def act1_def sizes_inv_def)
      moreover have "opt1 = 0 \<or> (\<exists>b < bt + 1. opt1 = 2 ^ b \<and> opt1 < 2 * act1)"
        using "1.prems"(5) half_less [OF refl, of bt a']
        by (auto simp: opt1_def act1_def sizes_inv_def better_def less_Suc_eq)
      ultimately show ?thesis
        using "1.prems"(5) unfolding sizes_inv_def by (auto simp: less_Suc_eq)
    qed
    show ?thesis
    proof (cases "a' = n")
      case eq: True
      have stop: "\<not> 2 ^ b' < 2 * upto_count L (2 ^ b')" if b': "bt + 1 \<le> b'" and d: "distinct L" for b'
      proof -
        have "upto_count L (2 ^ b') \<le> upto_count L (2 ^ bt)" using eq a' le by simp
        also have "\<dots> \<le> 2 ^ bt" using upto_distinct [OF d] "1.prems"(2) by (simp add: counts_def)
        finally have "2 * upto_count L (2 ^ b') \<le> 2 ^ (bt + 1)" by simp
        also have "\<dots> \<le> 2 ^ b'" using b' by (rule power_increasing) simp
        finally show ?thesis by simp
      qed
      have "(opt', act') = (opt1, act1)"
        using "1.prems"(1) unf True eq aa
        by (simp add: Let_def opt1_def act1_def better_def split: if_splits)
      then show ?thesis using more [OF inv _ stop] "1.prems"(6) by simp
    next
      case False
      have "bt \<noteq> MAXBITS" using False a' upto_all [OF "1.prems"(2)] "1.prems"(3) by auto
      moreover have "a' < n" using False a' le [of "2 ^ bt"] by simp
      moreover have "computesizes_loop nums n (bt + 1) a' act1 opt1 = (opt', act')"
        using "1.prems"(1) unf True False aa
        by (simp add: Let_def opt1_def act1_def better_def split: if_splits)
      ultimately show ?thesis
        using "1.IH" [OF refl True refl aa [symmetric] _ opt1_def [unfolded better_def] act1_def [unfolded better_def]]
          "1.prems"(2,3,6) inv a' False by (simp add: better_def)
    qed
  qed
qed

lemma computesizes_spec:
  assumes "computesizes nums (length L) = (opt, act)" "counts nums L"
  shows "sizes_inv L (MAXBITS + 1) act opt"
proof -
  have "sizes_inv L 0 0 0" using assms(2) by (auto simp: sizes_inv_def upto_count_def counts_def filter_empty_conv)
  then show ?thesis
    using computesizes_loop_spec [OF assms(1) [unfolded computesizes_def] assms(2) refl] by auto
qed

text \<open>Half of the slots are not enough, though the comment at the head of the file says so: the one
  candidate 2 uses one of the two slots of an array of size two, and no array is made.\<close>

lemma half_is_not_enough:
  "counts ([0, 1] @ replicate 25 0) [2] \<and> upto_count [2] 2 = 1 \<and>
   computesizes ([0, 1] @ replicate 25 0) (length [2 :: int]) = (0, 0)"
proof -
  have "clog 2 = 1" by (rule clog_eqI; simp add: MAXASIZE_def MAXBITS_def)
  then have "counts ([0, 1] @ replicate 25 0) [2]"
    by (auto simp: counts_def MAXBITS_def MAXASIZE_def nth_append nth_Cons')
  moreover have "computesizes ([0, 1] @ replicate 25 0) (length [2 :: int]) = (0, 0)"
    by (simp add: computesizes_def computesizes_loop.simps)
  ultimately show ?thesis by (simp add: upto_count_def)
qed

text \<open>C7: \<open>computesizes\<close> chooses the best array size among the powers of two: from counts of distinct
  candidate indices it returns the largest one strictly more than half of whose slots would be in
  use (0 if there is none), and the number of candidates that go to the array part.\<close>

theorem computesizes_optimal:
  assumes "counts nums L" "distinct L" "computesizes nums (length L) = (opt, act)"
  shows "act = upto_count L opt \<and> (opt = 0 \<or> (\<exists>b \<le> MAXBITS. opt = 2 ^ b \<and> opt < 2 * act)) \<and>
    (\<forall>b \<le> MAXBITS. 2 ^ b < 2 * upto_count L (2 ^ b) \<longrightarrow> 2 ^ b \<le> opt)"
  using computesizes_spec [OF assms(3,1)] assms(2) by (auto simp: sizes_inv_def less_Suc_eq_le)

theorem computesizes_optimal_witness:
  "computesizes ([1, 1, 1] @ replicate 24 0) 3 = (4, 3) \<and> 3 = upto_count [1, 2, 3] 4"
proof -
  have c: "computesizes ([1, 1, 1] @ replicate 24 0) (length [1, 2, 3 :: int]) = (4, 3)"
    by (simp add: computesizes_def computesizes_loop.simps)
  have "clog 1 = 0" "clog 2 = 1" "clog 3 = 2"
    by (rule clog_eqI; simp add: MAXASIZE_def MAXBITS_def)+
  then have "counts ([1, 1, 1] @ replicate 24 0) [1, 2, 3]"
    by (auto simp: counts_def MAXBITS_def MAXASIZE_def nth_append nth_Cons' )
  from computesizes_optimal [OF this _ c] c show ?thesis by (simp add: numeral_3_eq_3)
qed

end
