(* ===== verification/TableProof.thy ===== *)
theory TableProof
  imports TableChain TableCount
begin

text \<open>
  The table as a whole: its invariant, its abstraction to a finite map, and what search,
  insertion and resizing do to that map. \<open>resize\<close>, \<open>rehash\<close> and \<open>luaH_set\<close> are proved
  against the interface \<open>inserter\<close> of the insertion they call; \<open>newkey\<close> provides it.
\<close>

section \<open>The hash function provides its interface\<close>

lemma twoto_eq: "twoto x = 2 ^ x"
  by (simp add: twoto_def push_bit_eq_mult)

lemma unat_size_minus_1: "unat (of_nat (twoto l) - 1 :: u32) < twoto l"
proof (cases "l < 32")
  case True
  then have "(of_nat (twoto l) :: u32) = 2 ^ l" by (simp add: twoto_eq)
  moreover have "(2 ^ l :: u32) \<noteq> 0" using unat_exp_32 [OF True] by (metis power_not_zero unat_0 zero_neq_numeral)
  ultimately show ?thesis using unat_exp_32 [OF True] unat_minus_one [of "2 ^ l :: u32"]
    by (simp add: twoto_eq)
next
  case False
  then have "(2::nat) ^ 32 \<le> twoto l" unfolding twoto_eq by (intro power_increasing) auto
  moreover have "unat (of_nat (twoto l) - 1 :: u32) < 2 ^ LENGTH(32)" by (rule unsigned_less)
  ultimately show ?thesis by simp
qed

lemma hashpow2_less: "hashpow2 (twoto l) n < twoto l"
proof -
  have "n AND (of_nat (twoto l) - 1) \<le> (of_nat (twoto l) - 1 :: u32)" by (rule word_and_le1)
  with unat_size_minus_1 [of l] show ?thesis
    unfolding hashpow2_def by (simp add: word_le_nat_alt)
qed

lemma hashmod_less: "hashmod (twoto l) n < twoto l"
proof (cases "l = 0")
  case True
  then show ?thesis by (simp add: hashmod_def twoto_eq)
next
  case False
  then have even: "even (twoto l)" by (simp add: twoto_eq)
  let ?w = "of_nat (twoto l) - 1 :: u32"
  have "odd ?w" using even by simp
  then have "?w OR 1 = ?w" by (simp add: or_one_eq)
  moreover have "0 < unat ?w" using \<open>odd ?w\<close> by (metis even_zero unat_gt_0)
  ultimately have "unat (n mod (?w OR 1)) < unat ?w" by (simp add: unat_mod)
  with unat_size_minus_1 [of l] show ?thesis unfolding hashmod_def by simp
qed

lemma mainposition_less: "mainposition sh (twoto l) k < twoto l"
  by (auto simp: mainposition_def hashnum_def hashpow2_less hashmod_less twoto_eq [symmetric]
      split: TValue.splits) (simp add: twoto_eq)

lemma hashnum_cong: "luai_numeq a b \<Longrightarrow> hashnum sz a = hashnum sz b"
  by (auto simp: hashnum_def luai_numeq_def)

lemma mainposition_cong: "luaO_rawequalObj a b \<Longrightarrow> mainposition sh sz a = mainposition sh sz b"
  by (cases a; cases b) (auto simp: rawequal_iff mainposition_def hashnum_cong)

interpretation mainpos: hashing "mainposition sh (twoto l)" "twoto l" for sh l
  by unfold_locales (rule mainposition_less, rule mainposition_cong)

section \<open>Array indices\<close>

lemma arrayindex_range: "is_int32 (arrayindex k)"
  using number2int_range by (auto simp: arrayindex_def Let_def is_int32_def split: TValue.splits)

lemma arrayindex_cast_num [simp]: "is_int32 k \<Longrightarrow> arrayindex (NUMBER (cast_num k)) = k"
  by (simp add: arrayindex_def number2int_cast_num cast_num_numeq)

lemma arrayindex_cong: "luaO_rawequalObj a b \<Longrightarrow> arrayindex a = arrayindex b"
proof (cases a; cases b; simp add: rawequal_iff)
  fix x y
  assume xy: "luai_numeq x y"
  then have "luai_numeq z x \<longleftrightarrow> luai_numeq z y" for z using numeq_sym numeq_trans by blast
  then show "arrayindex (NUMBER x) = arrayindex (NUMBER y)"
    by (simp add: arrayindex_def number2int_cong [OF xy])
qed

lemma arrayindex_pos:
  assumes "0 < arrayindex k"
  shows "k = NUMBER (cast_num (arrayindex k))"
proof (cases k)
  case (NUMBER n)
  then have i: "luai_numeq (cast_num (arrayindex k)) n" "is_int32 (arrayindex k)"
    using assms number2int_range arrayindex_range [of k]
    by (auto simp: arrayindex_def Let_def split: if_splits)
  then have "\<not> dbl_zero (cast_num (arrayindex k))" using assms by simp
  with i NUMBER show ?thesis by (auto simp: luai_numeq_def)
qed (use assms in \<open>simp_all add: arrayindex_def\<close>)

lemma valid_cast_num: "is_int32 k \<Longrightarrow> valid_key (NUMBER (cast_num k))"
  by (simp add: valid_key_def live_def rawequal_iff cast_num_numeq)

section \<open>The invariant\<close>

definition table_ok :: "(addr \<Rightarrow> u32) \<Rightarrow> Table \<Rightarrow> bool" where
  "table_ok sh t \<longleftrightarrow>
     links_ok (node t) \<and> keys_ok (mainposition sh (sizenode t)) (node t) \<and>
     length (node t) = sizenode t \<and> lsizenode t \<le> MAXBITS \<and>
     (if isdummy t then node t = [nilnode] \<and> lsizenode t = 0 \<and> lastfree t \<le> 0
      else lastfree t \<le> int (length (node t)) \<and>
        (\<forall>i < length (node t). lastfree t \<le> int i \<longrightarrow> i_key (node t ! i) \<noteq> NIL)) \<and>
     (\<forall>k \<in> live_keys (node t). \<not> (0 < arrayindex k \<and> arrayindex k \<le> int (sizearray t))) \<and>
     sizearray t < 2 ^ 31"

fun holds_key :: "Table \<Rightarrow> slot \<Rightarrow> TValue \<Rightarrow> bool" where
  "holds_key t (ArrSlot i) k \<longleftrightarrow> i < sizearray t \<and> arrayindex k = int i + 1"
| "holds_key t (NodeSlot i) k \<longleftrightarrow> i < length (node t) \<and> luaO_rawequalObj (i_key (node t ! i)) k"

lemma table_okD:
  assumes "table_ok sh t"
  shows "links_ok (node t)" "keys_ok (mainposition sh (sizenode t)) (node t)"
    "length (node t) = sizenode t" "lsizenode t \<le> MAXBITS" "sizearray t < 2 ^ 31"
    "isdummy t \<Longrightarrow> node t = [nilnode]" "isdummy t \<Longrightarrow> lastfree t \<le> 0"
    "\<not> isdummy t \<Longrightarrow> lastfree t \<le> int (length (node t))"
    "\<not> isdummy t \<Longrightarrow> i < length (node t) \<Longrightarrow> lastfree t \<le> int i \<Longrightarrow> i_key (node t ! i) \<noteq> NIL"
    "k \<in> live_keys (node t) \<Longrightarrow> 0 < arrayindex k \<Longrightarrow> int (sizearray t) < arrayindex k"
  using assms unfolding table_ok_def by (auto split: if_splits)

lemma table_okI:
  assumes "links_ok (node t)" "keys_ok (mainposition sh (sizenode t)) (node t)"
    and "length (node t) = sizenode t" "lsizenode t \<le> MAXBITS" "sizearray t < 2 ^ 31"
    and "isdummy t \<Longrightarrow> node t = [nilnode] \<and> lsizenode t = 0 \<and> lastfree t \<le> 0"
    and "\<not> isdummy t \<Longrightarrow> lastfree t \<le> int (length (node t))"
    and "\<And>i. \<not> isdummy t \<Longrightarrow> i < length (node t) \<Longrightarrow> lastfree t \<le> int i \<Longrightarrow> i_key (node t ! i) \<noteq> NIL"
    and "\<And>k. k \<in> live_keys (node t) \<Longrightarrow> 0 < arrayindex k \<Longrightarrow> int (sizearray t) < arrayindex k"
  shows "table_ok sh t"
  unfolding table_ok_def using assms by (simp add: linorder_not_le)

text \<open>A key has at most one slot.\<close>

lemma holds_key_unique:
  assumes ok: "table_ok sh t" and k: "valid_key k" and s: "holds_key t s k" "holds_key t s' k"
  shows "s = s'"
proof -
  have live: "i_key (node t ! i) \<in> live_keys (node t)"
    if "i < length (node t)" "luaO_rawequalObj (i_key (node t ! i)) k" for i
    using that k rawequal_live valid_live by (blast intro: live_keysI)
  have excl: False if "i < sizearray t" "arrayindex k = int i + 1" "j < length (node t)"
      "luaO_rawequalObj (i_key (node t ! j)) k" for i j
    using table_okD(10) [OF ok live [OF that(3,4)]] arrayindex_cong [OF that(4)] that(1,2) by simp
  have uniq: "i = j" if "i < length (node t)" "j < length (node t)"
      "luaO_rawequalObj (i_key (node t ! i)) k" "luaO_rawequalObj (i_key (node t ! j)) k" for i j
  proof -
    have "luaO_rawequalObj (i_key (node t ! i)) (i_key (node t ! j))"
      using that rawequal_sym rawequal_trans by blast
    moreover have "live (i_key (node t ! i))" using that(3) k rawequal_live valid_live by blast
    ultimately show ?thesis using keys_okD(4) [OF table_okD(2) [OF ok]] that(1,2) by blast
  qed
  show ?thesis using s excl uniq by (cases s; cases s') auto
qed

lemma holds_key_cong: "luaO_rawequalObj a b \<Longrightarrow> holds_key t s a \<Longrightarrow> holds_key t s b"
  using rawequal_trans arrayindex_cong by (cases s) auto

section \<open>Search finds the slot of a key\<close>

lemma array_test:
  assumes "is_int32 key" "sz < 2 ^ 31"
  shows "(word_of_int (key - 1) :: u32) < of_nat sz \<longleftrightarrow> 0 < key \<and> key \<le> int sz"
proof -
  have "uint (of_nat sz :: u32) = int sz" using assms(2) by (simp add: unsigned_of_nat take_bit_nat_eq_self)
  moreover have "uint (word_of_int (key - 1) :: u32) = (if 0 < key then key - 1 else key - 1 + 2 ^ 32)"
  proof (cases "0 < key")
    case True
    have "(key - 1) mod 2 ^ 32 = key - 1"
      using True assms(1) by (intro mod_pos_pos_trivial) (auto simp: is_int32_def)
    then show ?thesis using True by (simp add: uint_word_of_int del: of_int_diff)
  next
    case False
    have "(key - 1) mod 2 ^ 32 = (key - 1 + 2 ^ 32) mod 2 ^ 32" by (rule mod_add_self2 [symmetric])
    also have "\<dots> = key - 1 + 2 ^ 32" using False assms(1) by (intro mod_pos_pos_trivial) (auto simp: is_int32_def)
    finally show ?thesis using False by (simp add: uint_word_of_int del: of_int_diff)
  qed
  ultimately show ?thesis using assms by (auto simp: word_less_def is_int32_def)
qed

lemma find_node_spec:
  assumes ok: "table_ok sh t" and k: "valid_key k"
    and out: "\<not> (0 < arrayindex k \<and> arrayindex k \<le> int (sizearray t))"
    and P: "\<And>n. P n \<longleftrightarrow> luaO_rawequalObj (i_key (node t ! n)) k"
  shows "map_option NodeSlot (find P (chain (node t) (mainposition sh (sizenode t) k))) = Some s
    \<longleftrightarrow> holds_key t s k"
proof -
  have "find P (chain (node t) (mainposition sh (sizenode t) k)) = Some i \<longleftrightarrow>
      i < length (node t) \<and> luaO_rawequalObj (i_key (node t ! i)) k" for i
    unfolding sizenode_def
    by (rule mainpos.find_key [OF table_okD(1) [OF ok] table_okD(2) [OF ok, unfolded sizenode_def]
          table_okD(3) [OF ok, unfolded sizenode_def] k P])
  then have "map_option NodeSlot (find P (chain (node t) (mainposition sh (sizenode t) k))) = Some s
    \<longleftrightarrow> (\<exists>i. s = NodeSlot i \<and> i < length (node t) \<and> luaO_rawequalObj (i_key (node t ! i)) k)"
    by auto
  moreover have "\<not> holds_key t (ArrSlot i) k" for i using out by auto
  ultimately show ?thesis by (cases s) auto
qed

lemma getnum_spec:
  assumes ok: "table_ok sh t" and key: "is_int32 key"
  shows "luaH_getnum t key = Some s \<longleftrightarrow> holds_key t s (NUMBER (cast_num key))"
proof (cases "0 < key \<and> key \<le> int (sizearray t)")
  case True
  then have "luaH_getnum t key = Some (ArrSlot (nat (key - 1)))"
    using array_test [OF key table_okD(5) [OF ok]] by (simp add: luaH_getnum_def)
  moreover have "holds_key t (ArrSlot (nat (key - 1))) (NUMBER (cast_num key))"
    using True key by auto
  ultimately show ?thesis using holds_key_unique [OF ok valid_cast_num [OF key]] by (metis option.inject)
next
  case False
  have P: "(case i_key (node t ! n) of NUMBER x \<Rightarrow> luai_numeq x (cast_num key) | _ \<Rightarrow> False) \<longleftrightarrow>
    luaO_rawequalObj (i_key (node t ! n)) (NUMBER (cast_num key))" for n
    by (auto simp: rawequal_iff split: TValue.splits)
  have "luaH_getnum t key = map_option NodeSlot
      (find (\<lambda>n. case i_key (node t ! n) of NUMBER x \<Rightarrow> luai_numeq x (cast_num key) | _ \<Rightarrow> False)
         (chain (node t) (mainposition sh (sizenode t) (NUMBER (cast_num key)))))"
    using False
    by (auto simp: luaH_getnum_def mainposition_def Let_def array_test [OF key table_okD(5) [OF ok]]
        simp del: of_int_diff)
  then show ?thesis
    using find_node_spec [OF ok valid_cast_num [OF key] _ P] False key by simp
qed

lemma getstr_spec:
  assumes ok: "table_ok sh t"
  shows "luaH_getstr sh t p = Some s \<longleftrightarrow> holds_key t s (STRING p)"
proof -
  have P: "(case i_key (node t ! n) of STRING q \<Rightarrow> q = p | _ \<Rightarrow> False) \<longleftrightarrow>
    luaO_rawequalObj (i_key (node t ! n)) (STRING p)" for n
    by (auto simp: rawequal_iff split: TValue.splits)
  have "valid_key (STRING p)" by (simp add: valid_key_def live_def rawequal_iff)
  then show ?thesis
    using find_node_spec [OF ok _ _ P] by (simp add: luaH_getstr_def mainposition_def arrayindex_def)
qed

lemma get_spec:
  assumes ok: "table_ok sh t" and k: "valid_key k"
  shows "luaH_get sh t k = Some s \<longleftrightarrow> holds_key t s k"
proof -
  have generic: "get_generic sh t k = Some s \<longleftrightarrow> holds_key t s k" if "arrayindex k = -1"
    using find_node_spec [OF ok k, of "\<lambda>n. luaO_rawequalObj (i_key (node t ! n)) k" s] that
    by (simp add: get_generic_def)
  show ?thesis
  proof (cases k)
    case (NUMBER n)
    show ?thesis
    proof (cases "luai_numeq (cast_num (lua_number2int n)) n")
      case True
      have eq: "luaO_rawequalObj (NUMBER (cast_num (lua_number2int n))) k"
        "luaO_rawequalObj k (NUMBER (cast_num (lua_number2int n)))"
        using True NUMBER by (auto simp: rawequal_iff numeq_sym)
      have "luaH_get sh t k = luaH_getnum t (lua_number2int n)"
        using True NUMBER by (simp add: luaH_get_def)
      then show ?thesis
        using getnum_spec [OF ok number2int_range] holds_key_cong [OF eq(1)] holds_key_cong [OF eq(2)] by auto
    next
      case False
      then show ?thesis using NUMBER generic by (simp add: luaH_get_def arrayindex_def)
    qed
  qed (use k generic getstr_spec [OF ok] in \<open>simp_all add: luaH_get_def arrayindex_def\<close>)
qed

lemma get_none:
  assumes "table_ok sh t" "valid_key k"
  shows "luaH_get sh t k = None \<longleftrightarrow> (\<forall>s. \<not> holds_key t s k)"
  using get_spec [OF assms] by (metis not_None_eq)

section \<open>The map of a table\<close>

definition tset :: "Table \<Rightarrow> (TValue \<times> TValue) set" where
  "tset t = {(k, v). v \<noteq> NIL \<and> valid_key k \<and> (\<exists>s. holds_key t s k \<and> read_slot t (Some s) = v)}"

lemma tset_get:
  assumes "table_ok sh t" "valid_key k"
  shows "(k, v) \<in> tset t \<longleftrightarrow> v \<noteq> NIL \<and> read_slot t (luaH_get sh t k) = v"
proof (cases "luaH_get sh t k")
  case None
  then show ?thesis using get_none [OF assms] assms(2) by (auto simp: tset_def)
next
  case (Some s)
  then have "holds_key t s' k \<longleftrightarrow> s' = s" for s'
    using get_spec [OF assms] by (metis option.inject)
  then show ?thesis using Some assms(2) by (auto simp: tset_def)
qed

lemma tset_functional:
  assumes "table_ok sh t" "(k, v) \<in> tset t" "(k', v') \<in> tset t" "luaO_rawequalObj k k'"
  shows "v = v'"
proof -
  obtain s s' where s: "holds_key t s k" "read_slot t (Some s) = v" "valid_key k'"
    "holds_key t s' k'" "read_slot t (Some s') = v'"
    using assms(2,3) unfolding tset_def by blast
  then have "s = s'" using holds_key_unique assms(1,4) holds_key_cong by blast
  with s show ?thesis by simp
qed

lemma tset_iff:
  "(k, v) \<in> tset t \<longleftrightarrow> v \<noteq> NIL \<and> valid_key k \<and>
     ((\<exists>i < sizearray t. arrayindex k = int i + 1 \<and> array t ! i = v) \<or>
      (\<exists>k'. (k', v) \<in> content (node t) \<and> luaO_rawequalObj k' k))"
proof -
  have "(\<exists>s. P s) \<longleftrightarrow> (\<exists>i. P (ArrSlot i)) \<or> (\<exists>i. P (NodeSlot i))" for P
    by (metis slot.exhaust)
  then show ?thesis unfolding tset_def content_def by auto
qed

lemma slot_key_unique:
  assumes "holds_key t s k" "holds_key t s k'" "valid_key k"
  shows "luaO_rawequalObj k k'"
proof (cases s)
  case (ArrSlot i)
  then have "k = NUMBER (cast_num (int i + 1))" "k' = NUMBER (cast_num (int i + 1))"
    using assms(1,2) arrayindex_pos [of k] arrayindex_pos [of k'] by auto
  with assms(3) show ?thesis by (simp add: valid_key_def)
next
  case (NodeSlot i)
  with assms(1,2) have "luaO_rawequalObj (i_key (node t ! i)) k" "luaO_rawequalObj (i_key (node t ! i)) k'"
    by simp_all
  then show ?thesis using rawequal_sym rawequal_trans by blast
qed

lemma sizearray_write [simp]: "sizearray (write_slot t s v) = sizearray t"
  by (cases s) (simp_all add: sizearray_def)

lemma node_write:
  "length (node (write_slot t s v)) = length (node t)"
  "i_key (node (write_slot t s v) ! i) = i_key (node t ! i)"
  "gnext (node (write_slot t s v) ! i) = gnext (node t ! i)"
proof -
  show "length (node (write_slot t s v)) = length (node t)" by (cases s) simp_all
  show "i_key (node (write_slot t s v) ! i) = i_key (node t ! i)"
    "gnext (node (write_slot t s v) ! i) = gnext (node t ! i)"
  proof -
    have "i_key ((node t)[j := (node t ! j)\<lparr>i_val := v\<rparr>] ! i) = i_key (node t ! i) \<and>
        gnext ((node t)[j := (node t ! j)\<lparr>i_val := v\<rparr>] ! i) = gnext (node t ! i)" for j
      by (cases "i = j"; cases "j < length (node t)") (simp_all add: list_update_beyond)
    then show "i_key (node (write_slot t s v) ! i) = i_key (node t ! i)"
      "gnext (node (write_slot t s v) ! i) = gnext (node t ! i)" by (cases s, simp, simp)+
  qed
qed

lemma holds_key_write [simp]: "holds_key (write_slot t s v) s' k \<longleftrightarrow> holds_key t s' k"
  by (cases s') (simp_all add: node_write)

lemma read_write_slot:
  assumes "holds_key t s k" "holds_key t s' k'"
  shows "read_slot (write_slot t s v) (Some s') = (if s' = s then v else read_slot t (Some s'))"
  using assms by (cases s; cases s') (auto simp: sizearray_def)

lemma table_fields_write [simp]:
  "lsizenode (write_slot t s v) = lsizenode t" "isdummy (write_slot t s v) = isdummy t"
  "lastfree (write_slot t s v) = lastfree t" "metatable (write_slot t s v) = metatable t"
  "sizenode (write_slot t s v) = sizenode t" "flags (write_slot t s v) = flags t"
proof -
  show "lsizenode (write_slot t s v) = lsizenode t" by (cases s) simp_all
  then show "sizenode (write_slot t s v) = sizenode t" by (simp add: sizenode_def)
  show "isdummy (write_slot t s v) = isdummy t" by (cases s) simp_all
  show "lastfree (write_slot t s v) = lastfree t" by (cases s) simp_all
  show "metatable (write_slot t s v) = metatable t" by (cases s) simp_all
  show "flags (write_slot t s v) = flags t" by (cases s) simp_all
qed

lemma write_ok:
  assumes ok: "table_ok sh t" and s: "holds_key t s k" and k: "valid_key k"
  shows "table_ok sh (write_slot t s v)"
proof -
  let ?t = "write_slot t s v"
  have nxt: "nxt (node ?t) = nxt (node t)" unfolding nxt_def node_write ..
  have val: "i_val (node ?t ! i) = i_val (node t ! i) \<or> live (i_key (node t ! i))"
    if "i < length (node t)" for i
  proof (cases s)
    case (NodeSlot j)
    with s k have "live (i_key (node t ! j))" using rawequal_live valid_live by auto
    with NodeSlot show ?thesis by (cases "i = j") auto
  qed simp
  note L = table_okD(1) [OF ok]
  obtain r :: "nat \<Rightarrow> nat" where r: "\<And>a b. (a, b) \<in> nxt (node t) \<Longrightarrow> r a < r b"
    using links_ok_rank [OF L] by blast
  have nil: "i_val (node ?t ! i) = NIL" if "i < length (node t)" "i_key (node t ! i) = NIL" for i
    using val [OF that(1)] links_okD(3) [OF L that] that(2) by auto
  note K = table_okD(2) [OF ok]
  have live: "live (i_key (node t ! i))" if "i < length (node t)" "i_val (node ?t ! i) \<noteq> NIL" for i
    using val [OF that(1)] used_node_live [OF K that(1)] that(2) by auto
  have links: "links_ok (node ?t)"
    by (rule links_okI [where r = r]; unfold nxt node_write)
      (rule links_okD(1) [OF L], assumption, rule r, assumption, rule links_okD(2) [OF L], assumption+,
        rule nil, assumption+, rule links_okD(5) [OF L], assumption, rule links_okD(4) [OF L], assumption+)
  have keys: "keys_ok (mainposition sh (sizenode t)) (node ?t)"
    by (rule keys_okI; unfold nxt node_write)
      (rule keys_okD(1) [OF K], assumption+, rule keys_okD(2) [OF K], assumption+,
        rule keys_okD(3) [OF K], assumption+, rule keys_okD(4) [OF K], assumption+, rule live, assumption+)
  have lk: "live_keys (node ?t) = live_keys (node t)" unfolding live_keys_def node_write ..
  have dummy: "node ?t = [nilnode]" if "isdummy t"
  proof (cases s)
    case (NodeSlot j)
    with s table_okD(6) [OF ok that] have "luaO_rawequalObj NIL k"
      by (cases j) (simp_all add: nilnode_def)
    with k show ?thesis by simp
  qed (use table_okD(6) [OF ok that] in simp)
  have dd: "isdummy t \<Longrightarrow> lsizenode t = 0" using ok by (simp add: table_ok_def)
  note D = table_okD [OF ok]
  show ?thesis
  proof (rule table_okI; (unfold table_fields_write sizearray_write node_write lk)?)
    show "node ?t = [nilnode] \<and> lsizenode t = 0 \<and> lastfree t \<le> 0" if "isdummy t"
      using dummy dd D(7) that by blast
  qed (use links keys D in blast)+
qed

lemma write_tset:
  assumes ok: "table_ok sh t" and s: "holds_key t s k" and k: "valid_key k"
  shows "tset (write_slot t s v) =
    {p \<in> tset t. \<not> luaO_rawequalObj k (fst p)} \<union> {(k', v) |k'. v \<noteq> NIL \<and> luaO_rawequalObj k k'}"
proof -
  have "(k', v') \<in> tset (write_slot t s v) \<longleftrightarrow>
      (if luaO_rawequalObj k k' then v' = v \<and> v \<noteq> NIL else (k', v') \<in> tset t)" for k' v'
  proof (cases "luaO_rawequalObj k k'")
    case True
    then have k': "valid_key k'" "holds_key t s k'"
      using k rawequal_valid valid_live holds_key_cong s by blast+
    then have "holds_key t s' k' \<longleftrightarrow> s' = s" for s' using holds_key_unique [OF ok k'(1)] by blast
    then show ?thesis using True k' read_write_slot [OF s k'(2)] by (auto simp: tset_def)
  next
    case False
    then have "s' \<noteq> s" if "holds_key t s' k'" for s' using that slot_key_unique [OF s _ k] by blast
    then show ?thesis using False read_write_slot [OF s] by (auto simp: tset_def)
  qed
  then show ?thesis by (auto split: if_splits)
qed

section \<open>The parts of the map\<close>

definition arr_set :: "TValue list \<Rightarrow> nat set \<Rightarrow> (TValue \<times> TValue) set" where
  "arr_set xs D = {(k, v). v \<noteq> NIL \<and> valid_key k \<and>
     (\<exists>i \<in> D. i < length xs \<and> arrayindex k = int i + 1 \<and> xs ! i = v)}"

definition node_set :: "Node list \<Rightarrow> nat set \<Rightarrow> (TValue \<times> TValue) set" where
  "node_set nd D = {(k, v). v \<noteq> NIL \<and> valid_key k \<and>
     (\<exists>i \<in> D. i < length nd \<and> luaO_rawequalObj (i_key (nd ! i)) k \<and> i_val (nd ! i) = v)}"

lemma tset_parts: "tset t = arr_set (array t) UNIV \<union> node_set (node t) UNIV"
proof -
  have "(\<exists>s. P s) \<longleftrightarrow> (\<exists>i. P (ArrSlot i)) \<or> (\<exists>i. P (NodeSlot i))" for P
    by (metis slot.exhaust)
  then show ?thesis unfolding tset_def arr_set_def node_set_def by (auto simp: sizearray_def)
qed

lemma arr_set_insert: "arr_set xs (insert i D) = arr_set xs {i} \<union> arr_set xs D"
  unfolding arr_set_def by blast

lemma node_set_insert: "node_set nd (insert i D) = node_set nd {i} \<union> node_set nd D"
  unfolding node_set_def by blast

lemma arr_set_empty [simp]: "arr_set xs {} = {}"
  by (simp add: arr_set_def)

lemma node_set_empty [simp]: "node_set nd {} = {}"
  by (simp add: node_set_def)

lemma arr_set_nil: "xs ! i = NIL \<Longrightarrow> arr_set xs {i} = {}"
  unfolding arr_set_def by auto

lemma node_set_nil: "i_val (nd ! i) = NIL \<Longrightarrow> node_set nd {i} = {}"
  unfolding node_set_def by auto

lemma arr_set_single:
  assumes "i < length xs" "int i < INT_MAX" "xs ! i \<noteq> NIL"
  shows "arr_set xs {i} = {(k, xs ! i) |k. luaO_rawequalObj (NUMBER (cast_num (int i + 1))) k}"
proof -
  have i: "is_int32 (int i + 1)" using assms(2) by (simp add: is_int32_def)
  have "valid_key k \<and> arrayindex k = int i + 1 \<longleftrightarrow> luaO_rawequalObj (NUMBER (cast_num (int i + 1))) k" for k
  proof
    assume k: "valid_key k \<and> arrayindex k = int i + 1"
    then have "k = NUMBER (cast_num (int i + 1))" using arrayindex_pos [of k] by simp
    with k show "luaO_rawequalObj (NUMBER (cast_num (int i + 1))) k" by (simp add: valid_key_def)
  next
    assume "luaO_rawequalObj (NUMBER (cast_num (int i + 1))) k"
    with arrayindex_cong [OF this] rawequal_valid [OF this] valid_cast_num [OF i]
    show "valid_key k \<and> arrayindex k = int i + 1" using i by (simp add: valid_live)
  qed
  then show ?thesis using assms unfolding arr_set_def by auto
qed

lemma node_set_single:
  assumes "i < length nd" "i_val (nd ! i) \<noteq> NIL" "live (i_key (nd ! i))"
  shows "node_set nd {i} = {(k, i_val (nd ! i)) |k. luaO_rawequalObj (i_key (nd ! i)) k}"
  using assms rawequal_valid unfolding node_set_def by auto

definition functional :: "(TValue \<times> TValue) set \<Rightarrow> bool" where
  "functional C \<longleftrightarrow> (\<forall>k v v'. (k, v) \<in> C \<longrightarrow> (k, v') \<in> C \<longrightarrow> v = v')"

lemma functional_tset: "table_ok sh t \<Longrightarrow> functional (tset t)"
  unfolding functional_def using tset_functional by (metis rawequal_refl1 tset_iff valid_key_def)

lemma override_union:
  assumes "functional C" "A \<subseteq> C" "{(k', v) |k'. luaO_rawequalObj k k'} \<subseteq> C"
  shows "{p \<in> A. \<not> luaO_rawequalObj k (fst p)} \<union> {(k', v) |k'. luaO_rawequalObj k k'} =
    A \<union> {(k', v) |k'. luaO_rawequalObj k k'}"
proof -
  have "p \<in> {(k', v) |k'. luaO_rawequalObj k k'}" if "p \<in> A" "luaO_rawequalObj k (fst p)" for p
  proof -
    have "(fst p, v) \<in> C" "(fst p, snd p) \<in> C" using that assms(2,3) by auto
    then have "snd p = v" using assms(1) unfolding functional_def by blast
    with that(2) show ?thesis by (cases p) simp
  qed
  then show ?thesis by blast
qed

lemma links_ok_fresh: "links_ok (replicate n nilnode)"
  unfolding links_ok_def by (auto simp: nxt_iff nilnode_def)

lemma keys_ok_fresh: "keys_ok m (replicate n nilnode)"
  unfolding keys_ok_def by (simp add: nilnode_def)

lemma fresh_facts:
  "live_keys (replicate n nilnode) = {}" "node_set (replicate n nilnode) D = {}"
  "used_nodes (replicate n nilnode) = {}"
  by (auto simp: live_keys_def node_set_def used_nodes_def nilnode_def)

lemma setnodevector_ok:
  assumes "setnodevector t nh = Inr t'" "sizearray t < 2 ^ 31"
  shows "table_ok sh t' \<and> array t' = array t \<and> metatable t' = metatable t \<and>
    node t' = replicate (length (node t')) nilnode \<and>
    length (node t') = (if nh = 0 then 1 else 2 ^ nat (ceillog2 (of_nat nh))) \<and>
    (isdummy t' \<longleftrightarrow> nh = 0)"
proof (cases "nh = 0")
  case True
  with assms(1) have t': "t' = t\<lparr>node := [nilnode], isdummy := True, lsizenode := 0, lastfree := 0\<rparr>"
    by (simp add: setnodevector_def)
  have "table_ok sh t'"
    by (rule table_okI; unfold t')
      (use assms(2) links_ok_fresh [of 1] keys_ok_fresh [of _ 1] fresh_facts(1) [of 1] in
        \<open>auto simp: sizearray_def sizenode_def twoto_eq\<close>)
  with t' True show ?thesis by simp
next
  case False
  with assms(1) have l: "nat (ceillog2 (of_nat nh)) \<le> MAXBITS" and
    t': "t' = t\<lparr>node := replicate (twoto (nat (ceillog2 (of_nat nh)))) nilnode, isdummy := False,
      lsizenode := nat (ceillog2 (of_nat nh)), lastfree := int (twoto (nat (ceillog2 (of_nat nh))))\<rparr>"
    by (auto simp: setnodevector_def Let_def split: if_splits)
  have "table_ok sh t'"
    by (rule table_okI; unfold t')
      (use assms(2) l links_ok_fresh keys_ok_fresh fresh_facts in \<open>auto simp: sizearray_def sizenode_def\<close>)
  with t' False show ?thesis by (simp add: twoto_eq)
qed

text \<open>The table \<open>resize\<close> works on after it cut the array part.\<close>

lemma shrink_ok:
  assumes ok2: "table_ok sh t2" and na: "na < 2 ^ 31"
    and fresh: "node t2 = replicate (length (node t2)) nilnode" and arr2: "array t2 = array t"
    and less: "na < sizearray t"
  shows "table_ok sh (t2\<lparr>array := take na (array t2)\<rparr>)"
    and "tset (t2\<lparr>array := take na (array t2)\<rparr>) = arr_set (array t) {..<na}"
    and "arr_set (array t) D \<subseteq> tset t"
    and "tset (t2\<lparr>array := take na (array t2)\<rparr>) \<subseteq> tset t"
proof -
  let ?t2 = "t2\<lparr>array := take na (array t2)\<rparr>"
  note D = table_okD [OF ok2]
  have lk: "live_keys (node t2) = {}" using fresh fresh_facts(1) by metis
  have nodes2: "node_set (node t2) UNIV = {}" using fresh fresh_facts(2) by metis
  show "table_ok sh ?t2"
  proof (rule table_okI; simp add: sizenode_def sizearray_def D(1,4) lk)
    show "keys_ok (mainposition sh (twoto (lsizenode t2))) (node t2)"
      using D(2) by (simp add: sizenode_def)
    show "length (node t2) = twoto (lsizenode t2)" using D(3) by (simp add: sizenode_def)
    show "min (length (array t2)) na < 2147483648" using na by simp
    show "node t2 = [nilnode] \<and> lsizenode t2 = 0 \<and> lastfree t2 \<le> 0" if "isdummy t2"
      using ok2 that by (simp add: table_ok_def)
    show "lastfree t2 \<le> int (length (node t2))" if "\<not> isdummy t2"
      using D(8) [OF that] by simp
    show "i_key (node t2 ! i) \<noteq> NIL" if "\<not> isdummy t2" "i < length (node t2)" "lastfree t2 \<le> int i" for i
      using D(9) [OF that] .
  qed
  show set: "tset ?t2 = arr_set (array t) {..<na}"
    using tset_parts [of ?t2] nodes2 arr2 less by (auto simp: arr_set_def sizearray_def)
  show sub: "arr_set (array t) D \<subseteq> tset t" for D
    using tset_parts [of t] by (auto simp: arr_set_def)
  show "tset ?t2 \<subseteq> tset t" unfolding set by (rule sub)
qed

section \<open>Operations over an insertion\<close>

definition insert_post :: "(addr \<Rightarrow> u32) \<Rightarrow> Table \<Rightarrow> TValue \<Rightarrow> Table \<Rightarrow> slot \<Rightarrow> bool" where
  "insert_post sh t k t' s \<longleftrightarrow>
     table_ok sh t' \<and> holds_key t' s k \<and> tset t' = tset t \<and> metatable t' = metatable t"

locale inserter =
  fixes nk :: insertion and sh :: "addr \<Rightarrow> u32"
  assumes nk_post: "table_ok sh t \<Longrightarrow> valid_key k \<Longrightarrow> (\<And>s. \<not> holds_key t s k) \<Longrightarrow>
    nk t k = Inr (t', s) \<Longrightarrow> insert_post sh t k t' s"
begin

lemma flags_ok: "table_ok sh (t\<lparr>flags := f\<rparr>) = table_ok sh t"
  by (simp add: table_ok_def sizenode_def sizearray_def)

lemma flags_tset: "tset (t\<lparr>flags := f\<rparr>) = tset t"
  by (simp add: set_eq_iff tset_iff sizearray_def)

lemma flags_holds: "holds_key (t\<lparr>flags := f\<rparr>) s k = holds_key t s k"
  by (cases s) (simp_all add: sizearray_def)

lemma set_by_post:
  assumes "table_ok sh t" "luaH_set_by nk sh t k = Inr (t', s)" "live k"
  shows "insert_post sh t k t' s \<and> valid_key k"
proof (cases "valid_key k")
  case True
  show ?thesis
  proof (cases "luaH_get sh t k")
    case None
    with assms(2) True have "nk (t\<lparr>flags := 0\<rparr>) k = Inr (t', s)"
      by (auto simp: luaH_set_by_def Let_def valid_key_iff split: if_splits TValue.splits)
    moreover have "\<not> holds_key (t\<lparr>flags := 0\<rparr>) s k" for s
      using None get_none [OF assms(1) True] by (simp add: flags_holds)
    ultimately have "insert_post sh (t\<lparr>flags := 0\<rparr>) k t' s"
      using nk_post [of "t\<lparr>flags := 0\<rparr>"] True assms(1) by (simp add: flags_ok)
    with True show ?thesis by (simp add: insert_post_def flags_tset)
  next
    case (Some s')
    with assms have "t' = t\<lparr>flags := 0\<rparr>" "s = s'" by (auto simp: luaH_set_by_def)
    with Some get_spec [OF assms(1) True] assms(1) True show ?thesis
      by (simp add: insert_post_def flags_ok flags_tset flags_holds)
  qed
next
  case False
  then obtain n where n: "k = NUMBER n" "luai_numisnan n"
    using assms(3) by (auto simp: valid_key_iff split: TValue.splits)
  have "luaH_get sh t k = None"
  proof -
    have "\<not> luai_numeq x n" "\<not> luai_numeq n x" for x
      using n(2) by (auto simp: luai_numisnan_def luai_numeq_def)
    then show ?thesis
      using n(1) by (auto simp: luaH_get_def get_generic_def rawequal_iff Let_def find_None_iff
          split: TValue.splits)
  qed
  with assms(2) n show ?thesis by (simp add: luaH_set_by_def)
qed

lemma setnum_by_post:
  assumes "table_ok sh t" "luaH_setnum_by nk t k = Inr (t', s)" "is_int32 k"
  shows "insert_post sh t (NUMBER (cast_num k)) t' s"
proof (cases "luaH_getnum t k")
  case None
  then have "\<not> holds_key t s (NUMBER (cast_num k))" for s
    using getnum_spec [OF assms(1,3)] by (metis option.distinct(1))
  with None assms nk_post [OF assms(1) valid_cast_num [OF assms(3)]] show ?thesis
    by (simp add: luaH_setnum_by_def)
next
  case (Some s')
  with assms getnum_spec [OF assms(1,3)] show ?thesis
    by (auto simp: luaH_setnum_by_def insert_post_def)
qed

lemma write_post:
  assumes "insert_post sh t k t' s" "valid_key k"
  shows "table_ok sh (write_slot t' s v)"
    and "tset (write_slot t' s v) =
      {p \<in> tset t. \<not> luaO_rawequalObj k (fst p)} \<union> {(k', v) |k'. v \<noteq> NIL \<and> luaO_rawequalObj k k'}"
    and "metatable (write_slot t' s v) = metatable t"
  using assms write_ok write_tset unfolding insert_post_def by auto

lemma reinsert_array_post:
  assumes "reinsert_array nk src is t = Inr t'" "table_ok sh t" "functional C" "tset t \<subseteq> C"
    and "arr_set src (set is) \<subseteq> C" "\<forall>i \<in> set is. i < length src \<and> int i < INT_MAX"
  shows "table_ok sh t' \<and> tset t' = tset t \<union> arr_set src (set is) \<and> metatable t' = metatable t"
  using assms
proof (induction "is" arbitrary: t)
  case (Cons i "is")
  have sub: "arr_set src {i} \<subseteq> C" "arr_set src (set is) \<subseteq> C"
    using Cons.prems(5) arr_set_insert [of src i "set is"] by auto
  show ?case
  proof (cases "src ! i = NIL")
    case True
    then show ?thesis
      using Cons arr_set_insert [of src i "set is"] arr_set_nil [of src i] by auto
  next
    case False
    let ?k = "NUMBER (cast_num (int i + 1))"
    have i: "i < length src" "int i < INT_MAX" "is_int32 (int i + 1)"
      using Cons.prems(6) by (auto simp: is_int32_def)
    obtain t1 s where ts: "luaH_setnum_by nk t (int i + 1) = Inr (t1, s)"
      "reinsert_array nk src is (write_slot t1 s (src ! i)) = Inr t'"
      using Cons.prems(1) False by auto
    note P = setnum_by_post [OF Cons.prems(2) ts(1) i(3)]
    note W = write_post [OF P valid_cast_num [OF i(3)], of "src ! i"]
    have set: "tset (write_slot t1 s (src ! i)) = tset t \<union> arr_set src {i}"
      unfolding W(2) arr_set_single [OF i(1,2) False]
      using override_union [OF Cons.prems(3,4)] False sub(1) arr_set_single [OF i(1,2) False] by simp
    have "table_ok sh t' \<and> tset t' = tset t \<union> arr_set src {i} \<union> arr_set src (set is) \<and>
        metatable t' = metatable t"
      using Cons.IH [OF ts(2) W(1) Cons.prems(3)] set sub Cons.prems(4,6) W(3) by auto
    then show ?thesis using arr_set_insert [of src i "set is"] by auto
  qed
qed simp

lemma reinsert_nodes_post:
  assumes "reinsert_nodes nk sh nold n t = Inr t'" "table_ok sh t" "functional C" "tset t \<subseteq> C"
    and "node_set nold {..<n} \<subseteq> C" "n \<le> length nold"
    and "\<forall>i < length nold. i_val (nold ! i) \<noteq> NIL \<longrightarrow> live (i_key (nold ! i))"
  shows "table_ok sh t' \<and> tset t' = tset t \<union> node_set nold {..<n} \<and> metatable t' = metatable t"
  using assms
proof (induction n arbitrary: t)
  case (Suc n)
  have un: "node_set nold {..<Suc n} = node_set nold {n} \<union> node_set nold {..<n}"
    unfolding lessThan_Suc by (rule node_set_insert)
  have sub: "node_set nold {n} \<subseteq> C" "node_set nold {..<n} \<subseteq> C" using Suc.prems(5) un by auto
  have n: "n < length nold" using Suc.prems(6) by simp
  show ?case
  proof (cases "i_val (nold ! n) = NIL")
    case True
    then show ?thesis using Suc un node_set_nil [of nold n] by auto
  next
    case False
    have live: "live (i_key (nold ! n))" using False Suc.prems(7) n by blast
    obtain t1 s where ts: "luaH_set_by nk sh t (i_key (nold ! n)) = Inr (t1, s)"
      "reinsert_nodes nk sh nold n (write_slot t1 s (i_val (nold ! n))) = Inr t'"
      using Suc.prems(1) False by auto
    have P: "insert_post sh t (i_key (nold ! n)) t1 s" "valid_key (i_key (nold ! n))"
      using set_by_post [OF Suc.prems(2) ts(1) live] by auto
    note W = write_post [OF P, of "i_val (nold ! n)"]
    have set: "tset (write_slot t1 s (i_val (nold ! n))) = tset t \<union> node_set nold {n}"
      unfolding W(2) node_set_single [OF n False live]
      using override_union [OF Suc.prems(3,4)] False sub(1) node_set_single [OF n False live] by simp
    have "table_ok sh t' \<and> tset t' = tset t \<union> node_set nold {n} \<union> node_set nold {..<n} \<and>
        metatable t' = metatable t"
      using Suc.IH [OF ts(2) W(1) Suc.prems(3)] set sub Suc.prems(4,6,7) W(3) by auto
    then show ?thesis using un by auto
  qed
qed simp

lemma resize_by_post:
  assumes "resize_by nk sh t nasize nhsize = Inr t'" "table_ok sh t" "nasize < 2 ^ 31"
  shows "table_ok sh t' \<and> tset t' = tset t \<and> metatable t' = metatable t"
proof -
  define t1 where "t1 = (if nasize > sizearray t then setarrayvector t nasize else t)"
  obtain t2 t3 where t2: "setnodevector t1 nhsize = Inr t2" and
    t3: "(if nasize < sizearray t
       then reinsert_array nk (array t2) [nasize ..< sizearray t] (t2\<lparr>array := take nasize (array t2)\<rparr>)
       else Inr t2) = Inr t3" and
    t': "reinsert_nodes nk sh (node t) (twoto (lsizenode t)) t3 = Inr t'"
    using assms(1) unfolding resize_by_def Let_def t1_def by auto
  have size1: "sizearray t1 < 2 ^ 31" "metatable t1 = metatable t"
    using assms(3) table_okD(5) [OF assms(2)] by (auto simp: t1_def setarrayvector_def sizearray_def)
  note T2 = setnodevector_ok [OF t2 size1(1), of sh]
  note F = functional_tset [OF assms(2)]
  have arr1: "arr_set (array t1) UNIV = arr_set (array t) UNIV"
    by (auto simp: t1_def setarrayvector_def arr_set_def nth_append sizearray_def split: if_splits)
  have nodes2: "node_set (node t2) UNIV = {}" using T2 fresh_facts(2) by metis
  have set2: "tset t2 = arr_set (array t) UNIV"
    using tset_parts [of t2] nodes2 T2 arr1 by simp
  have set3: "table_ok sh t3 \<and> tset t3 = arr_set (array t) UNIV \<and> metatable t3 = metatable t"
  proof (cases "nasize < sizearray t")
    case False
    then show ?thesis using t3 set2 T2 size1 by simp
  next
    case True
    then have arr2: "array t2 = array t" using T2 by (simp add: t1_def)
    have fresh: "node t2 = replicate (length (node t2)) nilnode" using T2 by blast
    note S = shrink_ok [OF conjunct1 [OF T2] assms(3) fresh arr2 True]
    have "table_ok sh t3 \<and> tset t3 = tset (t2\<lparr>array := take nasize (array t2)\<rparr>) \<union>
          arr_set (array t) (set [nasize ..< sizearray t]) \<and> metatable t3 = metatable t2"
      using t3 True arr2 table_okD(5) [OF assms(2)] reinsert_array_post [OF _ S(1) F S(4,3)]
      by (auto simp: sizearray_def)
    moreover have "arr_set (array t) {..<nasize} \<union> arr_set (array t) (set [nasize ..< sizearray t]) =
        arr_set (array t) UNIV"
      unfolding arr_set_def sizearray_def by (auto simp: not_less)
    ultimately show ?thesis using S(2) T2 size1 by simp
  qed
  have len: "twoto (lsizenode t) = length (node t)"
    using table_okD(3) [OF assms(2)] by (simp add: sizenode_def)
  have all: "node_set (node t) {..<length (node t)} = node_set (node t) UNIV"
    by (auto simp: node_set_def)
  have "table_ok sh t' \<and> tset t' = tset t3 \<union> node_set (node t) {..<twoto (lsizenode t)} \<and>
      metatable t' = metatable t3"
    by (rule reinsert_nodes_post [OF t' _ F])
      (use set3 tset_parts [of t] len all used_node_live [OF table_okD(2) [OF assms(2)]] in auto)
  then show ?thesis using set3 len all tset_parts [of t] by simp
qed

lemma rehash_by_cases:
  assumes "table_ok sh t"
  obtains L nums opt act where "counts nums L" "sizes_inv L (MAXBITS + 1) act opt"
    "L = seg (array t) 1 (min (length (array t)) (2 ^ MAXBITS)) @
       node_ints (node t) (rev [0 ..< length (node t)]) @ ints_of ek"
    "rehash_by nk sh t ek = resize_by nk sh t opt
       (length (seg (array t) 1 (min (length (array t)) (2 ^ MAXBITS))) +
        length (filter (\<lambda>i. i_val (node t ! i) \<noteq> NIL) [0 ..< length (node t)]) + 1 - act)"
proof -
  let ?S = "seg (array t) 1 (min (length (array t)) (2 ^ MAXBITS))"
    and ?N = "node_ints (node t) (rev [0 ..< length (node t)])"
  obtain n1 nums1 where 1: "numusearray t (replicate (MAXBITS + 1) 0) = (n1, nums1)" by fastforce
  have c1: "counts nums1 ?S" "n1 = length ?S"
    using numusearray_counts [OF 1 counts_empty] by auto
  obtain u e nums2 where 2: "numusehash_loop (node t) (sizenode t) 0 0 nums1 = (u, e, nums2)"
    using prod_cases3 by blast
  have c2: "counts nums2 (?S @ ?N)" "e = length ?N"
    "u = length (filter (\<lambda>i. i_val (node t ! i) \<noteq> NIL) [0 ..< length (node t)])"
    using numusehash_loop_counts [OF 2 c1(1)] table_okD(3) [OF assms] by auto
  obtain c nums3 where 3: "countint ek nums2 = (c, nums3)" by fastforce
  have c3: "counts nums3 (?S @ ?N @ ints_of ek)" "c = length (ints_of ek)"
    using countint_counts [OF c2(1) 3] by auto
  obtain opt act where 4: "computesizes nums3 (length (?S @ ?N @ ints_of ek)) = (opt, act)" by fastforce
  have "rehash_by nk sh t ek = resize_by nk sh t opt (length ?S + u + 1 - act)"
    unfolding rehash_by_def using 1 2 3 4 c1(2) c2(2) c3(2)
    by (simp add: numusehash_def Let_def add.assoc)
  with that [OF c3(1) computesizes_spec [OF 4 c3(1)] refl] c2(3) show thesis by simp
qed

lemma opt_less: "sizes_inv L (MAXBITS + 1) act opt \<Longrightarrow> opt \<le> 2 ^ MAXBITS"
  by (auto simp: sizes_inv_def less_Suc_eq_le intro: power_increasing)

lemma rehash_by_post:
  assumes "rehash_by nk sh t ek = Inr t'" "table_ok sh t"
  shows "table_ok sh t' \<and> tset t' = tset t \<and> metatable t' = metatable t"
proof -
  obtain L nums opt act where inv: "sizes_inv L (MAXBITS + 1) act opt" and
    eq: "rehash_by nk sh t ek = resize_by nk sh t opt
       (length (seg (array t) 1 (min (length (array t)) (2 ^ MAXBITS))) +
        length (filter (\<lambda>i. i_val (node t ! i) \<noteq> NIL) [0 ..< length (node t)]) + 1 - act)"
    using rehash_by_cases [OF assms(2)] by metis
  have "opt < 2 ^ 31" using opt_less [OF inv] by (simp add: MAXBITS_def)
  then show ?thesis using resize_by_post assms eq by metis
qed

end

section \<open>\<open>newkey\<close> provides the insertion\<close>

lemma freepos_spec:
  assumes "freepos nd l = (l', r)"
  shows "case r of
      None \<Rightarrow> l' = -1 \<and> (\<forall>i < l. i_key (nd ! i) \<noteq> NIL)
    | Some n \<Rightarrow> l' = int n \<and> n < l \<and> i_key (nd ! n) = NIL \<and> (\<forall>i < l. n < i \<longrightarrow> i_key (nd ! i) \<noteq> NIL)"
  using assms
  by (induction nd l rule: freepos.induct)
    (auto split: if_splits option.splits simp: less_Suc_eq)

lemma getfreepos_spec:
  assumes "table_ok sh t" "\<not> isdummy t" "getfreepos t = (t1, r)"
  shows "\<exists>l. t1 = t\<lparr>lastfree := l\<rparr> \<and> (case r of
      None \<Rightarrow> l \<le> 0 \<and> (\<forall>i < length (node t). i_key (node t ! i) \<noteq> NIL)
    | Some n \<Rightarrow> l = int n \<and> n < length (node t) \<and> i_key (node t ! n) = NIL \<and>
        (\<forall>i < length (node t). n < i \<longrightarrow> i_key (node t ! i) \<noteq> NIL))"
proof (cases "lastfree t > 0")
  case True
  then obtain l' where f: "freepos (node t) (nat (lastfree t)) = (l', r)" "t1 = t\<lparr>lastfree := l'\<rparr>"
    using assms(3) by (auto simp: getfreepos_def split: prod.splits)
  have rest: "i_key (node t ! i) \<noteq> NIL" if "i < length (node t)" "nat (lastfree t) \<le> i" for i
    using table_okD(9) [OF assms(1,2) that(1)] that(2) True by simp
  have len: "nat (lastfree t) \<le> length (node t)" using table_okD(8) [OF assms(1,2)] by simp
  show ?thesis
    using freepos_spec [OF f(1)] f(2) rest len by (cases r) (auto simp: not_le [symmetric], force+)
next
  case False
  then have "t1 = t\<lparr>lastfree := lastfree t - 1\<rparr>" "r = None"
    using assms(3) by (auto simp: getfreepos_def)
  moreover have "i_key (node t ! i) \<noteq> NIL" if "i < length (node t)" for i
    using table_okD(9) [OF assms(1,2) that] False by simp
  ultimately show ?thesis using False by auto
qed

lemma node_set_content:
  "node_set nd UNIV = {(k, v). v \<noteq> NIL \<and> valid_key k \<and> (\<exists>k'. (k', v) \<in> content nd \<and> luaO_rawequalObj k' k)}"
  unfolding node_set_def content_def by auto

lemma placed_post:
  assumes ok: "table_ok sh t" and k: "valid_key k" and absent: "\<And>s. \<not> holds_key t s k"
    and dummy: "\<not> isdummy t"
    and pl: "placed (mainposition sh (sizenode t)) (node t) k nd' i j"
    and l: "l \<le> int (length (node t))"
      "\<And>i. i < length (node t) \<Longrightarrow> l \<le> int i \<Longrightarrow> i = j \<or> i_key (node t ! i) \<noteq> NIL"
  shows "insert_post sh t k (t\<lparr>node := nd', lastfree := l\<rparr>) (NodeSlot i)"
proof -
  let ?t = "t\<lparr>node := nd', lastfree := l\<rparr>"
  note P = pl [unfolded placed_def]
  have used: "i_key (nd' ! i) \<noteq> NIL" if "i < length (node t)" "i = j \<or> i_key (node t ! i) \<noteq> NIL" for i
  proof -
    have "i \<in> used_nodes nd'" using P that by (auto simp: used_nodes_def)
    then show ?thesis by (simp add: used_nodes_def)
  qed
  have karr: "\<not> (0 < arrayindex k \<and> arrayindex k \<le> int (sizearray t))"
    using absent [of "ArrSlot (nat (arrayindex k - 1))"] by auto
  have ok': "table_ok sh ?t"
  proof (rule table_okI)
    show "int (sizearray ?t) < arrayindex k'" if "k' \<in> live_keys (node ?t)" "0 < arrayindex k'" for k'
      using that P karr table_okD(10) [OF ok, of k'] by (auto simp: sizearray_def)
    show "i_key (node ?t ! i) \<noteq> NIL" if "i < length (node ?t)" "lastfree ?t \<le> int i" for i
      using that P used l(2) by simp
  qed (use P table_okD(3,4,5) [OF ok] dummy l(1) in \<open>simp_all add: sizenode_def sizearray_def\<close>)
  have "holds_key ?t (NodeSlot i) k" using P k by (simp add: valid_key_def)
  moreover have "tset ?t = tset t"
    unfolding tset_parts node_set_content using P by simp
  ultimately show ?thesis using ok' by (simp add: insert_post_def)
qed

text \<open>The placements of \<open>newkey\<close>: what it does when it need not rehash.\<close>

lemma newkey_place:
  assumes ok: "table_ok sh t" and k: "valid_key k" and absent: "\<And>s. \<not> holds_key t s k"
    and room: "\<not> isdummy t" "i_val (node t ! mainposition sh (sizenode t) k) = NIL \<or>
      (\<exists>i < length (node t). i_key (node t ! i) = NIL)"
  shows "\<exists>nd' l i j. newkey sh (Suc f) t k = Inr (t\<lparr>node := nd', lastfree := l\<rparr>, NodeSlot i) \<and>
    insert_post sh t k (t\<lparr>node := nd', lastfree := l\<rparr>) (NodeSlot i) \<and>
    placed (mainposition sh (sizenode t)) (node t) k nd' i j"
proof -
  let ?m = "mainposition sh (sizenode t)"
  note inv = table_okD(1) [OF ok] table_okD(2) [OF ok]
  have len: "length (node t) = twoto (lsizenode t)" using table_okD(3) [OF ok] by (simp add: sizenode_def)
  note inv' = inv(1) inv(2) [unfolded sizenode_def] len
  have new: "\<not> luaO_rawequalObj (i_key (node t ! j)) k" if "j < length (node t)" for j
    using absent [of "NodeSlot j"] that by simp
  have mk: "?m k < length (node t)" using mainpos.m_less len by (simp add: sizenode_def)
  show ?thesis
  proof (cases "i_val (node t ! ?m k) = NIL")
    case True
    have pl: "placed ?m (node t) k (set_key (node t) (?m k) k) (?m k) (?m k)"
      using mainpos.place_free [OF inv' k new] True unfolding sizenode_def by blast
    have "newkey sh (Suc f) t k =
        Inr (t\<lparr>node := set_key (node t) (?m k) k, lastfree := lastfree t\<rparr>, NodeSlot (?m k))"
      using True room(1) by (simp add: Let_def)
    with placed_post [OF ok k absent room(1) pl] table_okD(8,9) [OF ok room(1)] pl show ?thesis
      by metis
  next
    case False
    then obtain i0 where i0: "i0 < length (node t)" "i_key (node t ! i0) = NIL" using room(2) by blast
    obtain t1 r where g: "getfreepos t = (t1, r)" by fastforce
    from getfreepos_spec [OF ok room(1) g] i0 obtain n where n: "t1 = t\<lparr>lastfree := int n\<rparr>" "r = Some n"
      "n < length (node t)" "i_key (node t ! n) = NIL"
      "\<And>i. i < length (node t) \<Longrightarrow> n < i \<Longrightarrow> i_key (node t ! i) \<noteq> NIL"
      by (auto split: option.splits)
    have l: "int n \<le> int (length (node t))"
      "\<And>i. i < length (node t) \<Longrightarrow> int n \<le> int i \<Longrightarrow> i = n \<or> i_key (node t ! i) \<noteq> NIL"
      using n by auto
    have sz: "sizenode t1 = sizenode t" "node t1 = node t" by (simp_all add: n(1) sizenode_def)
    have live: "live (i_key (node t ! ?m k))" using used_node_live [OF inv(2) mk False] .
    show ?thesis
    proof (cases "?m (i_key (node t ! ?m k)) = ?m k")
      case True
      have pl: "placed ?m (node t) k (set_key (link_node (node t) (?m k) n) n k) n n"
        using mainpos.place_link [OF inv' k new] False True n(3,4) unfolding sizenode_def by blast
      have "newkey sh (Suc f) t k =
          Inr (t\<lparr>node := set_key (link_node (node t) (?m k) n) n k, lastfree := int n\<rparr>, NodeSlot n)"
        using False True g n(1,2) sz by (simp add: Let_def)
      with placed_post [OF ok k absent room(1) pl l] pl show ?thesis by blast
    next
      case move: False
      obtain pred where pred: "find (\<lambda>i. gnext (node t ! i) = Some (?m k))
          (chain (node t) (?m (i_key (node t ! ?m k)))) = Some pred" "(pred, ?m k) \<in> nxt (node t)"
        using mainpos.find_pred [OF inv' mk live] move unfolding sizenode_def by blast
      have pl: "placed ?m (node t) k (set_key (move_node (node t) pred (?m k) n) (?m k) k) (?m k) n"
        using mainpos.place_move [OF inv' k new refl] False move n(3,4) pred(2) unfolding sizenode_def by blast
      have "newkey sh (Suc f) t k = Inr (t\<lparr>node := set_key (move_node (node t) pred (?m k) n) (?m k) k,
          lastfree := int n\<rparr>, NodeSlot (?m k))"
        using False move g n(1,2) sz pred(1) by (simp add: Let_def)
      with placed_post [OF ok k absent room(1) pl l] pl show ?thesis by blast
    qed
  qed
qed

lemma no_room:
  assumes ok: "table_ok sh t" and full: "isdummy t \<or> i_val (node t ! mainposition sh (sizenode t) k) \<noteq> NIL \<and>
      (\<forall>i < length (node t). i_key (node t ! i) \<noteq> NIL)"
  obtains l where "getfreepos t = (t\<lparr>lastfree := l\<rparr>, None)" "table_ok sh (t\<lparr>lastfree := l\<rparr>)"
    "newkey sh (Suc f) t k = seqR (rehash_by (newkey sh f) sh (t\<lparr>lastfree := l\<rparr>) k)
       (\<lambda>t. luaH_set_by (newkey sh f) sh t k)"
proof -
  have "\<exists>l. getfreepos t = (t\<lparr>lastfree := l\<rparr>, None) \<and> l \<le> 0"
  proof (cases "isdummy t")
    case True
    then show ?thesis using table_okD(7) [OF ok True] by (auto simp: getfreepos_def)
  next
    case False
    obtain t1 r where g: "getfreepos t = (t1, r)" by fastforce
    from getfreepos_spec [OF ok False g] full False g show ?thesis by (auto split: option.splits)
  qed
  then obtain l where l: "getfreepos t = (t\<lparr>lastfree := l\<rparr>, None)" "l \<le> 0" by blast
  have "table_ok sh (t\<lparr>lastfree := l\<rparr>)"
    by (rule table_okI)
      (use ok l(2) full in \<open>auto simp: table_ok_def sizenode_def sizearray_def not_le split: if_splits\<close>)
  moreover have "newkey sh (Suc f) t k = seqR (rehash_by (newkey sh f) sh (t\<lparr>lastfree := l\<rparr>) k)
       (\<lambda>t. luaH_set_by (newkey sh f) sh t k)"
    using full l(1) by (auto simp: Let_def)
  ultimately show thesis using that l(1) by blast
qed

lemma lastfree_tset: "tset (t\<lparr>lastfree := l\<rparr>) = tset t"
  unfolding tset_parts by simp

lemma newkey_inserter: "inserter (newkey sh f) sh"
proof (induction f)
  case 0
  then show ?case by unfold_locales simp
next
  case (Suc f)
  show ?case
  proof
    fix t k t' s
    assume h: "table_ok sh t" "valid_key k" "\<And>s. \<not> holds_key t s k" "newkey sh (Suc f) t k = Inr (t', s)"
    show "insert_post sh t k t' s"
    proof (cases "\<not> isdummy t \<and> (i_val (node t ! mainposition sh (sizenode t) k) = NIL \<or>
        (\<exists>i < length (node t). i_key (node t ! i) = NIL))")
      case True
      with newkey_place [OF h(1-3), of f] h(4) show ?thesis by force
    next
      case False
      then obtain l where l: "table_ok sh (t\<lparr>lastfree := l\<rparr>)"
        "newkey sh (Suc f) t k = seqR (rehash_by (newkey sh f) sh (t\<lparr>lastfree := l\<rparr>) k)
           (\<lambda>t. luaH_set_by (newkey sh f) sh t k)"
        using no_room [OF h(1), of k f] by blast
      from h(4) [unfolded l(2)] obtain t2 where t2: "rehash_by (newkey sh f) sh (t\<lparr>lastfree := l\<rparr>) k = Inr t2"
        "luaH_set_by (newkey sh f) sh t2 k = Inr (t', s)" by auto
      note R = inserter.rehash_by_post [OF Suc.IH t2(1) l(1)]
      then have "insert_post sh t2 k t' s"
        using inserter.set_by_post [OF Suc.IH _ t2(2)] valid_live [OF h(2)] by blast
      with R show ?thesis by (simp add: insert_post_def lastfree_tset)
    qed
  qed
qed

interpretation newkey: inserter "newkey sh f" sh for sh f
  by (rule newkey_inserter)

section \<open>Insertion with room\<close>

definition same_shape :: "Table \<Rightarrow> Table \<Rightarrow> bool" where
  "same_shape t t' \<longleftrightarrow> sizearray t' = sizearray t \<and> length (node t') = length (node t) \<and>
     isdummy t' = isdummy t"

definition used :: "Table \<Rightarrow> nat" where
  "used t = card (used_nodes (node t))"

definition capacity :: "Table \<Rightarrow> nat" where
  "capacity t = (if isdummy t then 0 else length (node t))"

definition in_array :: "nat \<Rightarrow> TValue \<Rightarrow> bool" where
  "in_array n k \<longleftrightarrow> 0 < arrayindex k \<and> arrayindex k \<le> int n"

definition hash_bound :: "nat \<Rightarrow> Node list \<Rightarrow> nat \<Rightarrow> nat" where
  "hash_bound na nd n = length (filter (\<lambda>i. i_val (nd ! i) \<noteq> NIL \<and> \<not> in_array na (i_key (nd ! i))) [0 ..< n])"

text \<open>The keys that a resize to \<open>nasize\<close> leaves to the hash part.\<close>

definition leftover :: "Table \<Rightarrow> nat \<Rightarrow> nat" where
  "leftover t nasize =
     length (filter (\<lambda>i. array t ! i \<noteq> NIL) [nasize ..< sizearray t]) +
     hash_bound nasize (node t) (length (node t))"

section \<open>The census fits the new sizes\<close>

lemma filter_from: "filter (\<lambda>i. n \<le> i \<and> P i) [0 ..< m] = filter P [n ..< m]"
  by (induction m) auto

lemma seg_rest:
  "length (seg arr 1 len) = upto_count (seg arr 1 len) n + length (filter (\<lambda>i. arr ! i \<noteq> NIL) [n ..< len])"
proof -
  have "seg arr 1 len = map (\<lambda>i. int (Suc i)) (filter (\<lambda>i. arr ! i \<noteq> NIL) [0 ..< len])"
  proof -
    have "[1 ..< len + 1] = map Suc [0 ..< len]" by (simp add: map_Suc_upt)
    then show ?thesis by (simp add: seg_def filter_map comp_def)
  qed
  moreover have "length xs = length (filter P xs) + length (filter (\<lambda>x. \<not> P x) xs)" for P and xs :: "int list"
    by (induction xs) auto
  moreover have "filter (\<lambda>i. \<not> int (Suc i) \<le> int n) (filter (\<lambda>i. arr ! i \<noteq> NIL) [0 ..< len]) =
      filter (\<lambda>i. arr ! i \<noteq> NIL) [n ..< len]"
  proof -
    have "(arr ! x \<noteq> NIL \<and> \<not> int (Suc x) \<le> int n) = (n \<le> x \<and> arr ! x \<noteq> NIL)" for x by auto
    then show ?thesis using filter_from [of n "\<lambda>i. arr ! i \<noteq> NIL" len] by (simp only: filter_filter)
  qed
  ultimately show ?thesis unfolding upto_count_def
    by (smt (verit) comp_def filter_cong filter_map length_map)
qed

lemma upto_ints_of: "n \<le> 2 ^ MAXBITS \<Longrightarrow> upto_count (ints_of k) n = (if in_array n k then 1 else 0)"
proof -
  assume "n \<le> 2 ^ MAXBITS"
  then have "int n \<le> MAXASIZE" by (simp add: MAXASIZE_def push_bit_eq_mult MAXBITS_def)
  then show ?thesis by (auto simp: ints_of_def upto_count_def in_array_def)
qed

lemma upto_append: "upto_count (L @ M) n = upto_count L n + upto_count M n"
  by (simp add: upto_count_def)

lemma node_ints_rest:
  assumes "n \<le> 2 ^ MAXBITS"
  shows "length (filter (\<lambda>i. i_val (nd ! i) \<noteq> NIL) [0 ..< l]) =
    upto_count (node_ints nd (rev [0 ..< l])) n + hash_bound n nd l"
proof (induction l)
  case (Suc l)
  have "node_ints nd (rev [0 ..< Suc l]) =
      (if i_val (nd ! l) \<noteq> NIL then ints_of (i_key (nd ! l)) else []) @ node_ints nd (rev [0 ..< l])"
    by (simp add: node_ints_def)
  with Suc upto_ints_of [OF assms, of "i_key (nd ! l)"] show ?case
    by (simp add: upto_append hash_bound_def) (simp add: upto_count_def)
qed (simp add: node_ints_def upto_count_def hash_bound_def)

locale total_inserter = inserter +
  assumes nk_room: "table_ok sh t \<Longrightarrow> valid_key k \<Longrightarrow> (\<And>s. \<not> holds_key t s k) \<Longrightarrow> used t < capacity t \<Longrightarrow>
    \<exists>t' s. nk t k = Inr (t', s) \<and> same_shape t t' \<and> used t' \<le> used t + 1"
begin

lemma shape_facts: "same_shape t t' \<Longrightarrow> capacity t' = capacity t" "same_shape t t' \<Longrightarrow> sizearray t' = sizearray t"
  by (auto simp: same_shape_def capacity_def)

lemma array_key_held: "table_ok sh t \<Longrightarrow> in_array (sizearray t) k \<Longrightarrow> holds_key t (ArrSlot (nat (arrayindex k - 1))) k"
  by (auto simp: in_array_def)

lemma set_by_room:
  assumes "table_ok sh t" "valid_key k" "in_array (sizearray t) k \<or> used t < capacity t"
  shows "\<exists>t' s. luaH_set_by nk sh t k = Inr (t', s) \<and> same_shape t t' \<and>
    used t' \<le> used t + (if in_array (sizearray t) k then 0 else 1)"
proof (cases "luaH_get sh t k")
  case None
  then have absent: "\<not> holds_key t s k" for s using get_none [OF assms(1,2)] by blast
  then have no: "\<not> in_array (sizearray t) k" using array_key_held [OF assms(1)] by blast
  let ?t = "t\<lparr>flags := 0\<rparr>"
  have eq: "used ?t = used t" "capacity ?t = capacity t"
    by (simp_all add: used_def capacity_def)
  have "luaH_set_by nk sh t k = nk ?t k"
    using None assms(2) by (auto simp: luaH_set_by_def Let_def valid_key_iff split: TValue.splits)
  moreover have "\<exists>t' s. nk ?t k = Inr (t', s) \<and> same_shape ?t t' \<and> used t' \<le> used ?t + 1"
    using assms no absent by (intro nk_room) (simp_all add: flags_ok flags_holds eq)
  moreover have "same_shape ?t t' = same_shape t t'" for t' by (simp add: same_shape_def sizearray_def)
  ultimately show ?thesis using no by (simp add: eq(1))
next
  case (Some s)
  then show ?thesis
    by (auto simp: luaH_set_by_def Let_def same_shape_def sizearray_def used_def)
qed

lemma setnum_by_room:
  assumes "table_ok sh t" "is_int32 k" "used t < capacity t"
  shows "\<exists>t' s. luaH_setnum_by nk t k = Inr (t', s) \<and> same_shape t t' \<and> used t' \<le> used t + 1"
proof (cases "luaH_getnum t k")
  case None
  then have "\<not> holds_key t s (NUMBER (cast_num k))" for s
    using getnum_spec [OF assms(1,2)] by (metis option.distinct(1))
  with nk_room [OF assms(1) valid_cast_num [OF assms(2)] _ assms(3)] None show ?thesis
    by (simp add: luaH_setnum_by_def)
qed (auto simp: luaH_setnum_by_def same_shape_def)

lemma write_shape:
  "same_shape t (write_slot t' s v) = same_shape t t'" "used (write_slot t s v) = used t"
proof -
  show "same_shape t (write_slot t' s v) = same_shape t t'" by (simp add: same_shape_def node_write)
  show "used (write_slot t s v) = used t" unfolding used_def used_nodes_def node_write ..
qed

lemma same_shape_trans: "same_shape a b \<Longrightarrow> same_shape b c \<Longrightarrow> same_shape a c"
  by (simp add: same_shape_def)

lemma reinsert_array_total:
  assumes "table_ok sh t" "used t + length (filter (\<lambda>i. src ! i \<noteq> NIL) is) \<le> capacity t"
    and "\<forall>i \<in> set is. int i < INT_MAX"
  shows "\<exists>t'. reinsert_array nk src is t = Inr t' \<and> same_shape t t' \<and>
    used t' \<le> used t + length (filter (\<lambda>i. src ! i \<noteq> NIL) is)"
  using assms
proof (induction "is" arbitrary: t)
  case (Cons i "is")
  show ?case
  proof (cases "src ! i = NIL")
    case False
    have i: "is_int32 (int i + 1)" using Cons.prems(3) by (simp add: is_int32_def)
    from setnum_by_room [OF Cons.prems(1) i] Cons.prems(2) False obtain t1 s where
      1: "luaH_setnum_by nk t (int i + 1) = Inr (t1, s)" "same_shape t t1" "used t1 \<le> used t + 1" by auto
    let ?t = "write_slot t1 s (src ! i)"
    note W = write_post [OF setnum_by_post [OF Cons.prems(1) 1(1) i] valid_cast_num [OF i], of "src ! i"]
    have "\<exists>t'. reinsert_array nk src is ?t = Inr t' \<and> same_shape ?t t' \<and>
        used t' \<le> used ?t + length (filter (\<lambda>i. src ! i \<noteq> NIL) is)"
      using Cons.prems 1 shape_facts(1) [OF 1(2)] shape_facts(1) [of t1 ?t] False
      by (intro Cons.IH [OF W(1)]) (auto simp: write_shape same_shape_def capacity_def node_write)
    then show ?thesis
      using 1 False same_shape_trans [of t ?t] by (auto simp: write_shape)
  qed (use Cons in simp)
qed (simp add: same_shape_def)

lemma reinsert_nodes_total:
  assumes "table_ok sh t" "used t + hash_bound (sizearray t) nold n \<le> capacity t" "n \<le> length nold"
    and "\<forall>i < length nold. i_val (nold ! i) \<noteq> NIL \<longrightarrow> valid_key (i_key (nold ! i))"
  shows "\<exists>t'. reinsert_nodes nk sh nold n t = Inr t' \<and> same_shape t t' \<and>
    used t' \<le> used t + hash_bound (sizearray t) nold n"
  using assms
proof (induction n arbitrary: t)
  case (Suc n)
  show ?case
  proof (cases "i_val (nold ! n) = NIL")
    case True
    with Suc show ?thesis by (simp add: hash_bound_def)
  next
    case False
    let ?k = "i_key (nold ! n)" and ?c = "if in_array (sizearray t) (i_key (nold ! n)) then 0 else 1 :: nat"
    have k: "valid_key ?k" using False Suc.prems(3,4) by simp
    have hb: "hash_bound (sizearray t) nold (Suc n) = hash_bound (sizearray t) nold n + ?c"
      using False by (simp add: hash_bound_def)
    from set_by_room [OF Suc.prems(1) k] Suc.prems(2) hb obtain t1 s where
      1: "luaH_set_by nk sh t ?k = Inr (t1, s)" "same_shape t t1" "used t1 \<le> used t + ?c"
      by (auto split: if_splits)
    let ?t = "write_slot t1 s (i_val (nold ! n))"
    have P: "insert_post sh t ?k t1 s" using set_by_post [OF Suc.prems(1) 1(1) valid_live [OF k]] by blast
    note W = write_post [OF P k, of "i_val (nold ! n)"]
    have shape: "same_shape t ?t" using 1(2) by (simp add: write_shape)
    have "\<exists>t'. reinsert_nodes nk sh nold n ?t = Inr t' \<and> same_shape ?t t' \<and>
        used t' \<le> used ?t + hash_bound (sizearray ?t) nold n"
      using Suc.prems(2-4) 1(3) hb shape_facts [OF shape]
      by (intro Suc.IH [OF W(1)]) (auto simp: write_shape)
    then show ?thesis
      using 1 False hb shape_facts(2) [OF shape] same_shape_trans [OF shape] by (auto simp: write_shape)
  qed
qed (simp add: hash_bound_def same_shape_def)

lemma power_ceil: "0 < n \<Longrightarrow> n < 2 ^ 32 \<Longrightarrow> n \<le> 2 ^ nat (ceillog2 (of_nat n))"
proof -
  assume n: "0 < n" "n < 2 ^ 32"
  then have u: "unat (of_nat n :: u32) = n" by (simp add: unat_of_nat)
  then have "(of_nat n :: u32) \<noteq> 0" using n(1) by (metis less_irrefl unat_0)
  from ceillog2_bounds [OF this] u show ?thesis by simp
qed

lemma resize_by_total:
  assumes ok: "table_ok sh t" and na: "nasize < 2 ^ 31" and nh: "nhsize < 2 ^ 32" "leftover t nasize \<le> nhsize"
  shows "resize_by nk sh t nasize nhsize = Inl (RunError ''table overflow'') \<and>
      MAXBITS < nat (ceillog2 (of_nat nhsize)) \<and> nhsize \<noteq> 0 \<or>
    (\<exists>t'. resize_by nk sh t nasize nhsize = Inr t' \<and> sizearray t' = nasize \<and>
      nhsize \<le> capacity t' \<and> used t' \<le> leftover t nasize)"
proof -
  define t1 where "t1 = (if nasize > sizearray t then setarrayvector t nasize else t)"
  have size1: "sizearray t1 < 2 ^ 31" "sizearray t1 = max nasize (sizearray t)"
    using na table_okD(5) [OF ok] by (auto simp: t1_def setarrayvector_def sizearray_def)
  show ?thesis
  proof (cases "setnodevector t1 nhsize")
    case (Inl e)
    then have "e = RunError ''table overflow''" "MAXBITS < nat (ceillog2 (of_nat nhsize))" "nhsize \<noteq> 0"
      by (auto simp: setnodevector_def Let_def split: if_splits)
    with Inl show ?thesis unfolding resize_by_def Let_def t1_def by auto
  next
    case (Inr t2)
    note T2 = setnodevector_ok [OF Inr size1(1), of sh]
    have fresh: "node t2 = replicate (length (node t2)) nilnode" using T2 by blast
    have used2: "used t2 = 0" unfolding used_def by (subst fresh) (simp add: fresh_facts)
    have cap2: "nhsize \<le> capacity t2" using T2 power_ceil nh(1) by (auto simp: capacity_def)
    define A where "A = filter (\<lambda>i. array t ! i \<noteq> NIL) [nasize ..< sizearray t]"
    have nodes: "hash_bound nasize (node t) (length (node t)) + length A \<le> nhsize"
      using nh(2) by (simp add: leftover_def A_def)
    have "\<exists>t3. (if nasize < sizearray t
       then reinsert_array nk (array t2) [nasize ..< sizearray t] (t2\<lparr>array := take nasize (array t2)\<rparr>)
       else Inr t2) = Inr t3 \<and> table_ok sh t3 \<and> sizearray t3 = nasize \<and> capacity t3 = capacity t2 \<and>
       used t3 \<le> length A"
    proof (cases "nasize < sizearray t")
      case False
      then have "sizearray t2 = nasize" "A = []" using T2 size1 by (auto simp: sizearray_def A_def)
      with False T2 used2 show ?thesis by auto
    next
      case True
      then have arr2: "array t2 = array t" using T2 by (simp add: t1_def)
      let ?t2 = "t2\<lparr>array := take nasize (array t2)\<rparr>"
      note S = shrink_ok [OF conjunct1 [OF T2] na fresh arr2 True]
      have sz: "sizearray ?t2 = nasize" "used ?t2 = 0" "capacity ?t2 = capacity t2"
        using True arr2 used2 by (auto simp: sizearray_def used_def capacity_def)
      obtain t3 where t3: "reinsert_array nk (array t) [nasize ..< sizearray t] ?t2 = Inr t3"
        "same_shape ?t2 t3" "used t3 \<le> length A"
        using reinsert_array_total [OF S(1), of "array t" "[nasize ..< sizearray t]"]
          nodes cap2 sz table_okD(5) [OF ok] by (auto simp: A_def)
      moreover have "table_ok sh t3"
        using reinsert_array_post [OF t3(1) S(1) functional_tset [OF ok] S(4,3)] table_okD(5) [OF ok] by (auto simp: sizearray_def)
      ultimately show ?thesis using True arr2 shape_facts [OF t3(2)] sz by auto
    qed
    then obtain t3 where t3: "(if nasize < sizearray t
       then reinsert_array nk (array t2) [nasize ..< sizearray t] (t2\<lparr>array := take nasize (array t2)\<rparr>)
       else Inr t2) = Inr t3" "table_ok sh t3" "sizearray t3 = nasize" "capacity t3 = capacity t2"
       "used t3 \<le> length A" by blast
    have valid: "\<forall>i < length (node t). i_val (node t ! i) \<noteq> NIL \<longrightarrow> valid_key (i_key (node t ! i))"
      using table_okD(2) [OF ok] keys_okD(1) used_node_live by blast
    have len: "twoto (lsizenode t) = length (node t)" using table_okD(3) [OF ok] by (simp add: sizenode_def)
    obtain t' where t': "reinsert_nodes nk sh (node t) (length (node t)) t3 = Inr t'" "same_shape t3 t'"
      "used t' \<le> used t3 + hash_bound nasize (node t) (length (node t))"
      using reinsert_nodes_total [OF t3(2), of "node t" "length (node t)"] t3 nodes cap2 valid by auto
    have "resize_by nk sh t nasize nhsize = Inr t'"
      using Inr t3(1) t'(1) len unfolding resize_by_def Let_def t1_def by simp
    moreover have "used t' \<le> leftover t nasize" using t'(3) t3(5) by (simp add: leftover_def A_def)
    ultimately show ?thesis using shape_facts [OF t'(2)] t3(3,4) cap2 by auto
  qed
qed

lemma rehash_by_total:
  assumes ok: "table_ok sh t" and size: "sizearray t \<le> 2 ^ MAXBITS"
  shows "rehash_by nk sh t ek = Inl (RunError ''table overflow'') \<or>
    (\<exists>t'. rehash_by nk sh t ek = Inr t' \<and> sizearray t' \<le> 2 ^ MAXBITS \<and>
      (in_array (sizearray t') ek \<or> used t' < capacity t'))"
proof -
  let ?S = "seg (array t) 1 (min (length (array t)) (2 ^ MAXBITS))"
    and ?N = "node_ints (node t) (rev [0 ..< length (node t)])"
    and ?n = "length (filter (\<lambda>i. i_val (node t ! i) \<noteq> NIL) [0 ..< length (node t)])"
  obtain L nums opt act where inv: "sizes_inv L (MAXBITS + 1) act opt"
    and L: "L = ?S @ ?N @ ints_of ek"
    and eq: "rehash_by nk sh t ek = resize_by nk sh t opt (length ?S + ?n + 1 - act)"
    using rehash_by_cases [OF ok] by metis
  have opt: "opt \<le> 2 ^ MAXBITS" using opt_less [OF inv] .
  have m: "min (length (array t)) (2 ^ MAXBITS) = sizearray t" using size by (simp add: sizearray_def)
  have act: "act = upto_count ?S opt + upto_count ?N opt + (if in_array opt ek then 1 else 0)"
    using inv upto_ints_of [OF opt] by (simp add: sizes_inv_def L upto_append)
  have need: "length ?S + ?n + 1 - act = leftover t opt + (if in_array opt ek then 0 else 1)"
    using seg_rest [of "array t" "sizearray t" opt] node_ints_rest [OF opt, of "node t" "length (node t)"]
    unfolding act m leftover_def by auto
  have "length ?S \<le> 2 ^ MAXBITS"
  proof -
    have "length ?S \<le> length [1 ..< sizearray t + 1]"
      unfolding m seg_def length_map by (rule length_filter_le)
    then show ?thesis using size by (simp del: upt_Suc)
  qed
  moreover have "?n \<le> 2 ^ MAXBITS"
  proof -
    have "?n \<le> length (node t)" using length_filter_le [of _ "[0 ..< length (node t)]"] by simp
    also have "\<dots> \<le> 2 ^ MAXBITS"
      using table_okD(3,4) [OF ok] by (simp add: sizenode_def twoto_eq power_increasing)
    finally show ?thesis .
  qed
  ultimately have small: "length ?S + ?n + 1 - act < 2 ^ 32" by (simp add: MAXBITS_def)
  have "opt < 2 ^ 31" using opt by (simp add: MAXBITS_def)
  from resize_by_total [OF ok this small] need eq opt show ?thesis by auto
qed

end

section \<open>\<open>newkey\<close> is total\<close>

lemma used_eq: "keys_ok m nd \<Longrightarrow> card (used_nodes nd) < length nd \<Longrightarrow> \<exists>i < length nd. i_key (nd ! i) = NIL"
proof (rule ccontr)
  assume h: "card (used_nodes nd) < length nd" "\<not> (\<exists>i < length nd. i_key (nd ! i) = NIL)"
  then have "used_nodes nd = {..<length nd}" by (auto simp: used_nodes_def)
  with h(1) show False by simp
qed

lemma newkey_total: "total_inserter (newkey sh (Suc f)) sh"
proof (intro total_inserter.intro total_inserter_axioms.intro newkey_inserter)
  fix t k
  assume h: "table_ok sh t" "valid_key k" "\<And>s. \<not> holds_key t s k" "used t < capacity t"
  then have room: "\<not> isdummy t" "\<exists>i < length (node t). i_key (node t ! i) = NIL"
    using used_eq [OF table_okD(2) [OF h(1)]] by (auto simp: capacity_def used_def split: if_splits)
  obtain nd' l i j where r: "newkey sh (Suc f) t k = Inr (t\<lparr>node := nd', lastfree := l\<rparr>, NodeSlot i)"
    "placed (mainposition sh (sizenode t)) (node t) k nd' i j"
    using newkey_place [OF h(1-3) room(1), of f] room(2) by blast
  then have "used_nodes nd' = insert j (used_nodes (node t))" "length nd' = length (node t)"
    by (auto simp: placed_def)
  moreover have "finite (used_nodes (node t))" by (simp add: used_nodes_def)
  ultimately have "card (used_nodes nd') \<le> card (used_nodes (node t)) + 1" "length nd' = length (node t)"
    by (simp_all add: card_insert_if)
  with r(1) show "\<exists>t' s. newkey sh (Suc f) t k = Inr (t', s) \<and> same_shape t t' \<and> used t' \<le> used t + 1"
    by (intro exI [of _ "t\<lparr>node := nd', lastfree := l\<rparr>"] exI [of _ "NodeSlot i"])
      (simp add: same_shape_def used_def sizearray_def)
qed

interpretation newkey_room: total_inserter "newkey sh (Suc f)" sh for sh f
  by (rule newkey_total)

text \<open>One rehash makes room, so the second level of the recursion never rehashes.\<close>

lemma newkey_fuel:
  assumes ok: "table_ok sh t" and k: "valid_key k" and absent: "\<And>s. \<not> holds_key t s k"
    and size: "sizearray t \<le> 2 ^ MAXBITS"
  shows "newkey sh (Suc (Suc f)) t k = Inl (RunError ''table overflow'') \<or>
    (\<exists>t' s. newkey sh (Suc (Suc f)) t k = Inr (t', s) \<and> sizearray t' \<le> 2 ^ MAXBITS)"
proof (cases "\<not> isdummy t \<and> (i_val (node t ! mainposition sh (sizenode t) k) = NIL \<or>
    (\<exists>i < length (node t). i_key (node t ! i) = NIL))")
  case True
  with newkey_place [OF ok k absent, of "Suc f"] obtain nd' l i where
    "newkey sh (Suc (Suc f)) t k = Inr (t\<lparr>node := nd', lastfree := l\<rparr>, NodeSlot i)" by blast
  with size show ?thesis by (simp add: sizearray_def)
next
  case False
  then obtain l where l: "table_ok sh (t\<lparr>lastfree := l\<rparr>)"
    "newkey sh (Suc (Suc f)) t k = seqR (rehash_by (newkey sh (Suc f)) sh (t\<lparr>lastfree := l\<rparr>) k)
       (\<lambda>t. luaH_set_by (newkey sh (Suc f)) sh t k)"
    using no_room [OF ok, of k "Suc f"] by blast
  have size': "sizearray (t\<lparr>lastfree := l\<rparr>) \<le> 2 ^ MAXBITS" using size by (simp add: sizearray_def)
  from newkey_room.rehash_by_total [OF l(1) size', of f k] show ?thesis
  proof
    assume "rehash_by (newkey sh (Suc f)) sh (t\<lparr>lastfree := l\<rparr>) k = Inl (RunError ''table overflow'')"
    then show ?thesis unfolding l(2) by simp
  next
    assume "\<exists>t'. rehash_by (newkey sh (Suc f)) sh (t\<lparr>lastfree := l\<rparr>) k = Inr t' \<and>
      sizearray t' \<le> 2 ^ MAXBITS \<and> (in_array (sizearray t') k \<or> used t' < capacity t')"
    then obtain t1 where t1: "rehash_by (newkey sh (Suc f)) sh (t\<lparr>lastfree := l\<rparr>) k = Inr t1"
      "sizearray t1 \<le> 2 ^ MAXBITS" "in_array (sizearray t1) k \<or> used t1 < capacity t1" by blast
    have "table_ok sh t1" using newkey.rehash_by_post [OF t1(1) l(1)] by blast
    from newkey_room.set_by_room [OF this k t1(3), of f] obtain t' s where
      "luaH_set_by (newkey sh (Suc f)) sh t1 k = Inr (t', s)" "same_shape t1 t'" by blast
    with t1 show ?thesis unfolding l(2) by (simp add: same_shape_def)
  qed
qed

end
