(* ===== verification/TableSpec.thy ===== *)
theory TableSpec
  imports TableProof
begin

text \<open>
  What a table promises to the rest of the interpreter: a finite map under assignment, a
  recursion that ends, a length that is a boundary and a traversal that visits every entry
  once.
\<close>

section \<open>A table is a finite map\<close>

text \<open>\<open>setobj2t(L, luaH_set(L, t, k), v)\<close>, the assignment of \<open>lua_rawset\<close> and
  \<open>luaV_settable\<close>, and the value \<open>luaH_get\<close> points to.\<close>

definition rawset :: "(addr \<Rightarrow> u32) \<Rightarrow> Table \<Rightarrow> TValue \<Rightarrow> TValue \<Rightarrow> Table result" where
  "rawset sh t k v = seqR (luaH_set sh t k) (\<lambda>(t, s). Inr (write_slot t s v))"

definition rawget :: "(addr \<Rightarrow> u32) \<Rightarrow> Table \<Rightarrow> TValue \<Rightarrow> TValue" where
  "rawget sh t k = read_slot t (luaH_get sh t k)"

lemma rawget_tset:
  assumes "table_ok sh t" "valid_key k"
  shows "rawget sh t k = v \<longleftrightarrow> (if v = NIL then \<forall>v. (k, v) \<notin> tset t else (k, v) \<in> tset t)"
  using tset_get [OF assms] by (auto simp: rawget_def)

lemma rawget_invalid: "live k \<Longrightarrow> \<not> valid_key k \<Longrightarrow> rawget sh t k = NIL"
proof -
  assume h: "live k" "\<not> valid_key k"
  then obtain n where n: "k = NUMBER n" "luai_numisnan n" by (auto simp: valid_key_iff split: TValue.splits)
  have "\<not> luai_numeq x n" "\<not> luai_numeq n x" for x
    using n(2) by (auto simp: luai_numisnan_def luai_numeq_def)
  then have "luaH_get sh t k = None"
    using n(1) by (auto simp: luaH_get_def get_generic_def rawequal_iff Let_def find_None_iff
        split: TValue.splits)
  then show ?thesis by (simp add: rawget_def)
qed

lemma rawset_map:
  assumes ok: "table_ok sh t" and k: "live k" and set: "rawset sh t k v = Inr t'"
  shows "table_ok sh t'" and "valid_key k" and "metatable t' = metatable t"
    and "live k' \<Longrightarrow> rawget sh t' k' = (if luaO_rawequalObj k k' then v else rawget sh t k')"
proof -
  obtain t1 s where t1: "luaH_set sh t k = Inr (t1, s)" "t' = write_slot t1 s v"
    using set by (auto simp: rawset_def)
  have P: "insert_post sh t k t1 s" and valid: "valid_key k"
    using newkey.set_by_post [OF ok t1(1) [unfolded luaH_set_def] k] by auto
  note W = newkey.write_post [OF P valid, of v, folded t1(2)]
  show "table_ok sh t'" "valid_key k" "metatable t' = metatable t" using W valid by auto
  show "rawget sh t' k' = (if luaO_rawequalObj k k' then v else rawget sh t k')" if "live k'"
  proof (cases "valid_key k'")
    case True
    have mem: "(k', x) \<in> tset t' \<longleftrightarrow> (if luaO_rawequalObj k k' then x = v \<and> v \<noteq> NIL else (k', x) \<in> tset t)" for x
      unfolding W(2) by auto
    show ?thesis
    proof (cases "luaO_rawequalObj k k'")
      case True
      then show ?thesis using rawget_tset [OF W(1) \<open>valid_key k'\<close>, of v] mem by simp
    next
      case False
      then show ?thesis
        using rawget_tset [OF W(1) \<open>valid_key k'\<close>, of "rawget sh t k'"]
          rawget_tset [OF ok \<open>valid_key k'\<close>, of "rawget sh t k'"] mem by simp
    qed
  next
    case False
    moreover have "\<not> luaO_rawequalObj k k'" using False rawequal_valid k by blast
    ultimately show ?thesis using rawget_invalid that by simp
  qed
qed

text \<open>C2: assigning through \<open>luaH_set\<close> is a map update: the invariant of the table (chains,
  Brent's variation, free pointer, array and hash part disjoint) is kept, the assigned key reads
  back the value, every other key reads what it read before, through every path of \<open>newkey\<close>,
  rehash included.\<close>

theorem luaH_set_updates:
  assumes "table_ok sh t" "live k" "rawset sh t k v = Inr t'"
  shows "table_ok sh t' \<and> metatable t' = metatable t \<and>
    (\<forall>k'. live k' \<longrightarrow> rawget sh t' k' = (if luaO_rawequalObj k k' then v else rawget sh t k'))"
  using rawset_map [OF assms] by blast

definition small_table :: Table where
  "small_table = \<lparr>flags = 0xFF, lsizenode = 1, metatable = None, array = [],
     node = [nilnode, nilnode], lastfree = 2, isdummy = False\<rparr>"

lemma small_table_new: "luaH_new 0 2 = Inr small_table"
  by code_simp

lemma new_ok:
  assumes "luaH_new narray nhash = Inr t" "narray < 2 ^ 31"
  shows "table_ok sh t \<and> sizearray t = narray \<and> tset t = {}"
proof -
  obtain t0 where s: "setnodevector t0 nhash = Inr t" "array t0 = replicate narray NIL"
    using assms(1) by (auto simp: luaH_new_def Let_def setarrayvector_def)
  have "sizearray t0 < 2 ^ 31" using s(2) assms(2) by (simp add: sizearray_def)
  then have T: "table_ok sh t \<and> array t = array t0 \<and> node t = replicate (length (node t)) nilnode"
    using setnodevector_ok [OF s(1), of sh] by blast
  have "tset t = {}"
  proof -
    have "node_set (node t) UNIV = {}" using T fresh_facts(2) by metis
    moreover have "arr_set (array t) UNIV = {}" using T s(2) by (auto simp: arr_set_def)
    ultimately show ?thesis by (simp add: tset_parts)
  qed
  with T s(2) show ?thesis by (simp add: sizearray_def)
qed

lemma small_table_ok: "table_ok sh small_table"
  using new_ok [OF small_table_new] by simp

text \<open>Two booleans that collide in a vector of two nodes.\<close>

theorem luaH_set_updates_witness:
  "\<exists>t'. rawset (\<lambda>_. 0) small_table (BOOLEAN True) (NUMBER 5) = Inr t' \<and>
     rawget (\<lambda>_. 0) t' (BOOLEAN True) = NUMBER 5 \<and> rawget (\<lambda>_. 0) t' (BOOLEAN False) = NIL"
proof -
  obtain t' where t': "rawset (\<lambda>_. 0) small_table (BOOLEAN True) (NUMBER 5) = Inr t'"
    "rawget (\<lambda>_. 0) small_table (BOOLEAN False) = NIL"
    by (simp add: rawset_def luaH_set_def luaH_set_by_def luaH_get_def get_generic_def small_table_def
        chain_def mainposition_def sizenode_def twoto_eq hashpow2_def nilnode_def NEWKEY_FUEL_def
        numeral_2_eq_2 rawget_def)
  have live: "live (BOOLEAN b)" for b by (simp add: live_def)
  from luaH_set_updates [OF small_table_ok live t'(1)] live t' show ?thesis
    by (auto simp: rawequal_iff)
qed

text \<open>C3: assignment always comes to an end, with a slot or one of the three errors of the code:
  no chain leads to a null pointer and the recursion \<open>newkey\<close>, \<open>rehash\<close>, \<open>resize\<close>,
  \<open>luaH_set\<close>, \<open>newkey\<close> is at most two deep, since a rehash makes room for every key it
  reinserts and for the new one.\<close>

theorem luaH_set_total:
  assumes "table_ok sh t" "k \<noteq> NIL \<longrightarrow> live k" "sizearray t \<le> 2 ^ MAXBITS"
  shows "(\<exists>t' s. luaH_set sh t k = Inr (t', s) \<and> sizearray t' \<le> 2 ^ MAXBITS) \<or>
    luaH_set sh t k \<in> Inl ` RunError ` {''table overflow'', ''table index is nil'', ''table index is NaN''}"
proof (cases "luaH_get sh t k")
  case None
  let ?t = "t\<lparr>flags := 0\<rparr>"
  have eq: "luaH_set sh t k = (if k = NIL then Inl (RunError ''table index is nil'')
      else if (case k of NUMBER n \<Rightarrow> luai_numisnan n | _ \<Rightarrow> False) then Inl (RunError ''table index is NaN'')
      else newkey sh (Suc (Suc 0)) ?t k)"
    using None unfolding luaH_set_def luaH_set_by_def NEWKEY_FUEL_def numeral_2_eq_2 by (simp add: Let_def)
  show ?thesis
  proof (cases "valid_key k")
    case True
    have "\<not> holds_key ?t s k" for s
      using None get_none [OF assms(1) True] by (simp add: newkey.flags_holds)
    moreover have "sizearray ?t \<le> 2 ^ MAXBITS" using assms(3) by (simp add: sizearray_def)
    moreover have "luaH_set sh t k = newkey sh (Suc (Suc 0)) ?t k"
      using eq True by (auto simp: valid_key_iff split: TValue.splits)
    ultimately show ?thesis
      using newkey_fuel [of sh ?t k 0] assms(1) True unfolding newkey.flags_ok by auto
  next
    case False
    with assms(2) have "k = NIL \<or> (case k of NUMBER n \<Rightarrow> luai_numisnan n | _ \<Rightarrow> False)"
      by (auto simp: valid_key_iff split: TValue.splits)
    then show ?thesis unfolding eq by auto
  qed
next
  case (Some s)
  then have "luaH_set sh t k = Inr (t\<lparr>flags := 0\<rparr>, s)" by (simp add: luaH_set_def luaH_set_by_def)
  with assms(3) show ?thesis by (simp add: sizearray_def)
qed

theorem luaH_set_total_witness:
  "(\<exists>t' s. luaH_set (\<lambda>_. 0) small_table (BOOLEAN True) = Inr (t', s) \<and> sizearray t' \<le> 2 ^ MAXBITS) \<or>
    luaH_set (\<lambda>_. 0) small_table (BOOLEAN True) \<in>
      Inl ` RunError ` {''table overflow'', ''table index is nil'', ''table index is NaN''}"
  by (rule luaH_set_total [OF small_table_ok]) (simp_all add: live_def small_table_def sizearray_def)

text \<open>The specialised searches agree with the general one: on a well-formed table
  \<open>luaH_getnum\<close> finds for every int what \<open>luaH_get\<close> finds for that number, and \<open>luaH_getstr\<close>
  what it finds for that string.\<close>

theorem luaH_get_specialised:
  assumes "table_ok sh t" "is_int32 i"
  shows "luaH_getnum t i = luaH_get sh t (NUMBER (cast_num i)) \<and>
    luaH_getstr sh t p = luaH_get sh t (STRING p)"
proof
  show "luaH_getnum t i = luaH_get sh t (NUMBER (cast_num i))"
    using getnum_spec [OF assms] get_spec [OF assms(1) valid_cast_num [OF assms(2)]]
    by (metis not_Some_eq)
  show "luaH_getstr sh t p = luaH_get sh t (STRING p)" by (simp add: luaH_get_def)
qed

theorem luaH_get_specialised_witness:
  "luaH_getnum small_table 3 = luaH_get (\<lambda>_. 7) small_table (NUMBER (cast_num 3)) \<and>
    luaH_getstr (\<lambda>_. 7) small_table 16 = luaH_get (\<lambda>_. 7) small_table (STRING 16)"
  by (rule luaH_get_specialised [OF small_table_ok]) (simp add: is_int32_def)

text \<open>C6: a new table is well formed and empty, and growing the array part
  (\<open>luaH_resizearray\<close>, as \<open>OP_SETLIST\<close> calls it) always succeeds, gives the size asked for, keeps
  the invariant and changes no entry although it moves integer keys out of the hash part.\<close>

theorem luaH_resizearray_grows:
  assumes "table_ok sh t" "sizearray t \<le> nasize" "nasize < 2 ^ 31"
  shows "\<exists>t'. luaH_resizearray sh t nasize = Inr t' \<and> table_ok sh t' \<and> sizearray t' = nasize \<and>
    (\<forall>k. live k \<longrightarrow> rawget sh t' k = rawget sh t k)"
proof -
  let ?nh = "if isdummy t then 0 else sizenode t"
  note D = table_okD [OF assms(1)]
  have len: "length (node t) = 2 ^ lsizenode t" using D(3) by (simp add: sizenode_def twoto_eq)
  have "hash_bound nasize (node t) (length (node t)) \<le> length (node t)"
    unfolding hash_bound_def using length_filter_le [of _ "[0 ..< length (node t)]"] by simp
  moreover have "hash_bound nasize (node t) (length (node t)) = 0" if "isdummy t"
    using D(6) [OF that] by (simp add: hash_bound_def nilnode_def)
  ultimately have need: "leftover t nasize \<le> ?nh" using assms(2) D(3) by (simp add: leftover_def)
  have "2 ^ lsizenode t \<le> (2 :: nat) ^ 26" using D(4) by (intro power_increasing) (auto simp: MAXBITS_def)
  then have small: "?nh < 2 ^ 32" using len D(3) by simp
  have exact: "nat (ceillog2 (of_nat ?nh)) \<le> MAXBITS" if "?nh \<noteq> 0"
  proof -
    have "of_nat ?nh = (2 ^ lsizenode t :: u32)" using that len D(3) by (simp split: if_splits)
    moreover have "lsizenode t < 32" using D(4) by (simp add: MAXBITS_def)
    ultimately show ?thesis using ceillog2_power_of_two D(4) by simp
  qed
  obtain t' where t': "luaH_resizearray sh t nasize = Inr t'" "sizearray t' = nasize"
    using newkey_room.resize_by_total [OF assms(1,3) small need, of "Suc 0"] exact
    unfolding luaH_resizearray_def NEWKEY_FUEL_def numeral_2_eq_2 Let_def by fastforce
  moreover have P: "table_ok sh t' \<and> tset t' = tset t"
    using newkey.resize_by_post [OF t'(1) [unfolded luaH_resizearray_def Let_def] assms(1,3)] by blast
  moreover have "rawget sh t' k = rawget sh t k" if "live k" for k
  proof (cases "valid_key k")
    case True
    then show ?thesis
      using rawget_tset [OF _ True, of sh t' "rawget sh t k"] rawget_tset [OF assms(1) True, of "rawget sh t k"] P
      by simp
  qed (simp add: rawget_invalid that)
  ultimately show ?thesis by blast
qed

theorem luaH_resizearray_grows_witness:
  "\<exists>t'. luaH_resizearray (\<lambda>_. 0) small_table 4 = Inr t' \<and> sizearray t' = 4"
  using luaH_resizearray_grows [OF small_table_ok, of 4] by (auto simp: small_table_def sizearray_def)

section \<open>The length is a boundary\<close>

lemma binary_search_spec:
  assumes "absent j" "i < j" "unat j < 2 ^ 31" "unat j - unat i \<le> 2 ^ f"
  shows "\<exists>r. binary_search absent (Suc f) i j = Inr r \<and> i \<le> r \<and> r < j \<and> (r = i \<or> \<not> absent r) \<and> absent (r + 1)"
  using assms
proof (induction f arbitrary: i j)
  case 0
  have u: "unat (j - i) = unat j - unat i" using 0(2) by (simp add: unat_sub)
  have "unat j = unat i + 1" using 0(2,4) by (simp add: word_less_nat_alt)
  then have "unat (i + 1) = unat j" using 0(3) by (simp add: unat_word_ariths)
  then have "i + 1 = j" by (simp only: word_unat_eq_iff)
  with 0 u show ?case by (auto simp: word_less_nat_alt word_le_nat_alt)
next
  case (Suc f)
  have u: "unat (j - i) = unat j - unat i" using Suc.prems(2) by (simp add: unat_sub)
  show ?case
  proof (cases "j - i > 1")
    case False
    then have "unat j = unat i + 1" using Suc.prems(2) u by (simp add: word_less_nat_alt)
    then have "unat (i + 1) = unat j" using Suc.prems(3) by (simp add: unat_word_ariths)
    then have "i + 1 = j" by (simp only: word_unat_eq_iff)
    with False Suc.prems show ?thesis by auto
  next
    case True
    let ?m = "(i + j) div 2"
    have m: "unat ?m = (unat i + unat j) div 2"
      using Suc.prems(2,3) by (simp add: unat_div unat_word_ariths word_less_nat_alt)
    have gap: "unat i + 1 < unat j" using True u Suc.prems(2) by (simp add: word_less_nat_alt)
    have half: "unat j - unat i \<le> 2 * 2 ^ f" using Suc.prems(4) by simp
    show ?thesis
    proof (cases "absent ?m")
      case a: True
      have "\<exists>r. binary_search absent (Suc f) i ?m = Inr r \<and> i \<le> r \<and> r < ?m \<and> (r = i \<or> \<not> absent r) \<and> absent (r + 1)"
        using a m gap half Suc.prems(3) by (intro Suc.IH) (auto simp: word_less_nat_alt)
      moreover have "?m < j" using m gap by (simp add: word_less_nat_alt)
      ultimately show ?thesis using True a by (auto intro: order_less_trans)
    next
      case a: False
      have "\<exists>r. binary_search absent (Suc f) ?m j = Inr r \<and> ?m \<le> r \<and> r < j \<and> (r = ?m \<or> \<not> absent r) \<and> absent (r + 1)"
      proof (rule Suc.IH [OF Suc.prems(1)])
        show "?m < j" using m gap by (simp add: word_less_nat_alt)
        show "unat j < 2 ^ 31" by fact
        show "unat j - unat ?m \<le> 2 ^ f" using m gap half by auto
      qed
      moreover have "i \<le> ?m" using m gap by (simp add: word_le_nat_alt)
      ultimately show ?thesis using True a by (auto intro: order_trans)
    qed
  qed
qed

definition present :: "(addr \<Rightarrow> u32) \<Rightarrow> Table \<Rightarrow> int \<Rightarrow> bool" where
  "present sh t k \<longleftrightarrow> rawget sh t (NUMBER (cast_num k)) \<noteq> NIL"

lemma getnum_get: "table_ok sh t \<Longrightarrow> is_int32 k \<Longrightarrow> luaH_getnum t k = luaH_get sh t (NUMBER (cast_num k))"
  using getnum_spec [of sh t k] get_spec [of sh t "NUMBER (cast_num k)"] valid_cast_num [of k]
  by (metis not_Some_eq)

lemma sint_small: "uint (j :: u32) < 2 ^ 31 \<Longrightarrow> sint j = uint j"
proof -
  assume j: "uint j < 2 ^ 31"
  have "signed_take_bit 31 (uint j) = uint j"
    by (rule signed_take_bit_int_eq_self) (use j in \<open>auto intro: order_trans [OF _ uint_ge_0]\<close>)
  then show ?thesis by (simp add: sint_uint)
qed

lemma getnum_nil_iff:
  assumes "table_ok sh t" "uint j < 2 ^ 31"
  shows "getnum_nil t j \<longleftrightarrow> \<not> present sh t (uint j)"
proof -
  have "- (2 ^ 31) \<le> uint j" by (rule order_trans [OF _ uint_ge_0]) simp
  then have "is_int32 (uint j)" using assms(2) by (simp add: is_int32_def)
  from getnum_get [OF assms(1) this] show ?thesis
    by (simp add: getnum_nil_def present_def rawget_def sint_small [OF assms(2)])
qed

lemma present_bound:
  assumes ok: "table_ok sh t" and all: "\<And>k. 1 \<le> k \<Longrightarrow> k \<le> int n \<Longrightarrow> present sh t k" and n: "n < 2 ^ 31"
  shows "n \<le> sizearray t + length (node t)"
proof -
  let ?K = "\<lambda>k. NUMBER (cast_num (int k))"
  have valid: "valid_key (?K k)" "is_int32 (int k)" if "k \<in> {1..n}" for k
    using that n by (auto intro: valid_cast_num simp: is_int32_def)
  define S where "S k = the (luaH_get sh t (?K k))" for k
  have hold: "holds_key t (S k) (?K k)" if "k \<in> {1..n}" for k
  proof -
    have "luaH_get sh t (?K k) \<noteq> None"
    proof
      assume "luaH_get sh t (?K k) = None"
      with all [of "int k"] that show False by (simp add: present_def rawget_def)
    qed
    then obtain s where s: "luaH_get sh t (?K k) = Some s" by blast
    then have "S k = s" by (simp add: S_def)
    with get_spec [OF ok valid(1) [OF that], of s] s show ?thesis by simp
  qed
  have "inj_on S {1..n}"
  proof (rule inj_onI)
    fix a b assume ab: "a \<in> {1..n}" "b \<in> {1..n}" "S a = S b"
    then have "luaO_rawequalObj (?K a) (?K b)"
      using slot_key_unique [OF hold [OF ab(1)] _ valid(1) [OF ab(1)]] hold [OF ab(2)] ab(3) by simp
    then show "a = b" using valid(2) ab by (simp add: rawequal_iff cast_num_numeq)
  qed
  moreover have "S ` {1..n} \<subseteq> ArrSlot ` {..<sizearray t} \<union> NodeSlot ` {..<length (node t)}"
  proof
    fix x assume "x \<in> S ` {1..n}"
    then obtain k where "k \<in> {1..n}" "x = S k" by blast
    with hold [of k] have "holds_key t x (?K k)" by blast
    then show "x \<in> ArrSlot ` {..<sizearray t} \<union> NodeSlot ` {..<length (node t)}"
      by (cases x) auto
  qed
  ultimately have "card {1..n} \<le> card (ArrSlot ` {..<sizearray t} \<union> NodeSlot ` {..<length (node t)})"
    by (intro card_inj_on_le) auto
  also have "\<dots> \<le> sizearray t + length (node t)"
    by (rule order_trans [OF card_Un_le]) (intro add_mono order_trans [OF card_image_le]; simp)
  finally show ?thesis by simp
qed

lemma linear_search_spec:
  assumes ok: "table_ok sh t" and small: "sizearray t + length (node t) < 2 ^ 30"
    and before: "\<And>k. 1 \<le> k \<Longrightarrow> k < uint i \<Longrightarrow> present sh t k" and i: "0 < uint i"
    and f: "int (sizearray t + length (node t)) + 2 \<le> int f + uint i"
      "uint i \<le> int (sizearray t + length (node t)) + 1"
  shows "\<exists>r. linear_search t f i = Inr r \<and> uint r < 2 ^ 30 \<and> (r = 0 \<or> present sh t (uint r)) \<and>
    \<not> present sh t (uint r + 1)"
  using before i f
proof (induction f arbitrary: i)
  case 0
  then show ?case by simp
next
  case (Suc f)
  have lt: "uint i < 2 ^ 31" using Suc.prems(4) small by simp
  show ?case
  proof (cases "getnum_nil t i")
    case True
    have p: "uint (i - 1) = uint i - 1"
      using Suc.prems(2) by (simp add: uint_sub_if' )
    have "i - 1 = 0 \<or> present sh t (uint (i - 1))"
    proof (cases "uint i = 1")
      case True
      then have "uint (i - 1) = uint (0 :: u32)" using p by simp
      then show ?thesis by (simp only: word_uint_eq_iff) simp
    next
      case False
      then show ?thesis using Suc.prems(1) [of "uint i - 1"] Suc.prems(2) p by simp
    qed
    moreover have "\<not> present sh t (uint (i - 1) + 1)" using True getnum_nil_iff [OF ok lt] p by simp
    moreover have "uint (i - 1) < 2 ^ 30" using p Suc.prems(4) small by simp
    ultimately show ?thesis using True by simp
  next
    case False
    then have here: "present sh t (uint i)" using getnum_nil_iff [OF ok lt] by simp
    have next_i: "uint (i + 1) = uint i + 1" using lt by (simp add: uint_word_ariths)
    have all: "present sh t k" if "1 \<le> k" "k \<le> uint i" for k
      using Suc.prems(1) [of k] that here by (cases "k = uint i") auto
    obtain n where n: "uint i = int n" using uint_ge_0 nonneg_int_cases by blast
    have "n \<le> sizearray t + length (node t)"
      by (rule present_bound [OF ok]) (use all lt in \<open>simp_all add: n\<close>)
    then have "uint i \<le> int (sizearray t + length (node t))" unfolding n by simp
    then have "\<exists>r. linear_search t f (i + 1) = Inr r \<and> uint r < 2 ^ 30 \<and> (r = 0 \<or> present sh t (uint r)) \<and>
        \<not> present sh t (uint r + 1)"
      using Suc.prems all next_i by (intro Suc.IH) auto
    with False show ?thesis by simp
  qed
qed

lemma doubling_search_spec:
  assumes ok: "table_ok sh t" and small: "sizearray t + length (node t) < 2 ^ 30"
    and inv: "i = 0 \<or> present sh t (uint i)" "uint i < uint j" "uint j \<le> MAX_INT" "2 ^ 33 \<le> 2 ^ f * uint j"
  shows "(\<exists>r. doubling_search t f i j = Inr (Inl r) \<and> uint r < 2 ^ 31 \<and> (r = 0 \<or> present sh t (uint r)) \<and>
      \<not> present sh t (uint r + 1)) \<or>
    (\<exists>i' j'. doubling_search t f i j = Inr (Inr (i', j')) \<and> uint i' < uint j' \<and> uint j' \<le> MAX_INT \<and>
      (i' = 0 \<or> present sh t (uint i')) \<and> \<not> present sh t (uint j'))"
  using inv
proof (induction f arbitrary: i j)
  case 0
  then show ?case by simp
next
  case (Suc f)
  have lt: "uint j < 2 ^ 31" using Suc.prems(3) by simp
  show ?case
  proof (cases "getnum_nil t j")
    case True
    then show ?thesis using getnum_nil_iff [OF ok lt] Suc.prems by auto
  next
    case False
    then have here: "present sh t (uint j)" using getnum_nil_iff [OF ok lt] by simp
    have dbl: "uint (j * 2) = uint j * 2" using lt by (simp add: uint_word_ariths)
    show ?thesis
    proof (cases "j * 2 > (word_of_int MAX_INT :: u32)")
      case True
      have "\<exists>r. linear_search t (sizearray t + length (node t) + 1) 1 = Inr r \<and> uint r < 2 ^ 30 \<and>
          (r = 0 \<or> present sh t (uint r)) \<and> \<not> present sh t (uint r + 1)"
        by (rule linear_search_spec [OF ok small]) simp_all
      then show ?thesis using False True by fastforce
    next
      case le: False
      then have "uint (j * 2) \<le> MAX_INT" by (simp add: word_less_def not_less)
      moreover have "(2::int) ^ 33 \<le> 2 ^ f * uint (j * 2)" using Suc.prems(4) dbl by (simp add: mult.assoc)
      ultimately have "(\<exists>r. doubling_search t f j (j * 2) = Inr (Inl r) \<and> uint r < 2 ^ 31 \<and>
          (r = 0 \<or> present sh t (uint r)) \<and> \<not> present sh t (uint r + 1)) \<or>
        (\<exists>i' j'. doubling_search t f j (j * 2) = Inr (Inr (i', j')) \<and> uint i' < uint j' \<and> uint j' \<le> MAX_INT \<and>
          (i' = 0 \<or> present sh t (uint i')) \<and> \<not> present sh t (uint j'))"
        using here dbl order_le_less_trans [OF uint_ge_0 Suc.prems(2)] by (intro Suc.IH) auto
      with False le show ?thesis by simp
    qed
  qed
qed

lemma arr_present:
  assumes "table_ok sh t" "i < sizearray t"
  shows "present sh t (int i + 1) \<longleftrightarrow> array t ! i \<noteq> NIL"
proof -
  have i: "is_int32 (int i + 1)" using assms table_okD(5) [OF assms(1)] by (simp add: is_int32_def)
  then have "luaH_get sh t (NUMBER (cast_num (int i + 1))) = Some (ArrSlot i)"
    using get_spec [OF assms(1) valid_cast_num [OF i]] assms(2) by simp
  then show ?thesis by (simp add: present_def rawget_def)
qed

lemma absent_word:
  assumes "i < j" "uint (j :: u32) < 2 ^ 31" shows "uint (i + 1) = uint i + 1"
  using assms by (simp add: uint_word_ariths word_less_def)

lemma unbound_search_boundary:
  assumes ok: "table_ok sh t" and small: "sizearray t + length (node t) < 2 ^ 30"
    and j: "j = 0 \<or> present sh t (uint j)" "uint j < MAX_INT"
  shows "\<exists>r. unbound_search t j = Inr r \<and> uint r < 2 ^ 31 \<and> (r = 0 \<or> present sh t (uint r)) \<and>
    \<not> present sh t (uint r + 1)"
proof -
  have j1: "uint (j + 1) = uint j + 1" using j(2) by (simp add: uint_word_ariths)
  have "(2 :: int) ^ 33 \<le> 2 ^ 33 * uint (j + 1)" using j1 by simp
  then have "(\<exists>r. doubling_search t 33 j (j + 1) = Inr (Inl r) \<and> uint r < 2 ^ 31 \<and>
      (r = 0 \<or> present sh t (uint r)) \<and> \<not> present sh t (uint r + 1)) \<or>
    (\<exists>i' j'. doubling_search t 33 j (j + 1) = Inr (Inr (i', j')) \<and> uint i' < uint j' \<and> uint j' \<le> MAX_INT \<and>
      (i' = 0 \<or> present sh t (uint i')) \<and> \<not> present sh t (uint j'))"
    using j j1 by (intro doubling_search_spec [OF ok small]) auto
  then show ?thesis
  proof
    assume "\<exists>r. doubling_search t 33 j (j + 1) = Inr (Inl r) \<and> uint r < 2 ^ 31 \<and>
      (r = 0 \<or> present sh t (uint r)) \<and> \<not> present sh t (uint r + 1)"
    then show ?thesis by (auto simp: unbound_search_def)
  next
    assume "\<exists>i' j'. doubling_search t 33 j (j + 1) = Inr (Inr (i', j')) \<and> uint i' < uint j' \<and>
      uint j' \<le> MAX_INT \<and> (i' = 0 \<or> present sh t (uint i')) \<and> \<not> present sh t (uint j')"
    then obtain a b where ab: "doubling_search t 33 j (j + 1) = Inr (Inr (a, b))" "a < b"
      "uint b \<le> MAX_INT" "a = 0 \<or> present sh t (uint a)" "\<not> present sh t (uint b)"
      by (auto simp: word_less_def)
    have lt: "uint b < 2 ^ 31" using ab(3) by simp
    have nb: "unat b < 2 ^ 31"
    proof -
      have "int (unat b) < int (2 ^ 31)" using lt by simp
      then show ?thesis by (simp only: of_nat_less_iff)
    qed
    have "getnum_nil t b" using getnum_nil_iff [OF ok lt] ab(5) by simp
    moreover have "unat b - unat a \<le> 2 ^ 32" 
    proof -
      have "unat b - unat a \<le> unat b" by simp
      also have "\<dots> \<le> 2 ^ 31" using nb by (rule less_imp_le)
      finally show ?thesis by simp
    qed
    ultimately obtain r where r: "binary_search (getnum_nil t) (Suc 32) a b = Inr r" "a \<le> r" "r < b"
      "r = a \<or> \<not> getnum_nil t r" "getnum_nil t (r + 1)"
      using binary_search_spec [OF _ ab(2) nb] by blast
    have ur: "uint r < 2 ^ 31" "uint (r + 1) = uint r + 1" "uint (r + 1) < 2 ^ 31"
      using r(3) lt absent_word [OF r(3) lt] by (simp_all add: word_less_def)
    have "r = 0 \<or> present sh t (uint r)" using r(4) ab(4) getnum_nil_iff [OF ok ur(1)] by blast
    moreover have "\<not> present sh t (uint r + 1)" using r(5) getnum_nil_iff [OF ok ur(3)] ur(2) by simp
    ultimately show ?thesis using ab(1) r(1) ur(1) by (simp add: unbound_search_def)
  qed
qed

text \<open>C4: the length operator always returns, and returns a boundary: 0 or an index with a value,
  whose successor has none. This covers the binary search in the array part, the doubling
  search in the hash part and its linear fall-back for tables built to defeat it; the fuel of
  the three searches is enough for every table of fewer than \<open>2\<^sup>3\<^sup>0\<close> slots.\<close>

theorem luaH_getn_boundary:
  assumes "table_ok sh t" "sizearray t + length (node t) < 2 ^ 30"
  shows "\<exists>n. luaH_getn t = Inr n \<and> 0 \<le> n \<and>
    (n = 0 \<or> rawget sh t (NUMBER (cast_num n)) \<noteq> NIL) \<and> rawget sh t (NUMBER (cast_num (n + 1))) = NIL"
proof -
  let ?j = "of_nat (sizearray t) :: u32"
  have uj: "uint ?j = int (sizearray t)" "unat ?j = sizearray t"
    using assms(2) by (simp_all add: unsigned_of_nat take_bit_nat_eq_self)
  have main: "\<exists>n. luaH_getn t = Inr n \<and> 0 \<le> n \<and> (n = 0 \<or> present sh t n) \<and> \<not> present sh t (n + 1)"
    if "\<exists>r :: u32. luaH_getn t = Inr (sint r) \<and> uint r < 2 ^ 31 \<and> (r = 0 \<or> present sh t (uint r)) \<and>
      \<not> present sh t (uint r + 1)"
  proof -
    from that obtain r :: u32 where r: "luaH_getn t = Inr (sint r)" "uint r < 2 ^ 31"
      "r = 0 \<or> present sh t (uint r)" "\<not> present sh t (uint r + 1)" by blast
    with sint_small [OF r(2)] show ?thesis by (intro exI [of _ "uint r"]) auto
  qed
  have "\<exists>n. luaH_getn t = Inr n \<and> 0 \<le> n \<and> (n = 0 \<or> present sh t n) \<and> \<not> present sh t (n + 1)"
  proof (cases "?j > 0 \<and> array t ! (unat ?j - 1) = NIL")
    case True
    let ?absent = "\<lambda>middle :: u32. array t ! (unat middle - 1) = NIL"
    have "unat ?j < 2 ^ 31" "unat ?j - unat (0 :: u32) \<le> 2 ^ 32" using uj assms(2) by simp_all
    then obtain r where r: "binary_search ?absent (Suc 32) 0 ?j = Inr r" "r < ?j"
      "r = 0 \<or> \<not> ?absent r" "?absent (r + 1)"
      using binary_search_spec [of ?absent ?j 0 32] True by auto
    have ur: "uint (r + 1) = uint r + 1" using absent_word [OF r(2)] uj assms(2) by simp
    obtain i where i: "uint r = int i" "i < sizearray t"
      using r(2) uj nonneg_int_cases [OF uint_ge_0, of r] by (auto simp: word_less_def)
    have nat_r: "unat r = i" "unat (r + 1) = i + 1"
      using i ur by (simp_all add: unat_eq_nat_uint nat_add_distrib)
    have "\<not> present sh t (uint r + 1)" using r(4) arr_present [OF assms(1) i(2)] nat_r i(1) by simp
    moreover have "r = 0 \<or> present sh t (uint r)"
    proof (cases "i = 0")
      case True
      then have "uint r = uint (0 :: u32)" using i by simp
      then show ?thesis by (simp only: word_uint_eq_iff) simp
    next
      case False
      then have "array t ! (i - 1) \<noteq> NIL" using r(3) nat_r by auto
      then show ?thesis using arr_present [OF assms(1), of "i - 1"] i False by simp
    qed
    moreover have "luaH_getn t = Inr (sint r)" using True r(1) by (simp add: luaH_getn_def Let_def)
    ultimately show ?thesis using i assms(2) by (intro main) auto
  next
    case False
    have here: "?j = 0 \<or> present sh t (uint ?j)"
    proof (cases "sizearray t = 0")
      case False
      then have "0 < unat ?j" using uj by simp
      then have "array t ! (sizearray t - 1) \<noteq> NIL" using \<open>\<not> (?j > 0 \<and> array t ! (unat ?j - 1) = NIL)\<close> uj
        by (auto simp: word_less_nat_alt)
      then show ?thesis using arr_present [OF assms(1), of "sizearray t - 1"] False uj by simp
    qed simp
    show ?thesis
    proof (cases "isdummy t")
      case True
      have "\<not> present sh t (int (sizearray t) + 1)"
      proof -
        have i: "is_int32 (int (sizearray t) + 1)" using assms(2) by (simp add: is_int32_def)
        have "\<not> holds_key t s (NUMBER (cast_num (int (sizearray t) + 1)))" for s
          using table_okD(6) [OF assms(1) True] i by (cases s) (auto simp: nilnode_def)
        then have "luaH_get sh t (NUMBER (cast_num (int (sizearray t) + 1))) = None"
          using get_none [OF assms(1) valid_cast_num [OF i]] by blast
        then show ?thesis by (simp add: present_def rawget_def)
      qed
      moreover have "luaH_getn t = Inr (sint ?j)" 
        unfolding luaH_getn_def Let_def if_not_P [OF False] if_P [OF True] ..
      ultimately show ?thesis using here uj assms(2) by (intro main) auto
    next
      case hash: False
      have "uint ?j < MAX_INT" using uj assms(2) by simp
      from unbound_search_boundary [OF assms here this] obtain r where
        r: "unbound_search t ?j = Inr r" "uint r < 2 ^ 31" "r = 0 \<or> present sh t (uint r)"
        "\<not> present sh t (uint r + 1)" by blast
      then have "luaH_getn t = Inr (sint r)"
        unfolding luaH_getn_def Let_def if_not_P [OF False] if_not_P [OF hash] by simp
      with r show ?thesis by (intro main exI [of _ r]) auto
    qed
  qed
  then show ?thesis by (simp add: present_def)
qed

theorem luaH_getn_boundary_witness:
  "\<exists>n. luaH_getn small_table = Inr n \<and> 0 \<le> n \<and>
    (n = 0 \<or> rawget (\<lambda>_. 0) small_table (NUMBER (cast_num n)) \<noteq> NIL) \<and>
    rawget (\<lambda>_. 0) small_table (NUMBER (cast_num (n + 1))) = NIL"
  by (rule luaH_getn_boundary [OF small_table_ok]) (simp add: small_table_def sizearray_def)

section \<open>Traversal\<close>

text \<open>Positions number the array slots and then the nodes.\<close>

definition pos_key :: "Table \<Rightarrow> nat \<Rightarrow> TValue" where
  "pos_key t p = (if p < sizearray t then NUMBER (cast_num (int p + 1)) else i_key (node t ! (p - sizearray t)))"

definition pos_val :: "Table \<Rightarrow> nat \<Rightarrow> TValue" where
  "pos_val t p = (if p < sizearray t then array t ! p else i_val (node t ! (p - sizearray t)))"

definition positions :: "Table \<Rightarrow> nat \<Rightarrow> nat list" where
  "positions t i = filter (\<lambda>p. pos_val t p \<noteq> NIL) [i ..< sizearray t + length (node t)]"

definition entries :: "Table \<Rightarrow> (TValue \<times> TValue) list" where
  "entries t = map (\<lambda>p. (pos_key t p, pos_val t p)) (positions t 0)"

lemma find_hd_filter: "find P xs = (case filter P xs of [] \<Rightarrow> None | x # _ \<Rightarrow> Some x)"
  by (induction xs) auto

lemma find_shift: "find (\<lambda>p. P (p - n)) [n + a ..< n + b] = map_option (\<lambda>i. n + i) (find P [a ..< b])"
proof -
  have "[n + a ..< n + b] = map (\<lambda>i. i + n) [a ..< b]" by (induction b) auto
  moreover have "find Q (map f xs) = map_option f (find (\<lambda>x. Q (f x)) xs)" for Q and f :: "nat \<Rightarrow> nat" and xs
    by (induction xs) auto
  ultimately show ?thesis by (simp add: add.commute)
qed

text \<open>The two scans of \<open>luaH_next\<close> are one scan over the positions.\<close>

lemma next_scan:
  assumes "table_ok sh t" "findindex sh t key = Inr i0" "0 \<le> i0 + 1"
  shows "luaH_next sh t key = Inr (case positions t (nat (i0 + 1)) of [] \<Rightarrow> None
    | p # _ \<Rightarrow> Some (pos_key t p, pos_val t p))"
proof -
  define i n m where "i = nat (i0 + 1)" and "n = sizearray t" and "m = length (node t)"
  have m: "sizenode t = m" using table_okD(3) [OF assms(1)] by (simp add: m_def)
  let ?P = "\<lambda>p. pos_val t p \<noteq> NIL"
  have arr: "find (\<lambda>i. array t ! i \<noteq> NIL) [i ..< n] = find ?P [i ..< n]"
    by (rule find_cong) (auto simp: pos_val_def n_def)
  have "find ?P [max i n ..< n + m] = find (\<lambda>p. i_val (node t ! (p - n)) \<noteq> NIL) [n + (max i n - n) ..< n + m]"
    by (rule find_cong) (auto simp: pos_val_def n_def)
  then have nodes: "find ?P [max i n ..< n + m] =
      map_option (\<lambda>i. n + i) (find (\<lambda>i. i_val (node t ! i) \<noteq> NIL) [max i n - n ..< m])"
    using find_shift [of "\<lambda>i. i_val (node t ! i) \<noteq> NIL" n "max i n - n" m] by simp
  have split: "find ?P [i ..< n + m] =
      (case find ?P [i ..< n] of None \<Rightarrow> find ?P [max i n ..< n + m] | Some p \<Rightarrow> Some p)"
  proof (cases "i \<le> n")
    case True
    then have "[i ..< n + m] = [i ..< n] @ [n ..< n + m]" by (rule upt_add_eq_append)
    moreover have "find Q (xs @ ys) = (case find Q xs of None \<Rightarrow> find Q ys | Some x \<Rightarrow> Some x)" for Q and xs ys :: "nat list"
      by (induction xs) auto
    moreover have "max i n = n" using True by (rule max_absorb2)
    ultimately show ?thesis by (simp only:)
  next
    case False
    then show ?thesis by (simp add: max_def)
  qed
  have in_range: "p < n" if "find ?P [i ..< n] = Some p" for p
    using that by (auto simp: find_Some_iff)
  have lhs: "luaH_next sh t key = Inr (map_option (\<lambda>p. (pos_key t p, pos_val t p)) (find ?P [i ..< n + m]))"
  proof (cases "find ?P [i ..< n]")
    case None
    let ?f = "find (\<lambda>i. i_val (node t ! i) \<noteq> NIL) [max i n - n ..< m]"
    have "luaH_next sh t key = (case ?f of Some i \<Rightarrow> Inr (Some (i_key (node t ! i), i_val (node t ! i)))
        | None \<Rightarrow> Inr None)"
      unfolding luaH_next_def assms(2) seqR.simps Let_def m i_def [symmetric] n_def [symmetric] arr None by simp
    moreover have "find ?P [i ..< n + m] = map_option (\<lambda>i. n + i) ?f"
      unfolding split None nodes by simp
    ultimately show ?thesis by (cases ?f) (simp_all add: pos_key_def pos_val_def n_def)
  next
    case (Some p)
    have "luaH_next sh t key = Inr (Some (NUMBER (cast_num (int p + 1)), array t ! p))"
      unfolding luaH_next_def assms(2) seqR.simps Let_def m i_def [symmetric] n_def [symmetric] arr Some by simp
    moreover have "find ?P [i ..< n + m] = Some p" unfolding split Some by simp
    ultimately show ?thesis using in_range [OF Some] by (simp add: pos_key_def pos_val_def n_def)
  qed
  have "find ?P [i ..< n + m] = (case positions t i of [] \<Rightarrow> None | p # _ \<Rightarrow> Some p)"
    unfolding find_hd_filter positions_def n_def m_def ..
  then show ?thesis unfolding lhs i_def [symmetric] by (auto split: list.splits)
qed

text \<open>No dead key has the address of a live one: what the collector leaves behind until the
  address is used again.\<close>

definition no_stale :: "Table \<Rightarrow> bool" where
  "no_stale t \<longleftrightarrow> (\<forall>i < length (node t). \<forall>j < length (node t).
     ttype (i_key (node t ! i)) = 11 \<longrightarrow> live (i_key (node t ! j)) \<longrightarrow> iscollectable (i_key (node t ! j)) \<longrightarrow>
     gcvalue (i_key (node t ! i)) \<noteq> gcvalue (i_key (node t ! j)))"

lemma findindex_pos:
  assumes ok: "table_ok sh t" and stale: "no_stale t" and p: "p < sizearray t + length (node t)" "pos_val t p \<noteq> NIL"
  shows "findindex sh t (pos_key t p) = Inr (int p)"
proof (cases "p < sizearray t")
  case True
  then have "is_int32 (int p + 1)" using table_okD(5) [OF ok] by (simp add: is_int32_def)
  with True show ?thesis by (simp add: findindex_def pos_key_def Let_def)
next
  case False
  define i where "i = p - sizearray t"
  define k where "k = i_key (node t ! i)"
  have i: "i < length (node t)" "i_val (node t ! i) \<noteq> NIL" "pos_key t p = k"
    using False p by (auto simp: i_def pos_val_def pos_key_def k_def)
  have live: "live k" using used_node_live [OF table_okD(2) [OF ok] i(1,2)] by (simp add: k_def)
  then have valid: "valid_key k" using keys_okD(1) [OF table_okD(2) [OF ok] i(1)] by (simp add: k_def)
  have out: "\<not> (0 < arrayindex k \<and> arrayindex k \<le> int (sizearray t))"
    using table_okD(10) [OF ok live_keysI [OF i(1)]] live by (auto simp: k_def)
  let ?P = "\<lambda>n. luaO_rawequalObj (i_key (node t ! n)) k \<or>
      ttype (i_key (node t ! n)) = 11 \<and> iscollectable k \<and> gcvalue (i_key (node t ! n)) = gcvalue k"
  have P: "?P n \<longleftrightarrow> luaO_rawequalObj (i_key (node t ! n)) k" if "n < length (node t)" for n
    using that stale i(1) live unfolding no_stale_def k_def by blast
  have "find ?P (chain (node t) (mainposition sh (sizenode t) k)) = Some i"
    using mainpos.find_key [OF table_okD(1) [OF ok] table_okD(2) [OF ok, unfolded sizenode_def]
        table_okD(3) [OF ok, unfolded sizenode_def] valid P] i(1) valid
    by (simp add: sizenode_def k_def [symmetric] valid_key_def)
  moreover have "k \<noteq> NIL" using live by auto
  moreover have "int i + int (sizearray t) = int p" using False by (simp add: i_def)
  ultimately show ?thesis using out i(3) by (simp add: findindex_def Let_def)
qed

lemma drop_positions:
  assumes "n < length (positions t 0)"
  shows "positions t (Suc (positions t 0 ! n)) = drop (Suc n) (positions t 0)"
proof -
  define m where "m = sizearray t + length (node t)"
  let ?P = "\<lambda>p. pos_val t p \<noteq> NIL"
  define p where "p = positions t 0 ! n"
  have p: "p < m" "?P p" using nth_mem [OF assms] by (auto simp: p_def positions_def m_def)
  have "[0 ..< m] = [0 ..< p] @ p # [Suc p ..< m]"
    using p(1) by (metis less_imp_le_nat upt_add_eq_append upt_conv_Cons zero_le le_add_diff_inverse)
  then have all: "positions t 0 = filter ?P [0 ..< p] @ p # positions t (Suc p)"
    using p(2) by (simp add: positions_def m_def [symmetric])
  have "distinct (positions t 0)" by (simp add: positions_def)
  moreover have "positions t 0 ! length (filter ?P [0 ..< p]) = p"
    unfolding all by simp
  moreover have "length (filter ?P [0 ..< p]) < length (positions t 0)" by (subst all) simp
  ultimately have "n = length (filter ?P [0 ..< p])"
    using assms by (metis nth_eq_iff_index_eq p_def)
  then show ?thesis unfolding p_def [symmetric] by (subst all) simp
qed

lemma entries_holds:
  assumes ok: "table_ok sh t" and p: "p \<in> set (positions t 0)"
  shows "valid_key (pos_key t p)"
    and "holds_key t (if p < sizearray t then ArrSlot p else NodeSlot (p - sizearray t)) (pos_key t p)"
proof -
  have b: "p < sizearray t + length (node t)" "pos_val t p \<noteq> NIL" using p by (auto simp: positions_def)
  show "valid_key (pos_key t p)"
  proof (cases "p < sizearray t")
    case True
    then show ?thesis using table_okD(5) [OF ok] by (simp add: pos_key_def valid_cast_num is_int32_def)
  next
    case False
    then have i: "p - sizearray t < length (node t)" "i_val (node t ! (p - sizearray t)) \<noteq> NIL"
      using b by (auto simp: pos_val_def)
    have "live (i_key (node t ! (p - sizearray t)))" using used_node_live [OF table_okD(2) [OF ok] i] .
    with False keys_okD(1) [OF table_okD(2) [OF ok] i(1)] show ?thesis by (simp add: pos_key_def)
  qed
  moreover have "is_int32 (int p + 1)" if "p < sizearray t"
    using that table_okD(5) [OF ok] by (simp add: is_int32_def)
  ultimately show "holds_key t (if p < sizearray t then ArrSlot p else NodeSlot (p - sizearray t)) (pos_key t p)"
    using b by (auto simp: pos_key_def valid_key_def)
qed

text \<open>C5: a traversal with \<open>luaH_next\<close> from nil visits every entry exactly once: the keys it yields
  are pairwise different, the entries are exactly the non-nil values of the table, each key leads
  to the next entry and the last one ends the traversal.\<close>

theorem luaH_next_traverses:
  assumes "table_ok sh t" "no_stale t"
  shows "luaH_next sh t NIL = Inr (case entries t of [] \<Rightarrow> None | e # _ \<Rightarrow> Some e) \<and>
    (\<forall>n < length (entries t). luaH_next sh t (fst (entries t ! n)) =
       Inr (if Suc n < length (entries t) then Some (entries t ! Suc n) else None)) \<and>
    (\<forall>i < length (entries t). \<forall>j < length (entries t).
       luaO_rawequalObj (fst (entries t ! i)) (fst (entries t ! j)) \<longrightarrow> i = j) \<and>
    (\<forall>k v. live k \<and> v \<noteq> NIL \<longrightarrow>
       (rawget sh t k = v \<longleftrightarrow> (\<exists>k'. (k', v) \<in> set (entries t) \<and> luaO_rawequalObj k' k)))"
proof (intro conjI allI impI)
  have "findindex sh t NIL = Inr (-1)" by (simp add: findindex_def)
  from next_scan [OF assms(1) this] show "luaH_next sh t NIL = Inr (case entries t of [] \<Rightarrow> None | e # _ \<Rightarrow> Some e)"
    by (auto simp: entries_def split: list.splits)
next
  fix n assume n: "n < length (entries t)"
  let ?p = "positions t 0 ! n"
  have n': "n < length (positions t 0)" using n by (simp add: entries_def)
  then have "?p \<in> set (positions t 0)" by simp
  then have "findindex sh t (pos_key t ?p) = Inr (int ?p)"
    by (intro findindex_pos [OF assms]) (auto simp: positions_def)
  from next_scan [OF assms(1) this] have "luaH_next sh t (pos_key t ?p) =
      Inr (case drop (Suc n) (positions t 0) of [] \<Rightarrow> None | p # _ \<Rightarrow> Some (pos_key t p, pos_val t p))"
    using drop_positions [OF n'] by (simp add: nat_add_distrib)
  moreover have "drop (Suc n) (positions t 0) = (if Suc n < length (positions t 0)
      then positions t 0 ! Suc n # drop (Suc (Suc n)) (positions t 0) else [])"
    by (simp add: Cons_nth_drop_Suc)
  ultimately show "luaH_next sh t (fst (entries t ! n)) =
      Inr (if Suc n < length (entries t) then Some (entries t ! Suc n) else None)"
    using n' by (simp add: entries_def)
next
  fix i j assume ij: "i < length (entries t)" "j < length (entries t)"
    "luaO_rawequalObj (fst (entries t ! i)) (fst (entries t ! j))"
  let ?p = "positions t 0 ! i" and ?q = "positions t 0 ! j"
  let ?s = "\<lambda>p. if p < sizearray t then ArrSlot p else NodeSlot (p - sizearray t)"
  have len: "i < length (positions t 0)" "j < length (positions t 0)" using ij by (simp_all add: entries_def)
  note E = entries_holds [OF assms(1) nth_mem [OF len(1)]] entries_holds [OF assms(1) nth_mem [OF len(2)]]
  have "luaO_rawequalObj (pos_key t ?p) (pos_key t ?q)" using ij len by (simp add: entries_def)
  then have "?s ?p = ?s ?q"
    using holds_key_unique [OF assms(1) E(3) _ E(4)] holds_key_cong [OF _ E(2)] by blast
  then have "?p = ?q" by (auto split: if_splits)
  moreover have "distinct (positions t 0)" by (simp add: positions_def)
  ultimately show "i = j" using len nth_eq_iff_index_eq by blast
next
  fix k v assume kv: "live k \<and> v \<noteq> NIL"
  show "rawget sh t k = v \<longleftrightarrow> (\<exists>k'. (k', v) \<in> set (entries t) \<and> luaO_rawequalObj k' k)"
  proof (cases "valid_key k")
    case True
    let ?s = "\<lambda>p. if p < sizearray t then ArrSlot p else NodeSlot (p - sizearray t)"
    have read: "read_slot t (Some (?s p)) = pos_val t p" for p by (simp add: pos_val_def)
    show ?thesis
    proof
      assume "rawget sh t k = v"
      then have "(k, v) \<in> tset t" using rawget_tset [OF assms(1) True, of v] kv by simp
      then obtain s where s: "holds_key t s k" "read_slot t (Some s) = v" unfolding tset_def by blast
      define p where "p = (case s of ArrSlot i \<Rightarrow> i | NodeSlot i \<Rightarrow> sizearray t + i)"
      have sp: "s = ?s p" "p < sizearray t + length (node t)" using s(1) by (cases s; auto simp: p_def)+
      then have "p \<in> set (positions t 0)" using s(2) kv read [of p] by (auto simp: positions_def)
      moreover from entries_holds [OF assms(1) this] s(1) sp(1) have "luaO_rawequalObj (pos_key t p) k"
        using slot_key_unique by metis
      moreover have "pos_val t p = v" using s(2) sp(1) read by metis
      ultimately show "\<exists>k'. (k', v) \<in> set (entries t) \<and> luaO_rawequalObj k' k"
        by (auto simp: entries_def)
    next
      assume "\<exists>k'. (k', v) \<in> set (entries t) \<and> luaO_rawequalObj k' k"
      then obtain p where p: "p \<in> set (positions t 0)" "pos_val t p = v" "luaO_rawequalObj (pos_key t p) k"
        by (auto simp: entries_def)
      then have "holds_key t (?s p) k" using entries_holds(2) [OF assms(1)] holds_key_cong by blast
      then have "(k, v) \<in> tset t" using kv True read [of p] p(2) unfolding tset_def by blast
      then show "rawget sh t k = v" using rawget_tset [OF assms(1) True, of v] kv by simp
    qed
  next
    case False
    then have "\<not> luaO_rawequalObj k' k" for k' using rawequal_valid rawequal_live kv by blast
    with False kv rawget_invalid show ?thesis by auto
  qed
qed

definition one_table :: Table where
  "one_table = \<lparr>flags = 0, lsizenode = 1, metatable = None, array = [],
     node = [nilnode, \<lparr>i_val = NUMBER 5, i_key = BOOLEAN True, gnext = None\<rparr>],
     lastfree = 2, isdummy = False\<rparr>"

lemma one_table_rawset: "rawset (\<lambda>_. 0) small_table (BOOLEAN True) (NUMBER 5) = Inr one_table"
  by code_simp

lemma one_table_ok: "table_ok (\<lambda>_. 0) one_table" "no_stale one_table"
  using rawset_map(1) [OF small_table_ok _ one_table_rawset]
  by (simp_all add: live_def no_stale_def one_table_def nilnode_def less_Suc_eq iscollectable_def)

theorem luaH_next_traverses_witness:
  "entries one_table = [(BOOLEAN True, NUMBER 5)] \<and>
    luaH_next (\<lambda>_. 0) one_table NIL = Inr (Some (BOOLEAN True, NUMBER 5)) \<and>
    luaH_next (\<lambda>_. 0) one_table (BOOLEAN True) = Inr None"
proof -
  have "entries one_table = [(BOOLEAN True, NUMBER 5)]" by code_simp
  with luaH_next_traverses [OF one_table_ok] show ?thesis by auto
qed

end
