(* ===== verification/Mem.thy ===== *)
theory Mem
  imports Numbers
begin

text \<open>
  The memory manager (\<open>lmem.c\<close>, \<open>lmem.h\<close>): how an array grows, the size check of a
  reallocation and the count of bytes in use. The allocator \<open>frealloc\<close> is the embedding
  program's: a function of the block and its sizes; \<open>0\<close> is the null pointer.
\<close>

definition MINSIZEARRAY :: int where "MINSIZEARRAY = 4"
definition MAX_SIZET :: int where "MAX_SIZET = 2 ^ 64 - 3"

section \<open>Reallocation\<close>

definition luaM_realloc :: "(u64 \<Rightarrow> u64 \<Rightarrow> u64 \<Rightarrow> u64) \<Rightarrow> u64 \<Rightarrow> u64 \<Rightarrow> u64 \<Rightarrow> u64 \<Rightarrow> (u64 \<times> u64) result" where
  "luaM_realloc frealloc totalbytes block osize nsize =
     (let block = frealloc block osize nsize in
      if block = 0 \<and> nsize > 0 then Inl MemError
      else Inr ((totalbytes - osize) + nsize, block))"

definition luaM_reallocv :: "(u64 \<Rightarrow> u64 \<Rightarrow> u64 \<Rightarrow> u64) \<Rightarrow> u64 \<Rightarrow> u64 \<Rightarrow> int \<Rightarrow> int \<Rightarrow> u64 \<Rightarrow> (u64 \<times> u64) result" where
  "luaM_reallocv frealloc totalbytes b on n e =
     (if (word_of_int (n + 1) :: u64) \<le> word_of_int MAX_SIZET div e then
        luaM_realloc frealloc totalbytes b (word_of_int on * e) (word_of_int n * e)
      else Inl (RunError ''memory allocation error: block too big''))"

section \<open>Growing arrays\<close>

text \<open>The new size of an array of \<open>sz\<close> elements; the reallocation itself is taken to succeed.\<close>

definition luaM_growaux :: "int \<Rightarrow> int \<Rightarrow> string \<Rightarrow> int result" where
  "luaM_growaux sz limit errormsg =
     (if sz \<ge> limit div 2 then
        if sz \<ge> limit then Inl (RunError errormsg) else Inr limit
      else Inr (let newsize = sz * 2 in if newsize < MINSIZEARRAY then MINSIZEARRAY else newsize))"

definition luaM_growvector :: "int \<Rightarrow> int \<Rightarrow> int \<Rightarrow> string \<Rightarrow> int result" where
  "luaM_growvector nelems sz limit e =
     (if nelems + 1 > sz then luaM_growaux sz limit e else Inr sz)"

text \<open>Writing the element after the last one written, or one written before.\<close>

definition put_at :: "'a list \<Rightarrow> nat \<Rightarrow> 'a \<Rightarrow> 'a list" where
  "put_at xs i x = (if i < length xs then xs[i := x] else xs @ [x])"

lemma length_put_at: "i \<le> length xs \<Longrightarrow> length (put_at xs i x) = max (length xs) (i + 1)"
  by (auto simp: put_at_def)

lemma put_at_same [simp]: "i \<le> length xs \<Longrightarrow> put_at xs i x ! i = x"
  by (auto simp: put_at_def nth_append)

lemma put_at_other [simp]: "j < length xs \<Longrightarrow> i \<noteq> j \<Longrightarrow> put_at xs i x ! j = xs ! j"
  by (auto simp: put_at_def nth_append)

lemma growvector_room:
  assumes "luaM_growvector n sz limit e = Inr sz'" "n \<le> sz" "0 \<le> n" "4 \<le> limit"
  shows "n + 1 \<le> sz'" and "sz \<le> sz'" and "sz \<le> limit \<Longrightarrow> sz' \<le> limit"
  using assms
  by (auto simp: luaM_growvector_def luaM_growaux_def MINSIZEARRAY_def Let_def split: if_splits)

text \<open>An array grows only when it is full, always by at least one element and never past its
  limit, the growth is the doubling (at least to four elements) until half the limit, and the error
  is raised exactly when a full array has reached the limit.\<close>

theorem growvector_grows:
  assumes "0 \<le> nelems" "nelems \<le> sz" "sz \<le> limit" "4 \<le> limit"
  shows "luaM_growvector nelems sz limit e =
    (if nelems < sz then Inr sz
     else if sz = limit then Inl (RunError e)
     else Inr (if sz < limit div 2 then max 4 (2 * sz) else limit)) \<and>
    (\<forall>sz'. luaM_growvector nelems sz limit e = Inr sz' \<longrightarrow> nelems < sz' \<and> sz \<le> sz' \<and> sz' \<le> limit)"
  using assms
  by (auto simp: luaM_growvector_def luaM_growaux_def MINSIZEARRAY_def Let_def)

theorem growvector_grows_witness:
  "luaM_growvector 8 8 100 ''e'' = Inr 16 \<and> luaM_growvector 100 100 100 ''e'' = Inl (RunError ''e'')"
  using growvector_grows [of 8 8 100 "''e''"] growvector_grows [of 100 100 100 "''e''"] by simp

end
