(* ===== verification/Code.thy ===== *)
theory Code
  imports Opcodes Mem Table "HOL-Library.Signed_Division"
begin

text \<open>
  The code generator (\<open>lcode.c\<close>, with the expression descriptors and the function state
  of \<open>lparser.h\<close>). Every function takes the state and the descriptors it is given by
  pointer and returns them updated. \<open>JumpList\<close> and \<open>CodeSpec\<close> hold the laws.
\<close>

section \<open>State\<close>

definition NO_JUMP :: int where "NO_JUMP = -1"
definition MAXSTACK :: int where "MAXSTACK = 250"
definition LFIELDS_PER_FLUSH :: int where "LFIELDS_PER_FLUSH = 50"
definition LUA_MULTRET :: int where "LUA_MULTRET = -1"

lemma code_limits [simp]:
  "NO_JUMP = -1" "MAXSTACK = 250" "LFIELDS_PER_FLUSH = 50" "LUA_MULTRET = -1"
  by (simp_all add: NO_JUMP_def MAXSTACK_def LFIELDS_PER_FLUSH_def LUA_MULTRET_def)

datatype BinOpr =
    OPR_ADD | OPR_SUB | OPR_MUL | OPR_DIV | OPR_MOD | OPR_POW | OPR_CONCAT
  | OPR_NE | OPR_EQ | OPR_LT | OPR_LE | OPR_GT | OPR_GE | OPR_AND | OPR_OR | OPR_NOBINOPR

datatype UnOpr = OPR_MINUS | OPR_NOT | OPR_LEN | OPR_NOUNOPR

datatype Expr_Type =
    EXPR_VOID | EXPR_NIL | EXPR_TRUE | EXPR_FALSE | EXPR_CONSTANT | EXPR_NUMBER
  | EXPR_LOCAL | EXPR_UPVALUE | EXPR_GLOBAL | EXPR_INDEX | EXPR_JUMP | EXPR_RELOCABLE
  | EXPR_NONRELOCABLE | EXPR_CALL | EXPR_VARARG

text \<open>The members of the union \<open>u\<close> are fields of their own: no function reads a member other
  than the one the kind says.\<close>

record Expr =
  kind :: Expr_Type
  info :: int
  aux :: int
  nval :: lua_Number
  patch_true :: int
  patch_false :: int

text \<open>
  \<open>code\<close> and \<open>lineinfo\<close> are the elements of \<open>proto->code\<close> and \<open>proto->lineinfo\<close> written so
  far, \<open>size_code\<close> and \<open>size_lineinfo\<close> the sizes allocated; \<open>constants\<close> is the whole array
  \<open>proto->constants\<close>. \<open>fs_h\<close> is the table of constants, at the address \<open>h_addr\<close>, whose string
  keys have the hashes \<open>strhash\<close>; \<open>lastline\<close> is the lexer's.
\<close>

record FuncState =
  code :: "u32 list"
  size_code :: int
  lineinfo :: "int list"
  size_lineinfo :: int
  constants :: "TValue list"
  maxstacksize :: int
  fs_h :: Table
  h_addr :: addr
  strhash :: "addr \<Rightarrow> u32"
  lastline :: int
  pc :: int
  lasttarget :: int
  jpc :: int
  freereg :: int
  nconstants :: int
  nactvar :: int

section \<open>Descriptors\<close>

definition hasjumps :: "Expr \<Rightarrow> bool" where
  "hasjumps e \<longleftrightarrow> patch_true e \<noteq> patch_false e"

definition isnumeral :: "Expr \<Rightarrow> bool" where
  "isnumeral e \<longleftrightarrow> kind e = EXPR_NUMBER \<and> patch_true e = NO_JUMP \<and> patch_false e = NO_JUMP"

definition expr_init_info :: "Expr \<Rightarrow> Expr_Type \<Rightarrow> int \<Rightarrow> Expr" where
  "expr_init_info e k i = e\<lparr>kind := k, info := i, patch_true := NO_JUMP, patch_false := NO_JUMP\<rparr>"

definition expr_set_kind :: "Expr \<Rightarrow> Expr_Type \<Rightarrow> Expr" where
  "expr_set_kind e k = e\<lparr>kind := k\<rparr>"

definition expr_set_info :: "Expr \<Rightarrow> Expr_Type \<Rightarrow> int \<Rightarrow> Expr" where
  "expr_set_info e k i = e\<lparr>kind := k, info := i\<rparr>"

definition expr_set_aux :: "Expr \<Rightarrow> Expr_Type \<Rightarrow> int \<Rightarrow> Expr" where
  "expr_set_aux e k i = e\<lparr>kind := k, aux := i\<rparr>"

lemmas expr_defs = expr_init_info_def expr_set_kind_def expr_set_info_def expr_set_aux_def

section \<open>The code array\<close>

definition getins :: "FuncState \<Rightarrow> int \<Rightarrow> u32 result" where
  "getins fs i = (if 0 \<le> i \<and> nat i < length (code fs) then Inr (code fs ! nat i) else Inl Undefined)"

definition setins :: "FuncState \<Rightarrow> int \<Rightarrow> u32 \<Rightarrow> FuncState result" where
  "setins fs i x = (if 0 \<le> i \<and> nat i < length (code fs)
     then Inr (fs\<lparr>code := (code fs)[nat i := x]\<rparr>) else Inl Undefined)"

section \<open>Jump lists\<close>

text \<open>
  A list of jumps is threaded through the jump instructions themselves. A list that is no
  cycle has at most as many jumps as there are instructions: \<open>LIST_FUEL\<close> steps are enough
  (\<open>JumpList\<close>).
\<close>

definition LIST_FUEL :: "FuncState \<Rightarrow> nat" where
  "LIST_FUEL fs = length (code fs) + 1"

definition fixjump :: "FuncState \<Rightarrow> int \<Rightarrow> int \<Rightarrow> FuncState result" where
  "fixjump fs i dest =
     (let offset = dest - (i + 1) in
      if \<bar>offset\<bar> > MAXARG_sBx then Inl (SyntaxError ''control structure too long'')
      else seqR (getins fs i) (\<lambda>ip. setins fs i (SETARG_sBx ip offset)))"

definition luaK_getlabel :: "FuncState \<Rightarrow> FuncState \<times> int" where
  "luaK_getlabel fs = (fs\<lparr>lasttarget := pc fs\<rparr>, pc fs)"

definition getjump :: "FuncState \<Rightarrow> int \<Rightarrow> int result" where
  "getjump fs jump_pc =
     seqR (getins fs jump_pc) (\<lambda>ip.
       let offset = GETARG_sBx ip in
       if offset = NO_JUMP then Inr NO_JUMP else Inr ((jump_pc + 1) + offset))"

text \<open>The index of the instruction that controls the jump.\<close>

definition getjumpcontrol :: "FuncState \<Rightarrow> int \<Rightarrow> int result" where
  "getjumpcontrol fs i =
     (if i \<ge> 1 then
        seqR (getins fs (i - 1)) (\<lambda>prev. if testTMode (GET_OPCODE prev) then Inr (i - 1) else Inr i)
      else Inr i)"

fun need_value_loop :: "nat \<Rightarrow> FuncState \<Rightarrow> int \<Rightarrow> bool result" where
  "need_value_loop 0 fs list_pc = Inl OutOfFuel"
| "need_value_loop (Suc f) fs list_pc =
     (if list_pc \<noteq> NO_JUMP then
        seqR (getjump fs list_pc) (\<lambda>nxt.
        seqR (getjumpcontrol fs list_pc) (\<lambda>c.
        seqR (getins fs c) (\<lambda>ip.
          if GET_OPCODE ip \<noteq> op_num OP_TESTSET then Inr True
          else need_value_loop f fs nxt)))
      else Inr False)"

definition need_value :: "FuncState \<Rightarrow> int \<Rightarrow> bool result" where
  "need_value fs jump_pc = need_value_loop (LIST_FUEL fs) fs jump_pc"

definition patchtestreg :: "FuncState \<Rightarrow> int \<Rightarrow> int \<Rightarrow> (FuncState \<times> bool) result" where
  "patchtestreg fs jump_pc reg =
     seqR (getjumpcontrol fs jump_pc) (\<lambda>c.
     seqR (getins fs c) (\<lambda>ip.
       if GET_OPCODE ip \<noteq> op_num OP_TESTSET then Inr (fs, False)
       else
         let rb = GETARG_B ip; cond = GETARG_C ip in
         seqR (if reg \<noteq> NO_REG \<and> reg \<noteq> rb then setins fs c (SETARG_A ip reg)
               else setins fs c (CREATE_ABC (op_num OP_TEST) rb 0 cond)) (\<lambda>fs.
         Inr (fs, True))))"

fun removevalues_loop :: "nat \<Rightarrow> FuncState \<Rightarrow> int \<Rightarrow> FuncState result" where
  "removevalues_loop 0 fs list = Inl OutOfFuel"
| "removevalues_loop (Suc f) fs list =
     (if list \<noteq> NO_JUMP then
        seqR (patchtestreg fs list NO_REG) (\<lambda>(fs, _).
        seqR (getjump fs list) (\<lambda>list. removevalues_loop f fs list))
      else Inr fs)"

definition removevalues :: "FuncState \<Rightarrow> int \<Rightarrow> FuncState result" where
  "removevalues fs list = removevalues_loop (LIST_FUEL fs) fs list"

fun patchlist_loop :: "nat \<Rightarrow> FuncState \<Rightarrow> int \<Rightarrow> int \<Rightarrow> int \<Rightarrow> int \<Rightarrow> FuncState result" where
  "patchlist_loop 0 fs list_pc value_target reg default_target = Inl OutOfFuel"
| "patchlist_loop (Suc f) fs list_pc value_target reg default_target =
     (if list_pc \<noteq> NO_JUMP then
        seqR (getjump fs list_pc) (\<lambda>nxt.
        seqR (patchtestreg fs list_pc reg) (\<lambda>(fs, patched).
        seqR (fixjump fs list_pc (if patched then value_target else default_target)) (\<lambda>fs.
          patchlist_loop f fs nxt value_target reg default_target)))
      else Inr fs)"

definition patchlistaux :: "FuncState \<Rightarrow> int \<Rightarrow> int \<Rightarrow> int \<Rightarrow> int \<Rightarrow> FuncState result" where
  "patchlistaux fs jump_pc value_target reg default_target =
     patchlist_loop (LIST_FUEL fs) fs jump_pc value_target reg default_target"

definition dischargejpc :: "FuncState \<Rightarrow> FuncState result" where
  "dischargejpc fs =
     seqR (patchlistaux fs (jpc fs) (pc fs) NO_REG (pc fs)) (\<lambda>fs. Inr (fs\<lparr>jpc := NO_JUMP\<rparr>))"

fun getjumproot_loop :: "nat \<Rightarrow> FuncState \<Rightarrow> int \<Rightarrow> int result" where
  "getjumproot_loop 0 fs list_pc = Inl OutOfFuel"
| "getjumproot_loop (Suc f) fs list_pc =
     seqR (getjump fs list_pc) (\<lambda>next_pc.
       if next_pc = NO_JUMP then Inr list_pc else getjumproot_loop f fs next_pc)"

definition getjumproot :: "FuncState \<Rightarrow> int \<Rightarrow> int result" where
  "getjumproot fs jump_pc = getjumproot_loop (LIST_FUEL fs) fs jump_pc"

text \<open>Returns the new \<open>*l1\<close>.\<close>

definition luaK_concat :: "FuncState \<Rightarrow> int \<Rightarrow> int \<Rightarrow> (FuncState \<times> int) result" where
  "luaK_concat fs l1 l2 =
     (if l2 = NO_JUMP then Inr (fs, l1)
      else if l1 = NO_JUMP then Inr (fs, l2)
      else seqR (getjumproot fs l1) (\<lambda>root. seqR (fixjump fs root l2) (\<lambda>fs. Inr (fs, l1))))"

definition luaK_patchtohere :: "FuncState \<Rightarrow> int \<Rightarrow> FuncState result" where
  "luaK_patchtohere fs list =
     (case luaK_getlabel fs of (fs, _) \<Rightarrow>
      seqR (luaK_concat fs (jpc fs) list) (\<lambda>(fs, l). Inr (fs\<lparr>jpc := l\<rparr>)))"

definition luaK_patchlist :: "FuncState \<Rightarrow> int \<Rightarrow> int \<Rightarrow> FuncState result" where
  "luaK_patchlist fs list target =
     (if target = pc fs then luaK_patchtohere fs list
      else patchlistaux fs list target NO_REG target)"

section \<open>Emitting instructions\<close>

definition luaK_code :: "FuncState \<Rightarrow> u32 \<Rightarrow> int \<Rightarrow> (FuncState \<times> int) result" where
  "luaK_code fs i line =
     seqR (dischargejpc fs) (\<lambda>fs.
     seqR (luaM_growvector (pc fs) (size_code fs) MAX_INT ''code size overflow'') (\<lambda>sz.
     let fs = fs\<lparr>size_code := sz, code := put_at (code fs) (nat (pc fs)) i\<rparr> in
     seqR (luaM_growvector (pc fs) (size_lineinfo fs) MAX_INT ''code size overflow'') (\<lambda>sz.
     let fs = fs\<lparr>size_lineinfo := sz, lineinfo := put_at (lineinfo fs) (nat (pc fs)) line\<rparr> in
     Inr (fs\<lparr>pc := pc fs + 1\<rparr>, pc fs))))"

definition luaK_codeABC :: "FuncState \<Rightarrow> OpCode \<Rightarrow> int \<Rightarrow> int \<Rightarrow> int \<Rightarrow> (FuncState \<times> int) result" where
  "luaK_codeABC fs o' a b c = luaK_code fs (CREATE_ABC (op_num o') a b c) (lastline fs)"

definition luaK_codeABx :: "FuncState \<Rightarrow> OpCode \<Rightarrow> int \<Rightarrow> int \<Rightarrow> (FuncState \<times> int) result" where
  "luaK_codeABx fs o' a bc = luaK_code fs (CREATE_ABx (op_num o') a bc) (lastline fs)"

definition luaK_codeAsBx :: "FuncState \<Rightarrow> OpCode \<Rightarrow> int \<Rightarrow> int \<Rightarrow> (FuncState \<times> int) result" where
  "luaK_codeAsBx fs o' a sbx = luaK_codeABx fs o' a (sbx + MAXARG_sBx)"

definition luaK_fixline :: "FuncState \<Rightarrow> int \<Rightarrow> FuncState result" where
  "luaK_fixline fs line =
     (if 1 \<le> pc fs \<and> nat (pc fs - 1) < length (lineinfo fs)
      then Inr (fs\<lparr>lineinfo := (lineinfo fs)[nat (pc fs - 1) := line]\<rparr>) else Inl Undefined)"

definition luaK_nil :: "FuncState \<Rightarrow> int \<Rightarrow> int \<Rightarrow> FuncState result" where
  "luaK_nil fs from n =
     (let until_reg = from + n - 1;
          emit = seqR (luaK_codeABC fs OP_LOADNIL from until_reg 0) (\<lambda>(fs, _). Inr fs)
      in if pc fs > lasttarget fs then
           if pc fs = 0 then (if from \<ge> nactvar fs then Inr fs else emit)
           else
             seqR (getins fs (pc fs - 1)) (\<lambda>prev.
               if GET_OPCODE prev = op_num OP_LOADNIL then
                 let pfrom = GETARG_A prev; pto = GETARG_B prev in
                 if pfrom \<le> from \<and> from \<le> pto + 1 then
                   (if until_reg > pto then setins fs (pc fs - 1) (SETARG_B prev until_reg) else Inr fs)
                 else emit
               else emit)
         else emit)"

definition luaK_jump :: "FuncState \<Rightarrow> (FuncState \<times> int) result" where
  "luaK_jump fs =
     (let jpc0 = jpc fs in
      seqR (luaK_codeAsBx (fs\<lparr>jpc := NO_JUMP\<rparr>) OP_JMP 0 NO_JUMP) (\<lambda>(fs, j).
      luaK_concat fs j jpc0))"

definition luaK_ret :: "FuncState \<Rightarrow> int \<Rightarrow> int \<Rightarrow> FuncState result" where
  "luaK_ret fs first nret = seqR (luaK_codeABC fs OP_RETURN first (nret + 1) 0) (\<lambda>(fs, _). Inr fs)"

definition condjump :: "FuncState \<Rightarrow> OpCode \<Rightarrow> int \<Rightarrow> int \<Rightarrow> int \<Rightarrow> (FuncState \<times> int) result" where
  "condjump fs op A B C = seqR (luaK_codeABC fs op A B C) (\<lambda>(fs, _). luaK_jump fs)"

definition luaK_setlist :: "FuncState \<Rightarrow> int \<Rightarrow> int \<Rightarrow> int \<Rightarrow> FuncState result" where
  "luaK_setlist fs base nelems tostore =
     (let c = (nelems - 1) sdiv LFIELDS_PER_FLUSH + 1;
          b = (if tostore = LUA_MULTRET then 0 else tostore)
      in seqR (if c \<le> MAXARG_C then luaK_codeABC fs OP_SETLIST base b c
               else seqR (luaK_codeABC fs OP_SETLIST base b 0) (\<lambda>(fs, _).
                      luaK_code fs (word_of_int c) (lastline fs))) (\<lambda>(fs, _).
         Inr (fs\<lparr>freereg := base + 1\<rparr>)))"

section \<open>Registers\<close>

definition luaK_checkstack :: "FuncState \<Rightarrow> int \<Rightarrow> FuncState result" where
  "luaK_checkstack fs n =
     (let newstack = freereg fs + n in
      if newstack > maxstacksize fs then
        if newstack \<ge> MAXSTACK then Inl (SyntaxError ''function or expression too complex'')
        else Inr (fs\<lparr>maxstacksize := newstack mod 256\<rparr>)
      else Inr fs)"

definition luaK_reserveregs :: "FuncState \<Rightarrow> int \<Rightarrow> FuncState result" where
  "luaK_reserveregs fs n =
     seqR (luaK_checkstack fs n) (\<lambda>fs. Inr (fs\<lparr>freereg := freereg fs + n\<rparr>))"

definition free_reg :: "FuncState \<Rightarrow> int \<Rightarrow> FuncState" where
  "free_reg fs reg =
     (if \<not> ISK reg \<and> reg \<ge> nactvar fs then fs\<lparr>freereg := freereg fs - 1\<rparr> else fs)"

definition freeexp :: "FuncState \<Rightarrow> Expr \<Rightarrow> FuncState" where
  "freeexp fs e = (if kind e = EXPR_NONRELOCABLE then free_reg fs (info e) else fs)"

section \<open>Constants\<close>

text \<open>The index of constant \<open>v\<close>, looked up in the table of constants under the key \<open>k\<close>; a
  negative index cannot come out of the table and would read outside the array.\<close>

definition addk :: "FuncState \<Rightarrow> TValue \<Rightarrow> TValue \<Rightarrow> (FuncState \<times> int) result" where
  "addk fs k v =
     seqR (luaH_set (strhash fs) (fs_h fs) k) (\<lambda>(t, idx).
       case read_slot t (Some idx) of
         NUMBER n \<Rightarrow> Inr (fs\<lparr>fs_h := t\<rparr>, lua_number2int n)
       | _ \<Rightarrow>
           let t = write_slot t idx (NUMBER (cast_num (nconstants fs)));
               oldsize = int (length (constants fs)) in
           seqR (luaM_growvector (nconstants fs) oldsize MAXARG_Bx ''constant table overflow'') (\<lambda>sz.
           let ks = constants fs @ replicate (nat (sz - oldsize)) NIL in
           Inr (fs\<lparr>fs_h := t, constants := ks[nat (nconstants fs) := v],
                   nconstants := nconstants fs + 1\<rparr>, nconstants fs)))"

definition luaK_stringK :: "FuncState \<Rightarrow> addr \<Rightarrow> (FuncState \<times> int) result" where
  "luaK_stringK fs s = addk fs (STRING s) (STRING s)"

definition luaK_numberK :: "FuncState \<Rightarrow> lua_Number \<Rightarrow> (FuncState \<times> int) result" where
  "luaK_numberK fs r = addk fs (NUMBER r) (NUMBER r)"

definition boolK :: "FuncState \<Rightarrow> bool \<Rightarrow> (FuncState \<times> int) result" where
  "boolK fs b = addk fs (BOOLEAN b) (BOOLEAN b)"

definition nilK :: "FuncState \<Rightarrow> (FuncState \<times> int) result" where
  "nilK fs = addk fs (TABLE (h_addr fs)) NIL"

section \<open>Discharging expressions\<close>

definition luaK_setreturns :: "FuncState \<Rightarrow> Expr \<Rightarrow> int \<Rightarrow> FuncState result" where
  "luaK_setreturns fs e nresults =
     (if kind e = EXPR_CALL then
        seqR (getins fs (info e)) (\<lambda>ip. setins fs (info e) (SETARG_C ip (nresults + 1)))
      else if kind e = EXPR_VARARG then
        seqR (getins fs (info e)) (\<lambda>ip.
        seqR (setins fs (info e) (SETARG_A (SETARG_B ip (nresults + 1)) (freereg fs))) (\<lambda>fs.
        luaK_reserveregs fs 1))
      else Inr fs)"

definition luaK_setmultret :: "FuncState \<Rightarrow> Expr \<Rightarrow> FuncState result" where
  "luaK_setmultret fs e = luaK_setreturns fs e LUA_MULTRET"

definition luaK_setoneret :: "FuncState \<Rightarrow> Expr \<Rightarrow> (FuncState \<times> Expr) result" where
  "luaK_setoneret fs e =
     (if kind e = EXPR_CALL then
        seqR (getins fs (info e)) (\<lambda>ip. Inr (fs, expr_set_info e EXPR_NONRELOCABLE (GETARG_A ip)))
      else if kind e = EXPR_VARARG then
        seqR (getins fs (info e)) (\<lambda>ip.
        seqR (setins fs (info e) (SETARG_B ip 2)) (\<lambda>fs.
        Inr (fs, expr_set_kind e EXPR_RELOCABLE)))
      else Inr (fs, e))"

definition luaK_dischargevars :: "FuncState \<Rightarrow> Expr \<Rightarrow> (FuncState \<times> Expr) result" where
  "luaK_dischargevars fs e =
     (case kind e of
        EXPR_LOCAL \<Rightarrow> Inr (fs, expr_set_kind e EXPR_NONRELOCABLE)
      | EXPR_UPVALUE \<Rightarrow>
          seqR (luaK_codeABC fs OP_GETUPVAL 0 (info e) 0) (\<lambda>(fs, p).
          Inr (fs, expr_set_info e EXPR_RELOCABLE p))
      | EXPR_GLOBAL \<Rightarrow>
          seqR (luaK_codeABx fs OP_GETGLOBAL 0 (info e)) (\<lambda>(fs, p).
          Inr (fs, expr_set_info e EXPR_RELOCABLE p))
      | EXPR_INDEX \<Rightarrow>
          (let table_reg = info e; key_reg = aux e;
               fs = free_reg (free_reg fs key_reg) table_reg in
           seqR (luaK_codeABC fs OP_GETTABLE 0 table_reg key_reg) (\<lambda>(fs, p).
           Inr (fs, expr_set_info e EXPR_RELOCABLE p)))
      | EXPR_VARARG \<Rightarrow> luaK_setoneret fs e
      | EXPR_CALL \<Rightarrow> luaK_setoneret fs e
      | _ \<Rightarrow> Inr (fs, e))"

definition code_label :: "FuncState \<Rightarrow> int \<Rightarrow> bool \<Rightarrow> bool \<Rightarrow> (FuncState \<times> int) result" where
  "code_label fs A b jump =
     (case luaK_getlabel fs of (fs, _) \<Rightarrow>
      luaK_codeABC fs OP_LOADBOOL A (if b then 1 else 0) (if jump then 1 else 0))"

definition discharge2reg :: "FuncState \<Rightarrow> Expr \<Rightarrow> int \<Rightarrow> (FuncState \<times> Expr) result" where
  "discharge2reg fs e reg =
     seqR (luaK_dischargevars fs e) (\<lambda>(fs, e).
     let finish = (\<lambda>fs. Inr (fs, expr_set_info e EXPR_NONRELOCABLE reg)) in
     case kind e of
        EXPR_NIL \<Rightarrow> seqR (luaK_nil fs reg 1) finish
      | EXPR_FALSE \<Rightarrow> seqR (luaK_codeABC fs OP_LOADBOOL reg 0 0) (\<lambda>(fs, _). finish fs)
      | EXPR_TRUE \<Rightarrow> seqR (luaK_codeABC fs OP_LOADBOOL reg 1 0) (\<lambda>(fs, _). finish fs)
      | EXPR_CONSTANT \<Rightarrow> seqR (luaK_codeABx fs OP_LOADK reg (info e)) (\<lambda>(fs, _). finish fs)
      | EXPR_NUMBER \<Rightarrow>
          seqR (luaK_numberK fs (nval e)) (\<lambda>(fs, k).
          seqR (luaK_codeABx fs OP_LOADK reg k) (\<lambda>(fs, _). finish fs))
      | EXPR_RELOCABLE \<Rightarrow>
          seqR (getins fs (info e)) (\<lambda>ip. seqR (setins fs (info e) (SETARG_A ip reg)) finish)
      | EXPR_NONRELOCABLE \<Rightarrow>
          (if reg \<noteq> info e
           then seqR (luaK_codeABC fs OP_MOVE reg (info e) 0) (\<lambda>(fs, _). finish fs)
           else finish fs)
      | _ \<Rightarrow> Inr (fs, e))"

definition discharge2anyreg :: "FuncState \<Rightarrow> Expr \<Rightarrow> (FuncState \<times> Expr) result" where
  "discharge2anyreg fs e =
     (if kind e \<noteq> EXPR_NONRELOCABLE then
        seqR (luaK_reserveregs fs 1) (\<lambda>fs. discharge2reg fs e (freereg fs - 1))
      else Inr (fs, e))"

text \<open>The loads of the two booleans and the jump over them: the state and \<open>p_f\<close>, \<open>p_t\<close>.\<close>

definition exp2reg_values :: "FuncState \<Rightarrow> bool \<Rightarrow> int \<Rightarrow> (FuncState \<times> int \<times> int) result" where
  "exp2reg_values fs has_jump reg =
     seqR (if has_jump then Inr (fs, NO_JUMP) else luaK_jump fs) (\<lambda>(fs, fj).
     seqR (code_label fs reg False True) (\<lambda>(fs, p_f).
     seqR (code_label fs reg True False) (\<lambda>(fs, p_t).
     seqR (luaK_patchtohere fs fj) (\<lambda>fs. Inr (fs, p_f, p_t)))))"

definition exp2reg :: "FuncState \<Rightarrow> Expr \<Rightarrow> int \<Rightarrow> (FuncState \<times> Expr) result" where
  "exp2reg fs e reg =
     (let has_jump = (kind e = EXPR_JUMP) in
      seqR (discharge2reg fs e reg) (\<lambda>(fs, e).
      seqR (if has_jump
            then seqR (luaK_concat fs (patch_true e) (info e)) (\<lambda>(fs, l). Inr (fs, e\<lparr>patch_true := l\<rparr>))
            else Inr (fs, e)) (\<lambda>(fs, e).
      seqR (if hasjumps e then
              seqR (seqR (need_value fs (patch_true e)) (\<lambda>nv.
                    if nv then Inr True else need_value fs (patch_false e))) (\<lambda>nv.
              seqR (if nv then exp2reg_values fs has_jump reg else Inr (fs, NO_JUMP, NO_JUMP))
                (\<lambda>(fs, p_f, p_t).
              case luaK_getlabel fs of (fs, final) \<Rightarrow>
              seqR (patchlistaux fs (patch_false e) final reg p_f) (\<lambda>fs.
              patchlistaux fs (patch_true e) final reg p_t)))
            else Inr fs) (\<lambda>fs.
      Inr (fs, expr_init_info e EXPR_NONRELOCABLE reg)))))"

definition luaK_exp2nextreg :: "FuncState \<Rightarrow> Expr \<Rightarrow> (FuncState \<times> Expr) result" where
  "luaK_exp2nextreg fs e =
     seqR (luaK_dischargevars fs e) (\<lambda>(fs, e).
     seqR (luaK_reserveregs (freeexp fs e) 1) (\<lambda>fs.
     exp2reg fs e (freereg fs - 1)))"

definition luaK_exp2anyreg :: "FuncState \<Rightarrow> Expr \<Rightarrow> (FuncState \<times> Expr \<times> int) result" where
  "luaK_exp2anyreg fs e =
     seqR (luaK_dischargevars fs e) (\<lambda>(fs, e).
     if kind e = EXPR_NONRELOCABLE \<and> \<not> hasjumps e then Inr (fs, e, info e)
     else if kind e = EXPR_NONRELOCABLE \<and> info e \<ge> nactvar fs then
       seqR (exp2reg fs e (info e)) (\<lambda>(fs, e). Inr (fs, e, info e))
     else seqR (luaK_exp2nextreg fs e) (\<lambda>(fs, e). Inr (fs, e, info e)))"

definition luaK_exp2val :: "FuncState \<Rightarrow> Expr \<Rightarrow> (FuncState \<times> Expr) result" where
  "luaK_exp2val fs e =
     (if hasjumps e then seqR (luaK_exp2anyreg fs e) (\<lambda>(fs, e, _). Inr (fs, e))
      else luaK_dischargevars fs e)"

definition addliteral :: "FuncState \<Rightarrow> Expr \<Rightarrow> (FuncState \<times> int) result" where
  "addliteral fs e =
     (case kind e of
        EXPR_NIL \<Rightarrow> nilK fs
      | EXPR_NUMBER \<Rightarrow> luaK_numberK fs (nval e)
      | _ \<Rightarrow> boolK fs (kind e = EXPR_TRUE))"

definition luaK_exp2RK :: "FuncState \<Rightarrow> Expr \<Rightarrow> (FuncState \<times> Expr \<times> int) result" where
  "luaK_exp2RK fs e =
     seqR (luaK_exp2val fs e) (\<lambda>(fs, e).
     if kind e \<in> {EXPR_NUMBER, EXPR_TRUE, EXPR_FALSE, EXPR_NIL} \<and> nconstants fs \<le> MAXINDEXRK then
       seqR (addliteral fs e) (\<lambda>(fs, i). Inr (fs, expr_set_info e EXPR_CONSTANT i, RKASK i))
     else if kind e = EXPR_CONSTANT \<and> info e \<le> MAXINDEXRK then Inr (fs, e, RKASK (info e))
     else luaK_exp2anyreg fs e)"

definition luaK_storevar :: "FuncState \<Rightarrow> Expr \<Rightarrow> Expr \<Rightarrow> (FuncState \<times> Expr) result" where
  "luaK_storevar fs var e =
     (case kind var of
        EXPR_LOCAL \<Rightarrow> exp2reg (freeexp fs e) e (info var)
      | EXPR_UPVALUE \<Rightarrow>
          seqR (luaK_exp2anyreg fs e) (\<lambda>(fs, e, reg).
          seqR (luaK_codeABC fs OP_SETUPVAL reg (info var) 0) (\<lambda>(fs, _). Inr (freeexp fs e, e)))
      | EXPR_GLOBAL \<Rightarrow>
          seqR (luaK_exp2anyreg fs e) (\<lambda>(fs, e, reg).
          seqR (luaK_codeABx fs OP_SETGLOBAL reg (info var)) (\<lambda>(fs, _). Inr (freeexp fs e, e)))
      | EXPR_INDEX \<Rightarrow>
          seqR (luaK_exp2RK fs e) (\<lambda>(fs, e, rkc).
          seqR (luaK_codeABC fs OP_SETTABLE (info var) (aux var) rkc) (\<lambda>(fs, _). Inr (freeexp fs e, e)))
      | _ \<Rightarrow> Inr (freeexp fs e, e))"

definition luaK_self :: "FuncState \<Rightarrow> Expr \<Rightarrow> Expr \<Rightarrow> (FuncState \<times> Expr \<times> Expr) result" where
  "luaK_self fs e key =
     seqR (luaK_exp2anyreg fs e) (\<lambda>(fs, e, _).
     let fs = freeexp fs e; reg = freereg fs in
     seqR (luaK_reserveregs fs 2) (\<lambda>fs.
     seqR (luaK_exp2RK fs key) (\<lambda>(fs, key, rk).
     seqR (luaK_codeABC fs OP_SELF reg (info e) rk) (\<lambda>(fs, _).
     Inr (freeexp fs key, expr_set_info e EXPR_NONRELOCABLE reg, key)))))"

definition luaK_indexed :: "FuncState \<Rightarrow> Expr \<Rightarrow> Expr \<Rightarrow> (FuncState \<times> Expr \<times> Expr) result" where
  "luaK_indexed fs t key =
     seqR (luaK_exp2RK fs key) (\<lambda>(fs, key, key_reg).
     Inr (fs, expr_set_aux t EXPR_INDEX key_reg, key))"

section \<open>Conditions\<close>

definition invertjump :: "FuncState \<Rightarrow> Expr \<Rightarrow> FuncState result" where
  "invertjump fs e =
     seqR (getjumpcontrol fs (info e)) (\<lambda>c.
     seqR (getins fs c) (\<lambda>ip.
     setins fs c (SETARG_A ip (if GETARG_A ip = 0 then 1 else 0))))"

text \<open>The fall-through of the test for \<open>OP_NOT\<close> is written once, as \<open>testset\<close>.\<close>

definition jumponcond :: "FuncState \<Rightarrow> Expr \<Rightarrow> bool \<Rightarrow> (FuncState \<times> Expr \<times> int) result" where
  "jumponcond fs e cond =
     (let testset =
        seqR (discharge2anyreg fs e) (\<lambda>(fs, e).
        seqR (condjump (freeexp fs e) OP_TESTSET NO_REG (info e) (if cond then 1 else 0)) (\<lambda>(fs, j).
        Inr (fs, e, j)))
      in if kind e = EXPR_RELOCABLE then
           seqR (getins fs (info e)) (\<lambda>ip.
             if GET_OPCODE ip = op_num OP_NOT then
               seqR (condjump (fs\<lparr>pc := pc fs - 1\<rparr>) OP_TEST (GETARG_B ip) 0 (if \<not> cond then 1 else 0))
                 (\<lambda>(fs, j). Inr (fs, e, j))
             else testset)
         else testset)"

definition get_cond_jump :: "FuncState \<Rightarrow> Expr \<Rightarrow> bool \<Rightarrow> (FuncState \<times> Expr \<times> int) result" where
  "get_cond_jump fs e cond =
     seqR (luaK_dischargevars fs e) (\<lambda>(fs, e).
       if kind e \<in> {EXPR_CONSTANT, EXPR_NUMBER, EXPR_TRUE} \<and> cond then Inr (fs, e, NO_JUMP)
       else if kind e \<in> {EXPR_NIL, EXPR_FALSE} \<and> \<not> cond then Inr (fs, e, NO_JUMP)
       else if kind e = EXPR_JUMP then
         seqR (if cond then invertjump fs e else Inr fs) (\<lambda>fs. Inr (fs, e, info e))
       else jumponcond fs e (\<not> cond))"

definition go_if_cond :: "FuncState \<Rightarrow> Expr \<Rightarrow> bool \<Rightarrow> (FuncState \<times> Expr) result" where
  "go_if_cond fs e cond =
     seqR (get_cond_jump fs e cond) (\<lambda>(fs, e, p).
       if cond then
         seqR (luaK_concat fs (patch_false e) p) (\<lambda>(fs, l).
         let e = e\<lparr>patch_false := l\<rparr> in
         seqR (luaK_patchtohere fs (patch_true e)) (\<lambda>fs. Inr (fs, e\<lparr>patch_true := NO_JUMP\<rparr>)))
       else
         seqR (luaK_concat fs (patch_true e) p) (\<lambda>(fs, l).
         let e = e\<lparr>patch_true := l\<rparr> in
         seqR (luaK_patchtohere fs (patch_false e)) (\<lambda>fs. Inr (fs, e\<lparr>patch_false := NO_JUMP\<rparr>))))"

definition luaK_goiftrue :: "FuncState \<Rightarrow> Expr \<Rightarrow> (FuncState \<times> Expr) result" where
  "luaK_goiftrue fs e = go_if_cond fs e True"

definition luaK_goiffalse :: "FuncState \<Rightarrow> Expr \<Rightarrow> (FuncState \<times> Expr) result" where
  "luaK_goiffalse fs e = go_if_cond fs e False"

definition codenot :: "FuncState \<Rightarrow> Expr \<Rightarrow> (FuncState \<times> Expr) result" where
  "codenot fs e =
     seqR (luaK_dischargevars fs e) (\<lambda>(fs, e).
     seqR (case kind e of
             EXPR_NIL \<Rightarrow> Inr (fs, expr_set_kind e EXPR_TRUE)
           | EXPR_FALSE \<Rightarrow> Inr (fs, expr_set_kind e EXPR_TRUE)
           | EXPR_CONSTANT \<Rightarrow> Inr (fs, expr_set_kind e EXPR_FALSE)
           | EXPR_NUMBER \<Rightarrow> Inr (fs, expr_set_kind e EXPR_FALSE)
           | EXPR_TRUE \<Rightarrow> Inr (fs, expr_set_kind e EXPR_FALSE)
           | EXPR_JUMP \<Rightarrow> seqR (invertjump fs e) (\<lambda>fs. Inr (fs, e))
           | k \<Rightarrow>
               if k = EXPR_RELOCABLE \<or> k = EXPR_NONRELOCABLE then
                 seqR (discharge2anyreg fs e) (\<lambda>(fs, e).
                 seqR (luaK_codeABC (freeexp fs e) OP_NOT 0 (info e) 0) (\<lambda>(fs, p).
                 Inr (fs, expr_set_info e EXPR_RELOCABLE p)))
               else Inr (fs, e)) (\<lambda>(fs, e).
     let e = e\<lparr>patch_false := patch_true e, patch_true := patch_false e\<rparr> in
     seqR (removevalues fs (patch_false e)) (\<lambda>fs.
     seqR (removevalues fs (patch_true e)) (\<lambda>fs. Inr (fs, e)))))"

section \<open>Operators\<close>

text \<open>The arithmetic of \<open>luaconf.h\<close> on doubles rounds: it is a parameter.\<close>

record num_ops =
  numadd :: "lua_Number \<Rightarrow> lua_Number \<Rightarrow> lua_Number"
  numsub :: "lua_Number \<Rightarrow> lua_Number \<Rightarrow> lua_Number"
  nummul :: "lua_Number \<Rightarrow> lua_Number \<Rightarrow> lua_Number"
  numdiv :: "lua_Number \<Rightarrow> lua_Number \<Rightarrow> lua_Number"
  nummod :: "lua_Number \<Rightarrow> lua_Number \<Rightarrow> lua_Number"
  numpow :: "lua_Number \<Rightarrow> lua_Number \<Rightarrow> lua_Number"

text \<open>The result \<open>r\<close> of the operation; \<open>None\<close> where the function returns false without one.\<close>

definition fold_value :: "num_ops \<Rightarrow> OpCode \<Rightarrow> lua_Number \<Rightarrow> lua_Number \<Rightarrow> lua_Number option" where
  "fold_value ar op v1 v2 =
     (case op of
        OP_ADD \<Rightarrow> Some (numadd ar v1 v2)
      | OP_SUB \<Rightarrow> Some (numsub ar v1 v2)
      | OP_MUL \<Rightarrow> Some (nummul ar v1 v2)
      | OP_DIV \<Rightarrow> (if luai_numeq v2 0 then None else Some (numdiv ar v1 v2))
      | OP_MOD \<Rightarrow> (if luai_numeq v2 0 then None else Some (nummod ar v1 v2))
      | OP_POW \<Rightarrow> Some (numpow ar v1 v2)
      | OP_UNM \<Rightarrow> Some (luai_numunm v1)
      | OP_LEN \<Rightarrow> None
      | _ \<Rightarrow> Some 0)"

definition constfolding :: "num_ops \<Rightarrow> OpCode \<Rightarrow> Expr \<Rightarrow> Expr \<Rightarrow> bool \<times> Expr" where
  "constfolding ar op left right =
     (if \<not> isnumeral left \<or> \<not> isnumeral right then (False, left)
      else case fold_value ar op (nval left) (nval right) of
             None \<Rightarrow> (False, left)
           | Some r \<Rightarrow> if luai_numisnan r then (False, left) else (True, left\<lparr>nval := r\<rparr>))"

definition codearith :: "num_ops \<Rightarrow> FuncState \<Rightarrow> OpCode \<Rightarrow> Expr \<Rightarrow> Expr \<Rightarrow> (FuncState \<times> Expr \<times> Expr) result" where
  "codearith ar fs op left right =
     (case constfolding ar op left right of
        (True, left) \<Rightarrow> Inr (fs, left, right)
      | (False, left) \<Rightarrow>
          seqR (if op \<noteq> OP_UNM \<and> op \<noteq> OP_LEN then luaK_exp2RK fs right else Inr (fs, right, 0))
            (\<lambda>(fs, right, rkc).
          seqR (luaK_exp2RK fs left) (\<lambda>(fs, left, rkb).
          let fs = (if rkb > rkc then freeexp (freeexp fs left) right else freeexp (freeexp fs right) left) in
          seqR (luaK_codeABC fs op 0 rkb rkc) (\<lambda>(fs, p).
          Inr (fs, expr_set_info left EXPR_RELOCABLE p, right)))))"

definition codecomp :: "FuncState \<Rightarrow> OpCode \<Rightarrow> bool \<Rightarrow> Expr \<Rightarrow> Expr \<Rightarrow> (FuncState \<times> Expr \<times> Expr) result" where
  "codecomp fs op cond left right =
     seqR (luaK_exp2RK fs left) (\<lambda>(fs, left, rkb).
     seqR (luaK_exp2RK fs right) (\<lambda>(fs, right, rkc).
     let fs = freeexp (freeexp fs right) left;
         (cond, rkb, rkc) = (if \<not> cond \<and> op \<noteq> OP_EQ then (True, rkc, rkb) else (cond, rkb, rkc)) in
     seqR (condjump fs op (if cond then 1 else 0) rkb rkc) (\<lambda>(fs, p).
     Inr (fs, expr_set_info left EXPR_JUMP p, right))))"

definition luaK_prefix :: "num_ops \<Rightarrow> FuncState \<Rightarrow> UnOpr \<Rightarrow> Expr \<Rightarrow> (FuncState \<times> Expr) result" where
  "luaK_prefix ar fs op left =
     (let dummy = \<lparr>kind = EXPR_NUMBER, info = 0, aux = 0, nval = 0, patch_true = NO_JUMP, patch_false = NO_JUMP\<rparr> in
      case op of
        OPR_MINUS \<Rightarrow>
          seqR (if \<not> isnumeral left
                then seqR (luaK_exp2anyreg fs left) (\<lambda>(fs, left, _). Inr (fs, left))
                else Inr (fs, left)) (\<lambda>(fs, left).
          seqR (codearith ar fs OP_UNM left dummy) (\<lambda>(fs, left, _). Inr (fs, left)))
      | OPR_NOT \<Rightarrow> codenot fs left
      | OPR_LEN \<Rightarrow>
          seqR (luaK_exp2anyreg fs left) (\<lambda>(fs, left, _).
          seqR (codearith ar fs OP_LEN left dummy) (\<lambda>(fs, left, _). Inr (fs, left)))
      | OPR_NOUNOPR \<Rightarrow> Inr (fs, left))"

definition luaK_infix :: "FuncState \<Rightarrow> BinOpr \<Rightarrow> Expr \<Rightarrow> (FuncState \<times> Expr) result" where
  "luaK_infix fs op left =
     (if op = OPR_AND then luaK_goiftrue fs left
      else if op = OPR_OR then luaK_goiffalse fs left
      else if op = OPR_CONCAT then luaK_exp2nextreg fs left
      else if op \<in> {OPR_ADD, OPR_SUB, OPR_MUL, OPR_DIV, OPR_MOD, OPR_POW} \<and> isnumeral left then Inr (fs, left)
      else seqR (luaK_exp2RK fs left) (\<lambda>(fs, left, _). Inr (fs, left)))"

text \<open>The descriptor of the result is \<open>left\<close>.\<close>

definition posfix_concat :: "num_ops \<Rightarrow> FuncState \<Rightarrow> Expr \<Rightarrow> Expr \<Rightarrow> (FuncState \<times> Expr) result" where
  "posfix_concat ar fs left right =
     seqR (luaK_exp2val fs right) (\<lambda>(fs, right).
     let push = seqR (luaK_exp2nextreg fs right) (\<lambda>(fs, right).
                seqR (codearith ar fs OP_CONCAT left right) (\<lambda>(fs, left, _). Inr (fs, left)))
     in if kind right = EXPR_RELOCABLE then
          seqR (getins fs (info right)) (\<lambda>ip.
            if GET_OPCODE ip = op_num OP_CONCAT then
              let fs = freeexp fs left in
              seqR (setins fs (info right) (SETARG_B ip (info left))) (\<lambda>fs.
              Inr (fs, expr_set_info left EXPR_RELOCABLE (info right)))
            else push)
        else push)"

definition luaK_posfix :: "num_ops \<Rightarrow> FuncState \<Rightarrow> BinOpr \<Rightarrow> Expr \<Rightarrow> Expr \<Rightarrow> (FuncState \<times> Expr) result" where
  "luaK_posfix ar fs op left right =
     (let arith = (\<lambda>op. seqR (codearith ar fs op left right) (\<lambda>(fs, left, _). Inr (fs, left)));
          comp = (\<lambda>op cond. seqR (codecomp fs op cond left right) (\<lambda>(fs, left, _). Inr (fs, left)))
      in case op of
        OPR_AND \<Rightarrow>
          seqR (luaK_dischargevars fs right) (\<lambda>(fs, right).
          seqR (luaK_concat fs (patch_false right) (patch_false left)) (\<lambda>(fs, l).
          Inr (fs, right\<lparr>patch_false := l\<rparr>)))
      | OPR_OR \<Rightarrow>
          seqR (luaK_dischargevars fs right) (\<lambda>(fs, right).
          seqR (luaK_concat fs (patch_true right) (patch_true left)) (\<lambda>(fs, l).
          Inr (fs, right\<lparr>patch_true := l\<rparr>)))
      | OPR_CONCAT \<Rightarrow> posfix_concat ar fs left right
      | OPR_ADD \<Rightarrow> arith OP_ADD
      | OPR_SUB \<Rightarrow> arith OP_SUB
      | OPR_MUL \<Rightarrow> arith OP_MUL
      | OPR_DIV \<Rightarrow> arith OP_DIV
      | OPR_MOD \<Rightarrow> arith OP_MOD
      | OPR_POW \<Rightarrow> arith OP_POW
      | OPR_EQ \<Rightarrow> comp OP_EQ True
      | OPR_NE \<Rightarrow> comp OP_EQ False
      | OPR_LT \<Rightarrow> comp OP_LT True
      | OPR_LE \<Rightarrow> comp OP_LE True
      | OPR_GT \<Rightarrow> comp OP_LT False
      | OPR_GE \<Rightarrow> comp OP_LE False
      | OPR_NOBINOPR \<Rightarrow> Inr (fs, left))"

end
