(* ===== verification/JumpList.thy ===== *)
theory JumpList
  imports Code
begin

text \<open>
  The jump lists of the code generator: what a list is, that walking, joining and patching
  one always come to an end, and what they do to every instruction of the function.
\<close>

section \<open>Lists in the code\<close>

text \<open>Where the jump at \<open>p\<close> leads, \<open>-1\<close> for the end of its list.\<close>

definition follow :: "u32 list \<Rightarrow> int \<Rightarrow> int" where
  "follow c p = (let off = GETARG_sBx (c ! nat p) in if off = -1 then -1 else p + 1 + off)"

definition in_code :: "u32 list \<Rightarrow> int \<Rightarrow> bool" where
  "in_code c p \<longleftrightarrow> 0 \<le> p \<and> nat p < length c"

definition is_jmp :: "u32 list \<Rightarrow> int \<Rightarrow> bool" where
  "is_jmp c p \<longleftrightarrow> in_code c p \<and> GET_OPCODE (c ! nat p) = op_num OP_JMP"

inductive jlist :: "u32 list \<Rightarrow> int \<Rightarrow> int list \<Rightarrow> bool" for c where
  jl_nil: "jlist c (-1) []"
| jl_cons: "is_jmp c p \<Longrightarrow> jlist c (follow c p) ps \<Longrightarrow> p \<notin> set ps \<Longrightarrow> jlist c p (p # ps)"

inductive_simps jlist_Nil [simp]: "jlist c p []"
inductive_simps jlist_Cons: "jlist c p (q # ps)"
inductive_cases jlist_consE: "jlist c p (q # ps)"

lemma jlist_distinct: "jlist c p ps \<Longrightarrow> distinct ps"
  by (induction rule: jlist.induct) auto

lemma jlist_jmp: "jlist c p ps \<Longrightarrow> q \<in> set ps \<Longrightarrow> is_jmp c q"
  by (induction rule: jlist.induct) auto

lemma is_jmp_nonneg: "is_jmp c q \<Longrightarrow> 0 \<le> q"
  by (simp add: is_jmp_def in_code_def)

lemma jlist_minus: "jlist c (-1) ps \<longleftrightarrow> ps = []"
  by (cases ps) (auto simp: jlist_Cons is_jmp_def in_code_def intro: jlist.jl_nil)

lemma jlist_hd: "jlist c p ps \<Longrightarrow> p \<noteq> -1 \<Longrightarrow> \<exists>qs. ps = p # qs"
  by (cases rule: jlist.cases) auto

lemma jlist_unique: "jlist c p ps \<Longrightarrow> jlist c p qs \<Longrightarrow> ps = qs"
proof (induction arbitrary: qs rule: jlist.induct)
  case jl_nil
  then show ?case by (simp add: jlist_minus)
next
  case (jl_cons p ps)
  have "p \<noteq> -1" using is_jmp_nonneg [OF jl_cons.hyps(1)] by simp
  then obtain rs where qs: "qs = p # rs" using jl_cons.prems jlist_hd by blast
  then have "jlist c (follow c p) rs" using jl_cons.prems by (simp add: jlist_Cons)
  with jl_cons.IH qs show ?case by simp
qed

lemma jlist_length: "jlist c p ps \<Longrightarrow> length ps \<le> length c"
proof -
  assume l: "jlist c p ps"
  have "0 \<le> q" if "q \<in> set ps" for q using jlist_jmp [OF l that] is_jmp_nonneg by blast
  then have "inj_on nat (set ps)" by (simp add: inj_on_def nat_eq_iff2)
  then have "length ps = card (nat ` set ps)"
    using distinct_card [OF jlist_distinct [OF l]] by (simp add: card_image)
  also have "\<dots> \<le> card {..< length c}"
    using jlist_jmp [OF l] by (intro card_mono) (auto simp: is_jmp_def in_code_def)
  finally show ?thesis by simp
qed

text \<open>A list stays a list when its jumps do.\<close>

lemma jlist_cong:
  assumes "jlist c p ps" "length c \<le> length c'" "\<And>q. q \<in> set ps \<Longrightarrow> c' ! nat q = c ! nat q"
  shows "jlist c' p ps"
  using assms
proof (induction rule: jlist.induct)
  case (jl_cons p ps)
  have "is_jmp c' p" "follow c' p = follow c p"
    using jl_cons by (auto simp: is_jmp_def in_code_def follow_def)
  with jl_cons show ?case by (auto intro: jlist.intros)
qed (rule jlist.jl_nil)

lemma jlist_last: "jlist c p ps \<Longrightarrow> ps \<noteq> [] \<Longrightarrow> follow c (last ps) = -1"
  by (induction rule: jlist.induct) (auto elim: jlist.cases)

lemma getjump_follow [simp]: "in_code (code fs) p \<Longrightarrow> getjump fs p = Inr (follow (code fs) p)"
  by (simp add: getjump_def getins_def in_code_def follow_def Let_def)

lemma is_jmp_in [intro]: "is_jmp c p \<Longrightarrow> in_code c p"
  by (simp add: is_jmp_def)

section \<open>Joining lists\<close>

lemma getjumproot_list:
  assumes "jlist (code fs) p ps" "ps \<noteq> []" "length ps \<le> f"
  shows "getjumproot_loop f fs p = Inr (last ps)"
  using assms
proof (induction f arbitrary: p ps)
  case (Suc f)
  obtain qs where ps: "ps = p # qs" and j: "in_code (code fs) p" and l: "jlist (code fs) (follow (code fs) p) qs"
    using Suc.prems(1,2) by (cases rule: jlist.cases) auto
  show ?case
  proof (cases "qs = []")
    case True
    with l have "follow (code fs) p = -1" by (auto elim: jlist.cases)
    with True ps j show ?thesis by auto
  next
    case False
    then have "follow (code fs) p \<noteq> -1" using l jlist_minus by force
    with False Suc l ps j show ?thesis by auto
  qed
qed simp

lemma follow_fix:
  assumes "in_code c p" "\<bar>d - (p + 1)\<bar> \<le> MAXARG_sBx" "0 \<le> d" "d \<noteq> p"
  shows "follow (c[nat p := SETARG_sBx (c ! nat p) (d - (p + 1))]) p = d"
  using assms SETARG_sBx_same [of "d - (p + 1)"] by (simp add: follow_def in_code_def)

lemma follow_other: "nat q \<noteq> nat p \<Longrightarrow> follow (c[nat p := x]) q = follow c q"
  by (simp add: follow_def)

lemma fixjump_in:
  "in_code (code fs) p \<Longrightarrow> fixjump fs p d =
     (if \<bar>d - (p + 1)\<bar> > MAXARG_sBx then Inl (SyntaxError ''control structure too long'')
      else Inr (fs\<lparr>code := (code fs)[nat p := SETARG_sBx (code fs ! nat p) (d - (p + 1))]\<rparr>))"
  by (simp add: fixjump_def getins_def setins_def in_code_def Let_def)

lemma is_jmp_fix: "is_jmp c q \<Longrightarrow> is_jmp (c[nat p := SETARG_sBx (c ! nat p) x]) q"
  by (cases "nat p = nat q") (auto simp: is_jmp_def in_code_def nth_list_update)

lemma jlist_join:
  assumes "jlist c p ps" "ps \<noteq> []" "jlist c r rs" "r \<noteq> -1" "set ps \<inter> set rs = {}"
    and off: "\<bar>r - (last ps + 1)\<bar> \<le> MAXARG_sBx"
  shows "jlist (c[nat (last ps) := SETARG_sBx (c ! nat (last ps)) (r - (last ps + 1))]) p (ps @ rs)"
    (is "jlist ?c p _")
  using assms(1,2,5,6)
proof (induction rule: jlist.induct)
  case (jl_cons p ps)
  let ?l = "last (p # ps)"
  let ?c = "c[nat ?l := SETARG_sBx (c ! nat ?l) (r - (?l + 1))]"
  have r0: "0 \<le> r" "r \<in> set rs"
    using assms(3,4) by (auto elim: jlist.cases dest: is_jmp_nonneg)
  have p0: "0 \<le> p" using jl_cons.hyps(1) is_jmp_nonneg by blast
  show ?case
  proof (cases "ps = []")
    case True
    have "r \<noteq> p" using jl_cons.prems r0 by auto
    then have f: "follow ?c p = r"
      using True jl_cons.prems(3) jl_cons.hyps(1) r0 follow_fix [of c p r] by auto
    have "jlist ?c r rs"
    proof (rule jlist_cong [OF assms(3)])
      fix q assume "q \<in> set rs"
      then have "q \<noteq> p" "0 \<le> q"
        using jl_cons.prems jlist_jmp [OF assms(3)] is_jmp_nonneg by auto
      then have "nat q \<noteq> nat p" using p0 by auto
      then show "?c ! nat q = c ! nat q" using True by simp
    qed simp
    moreover have "is_jmp ?c p" using jl_cons.hyps(1) is_jmp_fix by blast
    ultimately show ?thesis using True f jl_cons.prems by (auto intro: jlist.jl_cons)
  next
    case False
    have "last ps \<in> set ps" using False by simp
    then have "last ps \<noteq> p" "0 \<le> last ps"
      using jl_cons.hyps jlist_jmp is_jmp_nonneg by (metis, metis)
    then have "nat p \<noteq> nat ?l" using False p0 by auto
    then have "follow ?c p = follow c p" by (simp add: follow_def)
    moreover have "is_jmp ?c p" using jl_cons.hyps(1) is_jmp_fix by blast
    moreover have "jlist ?c (follow c p) (ps @ rs)" using jl_cons False by simp
    moreover have "p \<notin> set (ps @ rs)" using jl_cons.hyps(3) jl_cons.prems by auto
    ultimately show ?thesis by (simp add: jlist.jl_cons)
  qed
qed simp

text \<open>The jump at the end of the first list is the only instruction a join writes.\<close>

lemma concat_list:
  assumes "jlist (code fs) l1 ps" "jlist (code fs) l2 rs" "set ps \<inter> set rs = {}"
  shows "(\<exists>c l. luaK_concat fs l1 l2 = Inr (fs\<lparr>code := c\<rparr>, l) \<and> jlist c l (ps @ rs) \<and>
      length c = length (code fs) \<and> (\<forall>i < length c. (ps = [] \<or> i \<noteq> nat (last ps)) \<longrightarrow> c ! i = code fs ! i) \<and>
      (\<forall>q. is_jmp (code fs) q \<longrightarrow> is_jmp c q) \<and>
      (\<forall>i < length c. GET_OPCODE (c ! i) = GET_OPCODE (code fs ! i))) \<or>
    ps \<noteq> [] \<and> rs \<noteq> [] \<and> \<bar>l2 - (last ps + 1)\<bar> > MAXARG_sBx \<and>
      luaK_concat fs l1 l2 = Inl (SyntaxError ''control structure too long'')"
proof (cases "l2 = -1 \<or> l1 = -1")
  case True
  then consider "l2 = -1" "rs = []" | "l2 \<noteq> -1" "l1 = -1" "ps = []"
    using assms jlist_minus by metis
  then show ?thesis
  proof cases
    case 1
    then have "luaK_concat fs l1 l2 = Inr (fs\<lparr>code := code fs\<rparr>, l1)" by (simp add: luaK_concat_def)
    with 1 assms(1) show ?thesis by fastforce
  next
    case 2
    then have "luaK_concat fs l1 l2 = Inr (fs\<lparr>code := code fs\<rparr>, l2)" by (simp add: luaK_concat_def)
    with 2 assms(2) show ?thesis by fastforce
  qed
next
  case False
  have ne: "ps \<noteq> []" "rs \<noteq> []" using False assms(1,2) jlist_minus by (metis jlist_Nil)+
  have len: "length ps \<le> LIST_FUEL fs" using jlist_length [OF assms(1)] by (simp add: LIST_FUEL_def)
  have root: "getjumproot fs l1 = Inr (last ps)"
    unfolding getjumproot_def by (rule getjumproot_list [OF assms(1) ne(1) len])
  have inc: "in_code (code fs) (last ps)" using jlist_jmp [OF assms(1)] ne by auto
  let ?c = "(code fs)[nat (last ps) := SETARG_sBx (code fs ! nat (last ps)) (l2 - (last ps + 1))]"
  show ?thesis
  proof (cases "\<bar>l2 - (last ps + 1)\<bar> \<le> MAXARG_sBx")
    case True
    then have eq: "luaK_concat fs l1 l2 = Inr (fs\<lparr>code := ?c\<rparr>, l1)"
      using False root inc by (simp add: luaK_concat_def fixjump_in)
    have "jlist ?c l1 (ps @ rs)" using jlist_join [OF assms(1) ne(1) assms(2) _ assms(3) True] False by simp
    moreover have "\<forall>i < length ?c. GET_OPCODE (?c ! i) = GET_OPCODE (code fs ! i)"
      using inc by (auto simp: nth_list_update in_code_def)
    moreover have "\<forall>q. is_jmp (code fs) q \<longrightarrow> is_jmp ?c q" using is_jmp_fix by blast
    ultimately show ?thesis using eq ne by (intro disjI1 exI [of _ ?c] exI [of _ l1]) auto
  next
    case far: False
    then show ?thesis using False root inc ne by (simp add: luaK_concat_def fixjump_in)
  qed
qed

section \<open>Patching a list\<close>

definition testset :: "u32 list \<Rightarrow> int \<Rightarrow> bool" where
  "testset c p \<longleftrightarrow> 1 \<le> p \<and> GET_OPCODE (c ! nat (p - 1)) = op_num OP_TESTSET"

text \<open>What becomes of the \<open>OP_TESTSET\<close> in front of a patched jump.\<close>

definition retarget :: "int \<Rightarrow> u32 \<Rightarrow> u32" where
  "retarget reg ip =
     (if reg \<noteq> NO_REG \<and> reg \<noteq> GETARG_B ip then SETARG_A ip reg
      else CREATE_ABC (op_num OP_TEST) (GETARG_B ip) 0 (GETARG_C ip))"

lemma testTMode_27: "testTMode 27"
  by (simp add: testTMode_def luaP_opmodes_def opmode_def)

lemma patchtestreg_jmp:
  assumes "is_jmp (code fs) p"
  shows "patchtestreg fs p reg = Inr (if testset (code fs) p
    then (fs\<lparr>code := (code fs)[nat (p - 1) := retarget reg (code fs ! nat (p - 1))]\<rparr>, True) else (fs, False))"
proof -
  have p: "0 \<le> p" "nat p < length (code fs)" "GET_OPCODE (code fs ! nat p) = op_num OP_JMP"
    using assms by (auto simp: is_jmp_def in_code_def)
  have i: "nat (p - 1) < length (code fs)" using p(2) by linarith
  show ?thesis
  proof (cases "testset (code fs) p")
    case True
    then have "1 \<le> p" "GET_OPCODE (code fs ! nat (p - 1)) = op_num OP_TESTSET" by (auto simp: testset_def)
    with True i show ?thesis
      by (simp add: patchtestreg_def getjumpcontrol_def getins_def setins_def retarget_def Let_def testTMode_27)
  next
    case False
    have "getjumpcontrol fs p = Inr p \<or> 1 \<le> p \<and> getjumpcontrol fs p = Inr (p - 1)"
      using i by (simp add: getjumpcontrol_def getins_def)
    with False show ?thesis
      using p i by (auto simp: patchtestreg_def getins_def testset_def)
  qed
qed

definition jump_target :: "u32 list \<Rightarrow> int \<Rightarrow> int \<Rightarrow> int \<Rightarrow> int" where
  "jump_target c vt dt q = (if testset c q then vt else dt)"

definition patched_ins :: "u32 list \<Rightarrow> int \<Rightarrow> int \<Rightarrow> int \<Rightarrow> int list \<Rightarrow> nat \<Rightarrow> u32" where
  "patched_ins c reg vt dt ps i =
     (if int i \<in> set ps then SETARG_sBx (c ! i) (jump_target c vt dt (int i) - (int i + 1))
      else if int i + 1 \<in> set ps \<and> testset c (int i + 1) then retarget reg (c ! i)
      else c ! i)"

definition patched :: "u32 list \<Rightarrow> int \<Rightarrow> int \<Rightarrow> int \<Rightarrow> int list \<Rightarrow> u32 list" where
  "patched c reg vt dt ps = map (patched_ins c reg vt dt ps) [0 ..< length c]"

definition in_reach :: "u32 list \<Rightarrow> int \<Rightarrow> int \<Rightarrow> int list \<Rightarrow> bool" where
  "in_reach c vt dt ps \<longleftrightarrow> (\<forall>q \<in> set ps. \<bar>jump_target c vt dt q - (q + 1)\<bar> \<le> MAXARG_sBx)"

lemma length_patched [simp]: "length (patched c reg vt dt ps) = length c"
  by (simp add: patched_def)

lemma patched_Nil [simp]: "patched c reg vt dt [] = c"
  by (rule nth_equalityI) (simp_all add: patched_def patched_ins_def)

definition patch_one :: "u32 list \<Rightarrow> int \<Rightarrow> int \<Rightarrow> int \<Rightarrow> int \<Rightarrow> u32 list" where
  "patch_one c reg vt dt p =
     (if testset c p then c[nat (p - 1) := retarget reg (c ! nat (p - 1))] else c)
       [nat p := SETARG_sBx (c ! nat p) (jump_target c vt dt p - (p + 1))]"

lemma length_patch_one [simp]: "length (patch_one c reg vt dt p) = length c"
  by (simp add: patch_one_def)

lemma patch_one_nth:
  assumes "is_jmp c p" "i < length c"
  shows "patch_one c reg vt dt p ! i = patched_ins c reg vt dt [p] i"
proof -
  have p: "0 \<le> p" "nat p < length c" using assms(1) by (auto simp: is_jmp_def in_code_def)
  consider "int i = p" | "int i + 1 = p" | "int i \<noteq> p" "int i + 1 \<noteq> p" by blast
  then show ?thesis
  proof cases
    case 1
    then show ?thesis using p by (auto simp: patch_one_def patched_ins_def)
  next
    case 2
    then have "nat p \<noteq> i" "nat (p - 1) = i" by auto
    with 2 assms(2) show ?thesis by (auto simp: patch_one_def patched_ins_def)
  next
    case 3
    then have "nat p \<noteq> i" "1 \<le> p \<Longrightarrow> nat (p - 1) \<noteq> i" using p by auto
    then show ?thesis using 3 by (auto simp: patch_one_def patched_ins_def testset_def)
  qed
qed

lemma patch_one_same:
  assumes "is_jmp c p" "is_jmp c q" "q \<noteq> p"
  shows "patch_one c reg vt dt p ! nat q = c ! nat q" and "testset (patch_one c reg vt dt p) q = testset c q"
proof -
  have q: "0 \<le> q" "nat q < length c" "GET_OPCODE (c ! nat q) = op_num OP_JMP"
    using assms(2) by (auto simp: is_jmp_def in_code_def)
  have pj: "GET_OPCODE (c ! nat p) = op_num OP_JMP" using assms(1) by (simp add: is_jmp_def)
  have "\<not> testset c (q + 1)" using q by (simp add: testset_def)
  then show "patch_one c reg vt dt p ! nat q = c ! nat q"
    using patch_one_nth [OF assms(1) q(2)] assms(3) q(1) by (auto simp: patched_ins_def)
  show "testset (patch_one c reg vt dt p) q = testset c q"
  proof (cases "1 \<le> q")
    case True
    then have i: "nat (q - 1) < length c" "int (nat (q - 1)) = q - 1" using q by auto
    have "GET_OPCODE (patch_one c reg vt dt p ! nat (q - 1)) = GET_OPCODE (c ! nat (q - 1))"
      using patch_one_nth [OF assms(1) i(1)] i(2) assms(3) by (simp add: patched_ins_def)
    then show ?thesis by (simp add: testset_def)
  qed (simp add: testset_def)
qed

lemma patched_cons:
  assumes "is_jmp c p" "\<forall>q \<in> set ps. is_jmp c q" "p \<notin> set ps"
  shows "patched (patch_one c reg vt dt p) reg vt dt ps = patched c reg vt dt (p # ps)"
proof (rule nth_equalityI, simp)
  let ?d = "patch_one c reg vt dt p"
  fix i assume "i < length (patched ?d reg vt dt ps)"
  then have i: "i < length c" by simp
  have nth: "?d ! i = patched_ins c reg vt dt [p] i" by (rule patch_one_nth [OF assms(1) i])
  have same: "?d ! nat q = c ! nat q" "testset ?d q = testset c q" if "q \<in> set ps" for q
    using patch_one_same [OF assms(1)] assms(2,3) that by (metis, metis)
  have "patched_ins ?d reg vt dt ps i = patched_ins c reg vt dt (p # ps) i"
  proof (cases "int i \<in> set ps")
    case True
    then have "int i \<noteq> p" using assms(3) by auto
    with True same [OF True] show ?thesis by (simp add: patched_ins_def jump_target_def)
  next
    case out: False
    show ?thesis
    proof (cases "int i + 1 \<in> set ps \<and> testset c (int i + 1)")
      case True
      then have "int i + 1 \<noteq> p" "\<not> is_jmp c (int i)"
        using assms(3) by (auto simp: testset_def is_jmp_def)
      with True out same nth assms(1) show ?thesis by (auto simp: patched_ins_def)
    next
      case False
      with out same nth show ?thesis by (auto simp: patched_ins_def)
    qed
  qed
  with i show "patched ?d reg vt dt ps ! i = patched c reg vt dt (p # ps) ! i"
    by (simp add: patched_def)
qed

lemma patch_one_step:
  assumes "is_jmp (code fs) p" "\<bar>jump_target (code fs) vt dt p - (p + 1)\<bar> \<le> MAXARG_sBx"
  shows "patchlist_loop (Suc f) fs p vt reg dt =
    patchlist_loop f (fs\<lparr>code := patch_one (code fs) reg vt dt p\<rparr>) (follow (code fs) p) vt reg dt"
proof -
  have p: "0 \<le> p" "in_code (code fs) p" using assms(1) by (auto simp: is_jmp_def in_code_def)
  have "nat (p - 1) \<noteq> nat p" if "testset (code fs) p" using that by (auto simp: testset_def)
  then show ?thesis
    using p assms by (auto simp: patchtestreg_jmp fixjump_in jump_target_def patch_one_def in_code_def)
qed

lemma patchlist_list:
  assumes "jlist (code fs) p ps" "length ps < f"
  shows "patchlist_loop f fs p vt reg dt =
    (if in_reach (code fs) vt dt ps then Inr (fs\<lparr>code := patched (code fs) reg vt dt ps\<rparr>)
     else Inl (SyntaxError ''control structure too long''))"
  using assms
proof (induction ps arbitrary: fs p f rule: list.induct)
  case Nil
  then obtain f' where "f = Suc f'" by (cases f) auto
  moreover have "p = -1" using Nil.prems(1) by (auto elim: jlist.cases)
  ultimately show ?case by (simp add: in_reach_def)
next
  case (Cons q ps)
  have q: "p = q" "is_jmp (code fs) p" "jlist (code fs) (follow (code fs) p) ps" "p \<notin> set ps"
    using Cons.prems(1) by (auto simp: jlist_Cons)
  have jmps: "\<forall>r \<in> set ps. is_jmp (code fs) r" using q(3) jlist_jmp by blast
  obtain f' where f: "f = Suc f'" using Cons.prems(2) by (cases f) auto
  let ?c = "patch_one (code fs) reg vt dt p"
  show ?case
  proof (cases "\<bar>jump_target (code fs) vt dt p - (p + 1)\<bar> \<le> MAXARG_sBx")
    case True
    have same: "?c ! nat r = code fs ! nat r" "testset ?c r = testset (code fs) r" if "r \<in> set ps" for r
      using patch_one_same [OF q(2)] jmps q(4) that by (metis, metis)
    have "jlist ?c (follow (code fs) p) ps" by (rule jlist_cong [OF q(3)]) (use same in auto)
    then have "jlist (code (fs\<lparr>code := ?c\<rparr>)) (follow (code fs) p) ps" by simp
    moreover have "length ps < f'" using Cons.prems(2) f by simp
    ultimately have "patchlist_loop f' (fs\<lparr>code := ?c\<rparr>) (follow (code fs) p) vt reg dt =
      (if in_reach ?c vt dt ps then Inr (fs\<lparr>code := patched ?c reg vt dt ps\<rparr>)
       else Inl (SyntaxError ''control structure too long''))"
      using Cons.IH [of "fs\<lparr>code := ?c\<rparr>"] by simp
    moreover have "in_reach ?c vt dt ps = in_reach (code fs) vt dt (q # ps)"
      using same True q(1) by (auto simp: in_reach_def jump_target_def)
    ultimately show ?thesis
      using patch_one_step [OF q(2) True] patched_cons [OF q(2) jmps q(4)] f q(1) by simp
  next
    case False
    then have "\<not> in_reach (code fs) vt dt (q # ps)" using q(1) by (simp add: in_reach_def)
    moreover have "0 \<le> p" "in_code (code fs) p" using q(2) by (auto simp: is_jmp_def in_code_def)
    moreover have "patchlist_loop f fs p vt reg dt = Inl (SyntaxError ''control structure too long'')"
      using False f q(2) \<open>0 \<le> p\<close> \<open>in_code (code fs) p\<close>
      by (auto simp: patchtestreg_jmp fixjump_in jump_target_def in_code_def)
    ultimately show ?thesis by simp
  qed
qed

lemma patchlistaux_list:
  assumes "jlist (code fs) p ps"
  shows "patchlistaux fs p vt reg dt =
    (if in_reach (code fs) vt dt ps then Inr (fs\<lparr>code := patched (code fs) reg vt dt ps\<rparr>)
     else Inl (SyntaxError ''control structure too long''))"
  unfolding patchlistaux_def
  by (rule patchlist_list [OF assms]) (use jlist_length [OF assms] in \<open>simp add: LIST_FUEL_def\<close>)

end
