(* ===== verification/CodeSpec.thy ===== *)
theory CodeSpec
  imports JumpList
begin

text \<open>
  What the code generator promises: where jumps land, that an emitted instruction stays as
  it is, the register discipline, constant folding, and the one instruction word that the
  jump lists may damage.
\<close>

section \<open>Emitting an instruction\<close>

text \<open>
  \<open>pending fs ps\<close>: the jumps on hold until the next instruction is emitted. They lie below
  \<open>pc\<close>.
\<close>

definition written :: "FuncState \<Rightarrow> u32 list" where
  "written fs = take (nat (pc fs)) (code fs)"

definition pending :: "FuncState \<Rightarrow> int list \<Rightarrow> bool" where
  "pending fs ps \<longleftrightarrow> jlist (written fs) (jpc fs) ps"

definition code_ok :: "FuncState \<Rightarrow> bool" where
  "code_ok fs \<longleftrightarrow> 0 \<le> pc fs \<and> nat (pc fs) \<le> length (code fs) \<and> length (lineinfo fs) = length (code fs) \<and>
     int (length (code fs)) \<le> size_code fs \<and> size_code fs \<le> MAX_INT \<and> size_lineinfo fs = size_code fs \<and>
     (\<exists>ps. pending fs ps)"

lemma jlist_written: "jlist (written fs) p ps \<Longrightarrow> jlist (code fs) p ps"
proof (rule jlist_cong)
  fix q assume "jlist (written fs) p ps" "q \<in> set ps"
  then have "is_jmp (written fs) q" by (rule jlist_jmp)
  then show "code fs ! nat q = written fs ! nat q" by (auto simp: written_def is_jmp_def in_code_def)
qed (auto simp: written_def)

lemma jlist_below:
  assumes "jlist (written fs) p ps" "q \<in> set ps"
  shows "0 \<le> q" "q < pc fs" "nat q < length (code fs)" "GET_OPCODE (code fs ! nat q) = op_num OP_JMP"
  using jlist_jmp [OF assms] by (auto simp: is_jmp_def in_code_def written_def)

lemma jlist_take:
  assumes "jlist c p ps" "\<And>q. q \<in> set ps \<Longrightarrow> q < n"
  shows "jlist (take (nat n) c) p ps"
  using assms
proof (induction rule: jlist.induct)
  case (jl_cons p ps)
  have "nat p < nat n" using jl_cons.prems [of p] is_jmp_nonneg [OF jl_cons.hyps(1)] by simp
  then have "is_jmp (take (nat n) c) p" "follow (take (nat n) c) p = follow c p"
    using jl_cons.hyps(1) by (auto simp: is_jmp_def in_code_def follow_def)
  with jl_cons show ?case by (auto intro: jlist.intros)
qed (rule jlist.jl_nil)

lemma jlist_patched:
  "q \<in> set ps \<Longrightarrow> nat q < length c \<Longrightarrow> 0 \<le> q \<Longrightarrow>
    patched c reg vt dt ps ! nat q = SETARG_sBx (c ! nat q) (jump_target c vt dt q - (q + 1))"
  by (simp add: patched_def patched_ins_def)

lemma patched_same:
  "i < length c \<Longrightarrow> int i \<notin> set ps \<Longrightarrow> \<not> (int i + 1 \<in> set ps \<and> testset c (int i + 1)) \<Longrightarrow>
    patched c reg vt dt ps ! i = c ! i"
  by (auto simp: patched_def patched_ins_def)

lemma patched_follow:
  assumes "in_reach c t t ps" "q \<in> set ps" "nat q < length c" "0 \<le> q" "q \<noteq> t" "0 \<le> t"
    "d ! nat q = patched c reg t t ps ! nat q"
  shows "follow d q = t"
proof -
  have "\<bar>t - (q + 1)\<bar> \<le> MAXARG_sBx" using assms(1,2) by (simp add: in_reach_def jump_target_def)
  then show ?thesis
    using assms SETARG_sBx_same [of "t - (q + 1)"]
    by (simp add: follow_def jlist_patched jump_target_def)
qed

lemma dischargejpc_list:
  assumes "jlist (code fs) (jpc fs) ps"
  shows "dischargejpc fs =
    (if in_reach (code fs) (pc fs) (pc fs) ps
     then Inr (fs\<lparr>code := patched (code fs) NO_REG (pc fs) (pc fs) ps, jpc := NO_JUMP\<rparr>)
     else Inl (SyntaxError ''control structure too long''))"
  using patchlistaux_list [OF assms] by (simp add: dischargejpc_def)

text \<open>The state after emitting.\<close>

lemma luaK_code_cases:
  assumes ok: "code_ok fs" and ps: "pending fs ps"
  shows "luaK_code fs i line =
     (if \<not> in_reach (code fs) (pc fs) (pc fs) ps then Inl (SyntaxError ''control structure too long'')
      else if pc fs = MAX_INT then Inl (RunError ''code size overflow'')
      else (let sz = (if pc fs < size_code fs then size_code fs
                      else if size_code fs < MAX_INT div 2 then max 4 (2 * size_code fs) else MAX_INT)
            in Inr (fs\<lparr>code := put_at (patched (code fs) NO_REG (pc fs) (pc fs) ps) (nat (pc fs)) i,
                 size_code := sz, lineinfo := put_at (lineinfo fs) (nat (pc fs)) line, size_lineinfo := sz,
                 jpc := NO_JUMP, pc := pc fs + 1\<rparr>, pc fs)))"
proof -
  have l: "jlist (code fs) (jpc fs) ps" using ps jlist_written by (simp add: pending_def)
  have pc: "0 \<le> pc fs" "pc fs \<le> size_code fs" "size_code fs \<le> MAX_INT" "size_lineinfo fs = size_code fs"
    using ok by (auto simp: code_ok_def)
  have g: "luaM_growvector (pc fs) (size_code fs) MAX_INT e =
      (if pc fs < size_code fs then Inr (size_code fs)
       else if size_code fs = MAX_INT then Inl (RunError e)
       else Inr (if size_code fs < MAX_INT div 2 then max 4 (2 * size_code fs) else MAX_INT))" for e
    using pc by (auto simp: luaM_growvector_def luaM_growaux_def MINSIZEARRAY_def Let_def)
  have full: "pc fs = MAX_INT \<longleftrightarrow> \<not> pc fs < size_code fs \<and> size_code fs = MAX_INT" using pc by auto
  show ?thesis
    using pc full by (simp add: luaK_code_def dischargejpc_list [OF l] g Let_def del: int_limits)
qed

text \<open>What a caller of \<open>luaK_code\<close> relies on.\<close>

definition emitted :: "FuncState \<Rightarrow> int list \<Rightarrow> u32 \<Rightarrow> int \<Rightarrow> FuncState \<Rightarrow> bool" where
  "emitted fs ps i line fs' \<longleftrightarrow> code_ok fs' \<and> pc fs' = pc fs + 1 \<and> jpc fs' = NO_JUMP \<and>
     code fs' ! nat (pc fs) = i \<and> lineinfo fs' ! nat (pc fs) = line \<and>
     (\<forall>q \<in> set ps. is_jmp (code fs') q \<and> follow (code fs') q = pc fs) \<and>
     (\<forall>j < nat (pc fs). int j \<notin> set ps \<longrightarrow> \<not> (int j + 1 \<in> set ps \<and> testset (code fs) (int j + 1)) \<longrightarrow>
        code fs' ! j = code fs ! j)"

lemma luaK_code_emitted:
  assumes ok: "code_ok fs" and ps: "pending fs ps" and e: "luaK_code fs i line = Inr (fs', p)"
  shows "p = pc fs \<and> emitted fs ps i line fs'"
proof -
  have pc: "0 \<le> pc fs" "nat (pc fs) \<le> length (code fs)" "length (lineinfo fs) = length (code fs)"
    "int (length (code fs)) \<le> size_code fs" "size_code fs \<le> MAX_INT"
    using ok by (auto simp: code_ok_def)
  let ?c = "patched (code fs) NO_REG (pc fs) (pc fs) ps"
  have reach: "in_reach (code fs) (pc fs) (pc fs) ps" "pc fs \<noteq> MAX_INT"
    and fs': "p = pc fs" "code fs' = put_at ?c (nat (pc fs)) i" "jpc fs' = -1" "pc fs' = pc fs + 1"
      "lineinfo fs' = put_at (lineinfo fs) (nat (pc fs)) line" "size_lineinfo fs' = size_code fs'"
      "size_code fs' = (if pc fs < size_code fs then size_code fs
         else if size_code fs < MAX_INT div 2 then max 4 (2 * size_code fs) else MAX_INT)"
    using e unfolding luaK_code_cases [OF ok ps] Let_def by (auto split: if_splits simp del: int_limits)
  have below: "0 \<le> q" "q < pc fs" "nat q < length (code fs)" "GET_OPCODE (code fs ! nat q) = op_num OP_JMP"
    if "q \<in> set ps" for q
    using jlist_below [OF ps [unfolded pending_def] that] by auto
  have keep: "code fs' ! j = ?c ! j" if "j < nat (pc fs)" for j
    using that pc(2) fs'(2) by simp
  have sz: "size_code fs \<le> size_code fs'" "pc fs < size_code fs'" "size_code fs' \<le> MAX_INT"
    using fs'(7) pc(1,2,4,5) reach(2) by (auto simp: max_def nat_le_iff split: if_splits)
  have "code_ok fs'"
    unfolding code_ok_def pending_def
    using fs' pc sz by (auto simp: length_put_at intro!: exI [of _ "[]"] jlist.jl_nil)
  moreover have "is_jmp (code fs') q \<and> follow (code fs') q = pc fs" if "q \<in> set ps" for q
  proof -
    have k: "code fs' ! nat q = ?c ! nat q" using keep below [OF that] by simp
    have len: "length (code fs) \<le> length (code fs')" using fs'(2) pc(2) by (simp add: length_put_at)
    have "is_jmp (code fs') q"
      using k below [OF that] len jlist_patched [OF that, of "code fs"] by (simp add: is_jmp_def in_code_def)
    with patched_follow [OF reach(1) that _ _ _ _ k] below [OF that] pc(1) show ?thesis by simp
  qed
  moreover have "code fs' ! j = code fs ! j"
    if "j < nat (pc fs)" "int j \<notin> set ps" "\<not> (int j + 1 \<in> set ps \<and> testset (code fs) (int j + 1))" for j
    using keep [OF that(1)] patched_same [of j "code fs"] that pc(2) by simp
  ultimately show ?thesis
    using fs' pc by (simp add: emitted_def)
qed

text \<open>C8: emitting an instruction resolves the jumps on hold: unless a jump is out of the reach of
  its offset or the code is full, \<open>luaK_code\<close> stores the instruction and its line at the old \<open>pc\<close>,
  makes every pending jump land on it, leaves no jump pending and changes no other instruction
  but the \<open>OP_TESTSET\<close> of a pending jump.\<close>

theorem luaK_code_lands:
  assumes "code_ok fs" "pending fs ps"
  shows "case luaK_code fs i line of
      Inr (fs', p) \<Rightarrow> p = pc fs \<and> emitted fs ps i line fs'
    | Inl e \<Rightarrow> e = SyntaxError ''control structure too long'' \<and> \<not> in_reach (code fs) (pc fs) (pc fs) ps \<or>
        e = RunError ''code size overflow'' \<and> pc fs = MAX_INT"
proof (cases "luaK_code fs i line")
  case (Inl e)
  then show ?thesis
    unfolding luaK_code_cases [OF assms] Let_def by (auto split: if_splits simp del: int_limits)
next
  case (Inr r)
  then show ?thesis using luaK_code_emitted [OF assms, of i line] by (cases r) simp
qed

text \<open>A state with one jump on hold.\<close>

definition one_jump :: FuncState where
  "one_jump = \<lparr>code = [CREATE_ABx (op_num OP_JMP) 0 (NO_JUMP + MAXARG_sBx)], size_code = 4, lineinfo = [1],
     size_lineinfo = 4, constants = [], maxstacksize = 2,
     fs_h = \<lparr>flags = 0xFF, lsizenode = 0, metatable = None, array = [], node = [nilnode], lastfree = 0, isdummy = True\<rparr>,
     h_addr = 64, strhash = (\<lambda>_. 0), lastline = 1, pc = 1, lasttarget = -1, jpc = 0, freereg = 0,
     nconstants = 0, nactvar = 0\<rparr>"

lemma one_jump_list: "jlist (written one_jump) 0 [0]"
proof -
  have "GETARG_sBx (CREATE_ABx 22 0 131070) = -1" "GET_OPCODE (CREATE_ABx 22 0 131070) = 22"
    by (simp_all add: GETARG_sBx_def)
  then show ?thesis
    by (simp add: one_jump_def written_def jlist_Cons is_jmp_def in_code_def follow_def)
qed

lemma one_jump_ok: "code_ok one_jump" "pending one_jump [0]"
proof -
  show "pending one_jump [0]" using one_jump_list by (simp add: pending_def one_jump_def)
  then show "code_ok one_jump" by (auto simp: code_ok_def one_jump_def)
qed

theorem luaK_code_lands_witness:
  "case luaK_code one_jump 0x1E 7 of Inr (fs', p) \<Rightarrow> p = 1 \<and> follow (code fs') 0 = 1 | Inl e \<Rightarrow> False"
proof -
  have "in_reach (code one_jump) (pc one_jump) (pc one_jump) [0]"
    by (simp add: in_reach_def jump_target_def one_jump_def)
  moreover have "pc one_jump \<noteq> MAX_INT" "pc one_jump = 1" by (simp_all add: one_jump_def)
  ultimately show ?thesis
    using luaK_code_lands [OF one_jump_ok, of "0x1E" 7]
    by (auto simp: emitted_def split: sum.splits)
qed

section \<open>Joining and patching lists\<close>

text \<open>Joining two disjoint lists with \<open>luaK_concat\<close> ends, gives the list of the jumps of the
  first followed by those of the second, and writes no instruction but the last jump of the first
  list; the only error is an offset out of reach.\<close>

theorem luaK_concat_joins:
  assumes "jlist (code fs) l1 ps" "jlist (code fs) l2 rs" "set ps \<inter> set rs = {}"
  shows "case luaK_concat fs l1 l2 of
      Inr (fs', l) \<Rightarrow> jlist (code fs') l (ps @ rs) \<and>
        (\<forall>i < length (code fs). (ps = [] \<or> i \<noteq> nat (last ps)) \<longrightarrow> code fs' ! i = code fs ! i)
    | Inl e \<Rightarrow> e = SyntaxError ''control structure too long'' \<and> \<bar>l2 - (last ps + 1)\<bar> > MAXARG_sBx"
  using concat_list [OF assms] by (elim disjE exE conjE) simp_all

definition two_jumps :: FuncState where
  "two_jumps = one_jump\<lparr>code := [CREATE_ABx (op_num OP_JMP) 0 (NO_JUMP + MAXARG_sBx),
     CREATE_ABx (op_num OP_JMP) 0 (NO_JUMP + MAXARG_sBx)], lineinfo := [1, 1], pc := 2\<rparr>"

lemma two_jumps_lists: "jlist (code two_jumps) 0 [0]" "jlist (code two_jumps) 1 [1]"
proof -
  have "GETARG_sBx (CREATE_ABx 22 0 131070) = -1" "GET_OPCODE (CREATE_ABx 22 0 131070) = 22"
    by (simp_all add: GETARG_sBx_def)
  then show "jlist (code two_jumps) 0 [0]" "jlist (code two_jumps) 1 [1]"
    by (simp_all add: two_jumps_def jlist_Cons is_jmp_def in_code_def follow_def)
qed

theorem luaK_concat_joins_witness:
  "case luaK_concat two_jumps 0 1 of Inr (fs', l) \<Rightarrow> jlist (code fs') l [0, 1] | Inl e \<Rightarrow> False"
  using luaK_concat_joins [OF two_jumps_lists] by (auto split: sum.splits)

text \<open>C9: patching a list to an address that is already emitted ends and sends every jump of the
  list there; a jump whose control is an \<open>OP_TESTSET\<close> has it turned into an \<open>OP_TEST\<close> of the same
  register and condition, and every other instruction stays as it is.\<close>

theorem luaK_patchlist_sends:
  assumes "jlist (code fs) list ps" "0 \<le> target" "target < pc fs"
    and "in_reach (code fs) target target ps" "target \<notin> set ps"
  shows "\<exists>fs'. luaK_patchlist fs list target = Inr fs' \<and> length (code fs') = length (code fs) \<and>
    (\<forall>q \<in> set ps. follow (code fs') q = target \<and>
       (testset (code fs) q \<longrightarrow> code fs' ! nat (q - 1) =
          CREATE_ABC (op_num OP_TEST) (GETARG_B (code fs ! nat (q - 1))) 0 (GETARG_C (code fs ! nat (q - 1))))) \<and>
    (\<forall>j < length (code fs). int j \<notin> set ps \<longrightarrow> \<not> (int j + 1 \<in> set ps \<and> testset (code fs) (int j + 1)) \<longrightarrow>
       code fs' ! j = code fs ! j)"
proof -
  let ?c = "patched (code fs) NO_REG target target ps"
  have eq: "luaK_patchlist fs list target = Inr (fs\<lparr>code := ?c\<rparr>)"
    using assms patchlistaux_list [OF assms(1)] by (simp add: luaK_patchlist_def)
  have jmp: "0 \<le> q" "nat q < length (code fs)" "GET_OPCODE (code fs ! nat q) = op_num OP_JMP" if "q \<in> set ps" for q
    using jlist_jmp [OF assms(1) that] by (auto simp: is_jmp_def in_code_def)
  have "follow ?c q = target" if "q \<in> set ps" for q
    using patched_follow [OF assms(4) that] jmp [OF that] assms that by auto
  moreover have "?c ! nat (q - 1) = CREATE_ABC (op_num OP_TEST) (GETARG_B (code fs ! nat (q - 1))) 0 (GETARG_C (code fs ! nat (q - 1)))"
    if q: "q \<in> set ps" and t: "testset (code fs) q" for q
  proof -
    have i: "nat (q - 1) < length (code fs)" "int (nat (q - 1)) = q - 1" "GET_OPCODE (code fs ! nat (q - 1)) = op_num OP_TESTSET"
      using t jmp [OF q] by (auto simp: testset_def)
    then have "q - 1 \<notin> set ps" using jmp(3) [of "q - 1"] by auto
    then show ?thesis using i q t by (simp add: patched_def patched_ins_def retarget_def)
  qed
  ultimately show ?thesis
    using eq patched_same [of _ "code fs" ps NO_REG target target] by auto
qed

theorem luaK_patchlist_sends_witness:
  "\<exists>fs'. luaK_patchlist two_jumps 1 0 = Inr fs' \<and> follow (code fs') 1 = 0"
  using luaK_patchlist_sends [OF two_jumps_lists(2), of 0]
  by (auto simp: two_jumps_def in_reach_def jump_target_def)

text \<open>C10: a forward jump lands: after \<open>luaK_patchtohere\<close> the jumps of the list, with those already on
  hold, wait for the next instruction, and when it is emitted every one of them leads to it.\<close>

theorem luaK_patchtohere_lands:
  assumes "code_ok fs" "pending fs ps" "jlist (written fs) list rs" "set ps \<inter> set rs = {}"
    and here: "luaK_patchtohere fs list = Inr fs1" and next_ins: "luaK_code fs1 i line = Inr (fs2, p)"
  shows "p = pc fs \<and> lasttarget fs1 = pc fs \<and> (\<forall>q \<in> set ps \<union> set rs. follow (code fs2) q = p)"
proof -
  let ?fs = "fs\<lparr>lasttarget := pc fs\<rparr>"
  have L: "jlist (code ?fs) (jpc ?fs) ps" "jlist (code ?fs) list rs"
    using assms(2,3) jlist_written by (simp_all add: pending_def)
  obtain c l where c: "luaK_concat ?fs (jpc ?fs) list = Inr (?fs\<lparr>code := c\<rparr>, l)" "jlist c l (ps @ rs)"
      "length c = length (code fs)"
    using concat_list [OF L assms(4)] here by (auto simp: luaK_patchtohere_def luaK_getlabel_def)
  then have fs1: "fs1 = fs\<lparr>lasttarget := pc fs, code := c, jpc := l\<rparr>"
    using here by (simp add: luaK_patchtohere_def luaK_getlabel_def)
  have "q < pc fs" if "q \<in> set (ps @ rs)" for q
    using that jlist_below(2) assms(2,3) by (auto simp: pending_def)
  then have "jlist (written fs1) l (ps @ rs)"
    using c(2) fs1 by (auto simp: written_def intro!: jlist_take)
  then have P: "pending fs1 (ps @ rs)" using fs1 by (simp add: pending_def)
  moreover have "code_ok fs1" using assms(1) P fs1 c(3) by (auto simp: code_ok_def)
  ultimately have "p = pc fs1" "emitted fs1 (ps @ rs) i line fs2"
    using luaK_code_emitted next_ins by blast+
  then show ?thesis using fs1 by (auto simp: emitted_def)
qed

definition emits_after :: "FuncState \<Rightarrow> int \<Rightarrow> bool" where
  "emits_after fs list \<longleftrightarrow> (case seqR (luaK_patchtohere fs list) (\<lambda>fs. luaK_code fs 0x1E 3) of Inr _ \<Rightarrow> True | Inl _ \<Rightarrow> False)"

lemma emits_two: "emits_after two_jumps 1"
  by code_simp

theorem luaK_patchtohere_lands_witness:
  "\<exists>fs1 fs2. luaK_patchtohere two_jumps 1 = Inr fs1 \<and> luaK_code fs1 0x1E 3 = Inr (fs2, 2) \<and>
     follow (code fs2) 0 = 2 \<and> follow (code fs2) 1 = 2"
proof -
  obtain fs1 fs2 p where e: "luaK_patchtohere two_jumps 1 = Inr fs1" "luaK_code fs1 0x1E 3 = Inr (fs2, p)"
    using emits_two by (auto simp: emits_after_def split: sum.splits)
  have w: "written two_jumps = code two_jumps" "jpc two_jumps = 0" "pc two_jumps = 2"
    by (simp_all add: written_def two_jumps_def one_jump_def)
  then have "pending two_jumps [0]" using two_jumps_lists(1) by (simp add: pending_def)
  moreover from this have "code_ok two_jumps"
    by (auto simp: code_ok_def two_jumps_def one_jump_def)
  ultimately show ?thesis
    using luaK_patchtohere_lands [of two_jumps "[0]" 1 "[1]", OF _ _ _ _ e] e w two_jumps_lists(2) by auto
qed

section \<open>A word that is no instruction\<close>

text \<open>
  The count of \<open>OP_SETLIST\<close> that does not fit its operand is stored in a word of its own. A
  jump emitted right after it takes that word for its control when its low six bits are those
  of a test.
\<close>

definition fresh_fs :: FuncState where
  "fresh_fs = one_jump\<lparr>code := [], lineinfo := [], pc := 0, jpc := NO_JUMP\<rparr>"

text \<open>A table constructor of 26950 items in register 0, a jump over an alternative, one more
  instruction, and the target: as for \<open>if c then local t = {...} else ... end\<close>.\<close>

definition big_list :: "FuncState result" where
  "big_list =
     seqR (luaK_setlist fresh_fs 0 26950 50) (\<lambda>fs.
     seqR (luaK_jump fs) (\<lambda>(fs, j).
     seqR (luaK_ret fs 0 0) (\<lambda>fs.
     seqR (luaK_patchtohere fs j) (\<lambda>fs. luaK_ret fs 0 0))))"

text \<open>Resolving a jump that follows a table constructor with a separate count damages the
  count: 539 groups of 50 items, stored as the word 539, are patched like an \<open>OP_TESTSET\<close> and
  the word becomes 26, although the word is data of \<open>OP_SETLIST\<close>.\<close>

theorem setlist_count_patched:
  "(case luaK_setlist fresh_fs 0 26950 50 of Inr fs \<Rightarrow> code fs ! 1 | Inl _ \<Rightarrow> 0) = 539 \<and>
   (case big_list of Inr fs \<Rightarrow> (code fs ! 1, code fs ! 2 = CREATE_ABx (op_num OP_JMP) 0 (1 + MAXARG_sBx))
      | Inl _ \<Rightarrow> (0, False)) = (26, True)"
  by code_simp

section \<open>Registers\<close>

definition regs :: "FuncState \<Rightarrow> int \<times> int \<times> int" where
  "regs fs = (freereg fs, nactvar fs, maxstacksize fs)"

definition regs_ok :: "FuncState \<Rightarrow> bool" where
  "regs_ok fs \<longleftrightarrow> 0 \<le> nactvar fs \<and> nactvar fs \<le> freereg fs \<and> freereg fs \<le> maxstacksize fs \<and>
     maxstacksize fs < MAXSTACK"

text \<open>Reserving registers either keeps the stack of the function below \<open>MAXSTACK\<close>, with
  \<open>maxstacksize\<close> (a byte) the exact high-water mark, or is refused.\<close>

theorem luaK_reserveregs_bounds:
  assumes "regs_ok fs" "0 \<le> n"
  shows "luaK_reserveregs fs n =
      (if freereg fs + n < MAXSTACK
       then Inr (fs\<lparr>maxstacksize := max (maxstacksize fs) (freereg fs + n), freereg := freereg fs + n\<rparr>)
       else Inl (SyntaxError ''function or expression too complex'')) \<and>
    (\<forall>fs'. luaK_reserveregs fs n = Inr fs' \<longrightarrow> regs_ok fs' \<and> maxstacksize fs' \<le> 255)"
  using assms by (auto simp: luaK_reserveregs_def luaK_checkstack_def regs_ok_def Let_def max_def)

theorem luaK_reserveregs_bounds_witness:
  "luaK_reserveregs fresh_fs 250 = Inl (SyntaxError ''function or expression too complex'') \<and>
   (\<exists>fs'. luaK_reserveregs fresh_fs 249 = Inr fs' \<and> maxstacksize fs' = 249)"
proof -
  have ok: "regs_ok fresh_fs" by (simp add: regs_ok_def fresh_fs_def one_jump_def)
  show ?thesis
    using luaK_reserveregs_bounds [OF ok, of 250] luaK_reserveregs_bounds [OF ok, of 249]
    by (simp add: fresh_fs_def one_jump_def)
qed

section \<open>Constant folding\<close>

text \<open>The value of an arithmetic instruction on two numbers (\<open>luaV_execute\<close>, \<open>arith_op\<close>).\<close>

definition arith_value :: "num_ops \<Rightarrow> OpCode \<Rightarrow> lua_Number \<Rightarrow> lua_Number \<Rightarrow> lua_Number option" where
  "arith_value ar op a b =
     (if op = OP_ADD then Some (numadd ar a b)
      else if op = OP_SUB then Some (numsub ar a b)
      else if op = OP_MUL then Some (nummul ar a b)
      else if op = OP_DIV then Some (numdiv ar a b)
      else if op = OP_MOD then Some (nummod ar a b)
      else if op = OP_POW then Some (numpow ar a b)
      else if op = OP_UNM then Some (luai_numunm a) else None)"

text \<open>C12: constant folding changes nothing a program can see: when the code generator folds an
  operation, both operands are numerals without jumps, the new numeral is the value the virtual
  machine computes, it is no NaN, and no division or modulus by zero is folded; otherwise the
  operand is left alone, so the instruction is emitted.\<close>

theorem constfolding_sound:
  assumes "op \<in> {OP_ADD, OP_SUB, OP_MUL, OP_DIV, OP_MOD, OP_POW, OP_UNM, OP_LEN}"
  shows "case constfolding ar op l r of (folded, l') \<Rightarrow>
    if folded
    then isnumeral l \<and> isnumeral r \<and> isnumeral l' \<and>
      arith_value ar op (nval l) (nval r) = Some (nval l') \<and> \<not> dbl_nan (nval l') \<and>
      (op \<in> {OP_DIV, OP_MOD} \<longrightarrow> \<not> luai_numeq (nval r) 0)
    else l' = l"
  using assms
  by (auto simp: constfolding_def fold_value_def arith_value_def isnumeral_def numisnan_iff
      split: OpCode.splits if_splits)

definition numeral_exp :: "lua_Number \<Rightarrow> Expr" where
  "numeral_exp n = \<lparr>kind = EXPR_NUMBER, info = 0, aux = 0, nval = n, patch_true = NO_JUMP, patch_false = NO_JUMP\<rparr>"

definition left_ops :: num_ops where
  "left_ops = \<lparr>numadd = \<lambda>a b. a, numsub = \<lambda>a b. a, nummul = \<lambda>a b. a, numdiv = \<lambda>a b. a,
     nummod = \<lambda>a b. a, numpow = \<lambda>a b. a\<rparr>"

theorem constfolding_sound_witness:
  "case constfolding left_ops OP_UNM (numeral_exp 0) (numeral_exp 0) of (folded, l') \<Rightarrow>
    folded \<and> nval l' = 0x8000000000000000 \<and> \<not> dbl_nan (nval l')"
proof -
  have v: "luai_numunm 0 = 0x8000000000000000" "\<not> luai_numisnan 0x8000000000000000"
    by (simp add: luai_numunm_def flip_bit_eq_xor) (simp add: numisnan_iff dbl_nan_def dbl_frac_def)
  then have "constfolding left_ops OP_UNM (numeral_exp 0) (numeral_exp 0) =
      (True, (numeral_exp 0)\<lparr>nval := 0x8000000000000000\<rparr>)"
    by (simp add: constfolding_def fold_value_def isnumeral_def numeral_exp_def)
  then show ?thesis
    using constfolding_sound [where op = OP_UNM and ar = left_ops and l = "numeral_exp 0" and r = "numeral_exp 0"] by simp
qed

end
