(* ===== verification/SlotMap.thy ===== *)
theory SlotMap
  imports TableSpec
begin

text \<open>
  The interface of a table to the parts of the interpreter that number or mark its keys
  (\<open>addk\<close> of the code generator, \<open>luaX_newstring\<close> of the lexer): find or create the slot of a
  key, read it, write it. The table of \<open>ltable.c\<close> provides it.
\<close>

locale slot_map =
  fixes ok :: "'t \<Rightarrow> bool"
    and key_ok :: "'k \<Rightarrow> bool"
    and eqk :: "'k \<Rightarrow> 'k \<Rightarrow> bool"
    and get :: "'t \<Rightarrow> 'k \<Rightarrow> TValue"
    and lset :: "'t \<Rightarrow> 'k \<Rightarrow> ('t \<times> 's) result"
    and rd :: "'t \<Rightarrow> 's \<Rightarrow> TValue"
    and wr :: "'t \<Rightarrow> 's \<Rightarrow> TValue \<Rightarrow> 't"
  assumes lset_ok: "ok t \<Longrightarrow> key_ok k \<Longrightarrow> lset t k = Inr (t1, s) \<Longrightarrow> ok t1"
    and lset_rd: "ok t \<Longrightarrow> key_ok k \<Longrightarrow> lset t k = Inr (t1, s) \<Longrightarrow> rd t1 s = get t k"
    and lset_get: "ok t \<Longrightarrow> key_ok k \<Longrightarrow> lset t k = Inr (t1, s) \<Longrightarrow> key_ok k' \<Longrightarrow> get t1 k' = get t k'"
    and wr_ok: "ok t \<Longrightarrow> key_ok k \<Longrightarrow> lset t k = Inr (t1, s) \<Longrightarrow> ok (wr t1 s v)"
    and wr_get: "ok t \<Longrightarrow> key_ok k \<Longrightarrow> lset t k = Inr (t1, s) \<Longrightarrow> key_ok k' \<Longrightarrow>
      get (wr t1 s v) k' = (if eqk k k' then v else get t k')"
    and eq_sym: "eqk k k' \<Longrightarrow> eqk k' k"
    and eq_self: "ok t \<Longrightarrow> key_ok k \<Longrightarrow> lset t k = Inr (t1, s) \<Longrightarrow> eqk k k"
begin

text \<open>The values of the map are the numbers below \<open>n\<close>; number \<open>i\<close> belongs to the keys \<open>P i\<close>, and
  every number in use has a key.\<close>

definition numbering :: "'t \<Rightarrow> int \<Rightarrow> (int \<Rightarrow> 'k \<Rightarrow> bool) \<Rightarrow> bool" where
  "numbering t n P \<longleftrightarrow> ok t \<and> (\<forall>k. key_ok k \<longrightarrow> get t k = NIL \<or>
     (\<exists>i. 0 \<le> i \<and> i < n \<and> get t k = NUMBER (cast_num i) \<and> P i k))"

lemma numbering_found:
  assumes "numbering t n P" "key_ok k" "lset t k = Inr (t1, s)" "rd t1 s \<noteq> NIL"
  shows "numbering t1 n P" and "\<exists>i. 0 \<le> i \<and> i < n \<and> rd t1 s = NUMBER (cast_num i) \<and> P i k"
    and "get t1 k = rd t1 s"
proof -
  have ok: "ok t" using assms(1) by (simp add: numbering_def)
  note L = lset_ok [OF ok assms(2,3)] lset_rd [OF ok assms(2,3)] lset_get [OF ok assms(2,3)]
  show "numbering t1 n P" using assms(1) L by (simp add: numbering_def)
  show "\<exists>i. 0 \<le> i \<and> i < n \<and> rd t1 s = NUMBER (cast_num i) \<and> P i k"
    using assms(1,2,4) L(2) unfolding numbering_def by metis
  show "get t1 k = rd t1 s" using L assms(2) by simp
qed

lemma numbering_new:
  assumes "numbering t n P" "key_ok k" "lset t k = Inr (t1, s)" "0 \<le> n"
    and P: "\<And>i k'. 0 \<le> i \<Longrightarrow> i < n \<Longrightarrow> P i k' \<Longrightarrow> Q i k'" "\<And>k'. key_ok k' \<Longrightarrow> eqk k k' \<Longrightarrow> Q n k'"
  shows "numbering (wr t1 s (NUMBER (cast_num n))) (n + 1) Q"
    and "get (wr t1 s (NUMBER (cast_num n))) k = NUMBER (cast_num n)"
proof -
  have ok: "ok t" using assms(1) by (simp add: numbering_def)
  let ?t = "wr t1 s (NUMBER (cast_num n))"
  have get: "get ?t k' = (if eqk k k' then NUMBER (cast_num n) else get t k')" if "key_ok k'" for k'
    by (rule wr_get [OF ok assms(2,3) that])
  show "get ?t k = NUMBER (cast_num n)" using get [OF assms(2)] eq_self [OF ok assms(2,3)] by simp
  show "numbering ?t (n + 1) Q"
    unfolding numbering_def
  proof (intro conjI allI impI)
    show "ok ?t" by (rule wr_ok [OF ok assms(2,3)])
    fix k' assume k': "key_ok k'"
    show "get ?t k' = NIL \<or> (\<exists>i. 0 \<le> i \<and> i < n + 1 \<and> get ?t k' = NUMBER (cast_num i) \<and> Q i k')"
    proof (cases "eqk k k'")
      case True
      then show ?thesis using get [OF k'] P(2) [OF k'] assms(4) by (intro disjI2 exI [of _ n]) simp
    next
      case False
      then have g: "get ?t k' = get t k'" using get [OF k'] by simp
      from assms(1) k' consider "get t k' = NIL"
        | i where "0 \<le> i" "i < n" "get t k' = NUMBER (cast_num i)" "P i k'"
        unfolding numbering_def by blast
      then show ?thesis
      proof cases
        case 1
        then show ?thesis using g by simp
      next
        case (2 i)
        then show ?thesis using g P(1) [of i k'] by (intro disjI2 exI [of _ i]) simp
      qed
    qed
  qed
qed

end

section \<open>The table of the interpreter\<close>

lemma luaH_set_slot:
  assumes "table_ok sh t" "live k" "luaH_set sh t k = Inr (t1, s)"
  shows "table_ok sh t1" "read_slot t1 (Some s) = rawget sh t k" "valid_key k"
    and "live k' \<Longrightarrow> rawget sh t1 k' = rawget sh t k'"
proof -
  have P: "insert_post sh t k t1 s" and valid: "valid_key k"
    using newkey.set_by_post [OF assms(1) assms(3) [unfolded luaH_set_def] assms(2)] by auto
  then show ok1: "table_ok sh t1" and "valid_key k" by (simp_all add: insert_post_def)
  have same: "rawget sh t1 k' = rawget sh t k'" if "live k'" for k'
  proof (cases "valid_key k'")
    case True
    have "tset t1 = tset t" using P by (simp add: insert_post_def)
    then show ?thesis
      using rawget_tset [OF ok1 True, of "rawget sh t k'"] rawget_tset [OF assms(1) True, of "rawget sh t k'"] by simp
  qed (simp add: rawget_invalid that)
  have "luaH_get sh t1 k = Some s" using P get_spec [OF ok1 valid] by (simp add: insert_post_def)
  then show "read_slot t1 (Some s) = rawget sh t k" using same [OF assms(2)] by (simp add: rawget_def)
  show "rawget sh t1 k' = rawget sh t k'" if "live k'" using same that by blast
qed

interpretation slots: slot_map "table_ok sh" live luaO_rawequalObj "rawget sh" "luaH_set sh"
  "\<lambda>t s. read_slot t (Some s)" write_slot for sh
proof
  fix t :: Table and k t1 s
  assume a: "table_ok sh t" "live k" "luaH_set sh t k = Inr (t1, s)"
  note L = luaH_set_slot [OF a]
  show "table_ok sh t1" "read_slot t1 (Some s) = rawget sh t k" using L by auto
  show "luaO_rawequalObj k k" using L(3) by (simp add: valid_key_def)
  fix k' v
  have W: "rawset sh t k v = Inr (write_slot t1 s v)" using a(3) by (simp add: rawset_def)
  show "table_ok sh (write_slot t1 s v)" using rawset_map(1) [OF a(1,2) W] .
  assume "live k'"
  then show "rawget sh t1 k' = rawget sh t k'"
    "rawget sh (write_slot t1 s v) k' = (if luaO_rawequalObj k k' then v else rawget sh t k')"
    using L(4) rawset_map(4) [OF a(1,2) W] by auto
next
  show "luaO_rawequalObj k k' \<Longrightarrow> luaO_rawequalObj k' k" for k k' by (simp add: rawequal_sym)
qed

end
