(* ===== verification/ConstSpec.thy ===== *)
theory ConstSpec
  imports CodeSpec SlotMap
begin

text \<open>
  The constants of a function: \<open>addk\<close> keeps the table of constants and the array of constants
  in step, so that a constant is stored once and its index is found again.
\<close>

definition const_key :: "FuncState \<Rightarrow> TValue \<Rightarrow> TValue" where
  "const_key fs v = (if v = NIL then TABLE (h_addr fs) else v)"

text \<open>What the code generator may store: nil, booleans, numbers and strings.\<close>

definition is_constant :: "TValue \<Rightarrow> bool" where
  "is_constant v \<longleftrightarrow> (case v of NIL \<Rightarrow> True | BOOLEAN _ \<Rightarrow> True | NUMBER _ \<Rightarrow> True | STRING _ \<Rightarrow> True | _ \<Rightarrow> False)"

definition const_at :: "TValue list \<Rightarrow> addr \<Rightarrow> int \<Rightarrow> TValue \<Rightarrow> bool" where
  "const_at ks ha i k \<longleftrightarrow>
     (if k = TABLE ha then ks ! nat i = NIL else luaO_rawequalObj k (ks ! nat i))"

definition consts_ok :: "FuncState \<Rightarrow> bool" where
  "consts_ok fs \<longleftrightarrow>
     slots.numbering (strhash fs) (fs_h fs) (nconstants fs) (const_at (constants fs) (h_addr fs)) \<and>
     0 \<le> nconstants fs \<and> nat (nconstants fs) \<le> length (constants fs) \<and>
     int (length (constants fs)) \<le> MAXARG_Bx"

lemma const_key_live: "is_constant v \<Longrightarrow> live (const_key fs v)"
  by (auto simp: is_constant_def const_key_def live_def split: TValue.splits)

lemma const_at_same: "is_constant v \<Longrightarrow> luaO_rawequalObj (const_key fs v) k \<Longrightarrow>
    nat n < length ks \<Longrightarrow> ks ! nat n = v \<Longrightarrow> const_at ks (h_addr fs) n k"
  by (auto simp: const_at_def const_key_def is_constant_def rawequal_iff numeq_sym split: TValue.splits if_splits)

text \<open>The constant found or made, and the state after.\<close>

definition added :: "FuncState \<Rightarrow> TValue \<Rightarrow> FuncState \<Rightarrow> int \<Rightarrow> bool" where
  "added fs v fs' i \<longleftrightarrow>
     consts_ok fs' \<and> 0 \<le> i \<and> i < nconstants fs' \<and> i < MAXARG_Bx \<and>
     (constants fs' ! nat i = v \<or> luaO_rawequalObj v (constants fs' ! nat i)) \<and>
     rawget (strhash fs) (fs_h fs') (const_key fs v) = NUMBER (cast_num i) \<and>
     nconstants fs \<le> nconstants fs' \<and>
     (\<forall>j < nat (nconstants fs). constants fs' ! j = constants fs ! j) \<and>
     fs' = fs\<lparr>fs_h := fs_h fs', constants := constants fs', nconstants := nconstants fs'\<rparr>"

lemma addk_found:
  assumes ok: "consts_ok fs" and v: "is_constant v"
    and set: "luaH_set (strhash fs) (fs_h fs) (const_key fs v) = Inr (t, s)"
    and rd: "read_slot t (Some s) \<noteq> NIL"
  shows "\<exists>i. addk fs (const_key fs v) v = Inr (fs\<lparr>fs_h := t\<rparr>, i) \<and> added fs v (fs\<lparr>fs_h := t\<rparr>) i \<and>
    rawget (strhash fs) (fs_h fs) (const_key fs v) = NUMBER (cast_num i)"
proof -
  let ?k = "const_key fs v"
  have N: "slots.numbering (strhash fs) (fs_h fs) (nconstants fs) (const_at (constants fs) (h_addr fs))"
    and n: "0 \<le> nconstants fs" "nat (nconstants fs) \<le> length (constants fs)" "int (length (constants fs)) \<le> MAXARG_Bx"
    using ok by (auto simp: consts_ok_def)
  note F = slots.numbering_found [OF N const_key_live [OF v] set rd]
  obtain i where i: "0 \<le> i" "i < nconstants fs" "read_slot t (Some s) = NUMBER (cast_num i)"
    "const_at (constants fs) (h_addr fs) i ?k" using F(2) by blast
  have i32: "is_int32 i" using i n by (simp add: is_int32_def)
  have eq: "addk fs ?k v = Inr (fs\<lparr>fs_h := t\<rparr>, i)"
    using set i(3) number2int_cast_num [OF i32] by (simp add: addk_def)
  have "consts_ok (fs\<lparr>fs_h := t\<rparr>)" using F(1) n by (simp add: consts_ok_def)
  moreover have "constants fs ! nat i = v \<or> luaO_rawequalObj v (constants fs ! nat i)"
    using i(4) v by (auto simp: const_at_def const_key_def is_constant_def split: if_splits)
  moreover have "rawget (strhash fs) (fs_h fs) ?k = NUMBER (cast_num i)"
    using luaH_set_slot(2) [OF _ const_key_live [OF v] set] N i(3) by (simp add: slots.numbering_def)
  ultimately show ?thesis
    using eq F(3) i n by (intro exI [of _ i]) (auto simp: added_def)
qed

lemma addk_new:
  assumes ok: "consts_ok fs" and v: "is_constant v"
    and set: "luaH_set (strhash fs) (fs_h fs) (const_key fs v) = Inr (t, s)"
    and rd: "read_slot t (Some s) = NIL"
  shows "(\<exists>fs'. addk fs (const_key fs v) v = Inr (fs', nconstants fs) \<and> added fs v fs' (nconstants fs) \<and>
      nconstants fs' = nconstants fs + 1) \<or>
    addk fs (const_key fs v) v = Inl (RunError ''constant table overflow'') \<and> nconstants fs = MAXARG_Bx"
proof -
  let ?k = "const_key fs v" and ?n = "nconstants fs" and ?size = "int (length (constants fs))"
  let ?t = "write_slot t s (NUMBER (cast_num ?n))"
  have N: "slots.numbering (strhash fs) (fs_h fs) ?n (const_at (constants fs) (h_addr fs))"
    and n: "0 \<le> ?n" "nat ?n \<le> length (constants fs)" "?size \<le> MAXARG_Bx"
    using ok by (auto simp: consts_ok_def)
  show ?thesis
  proof (cases "luaM_growvector ?n ?size MAXARG_Bx ''constant table overflow''")
    case (Inl e)
    then have "addk fs ?k v = Inl e" using set rd by (simp add: addk_def)
    with Inl n show ?thesis
      by (auto simp: luaM_growvector_def luaM_growaux_def Let_def split: if_splits)
  next
    case (Inr sz)
    have sz: "?n + 1 \<le> sz" "?size \<le> sz" "sz \<le> MAXARG_Bx"
      using growvector_room [OF Inr] n by (auto simp: nat_le_iff)
    let ?ks = "(constants fs @ replicate (nat (sz - ?size)) NIL)[nat ?n := v]"
    let ?fs = "fs\<lparr>fs_h := ?t, constants := ?ks, nconstants := ?n + 1\<rparr>"
    have eq: "addk fs ?k v = Inr (?fs, ?n)" using set rd Inr by (simp add: addk_def Let_def)
    have len: "int (length ?ks) = sz" "nat ?n < length ?ks" using sz n by auto
    have same: "?ks ! j = constants fs ! j" if "j < nat ?n" for j
      using that n by (simp add: nth_append)
    have vn: "?ks ! nat ?n = v" using len by simp
    have old: "const_at ?ks (h_addr fs) i k'" if "0 \<le> i" "i < ?n" "const_at (constants fs) (h_addr fs) i k'" for i k'
      using that same [of "nat i"] by (simp add: const_at_def)
    have new: "const_at ?ks (h_addr fs) ?n k'" if "luaO_rawequalObj ?k k'" for k'
      using const_at_same [OF v that len(2) vn] .
    have W: "slots.numbering (strhash fs) ?t (?n + 1) (const_at ?ks (h_addr fs))"
      "rawget (strhash fs) ?t ?k = NUMBER (cast_num ?n)"
      using slots.numbering_new [OF N const_key_live [OF v] set n(1), of "const_at ?ks (h_addr fs)"] old new
      by blast+
    have "added fs v ?fs ?n"
      using W len sz n vn same by (auto simp: added_def consts_ok_def)
    with eq show ?thesis by (intro disjI1 exI [of _ ?fs]) simp
  qed
qed

lemma addk_cases:
  assumes "consts_ok fs" "is_constant v"
  shows "case addk fs (const_key fs v) v of
      Inr (fs', i) \<Rightarrow> added fs v fs' i \<and>
        (nconstants fs' = nconstants fs \<or> nconstants fs' = nconstants fs + 1 \<and> i = nconstants fs \<and>
           rawget (strhash fs) (fs_h fs) (const_key fs v) = NIL)
    | Inl e \<Rightarrow> luaH_set (strhash fs) (fs_h fs) (const_key fs v) = Inl e \<or>
        e = RunError ''constant table overflow'' \<and> nconstants fs = MAXARG_Bx"
proof (cases "luaH_set (strhash fs) (fs_h fs) (const_key fs v)")
  case (Inl e)
  then show ?thesis by (simp add: addk_def)
next
  case (Inr r)
  obtain t s where r: "luaH_set (strhash fs) (fs_h fs) (const_key fs v) = Inr (t, s)" using Inr by (cases r) simp
  have get: "read_slot t (Some s) = rawget (strhash fs) (fs_h fs) (const_key fs v)"
    using luaH_set_slot(2) [OF _ const_key_live [OF assms(2)] r] assms(1)
    by (simp add: consts_ok_def slots.numbering_def)
  show ?thesis
  proof (cases "read_slot t (Some s) = NIL")
    case True
    with addk_new [OF assms r True] get show ?thesis by auto
  next
    case False
    with addk_found [OF assms r False] show ?thesis by auto
  qed
qed

lemma addk_again:
  assumes "consts_ok fs" "is_constant v" "addk fs (const_key fs v) v = Inr (fs', i)"
  shows "\<exists>fs''. addk fs' (const_key fs v) v = Inr (fs'', i) \<and> nconstants fs'' = nconstants fs' \<and>
    constants fs'' = constants fs'"
proof -
  have A: "added fs v fs' i" using addk_cases [OF assms(1,2)] assms(3) by simp
  then have ok': "consts_ok fs'" and get: "rawget (strhash fs) (fs_h fs') (const_key fs v) = NUMBER (cast_num i)"
    and bounds: "0 \<le> i" "i < MAXARG_Bx"
    and eq: "fs' = fs\<lparr>fs_h := fs_h fs', constants := constants fs', nconstants := nconstants fs'\<rparr>"
    unfolding added_def by blast+
  have key: "const_key fs' v = const_key fs v" "strhash fs' = strhash fs"
    by (subst eq, simp add: const_key_def)+
  show ?thesis
  proof (cases "luaH_set (strhash fs') (fs_h fs') (const_key fs' v)")
    case (Inl e)
    have ok: "table_ok (strhash fs') (fs_h fs')" using ok' by (simp add: consts_ok_def slots.numbering_def)
    have "luaH_get (strhash fs) (fs_h fs') (const_key fs v) \<noteq> None"
      using get by (cases "luaH_get (strhash fs) (fs_h fs') (const_key fs v)") (auto simp: rawget_def)
    then have "\<exists>r. luaH_set (strhash fs') (fs_h fs') (const_key fs' v) = Inr r"
      using key by (auto simp: luaH_set_def luaH_set_by_def Let_def)
    with Inl show ?thesis by simp
  next
    case (Inr r)
    then obtain t s where r: "luaH_set (strhash fs') (fs_h fs') (const_key fs' v) = Inr (t, s)" by (cases r) simp
    have "read_slot t (Some s) = NUMBER (cast_num i)"
      using luaH_set_slot(2) [OF _ const_key_live [OF assms(2)] r] ok' get key
      by (simp add: consts_ok_def slots.numbering_def)
    moreover have "is_int32 i" using bounds by (simp add: is_int32_def)
    ultimately have "addk fs' (const_key fs v) v = Inr (fs'\<lparr>fs_h := t\<rparr>, i)"
      using r key number2int_cast_num [of i] by (simp add: addk_def)
    then show ?thesis by auto
  qed
qed

text \<open>C11: a constant is stored once: adding one either fails with an error of the table or because
  the function has \<open>MAXARG_Bx\<close> constants, or gives an index below that bound where an equal
  constant stands, moves no constant that was there, and adding the same constant again gives the
  same index and stores nothing.\<close>

theorem addk_stores_once:
  assumes "consts_ok fs" "is_constant v"
  shows "case addk fs (const_key fs v) v of
      Inl e \<Rightarrow> luaH_set (strhash fs) (fs_h fs) (const_key fs v) = Inl e \<or>
        e = RunError ''constant table overflow'' \<and> nconstants fs = MAXARG_Bx
    | Inr (fs', i) \<Rightarrow> consts_ok fs' \<and> 0 \<le> i \<and> i < nconstants fs' \<and> i < MAXARG_Bx \<and>
        (constants fs' ! nat i = v \<or> luaO_rawequalObj v (constants fs' ! nat i)) \<and>
        (\<forall>j < nat (nconstants fs). constants fs' ! j = constants fs ! j) \<and>
        (\<exists>fs''. addk fs' (const_key fs v) v = Inr (fs'', i) \<and> constants fs'' = constants fs' \<and>
           nconstants fs'' = nconstants fs')"
proof (cases "addk fs (const_key fs v) v")
  case (Inl e)
  then show ?thesis using addk_cases [OF assms] by simp
next
  case (Inr r)
  then obtain fs' i where r: "addk fs (const_key fs v) v = Inr (fs', i)" by (cases r) simp
  have "added fs v fs' i" using addk_cases [OF assms] r by simp
  then show ?thesis using addk_again [OF assms r] r by (auto simp: added_def)
qed

lemma fresh_consts_ok: "consts_ok fresh_fs"
proof -
  have "luaH_new 0 0 = Inr (fs_h fresh_fs)" by code_simp
  then have T: "table_ok (strhash fresh_fs) (fs_h fresh_fs)" "tset (fs_h fresh_fs) = {}"
    using new_ok by auto
  have "rawget (strhash fresh_fs) (fs_h fresh_fs) k = NIL" if "live k" for k
    using rawget_tset [OF T(1), of k NIL] rawget_invalid [OF that] T(2) by (cases "valid_key k") auto
  with T show ?thesis
    by (simp add: consts_ok_def slots.numbering_def fresh_fs_def one_jump_def)
qed

text \<open>Zero and minus zero are one constant.\<close>

theorem addk_stores_once_witness:
  "case addk fresh_fs (NUMBER 0) (NUMBER 0) of
     Inl e \<Rightarrow> luaH_set (\<lambda>_. 0) (fs_h fresh_fs) (NUMBER 0) = Inl e
   | Inr (fs', i) \<Rightarrow> consts_ok fs' \<and> 0 \<le> i \<and> i < nconstants fs' \<and> luaO_rawequalObj (NUMBER 0) (constants fs' ! nat i)"
  using addk_stores_once [OF fresh_consts_ok, of "NUMBER 0"]
  by (auto simp: is_constant_def const_key_def fresh_fs_def one_jump_def rawequal_iff luai_numeq_def split: sum.splits)

text \<open>Since \<open>-0 == 0\<close>, a minus zero that follows a zero in a function is given the constant zero.\<close>

theorem minus_zero_constant:
  "case luaK_numberK fresh_fs 0 of
     Inl e \<Rightarrow> False
   | Inr (fs, i) \<Rightarrow> (case luaK_numberK fs 0x8000000000000000 of
        Inl e \<Rightarrow> False
      | Inr (fs', j) \<Rightarrow> i = 0 \<and> j = 0 \<and> constants fs' ! 0 = NUMBER 0)"
  by code_simp

end
