(* ===== verification/Proto.thy ===== *)
theory Proto
  imports Objects Opcodes
begin

text \<open>
  Function prototypes (\<open>lobject.h\<close>, \<open>lfunc.c\<close>). The vectors are lists, so the \<open>size_\<close>
  fields are their lengths; a string of a prototype is its contents (an interned string is
  determined by them), \<open>None\<close> where the pointer is null.
\<close>

type_synonym tstring = "u8 list"

datatype Constant = KNIL | KBOOLEAN bool | KNUMBER lua_Number | KSTRING "tstring option"

record LocVar =
  varname :: "tstring option"
  startpc :: int
  endpc :: int

datatype Proto = Proto
  (p_constants: "Constant list")
  (p_code: "u32 list")
  (p_children: "Proto list")
  (p_lineinfo: "int list")
  (p_locvars: "LocVar list")
  (p_upvalues: "tstring option list")
  (p_source: "tstring option")
  (p_linedefined: int)
  (p_lastlinedefined: int)
  (p_nups: u8)
  (p_numparams: u8)
  (p_is_vararg: u8)
  (p_maxstacksize: u8)

definition VARARG_HASARG :: u8 where "VARARG_HASARG = 1"
definition VARARG_ISVARARG :: u8 where "VARARG_ISVARARG = 2"
definition VARARG_NEEDSARG :: u8 where "VARARG_NEEDSARG = 4"

definition size_constants :: "Proto \<Rightarrow> int" where "size_constants f = int (length (p_constants f))"
definition psize_code :: "Proto \<Rightarrow> int" where "psize_code f = int (length (p_code f))"
definition size_children :: "Proto \<Rightarrow> int" where "size_children f = int (length (p_children f))"

lemmas size_defs = size_constants_def psize_code_def size_children_def

definition luaF_newproto :: Proto where
  "luaF_newproto = Proto [] [] [] [] [] [] None 0 0 0 0 0 0"

text \<open>\<open>getstr\<close> of a variable's name; the name may be null in a loaded function.\<close>

definition local_str :: "LocVar \<Rightarrow> tstring option result" where
  "local_str v = (case varname v of None \<Rightarrow> Inl Undefined | Some s \<Rightarrow> Inr (Some s))"

text \<open>The loop of \<open>luaF_getlocalname\<close> over the variables from the \<open>i\<close>-th on.\<close>

fun getlocalname_loop :: "LocVar list \<Rightarrow> int \<Rightarrow> int \<Rightarrow> tstring option result" where
  "getlocalname_loop [] counter i = Inr None"
| "getlocalname_loop (v # vs) counter i =
     (if startpc v \<le> i then
        if i < endpc v then
          if counter - 1 = 0 then local_str v else getlocalname_loop vs (counter - 1) i
        else getlocalname_loop vs counter i
      else Inr None)"

definition luaF_getlocalname :: "Proto \<Rightarrow> int \<Rightarrow> int \<Rightarrow> tstring option result" where
  "luaF_getlocalname f local_number i = getlocalname_loop (p_locvars f) local_number i"

lemma getlocalname_loop_active:
  assumes "sorted (map startpc vs)" "0 < n"
  shows "getlocalname_loop vs n i =
    (let act = filter (\<lambda>v. startpc v \<le> i \<and> i < endpc v) vs in
     if n \<le> int (length act) then local_str (act ! nat (n - 1)) else Inr None)"
  using assms
proof (induction vs arbitrary: n)
  case (Cons v vs)
  have none: "filter (\<lambda>v. startpc v \<le> i \<and> i < endpc v) vs = []" if "\<not> startpc v \<le> i"
    using Cons.prems(1) that by (auto simp: filter_empty_conv)
  have ih: "0 < m \<Longrightarrow> getlocalname_loop vs m i =
      (let act = filter (\<lambda>v. startpc v \<le> i \<and> i < endpc v) vs in
       if m \<le> int (length act) then local_str (act ! nat (m - 1)) else Inr None)" for m
    using Cons by simp
  show ?case
  proof (cases "startpc v \<le> i \<and> i < endpc v")
    case True
    show ?thesis
    proof (cases "n = 1")
      case False
      then have "nat (n - 1) = Suc (nat (n - 1 - 1))" using Cons.prems(2) by simp
      with True False ih [of "n - 1"] Cons.prems(2) show ?thesis by (auto simp: Let_def)
    qed (use True in simp)
  next
    case False
    then show ?thesis using ih [OF Cons.prems(2)] none Cons.prems(2) by (auto simp: Let_def)
  qed
qed (simp add: Let_def)

text \<open>Variables are found by register: if the variables are sorted by the instruction that
  activates them, the \<open>n\<close>-th local name at instruction \<open>i\<close> is the name of the \<open>n\<close>-th variable whose
  scope contains \<open>i\<close>, and there is none when fewer are active.\<close>

theorem getlocalname_active:
  assumes "sorted (map startpc (p_locvars f))" "0 < n"
  shows "luaF_getlocalname f n i =
    (let act = filter (\<lambda>v. startpc v \<le> i \<and> i < endpc v) (p_locvars f) in
     if n \<le> int (length act) then local_str (act ! nat (n - 1)) else Inr None)"
  using getlocalname_loop_active [OF assms] by (simp add: luaF_getlocalname_def)

definition two_locals :: Proto where
  "two_locals = Proto [] [] [] [] [\<lparr>varname = Some [97], startpc = 0, endpc = 9\<rparr>,
     \<lparr>varname = Some [98], startpc = 1, endpc = 3\<rparr>, \<lparr>varname = Some [99], startpc = 4, endpc = 9\<rparr>]
     [] None 0 0 0 0 0 0"

theorem getlocalname_active_witness:
  "luaF_getlocalname two_locals 2 5 = Inr (Some [99]) \<and> luaF_getlocalname two_locals 2 3 = Inr None"
  using getlocalname_active [of two_locals 2 5] getlocalname_active [of two_locals 2 3]
  by (simp add: two_locals_def local_str_def)

end
