(* ===== verification/Debug.thy ===== *)
theory Debug
  imports Proto
begin

text \<open>
  The bytecode verifier and the naming of values in messages (\<open>ldebug.c\<close>). \<open>symbexec\<close> walks
  the instructions of a function; a failed \<open>check\<close> is the result \<open>0\<close>, a read outside the code
  \<open>Undefined\<close>.
\<close>

section \<open>Checks\<close>

text \<open>A step of the checker: undefined, a failed check (\<open>None\<close>) or a value.\<close>

type_synonym 'a checked = "'a option result"

definition chk :: "bool \<Rightarrow> 'a checked \<Rightarrow> 'a checked" where
  "chk c k = (if c then k else Inr None)"

definition seqC :: "'a checked \<Rightarrow> ('a \<Rightarrow> 'b checked) \<Rightarrow> 'b checked" where
  "seqC m f = seqR m (\<lambda>r. case r of None \<Rightarrow> Inr None | Some x \<Rightarrow> f x)"

lemma chk_True [simp]: "chk True k = k" by (simp add: chk_def)
lemma chk_False [simp]: "chk False k = Inr None" by (simp add: chk_def)

lemma chk_Some: "chk c k = Inr (Some x) \<longleftrightarrow> c \<and> k = Inr (Some x)"
  by (simp add: chk_def)

lemma seqC_Some: "seqC m f = Inr (Some y) \<longleftrightarrow> (\<exists>x. m = Inr (Some x) \<and> f x = Inr (Some y))"
  by (auto simp: seqC_def seq_simps split: option.splits)

lemma chk_Inl: "chk c k = Inl e \<longleftrightarrow> c \<and> k = Inl e"
  by (simp add: chk_def)

lemma seqC_Inl: "seqC m f = Inl e \<longleftrightarrow> m = Inl e \<or> (\<exists>x. m = Inr (Some x) \<and> f x = Inl e)"
  by (auto simp: seqC_def seq_simps split: option.splits)

lemma seqC_simps [simp]: "seqC (Inr None) f = Inr None" "seqC (Inr (Some x)) f = f x" "seqC (Inl e) f = Inl e"
  by (simp_all add: seqC_def)

definition ins_at :: "Proto \<Rightarrow> int \<Rightarrow> u32 checked" where
  "ins_at pt i = (if 0 \<le> i \<and> i < psize_code pt then Inr (Some (p_code pt ! nat i)) else Inl Undefined)"

definition maxstack :: "Proto \<Rightarrow> int" where "maxstack pt = uint (p_maxstacksize pt)"

definition precheck :: "Proto \<Rightarrow> bool" where
  "precheck pt \<longleftrightarrow>
     maxstack pt \<le> 250 \<and>
     uint (p_numparams pt) + uint (p_is_vararg pt AND VARARG_HASARG) \<le> maxstack pt \<and>
     (p_is_vararg pt AND VARARG_NEEDSARG = 0 \<or> p_is_vararg pt AND VARARG_HASARG \<noteq> 0) \<and>
     int (length (p_upvalues pt)) \<le> uint (p_nups pt) \<and>
     (length (p_lineinfo pt) = length (p_code pt) \<or> p_lineinfo pt = []) \<and>
     p_code pt \<noteq> [] \<and> GET_OPCODE (last (p_code pt)) = op_num OP_RETURN"

definition luaG_checkopenop :: "u32 \<Rightarrow> bool" where
  "luaG_checkopenop i \<longleftrightarrow>
     GET_OPCODE i \<in> {op_num OP_CALL, op_num OP_TAILCALL, op_num OP_RETURN, op_num OP_SETLIST} \<and> GETARG_B i = 0"

definition checkopenop :: "Proto \<Rightarrow> int \<Rightarrow> 'a checked \<Rightarrow> 'a checked" where
  "checkopenop pt i k = seqC (ins_at pt (i + 1)) (\<lambda>x. chk (luaG_checkopenop x) k)"

definition checkArgMode :: "Proto \<Rightarrow> int \<Rightarrow> nat \<Rightarrow> bool" where
  "checkArgMode pt r mode \<longleftrightarrow>
     (if mode = opargmask_num OpArgN then r = 0
      else if mode = opargmask_num OpArgU then True
      else if mode = opargmask_num OpArgR then r < maxstack pt
      else if ISK r then INDEXK r < size_constants pt else r < maxstack pt)"

section \<open>Symbolic execution\<close>

text \<open>How many words before \<open>dest\<close> look like a \<open>SETLIST\<close> that takes its count from the next word.\<close>

fun setlist_run :: "u32 list \<Rightarrow> nat \<Rightarrow> nat" where
  "setlist_run cs 0 = 0"
| "setlist_run cs (Suc d) =
     (if GET_OPCODE (cs ! d) = op_num OP_SETLIST \<and> GETARG_C (cs ! d) = 0 then Suc (setlist_run cs d) else 0)"

text \<open>The operands \<open>b\<close> and \<open>c\<close> by the format of the instruction.\<close>

definition check_operands :: "Proto \<Rightarrow> int \<Rightarrow> u32 \<Rightarrow> (int \<times> int) checked" where
  "check_operands pt i ins =
     (let op = GET_OPCODE ins in
      if getOpMode op = opmode_num iABC then
        let b = GETARG_B ins; c = GETARG_C ins in
        chk (checkArgMode pt b (getBMode op)) (chk (checkArgMode pt c (getCMode op)) (Inr (Some (b, c))))
      else if getOpMode op = opmode_num iABx then
        let b = GETARG_Bx ins in
        chk (getBMode op = opargmask_num OpArgK \<longrightarrow> b < size_constants pt) (Inr (Some (b, 0)))
      else
        let b = GETARG_sBx ins in
        if getBMode op = opargmask_num OpArgR then
          let dest = i + 1 + b in
          chk (0 \<le> dest \<and> dest < psize_code pt)
            (chk (even (setlist_run (p_code pt) (nat dest))) (Inr (Some (b, 0))))
        else Inr (Some (b, 0)))"

text \<open>The part common to all instructions; the result is the new \<open>last\<close>.\<close>

definition check_modes :: "Proto \<Rightarrow> int \<Rightarrow> nat \<Rightarrow> int \<Rightarrow> int \<Rightarrow> int \<Rightarrow> int checked" where
  "check_modes pt i op a reg lst =
     (let lst = (if testAMode op \<and> a = reg then i else lst) in
      if testTMode op then
        chk (i + 2 < psize_code pt)
          (seqC (ins_at pt (i + 1)) (\<lambda>nx. chk (GET_OPCODE nx = op_num OP_JMP) (Inr (Some lst))))
      else Inr (Some lst))"

definition konst_at :: "Proto \<Rightarrow> int \<Rightarrow> Constant checked" where
  "konst_at pt i = (if 0 \<le> i \<and> i < size_constants pt then Inr (Some (p_constants pt ! nat i)) else Inl Undefined)"

definition child_at :: "Proto \<Rightarrow> int \<Rightarrow> Proto checked" where
  "child_at pt i = (if 0 \<le> i \<and> i < size_children pt then Inr (Some (p_children pt ! nat i)) else Inl Undefined)"

definition is_kstring :: "Constant \<Rightarrow> bool" where
  "is_kstring k \<longleftrightarrow> (case k of KSTRING _ \<Rightarrow> True | _ \<Rightarrow> False)"

fun check_closure :: "Proto \<Rightarrow> int \<Rightarrow> nat \<Rightarrow> unit checked" where
  "check_closure pt i 0 = Inr (Some ())"
| "check_closure pt i (Suc n) =
     seqC (check_closure pt i n) (\<lambda>_.
     seqC (ins_at pt (i + int (Suc n))) (\<lambda>op1.
     chk (GET_OPCODE op1 = op_num OP_GETUPVAL \<or> GET_OPCODE op1 = op_num OP_MOVE) (Inr (Some ()))))"

definition check_call :: "Proto \<Rightarrow> int \<Rightarrow> int \<Rightarrow> int \<Rightarrow> int \<Rightarrow> 'a checked \<Rightarrow> 'a checked" where
  "check_call pt i a b c k =
     chk (b \<noteq> 0 \<longrightarrow> a + b - 1 < maxstack pt)
       (let c = c - 1 in
        if c = -1 then checkopenop pt i k
        else chk (c \<noteq> 0 \<longrightarrow> a + c - 1 < maxstack pt) k)"

definition do_jump :: "int \<Rightarrow> int \<Rightarrow> int \<Rightarrow> int \<Rightarrow> int \<Rightarrow> (int \<times> int) checked" where
  "do_jump lastpc reg i b lst =
     (let dest = i + 1 + b in
      Inr (Some (if reg \<noteq> NO_REG \<and> i < dest \<and> dest \<le> lastpc then b else 0, lst)))"

text \<open>The switch over the opcode: how many more words \<open>pc\<close> moves on, and \<open>last\<close>.\<close>

definition check_op :: "Proto \<Rightarrow> int \<Rightarrow> int \<Rightarrow> OpCode \<Rightarrow> int \<Rightarrow> int \<Rightarrow> int \<Rightarrow> int \<Rightarrow> int \<Rightarrow> (int \<times> int) checked" where
  "check_op pt lastpc reg op i a b c lst =
     (let ok = Inr (Some (0, lst)) in
      case op of
        OP_LOADBOOL \<Rightarrow>
          (if c = 1 then
             chk (i + 2 < psize_code pt) (seqC (ins_at pt (i + 1)) (\<lambda>nx.
               chk (GET_OPCODE nx \<noteq> op_num OP_SETLIST \<or> GETARG_C nx \<noteq> 0) ok))
           else ok)
      | OP_LOADNIL \<Rightarrow> Inr (Some (0, if a \<le> reg \<and> reg \<le> b then i else lst))
      | OP_GETUPVAL \<Rightarrow> chk (b < uint (p_nups pt)) ok
      | OP_SETUPVAL \<Rightarrow> chk (b < uint (p_nups pt)) ok
      | OP_GETGLOBAL \<Rightarrow> seqC (konst_at pt b) (\<lambda>k. chk (is_kstring k) ok)
      | OP_SETGLOBAL \<Rightarrow> seqC (konst_at pt b) (\<lambda>k. chk (is_kstring k) ok)
      | OP_SELF \<Rightarrow> chk (a + 1 < maxstack pt) (Inr (Some (0, if reg = a + 1 then i else lst)))
      | OP_CONCAT \<Rightarrow> chk (b < c) ok
      | OP_TFORLOOP \<Rightarrow>
          chk (c \<ge> 1) (chk (a + 2 + c < maxstack pt) (Inr (Some (0, if reg \<ge> a + 2 then i else lst))))
      | OP_FORLOOP \<Rightarrow> chk (a + 3 < maxstack pt) (do_jump lastpc reg i b lst)
      | OP_FORPREP \<Rightarrow> chk (a + 3 < maxstack pt) (do_jump lastpc reg i b lst)
      | OP_JMP \<Rightarrow> do_jump lastpc reg i b lst
      | OP_CALL \<Rightarrow> check_call pt i a b c (Inr (Some (0, if reg \<ge> a then i else lst)))
      | OP_TAILCALL \<Rightarrow> check_call pt i a b c (Inr (Some (0, if reg \<ge> a then i else lst)))
      | OP_RETURN \<Rightarrow> chk (b - 1 > 0 \<longrightarrow> a + (b - 1) - 1 < maxstack pt) ok
      | OP_SETLIST \<Rightarrow>
          chk (b > 0 \<longrightarrow> a + b < maxstack pt)
            (if c = 0 then chk (i + 1 < psize_code pt - 1) (Inr (Some (1, lst))) else ok)
      | OP_CLOSURE \<Rightarrow>
          chk (b < size_children pt) (seqC (child_at pt b) (\<lambda>f.
          let nup = uint (p_nups f) in
          chk (i + nup < psize_code pt) (seqC (check_closure pt i (nat nup)) (\<lambda>_.
          Inr (Some (if reg \<noteq> NO_REG then nup else 0, lst))))))
      | OP_VARARG \<Rightarrow>
          chk (p_is_vararg pt AND VARARG_ISVARARG \<noteq> 0 \<and> p_is_vararg pt AND VARARG_NEEDSARG = 0)
            (let b = b - 1 in
             if b = -1 then checkopenop pt i (chk (a + b - 1 < maxstack pt) ok)
             else chk (a + b - 1 < maxstack pt) ok)
      | _ \<Rightarrow> ok)"

text \<open>One turn of the loop.\<close>

definition sym_step :: "Proto \<Rightarrow> int \<Rightarrow> int \<Rightarrow> int \<Rightarrow> int \<Rightarrow> (int \<times> int) checked" where
  "sym_step pt lastpc reg i lst =
     seqC (ins_at pt i) (\<lambda>ins.
     let op = GET_OPCODE ins; a = GETARG_A ins in
     chk (op < NUM_OPCODES) (chk (a < maxstack pt)
       (seqC (check_operands pt i ins) (\<lambda>(b, c).
        seqC (check_modes pt i op a reg lst) (\<lambda>lst.
        check_op pt lastpc reg (OpCodes ! op) i a b c lst)))))"

text \<open>\<open>pc\<close> only grows, so as many turns as there are instructions up to \<open>lastpc\<close> are enough
  (\<open>sym_step_grows\<close>).\<close>

fun sym_loop :: "nat \<Rightarrow> Proto \<Rightarrow> int \<Rightarrow> int \<Rightarrow> int \<Rightarrow> int \<Rightarrow> int checked" where
  "sym_loop 0 pt lastpc reg i lst = (if i < lastpc then Inl OutOfFuel else Inr (Some lst))"
| "sym_loop (Suc f) pt lastpc reg i lst =
     (if i < lastpc then
        seqC (sym_step pt lastpc reg i lst) (\<lambda>(skip, lst). sym_loop f pt lastpc reg (i + skip + 1) lst)
      else Inr (Some lst))"

definition symbexec :: "Proto \<Rightarrow> int \<Rightarrow> int \<Rightarrow> u32 result" where
  "symbexec pt lastpc reg =
     seqR (chk (precheck pt)
            (seqC (sym_loop (nat lastpc) pt lastpc reg 0 (psize_code pt - 1)) (ins_at pt)))
       (\<lambda>r. case r of None \<Rightarrow> Inr 0 | Some ins \<Rightarrow> Inr ins)"

definition luaG_checkcode :: "Proto \<Rightarrow> bool result" where
  "luaG_checkcode pt = seqR (symbexec pt (psize_code pt) NO_REG) (\<lambda>i. Inr (i \<noteq> 0))"

section \<open>Names of values\<close>

definition kname :: "Proto \<Rightarrow> int \<Rightarrow> tstring option result" where
  "kname p c =
     (if ISK c then
        seqR (konst_at p (INDEXK c)) (\<lambda>k. case k of Some (KSTRING s) \<Rightarrow> Inr s | _ \<Rightarrow> Inr (Some [0x3F]))
      else Inr (Some [0x3F]))"

text \<open>
  The kind and the name of the value in register \<open>stackpos\<close> at instruction \<open>i\<close>. Each
  recursion is on a lower register.
\<close>

fun getobjname :: "nat \<Rightarrow> Proto \<Rightarrow> int \<Rightarrow> int \<Rightarrow> (string \<times> tstring option) option result" where
  "getobjname 0 p i stackpos = Inl OutOfFuel"
| "getobjname (Suc f) p i stackpos =
     seqR (luaF_getlocalname p (stackpos + 1) i) (\<lambda>name.
     if name \<noteq> None then Inr (Some (''local'', name))
     else
       seqR (symbexec p i stackpos) (\<lambda>ins.
       let op = GET_OPCODE ins in
       if op = op_num OP_GETGLOBAL then
         seqR (konst_at p (GETARG_Bx ins)) (\<lambda>k.
           case k of Some (KSTRING s) \<Rightarrow> Inr (Some (''global'', s)) | _ \<Rightarrow> Inl Undefined)
       else if op = op_num OP_MOVE then
         (if GETARG_B ins < GETARG_A ins then getobjname f p i (GETARG_B ins) else Inr None)
       else if op = op_num OP_GETTABLE then
         seqR (kname p (GETARG_C ins)) (\<lambda>s. Inr (Some (''field'', s)))
       else if op = op_num OP_GETUPVAL then
         (if p_upvalues p \<noteq> [] then
            (if GETARG_B ins < int (length (p_upvalues p))
             then Inr (Some (''upvalue'', p_upvalues p ! nat (GETARG_B ins))) else Inl Undefined)
          else Inr (Some (''upvalue'', Some [0x3F])))
       else if op = op_num OP_SELF then
         seqR (kname p (GETARG_C ins)) (\<lambda>s. Inr (Some (''method'', s)))
       else Inr None))"

definition luaT_typenames :: "string list" where
  "luaT_typenames = [''nil'', ''boolean'', ''userdata'', ''number'', ''string'', ''table'', ''function'',
     ''userdata'', ''thread'', ''proto'', ''upval'']"

definition luaG_ordererror :: "TValue \<Rightarrow> TValue \<Rightarrow> string" where
  "luaG_ordererror p1 p2 =
     (let t1 = luaT_typenames ! ttype p1; t2 = luaT_typenames ! ttype p2 in
      if t1 ! 2 = t2 ! 2 then ''attempt to compare two '' @ t1 @ '' values''
      else ''attempt to compare '' @ t1 @ '' with '' @ t2)"

text \<open>The message of a failed comparison decides by the third letter of the type names
  whether the types are the same: that is right for all pairs of types but string and thread.\<close>

lemma ordererror_same_type:
  assumes "ttype a \<le> 8" "ttype b \<le> 8"
  shows "luaG_ordererror a b =
    (let t1 = luaT_typenames ! ttype a; t2 = luaT_typenames ! ttype b in
     if t1 = t2 \<or> {ttype a, ttype b} = {4, 8} then ''attempt to compare two '' @ t1 @ '' values''
     else ''attempt to compare '' @ t1 @ '' with '' @ t2)"
  using assms by (cases a; cases b) (simp_all add: luaG_ordererror_def luaT_typenames_def doubleton_eq_iff)

end
