(* ===== verification/DebugSpec.thy ===== *)
theory DebugSpec
  imports Debug
begin

text \<open>
  What the bytecode verifier guarantees: it reads nothing outside the function it checks,
  and a function it accepts never leaves its code, its registers and its constants.
\<close>

section \<open>The verifier is total\<close>

lemma last_ins:
  assumes "precheck pt" "GET_OPCODE (p_code pt ! nat i) \<noteq> op_num OP_RETURN" "0 \<le> i" "i < psize_code pt"
  shows "i + 1 < psize_code pt"
proof (rule ccontr)
  assume "\<not> ?thesis"
  then have "nat i = length (p_code pt) - 1" using assms by (simp add: size_defs)
  then have "p_code pt ! nat i = last (p_code pt)" using assms(1) by (simp add: precheck_def last_conv_nth)
  with assms show False by (simp add: precheck_def)
qed

lemma ins_at_ok: "0 \<le> i \<Longrightarrow> i < psize_code pt \<Longrightarrow> ins_at pt i = Inr (Some (p_code pt ! nat i))"
  by (simp add: ins_at_def)

lemma check_closure_defined: "0 \<le> i \<Longrightarrow> i + int n < psize_code pt \<Longrightarrow> check_closure pt i n \<noteq> Inl e"
  by (induction n) (auto simp: seqC_Inl chk_Inl ins_at_def)

lemma OpCodes_op_num: "op < NUM_OPCODES \<Longrightarrow> op_num (OpCodes ! op) = op"
proof -
  have "\<forall>op < 38. op_num (OpCodes ! op) = op" by code_simp
  then show "op < NUM_OPCODES \<Longrightarrow> op_num (OpCodes ! op) = op" by (simp add: NUM_OPCODES_def)
qed

lemma checkopenop_defined: "checkopenop pt i k = Inl e \<longleftrightarrow> ins_at pt (i + 1) = Inl e \<or>
    (\<exists>x. ins_at pt (i + 1) = Inr (Some x) \<and> luaG_checkopenop x \<and> k = Inl e)"
  by (simp add: checkopenop_def seqC_Inl chk_Inl)

lemma modes_K: "getOpMode (op_num OP_GETGLOBAL) = opmode_num iABx" "getOpMode (op_num OP_SETGLOBAL) = opmode_num iABx"
  "getBMode (op_num OP_GETGLOBAL) = opargmask_num OpArgK" "getBMode (op_num OP_SETGLOBAL) = opargmask_num OpArgK"
  "getOpMode (op_num OP_CLOSURE) = opmode_num iABx"
  by code_simp+

lemma check_op_defined:
  assumes "precheck pt" "0 \<le> i" "i < psize_code pt" "op < NUM_OPCODES" "op = GET_OPCODE (p_code pt ! nat i)"
    and "check_operands pt i (p_code pt ! nat i) = Inr (Some (b, c))"
  shows "check_op pt lastpc reg (OpCodes ! op) i a b c lst \<noteq> Inl e"
proof -
  have n: "op_num (OpCodes ! op) = op" by (rule OpCodes_op_num [OF assms(4)])
  have nx: "ins_at pt (i + 1) \<noteq> Inl e" if "OpCodes ! op \<noteq> OP_RETURN"
  proof -
    have "op \<noteq> op_num OP_RETURN" using n that op_num_inject by metis
    then have "i + 1 < psize_code pt" using last_ins [OF assms(1) _ assms(2,3)] assms(5) by simp
    then show ?thesis using assms(2) by (simp add: ins_at_def)
  qed
  have k: "konst_at pt b \<noteq> Inl e" if "OpCodes ! op = OP_GETGLOBAL \<or> OpCodes ! op = OP_SETGLOBAL"
    using assms(6) that n modes_K assms(5) getarg_bounds(7)
    by (auto simp: check_operands_def Let_def chk_Some konst_at_def)
  have b: "0 \<le> b" if "OpCodes ! op = OP_CLOSURE"
  proof -
    have "op = op_num OP_CLOSURE" using n that by simp
    then show ?thesis
      using assms(6) modes_K assms(5) getarg_bounds(7)
      by (auto simp: check_operands_def Let_def chk_Some)
  qed
  show ?thesis
  proof (cases "OpCodes ! op")
    case OP_LOADBOOL
    with nx show ?thesis by (auto simp: check_op_def Let_def chk_Inl seqC_Inl)
  next
    case OP_CLOSURE
    then show ?thesis
      using b check_closure_defined [OF assms(2)]
      by (auto simp: check_op_def Let_def chk_Inl seqC_Inl child_at_def)
  qed (use nx k in \<open>auto simp: check_op_def Let_def chk_Inl seqC_Inl checkopenop_defined check_call_def do_jump_def\<close>)
qed

lemma check_modes_result:
  assumes "0 \<le> i"
  shows "check_modes pt i op a reg lst \<noteq> Inl e"
    and "check_modes pt i op a reg lst = Inr (Some l) \<Longrightarrow> (l = lst \<or> l = i) \<and>
      (testTMode op \<longrightarrow> i + 2 < psize_code pt \<and> GET_OPCODE (p_code pt ! nat (i + 1)) = op_num OP_JMP)"
  using assms
  by (auto simp: check_modes_def Let_def chk_Inl chk_Some seqC_Inl seqC_Some ins_at_def split: if_splits)

lemma check_operands_defined: "check_operands pt i ins \<noteq> Inl e"
  by (simp add: check_operands_def Let_def chk_Inl)

text \<open>What a successful switch leaves: \<open>skip\<close> is not negative and \<open>last\<close> is this instruction
  or as before.\<close>

lemma check_op_result:
  assumes "check_op pt lastpc reg op i a b c lst = Inr (Some (k, l))"
  shows "0 \<le> k" and "l = lst \<or> l = i"
    and "reg = NO_REG \<Longrightarrow> k = (if op = OP_SETLIST \<and> c = 0 then 1 else 0)"
  using assms
  by (cases op; auto simp: check_op_def Let_def chk_Some seqC_Some check_call_def checkopenop_def
      do_jump_def split: if_splits)+

lemma sym_step_defined:
  assumes "precheck pt" "0 \<le> i" "i < psize_code pt"
  shows "sym_step pt lastpc reg i lst \<noteq> Inl e"
  using check_op_defined [OF assms, of "GET_OPCODE (p_code pt ! nat i)"] check_modes_result(1) [OF assms(2)]
    check_operands_defined
  by (auto simp: sym_step_def ins_at_ok [OF assms(2,3)] Let_def chk_Inl seqC_Inl)

lemma sym_step_result:
  assumes "sym_step pt lastpc reg i lst = Inr (Some (k, l))" "0 \<le> i" "i < psize_code pt"
  defines "ins \<equiv> p_code pt ! nat i"
  obtains b c m where "GET_OPCODE ins < NUM_OPCODES" "GETARG_A ins < maxstack pt"
    "check_operands pt i ins = Inr (Some (b, c))"
    "check_modes pt i (GET_OPCODE ins) (GETARG_A ins) reg lst = Inr (Some m)"
    "check_op pt lastpc reg (OpCodes ! GET_OPCODE ins) i (GETARG_A ins) b c m = Inr (Some (k, l))"
  using assms by (auto simp: sym_step_def ins_at_ok [OF assms(2,3)] Let_def chk_Some seqC_Some)

lemma sym_step_grows:
  assumes "sym_step pt lastpc reg i lst = Inr (Some (k, l))" "0 \<le> i" "i < psize_code pt"
  shows "0 \<le> k" and "l = lst \<or> l = i"
  using sym_step_result [OF assms] check_op_result check_modes_result(2) [OF assms(2)] by metis+

lemma sym_loop_total:
  assumes "precheck pt" "0 \<le> i" "lastpc \<le> psize_code pt" "nat (lastpc - i) \<le> f" "0 \<le> lst" "lst < psize_code pt"
  shows "sym_loop f pt lastpc reg i lst = Inr None \<or>
    (\<exists>l. sym_loop f pt lastpc reg i lst = Inr (Some l) \<and> 0 \<le> l \<and> l < psize_code pt)"
  using assms
proof (induction f arbitrary: i lst)
  case (Suc f)
  show ?case
  proof (cases "i < lastpc")
    case True
    then have i: "i < psize_code pt" using Suc.prems(3) by simp
    show ?thesis
    proof (cases "sym_step pt lastpc reg i lst")
      case (Inl e)
      then show ?thesis using sym_step_defined [OF Suc.prems(1,2) i] by blast
    next
      case (Inr r)
      show ?thesis
      proof (cases r)
        case None
        with Inr True show ?thesis by simp
      next
        case (Some kl)
        obtain k l where kl: "kl = (k, l)" by (cases kl)
        note R = sym_step_grows [OF Inr [unfolded Some kl] Suc.prems(2) i]
        have l: "0 \<le> l" "l < psize_code pt" using R(2) Suc.prems(2,5,6) i by auto
        have n: "nat (lastpc - (i + k + 1)) \<le> f" "0 \<le> i + k + 1" using R(1) Suc.prems(2,4) True by auto
        show ?thesis
          using Suc.IH [OF Suc.prems(1) n(2) Suc.prems(3) n(1) l] Inr Some kl True by simp
      qed
    qed
  qed (use Suc.prems in auto)
qed auto

text \<open>C14: the symbolic execution is safe on any bytecode, checked or not: for every function, every
  instruction up to its end and every register it comes to an end and reads nothing outside the
  code, the constants and the nested functions.\<close>

theorem symbexec_total:
  assumes "0 \<le> lastpc" "lastpc \<le> psize_code pt"
  shows "\<exists>i. symbexec pt lastpc reg = Inr i"
proof (cases "precheck pt")
  case True
  then have "0 < psize_code pt" by (simp add: precheck_def size_defs)
  then have L: "sym_loop (nat lastpc) pt lastpc reg 0 (psize_code pt - 1) = Inr None \<or>
    (\<exists>l. sym_loop (nat lastpc) pt lastpc reg 0 (psize_code pt - 1) = Inr (Some l) \<and> 0 \<le> l \<and> l < psize_code pt)"
    using sym_loop_total [OF True, of 0 lastpc "nat lastpc" "psize_code pt - 1" reg] assms by simp
  then show ?thesis using True by (auto simp: symbexec_def ins_at_ok)
qed (simp add: symbexec_def)

definition ret_proto :: "u32 list \<Rightarrow> Proto" where
  "ret_proto is = Proto [] (is @ [CREATE_ABC (op_num OP_RETURN) 0 1 0]) [] [] [] [] None 0 0 0 0 2 4"

theorem symbexec_total_witness:
  "\<exists>i. symbexec (ret_proto [0xFFFFFFFF, 22, 0]) 3 7 = Inr i"
  by (rule symbexec_total) (simp_all add: ret_proto_def size_defs)

section \<open>Instructions and counts\<close>

text \<open>A word is an instruction or the count of the \<open>OP_SETLIST\<close> before it.\<close>

definition counts_next :: "u32 \<Rightarrow> bool" where
  "counts_next i \<longleftrightarrow> GET_OPCODE i = op_num OP_SETLIST \<and> GETARG_C i = 0"

definition after :: "Proto \<Rightarrow> int \<Rightarrow> int" where
  "after pt i = i + 1 + (if counts_next (p_code pt ! nat i) then 1 else 0)"

inductive ins_pos :: "Proto \<Rightarrow> int \<Rightarrow> bool" for pt where
  ip_first: "ins_pos pt 0"
| ip_next: "ins_pos pt i \<Longrightarrow> i < psize_code pt \<Longrightarrow> ins_pos pt (after pt i)"

lemma ins_pos_nonneg: "ins_pos pt i \<Longrightarrow> 0 \<le> i"
  by (induction rule: ins_pos.induct) (auto simp: after_def)

lemma setlist_run_Suc: "setlist_run cs (Suc d) = (if counts_next (cs ! d) then Suc (setlist_run cs d) else 0)"
  by (simp add: counts_next_def)

lemma ins_pos_even: "ins_pos pt i \<Longrightarrow> even (setlist_run (p_code pt) (nat i))"
proof (induction rule: ins_pos.induct)
  case (ip_next i)
  have "0 \<le> i" using ip_next.hyps(1) by (rule ins_pos_nonneg)
  then have "nat (i + 1) = Suc (nat i)" "nat (2 + i) = Suc (Suc (nat i))" by auto
  with ip_next.IH show ?case
    by (auto simp: after_def setlist_run_Suc simp del: setlist_run.simps(2))
qed simp

lemma ins_pos_or_count: "int d \<le> psize_code pt \<Longrightarrow>
    ins_pos pt (int d) \<or> (0 < d \<and> ins_pos pt (int d - 1) \<and> counts_next (p_code pt ! (d - 1)))"
proof (induction d)
  case 0
  then show ?case by (simp add: ip_first)
next
  case (Suc d)
  then have lt: "int d < psize_code pt" by simp
  from Suc consider "ins_pos pt (int d)" | "0 < d" "ins_pos pt (int d - 1)" "counts_next (p_code pt ! (d - 1))"
    by fastforce
  then show ?case
  proof cases
    case 1
    then show ?thesis using ip_next [OF 1 lt] by (auto simp: after_def algebra_simps split: if_splits)
  next
    case 2
    then have "nat (int d - 1) = d - 1" "int d - 1 < psize_code pt" using lt by auto
    then show ?thesis using ip_next [OF 2(2)] 2(3) by (auto simp: after_def algebra_simps)
  qed
qed

lemma ins_pos_iff:
  assumes "0 \<le> i" "i \<le> psize_code pt"
  shows "ins_pos pt i \<longleftrightarrow> even (setlist_run (p_code pt) (nat i))"
proof
  assume ev: "even (setlist_run (p_code pt) (nat i))"
  show "ins_pos pt i"
  proof (rule ccontr)
    assume no: "\<not> ins_pos pt i"
    then have c: "0 < nat i" "ins_pos pt (i - 1)" "counts_next (p_code pt ! (nat i - 1))"
      using ins_pos_or_count [of "nat i" pt] assms by auto
    obtain d where d: "nat i = Suc d" using c(1) by (cases "nat i") auto
    have "nat (i - 1) = d" using d by simp
    then have "even (setlist_run (p_code pt) d)" using ins_pos_even [OF c(2)] by simp
    then have "odd (setlist_run (p_code pt) (nat i))" using d c(3) by (simp add: setlist_run_Suc del: setlist_run.simps(2))
    with ev show False by simp
  qed
qed (rule ins_pos_even)

text \<open>The next instruction is the next word or the one after it.\<close>

lemma ins_pos_gap:
  assumes "ins_pos pt i" "ins_pos pt j" "i \<le> j" "j < psize_code pt"
  shows "j = i \<or> after pt i \<le> j"
proof (rule ccontr)
  assume no: "\<not> ?thesis"
  then have j: "j = i + 1" "counts_next (p_code pt ! nat i)" using assms(3) by (auto simp: after_def split: if_splits)
  have "nat j = Suc (nat i)" using j(1) ins_pos_nonneg [OF assms(1)] by simp
  then have "odd (setlist_run (p_code pt) (nat j))"
    using ins_pos_even [OF assms(1)] j(2) by (simp add: setlist_run_Suc del: setlist_run.simps(2))
  with ins_pos_even [OF assms(2)] show False by simp
qed

definition passed :: "Proto \<Rightarrow> int \<Rightarrow> bool" where
  "passed pt i \<longleftrightarrow> (\<exists>l k l'. sym_step pt (psize_code pt) NO_REG i l = Inr (Some (k, l')))"

lemma mode_SETLIST: "getOpMode (op_num OP_SETLIST) = opmode_num iABC"
  by code_simp

lemma sym_step_after:
  assumes "sym_step pt lastpc NO_REG i l = Inr (Some (k, l'))" "0 \<le> i" "i < psize_code pt"
  shows "after pt i = i + k + 1"
proof -
  let ?ins = "p_code pt ! nat i"
  obtain b c m where r: "GET_OPCODE ?ins < NUM_OPCODES" "check_operands pt i ?ins = Inr (Some (b, c))"
    "check_op pt lastpc NO_REG (OpCodes ! GET_OPCODE ?ins) i (GETARG_A ?ins) b c m = Inr (Some (k, l'))"
    using sym_step_result [OF assms] by metis
  have n: "op_num (OpCodes ! GET_OPCODE ?ins) = GET_OPCODE ?ins" by (rule OpCodes_op_num [OF r(1)])
  have k: "k = (if OpCodes ! GET_OPCODE ?ins = OP_SETLIST \<and> c = 0 then 1 else 0)"
    using check_op_result(3) [OF r(3)] by simp
  have op: "OpCodes ! GET_OPCODE ?ins = OP_SETLIST \<longleftrightarrow> GET_OPCODE ?ins = op_num OP_SETLIST"
    using n op_num_nth op_num_inject by metis
  have "c = GETARG_C ?ins" if "GET_OPCODE ?ins = op_num OP_SETLIST"
    using r(2) mode_SETLIST that by (simp add: check_operands_def Let_def chk_Some)
  with k op show ?thesis by (auto simp: after_def counts_next_def)
qed

lemma loop_passed:
  assumes "sym_loop f pt (psize_code pt) NO_REG i l = Inr (Some l')" "ins_pos pt i"
    and "ins_pos pt j" "i \<le> j" "j < psize_code pt"
  shows "passed pt j"
  using assms(1,2,4)
proof (induction f arbitrary: i l)
  case 0
  with assms(5) show ?case by simp
next
  case (Suc f)
  have i: "0 \<le> i" "i < psize_code pt" using Suc.prems(3) assms(5) ins_pos_nonneg [OF Suc.prems(2)] by auto
  obtain k m where st: "sym_step pt (psize_code pt) NO_REG i l = Inr (Some (k, m))"
    and lp: "sym_loop f pt (psize_code pt) NO_REG (i + k + 1) m = Inr (Some l')"
    using Suc.prems(1) i by (auto simp: seqC_Some)
  show ?case
  proof (cases "j = i")
    case True
    with st show ?thesis by (auto simp: passed_def)
  next
    case False
    have "after pt i = i + k + 1" by (rule sym_step_after [OF st i])
    with ins_pos_gap [OF Suc.prems(2) assms(3) Suc.prems(3) assms(5)] False
      ins_pos.ip_next [OF Suc.prems(2) i(2)] Suc.IH [OF lp]
    show ?thesis by simp
  qed
qed

lemma checkcode_passed:
  assumes "luaG_checkcode pt = Inr True"
  shows "precheck pt" and "ins_pos pt j \<Longrightarrow> j < psize_code pt \<Longrightarrow> passed pt j"
proof -
  obtain i where "symbexec pt (psize_code pt) NO_REG = Inr i" "i \<noteq> 0"
    using assms by (auto simp: luaG_checkcode_def)
  then have "\<exists>l. precheck pt \<and> sym_loop (nat (psize_code pt)) pt (psize_code pt) NO_REG 0 (psize_code pt - 1) = Inr (Some l)"
    by (auto simp: symbexec_def chk_def seqC_Some split: if_splits option.splits)
  then obtain l where l: "precheck pt"
    "sym_loop (nat (psize_code pt)) pt (psize_code pt) NO_REG 0 (psize_code pt - 1) = Inr (Some l)" by blast
  then show "precheck pt" by simp
  show "passed pt j" if "ins_pos pt j" "j < psize_code pt"
    using loop_passed [OF l(2) ins_pos.ip_first that(1)] that ins_pos_nonneg [OF that(1)] by simp
qed

section \<open>Where control goes\<close>

text \<open>
  The instructions that may follow the one at \<open>i\<close> in the same activation, as \<open>luaV_execute\<close>
  changes its \<open>pc\<close>: a test jumps with the offset of the next instruction, \<open>OP_LOADBOOL\<close> skips
  one for any \<open>C\<close> that is not zero.
\<close>

definition vm_succs :: "Proto \<Rightarrow> int \<Rightarrow> int list" where
  "vm_succs pt i =
     (let ins = p_code pt ! nat i; op = GET_OPCODE ins in
      if op = op_num OP_RETURN then []
      else if op = op_num OP_LOADBOOL then [if GETARG_C ins \<noteq> 0 then i + 2 else i + 1]
      else if op = op_num OP_JMP \<or> op = op_num OP_FORPREP then [i + 1 + GETARG_sBx ins]
      else if op = op_num OP_FORLOOP then [i + 1, i + 1 + GETARG_sBx ins]
      else if op \<in> {op_num OP_EQ, op_num OP_LT, op_num OP_LE, op_num OP_TEST, op_num OP_TESTSET, op_num OP_TFORLOOP}
      then [i + 2, i + 2 + GETARG_sBx (p_code pt ! nat (i + 1))]
      else if op = op_num OP_SETLIST then [if GETARG_C ins = 0 then i + 2 else i + 1]
      else if op = op_num OP_CLOSURE then [i + 1 + uint (p_nups (p_children pt ! nat (GETARG_Bx ins)))]
      else [i + 1])"

inductive vm_reach :: "Proto \<Rightarrow> int \<Rightarrow> bool" for pt where
  vr_start: "vm_reach pt 0"
| vr_step: "vm_reach pt i \<Longrightarrow> j \<in> set (vm_succs pt i) \<Longrightarrow> vm_reach pt j"

lemma jump_modes: "op \<in> {OP_JMP, OP_FORLOOP, OP_FORPREP} \<Longrightarrow>
    getOpMode (op_num op) = opmode_num iAsBx \<and> getBMode (op_num op) = opargmask_num OpArgR"
proof -
  have "\<forall>op \<in> set [OP_JMP, OP_FORLOOP, OP_FORPREP].
      getOpMode (op_num op) = opmode_num iAsBx \<and> getBMode (op_num op) = opargmask_num OpArgR" by code_simp
  then show "op \<in> {OP_JMP, OP_FORLOOP, OP_FORPREP} \<Longrightarrow> ?thesis" by auto
qed

definition good_pos :: "Proto \<Rightarrow> int \<Rightarrow> bool" where
  "good_pos pt j \<longleftrightarrow> ins_pos pt j \<and> 0 \<le> j \<and> j < psize_code pt"

lemma jump_good:
  assumes "passed pt i" "0 \<le> i" "i < psize_code pt" "op \<in> {OP_JMP, OP_FORLOOP, OP_FORPREP}"
    "GET_OPCODE (p_code pt ! nat i) = op_num op"
  shows "good_pos pt (i + 1 + GETARG_sBx (p_code pt ! nat i))"
proof -
  obtain b c where "check_operands pt i (p_code pt ! nat i) = Inr (Some (b, c))"
    using assms(1) sym_step_result [OF _ assms(2,3)] unfolding passed_def by metis
  then show ?thesis
    using jump_modes [OF assms(4)] assms(5) ins_pos_iff [of "i + 1 + GETARG_sBx (p_code pt ! nat i)" pt]
    by (auto simp: check_operands_def Let_def chk_Some good_pos_def)
qed

lemma next_good:
  assumes "precheck pt" "ins_pos pt i" "0 \<le> i" "i < psize_code pt"
    "GET_OPCODE (p_code pt ! nat i) \<noteq> op_num OP_RETURN" "\<not> counts_next (p_code pt ! nat i)"
  shows "good_pos pt (i + 1)"
  using ins_pos.ip_next [OF assms(2,4)] last_ins [OF assms(1,5,3,4)] assms(3,6)
  by (simp add: after_def good_pos_def)

lemma check_closure_ops:
  "check_closure pt i n = Inr (Some ()) \<Longrightarrow> 1 \<le> m \<Longrightarrow> m \<le> n \<Longrightarrow>
    GET_OPCODE (p_code pt ! nat (i + int m)) \<in> {op_num OP_GETUPVAL, op_num OP_MOVE}"
proof (induction n)
  case (Suc n)
  show ?case
  proof (cases "m = Suc n")
    case True
    with Suc.prems(1) show ?thesis by (auto simp: seqC_Some chk_Some ins_at_def split: if_splits)
  next
    case False
    with Suc show ?thesis by (auto simp: seqC_Some)
  qed
qed simp

lemma closure_good:
  assumes "precheck pt" "ins_pos pt i" "0 \<le> i" "i + int n < psize_code pt" "check_closure pt i n = Inr (Some ())"
    "GET_OPCODE (p_code pt ! nat i) = op_num OP_CLOSURE" "m \<le> n"
  shows "good_pos pt (i + 1 + int m)"
  using assms(7)
proof (induction m)
  case 0
  have "\<not> counts_next (p_code pt ! nat i)" using assms(6) by (simp add: counts_next_def)
  then show ?case using next_good [OF assms(1,2,3)] assms(4,6) by simp
next
  case (Suc m)
  let ?j = "i + 1 + int m"
  have j: "GET_OPCODE (p_code pt ! nat ?j) \<in> {op_num OP_GETUPVAL, op_num OP_MOVE}"
    using check_closure_ops [OF assms(5), of "Suc m"] Suc.prems by (simp add: algebra_simps)
  have g: "good_pos pt ?j" using Suc by simp
  have "\<not> counts_next (p_code pt ! nat ?j)" "GET_OPCODE (p_code pt ! nat ?j) \<noteq> op_num OP_RETURN"
    using j by (auto simp: counts_next_def)
  then show ?case using next_good [OF assms(1), of ?j] g by (simp add: good_pos_def algebra_simps)
qed

lemma tests_T: "op \<in> {OP_EQ, OP_LT, OP_LE, OP_TEST, OP_TESTSET, OP_TFORLOOP} \<Longrightarrow> testTMode (op_num op)"
proof -
  have "\<forall>op \<in> set [OP_EQ, OP_LT, OP_LE, OP_TEST, OP_TESTSET, OP_TFORLOOP]. testTMode (op_num op)" by code_simp
  then show "op \<in> {OP_EQ, OP_LT, OP_LE, OP_TEST, OP_TESTSET, OP_TFORLOOP} \<Longrightarrow> ?thesis" by auto
qed

lemma loadbool_mode: "getOpMode (op_num OP_LOADBOOL) = opmode_num iABC"
  by code_simp

definition loadbools_ok :: "Proto \<Rightarrow> bool" where
  "loadbools_ok pt \<longleftrightarrow> (\<forall>ins \<in> set (p_code pt). GET_OPCODE ins = op_num OP_LOADBOOL \<longrightarrow> GETARG_C ins \<le> 1)"

lemma succs_good:
  assumes ck: "luaG_checkcode pt = Inr True" and lb: "loadbools_ok pt" and g: "good_pos pt i"
    and j: "j \<in> set (vm_succs pt i)"
  shows "good_pos pt j"
proof -
  let ?ins = "p_code pt ! nat i"
  have i: "ins_pos pt i" "0 \<le> i" "i < psize_code pt" using g by (auto simp: good_pos_def)
  have pre: "precheck pt" and pass: "\<And>j. good_pos pt j \<Longrightarrow> passed pt j"
    using checkcode_passed [OF ck] by (auto simp: good_pos_def)
  obtain l k l' where st: "sym_step pt (psize_code pt) NO_REG i l = Inr (Some (k, l'))"
    using pass [OF g] by (auto simp: passed_def)
  obtain b c m where r: "GET_OPCODE ?ins < NUM_OPCODES" "check_operands pt i ?ins = Inr (Some (b, c))"
    "check_modes pt i (GET_OPCODE ?ins) (GETARG_A ?ins) NO_REG l = Inr (Some m)"
    "check_op pt (psize_code pt) NO_REG (OpCodes ! GET_OPCODE ?ins) i (GETARG_A ?ins) b c m = Inr (Some (k, l'))"
    using sym_step_result [OF st i(2,3)] by metis
  obtain op where op: "GET_OPCODE ?ins = op_num op" "OpCodes ! GET_OPCODE ?ins = op"
    using OpCodes_op_num [OF r(1)] by metis
  have nxt: "good_pos pt (i + 1)" if "op \<noteq> OP_RETURN" "\<not> counts_next ?ins"
    using next_good [OF pre i] that op(1) op_num_inject [of op OP_RETURN] by simp
  consider "op = OP_RETURN" | "op = OP_LOADBOOL" | "op \<in> {OP_JMP, OP_FORLOOP, OP_FORPREP}"
    | "op \<in> {OP_EQ, OP_LT, OP_LE, OP_TEST, OP_TESTSET, OP_TFORLOOP}" | "op = OP_SETLIST" | "op = OP_CLOSURE"
    | "op \<notin> {OP_RETURN, OP_LOADBOOL, OP_JMP, OP_FORLOOP, OP_FORPREP, OP_EQ, OP_LT, OP_LE, OP_TEST, OP_TESTSET,
        OP_TFORLOOP, OP_SETLIST, OP_CLOSURE}" by blast
  then show ?thesis
  proof cases
    case 1
    then show ?thesis using j op(1) by (simp add: vm_succs_def Let_def)
  next
    case 2
    then have nc: "\<not> counts_next ?ins" using op(1) by (simp add: counts_next_def)
    have "?ins \<in> set (p_code pt)" using i by (simp add: size_defs)
    then have "GETARG_C ?ins = 0 \<or> GETARG_C ?ins = 1"
      using lb op(1) 2 getarg_bounds(5) [of ?ins] by (auto simp: loadbools_ok_def)
    then show ?thesis
    proof
      assume "GETARG_C ?ins = 0"
      then show ?thesis using j op(1) 2 nxt nc by (simp add: vm_succs_def Let_def)
    next
      assume c1: "GETARG_C ?ins = 1"
      then have "c = 1" using r(2) loadbool_mode 2 op(1) by (simp add: check_operands_def Let_def chk_Some)
      then have "i + 2 < psize_code pt" "\<not> counts_next (p_code pt ! nat (i + 1))"
        using r(4) op(2) 2 i(2) by (auto simp: check_op_def Let_def chk_Some seqC_Some ins_at_def counts_next_def)
      moreover have "good_pos pt (i + 1)" using nxt nc 2 by simp
      ultimately have "good_pos pt (i + 2)"
        using ins_pos.ip_next [of pt "i + 1"] by (simp add: good_pos_def after_def algebra_simps)
      then show ?thesis using j op(1) 2 c1 by (simp add: vm_succs_def Let_def)
    qed
  next
    case 3
    then have "\<not> counts_next ?ins" using op(1) by (auto simp: counts_next_def)
    then show ?thesis
      using j op(1) 3 nxt jump_good [OF pass [OF g] i(2,3) 3 op(1)] by (auto simp: vm_succs_def Let_def)
  next
    case 4
    then have nc: "\<not> counts_next ?ins" and "op \<noteq> OP_RETURN" using op(1) by (auto simp: counts_next_def)
    then have g1: "good_pos pt (i + 1)" using nxt by simp
    have jm: "i + 2 < psize_code pt" "GET_OPCODE (p_code pt ! nat (i + 1)) = op_num OP_JMP"
      using check_modes_result(2) [OF i(2) r(3)] tests_T [OF 4] op(1) by auto
    have "\<not> counts_next (p_code pt ! nat (i + 1))" using jm(2) by (simp add: counts_next_def)
    then have "good_pos pt (i + 2)"
      using next_good [OF pre, of "i + 1"] g1 jm(2) by (simp add: good_pos_def algebra_simps)
    moreover have "good_pos pt (i + 2 + GETARG_sBx (p_code pt ! nat (i + 1)))"
      using jump_good [OF pass [OF g1], of OP_JMP] g1 jm(2) by (simp add: good_pos_def algebra_simps)
    moreover have "j = i + 2 \<or> j = i + 2 + GETARG_sBx (p_code pt ! nat (i + 1))"
      using j op(1) 4 by (auto simp: vm_succs_def Let_def)
    ultimately show ?thesis by blast
  next
    case 5
    show ?thesis
    proof (cases "GETARG_C ?ins = 0")
      case True
      then have "c = 0" using r(2) mode_SETLIST 5 op(1) by (simp add: check_operands_def Let_def chk_Some)
      then have "i + 2 < psize_code pt" using r(4) op(2) 5 by (auto simp: check_op_def Let_def chk_Some)
      then have "good_pos pt (i + 2)"
        using ins_pos.ip_next [OF i(1,3)] op(1) 5 True i(2) by (simp add: good_pos_def after_def counts_next_def add.commute)
      then show ?thesis using j op(1) 5 True by (simp add: vm_succs_def Let_def)
    next
      case False
      then have "good_pos pt (i + 1)" using nxt 5 by (simp add: counts_next_def)
      then show ?thesis using j op(1) 5 False by (simp add: vm_succs_def Let_def)
    qed
  next
    case 6
    have b: "b = GETARG_Bx ?ins"
      using r(2) modes_K(5) 6 op(1) by (simp add: check_operands_def Let_def chk_Some)
    let ?n = "unat (p_nups (p_children pt ! nat b))"
    have "i + int ?n < psize_code pt" "check_closure pt i ?n = Inr (Some ())"
      using r(4) op(2) 6
      by (auto simp: check_op_def Let_def chk_Some seqC_Some child_at_def simp flip: unat_eq_nat_uint split: if_splits)
    then have "good_pos pt (i + 1 + int ?n)"
      using closure_good [OF pre i(1,2), of ?n ?n] op(1) 6 by simp
    moreover have "j = i + 1 + int ?n" using j op(1) 6 b by (simp add: vm_succs_def Let_def)
    ultimately show ?thesis by simp
  next
    case 7
    then have "j = i + 1" using j op(1) by (cases op) (simp_all add: vm_succs_def Let_def)
    moreover have "\<not> counts_next ?ins" using op(1) 7 by (cases op) (simp_all add: counts_next_def)
    ultimately show ?thesis using nxt 7 by auto
  qed
qed

text \<open>What an accepted instruction may touch.\<close>

definition operands_in_range :: "Proto \<Rightarrow> u32 \<Rightarrow> bool" where
  "operands_in_range pt ins \<longleftrightarrow>
     GET_OPCODE ins < NUM_OPCODES \<and> GETARG_A ins < maxstack pt \<and>
     (getOpMode (GET_OPCODE ins) = opmode_num iABC \<longrightarrow>
        checkArgMode pt (GETARG_B ins) (getBMode (GET_OPCODE ins)) \<and>
        checkArgMode pt (GETARG_C ins) (getCMode (GET_OPCODE ins))) \<and>
     (getOpMode (GET_OPCODE ins) = opmode_num iABx \<and> getBMode (GET_OPCODE ins) = opargmask_num OpArgK \<longrightarrow>
        GETARG_Bx ins < size_constants pt)"

lemma passed_operands:
  assumes "passed pt i" "0 \<le> i" "i < psize_code pt"
  shows "operands_in_range pt (p_code pt ! nat i)"
proof -
  obtain b c where "GET_OPCODE (p_code pt ! nat i) < NUM_OPCODES" "GETARG_A (p_code pt ! nat i) < maxstack pt"
    "check_operands pt i (p_code pt ! nat i) = Inr (Some (b, c))"
    using assms(1) sym_step_result [OF _ assms(2,3)] unfolding passed_def by metis
  moreover have "opmode_num iABC \<noteq> opmode_num iABx" by simp
  ultimately show ?thesis by (auto simp: operands_in_range_def check_operands_def Let_def chk_Some split: if_splits)
qed

text \<open>C13: accepted bytecode stays in its code: if \<open>luaG_checkcode\<close> accepts a function whose
  \<open>OP_LOADBOOL\<close> skips are 0 or 1, then whatever the tests decide, the virtual machine only reaches
  words of the code that are instructions (never the count of an \<open>OP_SETLIST\<close>, never past the end),
  with valid opcodes, registers below \<open>maxstacksize\<close> and constants that exist.\<close>

theorem checkcode_safe:
  assumes "luaG_checkcode pt = Inr True" "loadbools_ok pt" "vm_reach pt i"
  shows "0 \<le> i \<and> i < psize_code pt \<and> ins_pos pt i \<and> operands_in_range pt (p_code pt ! nat i)"
proof -
  have "good_pos pt i"
    using assms(3)
  proof (induction rule: vm_reach.induct)
    case vr_start
    have "p_code pt \<noteq> []" using checkcode_passed(1) [OF assms(1)] by (simp add: precheck_def)
    then show ?case by (simp add: good_pos_def ins_pos.ip_first size_defs)
  next
    case (vr_step i j)
    then show ?case using succs_good [OF assms(1,2)] by blast
  qed
  then show ?thesis
    using checkcode_passed(2) [OF assms(1)] passed_operands by (auto simp: good_pos_def)
qed

theorem checkcode_safe_witness:
  "operands_in_range (ret_proto [CREATE_ABC (op_num OP_LOADBOOL) 1 0 0]) (CREATE_ABC (op_num OP_RETURN) 0 1 0)"
proof -
  let ?p = "ret_proto [CREATE_ABC (op_num OP_LOADBOOL) 1 0 0]"
  have ok: "luaG_checkcode ?p = Inr True" "loadbools_ok ?p" by code_simp+
  have "1 \<in> set (vm_succs ?p 0)" by code_simp
  then have "vm_reach ?p 1" using vm_reach.intros by blast
  then show ?thesis using checkcode_safe [OF ok, of 1] by (simp add: ret_proto_def)
qed

text \<open>The verifier looks at the skip of \<open>OP_LOADBOOL\<close> only when \<open>C\<close> is one, but the virtual
  machine skips for every other value too: it accepts a function whose first instruction jumps over
  the final return and leaves the code.\<close>

theorem loadbool_leaves_code:
  "let pt = ret_proto [CREATE_ABC (op_num OP_LOADBOOL) 0 1 2] in
   luaG_checkcode pt = Inr True \<and> vm_succs pt 0 = [psize_code pt]"
  by code_simp

end
