(* ===== verification/Zio.thy ===== *)
theory Zio
  imports Prelude
begin

text \<open>
  Buffered input streams (\<open>lzio.c\<close>, \<open>lzio.h\<close>). A stream refills its buffer from a reader,
  a function of the reader's own state that returns a block or null (\<open>None\<close>).
\<close>

type_synonym 'd reader = "'d \<Rightarrow> u8 list option \<times> 'd"

text \<open>\<open>p\<close> is what the pointer of the same name leads to, up to the end of the buffer; \<open>n\<close> is the
  counter, which is not always its length: \<open>zgetc\<close> decrements it past zero at the end of the
  stream.\<close>

record 'd ZIO =
  z_n :: u64
  z_p :: "u8 list"
  z_data :: 'd

record Mbuffer =
  mb_buffer :: "u8 list"
  mb_n :: nat
  mb_size :: nat

definition EOZ :: int where "EOZ = -1"
definition LUA_MINBUFFER :: nat where "LUA_MINBUFFER = 32"

definition char2int :: "u8 \<Rightarrow> int" where "char2int c = uint c"

lemma char2int_not_EOZ [simp]: "char2int c \<noteq> EOZ" "EOZ \<noteq> char2int c"
proof -
  have "0 \<le> char2int c" by (simp add: char2int_def)
  then show "char2int c \<noteq> EOZ" "EOZ \<noteq> char2int c" by (auto simp: EOZ_def)
qed

definition luaZ_init :: "'d \<Rightarrow> 'd ZIO" where
  "luaZ_init data = \<lparr>z_n = 0, z_p = [], z_data = data\<rparr>"

definition luaZ_fill :: "'d reader \<Rightarrow> 'd ZIO \<Rightarrow> 'd ZIO \<times> int" where
  "luaZ_fill reader z =
     (case reader (z_data z) of
        (None, d) \<Rightarrow> (z\<lparr>z_data := d\<rparr>, EOZ)
      | (Some [], d) \<Rightarrow> (z\<lparr>z_data := d\<rparr>, EOZ)
      | (Some (c # cs), d) \<Rightarrow>
          (z\<lparr>z_data := d, z_n := of_nat (length (c # cs)) - 1, z_p := cs\<rparr>, char2int c))"

definition zgetc :: "'d reader \<Rightarrow> 'd ZIO \<Rightarrow> ('d ZIO \<times> int) result" where
  "zgetc reader z =
     (let n = z_n z; z = z\<lparr>z_n := n - 1\<rparr> in
      if n > 0 then
        (case z_p z of [] \<Rightarrow> Inl Undefined | c # cs \<Rightarrow> Inr (z\<lparr>z_p := cs\<rparr>, char2int c))
      else Inr (luaZ_fill reader z))"

definition luaZ_lookahead :: "'d reader \<Rightarrow> 'd ZIO \<Rightarrow> ('d ZIO \<times> int) result" where
  "luaZ_lookahead reader z =
     (if z_n z = 0 then
        (case luaZ_fill reader z of (z, c) \<Rightarrow>
           if c = EOZ then Inr (z, EOZ)
           else
             let z = z\<lparr>z_n := z_n z + 1, z_p := word_of_int c # z_p z\<rparr> in Inr (z, c))
      else case z_p z of [] \<Rightarrow> Inl Undefined | c # _ \<Rightarrow> Inr (z, char2int c))"

text \<open>
  The bytes read and the number of missing ones. Every turn of the loop reads at least one
  byte of a block, so \<open>n + 1\<close> turns are enough (\<open>read_enough\<close>).
\<close>

fun read_loop :: "nat \<Rightarrow> 'd reader \<Rightarrow> 'd ZIO \<Rightarrow> u8 list \<Rightarrow> nat \<Rightarrow> ('d ZIO \<times> u8 list \<times> nat) result" where
  "read_loop 0 reader z b n = (if n = 0 then Inr (z, b, 0) else Inl OutOfFuel)"
| "read_loop (Suc f) reader z b n =
     (if n = 0 then Inr (z, b, 0)
      else
        seqR (luaZ_lookahead reader z) (\<lambda>(z, c).
          if c = EOZ then Inr (z, b, n)
          else
            let m = (if n \<le> unat (z_n z) then n else unat (z_n z)) in
            if m > length (z_p z) then Inl Undefined
            else
              read_loop f reader (z\<lparr>z_n := z_n z - of_nat m, z_p := drop m (z_p z)\<rparr>)
                (b @ take m (z_p z)) (n - m)))"

definition luaZ_read :: "'d reader \<Rightarrow> 'd ZIO \<Rightarrow> nat \<Rightarrow> ('d ZIO \<times> u8 list \<times> nat) result" where
  "luaZ_read reader z n = read_loop (n + 1) reader z [] n"

definition luaZ_resizebuffer :: "Mbuffer \<Rightarrow> nat \<Rightarrow> Mbuffer" where
  "luaZ_resizebuffer b n =
     b\<lparr>mb_buffer := take n (mb_buffer b) @ replicate (n - length (mb_buffer b)) 0, mb_size := n\<rparr>"

definition luaZ_openspace :: "Mbuffer \<Rightarrow> nat \<Rightarrow> Mbuffer" where
  "luaZ_openspace b n =
     (if n > mb_size b then luaZ_resizebuffer b (if n < LUA_MINBUFFER then LUA_MINBUFFER else n) else b)"

section \<open>The content of a stream\<close>

text \<open>\<open>yields reader d bs\<close>: from the state \<open>d\<close> the reader delivers the bytes \<open>bs\<close> in blocks and then
  ends.\<close>

inductive yields :: "'d reader \<Rightarrow> 'd \<Rightarrow> u8 list \<Rightarrow> bool" for reader where
  y_end: "reader d = (None, d') \<Longrightarrow> yields reader d []"
| y_empty: "reader d = (Some [], d') \<Longrightarrow> yields reader d []"
| y_block: "reader d = (Some b, d') \<Longrightarrow> b \<noteq> [] \<Longrightarrow> length b < 2 ^ 64 \<Longrightarrow> yields reader d' bs \<Longrightarrow>
    yields reader d (b @ bs)"

definition holds :: "'d reader \<Rightarrow> 'd ZIO \<Rightarrow> u8 list \<Rightarrow> bool" where
  "holds reader z bs \<longleftrightarrow> unat (z_n z) = length (z_p z) \<and>
     (\<exists>ys. yields reader (z_data z) ys \<and> bs = z_p z @ ys)"

lemma holds_init: "yields reader d bs \<Longrightarrow> holds reader (luaZ_init d) bs"
  by (simp add: holds_def luaZ_init_def)

lemma fill_block:
  assumes "yields reader (z_data z) (c # cs)"
  shows "\<exists>b d bs. luaZ_fill reader z = (z\<lparr>z_data := d, z_n := of_nat (length b), z_p := b\<rparr>, char2int c) \<and>
    yields reader d bs \<and> cs = b @ bs \<and> length b + 1 < 2 ^ 64"
  using assms
proof (cases rule: yields.cases)
  case (y_block b d' bs)
  then obtain b' where "b = c # b'" by (cases b) auto
  with y_block show ?thesis by (auto simp: luaZ_fill_def)
qed

lemma fill_end:
  assumes "yields reader (z_data z) []"
  shows "\<exists>d. luaZ_fill reader z = (z\<lparr>z_data := d\<rparr>, EOZ)"
  using assms by (cases rule: yields.cases) (auto simp: luaZ_fill_def)

lemma unat_of_nat_64: "n < 2 ^ 64 \<Longrightarrow> unat (of_nat n :: u64) = n"
  by (simp add: unat_of_nat take_bit_nat_eq_self)

lemma zgetc_holds:
  assumes "holds reader z bs"
  shows "case bs of
      c # cs \<Rightarrow> \<exists>z'. zgetc reader z = Inr (z', char2int c) \<and> holds reader z' cs
    | [] \<Rightarrow> \<exists>z'. zgetc reader z = Inr (z', EOZ)"
proof -
  obtain ys where z: "unat (z_n z) = length (z_p z)" "yields reader (z_data z) ys" "bs = z_p z @ ys"
    using assms by (auto simp: holds_def)
  show ?thesis
  proof (cases "z_p z")
    case Nil
    then have n: "z_n z = 0" using z(1) by (simp add: unat_eq_0)
    show ?thesis
    proof (cases bs)
      case Nil
      then have "yields reader (z_data (z\<lparr>z_n := z_n z - 1\<rparr>)) []" using z by simp
      from fill_end [OF this] n Nil show ?thesis by (auto simp: zgetc_def)
    next
      case (Cons c cs)
      then have "yields reader (z_data (z\<lparr>z_n := z_n z - 1\<rparr>)) (c # cs)" using z \<open>z_p z = []\<close> by simp
      from fill_block [OF this] n Cons show ?thesis
        by (auto simp: zgetc_def holds_def unat_of_nat_64)
    qed
  next
    case (Cons c cs)
    then have n: "z_n z \<noteq> 0" using z(1) by auto
    then have "unat (z_n z - 1) = length cs" using z(1) Cons by (simp add: unat_minus_one)
    then show ?thesis using z n Cons by (auto simp: zgetc_def holds_def word_neq_0_conv)
  qed
qed

text \<open>The next character of a stream: on a stream that holds the bytes \<open>bs\<close>, \<open>zgetc\<close> returns
  the first of them and leaves the rest, wherever the blocks of the reader end, and \<open>EOZ\<close> when
  there is none.\<close>

theorem zgetc_next:
  assumes "holds reader z bs"
  shows "case bs of
      c # cs \<Rightarrow> \<exists>z'. zgetc reader z = Inr (z', char2int c) \<and> holds reader z' cs
    | [] \<Rightarrow> \<exists>z'. zgetc reader z = Inr (z', EOZ)"
  by (rule zgetc_holds [OF assms])

text \<open>A reader of a list of blocks.\<close>

definition block_reader :: "u8 list list reader" where
  "block_reader bs = (case bs of [] \<Rightarrow> (None, []) | b # bs \<Rightarrow> (Some b, bs))"

lemma block_reader_yields:
  "\<forall>b \<in> set bs. b \<noteq> [] \<and> length b < 2 ^ 64 \<Longrightarrow> yields block_reader bs (concat bs)"
proof (induction bs)
  case Nil
  have "block_reader [] = (None, [])" by (simp add: block_reader_def)
  then show ?case by (simp add: yields.y_end)
next
  case (Cons b bs)
  have "block_reader (b # bs) = (Some b, bs)" by (simp add: block_reader_def)
  with Cons show ?case by (auto intro: yields.y_block)
qed

theorem zgetc_next_witness:
  "\<exists>z'. zgetc block_reader (luaZ_init [[1, 2], [3]]) = Inr (z', 1) \<and> holds block_reader z' [2, 3]"
proof -
  have "yields block_reader [[1, 2], [3]] [1, 2, 3]" using block_reader_yields [of "[[1, 2], [3]]"] by simp
  from zgetc_next [OF holds_init [OF this]] show ?thesis by (simp add: char2int_def)
qed

section \<open>Reading blocks\<close>

lemma lookahead_next:
  assumes "holds reader z bs"
  shows "case bs of
      c # cs \<Rightarrow> \<exists>z'. luaZ_lookahead reader z = Inr (z', char2int c) \<and> holds reader z' bs \<and> z_p z' \<noteq> []
    | [] \<Rightarrow> \<exists>z'. luaZ_lookahead reader z = Inr (z', EOZ)"
proof -
  obtain ys where z: "unat (z_n z) = length (z_p z)" "yields reader (z_data z) ys" "bs = z_p z @ ys"
    using assms by (auto simp: holds_def)
  show ?thesis
  proof (cases "z_p z")
    case Nil
    then have n: "z_n z = 0" using z(1) by (simp add: unat_eq_0)
    show ?thesis
    proof (cases bs)
      case Nil
      from fill_end [of reader z] n Nil z show ?thesis by (auto simp: luaZ_lookahead_def)
    next
      case (Cons c cs)
      then have "yields reader (z_data z) (c # cs)" using z \<open>z_p z = []\<close> by simp
      from fill_block [OF this] obtain b d bs' where b:
        "luaZ_fill reader z = (z\<lparr>z_data := d, z_n := of_nat (length b), z_p := b\<rparr>, char2int c)"
        "yields reader d bs'" "cs = b @ bs'" "length b + 1 < 2 ^ 64" by blast
      have "unat (of_nat (length b) + 1 :: u64) = length b + 1"
        using unat_of_nat_64 [OF b(4)] by (simp add: add.commute)
      then show ?thesis
        using b n Cons by (simp add: luaZ_lookahead_def Let_def holds_def) (simp add: char2int_def)
    qed
  next
    case (Cons c cs)
    then have n: "z_n z \<noteq> 0" using z(1) by auto
    then show ?thesis using z n Cons assms by (auto simp: luaZ_lookahead_def)
  qed
qed

lemma read_loop_spec:
  assumes "holds reader z bs" "n \<le> f"
  shows "\<exists>z'. read_loop f reader z b n = Inr (z', b @ take n bs, n - length bs) \<and>
    (n \<le> length bs \<longrightarrow> holds reader z' (drop n bs))"
  using assms
proof (induction f arbitrary: z b n bs)
  case (Suc f)
  show ?case
  proof (cases "n = 0")
    case False
    show ?thesis
    proof (cases bs)
      case Nil
      with lookahead_next [OF Suc.prems(1)] False show ?thesis by auto
    next
      case (Cons c cs)
      then obtain z1 where z1: "luaZ_lookahead reader z = Inr (z1, char2int c)" "holds reader z1 bs" "z_p z1 \<noteq> []"
        using lookahead_next [OF Suc.prems(1)] by auto
      then obtain ys where y: "unat (z_n z1) = length (z_p z1)" "yields reader (z_data z1) ys" "bs = z_p z1 @ ys"
        by (auto simp: holds_def)
      let ?m = "min n (length (z_p z1))"
      let ?z = "z1\<lparr>z_n := z_n z1 - of_nat ?m, z_p := drop ?m (z_p z1)\<rparr>"
      have m: "1 \<le> ?m" "?m \<le> n" "?m \<le> length (z_p z1)" using z1(3) False by (auto simp: Suc_le_eq)
      have "unat (z_n z1) < 2 ^ LENGTH(64)" by (rule unsigned_less)
      then have lt: "length (z_p z1) < 2 ^ 64" using y(1) by simp
      have um: "unat (of_nat ?m :: u64) = ?m" using m lt by (intro unat_of_nat_64) simp
      have "unat (z_n z1 - of_nat ?m) = length (z_p z1) - ?m"
        using um y(1) m by (subst unat_sub) (auto simp: word_le_nat_alt)
      then have h: "holds reader ?z (drop ?m bs)" using y m by (auto simp: holds_def)
      have "read_loop (Suc f) reader z b n = read_loop f reader ?z (b @ take ?m (z_p z1)) (n - ?m)"
        using False z1(1) y(1) by (simp add: Let_def min_def)
      moreover have "n - ?m \<le> f" using Suc.prems(2) m by linarith
      from Suc.IH [OF h this] obtain z' where z':
        "read_loop f reader ?z (b @ take ?m (z_p z1)) (n - ?m) =
           Inr (z', (b @ take ?m (z_p z1)) @ take (n - ?m) (drop ?m bs), n - ?m - length (drop ?m bs))"
        "n - ?m \<le> length (drop ?m bs) \<longrightarrow> holds reader z' (drop (n - ?m) (drop ?m bs))" by blast
      moreover have "take ?m (z_p z1) @ take (n - ?m) (drop ?m bs) = take n bs"
      proof -
        have "take ?m (z_p z1) = take ?m bs" using y(3) m by simp
        then show ?thesis using m(2) by (metis le_add_diff_inverse take_add)
      qed
      ultimately show ?thesis using m y(3) by (auto simp: min_def split: if_splits)
    qed
  qed (use Suc.prems in auto)
qed auto

text \<open>C15: \<open>luaZ_read\<close> always ends, delivers the next \<open>n\<close> bytes of the stream in whatever blocks
  they come and leaves the rest; when the stream is shorter it delivers what there is and
  returns the number of bytes that are missing.\<close>

theorem luaZ_read_delivers:
  assumes "holds reader z bs"
  shows "\<exists>z'. luaZ_read reader z n = Inr (z', take n bs, n - length bs) \<and>
    (n \<le> length bs \<longrightarrow> holds reader z' (drop n bs))"
  using read_loop_spec [OF assms, of n "n + 1" "[]"] by (simp add: luaZ_read_def)

theorem luaZ_read_delivers_witness:
  "\<exists>z'. luaZ_read block_reader (luaZ_init [[1, 2], [3]]) 2 = Inr (z', [1, 2], 0) \<and> holds block_reader z' [3]"
proof -
  have "yields block_reader [[1, 2], [3]] [1, 2, 3]" using block_reader_yields [of "[[1, 2], [3]]"] by simp
  from luaZ_read_delivers [OF holds_init [OF this], of 2] show ?thesis by (simp add: numeral_2_eq_2)
qed

section \<open>The interface of a stream of bytes\<close>

text \<open>What a loader of binary chunks relies on.\<close>

locale byte_stream =
  fixes content :: "'z \<Rightarrow> u8 list \<Rightarrow> bool"
    and read :: "'z \<Rightarrow> nat \<Rightarrow> ('z \<times> u8 list \<times> nat) result"
  assumes read_all: "content z (xs @ ys) \<Longrightarrow> \<exists>z'. read z (length xs) = Inr (z', xs, 0) \<and> content z' ys"
    and read_short: "content z xs \<Longrightarrow> length xs < n \<Longrightarrow> \<exists>z'. read z n = Inr (z', xs, n - length xs)"
begin

lemma read_n: "content z (xs @ ys) \<Longrightarrow> n = length xs \<Longrightarrow> \<exists>z'. read z n = Inr (z', xs, 0) \<and> content z' ys"
  using read_all by simp

end

interpretation zio: byte_stream "holds reader" "luaZ_read reader" for reader
proof
  fix z xs ys
  assume "holds reader z (xs @ ys)"
  then show "\<exists>z'. luaZ_read reader z (length xs) = Inr (z', xs, 0) \<and> holds reader z' ys"
    using read_loop_spec [of reader z "xs @ ys" "length xs" "length xs + 1" "[]"] by (simp add: luaZ_read_def)
next
  fix z xs and n :: nat
  assume "holds reader z xs" "length xs < n"
  then show "\<exists>z'. luaZ_read reader z n = Inr (z', xs, n - length xs)"
    using read_loop_spec [of reader z xs n "n + 1" "[]"] by (auto simp: luaZ_read_def)
qed

end
