(* ===== verification/Undump.thy ===== *)
theory Undump
  imports Zio Debug
begin

text \<open>
  Precompiled chunks: \<open>ldump.c\<close> writes a function through a writer, \<open>lundump.c\<close> reads it back
  from a stream. Values are stored as they lie in memory; the model is that of a little-endian
  machine with 4-byte \<open>int\<close> and \<open>Instruction\<close> and 8-byte \<open>size_t\<close> and \<open>lua_Number\<close>, as the header
  says.
\<close>

section \<open>Values in memory\<close>

definition le_bytes :: "'a::len word \<Rightarrow> u8 list" where
  "le_bytes w = map (\<lambda>k. ucast (drop_bit (8 * k) w)) [0 ..< LENGTH('a) div 8]"

primrec le_word :: "u8 list \<Rightarrow> 'a::len word" where
  "le_word [] = 0"
| "le_word (b # bs) = push_bit 8 (le_word bs) OR ucast b"

primrec le_words :: "nat \<Rightarrow> nat \<Rightarrow> u8 list \<Rightarrow> 'a::len word list" where
  "le_words k 0 bs = []"
| "le_words k (Suc n) bs = le_word (take k bs) # le_words k n (drop k bs)"

definition LUAC_VERSION :: u8 where "LUAC_VERSION = 0x51"
definition LUAC_FORMAT :: u8 where "LUAC_FORMAT = 0"
definition LUAC_HEADERSIZE :: nat where "LUAC_HEADERSIZE = 12"

text \<open>Signature, version, format, endianness, the sizes, and whether numbers are integral.\<close>

definition luaU_header :: "u8 list" where
  "luaU_header = [0x1B, 0x4C, 0x75, 0x61, LUAC_VERSION, LUAC_FORMAT, 1, 4, 8, 4, 8, 0]"

section \<open>Dumping\<close>

type_synonym 'w writer = "'w \<Rightarrow> u8 list \<Rightarrow> int \<times> 'w"

record 'w DumpState =
  d_data :: 'w
  d_strip :: bool
  d_status :: int

definition DumpBlock :: "'w writer \<Rightarrow> u8 list \<Rightarrow> 'w DumpState \<Rightarrow> 'w DumpState" where
  "DumpBlock w b D =
     (if d_status D = 0 then
        case w (d_data D) b of (st, data) \<Rightarrow> D\<lparr>d_status := st, d_data := data\<rparr>
      else D)"

definition DumpVar :: "'w writer \<Rightarrow> 'a::len word \<Rightarrow> 'w DumpState \<Rightarrow> 'w DumpState" where
  "DumpVar w x D = DumpBlock w (le_bytes x) D"

definition DumpChar :: "'w writer \<Rightarrow> int \<Rightarrow> 'w DumpState \<Rightarrow> 'w DumpState" where
  "DumpChar w y D = DumpVar w (word_of_int y :: u8) D"

definition DumpInt :: "'w writer \<Rightarrow> int \<Rightarrow> 'w DumpState \<Rightarrow> 'w DumpState" where
  "DumpInt w x D = DumpVar w (word_of_int x :: u32) D"

definition DumpNumber :: "'w writer \<Rightarrow> lua_Number \<Rightarrow> 'w DumpState \<Rightarrow> 'w DumpState" where
  "DumpNumber w x D = DumpVar w x D"

text \<open>A vector of \<open>n\<close> elements whose memory is \<open>b\<close>.\<close>

definition DumpVector :: "'w writer \<Rightarrow> u8 list \<Rightarrow> nat \<Rightarrow> 'w DumpState \<Rightarrow> 'w DumpState" where
  "DumpVector w b n D = DumpBlock w b (DumpInt w (int n) D)"

definition DumpString :: "'w writer \<Rightarrow> tstring option \<Rightarrow> 'w DumpState \<Rightarrow> 'w DumpState" where
  "DumpString w s D =
     (case s of
        None \<Rightarrow> DumpVar w (0 :: u64) D
      | Some s \<Rightarrow> DumpBlock w (s @ [0]) (DumpVar w (of_nat (length s + 1) :: u64) D))"

definition DumpCode :: "'w writer \<Rightarrow> u32 list \<Rightarrow> 'w DumpState \<Rightarrow> 'w DumpState" where
  "DumpCode w cs D = DumpVector w (concat (map le_bytes cs)) (length cs) D"

definition DumpConstant :: "'w writer \<Rightarrow> Constant \<Rightarrow> 'w DumpState \<Rightarrow> 'w DumpState" where
  "DumpConstant w k D =
     (case k of
        KNIL \<Rightarrow> DumpChar w 0 D
      | KBOOLEAN b \<Rightarrow> DumpChar w (if b then 1 else 0) (DumpChar w 1 D)
      | KNUMBER n \<Rightarrow> DumpNumber w n (DumpChar w 3 D)
      | KSTRING s \<Rightarrow> DumpString w s (DumpChar w 4 D))"

definition DumpLocVar :: "'w writer \<Rightarrow> LocVar \<Rightarrow> 'w DumpState \<Rightarrow> 'w DumpState" where
  "DumpLocVar w v D = DumpInt w (endpc v) (DumpInt w (startpc v) (DumpString w (varname v) D))"

definition DumpDebug :: "'w writer \<Rightarrow> Proto \<Rightarrow> 'w DumpState \<Rightarrow> 'w DumpState" where
  "DumpDebug w f D =
     (let strip = d_strip D;
          li = (if strip then [] else p_lineinfo f);
          lv = (if strip then [] else p_locvars f);
          up = (if strip then [] else p_upvalues f);
          D = DumpVector w (concat (map (\<lambda>x. le_bytes (word_of_int x :: u32)) li)) (length li) D;
          D = fold (DumpLocVar w) lv (DumpInt w (int (length lv)) D)
      in fold (DumpString w) up (DumpInt w (int (length up)) D))"

text \<open>\<open>DumpConstants\<close> is given the dump of the nested functions as a parameter.\<close>

definition DumpConstants :: "('w DumpState \<Rightarrow> 'w DumpState) \<Rightarrow> 'w writer \<Rightarrow> Constant list \<Rightarrow> nat \<Rightarrow>
    'w DumpState \<Rightarrow> 'w DumpState" where
  "DumpConstants dump_children w ks n D =
     dump_children (DumpInt w (int n) (fold (DumpConstant w) ks (DumpInt w (int (length ks)) D)))"

fun DumpFunction :: "'w writer \<Rightarrow> Proto \<Rightarrow> tstring option \<Rightarrow> 'w DumpState \<Rightarrow> 'w DumpState"
  and DumpChildren :: "'w writer \<Rightarrow> Proto list \<Rightarrow> tstring option \<Rightarrow> 'w DumpState \<Rightarrow> 'w DumpState" where
  "DumpFunction w (Proto ks cs ch li lv up src ld lld nu np iv ms) p D =
     (let f = Proto ks cs ch li lv up src ld lld nu np iv ms;
          D = DumpString w (if src = p \<or> d_strip D then None else src) D;
          D = DumpInt w lld (DumpInt w ld D);
          D = DumpChar w (uint ms) (DumpChar w (uint iv) (DumpChar w (uint np) (DumpChar w (uint nu) D)));
          D = DumpCode w cs D;
          D = DumpConstants (DumpChildren w ch src) w ks (length ch) D
      in DumpDebug w f D)"
| "DumpChildren w [] p D = D"
| "DumpChildren w (c # cs) p D = DumpChildren w cs p (DumpFunction w c p D)"

declare DumpFunction.simps [simp del]

definition DumpHeader :: "'w writer \<Rightarrow> 'w DumpState \<Rightarrow> 'w DumpState" where
  "DumpHeader w D = DumpBlock w luaU_header D"

definition luaU_dump :: "'w writer \<Rightarrow> Proto \<Rightarrow> 'w \<Rightarrow> bool \<Rightarrow> int \<times> 'w" where
  "luaU_dump w f data strip =
     (let D = \<lparr>d_data = data, d_strip = strip, d_status = 0\<rparr>;
          D = DumpFunction w f None (DumpHeader w D)
      in (d_status D, d_data D))"

section \<open>Loading\<close>

text \<open>The functions are written over the read function of the stream; \<open>name\<close> is \<open>S->name\<close>.\<close>

type_synonym 'z zread = "'z \<Rightarrow> nat \<Rightarrow> ('z \<times> u8 list \<times> nat) result"

definition load_error :: "string \<Rightarrow> string \<Rightarrow> 'a result" where
  "load_error name why = Inl (SyntaxError (name @ '': '' @ why @ '' in precompiled chunk''))"

definition LoadBlock :: "'z zread \<Rightarrow> string \<Rightarrow> nat \<Rightarrow> 'z \<Rightarrow> ('z \<times> u8 list) result" where
  "LoadBlock rd name n z =
     seqR (rd z n) (\<lambda>(z, b, r). if r \<noteq> 0 then load_error name ''unexpected end'' else Inr (z, b))"

definition LoadVar :: "'z zread \<Rightarrow> string \<Rightarrow> 'z \<Rightarrow> ('z \<times> 'a::len word) result" where
  "LoadVar rd name z = seqR (LoadBlock rd name (LENGTH('a) div 8) z) (\<lambda>(z, b). Inr (z, le_word b))"

text \<open>\<open>char\<close> is signed.\<close>

definition LoadChar :: "'z zread \<Rightarrow> string \<Rightarrow> 'z \<Rightarrow> ('z \<times> int) result" where
  "LoadChar rd name z = seqR (LoadVar rd name z) (\<lambda>(z, x :: u8). Inr (z, sint x))"

definition LoadByte :: "'z zread \<Rightarrow> string \<Rightarrow> 'z \<Rightarrow> ('z \<times> u8) result" where
  "LoadByte rd name z = seqR (LoadChar rd name z) (\<lambda>(z, x). Inr (z, word_of_int x))"

definition LoadInt :: "'z zread \<Rightarrow> string \<Rightarrow> 'z \<Rightarrow> ('z \<times> int) result" where
  "LoadInt rd name z =
     seqR (LoadVar rd name z) (\<lambda>(z, x :: u32).
       if sint x < 0 then load_error name ''bad integer'' else Inr (z, sint x))"

definition LoadNumber :: "'z zread \<Rightarrow> string \<Rightarrow> 'z \<Rightarrow> ('z \<times> lua_Number) result" where
  "LoadNumber rd name z = LoadVar rd name z"

definition LoadString :: "'z zread \<Rightarrow> string \<Rightarrow> 'z \<Rightarrow> ('z \<times> tstring option) result" where
  "LoadString rd name z =
     seqR (LoadVar rd name z) (\<lambda>(z, sz :: u64).
       if sz = 0 then Inr (z, None)
       else seqR (LoadBlock rd name (unat sz) z) (\<lambda>(z, s). Inr (z, Some (take (unat sz - 1) s))))"

definition LoadVector :: "'z zread \<Rightarrow> string \<Rightarrow> 'z \<Rightarrow> ('z \<times> u32 list) result" where
  "LoadVector rd name z =
     seqR (LoadInt rd name z) (\<lambda>(z, n).
     seqR (LoadBlock rd name (nat n * 4) z) (\<lambda>(z, b). Inr (z, le_words 4 (nat n) b)))"

definition LoadCode :: "'z zread \<Rightarrow> string \<Rightarrow> 'z \<Rightarrow> ('z \<times> u32 list) result" where
  "LoadCode rd name z = LoadVector rd name z"

primrec load_list :: "('z \<Rightarrow> ('z \<times> 'a) result) \<Rightarrow> nat \<Rightarrow> 'z \<Rightarrow> ('z \<times> 'a list) result" where
  "load_list f 0 z = Inr (z, [])"
| "load_list f (Suc n) z =
     seqR (f z) (\<lambda>(z, x). seqR (load_list f n z) (\<lambda>(z, xs). Inr (z, x # xs)))"

text \<open>The count, then the elements.\<close>

definition load_counted :: "'z zread \<Rightarrow> string \<Rightarrow> ('z \<Rightarrow> ('z \<times> 'a) result) \<Rightarrow> 'z \<Rightarrow> ('z \<times> 'a list) result" where
  "load_counted rd name f z = seqR (LoadInt rd name z) (\<lambda>(z, n). load_list f (nat n) z)"

definition LoadConstant :: "'z zread \<Rightarrow> string \<Rightarrow> 'z \<Rightarrow> ('z \<times> Constant) result" where
  "LoadConstant rd name z =
     seqR (LoadChar rd name z) (\<lambda>(z, t).
       if t = 0 then Inr (z, KNIL)
       else if t = 1 then seqR (LoadChar rd name z) (\<lambda>(z, b). Inr (z, KBOOLEAN (b \<noteq> 0)))
       else if t = 3 then seqR (LoadNumber rd name z) (\<lambda>(z, n). Inr (z, KNUMBER n))
       else if t = 4 then seqR (LoadString rd name z) (\<lambda>(z, s). Inr (z, KSTRING s))
       else load_error name ''bad constant'')"

definition LoadConstants :: "('z \<Rightarrow> ('z \<times> Proto) result) \<Rightarrow> 'z zread \<Rightarrow> string \<Rightarrow> 'z \<Rightarrow>
    ('z \<times> Constant list \<times> Proto list) result" where
  "LoadConstants load_child rd name z =
     seqR (load_counted rd name (LoadConstant rd name) z) (\<lambda>(z, ks).
     seqR (load_counted rd name load_child z) (\<lambda>(z, ch). Inr (z, ks, ch)))"

definition LoadLocVar :: "'z zread \<Rightarrow> string \<Rightarrow> 'z \<Rightarrow> ('z \<times> LocVar) result" where
  "LoadLocVar rd name z =
     seqR (LoadString rd name z) (\<lambda>(z, s).
     seqR (LoadInt rd name z) (\<lambda>(z, a).
     seqR (LoadInt rd name z) (\<lambda>(z, b). Inr (z, \<lparr>varname = s, startpc = a, endpc = b\<rparr>))))"

definition LoadDebug :: "'z zread \<Rightarrow> string \<Rightarrow> 'z \<Rightarrow>
    ('z \<times> int list \<times> LocVar list \<times> tstring option list) result" where
  "LoadDebug rd name z =
     seqR (LoadVector rd name z) (\<lambda>(z, li).
     seqR (load_counted rd name (LoadLocVar rd name) z) (\<lambda>(z, lv).
     seqR (load_counted rd name (LoadString rd name) z) (\<lambda>(z, up).
     Inr (z, map sint li, lv, up))))"

definition LUAI_MAXCCALLS :: nat where "LUAI_MAXCCALLS = 200"

text \<open>The first argument is \<open>LUAI_MAXCCALLS - nCcalls\<close>, what is left of the C stack.\<close>

primrec LoadFunction :: "nat \<Rightarrow> 'z zread \<Rightarrow> string \<Rightarrow> tstring option \<Rightarrow> 'z \<Rightarrow> ('z \<times> Proto) result" where
  "LoadFunction 0 = (\<lambda>rd name p z. load_error name ''code too deep'')"
| "LoadFunction (Suc d) = (\<lambda>rd name p z.
     seqR (LoadString rd name z) (\<lambda>(z, s).
     let src = (if s = None then p else s) in
     seqR (LoadInt rd name z) (\<lambda>(z, ld).
     seqR (LoadInt rd name z) (\<lambda>(z, lld).
     seqR (LoadByte rd name z) (\<lambda>(z, nu).
     seqR (LoadByte rd name z) (\<lambda>(z, np).
     seqR (LoadByte rd name z) (\<lambda>(z, iv).
     seqR (LoadByte rd name z) (\<lambda>(z, ms).
     seqR (LoadCode rd name z) (\<lambda>(z, cs).
     seqR (LoadConstants (LoadFunction d rd name src) rd name z) (\<lambda>(z, ks, ch).
     seqR (LoadDebug rd name z) (\<lambda>(z, li, lv, up).
     let f = Proto ks cs ch li lv up src ld lld nu np iv ms in
     seqR (luaG_checkcode f) (\<lambda>ok.
       if \<not> ok then load_error name ''bad code'' else Inr (z, f)))))))))))))"

definition LoadHeader :: "'z zread \<Rightarrow> string \<Rightarrow> 'z \<Rightarrow> 'z result" where
  "LoadHeader rd name z =
     seqR (LoadBlock rd name LUAC_HEADERSIZE z) (\<lambda>(z, s).
       if luaU_header \<noteq> s then load_error name ''bad header'' else Inr z)"

definition chunk_name :: "string \<Rightarrow> string" where
  "chunk_name name =
     (case name of
        [] \<Rightarrow> name
      | c # cs \<Rightarrow> if c = CHR ''@'' \<or> c = CHR ''='' then cs else if c = CHR 0x1B then ''binary string'' else name)"

definition undump :: "'z zread \<Rightarrow> nat \<Rightarrow> string \<Rightarrow> 'z \<Rightarrow> ('z \<times> Proto) result" where
  "undump rd calls_left name z =
     (let name = chunk_name name in
      seqR (LoadHeader rd name z) (\<lambda>z. LoadFunction calls_left rd name (Some [0x3D, 0x3F]) z))"

definition luaU_undump :: "'d reader \<Rightarrow> nat \<Rightarrow> 'd ZIO \<Rightarrow> string \<Rightarrow> ('d ZIO \<times> Proto) result" where
  "luaU_undump reader nCcalls Z name = undump (luaZ_read reader) (LUAI_MAXCCALLS - nCcalls) name Z"

end
