(* ===== verification/UndumpSpec.thy ===== *)
theory UndumpSpec
  imports Undump DebugSpec
begin

text \<open>
  The format of a precompiled chunk, that \<open>ldump.c\<close> writes it, that \<open>lundump.c\<close> reads it back,
  and what a failing writer does.
\<close>

section \<open>Values in memory\<close>

lemma bit_le_word:
  "bit (le_word bs :: 'a::len word) n \<longleftrightarrow> n < LENGTH('a) \<and> n div 8 < length bs \<and> bit (bs ! (n div 8)) (n mod 8)"
proof (induction bs arbitrary: n)
  case (Cons b bs)
  show ?case
  proof (cases "n < 8")
    case True
    then show ?thesis by (auto simp: bit_simps)
  next
    case False
    then have "n div 8 = Suc ((n - 8) div 8)" "(n - 8) mod 8 = n mod 8"
      by (auto simp: le_div_geq le_mod_geq)
    moreover have "\<not> bit b n" using False by (auto dest: bit_imp_le_length)
    ultimately show ?thesis using False Cons [of "n - 8"] by (auto simp: bit_simps)
  qed
qed simp

lemma length_le_bytes [simp]: "length (le_bytes (w :: 'a::len word)) = LENGTH('a) div 8"
  by (simp add: le_bytes_def)

lemma le_word_bytes:
  assumes "8 dvd LENGTH('a)"
  shows "le_word (le_bytes (w :: 'a::len word)) = w"
proof (rule bit_word_eqI)
  fix n assume n: "n < LENGTH('a)"
  then have "n div 8 < LENGTH('a) div 8" using assms by (auto elim!: dvdE)
  with n show "bit (le_word (le_bytes w) :: 'a word) n = bit w n"
    by (simp add: bit_le_word le_bytes_def bit_simps)
qed

lemma le_word_bytes_sizes [simp]:
  "le_word (le_bytes (w :: u32)) = w" "le_word (le_bytes (x :: u64)) = x" "le_word (le_bytes (y :: u8)) = y"
  by (simp_all add: le_word_bytes)

lemma le_words_concat: "le_words 4 (length xs) (concat (map le_bytes xs)) = (xs :: u32 list)"
  by (induction xs) simp_all

section \<open>The format\<close>

definition ser_int :: "int \<Rightarrow> u8 list" where "ser_int x = le_bytes (word_of_int x :: u32)"

definition ser_byte :: "int \<Rightarrow> u8 list" where "ser_byte x = le_bytes (word_of_int x :: u8)"

definition ser_str :: "tstring option \<Rightarrow> u8 list" where
  "ser_str s = (case s of None \<Rightarrow> le_bytes (0 :: u64) | Some s \<Rightarrow> le_bytes (of_nat (length s + 1) :: u64) @ s @ [0])"

definition ser_vec :: "u32 list \<Rightarrow> u8 list" where
  "ser_vec xs = ser_int (int (length xs)) @ concat (map le_bytes xs)"

definition ser_list :: "('a \<Rightarrow> u8 list) \<Rightarrow> 'a list \<Rightarrow> u8 list" where
  "ser_list f xs = ser_int (int (length xs)) @ concat (map f xs)"

definition ser_const :: "Constant \<Rightarrow> u8 list" where
  "ser_const k =
     (case k of
        KNIL \<Rightarrow> ser_byte 0
      | KBOOLEAN b \<Rightarrow> ser_byte 1 @ ser_byte (if b then 1 else 0)
      | KNUMBER n \<Rightarrow> ser_byte 3 @ le_bytes n
      | KSTRING s \<Rightarrow> ser_byte 4 @ ser_str s)"

definition ser_locvar :: "LocVar \<Rightarrow> u8 list" where
  "ser_locvar v = ser_str (varname v) @ ser_int (startpc v) @ ser_int (endpc v)"

definition ser_debug :: "bool \<Rightarrow> Proto \<Rightarrow> u8 list" where
  "ser_debug strip f =
     ser_vec (if strip then [] else map word_of_int (p_lineinfo f)) @
     ser_list ser_locvar (if strip then [] else p_locvars f) @
     ser_list ser_str (if strip then [] else p_upvalues f)"

fun ser_fun :: "bool \<Rightarrow> tstring option \<Rightarrow> Proto \<Rightarrow> u8 list"
  and ser_funs :: "bool \<Rightarrow> tstring option \<Rightarrow> Proto list \<Rightarrow> u8 list" where
  "ser_fun strip p (Proto ks cs ch li lv up src ld lld nu np iv ms) =
     ser_str (if src = p \<or> strip then None else src) @ ser_int ld @ ser_int lld @
     ser_byte (uint nu) @ ser_byte (uint np) @ ser_byte (uint iv) @ ser_byte (uint ms) @
     ser_vec cs @ ser_list ser_const ks @ (ser_int (int (length ch)) @ ser_funs strip src ch) @
     ser_debug strip (Proto ks cs ch li lv up src ld lld nu np iv ms)"
| "ser_funs strip p [] = []"
| "ser_funs strip p (c # cs) = ser_fun strip p c @ ser_funs strip p cs"

section \<open>The dump writes the format\<close>

locale byte_sink =
  fixes w :: "'w writer" and out :: "'w \<Rightarrow> u8 list"
  assumes w_ok: "fst (w d b) = 0" and w_out: "out (snd (w d b)) = out d @ b"
begin

definition emits :: "bool \<Rightarrow> ('w DumpState \<Rightarrow> 'w DumpState) \<Rightarrow> u8 list \<Rightarrow> bool" where
  "emits strip f bs \<longleftrightarrow> (\<forall>D. d_status D = 0 \<and> d_strip D = strip \<longrightarrow>
     d_status (f D) = 0 \<and> d_strip (f D) = strip \<and> out (d_data (f D)) = out (d_data D) @ bs)"

lemma emits_block: "emits s (DumpBlock w b) b"
  unfolding emits_def
proof (intro allI impI)
  fix D :: "'w DumpState" assume D: "d_status D = 0 \<and> d_strip D = s"
  obtain st d' where "w (d_data D) b = (st, d')" by (cases "w (d_data D) b")
  moreover from this have "st = 0" "out d' = out (d_data D) @ b"
    using w_ok [of "d_data D" b] w_out [of "d_data D" b] by auto
  ultimately show "d_status (DumpBlock w b D) = 0 \<and> d_strip (DumpBlock w b D) = s \<and>
      out (d_data (DumpBlock w b D)) = out (d_data D) @ b"
    using D by (simp add: DumpBlock_def)
qed

lemma emits_cong: "(\<And>D. d_strip D = s \<Longrightarrow> f D = g D) \<Longrightarrow> emits s g b \<Longrightarrow> b = b' \<Longrightarrow> emits s f b'"
  by (simp add: emits_def)

lemma emits_id: "emits s (\<lambda>D. D) []"
  by (simp add: emits_def)

lemma emits_comp: "emits s f a \<Longrightarrow> emits s g b \<Longrightarrow> emits s (\<lambda>D. g (f D)) (a @ b)"
  by (simp add: emits_def)

lemma emits_var: "emits s (DumpVar w x) (le_bytes x)"
  unfolding DumpVar_def by (rule emits_block)

lemma emits_char: "emits s (DumpChar w y) (ser_byte y)"
  unfolding DumpChar_def ser_byte_def by (rule emits_var)

lemma emits_int: "emits s (DumpInt w y) (ser_int y)"
  unfolding DumpInt_def ser_int_def by (rule emits_var)

lemma emits_vector: "emits s (DumpVector w b n) (ser_int (int n) @ b)"
  unfolding DumpVector_def by (rule emits_comp [OF emits_int emits_block])

lemma emits_string: "emits s (DumpString w t) (ser_str t)"
proof (cases t)
  case None
  then show ?thesis by (intro emits_cong [OF _ emits_var]) (simp_all add: DumpString_def ser_str_def)
next
  case (Some u)
  then show ?thesis
    by (intro emits_cong [OF _ emits_comp [OF emits_var emits_block]]) (simp_all add: DumpString_def ser_str_def)
qed

lemma emits_code: "emits s (DumpCode w cs) (ser_vec cs)"
  unfolding DumpCode_def ser_vec_def by (rule emits_vector)

lemma emits_constant: "emits s (DumpConstant w k) (ser_const k)"
proof (cases k)
  case KNIL
  then show ?thesis by (intro emits_cong [OF _ emits_char]) (simp_all add: DumpConstant_def ser_const_def)
next
  case (KBOOLEAN b)
  then show ?thesis
    by (intro emits_cong [OF _ emits_comp [OF emits_char emits_char]]) (simp_all add: DumpConstant_def ser_const_def)
next
  case (KNUMBER n)
  then show ?thesis
    by (intro emits_cong [OF _ emits_comp [OF emits_char emits_var]])
      (simp_all add: DumpConstant_def ser_const_def DumpNumber_def)
next
  case (KSTRING t)
  then show ?thesis
    by (intro emits_cong [OF _ emits_comp [OF emits_char emits_string]]) (simp_all add: DumpConstant_def ser_const_def)
qed

lemma emits_locvar: "emits s (DumpLocVar w v) (ser_locvar v)"
  unfolding DumpLocVar_def ser_locvar_def
  using emits_comp [OF emits_string emits_comp [OF emits_int emits_int]] .

lemma emits_fold: "(\<And>x. x \<in> set xs \<Longrightarrow> emits s (f x) (g x)) \<Longrightarrow> emits s (fold f xs) (concat (map g xs))"
proof (induction xs)
  case Nil
  then show ?case using emits_id by (simp add: id_def)
next
  case (Cons x xs)
  then have "emits s (\<lambda>D. fold f xs (f x D)) (g x @ concat (map g xs))" by (intro emits_comp) auto
  then show ?case by (simp add: comp_def)
qed

lemma emits_list: "(\<And>x. emits s (f x) (g x)) \<Longrightarrow>
    emits s (\<lambda>D. fold f xs (DumpInt w (int (length xs)) D)) (ser_list g xs)"
  unfolding ser_list_def by (intro emits_comp emits_int emits_fold)

lemma emits_debug: "emits s (DumpDebug w f) (ser_debug s f)"
proof -
  let ?li = "if s then [] else p_lineinfo f" and ?lv = "if s then [] else p_locvars f"
    and ?up = "if s then [] else p_upvalues f"
  have v: "emits s (DumpVector w (concat (map (\<lambda>x. le_bytes (word_of_int x :: u32)) ?li)) (length ?li))
      (ser_vec (map word_of_int ?li))"
    using emits_vector by (simp add: ser_vec_def comp_def)
  have lv: "emits s (\<lambda>D. fold (DumpLocVar w) ?lv (DumpInt w (int (length ?lv)) D)) (ser_list ser_locvar ?lv)"
    by (intro emits_list emits_locvar)
  have up: "emits s (\<lambda>D. fold (DumpString w) ?up (DumpInt w (int (length ?up)) D)) (ser_list ser_str ?up)"
    by (intro emits_list emits_string)
  show ?thesis
    unfolding ser_debug_def
    by (rule emits_cong [OF _ emits_comp [OF v emits_comp [OF lv up]]]) (simp_all add: DumpDebug_def Let_def)
qed

lemma emits_function: "emits s (DumpFunction w f p) (ser_fun s p f)"
  and emits_children: "emits s (DumpChildren w fs p) (ser_funs s p fs)"
proof (induction s p f and s p fs rule: ser_fun_ser_funs.induct)
  case (1 s p ks cs ch li lv up src ld lld nu np iv ms)
  let ?f = "Proto ks cs ch li lv up src ld lld nu np iv ms"
  have ks: "emits s (\<lambda>D. fold (DumpConstant w) ks (DumpInt w (int (length ks)) D)) (ser_list ser_const ks)"
    by (intro emits_list emits_constant)
  have ch: "emits s (\<lambda>D. DumpChildren w ch src (DumpInt w (int (length ch)) D))
      (ser_int (int (length ch)) @ ser_funs s src ch)"
    by (rule emits_comp [OF emits_int 1])
  have "emits s (\<lambda>D. DumpDebug w ?f (DumpConstants (DumpChildren w ch src) w ks (length ch) (DumpCode w cs
      (DumpChar w (uint ms) (DumpChar w (uint iv) (DumpChar w (uint np) (DumpChar w (uint nu)
      (DumpInt w lld (DumpInt w ld (DumpString w (if src = p \<or> s then None else src) D)))))))))) (ser_fun s p ?f)"
    unfolding DumpConstants_def ser_fun.simps
    by (rule emits_comp [OF emits_string emits_comp [OF emits_int emits_comp [OF emits_int
      emits_comp [OF emits_char emits_comp [OF emits_char emits_comp [OF emits_char emits_comp [OF emits_char
      emits_comp [OF emits_code emits_comp [OF ks emits_comp [OF ch emits_debug]]]]]]]]]])
  then show ?case by (rule emits_cong [rotated]) (simp_all add: DumpFunction.simps Let_def)
next
  case (2 s p)
  then show ?case by (intro emits_cong [OF _ emits_id]) (simp_all add: DumpFunction.simps)
next
  case (3 s p c cs)
  show ?case by (intro emits_cong [OF _ emits_comp [OF 3]]) (simp_all add: DumpFunction.simps)
qed

lemma luaU_dump_emits:
  "fst (luaU_dump w f data strip) = 0 \<and>
   out (snd (luaU_dump w f data strip)) = out data @ luaU_header @ ser_fun strip None f"
proof -
  have "emits strip (\<lambda>D. DumpFunction w f None (DumpHeader w D)) (luaU_header @ ser_fun strip None f)"
    unfolding DumpHeader_def by (rule emits_comp [OF emits_block emits_function])
  then show ?thesis by (simp add: emits_def luaU_dump_def)
qed

end

text \<open>The writer of \<open>string.dump\<close> adds the block to a buffer and returns zero.\<close>

definition append_writer :: "u8 list writer" where
  "append_writer d b = (0, d @ b)"

interpretation appender: byte_sink append_writer "\<lambda>d. d"
  by unfold_locales (simp_all add: append_writer_def)

section \<open>Loading the format\<close>

text \<open>\<open>reads f bs x\<close>: the loader \<open>f\<close> takes exactly the bytes \<open>bs\<close> from the stream and returns \<open>x\<close>.\<close>

context byte_stream
begin

definition reads :: "('z \<Rightarrow> ('z \<times> 'a) result) \<Rightarrow> u8 list \<Rightarrow> 'a \<Rightarrow> bool" where
  "reads f bs x \<longleftrightarrow> (\<forall>z ys. content z (bs @ ys) \<longrightarrow> (\<exists>z'. f z = Inr (z', x) \<and> content z' ys))"

lemma reads_seq:
  "reads f a x \<Longrightarrow> reads (\<lambda>z. g z x) b y \<Longrightarrow> reads (\<lambda>z. seqR (f z) (\<lambda>(z, x). g z x)) (a @ b) y"
  by (fastforce simp: reads_def)

lemma reads_ret: "reads (\<lambda>z. Inr (z, x)) [] x"
  by (simp add: reads_def)

lemma reads_last: "reads f a x \<Longrightarrow> reads (\<lambda>z. seqR (f z) (\<lambda>(z, x). Inr (z, h x))) a (h x)"
  by (fastforce simp: reads_def)

lemma reads_block: "length bs = n \<Longrightarrow> reads (LoadBlock read name n) bs bs"
  using read_n by (fastforce simp: reads_def LoadBlock_def)

lemma reads_var: "8 dvd LENGTH('a) \<Longrightarrow> reads (LoadVar read name) (le_bytes (w :: 'a::len word)) w"
  using reads_last [OF reads_block [of "le_bytes w" "LENGTH('a) div 8" name], of "le_word :: u8 list \<Rightarrow> 'a word"] le_word_bytes [of w]
  by (simp add: LoadVar_def [abs_def])

lemma reads_char: "reads (LoadChar read name) (ser_byte y) (sint (word_of_int y :: u8))"
  unfolding LoadChar_def [abs_def] ser_byte_def by (intro reads_last reads_var) simp

lemma reads_byte: "reads (LoadByte read name) (ser_byte (uint (b :: u8))) b"
proof -
  have "reads (\<lambda>z. seqR (LoadChar read name z) (\<lambda>(z, x). Inr (z, word_of_int x :: u8))) (ser_byte (uint b)) (scast b)"
    using reads_last [OF reads_char [of name "uint b"], of "word_of_int :: int \<Rightarrow> u8"] by simp
  then show ?thesis by (simp add: LoadByte_def [abs_def] scast_id)
qed

lemma sint_of_int32: "- (2 ^ 31) \<le> x \<Longrightarrow> x < 2 ^ 31 \<Longrightarrow> sint (word_of_int x :: u32) = x"
  by (simp add: int_word_sint)

lemma reads_int: "0 \<le> x \<Longrightarrow> x < 2 ^ 31 \<Longrightarrow> reads (LoadInt read name) (ser_int x) x"
proof -
  assume x: "0 \<le> x" "x < 2 ^ 31"
  then have s: "sint (word_of_int x :: u32) = x" by (intro sint_of_int32) auto
  have "reads (LoadVar read name) (ser_int x) (word_of_int x :: u32)"
    unfolding ser_int_def by (rule reads_var) simp
  then show ?thesis using s x by (fastforce simp: reads_def LoadInt_def)
qed

lemma reads_cong: "f = g \<Longrightarrow> b = b' \<Longrightarrow> reads g b x \<Longrightarrow> reads f b' x"
  by simp

lemma reads_string:
  assumes "case s of None \<Rightarrow> True | Some s \<Rightarrow> length s + 1 < 2 ^ 64"
  shows "reads (LoadString read name) (ser_str s) s"
proof (cases s)
  case None
  have "reads (LoadVar read name) (ser_str None) (0 :: u64)"
    unfolding ser_str_def option.case by (rule reads_var) simp
  with None show ?thesis by (fastforce simp: reads_def LoadString_def)
next
  case (Some u)
  define m where "m = (of_nat (length u + 1) :: u64)"
  have n: "unat m = length u + 1" unfolding m_def by (rule unat_of_nat_64) (use assms Some in simp)
  then have nz: "m \<noteq> 0" using unat_eq_zero [of m] by linarith
  have v: "reads (LoadVar read name) (le_bytes m) m" by (rule reads_var) simp
  have b: "reads (LoadBlock read name (unat m)) (u @ [0]) (u @ [0])" by (rule reads_block) (simp add: n)
  have l: "reads (\<lambda>z. seqR (LoadBlock read name (unat m) z) (\<lambda>(z, s). Inr (z, Some (take (unat m - 1) s))))
      (u @ [0]) (Some u)"
    using reads_last [OF b, of "\<lambda>s. Some (take (unat m - 1) s)"] by (simp add: n)
  have r: "reads (\<lambda>z. if m = 0 then Inr (z, None)
      else seqR (LoadBlock read name (unat m) z) (\<lambda>(z, s). Inr (z, Some (take (unat m - 1) s)))) (u @ [0]) (Some u)"
    using l nz by simp
  have "reads (LoadString read name) (le_bytes m @ u @ [0]) (Some u)"
    unfolding LoadString_def [abs_def]
    by (rule reads_seq [OF v, where g = "\<lambda>z sz. if sz = 0 then Inr (z, None)
      else seqR (LoadBlock read name (unat sz) z) (\<lambda>(z, s). Inr (z, Some (take (unat sz - 1) s)))"]) (rule r)
  then show ?thesis by (simp add: Some ser_str_def m_def)
qed

lemma length_concat_le [simp]: "length (concat (map le_bytes (xs :: u32 list))) = 4 * length xs"
  by (induction xs) simp_all

lemma reads_vector:
  assumes "int (length xs) < 2 ^ 31"
  shows "reads (LoadVector read name) (ser_vec xs) xs"
proof -
  have l: "reads (\<lambda>z. seqR (LoadBlock read name (nat (int (length xs)) * 4) z)
      (\<lambda>(z, b). Inr (z, le_words 4 (nat (int (length xs))) b))) (concat (map le_bytes xs)) xs"
    using reads_last [OF reads_block, of "concat (map le_bytes xs)" "nat (int (length xs)) * 4" name
        "le_words 4 (nat (int (length xs))) :: u8 list \<Rightarrow> u32 list"]
    by (simp add: le_words_concat)
  show ?thesis
    unfolding LoadVector_def [abs_def] ser_vec_def
    by (rule reads_seq [OF reads_int, where g = "\<lambda>z n. seqR (LoadBlock read name (nat n * 4) z)
        (\<lambda>(z, b). Inr (z, le_words 4 (nat n) b))"]) (use assms l in auto)
qed

lemma reads_load_list:
  assumes "\<And>x. x \<in> set xs \<Longrightarrow> reads f (g x) (h x)"
  shows "reads (load_list f (length xs)) (concat (map g xs)) (map h xs)"
  using assms
proof (induction xs)
  case Nil
  then show ?case by (simp add: reads_def)
next
  case (Cons x xs)
  have "reads (load_list f (length xs)) (concat (map g xs)) (map h xs)" using Cons by simp
  note l = reads_last [OF this, of "\<lambda>xs. h x # xs"]
  have h: "reads f (g x) (h x)" using Cons.prems by simp
  from reads_seq [OF h, where g = "\<lambda>z x. seqR (load_list f (length xs) z) (\<lambda>(z, xs). Inr (z, x # xs))", OF l]
  show ?case by simp
qed

lemma reads_counted_map:
  assumes "int (length xs) < 2 ^ 31" "\<And>x. x \<in> set xs \<Longrightarrow> reads f (g x) (h x)"
  shows "reads (load_counted read name f) (ser_list g xs) (map h xs)"
  unfolding load_counted_def [abs_def] ser_list_def
  by (rule reads_seq [OF reads_int, where g = "\<lambda>z n. load_list f (nat n) z"])
    (use assms reads_load_list [OF assms(2)] in auto)

lemma reads_counted:
  assumes "int (length xs) < 2 ^ 31" "\<And>x. x \<in> set xs \<Longrightarrow> reads f (g x) x"
  shows "reads (load_counted read name f) (ser_list g xs) xs"
  using reads_counted_map [of xs f g "\<lambda>x. x", OF assms] by simp

definition const_ok :: "Constant \<Rightarrow> bool" where
  "const_ok k \<longleftrightarrow> (case k of KSTRING (Some s) \<Rightarrow> length s + 1 < 2 ^ 64 | _ \<Rightarrow> True)"

lemma sint_small8: "sint (word_of_int t :: u8) = t" if "0 \<le> t" "t < 128"
  using that by (simp add: int_word_sint)

lemma reads_constant:
  assumes "const_ok k"
  shows "reads (LoadConstant read name) (ser_const k) k"
proof (cases k)
  case KNIL
  have "reads (LoadChar read name) (ser_byte 0) 0" using reads_char [of name 0] by simp
  with KNIL show ?thesis by (fastforce simp: reads_def LoadConstant_def ser_const_def)
next
  case (KBOOLEAN b)
  define v :: int where "v = (if b then 1 else 0)"
  have a: "reads (LoadChar read name) (ser_byte 1) 1" using reads_char [of name 1] by (simp add: sint_small8)
  have b: "reads (LoadChar read name) (ser_byte v) v"
    using reads_char [of name v] by (simp add: sint_small8 v_def split: if_splits)
  have "(v \<noteq> 0) = b" "ser_const k = ser_byte 1 @ ser_byte v" using KBOOLEAN by (simp_all add: v_def ser_const_def)
  with a b KBOOLEAN show ?thesis unfolding reads_def LoadConstant_def by fastforce
next
  case (KNUMBER n)
  have a: "reads (LoadChar read name) (ser_byte 3) 3" using reads_char [of name 3] by (simp add: sint_small8)
  have b: "reads (LoadNumber read name) (le_bytes n) n" unfolding LoadNumber_def [abs_def] by (rule reads_var) simp
  show ?thesis
    using a b KNUMBER unfolding reads_def LoadConstant_def ser_const_def by fastforce
next
  case (KSTRING t)
  have a: "reads (LoadChar read name) (ser_byte 4) 4" using reads_char [of name 4] by (simp add: sint_small8)
  have b: "reads (LoadString read name) (ser_str t) t"
    using assms KSTRING by (intro reads_string) (simp add: const_ok_def split: option.splits)
  show ?thesis
    using a b KSTRING unfolding reads_def LoadConstant_def ser_const_def by fastforce
qed

end

section \<open>The function that comes back\<close>

text \<open>
  A source that is not written (the same as the enclosing function's, or stripped) is the
  enclosing function's when loaded; \<open>pd\<close> is its source in the dump, \<open>pl\<close> in the load.
\<close>

fun norm_fun :: "bool \<Rightarrow> tstring option \<Rightarrow> tstring option \<Rightarrow> Proto \<Rightarrow> Proto"
  and norm_funs :: "bool \<Rightarrow> tstring option \<Rightarrow> tstring option \<Rightarrow> Proto list \<Rightarrow> Proto list" where
  "norm_fun strip pd pl (Proto ks cs ch li lv up src ld lld nu np iv ms) =
     (let s = (if src = pd \<or> strip \<or> src = None then pl else src) in
      Proto ks cs (norm_funs strip src s ch) (if strip then [] else li) (if strip then [] else lv)
        (if strip then [] else up) s ld lld nu np iv ms)"
| "norm_funs strip pd pl [] = []"
| "norm_funs strip pd pl (c # cs) = norm_fun strip pd pl c # norm_funs strip pd pl cs"

definition int_ok :: "int \<Rightarrow> bool" where "int_ok x \<longleftrightarrow> 0 \<le> x \<and> x < 2 ^ 31"

definition len_ok :: "'a list \<Rightarrow> bool" where "len_ok xs \<longleftrightarrow> int (length xs) < 2 ^ 31"

definition str_ok :: "tstring option \<Rightarrow> bool" where
  "str_ok s \<longleftrightarrow> (case s of None \<Rightarrow> True | Some s \<Rightarrow> length s + 1 < 2 ^ 64)"

text \<open>What the C types and the verifier demand of a function; \<open>d\<close> bounds the nesting.\<close>

definition proto_ok :: "Proto \<Rightarrow> bool" where
  "proto_ok f \<longleftrightarrow>
     len_ok (p_constants f) \<and> len_ok (p_code f) \<and> len_ok (p_children f) \<and> len_ok (p_lineinfo f) \<and>
     len_ok (p_locvars f) \<and> len_ok (p_upvalues f) \<and> int_ok (p_linedefined f) \<and> int_ok (p_lastlinedefined f) \<and>
     str_ok (p_source f) \<and> list_all str_ok (p_upvalues f) \<and>
     list_all (\<lambda>k. case k of KSTRING s \<Rightarrow> str_ok s | _ \<Rightarrow> True) (p_constants f) \<and>
     list_all (\<lambda>v. str_ok (varname v) \<and> int_ok (startpc v) \<and> int_ok (endpc v)) (p_locvars f) \<and>
     list_all is_int32 (p_lineinfo f) \<and> luaG_checkcode f = Inr True"

primrec dumpable :: "nat \<Rightarrow> Proto \<Rightarrow> bool" where
  "dumpable 0 f \<longleftrightarrow> False"
| "dumpable (Suc d) f \<longleftrightarrow> proto_ok f \<and> list_all (dumpable d) (p_children f)"

section \<open>The verifier does not look at debug information\<close>

definition same_body :: "Proto \<Rightarrow> Proto \<Rightarrow> bool" where
  "same_body f g \<longleftrightarrow> p_code g = p_code f \<and> p_constants g = p_constants f \<and>
     map p_nups (p_children g) = map p_nups (p_children f) \<and> p_nups g = p_nups f \<and>
     p_numparams g = p_numparams f \<and> p_is_vararg g = p_is_vararg f \<and> p_maxstacksize g = p_maxstacksize f \<and>
     (p_upvalues g = p_upvalues f \<or> p_upvalues g = []) \<and> (p_lineinfo g = p_lineinfo f \<or> p_lineinfo g = [])"

lemma same_sizes:
  assumes "same_body f g"
  shows "psize_code g = psize_code f" "size_constants g = size_constants f" "size_children g = size_children f"
    "maxstack g = maxstack f" "p_code g = p_code f" "ins_at g = ins_at f" "konst_at g = konst_at f"
proof -
  have "length (p_children g) = length (p_children f)" using assms map_eq_imp_length_eq by (auto simp: same_body_def)
  then show "psize_code g = psize_code f" "size_constants g = size_constants f" "size_children g = size_children f"
    "maxstack g = maxstack f" "p_code g = p_code f" "ins_at g = ins_at f" "konst_at g = konst_at f"
    using assms by (auto simp: same_body_def size_defs maxstack_def ins_at_def konst_at_def fun_eq_iff)
qed

lemma same_child:
  assumes "same_body f g"
  shows "seqC (child_at g b) (\<lambda>c. F (p_nups c)) = seqC (child_at f b) (\<lambda>c. F (p_nups c))"
proof (cases "0 \<le> b \<and> b < size_children f")
  case True
  then have "nat b < length (p_children f)" "nat b < length (p_children g)"
    using same_sizes(3) [OF assms] by (auto simp: size_defs)
  moreover have "map p_nups (p_children g) ! nat b = map p_nups (p_children f) ! nat b"
    using assms by (simp add: same_body_def)
  ultimately have "p_nups (p_children g ! nat b) = p_nups (p_children f ! nat b)" by simp
  with True same_sizes(3) [OF assms] show ?thesis by (simp add: child_at_def)
qed (use same_sizes(3) [OF assms] in \<open>auto simp: child_at_def\<close>)

lemma same_closure: "same_body f g \<Longrightarrow> check_closure g i n = check_closure f i n"
  by (induction n) (simp_all add: same_sizes)

lemma same_check_op:
  assumes "same_body f g"
  shows "check_op g lastpc reg op i a b c lst = check_op f lastpc reg op i a b c lst"
proof -
  have C: "seqC (child_at g b) (\<lambda>c. let nup = uint (p_nups c) in
        chk (i + nup < psize_code f) (seqC (check_closure f i (nat nup)) (\<lambda>_.
          Inr (Some (if reg \<noteq> NO_REG then nup else 0, lst))))) =
      seqC (child_at f b) (\<lambda>c. let nup = uint (p_nups c) in
        chk (i + nup < psize_code f) (seqC (check_closure f i (nat nup)) (\<lambda>_.
          Inr (Some (if reg \<noteq> NO_REG then nup else 0, lst)))))"
    by (rule same_child [OF assms])
  have O: "checkopenop g j k = checkopenop f j k" for j and k :: "'q checked"
    by (simp add: checkopenop_def same_sizes [OF assms])
  have K: "check_call g i a b c k = check_call f i a b c k" for k :: "'q checked"
    by (simp add: check_call_def Let_def same_sizes [OF assms] O)
  have B: "p_nups g = p_nups f" "p_is_vararg g = p_is_vararg f" using assms by (simp_all add: same_body_def)
  show ?thesis
    unfolding check_op_def same_sizes [OF assms] same_closure [OF assms] C O K B ..
qed

lemma same_step:
  assumes "same_body f g"
  shows "sym_step g lastpc reg i lst = sym_step f lastpc reg i lst"
proof -
  have "checkArgMode g r m = checkArgMode f r m" for r m
    by (simp add: checkArgMode_def same_sizes [OF assms])
  then have "check_operands g i x = check_operands f i x" for x
    by (simp add: check_operands_def Let_def same_sizes [OF assms])
  moreover have "check_modes g i op a reg lst = check_modes f i op a reg lst" for op a lst
    by (simp add: check_modes_def Let_def same_sizes [OF assms])
  ultimately show ?thesis
    by (simp add: sym_step_def Let_def same_sizes [OF assms] same_check_op [OF assms])
qed

lemma same_loop: "same_body f g \<Longrightarrow> sym_loop n g lastpc reg i lst = sym_loop n f lastpc reg i lst"
proof (induction n arbitrary: i lst)
  case (Suc n)
  then have "sym_loop n g lastpc reg = sym_loop n f lastpc reg" by (simp add: fun_eq_iff)
  then show ?case by (simp add: same_step [OF Suc.prems])
qed simp

lemma same_checkcode:
  assumes "same_body f g" "luaG_checkcode f = Inr True"
  shows "luaG_checkcode g = Inr True"
proof -
  have "precheck f" using checkcode_passed(1) [OF assms(2)] .
  then have "precheck g" using assms(1) by (auto simp: precheck_def same_body_def maxstack_def)
  then have "symbexec g (psize_code f) NO_REG = symbexec f (psize_code f) NO_REG"
    using \<open>precheck f\<close> by (simp add: symbexec_def same_sizes [OF assms(1)] same_loop [OF assms(1)])
  with assms same_sizes(1) [OF assms(1)] show ?thesis by (simp add: luaG_checkcode_def)
qed

lemma norm_body: "same_body f (norm_fun strip pd pl f)"
proof -
  have nups: "p_nups (norm_fun strip pd pl c) = p_nups c" for pd pl c by (cases c) (simp add: Let_def)
  have "map p_nups (norm_funs strip pd pl cs) = map p_nups cs" for pd pl cs
    by (induction cs) (simp_all add: nups)
  then show ?thesis by (cases f) (simp add: same_body_def Let_def)
qed

lemma length_norm_funs [simp]: "length (norm_funs strip pd pl cs) = length cs"
  by (induction cs) simp_all

section \<open>The round trip\<close>

context byte_stream
begin

lemma reads_debug:
  assumes "proto_ok f"
  shows "reads (LoadDebug read name) (ser_debug strip f)
    (if strip then [] else p_lineinfo f, if strip then [] else p_locvars f, if strip then [] else p_upvalues f)"
proof -
  define li lv up where l: "li = (if strip then [] else p_lineinfo f)" "lv = (if strip then [] else p_locvars f)"
    "up = (if strip then [] else p_upvalues f)"
  have li: "reads (LoadVector read name) (ser_vec (map word_of_int li)) (map word_of_int li :: u32 list)"
    using assms by (intro reads_vector) (simp add: proto_ok_def len_ok_def l)
  have signed_back: "map sint (map word_of_int li :: u32 list) = li"
    using assms by (auto simp: l proto_ok_def list_all_iff is_int32_def sint_of_int32 intro!: map_idI)
  have str: "reads (LoadString read name) (ser_str s) s" if "str_ok s" for s
    using that by (intro reads_string) (simp add: str_ok_def)
  have lv: "reads (load_counted read name (LoadLocVar read name)) (ser_list ser_locvar lv) lv"
  proof (rule reads_counted)
    show "int (length lv) < 2 ^ 31" using assms by (simp add: proto_ok_def len_ok_def l)
    fix v assume "v \<in> set lv"
    then have v: "str_ok (varname v)" "int_ok (startpc v)" "int_ok (endpc v)"
      using assms by (auto simp: l proto_ok_def list_all_iff split: if_splits)
    have eq: "\<lparr>varname = varname v, startpc = startpc v, endpc = endpc v\<rparr> = v" by simp
    have "reads (\<lambda>z. seqR (LoadInt read name z)
        (\<lambda>(z, b). Inr (z, \<lparr>varname = varname v, startpc = startpc v, endpc = b\<rparr>))) (ser_int (endpc v))
        \<lparr>varname = varname v, startpc = startpc v, endpc = endpc v\<rparr>"
      by (rule reads_last [OF reads_int]) (use v in \<open>auto simp: int_ok_def\<close>)
    then have e: "reads (\<lambda>z. seqR (LoadInt read name z)
        (\<lambda>(z, b). Inr (z, \<lparr>varname = varname v, startpc = startpc v, endpc = b\<rparr>))) (ser_int (endpc v)) v"
      by (simp only: eq)
    have se: "reads (\<lambda>z. seqR (LoadInt read name z) (\<lambda>(z, a). seqR (LoadInt read name z)
        (\<lambda>(z, b). Inr (z, \<lparr>varname = varname v, startpc = a, endpc = b\<rparr>)))) (ser_int (startpc v) @ ser_int (endpc v)) v"
      by (rule reads_seq [OF reads_int, where g = "\<lambda>z a. seqR (LoadInt read name z)
        (\<lambda>(z, b). Inr (z, \<lparr>varname = varname v, startpc = a, endpc = b\<rparr>))"]) (use v e in \<open>auto simp: int_ok_def\<close>)
    show "reads (LoadLocVar read name) (ser_locvar v) v"
      unfolding LoadLocVar_def [abs_def] ser_locvar_def
      by (rule reads_seq [OF str [OF v(1)], where g = "\<lambda>z s. seqR (LoadInt read name z) (\<lambda>(z, a).
          seqR (LoadInt read name z) (\<lambda>(z, b). Inr (z, \<lparr>varname = s, startpc = a, endpc = b\<rparr>)))"]) (rule se)
  qed
  have up: "reads (load_counted read name (LoadString read name)) (ser_list ser_str up) up"
    using assms by (intro reads_counted str) (auto simp: l proto_ok_def len_ok_def list_all_iff split: if_splits)
  note u = reads_last [OF up, of "\<lambda>up. (li, lv, up)"]
  note lu = reads_seq [OF lv, where g = "\<lambda>z lv. seqR (load_counted read name (LoadString read name) z)
    (\<lambda>(z, up). Inr (z, li, lv, up))", OF u]
  have ser: "ser_debug strip f = ser_vec (map word_of_int li) @ ser_list ser_locvar lv @ ser_list ser_str up"
    by (simp add: ser_debug_def l)
  show ?thesis
    unfolding LoadDebug_def [abs_def] ser l [symmetric]
    by (rule reads_seq [OF li, where g = "\<lambda>z li. seqR (load_counted read name (LoadLocVar read name) z)
        (\<lambda>(z, lv). seqR (load_counted read name (LoadString read name) z) (\<lambda>(z, up). Inr (z, map sint li, lv, up)))"])
      (use lu signed_back in simp)
qed

lemma readsD: "reads f a x \<Longrightarrow> content z (a @ r) \<Longrightarrow> \<exists>z'. f z = Inr (z', x) \<and> content z' r"
  by (simp add: reads_def)

lemma reads_function:
  assumes "dumpable d f" "str_ok pl"
  shows "reads (LoadFunction d read name pl) (ser_fun strip pd f) (norm_fun strip pd pl f)"
  using assms
proof (induction d arbitrary: f pd pl)
  case (Suc d)
  obtain ks cs ch li lv up src ld lld nu np iv ms where f: "f = Proto ks cs ch li lv up src ld lld nu np iv ms"
    by (cases f)
  have ok: "proto_ok f" and ch: "list_all (dumpable d) ch" using Suc.prems(1) f by auto
  let ?s = "if src = pd \<or> strip then None else src"
  let ?src = "if ?s = None then pl else ?s"
  have src: "?src = (if src = pd \<or> strip \<or> src = None then pl else src)" by (cases src) auto
  have str: "str_ok ?s" "str_ok ?src" using ok Suc.prems(2) f by (auto simp: proto_ok_def str_ok_def)
  have C: "reads (LoadFunction d read name ?src) (ser_fun strip src c) (norm_fun strip src ?src c)" if "c \<in> set ch" for c
    using Suc.IH [OF _ str(2)] ch that by (auto simp: list_all_iff)
  have funs: "ser_funs strip src cs = concat (map (ser_fun strip src) cs)"
    "norm_funs strip src ?src cs = map (norm_fun strip src ?src) cs" for cs
    by (induction cs) simp_all
  have ks: "reads (load_counted read name (LoadConstant read name)) (ser_list ser_const ks) ks"
    using ok f by (intro reads_counted reads_constant)
      (auto simp: proto_ok_def len_ok_def list_all_iff const_ok_def str_ok_def split: Constant.splits option.splits)
  have chs: "reads (load_counted read name (LoadFunction d read name ?src)) (ser_int (int (length ch)) @ ser_funs strip src ch)
      (norm_funs strip src ?src ch)"
    using reads_counted_map [of ch, OF _ C] ok f by (simp add: funs ser_list_def proto_ok_def len_ok_def)
  have cs: "reads (LoadCode read name) (ser_vec cs) cs"
    using reads_vector ok f by (simp add: LoadCode_def [abs_def] proto_ok_def len_ok_def)
  have ints: "reads (LoadInt read name) (ser_int ld) ld" "reads (LoadInt read name) (ser_int lld) lld"
    using ok f by (auto simp: proto_ok_def int_ok_def intro!: reads_int)
  have g: "luaG_checkcode (norm_fun strip pd pl f) = Inr True"
    using same_checkcode [OF norm_body] ok by (simp add: proto_ok_def)
  show ?case
    unfolding reads_def
  proof (intro allI impI)
    fix z ys
    assume "content z (ser_fun strip pd f @ ys)"
    then obtain z1 where z1: "LoadString read name z = Inr (z1, ?s)"
      and c: "content z1 (ser_int ld @ ser_int lld @ ser_byte (uint nu) @ ser_byte (uint np) @ ser_byte (uint iv) @
        ser_byte (uint ms) @ ser_vec cs @ ser_list ser_const ks @ (ser_int (int (length ch)) @ ser_funs strip src ch) @
        ser_debug strip f @ ys)"
      using readsD [OF reads_string, of ?s] str(1) f by (fastforce simp: str_ok_def)
    obtain z2 where z2: "LoadInt read name z1 = Inr (z2, ld)" and c2: "content z2 (ser_int lld @ ser_byte (uint nu) @
        ser_byte (uint np) @ ser_byte (uint iv) @ ser_byte (uint ms) @ ser_vec cs @ ser_list ser_const ks @
        (ser_int (int (length ch)) @ ser_funs strip src ch) @ ser_debug strip f @ ys)"
      using readsD [OF ints(1) c] by blast
    obtain z3 where z3: "LoadInt read name z2 = Inr (z3, lld)" and c3: "content z3 (ser_byte (uint nu) @
        ser_byte (uint np) @ ser_byte (uint iv) @ ser_byte (uint ms) @ ser_vec cs @ ser_list ser_const ks @
        (ser_int (int (length ch)) @ ser_funs strip src ch) @ ser_debug strip f @ ys)"
      using readsD [OF ints(2) c2] by blast
    let ?rest = "ser_vec cs @ ser_list ser_const ks @ (ser_int (int (length ch)) @ ser_funs strip src ch) @
        ser_debug strip f @ ys"
    obtain z4 where z4: "LoadByte read name z3 = Inr (z4, nu)"
      and c4: "content z4 (ser_byte (uint np) @ ser_byte (uint iv) @ ser_byte (uint ms) @ ?rest)"
      using readsD [OF reads_byte c3] by blast
    obtain z5 where z5: "LoadByte read name z4 = Inr (z5, np)"
      and c5: "content z5 (ser_byte (uint iv) @ ser_byte (uint ms) @ ?rest)"
      using readsD [OF reads_byte c4] by blast
    obtain z6 where z6: "LoadByte read name z5 = Inr (z6, iv)" and c6: "content z6 (ser_byte (uint ms) @ ?rest)"
      using readsD [OF reads_byte c5] by blast
    obtain z7 where z7: "LoadByte read name z6 = Inr (z7, ms)" and c7: "content z7 ?rest"
      using readsD [OF reads_byte c6] by blast
    obtain z8 where z8: "LoadCode read name z7 = Inr (z8, cs)" and c8: "content z8 (ser_list ser_const ks @
        (ser_int (int (length ch)) @ ser_funs strip src ch) @ ser_debug strip f @ ys)"
      using readsD [OF cs c7] by blast
    obtain z9 where z9: "load_counted read name (LoadConstant read name) z8 = Inr (z9, ks)"
      and c9: "content z9 ((ser_int (int (length ch)) @ ser_funs strip src ch) @ ser_debug strip f @ ys)"
      using readsD [OF ks c8] by blast
    obtain z10 where z10: "load_counted read name (LoadFunction d read name ?src) z9 = Inr (z10, norm_funs strip src ?src ch)"
      and c10: "content z10 (ser_debug strip f @ ys)"
      using readsD [OF chs c9] by blast
    obtain z11 where z11: "LoadDebug read name z10 = Inr (z11, if strip then [] else p_lineinfo f,
        if strip then [] else p_locvars f, if strip then [] else p_upvalues f)" and c11: "content z11 ys"
      using readsD [OF reads_debug [OF ok] c10] by blast
    let ?G = "Proto ks cs (norm_funs strip src ?src ch) (if strip then [] else p_lineinfo f)
        (if strip then [] else p_locvars f) (if strip then [] else p_upvalues f) ?src ld lld nu np iv ms"
    have G: "norm_fun strip pd pl f = ?G" using f src by (simp add: Let_def)
    have ck: "luaG_checkcode ?G = Inr True" using g unfolding G .
    have "LoadFunction (Suc d) read name pl z = Inr (z11, ?G)"
      by (simp only: LoadFunction.simps z1 z2 z3 z4 z5 z6 z7 z8 z9 z10 z11 LoadConstants_def seqR.simps
          case_prod_conv Let_def ck not_True_eq_False if_False)
    then have "LoadFunction (Suc d) read name pl z = Inr (z11, norm_fun strip pd pl f)" unfolding G .
    with c11 show "\<exists>z'. LoadFunction (Suc d) read name pl z = Inr (z', norm_fun strip pd pl f) \<and> content z' ys" by blast
  qed
qed simp

lemma undump_ser:
  assumes "dumpable d f" "content z (luaU_header @ ser_fun strip None f @ ys)"
  shows "\<exists>z'. undump read d name z = Inr (z', norm_fun strip None (Some [0x3D, 0x3F]) f) \<and> content z' ys"
proof -
  have h: "reads (LoadBlock read (chunk_name name) LUAC_HEADERSIZE) luaU_header luaU_header"
    by (rule reads_block) (simp add: luaU_header_def LUAC_HEADERSIZE_def)
  obtain z1 where z1: "LoadBlock read (chunk_name name) LUAC_HEADERSIZE z = Inr (z1, luaU_header)"
    "content z1 (ser_fun strip None f @ ys)" using readsD [OF h assms(2)] by blast
  have "str_ok (Some [0x3D, 0x3F])" by (simp add: str_ok_def)
  from readsD [OF reads_function [OF assms(1) this] z1(2)] z1(1)
  show ?thesis by (auto simp: undump_def Let_def LoadHeader_def)
qed

end

text \<open>A function that knows its source everywhere comes back unchanged.\<close>

fun sourced :: "Proto \<Rightarrow> bool" and all_sourced :: "Proto list \<Rightarrow> bool" where
  "sourced (Proto ks cs ch li lv up src ld lld nu np iv ms) \<longleftrightarrow> src \<noteq> None \<and> all_sourced ch"
| "all_sourced [] \<longleftrightarrow> True"
| "all_sourced (c # cs) \<longleftrightarrow> sourced c \<and> all_sourced cs"

lemma norm_sourced:
  "sourced f \<Longrightarrow> pd = None \<or> pd = pl \<Longrightarrow> norm_fun False pd pl f = f"
  "all_sourced fs \<Longrightarrow> pd = None \<or> pd = pl \<Longrightarrow> norm_funs False pd pl fs = fs"
proof (induction f and fs arbitrary: pd pl and pd pl rule: sourced_all_sourced.induct)
  case (1 ks cs ch li lv up src ld lld nu np iv ms)
  then have "(if src = pd \<or> False \<or> src = None then pl else src) = src" by auto
  moreover have "norm_funs False src src ch = ch" using 1 by simp
  ultimately show ?case by (simp only: norm_fun.simps Let_def) simp
qed simp_all

text \<open>C16: a function that is dumped and loaded again comes back: the dump of any function that the
  verifier accepts and whose nesting fits the C stack, read from a stream in whatever blocks, is
  loaded to the same function (sources that were not written are filled in from the enclosing
  function; with \<open>strip\<close> the debug information is gone), and the rest of the stream is untouched.\<close>

theorem undump_dump:
  assumes "dumpable (LUAI_MAXCCALLS - nCcalls) f"
    and "holds reader Z (snd (luaU_dump append_writer f [] strip) @ ys)"
  shows "fst (luaU_dump append_writer f [] strip) = 0 \<and>
    (\<exists>Z'. luaU_undump reader nCcalls Z name = Inr (Z', norm_fun strip None (Some [0x3D, 0x3F]) f) \<and>
       holds reader Z' ys) \<and>
    (\<not> strip \<and> sourced f \<longrightarrow> norm_fun strip None (Some [0x3D, 0x3F]) f = f)"
proof -
  have d: "fst (luaU_dump append_writer f [] strip) = 0"
    "snd (luaU_dump append_writer f [] strip) = luaU_header @ ser_fun strip None f"
    using appender.luaU_dump_emits [of f "[]" strip] by simp_all
  have "holds reader Z (luaU_header @ ser_fun strip None f @ ys)" using assms(2) d(2) by simp
  from zio.undump_ser [OF assms(1) this, of name] d(1) norm_sourced(1) [of f None] show ?thesis
    by (auto simp: luaU_undump_def)
qed

definition main_chunk :: Proto where
  "main_chunk = Proto [KNUMBER 5, KSTRING (Some [104, 105]), KNIL, KBOOLEAN True] [CREATE_ABC (op_num OP_RETURN) 0 1 0]
     [] [7] [\<lparr>varname = Some [97], startpc = 0, endpc = 1\<rparr>] [] (Some [64, 102]) 0 0 0 0 2 2"

lemma dumpable_leaf: "proto_ok f \<Longrightarrow> p_children f = [] \<Longrightarrow> 0 < d \<Longrightarrow> dumpable d f"
  by (cases d) simp_all

lemma main_chunk_dumpable: "dumpable 200 main_chunk"
proof -
  have "luaG_checkcode main_chunk = Inr True" by code_simp
  then have "proto_ok main_chunk"
    by (simp add: proto_ok_def main_chunk_def len_ok_def int_ok_def str_ok_def is_int32_def)
  then show ?thesis by (rule dumpable_leaf) (simp_all add: main_chunk_def)
qed

theorem undump_dump_witness:
  "\<exists>Z Z'. holds block_reader Z (snd (luaU_dump append_writer main_chunk [] False)) \<and>
     luaU_undump block_reader 0 Z ''=x'' = Inr (Z', main_chunk)"
proof -
  let ?bs = "snd (luaU_dump append_writer main_chunk [] False)"
  have "?bs = luaU_header @ ser_fun False None main_chunk"
    using appender.luaU_dump_emits [of main_chunk "[]" False] by simp
  moreover have "length (luaU_header @ ser_fun False None main_chunk) < 2 ^ 64 \<and>
      luaU_header @ ser_fun False None main_chunk \<noteq> []"
    by (simp add: luaU_header_def main_chunk_def ser_debug_def ser_str_def ser_int_def ser_byte_def ser_vec_def
        ser_list_def ser_const_def ser_locvar_def)
  ultimately have y: "yields block_reader [?bs] (?bs @ [])" using block_reader_yields [of "[?bs]"] by simp
  have "sourced main_chunk" by (simp add: main_chunk_def)
  moreover have "dumpable (LUAI_MAXCCALLS - 0) main_chunk"
    using main_chunk_dumpable by (simp add: LUAI_MAXCCALLS_def)
  ultimately show ?thesis
    using undump_dump [OF _ holds_init [OF y], of 0 "''=x''"] holds_init [OF y] by auto
qed

end
