(* ===== verification/Chars.thy ===== *)
theory Chars
  imports Debug
begin

text \<open>
  What the string library and the lexer share: characters of the C locale (\<open>ctype.h\<close>),
  reads of a C string, the arguments and results of library functions, and the errors of
  \<open>lauxlib.c\<close>.
\<close>

section \<open>Character classes of the C locale\<close>

definition uchar :: "char \<Rightarrow> int" where "uchar c = of_char c"

definition isdigit :: "int \<Rightarrow> bool" where "isdigit c \<longleftrightarrow> 48 \<le> c \<and> c \<le> 57"
definition isupper :: "int \<Rightarrow> bool" where "isupper c \<longleftrightarrow> 65 \<le> c \<and> c \<le> 90"
definition islower :: "int \<Rightarrow> bool" where "islower c \<longleftrightarrow> 97 \<le> c \<and> c \<le> 122"
definition isalpha :: "int \<Rightarrow> bool" where "isalpha c \<longleftrightarrow> isupper c \<or> islower c"
definition isalnum :: "int \<Rightarrow> bool" where "isalnum c \<longleftrightarrow> isalpha c \<or> isdigit c"
definition isblank :: "int \<Rightarrow> bool" where "isblank c \<longleftrightarrow> c = 32 \<or> 9 \<le> c \<and> c \<le> 13"
definition iscntrl :: "int \<Rightarrow> bool" where "iscntrl c \<longleftrightarrow> 0 \<le> c \<and> c \<le> 31 \<or> c = 127"
definition ispunct :: "int \<Rightarrow> bool" where "ispunct c \<longleftrightarrow> 33 \<le> c \<and> c \<le> 126 \<and> \<not> isalnum c"
definition isxdigit :: "int \<Rightarrow> bool" where
  "isxdigit c \<longleftrightarrow> isdigit c \<or> 65 \<le> c \<and> c \<le> 70 \<or> 97 \<le> c \<and> c \<le> 102"
definition tolower :: "int \<Rightarrow> int" where "tolower c = (if isupper c then c + 32 else c)"
definition toupper :: "int \<Rightarrow> int" where "toupper c = (if islower c then c - 32 else c)"

lemma uchar_range: "0 \<le> uchar c" "uchar c \<le> 255"
proof -
  have "uchar c = uchar c mod 256" by (simp add: uchar_def)
  then show "0 \<le> uchar c" "uchar c \<le> 255"
    using pos_mod_sign [of 256 "uchar c"] pos_mod_bound [of 256 "uchar c"] by linarith+
qed

lemma uchar_inject [simp]: "uchar c = uchar d \<longleftrightarrow> c = d"
  by (simp add: uchar_def)

definition char_of_int :: "int \<Rightarrow> char" where "char_of_int i = char_of i"

lemma char_of_uchar [simp]: "char_of_int (uchar c) = c"
  by (simp add: char_of_int_def uchar_def)

lemma uchar_char_of: "0 \<le> i \<Longrightarrow> i \<le> 255 \<Longrightarrow> uchar (char_of_int i) = i"
  by (simp add: char_of_int_def uchar_def of_char_of)

section \<open>Reads of a C string\<close>

text \<open>
  A Lua string is its characters; the character behind the last is the terminator, and what
  lies further is not the string's.
\<close>

definition rd :: "string \<Rightarrow> nat \<Rightarrow> char result" where
  "rd s i = (if i < length s then Inr (s ! i)
             else if i = length s then Inr CHR 0x00 else Inl Undefined)"

definition slice :: "string \<Rightarrow> nat \<Rightarrow> nat \<Rightarrow> string result" where
  "slice s a n = (if a + n \<le> length s then Inr (take n (drop a s)) else Inl Undefined)"

lemma rd_nonzero: "rd s i = Inr c \<Longrightarrow> c \<noteq> CHR 0x00 \<Longrightarrow> i < length s"
  by (auto simp: rd_def split: if_splits)

lemma rd_in: "i \<le> length s \<Longrightarrow> \<exists>c. rd s i = Inr c"
  by (auto simp: rd_def)

lemma rd_Inl: "rd s i = Inl e \<Longrightarrow> length s < i"
  by (auto simp: rd_def split: if_splits)

section \<open>Values of library functions\<close>

text \<open>
  A value as the library's C functions see it through the API; \<open>VOther\<close> is a value of one of
  the remaining types, by its tag.
\<close>

datatype lval = VNil | VBoolean bool | VNumber lua_Number | VString string | VOther nat

fun lua_type :: "lval \<Rightarrow> nat" where
  "lua_type VNil = 0"
| "lua_type (VBoolean b) = 1"
| "lua_type (VNumber n) = 3"
| "lua_type (VString s) = 4"
| "lua_type (VOther t) = t"

fun lua_toboolean :: "lval \<Rightarrow> bool" where
  "lua_toboolean VNil = False"
| "lua_toboolean (VBoolean b) = b"
| "lua_toboolean v = True"

fun lua_isstring :: "lval \<Rightarrow> bool" where
  "lua_isstring (VString s) = True"
| "lua_isstring (VNumber n) = True"
| "lua_isstring v = False"

section \<open>Errors\<close>

text \<open>
  An error is its message, without the position \<open>luaL_where\<close> puts before it. What the debug
  interface says of the running function is the argument \<open>ar\<close>: \<open>None\<close> without a stack frame,
  else the kind of its name and the name. Decimal forms are those of non-negative numbers.
\<close>

fun decimal :: "nat \<Rightarrow> string" where
  "decimal n = (if n < 10 then [char_of (48 + n)] else decimal (n div 10) @ [char_of (48 + n mod 10)])"

declare decimal.simps [simp del]

definition quoted :: "string \<Rightarrow> string" where "quoted s = CHR 0x27 # s @ [CHR 0x27]"

definition luaL_argerror :: "(string \<times> string option) option \<Rightarrow> nat \<Rightarrow> string \<Rightarrow> 'a result" where
  "luaL_argerror ar narg extramsg =
     Inl (RunError (case ar of
       None \<Rightarrow> ''bad argument #'' @ decimal narg @ '' ('' @ extramsg @ '')''
     | Some (namewhat, name) \<Rightarrow>
         if namewhat = ''method'' \<and> narg - 1 = 0 then
           ''calling '' @ quoted (case name of None \<Rightarrow> ''(null)'' | Some n \<Rightarrow> n) @
           '' on bad self ('' @ extramsg @ '')''
         else
           ''bad argument #'' @ decimal (if namewhat = ''method'' then narg - 1 else narg) @
           '' to '' @ quoted (case name of None \<Rightarrow> ''?'' | Some n \<Rightarrow> n) @ '' ('' @ extramsg @ '')''))"

definition luaL_typerror :: "(string \<times> string option) option \<Rightarrow> nat \<Rightarrow> string \<Rightarrow> lval option \<Rightarrow> 'a result" where
  "luaL_typerror ar narg tname v =
     luaL_argerror ar narg (tname @ '' expected, got '' @
       (case v of None \<Rightarrow> ''no value'' | Some v \<Rightarrow> luaT_typenames ! lua_type v))"

end
