(* ===== verification/StrMatch.thy ===== *)
theory StrMatch
  imports Chars
begin

text \<open>
  The pattern matcher of \<open>lstrlib.c\<close>. Pointers into the source string and into the pattern
  are offsets; a read outside a string is \<open>Undefined\<close>, a match that fails is \<open>None\<close>. The
  functions that call \<open>match\<close> back take it as an argument, at the place of the pattern where
  they call it, so that \<open>match\<close> itself ends because every call is further in the pattern.
\<close>

definition CAP_UNFINISHED :: int where "CAP_UNFINISHED = -1"
definition CAP_POSITION :: int where "CAP_POSITION = -2"
definition LUA_MAXCAPTURES :: nat where "LUA_MAXCAPTURES = 32"
definition L_ESC :: char where "L_ESC = CHR ''%''"
definition SPECIALS :: string where "SPECIALS = ''^$*+?.([%-''"

record MatchState =
  ms_src :: string                       \<comment> \<open>from \<open>src_init\<close> to \<open>src_end\<close>\<close>
  ms_level :: nat
  ms_capture :: "(nat \<times> int) list"       \<comment> \<open>\<open>init\<close> and \<open>len\<close> of each\<close>

type_synonym matcher = "MatchState \<Rightarrow> nat \<Rightarrow> (MatchState \<times> nat option) result"

definition init_ms :: "string \<Rightarrow> MatchState" where
  "init_ms src = \<lparr>ms_src = src, ms_level = 0, ms_capture = replicate LUA_MAXCAPTURES (0, 0)\<rparr>"

section \<open>Captures\<close>

definition check_capture :: "MatchState \<Rightarrow> int \<Rightarrow> nat result" where
  "check_capture ms l =
     (let l = l - uchar CHR ''1'' in
      if l < 0 \<or> l \<ge> int (ms_level ms) \<or> snd (ms_capture ms ! nat l) = CAP_UNFINISHED
      then Inl (RunError ''invalid capture index'')
      else Inr (nat l))"

primrec close_from :: "(nat \<times> int) list \<Rightarrow> nat \<Rightarrow> nat result" where
  "close_from capture 0 = Inl (RunError ''invalid pattern capture'')"
| "close_from capture (Suc level) =
     (if snd (capture ! level) = CAP_UNFINISHED then Inr level else close_from capture level)"

definition capture_to_close :: "MatchState \<Rightarrow> nat result" where
  "capture_to_close ms = close_from (ms_capture ms) (ms_level ms)"

section \<open>Single characters and classes\<close>

definition missing_bracket :: string where
  "missing_bracket = ''malformed pattern (missing '' @ quoted '']'' @ '')''"

function bracket_end :: "string \<Rightarrow> nat \<Rightarrow> nat result" where
  "bracket_end pat p =
     seqR (rd pat p) (\<lambda>c.
       if c = CHR 0x00 then Inl (RunError missing_bracket)
       else seqR (rd pat (p + 1)) (\<lambda>d.
         let p' = (if c = L_ESC \<and> d \<noteq> CHR 0x00 then p + 2 else p + 1) in
         seqR (rd pat p') (\<lambda>e. if e = CHR '']'' then Inr (p' + 1) else bracket_end pat p')))"
  by pat_completeness auto
termination
  by (relation "measure (\<lambda>(pat, p). length pat - p)") (auto dest: rd_nonzero split: if_splits)

declare bracket_end.simps [simp del]

definition classend :: "string \<Rightarrow> nat \<Rightarrow> nat result" where
  "classend pat p =
     seqR (rd pat p) (\<lambda>c.
       let p = p + 1 in
       if c = L_ESC then
         seqR (rd pat p) (\<lambda>d.
           if d = CHR 0x00 then Inl (RunError (''malformed pattern (ends with '' @ quoted ''%'' @ '')''))
           else Inr (p + 1))
       else if c = CHR ''['' then
         seqR (rd pat p) (\<lambda>d. bracket_end pat (if d = CHR ''^'' then p + 1 else p))
       else Inr p)"

definition match_class :: "int \<Rightarrow> int \<Rightarrow> bool" where
  "match_class c cl =
     (let k = char_of_int (tolower cl);
          is = (\<lambda>res. if islower cl then res else \<not> res)
      in if k = CHR ''a'' then is (isalpha c)
         else if k = CHR ''c'' then is (iscntrl c)
         else if k = CHR ''d'' then is (isdigit c)
         else if k = CHR ''l'' then is (islower c)
         else if k = CHR ''p'' then is (ispunct c)
         else if k = CHR ''s'' then is (isblank c)
         else if k = CHR ''u'' then is (isupper c)
         else if k = CHR ''w'' then is (isalnum c)
         else if k = CHR ''x'' then is (isxdigit c)
         else if k = CHR ''z'' then is (c = 0)
         else cl = c)"

text \<open>The loop \<open>while (++p < ec)\<close> of \<open>matchbracketclass\<close>.\<close>

function bracket_loop :: "int \<Rightarrow> bool \<Rightarrow> string \<Rightarrow> nat \<Rightarrow> nat \<Rightarrow> bool result" where
  "bracket_loop c sig pat p ec =
     (let p = p + 1 in
      if p < ec then
        seqR (rd pat p) (\<lambda>x.
          if x = L_ESC then
            seqR (rd pat (p + 1)) (\<lambda>y.
              if match_class c (uchar y) then Inr sig else bracket_loop c sig pat (p + 1) ec)
          else
            seqR (rd pat (p + 1)) (\<lambda>y.
              if y = CHR ''-'' \<and> p + 2 < ec then
                seqR (rd pat (p + 2)) (\<lambda>z.
                  if uchar x \<le> c \<and> c \<le> uchar z then Inr sig
                  else bracket_loop c sig pat (p + 2) ec)
              else if uchar x = c then Inr sig
              else bracket_loop c sig pat p ec))
      else Inr (\<not> sig))"
  by pat_completeness auto
termination by (relation "measure (\<lambda>(c, sig, pat, p, ec). ec - p)") auto

declare bracket_loop.simps [simp del]

definition matchbracketclass :: "int \<Rightarrow> string \<Rightarrow> nat \<Rightarrow> nat \<Rightarrow> bool result" where
  "matchbracketclass c pat p ec =
     seqR (rd pat (p + 1)) (\<lambda>d.
       if d = CHR ''^'' then bracket_loop c False pat (p + 1) ec
       else bracket_loop c True pat p ec)"

definition singlematch :: "int \<Rightarrow> string \<Rightarrow> nat \<Rightarrow> nat \<Rightarrow> bool result" where
  "singlematch c pat p ep =
     seqR (rd pat p) (\<lambda>x.
       if x = CHR ''.'' then Inr True
       else if x = L_ESC then seqR (rd pat (p + 1)) (\<lambda>y. Inr (match_class c (uchar y)))
       else if x = CHR ''['' then matchbracketclass c pat p (ep - 1)
       else Inr (uchar x = c))"

text \<open>The test \<open>s < src_end && singlematch(uchar( *s), p, ep)\<close>.\<close>

definition singlematch_at :: "string \<Rightarrow> nat \<Rightarrow> string \<Rightarrow> nat \<Rightarrow> nat \<Rightarrow> bool result" where
  "singlematch_at src s pat p ep =
     (if s < length src then singlematch (uchar (src ! s)) pat p ep else Inr False)"

section \<open>Balanced strings\<close>

function balance_loop :: "string \<Rightarrow> char \<Rightarrow> char \<Rightarrow> nat \<Rightarrow> int \<Rightarrow> nat option" where
  "balance_loop src b e s cont =
     (let s = s + 1 in
      if s < length src then
        (if src ! s = e then
           (if cont - 1 = 0 then Some (s + 1) else balance_loop src b e s (cont - 1))
         else if src ! s = b then balance_loop src b e s (cont + 1)
         else balance_loop src b e s cont)
      else None)"
  by pat_completeness auto
termination by (relation "measure (\<lambda>(src, b, e, s, cont). length src - s)") auto

declare balance_loop.simps [simp del]

definition matchbalance :: "MatchState \<Rightarrow> nat \<Rightarrow> string \<Rightarrow> nat \<Rightarrow> nat option result" where
  "matchbalance ms s pat p =
     seqR (rd pat p) (\<lambda>b.
       if b = CHR 0x00 then Inl (RunError ''unbalanced pattern'')
       else seqR (rd pat (p + 1)) (\<lambda>e.
         if e = CHR 0x00 then Inl (RunError ''unbalanced pattern'')
         else seqR (rd (ms_src ms) s) (\<lambda>x.
           if x \<noteq> b then Inr None else Inr (balance_loop (ms_src ms) b e s 1))))"

section \<open>Lemmas for termination\<close>

lemma bracket_end_gt: "bracket_end pat p = Inr ep \<Longrightarrow> p + 1 < ep \<and> ep \<le> length pat"
proof (induction pat p rule: bracket_end.induct)
  case (1 pat p)
  from "1.prems" obtain c d e where c: "rd pat p = Inr c" "c \<noteq> CHR 0x00" "rd pat (p + 1) = Inr d"
    and e: "rd pat (if c = L_ESC \<and> d \<noteq> CHR 0x00 then p + 2 else p + 1) = Inr e"
    and r: "(if e = CHR '']'' then Inr ((if c = L_ESC \<and> d \<noteq> CHR 0x00 then p + 2 else p + 1) + 1)
             else bracket_end pat (if c = L_ESC \<and> d \<noteq> CHR 0x00 then p + 2 else p + 1)) = Inr ep"
    by (subst (asm) bracket_end.simps) (auto simp: Let_def split: if_splits)
  show ?case
  proof (cases "e = CHR '']''")
    case True
    then show ?thesis using r rd_nonzero [OF e] by (auto split: if_splits)
  next
    case False
    then show ?thesis using "1.IH" [OF c(1) c(2) c(3) refl e False] r by (auto split: if_splits)
  qed
qed

lemma classend_lt: "classend pat p = Inr ep \<Longrightarrow> p < ep"
  by (auto simp: classend_def Let_def dest!: bracket_end_gt split: if_splits)

lemma classend_gt: "classend pat p = Inr ep \<Longrightarrow> p < length pat \<Longrightarrow> p < ep \<and> ep \<le> length pat"
  by (auto simp: classend_def Let_def dest!: bracket_end_gt rd_nonzero split: if_splits)

section \<open>Repetitions\<close>

function expand_count :: "string \<Rightarrow> nat \<Rightarrow> string \<Rightarrow> nat \<Rightarrow> nat \<Rightarrow> nat \<Rightarrow> nat result" where
  "expand_count src s pat p ep i =
     (if s + i < length src then
        seqR (singlematch_at src (s + i) pat p ep) (\<lambda>m.
          if m then expand_count src s pat p ep (i + 1) else Inr i)
      else Inr i)"
  by pat_completeness auto
termination by (relation "measure (\<lambda>(src, s, pat, p, ep, i). length src - (s + i))") auto

declare expand_count.simps [simp del]

primrec expand_try :: "matcher \<Rightarrow> MatchState \<Rightarrow> nat \<Rightarrow> nat \<Rightarrow> (MatchState \<times> nat option) result" where
  "expand_try m ms s 0 = m ms s"
| "expand_try m ms s (Suc i) =
     seqR (m ms (s + Suc i)) (\<lambda>(ms, res).
       case res of Some e \<Rightarrow> Inr (ms, Some e) | None \<Rightarrow> expand_try m ms s i)"

text \<open>The argument \<open>m\<close> is \<open>match\<close> at \<open>ep + 1\<close>.\<close>

definition max_expand :: "matcher \<Rightarrow> MatchState \<Rightarrow> nat \<Rightarrow> string \<Rightarrow> nat \<Rightarrow> nat \<Rightarrow>
    (MatchState \<times> nat option) result" where
  "max_expand m ms s pat p ep =
     seqR (expand_count (ms_src ms) s pat p ep 0) (\<lambda>i. expand_try m ms s i)"

function min_loop :: "matcher \<Rightarrow> string \<Rightarrow> MatchState \<Rightarrow> nat \<Rightarrow> string \<Rightarrow> nat \<Rightarrow> nat \<Rightarrow>
    (MatchState \<times> nat option) result" where
  "min_loop m src ms s pat p ep =
     seqR (m ms s) (\<lambda>(ms, res).
       case res of Some e \<Rightarrow> Inr (ms, Some e)
       | None \<Rightarrow>
           if s < length src then
             seqR (singlematch_at src s pat p ep) (\<lambda>b.
               if b then min_loop m src ms (s + 1) pat p ep else Inr (ms, None))
           else Inr (ms, None))"
  by pat_completeness auto
termination by (relation "measure (\<lambda>(m, src, ms, s, pat, p, ep). length src - s)") auto

declare min_loop.simps [simp del]

definition min_expand :: "matcher \<Rightarrow> MatchState \<Rightarrow> nat \<Rightarrow> string \<Rightarrow> nat \<Rightarrow> nat \<Rightarrow>
    (MatchState \<times> nat option) result" where
  "min_expand m ms s pat p ep = min_loop m (ms_src ms) ms s pat p ep"

section \<open>Captures in a match\<close>

definition start_capture :: "matcher \<Rightarrow> MatchState \<Rightarrow> nat \<Rightarrow> int \<Rightarrow> (MatchState \<times> nat option) result" where
  "start_capture m ms s what =
     (let level = ms_level ms in
      if level \<ge> LUA_MAXCAPTURES then Inl (RunError ''too many captures'')
      else
        let ms = ms\<lparr>ms_capture := (ms_capture ms)[level := (s, what)], ms_level := level + 1\<rparr> in
        seqR (m ms s) (\<lambda>(ms, res).
          case res of None \<Rightarrow> Inr (ms\<lparr>ms_level := ms_level ms - 1\<rparr>, None)
          | Some e \<Rightarrow> Inr (ms, Some e)))"

definition set_caplen :: "MatchState \<Rightarrow> nat \<Rightarrow> int \<Rightarrow> MatchState" where
  "set_caplen ms l n = ms\<lparr>ms_capture := (ms_capture ms)[l := (fst (ms_capture ms ! l), n)]\<rparr>"

definition end_capture :: "matcher \<Rightarrow> MatchState \<Rightarrow> nat \<Rightarrow> (MatchState \<times> nat option) result" where
  "end_capture m ms s =
     seqR (capture_to_close ms) (\<lambda>l.
       let ms = set_caplen ms l (int s - int (fst (ms_capture ms ! l))) in
       seqR (m ms s) (\<lambda>(ms, res).
         case res of None \<Rightarrow> Inr (set_caplen ms l CAP_UNFINISHED, None)
         | Some e \<Rightarrow> Inr (ms, Some e)))"

text \<open>A negative length is huge as a \<open>size_t\<close>; \<open>memcmp\<close> reads \<open>len\<close> bytes at the capture.\<close>

definition match_capture :: "MatchState \<Rightarrow> nat \<Rightarrow> int \<Rightarrow> nat option result" where
  "match_capture ms s l =
     seqR (check_capture ms l) (\<lambda>l.
       let (cinit, len) = ms_capture ms ! l in
       if len < 0 \<or> length (ms_src ms) - s < nat len then Inr None
       else
         seqR (slice (ms_src ms) cinit (nat len)) (\<lambda>a.
         seqR (slice (ms_src ms) s (nat len)) (\<lambda>b.
           Inr (if a = b then Some (s + nat len) else None))))"

section \<open>The matcher\<close>

lemma match_measure:
  assumes "rd pat p = Inr c" "c \<noteq> CHR 0x00" "p < q"
  shows "((ms', s', pat, q), (ms, s, pat, p)) \<in> measure (\<lambda>(ms :: MatchState, s :: nat, pat, p). length pat - p)"
  using rd_nonzero [OF assms(1,2)] assms(3) by simp

function match :: "MatchState \<Rightarrow> nat \<Rightarrow> string \<Rightarrow> nat \<Rightarrow> (MatchState \<times> nat option) result" where
  "match ms s pat p =
     seqR (rd pat p) (\<lambda>c.
       if c = CHR 0x00 then Inr (ms, Some s)
       else seqR (rd pat (p + 1)) (\<lambda>d.
         if c = CHR ''('' then
           (if d = CHR '')'' then start_capture (\<lambda>ms s. match ms s pat (p + 2)) ms s CAP_POSITION
            else start_capture (\<lambda>ms s. match ms s pat (p + 1)) ms s CAP_UNFINISHED)
         else if c = CHR '')'' then end_capture (\<lambda>ms s. match ms s pat (p + 1)) ms s
         else if c = L_ESC \<and> d = CHR ''b'' then
           seqR (matchbalance ms s pat (p + 2)) (\<lambda>r.
             case r of None \<Rightarrow> Inr (ms, None) | Some s \<Rightarrow> match ms s pat (p + 4))
         else if c = L_ESC \<and> d = CHR ''f'' then
           seqR (rd pat (p + 2)) (\<lambda>x.
             if x \<noteq> CHR ''['' then
               Inl (RunError (''missing '' @ quoted ''['' @ '' after '' @ quoted ''%f'' @ '' in pattern''))
             else
               seqR (classend pat (p + 2)) (\<lambda>ep.
               seqR (if s = 0 then Inr CHR 0x00 else rd (ms_src ms) (s - 1)) (\<lambda>previous.
               seqR (matchbracketclass (uchar previous) pat (p + 2) (ep - 1)) (\<lambda>b1.
                 if b1 then Inr (ms, None)
                 else
                   seqR (rd (ms_src ms) s) (\<lambda>y.
                   seqR (matchbracketclass (uchar y) pat (p + 2) (ep - 1)) (\<lambda>b2.
                     if \<not> b2 then Inr (ms, None) else match ms s pat ep))))))
         else if c = L_ESC \<and> isdigit (uchar d) then
           seqR (match_capture ms s (uchar d)) (\<lambda>r.
             case r of None \<Rightarrow> Inr (ms, None) | Some s \<Rightarrow> match ms s pat (p + 2))
         else if c = CHR ''$'' \<and> d = CHR 0x00 then
           Inr (ms, if s = length (ms_src ms) then Some s else None)
         else
           seqR (classend pat p) (\<lambda>ep.
           seqR (singlematch_at (ms_src ms) s pat p ep) (\<lambda>m.
           seqR (rd pat ep) (\<lambda>e.
             if e = CHR ''?'' then
               (if m then
                  seqR (match ms (s + 1) pat (ep + 1)) (\<lambda>(ms, res).
                    case res of Some e \<Rightarrow> Inr (ms, Some e) | None \<Rightarrow> match ms s pat (ep + 1))
                else match ms s pat (ep + 1))
             else if e = CHR ''*'' then max_expand (\<lambda>ms s. match ms s pat (ep + 1)) ms s pat p ep
             else if e = CHR ''+'' then
               (if m then max_expand (\<lambda>ms s. match ms s pat (ep + 1)) ms (s + 1) pat p ep
                else Inr (ms, None))
             else if e = CHR ''-'' then min_expand (\<lambda>ms s. match ms s pat (ep + 1)) ms s pat p ep
             else if \<not> m then Inr (ms, None)
             else match ms (s + 1) pat ep)))))"
  by pat_completeness auto
termination
  by (relation "measure (\<lambda>(ms, s, pat, p). length pat - p)", rule wf_measure)
    (erule (1) match_measure, ((simp; fail) | (drule classend_lt, simp)))+

declare match.simps [simp del]

end
