(* ===== verification/MatchSpec.thy ===== *)
theory MatchSpec
  imports StrMatch
begin

text \<open>
  What a match promises to its callers, the functions that continue it included: a locale for
  the bounds that hold of every call, which \<open>gsub\<close> and the searches need to end, and a locale
  for the safety of the calls on well-formed captures, with \<open>match\<close> as their instance.
\<close>

section \<open>Bounds\<close>

definition bounded_at :: "MatchState \<Rightarrow> nat \<Rightarrow> (MatchState \<times> nat option) result \<Rightarrow> bool" where
  "bounded_at ms s r \<longleftrightarrow>
     (\<forall>ms' x. r = Inr (ms', x) \<longrightarrow>
        ms_src ms' = ms_src ms \<and> (\<forall>e. x = Some e \<longrightarrow> e \<le> max s (length (ms_src ms))))"

lemma bounded_Inl [simp]: "bounded_at ms s (Inl e)"
  by (simp add: bounded_at_def)

lemma bounded_Inr [simp]:
  "bounded_at ms s (Inr (ms', x)) \<longleftrightarrow>
     ms_src ms' = ms_src ms \<and> (\<forall>e. x = Some e \<longrightarrow> e \<le> max s (length (ms_src ms)))"
  by (simp add: bounded_at_def)

lemma bounded_seq:
  assumes "\<And>x. m = Inr x \<Longrightarrow> bounded_at ms s (f x)"
  shows "bounded_at ms s (seqR m f)"
  using assms by (cases m) simp_all

lemma bounded_mono:
  assumes "bounded_at ms' s' r" "ms_src ms' = ms_src ms" "s' \<le> max s (length (ms_src ms))"
  shows "bounded_at ms s r"
proof -
  have "e \<le> max s (length (ms_src ms))" if "e \<le> max s' (length (ms_src ms))" for e
    using that assms(3) by linarith
  then show ?thesis
    using assms(1) unfolding bounded_at_def assms(2) by blast
qed

lemma bounded_then:
  assumes "bounded_at ms' s' r" "ms_src ms' = ms_src ms" "s' \<le> max s (length (ms_src ms))"
    and "\<And>ms'' e. ms_src ms'' = ms_src ms \<Longrightarrow> e \<le> max s (length (ms_src ms)) \<Longrightarrow> bounded_at ms s (f (ms'', Some e))"
    and "\<And>ms''. ms_src ms'' = ms_src ms \<Longrightarrow> bounded_at ms s (f (ms'', None))"
  shows "bounded_at ms s (seqR r f)"
proof (rule bounded_seq)
  fix x assume r: "r = Inr x"
  obtain ms'' y where x: "x = (ms'', y)" by (cases x)
  have b: "bounded_at ms s r" by (rule bounded_mono [OF assms(1-3)])
  then have src: "ms_src ms'' = ms_src ms" and e: "\<And>e. y = Some e \<Longrightarrow> e \<le> max s (length (ms_src ms))"
    by (simp_all add: r x)
  show "bounded_at ms s (f x)"
  proof (cases y)
    case None
    then show ?thesis using assms(5) [OF src] by (simp add: x)
  next
    case (Some e)
    then show ?thesis using assms(4) [OF src e] by (simp add: x)
  qed
qed

lemma expand_count_bound: "expand_count src s pat p ep i = Inr j \<Longrightarrow> j = i \<or> s + j \<le> length src"
proof (induction "length src - (s + i)" arbitrary: i rule: less_induct)
  case less
  have "s + i < length src \<Longrightarrow> expand_count src s pat p ep (i + 1) = Inr j \<Longrightarrow> j = i + 1 \<or> s + j \<le> length src"
    by (intro less.hyps) auto
  with less.prems show ?case
    by (subst (asm) expand_count.simps) (auto split: if_splits)
qed

locale bounded_matcher =
  fixes m :: matcher
  assumes bounded: "bounded_at ms s (m ms s)"
begin

lemma expand_try_bounded:
  assumes "ms_src ms = ms_src ms0" "i = 0 \<or> s + i \<le> length (ms_src ms0)" "s \<le> max s0 (length (ms_src ms0))"
  shows "bounded_at ms0 s0 (expand_try m ms s i)"
  using assms
proof (induction i arbitrary: ms)
  case 0
  then show ?case by (auto intro: bounded_mono [OF bounded])
next
  case (Suc i)
  then show ?case by (simp, intro bounded_then [OF bounded]) auto
qed

lemma max_expand_bounded:
  assumes "s \<le> max s0 (length (ms_src ms))"
  shows "bounded_at ms s0 (max_expand m ms s pat p ep)"
  unfolding max_expand_def using assms
  by (intro bounded_seq expand_try_bounded) (auto dest: expand_count_bound)

lemma min_loop_bounded:
  assumes "src = ms_src ms0" "ms_src ms = ms_src ms0" "s \<le> max s0 (length (ms_src ms0))"
  shows "bounded_at ms0 s0 (min_loop m src ms s pat p ep)"
  using assms
proof (induction "length src - s" arbitrary: s ms rule: less_induct)
  case less
  show ?case
    by (subst min_loop.simps, intro bounded_then [OF bounded])
      (use less in \<open>auto intro!: bounded_seq less.hyps\<close>)
qed

lemma min_expand_bounded: "bounded_at ms s (min_expand m ms s pat p ep)"
  unfolding min_expand_def by (rule min_loop_bounded) auto

lemma start_capture_bounded: "bounded_at ms s (start_capture m ms s what)"
  unfolding start_capture_def Let_def
  by (simp, intro impI bounded_then [OF bounded]) auto

lemma end_capture_bounded: "bounded_at ms s (end_capture m ms s)"
  unfolding end_capture_def Let_def
  by (intro bounded_seq bounded_then [OF bounded]) (auto simp: set_caplen_def)

end

lemma balance_bound: "balance_loop src b e s cont = Some t \<Longrightarrow> s < t \<and> t \<le> length src"
proof (induction "length src - s" arbitrary: s cont rule: less_induct)
  case less
  have *: "Suc s < length src \<Longrightarrow> balance_loop src b e (Suc s) c = Some t \<Longrightarrow> Suc s < t \<and> t \<le> length src" for c
    by (intro less.hyps) auto
  from less.prems show ?case
    by (subst (asm) balance_loop.simps) (auto simp: Let_def split: if_splits dest: *)
qed

lemma matchbalance_bound:
  "matchbalance ms s pat p = Inr (Some t) \<Longrightarrow> s < t \<and> t \<le> length (ms_src ms)"
  by (auto simp: matchbalance_def split: if_splits dest!: balance_bound)

lemma matchbalance_pattern:
  assumes "matchbalance ms s pat p = Inr x"
  shows "p + 2 \<le> length pat"
proof -
  obtain e where "rd pat (p + 1) = Inr e" "e \<noteq> CHR 0x00"
    using assms by (auto simp: matchbalance_def split: if_splits)
  then show ?thesis using rd_nonzero by fastforce
qed

lemma match_capture_bound:
  "match_capture ms s l = Inr (Some t) \<Longrightarrow> s \<le> t \<and> t \<le> max s (length (ms_src ms))"
  by (auto simp: match_capture_def Let_def split: prod.splits if_splits)

lemma singlematch_at_bound: "singlematch_at src s pat p ep = Inr True \<Longrightarrow> s < length src"
  by (simp add: singlematch_at_def split: if_splits)

lemma bounded_if:
  "(b \<Longrightarrow> bounded_at ms s r) \<Longrightarrow> (\<not> b \<Longrightarrow> bounded_at ms s r') \<Longrightarrow> bounded_at ms s (if b then r else r')"
  by simp

lemma bounded_option:
  "(x = None \<Longrightarrow> bounded_at ms s r) \<Longrightarrow> (\<And>e. x = Some e \<Longrightarrow> bounded_at ms s (f e)) \<Longrightarrow>
   bounded_at ms s (case x of None \<Rightarrow> r | Some e \<Rightarrow> f e)"
  by (cases x) simp_all

lemma match_bounded_at: "bounded_at ms s (match ms s pat p)"
proof (induction "length pat - p" arbitrary: ms s p rule: less_induct)
  case less
  show ?case
  proof (subst match.simps, rule bounded_seq, goal_cases)
    case (1 c)
    note c = 1
    have IH: "bounded_at ms s (match ms s pat q)" if "c \<noteq> CHR 0x00" "p < q" for q ms s
      using rd_nonzero [OF c that(1)] that(2) by (intro less.hyps) simp
    have loc: "bounded_matcher (\<lambda>ms s. match ms s pat q)" if "c \<noteq> CHR 0x00" "p < q" for q
      using IH [OF that] by unfold_locales
    note * = bounded_then [OF IH] bounded_mono [OF IH]
    note ops = bounded_if * bounded_seq bounded_option
      bounded_matcher.start_capture_bounded [OF loc] bounded_matcher.end_capture_bounded [OF loc]
      bounded_matcher.max_expand_bounded [OF loc] bounded_matcher.min_expand_bounded [OF loc]
    show ?case
      by (intro ops)
        (auto dest!: classend_lt matchbalance_bound match_capture_bound singlematch_at_bound intro: *(2))
  qed
qed

section \<open>Safety\<close>

text \<open>
  A capture lies in what has been matched so far. A failed match restores the captures that
  were there before it; a successful one ends at or behind its start, inside the source.
\<close>

fun cap_ok :: "nat \<Rightarrow> nat \<times> int \<Rightarrow> bool" where
  "cap_ok s (a, l) \<longleftrightarrow> a \<le> s \<and> (l = CAP_UNFINISHED \<or> l = CAP_POSITION \<or> 0 \<le> l \<and> int a + l \<le> int s)"

definition caps_ok :: "MatchState \<Rightarrow> nat \<Rightarrow> bool" where
  "caps_ok ms s \<longleftrightarrow>
     length (ms_capture ms) = LUA_MAXCAPTURES \<and> ms_level ms \<le> LUA_MAXCAPTURES \<and>
     s \<le> length (ms_src ms) \<and> (\<forall>i < ms_level ms. cap_ok s (ms_capture ms ! i))"

definition same_caps :: "MatchState \<Rightarrow> MatchState \<Rightarrow> bool" where
  "same_caps ms ms' \<longleftrightarrow>
     ms_src ms' = ms_src ms \<and> ms_level ms' = ms_level ms \<and>
     length (ms_capture ms') = length (ms_capture ms) \<and>
     (\<forall>i < ms_level ms. ms_capture ms' ! i = ms_capture ms ! i)"

text \<open>A successful match keeps the captures there were, but may close those that are open; its own
  captures start where it starts or later.\<close>

definition grows :: "nat \<Rightarrow> MatchState \<Rightarrow> MatchState \<Rightarrow> bool" where
  "grows s ms ms' \<longleftrightarrow> ms_level ms \<le> ms_level ms' \<and>
     (\<forall>i < ms_level ms. fst (ms_capture ms' ! i) = fst (ms_capture ms ! i) \<and>
        (snd (ms_capture ms ! i) \<noteq> CAP_UNFINISHED \<longrightarrow> ms_capture ms' ! i = ms_capture ms ! i)) \<and>
     (\<forall>i. ms_level ms \<le> i \<and> i < ms_level ms' \<longrightarrow> s \<le> fst (ms_capture ms' ! i))"

definition run_error :: "'a result \<Rightarrow> bool" where
  "run_error r \<longleftrightarrow> (\<forall>e. r = Inl e \<longrightarrow> (\<exists>msg. e = RunError msg))"

definition sound_at :: "MatchState \<Rightarrow> nat \<Rightarrow> (MatchState \<times> nat option) result \<Rightarrow> bool" where
  "sound_at ms s r \<longleftrightarrow> run_error r \<and>
     (\<forall>ms'. r = Inr (ms', None) \<longrightarrow> same_caps ms ms') \<and>
     (\<forall>ms' e. r = Inr (ms', Some e) \<longrightarrow> ms_src ms' = ms_src ms \<and> s \<le> e \<and> caps_ok ms' e \<and> grows s ms ms')"

lemma grows_refl [simp]: "grows s ms ms" by (auto simp: grows_def)

lemma grows_same: "same_caps ms ms' \<Longrightarrow> grows s' ms' ms'' \<Longrightarrow> s \<le> s' \<Longrightarrow> grows s ms ms''"
  by (fastforce simp: grows_def same_caps_def)

lemma grows_mono: "grows s' ms ms' \<Longrightarrow> s \<le> s' \<Longrightarrow> grows s ms ms'"
  by (rule grows_same [of ms ms]) (simp_all add: same_caps_def)

lemma grows_open:
  assumes "grows s (ms\<lparr>ms_capture := (ms_capture ms)[ms_level ms := (s, what)], ms_level := ms_level ms + 1\<rparr>) ms'"
    and "ms_level ms < length (ms_capture ms)"
  shows "grows s ms ms'"
proof -
  have "s \<le> fst (ms_capture ms' ! i)" if "ms_level ms \<le> i" "i < ms_level ms'" for i
    using assms that by (cases "i = ms_level ms") (auto simp: grows_def)
  then show ?thesis using assms by (auto simp: grows_def nth_list_update)
qed

lemma grows_close:
  assumes "grows s (set_caplen ms l n) ms'" "l < length (ms_capture ms)" "snd (ms_capture ms ! l) = CAP_UNFINISHED"
  shows "grows s ms ms'"
proof -
  have "fst (ms_capture ms' ! i) = fst (ms_capture ms ! i) \<and>
      (snd (ms_capture ms ! i) \<noteq> CAP_UNFINISHED \<longrightarrow> ms_capture ms' ! i = ms_capture ms ! i)" if "i < ms_level ms" for i
    using assms that by (cases "i = l") (auto simp: grows_def set_caplen_def nth_list_update)
  then show ?thesis using assms(1) by (auto simp: grows_def set_caplen_def)
qed

lemma run_error_simps [simp]: "run_error (Inr x)" "run_error (Inl e) \<longleftrightarrow> (\<exists>msg. e = RunError msg)"
  by (auto simp: run_error_def)

lemma run_error_seq: "run_error m \<Longrightarrow> (\<And>x. m = Inr x \<Longrightarrow> run_error (f x)) \<Longrightarrow> run_error (seqR m f)"
  by (cases m) auto

lemma cap_ok_mono: "cap_ok s c \<Longrightarrow> s \<le> s' \<Longrightarrow> cap_ok s' c"
  by (cases c) auto

lemma caps_ok_mono: "caps_ok ms s \<Longrightarrow> s \<le> s' \<Longrightarrow> s' \<le> length (ms_src ms) \<Longrightarrow> caps_ok ms s'"
  by (auto simp: caps_ok_def intro: cap_ok_mono)

lemma caps_ok_same: "caps_ok ms s \<Longrightarrow> same_caps ms ms' \<Longrightarrow> caps_ok ms' s"
  by (auto simp: caps_ok_def same_caps_def)

lemma caps_ok_length: "caps_ok ms s \<Longrightarrow> s \<le> length (ms_src ms)"
  by (simp add: caps_ok_def)

lemma same_caps_refl [simp]: "same_caps ms ms"
  by (simp add: same_caps_def)

lemma same_caps_trans: "same_caps ms ms' \<Longrightarrow> same_caps ms' ms'' \<Longrightarrow> same_caps ms ms''"
  by (auto simp: same_caps_def)

lemma same_caps_src: "same_caps ms ms' \<Longrightarrow> ms_src ms' = ms_src ms"
  by (simp add: same_caps_def)

lemma sound_simps [simp]:
  "sound_at ms s (Inr (ms', None)) \<longleftrightarrow> same_caps ms ms'"
  "sound_at ms s (Inr (ms', Some e)) \<longleftrightarrow> ms_src ms' = ms_src ms \<and> s \<le> e \<and> caps_ok ms' e \<and> grows s ms ms'"
  "sound_at ms s (Inl err) \<longleftrightarrow> (\<exists>msg. err = RunError msg)"
  by (auto simp: sound_at_def)

lemma sound_seq:
  "run_error m \<Longrightarrow> (\<And>x. m = Inr x \<Longrightarrow> sound_at ms s (f x)) \<Longrightarrow> sound_at ms s (seqR m f)"
  by (cases m) auto

lemma sound_if:
  "(b \<Longrightarrow> sound_at ms s r) \<Longrightarrow> (\<not> b \<Longrightarrow> sound_at ms s r') \<Longrightarrow> sound_at ms s (if b then r else r')"
  by simp

lemma sound_option:
  "(x = None \<Longrightarrow> sound_at ms s r) \<Longrightarrow> (\<And>e. x = Some e \<Longrightarrow> sound_at ms s (f e)) \<Longrightarrow>
   sound_at ms s (case x of None \<Rightarrow> r | Some e \<Rightarrow> f e)"
  by (cases x) simp_all

lemma sound_mono:
  assumes "sound_at ms' s' r" "same_caps ms ms'" "s \<le> s'"
  shows "sound_at ms s r"
proof (cases r)
  case (Inl e)
  then show ?thesis using assms(1) by simp
next
  case (Inr y)
  obtain ms'' x where y: "y = (ms'', x)" by (cases y)
  show ?thesis
    using assms same_caps_trans [OF assms(2)] same_caps_src [OF assms(2)] grows_same [OF assms(2) _ assms(3)]
    by (cases x) (auto simp: Inr y)
qed

lemma sound_then:
  assumes "sound_at ms' s' r"
    and "\<And>ms'' e. ms_src ms'' = ms_src ms' \<Longrightarrow> s' \<le> e \<Longrightarrow> caps_ok ms'' e \<Longrightarrow> grows s' ms' ms'' \<Longrightarrow>
      sound_at ms s (f (ms'', Some e))"
    and "\<And>ms''. same_caps ms' ms'' \<Longrightarrow> sound_at ms s (f (ms'', None))"
  shows "sound_at ms s (seqR r f)"
proof (cases r)
  case (Inl e)
  then show ?thesis using assms(1) by simp
next
  case (Inr y)
  obtain ms'' x where y: "y = (ms'', x)" by (cases y)
  show ?thesis
    using assms(1) assms(2) [of ms''] assms(3) [of ms''] by (cases x) (simp_all add: Inr y)
qed

lemma run_error_rd: "i \<le> length pat \<Longrightarrow> run_error (rd pat i)"
  using rd_in [of i pat] by auto

lemma bracket_loop_total: "ec < length pat \<Longrightarrow> \<exists>b. bracket_loop c sig pat p ec = Inr b"
proof (induction "ec - p" arbitrary: p rule: less_induct)
  case less
  have *: "\<exists>b. bracket_loop c sig pat q ec = Inr b" if "p < q" "p + 1 < ec" for q
    using that less by (intro less.hyps) auto
  show ?case
  proof (cases "p + 1 < ec")
    case True
    then have "rd pat (p + 1) = Inr (pat ! (p + 1))" "\<exists>y. rd pat (p + 1 + 1) = Inr y"
      using less.prems by (auto simp: rd_def)
    moreover have "p + 1 + 2 < ec \<Longrightarrow> rd pat (p + 1 + 2) = Inr (pat ! (p + 1 + 2))"
      using less.prems by (simp add: rd_def)
    ultimately show ?thesis
      using *[of "p + 1"] *[of "p + 1 + 1"] *[of "p + 1 + 2"] True
      by (subst bracket_loop.simps) (auto simp: Let_def)
  qed (subst bracket_loop.simps, simp)
qed

lemma singlematch_total:
  assumes "classend pat p = Inr ep" "p < length pat"
  shows "\<exists>b. singlematch c pat p ep = Inr b"
proof -
  have ep: "p < ep" "ep \<le> length pat" using classend_gt [OF assms] by auto
  then have "\<exists>b. bracket_loop c sig pat q (ep - 1) = Inr b" for sig q
    by (intro bracket_loop_total) auto
  then show ?thesis
    using assms(2) by (auto simp: singlematch_def matchbracketclass_def rd_def)
qed

lemma run_error_bracket_end: "p \<le> length pat \<Longrightarrow> run_error (bracket_end pat p)"
proof (induction "length pat - p" arbitrary: p rule: less_induct)
  case less
  show ?case
  proof (subst bracket_end.simps, intro run_error_seq run_error_rd less.prems, goal_cases)
    case (1 c)
    have IH: "p < q \<Longrightarrow> p < length pat \<Longrightarrow> q \<le> length pat \<Longrightarrow> run_error (bracket_end pat q)" for q
      by (intro less.hyps) auto
    show ?case
      using rd_nonzero [OF 1] rd_nonzero [of pat "Suc p"]
      by (auto simp: Let_def Suc_le_eq intro!: run_error_seq run_error_rd IH)
  qed
qed

lemma run_error_classend:
  assumes "p < length pat" shows "run_error (classend pat p)"
proof -
  have "run_error (bracket_end pat (if d = CHR ''^'' then p + 2 else p + 1))"
    if "rd pat (Suc p) = Inr d" for d
    using assms rd_nonzero [OF that] by (auto intro!: run_error_bracket_end)
  then show ?thesis
    using assms by (auto simp: classend_def Let_def intro!: run_error_seq run_error_rd)
qed

lemma run_error_single:
  assumes "classend pat p = Inr ep" "p < length pat"
  shows "run_error (singlematch_at src s pat p ep)"
proof (cases "s < length src")
  case True
  obtain b where "singlematch (uchar (src ! s)) pat p ep = Inr b"
    using singlematch_total [OF assms] by blast
  then show ?thesis by (simp add: singlematch_at_def)
qed (simp add: singlematch_at_def)

lemma run_error_count:
  assumes "classend pat p = Inr ep" "p < length pat"
  shows "run_error (expand_count src s pat p ep i)"
proof (induction "length src - (s + i)" arbitrary: i rule: less_induct)
  case less
  show ?case
    by (subst expand_count.simps) (auto intro!: run_error_seq run_error_single [OF assms] less)
qed

lemma run_error_bracketclass:
  assumes "classend pat p = Inr ep" "rd pat p = Inr CHR ''[''"
  shows "run_error (matchbracketclass c pat p (ep - 1))"
proof -
  have "p < length pat" using rd_nonzero [OF assms(2)] by simp
  then obtain b where "singlematch c pat p ep = Inr b"
    using singlematch_total [OF assms(1)] by blast
  then show ?thesis using assms(2) by (simp add: singlematch_def L_ESC_def)
qed

lemma run_error_matchbalance:
  assumes "s \<le> length (ms_src ms)" "p \<le> length pat"
  shows "run_error (matchbalance ms s pat p)"
  unfolding matchbalance_def
proof (rule run_error_seq [OF run_error_rd [OF assms(2)]])
  fix b assume b: "rd pat p = Inr b"
  show "run_error (if b = CHR 0x00 then Inl (RunError ''unbalanced pattern'')
      else seqR (rd pat (p + 1)) (\<lambda>e. if e = CHR 0x00 then Inl (RunError ''unbalanced pattern'')
        else seqR (rd (ms_src ms) s) (\<lambda>x. if x \<noteq> b then Inr None
          else Inr (balance_loop (ms_src ms) b e s 1))))"
    using rd_nonzero [OF b] assms(1) by (auto intro!: run_error_seq run_error_rd)
qed

lemma rd_next: "rd pat p = Inr c \<Longrightarrow> c \<noteq> CHR 0x00 \<Longrightarrow> p + 1 \<le> length pat"
  using rd_nonzero [of pat p c] by simp

lemma close_from_ok:
  "run_error (close_from capture level)"
  "close_from capture level = Inr l \<Longrightarrow> l < level \<and> snd (capture ! l) = CAP_UNFINISHED"
  by (induction level) (auto split: if_splits)

lemma match_capture_ok:
  assumes "caps_ok ms s"
  shows "run_error (match_capture ms s l)"
    and "match_capture ms s l = Inr (Some t) \<Longrightarrow> s \<le> t \<and> t \<le> length (ms_src ms)"
proof -
  show "run_error (match_capture ms s l)"
    unfolding match_capture_def
  proof (rule run_error_seq)
    show "run_error (check_capture ms l)" by (simp add: check_capture_def Let_def)
    fix k assume k: "check_capture ms l = Inr k"
    obtain a n where a: "ms_capture ms ! k = (a, n)" by (cases "ms_capture ms ! k")
    have "k < ms_level ms" using k by (auto simp: check_capture_def Let_def split: if_splits)
    then have "cap_ok s (a, n)" "s \<le> length (ms_src ms)"
      using assms a by (auto simp: caps_ok_def)
    then show "run_error (let (cinit, len) = ms_capture ms ! k in
         if len < 0 \<or> length (ms_src ms) - s < nat len then Inr None
         else seqR (slice (ms_src ms) cinit (nat len)) (\<lambda>a.
              seqR (slice (ms_src ms) s (nat len)) (\<lambda>b. Inr (if a = b then Some (s + nat len) else None))))"
      by (auto simp: a slice_def CAP_UNFINISHED_def CAP_POSITION_def)
  qed
  show "match_capture ms s l = Inr (Some t) \<Longrightarrow> s \<le> t \<and> t \<le> length (ms_src ms)"
    using match_capture_bound [of ms s l t] assms by (auto simp: caps_ok_def)
qed

locale sound_matcher = bounded_matcher +
  assumes sound: "caps_ok ms s \<Longrightarrow> sound_at ms s (m ms s)"
begin

lemma expand_try_sound:
  assumes "caps_ok ms s" "s + i \<le> length (ms_src ms)"
  shows "sound_at ms s (expand_try m ms s i)"
  using assms
proof (induction i arbitrary: ms)
  case 0
  then show ?case by (simp add: sound)
next
  case (Suc i)
  have "caps_ok ms (s + Suc i)" using Suc.prems by (auto intro: caps_ok_mono)
  then have "sound_at ms (s + Suc i) (m ms (s + Suc i))" by (rule sound)
  then show ?case
  proof (simp, elim sound_then, goal_cases)
    case (2 ms'')
    then have "sound_at ms'' s (expand_try m ms'' s i)"
      using Suc.prems same_caps_src [OF 2(2)] by (intro Suc.IH) (auto intro: caps_ok_same)
    then show ?case using 2(2) by (auto intro: sound_mono)
  qed (auto elim: grows_mono)
qed

lemma max_expand_sound:
  assumes "caps_ok ms s" "classend pat p = Inr ep" "p < length pat"
  shows "sound_at ms s (max_expand m ms s pat p ep)"
  unfolding max_expand_def
  by (intro sound_seq run_error_count [OF assms(2,3)] expand_try_sound assms(1))
    (use caps_ok_length [OF assms(1)] expand_count_bound in fastforce)

lemma min_loop_sound:
  assumes "caps_ok ms s" "src = ms_src ms" "classend pat p = Inr ep" "p < length pat"
  shows "sound_at ms s (min_loop m src ms s pat p ep)"
  using assms(1,2)
proof (induction "length src - s" arbitrary: s ms rule: less_induct)
  case less
  have again: "sound_at ms s (min_loop m src ms' (s + 1) pat p ep)"
    if "same_caps ms ms'" "s < length src" for ms'
  proof -
    have "sound_at ms' (s + 1) (min_loop m src ms' (s + 1) pat p ep)"
      using that less.prems same_caps_src [OF that(1)]
      by (intro less.hyps) (auto intro: caps_ok_mono [of _ s] caps_ok_same)
    then show ?thesis using that(1) by (rule sound_mono) simp
  qed
  show ?case
    by (subst min_loop.simps, intro sound_then [OF sound [OF less.prems(1)]])
      (auto intro!: sound_seq again [simplified] run_error_single [OF assms(3,4)])
qed

lemma min_expand_sound:
  assumes "caps_ok ms s" "classend pat p = Inr ep" "p < length pat"
  shows "sound_at ms s (min_expand m ms s pat p ep)"
  unfolding min_expand_def using assms by (intro min_loop_sound) auto

lemma start_capture_sound:
  assumes "caps_ok ms s" "what = CAP_POSITION \<or> what = CAP_UNFINISHED"
  shows "sound_at ms s (start_capture m ms s what)"
proof (cases "ms_level ms \<ge> LUA_MAXCAPTURES")
  case True
  then show ?thesis by (simp add: start_capture_def)
next
  case False
  define ms1 where "ms1 = ms\<lparr>ms_capture := (ms_capture ms)[ms_level ms := (s, what)],
    ms_level := ms_level ms + 1\<rparr>"
  have "caps_ok ms1 s"
    using assms False by (auto simp: ms1_def caps_ok_def nth_list_update less_Suc_eq)
  then have "sound_at ms1 s (m ms1 s)" by (rule sound)
  then have "sound_at ms s (seqR (m ms1 s) (\<lambda>(ms, res).
      case res of None \<Rightarrow> Inr (ms\<lparr>ms_level := ms_level ms - 1\<rparr>, None) | Some e \<Rightarrow> Inr (ms, Some e)))"
    by (rule sound_then)
      (use assms(1) False grows_open [of s ms what] in \<open>auto simp: ms1_def same_caps_def caps_ok_def\<close>)
  then show ?thesis by (simp only: start_capture_def ms1_def Let_def False if_False)
qed

lemma end_capture_sound:
  assumes "caps_ok ms s"
  shows "sound_at ms s (end_capture m ms s)"
  unfolding end_capture_def
proof (rule sound_seq)
  show "run_error (capture_to_close ms)" by (simp add: capture_to_close_def close_from_ok)
  fix l assume "capture_to_close ms = Inr l"
  then have l: "l < ms_level ms" "snd (ms_capture ms ! l) = CAP_UNFINISHED"
    using close_from_ok(2) by (auto simp: capture_to_close_def)
  obtain a where a: "ms_capture ms ! l = (a, CAP_UNFINISHED)"
    using l(2) by (cases "ms_capture ms ! l") auto
  have len: "l < length (ms_capture ms)" using assms l(1) by (simp add: caps_ok_def)
  have "cap_ok s (a, CAP_UNFINISHED)" using assms l(1) a by (auto simp: caps_ok_def)
  then have as: "a \<le> s" by simp
  define ms1 where "ms1 = set_caplen ms l (int s - int a)"
  have "caps_ok ms1 s"
    using assms as len a by (auto simp: ms1_def set_caplen_def caps_ok_def nth_list_update)
  then have "sound_at ms1 s (m ms1 s)" by (rule sound)
  then have "sound_at ms s (seqR (m ms1 s) (\<lambda>(ms, res).
      case res of None \<Rightarrow> Inr (set_caplen ms l CAP_UNFINISHED, None) | Some e \<Rightarrow> Inr (ms, Some e)))"
    by (rule sound_then)
      (use l len a grows_close [of s ms l] in \<open>auto simp: ms1_def set_caplen_def same_caps_def nth_list_update\<close>)
  then show "sound_at ms s
     (let ms = set_caplen ms l (int s - int (fst (ms_capture ms ! l))) in
      seqR (m ms s) (\<lambda>(ms, res).
        case res of None \<Rightarrow> Inr (set_caplen ms l CAP_UNFINISHED, None) | Some e \<Rightarrow> Inr (ms, Some e)))"
    by (simp add: ms1_def a)
qed

end

lemma match_sound_at:
  assumes "caps_ok ms s" "p \<le> length pat"
  shows "sound_at ms s (match ms s pat p)"
  using assms
proof (induction "length pat - p" arbitrary: ms s p rule: less_induct)
  case less
  show ?case
  proof (subst match.simps, intro sound_seq run_error_rd less.prems, goal_cases)
    case (1 c)
    note c = 1
    show ?case
    proof (rule sound_if, goal_cases)
      case 1
      show ?case using less.prems by simp
    next
      case 2
      then have p: "p < length pat" using rd_nonzero [OF c] by simp
      have IH: "sound_at ms s (match ms s pat q)" if "caps_ok ms s" "p < q" "q \<le> length pat" for q ms s
        using p that by (intro less.hyps) auto
      have loc: "sound_matcher (\<lambda>ms s. match ms s pat q)" if "p < q" "q \<le> length pat" for q
        using IH that by unfold_locales (auto intro: match_bounded_at)
      have p2: "p + 2 \<le> length pat" if "rd pat (p + 1) = Inr d" "d \<noteq> CHR 0x00" for d
        using rd_next [OF that] by simp
      have ep: "ep \<le> length pat" "p < ep" if "classend pat p = Inr ep" for ep
        using classend_gt [OF that p] by auto
      have ep1: "ep + 1 \<le> length pat" if "rd pat ep = Inr e" "e \<noteq> CHR 0x00" for ep e
        by (rule rd_next [OF that])
      have ep2: "ep \<le> length pat" "p < ep"
        if "classend pat (p + 2) = Inr ep" "rd pat (p + 2) = Inr x" "x \<noteq> CHR 0x00" for ep x
        using classend_gt [OF that(1)] rd_nonzero [OF that(2,3)] by auto
      have caps: "caps_ok ms t" if "s \<le> t" "t \<le> length (ms_src ms)" for t
        by (rule caps_ok_mono [OF less.prems(1) that])
      have gm: "grows s ms ms'" if "grows (Suc s) ms ms'" for ms'
        by (rule grows_mono [OF that]) simp
      have mb: "s \<le> t \<and> caps_ok ms t \<and> p + 4 \<le> length pat"
        if "matchbalance ms s pat (Suc (Suc p)) = Inr (Some t)" for t
        using matchbalance_bound [OF that] matchbalance_pattern [OF that] by (auto intro: caps)
      have mc: "s \<le> t \<and> caps_ok ms t" if "match_capture ms s l = Inr (Some t)" for l t
        using match_capture_ok(2) [OF less.prems(1) that] by (auto intro: caps)
      have sm: "caps_ok ms (Suc s)" if "singlematch_at (ms_src ms) s pat p x = Inr True" for x
        using singlematch_at_bound [OF that] by (auto intro: caps)
      have dg: "Suc (Suc p) \<le> length pat" if "rd pat (Suc p) = Inr x" "isdigit (uchar x)" for x
        using that p2 [of x] by (cases "x = CHR 0x00") (simp_all add: isdigit_def uchar_def)
      have fr: "Suc (Suc p) < length pat" if "rd pat (Suc (Suc p)) = Inr CHR ''[''"
        using rd_nonzero [OF that] by simp
      have pv: "run_error (rd (ms_src ms) (s - Suc 0))"
        using caps_ok_length [OF less.prems(1)] by (intro run_error_rd) simp
      have epS: "p < Suc q" if "classend pat p = Inr q" for q using ep(2) [OF that] by simp
      have again: "sound_at ms s (match ms' s pat q)" if "same_caps ms ms'" "p < q" "q \<le> length pat" for ms' q
        by (rule sound_mono [OF IH [OF caps_ok_same [OF less.prems(1) that(1)] that(2,3)] that(1)]) simp
      note ops = sound_then [OF IH] sound_mono [OF IH] sound_if sound_seq sound_option
        sound_matcher.start_capture_sound [OF loc] sound_matcher.end_capture_sound [OF loc]
        sound_matcher.max_expand_sound [OF loc]
        sound_mono [OF sound_matcher.max_expand_sound [OF loc]] sound_matcher.min_expand_sound [OF loc]
        run_error_rd run_error_single [OF _ p] run_error_classend run_error_matchbalance
        run_error_bracketclass match_capture_ok(1) p
      show ?case
        by (intro ops)
          (simp_all add: less.prems caps_ok_length [OF less.prems(1)] L_ESC_def p2 ep1 ep ep2 Suc_leI p
            p2 [simplified] pv fr sm epS ep1 [simplified] again caps gm, auto dest: mb mc dg)
    qed
  qed
qed

text \<open>Every match of a whole pattern is such a matcher.\<close>

interpretation matching: sound_matcher "\<lambda>ms s. match ms s pat 0" for pat
  by unfold_locales (simp_all add: match_bounded_at match_sound_at)

lemma init_caps_ok: "s \<le> length src \<Longrightarrow> caps_ok (init_ms src) s"
  by (simp add: caps_ok_def init_ms_def)

text \<open>C17: on any source and any pattern, malformed ones included, a match ends without reading
  outside the source, the pattern or the captures. It raises an error of the library, or fails and
  leaves the captures as they were, or succeeds inside the source: the captures that were there
  keep their start, and their length unless they were open; each new one starts in the part just
  matched, between \<open>s\<close> and \<open>e\<close>, and is still open, a position, or a stretch that ends there too.\<close>

theorem match_safe:
  assumes "caps_ok ms s" "p \<le> length pat"
  shows "case match ms s pat p of
      Inl err \<Rightarrow> \<exists>msg. err = RunError msg
    | Inr (ms', None) \<Rightarrow> same_caps ms ms'
    | Inr (ms', Some e) \<Rightarrow> s \<le> e \<and> e \<le> length (ms_src ms) \<and> ms_level ms \<le> ms_level ms' \<and>
        (\<forall>i < ms_level ms'. case ms_capture ms' ! i of (a, l) \<Rightarrow>
          (if i < ms_level ms
           then a = fst (ms_capture ms ! i) \<and> (l = snd (ms_capture ms ! i) \<or> snd (ms_capture ms ! i) = CAP_UNFINISHED)
           else s \<le> a) \<and>
          a \<le> e \<and> (l = CAP_UNFINISHED \<or> l = CAP_POSITION \<or> 0 \<le> l \<and> int a + l \<le> int e))"
proof (cases "match ms s pat p")
  case (Inl err)
  then show ?thesis using match_sound_at [OF assms] by simp
next
  case (Inr y)
  obtain ms' x where y: "y = (ms', x)" by (cases y)
  show ?thesis
  proof (cases x)
    case None
    then show ?thesis using match_sound_at [OF assms] by (simp add: Inr y)
  next
    case (Some e)
    then have e: "s \<le> e" "caps_ok ms' e" "grows s ms ms'" "ms_src ms' = ms_src ms"
      using match_sound_at [OF assms] by (simp_all add: Inr y)
    have "case ms_capture ms' ! i of (a, l) \<Rightarrow>
          (if i < ms_level ms
           then a = fst (ms_capture ms ! i) \<and> (l = snd (ms_capture ms ! i) \<or> snd (ms_capture ms ! i) = CAP_UNFINISHED)
           else s \<le> a) \<and>
          a \<le> e \<and> (l = CAP_UNFINISHED \<or> l = CAP_POSITION \<or> 0 \<le> l \<and> int a + l \<le> int e)" if i: "i < ms_level ms'" for i
    proof -
      obtain a l where al: "ms_capture ms' ! i = (a, l)" by (cases "ms_capture ms' ! i")
      have "cap_ok e (a, l)" using e(2) i al by (auto simp: caps_ok_def)
      moreover have "s \<le> a" if "\<not> i < ms_level ms" using e(3) i al that unfolding grows_def by (metis fst_conv not_less)
      moreover have "a = fst (ms_capture ms ! i) \<and> (l = snd (ms_capture ms ! i) \<or> snd (ms_capture ms ! i) = CAP_UNFINISHED)"
        if "i < ms_level ms" using e(3) al that by (metis fst_conv snd_conv grows_def)
      ultimately show ?thesis by (simp add: al)
    qed
    moreover have "e \<le> length (ms_src ms)" using e(2,4) by (simp add: caps_ok_def)
    moreover have "ms_level ms \<le> ms_level ms'" using e(3) by (simp add: grows_def)
    ultimately show ?thesis using e(1) unfolding Inr y Some by simp
  qed
qed

theorem match_safe_witness:
  "\<exists>ms. match (init_ms ''ab-12'') 1 ''(%a)-(%d*)'' 0 = Inr (ms, Some 5) \<and> ms_level ms = 2 \<and>
     take 2 (ms_capture ms) = [(1, 1), (3, 2)] \<and> 1 \<le> fst (ms_capture ms ! 0) \<and> 1 \<le> fst (ms_capture ms ! 1)"
proof -
  let ?ms = "\<lparr>ms_src = ''ab-12'', ms_level = 2, ms_capture = (1, 1) # (3, 2) # replicate 30 (0, 0)\<rparr>"
  have run: "match (init_ms ''ab-12'') 1 ''(%a)-(%d*)'' 0 = Inr (?ms, Some 5)" by code_simp
  have "caps_ok (init_ms ''ab-12'') 1" by (rule init_caps_ok) simp
  from match_safe [OF this, of 0 "''(%a)-(%d*)''"]
  have "1 \<le> fst (ms_capture ?ms ! 0) \<and> 1 \<le> fst (ms_capture ?ms ! 1)"
    unfolding run by (simp add: init_ms_def less_2_cases_iff)
  then show ?thesis unfolding run by (intro exI [of _ ?ms]) simp
qed

end
