(* ===== verification/StrLib.thy ===== *)
theory StrLib
  imports MatchSpec
begin

text \<open>
  The functions of the string library (\<open>lstrlib.c\<close>). Each takes its arguments as the
  \<open>luaL_check\<close> functions deliver them (\<open>None\<close> for an absent optional one) and returns what it
  pushes; a buffer is the list of characters added to it. \<open>ptrdiff_t\<close> values are integers:
  they are offsets in strings, far below the limits of the type, except where the code
  converts them to \<open>int\<close>.
\<close>

section \<open>Parts of strings\<close>

definition posrelat :: "int \<Rightarrow> nat \<Rightarrow> int" where
  "posrelat pos len =
     (let pos = (if pos < 0 then pos + int len + 1 else pos) in if pos \<ge> 0 then pos else 0)"

definition str_len :: "string \<Rightarrow> lval" where "str_len s = VNumber (cast_num (int (length s)))"

definition str_sub :: "string \<Rightarrow> int \<Rightarrow> int option \<Rightarrow> string result" where
  "str_sub s i j =
     (let l = length s;
          start = posrelat i l;
          end' = posrelat (case j of None \<Rightarrow> -1 | Some j \<Rightarrow> j) l;
          start = (if start < 1 then 1 else start);
          end' = (if end' > int l then int l else end')
      in if start \<le> end' then slice s (nat (start - 1)) (nat (end' - start + 1)) else Inr [])"

primrec rev_loop :: "string \<Rightarrow> nat \<Rightarrow> string" where
  "rev_loop s 0 = []"
| "rev_loop s (Suc l) = s ! l # rev_loop s l"

definition str_reverse :: "string \<Rightarrow> string" where
  "str_reverse s = rev_loop s (length s)"

definition str_lower :: "string \<Rightarrow> string" where
  "str_lower s = map (\<lambda>c. char_of_int (tolower (uchar c))) s"

definition str_upper :: "string \<Rightarrow> string" where
  "str_upper s = map (\<lambda>c. char_of_int (toupper (uchar c))) s"

definition str_rep :: "string \<Rightarrow> int \<Rightarrow> string" where
  "str_rep s n = concat (replicate (nat n) s)"

text \<open>\<open>int_of\<close> is the conversion of a \<open>ptrdiff_t\<close> to \<open>int\<close>.\<close>

definition int_of :: "int \<Rightarrow> int" where "int_of i = sint (word_of_int i :: 32 word)"

definition str_byte :: "string \<Rightarrow> int option \<Rightarrow> int option \<Rightarrow> int list result" where
  "str_byte s i j =
     (let l = length s;
          posi = posrelat (case i of None \<Rightarrow> 1 | Some i \<Rightarrow> i) l;
          pose = posrelat (case j of None \<Rightarrow> posi | Some j \<Rightarrow> j) l;
          posi = (if posi \<le> 0 then 1 else posi);
          pose = (if pose > int l then int l else pose)
      in if posi > pose then Inr []
         else
           let n = int_of (pose - posi + 1) in
           if posi + n \<le> pose then Inl (RunError ''string slice too long'')
           else seqR (slice s (nat (posi - 1)) (nat n)) (\<lambda>cs. Inr (map uchar cs)))"

fun char_loop :: "(string \<times> string option) option \<Rightarrow> nat \<Rightarrow> int list \<Rightarrow> string result" where
  "char_loop ar i [] = Inr []"
| "char_loop ar i (c # cs) =
     (if c mod 256 \<noteq> c then luaL_argerror ar i ''invalid value''
      else seqR (char_loop ar (i + 1) cs) (\<lambda>b. Inr (char_of_int c # b)))"

definition str_char :: "(string \<times> string option) option \<Rightarrow> int list \<Rightarrow> string result" where
  "str_char ar cs = char_loop ar 1 cs"

section \<open>Plain search\<close>

function memchr :: "string \<Rightarrow> nat \<Rightarrow> char \<Rightarrow> nat \<Rightarrow> nat option" where
  "memchr s off c n =
     (if n = 0 then None else if s ! off = c then Some off else memchr s (off + 1) c (n - 1))"
  by pat_completeness auto
termination by (relation "measure (\<lambda>(s, off, c, n). n)") auto

declare memchr.simps [simp del]

text \<open>Offsets into the block \<open>s1\<close> are absolute; \<open>l1\<close> characters from \<open>off\<close> are left to search, and
  \<open>l2\<close> is already one less than the length of \<open>s2\<close>.\<close>

lemma memchr_range: "memchr s off c n = Some i \<Longrightarrow> off \<le> i \<and> i < off + n"
proof (induction n arbitrary: off)
  case 0
  then show ?case by (simp add: memchr.simps)
next
  case (Suc n)
  from Suc.prems show ?case
    by (subst (asm) memchr.simps) (auto split: if_splits dest: Suc.IH)
qed

function memfind_loop :: "string \<Rightarrow> string \<Rightarrow> nat \<Rightarrow> nat \<Rightarrow> nat \<Rightarrow> nat option" where
  "memfind_loop s1 s2 off l1 l2 =
     (if l1 > 0 then
        (case memchr s1 off (s2 ! 0) l1 of
           None \<Rightarrow> None
         | Some i \<Rightarrow>
             let i' = i + 1 in
             if take l2 (drop i' s1) = take l2 (drop 1 s2) then Some (i' - 1)
             else memfind_loop s1 s2 i' (l1 - (i' - off)) l2)
      else None)"
  by pat_completeness auto
termination
  by (relation "measure (\<lambda>(s1, s2, off, l1, l2). l1)") (auto dest: memchr_range)

declare memfind_loop.simps [simp del]

definition lmemfind :: "string \<Rightarrow> nat \<Rightarrow> nat \<Rightarrow> string \<Rightarrow> nat option" where
  "lmemfind s1 off l1 s2 =
     (let l2 = length s2 in
      if l2 = 0 then Some off
      else if l2 > l1 then None
      else memfind_loop s1 s2 off (l1 - (l2 - 1)) (l2 - 1))"

section \<open>Captures as values\<close>

text \<open>\<open>s\<close> and \<open>e\<close> are the ends of the whole match.\<close>

definition push_onecapture :: "MatchState \<Rightarrow> nat \<Rightarrow> nat \<Rightarrow> nat \<Rightarrow> lval result" where
  "push_onecapture ms i s e =
     (if i \<ge> ms_level ms then
        (if i = 0 then seqR (slice (ms_src ms) s (e - s)) (\<lambda>v. Inr (VString v))
         else Inl (RunError ''invalid capture index''))
      else
        let (cinit, l) = ms_capture ms ! i in
        if l = CAP_UNFINISHED then Inl (RunError ''unfinished capture'')
        else if l = CAP_POSITION then Inr (VNumber (cast_num (int cinit + 1)))
        else seqR (slice (ms_src ms) cinit (nat l)) (\<lambda>v. Inr (VString v)))"

fun push_list :: "MatchState \<Rightarrow> nat \<Rightarrow> nat \<Rightarrow> nat list \<Rightarrow> lval list result" where
  "push_list ms s e [] = Inr []"
| "push_list ms s e (i # is) =
     seqR (push_onecapture ms i s e) (\<lambda>v. seqR (push_list ms s e is) (\<lambda>vs. Inr (v # vs)))"

text \<open>\<open>whole\<close> is whether the argument \<open>s\<close> of \<open>push_captures\<close> is not null.\<close>

definition push_captures :: "MatchState \<Rightarrow> bool \<Rightarrow> nat \<Rightarrow> nat \<Rightarrow> lval list result" where
  "push_captures ms whole s e =
     (let nlevels = (if ms_level ms = 0 \<and> whole then 1 else ms_level ms) in
      push_list ms s e [0..<nlevels])"

section \<open>Searches\<close>

lemma match_src: "match ms s pat p = Inr (ms', res) \<Longrightarrow> ms_src ms' = ms_src ms"
  using match_bounded_at [of ms s pat p] by simp

lemma match_end: "match ms s pat p = Inr (ms', Some e) \<Longrightarrow> e \<le> max s (length (ms_src ms))"
  using match_bounded_at [of ms s pat p] by simp

lemma match_shorter:
  assumes "match ms s pat p = Inr (ms', Some e)" "s < e"
  shows "length (ms_src ms') - e < length (ms_src ms) - s"
  using match_src [OF assms(1)] match_end [OF assms(1)] assms(2) by auto

text \<open>The \<open>do\<close> loop: from \<open>s1\<close> on, the first position where the pattern matches.\<close>

function find_loop :: "bool \<Rightarrow> MatchState \<Rightarrow> nat \<Rightarrow> string \<Rightarrow> nat \<Rightarrow> bool \<Rightarrow> lval list result" where
  "find_loop is_find ms s1 pat p anchor =
     seqR (match (ms\<lparr>ms_level := 0\<rparr>) s1 pat p) (\<lambda>(ms', res).
       case res of
         Some e \<Rightarrow>
           if is_find then
             seqR (push_captures ms' False 0 0) (\<lambda>vs.
               Inr (VNumber (cast_num (int s1 + 1)) # VNumber (cast_num (int e)) # vs))
           else push_captures ms' True s1 e
       | None \<Rightarrow>
           if s1 < length (ms_src ms) \<and> \<not> anchor
           then find_loop is_find ms' (s1 + 1) pat p anchor
           else Inr [VNil])"
  by pat_completeness auto
termination
  by (relation "measure (\<lambda>(is_find, ms, s1, pat, p, anchor). length (ms_src ms) - s1)") (auto dest: match_src)

declare find_loop.simps [simp del]

definition has_specials :: "string \<Rightarrow> bool" where
  "has_specials pat \<longleftrightarrow> (\<exists>c \<in> set (takeWhile (\<lambda>c. c \<noteq> CHR 0x00) pat). c \<in> set SPECIALS)"

definition str_find_aux :: "bool \<Rightarrow> string \<Rightarrow> string \<Rightarrow> int option \<Rightarrow> bool \<Rightarrow> lval list result" where
  "str_find_aux is_find s pat init plain =
     (let l1 = length s;
          i = posrelat (case init of None \<Rightarrow> 1 | Some i \<Rightarrow> i) l1 - 1;
          i = (if i < 0 then 0 else if i > int l1 then l1 else nat i)
      in if is_find \<and> (plain \<or> \<not> has_specials pat) then
           (case lmemfind s i (l1 - i) pat of
              Some s2 \<Rightarrow> Inr [VNumber (cast_num (int s2 + 1)), VNumber (cast_num (int (s2 + length pat)))]
            | None \<Rightarrow> Inr [VNil])
         else
           seqR (rd pat 0) (\<lambda>c.
             let anchor = (c = CHR ''^'') in
             find_loop is_find (init_ms s) i pat (if anchor then 1 else 0) anchor))"

definition str_find :: "string \<Rightarrow> string \<Rightarrow> int option \<Rightarrow> bool \<Rightarrow> lval list result" where
  "str_find s pat init plain = str_find_aux True s pat init plain"

definition str_match :: "string \<Rightarrow> string \<Rightarrow> int option \<Rightarrow> bool \<Rightarrow> lval list result" where
  "str_match s pat init plain = str_find_aux False s pat init plain"

text \<open>The iterator of \<open>gmatch\<close>: the values it returns and the new third upvalue, \<open>None\<close> at the end.\<close>

function gmatch_loop :: "MatchState \<Rightarrow> nat \<Rightarrow> string \<Rightarrow> (lval list \<times> nat) option result" where
  "gmatch_loop ms src pat =
     (if src \<le> length (ms_src ms) then
        seqR (match (ms\<lparr>ms_level := 0\<rparr>) src pat 0) (\<lambda>(ms', res).
          case res of
            Some e \<Rightarrow>
              seqR (push_captures ms' True src e) (\<lambda>vs.
                Inr (Some (vs, if e = src then e + 1 else e)))
          | None \<Rightarrow> gmatch_loop ms' (src + 1) pat)
      else Inr None)"
  by pat_completeness auto
termination
  by (relation "measure (\<lambda>(ms, src, pat). length (ms_src ms) + 1 - src)") (auto dest: match_src)

declare gmatch_loop.simps [simp del]

definition gmatch_aux :: "string \<Rightarrow> string \<Rightarrow> nat \<Rightarrow> (lval list \<times> nat) option result" where
  "gmatch_aux s pat pos = gmatch_loop (init_ms s) pos pat"

end
