(* ===== verification/StrFormat.thy ===== *)
theory StrFormat
  imports StrLib
begin

text \<open>
  Substitution and formatting (\<open>str_gsub\<close> and \<open>str_format\<close> of \<open>lstrlib.c\<close>). The functions of
  the C library and the Lua function or table a caller passes are arguments: \<open>num2str\<close> is
  \<open>lua_number2str\<close>, \<open>sprintf\<close> the text of one conversion.
\<close>

section \<open>Substitution\<close>

datatype repl =
    RString string                               \<comment> \<open>a string, or a number as its string\<close>
  | RFunction "lval list \<Rightarrow> lval result"          \<comment> \<open>the call and its first result\<close>
  | RTable "lval \<Rightarrow> lval result"                  \<comment> \<open>\<open>lua_gettable\<close>\<close>
  | ROther nat

fun lua_tolstring :: "(lua_Number \<Rightarrow> string) \<Rightarrow> lval \<Rightarrow> string" where
  "lua_tolstring num2str (VString s) = s"
| "lua_tolstring num2str (VNumber n) = num2str n"
| "lua_tolstring num2str v = []"

fun add_s :: "(lua_Number \<Rightarrow> string) \<Rightarrow> MatchState \<Rightarrow> nat \<Rightarrow> nat \<Rightarrow> string \<Rightarrow> string result" where
  "add_s num2str ms s e [] = Inr []"
| "add_s num2str ms s e (c # cs) =
     (if c \<noteq> L_ESC then seqR (add_s num2str ms s e cs) (\<lambda>b. Inr (c # b))
      else
        (case cs of
           [] \<Rightarrow> Inr [CHR 0x00]
         | d # ds \<Rightarrow>
             if \<not> isdigit (uchar d) then seqR (add_s num2str ms s e ds) (\<lambda>b. Inr (d # b))
             else if d = CHR ''0'' then
               seqR (slice (ms_src ms) s (e - s)) (\<lambda>v.
               seqR (add_s num2str ms s e ds) (\<lambda>b. Inr (v @ b)))
             else
               seqR (push_onecapture ms (nat (uchar d - uchar CHR ''1'')) s e) (\<lambda>v.
               seqR (add_s num2str ms s e ds) (\<lambda>b. Inr (lua_tolstring num2str v @ b)))))"

definition replaced :: "(lua_Number \<Rightarrow> string) \<Rightarrow> MatchState \<Rightarrow> nat \<Rightarrow> nat \<Rightarrow> lval \<Rightarrow> string result" where
  "replaced num2str ms s e v =
     (if \<not> lua_toboolean v then slice (ms_src ms) s (e - s)
      else if \<not> lua_isstring v then
        Inl (RunError (''invalid replacement value (a '' @ luaT_typenames ! lua_type v @ '')''))
      else Inr (lua_tolstring num2str v))"

fun add_value :: "(lua_Number \<Rightarrow> string) \<Rightarrow> repl \<Rightarrow> MatchState \<Rightarrow> nat \<Rightarrow> nat \<Rightarrow> string result" where
  "add_value num2str (RString news) ms s e = add_s num2str ms s e news"
| "add_value num2str (RFunction f) ms s e =
     seqR (push_captures ms True s e) (\<lambda>vs. seqR (f vs) (\<lambda>v. replaced num2str ms s e v))"
| "add_value num2str (RTable t) ms s e =
     seqR (push_onecapture ms 0 s e) (\<lambda>k. seqR (t k) (\<lambda>v. replaced num2str ms s e v))"
| "add_value num2str (ROther t) ms s e = Inl Undefined"

text \<open>\<open>b\<close> is the buffer and \<open>n\<close> the number of substitutions so far.\<close>

function gsub_loop :: "(lua_Number \<Rightarrow> string) \<Rightarrow> repl \<Rightarrow> MatchState \<Rightarrow> nat \<Rightarrow> string \<Rightarrow> nat \<Rightarrow> int \<Rightarrow>
    bool \<Rightarrow> int \<Rightarrow> string \<Rightarrow> (string \<times> int) result" where
  "gsub_loop num2str r ms src pat p max_s anchor n b =
     (if n < max_s then
        seqR (match (ms\<lparr>ms_level := 0\<rparr>) src pat p) (\<lambda>(ms', res).
        seqR (case res of
                Some e \<Rightarrow> seqR (add_value num2str r ms' src e) (\<lambda>v. Inr (n + 1, b @ v))
              | None \<Rightarrow> Inr (n, b)) (\<lambda>(n', b').
          let e = (case res of Some e \<Rightarrow> e | None \<Rightarrow> 0) in
          if res \<noteq> None \<and> e > src then
            (if anchor then Inr (b' @ drop e (ms_src ms), n')
             else gsub_loop num2str r ms' e pat p max_s anchor n' b')
          else if src < length (ms_src ms) then
            (let b'' = b' @ [ms_src ms ! src] in
             if anchor then Inr (b'' @ drop (src + 1) (ms_src ms), n')
             else gsub_loop num2str r ms' (src + 1) pat p max_s anchor n' b'')
          else Inr (b' @ drop src (ms_src ms), n')))
      else Inr (b @ drop src (ms_src ms), n))"
  by pat_completeness auto
termination
  by (relation "measure (\<lambda>(num2str, r, ms, src, pat, p, max_s, anchor, n, b). length (ms_src ms) - src)")
    (auto dest: match_src match_shorter split: option.splits)

declare gsub_loop.simps [simp del]

definition str_gsub :: "(lua_Number \<Rightarrow> string) \<Rightarrow> (string \<times> string option) option \<Rightarrow> string \<Rightarrow> string \<Rightarrow>
    repl \<Rightarrow> int option \<Rightarrow> (string \<times> int) result" where
  "str_gsub num2str ar src pat r m =
     (let max_s = int_of (case m of None \<Rightarrow> int (length src) + 1 | Some m \<Rightarrow> m) in
      seqR (rd pat 0) (\<lambda>c.
        let anchor = (c = CHR ''^'') in
        case r of
          ROther t \<Rightarrow> luaL_argerror ar 3 ''string/function/table expected''
        | _ \<Rightarrow> gsub_loop num2str r (init_ms src) 0 pat (if anchor then 1 else 0) max_s anchor 0 []))"

section \<open>Quoted strings\<close>

fun addquoted_chars :: "string \<Rightarrow> string" where
  "addquoted_chars [] = []"
| "addquoted_chars (c # s) =
     (if c \<in> {CHR 0x22, CHR 0x5C, CHR 0x0A} then [CHR 0x5C, c]
      else if c = CHR 0x0D then [CHR 0x5C, CHR ''r'']
      else if c = CHR 0x00 then CHR 0x5C # ''000''
      else [c]) @ addquoted_chars s"

definition addquoted :: "string \<Rightarrow> string" where
  "addquoted s = CHR 0x22 # addquoted_chars s @ [CHR 0x22]"

section \<open>Formats\<close>

definition FLAGS :: string where "FLAGS = ''-+ #0''"
definition LUA_INTFRMLEN :: string where "LUA_INTFRMLEN = ''l''"
definition MAX_ITEM :: nat where "MAX_ITEM = 512"
definition MAX_FORMAT :: nat where
  "MAX_FORMAT = (length FLAGS + 1) + (length LUA_INTFRMLEN + 1) + 10"

definition skip_digit :: "string \<Rightarrow> nat \<Rightarrow> nat result" where
  "skip_digit fmt p = seqR (rd fmt p) (\<lambda>c. Inr (if isdigit (uchar c) then p + 1 else p))"

text \<open>
  The conversion specification at \<open>i\<close>, behind the percent sign: the place of its last
  character, and the specification as a string. It is copied to an array of \<open>MAX_FORMAT\<close>
  characters, terminator included.
\<close>

definition scanformat :: "string \<Rightarrow> nat \<Rightarrow> (nat \<times> string) result" where
  "scanformat fmt i =
     (let p = i + length (takeWhile (\<lambda>c. c \<noteq> CHR 0x00 \<and> c \<in> set FLAGS) (drop i fmt)) in
      if p - i \<ge> length FLAGS + 1 then Inl (RunError ''invalid format (repeated flags)'')
      else
        seqR (skip_digit fmt p) (\<lambda>p.
        seqR (skip_digit fmt p) (\<lambda>p.
        seqR (rd fmt p) (\<lambda>c.
        seqR (if c = CHR ''.'' then seqR (skip_digit fmt (p + 1)) (\<lambda>p. skip_digit fmt p) else Inr p) (\<lambda>p.
        seqR (rd fmt p) (\<lambda>c.
          if isdigit (uchar c) then Inl (RunError ''invalid format (width or precision too long)'')
          else if 1 + (p - i + 1) + 1 > MAX_FORMAT then Inl Undefined
          else Inr (p, CHR ''%'' # takeWhile (\<lambda>c. c \<noteq> CHR 0x00) (take (p - i + 1) (drop i fmt)))))))))"

definition addintlen :: "string \<Rightarrow> string result" where
  "addintlen form =
     (if form = [] \<or> length form + length LUA_INTFRMLEN + 1 > MAX_FORMAT then Inl Undefined
      else Inr (butlast form @ LUA_INTFRMLEN @ [last form]))"

text \<open>What \<open>sprintf\<close> is given, the value converted to the type of the conversion. C leaves the
  conversion of a number outside the range of the type undefined.\<close>

datatype sarg = SInt int | SLong int | SULong u64 | SDouble lua_Number | SString string

definition dbl_cast :: "int \<Rightarrow> int \<Rightarrow> lua_Number \<Rightarrow> int result" where
  "dbl_cast lo hi d =
     (let k = (if dbl_neg d then - int (dbl_trunc d) else int (dbl_trunc d)) in
      if dbl_exp d = 2047 \<or> k < lo \<or> hi < k then Inl Undefined else Inr k)"

record clib =
  cl_num2str :: "lua_Number \<Rightarrow> string"
  cl_str2number :: "string \<Rightarrow> lua_Number \<times> nat"
  cl_strtoul16 :: "string \<Rightarrow> lua_Number \<times> nat"
  cl_sprintf :: "string \<Rightarrow> sarg \<Rightarrow> string"

fun luaL_checknumber :: "clib \<Rightarrow> (string \<times> string option) option \<Rightarrow> nat \<Rightarrow> lval \<Rightarrow> lua_Number result" where
  "luaL_checknumber cl ar narg (VNumber n) = Inr n"
| "luaL_checknumber cl ar narg (VString s) =
     (case luaO_str2d (cl_str2number cl) (cl_strtoul16 cl) s of
        (True, n) \<Rightarrow> Inr n
      | (False, n) \<Rightarrow> luaL_typerror ar narg ''number'' (Some (VString s)))"
| "luaL_checknumber cl ar narg v = luaL_typerror ar narg ''number'' (Some v)"

definition luaL_checklstring :: "clib \<Rightarrow> (string \<times> string option) option \<Rightarrow> nat \<Rightarrow> lval \<Rightarrow> string result" where
  "luaL_checklstring cl ar narg v =
     (if lua_isstring v then Inr (lua_tolstring (cl_num2str cl) v)
      else luaL_typerror ar narg ''string'' (Some v))"

text \<open>The text of a conversion, in a buffer of \<open>MAX_ITEM\<close> characters, up to its first zero.\<close>

definition item :: "clib \<Rightarrow> string \<Rightarrow> sarg \<Rightarrow> string result" where
  "item cl form a =
     (let t = cl_sprintf cl form a in
      if length t + 1 > MAX_ITEM then Inl Undefined else Inr (takeWhile (\<lambda>c. c \<noteq> CHR 0x00) t))"

definition format_item :: "clib \<Rightarrow> (string \<times> string option) option \<Rightarrow> nat \<Rightarrow> lval \<Rightarrow> char \<Rightarrow> string \<Rightarrow> string result" where
  "format_item cl ar arg v c form =
     (if c = CHR ''c'' then
        seqR (luaL_checknumber cl ar arg v) (\<lambda>d.
        seqR (dbl_cast INT_MIN INT_MAX d) (\<lambda>i. item cl form (SInt i)))
      else if c \<in> set ''di'' then
        seqR (addintlen form) (\<lambda>form.
        seqR (luaL_checknumber cl ar arg v) (\<lambda>d.
        seqR (dbl_cast (- (2 ^ 63)) (2 ^ 63 - 1) d) (\<lambda>i. item cl form (SLong i))))
      else if c \<in> set ''ouxX'' then
        seqR (addintlen form) (\<lambda>form.
        seqR (luaL_checknumber cl ar arg v) (\<lambda>d.
        seqR (dbl_cast 0 (2 ^ 64 - 1) d) (\<lambda>i. item cl form (SULong (word_of_int i)))))
      else if c \<in> set ''eEfgG'' then
        seqR (luaL_checknumber cl ar arg v) (\<lambda>d. item cl form (SDouble d))
      else if c = CHR ''q'' then
        seqR (luaL_checklstring cl ar arg v) (\<lambda>s. Inr (addquoted s))
      else if c = CHR ''s'' then
        seqR (luaL_checklstring cl ar arg v) (\<lambda>s.
          if CHR ''.'' \<notin> set form \<and> length s \<ge> 100 then Inr s else item cl form (SString s))
      else
        Inl (RunError (''invalid option '' @ quoted (CHR ''%'' # (if c = CHR 0x00 then [] else [c])) @
          '' to '' @ quoted ''format'')))"

lemma skip_digit_ge: "skip_digit fmt p = Inr q \<Longrightarrow> p \<le> q \<and> q \<le> p + 1"
  by (auto simp: skip_digit_def split: if_splits)

lemma scanformat_ge: "scanformat fmt i = Inr (p, form) \<Longrightarrow> i \<le> p"
  by (auto simp: scanformat_def Let_def split: if_splits dest!: skip_digit_ge)

text \<open>\<open>arg\<close> is the index of the last argument used, of those from the second on.\<close>

function format_loop :: "clib \<Rightarrow> (string \<times> string option) option \<Rightarrow> string \<Rightarrow> nat \<Rightarrow> nat \<Rightarrow> lval list \<Rightarrow> string result" where
  "format_loop cl ar fmt i arg args =
     (if i < length fmt then
        (if fmt ! i \<noteq> L_ESC then seqR (format_loop cl ar fmt (i + 1) arg args) (\<lambda>b. Inr (fmt ! i # b))
         else
           seqR (rd fmt (i + 1)) (\<lambda>c.
             if c = L_ESC then seqR (format_loop cl ar fmt (i + 2) arg args) (\<lambda>b. Inr (c # b))
             else
               (case args of
                  [] \<Rightarrow> luaL_argerror ar (arg + 1) ''no value''
                | v # vs \<Rightarrow>
                    seqR (scanformat fmt (i + 1)) (\<lambda>(p, form).
                    seqR (rd fmt p) (\<lambda>c.
                    seqR (format_item cl ar (arg + 1) v c form) (\<lambda>t.
                    seqR (format_loop cl ar fmt (p + 1) (arg + 1) vs) (\<lambda>b. Inr (t @ b))))))))
      else Inr [])"
  by pat_completeness auto
termination
  by (relation "measure (\<lambda>(cl, ar, fmt, i, arg, args). length fmt - i)")
    (auto dest!: scanformat_ge)

declare format_loop.simps [simp del]

definition str_format :: "clib \<Rightarrow> (string \<times> string option) option \<Rightarrow> string \<Rightarrow> lval list \<Rightarrow> string result" where
  "str_format cl ar fmt args = format_loop cl ar fmt 0 1 args"

end
