(* ===== verification/StrSpec.thy ===== *)
theory StrSpec
  imports StrFormat
begin

text \<open>
  The searches of the string library against a reference search, substitution, and the
  bounds of the format buffers.
\<close>

section \<open>Plain search\<close>

definition occurs_at :: "string \<Rightarrow> string \<Rightarrow> nat \<Rightarrow> bool" where
  "occurs_at s pat i \<longleftrightarrow> take (length pat) (drop i s) = pat"

lemma occurs_at_Cons:
  assumes "i + length (c # cs) \<le> length s"
  shows "occurs_at s (c # cs) i \<longleftrightarrow> s ! i = c \<and> take (length cs) (drop (i + 1) s) = cs"
proof -
  have "drop i s = s ! i # drop (Suc i) s" using assms by (simp add: Cons_nth_drop_Suc)
  then show ?thesis by (simp add: occurs_at_def)
qed

lemma find_append: "find P (xs @ ys) = (case find P xs of Some x \<Rightarrow> Some x | None \<Rightarrow> find P ys)"
  by (induction xs) auto

lemma find_upt_skip:
  assumes "off \<le> i" "\<And>j. off \<le> j \<Longrightarrow> j < i \<Longrightarrow> \<not> P j"
  shows "find P [off..<n] = find P [i..<n]"
proof (cases "i \<le> n")
  case True
  then have "[off..<n] = [off..<i] @ [i..<n]" using assms(1) upt_add_eq_append [of off i "n - i"] by simp
  moreover have "find P [off..<i] = None" using assms(2) by (auto simp: find_None_iff)
  ultimately show ?thesis by (simp add: find_append)
next
  case False
  then have "find P [off..<n] = None" using assms by (auto simp: find_None_iff)
  then show ?thesis using False by simp
qed

lemma memchr_find: "memchr s off c n = find (\<lambda>i. s ! i = c) [off..<off + n]"
proof (induction n arbitrary: off)
  case 0
  then show ?case by (simp add: memchr.simps)
next
  case (Suc n)
  then show ?case by (subst memchr.simps) (simp add: upt_conv_Cons del: upt_Suc)
qed

lemma memfind_loop_find:
  assumes "off + l1 + length cs \<le> length s"
  shows "memfind_loop s (c # cs) off l1 (length cs) = find (occurs_at s (c # cs)) [off..<off + l1]"
  using assms
proof (induction l1 arbitrary: off rule: less_induct)
  case (less l1)
  show ?case
  proof (cases "memchr s off c l1")
    case None
    then have "\<forall>i. off \<le> i \<and> i < off + l1 \<longrightarrow> s ! i \<noteq> c"
      by (simp add: memchr_find find_None_iff)
    then have "find (occurs_at s (c # cs)) [off..<off + l1] = None"
      using less.prems by (auto simp: find_None_iff occurs_at_Cons)
    then show ?thesis using None by (subst memfind_loop.simps) simp
  next
    case (Some i)
    have i: "off \<le> i" "i < off + l1" using memchr_range [OF Some] by auto
    have "\<forall>j. off \<le> j \<and> j < i \<longrightarrow> s ! j \<noteq> c" "s ! i = c"
      using Some by (auto simp: memchr_find find_Some_iff nth_upt)
        (metis add_diff_inverse_nat add_less_cancel_left linorder_not_less)
    then have skip: "find (occurs_at s (c # cs)) [off..<off + l1] = find (occurs_at s (c # cs)) [i..<off + l1]"
      and at: "occurs_at s (c # cs) i \<longleftrightarrow> take (length cs) (drop (i + 1) s) = cs"
      using i less.prems by (auto intro!: find_upt_skip simp: occurs_at_Cons)
    have "memfind_loop s (c # cs) (i + 1) (l1 - (i + 1 - off)) (length cs)
        = find (occurs_at s (c # cs)) [i + 1..<off + l1]"
      using less.IH [of "l1 - (i + 1 - off)" "i + 1"] i less.prems by (simp add: add.commute [of l1 off])
    moreover have "find (occurs_at s (c # cs)) [i..<off + l1] =
        (if occurs_at s (c # cs) i then Some i else find (occurs_at s (c # cs)) [i + 1..<off + l1])"
      using i by (simp add: upt_conv_Cons)
    ultimately show ?thesis
      using i at Some unfolding skip by (subst memfind_loop.simps) (simp add: Let_def)
  qed
qed

lemma lmemfind_find:
  assumes "off \<le> length s"
  shows "lmemfind s off (length s - off) pat = find (occurs_at s pat) [off..<length s + 1]"
proof (cases pat)
  case Nil
  then show ?thesis using assms by (simp add: lmemfind_def occurs_at_def upt_conv_Cons del: upt_Suc)
next
  case (Cons c cs)
  have late: "\<not> occurs_at s pat j" if "length s < j + length pat" for j
  proof
    assume "occurs_at s pat j"
    then have "length (take (length pat) (drop j s)) = length pat" by (simp only: occurs_at_def)
    then show False using that Cons by simp
  qed
  show ?thesis
  proof (cases "length s - off < length pat")
    case True
    then have "find (occurs_at s pat) [off..<length s + 1] = None"
      using late by (auto simp: find_None_iff simp del: upt_Suc)
    then show ?thesis using True Cons by (simp add: lmemfind_def)
  next
    case False
    define n where "n = length s - off - length cs"
    have n: "off + n + length cs = length s" using False Cons assms by (simp add: n_def)
    have "find (occurs_at s pat) [off + n..<length s + 1] = None"
      using late n Cons by (auto simp: find_None_iff simp del: upt_Suc)
    moreover have "[off..<length s + 1] = [off..<off + n] @ [off + n..<length s + 1]"
      using n upt_add_eq_append [of off "off + n" "length cs + 1"] by simp
    ultimately have "find (occurs_at s pat) [off..<length s + 1] = find (occurs_at s pat) [off..<off + n]"
      by (simp add: find_append del: upt_Suc split: option.splits)
    moreover have "lmemfind s off (length s - off) pat = memfind_loop s (c # cs) off n (length cs)"
      using False Cons by (simp add: lmemfind_def n_def Let_def)
    ultimately show ?thesis
      using memfind_loop_find [of off n cs s c] n Cons by simp
  qed
qed

text \<open>The search through \<open>memchr\<close> and \<open>memcmp\<close> finds the first place, from the given offset on, at
  which the pattern occurs, as the plain search over all places does.\<close>

theorem lmemfind_first:
  assumes "off \<le> length s"
  shows "lmemfind s off (length s - off) pat = find (occurs_at s pat) [off..<length s + 1]"
  by (rule lmemfind_find [OF assms])

theorem lmemfind_first_witness:
  "lmemfind ''abcabd'' 1 5 ''ab'' = Some 3
   \<and> lmemfind ''abcabd'' 1 (length ''abcabd'' - 1) ''ab'' = find (occurs_at ''abcabd'' ''ab'') [1..<length ''abcabd'' + 1]"
  using lmemfind_first [of 1 "''abcabd''" "''ab''"] by (simp, code_simp)

section \<open>Patterns without magic\<close>

definition literal :: "string \<Rightarrow> bool" where
  "literal pat \<longleftrightarrow> (\<forall>c \<in> set pat. c \<notin> set SPECIALS \<and> c \<noteq> CHR '')'' \<and> c \<noteq> CHR 0x00)"

lemma literal_rd:
  assumes "literal pat" "q \<le> length pat"
  obtains c where "rd pat q = Inr c" "c \<notin> set SPECIALS" "c \<noteq> CHR '')''"
    "q < length pat \<Longrightarrow> c = pat ! q \<and> c \<noteq> CHR 0x00"
proof (cases "q < length pat")
  case True
  then have "pat ! q \<in> set pat" by simp
  then show ?thesis using that [of "pat ! q"] assms(1) True by (auto simp: literal_def rd_def)
next
  case False
  then show ?thesis using that [of "CHR 0x00"] assms(2) by (simp add: rd_def SPECIALS_def)
qed

lemma match_literal_step:
  assumes "literal pat" "p < length pat"
  shows "match ms s pat p =
    (if s < length (ms_src ms) \<and> ms_src ms ! s = pat ! p then match ms (s + 1) pat (p + 1)
     else Inr (ms, None))"
proof -
  obtain c where c: "rd pat p = Inr c" "c \<notin> set SPECIALS" "c \<noteq> CHR '')''" "c = pat ! p" "c \<noteq> CHR 0x00"
    using literal_rd [OF assms(1), of p] assms(2) by (metis less_imp_le)
  obtain d where d: "rd pat (p + 1) = Inr d" "d \<notin> set SPECIALS"
    using literal_rd [OF assms(1), of "p + 1"] assms(2) by (metis Suc_eq_plus1 Suc_leI)
  have "singlematch_at (ms_src ms) s pat p (p + 1) =
      Inr (s < length (ms_src ms) \<and> ms_src ms ! s = pat ! p)"
    using c by (auto simp: singlematch_at_def singlematch_def SPECIALS_def L_ESC_def)
  moreover have "classend pat p = Inr (p + 1)"
    using c by (simp add: classend_def SPECIALS_def L_ESC_def)
  ultimately show ?thesis
    using c d by (subst match.simps) (simp add: SPECIALS_def L_ESC_def)
qed

lemma occurs_step:
  assumes "p < length pat"
  shows "take (length pat - p) (drop s src) = drop p pat \<longleftrightarrow>
    s < length src \<and> src ! s = pat ! p \<and>
    take (length pat - (p + 1)) (drop (s + 1) src) = drop (p + 1) pat"
proof (cases "s < length src")
  case True
  obtain n where n: "length pat - p = Suc n" using assms by (cases "length pat - p") auto
  have "drop s src = src ! s # drop (Suc s) src" "drop p pat = pat ! p # drop (Suc p) pat"
    using True assms by (simp_all add: Cons_nth_drop_Suc)
  moreover have "length pat - Suc p = n" using n by simp
  ultimately show ?thesis using n True by simp
next
  case False
  then show ?thesis using assms by (simp add: drop_eq_Nil)
qed

lemma match_literal:
  assumes "literal pat" "p \<le> length pat"
  shows "match ms s pat p =
    Inr (ms, if take (length pat - p) (drop s (ms_src ms)) = drop p pat then Some (s + (length pat - p)) else None)"
  using assms(2)
proof (induction "length pat - p" arbitrary: s p)
  case 0
  then show ?case by (subst match.simps) (simp add: rd_def)
next
  case (Suc n)
  then have p: "p < length pat" and n: "n = length pat - (p + 1)" by auto
  have "match ms (s + 1) pat (p + 1) =
    Inr (ms, if take (length pat - (p + 1)) (drop (s + 1) (ms_src ms)) = drop (p + 1) pat
             then Some (s + 1 + (length pat - (p + 1))) else None)"
    by (rule Suc.hyps(1) [OF n]) (use p in simp)
  moreover have "s + 1 + (length pat - (p + 1)) = s + (length pat - p)" using p by simp
  ultimately show ?case
    unfolding match_literal_step [OF assms(1) p] occurs_step [OF p] using p by simp
qed

lemma find_loop_literal:
  assumes "literal pat" "s1 \<le> length (ms_src ms)"
  shows "find_loop True ms s1 pat 0 False =
    (case find (occurs_at (ms_src ms) pat) [s1..<length (ms_src ms) + 1] of
       Some k \<Rightarrow> Inr [VNumber (cast_num (int k + 1)), VNumber (cast_num (int (k + length pat)))]
     | None \<Rightarrow> Inr [VNil])"
  using assms(2)
proof (induction "length (ms_src ms) - s1" arbitrary: s1 ms)
  case 0
  then show ?case
    using match_literal [OF assms(1), of 0 "ms\<lparr>ms_level := 0\<rparr>" s1]
    by (subst find_loop.simps) (simp add: push_captures_def occurs_at_def)
next
  case (Suc n)
  then have s1: "s1 < length (ms_src ms)" and n: "n = length (ms_src ms) - (s1 + 1)" by auto
  show ?case
    using match_literal [OF assms(1), of 0 "ms\<lparr>ms_level := 0\<rparr>" s1] s1
      Suc.hyps(1) [of "ms\<lparr>ms_level := 0\<rparr>" "s1 + 1"] n
    by (subst find_loop.simps)
      (simp add: push_captures_def occurs_at_def upt_conv_Cons [of s1] del: upt_Suc)
qed

text \<open>C18: for a pattern without special characters the pattern matcher and the plain search
  that \<open>string.find\<close> uses in its place find the same match, for every source and offset. (A
  closing parenthesis is no special character for \<open>string.find\<close> but is one for the matcher.)\<close>

theorem literal_search:
  assumes "literal pat" "i \<le> length s"
  shows "find_loop True (init_ms s) i pat 0 False =
    (case lmemfind s i (length s - i) pat of
       Some k \<Rightarrow> Inr [VNumber (cast_num (int k + 1)), VNumber (cast_num (int (k + length pat)))]
     | None \<Rightarrow> Inr [VNil])"
  using find_loop_literal [OF assms(1), of i "init_ms s"] assms(2)
  by (simp add: lmemfind_find init_ms_def)

theorem literal_search_witness:
  "find_loop True (init_ms ''one two'') 0 '' tw'' 0 False =
     Inr [VNumber (cast_num 4), VNumber (cast_num 6)]"
proof -
  have "lmemfind ''one two'' 0 (length ''one two'' - 0) '' tw'' = Some 3" by code_simp
  then show ?thesis
    using literal_search [of "'' tw''" 0 "''one two''"] by (simp add: literal_def SPECIALS_def)
qed

section \<open>Substitution\<close>

lemma match_level0:
  assumes "length (ms_capture ms) = LUA_MAXCAPTURES" "s \<le> length (ms_src ms)" "p \<le> length pat"
  shows "run_error (match (ms\<lparr>ms_level := 0\<rparr>) s pat p)"
    and "match (ms\<lparr>ms_level := 0\<rparr>) s pat p = Inr (ms', x) \<Longrightarrow>
      ms_src ms' = ms_src ms \<and> length (ms_capture ms') = LUA_MAXCAPTURES \<and>
      (\<forall>e. x = Some e \<longrightarrow> s \<le> e \<and> e \<le> length (ms_src ms))"
proof -
  have "caps_ok (ms\<lparr>ms_level := 0\<rparr>) s" using assms by (simp add: caps_ok_def)
  then have *: "sound_at (ms\<lparr>ms_level := 0\<rparr>) s (match (ms\<lparr>ms_level := 0\<rparr>) s pat p)"
    by (rule match_sound_at [OF _ assms(3)])
  then show "run_error (match (ms\<lparr>ms_level := 0\<rparr>) s pat p)"
    by (simp add: sound_at_def)
  assume "match (ms\<lparr>ms_level := 0\<rparr>) s pat p = Inr (ms', x)"
  with * assms(1) show "ms_src ms' = ms_src ms \<and> length (ms_capture ms') = LUA_MAXCAPTURES \<and>
      (\<forall>e. x = Some e \<longrightarrow> s \<le> e \<and> e \<le> length (ms_src ms))"
    by (cases x) (auto simp: same_caps_def caps_ok_def)
qed

text \<open>What a call of \<open>gsub\<close> from \<open>src\<close> on gives when every replacement is the text it replaces.\<close>

definition keeps_text :: "MatchState \<Rightarrow> nat \<Rightarrow> int \<Rightarrow> string \<Rightarrow> (string \<times> int) result \<Rightarrow> bool" where
  "keeps_text ms src n b r \<longleftrightarrow> run_error r \<and>
     (\<forall>t n'. r = Inr (t, n') \<longrightarrow>
        t = b @ drop src (ms_src ms) \<and> n \<le> n' \<and> n' \<le> n + int (length (ms_src ms) - src) + 1)"

lemma keeps_text_step:
  assumes "keeps_text ms' src' n' b' r" "ms_src ms' = ms_src ms"
    and "b' @ drop src' (ms_src ms) = b @ drop src (ms_src ms)" "src < src'" "src' \<le> length (ms_src ms)"
    and "n \<le> n'" "n' \<le> n + 1"
  shows "keeps_text ms src n b r"
  using assms by (fastforce simp: keeps_text_def)

lemma gsub_loop_identity:
  assumes "length (ms_capture ms) = LUA_MAXCAPTURES" "src \<le> length (ms_src ms)" "p \<le> length pat"
  shows "keeps_text ms src n b (gsub_loop num2str (RString ''%0'') ms src pat p max_s anchor n b)"
  using assms(1,2)
proof (induction "length (ms_src ms) - src" arbitrary: ms src n b rule: less_induct)
  case less
  note level0 = match_level0 [OF less.prems assms(3)]
  show ?case
  proof (cases "n < max_s")
    case False
    then show ?thesis by (subst gsub_loop.simps) (simp add: keeps_text_def)
  next
    case True
    show ?thesis
    proof (cases "match (ms\<lparr>ms_level := 0\<rparr>) src pat p")
      case (Inl e)
      then show ?thesis using level0(1) True by (subst gsub_loop.simps) (simp add: keeps_text_def)
    next
      case (Inr y)
      obtain ms' x where y: "y = (ms', x)" by (cases y)
      have ms': "ms_src ms' = ms_src ms" "length (ms_capture ms') = LUA_MAXCAPTURES"
        "\<And>e. x = Some e \<Longrightarrow> src \<le> e \<and> e \<le> length (ms_src ms)"
        using level0(2) [of ms' x] Inr y by auto
      have IH: "keeps_text ms' src' n' b' (gsub_loop num2str (RString ''%0'') ms' src' pat p max_s anchor n' b')"
        if "src < src'" "src' \<le> length (ms_src ms)" for src' n' b'
        using that ms' less.prems by (intro less.hyps) auto
      have step: "keeps_text ms src n b (gsub_loop num2str (RString ''%0'') ms' src' pat p max_s anchor n' b')"
        if "src < src'" "src' \<le> length (ms_src ms)" "n \<le> n'" "n' \<le> n + 1"
          "b' = b @ take (src' - src) (drop src (ms_src ms))" for src' n' b'
        using IH [OF that(1,2)] ms'(1)
      proof (rule keeps_text_step [OF _ _ _ that(1,2,3,4)])
        show "b' @ drop src' (ms_src ms) = b @ drop src (ms_src ms)"
          using that(1,5) append_take_drop_id [of "src' - src" "drop src (ms_src ms)"] by simp
      qed
      have one: "take (Suc src - src) (drop src (ms_src ms)) = [ms_src ms ! src]" if "src < length (ms_src ms)"
        using that by (simp add: take_Suc_conv_app_nth)
      have rest: "take k (drop src (ms_src ms)) @ drop (src + k) (ms_src ms) = drop src (ms_src ms)" for k
        using append_take_drop_id [of k "drop src (ms_src ms)"] by (simp add: add.commute)
      have copy: "add_s num2str ms' src e ''%0'' = Inr (take (e - src) (drop src (ms_src ms)))" if "x = Some e" for e
        using ms'(3) [OF that] by (simp add: L_ESC_def isdigit_def uchar_def slice_def ms'(1))
      show ?thesis
      proof (cases "\<exists>e. x = Some e \<and> src < e")
        case True
        then obtain e where e: "x = Some e" "src < e" by blast
        then show ?thesis
          using Inr y \<open>n < max_s\<close> copy [OF e(1)] ms' step [of e "n + 1"] rest [of "e - src"]
          by (subst gsub_loop.simps) (auto simp: keeps_text_def)
      next
        case False
        define n1 where "n1 = (if x = None then n else n + 1)"
        have "n \<le> n1" "n1 \<le> n + 1" by (simp_all add: n1_def)
        then show ?thesis
          using Inr y \<open>n < max_s\<close> False ms'(1) step [of "src + 1" n1 "b @ [ms_src ms ! src]"] one rest [of 1] less.prems(2)
          by (subst gsub_loop.simps, cases x)
            (auto simp: copy n1_def keeps_text_def Let_def simp del: add_s.simps)
      qed
    qed
  qed
qed

text \<open>C19: replacing every match by itself (\<open>"%0"\<close>) gives back the source, whatever the pattern
  and the limit are: \<open>gsub\<close> drops and repeats no character around matches, empty matches and
  anchors. It ends, makes at most one substitution per position, and fails only with an error
  of the library.\<close>

theorem gsub_identity:
  "case str_gsub num2str ar s pat (RString ''%0'') m of
     Inl err \<Rightarrow> \<exists>msg. err = RunError msg
   | Inr (t, n) \<Rightarrow> t = s \<and> 0 \<le> n \<and> n \<le> int (length s) + 1"
proof -
  obtain c where c: "rd pat 0 = Inr c" using rd_in by blast
  then have "(if c = CHR ''^'' then 1 else 0) \<le> length pat"
    using rd_next [of pat 0] by auto
  from gsub_loop_identity [OF _ _ this, of "init_ms s" 0]
  have "keeps_text (init_ms s) 0 0 [] (str_gsub num2str ar s pat (RString ''%0'') m)"
    by (simp add: str_gsub_def c Let_def init_ms_def)
  then show ?thesis
    by (auto simp: keeps_text_def run_error_def init_ms_def split: sum.splits)
qed

lemma gsub_example:
  "str_gsub (\<lambda>n. []) None ''hello world'' ''o(.?)'' (RString ''<%1>'') None = Inr (''hell< >w<r>ld'', 2)"
  by code_simp

section \<open>Bytes and characters\<close>

lemma int_of_small: "0 \<le> k \<Longrightarrow> k < 2 ^ 31 \<Longrightarrow> int_of k = k"
  by (simp add: int_of_def int_word_sint)

lemma char_loop_bytes: "char_loop ar i (map uchar cs) = Inr cs"
  by (induction cs arbitrary: i) (simp_all add: uchar_range mod_pos_pos_trivial zle_diff1_eq [symmetric])

text \<open>\<open>string.char\<close> of the bytes that \<open>string.byte\<close> returns for an interval is the substring
  \<open>string.sub\<close> returns for it, for all positions, negative and out of range ones included.\<close>

theorem byte_char_sub:
  assumes "length s < 2 ^ 31"
  shows "seqR (str_byte s (Some i) (Some j)) (str_char ar) = str_sub s i (Some j)"
proof -
  define a where "a = (if posrelat i (length s) < 1 then 1 else posrelat i (length s))"
  define b where "b = (if posrelat j (length s) > int (length s) then int (length s) else posrelat j (length s))"
  have a: "1 \<le> a" "a = (if posrelat i (length s) \<le> 0 then 1 else posrelat i (length s))"
    by (auto simp: a_def)
  have b: "b \<le> int (length s)" by (simp add: b_def)
  have byte: "str_byte s (Some i) (Some j) =
     (if a > b then Inr []
      else let n = int_of (b - a + 1) in
        if a + n \<le> b then Inl (RunError ''string slice too long'')
        else seqR (slice s (nat (a - 1)) (nat n)) (\<lambda>cs. Inr (map uchar cs)))"
    by (simp add: str_byte_def Let_def a(2) b_def)
  have sub: "str_sub s i (Some j) = (if a \<le> b then slice s (nat (a - 1)) (nat (b - a + 1)) else Inr [])"
    by (simp add: str_sub_def Let_def a_def b_def)
  show ?thesis
  proof (cases "a \<le> b")
    case True
    have "int_of (b - a + 1) = b - a + 1"
      by (rule int_of_small) (use True a(1) b assms in auto)
    then show ?thesis
      using True by (simp add: byte sub Let_def slice_def str_char_def char_loop_bytes)
  qed (simp add: byte sub str_char_def)
qed

theorem byte_char_sub_witness:
  "seqR (str_byte ''lulu'' (Some (-3)) (Some 9)) (str_char None) = Inr ''ulu''"
proof -
  have "str_sub ''lulu'' (-3) (Some 9) = Inr ''ulu''" by code_simp
  then show ?thesis using byte_char_sub [of "''lulu''" "-3" 9 None] by simp
qed

section \<open>Format buffers\<close>

lemma skip_digit_in: "p \<le> length fmt \<Longrightarrow> \<exists>q. skip_digit fmt p = Inr q \<and> p \<le> q \<and> q \<le> p + 1 \<and> q \<le> length fmt"
  by (auto simp: skip_digit_def rd_def isdigit_def uchar_def)

text \<open>C20: \<open>scanformat\<close> accepts a specification only if it fits in the array of \<open>MAX_FORMAT\<close>
  characters, the length modifier that \<open>addintlen\<close> inserts and the terminator included; any
  other format is a library error, and neither writes outside the array.\<close>

theorem scanformat_fits:
  assumes "i \<le> length fmt"
  shows "case scanformat fmt i of
      Inl err \<Rightarrow> \<exists>msg. err = RunError msg
    | Inr (p, form) \<Rightarrow> i \<le> p \<and> p \<le> length fmt \<and> length form + 1 \<le> MAX_FORMAT \<and>
        (\<exists>form'. addintlen form = Inr form' \<and> length form' + 1 \<le> MAX_FORMAT)"
proof -
  define p where "p = i + length (takeWhile (\<lambda>c. c \<noteq> CHR 0x00 \<and> c \<in> set FLAGS) (drop i fmt))"
  have p: "i \<le> p" "p \<le> length fmt"
    using assms length_takeWhile_le [of "\<lambda>c. c \<noteq> CHR 0x00 \<and> c \<in> set FLAGS" "drop i fmt"]
    by (auto simp: p_def)
  show ?thesis
  proof (cases "p - i \<ge> length FLAGS + 1")
    case True
    then show ?thesis by (simp add: scanformat_def p_def [symmetric])
  next
    case False
    obtain q where q: "skip_digit fmt p = Inr q" "p \<le> q" "q \<le> p + 1" "q \<le> length fmt"
      using skip_digit_in [OF p(2)] by blast
    obtain r where r: "skip_digit fmt q = Inr r" "q \<le> r" "r \<le> q + 1" "r \<le> length fmt"
      using skip_digit_in [OF q(4)] by blast
    obtain c where c: "rd fmt r = Inr c" using rd_in [OF r(4)] by blast
    have "\<exists>t. (if c = CHR ''.'' then seqR (skip_digit fmt (r + 1)) (\<lambda>p. skip_digit fmt p) else Inr r) = Inr t
        \<and> r \<le> t \<and> t \<le> r + 3 \<and> t \<le> length fmt"
    proof (cases "c = CHR ''.''")
      case True
      then have "r + 1 \<le> length fmt" using rd_next [OF c] by simp
      then obtain u where u: "skip_digit fmt (r + 1) = Inr u" "r + 1 \<le> u" "u \<le> r + 2" "u \<le> length fmt"
        using skip_digit_in [of "r + 1"] by auto
      obtain v where "skip_digit fmt u = Inr v" "u \<le> v" "v \<le> u + 1" "v \<le> length fmt"
        using skip_digit_in [OF u(4)] by blast
      then show ?thesis using True u by simp
    qed (use r in simp)
    then obtain t where t: "(if c = CHR ''.'' then seqR (skip_digit fmt (r + 1)) (\<lambda>p. skip_digit fmt p) else Inr r) = Inr t"
      "r \<le> t" "t \<le> r + 3" "t \<le> length fmt" by blast
    obtain d where d: "rd fmt t = Inr d" using rd_in [OF t(4)] by blast
    have t10: "t - i \<le> 10" "i \<le> t" using False p q r t by (auto simp: FLAGS_def)
    define form where "form = CHR ''%'' # takeWhile (\<lambda>c. c \<noteq> CHR 0x00) (take (t - i + 1) (drop i fmt))"
    have "length form \<le> 12"
      using t10 length_takeWhile_le [of "\<lambda>c. c \<noteq> CHR 0x00" "take (t - i + 1) (drop i fmt)"]
      by (simp add: form_def)
    moreover have "scanformat fmt i =
        (if isdigit (uchar d) then Inl (RunError ''invalid format (width or precision too long)'')
         else Inr (t, form))"
      unfolding scanformat_def p_def [symmetric] Let_def
      using False q r c t(1) d t10 by (simp add: form_def MAX_FORMAT_def FLAGS_def LUA_INTFRMLEN_def)
    moreover have "form \<noteq> []" by (simp add: form_def)
    ultimately show ?thesis
      using t t10 by (simp add: addintlen_def MAX_FORMAT_def FLAGS_def LUA_INTFRMLEN_def)
  qed
qed

theorem scanformat_fits_witness:
  "case scanformat ''-+ #099.99d'' 0 of
      Inl err \<Rightarrow> \<exists>msg. err = RunError msg
    | Inr (p, form) \<Rightarrow> 0 \<le> p \<and> p \<le> length ''-+ #099.99d'' \<and> length form + 1 \<le> MAX_FORMAT \<and>
        (\<exists>form'. addintlen form = Inr form' \<and> length form' + 1 \<le> MAX_FORMAT)"
  by (rule scanformat_fits) simp

end
