(* ===== verification/Lexer.thy ===== *)
theory Lexer
  imports StrFormat Zio Mem
begin

text \<open>
  The lexical analyser (\<open>llex.c\<close>, \<open>llex.h\<close>) on a buffered stream. A string of the program is its
  bytes; the table that keeps it from the collector (\<open>luaX_newstring\<close>) is not modelled.
  Current characters are integers, \<open>EOZ\<close> at the end of the stream. The loops that consume the
  stream have fuel, since a reader may never end.
\<close>

section \<open>Tokens\<close>

datatype Token_Type =
    TOKEN_AND | TOKEN_BREAK | TOKEN_DO | TOKEN_ELSE | TOKEN_ELSEIF | TOKEN_END
  | TOKEN_FALSE | TOKEN_FOR | TOKEN_FUNCTION | TOKEN_IF | TOKEN_IN | TOKEN_LOCAL
  | TOKEN_NIL | TOKEN_NOT | TOKEN_OR | TOKEN_REPEAT | TOKEN_RETURN | TOKEN_THEN
  | TOKEN_TRUE | TOKEN_UNTIL | TOKEN_WHILE
  | TOKEN_LEFT_PAREN | TOKEN_RIGHT_PAREN | TOKEN_LEFT_CURLY | TOKEN_RIGHT_CURLY
  | TOKEN_LEFT_BRACKET | TOKEN_RIGHT_BRACKET
  | TOKEN_COMMA | TOKEN_COLON | TOKEN_SEMI | TOKEN_DOT | TOKEN_CONCAT | TOKEN_VARARG | TOKEN_ASSIGN
  | TOKEN_ADD | TOKEN_SUB | TOKEN_MUL | TOKEN_DIV | TOKEN_MOD | TOKEN_LEN | TOKEN_POW
  | TOKEN_EQ | TOKEN_NEQ | TOKEN_LT | TOKEN_LEQ | TOKEN_GT | TOKEN_GEQ
  | TOKEN_NUMBER | TOKEN_STRING | TOKEN_NAME | TOKEN_ERROR | TOKEN_EOS

definition token_types :: "Token_Type list" where
  "token_types =
     [TOKEN_AND, TOKEN_BREAK, TOKEN_DO, TOKEN_ELSE, TOKEN_ELSEIF, TOKEN_END,
      TOKEN_FALSE, TOKEN_FOR, TOKEN_FUNCTION, TOKEN_IF, TOKEN_IN, TOKEN_LOCAL,
      TOKEN_NIL, TOKEN_NOT, TOKEN_OR, TOKEN_REPEAT, TOKEN_RETURN, TOKEN_THEN,
      TOKEN_TRUE, TOKEN_UNTIL, TOKEN_WHILE,
      TOKEN_LEFT_PAREN, TOKEN_RIGHT_PAREN, TOKEN_LEFT_CURLY, TOKEN_RIGHT_CURLY,
      TOKEN_LEFT_BRACKET, TOKEN_RIGHT_BRACKET,
      TOKEN_COMMA, TOKEN_COLON, TOKEN_SEMI, TOKEN_DOT, TOKEN_CONCAT, TOKEN_VARARG, TOKEN_ASSIGN,
      TOKEN_ADD, TOKEN_SUB, TOKEN_MUL, TOKEN_DIV, TOKEN_MOD, TOKEN_LEN, TOKEN_POW,
      TOKEN_EQ, TOKEN_NEQ, TOKEN_LT, TOKEN_LEQ, TOKEN_GT, TOKEN_GEQ,
      TOKEN_NUMBER, TOKEN_STRING, TOKEN_NAME, TOKEN_ERROR, TOKEN_EOS]"

definition luaX_tokens :: "string list" where
  "luaX_tokens =
     [''and'', ''break'', ''do'', ''else'', ''elseif'', ''end'',
      ''false'', ''for'', ''function'', ''if'', ''in'', ''local'',
      ''nil'', ''not'', ''or'', ''repeat'', ''return'', ''then'',
      ''true'', ''until'', ''while'',
      ''('', '')'', ''{'', ''}'', ''['', '']'',
      '','', '':'', '';'', ''.'', ''..'', ''...'', ''='',
      ''+'', ''-'', ''*'', ''/'', ''%'', ''#'', ''^'',
      ''=='', ''~='', ''<'', ''<='', ''>'', ''>='',
      ''<number>'', ''<string>'', ''<name>'', ''<error>'', ''<eof>'']"

definition NUM_RESERVED :: nat where "NUM_RESERVED = 21"

fun index_of :: "'a list \<Rightarrow> 'a \<Rightarrow> nat" where
  "index_of [] x = 0"
| "index_of (y # ys) x = (if y = x then 0 else index_of ys x + 1)"

definition token_num :: "Token_Type \<Rightarrow> nat" where "token_num t = index_of token_types t"

text \<open>The field \<open>reserved\<close> of a string, which \<open>luaX_init\<close> sets: one more than the number of the
  word, zero for a string that is no reserved word.\<close>

definition reserved :: "string \<Rightarrow> nat" where
  "reserved s = (let i = index_of (take NUM_RESERVED luaX_tokens) s in
     if i < NUM_RESERVED then i + 1 else 0)"

datatype SemInfo = NoSem | SemNumber lua_Number | SemString string

record Token =
  tk_type :: Token_Type
  tk_seminfo :: SemInfo

record 'd LexState =
  lx_character :: int
  lx_errchar :: int
  lx_linenumber :: int
  lx_lastline :: int
  lx_current :: Token
  lx_lookahead :: Token
  lx_z :: "'d ZIO"
  lx_buff :: Mbuffer
  lx_source :: string
  lx_decpoint :: char

text \<open>What the lexer uses of its surroundings: the reader of the stream, the C library and the
  decimal point of the locale (\<open>localeconv\<close>).\<close>

record 'd lexenv =
  le_reader :: "'d reader"
  le_clib :: clib
  le_point :: "char option"

section \<open>Characters and the buffer\<close>

definition lex_next :: "'d lexenv \<Rightarrow> 'd LexState \<Rightarrow> 'd LexState result" where
  "lex_next E ls =
     seqR (zgetc (le_reader E) (lx_z ls)) (\<lambda>(z, c). Inr (ls\<lparr>lx_z := z, lx_character := c\<rparr>))"

definition currIsNewline :: "'d LexState \<Rightarrow> bool" where
  "currIsNewline ls \<longleftrightarrow> lx_character ls = 10 \<or> lx_character ls = 13"

definition number_text :: "'d lexenv \<Rightarrow> int \<Rightarrow> string" where
  "number_text E i = cl_num2str (le_clib E) (cast_num i)"

definition luaX_token2str :: "'d lexenv \<Rightarrow> 'd LexState \<Rightarrow> Token_Type \<Rightarrow> string" where
  "luaX_token2str E ls t =
     (if t = TOKEN_ERROR \<and> lx_errchar ls \<noteq> -1 then
        (if iscntrl (lx_errchar ls) then ''char('' @ number_text E (lx_errchar ls) @ '')''
         else [char_of_int (lx_errchar ls)])
      else luaX_tokens ! token_num t)"

text \<open>The message of a syntax error, with what it is near, if anything.\<close>

definition lexerror_text :: "'d lexenv \<Rightarrow> 'd LexState \<Rightarrow> string \<Rightarrow> string option \<Rightarrow> lua_error" where
  "lexerror_text E ls msg near =
     (let msg = luaO_chunkid (lx_source ls) 80 @ '':'' @ number_text E (lx_linenumber ls) @ '': '' @ msg in
      SyntaxError (case near of None \<Rightarrow> msg | Some t \<Rightarrow> msg @ '' near '' @ quoted t))"

definition save :: "'d lexenv \<Rightarrow> int \<Rightarrow> 'd LexState \<Rightarrow> 'd LexState result" where
  "save E c ls =
     (let b = lx_buff ls in
      seqR (if mb_n b + 1 > mb_size b then
              (if int (mb_size b) \<ge> MAX_SIZET div 2 then
                 Inl (lexerror_text E ls ''lexical element too long''
                   (if lx_errchar ls \<noteq> -1 then Some (luaX_token2str E ls TOKEN_ERROR) else None))
               else Inr (luaZ_resizebuffer b (mb_size b * 2)))
            else Inr b) (\<lambda>b.
      if mb_n b < mb_size b then
        Inr (ls\<lparr>lx_buff := b\<lparr>mb_buffer := (mb_buffer b)[mb_n b := word_of_int c], mb_n := mb_n b + 1\<rparr>\<rparr>)
      else Inl Undefined))"

definition save_and_next :: "'d lexenv \<Rightarrow> 'd LexState \<Rightarrow> 'd LexState result" where
  "save_and_next E ls = seqR (save E (lx_character ls) ls) (lex_next E)"

definition luaZ_resetbuffer :: "'d LexState \<Rightarrow> 'd LexState" where
  "luaZ_resetbuffer ls = ls\<lparr>lx_buff := (lx_buff ls)\<lparr>mb_n := 0\<rparr>\<rparr>"

text \<open>The bytes of the buffer as characters, and as a C string.\<close>

definition buff_text :: "'d LexState \<Rightarrow> string" where
  "buff_text ls = map (\<lambda>b. char_of_int (uint b)) (take (mb_n (lx_buff ls)) (mb_buffer (lx_buff ls)))"

definition buff_cstring :: "'d LexState \<Rightarrow> string" where
  "buff_cstring ls = takeWhile (\<lambda>c. c \<noteq> CHR 0x00) (buff_text ls)"

section \<open>Errors\<close>

definition txtToken :: "'d lexenv \<Rightarrow> 'd LexState \<Rightarrow> Token_Type \<Rightarrow> string result" where
  "txtToken E ls t =
     (if t \<in> {TOKEN_NAME, TOKEN_STRING, TOKEN_NUMBER}
      then seqR (save E 0 ls) (\<lambda>ls. Inr (buff_cstring ls))
      else Inr (luaX_token2str E ls t))"

definition luaX_lexerror :: "'d lexenv \<Rightarrow> 'd LexState \<Rightarrow> string \<Rightarrow> Token_Type \<Rightarrow> 'a result" where
  "luaX_lexerror E ls msg t =
     (if t \<noteq> TOKEN_ERROR \<or> lx_errchar ls \<noteq> -1
      then seqR (txtToken E ls t) (\<lambda>near. Inl (lexerror_text E ls msg (Some near)))
      else Inl (lexerror_text E ls msg None))"

definition luaX_syntaxerror :: "'d lexenv \<Rightarrow> 'd LexState \<Rightarrow> string \<Rightarrow> 'a result" where
  "luaX_syntaxerror E ls msg = luaX_lexerror E ls msg (tk_type (lx_current ls))"

section \<open>Lines and input\<close>

definition inclinenumber :: "'d lexenv \<Rightarrow> 'd LexState \<Rightarrow> 'd LexState result" where
  "inclinenumber E ls =
     (let old = lx_character ls in
      seqR (lex_next E ls) (\<lambda>ls.
      seqR (if currIsNewline ls \<and> lx_character ls \<noteq> old then lex_next E ls else Inr ls) (\<lambda>ls.
        let ls = ls\<lparr>lx_linenumber := lx_linenumber ls + 1\<rparr> in
        if lx_linenumber ls \<ge> MAX_INT then luaX_syntaxerror E ls ''chunk has too many lines''
        else Inr ls)))"

text \<open>The buffer is the caller's.\<close>

definition luaX_setinput :: "'d lexenv \<Rightarrow> 'd ZIO \<Rightarrow> Mbuffer \<Rightarrow> string \<Rightarrow> 'd LexState result" where
  "luaX_setinput E z buff source =
     lex_next E
       \<lparr>lx_character = 0, lx_errchar = -1, lx_linenumber = 1, lx_lastline = 1,
        lx_current = \<lparr>tk_type = TOKEN_EOS, tk_seminfo = NoSem\<rparr>,
        lx_lookahead = \<lparr>tk_type = TOKEN_EOS, tk_seminfo = NoSem\<rparr>,
        lx_z = z, lx_buff = luaZ_resizebuffer buff LUA_MINBUFFER, lx_source = source,
        lx_decpoint = CHR ''.''\<rparr>"

text \<open>\<open>strchr\<close> also finds the terminator of the set, so a zero byte is in every set.\<close>

definition check_next :: "'d lexenv \<Rightarrow> string \<Rightarrow> 'd LexState \<Rightarrow> ('d LexState \<times> bool) result" where
  "check_next E set' ls =
     (if char_of_int (lx_character ls) \<notin> set set' \<union> {CHR 0x00} then Inr (ls, False)
      else seqR (save_and_next E ls) (\<lambda>ls. Inr (ls, True)))"

section \<open>Numerals\<close>

definition buffreplace :: "char \<Rightarrow> char \<Rightarrow> 'd LexState \<Rightarrow> 'd LexState" where
  "buffreplace c d ls =
     (let b = lx_buff ls; r = (\<lambda>x. if x = word_of_int (uchar c) then word_of_int (uchar d) else x) in
      ls\<lparr>lx_buff := b\<lparr>mb_buffer := map r (take (mb_n b) (mb_buffer b)) @ drop (mb_n b) (mb_buffer b)\<rparr>\<rparr>)"

definition str2d :: "'d lexenv \<Rightarrow> 'd LexState \<Rightarrow> bool \<times> lua_Number" where
  "str2d E ls = luaO_str2d (cl_str2number (le_clib E)) (cl_strtoul16 (le_clib E)) (buff_cstring ls)"

definition trydecpoint :: "'d lexenv \<Rightarrow> 'd LexState \<Rightarrow> ('d LexState \<times> SemInfo) result" where
  "trydecpoint E ls =
     (let old = lx_decpoint ls;
          ls = ls\<lparr>lx_decpoint := (case le_point E of Some c \<Rightarrow> c | None \<Rightarrow> CHR ''.'')\<rparr>;
          ls = buffreplace old (lx_decpoint ls) ls
      in case str2d E ls of
           (True, r) \<Rightarrow> Inr (ls, SemNumber r)
         | (False, r) \<Rightarrow>
             luaX_lexerror E (buffreplace (lx_decpoint ls) (CHR ''.'') ls) ''malformed number'' TOKEN_NUMBER)"

primrec numeral_digits :: "'d lexenv \<Rightarrow> nat \<Rightarrow> 'd LexState \<Rightarrow> 'd LexState result" where
  "numeral_digits E 0 ls = Inl OutOfFuel"
| "numeral_digits E (Suc f) ls =
     seqR (save_and_next E ls) (\<lambda>ls.
       if isdigit (lx_character ls) \<or> lx_character ls = uchar CHR ''.''
       then numeral_digits E f ls else Inr ls)"

primrec save_alnum :: "'d lexenv \<Rightarrow> nat \<Rightarrow> 'd LexState \<Rightarrow> 'd LexState result" where
  "save_alnum E 0 ls = Inl OutOfFuel"
| "save_alnum E (Suc f) ls =
     (if isalnum (lx_character ls) \<or> lx_character ls = uchar CHR ''_''
      then seqR (save_and_next E ls) (save_alnum E f) else Inr ls)"

definition read_numeral :: "'d lexenv \<Rightarrow> nat \<Rightarrow> 'd LexState \<Rightarrow> ('d LexState \<times> SemInfo) result" where
  "read_numeral E f ls =
     seqR (numeral_digits E f ls) (\<lambda>ls.
     seqR (check_next E ''Ee'' ls) (\<lambda>(ls, b).
     seqR (if b then check_next E ''+-'' ls else Inr (ls, b)) (\<lambda>(ls, b).
     seqR (save_alnum E f ls) (\<lambda>ls.
     seqR (save E 0 ls) (\<lambda>ls.
       let ls = buffreplace (CHR ''.'') (lx_decpoint ls) ls in
       case str2d E ls of
         (True, r) \<Rightarrow> Inr (ls, SemNumber r)
       | (False, r) \<Rightarrow> trydecpoint E ls)))))"

section \<open>Strings\<close>

primrec skip_equals :: "'d lexenv \<Rightarrow> nat \<Rightarrow> int \<Rightarrow> 'd LexState \<Rightarrow> ('d LexState \<times> int) result" where
  "skip_equals E 0 count ls = Inl OutOfFuel"
| "skip_equals E (Suc f) count ls =
     (if lx_character ls = uchar CHR ''=''
      then seqR (save_and_next E ls) (skip_equals E f (count + 1))
      else Inr (ls, count))"

definition skip_sep :: "'d lexenv \<Rightarrow> nat \<Rightarrow> 'd LexState \<Rightarrow> ('d LexState \<times> int) result" where
  "skip_sep E f ls =
     (let s = lx_character ls in
      seqR (save_and_next E ls) (\<lambda>ls.
      seqR (skip_equals E f 0 ls) (\<lambda>(ls, count).
        Inr (ls, if lx_character ls = s then count else - count - 1))))"

text \<open>\<open>sem\<close> is whether the token has a semantic value, that is whether this is a string and not a
  comment. \<open>LUA_COMPAT_LSTR\<close> is undefined (\<open>luaconf.h\<close>), so there is no nesting.\<close>

primrec long_loop :: "'d lexenv \<Rightarrow> nat \<Rightarrow> bool \<Rightarrow> int \<Rightarrow> 'd LexState \<Rightarrow> 'd LexState result" where
  "long_loop E 0 sem sep ls = Inl OutOfFuel"
| "long_loop E (Suc f) sem sep ls =
     (if lx_character ls = EOZ then
        luaX_lexerror E ls (if sem then ''unfinished long string'' else ''unfinished long comment'') TOKEN_EOS
      else if lx_character ls = uchar CHR '']'' then
        seqR (skip_sep E f ls) (\<lambda>(ls, n).
          if n = sep then save_and_next E ls else long_loop E f sem sep ls)
      else if currIsNewline ls then
        seqR (save E 10 ls) (\<lambda>ls.
        seqR (inclinenumber E ls) (\<lambda>ls.
          long_loop E f sem sep (if \<not> sem then luaZ_resetbuffer ls else ls)))
      else seqR (if sem then save_and_next E ls else lex_next E ls) (long_loop E f sem sep))"

definition read_long_string :: "'d lexenv \<Rightarrow> nat \<Rightarrow> bool \<Rightarrow> int \<Rightarrow> 'd LexState \<Rightarrow> ('d LexState \<times> SemInfo) result" where
  "read_long_string E f sem sep ls =
     seqR (save_and_next E ls) (\<lambda>ls.
     seqR (if currIsNewline ls then inclinenumber E ls else Inr ls) (\<lambda>ls.
     seqR (long_loop E f sem sep ls) (\<lambda>ls.
       if sem then
         (let n = nat (2 + sep) in
          if mb_n (lx_buff ls) < 2 * n then Inl Undefined
          else Inr (ls, SemString (take (mb_n (lx_buff ls) - 2 * n) (drop n (buff_text ls)))))
       else Inr (ls, NoSem))))"

text \<open>Up to three digits of a decimal escape, and its value.\<close>

primrec escape_digits :: "'d lexenv \<Rightarrow> nat \<Rightarrow> int \<Rightarrow> 'd LexState \<Rightarrow> ('d LexState \<times> int) result" where
  "escape_digits E 0 c ls = Inr (ls, c)"
| "escape_digits E (Suc k) c ls =
     (let c = 10 * c + (lx_character ls - uchar CHR ''0'') in
      seqR (lex_next E ls) (\<lambda>ls.
        if isdigit (lx_character ls) then escape_digits E k c ls else Inr (ls, c)))"

text \<open>The simple escapes with the characters they stand for.\<close>

definition escapes :: "(int \<times> int) list" where
  "escapes = [(97, 7), (98, 8), (102, 12), (110, 10), (114, 13), (116, 9), (118, 11)]"

text \<open>A turn of the loop on a backslash.\<close>

definition read_escape :: "'d lexenv \<Rightarrow> 'd LexState \<Rightarrow> 'd LexState result" where
  "read_escape E ls =
     seqR (lex_next E ls) (\<lambda>ls.
       case map_of escapes (lx_character ls) of
         Some c \<Rightarrow> seqR (save E c ls) (lex_next E)
       | None \<Rightarrow>
           if currIsNewline ls then seqR (save E 10 ls) (inclinenumber E)
           else if lx_character ls = EOZ then Inr ls
           else if \<not> isdigit (lx_character ls) then save_and_next E ls
           else
             seqR (escape_digits E 3 0 ls) (\<lambda>(ls, c).
               if c > 255 then luaX_lexerror E ls ''escape sequence too large'' TOKEN_STRING
               else save E c ls))"

primrec string_loop :: "'d lexenv \<Rightarrow> nat \<Rightarrow> int \<Rightarrow> 'd LexState \<Rightarrow> 'd LexState result" where
  "string_loop E 0 del ls = Inl OutOfFuel"
| "string_loop E (Suc f) del ls =
     (if lx_character ls = del then Inr ls
      else if lx_character ls = EOZ then luaX_lexerror E ls ''unfinished string'' TOKEN_EOS
      else if currIsNewline ls then luaX_lexerror E ls ''unfinished string'' TOKEN_STRING
      else seqR (if lx_character ls = 92 then read_escape E ls else save_and_next E ls)
        (string_loop E f del))"

definition read_string :: "'d lexenv \<Rightarrow> nat \<Rightarrow> int \<Rightarrow> 'd LexState \<Rightarrow> ('d LexState \<times> SemInfo) result" where
  "read_string E f del ls =
     seqR (save_and_next E ls) (\<lambda>ls.
     seqR (string_loop E f del ls) (\<lambda>ls.
     seqR (save_and_next E ls) (\<lambda>ls.
       if mb_n (lx_buff ls) < 2 then Inl Undefined
       else Inr (ls, SemString (take (mb_n (lx_buff ls) - 2) (drop 1 (buff_text ls)))))))"

section \<open>The scanner\<close>

definition set_error :: "int \<Rightarrow> 'd LexState \<Rightarrow> 'd LexState \<times> Token_Type" where
  "set_error ch ls = (ls\<lparr>lx_errchar := ch\<rparr>, TOKEN_ERROR)"

definition single_tokens :: "(char \<times> Token_Type) list" where
  "single_tokens =
     [(CHR ''('', TOKEN_LEFT_PAREN), (CHR '')'', TOKEN_RIGHT_PAREN), (CHR ''{'', TOKEN_LEFT_CURLY),
      (CHR ''}'', TOKEN_RIGHT_CURLY), (CHR '']'', TOKEN_RIGHT_BRACKET),
      (CHR '','', TOKEN_COMMA), (CHR '':'', TOKEN_COLON), (CHR '';'', TOKEN_SEMI),
      (CHR ''+'', TOKEN_ADD), (CHR ''*'', TOKEN_MUL), (CHR ''/'', TOKEN_DIV), (CHR ''%'', TOKEN_MOD),
      (CHR ''#'', TOKEN_LEN), (CHR ''^'', TOKEN_POW)]"

definition single_char :: "'d LexState \<Rightarrow> 'd LexState \<times> Token_Type" where
  "single_char ls =
     (case map_of single_tokens (char_of_int (lx_character ls)) of
        Some t \<Rightarrow> (ls, t) | None \<Rightarrow> set_error (lx_character ls) ls)"

text \<open>A token that continues with an equals sign, and the one that does not.\<close>

definition with_equals :: "'d lexenv \<Rightarrow> Token_Type \<Rightarrow> Token_Type \<Rightarrow> 'd LexState \<Rightarrow> ('d LexState \<times> Token_Type) result" where
  "with_equals E t1 t2 ls =
     seqR (lex_next E ls) (\<lambda>ls.
       if lx_character ls \<noteq> uchar CHR ''='' then Inr (ls, t1)
       else seqR (lex_next E ls) (\<lambda>ls. Inr (ls, t2)))"

primrec short_comment :: "'d lexenv \<Rightarrow> nat \<Rightarrow> 'd LexState \<Rightarrow> 'd LexState result" where
  "short_comment E 0 ls = Inl OutOfFuel"
| "short_comment E (Suc f) ls =
     (if \<not> currIsNewline ls \<and> lx_character ls \<noteq> EOZ
      then seqR (lex_next E ls) (short_comment E f) else Inr ls)"

text \<open>A comment behind its two dashes.\<close>

definition skip_comment :: "'d lexenv \<Rightarrow> nat \<Rightarrow> 'd LexState \<Rightarrow> 'd LexState result" where
  "skip_comment E f ls =
     (if lx_character ls = uchar CHR ''['' then
        seqR (skip_sep E f ls) (\<lambda>(ls, sep).
          let ls = luaZ_resetbuffer ls in
          if sep \<ge> 0 then
            seqR (read_long_string E f False sep ls) (\<lambda>(ls, _). Inr (luaZ_resetbuffer ls))
          else short_comment E f ls)
      else short_comment E f ls)"

definition read_dots :: "'d lexenv \<Rightarrow> nat \<Rightarrow> SemInfo \<Rightarrow> 'd LexState \<Rightarrow> ('d LexState \<times> Token_Type \<times> SemInfo) result" where
  "read_dots E f sem ls =
     seqR (save_and_next E ls) (\<lambda>ls.
     seqR (check_next E ''.'' ls) (\<lambda>(ls, b).
       if b then
         seqR (check_next E ''.'' ls) (\<lambda>(ls, b). Inr (ls, if b then TOKEN_VARARG else TOKEN_CONCAT, sem))
       else if \<not> isdigit (lx_character ls) then Inr (ls, TOKEN_DOT, sem)
       else seqR (read_numeral E f ls) (\<lambda>(ls, v). Inr (ls, TOKEN_NUMBER, v))))"

definition read_name :: "'d lexenv \<Rightarrow> nat \<Rightarrow> SemInfo \<Rightarrow> 'd LexState \<Rightarrow> ('d LexState \<times> Token_Type \<times> SemInfo) result" where
  "read_name E f sem ls =
     seqR (save_alnum E f ls) (\<lambda>ls.
       let ts = buff_text ls in
       if reserved ts > 0 then Inr (ls, token_types ! (reserved ts - 1), sem)
       else Inr (ls, TOKEN_NAME, SemString ts))"

text \<open>The default branch of the switch, for any other character.\<close>

definition other_token :: "'d lexenv \<Rightarrow> nat \<Rightarrow> SemInfo \<Rightarrow> 'd LexState \<Rightarrow> ('d LexState \<times> Token_Type \<times> SemInfo) result" where
  "other_token E f sem ls =
     (if isdigit (lx_character ls) then
        seqR (read_numeral E f ls) (\<lambda>(ls, v). Inr (ls, TOKEN_NUMBER, v))
      else if isalpha (lx_character ls) \<or> lx_character ls = uchar CHR ''_'' then read_name E f sem ls
      else case single_char ls of (ls, t) \<Rightarrow> seqR (lex_next E ls) (\<lambda>ls. Inr (ls, t, sem)))"

text \<open>\<open>sem\<close> is what the semantic value was before the call; tokens without one keep it.\<close>

primrec llex_loop :: "'d lexenv \<Rightarrow> nat \<Rightarrow> SemInfo \<Rightarrow> 'd LexState \<Rightarrow> ('d LexState \<times> Token_Type \<times> SemInfo) result" where
  "llex_loop E 0 sem ls = Inl OutOfFuel"
| "llex_loop E (Suc f) sem ls =
     (let c = lx_character ls;
          plain = (\<lambda>(ls, t). Inr (ls, t, sem))
      in if currIsNewline ls then seqR (inclinenumber E ls) (llex_loop E f sem)
         else if c = uchar CHR ''-'' then
           seqR (lex_next E ls) (\<lambda>ls.
             if lx_character ls \<noteq> uchar CHR ''-'' then Inr (ls, TOKEN_SUB, sem)
             else seqR (lex_next E ls) (\<lambda>ls. seqR (skip_comment E f ls) (llex_loop E f sem)))
         else if c = uchar CHR ''['' then
           seqR (skip_sep E f ls) (\<lambda>(ls, sep).
             if sep \<ge> 0 then
               seqR (read_long_string E f True sep ls) (\<lambda>(ls, v). Inr (ls, TOKEN_STRING, v))
             else if sep = -1 then Inr (ls, TOKEN_LEFT_BRACKET, sem)
             else luaX_lexerror E ls ''invalid long string delimiter'' TOKEN_STRING)
         else if c = uchar CHR ''='' then seqR (with_equals E TOKEN_ASSIGN TOKEN_EQ ls) plain
         else if c = uchar CHR ''<'' then seqR (with_equals E TOKEN_LT TOKEN_LEQ ls) plain
         else if c = uchar CHR ''>'' then seqR (with_equals E TOKEN_GT TOKEN_GEQ ls) plain
         else if c = uchar CHR ''~'' then
           seqR (lex_next E ls) (\<lambda>ls.
             if lx_character ls \<noteq> uchar CHR ''='' then plain (set_error (uchar CHR ''~'') ls)
             else seqR (lex_next E ls) (\<lambda>ls. Inr (ls, TOKEN_NEQ, sem)))
         else if c = 34 \<or> c = 39 then
           seqR (read_string E f c ls) (\<lambda>(ls, v). Inr (ls, TOKEN_STRING, v))
         else if c = uchar CHR ''.'' then read_dots E f sem ls
         else if c = EOZ then Inr (ls, TOKEN_EOS, sem)
         else if isblank c then seqR (lex_next E ls) (llex_loop E f sem)
         else other_token E f sem ls)"

definition llex :: "'d lexenv \<Rightarrow> nat \<Rightarrow> SemInfo \<Rightarrow> 'd LexState \<Rightarrow> ('d LexState \<times> Token_Type \<times> SemInfo) result" where
  "llex E f sem ls = llex_loop E f sem (luaZ_resetbuffer ls)"

definition luaX_next :: "'d lexenv \<Rightarrow> nat \<Rightarrow> 'd LexState \<Rightarrow> 'd LexState result" where
  "luaX_next E f ls =
     (let ls = ls\<lparr>lx_lastline := lx_linenumber ls\<rparr> in
      if tk_type (lx_lookahead ls) \<noteq> TOKEN_EOS then
        Inr (ls\<lparr>lx_current := lx_lookahead ls, lx_lookahead := (lx_lookahead ls)\<lparr>tk_type := TOKEN_EOS\<rparr>\<rparr>)
      else
        seqR (llex E f (tk_seminfo (lx_current ls)) ls) (\<lambda>(ls, t, v).
          Inr (ls\<lparr>lx_current := \<lparr>tk_type = t, tk_seminfo = v\<rparr>\<rparr>)))"

text \<open>A second look-ahead fails the assertion.\<close>

definition luaX_lookahead :: "'d lexenv \<Rightarrow> nat \<Rightarrow> 'd LexState \<Rightarrow> 'd LexState result" where
  "luaX_lookahead E f ls =
     (if tk_type (lx_lookahead ls) \<noteq> TOKEN_EOS then Inl Undefined
      else
        seqR (llex E f (tk_seminfo (lx_lookahead ls)) ls) (\<lambda>(ls, t, v).
          Inr (ls\<lparr>lx_lookahead := \<lparr>tk_type = t, tk_seminfo = v\<rparr>\<rparr>)))"

end
