(* ===== verification/LexSpec.thy ===== *)
theory LexSpec
  imports Lexer
begin

text \<open>
  The scanner on a stream whose content is known: reading steps as rules on what is pending,
  what is in the buffer and the line number; with them, that a string quoted by
  \<open>string.format\<close> is read back, and that the spelling of a token is scanned as the token.
\<close>

declare llex_loop.simps(2) [simp del]

section \<open>What a lexer has before it\<close>

definition str_bytes :: "string \<Rightarrow> u8 list" where
  "str_bytes s = map (\<lambda>c. word_of_int (uchar c)) s"

definition bytes_str :: "u8 list \<Rightarrow> string" where
  "bytes_str bs = map (\<lambda>b. char_of_int (uint b)) bs"

lemma uint_uchar [simp]: "uint (word_of_int (uchar c) :: u8) = uchar c"
  using uchar_range [of c] by (simp add: uint_word_of_int)

lemma bytes_str_bytes [simp]: "bytes_str (str_bytes s) = s"
  by (simp add: bytes_str_def str_bytes_def comp_def)

lemma str_bytes_simps [simp]:
  "str_bytes [] = []" "str_bytes (c # s) = word_of_int (uchar c) # str_bytes s"
  "str_bytes (s @ t) = str_bytes s @ str_bytes t" "length (str_bytes s) = length s"
  by (simp_all add: str_bytes_def)

definition pending :: "'d lexenv \<Rightarrow> 'd LexState \<Rightarrow> u8 list \<Rightarrow> bool" where
  "pending E ls bs \<longleftrightarrow>
     (case bs of [] \<Rightarrow> lx_character ls = EOZ
      | c # cs \<Rightarrow> lx_character ls = uint c \<and> holds (le_reader E) (lx_z ls) cs)"

definition buff_ok :: "Mbuffer \<Rightarrow> bool" where
  "buff_ok b \<longleftrightarrow> mb_size b = length (mb_buffer b) \<and> 0 < mb_size b \<and> mb_n b \<le> mb_size b"

text \<open>The lexer is before the bytes \<open>bs\<close>, with \<open>t\<close> in the buffer, on line \<open>n\<close>.\<close>

definition lex_at :: "'d lexenv \<Rightarrow> 'd LexState \<Rightarrow> u8 list \<Rightarrow> u8 list \<Rightarrow> int \<Rightarrow> bool" where
  "lex_at E ls bs t n \<longleftrightarrow>
     pending E ls bs \<and> buff_ok (lx_buff ls) \<and>
     take (mb_n (lx_buff ls)) (mb_buffer (lx_buff ls)) = t \<and> lx_linenumber ls = n"

lemma lex_at_char: "lex_at E ls (c # cs) t n \<Longrightarrow> lx_character ls = uint c"
  by (simp add: lex_at_def pending_def)

lemma lex_at_length: "lex_at E ls bs t n \<Longrightarrow> mb_n (lx_buff ls) = length t"
  by (auto simp: lex_at_def buff_ok_def)

lemma lex_at_text: "lex_at E ls bs t n \<Longrightarrow> buff_text ls = bytes_str t"
  by (auto simp: lex_at_def buff_text_def bytes_str_def)

lemma next_at:
  assumes "lex_at E ls (c # cs) t n"
  obtains ls' where "lex_next E ls = Inr ls'" "lex_at E ls' cs t n"
proof -
  have "holds (le_reader E) (lx_z ls) cs" using assms by (simp add: lex_at_def pending_def)
  from zgetc_holds [OF this] obtain z ch where z: "zgetc (le_reader E) (lx_z ls) = Inr (z, ch)"
    "case cs of [] \<Rightarrow> ch = EOZ | d # ds \<Rightarrow> ch = char2int d \<and> holds (le_reader E) z ds"
    by (cases cs) auto
  define ls' where "ls' = ls\<lparr>lx_z := z, lx_character := ch\<rparr>"
  have "lex_next E ls = Inr ls'" using z(1) by (simp add: lex_next_def ls'_def)
  moreover have "lex_at E ls' cs t n"
    using assms z(2) by (cases cs) (auto simp: lex_at_def pending_def ls'_def char2int_def)
  ultimately show ?thesis by (rule that)
qed

lemma save_at:
  assumes "lex_at E ls bs t n" "length t < 2 ^ 62"
  obtains ls' where "save E c ls = Inr ls'" "lex_at E ls' bs (t @ [word_of_int c]) n"
proof -
  define b where "b = (if mb_n (lx_buff ls) + 1 > mb_size (lx_buff ls)
    then luaZ_resizebuffer (lx_buff ls) (mb_size (lx_buff ls) * 2) else lx_buff ls)"
  have len: "mb_n (lx_buff ls) = length t" by (rule lex_at_length [OF assms(1)])
  have ok: "buff_ok (lx_buff ls)" and t: "take (mb_n (lx_buff ls)) (mb_buffer (lx_buff ls)) = t"
    using assms(1) by (simp_all add: lex_at_def)
  have small: "\<not> MAX_SIZET div 2 \<le> int (mb_size (lx_buff ls))" if "mb_n (lx_buff ls) + 1 > mb_size (lx_buff ls)"
    using that len assms(2) by (simp add: MAX_SIZET_def)
  have b: "mb_n b = length t" "mb_n b < mb_size b" "mb_size b = length (mb_buffer b)" "take (mb_n b) (mb_buffer b) = t"
    using ok t len by (auto simp: b_def luaZ_resizebuffer_def buff_ok_def)
  define ls' where "ls' = ls\<lparr>lx_buff := b\<lparr>mb_buffer := (mb_buffer b)[mb_n b := word_of_int c], mb_n := mb_n b + 1\<rparr>\<rparr>"
  have "save E c ls = Inr ls'"
  proof (cases "mb_n (lx_buff ls) + 1 > mb_size (lx_buff ls)")
    case True
    then have "b = luaZ_resizebuffer (lx_buff ls) (mb_size (lx_buff ls) * 2)" by (simp add: b_def)
    then show ?thesis using True small b(2) by (simp add: save_def Let_def ls'_def)
  next
    case False
    then have "b = lx_buff ls" by (simp add: b_def)
    then show ?thesis using False b(2) by (simp add: save_def Let_def ls'_def)
  qed
  moreover have "lex_at E ls' bs (t @ [word_of_int c]) n"
    using assms(1) b
    by (auto simp: lex_at_def ls'_def buff_ok_def pending_def take_Suc_conv_app_nth split: list.splits)
  ultimately show ?thesis by (rule that)
qed

lemma save_next_at:
  assumes "lex_at E ls (c # cs) t n" "length t < 2 ^ 62"
  obtains ls' where "save_and_next E ls = Inr ls'" "lex_at E ls' cs (t @ [c]) n"
proof -
  obtain ls1 where ls1: "save E (lx_character ls) ls = Inr ls1" "lex_at E ls1 (c # cs) (t @ [c]) n"
    using save_at [OF assms, of "lx_character ls"] lex_at_char [OF assms(1)] by auto
  obtain ls2 where "lex_next E ls1 = Inr ls2" "lex_at E ls2 cs (t @ [c]) n"
    by (rule next_at [OF ls1(2)])
  then show ?thesis using that ls1(1) by (simp add: save_and_next_def)
qed

lemma incline_at:
  assumes "lex_at E ls (nl # c # cs) t n" "uint nl = 10" "uint c \<noteq> 10" "uint c \<noteq> 13" "n + 1 < MAX_INT"
  obtains ls' where "inclinenumber E ls = Inr ls'" "lex_at E ls' (c # cs) t (n + 1)"
proof -
  obtain ls1 where ls1: "lex_next E ls = Inr ls1" "lex_at E ls1 (c # cs) t n"
    by (rule next_at [OF assms(1)])
  define ls' where "ls' = ls1\<lparr>lx_linenumber := lx_linenumber ls1 + 1\<rparr>"
  have "\<not> currIsNewline ls1" using lex_at_char [OF ls1(2)] assms(3,4) by (simp add: currIsNewline_def)
  moreover have "lx_linenumber ls1 = n" using ls1(2) by (simp add: lex_at_def)
  ultimately have "inclinenumber E ls = Inr ls'"
    using ls1(1) assms(5) by (simp add: inclinenumber_def Let_def ls'_def)
  moreover have "lex_at E ls' (c # cs) t (n + 1)"
    using ls1(2) by (auto simp: lex_at_def pending_def ls'_def)
  ultimately show ?thesis by (rule that)
qed

section \<open>Quoted strings\<close>

lemma uchar_eq_iff: "0 \<le> k \<Longrightarrow> k \<le> 255 \<Longrightarrow> uchar c = k \<longleftrightarrow> c = char_of_int k"
  by (metis char_of_uchar uchar_char_of)

lemma char_codes: "char_of_int 34 = CHR 0x22" "char_of_int 92 = CHR 0x5C" "char_of_int 10 = CHR 0x0A"
  "char_of_int 13 = CHR 0x0D" "char_of_int 0 = CHR 0x00"
  by (simp_all add: char_of_int_def char_of_def)

lemma char_EOZ [simp]: "uchar c \<noteq> EOZ" "uint (b :: u8) \<noteq> EOZ"
proof -
  have "0 \<le> uchar c" "0 \<le> uint b" by (simp_all add: uchar_range)
  then show "uchar c \<noteq> EOZ" "uint b \<noteq> EOZ" unfolding EOZ_def by linarith+
qed

text \<open>What follows a quoted newline is no second newline character.\<close>

lemma addquoted_head:
  "\<exists>d ds. str_bytes (addquoted_chars s @ [CHR 0x22]) @ rest = d # ds \<and> uint d \<noteq> 10 \<and> uint d \<noteq> 13"
  by (cases s) (auto simp: uchar_eq_iff char_codes)

lemma escape_zero_at:
  assumes "lex_at E ls (48 # 48 # 48 # bs) t n" "length t < 2 ^ 62"
  obtains ls' where "escape_digits E 3 0 ls = Inr (ls', 0)" "lex_at E ls' bs t n"
proof -
  obtain a where a: "lex_next E ls = Inr a" "lex_at E a (48 # 48 # bs) t n" by (rule next_at [OF assms(1)])
  obtain b where b: "lex_next E a = Inr b" "lex_at E b (48 # bs) t n" by (rule next_at [OF a(2)])
  obtain c where c: "lex_next E b = Inr c" "lex_at E c bs t n" by (rule next_at [OF b(2)])
  have "lx_character ls = 48" "lx_character a = 48" "lx_character b = 48"
    using lex_at_char [OF assms(1)] lex_at_char [OF a(2)] lex_at_char [OF b(2)] by simp_all
  then have "escape_digits E 3 0 ls = Inr (c, 0)"
    using a(1) b(1) c(1) by (simp add: numeral_3_eq_3 isdigit_def uchar_def)
  then show ?thesis using that c(2) by simp
qed

text \<open>One turn of the loop reads one quoted character.\<close>

lemma string_turn:
  assumes at: "lex_at E ls (str_bytes (addquoted_chars [c]) @ bs) t n"
    and t: "length t < 2 ^ 62" and n: "c = CHR 0x0A \<Longrightarrow> n + 1 < MAX_INT"
    and bs: "\<exists>d ds. bs = d # ds \<and> uint d \<noteq> 10 \<and> uint d \<noteq> 13"
  shows "\<exists>ls'. string_loop E (Suc f) 34 ls = string_loop E f 34 ls' \<and>
    lex_at E ls' bs (t @ str_bytes [c]) (if c = CHR 0x0A then n + 1 else n)"
proof -
  obtain d ds where d: "bs = d # ds" "uint d \<noteq> 10" "uint d \<noteq> 13" using bs by blast
  show ?thesis
  proof (cases "c \<in> {CHR 0x22, CHR 0x5C, CHR 0x0A, CHR 0x0D, CHR 0x00}")
    case False
    then have "lex_at E ls (word_of_int (uchar c) # bs) t n" using at by simp
    moreover from this have "lx_character ls = uchar c" using lex_at_char by fastforce
    moreover obtain ls' where "save_and_next E ls = Inr ls'" "lex_at E ls' bs (t @ [word_of_int (uchar c)]) n"
      by (rule save_next_at [OF calculation(1) t])
    ultimately show ?thesis
      using False by (auto simp: currIsNewline_def uchar_eq_iff char_codes)
  next
    case True
    define e where "e = str_bytes (tl (addquoted_chars [c]))"
    have at1: "lex_at E ls (92 # e @ bs) t n"
      using at True by (auto simp: e_def uchar_def)
    have char: "lx_character ls = 92" using lex_at_char [OF at1] by simp
    obtain a where a: "lex_next E ls = Inr a" "lex_at E a (e @ bs) t n" by (rule next_at [OF at1])
    have turn: "string_loop E (Suc f) 34 ls = seqR (read_escape E ls) (string_loop E f 34)"
      using char by (simp add: currIsNewline_def EOZ_def)
    have "\<exists>ls'. read_escape E ls = Inr ls' \<and>
        lex_at E ls' bs (t @ str_bytes [c]) (if c = CHR 0x0A then n + 1 else n)"
      using True
    proof (elim insertE emptyE)
      assume c: "c = CHR 0x22"
      then have e: "e = [34]" by (simp add: e_def uchar_def)
      then have "lx_character a = 34" using lex_at_char [of E a 34 bs] a(2) by simp
      moreover obtain b where "save_and_next E a = Inr b" "lex_at E b bs (t @ [34]) n"
        using save_next_at [of E a 34 bs t n] a(2) e t by auto
      ultimately show ?thesis
        using a(1) c by (auto simp: read_escape_def escapes_def currIsNewline_def EOZ_def isdigit_def uchar_def)
    next
      assume c: "c = CHR 0x5C"
      then have e: "e = [92]" by (simp add: e_def uchar_def)
      then have "lx_character a = 92" using lex_at_char [of E a 92 bs] a(2) by simp
      moreover obtain b where "save_and_next E a = Inr b" "lex_at E b bs (t @ [92]) n"
        using save_next_at [of E a 92 bs t n] a(2) e t by auto
      ultimately show ?thesis
        using a(1) c by (auto simp: read_escape_def escapes_def currIsNewline_def EOZ_def isdigit_def uchar_def)
    next
      assume c: "c = CHR 0x0A"
      then have e: "e = [10]" by (simp add: e_def uchar_def)
      then have "lx_character a = 10" using lex_at_char [of E a 10 bs] a(2) by simp
      moreover obtain b where b: "save E 10 a = Inr b" "lex_at E b (10 # d # ds) (t @ [10]) n"
        using save_at [OF a(2) t, of 10] e d(1) by auto
      moreover obtain b' where "inclinenumber E b = Inr b'" "lex_at E b' (d # ds) (t @ [10]) (n + 1)"
        by (rule incline_at [OF b(2) _ d(2,3) n [OF c]]) simp
      ultimately show ?thesis
        using a(1) c d(1) by (auto simp: read_escape_def escapes_def currIsNewline_def uchar_def)
    next
      assume c: "c = CHR 0x0D"
      then have e: "e = [114]" by (simp add: e_def uchar_def)
      then have "lx_character a = 114" using lex_at_char [of E a 114 bs] a(2) by simp
      moreover obtain b where b: "save E 13 a = Inr b" "lex_at E b (114 # bs) (t @ [13]) n"
        using save_at [OF a(2) t, of 13] e by auto
      moreover obtain b' where "lex_next E b = Inr b'" "lex_at E b' bs (t @ [13]) n"
        by (rule next_at [OF b(2)])
      ultimately show ?thesis
        using a(1) c by (auto simp: read_escape_def escapes_def uchar_def)
    next
      assume c: "c = CHR 0x00"
      then have e: "e = [48, 48, 48]" by (simp add: e_def uchar_def)
      then have ch: "lx_character a = 48" using lex_at_char [of E a 48 "48 # 48 # bs"] a(2) by simp
      obtain b where b: "escape_digits E 3 0 a = Inr (b, 0)" "lex_at E b bs t n"
        using escape_zero_at [of E a bs t n] a(2) e t by auto
      obtain b' where "save E 0 b = Inr b'" "lex_at E b' bs (t @ [0]) n"
        using save_at [OF b(2) t, of 0] by auto
      then show ?thesis
        using a(1) b(1) c ch by (auto simp: read_escape_def escapes_def currIsNewline_def EOZ_def isdigit_def uchar_def)
    qed
    then show ?thesis unfolding turn by auto
  qed
qed

lemma string_loop_at:
  assumes "lex_at E ls (str_bytes (addquoted_chars s) @ 34 # rest) t n"
    and "length t + length s < 2 ^ 62" "n + int (length (filter ((=) (CHR 0x0A)) s)) < MAX_INT"
    and "length s < f"
  shows "\<exists>ls'. string_loop E f 34 ls = Inr ls' \<and>
    lex_at E ls' (34 # rest) (t @ str_bytes s) (n + int (length (filter ((=) (CHR 0x0A)) s)))"
  using assms
proof (induction s arbitrary: ls t n f)
  case Nil
  then obtain f' where "f = Suc f'" by (cases f) auto
  then show ?case using Nil.prems lex_at_char [of E ls 34 rest t n] by simp
next
  case (Cons c s)
  obtain f' where f: "f = Suc f'" using Cons.prems by (cases f) auto
  define n' where "n' = (if c = CHR 0x0A then n + 1 else n)"
  have n': "n' + int (length (filter ((=) (CHR 0x0A)) s)) = n + int (length (filter ((=) (CHR 0x0A)) (c # s)))"
    by (auto simp: n'_def)
  have split: "str_bytes (addquoted_chars (c # s)) @ 34 # rest =
      str_bytes (addquoted_chars [c]) @ (str_bytes (addquoted_chars s @ [CHR 0x22]) @ rest)"
    by (simp add: uchar_def)
  have "\<exists>ls'. string_loop E (Suc f') 34 ls = string_loop E f' 34 ls' \<and>
    lex_at E ls' (str_bytes (addquoted_chars s @ [CHR 0x22]) @ rest) (t @ str_bytes [c]) n'"
    unfolding n'_def
  proof (rule string_turn)
    show "lex_at E ls (str_bytes (addquoted_chars [c]) @ str_bytes (addquoted_chars s @ [CHR 0x22]) @ rest) t n"
      using Cons.prems(1) unfolding split .
    show "length t < 2 ^ 62" using Cons.prems(2) by simp
    show "n + 1 < MAX_INT" if "c = CHR 0x0A" using Cons.prems(3) that by simp
    show "\<exists>d ds. str_bytes (addquoted_chars s @ [CHR 0x22]) @ rest = d # ds \<and> uint d \<noteq> 10 \<and> uint d \<noteq> 13"
      by (rule addquoted_head)
  qed
  then obtain ls' where ls': "string_loop E f 34 ls = string_loop E f' 34 ls'"
    "lex_at E ls' (str_bytes (addquoted_chars s) @ 34 # rest) (t @ str_bytes [c]) n'"
    by (auto simp: f uchar_def)
  have "\<exists>ls''. string_loop E f' 34 ls' = Inr ls'' \<and>
    lex_at E ls'' (34 # rest) ((t @ str_bytes [c]) @ str_bytes s) (n' + int (length (filter ((=) (CHR 0x0A)) s)))"
    by (rule Cons.IH [OF ls'(2)]) (use Cons.prems f n' in auto)
  then show ?case unfolding ls'(1) n' by simp
qed

lemma reset_at:
  "pending E ls bs \<Longrightarrow> buff_ok (lx_buff ls) \<Longrightarrow> lex_at E (luaZ_resetbuffer ls) bs [] (lx_linenumber ls)"
  by (auto simp: lex_at_def luaZ_resetbuffer_def pending_def buff_ok_def split: list.splits)

lemma read_string_at:
  assumes "lex_at E ls (str_bytes (addquoted s) @ rest) [] n"
    and "length s < 2 ^ 61" "n + int (length (filter ((=) (CHR 0x0A)) s)) < MAX_INT" "length s < f"
  shows "\<exists>ls' t. read_string E f 34 ls = Inr (ls', SemString s) \<and>
    lex_at E ls' rest t (n + int (length (filter ((=) (CHR 0x0A)) s)))"
proof -
  define n' where "n' = n + int (length (filter ((=) (CHR 0x0A)) s))"
  have at: "lex_at E ls (34 # str_bytes (addquoted_chars s) @ 34 # rest) [] n"
    using assms(1) by (simp add: addquoted_def uchar_def)
  obtain a where a: "save_and_next E ls = Inr a" "lex_at E a (str_bytes (addquoted_chars s) @ 34 # rest) [34] n"
    using save_next_at [OF at] by auto
  obtain b where b: "string_loop E f 34 a = Inr b" "lex_at E b (34 # rest) ([34] @ str_bytes s) n'"
    using string_loop_at [OF a(2) _ assms(3,4)] assms(2) unfolding n'_def by auto
  obtain c where c: "save_and_next E b = Inr c" "lex_at E c rest (([34] @ str_bytes s) @ [34]) n'"
    using save_next_at [OF b(2)] assms(2) by auto
  have "mb_n (lx_buff c) = length s + 2" using lex_at_length [OF c(2)] by simp
  moreover have "buff_text c = bytes_str (([34] @ str_bytes s) @ [34])" by (rule lex_at_text [OF c(2)])
  then have "buff_text c = [CHR 0x22] @ s @ [CHR 0x22]"
    using bytes_str_bytes [of s] by (simp add: bytes_str_def char_codes)
  ultimately have "read_string E f 34 ls = Inr (c, SemString s)"
    using a(1) b(1) c(1) by (simp add: read_string_def)
  then show ?thesis using c(2) unfolding n'_def by blast
qed

text \<open>C21: a string that \<open>string.format\<close> quotes with \<open>%q\<close> is read back by the scanner as one string
  token with exactly the same bytes, zeros, newlines, carriage returns, quotes and backslashes
  included, and the scanner stops right behind it, on the right line.\<close>

theorem quoted_roundtrip:
  assumes "pending E ls (str_bytes (addquoted s) @ rest)" "buff_ok (lx_buff ls)"
    and "length s < 2 ^ 61" "length s + 1 < f"
    and "lx_linenumber ls + int (length (filter ((=) (CHR 0x0A)) s)) < MAX_INT"
  shows "\<exists>ls'. llex E f sem ls = Inr (ls', TOKEN_STRING, SemString s) \<and> pending E ls' rest \<and>
    lx_linenumber ls' = lx_linenumber ls + int (length (filter ((=) (CHR 0x0A)) s))"
proof -
  obtain f' where f: "f = Suc f'" "length s < f'" using assms(4) by (cases f) auto
  have at: "lex_at E (luaZ_resetbuffer ls) (str_bytes (addquoted s) @ rest) [] (lx_linenumber ls)"
    by (rule reset_at [OF assms(1,2)])
  obtain ls' t where ls': "read_string E f' 34 (luaZ_resetbuffer ls) = Inr (ls', SemString s)"
    "lex_at E ls' rest t (lx_linenumber ls + int (length (filter ((=) (CHR 0x0A)) s)))"
    using read_string_at [OF at assms(3,5) f(2)] by blast
  have "lx_character (luaZ_resetbuffer ls) = 34"
    using lex_at_char [of E "luaZ_resetbuffer ls" 34] at by (simp add: addquoted_def uchar_def)
  then have "llex E f sem ls = Inr (ls', TOKEN_STRING, SemString s)"
    using ls'(1) by (simp add: llex_def f(1) llex_loop.simps(2) currIsNewline_def uchar_def)
  then show ?thesis using ls'(2) by (auto simp: lex_at_def)
qed

text \<open>A lexer over blocks of text.\<close>

definition text_env :: "u8 list list lexenv" where
  "text_env = \<lparr>le_reader = block_reader,
     le_clib = \<lparr>cl_num2str = (\<lambda>_. []), cl_str2number = (\<lambda>_. (0, 0)), cl_strtoul16 = (\<lambda>_. (0, 0)),
       cl_sprintf = (\<lambda>_ _. [])\<rparr>,
     le_point = None\<rparr>"

definition text_lexer :: "string \<Rightarrow> string \<Rightarrow> u8 list list LexState result" where
  "text_lexer a b = luaX_setinput text_env (luaZ_init [str_bytes a, str_bytes b]) \<lparr>mb_buffer = [], mb_n = 0, mb_size = 0\<rparr> ''=t''"

theorem quoted_roundtrip_witness:
  "\<exists>ls ls'. text_lexer (CHR 0x22 # ''a'') [CHR 0x5C, CHR 0x0A, CHR 0x22, CHR '';''] = Inr ls \<and>
     llex text_env 9 NoSem ls = Inr (ls', TOKEN_STRING, SemString [CHR ''a'', CHR 0x0A]) \<and>
     lx_linenumber ls' = 2"
proof -
  define s where "s = [CHR ''a'', CHR 0x0A]"
  have q: "str_bytes (addquoted s) @ [59] = 34 # 97 # [92, 10, 34, 59]"
    by (simp add: s_def addquoted_def uchar_def)
  have y: "yields block_reader [[92, 10, 34, 59]] [92, 10, 34, 59]"
    using block_reader_yields [of "[[92, 10, 34, 59]]"] by simp
  obtain ls where ls: "text_lexer (CHR 0x22 # ''a'') [CHR 0x5C, CHR 0x0A, CHR 0x22, CHR '';''] = Inr ls"
    "lx_character ls = 34" "lx_z ls = \<lparr>z_n = 1, z_p = [97], z_data = [[92, 10, 34, 59]]\<rparr>"
    "lx_buff ls = \<lparr>mb_buffer = replicate 32 0, mb_n = 0, mb_size = 32\<rparr>" "lx_linenumber ls = 1"
    by (simp add: text_lexer_def luaX_setinput_def lex_next_def zgetc_def luaZ_init_def luaZ_fill_def
        text_env_def block_reader_def uchar_def char2int_def luaZ_resizebuffer_def LUA_MINBUFFER_def)
  have "pending text_env ls (str_bytes (addquoted s) @ [59])"
    unfolding q using y ls(2,3) by (simp add: pending_def holds_def text_env_def)
  moreover have "buff_ok (lx_buff ls)" using ls(4) by (simp add: buff_ok_def)
  ultimately obtain ls' where "llex text_env 9 NoSem ls = Inr (ls', TOKEN_STRING, SemString s)"
    "lx_linenumber ls' = lx_linenumber ls + int (length (filter ((=) (CHR 0x0A)) s))"
    using quoted_roundtrip [of text_env ls s "[59]" 9 NoSem] ls(5) by (auto simp: s_def)
  then show ?thesis using ls(1,5) by (auto simp: s_def)
qed

section \<open>Words\<close>

lemma uchar_codes:
  "uchar CHR ''-'' = 45" "uchar CHR ''['' = 91" "uchar CHR ''='' = 61" "uchar CHR ''<'' = 60"
  "uchar CHR ''>'' = 62" "uchar CHR ''~'' = 126" "uchar CHR ''.'' = 46" "uchar CHR ''_'' = 95"
  by (simp_all add: uchar_def)

definition word_char :: "int \<Rightarrow> bool" where
  "word_char c \<longleftrightarrow> isalnum c \<or> c = uchar CHR ''_''"

lemma save_alnum_at:
  assumes "lex_at E ls (str_bytes w @ d # bs) t n" "\<forall>c \<in> set w. word_char (uchar c)" "\<not> word_char (uint d)"
    and "length t + length w < 2 ^ 62" "length w < f"
  shows "\<exists>ls'. save_alnum E f ls = Inr ls' \<and> lex_at E ls' (d # bs) (t @ str_bytes w) n"
  using assms
proof (induction w arbitrary: ls t f)
  case Nil
  then obtain f' where "f = Suc f'" by (cases f) auto
  then show ?case
    using Nil.prems lex_at_char [of E ls d bs t n] by (simp add: word_char_def)
next
  case (Cons c w)
  then obtain f' where f: "f = Suc f'" by (cases f) auto
  have at: "lex_at E ls (word_of_int (uchar c) # str_bytes w @ d # bs) t n" using Cons.prems(1) by simp
  obtain a where a: "save_and_next E ls = Inr a" "lex_at E a (str_bytes w @ d # bs) (t @ [word_of_int (uchar c)]) n"
    using save_next_at [OF at] Cons.prems(4) by auto
  obtain b where "save_alnum E f' a = Inr b" "lex_at E b (d # bs) ((t @ [word_of_int (uchar c)]) @ str_bytes w) n"
    using Cons.IH [OF a(2), of f'] Cons.prems f by auto
  then show ?case
    using a(1) f Cons.prems(2) lex_at_char [OF at] by (auto simp: word_char_def)
qed

text \<open>No word starts with a character that has a branch of its own.\<close>

lemma word_start:
  assumes "isalpha c \<or> c = 95"
  shows "\<not> isdigit c" "\<not> isblank c" "c \<notin> {10, 13, 45, 91, 61, 60, 62, 126, 34, 39, 46, -1}"
  using assms by (auto simp: isalpha_def isupper_def islower_def isdigit_def isblank_def)

lemma read_word_at:
  assumes at: "lex_at E ls (str_bytes w @ d # bs) [] n"
    and w: "w \<noteq> []" "isalpha (uchar (hd w)) \<or> uchar (hd w) = 95" "\<forall>c \<in> set w. word_char (uchar c)"
    and d: "\<not> word_char (uint d)" and f: "length w < f" "length w < 2 ^ 62"
  shows "\<exists>ls' t. llex_loop E (Suc f) sem ls =
      Inr (ls', if reserved w > 0 then token_types ! (reserved w - 1) else TOKEN_NAME,
        if reserved w > 0 then sem else SemString w) \<and> lex_at E ls' (d # bs) t n"
proof -
  obtain c cs where c: "w = c # cs" using w(1) by (cases w) auto
  then have ch: "lx_character ls = uchar c" using lex_at_char at by fastforce
  obtain a where a: "save_alnum E f ls = Inr a" "lex_at E a (d # bs) (str_bytes w) n"
    using save_alnum_at [OF at w(3) d] f by auto
  have ws: "buff_text a = w" using lex_at_text [OF a(2)] by simp
  have "llex_loop E (Suc f) sem ls = read_name E f sem ls"
    using word_start [of "uchar c"] w(2) ch
    by (simp add: llex_loop.simps(2) c currIsNewline_def uchar_codes EOZ_def other_token_def)
  then show ?thesis using a ws by (auto simp: read_name_def Let_def)
qed

lemma reserved_words: "\<forall>k \<in> set [0..<21]. reserved (luaX_tokens ! k) = k + 1"
  by code_simp

lemma reserved_spelling: "\<forall>k \<in> set [0..<21]. luaX_tokens ! k \<noteq> [] \<and> length (luaX_tokens ! k) \<le> 8 \<and>
    (\<forall>c \<in> set (luaX_tokens ! k). islower (uchar c))"
  by code_simp

section \<open>Symbols\<close>

text \<open>The scanner on one symbol, followed by a blank.\<close>

definition scans :: "'d lexenv \<Rightarrow> string \<Rightarrow> Token_Type \<Rightarrow> bool" where
  "scans E w t \<longleftrightarrow>
     (\<forall>ls rest n f sem. lex_at E ls (str_bytes w @ 32 # rest) [] n \<longrightarrow> 9 < f \<longrightarrow>
        (\<exists>ls' u. llex_loop E f sem ls = Inr (ls', t, sem) \<and> lex_at E ls' (32 # rest) u n))"

lemma scansI:
  assumes "\<And>ls rest n f sem. lex_at E ls (str_bytes w @ 32 # rest) [] n \<Longrightarrow> 8 < f \<Longrightarrow>
    \<exists>ls' u. llex_loop E (Suc f) sem ls = Inr (ls', t, sem) \<and> lex_at E ls' (32 # rest) u n"
  shows "scans E w t"
  unfolding scans_def
proof (intro allI impI)
  fix ls rest n f sem
  assume *: "lex_at E ls (str_bytes w @ 32 # rest) [] n" "9 < (f :: nat)"
  then obtain g where "f = Suc g" "8 < g" by (cases f) auto
  then show "\<exists>ls' u. llex_loop E f sem ls = Inr (ls', t, sem) \<and> lex_at E ls' (32 # rest) u n"
    using assms [OF *(1)] by simp
qed

lemma single_chars:
  "\<forall>(c, t) \<in> set single_tokens. map_of single_tokens c = Some t \<and> \<not> isblank (uchar c) \<and>
     \<not> isdigit (uchar c) \<and> \<not> isalpha (uchar c) \<and> c \<noteq> CHR ''_'' \<and>
     uchar c \<notin> {10, 13, 45, 91, 61, 60, 62, 126, 34, 39, 46, 95, -1}"
  by code_simp

lemma scans_single:
  assumes "(c, t) \<in> set single_tokens"
  shows "scans E [c] t"
proof (rule scansI)
  fix ls rest n f sem
  assume at: "lex_at E ls (str_bytes [c] @ 32 # rest) [] n"
  then have at: "lex_at E ls (word_of_int (uchar c) # 32 # rest) [] n" by simp
  then have ch: "lx_character ls = uchar c" using lex_at_char by fastforce
  obtain a where a: "lex_next E ls = Inr a" "lex_at E a (32 # rest) [] n" by (rule next_at [OF at])
  have c: "map_of single_tokens c = Some t" "\<not> isblank (uchar c)" "\<not> isdigit (uchar c)" "\<not> isalpha (uchar c)"
    "c \<noteq> CHR ''_''" "uchar c \<notin> {10, 13, 45, 91, 61, 60, 62, 126, 34, 39, 46, 95, -1}"
    using single_chars assms by auto
  moreover have "llex_loop E (Suc f) sem ls = other_token E f sem ls"
    using c ch by (simp add: llex_loop.simps(2) currIsNewline_def uchar_codes EOZ_def)
  ultimately show "\<exists>ls' u. llex_loop E (Suc f) sem ls = Inr (ls', t, sem) \<and> lex_at E ls' (32 # rest) u n"
    using ch a by (auto simp: other_token_def single_char_def)
qed

lemma after_next:
  assumes "lex_at E ls (b # bs) t n"
  shows "\<exists>ls'. lex_next E ls = Inr ls' \<and> lex_at E ls' bs t n \<and> (\<forall>c cs. bs = c # cs \<longrightarrow> lx_character ls' = uint c)"
  using next_at [OF assms] lex_at_char by metis

lemma after_save:
  assumes "lex_at E ls (b # bs) t n" "length t < 9"
  shows "\<exists>ls'. save_and_next E ls = Inr ls' \<and> lex_at E ls' bs (t @ [b]) n \<and>
    (\<forall>c cs. bs = c # cs \<longrightarrow> lx_character ls' = uint c)"
proof -
  have "length t < 2 ^ 62" using assms(2) by simp
  then show ?thesis using save_next_at [OF assms(1)] lex_at_char by metis
qed

lemma with_equals_at:
  "lex_at E ls (b # 32 # rest) t n \<Longrightarrow>
     \<exists>ls'. with_equals E t1 t2 ls = Inr (ls', t1) \<and> lex_at E ls' (32 # rest) t n"
  "lex_at E ls (b # 61 # bs) t n \<Longrightarrow>
     \<exists>ls'. with_equals E t1 t2 ls = Inr (ls', t2) \<and> lex_at E ls' bs t n"
proof -
  assume "lex_at E ls (b # 32 # rest) t n"
  from after_next [OF this] show "\<exists>ls'. with_equals E t1 t2 ls = Inr (ls', t1) \<and> lex_at E ls' (32 # rest) t n"
    by (auto simp: with_equals_def uchar_codes)
next
  assume "lex_at E ls (b # 61 # bs) t n"
  from after_next [OF this] obtain a where a: "lex_next E ls = Inr a" "lex_at E a (61 # bs) t n" "lx_character a = 61"
    by auto
  from after_next [OF a(2)] show "\<exists>ls'. with_equals E t1 t2 ls = Inr (ls', t2) \<and> lex_at E ls' bs t n"
    using a by (auto simp: with_equals_def uchar_codes)
qed

lemma scans_equals:
  assumes "(c, t1, t2) \<in> {(CHR ''='', TOKEN_ASSIGN, TOKEN_EQ), (CHR ''<'', TOKEN_LT, TOKEN_LEQ),
    (CHR ''>'', TOKEN_GT, TOKEN_GEQ)}"
  shows "scans E [c] t1" "scans E [c, CHR ''=''] t2"
proof -
  have loop: "llex_loop E (Suc f) sem ls = seqR (with_equals E t1 t2 ls) (\<lambda>(ls, t). Inr (ls, t, sem))"
    if "lx_character ls = uchar c" for f sem and ls :: "'a LexState"
    using assms that by (elim insertE emptyE) (simp_all add: llex_loop.simps(2) currIsNewline_def uchar_codes)
  show "scans E [c] t1"
  proof (rule scansI)
    fix ls rest n f sem
    assume "lex_at E ls (str_bytes [c] @ 32 # rest) [] n"
    then have at: "lex_at E ls (word_of_int (uchar c) # 32 # rest) [] n" by simp
    then have "lx_character ls = uchar c" using lex_at_char by fastforce
    then show "\<exists>ls' u. llex_loop E (Suc f) sem ls = Inr (ls', t1, sem) \<and> lex_at E ls' (32 # rest) u n"
      using loop with_equals_at(1) [OF at, of t1 t2] by auto
  qed
  show "scans E [c, CHR ''=''] t2"
  proof (rule scansI)
    fix ls rest n f sem
    assume "lex_at E ls (str_bytes [c, CHR ''=''] @ 32 # rest) [] n"
    then have at: "lex_at E ls (word_of_int (uchar c) # 61 # 32 # rest) [] n" by (simp add: uchar_codes)
    then have "lx_character ls = uchar c" using lex_at_char by fastforce
    then show "\<exists>ls' u. llex_loop E (Suc f) sem ls = Inr (ls', t2, sem) \<and> lex_at E ls' (32 # rest) u n"
      using loop with_equals_at(2) [OF at, of t1 t2] by auto
  qed
qed

lemma scans_minus: "scans E ''-'' TOKEN_SUB"
proof (rule scansI)
  fix ls rest n f sem
  assume "lex_at E ls (str_bytes ''-'' @ 32 # rest) [] n"
  then have at: "lex_at E ls (45 # 32 # rest) [] n" by (simp add: uchar_codes)
  then have "lx_character ls = 45" using lex_at_char by fastforce
  then show "\<exists>ls' u. llex_loop E (Suc f) sem ls = Inr (ls', TOKEN_SUB, sem) \<and> lex_at E ls' (32 # rest) u n"
    using after_next [OF at] by (auto simp: llex_loop.simps(2) currIsNewline_def uchar_codes)
qed

lemma scans_neq: "scans E ''~='' TOKEN_NEQ"
proof (rule scansI)
  fix ls rest n f sem
  assume "lex_at E ls (str_bytes ''~='' @ 32 # rest) [] n"
  then have at: "lex_at E ls (126 # 61 # 32 # rest) [] n" by (simp add: uchar_codes)
  then have ch: "lx_character ls = 126" using lex_at_char by fastforce
  obtain a where a: "lex_next E ls = Inr a" "lex_at E a (61 # 32 # rest) [] n" "lx_character a = 61"
    using after_next [OF at] by auto
  then show "\<exists>ls' u. llex_loop E (Suc f) sem ls = Inr (ls', TOKEN_NEQ, sem) \<and> lex_at E ls' (32 # rest) u n"
    using ch after_next [OF a(2)] by (auto simp: llex_loop.simps(2) currIsNewline_def uchar_codes)
qed

lemma scans_bracket: "scans E ''['' TOKEN_LEFT_BRACKET"
proof (rule scansI)
  fix ls rest n sem and f :: nat
  assume "lex_at E ls (str_bytes ''['' @ 32 # rest) [] n" and f: "8 < f"
  then have at: "lex_at E ls (91 # 32 # rest) [] n" by (simp add: uchar_codes)
  then have ch: "lx_character ls = 91" using lex_at_char by fastforce
  obtain g where "f = Suc g" using f by (cases f) auto
  then show "\<exists>ls' u. llex_loop E (Suc f) sem ls = Inr (ls', TOKEN_LEFT_BRACKET, sem) \<and> lex_at E ls' (32 # rest) u n"
    using ch after_save [OF at] by (auto simp: llex_loop.simps(2) currIsNewline_def uchar_codes skip_sep_def)
qed

text \<open>A check for a dot.\<close>

lemma check_dot_at:
  "lex_at E ls (46 # bs) t n \<Longrightarrow> length t < 9 \<Longrightarrow>
     \<exists>ls'. check_next E ''.'' ls = Inr (ls', True) \<and> lex_at E ls' bs (t @ [46]) n"
  "lex_at E ls (32 # bs) t n \<Longrightarrow> check_next E ''.'' ls = Inr (ls, False)"
  using after_save [of E ls 46 bs t n] lex_at_char [of E ls 46 bs t n] lex_at_char [of E ls 32 bs t n]
  by (auto simp: check_next_def char_of_int_def char_of_def)

lemma scans_dots: "scans E ''.'' TOKEN_DOT" "scans E ''..'' TOKEN_CONCAT" "scans E ''...'' TOKEN_VARARG"
proof -
  have loop: "llex_loop E (Suc f) sem ls = read_dots E f sem ls" if "lx_character ls = 46" for f sem and ls :: "'a LexState"
    using that by (simp add: llex_loop.simps(2) currIsNewline_def uchar_codes)
  have first: "\<exists>a. save_and_next E ls = Inr a \<and> lex_at E a bs [46] n \<and> lx_character ls = 46"
    if "lex_at E ls (46 # bs) [] n" for ls bs n
    using after_save [OF that] lex_at_char [OF that] by auto
  show "scans E ''.'' TOKEN_DOT"
  proof (rule scansI)
    fix ls rest n f sem
    assume "lex_at E ls (str_bytes ''.'' @ 32 # rest) [] n"
    then obtain a where "save_and_next E ls = Inr a" "lex_at E a (32 # rest) [46] n" "lx_character ls = 46"
      using first [of ls "32 # rest" n] by (auto simp: uchar_codes)
    then show "\<exists>ls' u. llex_loop E (Suc f) sem ls = Inr (ls', TOKEN_DOT, sem) \<and> lex_at E ls' (32 # rest) u n"
      using check_dot_at(2) [of E a rest] lex_at_char [of E a 32 rest]
      by (auto simp: loop read_dots_def isdigit_def)
  qed
  show "scans E ''..'' TOKEN_CONCAT"
  proof (rule scansI)
    fix ls rest n f sem
    assume "lex_at E ls (str_bytes ''..'' @ 32 # rest) [] n"
    then obtain a where a: "save_and_next E ls = Inr a" "lex_at E a (46 # 32 # rest) [46] n" "lx_character ls = 46"
      using first [of ls "46 # 32 # rest" n] by (auto simp: uchar_codes)
    obtain b where b: "check_next E ''.'' a = Inr (b, True)" "lex_at E b (32 # rest) [46, 46] n"
      using check_dot_at(1) [OF a(2)] by auto
    then show "\<exists>ls' u. llex_loop E (Suc f) sem ls = Inr (ls', TOKEN_CONCAT, sem) \<and> lex_at E ls' (32 # rest) u n"
      using a check_dot_at(2) [OF b(2)] by (auto simp: loop read_dots_def)
  qed
  show "scans E ''...'' TOKEN_VARARG"
  proof (rule scansI)
    fix ls rest n f sem
    assume "lex_at E ls (str_bytes ''...'' @ 32 # rest) [] n"
    then obtain a where a: "save_and_next E ls = Inr a" "lex_at E a (46 # 46 # 32 # rest) [46] n" "lx_character ls = 46"
      using first [of ls "46 # 46 # 32 # rest" n] by (auto simp: uchar_codes)
    obtain b where b: "check_next E ''.'' a = Inr (b, True)" "lex_at E b (46 # 32 # rest) [46, 46] n"
      using check_dot_at(1) [OF a(2)] by auto
    obtain c where "check_next E ''.'' b = Inr (c, True)" "lex_at E c (32 # rest) [46, 46, 46] n"
      using check_dot_at(1) [OF b(2)] by auto
    then show "\<exists>ls' u. llex_loop E (Suc f) sem ls = Inr (ls', TOKEN_VARARG, sem) \<and> lex_at E ls' (32 # rest) u n"
      using a b by (auto simp: loop read_dots_def)
  qed
qed

section \<open>Spellings\<close>

lemma scans_word:
  assumes "k < 21"
  shows "scans E (luaX_tokens ! k) (token_types ! k)"
proof (rule scansI)
  fix ls rest n sem and f :: nat
  define w where "w = luaX_tokens ! k"
  assume at: "lex_at E ls (str_bytes (luaX_tokens ! k) @ 32 # rest) [] n" and f: "8 < f"
  have "k \<in> set [0..<21]" using assms by simp
  then have res: "reserved w = k + 1"
    and w: "w \<noteq> []" "length w \<le> 8" "\<forall>c \<in> set w. islower (uchar c)"
    unfolding w_def using reserved_words reserved_spelling by blast+
  have "\<exists>ls' t. llex_loop E (Suc f) sem ls =
      Inr (ls', if reserved w > 0 then token_types ! (reserved w - 1) else TOKEN_NAME,
        if reserved w > 0 then sem else SemString w) \<and> lex_at E ls' (32 # rest) t n"
  proof (rule read_word_at)
    show "lex_at E ls (str_bytes w @ 32 # rest) [] n" using at by (simp add: w_def)
    show "length w < f" "length w < 2 ^ 62" using w(2) f by simp_all
    show "\<not> word_char (uint (32 :: u8))"
      by (simp add: word_char_def uchar_codes isalnum_def isalpha_def isdigit_def isupper_def islower_def)
  qed (use w in \<open>auto simp: word_char_def isalpha_def isalnum_def\<close>)
  then show "\<exists>ls' u. llex_loop E (Suc f) sem ls = Inr (ls', token_types ! k, sem) \<and> lex_at E ls' (32 # rest) u n"
    using res by simp
qed

definition spelled :: "Token_Type \<Rightarrow> bool" where
  "spelled t \<longleftrightarrow> t \<notin> {TOKEN_NUMBER, TOKEN_STRING, TOKEN_NAME, TOKEN_ERROR, TOKEN_EOS}"

lemma scans_spelling:
  assumes "spelled t"
  shows "scans E (luaX_tokens ! token_num t) t"
proof -
  note words = scans_word [of _ E, simplified token_types_def]
  have num: "token_num t < 21 \<Longrightarrow> token_types ! token_num t = t"
    by (cases t) (simp_all add: token_num_def token_types_def)
  show ?thesis
  proof (cases "token_num t < 21")
    case True
    then show ?thesis using scans_word [of "token_num t" E] num by simp
  next
    case False
    have "(luaX_tokens ! token_num t, t) \<in> {([c], u) |c u. (c, u) \<in> set single_tokens} \<union>
      {(''='', TOKEN_ASSIGN), (''=='', TOKEN_EQ), (''<'', TOKEN_LT), (''<='', TOKEN_LEQ), (''>'', TOKEN_GT),
       (''>='', TOKEN_GEQ), (''-'', TOKEN_SUB), (''~='', TOKEN_NEQ), (''['', TOKEN_LEFT_BRACKET),
       (''.'', TOKEN_DOT), (''..'', TOKEN_CONCAT), (''...'', TOKEN_VARARG)}"
      using assms False
      by (cases t) (simp_all add: spelled_def token_num_def token_types_def luaX_tokens_def single_tokens_def)
    then show ?thesis
      using scans_equals [of _ _ _ E] scans_minus scans_neq scans_bracket scans_dots scans_single
      by (auto simp del: str_bytes_simps)
  qed
qed

text \<open>C22: the spelling of every reserved word and symbol, which the messages of the parser show for
  a token, is scanned as exactly that token when a blank follows, wherever the blocks of the
  input end.\<close>

theorem token_roundtrip:
  assumes "spelled t" "pending E ls (str_bytes (luaX_token2str E ls t) @ 32 # rest)" "buff_ok (lx_buff ls)" "9 < f"
  shows "\<exists>ls'. llex E f sem ls = Inr (ls', t, sem) \<and> pending E ls' (32 # rest)"
proof -
  have "luaX_token2str E ls t = luaX_tokens ! token_num t"
    using assms(1) by (simp add: luaX_token2str_def spelled_def)
  then have "lex_at E (luaZ_resetbuffer ls) (str_bytes (luaX_tokens ! token_num t) @ 32 # rest) [] (lx_linenumber ls)"
    using reset_at [OF assms(2,3)] by simp
  then show ?thesis
    using scans_spelling [OF assms(1), of E] assms(4) unfolding scans_def llex_def
    by (fastforce simp: lex_at_def)
qed

lemma text_lexer_at:
  assumes "a \<noteq> []" "b \<noteq> []" "length a < 2 ^ 64" "length b < 2 ^ 64"
  shows "\<exists>ls. text_lexer a b = Inr ls \<and> pending text_env ls (str_bytes a @ str_bytes b) \<and>
    buff_ok (lx_buff ls) \<and> lx_linenumber ls = 1"
proof -
  have "yields block_reader [str_bytes a, str_bytes b] (str_bytes a @ str_bytes b)"
    using block_reader_yields [of "[str_bytes a, str_bytes b]"] assms by (auto simp: str_bytes_def)
  then have "holds (le_reader text_env) (luaZ_init [str_bytes a, str_bytes b]) (str_bytes a @ str_bytes b)"
    by (simp add: holds_init text_env_def)
  from zgetc_holds [OF this] assms(1) obtain z where
    "zgetc (le_reader text_env) (luaZ_init [str_bytes a, str_bytes b]) = Inr (z, uchar (hd a))"
    "holds (le_reader text_env) z (str_bytes (tl a) @ str_bytes b)"
    by (cases a) (auto simp: char2int_def)
  then show ?thesis
    using assms(1) by (cases a) (simp_all add: text_lexer_def luaX_setinput_def lex_next_def pending_def
      buff_ok_def luaZ_resizebuffer_def LUA_MINBUFFER_def)
qed

theorem token_roundtrip_witness:
  "\<exists>ls ls'. text_lexer ''els'' ''e x'' = Inr ls \<and> llex text_env 10 NoSem ls = Inr (ls', TOKEN_ELSE, NoSem)"
proof -
  obtain ls where ls: "text_lexer ''els'' ''e x'' = Inr ls"
    "pending text_env ls (str_bytes ''els'' @ str_bytes ''e x'')" "buff_ok (lx_buff ls)"
    using text_lexer_at [of "''els''" "''e x''"] by auto
  have "luaX_token2str text_env ls TOKEN_ELSE = ''else''"
    by (simp add: luaX_token2str_def token_num_def token_types_def luaX_tokens_def)
  then have "pending text_env ls (str_bytes (luaX_token2str text_env ls TOKEN_ELSE) @ 32 # str_bytes ''x'')"
    using ls(2) by (simp add: uchar_def)
  then show ?thesis
    using token_roundtrip [of TOKEN_ELSE text_env ls "str_bytes ''x''" 10 NoSem] ls(1,3)
    by (auto simp: spelled_def)
qed

section \<open>Zero bytes\<close>

lemma check_zero_at:
  "lex_at E ls (0 # bs) t n \<Longrightarrow> length t < 9 \<Longrightarrow>
     \<exists>ls'. check_next E set' ls = Inr (ls', True) \<and> lex_at E ls' bs (t @ [0]) n"
  using after_save [of E ls 0 bs t n] lex_at_char [of E ls 0 bs t n]
  by (auto simp: check_next_def char_of_int_def char_of_def)

text \<open>C23: \<open>check_next\<close> searches its set with \<open>strchr\<close>, which finds the terminator too: a zero byte
  behind a dot is taken for a second dot, so the two bytes are scanned as the concatenation
  operator instead of a dot and an unexpected character.\<close>

theorem zero_byte_as_dot:
  assumes "pending E ls (46 # 0 # 32 # rest)" "buff_ok (lx_buff ls)" "0 < f"
  shows "\<exists>ls'. llex E f sem ls = Inr (ls', TOKEN_CONCAT, sem) \<and> pending E ls' (32 # rest)"
proof -
  obtain g where f: "f = Suc g" using assms(3) by (cases f) auto
  have at: "lex_at E (luaZ_resetbuffer ls) (46 # 0 # 32 # rest) [] (lx_linenumber ls)"
    by (rule reset_at [OF assms(1,2)])
  obtain a where a: "save_and_next E (luaZ_resetbuffer ls) = Inr a"
    "lex_at E a (0 # 32 # rest) [46] (lx_linenumber ls)"
    using after_save [OF at] by auto
  obtain b where b: "check_next E ''.'' a = Inr (b, True)" "lex_at E b (32 # rest) [46, 0] (lx_linenumber ls)"
    using check_zero_at [OF a(2)] by auto
  have "llex E f sem ls = read_dots E g sem (luaZ_resetbuffer ls)"
    using lex_at_char [OF at] by (simp add: llex_def f llex_loop.simps(2) currIsNewline_def uchar_codes)
  then show ?thesis
    using a(1) b check_dot_at(2) [OF b(2)] by (auto simp: read_dots_def lex_at_def)
qed

theorem zero_byte_as_dot_witness:
  "\<exists>ls ls'. text_lexer [CHR ''.'', CHR 0x00] '' x'' = Inr ls \<and>
     llex text_env 2 NoSem ls = Inr (ls', TOKEN_CONCAT, NoSem)"
proof -
  obtain ls where ls: "text_lexer [CHR ''.'', CHR 0x00] '' x'' = Inr ls"
    "pending text_env ls (str_bytes [CHR ''.'', CHR 0x00] @ str_bytes '' x'')" "buff_ok (lx_buff ls)"
    using text_lexer_at [of "[CHR ''.'', CHR 0x00]" "'' x''"] by auto
  then have "pending text_env ls (46 # 0 # 32 # str_bytes ''x'')" by (simp add: uchar_def)
  from zero_byte_as_dot [OF this ls(3), of 2 NoSem] ls(1) show ?thesis by auto
qed

end
