(* ===== verification/TabLib.thy ===== *)
theory TabLib
  imports SlotMap StrFormat
begin

text \<open>
  The table library (\<open>ltablib.c\<close>) on one table. Functions of the caller are arguments that may
  also change the table: they take it and return it. Positions are C ints.
\<close>

section \<open>Access by number\<close>

definition lua_rawgeti :: "Table \<Rightarrow> int \<Rightarrow> TValue" where
  "lua_rawgeti t n = read_slot t (luaH_getnum t n)"

definition lua_rawseti :: "(addr \<Rightarrow> u32) \<Rightarrow> Table \<Rightarrow> int \<Rightarrow> TValue \<Rightarrow> Table result" where
  "lua_rawseti sh t n v = seqR (luaH_setnum sh t n) (\<lambda>(t, s). Inr (write_slot t s v))"

definition aux_getn :: "Table \<Rightarrow> int result" where "aux_getn t = luaH_getn t"

section \<open>Traversal\<close>

text \<open>The results of \<open>f\<close> are its first one; the loops end at the first that is not nil.\<close>

type_synonym tfun = "Table \<Rightarrow> TValue list \<Rightarrow> (Table \<times> TValue) result"

function foreachi_loop :: "tfun \<Rightarrow> int \<Rightarrow> int \<Rightarrow> Table \<Rightarrow> (Table \<times> TValue option) result" where
  "foreachi_loop f i n t =
     (if i \<le> n then
        seqR (f t [NUMBER (cast_num i), lua_rawgeti t i]) (\<lambda>(t, r).
          if r \<noteq> NIL then Inr (t, Some r) else foreachi_loop f (i + 1) n t)
      else Inr (t, None))"
  by pat_completeness auto
termination by (relation "measure (\<lambda>(f, i, n, t). nat (n + 1 - i))") auto

declare foreachi_loop.simps [simp del]

definition foreachi :: "tfun \<Rightarrow> Table \<Rightarrow> (Table \<times> TValue option) result" where
  "foreachi f t = seqR (aux_getn t) (\<lambda>n. foreachi_loop f 1 n t)"

text \<open>A function that adds keys can keep a traversal from ending: fuel.\<close>

primrec foreach_loop :: "(addr \<Rightarrow> u32) \<Rightarrow> tfun \<Rightarrow> nat \<Rightarrow> TValue \<Rightarrow> Table \<Rightarrow> (Table \<times> TValue option) result" where
  "foreach_loop sh f 0 key t = Inl OutOfFuel"
| "foreach_loop sh f (Suc g) key t =
     seqR (luaH_next sh t key) (\<lambda>kv.
       case kv of
         None \<Rightarrow> Inr (t, None)
       | Some (k, v) \<Rightarrow>
           seqR (f t [k, v]) (\<lambda>(t, r).
             if r \<noteq> NIL then Inr (t, Some r) else foreach_loop sh f g k t))"

definition foreach :: "(addr \<Rightarrow> u32) \<Rightarrow> tfun \<Rightarrow> nat \<Rightarrow> Table \<Rightarrow> (Table \<times> TValue option) result" where
  "foreach sh f g t = foreach_loop sh f g NIL t"

primrec maxn_loop :: "(addr \<Rightarrow> u32) \<Rightarrow> Table \<Rightarrow> nat \<Rightarrow> TValue \<Rightarrow> lua_Number \<Rightarrow> lua_Number result" where
  "maxn_loop sh t 0 key m = Inl OutOfFuel"
| "maxn_loop sh t (Suc g) key m =
     seqR (luaH_next sh t key) (\<lambda>kv.
       case kv of
         None \<Rightarrow> Inr m
       | Some (k, _) \<Rightarrow>
           maxn_loop sh t g k (case k of NUMBER v \<Rightarrow> if luai_numlt m v then v else m | _ \<Rightarrow> m))"

text \<open>One turn for each slot of the table, and one to see the end.\<close>

definition maxn :: "(addr \<Rightarrow> u32) \<Rightarrow> Table \<Rightarrow> lua_Number result" where
  "maxn sh t = maxn_loop sh t (sizearray t + length (node t) + 1) NIL 0"

definition getn :: "Table \<Rightarrow> lua_Number result" where
  "getn t = seqR (aux_getn t) (\<lambda>n. Inr (cast_num n))"

definition setn :: "Table \<Rightarrow> Table result" where
  "setn t = Inl (RunError (quoted ''setn'' @ '' is obsolete''))"

section \<open>Insertion and removal\<close>

text \<open>Move up the elements behind \<open>pos\<close>, from \<open>i\<close> down.\<close>

function move_up :: "(addr \<Rightarrow> u32) \<Rightarrow> Table \<Rightarrow> int \<Rightarrow> int \<Rightarrow> Table result" where
  "move_up sh t i pos =
     (if i > pos then
        seqR (lua_rawseti sh t i (lua_rawgeti t (i - 1))) (\<lambda>t. move_up sh t (i - 1) pos)
      else Inr t)"
  by pat_completeness auto
termination by (relation "measure (\<lambda>(sh, t, i, pos). nat (i - pos))") auto

declare move_up.simps [simp del]

text \<open>\<open>nargs\<close> is the number of arguments; \<open>p\<close> the position, when there are three.\<close>

definition tinsert :: "(addr \<Rightarrow> u32) \<Rightarrow> Table \<Rightarrow> nat \<Rightarrow> int \<Rightarrow> TValue \<Rightarrow> Table result" where
  "tinsert sh t nargs p v =
     seqR (aux_getn t) (\<lambda>n.
       let e = n + 1 in
       if nargs = 2 then lua_rawseti sh t e v
       else if nargs = 3 then
         (let e = (if p > e then p else e) in
          seqR (move_up sh t e p) (\<lambda>t. lua_rawseti sh t p v))
       else Inl (RunError (''wrong number of arguments to '' @ quoted ''insert'')))"

function move_down :: "(addr \<Rightarrow> u32) \<Rightarrow> Table \<Rightarrow> int \<Rightarrow> int \<Rightarrow> Table result" where
  "move_down sh t pos e =
     (if pos < e then
        seqR (lua_rawseti sh t pos (lua_rawgeti t (pos + 1))) (\<lambda>t. move_down sh t (pos + 1) e)
      else Inr t)"
  by pat_completeness auto
termination by (relation "measure (\<lambda>(sh, t, pos, e). nat (e - pos))") auto

declare move_down.simps [simp del]

definition tremove :: "(addr \<Rightarrow> u32) \<Rightarrow> Table \<Rightarrow> int option \<Rightarrow> (Table \<times> TValue option) result" where
  "tremove sh t p =
     seqR (aux_getn t) (\<lambda>e.
       let pos = (case p of None \<Rightarrow> e | Some p \<Rightarrow> p) in
       if \<not> (1 \<le> pos \<and> pos \<le> e) then Inr (t, None)
       else
         let v = lua_rawgeti t pos in
         seqR (move_down sh t pos e) (\<lambda>t.
         seqR (lua_rawseti sh t e NIL) (\<lambda>t. Inr (t, Some v))))"

section \<open>Concatenation\<close>

text \<open>\<open>bytes\<close> gives the bytes of a string object.\<close>

definition addfield :: "(lua_Number \<Rightarrow> string) \<Rightarrow> (addr \<Rightarrow> string) \<Rightarrow> Table \<Rightarrow> int \<Rightarrow> string result" where
  "addfield num2str bytes t i =
     (case lua_rawgeti t i of
        STRING p \<Rightarrow> Inr (bytes p)
      | NUMBER n \<Rightarrow> Inr (num2str n)
      | v \<Rightarrow> Inl (RunError (''invalid value ('' @ luaT_typenames ! ttype v @ '') at index '' @
               num2str (cast_num i) @ '' in table for '' @ quoted ''concat'')))"

function concat_loop :: "(lua_Number \<Rightarrow> string) \<Rightarrow> (addr \<Rightarrow> string) \<Rightarrow> Table \<Rightarrow> string \<Rightarrow> int \<Rightarrow> int \<Rightarrow> string result" where
  "concat_loop num2str bytes t sep i lst =
     (if i < lst then
        seqR (addfield num2str bytes t i) (\<lambda>s.
        seqR (concat_loop num2str bytes t sep (i + 1) lst) (\<lambda>b. Inr (s @ sep @ b)))
      else if i = lst then addfield num2str bytes t i
      else Inr [])"
  by pat_completeness auto
termination by (relation "measure (\<lambda>(num2str, bytes, t, sep, i, lst). nat (lst - i))") auto

declare concat_loop.simps [simp del]

definition tconcat :: "(lua_Number \<Rightarrow> string) \<Rightarrow> (addr \<Rightarrow> string) \<Rightarrow> Table \<Rightarrow> string option \<Rightarrow> int option \<Rightarrow>
    int option \<Rightarrow> string result" where
  "tconcat num2str bytes t sep i lst =
     seqR (case lst of Some l \<Rightarrow> Inr l | None \<Rightarrow> aux_getn t) (\<lambda>lst.
       concat_loop num2str bytes t (case sep of None \<Rightarrow> [] | Some s \<Rightarrow> s)
         (case i of None \<Rightarrow> 1 | Some i \<Rightarrow> i) lst)"

section \<open>Quicksort\<close>

text \<open>
  The sort works on any store of elements by number; \<open>get\<close> and \<open>set'\<close> are \<open>lua_rawgeti\<close> and
  \<open>lua_rawseti\<close>, and \<open>lt\<close> is \<open>sort_comp\<close>: the caller's function or \<open>lua_lessthan\<close>.
\<close>

type_synonym ('t, 'v) getter = "'t \<Rightarrow> int \<Rightarrow> 'v"
type_synonym ('t, 'v) setter = "'t \<Rightarrow> int \<Rightarrow> 'v \<Rightarrow> 't result"
type_synonym ('t, 'v) comparer = "'t \<Rightarrow> 'v \<Rightarrow> 'v \<Rightarrow> ('t \<times> bool) result"

text \<open>Two elements on the stack, the second on top: it is stored first.\<close>

definition set2 :: "('t, 'v) setter \<Rightarrow> 't \<Rightarrow> int \<Rightarrow> int \<Rightarrow> 'v \<Rightarrow> 'v \<Rightarrow> 't result" where
  "set2 set' t i j below upper = seqR (set' t i upper) (\<lambda>t. set' t j below)"

definition sort_error :: "'a result" where
  "sort_error = Inl (RunError ''invalid order function for sorting'')"

function scan_up :: "('t, 'v) getter \<Rightarrow> ('t, 'v) comparer \<Rightarrow> 'v \<Rightarrow> int \<Rightarrow> 't \<Rightarrow> int \<Rightarrow> ('t \<times> int \<times> 'v) result" where
  "scan_up get lt P u t i =
     (let i = i + 1; x = get t i in
      seqR (lt t x P) (\<lambda>(t, b).
        if b then (if i > u then sort_error else scan_up get lt P u t i) else Inr (t, i, x)))"
  by pat_completeness auto
termination by (relation "measure (\<lambda>(get, lt, P, u, t, i). nat (u + 1 - i))") auto

function scan_down :: "('t, 'v) getter \<Rightarrow> ('t, 'v) comparer \<Rightarrow> 'v \<Rightarrow> int \<Rightarrow> 't \<Rightarrow> int \<Rightarrow> ('t \<times> int \<times> 'v) result" where
  "scan_down get lt P l t j =
     (let j = j - 1; x = get t j in
      seqR (lt t P x) (\<lambda>(t, b).
        if b then (if j < l then sort_error else scan_down get lt P l t j) else Inr (t, j, x)))"
  by pat_completeness auto
termination by (relation "measure (\<lambda>(get, lt, P, l, t, j). nat (j + 1 - l))") auto

declare scan_up.simps [simp del] scan_down.simps [simp del]

lemma scan_up_gt: "scan_up get lt P u t i = Inr (t', i', x) \<Longrightarrow> i < i'"
proof (induction "nat (u + 1 - i)" arbitrary: i t rule: less_induct)
  case less
  have "i + 1 \<le> u \<Longrightarrow> scan_up get lt P u s (i + 1) = Inr (t', i', x) \<Longrightarrow> i + 1 < i'" for s
    by (intro less.hyps) auto
  with less.prems show ?case
    by (subst (asm) scan_up.simps) (fastforce simp: Let_def sort_error_def split: if_splits)
qed

lemma scan_down_lt: "scan_down get lt P l t j = Inr (t', j', x) \<Longrightarrow> j' < j"
proof (induction "nat (j + 1 - l)" arbitrary: j t rule: less_induct)
  case less
  have "l \<le> j - 1 \<Longrightarrow> scan_down get lt P l s (j - 1) = Inr (t', j', x) \<Longrightarrow> j' < j - 1" for s
    by (intro less.hyps) auto
  with less.prems show ?case
    by (subst (asm) scan_down.simps) (fastforce simp: Let_def sort_error_def split: if_splits)
qed

text \<open>The loop around a pivot \<open>P\<close>; the result is the final \<open>i\<close>.\<close>

function partition_loop :: "('t, 'v) getter \<Rightarrow> ('t, 'v) setter \<Rightarrow> ('t, 'v) comparer \<Rightarrow> 'v \<Rightarrow> int \<Rightarrow> int \<Rightarrow> 't \<Rightarrow>
    int \<Rightarrow> int \<Rightarrow> ('t \<times> int) result" where
  "partition_loop get set' lt P l u t i j =
     seqR (scan_up get lt P u t i) (\<lambda>(t, i, x).
     seqR (scan_down get lt P l t j) (\<lambda>(t, j, y).
       if j < i then Inr (t, i)
       else seqR (set2 set' t i j x y) (\<lambda>t. partition_loop get set' lt P l u t i j)))"
  by pat_completeness auto
termination
  by (relation "measure (\<lambda>(get, set', lt, P, l, u, t, i, j). nat (j - i))")
    (auto dest!: scan_up_gt scan_down_lt)

declare partition_loop.simps [simp del]

text \<open>The first three comparisons; \<open>True\<close> when the interval is sorted by them.\<close>

definition sort_three :: "('t, 'v) getter \<Rightarrow> ('t, 'v) setter \<Rightarrow> ('t, 'v) comparer \<Rightarrow> 't \<Rightarrow> int \<Rightarrow> int \<Rightarrow>
    ('t \<times> bool) result" where
  "sort_three get set' lt t l u =
     (let al = get t l; au = get t u in
      seqR (lt t au al) (\<lambda>(t, b).
      seqR (if b then set2 set' t l u al au else Inr t) (\<lambda>t.
        if u - l = 1 then Inr (t, True)
        else if l + u > INT_MAX then Inl Undefined
        else
          let i = (l + u) div 2; ai = get t i; al = get t l in
          seqR (lt t ai al) (\<lambda>(t, b).
          seqR (if b then set2 set' t i l ai al
                else
                  let au = get t u in
                  seqR (lt t au ai) (\<lambda>(t, b). if b then set2 set' t i u ai au else Inr t)) (\<lambda>t.
            Inr (t, u - l = 2))))))"

text \<open>Each turn of the loop and each call takes one unit of fuel.\<close>

primrec auxsort :: "('t, 'v) getter \<Rightarrow> ('t, 'v) setter \<Rightarrow> ('t, 'v) comparer \<Rightarrow> nat \<Rightarrow> 't \<Rightarrow> int \<Rightarrow> int \<Rightarrow>
    't result" where
  "auxsort get set' lt 0 t l u = (if l < u then Inl OutOfFuel else Inr t)"
| "auxsort get set' lt (Suc f) t l u =
     (if l < u then
        seqR (sort_three get set' lt t l u) (\<lambda>(t, sorted').
          if sorted' then Inr t
          else
            let m = (l + u) div 2; P = get t m in
            seqR (set2 set' t m (u - 1) P (get t (u - 1))) (\<lambda>t.
            seqR (partition_loop get set' lt P l u t l (u - 1)) (\<lambda>(t, i).
            seqR (set2 set' t (u - 1) i (get t (u - 1)) (get t i)) (\<lambda>t.
              let (j, i, l, u) = (if i - l < u - i then (l, i - 1, i + 1, u) else (i + 1, u, l, i - 1)) in
              seqR (auxsort get set' lt f t j i) (\<lambda>t. auxsort get set' lt f t l u)))))
      else Inr t)"

text \<open>The caller's function when there is one; else \<open>lua_lessthan\<close>, which may fail.\<close>

definition sort_comp :: "tfun option \<Rightarrow> (TValue \<Rightarrow> TValue \<Rightarrow> bool result) \<Rightarrow> (Table, TValue) comparer" where
  "sort_comp f lessthan t a b =
     (case f of
        Some f \<Rightarrow> seqR (f t [a, b]) (\<lambda>(t, r). Inr (t, \<not> l_isfalse r))
      | None \<Rightarrow> seqR (lessthan a b) (\<lambda>r. Inr (t, r)))"

definition sort_table :: "(addr \<Rightarrow> u32) \<Rightarrow> tfun option \<Rightarrow> (TValue \<Rightarrow> TValue \<Rightarrow> bool result) \<Rightarrow> nat \<Rightarrow> Table \<Rightarrow>
    Table result" where
  "sort_table sh f lessthan fuel t =
     seqR (aux_getn t) (\<lambda>n. auxsort lua_rawgeti (lua_rawseti sh) (sort_comp f lessthan) fuel t 1 n)"

end
