(* ===== verification/SortSpec.thy ===== *)
theory SortSpec
  imports TabLib "HOL-Library.Multiset"
begin

text \<open>
  The quicksort of the table library against what sorting means: the locale \<open>element_store\<close> is
  what it needs of the elements' store, \<open>sortable\<close> of the order; the tables of the interpreter
  are an instance of the first for every table, of the second for numbers.
\<close>

locale element_store =
  fixes ok :: "'t \<Rightarrow> bool" and has :: "'t \<Rightarrow> int \<Rightarrow> bool"
    and get :: "('t, 'v) getter" and set' :: "('t, 'v) setter"
  assumes store: "ok t \<Longrightarrow> has t i \<Longrightarrow>
    \<exists>t'. set' t i v = Inr t' \<and> ok t' \<and> has t' = has t \<and>
      (\<forall>j. has t j \<longrightarrow> get t' j = (if j = i then v else get t j))"
begin

text \<open>\<open>t'\<close> is \<open>t\<close> with the elements from \<open>l\<close> to \<open>u\<close> in another order.\<close>

definition perm :: "int \<Rightarrow> int \<Rightarrow> 't \<Rightarrow> 't \<Rightarrow> bool" where
  "perm l u t t' \<longleftrightarrow> ok t' \<and> has t' = has t \<and> (\<forall>j. has t j \<and> j \<notin> {l..u} \<longrightarrow> get t' j = get t j) \<and>
     image_mset (get t') (mset_set {l..u}) = image_mset (get t) (mset_set {l..u})"

lemma perm_refl: "ok t \<Longrightarrow> perm l u t t"
  by (simp add: perm_def)

lemma perm_trans: "perm l u t t' \<Longrightarrow> perm l u t' t'' \<Longrightarrow> perm l u t t''"
  by (simp add: perm_def)

lemma perm_ok: "perm l u t t' \<Longrightarrow> ok t'" "perm l u t t' \<Longrightarrow> has t' = has t"
  by (simp_all add: perm_def)

lemma perm_outside: "perm l u t t' \<Longrightarrow> has t j \<Longrightarrow> j \<notin> {l..u} \<Longrightarrow> get t' j = get t j"
  by (simp add: perm_def)

lemma perm_ball:
  assumes "perm l u t t'" "\<forall>j \<in> {l..u}. Q (get t j)"
  shows "\<forall>j \<in> {l..u}. Q (get t' j)"
proof -
  have "image_mset (get t') (mset_set {l..u}) = image_mset (get t) (mset_set {l..u})"
    using assms(1) by (simp add: perm_def)
  then have "set_mset (image_mset (get t') (mset_set {l..u})) = set_mset (image_mset (get t) (mset_set {l..u}))"
    by simp
  then have "get t' ` {l..u} = get t ` {l..u}" by simp
  then show ?thesis using assms(2) by (metis (no_types, lifting) image_iff)
qed

lemma perm_mono:
  assumes p: "perm l u t t'" and sub: "l' \<le> l" "u \<le> u'" and has: "\<forall>j \<in> {l'..u'}. has t j"
  shows "perm l' u' t t'"
proof -
  have split: "{l'..u'} = {l..u} \<union> ({l'..u'} - {l..u})" using sub by auto
  have "image_mset (get t') (mset_set ({l'..u'} - {l..u})) = image_mset (get t) (mset_set ({l'..u'} - {l..u}))"
    using p has by (intro image_mset_cong) (auto simp: perm_def)
  moreover have "mset_set {l'..u'} = mset_set {l..u} + mset_set ({l'..u'} - {l..u})"
    using mset_set_Union [of "{l..u}" "{l'..u'} - {l..u}"] split by simp
  ultimately show ?thesis using p sub by (auto simp: perm_def)
qed

lemma swap:
  assumes "ok t" "has t i" "has t j" "i \<in> {l..u}" "j \<in> {l..u}" "\<forall>k \<in> {l..u}. has t k"
  shows "\<exists>t'. set2 set' t i j (get t i) (get t j) = Inr t' \<and> perm l u t t' \<and>
    (\<forall>k. has t k \<longrightarrow> get t' k = (if k = i then get t j else if k = j then get t i else get t k))"
proof -
  obtain t1 where t1: "set' t i (get t j) = Inr t1" "ok t1" "has t1 = has t"
    "\<forall>k. has t k \<longrightarrow> get t1 k = (if k = i then get t j else get t k)"
    using store [OF assms(1,2)] by blast
  obtain t2 where t2: "set' t1 j (get t i) = Inr t2" "ok t2" "has t2 = has t"
    "\<forall>k. has t k \<longrightarrow> get t2 k = (if k = j then get t i else get t1 k)"
    using store [of t1 j "get t i"] t1 assms(3) by auto
  have g: "get t2 k = (if k = i then get t j else if k = j then get t i else get t k)" if "has t k" for k
    using that t1(4) t2(4) by auto
  define \<pi> where "\<pi> = (\<lambda>k. if k = i then j else if k = j then i else k)"
  have inv: "\<pi> (\<pi> k) = k" for k by (simp add: \<pi>_def)
  have bij: "bij_betw \<pi> {l..u} {l..u}"
    by (rule bij_betw_byWitness [where f' = \<pi>]) (use assms(4,5) in \<open>auto simp: inv, auto simp: \<pi>_def\<close>)
  have "image_mset (get t2) (mset_set {l..u}) = image_mset (get t \<circ> \<pi>) (mset_set {l..u})"
    using g assms(6) by (intro image_mset_cong) (auto simp: \<pi>_def)
  also have "\<dots> = image_mset (get t) (image_mset \<pi> (mset_set {l..u}))"
    by (simp add: multiset.map_comp)
  also have "image_mset \<pi> (mset_set {l..u}) = mset_set {l..u}"
    using image_mset_mset_set [of \<pi> "{l..u}"] bij by (simp add: bij_betw_def)
  finally have "image_mset (get t2) (mset_set {l..u}) = image_mset (get t) (mset_set {l..u})" .
  moreover have "get t2 k = get t k" if "has t k" "k \<notin> {l..u}" for k
    using g [OF that(1)] that(2) assms(4,5) by auto
  ultimately have "perm l u t t2" using t2 by (simp add: perm_def)
  then show ?thesis using g t1(1) t2(1) by (auto simp: set2_def)
qed

end

locale sortable = element_store ok has get set'
  for ok :: "'t \<Rightarrow> bool" and has :: "'t \<Rightarrow> int \<Rightarrow> bool"
    and get :: "('t, 'v) getter" and set' :: "('t, 'v) setter" +
  fixes lt :: "('t, 'v) comparer" and less :: "'v \<Rightarrow> 'v \<Rightarrow> bool" and V :: "'v \<Rightarrow> bool"
  assumes compare: "V x \<Longrightarrow> V y \<Longrightarrow> lt t x y = Inr (t, less x y)"
    and asym: "V x \<Longrightarrow> V y \<Longrightarrow> less x y \<Longrightarrow> \<not> less y x"
    and neg_trans: "V x \<Longrightarrow> V y \<Longrightarrow> V z \<Longrightarrow> \<not> less x y \<Longrightarrow> \<not> less y z \<Longrightarrow> \<not> less x z"
begin

definition le :: "'v \<Rightarrow> 'v \<Rightarrow> bool" where "le x y \<longleftrightarrow> \<not> less y x"

lemma le_refl: "V x \<Longrightarrow> le x x"
  using asym [of x x] by (auto simp: le_def)

lemma le_total: "V x \<Longrightarrow> V y \<Longrightarrow> \<not> le x y \<Longrightarrow> le y x"
  using asym by (auto simp: le_def)

lemma le_trans: "V x \<Longrightarrow> V y \<Longrightarrow> V z \<Longrightarrow> le x y \<Longrightarrow> le y z \<Longrightarrow> le x z"
  unfolding le_def using neg_trans [of z y x] by blast

definition ready :: "'t \<Rightarrow> int \<Rightarrow> int \<Rightarrow> bool" where
  "ready t l u \<longleftrightarrow> ok t \<and> (\<forall>i \<in> {l..u}. has t i \<and> V (get t i))"

lemma ready_value: "ready t l u \<Longrightarrow> i \<in> {l..u} \<Longrightarrow> V (get t i)"
  by (simp add: ready_def)

lemma ready_perm: "ready t l u \<Longrightarrow> perm l u t t' \<Longrightarrow> ready t' l u"
proof -
  assume r: "ready t l u" and p: "perm l u t t'"
  then have "\<forall>i \<in> {l..u}. V (get t' i)" by (intro perm_ball [OF p]) (simp add: ready_def)
  then show ?thesis using r perm_ok [OF p] by (simp add: ready_def)
qed

lemma ready_swap:
  assumes "ready t l u" "i \<in> {l..u}" "j \<in> {l..u}"
  obtains t' where "set2 set' t i j (get t i) (get t j) = Inr t'" "perm l u t t'" "ready t' l u"
    "\<And>k. k \<in> {l..u} \<Longrightarrow> get t' k = (if k = i then get t j else if k = j then get t i else get t k)"
proof -
  have h: "ok t" "has t i" "has t j" "\<forall>k \<in> {l..u}. has t k" using assms by (auto simp: ready_def)
  obtain t' where t': "set2 set' t i j (get t i) (get t j) = Inr t'" "perm l u t t'"
    "\<forall>k. has t k \<longrightarrow> get t' k = (if k = i then get t j else if k = j then get t i else get t k)"
    using swap [OF h(1-3) assms(2,3) h(4)] by blast
  show thesis
    using that [of t'] t' h(4) ready_perm [OF assms(1) t'(2)] by blast
qed

text \<open>The scans stop at an element that need not move, at the latest at the sentinel.\<close>

lemma scan_up_stops:
  assumes "ready t l u" "l \<le> i" "i < u - 1" "le P (get t (u - 1))" "V P"
  shows "\<exists>i'. scan_up get lt P u t i = Inr (t, i', get t i') \<and> i < i' \<and> i' \<le> u - 1 \<and>
    le P (get t i') \<and> (\<forall>k. i < k \<and> k < i' \<longrightarrow> le (get t k) P)"
  using assms
proof (induction "nat (u - i)" arbitrary: i rule: less_induct)
  case less
  have v: "V (get t (i + 1))" using less.prems by (auto simp: ready_def)
  show ?case
  proof (cases "less (get t (i + 1)) P")
    case False
    then show ?thesis
      using less.prems v by (intro exI [of _ "i + 1"]) (auto simp: scan_up.simps [of _ _ _ _ _ i] compare le_def Let_def)
  next
    case True
    then have "i + 1 < u - 1" using less.prems(3,4) by (cases "i + 1 = u - 1") (auto simp: le_def)
    then obtain i' where i': "scan_up get lt P u t (i + 1) = Inr (t, i', get t i')" "i + 1 < i'" "i' \<le> u - 1"
      "le P (get t i')" "\<forall>k. i + 1 < k \<and> k < i' \<longrightarrow> le (get t k) P"
      using less.hyps [of "i + 1"] less.prems by auto
    have "le (get t (i + 1)) P" using True asym v less.prems(5) by (auto simp: le_def)
    then have "\<forall>k. i < k \<and> k < i' \<longrightarrow> le (get t k) P"
      using i'(5) by (metis add1_zle_eq order_le_less)
    then show ?thesis
      using i' True v less.prems(5) \<open>i + 1 < u - 1\<close>
      by (intro exI [of _ i']) (auto simp: scan_up.simps [of _ _ _ _ _ i] compare)
  qed
qed

lemma scan_down_stops:
  assumes "ready t l u" "j \<le> u" "l < j" "le (get t l) P" "V P"
  shows "\<exists>j'. scan_down get lt P l t j = Inr (t, j', get t j') \<and> j' < j \<and> l \<le> j' \<and>
    le (get t j') P \<and> (\<forall>k. j' < k \<and> k < j \<longrightarrow> le P (get t k))"
  using assms
proof (induction "nat (j - l)" arbitrary: j rule: less_induct)
  case less
  have v: "V (get t (j - 1))" using less.prems by (auto simp: ready_def)
  show ?case
  proof (cases "less P (get t (j - 1))")
    case False
    then show ?thesis
      using less.prems v by (intro exI [of _ "j - 1"]) (auto simp: scan_down.simps [of _ _ _ _ _ j] compare le_def Let_def)
  next
    case True
    then have "l < j - 1" using less.prems(3,4) by (cases "l = j - 1") (auto simp: le_def)
    then obtain j' where j': "scan_down get lt P l t (j - 1) = Inr (t, j', get t j')" "j' < j - 1" "l \<le> j'"
      "le (get t j') P" "\<forall>k. j' < k \<and> k < j - 1 \<longrightarrow> le P (get t k)"
      using less.hyps [of "j - 1"] less.prems by auto
    have "le P (get t (j - 1))" using True asym v less.prems(5) by (auto simp: le_def)
    then have "\<forall>k. j' < k \<and> k < j \<longrightarrow> le P (get t k)"
      using j'(5) by (metis zle_diff1_eq order_le_less)
    then show ?thesis
      using j' True v less.prems(5) \<open>l < j - 1\<close>
      by (intro exI [of _ j']) (auto simp: scan_down.simps [of _ _ _ _ _ j] compare)
  qed
qed

text \<open>Around the pivot \<open>P\<close>, which is the last element but one: smaller ones go to the left.\<close>

lemma partition_loop_splits:
  assumes "ready t l u" "l \<le> i" "i < u - 1" "l < j" "j \<le> u - 1" "get t (u - 1) = P"
    and "\<forall>k. l \<le> k \<and> k \<le> i \<longrightarrow> le (get t k) P" "\<forall>k. j \<le> k \<and> k \<le> u \<longrightarrow> le P (get t k)"
    and "i \<le> j"
  shows "\<exists>t' i'. partition_loop get set' lt P l u t i j = Inr (t', i') \<and> perm l u t t' \<and> l < i' \<and> i' \<le> u - 1 \<and>
    get t' (u - 1) = P \<and> (\<forall>k. l \<le> k \<and> k < i' \<longrightarrow> le (get t' k) P) \<and> (\<forall>k. i' \<le> k \<and> k \<le> u \<longrightarrow> le P (get t' k))"
  using assms
proof (induction "nat (j - i)" arbitrary: t i j rule: less_induct)
  case less
  have P: "V P" using less.prems by (auto simp: ready_def)
  obtain i' where i': "scan_up get lt P u t i = Inr (t, i', get t i')" "i < i'" "i' \<le> u - 1"
    "le P (get t i')" "\<forall>k. i < k \<and> k < i' \<longrightarrow> le (get t k) P"
    using scan_up_stops [of t l u i P] less.prems P le_refl by auto
  have "le (get t l) P" using less.prems by auto
  then obtain j' where j': "scan_down get lt P l t j = Inr (t, j', get t j')" "j' < j" "l \<le> j'"
    "le (get t j') P" "\<forall>k. j' < k \<and> k < j \<longrightarrow> le P (get t k)"
    using scan_down_stops [of t l u j P] less.prems P by auto
  have below: "le (get t k) P" if "l \<le> k" "k < i'" for k
    using that less.prems(7) i'(5) by (cases "k \<le> i") auto
  have above: "le P (get t k)" if "j' < k" "k \<le> u" for k
    using that less.prems(8) j'(5) by (cases "j \<le> k") auto
  show ?case
  proof (cases "j' < i'")
    case True
    then show ?thesis
      using i' j' below above less.prems perm_refl
      by (intro exI [of _ t] exI [of _ i']) (auto simp: partition_loop.simps [of _ _ _ _ _ _ _ i] ready_def)
  next
    case False
    then have ij: "i' \<in> {l..u}" "j' \<in> {l..u}" using i' j' less.prems by auto
    obtain t1 where t1: "set2 set' t i' j' (get t i') (get t j') = Inr t1" "perm l u t t1" "ready t1 l u"
      "\<And>k. k \<in> {l..u} \<Longrightarrow> get t1 k = (if k = i' then get t j' else if k = j' then get t i' else get t k)"
      using ready_swap [OF less.prems(1) ij] by blast
    have b1: "\<forall>k. l \<le> k \<and> k \<le> i' \<longrightarrow> le (get t1 k) P"
      using t1(4) ij below j'(4) False by auto
    have a1: "\<forall>k. j' \<le> k \<and> k \<le> u \<longrightarrow> le P (get t1 k)"
      using t1(4) ij above i'(4) False by auto
    have last: "get t1 (u - 1) = P"
      using t1(4) [of "u - 1"] less.prems(2-6) False i' j' ij by auto
    have "\<exists>t' i''. partition_loop get set' lt P l u t1 i' j' = Inr (t', i'') \<and> perm l u t1 t' \<and> l < i'' \<and> i'' \<le> u - 1 \<and>
      get t' (u - 1) = P \<and> (\<forall>k. l \<le> k \<and> k < i'' \<longrightarrow> le (get t' k) P) \<and> (\<forall>k. i'' \<le> k \<and> k \<le> u \<longrightarrow> le P (get t' k))"
      using less.hyps [of j' i' t1] t1(3) i'(2,3) j'(2,3) less.prems(2-5) b1 a1 last False by auto
    then show ?thesis
      using t1(1,2) i'(1) j'(1) False perm_trans by (auto simp: partition_loop.simps [of _ _ _ _ _ _ _ i])
  qed
qed

lemma sort_three_orders:
  assumes r: "ready t l u" and lu: "l < u" "l + u \<le> INT_MAX"
  shows "\<exists>t'. sort_three get set' lt t l u = Inr (t', u - l \<le> 2) \<and> perm l u t t' \<and>
    le (get t' l) (get t' u) \<and> (u - l \<ge> 2 \<longrightarrow> le (get t' l) (get t' ((l + u) div 2)) \<and>
      le (get t' ((l + u) div 2)) (get t' u))"
proof -
  define m where "m = (l + u) div 2"
  have in1: "l \<in> {l..u}" "u \<in> {l..u}" using lu by auto
  note V [simp] = ready_value [OF r]
  obtain t1 where t1: "(if less (get t u) (get t l) then set2 set' t l u (get t l) (get t u) else Inr t) = Inr t1"
    "perm l u t t1" "le (get t1 l) (get t1 u)"
  proof (cases "less (get t u) (get t l)")
    case True
    obtain t1 where "set2 set' t l u (get t l) (get t u) = Inr t1" "perm l u t t1"
      "\<And>k. k \<in> {l..u} \<Longrightarrow> get t1 k = (if k = l then get t u else if k = u then get t l else get t k)"
      using ready_swap [OF r in1] by blast
    then show thesis using that [of t1] True in1 lu asym [of "get t u" "get t l"] by (simp add: le_def)
  next
    case False
    then show thesis using that [of t] r by (simp add: le_def perm_refl ready_def)
  qed
  have r1: "ready t1 l u" using ready_perm [OF r t1(2)] .
  have first: "sort_three get set' lt t l u = seqR (Inr t1) (\<lambda>t. if u - l = 1 then Inr (t, True)
      else let i = m; ai = get t i; al = get t l in
          seqR (lt t ai al) (\<lambda>(t, b).
          seqR (if b then set2 set' t i l ai al
                else let au = get t u in
                  seqR (lt t au ai) (\<lambda>(t, b). if b then set2 set' t i u ai au else Inr t)) (\<lambda>t.
            Inr (t, u - l = 2))))"
    using t1(1) lu by (simp add: sort_three_def compare in1 Let_def m_def)
  show ?thesis
  proof (cases "u - l = 1")
    case True
    then show ?thesis using first t1 by auto
  next
    case False
    then have m: "m \<in> {l..u}" "l < m" "m < u" using lu by (auto simp: m_def)
    have V1: "V (get t1 l)" "V (get t1 m)" "V (get t1 u)" using ready_value [OF r1] in1 m by auto
    have two: "u - l = 2 \<longleftrightarrow> u - l \<le> 2" using False lu by auto
    consider (low) "less (get t1 m) (get t1 l)" | (up) "\<not> less (get t1 m) (get t1 l)" "less (get t1 u) (get t1 m)"
      | (none) "\<not> less (get t1 m) (get t1 l)" "\<not> less (get t1 u) (get t1 m)" by blast
    then show ?thesis
    proof cases
      case low
      obtain t2 where t2: "set2 set' t1 m l (get t1 m) (get t1 l) = Inr t2" "perm l u t1 t2"
        "\<And>k. k \<in> {l..u} \<Longrightarrow> get t2 k = (if k = m then get t1 l else if k = l then get t1 m else get t1 k)"
        using ready_swap [OF r1 m(1) in1(1)] by blast
      have g: "get t2 l = get t1 m" "get t2 m = get t1 l" "get t2 u = get t1 u" using t2(3) in1 m by auto
      have o1: "le (get t1 m) (get t1 l)" using asym V1 low by (auto simp: le_def)
      then have "le (get t1 m) (get t1 u)" using le_trans [OF V1(2,1,3)] t1(3) by blast
      then show ?thesis
        using first False low t2(1) two o1 t1(3) perm_trans [OF t1(2) t2(2)] g
        by (intro exI [of _ t2]) (simp add: compare V1 m_def [symmetric] Let_def)
    next
      case up
      obtain t2 where t2: "set2 set' t1 m u (get t1 m) (get t1 u) = Inr t2" "perm l u t1 t2"
        "\<And>k. k \<in> {l..u} \<Longrightarrow> get t2 k = (if k = m then get t1 u else if k = u then get t1 m else get t1 k)"
        using ready_swap [OF r1 m(1) in1(2)] by blast
      have g: "get t2 l = get t1 l" "get t2 m = get t1 u" "get t2 u = get t1 m" using t2(3) in1 m by auto
      have "le (get t1 u) (get t1 m)" "le (get t1 l) (get t1 m)" using asym V1 up by (auto simp: le_def)
      then show ?thesis
        using first False up t2(1) two t1(3) perm_trans [OF t1(2) t2(2)] g
        by (intro exI [of _ t2]) (simp add: compare V1 m_def [symmetric] Let_def)
    next
      case none
      then show ?thesis
        using first False two t1(2,3)
        by (intro exI [of _ t1]) (simp add: compare V1 m_def [symmetric] Let_def le_def)
    qed
  qed
qed

definition sorted' :: "'t \<Rightarrow> int \<Rightarrow> int \<Rightarrow> bool" where
  "sorted' t l u \<longleftrightarrow> (\<forall>i j. l \<le> i \<and> i \<le> j \<and> j \<le> u \<longrightarrow> le (get t i) (get t j))"

text \<open>Two sorted parts around a pivot are a sorted whole.\<close>

lemma sorted_join:
  assumes "ready t l u" "sorted' t l (i - 1)" "sorted' t (i + 1) u" "l \<le> i" "i \<le> u"
    and "\<forall>k. l \<le> k \<and> k < i \<longrightarrow> le (get t k) (get t i)" "\<forall>k. i < k \<and> k \<le> u \<longrightarrow> le (get t i) (get t k)"
  shows "sorted' t l u"
  unfolding sorted'_def
proof (intro allI impI)
  fix a b assume ab: "l \<le> a \<and> a \<le> b \<and> b \<le> u"
  have V: "V (get t a)" "V (get t i)" "V (get t b)"
    using ready_value [OF assms(1)] ab assms(4,5) by auto
  consider "b < i" | "i < a" | "a = i" "b = i" | "a = i" "i < b" | "a < i" "b = i" | "a < i" "i < b"
    using ab by linarith
  then show "le (get t a) (get t b)"
  proof cases
    case 1 then show ?thesis using assms(2) ab by (simp add: sorted'_def)
  next
    case 2 then show ?thesis using assms(3) ab by (simp add: sorted'_def)
  next
    case 3 then show ?thesis using le_refl V by simp
  next
    case 4 then show ?thesis using assms(7) ab by simp
  next
    case 5 then show ?thesis using assms(6) ab by simp
  next
    case 6 then show ?thesis using assms(6,7) ab le_trans V by blast
  qed
qed

lemma short_sorted:
  assumes r: "ready t l u" and lu: "l < u" "u - l \<le> 2" and o: "le (get t l) (get t u)"
    "u - l \<ge> 2 \<longrightarrow> le (get t l) (get t ((l + u) div 2)) \<and> le (get t ((l + u) div 2)) (get t u)"
  shows "sorted' t l u"
  unfolding sorted'_def
proof (intro allI impI)
  fix i j assume ij: "l \<le> i \<and> i \<le> j \<and> j \<le> u"
  then have "V (get t i)" using ready_value [OF r] by auto
  moreover have "i = j \<or> (i = l \<and> j = u) \<or> (u = l + 2 \<and> (i = l \<and> j = (l + u) div 2 \<or> i = (l + u) div 2 \<and> j = u))"
    using ij lu by auto
  ultimately show "le (get t i) (get t j)" using o le_refl by auto
qed

text \<open>Sorting one side of a pivot leaves it a pivot, and the other side as it was.\<close>

definition split_at :: "'t \<Rightarrow> int \<Rightarrow> int \<Rightarrow> int \<Rightarrow> bool" where
  "split_at t l i u \<longleftrightarrow> ready t l u \<and> l \<le> i \<and> i \<le> u \<and>
     (\<forall>k \<in> {l..i - 1}. le (get t k) (get t i)) \<and> (\<forall>k \<in> {i + 1..u}. le (get t i) (get t k))"

lemma split_left:
  assumes s: "split_at t l i u" and p: "perm l (i - 1) t t'"
  shows "split_at t' l i u" "perm l u t t'"
proof -
  have has: "\<forall>j \<in> {l..u}. has t j" and iu: "l \<le> i" "i \<le> u" using s by (auto simp: split_at_def ready_def)
  show pu: "perm l u t t'" using perm_mono [OF p _ _ has] iu by simp
  have out: "get t' k = get t k" if "i \<le> k" "k \<le> u" for k
    using perm_outside [OF p] has that iu by simp
  have "\<forall>k \<in> {l..i - 1}. le (get t' k) (get t i)"
    using perm_ball [OF p, of "\<lambda>x. le x (get t i)"] s by (simp add: split_at_def)
  then show "split_at t' l i u"
    using s out ready_perm [OF _ pu] iu by (simp add: split_at_def)
qed

lemma split_right:
  assumes s: "split_at t l i u" and p: "perm (i + 1) u t t'"
  shows "split_at t' l i u" "perm l u t t'"
proof -
  have has: "\<forall>j \<in> {l..u}. has t j" and iu: "l \<le> i" "i \<le> u" using s by (auto simp: split_at_def ready_def)
  show pu: "perm l u t t'" using perm_mono [OF p _ _ has] iu by simp
  have out: "get t' k = get t k" if "l \<le> k" "k \<le> i" for k
    using perm_outside [OF p] has that iu by simp
  have "\<forall>k \<in> {i + 1..u}. le (get t i) (get t' k)"
    using perm_ball [OF p, of "\<lambda>x. le (get t i) x"] s by (simp add: split_at_def)
  then show "split_at t' l i u"
    using s out ready_perm [OF _ pu] iu by (simp add: split_at_def)
qed

lemma sorted_outside:
  assumes "perm a b t t'" "sorted' t c d" "d < a \<or> b < c" "\<forall>j \<in> {c..d}. has t j"
  shows "sorted' t' c d"
proof -
  have "get t' k = get t k" if "c \<le> k" "k \<le> d" for k
    using perm_outside [OF assms(1), of k] assms(3,4) that by auto
  then show ?thesis using assms(2) by (simp add: sorted'_def)
qed

lemma split_sorted:
  assumes "split_at t l i u" "sorted' t l (i - 1)" "sorted' t (i + 1) u"
  shows "sorted' t l u"
  using assms by (intro sorted_join [of t l u i]) (auto simp: split_at_def)

lemma split_ready: "split_at t l i u \<Longrightarrow> ready t l (i - 1)" "split_at t l i u \<Longrightarrow> ready t (i + 1) u"
  "split_at t l i u \<Longrightarrow> ready t l u"
  by (auto simp: split_at_def ready_def)

text \<open>From the third element of an interval on: the pivot is placed.\<close>

lemma pivot_placed:
  assumes r: "ready t l u" and lu: "l + 2 < u" "l + u \<le> INT_MAX"
    and o1: "le (get t l) (get t ((l + u) div 2))" and o2: "le (get t ((l + u) div 2)) (get t u)"
  shows "\<exists>t1 t2 t3 i. set2 set' t ((l + u) div 2) (u - 1) (get t ((l + u) div 2)) (get t (u - 1)) = Inr t1 \<and>
    partition_loop get set' lt (get t ((l + u) div 2)) l u t1 l (u - 1) = Inr (t2, i) \<and>
    set2 set' t2 (u - 1) i (get t2 (u - 1)) (get t2 i) = Inr t3 \<and> perm l u t t3 \<and> split_at t3 l i u"
proof -
  define m where "m = (l + u) div 2"
  have m: "m \<in> {l..u}" "u - 1 \<in> {l..u}" "l < m" "m < u" using lu by (auto simp: m_def)
  define P where "P = get t m"
  have V: "V (get t k)" if "k \<in> {l..u}" for k using ready_value [OF r that] .
  have P: "V P" using V m by (simp add: P_def)
  obtain t1 where t1: "set2 set' t m (u - 1) P (get t (u - 1)) = Inr t1" "perm l u t t1" "ready t1 l u"
    "\<And>k. k \<in> {l..u} \<Longrightarrow> get t1 k = (if k = m then get t (u - 1) else if k = u - 1 then P else get t k)"
    using ready_swap [OF r m(1,2)] unfolding P_def by blast
  have last: "get t1 (u - 1) = P" using t1(4) [OF m(2)] by (simp add: P_def)
  have fst: "get t1 l = get t l" "get t1 u = get t u" using t1(4) m lu by auto
  obtain t2 i where t2: "partition_loop get set' lt P l u t1 l (u - 1) = Inr (t2, i)" "perm l u t1 t2"
    "l < i" "i \<le> u - 1" "get t2 (u - 1) = P" "\<And>k. l \<le> k \<Longrightarrow> k < i \<Longrightarrow> le (get t2 k) P"
    "\<And>k. i \<le> k \<Longrightarrow> k \<le> u \<Longrightarrow> le P (get t2 k)"
  proof -
    have "\<forall>k. l \<le> k \<and> k \<le> l \<longrightarrow> le (get t1 k) P" using fst o1 by (auto simp: P_def m_def dest: antisym)
    moreover have "\<forall>k. u - 1 \<le> k \<and> k \<le> u \<longrightarrow> le P (get t1 k)"
    proof (intro allI impI)
      fix k assume "u - 1 \<le> k \<and> k \<le> u"
      then have "k = u - 1 \<or> k = u" by linarith
      then show "le P (get t1 k)" using fst(2) last o2 le_refl [OF P] by (auto simp: P_def m_def)
    qed
    ultimately show thesis
      using partition_loop_splits [OF t1(3), of l "u - 1" P] last lu that by auto
  qed
  have r2: "ready t2 l u" using ready_perm [OF t1(3) t2(2)] .
  have i: "i \<in> {l..u}" using t2(3,4) by simp
  obtain t3 where t3: "set2 set' t2 (u - 1) i (get t2 (u - 1)) (get t2 i) = Inr t3" "perm l u t2 t3" "ready t3 l u"
    "\<And>k. k \<in> {l..u} \<Longrightarrow> get t3 k = (if k = u - 1 then get t2 i else if k = i then get t2 (u - 1) else get t2 k)"
    using ready_swap [OF r2 m(2) i] by blast
  have gi: "get t3 i = P" using t3(4) [OF i] t2(5) by auto
  have "\<forall>k \<in> {l..i - 1}. le (get t3 k) P"
    using t3(4) t2(4,6) i by auto
  moreover have "\<forall>k \<in> {i + 1..u}. le P (get t3 k)"
    using t3(4) t2(4,7) i by auto
  ultimately have "split_at t3 l i u"
    using t3(3) i gi by (simp add: split_at_def)
  moreover have "perm l u t t3"
    using perm_trans [OF perm_trans [OF t1(2) t2(2)] t3(2)] .
  ultimately show ?thesis using t1(1) t2(1) t3(1) unfolding P_def m_def by blast
qed

definition sorts :: "nat \<Rightarrow> int \<Rightarrow> int \<Rightarrow> bool" where
  "sorts f l u \<longleftrightarrow> (\<forall>t. ready t l u \<longrightarrow>
     (\<exists>t'. auxsort get set' lt f t l u = Inr t' \<and> perm l u t t' \<and> sorted' t' l u))"

lemma sort_left_right:
  assumes "sorts f l (i - 1)" "sorts f (i + 1) u" and t: "split_at t l i u"
  shows "\<exists>t'. seqR (auxsort get set' lt f t l (i - 1)) (\<lambda>t. auxsort get set' lt f t (i + 1) u) = Inr t' \<and>
    perm l u t t' \<and> sorted' t' l u"
proof -
  obtain t4 where t4: "auxsort get set' lt f t l (i - 1) = Inr t4" "perm l (i - 1) t t4" "sorted' t4 l (i - 1)"
    using assms(1) split_ready(1) [OF t] unfolding sorts_def by blast
  note s4 = split_left [OF t t4(2)]
  obtain t5 where t5: "auxsort get set' lt f t4 (i + 1) u = Inr t5" "perm (i + 1) u t4 t5" "sorted' t5 (i + 1) u"
    using assms(2) split_ready(2) [OF s4(1)] unfolding sorts_def by blast
  note s5 = split_right [OF s4(1) t5(2)]
  have "sorted' t5 l (i - 1)"
    using sorted_outside [OF t5(2) t4(3)] split_ready(1) [OF s4(1)] by (simp add: ready_def)
  then have "sorted' t5 l u" using split_sorted [OF s5(1)] t5(3) by blast
  then show ?thesis using t4(1) t5(1) perm_trans [OF s4(2) s5(2)] by simp
qed

lemma sort_right_left:
  assumes "sorts f l (i - 1)" "sorts f (i + 1) u" and t: "split_at t l i u"
  shows "\<exists>t'. seqR (auxsort get set' lt f t (i + 1) u) (\<lambda>t. auxsort get set' lt f t l (i - 1)) = Inr t' \<and>
    perm l u t t' \<and> sorted' t' l u"
proof -
  obtain t4 where t4: "auxsort get set' lt f t (i + 1) u = Inr t4" "perm (i + 1) u t t4" "sorted' t4 (i + 1) u"
    using assms(2) split_ready(2) [OF t] unfolding sorts_def by blast
  note s4 = split_right [OF t t4(2)]
  obtain t5 where t5: "auxsort get set' lt f t4 l (i - 1) = Inr t5" "perm l (i - 1) t4 t5" "sorted' t5 l (i - 1)"
    using assms(1) split_ready(1) [OF s4(1)] unfolding sorts_def by blast
  note s5 = split_left [OF s4(1) t5(2)]
  have "sorted' t5 (i + 1) u"
    using sorted_outside [OF t5(2) t4(3)] split_ready(2) [OF s4(1)] by (simp add: ready_def)
  then have "sorted' t5 l u" using split_sorted [OF s5(1)] t5(3) by blast
  then show ?thesis using t4(1) t5(1) perm_trans [OF s4(2) s5(2)] by simp
qed

text \<open>Fuel of the length of the interval is enough: it never runs out.\<close>

lemma auxsort_sorts: "u - l < int f \<Longrightarrow> 2 * u \<le> INT_MAX + 1 \<Longrightarrow> sorts f l u"
proof (induction f arbitrary: l u)
  case 0
  then show ?case by (auto simp: sorts_def perm_refl ready_def sorted'_def)
next
  case (Suc f)
  show ?case
    unfolding sorts_def
  proof (intro allI impI)
    fix t assume r: "ready t l u"
    show "\<exists>t'. auxsort get set' lt (Suc f) t l u = Inr t' \<and> perm l u t t' \<and> sorted' t' l u"
    proof (cases "l < u")
      case False
      then have "sorted' t l u"
        using r le_refl by (auto simp: sorted'_def ready_def dest: antisym)
      then show ?thesis using False r by (intro exI [of _ t]) (auto simp: perm_refl ready_def)
    next
      case lu: True
      obtain t0 where t0: "sort_three get set' lt t l u = Inr (t0, u - l \<le> 2)" "perm l u t t0"
        "le (get t0 l) (get t0 u)" "u - l \<ge> 2 \<longrightarrow> le (get t0 l) (get t0 ((l + u) div 2)) \<and>
          le (get t0 ((l + u) div 2)) (get t0 u)"
        using sort_three_orders [OF r lu] Suc.prems(2) lu by auto
      have r0: "ready t0 l u" using ready_perm [OF r t0(2)] .
      show ?thesis
      proof (cases "u - l \<le> 2")
        case True
        then show ?thesis using short_sorted [OF r0 lu] t0 lu by auto
      next
        case False
        then have big: "l + 2 < u" "l + u \<le> INT_MAX" using Suc.prems(2) by auto
        obtain t1 t2 t3 i where t: "set2 set' t0 ((l + u) div 2) (u - 1) (get t0 ((l + u) div 2)) (get t0 (u - 1)) = Inr t1"
          "partition_loop get set' lt (get t0 ((l + u) div 2)) l u t1 l (u - 1) = Inr (t2, i)"
          "set2 set' t2 (u - 1) i (get t2 (u - 1)) (get t2 i) = Inr t3" "perm l u t0 t3" "split_at t3 l i u"
          using pivot_placed [OF r0 big] t0(4) big by auto
        have "l \<le> i" "i \<le> u" using t(5) by (auto simp: split_at_def)
        then have IH: "sorts f l (i - 1)" "sorts f (i + 1) u"
          using Suc.IH [of "i - 1" l] Suc.IH [of u "i + 1"] Suc.prems by auto
        have "\<exists>t'. auxsort get set' lt (Suc f) t l u = Inr t' \<and> perm l u t3 t' \<and> sorted' t' l u"
          using sort_left_right [OF IH t(5)] sort_right_left [OF IH t(5)] lu False
          by (cases "i - l < u - i") (simp_all add: t0(1) t(1-3) Let_def)
        then show ?thesis using perm_trans [OF perm_trans [OF t0(2) t(4)]] by blast
      qed
    qed
  qed
qed

end

section \<open>The tables of the interpreter\<close>

definition slot_at :: "Table \<Rightarrow> int \<Rightarrow> bool" where
  "slot_at t i \<longleftrightarrow> is_int32 i \<and> luaH_getnum t i \<noteq> None"

lemma rawseti_slot:
  assumes ok: "table_ok sh t" and i: "slot_at t i"
  shows "\<exists>t'. lua_rawseti sh t i v = Inr t' \<and> table_ok sh t' \<and> slot_at t' = slot_at t \<and>
    (\<forall>j. slot_at t j \<longrightarrow> lua_rawgeti t' j = (if j = i then v else lua_rawgeti t j))"
proof -
  from i obtain s where s: "luaH_getnum t i = Some s" and i32: "is_int32 i"
    by (auto simp: slot_at_def)
  let ?t = "write_slot t s v"
  have h: "holds_key t s (NUMBER (cast_num i))" by (rule iffD1 [OF getnum_spec [OF ok i32] s])
  have ok': "table_ok sh ?t" by (rule write_ok [OF ok h valid_cast_num [OF i32]])
  have same: "luaH_getnum ?t j = luaH_getnum t j" if "is_int32 j" for j
  proof (rule option.expand [OF _ ])
    show "(luaH_getnum ?t j = None) = (luaH_getnum t j = None)"
      using getnum_spec [OF ok' that] getnum_spec [OF ok that] by (metis holds_key_write not_None_eq)
  next
    assume "luaH_getnum ?t j \<noteq> None" "luaH_getnum t j \<noteq> None"
    then show "the (luaH_getnum ?t j) = the (luaH_getnum t j)"
      using getnum_spec [OF ok' that] getnum_spec [OF ok that] by (metis holds_key_write option.exhaust_sel option.inject)
  qed
  have "lua_rawgeti ?t j = (if j = i then v else lua_rawgeti t j)" if j: "slot_at t j" for j
  proof -
    from j obtain r where r: "luaH_getnum t j = Some r" and j32: "is_int32 j" by (auto simp: slot_at_def)
    have hj: "holds_key t r (NUMBER (cast_num j))" by (rule iffD1 [OF getnum_spec [OF ok j32] r])
    have "r = s \<longleftrightarrow> j = i"
    proof
      assume "r = s"
      then have "luaO_rawequalObj (NUMBER (cast_num i)) (NUMBER (cast_num j))"
        using slot_key_unique [OF h] hj valid_cast_num [OF i32] by simp
      then show "j = i" using cast_num_numeq [OF i32 j32] by (simp add: rawequal_iff eq_commute)
    qed (use r s in simp)
    then show ?thesis
      using read_write_slot [OF h hj] same [OF j32] r by (simp add: lua_rawgeti_def)
  qed
  moreover have "lua_rawseti sh t i v = Inr ?t"
    using s by (simp add: lua_rawseti_def luaH_setnum_def luaH_setnum_by_def)
  moreover have "slot_at ?t = slot_at t" using same by (auto simp: slot_at_def fun_eq_iff)
  ultimately show ?thesis using ok' by blast
qed

lemma table_store:
  "table_ok sh t \<Longrightarrow> slot_at t i \<Longrightarrow>
    \<exists>t'. lua_rawseti sh t i v = Inr t' \<and> table_ok sh t' \<and> slot_at t' = slot_at t \<and>
      (\<forall>j. slot_at t j \<longrightarrow> lua_rawgeti t' j = (if j = i then v else lua_rawgeti t j))"
  by (rule rawseti_slot)

interpretation slots: element_store "table_ok sh" slot_at lua_rawgeti "lua_rawseti sh" for sh
  by unfold_locales (rule table_store)

fun numeric :: "TValue \<Rightarrow> bool" where
  "numeric (NUMBER x) \<longleftrightarrow> \<not> dbl_nan x"
| "numeric _ \<longleftrightarrow> False"

fun num_less :: "TValue \<Rightarrow> TValue \<Rightarrow> bool" where
  "num_less (NUMBER x) (NUMBER y) \<longleftrightarrow> luai_numlt x y"
| "num_less _ _ \<longleftrightarrow> False"

text \<open>\<open>lua_lessthan\<close> on numbers.\<close>

definition number_lessthan :: "TValue \<Rightarrow> TValue \<Rightarrow> bool result" where
  "number_lessthan a b = (if numeric a \<and> numeric b then Inr (num_less a b) else Inl Undefined)"

interpretation numbers: sortable "table_ok sh" slot_at lua_rawgeti "lua_rawseti sh"
  "sort_comp None number_lessthan" num_less numeric for sh
proof
  fix x y z
  assume V: "numeric x" "numeric y"
  then show "sort_comp None number_lessthan t x y = Inr (t, num_less x y)" for t
    by (simp add: sort_comp_def number_lessthan_def)
  show "num_less x y \<Longrightarrow> \<not> num_less y x"
    using V by (cases x; cases y) (auto simp: luai_numlt_def)
  assume "numeric z"
  with V show "\<not> num_less x y \<Longrightarrow> \<not> num_less y z \<Longrightarrow> \<not> num_less x z"
    by (cases x; cases y; cases z) (auto simp: luai_numlt_def)
qed

lemma sortable_sorts:
  assumes s: "sortable (table_ok sh) slot_at lua_rawgeti (lua_rawseti sh) (sort_comp f lessthan) prec V"
    and t: "table_ok sh t" "aux_getn t = Inr n" "n < int fuel" "2 * n \<le> INT_MAX + 1"
    and V: "\<forall>i \<in> {1..n}. slot_at t i \<and> V (lua_rawgeti t i)"
  shows "\<exists>t'. sort_table sh f lessthan fuel t = Inr t' \<and> table_ok sh t' \<and>
    image_mset (lua_rawgeti t') (mset_set {1..n}) = image_mset (lua_rawgeti t) (mset_set {1..n}) \<and>
    (\<forall>i j. 1 \<le> i \<and> i \<le> j \<and> j \<le> n \<longrightarrow> \<not> prec (lua_rawgeti t' j) (lua_rawgeti t' i))"
proof -
  have "sortable.ready (table_ok sh) slot_at lua_rawgeti V t 1 n"
    using t V by (simp add: sortable.ready_def [OF s])
  then obtain t' where "auxsort lua_rawgeti (lua_rawseti sh) (sort_comp f lessthan) fuel t 1 n = Inr t'"
    "slots.perm sh 1 n t t'" "sortable.sorted' lua_rawgeti prec t' 1 n"
    using sortable.auxsort_sorts [OF s, of n 1 fuel] t(3,4) unfolding sortable.sorts_def [OF s] by auto
  then show ?thesis
    using t(2) by (auto simp: sort_table_def slots.perm_def sortable.sorted'_def [OF s] sortable.le_def [OF s])
qed

text \<open>C24: \<open>table.sort\<close> ends, without an error, with the elements \<open>1..n\<close> permuted into an order in
  which no later one precedes an earlier one, for every comparison that is a strict weak order on
  the elements and does not touch the table; \<open>n\<close> units of fuel and one more are enough. The bound
  on \<open>n\<close> keeps \<open>(l+u)/2\<close> from overflowing.\<close>

theorem sort_sorts:
  assumes "\<And>t x y. V x \<Longrightarrow> V y \<Longrightarrow> sort_comp f lessthan t x y = Inr (t, prec x y)"
    and "\<And>x y. V x \<Longrightarrow> V y \<Longrightarrow> prec x y \<Longrightarrow> \<not> prec y x"
    and "\<And>x y z. V x \<Longrightarrow> V y \<Longrightarrow> V z \<Longrightarrow> \<not> prec x y \<Longrightarrow> \<not> prec y z \<Longrightarrow> \<not> prec x z"
    and "table_ok sh t" "aux_getn t = Inr n" "n < int fuel" "2 * n \<le> INT_MAX + 1"
    and "\<forall>i \<in> {1..n}. luaH_getnum t i \<noteq> None \<and> V (lua_rawgeti t i)"
  shows "\<exists>t'. sort_table sh f lessthan fuel t = Inr t' \<and> table_ok sh t' \<and>
    image_mset (lua_rawgeti t') (mset_set {1..n}) = image_mset (lua_rawgeti t) (mset_set {1..n}) \<and>
    (\<forall>i j. 1 \<le> i \<and> i \<le> j \<and> j \<le> n \<longrightarrow> \<not> prec (lua_rawgeti t' j) (lua_rawgeti t' i))"
proof -
  have "sortable (table_ok sh) slot_at lua_rawgeti (lua_rawseti sh) (sort_comp f lessthan) prec V"
  proof (rule sortable.intro [OF slots.element_store_axioms sortable_axioms.intro])
    show "V x \<Longrightarrow> V y \<Longrightarrow> sort_comp f lessthan t x y = Inr (t, prec x y)" for t x y by (rule assms(1))
    show "V x \<Longrightarrow> V y \<Longrightarrow> prec x y \<Longrightarrow> \<not> prec y x" for x y by (rule assms(2))
    show "V x \<Longrightarrow> V y \<Longrightarrow> V z \<Longrightarrow> \<not> prec x y \<Longrightarrow> \<not> prec y z \<Longrightarrow> \<not> prec x z" for x y z
      by (rule assms(3))
  qed
  moreover have "\<forall>i \<in> {1..n}. slot_at t i \<and> V (lua_rawgeti t i)"
    using assms(7,8) by (auto simp: slot_at_def is_int32_def)
  ultimately show ?thesis by (rule sortable_sorts [OF _ assms(4-7)])
qed

definition five_array :: Table where
  "five_array = \<lparr>flags = 0, lsizenode = 0, metatable = None,
     array = map (\<lambda>i. NUMBER (cast_num i)) [3, 5, 1, 4, 2], node = [nilnode], lastfree = 0, isdummy = True\<rparr>"

lemma array_table_ok:
  assumes "length xs < 2 ^ 31"
  shows "table_ok sh \<lparr>flags = fl, lsizenode = 0, metatable = None, array = xs,
    node = [nilnode], lastfree = 0, isdummy = True\<rparr>"
proof -
  have "links_ok [nilnode]" "keys_ok m [nilnode]" "live_keys [nilnode] = {}" for m
    using links_ok_fresh [of 1] keys_ok_fresh [of m 1] fresh_facts(1) [of 1] by simp_all
  then show ?thesis using assms by (simp add: table_ok_def sizenode_def sizearray_def twoto_eq)
qed

lemma array_slots:
  assumes "table_ok sh t" "\<forall>v \<in> set (array t). Q v"
  shows "\<forall>i \<in> {1..int (sizearray t)}. luaH_getnum t i \<noteq> None \<and> Q (lua_rawgeti t i)"
proof
  fix i assume i: "i \<in> {1..int (sizearray t)}"
  have size: "sizearray t < 2 ^ 31" by (rule table_okD(5) [OF assms(1)])
  then have "is_int32 i" using i by (auto simp: is_int32_def)
  then have "luaH_getnum t i = Some (ArrSlot (nat (i - 1)))"
    using array_test [of i "sizearray t"] i size by (simp add: luaH_getnum_def)
  moreover have "nat (i - 1) < length (array t)" using i by (auto simp: sizearray_def)
  ultimately show "luaH_getnum t i \<noteq> None \<and> Q (lua_rawgeti t i)"
    using assms(2) by (simp add: lua_rawgeti_def)
qed

lemma five_array_ok: "table_ok sh five_array"
  unfolding five_array_def by (rule array_table_ok) simp

lemma five_array_facts:
  "aux_getn five_array = Inr 5"
  "\<forall>i \<in> {1..5}. luaH_getnum five_array i \<noteq> None \<and> numeric (lua_rawgeti five_array i)"
proof -
  show "aux_getn five_array = Inr 5"
    by (simp add: aux_getn_def luaH_getn_def five_array_def sizearray_def)
  have "\<forall>v \<in> set (array five_array). numeric v" by (simp add: five_array_def is_int32_def)
  moreover have "sizearray five_array = 5" by (simp add: five_array_def sizearray_def)
  ultimately show "\<forall>i \<in> {1..5}. luaH_getnum five_array i \<noteq> None \<and> numeric (lua_rawgeti five_array i)"
    using array_slots [OF five_array_ok, of numeric] by simp
qed

theorem sort_sorts_witness:
  "\<exists>t'. sort_table (\<lambda>_. 0) None number_lessthan 6 five_array = Inr t' \<and>
    (\<forall>i j. 1 \<le> i \<and> i \<le> j \<and> j \<le> 5 \<longrightarrow> \<not> num_less (lua_rawgeti t' j) (lua_rawgeti t' i))"
proof -
  have "\<exists>t'. sort_table (\<lambda>_. 0) None number_lessthan 6 five_array = Inr t' \<and> table_ok (\<lambda>_. 0) t' \<and>
      image_mset (lua_rawgeti t') (mset_set {1..5}) = image_mset (lua_rawgeti five_array) (mset_set {1..5}) \<and>
      (\<forall>i j. 1 \<le> i \<and> i \<le> j \<and> j \<le> 5 \<longrightarrow> \<not> num_less (lua_rawgeti t' j) (lua_rawgeti t' i))"
    by (rule sort_sorts [OF numbers.compare numbers.asym numbers.neg_trans five_array_ok
        five_array_facts(1) _ _ five_array_facts(2)]) simp_all
  then show ?thesis by blast
qed

text \<open>C25: a comparison that answers true for all elements up to the last one is not noticed, if it
  answers false for the element behind it: the scan of \<open>auxsort\<close> stops one place after the end
  of the array, without an error, because its check \<open>i>u\<close> comes after that element was compared.\<close>

theorem scan_past_end:
  assumes "i \<le> u" "\<forall>k. i < k \<and> k \<le> u \<longrightarrow> lt t (get t k) P = Inr (t, True)"
    and "lt t (get t (u + 1)) P = Inr (t, False)"
  shows "scan_up get lt P u t i = Inr (t, u + 1, get t (u + 1))"
  using assms
proof (induction "nat (u - i)" arbitrary: i)
  case 0
  then have "i = u" by simp
  then show ?case using 0 by (simp add: scan_up.simps [of _ _ _ _ _ u] Let_def)
next
  case (Suc n)
  then have "scan_up get lt P u t (i + 1) = Inr (t, u + 1, get t (u + 1))" by auto
  moreover have "lt t (get t (i + 1)) P = Inr (t, True)" using Suc by auto
  moreover have "i + 1 \<le> u" using Suc.hyps(2) by simp
  ultimately show ?case by (simp add: scan_up.simps [of _ _ _ _ _ i] Let_def)
qed

text \<open>An order function that also answers true for equal numbers, on four equal numbers.\<close>

definition le_order :: tfun where
  "le_order t xs = Inr (t, BOOLEAN (case xs of [NUMBER x, NUMBER y] \<Rightarrow> luai_numle x y | _ \<Rightarrow> False))"

definition ones :: Table where
  "ones = \<lparr>flags = 0, lsizenode = 0, metatable = None, array = [NUMBER 1, NUMBER 1, NUMBER 1, NUMBER 1],
     node = [nilnode], lastfree = 0, isdummy = True\<rparr>"

lemma ones_ok: "table_ok sh ones"
  unfolding ones_def by (rule array_table_ok) simp

lemma ones_get: "1 \<le> k \<Longrightarrow> k \<le> 4 \<Longrightarrow> lua_rawgeti ones k = NUMBER 1"
proof -
  have "\<forall>v \<in> set (array ones). v = NUMBER 1" "sizearray ones = 4" by (simp_all add: ones_def sizearray_def)
  then show "1 \<le> k \<Longrightarrow> k \<le> 4 \<Longrightarrow> lua_rawgeti ones k = NUMBER 1"
    using array_slots [OF ones_ok, of "\<lambda>v. v = NUMBER 1"] by simp
qed

lemma ones_get_5: "lua_rawgeti ones 5 = NIL"
proof -
  have "\<not> holds_key ones s (NUMBER (cast_num 5))" for s
    by (cases s) (auto simp: ones_def sizearray_def nilnode_def arrayindex_def number2int_cast_num is_int32_def)
  then have "luaH_getnum ones 5 = None"
    using getnum_spec [OF ones_ok, of 5] by (cases "luaH_getnum ones 5") (auto simp: is_int32_def)
  then show ?thesis by (simp add: lua_rawgeti_def)
qed

lemma one_number: "\<not> dbl_nan 1"
  by code_simp

theorem scan_past_end_witness:
  "scan_up lua_rawgeti (sort_comp (Some le_order) number_lessthan) (NUMBER 1) 4 ones 1 = Inr (ones, 5, NIL)"
  using scan_past_end [of 1 4 "sort_comp (Some le_order) number_lessthan" ones lua_rawgeti "NUMBER 1"]
  by (simp add: sort_comp_def le_order_def ones_get ones_get_5 luai_numle_def one_number)

end
