(* ===== verification/Heap.thy ===== *)
theory Heap
  imports Code DebugSpec TableSpec
begin

text \<open>
  The state of the interpreter (\<open>lstate.h\<close>): the objects of the global state by their address,
  and one thread. A pointer into the stack, the array of calls or the code of a function is an
  index. A computation (\<open>'a vm\<close>) ends with a value or is thrown out of, and changes the state in
  both cases, as code under \<open>luaD_rawrunprotected\<close> does.
\<close>

section \<open>Objects\<close>

record TString =
  ts_reserved :: nat
  ts_hash :: u32
  ts_bytes :: string

record Udata =
  ud_metatable :: "addr option"
  ud_env :: "addr option"
  ud_len :: u64

text \<open>\<open>v\<close> of an upvalue points into the stack or to the upvalue's own value.\<close>

datatype uvref = OnStack nat | Own

record UpVal =
  uv_v :: uvref
  uv_value :: TValue

text \<open>C functions are numbered; \<open>c_upvalue\<close> are the values of a C closure.\<close>

datatype Closure =
    LClosure (c_env: addr) (l_p: Proto) (l_upvals: "addr option list")
  | CClosure (c_env: addr) (c_f: nat) (c_upvalue: "TValue list")

definition isC :: "Closure \<Rightarrow> bool" where
  "isC c = (case c of CClosure _ _ _ \<Rightarrow> True | _ \<Rightarrow> False)"

text \<open>The chains of \<open>strt\<close>; its size is the number of them. \<open>next_addr\<close> is what \<open>malloc\<close> gives next.\<close>

record stringtable =
  st_hash :: "addr list list"
  st_nuse :: u32

record global_State =
  strt :: stringtable
  sweepstring :: bool    \<comment> \<open>\<open>gcstate == GCSsweepstring\<close>\<close>
  strings :: "addr \<Rightarrow> TString option"
  tables :: "addr \<Rightarrow> Table option"
  closures :: "addr \<Rightarrow> Closure option"
  upvalues :: "addr \<Rightarrow> UpVal option"
  udatas :: "addr \<Rightarrow> Udata option"
  next_addr :: addr
  uvhead :: "addr list"  \<comment> \<open>the double-linked list of open upvalues, from its head\<close>
  g_mt :: "addr option list"
  tmname :: "addr list"
  l_registry :: TValue

section \<open>Threads\<close>

record CallInfo =
  ci_base :: nat
  ci_func :: nat
  ci_top :: nat
  ci_savedpc :: nat
  ci_nresults :: int
  ci_tailcalls :: int

text \<open>\<open>stacksize\<close> and \<open>size_ci\<close> are the lengths of the two vectors; \<open>end_ci\<close> is the last call.
  An \<open>errfunc\<close> of 0 is none.\<close>

record lua_State =
  l_status :: int
  l_top :: nat
  l_base :: nat
  l_ci :: nat
  l_savedpc :: nat
  l_stack_last :: nat
  l_stack :: "TValue list"
  l_base_ci :: "CallInfo list"
  l_nCcalls :: nat
  l_baseCcalls :: nat
  l_hookmask :: u8
  l_allowhook :: bool
  l_hashook :: bool
  l_basehookcount :: int
  l_hookcount :: int
  l_gt :: TValue
  l_env :: TValue
  l_openupval :: "addr list"  \<comment> \<open>chained by \<open>next\<close>\<close>
  l_errfunc :: nat
  l_G :: global_State

definition EXTRA_STACK :: nat where "EXTRA_STACK = 5"
definition BASIC_CI_SIZE :: nat where "BASIC_CI_SIZE = 8"
definition LUA_MINSTACK :: nat where "LUA_MINSTACK = 20"
definition BASIC_STACK_SIZE :: nat where "BASIC_STACK_SIZE = 2 * LUA_MINSTACK"
definition LUAI_MAXCALLS :: nat where "LUAI_MAXCALLS = 20000"

section \<open>Computations\<close>

text \<open>\<open>Throw\<close> is \<open>luaD_throw\<close> with its error code; \<open>Fault\<close> a step C leaves undefined, a failed
  assertion included.\<close>

datatype throw = Throw int | Fault | NoFuel

type_synonym 'a vm = "lua_State \<Rightarrow> (throw + 'a) \<times> lua_State"

definition retM :: "'a \<Rightarrow> 'a vm" where "retM x = (\<lambda>L. (Inr x, L))"

definition seqM :: "'a vm \<Rightarrow> ('a \<Rightarrow> 'b vm) \<Rightarrow> 'b vm" where
  "seqM m f = (\<lambda>L. case m L of (Inl e, L) \<Rightarrow> (Inl e, L) | (Inr x, L) \<Rightarrow> f x L)"

definition thenM :: "'a vm \<Rightarrow> 'b vm \<Rightarrow> 'b vm" where "thenM m n = seqM m (\<lambda>_. n)"
definition getM :: "(lua_State \<Rightarrow> 'a) \<Rightarrow> 'a vm" where "getM f = (\<lambda>L. (Inr (f L), L))"
definition modM :: "(lua_State \<Rightarrow> lua_State) \<Rightarrow> unit vm" where "modM f = (\<lambda>L. (Inr (), f L))"
definition throwM :: "throw \<Rightarrow> 'a vm" where "throwM e = (\<lambda>L. (Inl e, L))"
definition whenM :: "bool \<Rightarrow> unit vm \<Rightarrow> unit vm" where "whenM b m = (if b then m else retM ())"
definition assertM :: "bool \<Rightarrow> unit vm" where "assertM b = (if b then retM () else throwM Fault)"
definition theM :: "'a option \<Rightarrow> 'a vm" where
  "theM x = (case x of None \<Rightarrow> throwM Fault | Some x \<Rightarrow> retM x)"

fun forM :: "'a list \<Rightarrow> ('a \<Rightarrow> unit vm) \<Rightarrow> unit vm" where
  "forM [] f = retM ()"
| "forM (x # xs) f = thenM (f x) (forM xs f)"

lemmas vm_defs = retM_def seqM_def thenM_def getM_def modM_def throwM_def whenM_def assertM_def theM_def

lemma seqM_ret [simp]: "seqM (retM x) f = f x" by (simp add: vm_defs)
lemma seqM_get [simp]: "seqM (getM g) f L = f (g L) L" by (simp add: vm_defs)
lemma seqM_mod [simp]: "seqM (modM g) f L = f () (g L)" by (simp add: vm_defs)
lemma thenM_mod [simp]: "thenM (modM g) n L = n (g L)" by (simp add: vm_defs)
lemma thenM_ret [simp]: "thenM (retM x) n = n" by (simp add: vm_defs)
lemma seqM_throw [simp]: "seqM (throwM e) f = throwM e" by (auto simp: vm_defs)
lemma thenM_throw [simp]: "thenM (throwM e) n = throwM e" by (auto simp: vm_defs)
lemma seqM_assoc: "seqM (seqM m f) g = seqM m (\<lambda>x. seqM (f x) g)"
  by (auto simp: vm_defs fun_eq_iff split: sum.splits prod.splits)
lemma retM_apply [simp]: "retM x L = (Inr x, L)" by (simp add: vm_defs)
lemma getM_apply [simp]: "getM f L = (Inr (f L), L)" by (simp add: vm_defs)
lemma modM_apply [simp]: "modM f L = (Inr (), f L)" by (simp add: vm_defs)
lemma throwM_apply [simp]: "throwM e L = (Inl e, L)" by (simp add: vm_defs)
lemma assertM_True [simp]: "assertM True = retM ()" by (simp add: vm_defs)
lemma theM_Some [simp]: "theM (Some x) = retM x" by (simp add: vm_defs)
lemma whenM_simps [simp]: "whenM True m = m" "whenM False m = retM ()" by (simp_all add: vm_defs)

lemma seqM_Inr: "seqM m f L = (Inr y, L') \<longleftrightarrow> (\<exists>x L1. m L = (Inr x, L1) \<and> f x L1 = (Inr y, L'))"
  by (auto simp: seqM_def split: prod.splits sum.splits)

lemma thenM_Inr: "thenM m n L = (Inr y, L') \<longleftrightarrow> (\<exists>x L1. m L = (Inr x, L1) \<and> n L1 = (Inr y, L'))"
  by (simp add: thenM_def seqM_Inr)

section \<open>Access to the state\<close>

definition getstack :: "nat \<Rightarrow> TValue vm" where
  "getstack i = (\<lambda>L. if i < length (l_stack L) then (Inr (l_stack L ! i), L) else (Inl Fault, L))"

definition setstack :: "nat \<Rightarrow> TValue \<Rightarrow> unit vm" where
  "setstack i v = (\<lambda>L. if i < length (l_stack L) then (Inr (), L\<lparr>l_stack := (l_stack L)[i := v]\<rparr>) else (Inl Fault, L))"

definition setobj :: "nat \<Rightarrow> nat \<Rightarrow> unit vm" where
  "setobj dst src = seqM (getstack src) (setstack dst)"

definition set_top :: "nat \<Rightarrow> unit vm" where "set_top i = modM (\<lambda>L. L\<lparr>l_top := i\<rparr>)"

definition modG :: "(global_State \<Rightarrow> global_State) \<Rightarrow> unit vm" where
  "modG f = modM (\<lambda>L. L\<lparr>l_G := f (l_G L)\<rparr>)"

definition string_hash :: "global_State \<Rightarrow> addr \<Rightarrow> u32" where
  "string_hash g p = (case strings g p of None \<Rightarrow> 0 | Some ts \<Rightarrow> ts_hash ts)"

definition the_string :: "addr \<Rightarrow> string vm" where
  "the_string p = seqM (getM (\<lambda>L. strings (l_G L) p)) (\<lambda>x. seqM (theM x) (\<lambda>ts. retM (ts_bytes ts)))"

definition the_table :: "addr \<Rightarrow> Table vm" where
  "the_table p = seqM (getM (\<lambda>L. tables (l_G L) p)) theM"

definition put_table :: "addr \<Rightarrow> Table \<Rightarrow> unit vm" where
  "put_table p t = modG (\<lambda>g. g\<lparr>tables := (tables g)(p \<mapsto> t)\<rparr>)"

definition the_closure :: "addr \<Rightarrow> Closure vm" where
  "the_closure p = seqM (getM (\<lambda>L. closures (l_G L) p)) theM"

definition the_upval :: "addr \<Rightarrow> UpVal vm" where
  "the_upval p = seqM (getM (\<lambda>L. upvalues (l_G L) p)) theM"

definition put_upval :: "addr \<Rightarrow> UpVal \<Rightarrow> unit vm" where
  "put_upval p u = modG (\<lambda>g. g\<lparr>upvalues := (upvalues g)(p \<mapsto> u)\<rparr>)"

text \<open>A fresh block, from an allocator that does not fail.\<close>

definition new_addr :: "addr vm" where
  "new_addr = seqM (getM (\<lambda>L. next_addr (l_G L))) (\<lambda>a.
     thenM (modG (\<lambda>g. g\<lparr>next_addr := a + 1\<rparr>)) (retM a))"

definition the_ci :: "nat \<Rightarrow> CallInfo vm" where
  "the_ci i = seqM (getM (\<lambda>L. if i < length (l_base_ci L) then Some (l_base_ci L ! i) else None)) theM"

definition put_ci :: "nat \<Rightarrow> CallInfo \<Rightarrow> unit vm" where
  "put_ci i c = modM (\<lambda>L. L\<lparr>l_base_ci := (l_base_ci L)[i := c]\<rparr>)"

definition cur_ci :: "CallInfo vm" where "cur_ci = seqM (getM l_ci) the_ci"

text \<open>The closure a call runs, \<open>ci_func\<close>.\<close>

definition ci_closure :: "CallInfo \<Rightarrow> Closure vm" where
  "ci_closure c = seqM (getstack (ci_func c)) (\<lambda>v. case v of FUNCTION p \<Rightarrow> the_closure p | _ \<Rightarrow> throwM Fault)"

definition isLua :: "CallInfo \<Rightarrow> bool vm" where
  "isLua c = seqM (getstack (ci_func c)) (\<lambda>v. case v of
     FUNCTION p \<Rightarrow> seqM (the_closure p) (\<lambda>cl. retM (\<not> isC cl)) | _ \<Rightarrow> retM False)"

definition of_tstring :: "tstring \<Rightarrow> string" where "of_tstring s = map (\<lambda>b. char_of (unat b)) s"

section \<open>Closures\<close>

text \<open>With the prototype its callers store in it at once.\<close>

definition luaF_newLclosure :: "Proto \<Rightarrow> nat \<Rightarrow> addr \<Rightarrow> addr vm" where
  "luaF_newLclosure p nelems e = seqM new_addr (\<lambda>a.
     thenM (modG (\<lambda>g. g\<lparr>closures := (closures g)(a \<mapsto> LClosure e p (replicate nelems None))\<rparr>)) (retM a))"

section \<open>A state to start from\<close>

text \<open>No objects but an empty string table; one call, of nothing, at the bottom of a nil stack.\<close>

definition empty_state :: global_State where
  "empty_state = \<lparr>strt = \<lparr>st_hash = replicate 32 [], st_nuse = 0\<rparr>, sweepstring = False,
     strings = (\<lambda>_. None), tables = (\<lambda>_. None), closures = (\<lambda>_. None), upvalues = (\<lambda>_. None),
     udatas = (\<lambda>_. None), next_addr = 16, uvhead = [], g_mt = replicate 9 None, tmname = [], l_registry = NIL\<rparr>"

definition empty_thread :: lua_State where
  "empty_thread = \<lparr>l_status = 0, l_top = 1, l_base = 1, l_ci = 0, l_savedpc = 0,
     l_stack_last = BASIC_STACK_SIZE - EXTRA_STACK - 1, l_stack = replicate BASIC_STACK_SIZE NIL,
     l_base_ci = replicate BASIC_CI_SIZE \<lparr>ci_base = 1, ci_func = 0, ci_top = 1 + LUA_MINSTACK, ci_savedpc = 0,
       ci_nresults = 0, ci_tailcalls = 0\<rparr>,
     l_nCcalls = 0, l_baseCcalls = 0, l_hookmask = 0, l_allowhook = True, l_hashook = False,
     l_basehookcount = 0, l_hookcount = 0, l_gt = NIL, l_env = NIL, l_openupval = [], l_errfunc = 0, l_G = empty_state\<rparr>"

end
