(* ===== verification/StrTable.thy ===== *)
theory StrTable
  imports Heap "HOL-Library.Multiset"
begin

text \<open>
  The table of all strings (\<open>lstring.c\<close>): contents are interned, so that strings are equal when
  their addresses are. Dead strings and their revival belong to the collector.
\<close>

section \<open>Definitions\<close>

definition lmod :: "u32 \<Rightarrow> nat \<Rightarrow> nat" where
  "lmod h sz = unat (h AND (of_nat sz - 1))"

text \<open>Every chain in turn; each string goes to the front of its new chain.\<close>

definition push_chain :: "global_State \<Rightarrow> nat \<Rightarrow> addr \<Rightarrow> addr list list \<Rightarrow> addr list list" where
  "push_chain g newsize p newhash =
     (let h1 = lmod (string_hash g p) newsize in newhash[h1 := p # newhash ! h1])"

definition rechain :: "global_State \<Rightarrow> nat \<Rightarrow> addr list list \<Rightarrow> addr list list" where
  "rechain g newsize old = fold (push_chain g newsize) (concat old) (replicate newsize [])"

definition luaS_resize :: "nat \<Rightarrow> global_State \<Rightarrow> global_State" where
  "luaS_resize newsize g =
     (if sweepstring g then g
      else g\<lparr>strt := (strt g)\<lparr>st_hash := rechain g newsize (st_hash (strt g))\<rparr>\<rparr>)"

text \<open>\<open>sizeof(TString)\<close> on a 64-bit machine.\<close>

definition sizeof_TString :: int where "sizeof_TString = 24"

definition newlstr :: "string \<Rightarrow> u32 \<Rightarrow> global_State \<Rightarrow> (global_State \<times> addr) result" where
  "newlstr str h g =
     (if int (length str) + 1 > MAX_SIZET - sizeof_TString
      then Inl (RunError ''memory allocation error: block too big'')
      else
        let p = next_addr g; tb = strt g; i = lmod h (length (st_hash tb));
            g = g\<lparr>next_addr := p + 1,
                  strings := (strings g)(p \<mapsto> \<lparr>ts_reserved = 0, ts_hash = h, ts_bytes = str\<rparr>),
                  strt := tb\<lparr>st_hash := (st_hash tb)[i := p # st_hash tb ! i], st_nuse := st_nuse tb + 1\<rparr>\<rparr>;
            sz = length (st_hash tb)
        in Inr (if st_nuse tb + 1 > of_nat sz \<and> int sz \<le> MAX_INT div 2
                then luaS_resize (sz * 2) g else g, p))"

text \<open>The hash: from the last character down, in steps.\<close>

function hash_loop :: "string \<Rightarrow> nat \<Rightarrow> nat \<Rightarrow> u32 \<Rightarrow> u32" where
  "hash_loop str step l1 h =
     (if l1 \<ge> step \<and> step > 0
      then hash_loop str step (l1 - step)
        (h XOR (push_bit 5 h + drop_bit 2 h + of_nat (of_char (str ! (l1 - 1)))))
      else h)"
  by pat_completeness auto
termination by (relation "measure (\<lambda>(str, step, l1, h). l1)") auto

declare hash_loop.simps [simp del]

definition str_hash :: "string \<Rightarrow> u32" where
  "str_hash str = hash_loop str (drop_bit 5 (length str) + 1) (length str) (of_nat (length str))"

definition str_is :: "global_State \<Rightarrow> string \<Rightarrow> addr \<Rightarrow> bool" where
  "str_is g s p = (case strings g p of Some ts \<Rightarrow> ts_bytes ts = s | None \<Rightarrow> False)"

definition luaS_newlstr :: "string \<Rightarrow> global_State \<Rightarrow> (global_State \<times> addr) result" where
  "luaS_newlstr str g =
     (let h = str_hash str in
      case find (str_is g str) (st_hash (strt g) ! lmod h (length (st_hash (strt g)))) of
        Some p \<Rightarrow> Inr (g, p)
      | None \<Rightarrow> newlstr str h g)"

section \<open>The invariant\<close>

definition chained :: "global_State \<Rightarrow> addr set" where
  "chained g = set (concat (st_hash (strt g)))"

definition in_chain :: "global_State \<Rightarrow> nat \<Rightarrow> addr list list \<Rightarrow> bool" where
  "in_chain g n nh \<longleftrightarrow> length nh = n \<and> (\<forall>i < n. \<forall>p \<in> set (nh ! i). lmod (string_hash g p) n = i)"

text \<open>Chains hold every string once, in the chain of its hash, and no contents twice.\<close>

definition chains_ok :: "global_State \<Rightarrow> bool" where
  "chains_ok g \<longleftrightarrow>
     (\<exists>k \<le> 30. length (st_hash (strt g)) = 2 ^ k) \<and>
     in_chain g (length (st_hash (strt g))) (st_hash (strt g)) \<and>
     distinct (concat (st_hash (strt g))) \<and> chained g = dom (strings g)"

definition strings_ok :: "global_State \<Rightarrow> bool" where
  "strings_ok g \<longleftrightarrow> chains_ok g \<and>
     (\<forall>p ts. strings g p = Some ts \<longrightarrow> ts_hash ts = str_hash (ts_bytes ts) \<and> p < next_addr g) \<and>
     (\<forall>p q ts us. strings g p = Some ts \<and> strings g q = Some us \<and> ts_bytes ts = ts_bytes us \<longrightarrow> p = q)"

lemma lmod_less:
  assumes "k \<le> 30" shows "lmod h (2 ^ k) < 2 ^ k"
proof -
  have "(of_nat (2 ^ k) :: u32) - 1 = mask k" by (simp add: mask_eq_exp_minus_1)
  then have "lmod h (2 ^ k) = unat (take_bit k h)"
    by (simp add: lmod_def take_bit_eq_mask)
  also have "\<dots> < 2 ^ k" by (simp add: unsigned_take_bit_eq)
  finally show ?thesis .
qed

lemma concat_update_mset:
  "i < length xs \<Longrightarrow> mset (concat (xs[i := p # xs ! i])) = add_mset p (mset (concat xs))"
  by (induction xs arbitrary: i) (auto split: nat.splits)

lemma push_in_chain:
  assumes "in_chain g n nh" "lmod (string_hash g p) n < n"
  shows "in_chain g n (push_chain g n p nh)"
    and "mset (concat (push_chain g n p nh)) = add_mset p (mset (concat nh))"
proof -
  let ?h = "lmod (string_hash g p) n"
  have l: "length nh = n" using assms(1) by (simp add: in_chain_def)
  show "mset (concat (push_chain g n p nh)) = add_mset p (mset (concat nh))"
    using concat_update_mset [of ?h nh p] assms(2) l by (simp add: push_chain_def Let_def)
  show "in_chain g n (push_chain g n p nh)"
    unfolding in_chain_def
  proof (intro conjI allI impI ballI)
    show "length (push_chain g n p nh) = n" using l by (simp add: push_chain_def Let_def)
    fix i q assume i: "i < n" and q: "q \<in> set (push_chain g n p nh ! i)"
    then have "q \<in> set (nh ! i) \<or> (q = p \<and> i = ?h)"
      using l assms(2) by (cases "i = ?h") (auto simp: push_chain_def Let_def)
    then show "lmod (string_hash g q) n = i"
      using assms(1) i unfolding in_chain_def by blast
  qed
qed

text \<open>Rechaining: the chains hold the same strings, each in its chain.\<close>

lemma rechain_steps:
  assumes "in_chain g n nh" "\<forall>p. lmod (string_hash g p) n < n"
  shows "in_chain g n (fold (push_chain g n) ps nh) \<and>
    mset (concat (fold (push_chain g n) ps nh)) = mset ps + mset (concat nh)"
  using assms(1)
proof (induction ps arbitrary: nh)
  case (Cons p ps)
  have "lmod (string_hash g p) n < n" using assms(2) by blast
  then show ?case
    using Cons.IH [OF push_in_chain(1) [OF Cons.prems]] push_in_chain(2) [OF Cons.prems] by simp
qed simp

lemma resize_ok:
  assumes ok: "chains_ok g" and n: "n = 2 ^ k" "k \<le> 30"
  shows "chains_ok (luaS_resize n g)" "strings (luaS_resize n g) = strings g"
    "next_addr (luaS_resize n g) = next_addr g"
proof -
  show "strings (luaS_resize n g) = strings g" "next_addr (luaS_resize n g) = next_addr g"
    by (simp_all add: luaS_resize_def)
  let ?nh = "rechain g n (st_hash (strt g))"
  have "in_chain g n (replicate n [])" by (simp add: in_chain_def)
  moreover have "\<forall>p. lmod (string_hash g p) n < n" using lmod_less n by simp
  ultimately have nh: "in_chain g n ?nh" "mset (concat ?nh) = mset (concat (st_hash (strt g)))"
    using rechain_steps [of g n "replicate n []" "concat (st_hash (strt g))"]
    by (simp_all add: rechain_def concat_replicate_trivial)
  have same: "distinct (concat ?nh)" "set (concat ?nh) = set (concat (st_hash (strt g)))"
    using ok mset_eq_imp_distinct_iff [OF nh(2)] mset_eq_setD [OF nh(2)] by (simp_all add: chains_ok_def)
  have sh: "string_hash (g\<lparr>strt := s\<rparr>) = string_hash g" for s by (simp add: string_hash_def fun_eq_iff)
  have len: "length ?nh = n" using nh(1) by (simp add: in_chain_def)
  show "chains_ok (luaS_resize n g)"
  proof (cases "sweepstring g")
    case False
    have "in_chain (luaS_resize n g) n ?nh"
      using nh(1) by (simp add: in_chain_def luaS_resize_def sh)
    then show ?thesis
      using ok n same len False unfolding chains_ok_def chained_def
      by (auto simp: luaS_resize_def)
  qed (use ok in \<open>simp add: luaS_resize_def\<close>)
qed

section \<open>Interning\<close>

lemma find_in_chain:
  assumes ok: "strings_ok g" and ts: "strings g p = Some ts"
  shows "find (str_is g (ts_bytes ts))
    (st_hash (strt g) ! lmod (str_hash (ts_bytes ts)) (length (st_hash (strt g)))) = Some p"
proof -
  let ?h = "st_hash (strt g)" and ?i = "lmod (str_hash (ts_bytes ts)) (length (st_hash (strt g)))"
  have c: "chains_ok g" and sh: "ts_hash ts = str_hash (ts_bytes ts)"
    using ok ts by (auto simp: strings_ok_def)
  from c obtain k where k: "k \<le> 30" "length ?h = 2 ^ k" by (auto simp: chains_ok_def)
  have "p \<in> chained g" using c ts by (auto simp: chains_ok_def)
  then obtain j where j: "j < length ?h" "p \<in> set (?h ! j)"
    by (auto simp: chained_def in_set_conv_nth) (metis in_set_conv_nth)
  have "lmod (string_hash g p) (length ?h) = j" using c j by (auto simp: chains_ok_def in_chain_def)
  then have p: "p \<in> set (?h ! ?i)" using j ts sh by (simp add: string_hash_def)
  have is_p: "str_is g (ts_bytes ts) p" using ts by (simp add: str_is_def)
  have only: "q = p" if "str_is g (ts_bytes ts) q" for q
    using that ok ts unfolding strings_ok_def str_is_def by (auto split: option.splits)
  show ?thesis
  proof (cases "find (str_is g (ts_bytes ts)) (?h ! ?i)")
    case None
    then show ?thesis using p is_p by (auto simp: find_None_iff)
  next
    case (Some q)
    then show ?thesis using only by (auto simp: find_Some_iff)
  qed
qed

definition contents :: "global_State \<Rightarrow> addr \<Rightarrow> string option" where
  "contents g p = map_option ts_bytes (strings g p)"

lemma newlstr_ok:
  assumes ok: "strings_ok g" and new: "s \<notin> ran (contents g)" and room: "next_addr g + 1 \<noteq> 0"
    and r: "newlstr s (str_hash s) g = Inr (g', p)"
  shows "strings_ok g'" "contents g' = (contents g)(p \<mapsto> s)" "contents g p = None"
proof -
  let ?h = "st_hash (strt g)" and ?i = "lmod (str_hash s) (length (st_hash (strt g)))"
  from ok have c: "chains_ok g" by (simp add: strings_ok_def)
  then obtain k where k: "k \<le> 30" "length ?h = 2 ^ k" by (auto simp: chains_ok_def)
  define g1 where "g1 = g\<lparr>next_addr := next_addr g + 1,
    strings := (strings g)(next_addr g \<mapsto> \<lparr>ts_reserved = 0, ts_hash = str_hash s, ts_bytes = s\<rparr>),
    strt := (strt g)\<lparr>st_hash := ?h[?i := next_addr g # ?h ! ?i], st_nuse := st_nuse (strt g) + 1\<rparr>\<rparr>"
  have p: "p = next_addr g" and g': "g' = g1 \<or> g' = luaS_resize (length ?h * 2) g1 \<and> int (length ?h) \<le> MAX_INT div 2"
    using r by (auto simp: newlstr_def Let_def g1_def split: if_splits)
  have fresh: "strings g p = None"
  proof (cases "strings g p")
    case (Some ts)
    then have "p < next_addr g" using ok unfolding strings_ok_def by blast
    then show ?thesis using p by simp
  qed
  have i: "?i < length ?h" using lmod_less k by simp
  have sh1: "string_hash g1 q = (if q = p then str_hash s else string_hash g q)" for q
    by (simp add: string_hash_def g1_def p)
  have strt1: "st_hash (strt g1) = ?h[?i := p # ?h ! ?i]" by (simp add: g1_def p)
  have ms: "mset (concat (st_hash (strt g1))) = add_mset p (mset (concat ?h))"
    using concat_update_mset [OF i] strt1 by simp
  have notin: "p \<notin> set (concat ?h)" using c fresh by (auto simp: chains_ok_def chained_def)
  have c1: "chains_ok g1"
    unfolding chains_ok_def
  proof (intro conjI)
    show "\<exists>k \<le> 30. length (st_hash (strt g1)) = 2 ^ k" using k strt1 by auto
    show "distinct (concat (st_hash (strt g1)))"
      using mset_eq_imp_distinct_iff [of "concat (st_hash (strt g1))" "p # concat ?h"] ms c notin
      by (simp add: chains_ok_def)
    have "chained g1 = insert p (set (concat ?h))"
      using mset_eq_setD [of "concat (st_hash (strt g1))" "p # concat ?h"] ms by (simp add: chained_def)
    moreover have "dom (strings g1) = insert p (dom (strings g))" by (simp add: g1_def p)
    ultimately show "chained g1 = dom (strings g1)" using c by (simp add: chains_ok_def chained_def)
    have "in_chain g1 (length ?h) (push_chain g1 (length ?h) p ?h)"
    proof (rule push_in_chain)
      show "in_chain g1 (length ?h) ?h"
        unfolding in_chain_def
      proof (intro conjI allI impI ballI)
        fix j q assume "j < length ?h" "q \<in> set (?h ! j)"
        moreover from this have "q \<noteq> p" using notin by auto
        ultimately show "lmod (string_hash g1 q) (length ?h) = j"
          using c sh1 by (auto simp: chains_ok_def in_chain_def)
      qed simp
    qed (use i sh1 in simp)
    then show "in_chain g1 (length (st_hash (strt g1))) (st_hash (strt g1))"
      using strt1 sh1 by (simp add: push_chain_def Let_def)
  qed
  have s1: "strings g1 = (strings g)(p \<mapsto> \<lparr>ts_reserved = 0, ts_hash = str_hash s, ts_bytes = s\<rparr>)"
    "next_addr g1 = p + 1" by (simp_all add: g1_def p)
  have g'f: "chains_ok g'" "strings g' = strings g1" "next_addr g' = p + 1"
  proof -
    have "length ?h * 2 = 2 ^ (k + 1) \<and> k + 1 \<le> 30" if "int (length ?h) \<le> MAX_INT div 2"
    proof -
      have "length ?h < 2 ^ 30" using that by simp
      then have "(2::nat) ^ k < 2 ^ 30" using k(2) by simp
      then have "k < 30" by (rule power_less_imp_less_exp [rotated]) simp
      then show ?thesis using k by simp
    qed
    then show "chains_ok g'" "strings g' = strings g1" "next_addr g' = p + 1"
      using g' c1 s1 resize_ok [OF c1, of "length ?h * 2" "k + 1"] by auto
  qed
  show "contents g p = None" using fresh by (simp add: contents_def)
  show "contents g' = (contents g)(p \<mapsto> s)" using g'f s1 by (auto simp: contents_def fun_eq_iff)
  show "strings_ok g'"
    unfolding strings_ok_def
  proof (intro conjI allI impI)
    show "chains_ok g'" by (rule g'f)
    have up: "p < p + 1" using room [folded p] by uint_arith
    fix q ts assume ts: "strings g' q = Some ts"
    show "ts_hash ts = str_hash (ts_bytes ts)"
      using ts g'f s1 ok by (auto simp: strings_ok_def split: if_splits)
    show "q < next_addr g'"
      using ts g'f s1 ok up p by (auto simp: strings_ok_def split: if_splits) (metis order.strict_trans)
  next
    fix q r ts us
    assume "strings g' q = Some ts \<and> strings g' r = Some us \<and> ts_bytes ts = ts_bytes us"
    then have qr: "strings g1 q = Some ts" "strings g1 r = Some us" "ts_bytes ts = ts_bytes us" using g'f by auto
    have other: "ts_bytes us' \<noteq> s" if "strings g x = Some us'" for x us'
      using new that by (auto simp: contents_def ran_def)
    show "q = r"
    proof (cases "q = p \<or> r = p")
      case True
      then have "ts_bytes ts = s \<or> ts_bytes us = s" using qr s1 by auto
      then have "ts_bytes ts = s" "ts_bytes us = s" using qr(3) by auto
      moreover have "q = p \<or> strings g q = Some ts" "r = p \<or> strings g r = Some us"
        using qr(1,2) s1 by (auto split: if_splits)
      ultimately show ?thesis using other by blast
    next
      case False
      then have "strings g q = Some ts" "strings g r = Some us" using qr(1,2) s1 by auto
      then show ?thesis using qr(3) ok unfolding strings_ok_def by blast
    qed
  qed
qed

text \<open>C26: interning implements a set of strings with one address each: \<open>luaS_newlstr\<close> returns the
  address of the contents when they are known, changing nothing, and else a fresh one, and keeps
  the chains in order, also through a resize; it fails only for strings longer than memory.\<close>

lemma newlstr_interns:
  assumes ok: "strings_ok g" and room: "next_addr g + 1 \<noteq> 0"
  shows "case luaS_newlstr s g of
      Inl e \<Rightarrow> int (length s) > MAX_SIZET - 25 \<and> s \<notin> ran (contents g)
    | Inr (g', p) \<Rightarrow> strings_ok g' \<and> contents g' p = Some s \<and>
        (if s \<in> ran (contents g) then g' = g else contents g p = None \<and> contents g' = (contents g)(p \<mapsto> s))"
proof (cases "s \<in> ran (contents g)")
  case True
  then obtain p ts where ts: "strings g p = Some ts" "ts_bytes ts = s"
    by (auto simp: ran_def contents_def)
  then show ?thesis
    using find_in_chain [OF ok ts(1)] ok True by (simp add: luaS_newlstr_def Let_def contents_def)
next
  case False
  have "find (str_is g s) (st_hash (strt g) ! lmod (str_hash s) (length (st_hash (strt g)))) = None"
    using False by (auto simp: find_None_iff str_is_def contents_def ran_def split: option.splits)
  then have n: "luaS_newlstr s g = newlstr s (str_hash s) g" by (simp add: luaS_newlstr_def Let_def)
  show ?thesis
  proof (cases "newlstr s (str_hash s) g")
    case (Inl e)
    then show ?thesis using n False
      by (auto simp: newlstr_def Let_def sizeof_TString_def split: if_splits)
  next
    case (Inr r)
    obtain g' p where "r = (g', p)" by (cases r)
    then show ?thesis using n Inr False newlstr_ok [OF ok False room] by simp
  qed
qed

theorem luaS_newlstr_interns:
  assumes "strings_ok g" and "next_addr g + 1 \<noteq> 0"
  shows "case luaS_newlstr s g of
      Inl e \<Rightarrow> int (length s) > MAX_SIZET - 25 \<and> s \<notin> ran (contents g)
    | Inr (g', p) \<Rightarrow> strings_ok g' \<and> contents g' p = Some s \<and>
        (if s \<in> ran (contents g) then g' = g else contents g p = None \<and> contents g' = (contents g)(p \<mapsto> s))"
  by (rule newlstr_interns [OF assms])

lemma empty_state_ok: "strings_ok empty_state"
proof -
  have h: "st_hash (strt empty_state) = replicate 32 []" "strings empty_state = (\<lambda>_. None)"
    by (simp_all only: empty_state_def stringtable.simps global_State.simps)
  have "in_chain empty_state 32 (replicate 32 [])" unfolding in_chain_def by auto
  moreover have "length (replicate 32 [] :: addr list list) = 2 ^ 5" by simp
  moreover have "concat (replicate 32 []) = ([] :: addr list)" by (rule concat_replicate_trivial)
  ultimately have "chains_ok empty_state"
    unfolding chains_ok_def chained_def h
    by (intro conjI exI [of _ 5]) simp_all
  then show ?thesis by (simp add: strings_ok_def h)
qed

theorem luaS_newlstr_interns_witness:
  "\<exists>g p. luaS_newlstr ''x'' empty_state = Inr (g, p) \<and> strings_ok g \<and> contents g p = Some ''x''"
proof -
  have "next_addr empty_state + 1 \<noteq> 0" by (simp add: empty_state_def)
  from luaS_newlstr_interns [OF empty_state_ok this, of "''x''"] show ?thesis
    by (cases "luaS_newlstr ''x'' empty_state") (auto simp: MAX_SIZET_def split: if_splits)
qed

lemma newlstr_contents:
  assumes "strings_ok g" "next_addr g + 1 \<noteq> 0" "luaS_newlstr s g = Inr (h, p)"
  shows "strings_ok h \<and> contents h p = Some s \<and> (\<forall>q t. contents g q = Some t \<longrightarrow> contents h q = Some t)"
  using newlstr_interns [OF assms(1,2), of s] assms(3) by (auto split: if_splits)

text \<open>The strings a program makes, one after the other, and the addresses it gets for them.\<close>

primrec intern_all :: "string list \<Rightarrow> global_State \<Rightarrow> (global_State \<times> addr list) result" where
  "intern_all [] g = Inr (g, [])"
| "intern_all (s # ss) g =
     seqR (luaS_newlstr s g) (\<lambda>(g, p). seqR (intern_all ss g) (\<lambda>(g, ps). Inr (g, p # ps)))"

lemma newlstr_next: "luaS_newlstr s g = Inr (h, p) \<Longrightarrow> next_addr h = next_addr g \<or> next_addr h = next_addr g + 1"
  by (auto simp: luaS_newlstr_def newlstr_def luaS_resize_def Let_def split: option.splits if_splits)

lemma intern_all_contents:
  assumes "intern_all ss g = Inr (h, ps)" "strings_ok g" "unat (next_addr g) + length ss < 2 ^ 64"
  shows "strings_ok h \<and> length ps = length ss \<and> (\<forall>i < length ss. contents h (ps ! i) = Some (ss ! i)) \<and>
    (\<forall>q t. contents g q = Some t \<longrightarrow> contents h q = Some t)"
  using assms
proof (induction ss arbitrary: g ps)
  case (Cons s ss)
  obtain g1 p qs where g1: "luaS_newlstr s g = Inr (g1, p)" "intern_all ss g1 = Inr (h, qs)" "ps = p # qs"
    using Cons.prems(1) by (auto split: sum.splits elim!: seqR_InrE)
  have "unat (next_addr g) + 1 < 2 ^ 64" using Cons.prems(3) by simp
  then have u: "unat (next_addr g + 1) = unat (next_addr g) + 1" by (simp add: unat_add_lem [THEN iffD1])
  then have "next_addr g + 1 \<noteq> 0" by (metis unat_0 add_is_0 zero_neq_one)
  note c = newlstr_contents [OF Cons.prems(2) this g1(1)]
  have "unat (next_addr g1) + length ss < 2 ^ 64" using newlstr_next [OF g1(1)] u Cons.prems(3) by auto
  then have "strings_ok h \<and> length qs = length ss \<and> (\<forall>i < length ss. contents h (qs ! i) = Some (ss ! i)) \<and>
      (\<forall>q t. contents g1 q = Some t \<longrightarrow> contents h q = Some t)" using Cons.IH [OF g1(2)] c by blast
  then show ?case using c by (auto simp: g1(3) nth_Cons')
qed simp

text \<open>C27: in every run that makes any strings from the empty table on, two of the addresses handed out
  are equal exactly when the strings are; so raw equality of values, which compares addresses,
  compares the contents of strings.\<close>

theorem string_equality:
  assumes "intern_all ss empty_state = Inr (g, ps)" "length ss < 2 ^ 63" "i < length ss" "j < length ss"
  shows "luaO_rawequalObj (STRING (ps ! i)) (STRING (ps ! j)) \<longleftrightarrow> ss ! i = ss ! j"
proof -
  have "unat (next_addr empty_state) + length ss < 2 ^ 64" using assms(2) by (simp add: empty_state_def)
  from intern_all_contents [OF assms(1) empty_state_ok this]
  have g: "strings_ok g" "contents g (ps ! i) = Some (ss ! i)" "contents g (ps ! j) = Some (ss ! j)"
    using assms(3,4) by simp_all
  have "ss ! i = ss ! j \<Longrightarrow> ps ! i = ps ! j"
    using g unfolding strings_ok_def contents_def by (auto split: option.splits)
  moreover have "ps ! i = ps ! j \<Longrightarrow> ss ! i = ss ! j" using g(2,3) by simp
  ultimately show ?thesis by (auto simp: rawequal_iff)
qed

lemma three_strings: "\<exists>g ps. intern_all [''a'', ''b'', ''a''] empty_state = Inr (g, ps)"
proof -
  have "case intern_all [''a'', ''b'', ''a''] empty_state of Inl a \<Rightarrow> False | Inr (g, ps) \<Rightarrow> True" by code_simp
  then show ?thesis by (auto split: sum.splits)
qed

theorem string_equality_witness:
  "\<exists>g p q r. intern_all [''a'', ''b'', ''a''] empty_state = Inr (g, [p, q, r]) \<and>
     luaO_rawequalObj (STRING p) (STRING r) \<and> \<not> luaO_rawequalObj (STRING p) (STRING q)"
proof -
  obtain g ps where g: "intern_all [''a'', ''b'', ''a''] empty_state = Inr (g, ps)" using three_strings by blast
  then obtain p q r where ps: "ps = [p, q, r]" by (auto split: sum.splits elim!: seqR_InrE)
  have "luaO_rawequalObj (STRING p) (STRING r)" "\<not> luaO_rawequalObj (STRING p) (STRING q)"
    using string_equality [OF g, of 0 2] string_equality [OF g, of 0 1] ps by simp_all
  then show ?thesis using g ps by blast
qed

end
