(* ===== verification/UpVals.thy ===== *)
theory UpVals
  imports Heap
begin

text \<open>
  Upvalues (\<open>lfunc.c\<close>): the list of open ones, by falling stack level, and how they are closed.
  Liveness and linking for the collector are not modelled; no object is dead here.
\<close>

section \<open>Definitions\<close>

definition luaF_newupval :: "addr vm" where
  "luaF_newupval = seqM new_addr (\<lambda>p. thenM (put_upval p \<lparr>uv_v = Own, uv_value = NIL\<rparr>) (retM p))"

definition uv_level :: "global_State \<Rightarrow> addr \<Rightarrow> nat option" where
  "uv_level g p = (case upvalues g p of
     Some u \<Rightarrow> (case uv_v u of OnStack i \<Rightarrow> Some i | Own \<Rightarrow> None) | None \<Rightarrow> None)"

text \<open>The loop of \<open>luaF_findupval\<close> over the chain: the upvalue found, or the place to chain a new
  one at. A closed upvalue on the chain fails the assertion.\<close>

fun findupval_loop :: "global_State \<Rightarrow> nat \<Rightarrow> addr list \<Rightarrow> (addr + nat) option" where
  "findupval_loop g level [] = Some (Inr 0)"
| "findupval_loop g level (p # ps) =
     (case uv_level g p of
        None \<Rightarrow> None
      | Some v \<Rightarrow>
          if v < level then Some (Inr 0)
          else if v = level then Some (Inl p)
          else (case findupval_loop g level ps of
                  Some (Inr n) \<Rightarrow> Some (Inr (Suc n)) | r \<Rightarrow> r))"

definition luaF_findupval :: "nat \<Rightarrow> addr vm" where
  "luaF_findupval level =
     seqM (getM (\<lambda>L. findupval_loop (l_G L) level (l_openupval L))) (\<lambda>r. case r of
       None \<Rightarrow> throwM Fault
     | Some (Inl p) \<Rightarrow> retM p
     | Some (Inr n) \<Rightarrow>
         seqM new_addr (\<lambda>uv.
         thenM (put_upval uv \<lparr>uv_v = OnStack level, uv_value = NIL\<rparr>)
         (thenM (modM (\<lambda>L. L\<lparr>l_openupval := take n (l_openupval L) @ uv # drop n (l_openupval L)\<rparr>))
         (thenM (modG (\<lambda>g. g\<lparr>uvhead := uv # uvhead g\<rparr>))
         (retM uv)))))"

definition unlinkupval :: "addr \<Rightarrow> unit vm" where
  "unlinkupval uv =
     seqM (getM (\<lambda>L. uv \<in> set (uvhead (l_G L)))) (\<lambda>b.
     thenM (assertM b) (modG (\<lambda>g. g\<lparr>uvhead := remove1 uv (uvhead g)\<rparr>)))"

text \<open>One turn for each upvalue on the list.\<close>

primrec close_loop :: "nat \<Rightarrow> nat \<Rightarrow> unit vm" where
  "close_loop 0 level = retM ()"
| "close_loop (Suc n) level =
     seqM (getM l_openupval) (\<lambda>open.
       case open of
         [] \<Rightarrow> retM ()
       | uv # rest \<Rightarrow>
           seqM (the_upval uv) (\<lambda>u.
             case uv_v u of
               Own \<Rightarrow> throwM Fault
             | OnStack v \<Rightarrow>
                 if v \<ge> level then
                   thenM (modM (\<lambda>L. L\<lparr>l_openupval := rest\<rparr>))
                   (thenM (unlinkupval uv)
                   (seqM (getstack v) (\<lambda>x.
                   thenM (put_upval uv \<lparr>uv_v = Own, uv_value = x\<rparr>)
                   (close_loop n level))))
                 else retM ()))"

definition luaF_close :: "nat \<Rightarrow> unit vm" where
  "luaF_close level = seqM (getM (\<lambda>L. length (l_openupval L))) (\<lambda>n. close_loop n level)"

text \<open>\<open>*uv->v\<close>\<close>

definition uv_get :: "TValue list \<Rightarrow> UpVal \<Rightarrow> TValue" where
  "uv_get stk u = (case uv_v u of OnStack i \<Rightarrow> stk ! i | Own \<Rightarrow> uv_value u)"

definition upval_value :: "lua_State \<Rightarrow> addr \<Rightarrow> TValue option" where
  "upval_value L p = map_option (uv_get (l_stack L)) (upvalues (l_G L) p)"

section \<open>The invariant\<close>

text \<open>The list holds exactly the open upvalues, by strictly falling level inside the stack; the
  double-linked list holds the same.\<close>

definition falling :: "(addr \<Rightarrow> nat option) \<Rightarrow> addr list \<Rightarrow> bool" where
  "falling lv ps \<longleftrightarrow> (\<forall>p \<in> set ps. lv p \<noteq> None) \<and> sorted_wrt (\<lambda>p q. the (lv q) < the (lv p)) ps"

definition upvals_ok :: "lua_State \<Rightarrow> bool" where
  "upvals_ok L \<longleftrightarrow>
     falling (uv_level (l_G L)) (l_openupval L) \<and>
     {p. uv_level (l_G L) p \<noteq> None} = set (l_openupval L) \<and>
     (\<forall>p v. uv_level (l_G L) p = Some v \<longrightarrow> v < length (l_stack L)) \<and>
     distinct (uvhead (l_G L)) \<and> set (uvhead (l_G L)) = set (l_openupval L)"

lemma falling_simps [simp]:
  "falling lv []"
  "falling lv (p # ps) \<longleftrightarrow> lv p \<noteq> None \<and> (\<forall>q \<in> set ps. the (lv q) < the (lv p)) \<and> falling lv ps"
  by (auto simp: falling_def)

lemma falling_distinct: "falling lv ps \<Longrightarrow> distinct ps"
  by (induction ps) auto

lemma falling_cong:
  assumes "falling lv ps" "\<forall>p \<in> set ps. lv' p = lv p"
  shows "falling lv' ps"
  using assms by (induction ps) simp_all

lemma falling_insert:
  assumes "falling lv (ps @ qs)" "lv p = Some v" "\<forall>q \<in> set ps. v < the (lv q)" "\<forall>q \<in> set qs. the (lv q) < v"
  shows "falling lv (ps @ p # qs)"
  using assms by (simp add: falling_def sorted_wrt_append)

lemma findupval_loop_spec:
  assumes "falling (uv_level g) ps"
  shows "case findupval_loop g level ps of
      None \<Rightarrow> False
    | Some (Inl p) \<Rightarrow> p \<in> set ps \<and> uv_level g p = Some level
    | Some (Inr n) \<Rightarrow> n \<le> length ps \<and> (\<forall>p \<in> set (take n ps). level < the (uv_level g p)) \<and>
        (\<forall>p \<in> set (drop n ps). the (uv_level g p) < level)"
  using assms
proof (induction ps)
  case (Cons p ps)
  then obtain v where v: "uv_level g p = Some v" "\<forall>q \<in> set ps. the (uv_level g q) < v"
    "falling (uv_level g) ps" by auto
  consider "v < level" | "v = level" | "level < v" by linarith
  then show ?case
  proof cases
    case 1
    then show ?thesis using v by auto
  next
    case 2
    then show ?thesis using v(1) by simp
  next
    case 3
    then show ?thesis
      using v(1) Cons.IH [OF v(3)] by (auto split: option.splits sum.splits)
  qed
qed simp

lemma open_unique:
  assumes ok: "upvals_ok L" and p: "uv_level (l_G L) p = Some level" and q: "uv_level (l_G L) q = Some level"
  shows "q = p"
proof -
  have mem: "p \<in> set (l_openupval L)" "q \<in> set (l_openupval L)" using ok p q by (auto simp: upvals_ok_def)
  then obtain i j where ij: "i < length (l_openupval L)" "j < length (l_openupval L)"
    "l_openupval L ! i = p" "l_openupval L ! j = q" by (metis in_set_conv_nth)
  have "sorted_wrt (\<lambda>p q. the (uv_level (l_G L) q) < the (uv_level (l_G L) p)) (l_openupval L)"
    using ok by (simp add: upvals_ok_def falling_def)
  then have fall: "the (uv_level (l_G L) (l_openupval L ! b)) < the (uv_level (l_G L) (l_openupval L ! a))"
    if "a < b" "b < length (l_openupval L)" for a b
    using that by (simp add: sorted_wrt_iff_nth_less)
  have "i = j" using fall [of i j] fall [of j i] ij p q by (cases i j rule: linorder_cases) auto
  then show ?thesis using ij by simp
qed

section \<open>Finding and closing\<close>

definition same_upvals :: "lua_State \<Rightarrow> lua_State \<Rightarrow> bool" where
  "same_upvals L L' \<longleftrightarrow> l_stack L' = l_stack L \<and>
     (\<forall>p. upvalues (l_G L) p \<noteq> None \<longrightarrow> upvalues (l_G L') p = upvalues (l_G L) p)"

lemma findupval_ok:
  assumes ok: "upvals_ok L" and level: "level < length (l_stack L)"
    and fresh: "upvalues (l_G L) (next_addr (l_G L)) = None"
  shows "\<exists>p L'. luaF_findupval level L = (Inr p, L') \<and> upvals_ok L' \<and> same_upvals L L' \<and>
    uv_level (l_G L') p = Some level \<and> (\<forall>q. uv_level (l_G L') q = Some level \<longrightarrow> q = p) \<and>
    (\<forall>q. uv_level (l_G L) q = Some level \<longrightarrow> L' = L)"
proof -
  have f: "falling (uv_level (l_G L)) (l_openupval L)" using ok by (simp add: upvals_ok_def)
  have one: "q = p" if "uv_level (l_G L) p = Some level" "uv_level (l_G L) q = Some level" for p q
    using open_unique [OF ok that] .
  show ?thesis
  proof (cases "findupval_loop (l_G L) level (l_openupval L)")
    case None
    then show ?thesis using findupval_loop_spec [OF f, of level] by simp
  next
    case (Some r)
    show ?thesis
    proof (cases r)
      case (Inl p)
      then have "uv_level (l_G L) p = Some level"
        using findupval_loop_spec [OF f, of level] Some by simp
      then show ?thesis
        using Some Inl ok one by (intro exI [of _ p] exI [of _ L]) (simp add: luaF_findupval_def same_upvals_def)
    next
      case (Inr n)
      define p where "p = next_addr (l_G L)"
      define L' where "L' = L\<lparr>l_openupval := take n (l_openupval L) @ p # drop n (l_openupval L),
        l_G := (l_G L)\<lparr>next_addr := p + 1, upvalues := (upvalues (l_G L))(p \<mapsto> \<lparr>uv_v = OnStack level, uv_value = NIL\<rparr>),
          uvhead := p # uvhead (l_G L)\<rparr>\<rparr>"
      have r: "luaF_findupval level L = (Inr p, L')"
        using Some Inr by (simp add: luaF_findupval_def new_addr_def put_upval_def modG_def L'_def p_def
          vm_defs)
      have lv: "uv_level (l_G L') q = (if q = p then Some level else uv_level (l_G L) q)" for q
        by (simp add: uv_level_def L'_def)
      have none: "uv_level (l_G L) p = None" using fresh by (simp add: uv_level_def p_def)
      have n: "n \<le> length (l_openupval L)" "\<forall>q \<in> set (take n (l_openupval L)). level < the (uv_level (l_G L) q)"
        "\<forall>q \<in> set (drop n (l_openupval L)). the (uv_level (l_G L) q) < level"
        using findupval_loop_spec [OF f, of level] Some Inr by simp_all
      have sets: "set (l_openupval L) = set (take n (l_openupval L)) \<union> set (drop n (l_openupval L))"
        by (metis append_take_drop_id set_append)
      have pnot: "p \<notin> set (l_openupval L)" using none f by (auto simp: falling_def)
      have new: "uv_level (l_G L) q \<noteq> Some level" for q
      proof
        assume "uv_level (l_G L) q = Some level"
        moreover from this have "q \<in> set (l_openupval L)" using ok by (auto simp: upvals_ok_def)
        ultimately show False using n(2,3) sets by auto
      qed
      have "falling (uv_level (l_G L')) (take n (l_openupval L) @ p # drop n (l_openupval L))"
      proof (rule falling_insert)
        have "falling (uv_level (l_G L)) (take n (l_openupval L) @ drop n (l_openupval L))" using f by simp
        then show "falling (uv_level (l_G L')) (take n (l_openupval L) @ drop n (l_openupval L))"
          by (rule falling_cong) (use lv pnot in auto)
        show "uv_level (l_G L') p = Some level" using lv by simp
        show "\<forall>q \<in> set (take n (l_openupval L)). level < the (uv_level (l_G L') q)" using n(2) lv pnot sets by auto
        show "\<forall>q \<in> set (drop n (l_openupval L)). the (uv_level (l_G L') q) < level" using n(3) lv pnot sets by auto
      qed
      moreover have "{q. uv_level (l_G L') q \<noteq> None} = insert p (set (l_openupval L))"
        using lv ok by (auto simp: upvals_ok_def)
      ultimately have "upvals_ok L'"
        using ok level pnot lv sets unfolding upvals_ok_def by (auto simp: L'_def split: if_splits)
      moreover have "same_upvals L L'" using fresh by (simp add: same_upvals_def L'_def p_def)
      ultimately show ?thesis using r lv new by (intro exI [of _ p] exI [of _ L']) auto
    qed
  qed
qed

text \<open>One turn of closing: the first of the list.\<close>

lemma close_first:
  assumes ok: "upvals_ok L" and open_L: "l_openupval L = p # rest" and v: "uv_level (l_G L) p = Some v"
  defines "L' \<equiv> L\<lparr>l_openupval := rest, l_G := (l_G L)\<lparr>uvhead := remove1 p (uvhead (l_G L)),
    upvalues := (upvalues (l_G L))(p \<mapsto> \<lparr>uv_v = Own, uv_value = l_stack L ! v\<rparr>)\<rparr>\<rparr>"
  shows "level \<le> v \<Longrightarrow> close_loop (Suc n) level L = close_loop n level L'"
    and "upvals_ok L'" "\<forall>q. upval_value L' q = upval_value L q"
    and "\<forall>q. uv_level (l_G L') q = (if q = p then None else uv_level (l_G L) q)"
proof -
  obtain u where u: "upvalues (l_G L) p = Some u" "uv_v u = OnStack v"
    using v by (auto simp: uv_level_def split: option.splits uvref.splits)
  have inside: "v < length (l_stack L)" using ok v by (auto simp: upvals_ok_def)
  have head: "p \<in> set (uvhead (l_G L))" using ok open_L by (simp add: upvals_ok_def)
  show "level \<le> v \<Longrightarrow> close_loop (Suc n) level L = close_loop n level L'"
    using u inside head
    by (simp add: open_L the_upval_def unlinkupval_def getstack_def put_upval_def modG_def L'_def vm_defs)
  show "\<forall>q. upval_value L' q = upval_value L q"
    using u by (simp add: upval_value_def uv_get_def L'_def)
  show lv: "\<forall>q. uv_level (l_G L') q = (if q = p then None else uv_level (l_G L) q)"
    by (simp add: uv_level_def L'_def)
  have f: "falling (uv_level (l_G L)) (p # rest)" using ok open_L by (simp add: upvals_ok_def)
  have d: "p \<notin> set rest" using falling_distinct [OF f] by simp
  have "falling (uv_level (l_G L')) rest"
    by (rule falling_cong [of "uv_level (l_G L)"]) (use f lv d in auto)
  moreover have "{q. uv_level (l_G L') q \<noteq> None} = set rest"
  proof -
    have "{q. uv_level (l_G L) q \<noteq> None} = insert p (set rest)" using ok open_L by (simp add: upvals_ok_def)
    moreover have "{q. uv_level (l_G L') q \<noteq> None} = {q. uv_level (l_G L) q \<noteq> None} - {p}" using lv by auto
    ultimately show ?thesis using d by simp
  qed
  moreover have "distinct (uvhead (l_G L'))" "set (uvhead (l_G L')) = set rest"
    using ok open_L d by (auto simp: upvals_ok_def L'_def)
  moreover have "\<forall>q v. uv_level (l_G L') q = Some v \<longrightarrow> v < length (l_stack L')"
    using lv ok by (simp add: upvals_ok_def L'_def)
  moreover have "l_openupval L' = rest" by (simp add: L'_def)
  ultimately show "upvals_ok L'" unfolding upvals_ok_def by blast
qed

definition closed_from :: "nat \<Rightarrow> lua_State \<Rightarrow> lua_State \<Rightarrow> bool" where
  "closed_from level L L' \<longleftrightarrow>
     (\<exists>os g. L' = L\<lparr>l_openupval := os, l_G := g\<rparr>) \<and> (\<forall>p. upval_value L' p = upval_value L p) \<and>
     (\<forall>p. uv_level (l_G L') p =
        (case uv_level (l_G L) p of Some v \<Rightarrow> if level \<le> v then None else Some v | None \<Rightarrow> None))"

lemma close_loop_ok:
  assumes "upvals_ok L" "length (l_openupval L) \<le> n"
  shows "\<exists>L'. close_loop n level L = (Inr (), L') \<and> upvals_ok L' \<and> closed_from level L L'"
  using assms
proof (induction n arbitrary: L)
  case 0
  then have none: "uv_level (l_G L) p = None" for p by (auto simp: upvals_ok_def)
  have "\<exists>os g. L = L\<lparr>l_openupval := os, l_G := g\<rparr>" by (intro exI [of _ "l_openupval L"] exI [of _ "l_G L"]) simp
  then show ?case using 0 none by (intro exI [of _ L]) (simp add: closed_from_def)
next
  case (Suc n)
  have f: "falling (uv_level (l_G L)) (l_openupval L)" using Suc.prems by (simp add: upvals_ok_def)
  have same: "\<exists>os g. L = L\<lparr>l_openupval := os, l_G := g\<rparr>"
    by (intro exI [of _ "l_openupval L"] exI [of _ "l_G L"]) simp
  have stay: ?case if stop: "close_loop (Suc n) level L = (Inr (), L)"
    and below: "\<forall>p v. uv_level (l_G L) p = Some v \<longrightarrow> v < level"
  proof -
    have "closed_from level L L"
      unfolding closed_from_def
    proof (intro conjI allI)
      fix p
      show "uv_level (l_G L) p = (case uv_level (l_G L) p of Some v \<Rightarrow> if level \<le> v then None else Some v | None \<Rightarrow> None)"
        using below by (cases "uv_level (l_G L) p") (auto simp: not_le)
    qed (use same in auto)
    then show ?thesis using stop Suc.prems(1) by blast
  qed
  show ?case
  proof (cases "l_openupval L")
    case Nil
    then have "uv_level (l_G L) p = None" for p using Suc.prems(1) by (auto simp: upvals_ok_def)
    then show ?thesis using stay Nil by (simp add: retM_def)
  next
    case (Cons p rest)
    then obtain v where v: "uv_level (l_G L) p = Some v" using f by auto
    show ?thesis
    proof (cases "level \<le> v")
      case True
      note c = close_first [OF Suc.prems(1) Cons v]
      obtain L' where L': "close_loop n level (L\<lparr>l_openupval := rest, l_G := (l_G L)\<lparr>uvhead := remove1 p (uvhead (l_G L)),
          upvalues := (upvalues (l_G L))(p \<mapsto> \<lparr>uv_v = Own, uv_value = l_stack L ! v\<rparr>)\<rparr>\<rparr>) = (Inr (), L')"
        "upvals_ok L'" "closed_from level (L\<lparr>l_openupval := rest, l_G := (l_G L)\<lparr>uvhead := remove1 p (uvhead (l_G L)),
          upvalues := (upvalues (l_G L))(p \<mapsto> \<lparr>uv_v = Own, uv_value = l_stack L ! v\<rparr>)\<rparr>\<rparr>) L'"
        using Suc.IH [OF c(2)] Suc.prems(2) Cons by auto
      have "closed_from level L L'"
        using L'(3) c(3,4) v True unfolding closed_from_def by (auto split: if_splits)
      then show ?thesis using c(1) [OF True] L'(1,2) by auto
    next
      case False
      have "w < level" if "uv_level (l_G L) q = Some w" for q w
      proof -
        have "q \<in> set (l_openupval L)" using that Suc.prems(1) by (auto simp: upvals_ok_def)
        then have "w \<le> v" using f Cons v that by auto
        then show ?thesis using False by simp
      qed
      moreover obtain u where "upvalues (l_G L) p = Some u" "uv_v u = OnStack v"
        using v by (auto simp: uv_level_def split: option.splits uvref.splits)
      ultimately show ?thesis using stay Cons False by (simp add: the_upval_def vm_defs)
    qed
  qed
qed

lemma luaF_close_ok:
  assumes "upvals_ok L"
  shows "\<exists>L'. luaF_close level L = (Inr (), L') \<and> upvals_ok L' \<and> closed_from level L L'"
  using close_loop_ok [OF assms, of "length (l_openupval L)" level] by (simp add: luaF_close_def)

section \<open>The properties\<close>

text \<open>C28: all closures that capture a variable share one upvalue: looking for the upvalue of a stack
  slot gives the open one there is, changing nothing, or a new one; it is the only one of that slot
  afterwards, the list stays sorted, and the stack and the other upvalues are untouched.\<close>

theorem luaF_findupval_shares:
  assumes "upvals_ok L" "level < length (l_stack L)" "upvalues (l_G L) (next_addr (l_G L)) = None"
  shows "\<exists>p L'. luaF_findupval level L = (Inr p, L') \<and> upvals_ok L' \<and> same_upvals L L' \<and>
    uv_level (l_G L') p = Some level \<and> (\<forall>q. uv_level (l_G L') q = Some level \<longrightarrow> q = p) \<and>
    (\<forall>q. uv_level (l_G L) q = Some level \<longrightarrow> L' = L)"
  by (rule findupval_ok [OF assms])

lemma empty_thread_upvals: "upvals_ok empty_thread"
  by (simp add: upvals_ok_def empty_thread_def empty_state_def uv_level_def)

theorem luaF_findupval_shares_witness:
  "\<exists>p L. luaF_findupval 3 empty_thread = (Inr p, L) \<and> uv_level (l_G L) p = Some 3"
  using luaF_findupval_shares [OF empty_thread_upvals, of 3]
  by (auto simp: empty_thread_def empty_state_def BASIC_STACK_SIZE_def LUA_MINSTACK_def)

text \<open>C29: leaving a scope keeps the captured variables: closing from a stack level ends, leaves open
  exactly the upvalues below it, and every upvalue reads the value it read before.\<close>

theorem luaF_close_keeps_values:
  assumes "upvals_ok L"
  shows "\<exists>os g. luaF_close level L = (Inr (), L\<lparr>l_openupval := os, l_G := g\<rparr>) \<and>
    upvals_ok (L\<lparr>l_openupval := os, l_G := g\<rparr>) \<and>
    (\<forall>p. upval_value (L\<lparr>l_openupval := os, l_G := g\<rparr>) p = upval_value L p) \<and>
    (\<forall>p. uv_level g p = (case uv_level (l_G L) p of Some v \<Rightarrow> if level \<le> v then None else Some v | None \<Rightarrow> None))"
proof -
  obtain L' where L': "luaF_close level L = (Inr (), L')" "upvals_ok L'" "closed_from level L L'"
    using luaF_close_ok [OF assms] by blast
  then obtain os g where "L' = L\<lparr>l_openupval := os, l_G := g\<rparr>" unfolding closed_from_def by blast
  with L' show ?thesis by (intro exI [of _ os] exI [of _ g]) (simp add: closed_from_def)
qed

definition one_upval :: lua_State where
  "one_upval = empty_thread\<lparr>l_stack := (l_stack empty_thread)[3 := BOOLEAN True], l_openupval := [16],
     l_G := empty_state\<lparr>next_addr := 17, uvhead := [16],
       upvalues := (\<lambda>_. None)(16 \<mapsto> \<lparr>uv_v = OnStack 3, uv_value = NIL\<rparr>)\<rparr>\<rparr>"

lemma one_upval_ok: "upvals_ok one_upval"
proof -
  have "uv_level (l_G one_upval) p = (if p = 16 then Some 3 else None)" for p
    by (simp add: uv_level_def one_upval_def)
  then show ?thesis
    by (simp add: upvals_ok_def) (simp add: one_upval_def empty_thread_def BASIC_STACK_SIZE_def LUA_MINSTACK_def)
qed

theorem luaF_close_keeps_values_witness:
  "\<exists>L. luaF_close 2 one_upval = (Inr (), L) \<and> upval_value L 16 = Some (BOOLEAN True) \<and> uv_level (l_G L) 16 = None"
proof -
  have v: "upval_value one_upval 16 = Some (BOOLEAN True)" "uv_level (l_G one_upval) 16 = Some 3"
    by (simp_all add: upval_value_def uv_get_def uv_level_def one_upval_def empty_thread_def
        BASIC_STACK_SIZE_def LUA_MINSTACK_def)
  obtain os g where "luaF_close 2 one_upval = (Inr (), one_upval\<lparr>l_openupval := os, l_G := g\<rparr>)"
    "\<forall>p. upval_value (one_upval\<lparr>l_openupval := os, l_G := g\<rparr>) p = upval_value one_upval p"
    "\<forall>p. uv_level g p = (case uv_level (l_G one_upval) p of Some v \<Rightarrow> if 2 \<le> v then None else Some v | None \<Rightarrow> None)"
    using luaF_close_keeps_values [OF one_upval_ok, of 2] by blast
  with v show ?thesis by simp
qed

end
