(* ===== verification/Meta.thy ===== *)
theory Meta
  imports StrTable UpVals Chars
begin

text \<open>
  What the interpreter rests on: growth of the stack and of the array of calls (\<open>ldo.c\<close>), tag
  methods (\<open>ltm.c\<close>), run-time errors with their messages (\<open>ldebug.c\<close>), and coercions (\<open>lvm.c\<close>).
\<close>

section \<open>Parameters\<close>

text \<open>
  \<open>e_call\<close> is \<open>luaD_call\<close>, which the functions below reach again; \<open>e_cfun\<close> runs the C function of
  a number and may call back; \<open>e_hook\<close> is the hook; the others are the C library's.
\<close>

record vmenv =
  e_call :: "nat \<Rightarrow> int \<Rightarrow> unit vm"
  e_cfun :: "(nat \<Rightarrow> int \<Rightarrow> unit vm) \<Rightarrow> nat \<Rightarrow> int vm"
  e_hook :: "nat \<Rightarrow> int \<Rightarrow> unit vm"
  e_num :: num_ops
  e_num2str :: "lua_Number \<Rightarrow> string"
  e_str2number :: "string \<Rightarrow> lua_Number \<times> nat"
  e_strtoul16 :: "string \<Rightarrow> lua_Number \<times> nat"
  e_strcoll :: "string \<Rightarrow> string \<Rightarrow> int"

text \<open>The status codes of \<open>lua.h\<close>.\<close>

definition LUA_YIELD :: int where "LUA_YIELD = 1"
definition LUA_ERRRUN :: int where "LUA_ERRRUN = 2"
definition LUA_ERRSYNTAX :: int where "LUA_ERRSYNTAX = 3"
definition LUA_ERRMEM :: int where "LUA_ERRMEM = 4"
definition LUA_ERRERR :: int where "LUA_ERRERR = 5"

definition luaD_throw :: "int \<Rightarrow> 'a vm" where "luaD_throw errcode = throwM (Throw errcode)"

section \<open>The stack and the calls\<close>

text \<open>Pointers into the stack are indices, so there is nothing to correct after moving it; the
  contents of new slots are unspecified, nil here.\<close>

definition luaD_reallocstack :: "nat \<Rightarrow> unit vm" where
  "luaD_reallocstack newsize =
     (let realsize = newsize + 1 + EXTRA_STACK in
      modM (\<lambda>L. L\<lparr>l_stack := take realsize (l_stack L @ replicate (realsize - length (l_stack L)) NIL),
                  l_stack_last := newsize\<rparr>))"

definition luaD_growstack :: "nat \<Rightarrow> unit vm" where
  "luaD_growstack n =
     seqM (getM (\<lambda>L. length (l_stack L))) (\<lambda>stacksize.
       if n \<le> stacksize then luaD_reallocstack (2 * stacksize)
       else luaD_reallocstack (stacksize + n))"

definition luaD_checkstack :: "nat \<Rightarrow> unit vm" where
  "luaD_checkstack n =
     seqM (getM (\<lambda>L. int (l_stack_last L) - int (l_top L))) (\<lambda>room.
       whenM (room \<le> int n) (luaD_growstack n))"

definition incr_top :: "unit vm" where
  "incr_top = thenM (luaD_checkstack 1) (modM (\<lambda>L. L\<lparr>l_top := l_top L + 1\<rparr>))"

definition blank_ci :: CallInfo where
  "blank_ci = \<lparr>ci_base = 0, ci_func = 0, ci_top = 0, ci_savedpc = 0, ci_nresults = 0, ci_tailcalls = 0\<rparr>"

definition luaD_reallocCI :: "nat \<Rightarrow> unit vm" where
  "luaD_reallocCI newsize =
     modM (\<lambda>L. L\<lparr>l_base_ci := take newsize (l_base_ci L @ replicate (newsize - length (l_base_ci L)) blank_ci)\<rparr>)"

section \<open>Tag methods\<close>

datatype TMS = TM_INDEX | TM_NEWINDEX | TM_GC | TM_MODE | TM_EQ | TM_ADD | TM_SUB | TM_MUL | TM_DIV
  | TM_MOD | TM_POW | TM_UNM | TM_LEN | TM_LT | TM_LE | TM_CONCAT | TM_CALL

definition tm_list :: "TMS list" where
  "tm_list = [TM_INDEX, TM_NEWINDEX, TM_GC, TM_MODE, TM_EQ, TM_ADD, TM_SUB, TM_MUL, TM_DIV,
     TM_MOD, TM_POW, TM_UNM, TM_LEN, TM_LT, TM_LE, TM_CONCAT, TM_CALL]"

fun tm_index :: "TMS list \<Rightarrow> TMS \<Rightarrow> nat" where
  "tm_index [] e = 0"
| "tm_index (x # xs) e = (if x = e then 0 else Suc (tm_index xs e))"

definition tm_num :: "TMS \<Rightarrow> nat" where "tm_num e = tm_index tm_list e"

definition luaT_eventname :: "string list" where
  "luaT_eventname = [''__index'', ''__newindex'', ''__gc'', ''__mode'', ''__eq'', ''__add'', ''__sub'',
     ''__mul'', ''__div'', ''__mod'', ''__pow'', ''__unm'', ''__len'', ''__lt'', ''__le'', ''__concat'', ''__call'']"

definition the_tmname :: "TMS \<Rightarrow> addr vm" where
  "the_tmname e = seqM (getM (\<lambda>L. if tm_num e < length (tmname (l_G L)) then Some (tmname (l_G L) ! tm_num e) else None)) theM"

definition getstr_in :: "addr \<Rightarrow> addr \<Rightarrow> TValue vm" where
  "getstr_in t name = seqM (the_table t) (\<lambda>h.
     getM (\<lambda>L. read_slot h (luaH_getstr (string_hash (l_G L)) h name)))"

text \<open>\<open>luaT_gettm\<close> notes in the flags of the metatable that a method is absent.\<close>

definition luaT_gettm :: "addr \<Rightarrow> TMS \<Rightarrow> TValue option vm" where
  "luaT_gettm events event =
     seqM (the_tmname event) (\<lambda>name.
     seqM (getstr_in events name) (\<lambda>tm.
       if tm = NIL then
         seqM (the_table events) (\<lambda>h.
         thenM (put_table events (h\<lparr>flags := flags h OR push_bit (tm_num event) 1\<rparr>)) (retM None))
       else retM (Some tm)))"

definition fasttm :: "addr option \<Rightarrow> TMS \<Rightarrow> TValue option vm" where
  "fasttm et e =
     (case et of
        None \<Rightarrow> retM None
      | Some mt \<Rightarrow> seqM (the_table mt) (\<lambda>h.
          if flags h AND push_bit (tm_num e) 1 \<noteq> 0 then retM None else luaT_gettm mt e))"

definition the_metatable :: "TValue \<Rightarrow> addr option vm" where
  "the_metatable v =
     (case v of
        TABLE p \<Rightarrow> seqM (the_table p) (\<lambda>h. retM (metatable h))
      | USERDATA p \<Rightarrow> seqM (seqM (getM (\<lambda>L. udatas (l_G L) p)) theM) (\<lambda>u. retM (ud_metatable u))
      | v \<Rightarrow> seqM (getM (\<lambda>L. if ttype v < length (g_mt (l_G L)) then Some (g_mt (l_G L) ! ttype v) else None)) theM)"

definition luaT_gettmbyobj :: "TValue \<Rightarrow> TMS \<Rightarrow> TValue vm" where
  "luaT_gettmbyobj v event =
     seqM (the_metatable v) (\<lambda>mt.
       case mt of None \<Rightarrow> retM NIL | Some mt \<Rightarrow> seqM (the_tmname event) (getstr_in mt))"

definition intern :: "string \<Rightarrow> addr result vm" where
  "intern s = (\<lambda>L. case luaS_newlstr s (l_G L) of
     Inl e \<Rightarrow> (Inr (Inl e), L) | Inr (g, p) \<Rightarrow> (Inr (Inr p), L\<lparr>l_G := g\<rparr>))"

section \<open>Errors\<close>

text \<open>\<open>luaO_pushfstring\<close> leaves its message on the stack; the pieces it pushes on the way are not
  modelled. A message is never as long as memory.\<close>

definition push_string :: "string \<Rightarrow> unit vm" where
  "push_string s = seqM (intern s) (\<lambda>r. case r of
     Inl e \<Rightarrow> throwM Fault
   | Inr p \<Rightarrow> seqM (getM l_top) (\<lambda>t. thenM (setstack t (STRING p)) incr_top))"

definition luaG_errormsg :: "vmenv \<Rightarrow> 'a vm" where
  "luaG_errormsg E =
     seqM (getM l_errfunc) (\<lambda>ef.
     thenM (whenM (ef \<noteq> 0)
       (seqM (getstack ef) (\<lambda>errfunc.
        thenM (case errfunc of FUNCTION _ \<Rightarrow> retM () | _ \<Rightarrow> luaD_throw LUA_ERRERR)
        (seqM (getM l_top) (\<lambda>t.
         thenM (setobj t (t - 1))
         (thenM (setstack (t - 1) errfunc)
         (thenM incr_top
         (seqM (getM l_top) (\<lambda>t. e_call E (t - 2) 1)))))))))
     (luaD_throw LUA_ERRRUN))"

definition getluaproto :: "CallInfo \<Rightarrow> Proto vm" where
  "getluaproto c = seqM (ci_closure c) (\<lambda>cl. case cl of LClosure _ p _ \<Rightarrow> retM p | _ \<Rightarrow> throwM Fault)"

text \<open>For the running call the saved program counter of the thread is stored first.\<close>

definition currentpc :: "nat \<Rightarrow> int vm" where
  "currentpc i =
     seqM (the_ci i) (\<lambda>c.
     seqM (isLua c) (\<lambda>lua.
       if \<not> lua then retM (-1)
       else
         thenM (modM (\<lambda>L. if i = l_ci L
             then L\<lparr>l_base_ci := (l_base_ci L)[i := (l_base_ci L ! i)\<lparr>ci_savedpc := l_savedpc L\<rparr>]\<rparr> else L))
         (seqM (the_ci i) (\<lambda>c. retM (int (ci_savedpc c) - 1)))))"

definition lineof :: "Proto \<Rightarrow> int \<Rightarrow> int option" where
  "lineof p i =
     (if p_lineinfo p = [] then Some 0
      else if 0 \<le> i \<and> i < int (length (p_lineinfo p)) then Some (p_lineinfo p ! nat i) else None)"

definition currentline :: "nat \<Rightarrow> int vm" where
  "currentline i =
     seqM (currentpc i) (\<lambda>pc.
       if pc < 0 then retM (-1)
       else seqM (the_ci i) (\<lambda>c. seqM (getluaproto c) (\<lambda>p. theM (lineof p pc))))"

definition LUA_IDSIZE :: u64 where "LUA_IDSIZE = 60"

definition addinfo :: "vmenv \<Rightarrow> string \<Rightarrow> unit vm" where
  "addinfo E msg =
     seqM (getM l_ci) (\<lambda>i.
     seqM (the_ci i) (\<lambda>c.
     seqM (isLua c) (\<lambda>lua. whenM lua
       (seqM (currentline i) (\<lambda>line.
        seqM (getluaproto c) (\<lambda>p.
        seqM (theM (p_source p)) (\<lambda>src.
          push_string (luaO_chunkid (of_tstring src) LUA_IDSIZE @ '':'' @ e_num2str E (cast_num line) @
            '': '' @ msg))))))))"

definition luaG_runerror :: "vmenv \<Rightarrow> string \<Rightarrow> 'a vm" where
  "luaG_runerror E msg = thenM (push_string msg) (thenM (addinfo E msg) (luaG_errormsg E))"

text \<open>An error of a table or string operation is raised; its other failures are not behaviours.\<close>

definition liftR :: "vmenv \<Rightarrow> 'a result \<Rightarrow> 'a vm" where
  "liftR E r = (case r of
     Inr x \<Rightarrow> retM x | Inl (RunError msg) \<Rightarrow> luaG_runerror E msg | Inl MemError \<Rightarrow> luaD_throw LUA_ERRMEM
   | Inl OutOfFuel \<Rightarrow> throwM NoFuel | Inl _ \<Rightarrow> throwM Fault)"

definition newstring :: "vmenv \<Rightarrow> string \<Rightarrow> addr vm" where
  "newstring E s = seqM (intern s) (liftR E)"

text \<open>A value is a culprit with the stack slot it is in, when it is in one. Names are looked for on
  the registers below, at most 250.\<close>

definition culprit_name :: "vmenv \<Rightarrow> nat option \<Rightarrow> (string \<times> tstring option) option vm" where
  "culprit_name E slot =
     seqM (getM l_ci) (\<lambda>i. seqM (the_ci i) (\<lambda>c.
       case slot of
         None \<Rightarrow> retM None
       | Some s \<Rightarrow>
           if ci_base c \<le> s \<and> s < ci_top c then
             seqM (isLua c) (\<lambda>lua.
               if \<not> lua then retM None
               else seqM (getluaproto c) (\<lambda>p. seqM (currentpc i) (\<lambda>pc. seqM (getM l_base) (\<lambda>base.
                 liftR E (getobjname 256 p pc (int s - int base))))))
           else retM None))"

definition luaG_typeerror :: "vmenv \<Rightarrow> nat option \<Rightarrow> TValue \<Rightarrow> string \<Rightarrow> 'a vm" where
  "luaG_typeerror E slot culprit action =
     (let t = luaT_typenames ! ttype culprit in
      seqM (culprit_name E slot) (\<lambda>found.
        case found of
          Some (what, name) \<Rightarrow>
            luaG_runerror E (''attempt to '' @ action @ '' '' @ what @ '' '' @
              quoted (case name of None \<Rightarrow> ''(null)'' | Some n \<Rightarrow> of_tstring n) @ '' (a '' @ t @ '' value)'')
        | None \<Rightarrow> luaG_runerror E (''attempt to '' @ action @ '' a '' @ t @ '' value'')))"

section \<open>Coercions\<close>

definition luaV_tonumber :: "vmenv \<Rightarrow> TValue \<Rightarrow> lua_Number option vm" where
  "luaV_tonumber E v =
     (case v of
        NUMBER n \<Rightarrow> retM (Some n)
      | STRING p \<Rightarrow> seqM (the_string p) (\<lambda>s.
          case luaO_str2d (e_str2number E) (e_strtoul16 E) (takeWhile (\<lambda>c. c \<noteq> CHR 0x00) s) of
            (ok, num) \<Rightarrow> retM (if ok then Some num else None))
      | _ \<Rightarrow> retM None)"

text \<open>\<open>luaV_tostring\<close> changes the slot.\<close>

definition luaV_tostring :: "vmenv \<Rightarrow> nat \<Rightarrow> bool vm" where
  "luaV_tostring E obj =
     seqM (getstack obj) (\<lambda>v.
       case v of
         NUMBER n \<Rightarrow> seqM (newstring E (e_num2str E n)) (\<lambda>p. thenM (setstack obj (STRING p)) (retM True))
       | _ \<Rightarrow> retM False)"

definition tostring :: "vmenv \<Rightarrow> nat \<Rightarrow> bool vm" where
  "tostring E obj = seqM (getstack obj) (\<lambda>v. case v of STRING _ \<Rightarrow> retM True | _ \<Rightarrow> luaV_tostring E obj)"

definition luaG_concaterror :: "vmenv \<Rightarrow> nat \<Rightarrow> nat \<Rightarrow> 'a vm" where
  "luaG_concaterror E p1 p2 =
     seqM (getstack p1) (\<lambda>v1. seqM (getstack p2) (\<lambda>v2.
       case v1 of
         STRING _ \<Rightarrow> luaG_typeerror E (Some p2) v2 ''concatenate''
       | NUMBER _ \<Rightarrow> luaG_typeerror E (Some p2) v2 ''concatenate''
       | _ \<Rightarrow> luaG_typeerror E (Some p1) v1 ''concatenate''))"

definition luaG_aritherror :: "vmenv \<Rightarrow> nat option \<times> TValue \<Rightarrow> nat option \<times> TValue \<Rightarrow> 'a vm" where
  "luaG_aritherror E p1 p2 =
     seqM (luaV_tonumber E (snd p1)) (\<lambda>n.
       case (if n = None then p1 else p2) of (slot, v) \<Rightarrow> luaG_typeerror E slot v ''perform arithmetic on'')"

end
