(* ===== verification/Do.thy ===== *)
theory Do
  imports Meta
begin

text \<open>
  The stack and call structure (\<open>ldo.c\<close>): entering and leaving functions, protected calls,
  coroutines. Jumps to the error handlers are results of the computation.
\<close>

section \<open>Error objects\<close>

definition luaD_seterrorobj :: "vmenv \<Rightarrow> int \<Rightarrow> nat \<Rightarrow> unit vm" where
  "luaD_seterrorobj E errcode oldtop =
     thenM
       (if errcode = LUA_ERRMEM then seqM (newstring E ''not enough memory'') (\<lambda>p. setstack oldtop (STRING p))
        else if errcode = LUA_ERRERR then
          seqM (newstring E ''error in error handling'') (\<lambda>p. setstack oldtop (STRING p))
        else if errcode = LUA_ERRSYNTAX \<or> errcode = LUA_ERRRUN then
          seqM (getM l_top) (\<lambda>t. setobj oldtop (t - 1))
        else retM ())
       (set_top (oldtop + 1))"

definition restore_stack_limit :: "unit vm" where
  "restore_stack_limit =
     seqM (getM id) (\<lambda>L.
     thenM (assertM (l_stack_last L = length (l_stack L) - EXTRA_STACK - 1))
       (whenM (length (l_base_ci L) > LUAI_MAXCALLS \<and> l_ci L + 1 < LUAI_MAXCALLS)
         (luaD_reallocCI LUAI_MAXCALLS)))"

text \<open>What \<open>setjmp\<close> catches; the state is the one at the throw.\<close>

definition luaD_rawrunprotected :: "unit vm \<Rightarrow> int vm" where
  "luaD_rawrunprotected f = (\<lambda>L. case f L of
     (Inr _, L) \<Rightarrow> (Inr 0, L) | (Inl (Throw c), L) \<Rightarrow> (Inr c, L) | (Inl e, L) \<Rightarrow> (Inl e, L))"

section \<open>Entering a function\<close>

definition growCI :: "vmenv \<Rightarrow> unit vm" where
  "growCI E =
     seqM (getM (\<lambda>L. length (l_base_ci L))) (\<lambda>size_ci.
       if size_ci > LUAI_MAXCALLS then luaD_throw LUA_ERRERR
       else
         thenM (luaD_reallocCI (2 * size_ci))
         (thenM (whenM (2 * size_ci > LUAI_MAXCALLS) (luaG_runerror E ''stack overflow''))
         (modM (\<lambda>L. L\<lparr>l_ci := l_ci L + 1\<rparr>))))"

definition inc_ci :: "vmenv \<Rightarrow> unit vm" where
  "inc_ci E = seqM (getM (\<lambda>L. l_ci L + 1 = length (l_base_ci L))) (\<lambda>full.
     if full then growCI E else modM (\<lambda>L. L\<lparr>l_ci := l_ci L + 1\<rparr>))"

definition LUA_HOOKCALL :: nat where "LUA_HOOKCALL = 0"
definition LUA_HOOKRET :: nat where "LUA_HOOKRET = 1"
definition LUA_HOOKLINE :: nat where "LUA_HOOKLINE = 2"
definition LUA_HOOKCOUNT :: nat where "LUA_HOOKCOUNT = 3"
definition LUA_HOOKTAILRET :: nat where "LUA_HOOKTAILRET = 4"

definition hook_on :: "nat \<Rightarrow> bool vm" where
  "hook_on event = getM (\<lambda>L. l_hookmask L AND push_bit event 1 \<noteq> 0)"

definition luaD_callhook :: "vmenv \<Rightarrow> nat \<Rightarrow> int \<Rightarrow> unit vm" where
  "luaD_callhook E event line =
     seqM (getM id) (\<lambda>L.
     whenM (l_hashook L \<and> l_allowhook L)
          (seqM cur_ci (\<lambda>c.
           thenM (luaD_checkstack LUA_MINSTACK)
           (thenM (put_ci (l_ci L) (c\<lparr>ci_top := l_top L + LUA_MINSTACK\<rparr>))
           (thenM (modM (\<lambda>L. L\<lparr>l_allowhook := False\<rparr>))
           (thenM (e_hook E event line)
           (seqM (getM l_allowhook) (\<lambda>a.
           thenM (assertM (\<not> a))
           (thenM (modM (\<lambda>L. L\<lparr>l_allowhook := True\<rparr>))
           (seqM (getM l_ci) (\<lambda>i.
           seqM (the_ci i) (\<lambda>d.
           thenM (put_ci i (d\<lparr>ci_top := ci_top c\<rparr>))
           (set_top (l_top L))))))))))))))"

text \<open>Push \<open>n\<close> nils.\<close>

primrec push_nils :: "nat \<Rightarrow> unit vm" where
  "push_nils 0 = retM ()"
| "push_nils (Suc n) =
     seqM (getM l_top) (\<lambda>t. thenM (setstack t NIL) (thenM (set_top (t + 1)) (push_nils n)))"

primrec move_fixed :: "nat \<Rightarrow> nat \<Rightarrow> unit vm" where
  "move_fixed 0 fixed = retM ()"
| "move_fixed (Suc n) fixed =
     seqM (getM l_top) (\<lambda>t.
     thenM (setobj t fixed)
     (thenM (set_top (t + 1))
     (thenM (setstack fixed NIL) (move_fixed n (fixed + 1)))))"

definition adjust_varargs :: "Proto \<Rightarrow> nat \<Rightarrow> nat vm" where
  "adjust_varargs p actual =
     (let nfixargs = unat (p_numparams p) in
      thenM (push_nils (nfixargs - actual))
      (seqM (getM l_top) (\<lambda>base.
      thenM (move_fixed nfixargs (base - max actual nfixargs))
      (retM base))))"

text \<open>The hole is opened from the top, before the room is checked.\<close>

primrec shift_up :: "nat \<Rightarrow> nat \<Rightarrow> unit vm" where
  "shift_up 0 p = retM ()"
| "shift_up (Suc n) p = thenM (setobj p (p - 1)) (shift_up n (p - 1))"

definition tryfuncTM :: "vmenv \<Rightarrow> nat \<Rightarrow> nat vm" where
  "tryfuncTM E func =
     seqM (getstack func) (\<lambda>v.
     seqM (luaT_gettmbyobj v TM_CALL) (\<lambda>tm.
     thenM (case tm of FUNCTION _ \<Rightarrow> retM () | _ \<Rightarrow> luaG_typeerror E (Some func) v ''call'')
     (seqM (getM l_top) (\<lambda>t.
     thenM (shift_up (t - func) t)
     (thenM incr_top
     (thenM (setstack func tm)
     (retM func)))))))"

definition init_slots :: "nat \<Rightarrow> nat \<Rightarrow> unit vm" where
  "init_slots from to = forM [from..<to] (\<lambda>slot. setstack slot NIL)"

datatype pcr = PCRLUA | PCRC | PCRYIELD

section \<open>Leaving a function\<close>

text \<open>\<open>i\<close> counts down from \<open>wanted\<close>; a negative one never reaches 0.\<close>

primrec move_results :: "nat \<Rightarrow> int \<Rightarrow> nat \<Rightarrow> nat \<Rightarrow> (int \<times> nat) vm" where
  "move_results 0 i res firstResult = retM (i, res)"
| "move_results (Suc n) i res firstResult =
     (if i \<noteq> 0 then thenM (setobj res firstResult) (move_results n (i - 1) (res + 1) (firstResult + 1))
      else retM (i, res))"

text \<open>The count goes down before the hook is called, below zero at the end.\<close>

primrec tail_rethooks :: "vmenv \<Rightarrow> nat \<Rightarrow> unit vm" where
  "tail_rethooks E 0 = throwM NoFuel"
| "tail_rethooks E (Suc n) =
     seqM (hook_on LUA_HOOKRET) (\<lambda>on.
     whenM on
          (seqM (getM l_ci) (\<lambda>i.
           seqM cur_ci (\<lambda>c.
           thenM (put_ci i (c\<lparr>ci_tailcalls := ci_tailcalls c - 1\<rparr>))
           (whenM (ci_tailcalls c \<noteq> 0)
                 (thenM (luaD_callhook E LUA_HOOKTAILRET (-1))
                 (tail_rethooks E n)))))))"

definition callrethooks :: "vmenv \<Rightarrow> unit vm" where
  "callrethooks E =
     thenM (luaD_callhook E LUA_HOOKRET (-1))
     (seqM cur_ci (\<lambda>c.
     seqM (isLua c) (\<lambda>lua.
     whenM lua (tail_rethooks E (nat (ci_tailcalls c) + 1)))))"

definition luaD_poscall :: "vmenv \<Rightarrow> nat \<Rightarrow> int vm" where
  "luaD_poscall E firstResult =
     seqM (hook_on LUA_HOOKRET) (\<lambda>on.
     thenM (whenM on (callrethooks E))
     (seqM (getM l_ci) (\<lambda>i.
     thenM (assertM (i > 0))
     (seqM (the_ci i) (\<lambda>c.
     seqM (the_ci (i - 1)) (\<lambda>prev.
     thenM (modM (\<lambda>L. L\<lparr>l_ci := i - 1, l_base := ci_base prev, l_savedpc := ci_savedpc prev\<rparr>))
     (seqM (getM l_top) (\<lambda>t.
     seqM (move_results (t - firstResult) (ci_nresults c) (ci_func c) firstResult) (\<lambda>(i, res).
     thenM (init_slots res (res + nat i))
     (thenM (set_top (res + nat i))
     (retM (ci_nresults c - LUA_MULTRET))))))))))))"

definition enter_frame :: "vmenv \<Rightarrow> nat \<Rightarrow> int \<Rightarrow> Proto \<Rightarrow> nat \<Rightarrow> pcr vm" where
  "enter_frame E func_value nresults proto base =
     thenM (inc_ci E)
     (seqM (getM l_ci) (\<lambda>i.
     seqM (the_ci i) (\<lambda>c.
     (let ctop = base + unat (p_maxstacksize proto) in
     seqM (getM l_stack_last) (\<lambda>stack_last.
     thenM (assertM (ctop \<le> stack_last))
     (thenM (put_ci i (c\<lparr>ci_func := func_value, ci_base := base, ci_top := ctop, ci_tailcalls := 0,
             ci_nresults := nresults\<rparr>))
     (thenM (modM (\<lambda>L. L\<lparr>l_base := base, l_savedpc := 0\<rparr>))
     (seqM (getM l_top) (\<lambda>t.
     thenM (init_slots t ctop)
     (thenM (set_top ctop)
     (seqM (hook_on LUA_HOOKCALL) (\<lambda>on.
     thenM (whenM on
          (thenM (modM (\<lambda>L. L\<lparr>l_savedpc := l_savedpc L + 1\<rparr>))
           (thenM (luaD_callhook E LUA_HOOKCALL (-1))
           (modM (\<lambda>L. L\<lparr>l_savedpc := l_savedpc L - 1\<rparr>)))))
     (retM PCRLUA)))))))))))))"

definition precall_lua :: "vmenv \<Rightarrow> nat \<Rightarrow> int \<Rightarrow> Proto \<Rightarrow> pcr vm" where
  "precall_lua E func_value nresults proto =
     thenM (luaD_checkstack (unat (p_maxstacksize proto)))
     (seqM (getM l_top) (\<lambda>t.
     seqM (if p_is_vararg proto = 0 then
                    thenM (whenM (t > func_value + 1 + unat (p_numparams proto))
                        (set_top (func_value + 1 + unat (p_numparams proto))))
                      (retM (func_value + 1))
                  else adjust_varargs proto (t - func_value - 1)) (\<lambda>base.
     enter_frame E func_value nresults proto base)))"

definition precall_c :: "vmenv \<Rightarrow> nat \<Rightarrow> int \<Rightarrow> nat \<Rightarrow> pcr vm" where
  "precall_c E func_value nresults f =
     thenM (luaD_checkstack LUA_MINSTACK)
     (thenM (inc_ci E)
     (seqM (getM l_ci) (\<lambda>i.
     seqM (the_ci i) (\<lambda>c.
     seqM (getM l_top) (\<lambda>t.
     thenM (modM (\<lambda>L. L\<lparr>l_base := func_value + 1\<rparr>))
     (seqM (getM l_stack_last) (\<lambda>stack_last.
     thenM (assertM (t + LUA_MINSTACK \<le> stack_last))
     (thenM (put_ci i (c\<lparr>ci_func := func_value, ci_base := func_value + 1, ci_top := t + LUA_MINSTACK,
             ci_nresults := nresults\<rparr>))
     (seqM (hook_on LUA_HOOKCALL) (\<lambda>on.
     thenM (whenM on (luaD_callhook E LUA_HOOKCALL (-1)))
     (seqM (e_cfun E (e_call E) f) (\<lambda>n.
     if n < 0 then retM PCRYIELD
         else seqM (getM l_top) (\<lambda>t.
              thenM (luaD_poscall E (t - nat n))
              (retM PCRC))))))))))))))"

definition luaD_precall :: "vmenv \<Rightarrow> nat \<Rightarrow> int \<Rightarrow> pcr vm" where
  "luaD_precall E func_value nresults =
     seqM (getstack func_value) (\<lambda>v.
     seqM (case v of FUNCTION _ \<Rightarrow> retM func_value | _ \<Rightarrow> tryfuncTM E func_value) (\<lambda>func_value.
     seqM (getstack func_value) (\<lambda>v.
     seqM (case v of FUNCTION p \<Rightarrow> the_closure p | _ \<Rightarrow> throwM Fault) (\<lambda>closure.
     seqM (getM l_ci) (\<lambda>i.
     seqM (the_ci i) (\<lambda>c.
     seqM (getM l_savedpc) (\<lambda>saved.
     thenM (put_ci i (c\<lparr>ci_savedpc := saved\<rparr>))
     (case closure of
           LClosure _ proto _ \<Rightarrow> precall_lua E func_value nresults proto
         | CClosure _ f _ \<Rightarrow> precall_c E func_value nresults f))))))))"

end
