(* ===== verification/VmOps.thy ===== *)
theory VmOps
  imports Do
begin

text \<open>
  The operations of the virtual machine (\<open>lvm.c\<close>) that may call metamethods: indexing, comparison,
  concatenation, arithmetic.
\<close>

section \<open>Calling metamethods\<close>

definition callTMres :: "vmenv \<Rightarrow> nat \<Rightarrow> TValue \<Rightarrow> TValue \<Rightarrow> TValue \<Rightarrow> unit vm" where
  "callTMres E res f p1 p2 =
     seqM (getM l_top) (\<lambda>t.
     thenM (setstack t f)
     (thenM (setstack (t + 1) p1)
     (thenM (setstack (t + 2) p2)
     (thenM (luaD_checkstack 3)
     (thenM (set_top (t + 3))
     (thenM (e_call E t 1)
     (seqM (getM l_top) (\<lambda>t.
     thenM (set_top (t - 1))
     (setobj res (t - 1))))))))))"

definition callTM :: "vmenv \<Rightarrow> TValue \<Rightarrow> TValue \<Rightarrow> TValue \<Rightarrow> TValue \<Rightarrow> unit vm" where
  "callTM E f p1 p2 p3 =
     seqM (getM l_top) (\<lambda>t.
     thenM (setstack t f)
     (thenM (setstack (t + 1) p1)
     (thenM (setstack (t + 2) p2)
     (thenM (setstack (t + 3) p3)
     (thenM (luaD_checkstack 4)
     (thenM (set_top (t + 4))
     (e_call E t 0)))))))"

section \<open>Indexing\<close>

definition MAXTAGLOOP :: nat where "MAXTAGLOOP = 100"

text \<open>The metamethod of a table whose field is absent, or of another value.\<close>

definition index_tm :: "vmenv \<Rightarrow> nat option \<Rightarrow> TValue \<Rightarrow> TMS \<Rightarrow> TValue vm" where
  "index_tm E slot t event =
     seqM (luaT_gettmbyobj t event) (\<lambda>tm.
     if tm = NIL then luaG_typeerror E slot t ''index'' else retM tm)"

definition rawget_at :: "addr \<Rightarrow> TValue \<Rightarrow> TValue vm" where
  "rawget_at h key =
     seqM (the_table h) (\<lambda>t.
     getM (\<lambda>L. read_slot t (luaH_get (string_hash (l_G L)) t key)))"

primrec gettable_loop :: "vmenv \<Rightarrow> nat \<Rightarrow> nat option \<Rightarrow> TValue \<Rightarrow> TValue \<Rightarrow> nat \<Rightarrow> unit vm" where
  "gettable_loop E 0 slot t key val = luaG_runerror E ''loop in gettable''"
| "gettable_loop E (Suc n) slot t key val =
     seqM (case t of
           TABLE h \<Rightarrow>
             seqM (rawget_at h key) (\<lambda>res.
             if res \<noteq> NIL then retM (Inl res)
                 else seqM (the_table h) (\<lambda>d.
                      seqM (fasttm (metatable d) TM_INDEX) (\<lambda>tm.
                      retM (case tm of None \<Rightarrow> Inl res | Some tm \<Rightarrow> Inr tm))))
         | _ \<Rightarrow> seqM (index_tm E slot t TM_INDEX) (\<lambda>tm.
                           retM (Inr tm))) (\<lambda>found.
     case found of
           Inl res \<Rightarrow> setstack val res
         | Inr (FUNCTION f) \<Rightarrow> callTMres E val (FUNCTION f) t key
         | Inr tm \<Rightarrow> gettable_loop E n None tm key val)"

definition luaV_gettable :: "vmenv \<Rightarrow> nat option \<times> TValue \<Rightarrow> TValue \<Rightarrow> nat \<Rightarrow> unit vm" where
  "luaV_gettable E t key val = gettable_loop E MAXTAGLOOP (fst t) (snd t) key val"

text \<open>The primitive set comes first, so the key is in the table even when a metamethod is called.\<close>

primrec settable_loop :: "vmenv \<Rightarrow> nat \<Rightarrow> nat option \<Rightarrow> TValue \<Rightarrow> TValue \<Rightarrow> TValue \<Rightarrow> unit vm" where
  "settable_loop E 0 slot tbl key val = luaG_runerror E ''loop in settable''"
| "settable_loop E (Suc n) slot tbl key val =
     seqM (case tbl of
           TABLE h \<Rightarrow>
             seqM (the_table h) (\<lambda>t.
             seqM (getM (\<lambda>L. string_hash (l_G L))) (\<lambda>sh.
             seqM (liftR E (luaH_set sh t key)) (\<lambda>(t, s).
             thenM (put_table h t)
             (seqM (if read_slot t (Some s) \<noteq> NIL then retM None else fasttm (metatable t) TM_NEWINDEX) (\<lambda>tm.
             retM (case tm of None \<Rightarrow> Inl (h, s) | Some tm \<Rightarrow> Inr tm))))))
         | _ \<Rightarrow> seqM (index_tm E slot tbl TM_NEWINDEX) (\<lambda>tm.
                           retM (Inr tm))) (\<lambda>found.
     case found of
           Inl (h, s) \<Rightarrow>
             seqM (the_table h) (\<lambda>t.
             put_table h ((write_slot t s val)\<lparr>flags := 0\<rparr>))
         | Inr (FUNCTION f) \<Rightarrow> callTM E (FUNCTION f) tbl key val
         | Inr tm \<Rightarrow> settable_loop E n None tm key val)"

definition luaV_settable :: "vmenv \<Rightarrow> nat option \<times> TValue \<Rightarrow> TValue \<Rightarrow> TValue \<Rightarrow> unit vm" where
  "luaV_settable E tbl key val = settable_loop E MAXTAGLOOP (fst tbl) (snd tbl) key val"

section \<open>Metamethods of two operands\<close>

definition call_binTM :: "vmenv \<Rightarrow> TValue \<Rightarrow> TValue \<Rightarrow> nat \<Rightarrow> TMS \<Rightarrow> bool vm" where
  "call_binTM E p1 p2 res event =
     seqM (luaT_gettmbyobj p1 event) (\<lambda>tm.
     seqM (if tm = NIL then luaT_gettmbyobj p2 event else retM tm) (\<lambda>tm.
     if tm = NIL then retM False
         else thenM (callTMres E res tm p1 p2)
              (retM True)))"

definition get_compTM :: "addr option \<Rightarrow> addr option \<Rightarrow> TMS \<Rightarrow> TValue option vm" where
  "get_compTM mt1 mt2 event =
     seqM (fasttm mt1 event) (\<lambda>tm1.
     case tm1 of
           None \<Rightarrow> retM None
         | Some f1 \<Rightarrow>
             if mt1 = mt2 then retM (Some f1)
             else seqM (fasttm mt2 event) (\<lambda>tm2.
                  retM (case tm2 of
                        None \<Rightarrow> None
                      | Some f2 \<Rightarrow> if luaO_rawequalObj f1 f2 then Some f1 else None)))"

text \<open>\<open>None\<close> is -1, no metamethod.\<close>

definition call_orderTM :: "vmenv \<Rightarrow> TValue \<Rightarrow> TValue \<Rightarrow> TMS \<Rightarrow> bool option vm" where
  "call_orderTM E p1 p2 event =
     seqM (luaT_gettmbyobj p1 event) (\<lambda>tm1.
     if tm1 = NIL then retM None
         else
           seqM (luaT_gettmbyobj p2 event) (\<lambda>tm2.
           if \<not> luaO_rawequalObj tm1 tm2 then retM None
               else seqM (getM l_top) (\<lambda>t.
                    thenM (callTMres E t tm1 p1 p2)
                    (seqM (getM l_top) (\<lambda>t.
                    seqM (getstack t) (\<lambda>r.
                    retM (Some (\<not> l_isfalse r))))))))"

section \<open>Comparison\<close>

text \<open>Strings compare piece by piece between their zero bytes.\<close>

definition cstr :: "string \<Rightarrow> string" where "cstr s = takeWhile (\<lambda>c. c \<noteq> CHR 0x00) s"

function l_strcmp :: "(string \<Rightarrow> string \<Rightarrow> int) \<Rightarrow> string \<Rightarrow> string \<Rightarrow> int" where
  "l_strcmp strcoll l r =
     (let temp = strcoll (cstr l) (cstr r) in
      if temp \<noteq> 0 then temp
      else
        let len = length (cstr l) in
        if len = length r then (if len = length l then 0 else 1)
        else if len \<ge> length l then -1
        else l_strcmp strcoll (drop (len + 1) l) (drop (len + 1) r))"
  by pat_completeness auto
termination by (relation "measure (\<lambda>(strcoll, l, r). length l)") auto

declare l_strcmp.simps [simp del]

definition ordererror :: "vmenv \<Rightarrow> TValue \<Rightarrow> TValue \<Rightarrow> 'a vm" where
  "ordererror E l r = luaG_runerror E (luaG_ordererror l r)"

definition luaV_lessthan :: "vmenv \<Rightarrow> TValue \<Rightarrow> TValue \<Rightarrow> bool vm" where
  "luaV_lessthan E l r =
     (if ttype l \<noteq> ttype r then ordererror E l r
      else case (l, r) of
        (NUMBER a, NUMBER b) \<Rightarrow> retM (luai_numlt a b)
      | (STRING p, STRING q) \<Rightarrow>
          seqM (the_string p) (\<lambda>s.
          seqM (the_string q) (\<lambda>u.
          retM (l_strcmp (e_strcoll E) s u < 0)))
      | _ \<Rightarrow>
          seqM (call_orderTM E l r TM_LT) (\<lambda>res.
          case res of Some b \<Rightarrow> retM b | None \<Rightarrow> ordererror E l r))"

definition lessequal :: "vmenv \<Rightarrow> TValue \<Rightarrow> TValue \<Rightarrow> bool vm" where
  "lessequal E l r =
     (if ttype l \<noteq> ttype r then ordererror E l r
      else case (l, r) of
        (NUMBER a, NUMBER b) \<Rightarrow> retM (luai_numle a b)
      | (STRING p, STRING q) \<Rightarrow>
          seqM (the_string p) (\<lambda>s.
          seqM (the_string q) (\<lambda>u.
          retM (l_strcmp (e_strcoll E) s u \<le> 0)))
      | _ \<Rightarrow>
          seqM (call_orderTM E l r TM_LE) (\<lambda>res.
          case res of
                Some b \<Rightarrow> retM b
              | None \<Rightarrow>
                  seqM (call_orderTM E r l TM_LT) (\<lambda>res.
                  case res of Some b \<Rightarrow> retM (\<not> b) | None \<Rightarrow> ordererror E l r)))"

definition luaV_equalval :: "vmenv \<Rightarrow> TValue \<Rightarrow> TValue \<Rightarrow> bool vm" where
  "luaV_equalval E t1 t2 =
     thenM (assertM (ttype t1 = ttype t2))
     (seqM (case (t1, t2) of
             (NIL, _) \<Rightarrow> retM (Inl True)
           | (NUMBER a, NUMBER b) \<Rightarrow> retM (Inl (luai_numeq a b))
           | (BOOLEAN a, BOOLEAN b) \<Rightarrow> retM (Inl (a = b))
           | (LIGHTUSERDATA a, LIGHTUSERDATA b) \<Rightarrow> retM (Inl (a = b))
           | (USERDATA a, USERDATA b) \<Rightarrow>
               if a = b then retM (Inl True)
               else seqM (the_metatable t1) (\<lambda>m1.
                    seqM (the_metatable t2) (\<lambda>m2.
                    seqM (get_compTM m1 m2 TM_EQ) (\<lambda>tm.
                    retM (Inr tm))))
           | (TABLE a, TABLE b) \<Rightarrow>
               if a = b then retM (Inl True)
               else seqM (the_metatable t1) (\<lambda>m1.
                    seqM (the_metatable t2) (\<lambda>m2.
                    seqM (get_compTM m1 m2 TM_EQ) (\<lambda>tm.
                    retM (Inr tm))))
           | _ \<Rightarrow> retM (Inl (gcvalue t1 = gcvalue t2))) (\<lambda>tm.
     case tm of
           Inl b \<Rightarrow> retM b
         | Inr None \<Rightarrow> retM False
         | Inr (Some f) \<Rightarrow>
             seqM (getM l_top) (\<lambda>t.
             thenM (callTMres E t f t1 t2)
             (seqM (getM l_top) (\<lambda>t.
             seqM (getstack t) (\<lambda>r.
             retM (\<not> l_isfalse r)))))))"

definition equalobj :: "vmenv \<Rightarrow> TValue \<Rightarrow> TValue \<Rightarrow> bool vm" where
  "equalobj E o1 o2 = (if ttype o1 = ttype o2 then luaV_equalval E o1 o2 else retM False)"

section \<open>Concatenation\<close>

definition string_at :: "nat \<Rightarrow> string vm" where
  "string_at i = seqM (getstack i) (\<lambda>v.
                 case v of STRING p \<Rightarrow> the_string p | _ \<Rightarrow> throwM Fault)"

text \<open>Collect the total length of as many values as are strings or numbers: \<open>n\<close> so far.\<close>

primrec collect :: "vmenv \<Rightarrow> nat \<Rightarrow> nat \<Rightarrow> nat \<Rightarrow> int \<Rightarrow> nat vm" where
  "collect E 0 t n len = retM n"
| "collect E (Suc m) t n len =
     seqM (tostring E (t - n - 1)) (\<lambda>b.
     if \<not> b then retM n
         else seqM (string_at (t - n - 1)) (\<lambda>s.
              if int (length s) \<ge> MAX_SIZET - len then luaG_runerror E ''string length overflow''
                  else collect E m t (n + 1) (len + int (length s))))"

text \<open>The bytes of the top \<open>n\<close> values, from the lowest.\<close>

primrec gather :: "nat \<Rightarrow> nat \<Rightarrow> string vm" where
  "gather t 0 = retM []"
| "gather t (Suc n) = seqM (string_at (t - Suc n)) (\<lambda>s.
                      seqM (gather t n) (\<lambda>rest.
                      retM (s @ rest)))"

definition isstring_or_number :: "TValue \<Rightarrow> bool" where
  "isstring_or_number v = (case v of STRING _ \<Rightarrow> True | NUMBER _ \<Rightarrow> True | _ \<Rightarrow> False)"

text \<open>One pass over the values below \<open>t\<close>: the number of values it made one of.\<close>

definition concat_pass :: "vmenv \<Rightarrow> nat \<Rightarrow> nat \<Rightarrow> nat vm" where
  "concat_pass E nvals t =
     seqM (getstack (t - 2)) (\<lambda>v2.
     seqM (getstack (t - 1)) (\<lambda>v1.
     seqM (if isstring_or_number v2 then tostring E (t - 1) else retM False) (\<lambda>good.
     if \<not> good then
           seqM (call_binTM E v2 v1 (t - 2) TM_CONCAT) (\<lambda>called.
           if called then retM 2 else luaG_concaterror E (t - 2) (t - 1))
         else
           seqM (string_at (t - 1)) (\<lambda>s.
           if s = [] then seqM (tostring E (t - 2)) (\<lambda>_.
                          retM 2)
               else
                 seqM (collect E (nvals - 1) t 1 (int (length s))) (\<lambda>n.
                 seqM (gather t n) (\<lambda>buffer.
                 seqM (newstring E buffer) (\<lambda>p.
                 thenM (setstack (t - n) (STRING p))
                 (retM n))))))))"

text \<open>Every pass leaves fewer values, so one unit of fuel for each is enough.\<close>

primrec concat_loop_vm :: "vmenv \<Rightarrow> nat \<Rightarrow> nat \<Rightarrow> nat \<Rightarrow> unit vm" where
  "concat_loop_vm E 0 nvals last' = throwM NoFuel"
| "concat_loop_vm E (Suc f) nvals last' =
     seqM (getM l_base) (\<lambda>base.
     seqM (concat_pass E nvals (base + last' + 1)) (\<lambda>n.
     if nvals - (n - 1) > 1 then concat_loop_vm E f (nvals - (n - 1)) (last' - (n - 1))
         else retM ()))"

definition luaV_concat :: "vmenv \<Rightarrow> nat \<Rightarrow> nat \<Rightarrow> unit vm" where
  "luaV_concat E nvals last' = concat_loop_vm E (max nvals 1) nvals last'"

section \<open>Arithmetic\<close>

definition arith_value :: "num_ops \<Rightarrow> TMS \<Rightarrow> lua_Number \<Rightarrow> lua_Number \<Rightarrow> lua_Number option" where
  "arith_value ar op nb nc =
     (case op of
        TM_ADD \<Rightarrow> Some (numadd ar nb nc)
      | TM_SUB \<Rightarrow> Some (numsub ar nb nc)
      | TM_MUL \<Rightarrow> Some (nummul ar nb nc)
      | TM_DIV \<Rightarrow> Some (numdiv ar nb nc)
      | TM_MOD \<Rightarrow> Some (nummod ar nb nc)
      | TM_POW \<Rightarrow> Some (numpow ar nb nc)
      | TM_UNM \<Rightarrow> Some (luai_numunm nb)
      | _ \<Rightarrow> None)"

definition Arith :: "vmenv \<Rightarrow> nat \<Rightarrow> nat option \<times> TValue \<Rightarrow> nat option \<times> TValue \<Rightarrow> TMS \<Rightarrow> unit vm" where
  "Arith E ra rb rc op =
     seqM (luaV_tonumber E (snd rb)) (\<lambda>b.
     seqM (if b = None then retM None else luaV_tonumber E (snd rc)) (\<lambda>c.
     case (b, c) of
           (Some nb, Some nc) \<Rightarrow> seqM (theM (arith_value (e_num E) op nb nc)) (\<lambda>r.
                                            setstack ra (NUMBER r))
         | _ \<Rightarrow>
             seqM (call_binTM E (snd rb) (snd rc) ra op) (\<lambda>called.
             if called then retM () else luaG_aritherror E rb rc)))"

end
