(* ===== verification/Vm.thy ===== *)
theory Vm
  imports VmOps Undump
begin

text \<open>
  The interpreter loop (\<open>lvm.c\<close>) with calls (\<open>luaD_call\<close>) as its knot, and what \<open>ldo.c\<close> builds on
  it: protected calls and coroutines. The program counter, the closure and the base that
  \<open>luaV_execute\<close> keeps in locals are read from the running call; its assertions say they agree.
\<close>

section \<open>Operands\<close>

definition fetch :: "Proto \<Rightarrow> nat \<Rightarrow> u32 vm" where
  "fetch p i = theM (if i < length (p_code p) then Some (p_code p ! i) else None)"

text \<open>A string constant is the interned string of its contents.\<close>

definition konst :: "vmenv \<Rightarrow> Proto \<Rightarrow> int \<Rightarrow> TValue vm" where
  "konst E p i =
     (if 0 \<le> i \<and> i < int (length (p_constants p)) then
        case p_constants p ! nat i of
          KNIL \<Rightarrow> retM NIL
        | KBOOLEAN b \<Rightarrow> retM (BOOLEAN b)
        | KNUMBER n \<Rightarrow> retM (NUMBER n)
        | KSTRING None \<Rightarrow> throwM Fault
        | KSTRING (Some s) \<Rightarrow> seqM (newstring E (of_tstring s)) (\<lambda>a.
                                         retM (STRING a))
      else throwM Fault)"

definition reg :: "int \<Rightarrow> nat vm" where "reg i = seqM (getM l_base) (\<lambda>base.
                                                            retM (base + nat i))"

text \<open>A register or a constant, with the slot it is in.\<close>

definition RK :: "vmenv \<Rightarrow> Proto \<Rightarrow> int \<Rightarrow> (nat option \<times> TValue) vm" where
  "RK E p x =
     (if ISK x then seqM (konst E p (INDEXK x)) (\<lambda>v.
                    retM (None, v))
      else seqM (reg x) (\<lambda>r.
           seqM (getstack r) (\<lambda>v.
           retM (Some r, v))))"

definition save_pc :: "nat \<Rightarrow> unit vm" where "save_pc i = modM (\<lambda>L. L\<lparr>l_savedpc := i\<rparr>)"

definition jump_to :: "nat \<Rightarrow> int \<Rightarrow> nat vm" where
  "jump_to i off = thenM (assertM (int i + off \<ge> 0))
                   (retM (nat (int i + off)))"

text \<open>The instruction after a test is a jump, taken when the test says so.\<close>

definition test_jump :: "Proto \<Rightarrow> nat \<Rightarrow> bool \<Rightarrow> nat vm" where
  "test_jump p i taken =
     (if taken then seqM (fetch p i) (\<lambda>j.
                    seqM (jump_to i (GETARG_sBx j)) (\<lambda>i.
                    retM (i + 1)))
      else retM (i + 1))"

text \<open>Where an instruction leads: on, into or out of a Lua function, or out of the loop.\<close>

datatype outcome = Next nat | Reentry nat | Return

definition next_of :: "nat vm \<Rightarrow> outcome vm" where "next_of m = seqM m (\<lambda>i.
                                                                           retM (Next i))"

section \<open>Hooks\<close>

definition traceexec :: "vmenv \<Rightarrow> nat \<Rightarrow> unit vm" where
  "traceexec E i =
     seqM (getM id) (\<lambda>L.
     thenM (save_pc i)
     (thenM (whenM (l_hookmask L AND push_bit LUA_HOOKCOUNT 1 \<noteq> 0 \<and> l_hookcount L = 0)
          (thenM (modM (\<lambda>L. L\<lparr>l_hookcount := l_basehookcount L\<rparr>))
           (luaD_callhook E LUA_HOOKCOUNT (-1))))
     (whenM (l_hookmask L AND push_bit LUA_HOOKLINE 1 \<noteq> 0)
          (seqM cur_ci (\<lambda>c.
           seqM (getluaproto c) (\<lambda>p.
           seqM (theM (lineof p (int i - 1))) (\<lambda>newline.
           seqM (if i = 1 \<or> i \<le> l_savedpc L then retM False
                        else seqM (theM (lineof p (int (l_savedpc L) - 1))) (\<lambda>old.
                             retM (newline = old))) (\<lambda>same.
           whenM (\<not> same) (luaD_callhook E LUA_HOOKLINE newline)))))))))"

definition hooked :: "vmenv \<Rightarrow> nat \<Rightarrow> bool vm" where
  "hooked E i =
     seqM (getM id) (\<lambda>L.
     if l_hookmask L AND (push_bit LUA_HOOKLINE 1 OR push_bit LUA_HOOKCOUNT 1) = 0 then retM False
         else
           thenM (modM (\<lambda>L. L\<lparr>l_hookcount := l_hookcount L - 1\<rparr>))
           (if l_hookcount L - 1 = 0 \<or> l_hookmask L AND push_bit LUA_HOOKLINE 1 \<noteq> 0 then
                 thenM (traceexec E i)
                 (seqM (getM l_status) (\<lambda>status.
                 if status = LUA_YIELD then thenM (save_pc (i - 1))
                                            (retM True) else retM False))
               else retM False))"

section \<open>Instructions\<close>

definition arith_op :: "vmenv \<Rightarrow> Proto \<Rightarrow> nat \<Rightarrow> nat \<Rightarrow> u32 \<Rightarrow> TMS \<Rightarrow> unit vm" where
  "arith_op E p pc' ra i op =
     seqM (RK E p (GETARG_B i)) (\<lambda>rb.
     seqM (RK E p (GETARG_C i)) (\<lambda>rc.
     case (snd rb, snd rc) of
           (NUMBER nb, NUMBER nc) \<Rightarrow>
             seqM (theM (arith_value (e_num E) op nb nc)) (\<lambda>r.
             setstack ra (NUMBER r))
         | _ \<Rightarrow> thenM (save_pc pc')
                           (Arith E ra rb rc op)))"

text \<open>\<open>OP_SETUPVAL\<close> writes where the upvalue points.\<close>

definition set_upval :: "addr \<Rightarrow> TValue \<Rightarrow> unit vm" where
  "set_upval a v =
     seqM (the_upval a) (\<lambda>u.
     case uv_v u of OnStack s \<Rightarrow> setstack s v | Own \<Rightarrow> put_upval a (u\<lparr>uv_value := v\<rparr>))"

definition get_upval :: "addr \<Rightarrow> TValue vm" where
  "get_upval a = seqM (the_upval a) (\<lambda>u.
                 case uv_v u of OnStack s \<Rightarrow> getstack s | Own \<Rightarrow> retM (uv_value u))"

definition nth_upval :: "addr option list \<Rightarrow> int \<Rightarrow> addr vm" where
  "nth_upval ups b = theM (if nat b < length ups then ups ! nat b else None)"

definition op_len :: "vmenv \<Rightarrow> nat \<Rightarrow> nat \<Rightarrow> nat \<Rightarrow> unit vm" where
  "op_len E pc' ra rb =
     seqM (getstack rb) (\<lambda>v.
     case v of
           TABLE h \<Rightarrow> seqM (the_table h) (\<lambda>t.
                                 seqM (liftR E (luaH_getn t)) (\<lambda>n.
                                 setstack ra (NUMBER (cast_num n))))
         | STRING s \<Rightarrow> seqM (the_string s) (\<lambda>b.
                                  setstack ra (NUMBER (cast_num (int (length b)))))
         | _ \<Rightarrow>
             thenM (save_pc pc')
             (seqM (call_binTM E v NIL ra TM_LEN) (\<lambda>called.
             if called then retM () else luaG_typeerror E (Some rb) v ''get length of'')))"

definition op_newtable :: "vmenv \<Rightarrow> nat \<Rightarrow> nat \<Rightarrow> int \<Rightarrow> int \<Rightarrow> unit vm" where
  "op_newtable E pc' ra b c =
     seqM (liftR E (luaH_new (nat (luaO_fb2int b)) (nat (luaO_fb2int c)))) (\<lambda>t.
     seqM new_addr (\<lambda>a.
     thenM (put_table a t)
     (thenM (setstack ra (TABLE a))
     (save_pc pc'))))"

text \<open>Tail call of a Lua function: its frame replaces the one below.\<close>

definition move_frame :: "nat \<Rightarrow> unit vm" where
  "move_frame i =
     seqM (the_ci (i - 1)) (\<lambda>ci.
     seqM (the_ci i) (\<lambda>nci.
     seqM (getM l_openupval) (\<lambda>opened.
     thenM (whenM (opened \<noteq> []) (luaF_close (ci_base ci)))
     ((let base = ci_func ci + (ci_base nci - ci_func nci) in
     seqM (getM l_top) (\<lambda>t.
     thenM (forM [0..<t - ci_func nci] (\<lambda>aux. setobj (ci_func ci + aux) (ci_func nci + aux)))
     ((let newtop = ci_func ci + (t - ci_func nci) in
     seqM (getluaproto nci) (\<lambda>p.
     thenM (assertM (newtop = base + unat (p_maxstacksize p)))
     (seqM (getM l_savedpc) (\<lambda>saved.
     thenM (put_ci (i - 1) (ci\<lparr>ci_base := base, ci_top := newtop, ci_savedpc := saved,
             ci_tailcalls := ci_tailcalls ci + 1\<rparr>))
     (modM (\<lambda>L. L\<lparr>l_base := base, l_top := newtop, l_ci := i - 1\<rparr>)))))))))))))"

definition op_call :: "vmenv \<Rightarrow> nat \<Rightarrow> nat \<Rightarrow> nat \<Rightarrow> int \<Rightarrow> int \<Rightarrow> outcome vm" where
  "op_call E nexeccalls pc' ra b nresults =
     thenM (whenM (b \<noteq> 0) (set_top (ra + nat b)))
     (thenM (save_pc pc')
     (seqM (luaD_precall E ra nresults) (\<lambda>r.
     case r of
           PCRLUA \<Rightarrow> retM (Reentry (nexeccalls + 1))
         | PCRC \<Rightarrow> thenM (whenM (nresults \<ge> 0) (seqM cur_ci (\<lambda>c.
                                                               set_top (ci_top c))))
                              (retM (Next pc'))
         | PCRYIELD \<Rightarrow> retM Return)))"

definition op_tailcall :: "vmenv \<Rightarrow> nat \<Rightarrow> nat \<Rightarrow> nat \<Rightarrow> int \<Rightarrow> outcome vm" where
  "op_tailcall E nexeccalls pc' ra b =
     thenM (whenM (b \<noteq> 0) (set_top (ra + nat b)))
     (thenM (save_pc pc')
     (seqM (luaD_precall E ra LUA_MULTRET) (\<lambda>r.
     case r of
           PCRLUA \<Rightarrow> seqM (getM l_ci) (\<lambda>i.
                                thenM (move_frame i)
                                (retM (Reentry nexeccalls)))
         | PCRC \<Rightarrow> retM (Next pc')
         | PCRYIELD \<Rightarrow> retM Return)))"

definition op_return :: "vmenv \<Rightarrow> nat \<Rightarrow> nat \<Rightarrow> nat \<Rightarrow> int \<Rightarrow> outcome vm" where
  "op_return E nexeccalls pc' ra b =
     thenM (whenM (b \<noteq> 0) (set_top (ra + nat (b - 1))))
     (seqM (getM id) (\<lambda>L.
     thenM (whenM (l_openupval L \<noteq> []) (luaF_close (l_base L)))
     (thenM (save_pc pc')
     (seqM (luaD_poscall E ra) (\<lambda>b.
     if nexeccalls - 1 = 0 then retM Return
         else
           seqM cur_ci (\<lambda>c.
           thenM (whenM (b \<noteq> 0) (set_top (ci_top c)))
           (seqM (getluaproto c) (\<lambda>p.
           seqM (fetch p (ci_savedpc c - 1)) (\<lambda>j.
           thenM (assertM (GET_OPCODE j = op_num OP_CALL))
           (retM (Reentry (nexeccalls - 1))))))))))))"

definition number_at :: "nat \<Rightarrow> lua_Number vm" where
  "number_at i = seqM (getstack i) (\<lambda>v.
                 case v of NUMBER n \<Rightarrow> retM n | _ \<Rightarrow> throwM Fault)"

definition op_forloop :: "vmenv \<Rightarrow> nat \<Rightarrow> nat \<Rightarrow> int \<Rightarrow> nat vm" where
  "op_forloop E pc' ra off =
     seqM (number_at (ra + 2)) (\<lambda>step.
     seqM (number_at ra) (\<lambda>init.
     seqM (number_at (ra + 1)) (\<lambda>limit.
     (let idx = numadd (e_num E) init step in
     if (if luai_numlt 0 step then luai_numle idx limit else luai_numle limit idx) then
           seqM (jump_to pc' off) (\<lambda>j.
           thenM (setstack ra (NUMBER idx))
           (thenM (setstack (ra + 3) (NUMBER idx))
           (retM j)))
         else retM pc'))))"

text \<open>\<open>tonumber\<close> of a slot, in place.\<close>

definition tonumber_at :: "vmenv \<Rightarrow> nat \<Rightarrow> bool vm" where
  "tonumber_at E i =
     seqM (getstack i) (\<lambda>v.
     seqM (luaV_tonumber E v) (\<lambda>n.
     case n of None \<Rightarrow> retM False | Some n \<Rightarrow> thenM (setstack i (NUMBER n))
                                                                    (retM True)))"

definition op_forprep :: "vmenv \<Rightarrow> nat \<Rightarrow> nat \<Rightarrow> int \<Rightarrow> nat vm" where
  "op_forprep E pc' ra off =
     thenM (save_pc pc')
     (seqM (tonumber_at E ra) (\<lambda>a.
     thenM (whenM (\<not> a) (luaG_runerror E (quoted ''for'' @ '' initial value must be a number'')))
     (seqM (tonumber_at E (ra + 1)) (\<lambda>b.
     thenM (whenM (\<not> b) (luaG_runerror E (quoted ''for'' @ '' limit must be a number'')))
     (seqM (tonumber_at E (ra + 2)) (\<lambda>c.
     thenM (whenM (\<not> c) (luaG_runerror E (quoted ''for'' @ '' step must be a number'')))
     (seqM (number_at ra) (\<lambda>init.
     seqM (number_at (ra + 2)) (\<lambda>step.
     thenM (setstack ra (NUMBER (numsub (e_num E) init step)))
     (jump_to pc' off))))))))))"

definition op_tforloop :: "vmenv \<Rightarrow> Proto \<Rightarrow> nat \<Rightarrow> int \<Rightarrow> int \<Rightarrow> nat vm" where
  "op_tforloop E p pc' a nresults =
     seqM (reg a) (\<lambda>ra.
     (let cb = ra + 3 in
     thenM (setobj (cb + 2) (ra + 2))
     (thenM (setobj (cb + 1) (ra + 1))
     (thenM (setobj cb ra)
     (thenM (set_top (cb + 3))
     (thenM (save_pc pc')
     (thenM (e_call E cb nresults)
     (seqM cur_ci (\<lambda>c.
     thenM (set_top (ci_top c))
     (seqM (reg a) (\<lambda>ra.
     seqM (getstack (ra + 3)) (\<lambda>v.
     thenM (whenM (v \<noteq> NIL) (setobj (ra + 2) (ra + 3)))
     (test_jump p pc' (v \<noteq> NIL))))))))))))))"

text \<open>The elements from the last down.\<close>

primrec set_items :: "vmenv \<Rightarrow> addr \<Rightarrow> nat \<Rightarrow> nat \<Rightarrow> int \<Rightarrow> unit vm" where
  "set_items E h ra 0 i = retM ()"
| "set_items E h ra (Suc n) i =
     seqM (getstack (ra + Suc n)) (\<lambda>v.
     seqM (the_table h) (\<lambda>t.
     seqM (getM (\<lambda>L. string_hash (l_G L))) (\<lambda>sh.
     seqM (liftR E (luaH_setnum sh t i)) (\<lambda>(t, s).
     thenM (put_table h (write_slot t s v))
     (set_items E h ra n (i - 1))))))"

text \<open>\<open>last\<close> is an \<open>int\<close> and wraps around.\<close>

definition op_setlist :: "vmenv \<Rightarrow> Proto \<Rightarrow> nat \<Rightarrow> nat \<Rightarrow> int \<Rightarrow> int \<Rightarrow> nat vm" where
  "op_setlist E p pc' ra n c =
     seqM (getM l_top) (\<lambda>t.
     seqM cur_ci (\<lambda>cur.
     thenM (whenM (n = 0) (set_top (ci_top cur)))
     ((let n = (if n = 0 then int t - int ra - 1 else n) in
     seqM (if c = 0 then fetch p pc' else retM 0) (\<lambda>w.
     (let pc2 = (if c = 0 then pc' + 1 else pc') in
     (let c = (if c = 0 then sint w else c) in
     seqM (getstack ra) (\<lambda>v.
     case v of
           TABLE h \<Rightarrow>
             seqM (the_table h) (\<lambda>d.
             (let lst = signed_take_bit 31 ((c - 1) * LFIELDS_PER_FLUSH + n) in
             seqM (getM (\<lambda>L. string_hash (l_G L))) (\<lambda>sh.
             thenM (whenM (lst > int (sizearray d))
                  (seqM (liftR E (luaH_resizearray sh d (nat lst))) (\<lambda>d.
                   put_table h d)))
             (thenM (set_items E h ra (nat n) lst)
             (retM pc2)))))
         | _ \<Rightarrow> retM pc2))))))))"

text \<open>The pseudo instructions behind \<open>OP_CLOSURE\<close> say where each upvalue comes from.\<close>

primrec capture :: "Proto \<Rightarrow> addr option list \<Rightarrow> nat \<Rightarrow> nat \<Rightarrow> addr option list vm" where
  "capture p ups pc' 0 = retM []"
| "capture p ups pc' (Suc n) =
     seqM (fetch p pc') (\<lambda>j.
     seqM (if GET_OPCODE j = op_num OP_GETUPVAL then nth_upval ups (GETARG_B j)
               else thenM (assertM (GET_OPCODE j = op_num OP_MOVE))
                    (seqM (reg (GETARG_B j)) (\<lambda>r.
                    luaF_findupval r))) (\<lambda>u.
     seqM (capture p ups (pc' + 1) n) (\<lambda>rest.
     retM (Some u # rest))))"

definition op_closure :: "Proto \<Rightarrow> addr \<Rightarrow> addr option list \<Rightarrow> nat \<Rightarrow> nat \<Rightarrow> int \<Rightarrow> nat vm" where
  "op_closure p env ups pc' ra bx =
     seqM (theM (if nat bx < length (p_children p) then Some (p_children p ! nat bx) else None)) (\<lambda>child.
     (let nup = unat (p_nups child) in
     seqM (luaF_newLclosure child nup env) (\<lambda>ncl.
     seqM (capture p ups pc' nup) (\<lambda>us.
     thenM (modG (\<lambda>g. g\<lparr>closures := (closures g)(ncl \<mapsto> LClosure env child us)\<rparr>))
     (thenM (setstack ra (FUNCTION ncl))
     (thenM (save_pc (pc' + nup))
     (retM (pc' + nup))))))))"

definition op_vararg :: "Proto \<Rightarrow> nat \<Rightarrow> int \<Rightarrow> int \<Rightarrow> unit vm" where
  "op_vararg p pc' a b =
     seqM cur_ci (\<lambda>ci.
     (let nvarargs = int (ci_base ci) - int (ci_func ci) - int (unat (p_numparams p)) - 1 in
     thenM (whenM (b = LUA_MULTRET)
          (thenM (save_pc pc')
           (thenM (luaD_checkstack (nat nvarargs))
           (seqM (reg a) (\<lambda>ra.
           set_top (ra + nat nvarargs))))))
     (seqM (reg a) (\<lambda>ra.
     forM [0..<nat (if b = LUA_MULTRET then nvarargs else b)]
           (\<lambda>j. if int j < nvarargs then setobj (ra + j) (ci_base ci - nat nvarargs + j)
                else setstack (ra + j) NIL)))))"

text \<open>One instruction \<open>i\<close>, with the program counter behind it.\<close>

definition exec_instr :: "vmenv \<Rightarrow> Proto \<Rightarrow> addr \<Rightarrow> addr option list \<Rightarrow> nat \<Rightarrow> nat \<Rightarrow> u32 \<Rightarrow> outcome vm" where
  "exec_instr E p env ups nexeccalls pc' i =
     seqM (theM (if GET_OPCODE i < NUM_OPCODES then Some (OpCodes ! GET_OPCODE i) else None)) (\<lambda>opcode.
     seqM (reg (GETARG_A i)) (\<lambda>ra.
     (let on = (\<lambda>m. thenM m (retM (Next pc'))) in
     case opcode of
           OP_MOVE \<Rightarrow> on (seqM (reg (GETARG_B i)) (\<lambda>rb.
                                     setobj ra rb))
         | OP_LOADK \<Rightarrow> on (seqM (konst E p (GETARG_Bx i)) (\<lambda>v.
                                      setstack ra v))
         | OP_LOADBOOL \<Rightarrow>
             thenM (setstack ra (BOOLEAN (GETARG_B i \<noteq> 0)))
             (retM (Next (if GETARG_C i \<noteq> 0 then pc' + 1 else pc')))
         | OP_LOADNIL \<Rightarrow>
             on (seqM (reg (GETARG_B i)) (\<lambda>rb.
                 thenM (setstack rb NIL)
                 (init_slots ra rb)))
         | OP_GETUPVAL \<Rightarrow>
             on (seqM (nth_upval ups (GETARG_B i)) (\<lambda>a.
                 seqM (get_upval a) (\<lambda>v.
                 setstack ra v)))
         | OP_GETGLOBAL \<Rightarrow>
             on (seqM (konst E p (GETARG_Bx i)) (\<lambda>rb.
                 thenM (save_pc pc')
                 (luaV_gettable E (None, TABLE env) rb ra)))
         | OP_GETTABLE \<Rightarrow>
             on (thenM (save_pc pc')
                 (seqM (reg (GETARG_B i)) (\<lambda>rb.
                 seqM (getstack rb) (\<lambda>t.
                 seqM (RK E p (GETARG_C i)) (\<lambda>key.
                 luaV_gettable E (Some rb, t) (snd key) ra)))))
         | OP_SETGLOBAL \<Rightarrow>
             on (seqM (konst E p (GETARG_Bx i)) (\<lambda>rb.
                 thenM (save_pc pc')
                 (seqM (getstack ra) (\<lambda>v.
                 luaV_settable E (None, TABLE env) rb v))))
         | OP_SETUPVAL \<Rightarrow>
             on (seqM (nth_upval ups (GETARG_B i)) (\<lambda>a.
                 seqM (getstack ra) (\<lambda>v.
                 set_upval a v)))
         | OP_SETTABLE \<Rightarrow>
             on (thenM (save_pc pc')
                 (seqM (getstack ra) (\<lambda>t.
                 seqM (RK E p (GETARG_B i)) (\<lambda>key.
                 seqM (RK E p (GETARG_C i)) (\<lambda>v.
                 luaV_settable E (Some ra, t) (snd key) (snd v))))))
         | OP_NEWTABLE \<Rightarrow> on (op_newtable E pc' ra (GETARG_B i) (GETARG_C i))
         | OP_SELF \<Rightarrow>
             on (seqM (reg (GETARG_B i)) (\<lambda>rb.
                 thenM (setobj (ra + 1) rb)
                 (thenM (save_pc pc')
                 (seqM (getstack rb) (\<lambda>t.
                 seqM (RK E p (GETARG_C i)) (\<lambda>key.
                 luaV_gettable E (Some rb, t) (snd key) ra))))))
         | OP_ADD \<Rightarrow> on (arith_op E p pc' ra i TM_ADD)
         | OP_SUB \<Rightarrow> on (arith_op E p pc' ra i TM_SUB)
         | OP_MUL \<Rightarrow> on (arith_op E p pc' ra i TM_MUL)
         | OP_DIV \<Rightarrow> on (arith_op E p pc' ra i TM_DIV)
         | OP_MOD \<Rightarrow> on (arith_op E p pc' ra i TM_MOD)
         | OP_POW \<Rightarrow> on (arith_op E p pc' ra i TM_POW)
         | OP_UNM \<Rightarrow>
             on (seqM (reg (GETARG_B i)) (\<lambda>rb.
                 seqM (getstack rb) (\<lambda>v.
                 case v of
                       NUMBER nb \<Rightarrow> setstack ra (NUMBER (luai_numunm nb))
                     | _ \<Rightarrow> thenM (save_pc pc')
                                       (Arith E ra (Some rb, v) (Some rb, v) TM_UNM))))
         | OP_NOT \<Rightarrow> on (seqM (reg (GETARG_B i)) (\<lambda>rb.
                                    seqM (getstack rb) (\<lambda>v.
                                    setstack ra (BOOLEAN (l_isfalse v)))))
         | OP_LEN \<Rightarrow> on (seqM (reg (GETARG_B i)) (\<lambda>rb.
                                    op_len E pc' ra rb))
         | OP_CONCAT \<Rightarrow>
             on ((let b = GETARG_B i in
                 (let c = GETARG_C i in
                 thenM (save_pc pc')
                 (thenM (luaV_concat E (nat (c - b + 1)) (nat c))
                 (seqM (reg (GETARG_A i)) (\<lambda>ra.
                 seqM (reg b) (\<lambda>rb.
                 setobj ra rb)))))))
         | OP_JMP \<Rightarrow> next_of (jump_to pc' (GETARG_sBx i))
         | OP_EQ \<Rightarrow>
             next_of (seqM (RK E p (GETARG_B i)) (\<lambda>rb.
                      seqM (RK E p (GETARG_C i)) (\<lambda>rc.
                      thenM (save_pc pc')
                      (seqM (equalobj E (snd rb) (snd rc)) (\<lambda>b.
                      test_jump p pc' (of_bool b = GETARG_A i))))))
         | OP_LT \<Rightarrow>
             next_of (thenM (save_pc pc')
                      (seqM (RK E p (GETARG_B i)) (\<lambda>rb.
                      seqM (RK E p (GETARG_C i)) (\<lambda>rc.
                      seqM (luaV_lessthan E (snd rb) (snd rc)) (\<lambda>b.
                      test_jump p pc' (of_bool b = GETARG_A i))))))
         | OP_LE \<Rightarrow>
             next_of (thenM (save_pc pc')
                      (seqM (RK E p (GETARG_B i)) (\<lambda>rb.
                      seqM (RK E p (GETARG_C i)) (\<lambda>rc.
                      seqM (lessequal E (snd rb) (snd rc)) (\<lambda>b.
                      test_jump p pc' (of_bool b = GETARG_A i))))))
         | OP_TEST \<Rightarrow>
             next_of (seqM (getstack ra) (\<lambda>v.
                      test_jump p pc' (of_bool (l_isfalse v) \<noteq> GETARG_C i)))
         | OP_TESTSET \<Rightarrow>
             next_of (seqM (reg (GETARG_B i)) (\<lambda>rb.
                      seqM (getstack rb) (\<lambda>v.
                      thenM (whenM (of_bool (l_isfalse v) \<noteq> GETARG_C i) (setstack ra v))
                      (test_jump p pc' (of_bool (l_isfalse v) \<noteq> GETARG_C i)))))
         | OP_CALL \<Rightarrow> op_call E nexeccalls pc' ra (GETARG_B i) (GETARG_C i - 1)
         | OP_TAILCALL \<Rightarrow>
             thenM (assertM (GETARG_C i - 1 = LUA_MULTRET))
             (op_tailcall E nexeccalls pc' ra (GETARG_B i))
         | OP_RETURN \<Rightarrow> op_return E nexeccalls pc' ra (GETARG_B i)
         | OP_FORLOOP \<Rightarrow> next_of (op_forloop E pc' ra (GETARG_sBx i))
         | OP_FORPREP \<Rightarrow> next_of (op_forprep E pc' ra (GETARG_sBx i))
         | OP_TFORLOOP \<Rightarrow> next_of (op_tforloop E p pc' (GETARG_A i) (GETARG_C i))
         | OP_SETLIST \<Rightarrow> next_of (op_setlist E p pc' ra (GETARG_B i) (GETARG_C i))
         | OP_CLOSE \<Rightarrow> on (luaF_close ra)
         | OP_CLOSURE \<Rightarrow> next_of (op_closure p env ups pc' ra (GETARG_Bx i))
         | OP_VARARG \<Rightarrow> on (op_vararg p pc' (GETARG_A i) (GETARG_B i - 1)))))"

section \<open>The loop\<close>

definition cur_closure :: "(addr \<times> Proto \<times> addr option list) vm" where
  "cur_closure =
     seqM cur_ci (\<lambda>c.
     seqM (ci_closure c) (\<lambda>cl.
     case cl of LClosure env p ups \<Rightarrow> retM (env, p, ups) | _ \<Rightarrow> throwM Fault))"

text \<open>The assertions at the head of the loop.\<close>

definition loop_asserts :: "u32 \<Rightarrow> unit vm" where
  "loop_asserts i =
     seqM (getM id) (\<lambda>L.
     seqM cur_ci (\<lambda>c.
     thenM (assertM (l_base L = ci_base c))
     (thenM (assertM (l_base L \<le> l_top L \<and> l_top L \<le> length (l_stack L)))
     (assertM (l_top L = ci_top c \<or> luaG_checkopenop i)))))"

definition vm_step :: "vmenv \<Rightarrow> nat \<Rightarrow> nat \<Rightarrow> outcome vm" where
  "vm_step E nexeccalls i =
     seqM cur_closure (\<lambda>(env, p, ups).
     seqM (fetch p i) (\<lambda>ins.
     seqM (hooked E (i + 1)) (\<lambda>stop.
     if stop then retM Return
         else thenM (loop_asserts ins)
              (exec_instr E p env ups nexeccalls (i + 1) ins))))"

text \<open>A unit of fuel for every instruction.\<close>

primrec execute_loop :: "vmenv \<Rightarrow> nat \<Rightarrow> nat \<Rightarrow> nat \<Rightarrow> unit vm" where
  "execute_loop E 0 nexeccalls i = throwM NoFuel"
| "execute_loop E (Suc f) nexeccalls i =
     seqM (vm_step E nexeccalls i) (\<lambda>r.
     case r of
           Next j \<Rightarrow> execute_loop E f nexeccalls j
         | Reentry n \<Rightarrow> seqM (getM l_savedpc) (\<lambda>j.
                                   execute_loop E f n j)
         | Return \<Rightarrow> retM ())"

definition luaV_execute :: "vmenv \<Rightarrow> nat \<Rightarrow> nat \<Rightarrow> unit vm" where
  "luaV_execute E f nexeccalls = seqM (getM l_savedpc) (\<lambda>j.
                                 execute_loop E f nexeccalls j)"

section \<open>Calls\<close>

text \<open>The call given as \<open>e_call\<close> to the functions it runs is this one with one unit of fuel less.\<close>

definition check_ccalls :: "vmenv \<Rightarrow> unit vm" where
  "check_ccalls E =
     thenM (modM (\<lambda>L. L\<lparr>l_nCcalls := l_nCcalls L + 1\<rparr>))
     (seqM (getM l_nCcalls) (\<lambda>n.
     if n = LUAI_MAXCCALLS then luaG_runerror E ''C stack overflow''
         else whenM (n \<ge> LUAI_MAXCCALLS + drop_bit 3 LUAI_MAXCCALLS) (luaD_throw LUA_ERRERR)))"

primrec luaD_call :: "vmenv \<Rightarrow> nat \<Rightarrow> nat \<Rightarrow> int \<Rightarrow> unit vm" where
  "luaD_call E 0 func nResults = throwM NoFuel"
| "luaD_call E (Suc f) func nResults =
     (let E' = E\<lparr>e_call := luaD_call E f\<rparr> in
     thenM (check_ccalls E')
     (seqM (luaD_precall E' func nResults) (\<lambda>r.
     thenM (whenM (r = PCRLUA) (luaV_execute E' f 1))
     (modM (\<lambda>L. L\<lparr>l_nCcalls := l_nCcalls L - 1\<rparr>)))))"

definition vm_env :: "vmenv \<Rightarrow> nat \<Rightarrow> vmenv" where "vm_env E f = E\<lparr>e_call := luaD_call E f\<rparr>"

section \<open>Protected calls and coroutines\<close>

definition luaD_pcall :: "vmenv \<Rightarrow> unit vm \<Rightarrow> nat \<Rightarrow> nat \<Rightarrow> int vm" where
  "luaD_pcall E func old_top ef =
     seqM (getM id) (\<lambda>L.
     thenM (modM (\<lambda>L. L\<lparr>l_errfunc := ef\<rparr>))
     (seqM (luaD_rawrunprotected func) (\<lambda>status.
     thenM (whenM (status \<noteq> 0)
          (thenM (luaF_close old_top)
           (thenM (luaD_seterrorobj E status old_top)
           (thenM (modM (\<lambda>K. K\<lparr>l_nCcalls := l_nCcalls L, l_ci := l_ci L\<rparr>))
           (seqM cur_ci (\<lambda>c.
           thenM (modM (\<lambda>K. K\<lparr>l_base := ci_base c, l_savedpc := ci_savedpc c, l_allowhook := l_allowhook L\<rparr>))
           (restore_stack_limit)))))))
     (thenM (modM (\<lambda>K. K\<lparr>l_errfunc := l_errfunc L\<rparr>))
     (retM status)))))"

definition resume :: "vmenv \<Rightarrow> nat \<Rightarrow> nat \<Rightarrow> unit vm" where
  "resume E f firstArg =
     seqM (getM id) (\<lambda>L.
     seqM (if l_status L = 0 then
                  thenM (assertM (l_ci L = 0 \<and> firstArg > l_base L))
                  (seqM (luaD_precall E (firstArg - 1) LUA_MULTRET) (\<lambda>r.
                  retM (r = PCRLUA)))
                else
                  thenM (assertM (l_status L = LUA_YIELD))
                  (thenM (modM (\<lambda>L. L\<lparr>l_status := 0\<rparr>))
                  (seqM cur_ci (\<lambda>c.
                  seqM (isLua c) (\<lambda>lua.
                  if \<not> lua then
                        seqM (the_ci (l_ci L - 1)) (\<lambda>prev.
                        seqM (getluaproto prev) (\<lambda>p.
                        seqM (fetch p (ci_savedpc prev - 1)) (\<lambda>j.
                        thenM (assertM (GET_OPCODE j \<in> {op_num OP_CALL, op_num OP_TAILCALL}))
                        (seqM (luaD_poscall E firstArg) (\<lambda>r.
                        thenM (whenM (r \<noteq> 0) (seqM cur_ci (\<lambda>c.
                                                     set_top (ci_top c))))
                        (retM True))))))
                      else thenM (modM (\<lambda>L. L\<lparr>l_base := ci_base c\<rparr>))
                           (retM True)))))) (\<lambda>go.
     whenM go (seqM (getM l_ci) (\<lambda>i.
               luaV_execute E f i))))"

definition resume_error :: "vmenv \<Rightarrow> string \<Rightarrow> int vm" where
  "resume_error E msg =
     seqM cur_ci (\<lambda>c.
     thenM (set_top (ci_base c))
     (seqM (newstring E msg) (\<lambda>p.
     thenM (setstack (ci_base c) (STRING p))
     (thenM incr_top
     (retM LUA_ERRRUN)))))"

definition lua_resume :: "vmenv \<Rightarrow> nat \<Rightarrow> nat \<Rightarrow> int vm" where
  "lua_resume E f nargs =
     seqM (getM id) (\<lambda>L.
     if l_status L \<noteq> LUA_YIELD \<and> (l_status L \<noteq> 0 \<or> l_ci L \<noteq> 0)
         then resume_error E ''cannot resume non-suspended coroutine''
         else if l_nCcalls L \<ge> LUAI_MAXCCALLS then resume_error E ''C stack overflow''
         else
           thenM (assertM (l_errfunc L = 0))
           (thenM (modM (\<lambda>L. L\<lparr>l_nCcalls := l_nCcalls L + 1, l_baseCcalls := l_nCcalls L + 1\<rparr>))
           (seqM (luaD_rawrunprotected (resume E f (l_top L - nargs))) (\<lambda>status.
           seqM (getM id) (\<lambda>K.
           seqM (if status \<noteq> 0 then
                   thenM (modM (\<lambda>L. L\<lparr>l_status := status\<rparr>))
                   (thenM (luaD_seterrorobj E status (l_top K))
                   (seqM (getM l_top) (\<lambda>t.
                   seqM (getM l_ci) (\<lambda>i.
                   seqM (the_ci i) (\<lambda>c.
                   thenM (put_ci i (c\<lparr>ci_top := t\<rparr>))
                   (retM status))))))
                 else thenM (assertM (l_nCcalls K = l_baseCcalls K))
                      (retM (l_status K))) (\<lambda>status'.
           thenM (modM (\<lambda>L. L\<lparr>l_nCcalls := l_nCcalls L - 1\<rparr>))
           (retM status')))))))"

definition lua_yield :: "vmenv \<Rightarrow> nat \<Rightarrow> int vm" where
  "lua_yield E nresults =
     seqM (getM id) (\<lambda>L.
     thenM (whenM (l_nCcalls L > l_baseCcalls L)
           (luaG_runerror E ''attempt to yield across metamethod/C-call boundary''))
     (seqM (getM l_top) (\<lambda>t.
     thenM (modM (\<lambda>L. L\<lparr>l_base := t - nresults, l_status := LUA_YIELD\<rparr>))
     (retM (-1)))))"

end
