(* ===== verification/Vcg.thy ===== *)
theory Vcg
  imports Vm
begin

text \<open>
  Weakest preconditions of computations, as equations: \<open>wp m Q L\<close> holds when \<open>m\<close> ends without
  a throw from \<open>L\<close>, with a value and a state that satisfy \<open>Q\<close>.
\<close>

definition wp :: "'a vm \<Rightarrow> ('a \<Rightarrow> lua_State \<Rightarrow> bool) \<Rightarrow> lua_State \<Rightarrow> bool" where
  "wp m Q L \<longleftrightarrow> (case m L of (Inr x, L') \<Rightarrow> Q x L' | (Inl e, L') \<Rightarrow> False)"

named_theorems wp_simps \<open>weakest preconditions\<close>

lemma wp_basic [wp_simps]:
  "wp (retM x) Q L \<longleftrightarrow> Q x L"
  "wp (seqM m f) Q L \<longleftrightarrow> wp m (\<lambda>x. wp (f x) Q) L"
  "wp (thenM m n) Q L \<longleftrightarrow> wp m (\<lambda>_. wp n Q) L"
  "wp (getM g) Q L \<longleftrightarrow> Q (g L) L"
  "wp (modM h) Q' L \<longleftrightarrow> Q' () (h L)"
  "wp (throwM e) Q L \<longleftrightarrow> False"
  "wp (whenM b m') Q' L \<longleftrightarrow> (if b then wp m' Q' L else Q' () L)"
  "wp (assertM b) Q' L \<longleftrightarrow> b \<and> Q' () L"
  "wp (theM (Some x)) Q L \<longleftrightarrow> Q x L"
  by (simp_all add: wp_def vm_defs split: prod.splits sum.splits)

lemma wp_getstack [wp_simps]: "wp (getstack i) Q L \<longleftrightarrow> i < length (l_stack L) \<and> Q (l_stack L ! i) L"
  by (simp add: wp_def getstack_def)

lemma wp_setstack [wp_simps]:
  "wp (setstack i v) Q L \<longleftrightarrow> i < length (l_stack L) \<and> Q () (L\<lparr>l_stack := (l_stack L)[i := v]\<rparr>)"
  by (simp add: wp_def setstack_def)

lemma wp_setobj [wp_simps]:
  "wp (setobj i j) Q L \<longleftrightarrow> i < length (l_stack L) \<and> j < length (l_stack L) \<and>
     Q () (L\<lparr>l_stack := (l_stack L)[i := l_stack L ! j]\<rparr>)"
  by (auto simp: setobj_def wp_simps)

lemma wp_set_top [wp_simps]: "wp (set_top i) Q L \<longleftrightarrow> Q () (L\<lparr>l_top := i\<rparr>)"
  by (simp add: set_top_def wp_simps)

lemma wp_put_ci [wp_simps]: "wp (put_ci i c) Q L \<longleftrightarrow> Q () (L\<lparr>l_base_ci := (l_base_ci L)[i := c]\<rparr>)"
  by (simp add: put_ci_def wp_simps)

lemma wp_theM: "wp (theM x) Q L \<longleftrightarrow> (\<exists>y. x = Some y \<and> Q y L)"
  by (cases x) (simp_all add: wp_def theM_def)

lemma wp_the_ci [wp_simps]:
  "wp (the_ci i) Q L \<longleftrightarrow> i < length (l_base_ci L) \<and> Q (l_base_ci L ! i) L"
  by (auto simp: the_ci_def wp_simps wp_theM)

lemma wp_cur_ci [wp_simps]:
  "wp cur_ci Q L \<longleftrightarrow> l_ci L < length (l_base_ci L) \<and> Q (l_base_ci L ! l_ci L) L"
  by (simp add: cur_ci_def wp_simps)

lemma wp_the_closure [wp_simps]: "wp (the_closure p) Q L \<longleftrightarrow> (\<exists>c. closures (l_G L) p = Some c \<and> Q c L)"
  by (simp add: the_closure_def wp_simps wp_theM)

lemma wp_hook_on [wp_simps]: "wp (hook_on e) Q L \<longleftrightarrow> Q (l_hookmask L AND push_bit e 1 \<noteq> 0) L"
  by (simp add: hook_on_def wp_simps)

text \<open>From a precondition to the run.\<close>

lemma wp_run: "wp m Q L \<longleftrightarrow> (\<exists>x L'. m L = (Inr x, L') \<and> Q x L')"
  by (cases "m L") (auto simp: wp_def split: sum.splits)

lemma wp_mono: "wp m P L \<Longrightarrow> (\<And>x L'. P x L' \<Longrightarrow> Q x L') \<Longrightarrow> wp m Q L"
  by (auto simp: wp_run)

lemma wp_eqI: "m L = (Inr x, L') \<Longrightarrow> Q x L' \<Longrightarrow> wp m Q L"
  by (auto simp: wp_run)

section \<open>Room on the stack\<close>

definition stack_ok :: "lua_State \<Rightarrow> bool" where
  "stack_ok L \<longleftrightarrow> l_stack_last L + EXTRA_STACK + 1 = length (l_stack L) \<and> l_top L \<le> l_stack_last L"

definition grown :: "nat \<Rightarrow> nat \<Rightarrow> lua_State \<Rightarrow> lua_State" where
  "grown k sl L = L\<lparr>l_stack := l_stack L @ replicate k NIL, l_stack_last := sl\<rparr>"

lemma grown_fields [simp]:
  "l_top (grown k sl L) = l_top L" "l_stack (grown k sl L) = l_stack L @ replicate k NIL"
  "l_stack_last (grown k sl L) = sl" "l_base (grown k sl L) = l_base L" "l_ci (grown k sl L) = l_ci L"
  "l_base_ci (grown k sl L) = l_base_ci L" "l_G (grown k sl L) = l_G L" "l_savedpc (grown k sl L) = l_savedpc L"
  "l_hookmask (grown k sl L) = l_hookmask L" "l_openupval (grown k sl L) = l_openupval L"
  by (simp_all add: grown_def)

lemma checkstack_room:
  assumes "stack_ok L"
  shows "\<exists>k sl. luaD_checkstack n L = (Inr (), grown k sl L) \<and> l_top L + n < sl \<and>
    sl + EXTRA_STACK + 1 = length (l_stack L) + k"
proof (cases "int (l_stack_last L) - int (l_top L) \<le> int n")
  case False
  then have "luaD_checkstack n L = (Inr (), L)" by (simp add: luaD_checkstack_def)
  moreover have "grown 0 (l_stack_last L) L = L" by (simp add: grown_def)
  ultimately show ?thesis
    using False assms by (intro exI [of _ 0] exI [of _ "l_stack_last L"]) (auto simp: stack_ok_def)
next
  case True
  let ?n = "length (l_stack L)"
  define m where "m = (if n \<le> ?n then 2 * ?n else ?n + n)"
  have "take (m + 1 + EXTRA_STACK) (l_stack L @ replicate (m + 1 + EXTRA_STACK - ?n) NIL) =
      l_stack L @ replicate (m + 1 + EXTRA_STACK - ?n) NIL"
    by (intro take_all) (simp add: m_def)
  then have "luaD_checkstack n L = (Inr (), grown (m + 1 + EXTRA_STACK - ?n) m L)"
    using True by (simp add: luaD_checkstack_def luaD_growstack_def luaD_reallocstack_def Let_def grown_def m_def)
  moreover have "l_top L + n < m" using assms by (auto simp: stack_ok_def m_def)
  moreover have "?n \<le> m + 1 + EXTRA_STACK" by (simp add: m_def)
  ultimately show ?thesis by (intro exI [of _ "m + 1 + EXTRA_STACK - ?n"] exI [of _ m]) simp
qed

text \<open>A part of a list overwritten with one value.\<close>

definition fill :: "nat \<Rightarrow> nat \<Rightarrow> 'a \<Rightarrow> 'a list \<Rightarrow> 'a list" where
  "fill a b v xs = map (\<lambda>j. if a \<le> j \<and> j < b then v else xs ! j) [0..<length xs]"

lemma fill_length [simp]: "length (fill a b v xs) = length xs"
  by (simp add: fill_def)

lemma fill_nth [simp]: "j < length xs \<Longrightarrow> fill a b v xs ! j = (if a \<le> j \<and> j < b then v else xs ! j)"
  by (simp add: fill_def)

lemma fill_empty [simp]: "b \<le> a \<Longrightarrow> fill a b v xs = xs"
  by (rule nth_equalityI) auto

lemma fill_step: "a < b \<Longrightarrow> fill (Suc a) b v (xs[a := v]) = fill a b v xs"
  by (rule nth_equalityI) (auto simp: nth_list_update)

lemma init_slots_run:
  "b \<le> length (l_stack L) \<Longrightarrow> init_slots a b L = (Inr (), L\<lparr>l_stack := fill a b NIL (l_stack L)\<rparr>)"
proof (induction "b - a" arbitrary: a L)
  case 0
  then show ?case by (simp add: init_slots_def)
next
  case (Suc n)
  let ?L = "L\<lparr>l_stack := (l_stack L)[a := NIL]\<rparr>"
  have "init_slots a b L = init_slots (Suc a) b ?L"
    using Suc.hyps(2) Suc.prems by (simp add: init_slots_def upt_rec [of a b] setstack_def vm_defs)
  also have "\<dots> = (Inr (), ?L\<lparr>l_stack := fill (Suc a) b NIL (l_stack ?L)\<rparr>)"
    using Suc.hyps(1) [of "Suc a" ?L] Suc.hyps(2) Suc.prems by simp
  also have "fill (Suc a) b NIL (l_stack ?L) = fill a b NIL (l_stack L)"
    using Suc.hyps(2) fill_step [of a b NIL "l_stack L"] by simp
  finally show ?case by simp
qed

lemma wp_init_slots: "b \<le> length (l_stack L) \<Longrightarrow> wp (init_slots a b) Q L \<longleftrightarrow> Q () (L\<lparr>l_stack := fill a b NIL (l_stack L)\<rparr>)"
  by (simp add: wp_def init_slots_run)

end
