(* ===== verification/CallSpec.thy ===== *)
theory CallSpec
  imports Vcg
begin

text \<open>
  The calling convention (\<open>luaD_precall\<close>, \<open>luaD_poscall\<close>, \<open>OP_VARARG\<close>): what a called function finds
  in its registers, where its results go, and when a call leaves the stack.
\<close>

section \<open>Entering a Lua function\<close>

definition hooks_off :: "lua_State \<Rightarrow> bool" where "hooks_off L \<longleftrightarrow> l_hookmask L = 0"

text \<open>Room for one more call without an overflow.\<close>

definition ci_room :: "lua_State \<Rightarrow> bool" where
  "ci_room L \<longleftrightarrow> l_ci L < length (l_base_ci L) \<and>
     (l_ci L + 1 < length (l_base_ci L) \<or> 2 * length (l_base_ci L) \<le> LUAI_MAXCALLS)"

lemma inc_ci_run:
  assumes "ci_room L"
  shows "\<exists>k. inc_ci E L = (Inr (), L\<lparr>l_base_ci := l_base_ci L @ replicate k blank_ci, l_ci := l_ci L + 1\<rparr>) \<and>
    l_ci L + 1 < length (l_base_ci L) + k"
proof (cases "l_ci L + 1 = length (l_base_ci L)")
  case False
  then have "inc_ci E L = (Inr (), L\<lparr>l_ci := l_ci L + 1\<rparr>)" by (simp add: inc_ci_def)
  then show ?thesis using False assms by (intro exI [of _ 0]) (auto simp: ci_room_def)
next
  case True
  then have "2 * length (l_base_ci L) \<le> LUAI_MAXCALLS" using assms by (auto simp: ci_room_def)
  moreover have "take (2 * length (l_base_ci L)) (l_base_ci L @ replicate (2 * length (l_base_ci L) - length (l_base_ci L)) blank_ci)
      = l_base_ci L @ replicate (length (l_base_ci L)) blank_ci" by simp
  ultimately have "inc_ci E L = (Inr (), L\<lparr>l_base_ci := l_base_ci L @ replicate (length (l_base_ci L)) blank_ci,
      l_ci := l_ci L + 1\<rparr>)"
    using True by (simp add: inc_ci_def growCI_def luaD_reallocCI_def vm_defs)
  moreover have "0 < length (l_base_ci L)" using True by (cases "l_base_ci L") simp_all
  ultimately show ?thesis using True by (intro exI [of _ "length (l_base_ci L)"]) simp
qed

lemma push_nils_run:
  "l_top L + n \<le> length (l_stack L) \<Longrightarrow>
    push_nils n L = (Inr (), L\<lparr>l_stack := fill (l_top L) (l_top L + n) NIL (l_stack L), l_top := l_top L + n\<rparr>)"
proof (induction n arbitrary: L)
  case (Suc n)
  let ?L = "L\<lparr>l_stack := (l_stack L)[l_top L := NIL], l_top := l_top L + 1\<rparr>"
  have "push_nils (Suc n) L = push_nils n ?L"
    using Suc.prems by (simp add: setstack_def set_top_def vm_defs)
  also have "\<dots> = (Inr (), ?L\<lparr>l_stack := fill (Suc (l_top L)) (Suc (l_top L) + n) NIL (l_stack ?L), l_top := Suc (l_top L) + n\<rparr>)"
    using Suc.IH [of ?L] Suc.prems by simp
  also have "fill (Suc (l_top L)) (Suc (l_top L) + n) NIL (l_stack ?L) = fill (l_top L) (Suc (l_top L) + n) NIL (l_stack L)"
    using fill_step [of "l_top L" "Suc (l_top L) + n" NIL "l_stack L"] by simp
  finally show ?case by simp
qed simp

text \<open>The fixed parameters move from \<open>a\<close> to the top \<open>t\<close>, leaving nil.\<close>

definition moved :: "nat \<Rightarrow> nat \<Rightarrow> nat \<Rightarrow> TValue list \<Rightarrow> TValue list" where
  "moved n a t xs = map (\<lambda>j. if t \<le> j \<and> j < t + n then xs ! (a + (j - t))
     else if a \<le> j \<and> j < a + n then NIL else xs ! j) [0..<length xs]"

lemma moved_length [simp]: "length (moved n a t xs) = length xs"
  by (simp add: moved_def)

lemma moved_nth: "j < length xs \<Longrightarrow> moved n a t xs ! j =
    (if t \<le> j \<and> j < t + n then xs ! (a + (j - t)) else if a \<le> j \<and> j < a + n then NIL else xs ! j)"
  by (simp add: moved_def)

lemma move_fixed_run:
  "a + n \<le> l_top L \<Longrightarrow> l_top L + n \<le> length (l_stack L) \<Longrightarrow>
    move_fixed n a L = (Inr (), L\<lparr>l_stack := moved n a (l_top L) (l_stack L), l_top := l_top L + n\<rparr>)"
proof (induction n arbitrary: L a)
  case 0
  have "moved 0 a (l_top L) (l_stack L) = l_stack L" by (rule nth_equalityI) (auto simp: moved_nth)
  then show ?case by simp
next
  case (Suc n)
  let ?t = "l_top L" let ?xs = "l_stack L"
  let ?L = "L\<lparr>l_top := ?t + 1, l_stack := ?xs[?t := ?xs ! a, a := NIL]\<rparr>"
  have "move_fixed (Suc n) a L = move_fixed n (a + 1) ?L"
    using Suc.prems by (simp add: setobj_def getstack_def setstack_def set_top_def vm_defs)
  also have "\<dots> = (Inr (), ?L\<lparr>l_stack := moved n (a + 1) (?t + 1) (l_stack ?L), l_top := ?t + 1 + n\<rparr>)"
    using Suc.IH [of "a + 1" ?L] Suc.prems by simp
  also have "moved n (a + 1) (?t + 1) (l_stack ?L) = moved (Suc n) a ?t ?xs"
    using Suc.prems by (intro nth_equalityI) (auto simp: moved_nth nth_list_update Suc_diff_Suc)
  finally show ?case by simp
qed

text \<open>What the callee \<open>proto\<close> at \<open>func\<close> sees of the caller's state \<open>L\<close>: its parameters, then nil; the
  extra arguments of a vararg function stay below its base.\<close>

definition nargs :: "lua_State \<Rightarrow> nat \<Rightarrow> nat" where "nargs L func = l_top L - func - 1"

definition frame_base :: "lua_State \<Rightarrow> nat \<Rightarrow> Proto \<Rightarrow> nat" where
  "frame_base L func proto =
     (if p_is_vararg proto = 0 then func + 1 else func + 1 + max (nargs L func) (unat (p_numparams proto)))"

definition registers_set :: "lua_State \<Rightarrow> lua_State \<Rightarrow> nat \<Rightarrow> Proto \<Rightarrow> bool" where
  "registers_set L L' func proto \<longleftrightarrow>
     (let base = frame_base L func proto; np = unat (p_numparams proto) in
      (\<forall>i < unat (p_maxstacksize proto). l_stack L' ! (base + i) =
         (if i < min (nargs L func) np then l_stack L ! (func + 1 + i) else NIL)) \<and>
      (\<forall>j \<le> func. l_stack L' ! j = l_stack L ! j) \<and>
      (p_is_vararg proto \<noteq> 0 \<longrightarrow>
         (\<forall>i. np \<le> i \<and> i < nargs L func \<longrightarrow> l_stack L' ! (func + 1 + i) = l_stack L ! (func + 1 + i))))"

definition frame_entered :: "lua_State \<Rightarrow> lua_State \<Rightarrow> nat \<Rightarrow> int \<Rightarrow> Proto \<Rightarrow> bool" where
  "frame_entered L L' func nresults proto \<longleftrightarrow>
     l_ci L' = l_ci L + 1 \<and> l_ci L' < length (l_base_ci L') \<and>
     (\<forall>i \<le> l_ci L. l_base_ci L' ! i = l_base_ci L ! i) \<and>
     ci_func (l_base_ci L' ! l_ci L') = func \<and> ci_base (l_base_ci L' ! l_ci L') = l_base L' \<and>
     ci_top (l_base_ci L' ! l_ci L') = l_top L' \<and> ci_nresults (l_base_ci L' ! l_ci L') = nresults \<and>
     ci_tailcalls (l_base_ci L' ! l_ci L') = 0 \<and>
     l_base L' = frame_base L func proto \<and> l_top L' = l_base L' + unat (p_maxstacksize proto) \<and>
     l_savedpc L' = 0 \<and> stack_ok L' \<and> l_G L' = l_G L \<and> l_openupval L' = l_openupval L \<and>
     length (l_stack L) \<le> length (l_stack L') \<and> l_hookmask L' = l_hookmask L"

lemma enter_frame_run:
  assumes ok: "l_stack_last L + EXTRA_STACK + 1 = length (l_stack L)" and room: "ci_room L" and hooks: "hooks_off L"
    and fits: "base + unat (p_maxstacksize proto) \<le> l_stack_last L"
  shows "\<exists>L'. enter_frame E func nresults proto base L = (Inr PCRLUA, L') \<and>
    l_stack L' = fill (l_top L) (base + unat (p_maxstacksize proto)) NIL (l_stack L) \<and>
    l_ci L' = l_ci L + 1 \<and> l_ci L' < length (l_base_ci L') \<and>
    (\<forall>i \<le> l_ci L. l_base_ci L' ! i = l_base_ci L ! i) \<and>
    ci_func (l_base_ci L' ! l_ci L') = func \<and> ci_base (l_base_ci L' ! l_ci L') = base \<and>
    ci_top (l_base_ci L' ! l_ci L') = base + unat (p_maxstacksize proto) \<and>
    ci_nresults (l_base_ci L' ! l_ci L') = nresults \<and> ci_tailcalls (l_base_ci L' ! l_ci L') = 0 \<and>
    l_base L' = base \<and> l_top L' = base + unat (p_maxstacksize proto) \<and>
    l_savedpc L' = 0 \<and> l_stack_last L' = l_stack_last L \<and> l_G L' = l_G L \<and> l_openupval L' = l_openupval L \<and>
    l_hookmask L' = l_hookmask L"
proof -
  obtain k where k: "inc_ci E L = (Inr (), L\<lparr>l_base_ci := l_base_ci L @ replicate k blank_ci, l_ci := l_ci L + 1\<rparr>)"
    "l_ci L + 1 < length (l_base_ci L) + k"
    using inc_ci_run [OF room] by blast
  let ?Q = "\<lambda>r L'. r = PCRLUA \<and> l_stack L' = fill (l_top L) (base + unat (p_maxstacksize proto)) NIL (l_stack L) \<and>
    l_ci L' = l_ci L + 1 \<and> l_ci L' < length (l_base_ci L') \<and>
    (\<forall>i \<le> l_ci L. l_base_ci L' ! i = l_base_ci L ! i) \<and>
    ci_func (l_base_ci L' ! l_ci L') = func \<and> ci_base (l_base_ci L' ! l_ci L') = base \<and>
    ci_top (l_base_ci L' ! l_ci L') = base + unat (p_maxstacksize proto) \<and>
    ci_nresults (l_base_ci L' ! l_ci L') = nresults \<and> ci_tailcalls (l_base_ci L' ! l_ci L') = 0 \<and>
    l_base L' = base \<and> l_top L' = base + unat (p_maxstacksize proto) \<and>
    l_savedpc L' = 0 \<and> l_stack_last L' = l_stack_last L \<and> l_G L' = l_G L \<and> l_openupval L' = l_openupval L \<and>
    l_hookmask L' = l_hookmask L"
  have inc: "wp (inc_ci E) R L \<longleftrightarrow> R () (L\<lparr>l_base_ci := l_base_ci L @ replicate k blank_ci, l_ci := l_ci L + 1\<rparr>)" for R
    by (simp add: wp_def k(1))
  have "base + unat (p_maxstacksize proto) \<le> length (l_stack L)" using fits ok by simp
  moreover have "l_ci L < length (l_base_ci L)" using room by (simp add: ci_room_def)
  ultimately have "wp (enter_frame E func nresults proto base) ?Q L"
    using k(2) fits hooks
    by (simp add: enter_frame_def inc wp_simps wp_init_slots hooks_off_def nth_append Let_def)
  then show ?thesis by (auto simp: wp_run)
qed

lemma precall_closure:
  assumes f: "func < length (l_stack L)" "l_stack L ! func = FUNCTION p" "closures (l_G L) p = Some cl"
    and ci: "l_ci L < length (l_base_ci L)"
  shows "luaD_precall E func nresults L =
    (case cl of LClosure _ proto _ \<Rightarrow> precall_lua E func nresults proto | CClosure _ f _ \<Rightarrow> precall_c E func nresults f)
      (L\<lparr>l_base_ci := (l_base_ci L)[l_ci L := (l_base_ci L ! l_ci L)\<lparr>ci_savedpc := l_savedpc L\<rparr>]\<rparr>)"
  using assms
  by (simp add: luaD_precall_def getstack_def the_closure_def the_ci_def put_ci_def vm_defs)

lemma room_saved: "ci_room (L\<lparr>l_base_ci := (l_base_ci L)[i := c]\<rparr>) = ci_room L"
  by (simp add: ci_room_def)

lemma adjust_varargs_run:
  assumes "nargs L func + func + 1 = l_top L"
    and "func + 1 + max (nargs L func) (unat (p_numparams p)) + unat (p_numparams p) \<le> length (l_stack L)"
  shows "adjust_varargs p (nargs L func) L =
    (let np = unat (p_numparams p); t = func + 1 + max (nargs L func) np in
     (Inr t, L\<lparr>l_stack := moved np (func + 1) t (fill (l_top L) t NIL (l_stack L)), l_top := t + np\<rparr>))"
proof -
  let ?np = "unat (p_numparams p)" let ?n = "nargs L func"
  let ?t = "func + 1 + max ?n ?np"
  have t: "l_top L + (?np - ?n) = ?t" using assms(1) by auto
  let ?L = "L\<lparr>l_stack := fill (l_top L) ?t NIL (l_stack L), l_top := ?t\<rparr>"
  have p: "push_nils (?np - ?n) L = (Inr (), ?L)"
    using push_nils_run [of L "?np - ?n"] assms t by simp
  have a: "?t - max ?n ?np = func + 1" by simp
  have "move_fixed ?np (func + 1) ?L = (Inr (), ?L\<lparr>l_stack := moved ?np (func + 1) ?t (l_stack ?L), l_top := ?t + ?np\<rparr>)"
    using move_fixed_run [of "func + 1" ?np ?L] assms by (simp add: max_def split: if_splits)
  then show ?thesis
    using p a by (simp add: adjust_varargs_def Let_def thenM_def seqM_def)
qed

text \<open>The room \<open>luaD_precall\<close> checks for is that of the registers alone. It is enough when the function
  takes no extra arguments, or when at most one parameter is missing.\<close>

lemma precall_lua_run:
  assumes ok: "stack_ok L" and room: "ci_room L" and hooks: "hooks_off L"
    and func: "func < l_top L"
    and np: "unat (p_numparams proto) \<le> unat (p_maxstacksize proto)"
    and missing: "p_is_vararg proto = 0 \<or> unat (p_numparams proto) \<le> nargs L func + 1"
  shows "\<exists>L'. precall_lua E func nresults proto L = (Inr PCRLUA, L') \<and>
    frame_entered L L' func nresults proto \<and> registers_set L L' func proto"
proof -
  let ?np = "unat (p_numparams proto)" let ?mx = "unat (p_maxstacksize proto)" let ?n = "nargs L func"
  obtain k sl where k: "luaD_checkstack ?mx L = (Inr (), grown k sl L)" "l_top L + ?mx < sl"
    "sl + EXTRA_STACK + 1 = length (l_stack L) + k"
    using checkstack_room [OF ok, of ?mx] by blast
  let ?G = "grown k sl L"
  have n: "func + 1 + ?n = l_top L" using func by (simp add: nargs_def)
  show ?thesis
  proof (cases "p_is_vararg proto = 0")
    case True
    let ?t = "min (l_top L) (func + 1 + ?np)"
    let ?S = "?G\<lparr>l_top := ?t\<rparr>"
    have same: "?G\<lparr>l_top := l_top L\<rparr> = ?G" by (simp add: grown_def)
    have base: "precall_lua E func nresults proto L = enter_frame E func nresults proto (func + 1) ?S"
      using k(1) True by (auto simp: same precall_lua_def thenM_def seqM_def set_top_def vm_defs min_def)
    have fits: "func + 1 + ?mx \<le> l_stack_last ?S" using k(2) func by simp
    have S: "l_stack_last ?S + EXTRA_STACK + 1 = length (l_stack ?S)" "ci_room ?S" "hooks_off ?S"
      using k(3) room hooks by (simp_all add: ci_room_def hooks_off_def)
    obtain L' where L': "enter_frame E func nresults proto (func + 1) ?S = (Inr PCRLUA, L')"
      and st: "l_stack L' = fill ?t (func + 1 + ?mx) NIL (l_stack L @ replicate k NIL)"
      and rest: "l_ci L' = l_ci L + 1 \<and> l_ci L' < length (l_base_ci L') \<and>
        (\<forall>i \<le> l_ci L. l_base_ci L' ! i = l_base_ci L ! i) \<and>
        ci_func (l_base_ci L' ! l_ci L') = func \<and> ci_base (l_base_ci L' ! l_ci L') = func + 1 \<and>
        ci_top (l_base_ci L' ! l_ci L') = func + 1 + ?mx \<and>
        ci_nresults (l_base_ci L' ! l_ci L') = nresults \<and> ci_tailcalls (l_base_ci L' ! l_ci L') = 0 \<and>
        l_base L' = func + 1 \<and> l_top L' = func + 1 + ?mx \<and>
        l_savedpc L' = 0 \<and> l_stack_last L' = sl \<and> l_G L' = l_G L \<and> l_openupval L' = l_openupval L \<and>
        l_hookmask L' = l_hookmask L"
      using enter_frame_run [OF S fits, of E func nresults] by auto
    have fe: "frame_entered L L' func nresults proto"
      using rest st k(2,3) func True by (auto simp: frame_entered_def frame_base_def stack_ok_def)
    have len: "l_top L + ?mx < length (l_stack L) + k" using k(2,3) by simp
    have "registers_set L L' func proto"
      using len n True func ok
      by (auto simp: registers_set_def frame_base_def st nth_append stack_ok_def Let_def min_def)
    then show ?thesis using base L' fe by auto
  next
    case False
    let ?t = "func + 1 + max ?n ?np"
    have short: "?t \<le> l_top L + 1" using missing False n by auto
    let ?S = "?G\<lparr>l_stack := moved ?np (func + 1) ?t (fill (l_top L) ?t NIL (l_stack ?G)), l_top := ?t + ?np\<rparr>"
    have len: "l_top L + ?mx + EXTRA_STACK + 2 \<le> length (l_stack L) + k" using k(2,3) by simp
    have "adjust_varargs proto ?n ?G = (Inr ?t, ?S)"
      using adjust_varargs_run [of ?G func proto] n len np short
      by (simp add: nargs_def Let_def)
    then have base: "precall_lua E func nresults proto L = enter_frame E func nresults proto ?t ?S"
      using k(1) False by (auto simp: precall_lua_def thenM_def seqM_def nargs_def vm_defs)
    have fits: "?t + ?mx \<le> l_stack_last ?S" using k(2) short by simp
    have S: "l_stack_last ?S + EXTRA_STACK + 1 = length (l_stack ?S)" "ci_room ?S" "hooks_off ?S"
      using k(3) room hooks by (simp_all add: ci_room_def hooks_off_def)
    obtain L' where L': "enter_frame E func nresults proto ?t ?S = (Inr PCRLUA, L')"
      and st: "l_stack L' = fill (?t + ?np) (?t + ?mx) NIL (moved ?np (func + 1) ?t (fill (l_top L) ?t NIL (l_stack L @ replicate k NIL)))"
      and rest: "l_ci L' = l_ci L + 1 \<and> l_ci L' < length (l_base_ci L') \<and>
        (\<forall>i \<le> l_ci L. l_base_ci L' ! i = l_base_ci L ! i) \<and>
        ci_func (l_base_ci L' ! l_ci L') = func \<and> ci_base (l_base_ci L' ! l_ci L') = ?t \<and>
        ci_top (l_base_ci L' ! l_ci L') = ?t + ?mx \<and>
        ci_nresults (l_base_ci L' ! l_ci L') = nresults \<and> ci_tailcalls (l_base_ci L' ! l_ci L') = 0 \<and>
        l_base L' = ?t \<and> l_top L' = ?t + ?mx \<and>
        l_savedpc L' = 0 \<and> l_stack_last L' = sl \<and> l_G L' = l_G L \<and> l_openupval L' = l_openupval L \<and>
        l_hookmask L' = l_hookmask L"
      using enter_frame_run [OF S fits, of E func nresults] by auto
    have fe: "frame_entered L L' func nresults proto"
      using rest st k(2,3) short False by (auto simp: frame_entered_def frame_base_def stack_ok_def)
    have tmx: "?t + ?mx < length (l_stack L) + k" using len short by simp
    have lk: "length (l_stack L @ replicate k NIL) = length (l_stack L) + k" by simp
    have nth: "l_stack L' ! j = (if ?t + ?np \<le> j \<and> j < ?t + ?mx then NIL
        else if ?t \<le> j \<and> j < ?t + ?np then
          (if l_top L \<le> func + 1 + (j - ?t) then NIL else l_stack L ! (func + 1 + (j - ?t)))
        else if func + 1 \<le> j \<and> j < func + 1 + ?np then NIL
        else if l_top L \<le> j \<and> j < ?t then NIL
        else l_stack L ! j)" if "j < ?t + ?mx" for j
    proof -
      have "l_top L \<le> length (l_stack L)" using ok by (simp add: stack_ok_def)
      moreover have "func + 1 + (j - ?t) < ?t" if "?t \<le> j" "j < ?t + ?np" using that by auto
      ultimately show ?thesis
        using that tmx n by (auto simp: st moved_nth nth_append)
    qed
    have "registers_set L L' func proto"
      unfolding registers_set_def Let_def
    proof (intro conjI allI impI)
      fix i assume i: "i < ?mx"
      show "l_stack L' ! (frame_base L func proto + i) = (if i < min ?n ?np then l_stack L ! (func + 1 + i) else NIL)"
        using nth [of "?t + i"] i n False by (auto simp: frame_base_def)
    next
      fix j assume "j \<le> func"
      then show "l_stack L' ! j = l_stack L ! j" using nth [of j] func by auto
    next
      fix i assume "?np \<le> i \<and> i < ?n"
      then show "l_stack L' ! (func + 1 + i) = l_stack L ! (func + 1 + i)" using nth [of "func + 1 + i"] n by auto
    qed
    then show ?thesis using base L' fe by auto
  qed
qed

lemma precall_run:
  assumes "stack_ok L" "ci_room L" "hooks_off L"
    and "func < l_top L" "l_stack L ! func = FUNCTION p" "closures (l_G L) p = Some (LClosure env proto ups)"
    and "unat (p_numparams proto) \<le> unat (p_maxstacksize proto)"
    and "p_is_vararg proto = 0 \<or> unat (p_numparams proto) \<le> nargs L func + 1"
  shows "\<exists>L'. luaD_precall E func nresults L = (Inr PCRLUA, L') \<and> registers_set L L' func proto \<and> stack_ok L' \<and>
    l_base L' = frame_base L func proto \<and> l_top L' = l_base L' + unat (p_maxstacksize proto) \<and>
    l_savedpc L' = 0 \<and> l_ci L' = l_ci L + 1 \<and> ci_func (l_base_ci L' ! l_ci L') = func \<and>
    ci_nresults (l_base_ci L' ! l_ci L') = nresults \<and> ci_savedpc (l_base_ci L' ! l_ci L) = l_savedpc L \<and>
    ci_base (l_base_ci L' ! l_ci L') = l_base L' \<and> l_ci L' < length (l_base_ci L')"
proof -
  let ?L = "L\<lparr>l_base_ci := (l_base_ci L)[l_ci L := (l_base_ci L ! l_ci L)\<lparr>ci_savedpc := l_savedpc L\<rparr>]\<rparr>"
  have "func < length (l_stack L)" "l_ci L < length (l_base_ci L)"
    using assms(1,2,4) by (auto simp: stack_ok_def ci_room_def)
  then have "luaD_precall E func nresults L = precall_lua E func nresults proto ?L"
    using precall_closure [of func L p "LClosure env proto ups" E nresults] assms(5,6) by simp
  moreover have "\<exists>L'. precall_lua E func nresults proto ?L = (Inr PCRLUA, L') \<and>
      frame_entered ?L L' func nresults proto \<and> registers_set ?L L' func proto"
    by (rule precall_lua_run) (use assms in \<open>simp_all add: stack_ok_def room_saved hooks_off_def nargs_def\<close>)
  ultimately obtain L' where L': "luaD_precall E func nresults L = (Inr PCRLUA, L')"
    "frame_entered ?L L' func nresults proto" "registers_set ?L L' func proto" by auto
  have "frame_base ?L func proto = frame_base L func proto" "registers_set ?L L' func proto = registers_set L L' func proto"
    by (simp_all add: frame_base_def registers_set_def nargs_def)
  moreover have "ci_savedpc (l_base_ci L' ! l_ci L) = l_savedpc L"
    using L'(2) assms(2) by (simp add: frame_entered_def ci_room_def)
  ultimately show ?thesis using L' by (intro exI [of _ L']) (auto simp: frame_entered_def)
qed

text \<open>C30: calling a Lua function gives it a frame of its own: its parameters in order and nil in every
  other register, the extra arguments of a vararg function kept below, the caller's registers up
  to the function untouched, inside the stack. At most one parameter may be missing when the
  function takes extra arguments.\<close>

theorem precall_enters:
  assumes "stack_ok L" "ci_room L" "hooks_off L"
    and "func < l_top L" "l_stack L ! func = FUNCTION p" "closures (l_G L) p = Some (LClosure env proto ups)"
    and "unat (p_numparams proto) \<le> unat (p_maxstacksize proto)"
    and "p_is_vararg proto = 0 \<or> unat (p_numparams proto) \<le> nargs L func + 1"
  shows "\<exists>L'. luaD_precall E func nresults L = (Inr PCRLUA, L') \<and> registers_set L L' func proto \<and> stack_ok L' \<and>
    l_base L' = frame_base L func proto \<and> l_top L' = l_base L' + unat (p_maxstacksize proto) \<and>
    l_savedpc L' = 0 \<and> l_ci L' = l_ci L + 1 \<and> ci_func (l_base_ci L' ! l_ci L') = func \<and>
    ci_nresults (l_base_ci L' ! l_ci L') = nresults \<and> ci_savedpc (l_base_ci L' ! l_ci L) = l_savedpc L"
  using precall_run [OF assms, of E nresults] by blast

definition call_state :: "nat \<Rightarrow> u8 \<Rightarrow> u8 \<Rightarrow> u8 \<Rightarrow> TValue list \<Rightarrow> lua_State" where
  "call_state stacksize np vararg mx args = empty_thread\<lparr>l_top := 2 + length args, l_stack_last := stacksize,
     l_stack := [NIL, FUNCTION 16] @ args @ replicate (stacksize + 4 - length args) NIL,
     l_G := empty_state\<lparr>closures := [16 \<mapsto> LClosure 0 (Proto [] [] [] [] [] [] None 0 0 0 np vararg mx) []]\<rparr>\<rparr>"

lemma call_state_ok: "length args + 2 \<le> sz \<Longrightarrow> stack_ok (call_state sz np vararg mx args)"
  "ci_room (call_state sz np vararg mx args)" "hooks_off (call_state sz np vararg mx args)"
  by (simp_all add: call_state_def stack_ok_def ci_room_def hooks_off_def empty_thread_def EXTRA_STACK_def
      BASIC_CI_SIZE_def)

theorem precall_enters_witness:
  "\<forall>E. \<exists>L'. luaD_precall E 1 0 (call_state 34 2 0 3 [BOOLEAN True]) = (Inr PCRLUA, L') \<and>
     l_stack L' ! 2 = BOOLEAN True \<and> l_stack L' ! 3 = NIL \<and> l_base L' = 2 \<and> l_top L' = 5"
proof
  fix E
  let ?L = "call_state 34 2 0 3 [BOOLEAN True]"
  let ?p = "Proto [] [] [] [] [] [] None 0 0 0 2 0 3"
  have "stack_ok ?L" by (rule call_state_ok) simp
  then obtain L' where L': "luaD_precall E 1 0 ?L = (Inr PCRLUA, L')" "registers_set ?L L' 1 ?p"
    "l_base L' = frame_base ?L 1 ?p" "l_top L' = l_base L' + 3"
    using precall_enters [OF _ call_state_ok(2,3), of 34 2 0 3 "[BOOLEAN True]" 1 16 0 ?p "[]" E 0]
    by (auto simp: call_state_def)
  have b: "l_base L' = 2" using L'(3) by (simp add: frame_base_def)
  have "\<forall>i < 3. l_stack L' ! (2 + i) = (if i < 1 then l_stack ?L ! (2 + i) else NIL)"
    using L'(2) by (simp add: registers_set_def frame_base_def nargs_def call_state_def Let_def)
  from this [rule_format, of 0] this [rule_format, of 1] show "\<exists>L'. luaD_precall E 1 0 ?L = (Inr PCRLUA, L') \<and>
     l_stack L' ! 2 = BOOLEAN True \<and> l_stack L' ! 3 = NIL \<and> l_base L' = 2 \<and> l_top L' = 5"
    using L'(1,4) b by (intro exI [of _ L']) (simp add: call_state_def)
qed

text \<open>A vararg function whose parameters do not fit.\<close>

lemma push_nils_fault:
  "length (l_stack L) < l_top L + n \<Longrightarrow> l_top L \<le> length (l_stack L) \<Longrightarrow> fst (push_nils n L) = Inl Fault"
proof (induction n arbitrary: L)
  case (Suc n)
  show ?case
  proof (cases "l_top L < length (l_stack L)")
    case True
    let ?L = "L\<lparr>l_stack := (l_stack L)[l_top L := NIL], l_top := l_top L + 1\<rparr>"
    have "push_nils (Suc n) L = push_nils n ?L"
      using True by (simp add: setstack_def set_top_def vm_defs)
    then show ?thesis using Suc.IH [of ?L] Suc.prems True by simp
  qed (simp add: setstack_def vm_defs)
qed simp

lemma move_fixed_fault:
  "length (l_stack L) < l_top L + n \<Longrightarrow> l_top L \<le> length (l_stack L) \<Longrightarrow> fst (move_fixed n a L) = Inl Fault"
proof (induction n arbitrary: L a)
  case (Suc n)
  show ?case
  proof (cases "l_top L < length (l_stack L) \<and> a < length (l_stack L)")
    case True
    let ?L = "L\<lparr>l_top := l_top L + 1, l_stack := (l_stack L)[l_top L := l_stack L ! a, a := NIL]\<rparr>"
    have "move_fixed (Suc n) a L = move_fixed n (a + 1) ?L"
      using True by (simp add: setobj_def getstack_def setstack_def set_top_def vm_defs)
    then show ?thesis using Suc.IH [of ?L "a + 1"] Suc.prems True by simp
  qed (auto simp: setobj_def getstack_def setstack_def vm_defs)
qed simp

lemma adjust_varargs_fault:
  assumes n: "nargs L func + func + 1 = l_top L" "l_top L \<le> length (l_stack L)"
    and full: "length (l_stack L) < func + 1 + max (nargs L func) (unat (p_numparams p)) + unat (p_numparams p)"
  shows "fst (adjust_varargs p (nargs L func) L) = Inl Fault"
proof -
  let ?np = "unat (p_numparams p)" let ?n = "nargs L func"
  let ?t = "func + 1 + max ?n ?np"
  have t: "l_top L + (?np - ?n) = ?t" using n by auto
  show ?thesis
  proof (cases "?t \<le> length (l_stack L)")
    case False
    then have "fst (push_nils (?np - ?n) L) = Inl Fault" using push_nils_fault [of L "?np - ?n"] n(2) t by simp
    then show ?thesis by (auto simp: adjust_varargs_def Let_def thenM_def seqM_def split: prod.split)
  next
    case True
    let ?L = "L\<lparr>l_stack := fill (l_top L) ?t NIL (l_stack L), l_top := ?t\<rparr>"
    have p: "push_nils (?np - ?n) L = (Inr (), ?L)" using push_nils_run [of L "?np - ?n"] True t by simp
    have "fst (move_fixed ?np (func + 1) ?L) = Inl Fault" using move_fixed_fault [of ?L ?np "func + 1"] full True by simp
    then show ?thesis using p by (auto simp: adjust_varargs_def Let_def thenM_def seqM_def split: prod.split)
  qed
qed

lemma enter_frame_fault:
  assumes "ci_room L" "l_stack_last L < base + unat (p_maxstacksize proto)"
  shows "fst (enter_frame E func nresults proto base L) = Inl Fault"
proof -
  obtain k where "inc_ci E L = (Inr (), L\<lparr>l_base_ci := l_base_ci L @ replicate k blank_ci, l_ci := l_ci L + 1\<rparr>)"
    "l_ci L + 1 < length (l_base_ci L) + k"
    using inc_ci_run [OF assms(1)] by blast
  then show ?thesis using assms(2)
    by (simp add: enter_frame_def the_ci_def Let_def vm_defs)
qed

text \<open>C31: a vararg function called with too few arguments leaves the stack: the room that was checked is
  that of its registers, but the missing parameters are pushed first. Where the check found the
  stack just large enough, two missing parameters are one too many.\<close>

theorem vararg_overflow:
  assumes "stack_ok L" "ci_room L"
    and "func < l_top L" "l_stack L ! func = FUNCTION p" "closures (l_G L) p = Some (LClosure env proto ups)"
    and "p_is_vararg proto \<noteq> 0" "l_top L + unat (p_maxstacksize proto) + 1 = l_stack_last L"
    and "nargs L func + 2 \<le> unat (p_numparams proto)"
  shows "fst (luaD_precall E func nresults L) = Inl Fault"
proof -
  let ?L = "L\<lparr>l_base_ci := (l_base_ci L)[l_ci L := (l_base_ci L ! l_ci L)\<lparr>ci_savedpc := l_savedpc L\<rparr>]\<rparr>"
  let ?np = "unat (p_numparams proto)" let ?n = "nargs ?L func"
  let ?t = "func + 1 + max ?n ?np"
  have len: "l_top L \<le> length (l_stack L)" "func < length (l_stack L)" "l_ci L < length (l_base_ci L)"
    using assms(1-3) by (auto simp: stack_ok_def ci_room_def)
  have pre: "luaD_precall E func nresults L = precall_lua E func nresults proto ?L"
    using precall_closure [of func L p "LClosure env proto ups" E nresults] assms(4,5) len by simp
  have n: "?n + func + 1 = l_top ?L" "?n + 2 \<le> ?np" using assms(3,8) by (simp_all add: nargs_def)
  have "int (l_stack_last L) = int (l_top L) + int (unat (p_maxstacksize proto)) + 1" using assms(7) by linarith
  then have last: "int (l_stack_last L) - int (l_top L) = uint (p_maxstacksize proto) + 1" by simp
  have body: "precall_lua E func nresults proto ?L =
      seqM (adjust_varargs proto ?n) (\<lambda>base. enter_frame E func nresults proto base) ?L"
    using assms(6) by (simp add: precall_lua_def luaD_checkstack_def nargs_def last vm_defs)
  show ?thesis
  proof (cases "?t + ?np \<le> length (l_stack ?L)")
    case False
    then have "fst (adjust_varargs proto ?n ?L) = Inl Fault"
      by (intro adjust_varargs_fault) (use n(1) len in auto)
    then show ?thesis using pre body by (auto simp: seqM_def split: prod.split)
  next
    case True
    let ?S = "?L\<lparr>l_stack := moved ?np (func + 1) ?t (fill (l_top ?L) ?t NIL (l_stack ?L)), l_top := ?t + ?np\<rparr>"
    have a: "adjust_varargs proto ?n ?L = (Inr ?t, ?S)"
      using adjust_varargs_run [of ?L func proto] n(1) True by (simp add: Let_def)
    have "fst (enter_frame E func nresults proto ?t ?S) = Inl Fault"
    proof (rule enter_frame_fault)
      show "ci_room ?S" using assms(2) by (simp add: ci_room_def)
      show "l_stack_last ?S < ?t + unat (p_maxstacksize proto)" using assms(7) n by simp
    qed
    then show ?thesis using pre body a by (simp add: seqM_def)
  qed
qed

theorem vararg_overflow_witness:
  "\<forall>E. fst (luaD_precall E 1 0 (call_state 34 2 3 31 [])) = Inl Fault"
  by (rule allI, rule vararg_overflow [OF call_state_ok(1,2), of "[]" 34 1 2 3 31 16 0 "Proto [] [] [] [] [] [] None 0 0 0 2 3 31" "[]"])
    (simp_all add: call_state_def nargs_def)

end
