(* ===== verification/ReturnSpec.thy ===== *)
theory ReturnSpec
  imports CallSpec
begin

text \<open>
  The way back from a call: where \<open>luaD_poscall\<close> leaves the results, what \<open>OP_VARARG\<close> finds of the
  extra arguments, and the state a protected call returns to after an error.
\<close>

section \<open>Results\<close>

definition copied :: "nat \<Rightarrow> nat \<Rightarrow> nat \<Rightarrow> 'a list \<Rightarrow> 'a list" where
  "copied n to from xs = map (\<lambda>j. if to \<le> j \<and> j < to + n then xs ! (from + (j - to)) else xs ! j) [0..<length xs]"

lemma copied_length [simp]: "length (copied n to from xs) = length xs"
  by (simp add: copied_def)

lemma copied_nth [simp]:
  "j < length xs \<Longrightarrow> copied n to from xs ! j = (if to \<le> j \<and> j < to + n then xs ! (from + (j - to)) else xs ! j)"
  by (simp add: copied_def)

lemma copied_0 [simp]: "copied 0 to from xs = xs"
  by (rule nth_equalityI) auto

lemma copied_step:
  assumes "to \<le> from" "from + Suc n \<le> length xs"
  shows "copied n (Suc to) (Suc from) (xs[to := xs ! from]) = copied (Suc n) to from xs"
proof (rule nth_equalityI)
  fix j assume "j < length (copied n (Suc to) (Suc from) (xs[to := xs ! from]))"
  then have j: "j < length xs" by simp
  consider "j < to" | "j = to" | "to < j" "j < to + Suc n" | "to + Suc n \<le> j" by linarith
  then show "copied n (Suc to) (Suc from) (xs[to := xs ! from]) ! j = copied (Suc n) to from xs ! j"
    using assms j by cases (auto simp: nth_list_update Suc_diff_Suc)
qed simp

definition moved_count :: "nat \<Rightarrow> int \<Rightarrow> nat" where
  "moved_count n wanted = (if wanted < 0 then n else min n (nat wanted))"

lemma moved_count_Suc: "w \<noteq> 0 \<Longrightarrow> moved_count (Suc n) w = Suc (moved_count n (w - 1))"
  by (auto simp: moved_count_def min_def nat_diff_distrib')

lemma move_results_run:
  "res \<le> fr \<Longrightarrow> fr + n \<le> length (l_stack L) \<Longrightarrow>
    move_results n w res fr L = (Inr (w - int (moved_count n w), res + moved_count n w),
      L\<lparr>l_stack := copied (moved_count n w) res fr (l_stack L)\<rparr>)"
proof (induction n arbitrary: w res fr L)
  case (Suc n)
  show ?case
  proof (cases "w = 0")
    case False
    let ?L = "L\<lparr>l_stack := (l_stack L)[res := l_stack L ! fr]\<rparr>"
    have "move_results (Suc n) w res fr L = move_results n (w - 1) (res + 1) (fr + 1) ?L"
      using Suc.prems False by (simp add: setobj_def getstack_def setstack_def vm_defs)
    moreover have "fr + Suc (moved_count n (w - 1)) \<le> length (l_stack L)"
      using Suc.prems by (auto simp: moved_count_def)
    ultimately show ?thesis
      using Suc.IH [of "res + 1" "fr + 1" ?L "w - 1"] Suc.prems
        copied_step [OF Suc.prems(1), of "moved_count n (w - 1)" "l_stack L"]
      by (simp add: moved_count_Suc [OF False])
  qed (simp add: moved_count_def retM_def)
qed (simp add: moved_count_def retM_def)

definition results_placed :: "lua_State \<Rightarrow> lua_State \<Rightarrow> nat \<Rightarrow> nat \<Rightarrow> nat \<Rightarrow> bool" where
  "results_placed L L' func firstResult n \<longleftrightarrow>
     (\<forall>j < n. l_stack L' ! (func + j) =
        (if firstResult + j < l_top L then l_stack L ! (firstResult + j) else NIL)) \<and>
     (\<forall>j < func. l_stack L' ! j = l_stack L ! j) \<and> l_top L' = func + n"

lemma poscall_run:
  assumes "hooks_off L" "l_ci L = Suc i" "l_ci L < length (l_base_ci L)"
    and "ci_func (l_base_ci L ! Suc i) \<le> firstResult" "firstResult \<le> l_top L" "l_top L \<le> length (l_stack L)"
    and "ci_func (l_base_ci L ! Suc i) + nat (ci_nresults (l_base_ci L ! Suc i)) \<le> length (l_stack L)"
  shows "\<exists>s. let c = l_base_ci L ! Suc i; prev = l_base_ci L ! i;
      n = (if ci_nresults c < 0 then l_top L - firstResult else nat (ci_nresults c));
      L' = L\<lparr>l_ci := i, l_base := ci_base prev, l_savedpc := ci_savedpc prev, l_stack := s, l_top := ci_func c + n\<rparr> in
    luaD_poscall E firstResult L = (Inr (ci_nresults c - LUA_MULTRET), L') \<and>
    results_placed L L' (ci_func c) firstResult n \<and> length s = length (l_stack L)"
proof -
  let ?c = "l_base_ci L ! Suc i" let ?prev = "l_base_ci L ! i"
  let ?w = "ci_nresults ?c" let ?m = "moved_count (l_top L - firstResult) ?w"
  let ?n = "if ?w < 0 then l_top L - firstResult else nat ?w"
  let ?K = "L\<lparr>l_ci := i, l_base := ci_base ?prev, l_savedpc := ci_savedpc ?prev\<rparr>"
  let ?s = "copied ?m (ci_func ?c) firstResult (l_stack L)"
  let ?s' = "fill (ci_func ?c + ?m) (ci_func ?c + ?n) NIL ?s"
  have m: "?m + nat (?w - int ?m) = ?n" by (auto simp: moved_count_def min_def nat_diff_distrib')
  have moves: "move_results (l_top L - firstResult) ?w (ci_func ?c) firstResult ?K =
      (Inr (?w - int ?m, ci_func ?c + ?m), ?K\<lparr>l_stack := ?s\<rparr>)"
    using move_results_run [of "ci_func ?c" firstResult "l_top L - firstResult" ?K ?w] assms(4-6) by simp
  have len: "ci_func ?c + ?n \<le> length (l_stack L)" using assms(4-7) by auto
  have inits: "init_slots (ci_func ?c + ?m) (ci_func ?c + ?n) (?K\<lparr>l_stack := ?s\<rparr>) = (Inr (), ?K\<lparr>l_stack := ?s'\<rparr>)"
    using init_slots_run [of "ci_func ?c + ?n" "?K\<lparr>l_stack := ?s\<rparr>" "ci_func ?c + ?m"] len by simp
  have n: "ci_func ?c + ?m + nat (?w - int ?m) = ci_func ?c + ?n" using m by simp
  have "luaD_poscall E firstResult L = (Inr (?w - LUA_MULTRET), ?K\<lparr>l_stack := ?s', l_top := ci_func ?c + ?n\<rparr>)"
    using assms(1-3) moves inits
    by (simp add: luaD_poscall_def hook_on_def hooks_off_def the_ci_def set_top_def n vm_defs del: if_split)
  moreover have "results_placed L (?K\<lparr>l_stack := ?s', l_top := ci_func ?c + ?n\<rparr>) (ci_func ?c) firstResult ?n"
    using len assms(4-6) by (auto simp: results_placed_def moved_count_def)
  ultimately show ?thesis by (intro exI [of _ ?s']) (simp add: Let_def)
qed

text \<open>C32: returning from a function leaves its results in order from the slot of the function on, cut to or
  filled with nil up to the number the caller asked for, and goes back to the caller's frame;
  nothing below the function changes.\<close>

theorem luaD_poscall_places:
  assumes "hooks_off L" "l_ci L = Suc i" "l_ci L < length (l_base_ci L)"
    and "ci_func (l_base_ci L ! Suc i) \<le> firstResult" "firstResult \<le> l_top L" "l_top L \<le> length (l_stack L)"
    and "ci_func (l_base_ci L ! Suc i) + nat (ci_nresults (l_base_ci L ! Suc i)) \<le> length (l_stack L)"
  shows "\<exists>s. let c = l_base_ci L ! Suc i; prev = l_base_ci L ! i;
      n = (if ci_nresults c < 0 then l_top L - firstResult else nat (ci_nresults c));
      L' = L\<lparr>l_ci := i, l_base := ci_base prev, l_savedpc := ci_savedpc prev, l_stack := s, l_top := ci_func c + n\<rparr> in
    luaD_poscall E firstResult L = (Inr (ci_nresults c - LUA_MULTRET), L') \<and>
    results_placed L L' (ci_func c) firstResult n \<and> length s = length (l_stack L)"
  by (rule poscall_run [OF assms])

definition return_state :: "int \<Rightarrow> lua_State" where
  "return_state nresults = empty_thread\<lparr>l_ci := 1, l_top := 4, l_stack := (l_stack empty_thread)[3 := BOOLEAN True],
     l_base_ci := (l_base_ci empty_thread)[1 := (l_base_ci empty_thread ! 1)\<lparr>ci_func := 1, ci_nresults := nresults\<rparr>]\<rparr>"

theorem luaD_poscall_places_witness:
  "\<forall>E. \<exists>L'. luaD_poscall E 3 (return_state 2) = (Inr 3, L') \<and> l_stack L' ! 1 = BOOLEAN True \<and>
     l_stack L' ! 2 = NIL \<and> l_top L' = 3 \<and> l_ci L' = 0"
proof
  fix E
  let ?L = "return_state 2"
  have f: "hooks_off ?L" "l_ci ?L = Suc 0" "length (l_base_ci ?L) = BASIC_CI_SIZE" "length (l_stack ?L) = BASIC_STACK_SIZE"
    "l_top ?L = 4" "ci_func (l_base_ci ?L ! Suc 0) = 1" "ci_nresults (l_base_ci ?L ! Suc 0) = 2" "l_stack ?L ! 3 = BOOLEAN True"
    by (simp_all add: return_state_def empty_thread_def hooks_off_def BASIC_CI_SIZE_def BASIC_STACK_SIZE_def
        LUA_MINSTACK_def)
  obtain s where "luaD_poscall E 3 ?L = (Inr (2 - LUA_MULTRET), ?L\<lparr>l_ci := 0, l_base := ci_base (l_base_ci ?L ! 0),
      l_savedpc := ci_savedpc (l_base_ci ?L ! 0), l_stack := s, l_top := 3\<rparr>)"
    "\<forall>j < 2. s ! (1 + j) = (if 3 + j < 4 then l_stack ?L ! (3 + j) else NIL)"
    using luaD_poscall_places [of ?L 0 3 E] f
    by (auto simp: Let_def results_placed_def BASIC_CI_SIZE_def BASIC_STACK_SIZE_def LUA_MINSTACK_def
        numeral_3_eq_3)
  from this(1) this(2) [rule_format, of 0] this(2) [rule_format, of 1] show
    "\<exists>L'. luaD_poscall E 3 ?L = (Inr 3, L') \<and> l_stack L' ! 1 = BOOLEAN True \<and>
     l_stack L' ! 2 = NIL \<and> l_top L' = 3 \<and> l_ci L' = 0"
    using f(8) by (auto simp: LUA_MULTRET_def numeral_2_eq_2)
qed

section \<open>Extra arguments\<close>

text \<open>The loop of \<open>OP_VARARG\<close>: \<open>v\<close> values from \<open>src\<close> on go to \<open>ra\<close>, then nil.\<close>

definition spread :: "nat \<Rightarrow> nat \<Rightarrow> nat \<Rightarrow> nat \<Rightarrow> nat \<Rightarrow> TValue list \<Rightarrow> TValue list" where
  "spread k n v ra src xs = map (\<lambda>i. if ra + k \<le> i \<and> i < ra + n
     then (if i - ra < v then xs ! (src + (i - ra)) else NIL) else xs ! i) [0..<length xs]"

lemma spread_length [simp]: "length (spread k n v ra src xs) = length xs"
  by (simp add: spread_def)

lemma spread_nth: "i < length xs \<Longrightarrow> spread k n v ra src xs ! i = (if ra + k \<le> i \<and> i < ra + n
     then (if i - ra < v then xs ! (src + (i - ra)) else NIL) else xs ! i)"
  by (simp add: spread_def)

lemma spread_step:
  assumes "k < n" "src + v \<le> ra" "ra + n \<le> length xs"
  shows "spread (Suc k) n v ra src (xs[ra + k := (if k < v then xs ! (src + k) else NIL)]) = spread k n v ra src xs"
proof (rule nth_equalityI)
  fix i assume "i < length (spread (Suc k) n v ra src (xs[ra + k := (if k < v then xs ! (src + k) else NIL)]))"
  then have i: "i < length xs" by simp
  have "src + (i - ra) \<noteq> ra + k" if "i - ra < v" using that assms(2) by linarith
  with i assms show "spread (Suc k) n v ra src (xs[ra + k := (if k < v then xs ! (src + k) else NIL)]) ! i =
      spread k n v ra src xs ! i"
    by (cases "i = ra + k") (auto simp: spread_nth nth_list_update)
qed simp

lemma vararg_loop:
  assumes "src + v \<le> ra" "ra + n \<le> length (l_stack L)"
  shows "k \<le> n \<Longrightarrow> forM [k..<n] (\<lambda>j. if int j < int v then setobj (ra + j) (src + j) else setstack (ra + j) NIL) L =
    (Inr (), L\<lparr>l_stack := spread k n v ra src (l_stack L)\<rparr>)"
  using assms(2)
proof (induction "n - k" arbitrary: k L)
  case 0
  then have "spread k n v ra src (l_stack L) = l_stack L" by (intro nth_equalityI) (auto simp: spread_nth)
  with 0 show ?case by (simp add: vm_defs)
next
  case (Suc m)
  let ?x = "if k < v then l_stack L ! (src + k) else NIL"
  let ?L = "L\<lparr>l_stack := (l_stack L)[ra + k := ?x]\<rparr>"
  have k: "k < n" using Suc.hyps(2) by simp
  have "forM [k..<n] (\<lambda>j. if int j < int v then setobj (ra + j) (src + j) else setstack (ra + j) NIL) L =
      forM [Suc k..<n] (\<lambda>j. if int j < int v then setobj (ra + j) (src + j) else setstack (ra + j) NIL) ?L"
    using k assms(1) Suc.prems by (simp add: upt_rec [of k n] setobj_def getstack_def setstack_def vm_defs)
  also have "\<dots> = (Inr (), ?L\<lparr>l_stack := spread (Suc k) n v ra src (l_stack ?L)\<rparr>)"
    by (rule Suc.hyps(1)) (use Suc.hyps(2) Suc.prems k in auto)
  also have "spread (Suc k) n v ra src (l_stack ?L) = spread k n v ra src (l_stack L)"
    using spread_step [OF k assms(1), of "l_stack L"] Suc.prems by simp
  finally show ?case by simp
qed

lemma op_vararg_run:
  assumes ok: "stack_ok L" and ci: "l_ci L < length (l_base_ci L)" "ci_base (l_base_ci L ! l_ci L) = l_base L"
    and v: "ci_func (l_base_ci L ! l_ci L) + unat (p_numparams p) + 1 + v = l_base L"
    and a: "l_base L + a \<le> l_top L" and b: "b = LUA_MULTRET \<or> 0 \<le> b \<and> l_base L + a + nat b \<le> length (l_stack L)"
  shows "\<exists>L'. op_vararg p pc' (int a) b L = (Inr (), L') \<and>
    (\<forall>j < (if b = LUA_MULTRET then v else nat b). l_stack L' ! (l_base L + a + j) =
       (if j < v then l_stack L ! (l_base L - v + j) else NIL)) \<and>
    (\<forall>j < l_base L + a. l_stack L' ! j = l_stack L ! j) \<and>
    l_base L' = l_base L \<and> l_top L' = (if b = LUA_MULTRET then l_base L + a + v else l_top L)"
proof -
  let ?ci = "l_base_ci L ! l_ci L" let ?ra = "l_base L + a"
  have "int (l_base L) - int (ci_func ?ci) - int (unat (p_numparams p)) - 1 = int v"
    using v by linarith
  then have nv: "int (l_base L) - int (ci_func ?ci) - uint (p_numparams p) - 1 = int v" by simp
  let ?loop = "\<lambda>n. forM [0..<n] (\<lambda>j. if int j < int v then setobj (?ra + j) (l_base L - v + j) else setstack (?ra + j) NIL)"
  have vl: "v \<le> l_base L" using v by linarith
  then have below: "l_base L - v + v \<le> ?ra" by simp
  show ?thesis
  proof (cases "b = LUA_MULTRET")
    case True
    let ?L = "L\<lparr>l_savedpc := pc'\<rparr>"
    have "stack_ok ?L" using ok by (simp add: stack_ok_def)
    then obtain k sl where k: "luaD_checkstack v ?L = (Inr (), grown k sl ?L)" "l_top L + v < sl"
      "sl + EXTRA_STACK + 1 = length (l_stack L) + k"
      using checkstack_room [of ?L v] by auto
    let ?G = "grown k sl ?L\<lparr>l_top := ?ra + v\<rparr>"
    have len: "?ra + v \<le> length (l_stack ?G)" using k(2,3) a by simp
    have "op_vararg p pc' (int a) b L = ?loop v ?G"
      using True ci(1) k(1)
      by (simp add: nv ci(2) op_vararg_def Let_def cur_ci_def the_ci_def save_pc_def reg_def set_top_def vm_defs
          cong: if_cong)
    also have "\<dots> = (Inr (), ?G\<lparr>l_stack := spread 0 v v ?ra (l_base L - v) (l_stack ?G)\<rparr>)"
      by (rule vararg_loop [OF below len]) simp
    finally show ?thesis
      using True len ok a vl by (auto simp: spread_nth nth_append stack_ok_def)
  next
    case False
    with b have b': "0 \<le> b" "?ra + nat b \<le> length (l_stack L)" by auto
    have "op_vararg p pc' (int a) b L = ?loop (nat b) L"
      using False ci(1) by (simp add: nv ci(2) op_vararg_def Let_def cur_ci_def the_ci_def reg_def vm_defs
          cong: if_cong)
    also have "\<dots> = (Inr (), L\<lparr>l_stack := spread 0 (nat b) v ?ra (l_base L - v) (l_stack L)\<rparr>)"
      by (rule vararg_loop [OF below b'(2)]) simp
    finally show ?thesis
      using False b' ok a vl by (auto simp: spread_nth stack_ok_def)
  qed
qed

text \<open>C33: the extra arguments of a call are what \<open>OP_VARARG\<close> finds: after entering a vararg function it
  puts the arguments behind the fixed parameters, in order, into the registers from \<open>A\<close> on, all of
  them and the top behind the last when their number is open, otherwise as many as asked for with
  nil for the missing ones.\<close>

theorem vararg_arguments:
  assumes "stack_ok L" "ci_room L" "hooks_off L"
    and "func < l_top L" "l_stack L ! func = FUNCTION p" "closures (l_G L) p = Some (LClosure env proto ups)"
    and "unat (p_numparams proto) \<le> unat (p_maxstacksize proto)" "p_is_vararg proto \<noteq> 0"
    and "unat (p_numparams proto) \<le> nargs L func + 1"
    and "b = LUA_MULTRET \<and> a \<le> unat (p_maxstacksize proto) \<or> 0 \<le> b \<and> a + nat b \<le> unat (p_maxstacksize proto)"
  shows "\<exists>L' L''. luaD_precall E func nresults L = (Inr PCRLUA, L') \<and> op_vararg proto pc' (int a) b L' = (Inr (), L'') \<and>
    (\<forall>j < (if b = LUA_MULTRET then nargs L func - unat (p_numparams proto) else nat b).
       l_stack L'' ! (l_base L'' + a + j) = (if unat (p_numparams proto) + j < nargs L func
          then l_stack L ! (func + 1 + unat (p_numparams proto) + j) else NIL)) \<and>
    (b = LUA_MULTRET \<longrightarrow> l_top L'' = l_base L'' + a + (nargs L func - unat (p_numparams proto)))"
proof -
  let ?np = "unat (p_numparams proto)" let ?v = "nargs L func - ?np"
  obtain L' where L': "luaD_precall E func nresults L = (Inr PCRLUA, L')" "registers_set L L' func proto" "stack_ok L'"
    "l_base L' = frame_base L func proto" "l_top L' = l_base L' + unat (p_maxstacksize proto)"
    "ci_func (l_base_ci L' ! l_ci L') = func" "ci_base (l_base_ci L' ! l_ci L') = l_base L'"
    "l_ci L' < length (l_base_ci L')"
    using precall_run [of L func p env proto ups E nresults] assms by blast
  have v: "ci_func (l_base_ci L' ! l_ci L') + ?np + 1 + ?v = l_base L'"
    using L'(4,6) assms(8) by (auto simp: frame_base_def)
  have "b = LUA_MULTRET \<or> 0 \<le> b \<and> l_base L' + a + nat b \<le> length (l_stack L')" "l_base L' + a \<le> l_top L'"
    using assms(10) L'(3,5) by (auto simp: stack_ok_def)
  then obtain L'' where L'': "op_vararg proto pc' (int a) b L' = (Inr (), L'')"
    "\<forall>j < (if b = LUA_MULTRET then ?v else nat b). l_stack L'' ! (l_base L' + a + j) =
       (if j < ?v then l_stack L' ! (l_base L' - ?v + j) else NIL)"
    "l_base L'' = l_base L'" "l_top L'' = (if b = LUA_MULTRET then l_base L' + a + ?v else l_top L')"
    using op_vararg_run [OF L'(3,8,7) v] by metis
  have "l_base L' - ?v + j = func + 1 + (?np + j)" for j using v L'(6) by simp
  moreover have "l_stack L' ! (func + 1 + (?np + j)) = l_stack L ! (func + 1 + (?np + j))" if "j < ?v" for j
    using L'(2) assms(8) that by (simp add: registers_set_def Let_def)
  ultimately have "(if j < ?v then l_stack L' ! (l_base L' - ?v + j) else NIL) =
      (if ?np + j < nargs L func then l_stack L ! (func + 1 + ?np + j) else NIL)" for j
    by (auto simp: add.assoc)
  then show ?thesis using L'(1) L'' by auto
qed

theorem vararg_arguments_witness:
  "\<forall>E. \<exists>L' L''. luaD_precall E 1 0 (call_state 34 0 3 2 [BOOLEAN True]) = (Inr PCRLUA, L') \<and>
     op_vararg (Proto [] [] [] [] [] [] None 0 0 0 0 3 2) 7 0 2 L' = (Inr (), L'') \<and>
     l_stack L'' ! l_base L'' = BOOLEAN True \<and> l_stack L'' ! (l_base L'' + 1) = NIL"
proof
  fix E
  let ?L = "call_state 34 0 3 2 [BOOLEAN True]" let ?p = "Proto [] [] [] [] [] [] None 0 0 0 0 3 2"
  have "stack_ok ?L" by (rule call_state_ok) simp
  then obtain L' L'' where L': "luaD_precall E 1 0 ?L = (Inr PCRLUA, L')" "op_vararg ?p 7 (int 0) 2 L' = (Inr (), L'')"
    "\<forall>j < 2. l_stack L'' ! (l_base L'' + 0 + j) = (if 0 + j < nargs ?L 1 then l_stack ?L ! (1 + 1 + 0 + j) else NIL)"
    using vararg_arguments [OF _ call_state_ok(2,3), of 34 0 3 2 "[BOOLEAN True]" 1 16 0 ?p "[]" 2 0 E 0 7]
    by (auto simp: call_state_def nargs_def LUA_MULTRET_def)
  from this(3) [rule_format, of 0] this(3) [rule_format, of 1]
  have "l_stack L'' ! l_base L'' = BOOLEAN True" "l_stack L'' ! (l_base L'' + 1) = NIL"
    by (simp_all add: nargs_def call_state_def)
  with L'(1,2) show "\<exists>L' L''. luaD_precall E 1 0 ?L = (Inr PCRLUA, L') \<and> op_vararg ?p 7 0 2 L' = (Inr (), L'') \<and>
     l_stack L'' ! l_base L'' = BOOLEAN True \<and> l_stack L'' ! (l_base L'' + 1) = NIL" by auto
qed

section \<open>Protected calls\<close>

lemma restore_stack_limit_run:
  assumes "l_stack_last L = length (l_stack L) - EXTRA_STACK - 1" "l_ci L < length (l_base_ci L)"
  shows "\<exists>cis. restore_stack_limit L = (Inr (), L\<lparr>l_base_ci := cis\<rparr>) \<and> l_ci L < length cis \<and>
    (\<forall>i \<le> l_ci L. cis ! i = l_base_ci L ! i)"
proof (cases "length (l_base_ci L) > LUAI_MAXCALLS \<and> l_ci L + 1 < LUAI_MAXCALLS")
  case True
  let ?cis = "take LUAI_MAXCALLS (l_base_ci L)"
  have "restore_stack_limit L = (Inr (), L\<lparr>l_base_ci := ?cis\<rparr>)"
    using assms(1) True by (simp add: restore_stack_limit_def luaD_reallocCI_def vm_defs del: LUAI_MAXCALLS_def)
  moreover have "l_ci L < length ?cis" using True assms(2) by auto
  moreover have "\<forall>i \<le> l_ci L. ?cis ! i = l_base_ci L ! i" using True by auto
  ultimately show ?thesis by blast
next
  case False
  then have "restore_stack_limit L = (Inr (), L\<lparr>l_base_ci := l_base_ci L\<rparr>)"
    using assms(1) by (auto simp: restore_stack_limit_def vm_defs)
  then show ?thesis using assms(2) by blast
qed

text \<open>C34: a protected call recovers from an error: after one thrown at state \<open>K\<close> it returns its status with
  the frame, the depth of C calls, the error handler and the hook permission of the call as they
  were, the error message alone on the stack from the old top on, every upvalue above closed and
  none changed in value.\<close>

theorem luaD_pcall_recovers:
  assumes "func (L\<lparr>l_errfunc := ef\<rparr>) = (Inl (Throw status), K)" "status = LUA_ERRRUN \<or> status = LUA_ERRSYNTAX"
    and "upvals_ok K" "old_top < l_top K" "l_top K \<le> length (l_stack K)"
    and "l_stack_last K = length (l_stack K) - EXTRA_STACK - 1" "l_ci L < length (l_base_ci K)"
  shows "\<exists>L'. luaD_pcall E func old_top ef L = (Inr status, L') \<and>
    l_ci L' = l_ci L \<and> l_base L' = ci_base (l_base_ci L' ! l_ci L) \<and> l_savedpc L' = ci_savedpc (l_base_ci L' ! l_ci L) \<and>
    (\<forall>i \<le> l_ci L. l_base_ci L' ! i = l_base_ci K ! i) \<and>
    l_nCcalls L' = l_nCcalls L \<and> l_errfunc L' = l_errfunc L \<and> l_allowhook L' = l_allowhook L \<and>
    l_top L' = old_top + 1 \<and> l_stack L' = (l_stack K)[old_top := l_stack K ! (l_top K - 1)] \<and>
    (\<forall>p. upval_value L' p = upval_value K p) \<and>
    (\<forall>p. uv_level (l_G L') p = (case uv_level (l_G K) p of Some v \<Rightarrow> if old_top \<le> v then None else Some v | None \<Rightarrow> None))"
proof -
  obtain C where C: "luaF_close old_top K = (Inr (), C)" "closed_from old_top K C"
    using luaF_close_ok [OF assms(3)] by blast
  then obtain os g where CK: "C = K\<lparr>l_openupval := os, l_G := g\<rparr>" unfolding closed_from_def by blast
  let ?s = "(l_stack K)[old_top := l_stack K ! (l_top K - 1)]" let ?c = "l_base_ci K ! l_ci L"
  let ?S = "C\<lparr>l_stack := ?s, l_top := old_top + 1\<rparr>"
  have seterr: "luaD_seterrorobj E status old_top C = (Inr (), ?S)"
    using assms(2,4,5) CK
    by (auto simp: luaD_seterrorobj_def LUA_ERRRUN_def LUA_ERRSYNTAX_def LUA_ERRMEM_def LUA_ERRERR_def setobj_def
        getstack_def setstack_def set_top_def vm_defs)
  let ?R = "?S\<lparr>l_nCcalls := l_nCcalls L, l_ci := l_ci L, l_base := ci_base ?c, l_savedpc := ci_savedpc ?c,
    l_allowhook := l_allowhook L\<rparr>"
  obtain cis where cis: "restore_stack_limit ?R = (Inr (), ?R\<lparr>l_base_ci := cis\<rparr>)" "l_ci L < length cis"
    "\<forall>i \<le> l_ci L. cis ! i = l_base_ci K ! i"
    using restore_stack_limit_run [of ?R] assms(6,7) CK by auto
  let ?L' = "?R\<lparr>l_base_ci := cis, l_errfunc := l_errfunc L\<rparr>"
  have st: "status \<noteq> 0" using assms(2) by (auto simp: LUA_ERRRUN_def LUA_ERRSYNTAX_def)
  have "luaD_pcall E func old_top ef L = (Inr status, ?L')"
    using assms(1,7) C(1) seterr cis(1) CK st
    by (simp add: luaD_pcall_def luaD_rawrunprotected_def cur_ci_def the_ci_def vm_defs)
  moreover have vals: "upval_value ?L' p = upval_value K p" for p
  proof -
    have u: "upval_value C p = upval_value K p" "uv_level g p \<noteq> Some v" if "old_top \<le> v" for v
      using C(2) CK that by (auto simp: closed_from_def split: option.splits)
    show ?thesis
    proof (cases "upvalues g p")
      case (Some x)
      have "upval_value C p = upval_value K p" using C(2) by (simp add: closed_from_def)
      moreover have "uv_get ?s x = uv_get (l_stack K) x"
        using u(2) [of old_top] Some by (auto simp: uv_get_def uv_level_def split: uvref.splits)
      ultimately show ?thesis using Some CK by (simp add: upval_value_def)
    next
      case None
      have "upval_value C p = upval_value K p" using C(2) by (simp add: closed_from_def)
      then show ?thesis using None CK by (simp add: upval_value_def)
    qed
  qed
  moreover have "uv_level (l_G ?L') p = (case uv_level (l_G K) p of Some v \<Rightarrow> if old_top \<le> v then None else Some v | None \<Rightarrow> None)" for p
    using C(2) CK by (simp add: closed_from_def)
  ultimately show ?thesis using cis(3) CK by (intro exI [of _ ?L']) simp
qed

theorem luaD_pcall_recovers_witness:
  "\<forall>E. \<exists>L'. luaD_pcall E (\<lambda>L. (Inl (Throw LUA_ERRRUN), L\<lparr>l_ci := 1, l_nCcalls := 7\<rparr>)) 2 0 (one_upval\<lparr>l_top := 4\<rparr>) = (Inr LUA_ERRRUN, L') \<and>
     l_ci L' = 0 \<and> l_nCcalls L' = 0 \<and> l_top L' = 3 \<and> l_stack L' ! 2 = BOOLEAN True \<and>
     upval_value L' 16 = Some (BOOLEAN True) \<and> uv_level (l_G L') 16 = None"
proof
  fix E
  let ?L = "one_upval\<lparr>l_top := 4\<rparr>" let ?K = "?L\<lparr>l_errfunc := 0, l_ci := 1, l_nCcalls := 7\<rparr>"
  have f: "l_stack ?L = (replicate 40 NIL)[3 := BOOLEAN True]" "l_stack_last ?L = 34" "l_ci ?L = 0" "l_nCcalls ?L = 0"
    "length (l_base_ci ?L) = 8" "l_base_ci ?L \<noteq> []"
    by (simp_all add: one_upval_def empty_thread_def BASIC_STACK_SIZE_def LUA_MINSTACK_def EXTRA_STACK_def BASIC_CI_SIZE_def)
  have v: "upval_value ?K 16 = Some (BOOLEAN True)" "uv_level (l_G ?K) 16 = Some 3"
    using f(1) by (simp_all add: upval_value_def uv_get_def uv_level_def one_upval_def)
  have "upvals_ok ?K" using one_upval_ok by (simp add: upvals_ok_def)
  then obtain L' where "luaD_pcall E (\<lambda>L. (Inl (Throw LUA_ERRRUN), L\<lparr>l_ci := 1, l_nCcalls := 7\<rparr>)) 2 0 ?L = (Inr LUA_ERRRUN, L')"
    "l_ci L' = l_ci ?L" "l_nCcalls L' = l_nCcalls ?L" "l_top L' = 2 + 1" "l_stack L' = (l_stack ?K)[2 := l_stack ?K ! (4 - 1)]"
    "upval_value L' 16 = upval_value ?K 16"
    "uv_level (l_G L') 16 = (case uv_level (l_G ?K) 16 of Some v \<Rightarrow> if 2 \<le> v then None else Some v | None \<Rightarrow> None)"
    using luaD_pcall_recovers [of "\<lambda>L. (Inl (Throw LUA_ERRRUN), L\<lparr>l_ci := 1, l_nCcalls := 7\<rparr>)" 0 ?L LUA_ERRRUN ?K 2 E] f
    by (auto simp: EXTRA_STACK_def)
  then show "\<exists>L'. luaD_pcall E (\<lambda>L. (Inl (Throw LUA_ERRRUN), L\<lparr>l_ci := 1, l_nCcalls := 7\<rparr>)) 2 0 ?L = (Inr LUA_ERRRUN, L') \<and>
     l_ci L' = 0 \<and> l_nCcalls L' = 0 \<and> l_top L' = 3 \<and> l_stack L' ! 2 = BOOLEAN True \<and>
     upval_value L' 16 = Some (BOOLEAN True) \<and> uv_level (l_G L') 16 = None"
    using f v by (intro exI [of _ L']) simp
qed

end
