(* ===== verification/Parser.thy ===== *)
theory Parser
  imports Code Lexer Debug StrTable Undump
begin

text \<open>
  The parser (\<open>lparser.c\<close>): its state and the parts below the grammar, that is errors, names and
  scopes, blocks and functions. The state holds the lexer, the functions being compiled with the
  innermost first (\<open>lex->funcstate\<close> and its chain \<open>prev\<close>), the strings and the depth of C calls.
  Interned names are their contents (see \<open>StrTable\<close>). What only protects from the collector is
  left out, except that anchoring a string enters it into the table of constants.
\<close>

section \<open>State\<close>

definition LUAI_MAXVARS :: int where "LUAI_MAXVARS = 200"
definition LUAI_MAXUPVALUES :: int where "LUAI_MAXUPVALUES = 60"
definition SHRT_MAX :: int where "SHRT_MAX = 32767"

record UpValDesc =
  uvd_k :: Expr_Type
  uvd_info :: int

record BlockCnt =
  breaklist :: int
  bl_nactvar :: int
  upval :: bool
  isbreakable :: bool

text \<open>The rest of \<open>FuncState\<close> and of its prototype; arrays are their elements in use with the size
  allocated. \<open>actvar\<close> is the stack of declared variables, as indices of \<open>locvars\<close>, and \<open>bl\<close> the
  chain of blocks, innermost first.\<close>

record PFunc =
  pf_fs :: FuncState
  pf_source :: string
  pf_linedefined :: int
  pf_lastlinedefined :: int
  pf_is_vararg :: u8
  pf_numparams :: int
  pf_children :: "Proto list"
  pf_size_children :: int
  pf_locvars :: "LocVar list"
  pf_size_locvars :: int
  pf_upvalues :: "string list"
  pf_size_upvalues :: int
  pf_upvaldesc :: "UpValDesc list"
  pf_actvar :: "nat list"
  pf_bl :: "BlockCnt list"

record 'd PS =
  ps_lex :: "'d LexState"
  ps_funcs :: "PFunc list"
  ps_G :: global_State
  ps_nCcalls :: int

text \<open>A step of the parser changes the state and gives a value, or ends with an error.\<close>

type_synonym ('d, 'a) parser = "'d PS \<Rightarrow> ('a \<times> 'd PS) result"

definition retP :: "'a \<Rightarrow> ('d, 'a) parser" where "retP x s = Inr (x, s)"
definition seqP :: "('d, 'a) parser \<Rightarrow> ('a \<Rightarrow> ('d, 'b) parser) \<Rightarrow> ('d, 'b) parser" where
  "seqP m f s = seqR (m s) (\<lambda>(x, s). f x s)"
definition thenP :: "('d, 'a) parser \<Rightarrow> ('d, 'b) parser \<Rightarrow> ('d, 'b) parser" where
  "thenP m n = seqP m (\<lambda>_. n)"
definition getP :: "('d PS \<Rightarrow> 'a) \<Rightarrow> ('d, 'a) parser" where "getP g s = Inr (g s, s)"
definition modP :: "('d PS \<Rightarrow> 'd PS) \<Rightarrow> ('d, unit) parser" where "modP h s = Inr ((), h s)"
definition liftP :: "'a result \<Rightarrow> ('d, 'a) parser" where "liftP r s = seqR r (\<lambda>x. Inr (x, s))"
definition failP :: "lua_error \<Rightarrow> ('d, 'a) parser" where "failP e s = Inl e"
definition assertP :: "bool \<Rightarrow> ('d, unit) parser" where
  "assertP b = (if b then retP () else failP Undefined)"
definition whenP :: "bool \<Rightarrow> ('d, unit) parser \<Rightarrow> ('d, unit) parser" where
  "whenP b m = (if b then m else retP ())"

lemmas parser_defs = retP_def seqP_def thenP_def getP_def modP_def liftP_def failP_def assertP_def whenP_def

text \<open>The function being compiled.\<close>

definition cur :: "('d, PFunc) parser" where
  "cur s = (case ps_funcs s of [] \<Rightarrow> Inl Undefined | pf # _ \<Rightarrow> Inr (pf, s))"

definition put_cur :: "PFunc \<Rightarrow> ('d, unit) parser" where
  "put_cur pf s = (case ps_funcs s of [] \<Rightarrow> Inl Undefined | _ # prev \<Rightarrow> Inr ((), s\<lparr>ps_funcs := pf # prev\<rparr>))"

text \<open>A function of the code generator on it: the generator reads the line of the last token and
  the hashes of the strings there are.\<close>

definition genR :: "(FuncState \<Rightarrow> (FuncState \<times> 'a) result) \<Rightarrow> ('d, 'a) parser" where
  "genR f =
     seqP cur (\<lambda>pf.
     seqP (getP id) (\<lambda>s.
     seqP (liftP (f ((pf_fs pf)\<lparr>strhash := string_hash (ps_G s), lastline := lx_lastline (ps_lex s)\<rparr>))) (\<lambda>(fs, x).
     thenP (put_cur (pf\<lparr>pf_fs := fs\<rparr>))
     (retP x))))"

definition genU :: "(FuncState \<Rightarrow> FuncState result) \<Rightarrow> ('d, unit) parser" where
  "genU f = genR (\<lambda>fs. seqR (f fs) (\<lambda>fs. Inr (fs, ())))"

definition genG :: "(FuncState \<Rightarrow> 'a) \<Rightarrow> ('d, 'a) parser" where
  "genG f = seqP cur (\<lambda>pf. retP (f (pf_fs pf)))"

text \<open>What the parser uses of its surroundings: the lexer's, the arithmetic of constants, a bound on
  the turns of loops, and the rules it is called back with (\<open>chunk\<close>, \<open>subexpr\<close>; the prototypes
  in \<open>lparser.c\<close>).\<close>

record 'd penv =
  pe_lex :: "'d lexenv"
  pe_num :: num_ops
  pe_fuel :: nat
  pe_chunk :: "('d, unit) parser"
  pe_subexpr :: "nat \<Rightarrow> ('d, Expr \<times> BinOpr) parser"

section \<open>Tokens\<close>

definition cur_type :: "('d, Token_Type) parser" where
  "cur_type = getP (\<lambda>s. tk_type (lx_current (ps_lex s)))"

definition cur_line :: "('d, int) parser" where
  "cur_line = getP (\<lambda>s. lx_linenumber (ps_lex s))"

definition luaX_newstring :: "string \<Rightarrow> ('d, addr) parser" where
  "luaX_newstring str =
     seqP (getP ps_G) (\<lambda>g.
     seqP (liftP (luaS_newlstr str g)) (\<lambda>(g, ts).
     thenP (modP (\<lambda>s. s\<lparr>ps_G := g\<rparr>))
     (thenP (genU (\<lambda>fs. seqR (luaH_setstr (strhash fs) (fs_h fs) ts) (\<lambda>(t, idx).
           Inr (fs\<lparr>fs_h := (if read_slot t (Some idx) = NIL then write_slot t idx (BOOLEAN True) else t)\<rparr>))))
     (retP ts))))"

text \<open>The string a token was read with: names, strings and reserved words.\<close>

definition token_string :: "Token \<Rightarrow> string option" where
  "token_string t =
     (if tk_type t \<in> {TOKEN_NAME, TOKEN_STRING} then
        (case tk_seminfo t of SemString s \<Rightarrow> Some s | _ \<Rightarrow> None)
      else if token_num (tk_type t) < NUM_RESERVED then Some (luaX_tokens ! token_num (tk_type t))
      else None)"

definition anchor_read :: "Token \<Rightarrow> ('d, unit) parser" where
  "anchor_read t =
     (case token_string t of
        Some s \<Rightarrow> seqP (luaX_newstring s) (\<lambda>_. retP ())
      | None \<Rightarrow> retP ())"

definition put_lex :: "'d LexState \<Rightarrow> ('d, unit) parser" where
  "put_lex ls = modP (\<lambda>s. s\<lparr>ps_lex := ls\<rparr>)"

text \<open>\<open>luaX_next\<close> and \<open>luaX_lookahead\<close> with the strings they make.\<close>

definition next_token :: "'d penv \<Rightarrow> ('d, unit) parser" where
  "next_token E =
     seqP (getP ps_lex) (\<lambda>ls.
     seqP (liftP (luaX_next (pe_lex E) (pe_fuel E) ls)) (\<lambda>ls'.
     thenP (put_lex ls')
     (whenP (tk_type (lx_lookahead ls) = TOKEN_EOS) (anchor_read (lx_current ls')))))"

definition look_ahead :: "'d penv \<Rightarrow> ('d, unit) parser" where
  "look_ahead E =
     seqP (getP ps_lex) (\<lambda>ls.
     seqP (liftP (luaX_lookahead (pe_lex E) (pe_fuel E) ls)) (\<lambda>ls'.
     thenP (put_lex ls')
     (anchor_read (lx_lookahead ls'))))"

definition anchor_token :: "('d, unit) parser" where
  "anchor_token =
     seqP (getP (\<lambda>s. lx_current (ps_lex s))) (\<lambda>t.
     whenP (tk_type t \<in> {TOKEN_NAME, TOKEN_STRING}) (anchor_read t))"

section \<open>Errors\<close>

definition syntaxerror :: "'d penv \<Rightarrow> string \<Rightarrow> ('d, 'a) parser" where
  "syntaxerror E msg = seqP (getP ps_lex) (\<lambda>ls. liftP (luaX_syntaxerror (pe_lex E) ls msg))"

definition error_expected :: "'d penv \<Rightarrow> Token_Type \<Rightarrow> ('d, 'a) parser" where
  "error_expected E t =
     seqP (getP ps_lex) (\<lambda>ls.
     syntaxerror E (quoted (luaX_token2str (pe_lex E) ls t) @ '' expected''))"

definition limit_text :: "'d lexenv \<Rightarrow> PFunc \<Rightarrow> int \<Rightarrow> string \<Rightarrow> string" where
  "limit_text E pf limit what =
     (if pf_linedefined pf = 0 then ''main function has more than '' @ number_text E limit @ '' '' @ what
      else ''function at line '' @ number_text E (pf_linedefined pf) @ '' has more than '' @
        number_text E limit @ '' '' @ what)"

definition error_limit :: "'d lexenv \<Rightarrow> 'd LexState \<Rightarrow> PFunc \<Rightarrow> int \<Rightarrow> string \<Rightarrow> 'a result" where
  "error_limit E ls pf limit what = luaX_lexerror E ls (limit_text E pf limit what) TOKEN_ERROR"

definition luaY_checklimit :: "'d lexenv \<Rightarrow> 'd LexState \<Rightarrow> PFunc \<Rightarrow> int \<Rightarrow> int \<Rightarrow> string \<Rightarrow> unit result" where
  "luaY_checklimit E ls pf v limit what =
     (if v > limit then error_limit E ls pf limit what else Inr ())"

definition checklimit :: "'d penv \<Rightarrow> int \<Rightarrow> int \<Rightarrow> string \<Rightarrow> ('d, unit) parser" where
  "checklimit E v limit what =
     seqP cur (\<lambda>pf.
     seqP (getP ps_lex) (\<lambda>ls.
     liftP (luaY_checklimit (pe_lex E) ls pf v limit what)))"

definition test_next :: "'d penv \<Rightarrow> Token_Type \<Rightarrow> ('d, bool) parser" where
  "test_next E expected =
     seqP cur_type (\<lambda>t.
     if t = expected then thenP (next_token E) (retP True) else retP False)"

definition check :: "'d penv \<Rightarrow> Token_Type \<Rightarrow> ('d, unit) parser" where
  "check E expected = seqP cur_type (\<lambda>t. whenP (t \<noteq> expected) (error_expected E expected))"

definition check_next_token :: "'d penv \<Rightarrow> Token_Type \<Rightarrow> ('d, unit) parser" where
  "check_next_token E expected = thenP (check E expected) (next_token E)"

definition check_condition :: "'d penv \<Rightarrow> bool \<Rightarrow> string \<Rightarrow> ('d, unit) parser" where
  "check_condition E c msg = whenP (\<not> c) (syntaxerror E msg)"

definition check_match :: "'d penv \<Rightarrow> Token_Type \<Rightarrow> Token_Type \<Rightarrow> int \<Rightarrow> ('d, unit) parser" where
  "check_match E what who line =
     seqP (test_next E what) (\<lambda>b.
     seqP (getP ps_lex) (\<lambda>ls.
     whenP (\<not> b)
           (if line = lx_linenumber ls then error_expected E what
            else syntaxerror E (quoted (luaX_token2str (pe_lex E) ls what) @ '' expected (to close '' @
              quoted (luaX_token2str (pe_lex E) ls who) @ '' at line '' @ number_text (pe_lex E) line @ '')''))))"

definition str_checkname :: "'d penv \<Rightarrow> ('d, string) parser" where
  "str_checkname E =
     thenP (check E TOKEN_NAME)
     (seqP (getP (\<lambda>s. tk_seminfo (lx_current (ps_lex s)))) (\<lambda>v.
     thenP (next_token E)
     (case v of SemString s \<Rightarrow> retP s | _ \<Rightarrow> failP Undefined)))"

section \<open>Constants\<close>

definition blank_exp :: Expr where
  "blank_exp = \<lparr>kind = EXPR_VOID, info = 0, aux = 0, nval = 0, patch_true = NO_JUMP, patch_false = NO_JUMP\<rparr>"

definition init_exp :: "Expr_Type \<Rightarrow> int \<Rightarrow> Expr" where
  "init_exp k i = expr_init_info blank_exp k i"

definition string_constant :: "string \<Rightarrow> ('d, int) parser" where
  "string_constant s =
     seqP (getP ps_G) (\<lambda>g.
     seqP (liftP (luaS_newlstr s g)) (\<lambda>(g, ts).
     thenP (modP (\<lambda>s. s\<lparr>ps_G := g\<rparr>))
     (genR (\<lambda>fs. luaK_stringK fs ts))))"

definition codestring :: "string \<Rightarrow> ('d, Expr) parser" where
  "codestring s = seqP (string_constant s) (\<lambda>i. retP (init_exp EXPR_CONSTANT i))"

definition checkname :: "'d penv \<Rightarrow> ('d, Expr) parser" where
  "checkname E = seqP (str_checkname E) codestring"

section \<open>Local variables\<close>

definition tstr :: "string \<Rightarrow> tstring option" where "tstr s = Some (map of_char s)"

definition getlocvar :: "PFunc \<Rightarrow> int \<Rightarrow> LocVar result" where
  "getlocvar pf i =
     (if 0 \<le> i \<and> nat i < length (pf_actvar pf) \<and> pf_actvar pf ! nat i < length (pf_locvars pf)
      then Inr (pf_locvars pf ! (pf_actvar pf ! nat i)) else Inl Undefined)"

definition setlocvar :: "PFunc \<Rightarrow> int \<Rightarrow> (LocVar \<Rightarrow> LocVar) \<Rightarrow> PFunc result" where
  "setlocvar pf i f =
     seqR (getlocvar pf i) (\<lambda>v. Inr (pf\<lparr>pf_locvars := (pf_locvars pf)[pf_actvar pf ! nat i := f v]\<rparr>))"

definition registerlocalvar :: "PFunc \<Rightarrow> string \<Rightarrow> (PFunc \<times> nat) result" where
  "registerlocalvar pf name =
     seqR (luaM_growvector (int (length (pf_locvars pf))) (pf_size_locvars pf) SHRT_MAX ''too many local variables'') (\<lambda>sz.
       Inr (pf\<lparr>pf_size_locvars := sz,
               pf_locvars := pf_locvars pf @ [\<lparr>varname = tstr name, startpc = 0, endpc = 0\<rparr>]\<rparr>,
            length (pf_locvars pf)))"

definition new_localvar :: "'d penv \<Rightarrow> string \<Rightarrow> int \<Rightarrow> ('d, unit) parser" where
  "new_localvar E name n =
     seqP cur (\<lambda>pf.
     thenP (checklimit E (nactvar (pf_fs pf) + n + 1) LUAI_MAXVARS ''local variables'')
     (seqP (liftP (registerlocalvar pf name)) (\<lambda>(pf, locvar).
     put_cur (pf\<lparr>pf_actvar := put_at (pf_actvar pf) (nat (nactvar (pf_fs pf) + n)) locvar\<rparr>))))"

definition new_localvarliteral :: "'d penv \<Rightarrow> string \<Rightarrow> int \<Rightarrow> ('d, unit) parser" where
  "new_localvarliteral E v n = seqP (luaX_newstring v) (\<lambda>_. new_localvar E v n)"

text \<open>The variables from the oldest of the new ones on start at the current instruction.\<close>

primrec start_vars :: "nat \<Rightarrow> int \<Rightarrow> PFunc \<Rightarrow> PFunc result" where
  "start_vars 0 startpc0 pf = Inr pf"
| "start_vars (Suc n) startpc0 pf =
     seqR (setlocvar pf (nactvar (pf_fs pf) - int (Suc n)) (\<lambda>v. v\<lparr>startpc := startpc0\<rparr>)) (start_vars n startpc0)"

definition adjustlocalvars :: "nat \<Rightarrow> ('d, unit) parser" where
  "adjustlocalvars nvars =
     seqP cur (\<lambda>pf.
     seqP (liftP (start_vars nvars (pc (pf_fs pf))
                 (pf\<lparr>pf_fs := (pf_fs pf)\<lparr>nactvar := (nactvar (pf_fs pf) + int nvars) mod 256\<rparr>\<rparr>))) (\<lambda>pf.
     put_cur pf))"

primrec remove_vars :: "nat \<Rightarrow> int \<Rightarrow> PFunc \<Rightarrow> PFunc result" where
  "remove_vars 0 endpc0 pf = Inr pf"
| "remove_vars (Suc n) endpc0 pf =
     (let i = nactvar (pf_fs pf) - 1 in
      seqR (setlocvar (pf\<lparr>pf_fs := (pf_fs pf)\<lparr>nactvar := i\<rparr>\<rparr>) i (\<lambda>v. v\<lparr>endpc := endpc0\<rparr>)) (remove_vars n endpc0))"

definition removevars :: "int \<Rightarrow> ('d, unit) parser" where
  "removevars tolevel =
     seqP cur (\<lambda>pf.
     seqP (liftP (remove_vars (nat (nactvar (pf_fs pf) - tolevel)) (pc (pf_fs pf)) pf)) (\<lambda>pf.
     put_cur pf))"

section \<open>Scopes\<close>

fun find_upvalue :: "UpValDesc list \<Rightarrow> Expr \<Rightarrow> nat \<Rightarrow> nat option" where
  "find_upvalue [] var i = None"
| "find_upvalue (d # ds) var i =
     (if uvd_k d = kind var \<and> uvd_info d = info var then Some i else find_upvalue ds var (Suc i))"

definition indexupvalue :: "'d lexenv \<Rightarrow> 'd LexState \<Rightarrow> PFunc \<Rightarrow> string \<Rightarrow> Expr \<Rightarrow> (PFunc \<times> int) result" where
  "indexupvalue E ls pf name var =
     (let nups = length (pf_upvaldesc pf) in
      case find_upvalue (pf_upvaldesc pf) var 0 of
        Some i \<Rightarrow> if pf_upvalues pf ! i = name then Inr (pf, int i) else Inl Undefined
      | None \<Rightarrow>
          seqR (luaY_checklimit E ls pf (int nups + 1) LUAI_MAXUPVALUES ''upvalues'') (\<lambda>_.
          seqR (luaM_growvector (int nups) (pf_size_upvalues pf) MAX_INT '''') (\<lambda>sz.
          if kind var \<noteq> EXPR_LOCAL \<and> kind var \<noteq> EXPR_UPVALUE then Inl Undefined
          else Inr (pf\<lparr>pf_size_upvalues := sz, pf_upvalues := pf_upvalues pf @ [name],
                       pf_upvaldesc := pf_upvaldesc pf @ [\<lparr>uvd_k = kind var, uvd_info = info var mod 256\<rparr>]\<rparr>, int nups))))"

primrec searchvar_loop :: "PFunc \<Rightarrow> string \<Rightarrow> nat \<Rightarrow> int result" where
  "searchvar_loop pf n 0 = Inr (-1)"
| "searchvar_loop pf n (Suc i) =
     seqR (getlocvar pf (int i)) (\<lambda>v. if varname v = tstr n then Inr (int i) else searchvar_loop pf n i)"

definition searchvar :: "PFunc \<Rightarrow> string \<Rightarrow> int result" where
  "searchvar pf n = searchvar_loop pf n (nat (nactvar (pf_fs pf)))"

text \<open>The innermost block that does not hold the variable inside is marked.\<close>

fun mark_block :: "BlockCnt list \<Rightarrow> int \<Rightarrow> BlockCnt list" where
  "mark_block [] level = []"
| "mark_block (b # bs) level =
     (if bl_nactvar b > level then b # mark_block bs level else b\<lparr>upval := True\<rparr> # bs)"

definition markupval :: "PFunc \<Rightarrow> int \<Rightarrow> PFunc" where
  "markupval pf level = pf\<lparr>pf_bl := mark_block (pf_bl pf) level\<rparr>"

text \<open>The kind of the expression is the result of the C function.\<close>

fun singlevaraux :: "'d lexenv \<Rightarrow> 'd LexState \<Rightarrow> PFunc list \<Rightarrow> string \<Rightarrow> bool \<Rightarrow> (PFunc list \<times> Expr) result" where
  "singlevaraux E ls [] n base = Inr ([], init_exp EXPR_GLOBAL NO_REG)"
| "singlevaraux E ls (pf # prev) n base =
     seqR (searchvar pf n) (\<lambda>v.
     if v \<ge> 0 then Inr ((if base then pf else markupval pf v) # prev, init_exp EXPR_LOCAL v)
     else
       seqR (singlevaraux E ls prev n False) (\<lambda>(prev, var).
       if kind var = EXPR_GLOBAL then Inr (pf # prev, var)
       else
         seqR (indexupvalue E ls pf n var) (\<lambda>(pf, i).
         Inr (pf # prev, var\<lparr>info := i, kind := EXPR_UPVALUE\<rparr>))))"

definition singlevar :: "'d penv \<Rightarrow> ('d, Expr) parser" where
  "singlevar E =
     seqP (str_checkname E) (\<lambda>name.
     seqP (getP id) (\<lambda>s.
     seqP (liftP (singlevaraux (pe_lex E) (ps_lex s) (ps_funcs s) name True)) (\<lambda>(funcs, var).
     thenP (modP (\<lambda>s. s\<lparr>ps_funcs := funcs\<rparr>))
     (if kind var = EXPR_GLOBAL then seqP (string_constant name) (\<lambda>i. retP (var\<lparr>info := i\<rparr>))
         else retP var))))"

definition hasmultret :: "Expr_Type \<Rightarrow> bool" where
  "hasmultret k \<longleftrightarrow> k = EXPR_CALL \<or> k = EXPR_VARARG"

definition adjust_assign :: "int \<Rightarrow> int \<Rightarrow> Expr \<Rightarrow> ('d, Expr) parser" where
  "adjust_assign nvars nexps e =
     (let extra = nvars - nexps in
      if hasmultret (kind e) then
        (let extra = max 0 (extra + 1) in
         thenP (genU (\<lambda>fs. luaK_setreturns fs e extra))
         (thenP (whenP (extra > 1) (genU (\<lambda>fs. luaK_reserveregs fs (extra - 1))))
         (retP e)))
      else
        seqP (if kind e \<noteq> EXPR_VOID then genR (\<lambda>fs. luaK_exp2nextreg fs e) else retP e) (\<lambda>e.
        seqP (genG freereg) (\<lambda>reg.
        thenP (whenP (extra > 0)
              (thenP (genU (\<lambda>fs. luaK_reserveregs fs extra)) (genU (\<lambda>fs. luaK_nil fs reg extra))))
        (retP e))))"

section \<open>Levels and blocks\<close>

definition enterlevel :: "'d penv \<Rightarrow> ('d, unit) parser" where
  "enterlevel E =
     thenP (modP (\<lambda>s. s\<lparr>ps_nCcalls := ps_nCcalls s + 1\<rparr>))
     (seqP (getP id) (\<lambda>s.
     whenP (ps_nCcalls s > int LUAI_MAXCCALLS)
           (liftP (luaX_lexerror (pe_lex E) (ps_lex s) ''chunk has too many syntax levels'' TOKEN_ERROR))))"

definition leavelevel :: "('d, unit) parser" where
  "leavelevel = modP (\<lambda>s. s\<lparr>ps_nCcalls := ps_nCcalls s - 1\<rparr>)"

definition enterblock :: "bool \<Rightarrow> ('d, unit) parser" where
  "enterblock b =
     seqP cur (\<lambda>pf.
     thenP (put_cur (pf\<lparr>pf_bl := \<lparr>breaklist = NO_JUMP, bl_nactvar = nactvar (pf_fs pf), upval = False,
             isbreakable = b\<rparr> # pf_bl pf\<rparr>))
     (assertP (freereg (pf_fs pf) = nactvar (pf_fs pf))))"

text \<open>The innermost block.\<close>

definition cur_block :: "('d, BlockCnt) parser" where
  "cur_block = seqP cur (\<lambda>pf. case pf_bl pf of [] \<Rightarrow> failP Undefined | b # _ \<Rightarrow> retP b)"

definition leaveblock :: "('d, unit) parser" where
  "leaveblock =
     seqP cur_block (\<lambda>bl.
     seqP cur (\<lambda>pf.
     thenP (put_cur (pf\<lparr>pf_bl := tl (pf_bl pf)\<rparr>))
     (thenP (removevars (bl_nactvar bl))
     (thenP (whenP (upval bl) (seqP (genR (\<lambda>fs. luaK_codeABC fs OP_CLOSE (bl_nactvar bl) 0 0)) (\<lambda>_. retP ())))
     (thenP (assertP (\<not> isbreakable bl \<or> \<not> upval bl))
     (seqP (genG nactvar) (\<lambda>n.
     thenP (assertP (bl_nactvar bl = n))
     (thenP (genU (\<lambda>fs. Inr (fs\<lparr>freereg := n\<rparr>)))
     (genU (\<lambda>fs. luaK_patchtohere fs (breaklist bl)))))))))))"

section \<open>Functions\<close>

text \<open>The finished prototype, its vectors cut to their elements in use.\<close>

definition const_of :: "global_State \<Rightarrow> TValue \<Rightarrow> Constant" where
  "const_of g v = (case v of NUMBER n \<Rightarrow> KNUMBER n | BOOLEAN b \<Rightarrow> KBOOLEAN b
     | STRING p \<Rightarrow> KSTRING (case strings g p of Some ts \<Rightarrow> tstr (ts_bytes ts) | None \<Rightarrow> None) | _ \<Rightarrow> KNIL)"

definition proto_of :: "global_State \<Rightarrow> PFunc \<Rightarrow> Proto" where
  "proto_of g pf =
     (let fs = pf_fs pf in
      Proto (map (const_of g) (take (nat (nconstants fs)) (constants fs))) (take (nat (pc fs)) (code fs))
        (pf_children pf) (take (nat (pc fs)) (lineinfo fs)) (pf_locvars pf) (map tstr (pf_upvalues pf))
        (tstr (pf_source pf)) (pf_linedefined pf) (pf_lastlinedefined pf) (of_nat (length (pf_upvaldesc pf)))
        (word_of_int (pf_numparams pf)) (pf_is_vararg pf) (word_of_int (maxstacksize fs)))"

primrec close_upvals :: "UpValDesc list \<Rightarrow> ('d, unit) parser" where
  "close_upvals [] = retP ()"
| "close_upvals (d # ds) =
     thenP (seqP (genR (\<lambda>fs. luaK_codeABC fs (if uvd_k d = EXPR_LOCAL then OP_MOVE else OP_GETUPVAL) 0 (uvd_info d) 0))
       (\<lambda>_. retP ())) (close_upvals ds)"

definition pushclosure :: "PFunc \<Rightarrow> Proto \<Rightarrow> ('d, Expr) parser" where
  "pushclosure child p =
     seqP cur (\<lambda>parent.
     seqP (liftP (luaM_growvector (int (length (pf_children parent))) (pf_size_children parent) MAXARG_Bx
                 ''constant table overflow'')) (\<lambda>sz.
     thenP (put_cur (parent\<lparr>pf_size_children := sz, pf_children := pf_children parent @ [p]\<rparr>))
     (seqP (genR (\<lambda>fs. luaK_codeABx fs OP_CLOSURE 0 (int (length (pf_children parent))))) (\<lambda>i.
     thenP (close_upvals (pf_upvaldesc child))
     (retP (init_exp EXPR_RELOCABLE i))))))"

definition open_func :: "('d, unit) parser" where
  "open_func =
     seqP (getP id) (\<lambda>s.
     seqP (liftP (luaH_new 0 0)) (\<lambda>h.
     modP (\<lambda>s. s\<lparr>ps_G := (ps_G s)\<lparr>next_addr := next_addr (ps_G s) + 1\<rparr>,
           ps_funcs :=
             \<lparr>pf_fs = \<lparr>code = [], size_code = 0, lineinfo = [], size_lineinfo = 0, constants = [], maxstacksize = 2,
                fs_h = h, h_addr = next_addr (ps_G s), strhash = string_hash (ps_G s), lastline = 0, pc = 0,
                lasttarget = -1, jpc = NO_JUMP, freereg = 0, nconstants = 0, nactvar = 0\<rparr>,
              pf_source = lx_source (ps_lex s), pf_linedefined = 0, pf_lastlinedefined = 0, pf_is_vararg = 0,
              pf_numparams = 0, pf_children = [], pf_size_children = 0, pf_locvars = [], pf_size_locvars = 0,
              pf_upvalues = [], pf_size_upvalues = 0, pf_upvaldesc = [], pf_actvar = [], pf_bl = []\<rparr>
             # ps_funcs s\<rparr>)))"

text \<open>The function that was closed, and its prototype.\<close>

definition close_func :: "('d, PFunc \<times> Proto) parser" where
  "close_func =
     thenP (removevars 0)
     (thenP (genU (\<lambda>fs. luaK_ret fs 0 0))
     (seqP cur (\<lambda>pf.
     seqP (getP ps_G) (\<lambda>g.
     (let p = proto_of g pf in
     seqP (liftP (luaG_checkcode p)) (\<lambda>ok.
     thenP (assertP ok)
     (thenP (assertP (pf_bl pf = []))
     (thenP (modP (\<lambda>s. s\<lparr>ps_funcs := tl (ps_funcs s)\<rparr>))
     (thenP anchor_token
     (retP (pf, p)))))))))))"

end
