(* ===== verification/Grammar.thy ===== *)
theory Grammar
  imports Parser
begin

text \<open>
  The rules of the grammar (\<open>lparser.c\<close>), as the recursive descent of the C code. A rule gets the
  descriptors it would be given pointers to and returns them; the rules \<open>chunk\<close> and \<open>subexpr\<close>,
  which all nesting goes through, are called back through the environment.
\<close>

section \<open>Indexing\<close>

definition expression :: "'d penv \<Rightarrow> ('d, Expr) parser" where
  "expression E = seqP (pe_subexpr E 0) (\<lambda>(e, _). retP e)"

definition exp2nextreg :: "Expr \<Rightarrow> ('d, Expr) parser" where
  "exp2nextreg e = genR (\<lambda>fs. luaK_exp2nextreg fs e)"

definition exp2anyreg :: "Expr \<Rightarrow> ('d, Expr \<times> int) parser" where
  "exp2anyreg e = genR (\<lambda>fs. luaK_exp2anyreg fs e)"

definition codeABC :: "OpCode \<Rightarrow> int \<Rightarrow> int \<Rightarrow> int \<Rightarrow> ('d, int) parser" where
  "codeABC op a b c = genR (\<lambda>fs. luaK_codeABC fs op a b c)"

definition set_freereg :: "int \<Rightarrow> ('d, unit) parser" where
  "set_freereg n = genU (\<lambda>fs. Inr (fs\<lparr>freereg := n\<rparr>))"

definition change_code :: "int \<Rightarrow> (u32 \<Rightarrow> u32) \<Rightarrow> ('d, unit) parser" where
  "change_code i f = genU (\<lambda>fs. seqR (getins fs i) (\<lambda>ip. setins fs i (f ip)))"

definition field :: "'d penv \<Rightarrow> Expr \<Rightarrow> ('d, Expr) parser" where
  "field E var =
     seqP (exp2anyreg var) (\<lambda>(var, r).
     thenP (next_token E)
     (seqP (checkname E) (\<lambda>key.
     seqP (genR (\<lambda>fs. luaK_indexed fs var key)) (\<lambda>(var, key).
     retP var))))"

definition yindex :: "'d penv \<Rightarrow> ('d, Expr) parser" where
  "yindex E =
     thenP (next_token E)
     (seqP (expression E) (\<lambda>var.
     seqP (genR (\<lambda>fs. luaK_exp2val fs var)) (\<lambda>var.
     thenP (check_next_token E TOKEN_RIGHT_BRACKET)
     (retP var))))"

section \<open>Constructors\<close>

record ConsControl =
  cc_value :: Expr
  cc_table :: Expr
  cc_nhash :: int
  cc_narray :: int
  cc_tostore :: int

definition recfield :: "'d penv \<Rightarrow> ConsControl \<Rightarrow> ('d, ConsControl) parser" where
  "recfield E cc =
     seqP (genG freereg) (\<lambda>reg.
     seqP cur_type (\<lambda>t.
     seqP (if t = TOKEN_NAME then
                  thenP (checklimit E (cc_nhash cc) MAX_INT ''items in a constructor'') (checkname E)
                else yindex E) (\<lambda>key.
     thenP (check_next_token E TOKEN_ASSIGN)
     (seqP (genR (\<lambda>fs. luaK_exp2RK fs key)) (\<lambda>(key, rkkey).
     seqP (expression E) (\<lambda>val.
     seqP (genR (\<lambda>fs. luaK_exp2RK fs val)) (\<lambda>(val, rkval).
     thenP (codeABC OP_SETTABLE (info (cc_table cc)) rkkey rkval)
     (thenP (set_freereg reg)
     (retP (cc\<lparr>cc_nhash := cc_nhash cc + 1\<rparr>))))))))))"

definition closelistfield :: "ConsControl \<Rightarrow> ('d, ConsControl) parser" where
  "closelistfield cc =
     (if kind (cc_value cc) = EXPR_VOID then retP cc
      else
        seqP (exp2nextreg (cc_value cc)) (\<lambda>e.
        (let cc = cc\<lparr>cc_value := e\<lparr>kind := EXPR_VOID\<rparr>\<rparr> in
        if cc_tostore cc = LFIELDS_PER_FLUSH then
              thenP (genU (\<lambda>fs. luaK_setlist fs (info (cc_table cc)) (cc_narray cc) (cc_tostore cc)))
                (retP (cc\<lparr>cc_tostore := 0\<rparr>))
            else retP cc)))"

definition lastlistfield :: "ConsControl \<Rightarrow> ('d, ConsControl) parser" where
  "lastlistfield cc =
     (if cc_tostore cc = 0 then retP cc
      else if hasmultret (kind (cc_value cc)) then
        thenP (genU (\<lambda>fs. luaK_setmultret fs (cc_value cc)))
        (thenP (genU (\<lambda>fs. luaK_setlist fs (info (cc_table cc)) (cc_narray cc) LUA_MULTRET))
        (retP (cc\<lparr>cc_narray := cc_narray cc - 1\<rparr>)))
      else
        seqP (if kind (cc_value cc) \<noteq> EXPR_VOID then exp2nextreg (cc_value cc) else retP (cc_value cc)) (\<lambda>e.
        thenP (genU (\<lambda>fs. luaK_setlist fs (info (cc_table cc)) (cc_narray cc) (cc_tostore cc)))
        (retP (cc\<lparr>cc_value := e\<rparr>))))"

definition listfield :: "'d penv \<Rightarrow> ConsControl \<Rightarrow> ('d, ConsControl) parser" where
  "listfield E cc =
     seqP (expression E) (\<lambda>e.
     thenP (checklimit E (cc_narray cc) MAX_INT ''items in a constructor'')
     (retP (cc\<lparr>cc_value := e, cc_narray := cc_narray cc + 1, cc_tostore := cc_tostore cc + 1\<rparr>)))"

definition constructor_item :: "'d penv \<Rightarrow> Token_Type \<Rightarrow> ConsControl \<Rightarrow> ('d, ConsControl) parser" where
  "constructor_item E t cc =
     (if t = TOKEN_NAME then
        thenP (look_ahead E)
        (seqP (getP (\<lambda>s. tk_type (lx_lookahead (ps_lex s)))) (\<lambda>t.
        if t \<noteq> TOKEN_ASSIGN then listfield E cc else recfield E cc))
      else if t = TOKEN_LEFT_BRACKET then recfield E cc
      else listfield E cc)"

primrec constructor_items :: "'d penv \<Rightarrow> nat \<Rightarrow> ConsControl \<Rightarrow> ('d, ConsControl) parser" where
  "constructor_items E 0 cc = failP OutOfFuel"
| "constructor_items E (Suc n) cc =
     thenP (assertP (kind (cc_value cc) = EXPR_VOID \<or> cc_tostore cc > 0))
     (seqP cur_type (\<lambda>t.
     if t = TOKEN_RIGHT_CURLY then retP cc
         else
           seqP (closelistfield cc) (\<lambda>cc.
           seqP (constructor_item E t cc) (\<lambda>cc.
           seqP (test_next E TOKEN_COMMA) (\<lambda>b.
           seqP (if b then retP True else test_next E TOKEN_SEMI) (\<lambda>b.
           if b then constructor_items E n cc else retP cc))))))"

definition constructor :: "'d penv \<Rightarrow> ('d, Expr) parser" where
  "constructor E =
     seqP cur_line (\<lambda>line.
     seqP (codeABC OP_NEWTABLE 0 0 0) (\<lambda>i.
     seqP (exp2nextreg (init_exp EXPR_RELOCABLE i)) (\<lambda>t.
     thenP (check_next_token E TOKEN_LEFT_CURLY)
     (seqP (constructor_items E (pe_fuel E)
           \<lparr>cc_value = init_exp EXPR_VOID 0, cc_table = t, cc_nhash = 0, cc_narray = 0, cc_tostore = 0\<rparr>) (\<lambda>cc.
     thenP (check_match E TOKEN_RIGHT_CURLY TOKEN_LEFT_CURLY line)
     (seqP (lastlistfield cc) (\<lambda>cc.
     thenP (change_code i (\<lambda>ip. SETARG_B ip (luaO_int2fb (word_of_int (cc_narray cc)))))
     (thenP (change_code i (\<lambda>ip. SETARG_C ip (luaO_int2fb (word_of_int (cc_nhash cc)))))
     (retP t)))))))))"

section \<open>Functions\<close>

primrec parameters :: "'d penv \<Rightarrow> nat \<Rightarrow> int \<Rightarrow> ('d, int) parser" where
  "parameters E 0 nparams = failP OutOfFuel"
| "parameters E (Suc n) nparams =
     seqP cur_type (\<lambda>t.
     seqP (if t = TOKEN_NAME then
                      seqP (str_checkname E) (\<lambda>name.
                      thenP (new_localvar E name nparams)
                      (retP (nparams + 1)))
                    else if t = TOKEN_VARARG then
                      thenP (next_token E)
                      (seqP cur (\<lambda>pf.
                      thenP (put_cur (pf\<lparr>pf_is_vararg := pf_is_vararg pf OR VARARG_ISVARARG\<rparr>))
                      (retP nparams)))
                    else syntaxerror E (''<name> or '' @ quoted ''...'' @ '' expected'')) (\<lambda>nparams.
     seqP cur (\<lambda>pf.
     if pf_is_vararg pf \<noteq> 0 then retP nparams
         else
           seqP (test_next E TOKEN_COMMA) (\<lambda>b.
           if b then parameters E n nparams else retP nparams))))"

definition parlist :: "'d penv \<Rightarrow> ('d, unit) parser" where
  "parlist E =
     seqP cur (\<lambda>pf.
     thenP (put_cur (pf\<lparr>pf_is_vararg := 0\<rparr>))
     (seqP cur_type (\<lambda>t.
     seqP (if t \<noteq> TOKEN_RIGHT_PAREN then parameters E (pe_fuel E) 0 else retP 0) (\<lambda>nparams.
     thenP (adjustlocalvars (nat nparams))
     (seqP cur (\<lambda>pf.
     thenP (put_cur (pf\<lparr>pf_numparams := (nactvar (pf_fs pf) - uint (pf_is_vararg pf AND VARARG_HASARG)) mod 256\<rparr>))
     (genU (\<lambda>fs. luaK_reserveregs fs (nactvar fs)))))))))"

definition body :: "'d penv \<Rightarrow> bool \<Rightarrow> int \<Rightarrow> ('d, Expr) parser" where
  "body E needself line =
     thenP open_func
     (seqP cur (\<lambda>pf.
     thenP (put_cur (pf\<lparr>pf_linedefined := line\<rparr>))
     (thenP (check_next_token E TOKEN_LEFT_PAREN)
     (thenP (whenP needself (thenP (new_localvarliteral E ''self'' 0) (adjustlocalvars 1)))
     (thenP (parlist E)
     (thenP (check_next_token E TOKEN_RIGHT_PAREN)
     (thenP (pe_chunk E)
     (seqP cur_line (\<lambda>last.
     seqP cur (\<lambda>pf.
     thenP (put_cur (pf\<lparr>pf_lastlinedefined := last\<rparr>))
     (thenP (check_match E TOKEN_END TOKEN_FUNCTION line)
     (seqP close_func (\<lambda>(child, p).
     pushclosure child p)))))))))))))"

primrec explist_loop :: "'d penv \<Rightarrow> nat \<Rightarrow> int \<Rightarrow> Expr \<Rightarrow> ('d, int \<times> Expr) parser" where
  "explist_loop E 0 n var = failP OutOfFuel"
| "explist_loop E (Suc f) n var =
     seqP (test_next E TOKEN_COMMA) (\<lambda>b.
     if b then
           thenP (exp2nextreg var)
           (seqP (expression E) (\<lambda>var.
           explist_loop E f (n + 1) var))
         else retP (n, var))"

definition explist1 :: "'d penv \<Rightarrow> ('d, int \<times> Expr) parser" where
  "explist1 E = seqP (expression E) (explist_loop E (pe_fuel E) 1)"

definition call_arguments :: "'d penv \<Rightarrow> int \<Rightarrow> ('d, Expr) parser" where
  "call_arguments E line =
     seqP cur_type (\<lambda>t.
     if t = TOKEN_LEFT_PAREN then
           seqP (getP (\<lambda>s. lx_lastline (ps_lex s))) (\<lambda>lastln.
           thenP (whenP (line \<noteq> lastln) (syntaxerror E ''ambiguous syntax (function call x new statement)''))
           (thenP (next_token E)
           (seqP cur_type (\<lambda>t.
           seqP (if t = TOKEN_RIGHT_PAREN then retP blank_exp
                       else
                         seqP (explist1 E) (\<lambda>(n, args).
                         thenP (genU (\<lambda>fs. luaK_setmultret fs args))
                         (retP args))) (\<lambda>args.
           thenP (check_match E TOKEN_RIGHT_PAREN TOKEN_LEFT_PAREN line)
           (retP args))))))
         else if t = TOKEN_LEFT_CURLY then constructor E
         else if t = TOKEN_STRING then
           seqP (getP (\<lambda>s. tk_seminfo (lx_current (ps_lex s)))) (\<lambda>v.
           seqP (case v of SemString s \<Rightarrow> codestring s | _ \<Rightarrow> failP Undefined) (\<lambda>args.
           thenP (next_token E)
           (retP args)))
         else syntaxerror E ''function arguments expected'')"

definition funcargs :: "'d penv \<Rightarrow> Expr \<Rightarrow> ('d, Expr) parser" where
  "funcargs E e =
     seqP cur_line (\<lambda>line.
     seqP (call_arguments E line) (\<lambda>args.
     thenP (assertP (kind e = EXPR_NONRELOCABLE))
     ((let base = info e in
     seqP (if hasmultret (kind args) then retP LUA_MULTRET
                    else
                      seqP (if kind args \<noteq> EXPR_VOID then exp2nextreg args else retP args) (\<lambda>args.
                      seqP (genG freereg) (\<lambda>fr.
                      retP (fr - (base + 1))))) (\<lambda>nparams.
     seqP (codeABC OP_CALL base (nparams + 1) 2) (\<lambda>i.
     thenP (genU (\<lambda>fs. luaK_fixline fs line))
     (thenP (set_freereg (base + 1))
     (retP (init_exp EXPR_CALL i)))))))))"

section \<open>Expressions\<close>

definition prefixexp :: "'d penv \<Rightarrow> ('d, Expr) parser" where
  "prefixexp E =
     seqP cur_type (\<lambda>t.
     if t = TOKEN_LEFT_PAREN then
           seqP cur_line (\<lambda>line.
           thenP (next_token E)
           (seqP (expression E) (\<lambda>var.
           thenP (check_match E TOKEN_RIGHT_PAREN TOKEN_LEFT_PAREN line)
           (genR (\<lambda>fs. luaK_dischargevars fs var)))))
         else if t = TOKEN_NAME then singlevar E
         else syntaxerror E ''unexpected symbol'')"

primrec primary_loop :: "'d penv \<Rightarrow> nat \<Rightarrow> Expr \<Rightarrow> ('d, Expr) parser" where
  "primary_loop E 0 var = failP OutOfFuel"
| "primary_loop E (Suc n) var =
     seqP cur_type (\<lambda>t.
     if t = TOKEN_DOT then seqP (field E var) (primary_loop E n)
         else if t = TOKEN_LEFT_BRACKET then
           seqP (exp2anyreg var) (\<lambda>(var, r).
           seqP (yindex E) (\<lambda>key.
           seqP (genR (\<lambda>fs. luaK_indexed fs var key)) (\<lambda>(var, key).
           primary_loop E n var)))
         else if t = TOKEN_COLON then
           thenP (next_token E)
           (seqP (checkname E) (\<lambda>key.
           seqP (genR (\<lambda>fs. luaK_self fs var key)) (\<lambda>(var, key).
           seqP (funcargs E var) (\<lambda>var.
           primary_loop E n var))))
         else if t \<in> {TOKEN_LEFT_PAREN, TOKEN_STRING, TOKEN_LEFT_CURLY} then
           seqP (exp2nextreg var) (\<lambda>var.
           seqP (funcargs E var) (\<lambda>var.
           primary_loop E n var))
         else retP var)"

definition primaryexp :: "'d penv \<Rightarrow> ('d, Expr) parser" where
  "primaryexp E = seqP (prefixexp E) (primary_loop E (pe_fuel E))"

definition simple_constant :: "'d penv \<Rightarrow> Token_Type \<Rightarrow> ('d, Expr) parser" where
  "simple_constant E t =
     (case t of
        TOKEN_NUMBER \<Rightarrow>
          seqP (getP (\<lambda>s. tk_seminfo (lx_current (ps_lex s)))) (\<lambda>v.
          case v of SemNumber r \<Rightarrow> retP ((init_exp EXPR_NUMBER 0)\<lparr>nval := r\<rparr>) | _ \<Rightarrow> failP Undefined)
      | TOKEN_STRING \<Rightarrow>
          seqP (getP (\<lambda>s. tk_seminfo (lx_current (ps_lex s)))) (\<lambda>v.
          case v of SemString s \<Rightarrow> codestring s | _ \<Rightarrow> failP Undefined)
      | TOKEN_NIL \<Rightarrow> retP (init_exp EXPR_NIL 0)
      | TOKEN_TRUE \<Rightarrow> retP (init_exp EXPR_TRUE 0)
      | TOKEN_FALSE \<Rightarrow> retP (init_exp EXPR_FALSE 0)
      | _ \<Rightarrow>
          seqP cur (\<lambda>pf.
          thenP (check_condition E (pf_is_vararg pf \<noteq> 0) (''cannot use '' @ quoted ''...'' @ '' outside a vararg function''))
          (thenP (put_cur (pf\<lparr>pf_is_vararg := pf_is_vararg pf AND NOT VARARG_NEEDSARG\<rparr>))
          (seqP (codeABC OP_VARARG 0 1 0) (\<lambda>i.
          retP (init_exp EXPR_VARARG i))))))"

definition simpleexp :: "'d penv \<Rightarrow> ('d, Expr) parser" where
  "simpleexp E =
     seqP cur_type (\<lambda>t.
     if t \<in> {TOKEN_NUMBER, TOKEN_STRING, TOKEN_NIL, TOKEN_TRUE, TOKEN_FALSE, TOKEN_VARARG} then
           seqP (simple_constant E t) (\<lambda>var.
           thenP (next_token E)
           (retP var))
         else if t = TOKEN_LEFT_CURLY then constructor E
         else if t = TOKEN_FUNCTION then
           thenP (next_token E)
           (seqP cur_line (\<lambda>line.
           body E False line))
         else primaryexp E)"

definition getunopr :: "Token_Type \<Rightarrow> UnOpr" where
  "getunopr op = (case op of TOKEN_NOT \<Rightarrow> OPR_NOT | TOKEN_SUB \<Rightarrow> OPR_MINUS | TOKEN_LEN \<Rightarrow> OPR_LEN
     | _ \<Rightarrow> OPR_NOUNOPR)"

definition getbinopr :: "Token_Type \<Rightarrow> BinOpr" where
  "getbinopr op =
     (case op of
        TOKEN_ADD \<Rightarrow> OPR_ADD | TOKEN_SUB \<Rightarrow> OPR_SUB | TOKEN_MUL \<Rightarrow> OPR_MUL | TOKEN_DIV \<Rightarrow> OPR_DIV
      | TOKEN_MOD \<Rightarrow> OPR_MOD | TOKEN_POW \<Rightarrow> OPR_POW | TOKEN_CONCAT \<Rightarrow> OPR_CONCAT
      | TOKEN_NEQ \<Rightarrow> OPR_NE | TOKEN_EQ \<Rightarrow> OPR_EQ | TOKEN_LT \<Rightarrow> OPR_LT | TOKEN_LEQ \<Rightarrow> OPR_LE
      | TOKEN_GT \<Rightarrow> OPR_GT | TOKEN_GEQ \<Rightarrow> OPR_GE | TOKEN_AND \<Rightarrow> OPR_AND | TOKEN_OR \<Rightarrow> OPR_OR
      | _ \<Rightarrow> OPR_NOBINOPR)"

text \<open>The left and the right priority of a binary operator.\<close>

definition priority :: "BinOpr \<Rightarrow> nat \<times> nat" where
  "priority op =
     (case op of
        OPR_ADD \<Rightarrow> (6, 6) | OPR_SUB \<Rightarrow> (6, 6) | OPR_MUL \<Rightarrow> (7, 7) | OPR_DIV \<Rightarrow> (7, 7) | OPR_MOD \<Rightarrow> (7, 7)
      | OPR_POW \<Rightarrow> (10, 9) | OPR_CONCAT \<Rightarrow> (5, 4)
      | OPR_NE \<Rightarrow> (3, 3) | OPR_EQ \<Rightarrow> (3, 3)
      | OPR_LT \<Rightarrow> (3, 3) | OPR_LE \<Rightarrow> (3, 3) | OPR_GT \<Rightarrow> (3, 3) | OPR_GE \<Rightarrow> (3, 3)
      | OPR_AND \<Rightarrow> (2, 2) | OPR_OR \<Rightarrow> (1, 1)
      | OPR_NOBINOPR \<Rightarrow> (0, 0))"

definition UNARY_PRIORITY :: nat where "UNARY_PRIORITY = 8"

primrec subexpr_loop :: "'d penv \<Rightarrow> nat \<Rightarrow> nat \<Rightarrow> BinOpr \<Rightarrow> Expr \<Rightarrow> ('d, Expr \<times> BinOpr) parser" where
  "subexpr_loop E 0 limit op var = failP OutOfFuel"
| "subexpr_loop E (Suc n) limit op var =
     (if op \<noteq> OPR_NOBINOPR \<and> fst (priority op) > limit then
        thenP (next_token E)
        (seqP (genR (\<lambda>fs. luaK_infix fs op var)) (\<lambda>var.
        seqP (pe_subexpr E (snd (priority op))) (\<lambda>(v2, nextop).
        seqP (genR (\<lambda>fs. luaK_posfix (pe_num E) fs op var v2)) (\<lambda>var.
        subexpr_loop E n limit nextop var))))
      else retP (var, op))"

definition subexpr :: "'d penv \<Rightarrow> nat \<Rightarrow> ('d, Expr \<times> BinOpr) parser" where
  "subexpr E limit =
     thenP (enterlevel E)
     (seqP cur_type (\<lambda>t.
     (let uop = getunopr t in
     seqP (if uop \<noteq> OPR_NOUNOPR then
                  thenP (next_token E)
                  (seqP (pe_subexpr E UNARY_PRIORITY) (\<lambda>(var, op).
                  genR (\<lambda>fs. luaK_prefix (pe_num E) fs uop var)))
                else simpleexp E) (\<lambda>var.
     seqP cur_type (\<lambda>t.
     seqP (subexpr_loop E (pe_fuel E) limit (getbinopr t) var) (\<lambda>r.
     thenP leavelevel
     (retP r)))))))"

end
