(* ===== verification/Stat.thy ===== *)
theory Stat
  imports Grammar
begin

text \<open>
  Statements, chunks and the parser itself (\<open>lparser.c\<close>). The loops run on the fuel of the
  environment, one turn per token at most; the recursion through \<open>chunk\<close> and \<open>subexpr\<close> is as deep
  as \<open>LUAI_MAXCCALLS\<close> lets it be; that of \<open>assignment\<close>, one call per target, has fuel of its own.
\<close>

section \<open>Blocks and assignments\<close>

definition block_follow :: "Token_Type \<Rightarrow> bool" where
  "block_follow t \<longleftrightarrow> t \<in> {TOKEN_ELSE, TOKEN_ELSEIF, TOKEN_END, TOKEN_UNTIL, TOKEN_EOS}"

definition block :: "'d penv \<Rightarrow> ('d, unit) parser" where
  "block E =
     thenP (enterblock False)
     (thenP (pe_chunk E)
     (seqP cur_block (\<lambda>bl.
     thenP (assertP (breaklist bl = NO_JUMP))
     (leaveblock))))"

text \<open>The variables on the left-hand side are a list, the last one read first.\<close>

definition check_conflict :: "Expr list \<Rightarrow> Expr \<Rightarrow> ('d, Expr list) parser" where
  "check_conflict lh var =
     seqP (genG freereg) (\<lambda>extra.
     (let conflict = (\<exists>v \<in> set lh. kind v = EXPR_INDEX \<and> (info v = info var \<or> aux v = info var)) in
     (let safe = (\<lambda>r. if r = info var then extra else r) in
     (let lh = map (\<lambda>v. if kind v = EXPR_INDEX then v\<lparr>info := safe (info v), aux := safe (aux v)\<rparr> else v) lh in
     thenP (whenP conflict
           (thenP (seqP (codeABC OP_MOVE extra (info var) 0) (\<lambda>_. retP ())) (genU (\<lambda>fs. luaK_reserveregs fs 1))))
     (retP lh)))))"

definition storevar :: "Expr \<Rightarrow> Expr \<Rightarrow> ('d, unit) parser" where
  "storevar var e = seqP (genR (\<lambda>fs. luaK_storevar fs var e)) (\<lambda>_. retP ())"

text \<open>The value on top of the registers goes to the variable.\<close>

definition store_top :: "Expr \<Rightarrow> ('d, unit) parser" where
  "store_top var = seqP (genG freereg) (\<lambda>fr. storevar var (init_exp EXPR_NONRELOCABLE (fr - 1)))"

definition assign_values :: "'d penv \<Rightarrow> Expr \<Rightarrow> int \<Rightarrow> ('d, unit) parser" where
  "assign_values E var nvars =
     thenP (check_next_token E TOKEN_ASSIGN)
     (seqP (explist1 E) (\<lambda>(nexps, e).
     if nexps \<noteq> nvars then
           seqP (adjust_assign nvars nexps e) (\<lambda>e.
           seqP (genG freereg) (\<lambda>fr.
           thenP (whenP (nexps > nvars) (set_freereg (fr - (nexps - nvars))))
           (store_top var)))
         else
           seqP (genR (\<lambda>fs. luaK_setoneret fs e)) (\<lambda>e.
           storevar var e)))"

text \<open>The result is the left-hand side as \<open>check_conflict\<close> has left it.\<close>

primrec assignment :: "'d penv \<Rightarrow> nat \<Rightarrow> Expr \<Rightarrow> Expr list \<Rightarrow> int \<Rightarrow> ('d, Expr list) parser" where
  "assignment E 0 v prev nvars = failP OutOfFuel"
| "assignment E (Suc n) v prev nvars =
     thenP (check_condition E (kind v \<in> {EXPR_LOCAL, EXPR_UPVALUE, EXPR_GLOBAL, EXPR_INDEX}) ''syntax error'')
     (seqP (test_next E TOKEN_COMMA) (\<lambda>b.
     if b then
           seqP (primaryexp E) (\<lambda>nv.
           seqP (if kind nv = EXPR_LOCAL then check_conflict (v # prev) nv else retP (v # prev)) (\<lambda>lh.
           seqP (getP ps_nCcalls) (\<lambda>depth.
           thenP (checklimit E nvars (int LUAI_MAXCCALLS - depth) ''variables in assignment'')
           (seqP (assignment E n nv lh (nvars + 1)) (\<lambda>lh.
           thenP (store_top (hd lh))
           (retP (tl lh)))))))
         else thenP (assign_values E v nvars) (retP prev)))"

section \<open>Control structures\<close>

definition cond :: "'d penv \<Rightarrow> ('d, int) parser" where
  "cond E =
     seqP (expression E) (\<lambda>e.
     seqP (genR (\<lambda>fs. luaK_goiftrue fs (if kind e = EXPR_NIL then e\<lparr>kind := EXPR_FALSE\<rparr> else e))) (\<lambda>e.
     retP (patch_false e)))"

text \<open>The innermost loop, and whether a block on the way out holds an upvalue.\<close>

fun find_breakable :: "BlockCnt list \<Rightarrow> bool \<Rightarrow> nat \<Rightarrow> (nat \<times> BlockCnt \<times> bool) option" where
  "find_breakable [] up i = None"
| "find_breakable (b # bs) up i =
     (if isbreakable b then Some (i, b, up) else find_breakable bs (up \<or> upval b) (Suc i))"

definition break_stmt :: "'d penv \<Rightarrow> ('d, unit) parser" where
  "break_stmt E =
     seqP cur (\<lambda>pf.
     case find_breakable (pf_bl pf) False 0 of
           None \<Rightarrow> syntaxerror E ''no loop to break''
         | Some (i, bl, up) \<Rightarrow>
             thenP (whenP up (seqP (codeABC OP_CLOSE (bl_nactvar bl) 0 0) (\<lambda>_. retP ())))
             (seqP (genR luaK_jump) (\<lambda>j.
             seqP (genR (\<lambda>fs. luaK_concat fs (breaklist bl) j)) (\<lambda>l.
             seqP cur (\<lambda>pf.
             put_cur (pf\<lparr>pf_bl := (pf_bl pf)[i := bl\<lparr>breaklist := l\<rparr>]\<rparr>))))))"

definition patchlist :: "int \<Rightarrow> int \<Rightarrow> ('d, unit) parser" where
  "patchlist l target = genU (\<lambda>fs. luaK_patchlist fs l target)"

definition patchtohere :: "int \<Rightarrow> ('d, unit) parser" where
  "patchtohere l = genU (\<lambda>fs. luaK_patchtohere fs l)"

definition while_stmt :: "'d penv \<Rightarrow> int \<Rightarrow> ('d, unit) parser" where
  "while_stmt E line =
     thenP (next_token E)
     (seqP (genR (\<lambda>fs. Inr (luaK_getlabel fs))) (\<lambda>whileinit.
     seqP (cond E) (\<lambda>condexit.
     thenP (enterblock True)
     (thenP (check_next_token E TOKEN_DO)
     (thenP (block E)
     (seqP (genR luaK_jump) (\<lambda>j.
     thenP (patchlist j whileinit)
     (thenP (check_match E TOKEN_END TOKEN_WHILE line)
     (thenP leaveblock
     (patchtohere condexit))))))))))"

definition repeat_stmt :: "'d penv \<Rightarrow> int \<Rightarrow> ('d, unit) parser" where
  "repeat_stmt E line =
     seqP (genR (\<lambda>fs. Inr (luaK_getlabel fs))) (\<lambda>repeat_init.
     thenP (enterblock True)
     (thenP (enterblock False)
     (thenP (next_token E)
     (thenP (pe_chunk E)
     (thenP (check_match E TOKEN_UNTIL TOKEN_REPEAT line)
     (seqP (cond E) (\<lambda>condexit.
     seqP cur_block (\<lambda>bl2.
     thenP (if \<not> upval bl2 then
           thenP leaveblock
           (patchlist condexit repeat_init)
         else
           thenP (break_stmt E)
           (thenP (patchtohere condexit)
           (thenP leaveblock
           (seqP (genR luaK_jump) (\<lambda>j.
           patchlist j repeat_init)))))
     (leaveblock)))))))))"

definition exp1 :: "'d penv \<Rightarrow> ('d, Expr_Type) parser" where
  "exp1 E =
     seqP (expression E) (\<lambda>e.
     seqP (exp2nextreg e) (\<lambda>e'.
     retP (kind e)))"

definition for_body :: "'d penv \<Rightarrow> int \<Rightarrow> int \<Rightarrow> int \<Rightarrow> bool \<Rightarrow> ('d, unit) parser" where
  "for_body E base line nvars isnum =
     thenP (adjustlocalvars 3)
     (thenP (check_next_token E TOKEN_DO)
     (seqP (if isnum then genR (\<lambda>fs. luaK_codeAsBx fs OP_FORPREP base NO_JUMP) else genR luaK_jump) (\<lambda>prep.
     thenP (enterblock False)
     (thenP (adjustlocalvars (nat nvars))
     (thenP (genU (\<lambda>fs. luaK_reserveregs fs nvars))
     (thenP (block E)
     (thenP leaveblock
     (thenP (patchtohere prep)
     (seqP (if isnum then genR (\<lambda>fs. luaK_codeAsBx fs OP_FORLOOP base NO_JUMP)
                   else codeABC OP_TFORLOOP base 0 nvars) (\<lambda>endfor.
     thenP (genU (\<lambda>fs. luaK_fixline fs line))
     (seqP (if isnum then retP endfor else genR luaK_jump) (\<lambda>j.
     patchlist j (prep + 1)))))))))))))"

definition for_num :: "'d penv \<Rightarrow> string \<Rightarrow> int \<Rightarrow> ('d, unit) parser" where
  "for_num E name line =
     seqP (genG freereg) (\<lambda>base.
     thenP (new_localvarliteral E ''(for index)'' 0)
     (thenP (new_localvarliteral E ''(for limit)'' 1)
     (thenP (new_localvarliteral E ''(for step)'' 2)
     (thenP (new_localvar E name 3)
     (thenP (check_next_token E TOKEN_ASSIGN)
     (thenP (exp1 E)
     (thenP (check_next_token E TOKEN_COMMA)
     (thenP (exp1 E)
     (seqP (test_next E TOKEN_COMMA) (\<lambda>b.
     thenP (if b then seqP (exp1 E) (\<lambda>_. retP ())
         else
           seqP (genR (\<lambda>fs. luaK_numberK fs (cast_num 1))) (\<lambda>k.
           seqP (genG freereg) (\<lambda>fr.
           thenP (genR (\<lambda>fs. luaK_codeABx fs OP_LOADK fr k))
           (genU (\<lambda>fs. luaK_reserveregs fs 1)))))
     (for_body E base line 1 True)))))))))))"

primrec declared_names :: "'d penv \<Rightarrow> nat \<Rightarrow> int \<Rightarrow> ('d, int) parser" where
  "declared_names E 0 nvars = failP OutOfFuel"
| "declared_names E (Suc n) nvars =
     seqP (test_next E TOKEN_COMMA) (\<lambda>b.
     if b then
           seqP (str_checkname E) (\<lambda>name.
           thenP (new_localvar E name nvars)
           (declared_names E n (nvars + 1)))
         else retP nvars)"

definition for_list :: "'d penv \<Rightarrow> string \<Rightarrow> ('d, unit) parser" where
  "for_list E indexname =
     seqP (genG freereg) (\<lambda>base.
     thenP (new_localvarliteral E ''(for generator)'' 0)
     (thenP (new_localvarliteral E ''(for state)'' 1)
     (thenP (new_localvarliteral E ''(for control)'' 2)
     (thenP (new_localvar E indexname 3)
     (seqP (declared_names E (pe_fuel E) 4) (\<lambda>nvars.
     thenP (check_next_token E TOKEN_IN)
     (seqP cur_line (\<lambda>line.
     seqP (explist1 E) (\<lambda>(nexps, e).
     thenP (adjust_assign 3 nexps e)
     (thenP (genU (\<lambda>fs. luaK_checkstack fs 3))
     (for_body E base line (nvars - 3) False)))))))))))"

definition for_stmt :: "'d penv \<Rightarrow> int \<Rightarrow> ('d, unit) parser" where
  "for_stmt E line =
     thenP (enterblock True)
     (thenP (next_token E)
     (seqP (str_checkname E) (\<lambda>name.
     seqP cur_type (\<lambda>t.
     thenP (if t = TOKEN_ASSIGN then for_num E name line
         else if t = TOKEN_COMMA \<or> t = TOKEN_IN then for_list E name
         else syntaxerror E (quoted ''='' @ '' or '' @ quoted ''in'' @ '' expected''))
     (thenP (check_match E TOKEN_END TOKEN_FOR line)
     (leaveblock))))))"

definition test_then_block :: "'d penv \<Rightarrow> ('d, int) parser" where
  "test_then_block E =
     thenP (next_token E)
     (seqP (cond E) (\<lambda>condexit.
     thenP (check_next_token E TOKEN_THEN)
     (thenP (block E)
     (retP condexit))))"

text \<open>A new jump goes on the list of escapes.\<close>

definition add_jump :: "int \<Rightarrow> ('d, int) parser" where
  "add_jump l = seqP (genR luaK_jump) (\<lambda>j. genR (\<lambda>fs. luaK_concat fs l j))"

primrec elseif_loop :: "'d penv \<Rightarrow> nat \<Rightarrow> int \<Rightarrow> int \<Rightarrow> ('d, int \<times> int) parser" where
  "elseif_loop E 0 flist escapelist = failP OutOfFuel"
| "elseif_loop E (Suc n) flist escapelist =
     seqP cur_type (\<lambda>t.
     if t = TOKEN_ELSEIF then
           seqP (add_jump escapelist) (\<lambda>escapelist.
           thenP (patchtohere flist)
           (seqP (test_then_block E) (\<lambda>flist.
           elseif_loop E n flist escapelist)))
         else retP (flist, escapelist))"

definition if_stmt :: "'d penv \<Rightarrow> int \<Rightarrow> ('d, unit) parser" where
  "if_stmt E line =
     seqP (test_then_block E) (\<lambda>flist.
     seqP (elseif_loop E (pe_fuel E) flist NO_JUMP) (\<lambda>(flist, escapelist).
     seqP cur_type (\<lambda>t.
     seqP (if t = TOKEN_ELSE then
                         seqP (add_jump escapelist) (\<lambda>escapelist.
                         thenP (patchtohere flist)
                         (thenP (next_token E)
                         (thenP (block E)
                         (retP escapelist))))
                       else genR (\<lambda>fs. luaK_concat fs escapelist flist)) (\<lambda>escapelist.
     thenP (patchtohere escapelist)
     (check_match E TOKEN_END TOKEN_IF line)))))"

section \<open>Declarations and calls\<close>

definition local_func :: "'d penv \<Rightarrow> ('d, unit) parser" where
  "local_func E =
     seqP (str_checkname E) (\<lambda>name.
     thenP (new_localvar E name 0)
     (seqP (genG freereg) (\<lambda>fr.
     thenP (genU (\<lambda>fs. luaK_reserveregs fs 1))
     (thenP (adjustlocalvars 1)
     (seqP cur_line (\<lambda>line.
     seqP (body E False line) (\<lambda>fbody.
     thenP (storevar (init_exp EXPR_LOCAL fr) fbody)
     (seqP cur (\<lambda>pf.
     seqP (liftP (setlocvar pf (nactvar (pf_fs pf) - 1) (\<lambda>v. v\<lparr>startpc := pc (pf_fs pf)\<rparr>))) (\<lambda>pf.
     put_cur pf))))))))))"

definition local_stmt :: "'d penv \<Rightarrow> ('d, unit) parser" where
  "local_stmt E =
     seqP (str_checkname E) (\<lambda>name.
     thenP (new_localvar E name 0)
     (seqP (declared_names E (pe_fuel E) 1) (\<lambda>nvars.
     seqP (test_next E TOKEN_ASSIGN) (\<lambda>b.
     seqP (if b then explist1 E else retP (0, blank_exp)) (\<lambda>(nexps, exprs).
     thenP (adjust_assign nvars nexps exprs)
     (adjustlocalvars (nat nvars)))))))"

primrec dotted_fields :: "'d penv \<Rightarrow> nat \<Rightarrow> Expr \<Rightarrow> ('d, Expr) parser" where
  "dotted_fields E 0 var = failP OutOfFuel"
| "dotted_fields E (Suc n) var =
     seqP cur_type (\<lambda>t.
     if t = TOKEN_DOT then seqP (field E var) (dotted_fields E n) else retP var)"

definition funcname :: "'d penv \<Rightarrow> ('d, bool \<times> Expr) parser" where
  "funcname E =
     seqP (singlevar E) (\<lambda>var.
     seqP (dotted_fields E (pe_fuel E) var) (\<lambda>var.
     seqP cur_type (\<lambda>t.
     if t = TOKEN_COLON then seqP (field E var) (\<lambda>var. retP (True, var)) else retP (False, var))))"

definition func_stmt :: "'d penv \<Rightarrow> int \<Rightarrow> ('d, unit) parser" where
  "func_stmt E line =
     thenP (next_token E)
     (seqP (funcname E) (\<lambda>(needself, var).
     seqP (body E needself line) (\<lambda>fbody.
     thenP (storevar var fbody)
     (genU (\<lambda>fs. luaK_fixline fs line)))))"

definition expr_stmt :: "'d penv \<Rightarrow> ('d, unit) parser" where
  "expr_stmt E =
     seqP (primaryexp E) (\<lambda>var.
     if kind var = EXPR_CALL then change_code (info var) (\<lambda>ip. SETARG_C ip 1)
         else seqP (assignment E (LUAI_MAXCCALLS + 2) var [] 1) (\<lambda>_. retP ()))"

definition return_values :: "int \<Rightarrow> Expr \<Rightarrow> ('d, int \<times> int) parser" where
  "return_values nret e =
     seqP (genG nactvar) (\<lambda>nact.
     if hasmultret (kind e) then
           thenP (genU (\<lambda>fs. luaK_setmultret fs e))
           (thenP (whenP (kind e = EXPR_CALL \<and> nret = 1)
                 (thenP (change_code (info e) (\<lambda>ip. SET_OPCODE ip (op_num OP_TAILCALL)))
                  (seqP (genR (\<lambda>fs. seqR (getins fs (info e)) (\<lambda>ip. Inr (fs, ip)))) (\<lambda>ip.
                  assertP (GETARG_A ip = nact)))))
           (retP (nact, LUA_MULTRET)))
         else if nret = 1 then seqP (exp2anyreg e) (\<lambda>(e, r). retP (r, nret))
         else
           thenP (exp2nextreg e)
           (seqP (genG freereg) (\<lambda>fr.
           thenP (assertP (nret = fr - nact))
           (retP (nact, nret)))))"

definition return_stmt :: "'d penv \<Rightarrow> ('d, unit) parser" where
  "return_stmt E =
     thenP (next_token E)
     (seqP cur_type (\<lambda>t.
     seqP (if block_follow t \<or> t = TOKEN_SEMI then retP (0, 0)
                          else seqP (explist1 E) (\<lambda>(nret, e). return_values nret e)) (\<lambda>(first, nret).
     genU (\<lambda>fs. luaK_ret fs first nret))))"

section \<open>Statements\<close>

definition statement :: "'d penv \<Rightarrow> ('d, bool) parser" where
  "statement E =
     seqP cur_line (\<lambda>line.
     seqP cur_type (\<lambda>t.
     case t of
           TOKEN_IF \<Rightarrow> thenP (if_stmt E line) (retP False)
         | TOKEN_WHILE \<Rightarrow> thenP (while_stmt E line) (retP False)
         | TOKEN_DO \<Rightarrow>
             thenP (next_token E)
             (thenP (block E)
             (thenP (check_match E TOKEN_END TOKEN_DO line)
             (retP False)))
         | TOKEN_FOR \<Rightarrow> thenP (for_stmt E line) (retP False)
         | TOKEN_REPEAT \<Rightarrow> thenP (repeat_stmt E line) (retP False)
         | TOKEN_FUNCTION \<Rightarrow> thenP (func_stmt E line) (retP False)
         | TOKEN_LOCAL \<Rightarrow>
             thenP (next_token E)
             (seqP (test_next E TOKEN_FUNCTION) (\<lambda>b.
             thenP (if b then local_func E else local_stmt E)
             (retP False)))
         | TOKEN_RETURN \<Rightarrow> thenP (return_stmt E) (retP True)
         | TOKEN_BREAK \<Rightarrow>
             thenP (next_token E)
             (thenP (break_stmt E)
             (retP True))
         | _ \<Rightarrow> thenP (expr_stmt E) (retP False)))"

primrec chunk_loop :: "'d penv \<Rightarrow> nat \<Rightarrow> ('d, unit) parser" where
  "chunk_loop E 0 = failP OutOfFuel"
| "chunk_loop E (Suc n) =
     seqP cur_type (\<lambda>t.
     whenP (\<not> block_follow t)
           (seqP (statement E) (\<lambda>is_last.
            seqP (test_next E TOKEN_SEMI) (\<lambda>b.
            seqP (genG id) (\<lambda>fs.
            thenP (assertP (maxstacksize fs \<ge> freereg fs \<and> freereg fs \<ge> nactvar fs))
            (thenP (set_freereg (nactvar fs))
            (whenP (\<not> is_last) (chunk_loop E n))))))))"

definition chunk :: "'d penv \<Rightarrow> ('d, unit) parser" where
  "chunk E =
     thenP (enterlevel E)
     (thenP (chunk_loop E (pe_fuel E))
     (leavelevel))"

section \<open>The parser\<close>

text \<open>The rules with the recursion \<open>n\<close> levels deep.\<close>

primrec rules :: "'d penv \<Rightarrow> nat \<Rightarrow> 'd penv" where
  "rules E 0 = E\<lparr>pe_chunk := failP OutOfFuel, pe_subexpr := \<lambda>_. failP OutOfFuel\<rparr>"
| "rules E (Suc n) = (let R = rules E n in E\<lparr>pe_chunk := chunk R, pe_subexpr := subexpr R\<rparr>)"

definition main_func :: "'d penv \<Rightarrow> ('d, Proto) parser" where
  "main_func E =
     thenP open_func
     (seqP cur (\<lambda>pf.
     thenP (put_cur (pf\<lparr>pf_is_vararg := VARARG_ISVARARG\<rparr>))
     (thenP (next_token E)
     (thenP (chunk E)
     (thenP (check E TOKEN_EOS)
     (seqP close_func (\<lambda>(pf, p).
     seqP (getP ps_funcs) (\<lambda>prev.
     thenP (assertP (prev = []))
     (thenP (assertP (p_nups p = 0))
     (retP p))))))))))"

definition luaY_parser :: "'d penv \<Rightarrow> global_State \<Rightarrow> nat \<Rightarrow> 'd ZIO \<Rightarrow> Mbuffer \<Rightarrow> string \<Rightarrow> (Proto \<times> 'd PS) result" where
  "luaY_parser E g nCcalls z buff name =
     seqR (luaX_setinput (pe_lex E) z buff name) (\<lambda>ls.
     seqR (luaS_newlstr name g) (\<lambda>(g, _).
     main_func (rules E LUAI_MAXCCALLS) \<lparr>ps_lex = ls, ps_funcs = [], ps_G = g, ps_nCcalls = int nCcalls\<rparr>))"

end
