(* ===== verification/ScopeSpec.thy ===== *)
theory ScopeSpec
  imports Stat
begin

text \<open>
  Names and scopes: what a name means by the rules of the language, and that \<open>singlevaraux\<close> finds it.
\<close>

section \<open>The meaning of a name\<close>

text \<open>The name of a register of a function, and the youngest active variable of a name.\<close>

definition local_named :: "PFunc \<Rightarrow> int \<Rightarrow> string \<Rightarrow> bool" where
  "local_named pf r n \<longleftrightarrow> (case getlocvar pf r of Inr v \<Rightarrow> varname v = tstr n | Inl _ \<Rightarrow> False)"

definition binding :: "PFunc \<Rightarrow> string \<Rightarrow> int option" where
  "binding pf n =
     (let rs = filter (\<lambda>i. local_named pf (int i) n) [0..<nat (nactvar (pf_fs pf))] in
      if rs = [] then None else Some (int (last rs)))"

text \<open>The variable a name refers to: how many functions out and which register; \<open>None\<close> for a global.\<close>

fun resolve :: "PFunc list \<Rightarrow> string \<Rightarrow> (nat \<times> int) option" where
  "resolve [] n = None"
| "resolve (pf # prev) n =
     (case binding pf n of
        Some r \<Rightarrow> Some (0, r)
      | None \<Rightarrow> map_option (\<lambda>(d, r). (Suc d, r)) (resolve prev n))"

text \<open>The variable an upvalue stands for, by the instructions that will capture it.\<close>

fun upval_target :: "PFunc list \<Rightarrow> nat \<Rightarrow> (nat \<times> int) option" where
  "upval_target [] i = None"
| "upval_target (pf # prev) i =
     (let d = pf_upvaldesc pf ! i in
      if uvd_k d = EXPR_LOCAL then Some (1, uvd_info d)
      else map_option (\<lambda>(d, r). (Suc d, r)) (upval_target prev (nat (uvd_info d))))"

definition denotes :: "PFunc list \<Rightarrow> Expr \<Rightarrow> (nat \<times> int) option" where
  "denotes funcs e =
     (if kind e = EXPR_LOCAL then Some (0, info e)
      else if kind e = EXPR_UPVALUE then upval_target funcs (nat (info e)) else None)"

section \<open>The invariant\<close>

definition vars_ok :: "PFunc \<Rightarrow> bool" where
  "vars_ok pf \<longleftrightarrow> 0 \<le> nactvar (pf_fs pf) \<and> nactvar (pf_fs pf) \<le> LUAI_MAXVARS \<and>
     nat (nactvar (pf_fs pf)) \<le> length (pf_actvar pf) \<and>
     (\<forall>i < nat (nactvar (pf_fs pf)). pf_actvar pf ! i < length (pf_locvars pf))"

text \<open>An upvalue is a variable, or an upvalue, of its name in the enclosing function.\<close>

definition desc_ok :: "PFunc list \<Rightarrow> UpValDesc \<Rightarrow> string \<Rightarrow> bool" where
  "desc_ok prev d n \<longleftrightarrow>
     (case prev of [] \<Rightarrow> False
      | q # _ \<Rightarrow>
          uvd_k d = EXPR_LOCAL \<and> local_named q (uvd_info d) n \<or>
          uvd_k d = EXPR_UPVALUE \<and> 0 \<le> uvd_info d \<and> nat (uvd_info d) < length (pf_upvalues q) \<and>
            pf_upvalues q ! nat (uvd_info d) = n)"

definition upvals_named :: "PFunc list \<Rightarrow> PFunc \<Rightarrow> bool" where
  "upvals_named prev pf \<longleftrightarrow> length (pf_upvalues pf) = length (pf_upvaldesc pf) \<and>
     int (length (pf_upvaldesc pf)) \<le> LUAI_MAXUPVALUES \<and> pf_size_upvalues pf \<le> 128 \<and>
     (\<forall>i < length (pf_upvaldesc pf). desc_ok prev (pf_upvaldesc pf ! i) (pf_upvalues pf ! i))"

fun scopes_ok :: "PFunc list \<Rightarrow> bool" where
  "scopes_ok [] \<longleftrightarrow> True"
| "scopes_ok (pf # prev) \<longleftrightarrow> vars_ok pf \<and> upvals_named prev pf \<and> scopes_ok prev"

section \<open>Searching one function\<close>

lemma getlocvar_active:
  assumes "vars_ok pf" "i < nat (nactvar (pf_fs pf))"
  shows "\<exists>v. getlocvar pf (int i) = Inr v"
  using assms by (auto simp: vars_ok_def getlocvar_def)

lemma searchvar_loop_spec:
  assumes "vars_ok pf" "k \<le> nat (nactvar (pf_fs pf))"
  shows "searchvar_loop pf n k =
    Inr (let rs = filter (\<lambda>i. local_named pf (int i) n) [0..<k] in if rs = [] then -1 else int (last rs))"
  using assms(2)
proof (induction k)
  case (Suc k)
  obtain v where v: "getlocvar pf (int k) = Inr v" using getlocvar_active [OF assms(1), of k] Suc.prems by auto
  show ?case
  proof (cases "varname v = tstr n")
    case True
    then have "local_named pf (int k) n" using v by (simp add: local_named_def)
    then show ?thesis using v True by (simp add: Let_def)
  next
    case False
    then have "\<not> local_named pf (int k) n" using v by (simp add: local_named_def)
    then show ?thesis using v False Suc by simp
  qed
qed simp

lemma searchvar_spec:
  assumes "vars_ok pf"
  shows "searchvar pf n = Inr (case binding pf n of Some r \<Rightarrow> r | None \<Rightarrow> -1)"
  using searchvar_loop_spec [OF assms, of "nat (nactvar (pf_fs pf))" n]
  by (simp add: searchvar_def binding_def Let_def)

lemma binding_named:
  assumes "binding pf n = Some r"
  shows "local_named pf r n" "0 \<le> r" "r < nactvar (pf_fs pf)"
proof -
  let ?rs = "filter (\<lambda>i. local_named pf (int i) n) [0..<nat (nactvar (pf_fs pf))]"
  have r: "?rs \<noteq> []" "r = int (last ?rs)" using assms by (auto simp: binding_def Let_def split: if_splits)
  have "last ?rs \<in> set ?rs" using r(1) by (rule last_in_set)
  then show "local_named pf r n" "0 \<le> r" "r < nactvar (pf_fs pf)" using r(2) by auto
qed

lemma find_upvalue_spec:
  "case find_upvalue ds var i of
     Some j \<Rightarrow> i \<le> j \<and> j < i + length ds \<and> uvd_k (ds ! (j - i)) = kind var \<and> uvd_info (ds ! (j - i)) = info var
   | None \<Rightarrow> \<forall>d \<in> set ds. \<not> (uvd_k d = kind var \<and> uvd_info d = info var)"
proof (induction ds arbitrary: i)
  case (Cons d ds)
  show ?case
  proof (cases "uvd_k d = kind var \<and> uvd_info d = info var")
    case False
    then show ?thesis using Cons.IH [of "Suc i"] by (auto split: option.splits simp: nth_Cons')
  qed simp
qed simp

section \<open>Upvalues\<close>

lemma tstr_inj: "tstr m = tstr n \<Longrightarrow> m = n"
proof -
  have u: "unat (of_char c :: u8) = (of_char c :: nat)" for c :: char
    by (subst of_nat_of_char [symmetric]) (simp add: unat_of_nat take_bit_eq_mod nat_of_char_less_256)
  have "inj (of_char :: char \<Rightarrow> u8)"
  proof (rule injI)
    fix c d :: char assume "(of_char c :: u8) = of_char d"
    then have "(of_char c :: nat) = of_char d" using u by metis
    then show "c = d" by simp
  qed
  then show "tstr m = tstr n \<Longrightarrow> m = n" by (simp add: tstr_def inj_map_eq_map)
qed

text \<open>What looking up a name may change: blocks are marked, upvalues are added at the end.\<close>

definition extended :: "PFunc \<Rightarrow> PFunc \<Rightarrow> bool" where
  "extended pf pf' \<longleftrightarrow> (\<exists>bl sz ns ds. pf' = pf\<lparr>pf_bl := bl, pf_size_upvalues := sz,
     pf_upvalues := pf_upvalues pf @ ns, pf_upvaldesc := pf_upvaldesc pf @ ds\<rparr>)"

lemma extendedI:
  "pf' = pf\<lparr>pf_bl := bl, pf_size_upvalues := sz, pf_upvalues := pf_upvalues pf @ ns, pf_upvaldesc := pf_upvaldesc pf @ ds\<rparr>
    \<Longrightarrow> extended pf pf'"
  unfolding extended_def by blast

lemma extended_refl: "extended pf pf"
  by (rule extendedI [where ns = "[]" and ds = "[]" and bl = "pf_bl pf" and sz = "pf_size_upvalues pf"]) simp

lemma extended_mark: "extended pf (markupval pf v)"
  by (rule extendedI [where ns = "[]" and ds = "[]" and bl = "mark_block (pf_bl pf) v" and sz = "pf_size_upvalues pf"])
    (simp add: markupval_def)

lemma local_named_extended: "extended pf pf' \<Longrightarrow> local_named pf' r n = local_named pf r n"
  by (auto simp: extended_def local_named_def getlocvar_def)

lemma binding_extended: "extended pf pf' \<Longrightarrow> binding pf' n = binding pf n"
  by (auto simp: binding_def local_named_extended extended_def local_named_def getlocvar_def)

lemma vars_ok_extended: "extended pf pf' \<Longrightarrow> vars_ok pf' = vars_ok pf"
  by (auto simp: extended_def vars_ok_def)

lemma desc_ok_extended:
  assumes "desc_ok prev d n" "list_all2 extended prev prev'"
  shows "desc_ok prev' d n"
proof (cases prev)
  case (Cons q qs)
  then obtain q' qs' where q': "prev' = q' # qs'" "extended q q'" using assms(2) by (auto simp: list_all2_Cons1)
  then obtain ns where "pf_upvalues q' = pf_upvalues q @ ns" by (auto simp: extended_def)
  then show ?thesis using assms(1) Cons q' by (auto simp: desc_ok_def local_named_extended nth_append)
qed (use assms in \<open>simp add: desc_ok_def\<close>)

lemma upvals_named_extended:
  "upvals_named prev pf \<Longrightarrow> list_all2 extended prev prev' \<Longrightarrow> upvals_named prev' pf"
  by (auto simp: upvals_named_def intro: desc_ok_extended)

lemma desc_unique: "desc_ok prev d m \<Longrightarrow> desc_ok prev d n \<Longrightarrow> m = n"
  by (auto simp: desc_ok_def local_named_def split: list.splits sum.splits dest: tstr_inj)

lemma lexerror_fails: "\<exists>e. luaX_lexerror E ls msg t = Inl e"
  by (cases "txtToken E ls t") (auto simp: luaX_lexerror_def)

lemma indexupvalue_ok:
  assumes ok: "upvals_named prev pf" and var: "desc_ok prev \<lparr>uvd_k = kind var, uvd_info = info var\<rparr> n"
    and fits: "info var < 256" "0 \<le> info var"
  shows "case indexupvalue E ls pf n var of
      Inl e \<Rightarrow> int (length (pf_upvaldesc pf)) = LUAI_MAXUPVALUES
    | Inr (pf', i) \<Rightarrow> extended pf pf' \<and> upvals_named prev pf' \<and> 0 \<le> i \<and> nat i < length (pf_upvaldesc pf') \<and>
        pf_upvaldesc pf' ! nat i = \<lparr>uvd_k = kind var, uvd_info = info var\<rparr> \<and> pf_upvalues pf' ! nat i = n"
proof (cases "find_upvalue (pf_upvaldesc pf) var 0")
  case (Some j)
  then have j: "j < length (pf_upvaldesc pf)" "uvd_k (pf_upvaldesc pf ! j) = kind var" "uvd_info (pf_upvaldesc pf ! j) = info var"
    using find_upvalue_spec [of "pf_upvaldesc pf" var 0] by auto
  then have d: "pf_upvaldesc pf ! j = \<lparr>uvd_k = kind var, uvd_info = info var\<rparr>" by simp
  have "desc_ok prev (pf_upvaldesc pf ! j) (pf_upvalues pf ! j)" using ok j(1) by (simp add: upvals_named_def)
  then have "pf_upvalues pf ! j = n" using desc_unique var d by metis
  then show ?thesis using Some ok j d by (simp add: indexupvalue_def extended_refl)
next
  case None
  let ?n = "length (pf_upvaldesc pf)"
  have len: "length (pf_upvalues pf) = ?n" "int ?n \<le> LUAI_MAXUPVALUES" "pf_size_upvalues pf \<le> 128"
    using ok by (auto simp: upvals_named_def)
  show ?thesis
  proof (cases "int ?n = LUAI_MAXUPVALUES")
    case True
    then obtain e where "luaY_checklimit E ls pf (int ?n + 1) LUAI_MAXUPVALUES ''upvalues'' = Inl e"
      using True lexerror_fails [of E ls "limit_text E pf LUAI_MAXUPVALUES ''upvalues''" TOKEN_ERROR]
      by (auto simp: luaY_checklimit_def error_limit_def)
    then show ?thesis using None True by (simp add: indexupvalue_def)
  next
    case False
    then have n: "int ?n < 60" using len(2) by (simp add: LUAI_MAXUPVALUES_def)
    have lim: "luaY_checklimit E ls pf (int ?n + 1) LUAI_MAXUPVALUES ''upvalues'' = Inr ()"
      using n by (simp add: luaY_checklimit_def LUAI_MAXUPVALUES_def)
    obtain sz where sz: "luaM_growvector (int ?n) (pf_size_upvalues pf) MAX_INT [] = Inr sz" "sz \<le> 128"
      using n len(3)
      by (cases "pf_size_upvalues pf \<le> int ?n") (auto simp: luaM_growvector_def luaM_growaux_def MINSIZEARRAY_def Let_def)
    have k: "kind var = EXPR_LOCAL \<or> kind var = EXPR_UPVALUE"
      using var by (auto simp: desc_ok_def split: list.splits)
    let ?d = "\<lparr>uvd_k = kind var, uvd_info = info var\<rparr>"
    let ?pf = "pf\<lparr>pf_size_upvalues := sz, pf_upvalues := pf_upvalues pf @ [n], pf_upvaldesc := pf_upvaldesc pf @ [?d]\<rparr>"
    have "indexupvalue E ls pf n var = Inr (?pf, int ?n)"
      using None lim sz(1) k fits by (auto simp: indexupvalue_def Let_def)
    moreover have "extended pf ?pf" by (rule extendedI [where bl = "pf_bl pf" and sz = sz]) simp
    moreover have "upvals_named prev ?pf"
      using ok var n sz(2) len(1) by (auto simp: upvals_named_def nth_append LUAI_MAXUPVALUES_def less_Suc_eq)
    ultimately show ?thesis using len(1) by (simp add: nth_append)
  qed
qed

section \<open>Looking up a name\<close>

definition marked :: "PFunc \<Rightarrow> int \<Rightarrow> bool" where
  "marked pf r \<longleftrightarrow> (case dropWhile (\<lambda>b. bl_nactvar b > r) (pf_bl pf) of [] \<Rightarrow> True | b # _ \<Rightarrow> upval b)"

lemma markupval_marks: "marked (markupval pf r) r"
proof -
  have "(case dropWhile (\<lambda>b. bl_nactvar b > r) (mark_block bs r) of [] \<Rightarrow> True | b # _ \<Rightarrow> upval b)" for bs
    by (induction bs) auto
  then show ?thesis by (simp add: marked_def markupval_def)
qed

text \<open>What a lookup gives: a global, or a variable or upvalue of the innermost function.\<close>

definition found :: "PFunc list \<Rightarrow> string \<Rightarrow> Expr \<Rightarrow> bool" where
  "found funcs n var \<longleftrightarrow>
     kind var = EXPR_GLOBAL \<or> desc_ok funcs \<lparr>uvd_k = kind var, uvd_info = info var\<rparr> n \<and> 0 \<le> info var \<and> info var < 256"

lemma found_upvalue:
  assumes "scopes_ok (pf # prev)" "0 \<le> i" "nat i < length (pf_upvaldesc pf)" "pf_upvalues pf ! nat i = n"
  shows "found (pf # prev) n (var\<lparr>info := i, kind := EXPR_UPVALUE\<rparr>)"
  using assms by (auto simp: found_def desc_ok_def upvals_named_def LUAI_MAXUPVALUES_def)

lemma desc_ok_kind: "desc_ok prev d n \<Longrightarrow> uvd_k d = EXPR_LOCAL \<or> uvd_k d = EXPR_UPVALUE"
  by (auto simp: desc_ok_def split: list.splits)

lemma singlevaraux_ok:
  assumes "scopes_ok funcs"
  shows "case singlevaraux E ls funcs n base of
      Inl e \<Rightarrow> \<exists>pf \<in> set funcs. int (length (pf_upvaldesc pf)) = LUAI_MAXUPVALUES
    | Inr (funcs', var) \<Rightarrow> scopes_ok funcs' \<and> list_all2 extended funcs funcs' \<and> found funcs' n var \<and>
        denotes funcs' var = resolve funcs n \<and> (kind var = EXPR_GLOBAL \<longleftrightarrow> resolve funcs n = None) \<and>
        (\<forall>d r. resolve funcs n = Some (d, r) \<and> (d > 0 \<or> \<not> base) \<longrightarrow> marked (funcs' ! d) r)"
  using assms
proof (induction funcs arbitrary: base)
  case Nil
  then show ?case by (simp add: init_exp_def expr_init_info_def found_def denotes_def)
next
  case (Cons pf prev)
  have ok: "vars_ok pf" "upvals_named prev pf" "scopes_ok prev" using Cons.prems by auto
  have refl: "list_all2 extended prev prev" by (simp add: list_all2_same extended_refl)
  show ?case
  proof (cases "binding pf n")
    case (Some r)
    note b = binding_named [OF Some]
    have v: "searchvar pf n = Inr r" using searchvar_spec [OF ok(1), of n] Some by simp
    let ?pf = "if base then pf else markupval pf r"
    have e: "extended pf ?pf" by (simp add: extended_refl extended_mark)
    have "scopes_ok (?pf # prev)"
      using ok e by (auto simp: vars_ok_extended upvals_named_def markupval_def)
    moreover have "r < 256" using b(3) ok(1) by (simp add: vars_ok_def LUAI_MAXVARS_def)
    moreover have "local_named ?pf r n" using b(1) e by (simp add: local_named_extended)
    ultimately show ?thesis
      using v b(2) Some e refl markupval_marks [of pf r]
      by (auto simp: init_exp_def expr_init_info_def found_def desc_ok_def denotes_def)
  next
    case None
    have v: "searchvar pf n = Inr (-1)" using searchvar_spec [OF ok(1), of n] None by simp
    note IH = Cons.IH [OF ok(3), of False]
    show ?thesis
    proof (cases "singlevaraux E ls prev n False")
      case (Inl e)
      then show ?thesis using IH v by (auto simp: None)
    next
      case (Inr p)
      obtain prev' var where p: "p = (prev', var)" by (cases p)
      have I: "scopes_ok prev'" "list_all2 extended prev prev'" "found prev' n var" "denotes prev' var = resolve prev n"
        "kind var = EXPR_GLOBAL \<longleftrightarrow> resolve prev n = None"
        "\<forall>d r. resolve prev n = Some (d, r) \<longrightarrow> marked (prev' ! d) r"
        using IH Inr p by auto
      have named: "upvals_named prev' pf" by (rule upvals_named_extended [OF ok(2) I(2)])
      show ?thesis
      proof (cases "kind var = EXPR_GLOBAL")
        case True
        then show ?thesis
          using v Inr p I ok named None by (auto simp: extended_refl found_def denotes_def)
      next
        case False
        then have f: "desc_ok prev' \<lparr>uvd_k = kind var, uvd_info = info var\<rparr> n" "0 \<le> info var" "info var < 256"
          using I(3) by (auto simp: found_def)
        note idx = indexupvalue_ok [OF named f(1) f(3) f(2), of E ls]
        show ?thesis
        proof (cases "indexupvalue E ls pf n var")
          case (Inl e)
          then show ?thesis using idx v Inr p False by simp
        next
          case (Inr q)
          obtain pf' i where q: "q = (pf', i)" by (cases q)
          have J: "extended pf pf'" "upvals_named prev' pf'" "0 \<le> i" "nat i < length (pf_upvaldesc pf')"
            "pf_upvaldesc pf' ! nat i = \<lparr>uvd_k = kind var, uvd_info = info var\<rparr>" "pf_upvalues pf' ! nat i = n"
            using idx Inr q by auto
          let ?var = "var\<lparr>info := i, kind := EXPR_UPVALUE\<rparr>"
          have res: "singlevaraux E ls (pf # prev) n base = Inr (pf' # prev', ?var)"
            using v \<open>singlevaraux E ls prev n False = Inr p\<close> p False Inr q by simp
          have sc: "scopes_ok (pf' # prev')" using ok J(1,2) I(1) by (simp add: vars_ok_extended)
          have "denotes (pf' # prev') ?var = map_option (\<lambda>(d, r). (Suc d, r)) (denotes prev' var)"
            using J(5) desc_ok_kind [OF f(1)] by (auto simp: denotes_def Let_def)
          then have "denotes (pf' # prev') ?var = resolve (pf # prev) n" using I(4) None by simp
          moreover have "resolve (pf # prev) n \<noteq> None" using I(5) False None by simp
          moreover have "marked ((pf' # prev') ! d) r" if "resolve (pf # prev) n = Some (d, r)" for d r
            using that I(6) None by (auto split: option.splits)
          ultimately show ?thesis
            using res sc J(1) I(2) found_upvalue [OF sc J(3,4,6)] by simp
        qed
      qed
    qed
  qed
qed

text \<open>C35: a name in the source is the variable the scoping rules say, that is the youngest active local of its
  name in the innermost function that has one, or a global. It becomes a register, an upvalue that is
  captured from exactly that variable through the functions between, or a global; a local that is
  captured has its block marked, so that leaving it closes the upvalue. Only a function with
  \<open>LUAI_MAXUPVALUES\<close> upvalues makes it fail.\<close>

theorem singlevaraux_resolves:
  assumes "scopes_ok funcs"
  shows "case singlevaraux E ls funcs n base of
      Inl e \<Rightarrow> \<exists>pf \<in> set funcs. int (length (pf_upvaldesc pf)) = LUAI_MAXUPVALUES
    | Inr (funcs', var) \<Rightarrow> scopes_ok funcs' \<and> list_all2 extended funcs funcs' \<and> found funcs' n var \<and>
        denotes funcs' var = resolve funcs n \<and> (kind var = EXPR_GLOBAL \<longleftrightarrow> resolve funcs n = None) \<and>
        (\<forall>d r. resolve funcs n = Some (d, r) \<and> (d > 0 \<or> \<not> base) \<longrightarrow> marked (funcs' ! d) r)"
  by (rule singlevaraux_ok [OF assms])

definition blank_func :: PFunc where
  "blank_func = \<lparr>pf_fs = \<lparr>code = [], size_code = 0, lineinfo = [], size_lineinfo = 0, constants = [], maxstacksize = 2,
       fs_h = \<lparr>flags = 0, lsizenode = 0, metatable = None, array = [], node = [], lastfree = 0, isdummy = True\<rparr>,
       h_addr = 0, strhash = (\<lambda>_. 0), lastline = 0, pc = 0,
       lasttarget = -1, jpc = NO_JUMP, freereg = 0, nconstants = 0, nactvar = 0\<rparr>,
     pf_source = [], pf_linedefined = 0, pf_lastlinedefined = 0, pf_is_vararg = 0,
     pf_numparams = 0, pf_children = [], pf_size_children = 0, pf_locvars = [], pf_size_locvars = 0,
     pf_upvalues = [], pf_size_upvalues = 0, pf_upvaldesc = [], pf_actvar = [], pf_bl = []\<rparr>"

text \<open>\<open>local x; do function f () ... x ... end end\<close>\<close>

definition outer_func :: PFunc where
  "outer_func = blank_func\<lparr>pf_fs := (pf_fs blank_func)\<lparr>nactvar := 1\<rparr>, pf_actvar := [0],
     pf_locvars := [\<lparr>varname = tstr ''x'', startpc = 0, endpc = 0\<rparr>],
     pf_bl := [\<lparr>breaklist = -1, bl_nactvar = 1, upval = False, isbreakable = False\<rparr>,
       \<lparr>breaklist = -1, bl_nactvar = 0, upval = False, isbreakable = False\<rparr>]\<rparr>"

lemma nested_funcs:
  "scopes_ok [blank_func, outer_func]" "resolve [blank_func, outer_func] ''x'' = Some (1, 0)"
  by (simp_all add: vars_ok_def upvals_named_def blank_func_def outer_func_def LUAI_MAXVARS_def LUAI_MAXUPVALUES_def
      binding_def local_named_def getlocvar_def Let_def)

theorem singlevaraux_resolves_witness:
  "\<forall>(E :: unit lexenv) ls. \<exists>f g var. singlevaraux E ls [blank_func, outer_func] ''x'' True = Inr ([f, g], var) \<and>
     kind var = EXPR_UPVALUE \<and> pf_upvaldesc f ! nat (info var) = \<lparr>uvd_k = EXPR_LOCAL, uvd_info = 0\<rparr> \<and> marked g 0"
proof (intro allI)
  fix E :: "unit lexenv" and ls
  have s: "searchvar blank_func ''x'' = Inr (-1)" "searchvar outer_func ''x'' = Inr 0"
    by (simp_all add: searchvar_def blank_func_def outer_func_def getlocvar_def)
  obtain f g var where r: "singlevaraux E ls [blank_func, outer_func] ''x'' True = Inr ([f, g], var)" "kind var = EXPR_UPVALUE"
    "pf_upvaldesc f ! nat (info var) = \<lparr>uvd_k = EXPR_LOCAL, uvd_info = 0\<rparr>"
    using s by (auto simp: indexupvalue_def luaY_checklimit_def luaM_growvector_def luaM_growaux_def MINSIZEARRAY_def
        blank_func_def LUAI_MAXUPVALUES_def init_exp_def expr_init_info_def Let_def)
  have "marked ([f, g] ! 1) 0"
    using singlevaraux_resolves [OF nested_funcs(1), where E = E and ls = ls and n = "''x''" and base = True] r(1) nested_funcs(2) by simp
  with r show "\<exists>f g var. singlevaraux E ls [blank_func, outer_func] ''x'' True = Inr ([f, g], var) \<and>
     kind var = EXPR_UPVALUE \<and> pf_upvaldesc f ! nat (info var) = \<lparr>uvd_k = EXPR_LOCAL, uvd_info = 0\<rparr> \<and> marked g 0" by auto
qed

end
