(* ===== verification/NestSpec.thy ===== *)
theory NestSpec
  imports Stat
begin

text \<open>
  The depth of the parser's recursion: the rules count the levels they are nested in \<open>nCcalls\<close>, give
  the count back, and stop at \<open>LUAI_MAXCCALLS\<close>, so that the depth the model allows is never used up.
\<close>

section \<open>Steps that agree\<close>

text \<open>Two steps agree from depth \<open>k\<close> on: the same outcome, with the depth as it was.\<close>

definition agree :: "int \<Rightarrow> ('d, 'a) parser \<Rightarrow> ('d, 'a) parser \<Rightarrow> bool" where
  "agree k m m' \<longleftrightarrow> (\<forall>s. k \<le> ps_nCcalls s \<longrightarrow>
     m s = m' s \<and> (\<forall>x s'. m s = Inr (x, s') \<longrightarrow> ps_nCcalls s' = ps_nCcalls s))"

lemma agreeD:
  "agree k m m' \<Longrightarrow> k \<le> ps_nCcalls s \<Longrightarrow> m s = m' s"
  "agree k m m' \<Longrightarrow> k \<le> ps_nCcalls s \<Longrightarrow> m s = Inr (x, t) \<Longrightarrow> ps_nCcalls t = ps_nCcalls s"
  unfolding agree_def by blast+

named_theorems agree_rules \<open>steps that agree\<close>

lemma agree_seqP [agree_rules]:
  fixes m :: "('d, 'a) parser"
  assumes "agree k m m'" "\<And>x. agree k (f x) (f' x)"
  shows "agree k (seqP m f) (seqP m' f')"
proof -
  have *: "seqP m f s = seqP m' f' s \<and> (\<forall>y s'. seqP m f s = Inr (y, s') \<longrightarrow> ps_nCcalls s' = ps_nCcalls s)"
    if k: "k \<le> ps_nCcalls s" for s :: "'d PS"
  proof -
    have m: "m s = m' s" "\<And>x t. m s = Inr (x, t) \<Longrightarrow> ps_nCcalls t = ps_nCcalls s"
      by (rule agreeD(1) [OF assms(1) k], rule agreeD(2) [OF assms(1) k])
    show ?thesis
    proof (cases "m s")
      case (Inl e)
      then show ?thesis using m(1) by (simp add: seqP_def)
    next
      case (Inr p)
      obtain x t where p: "p = (x, t)" by (cases p)
      have t: "ps_nCcalls t = ps_nCcalls s" using m(2) Inr p by simp
      have e: "f x t = f' x t" by (rule agreeD(1) [OF assms(2)]) (use k t in simp)
      have c: "ps_nCcalls s' = ps_nCcalls t" if "f x t = Inr (y, s')" for y s'
        by (rule agreeD(2) [OF assms(2) _ that]) (use k t in simp)
      have "m' s = Inr (x, t)" using m(1) Inr p by simp
      then have "seqP m f s = f x t" "seqP m' f' s = f' x t" using Inr p by (simp_all add: seqP_def)
      then show ?thesis using e c t by presburger
    qed
  qed
  then show ?thesis unfolding agree_def by blast
qed

lemma agree_thenP [agree_rules]: "agree k m m' \<Longrightarrow> agree k n n' \<Longrightarrow> agree k (thenP m n) (thenP m' n')"
  unfolding thenP_def by (rule agree_seqP)

lemma agree_basic [agree_rules]:
  "agree k (retP x) (retP x)" "agree k (getP g) (getP g)" "agree k (liftP r) (liftP r)" "agree k (failP e) (failP e)"
  "agree k (assertP b) (assertP b)" "agree k cur cur" "agree k (put_cur pf) (put_cur pf)"
  by (auto simp: agree_def parser_defs cur_def put_cur_def seqR_Inr split: list.splits)

lemma agree_whenP [agree_rules]: "agree k m m' \<Longrightarrow> agree k (whenP b m) (whenP b m')"
  by (simp add: whenP_def agree_basic)

lemma agree_if [agree_rules]:
  "(b \<Longrightarrow> agree k m m') \<Longrightarrow> (\<not> b \<Longrightarrow> agree k n n') \<Longrightarrow> agree k (if b then m else n) (if b then m' else n')"
  by simp

lemma agree_modP: "(\<And>s. ps_nCcalls (h s) = ps_nCcalls s) \<Longrightarrow> agree k (modP h) (modP h)"
  by (simp add: agree_def modP_def)

lemma agree_prod [agree_rules]: "(\<And>x y. agree k (f x y) (g x y)) \<Longrightarrow> agree k (case p of (x, y) \<Rightarrow> f x y) (case p of (x, y) \<Rightarrow> g x y)"
  by (cases p) simp

lemma agree_option [agree_rules]:
  "agree k m m' \<Longrightarrow> (\<And>x. agree k (f x) (f' x)) \<Longrightarrow>
    agree k (case v of None \<Rightarrow> m | Some x \<Rightarrow> f x) (case v of None \<Rightarrow> m' | Some x \<Rightarrow> f' x)"
  by (cases v) simp_all

lemma agree_seminfo [agree_rules]:
  "agree k m m' \<Longrightarrow> (\<And>x. agree k (f x) (f' x)) \<Longrightarrow> (\<And>x. agree k (g x) (g' x)) \<Longrightarrow>
    agree k (case v of NoSem \<Rightarrow> m | SemNumber x \<Rightarrow> f x | SemString x \<Rightarrow> g x)
      (case v of NoSem \<Rightarrow> m' | SemNumber x \<Rightarrow> f' x | SemString x \<Rightarrow> g' x)"
  by (cases v) simp_all

lemma agree_list [agree_rules]:
  "agree k m m' \<Longrightarrow> (\<And>x y. agree k (f x y) (f' x y)) \<Longrightarrow>
    agree k (case v of [] \<Rightarrow> m | x # y \<Rightarrow> f x y) (case v of [] \<Rightarrow> m' | x # y \<Rightarrow> f' x y)"
  by (cases v) simp_all

lemma agree_let [agree_rules]: "agree k (f x) (f' x) \<Longrightarrow> agree k (Let x f) (Let x f')"
  by simp

lemma agree_gen [agree_rules]: "agree k (genR f) (genR f)" "agree k (genU g) (genU g)" "agree k (genG h) (genG h)"
  by (auto simp: genR_def genU_def genG_def intro!: agree_rules)

section \<open>Steps below the grammar\<close>

lemma agree_newstring [agree_rules]:
  "agree k (luaX_newstring s) (luaX_newstring s)" "agree k (anchor_read t) (anchor_read t)"
  "agree k (put_lex ls) (put_lex ls)" "agree k cur_type cur_type" "agree k cur_line cur_line"
  "agree k anchor_token anchor_token" "agree k (string_constant s) (string_constant s)"
  "agree k (codestring s) (codestring s)"
  by (auto simp: luaX_newstring_def anchor_read_def put_lex_def cur_type_def cur_line_def anchor_token_def
      string_constant_def codestring_def intro!: agree_rules agree_modP)

text \<open>The environments differ in the rules that are called back only.\<close>

definition related :: "int \<Rightarrow> 'd penv \<Rightarrow> 'd penv \<Rightarrow> bool" where
  "related k E E' \<longleftrightarrow> pe_lex E' = pe_lex E \<and> pe_num E' = pe_num E \<and> pe_fuel E' = pe_fuel E \<and>
     agree k (pe_chunk E) (pe_chunk E') \<and> (\<forall>l. agree k (pe_subexpr E l) (pe_subexpr E' l))"

lemma relatedD [agree_rules]:
  "related k E E' \<Longrightarrow> agree k (pe_chunk E) (pe_chunk E')"
  "related k E E' \<Longrightarrow> agree k (pe_subexpr E l) (pe_subexpr E' l)"
  by (simp_all add: related_def)

lemma related_env:
  "related k E E' \<Longrightarrow> pe_lex E' = pe_lex E" "related k E E' \<Longrightarrow> pe_num E' = pe_num E"
  "related k E E' \<Longrightarrow> pe_fuel E' = pe_fuel E"
  by (simp_all add: related_def)

lemma agree_tokens [agree_rules]:
  assumes "related k E E'"
  shows "agree k (next_token E) (next_token E')" "agree k (look_ahead E) (look_ahead E')"
  by (auto simp: next_token_def look_ahead_def related_env [OF assms] intro!: agree_rules)

lemma agree_syntaxerror [agree_rules]: "related k E E' \<Longrightarrow> agree k (syntaxerror E msg) (syntaxerror E' msg)"
  by (auto simp: syntaxerror_def related_env intro!: agree_rules)

lemma agree_checks [agree_rules]:
  assumes "related k E E'"
  shows "agree k (error_expected E t) (error_expected E' t)" "agree k (checklimit E v limit what) (checklimit E' v limit what)"
    "agree k (test_next E t) (test_next E' t)" "agree k (check_condition E c msg) (check_condition E' c msg)"
  using assms
  by (auto simp: error_expected_def checklimit_def test_next_def check_condition_def related_env [OF assms]
      intro!: agree_rules)

lemma agree_check [agree_rules]:
  assumes "related k E E'"
  shows "agree k (check E t) (check E' t)" "agree k (check_match E t u line) (check_match E' t u line)"
  using assms by (auto simp: check_def check_match_def related_env [OF assms] intro!: agree_rules)

lemma agree_names [agree_rules]:
  assumes "related k E E'"
  shows "agree k (check_next_token E t) (check_next_token E' t)" "agree k (str_checkname E) (str_checkname E')"
  using assms by (auto simp: check_next_token_def str_checkname_def intro!: agree_rules)

lemma agree_checkname [agree_rules]: "related k E E' \<Longrightarrow> agree k (checkname E) (checkname E')"
  by (auto simp: checkname_def intro!: agree_rules)

lemma agree_vars [agree_rules]:
  "agree k (adjustlocalvars n) (adjustlocalvars n)" "agree k (removevars l) (removevars l)"
  by (auto simp: adjustlocalvars_def removevars_def intro!: agree_rules)

lemma agree_localvar [agree_rules]:
  "related k E E' \<Longrightarrow> agree k (new_localvar E name n) (new_localvar E' name n)"
  by (auto simp: new_localvar_def intro!: agree_rules)

lemma agree_localvarliteral [agree_rules]:
  "related k E E' \<Longrightarrow> agree k (new_localvarliteral E name n) (new_localvarliteral E' name n)"
  by (auto simp: new_localvarliteral_def intro!: agree_rules)

lemma agree_singlevar [agree_rules]: "related k E E' \<Longrightarrow> agree k (singlevar E) (singlevar E')"
  by (auto simp: singlevar_def related_env intro!: agree_rules agree_modP)

lemma agree_assign [agree_rules]: "agree k (adjust_assign n m e) (adjust_assign n m e)"
  by (auto simp: adjust_assign_def intro!: agree_rules)

lemma agree_blocks [agree_rules]:
  "agree k (enterblock b) (enterblock b)" "agree k cur_block cur_block" "agree k open_func open_func"
  by (auto simp: enterblock_def cur_block_def open_func_def intro!: agree_rules agree_modP)

lemma agree_leaveblock [agree_rules]: "agree k leaveblock leaveblock"
  by (auto simp: leaveblock_def intro!: agree_rules)

lemma agree_close_upvals [agree_rules]: "agree k (close_upvals ds) (close_upvals ds)"
  by (induction ds) (auto intro!: agree_rules)

lemma agree_funcs [agree_rules]: "agree k close_func close_func" "agree k (pushclosure c p) (pushclosure c p)"
  by (auto simp: close_func_def pushclosure_def intro!: agree_rules agree_modP)

section \<open>The rules of the grammar\<close>

lemma agree_shapes [agree_rules]:
  "agree k (exp2nextreg e) (exp2nextreg e)" "agree k (exp2anyreg e) (exp2anyreg e)"
  "agree k (codeABC op a b c) (codeABC op a b c)" "agree k (set_freereg n) (set_freereg n)"
  "agree k (change_code i h) (change_code i h)" "agree k (closelistfield cc) (closelistfield cc)"
  "agree k (lastlistfield cc) (lastlistfield cc)"
  by (auto simp: exp2nextreg_def exp2anyreg_def codeABC_def set_freereg_def change_code_def closelistfield_def
      lastlistfield_def intro!: agree_rules)

lemma agree_expression [agree_rules]: "related k E E' \<Longrightarrow> agree k (expression E) (expression E')"
  by (auto simp: expression_def intro!: agree_rules)

lemma agree_indexing [agree_rules]:
  assumes "related k E E'"
  shows "agree k (field E var) (field E' var)" "agree k (yindex E) (yindex E')"
  using assms by (auto simp: field_def yindex_def intro!: agree_rules)

lemma agree_recfield [agree_rules]:
  assumes "related k E E'"
  shows "agree k (recfield E cc) (recfield E' cc)" "agree k (listfield E cc) (listfield E' cc)"
  using assms by (auto simp: recfield_def listfield_def intro!: agree_rules)

lemma agree_item [agree_rules]: "related k E E' \<Longrightarrow> agree k (constructor_item E t cc) (constructor_item E' t cc)"
  by (auto simp: constructor_item_def intro!: agree_rules)

lemma agree_items [agree_rules]: "related k E E' \<Longrightarrow> agree k (constructor_items E n cc) (constructor_items E' n cc)"
  by (induction n arbitrary: cc) (auto intro!: agree_rules)

lemma agree_constructor [agree_rules]: "related k E E' \<Longrightarrow> agree k (constructor E) (constructor E')"
  by (auto simp: constructor_def related_env intro!: agree_rules)

lemma agree_parameters [agree_rules]: "related k E E' \<Longrightarrow> agree k (parameters E n m) (parameters E' n m)"
  by (induction n arbitrary: m) (auto intro!: agree_rules)

lemma agree_parlist [agree_rules]: "related k E E' \<Longrightarrow> agree k (parlist E) (parlist E')"
  by (auto simp: parlist_def related_env intro!: agree_rules)

lemma agree_body [agree_rules]: "related k E E' \<Longrightarrow> agree k (body E b line) (body E' b line)"
  by (auto simp: body_def intro!: agree_rules)

lemma agree_explist_loop [agree_rules]: "related k E E' \<Longrightarrow> agree k (explist_loop E f n var) (explist_loop E' f n var)"
  by (induction f arbitrary: n var) (auto intro!: agree_rules)

lemma agree_explist1 [agree_rules]: "related k E E' \<Longrightarrow> agree k (explist1 E) (explist1 E')"
  by (auto simp: explist1_def related_env intro!: agree_rules)

lemma agree_arguments [agree_rules]: "related k E E' \<Longrightarrow> agree k (call_arguments E line) (call_arguments E' line)"
  by (auto simp: call_arguments_def intro!: agree_rules)

lemma agree_funcargs [agree_rules]: "related k E E' \<Longrightarrow> agree k (funcargs E e) (funcargs E' e)"
  by (auto simp: funcargs_def intro!: agree_rules)

lemma agree_prefixexp [agree_rules]: "related k E E' \<Longrightarrow> agree k (prefixexp E) (prefixexp E')"
  by (auto simp: prefixexp_def intro!: agree_rules)

lemma agree_primary_loop [agree_rules]: "related k E E' \<Longrightarrow> agree k (primary_loop E n var) (primary_loop E' n var)"
  by (induction n arbitrary: var) (auto intro!: agree_rules)

lemma agree_primaryexp [agree_rules]: "related k E E' \<Longrightarrow> agree k (primaryexp E) (primaryexp E')"
  by (auto simp: primaryexp_def related_env intro!: agree_rules)

lemma agree_constant [agree_rules]: "related k E E' \<Longrightarrow> agree k (simple_constant E t) (simple_constant E' t)"
  by (cases t) (auto simp: simple_constant_def intro!: agree_rules)

lemma agree_simpleexp [agree_rules]: "related k E E' \<Longrightarrow> agree k (simpleexp E) (simpleexp E')"
  by (auto simp: simpleexp_def intro!: agree_rules)

lemma agree_subexpr_loop [agree_rules]:
  "related k E E' \<Longrightarrow> agree k (subexpr_loop E n limit op var) (subexpr_loop E' n limit op var)"
  by (induction n arbitrary: op var) (auto simp: related_env intro!: agree_rules)

section \<open>Statements\<close>

lemma agree_store [agree_rules]:
  "agree k (storevar var e) (storevar var e)" "agree k (check_conflict lh var) (check_conflict lh var)"
  "agree k (patchlist l t) (patchlist l t)" "agree k (patchtohere l) (patchtohere l)" "agree k (add_jump l) (add_jump l)"
  "agree k (return_values n e) (return_values n e)"
  by (auto simp: storevar_def check_conflict_def patchlist_def patchtohere_def add_jump_def return_values_def
      intro!: agree_rules)

lemma agree_store_top [agree_rules]: "agree k (store_top var) (store_top var)"
  by (auto simp: store_top_def intro!: agree_rules)

lemma agree_block [agree_rules]: "related k E E' \<Longrightarrow> agree k (block E) (block E')"
  by (auto simp: block_def intro!: agree_rules)

lemma agree_values [agree_rules]: "related k E E' \<Longrightarrow> agree k (assign_values E var n) (assign_values E' var n)"
  by (auto simp: assign_values_def intro!: agree_rules)

lemma agree_assignment [agree_rules]: "related k E E' \<Longrightarrow> agree k (assignment E n v prev m) (assignment E' n v prev m)"
  by (induction n arbitrary: v prev m) (auto intro!: agree_rules)

lemma agree_cond [agree_rules]: "related k E E' \<Longrightarrow> agree k (cond E) (cond E')"
  by (auto simp: cond_def intro!: agree_rules)

lemma agree_break [agree_rules]: "related k E E' \<Longrightarrow> agree k (break_stmt E) (break_stmt E')"
  by (auto simp: break_stmt_def intro!: agree_rules)

lemma agree_loops [agree_rules]:
  assumes "related k E E'"
  shows "agree k (while_stmt E line) (while_stmt E' line)" "agree k (repeat_stmt E line) (repeat_stmt E' line)"
    "agree k (exp1 E) (exp1 E')" "agree k (for_body E base line n b) (for_body E' base line n b)"
  using assms by (auto simp: while_stmt_def repeat_stmt_def exp1_def for_body_def intro!: agree_rules)

lemma agree_declared [agree_rules]: "related k E E' \<Longrightarrow> agree k (declared_names E n m) (declared_names E' n m)"
  by (induction n arbitrary: m) (auto intro!: agree_rules)

lemma agree_fors [agree_rules]:
  assumes "related k E E'"
  shows "agree k (for_num E name line) (for_num E' name line)" "agree k (for_list E name) (for_list E' name)"
  using assms by (auto simp: for_num_def for_list_def related_env [OF assms] intro!: agree_rules)

lemma agree_for [agree_rules]: "related k E E' \<Longrightarrow> agree k (for_stmt E line) (for_stmt E' line)"
  by (auto simp: for_stmt_def intro!: agree_rules)

lemma agree_then [agree_rules]: "related k E E' \<Longrightarrow> agree k (test_then_block E) (test_then_block E')"
  by (auto simp: test_then_block_def intro!: agree_rules)

lemma agree_elseif [agree_rules]: "related k E E' \<Longrightarrow> agree k (elseif_loop E n l m) (elseif_loop E' n l m)"
  by (induction n arbitrary: l m) (auto intro!: agree_rules)

lemma agree_ifs [agree_rules]: "related k E E' \<Longrightarrow> agree k (if_stmt E line) (if_stmt E' line)"
  by (auto simp: if_stmt_def related_env intro!: agree_rules)

lemma agree_dotted [agree_rules]: "related k E E' \<Longrightarrow> agree k (dotted_fields E n var) (dotted_fields E' n var)"
  by (induction n arbitrary: var) (auto intro!: agree_rules)

lemma agree_locals [agree_rules]:
  assumes "related k E E'"
  shows "agree k (local_func E) (local_func E')" "agree k (local_stmt E) (local_stmt E')" "agree k (funcname E) (funcname E')"
    "agree k (expr_stmt E) (expr_stmt E')" "agree k (return_stmt E) (return_stmt E')"
  using assms
  by (auto simp: local_func_def local_stmt_def funcname_def expr_stmt_def return_stmt_def related_env [OF assms]
      intro!: agree_rules)

lemma agree_func_stmt [agree_rules]: "related k E E' \<Longrightarrow> agree k (func_stmt E line) (func_stmt E' line)"
  by (auto simp: func_stmt_def intro!: agree_rules)

lemma agree_statement [agree_rules]:
  assumes "related k E E'"
  shows "agree k (statement E) (statement E')"
  unfolding statement_def
proof (intro agree_seqP agree_newstring, goal_cases)
  case (1 line t)
  show ?case using assms by (cases t) (auto intro!: agree_rules)
qed

lemma agree_chunk_loop [agree_rules]: "related k E E' \<Longrightarrow> agree k (chunk_loop E n) (chunk_loop E' n)"
  by (induction n) (auto intro!: agree_rules)

section \<open>Levels\<close>

lemma lexical_fails: "\<exists>e. luaX_lexerror E ls msg t = Inl e"
  by (cases "txtToken E ls t") (auto simp: luaX_lexerror_def)

text \<open>A level that is entered and left: what is inside runs one deeper, or the limit is reached.\<close>

lemma enterlevel_ok:
  "ps_nCcalls s < int LUAI_MAXCCALLS \<Longrightarrow> enterlevel E s = Inr ((), s\<lparr>ps_nCcalls := ps_nCcalls s + 1\<rparr>)"
  by (simp add: enterlevel_def parser_defs)

lemma enterlevel_fails:
  assumes "int LUAI_MAXCCALLS \<le> ps_nCcalls s" "pe_lex E' = pe_lex E"
  obtains e where "enterlevel E s = Inl e" "enterlevel E' s = Inl e"
proof -
  obtain e where "luaX_lexerror (pe_lex E) (ps_lex s) ''chunk has too many syntax levels'' TOKEN_ERROR = (Inl e :: unit result)"
    using lexical_fails by blast
  then have "enterlevel E s = Inl e" "enterlevel E' s = Inl e"
    using assms by (simp_all add: enterlevel_def parser_defs)
  then show ?thesis by (rule that)
qed

lemma agree_level:
  assumes "pe_lex E' = pe_lex E" "k < int LUAI_MAXCCALLS \<Longrightarrow> agree (k + 1) m m'"
  shows "agree k (thenP (enterlevel E) (seqP m (\<lambda>x. thenP leavelevel (retP x))))
    (thenP (enterlevel E') (seqP m' (\<lambda>x. thenP leavelevel (retP x))))"
  unfolding agree_def
proof (intro allI impI)
  fix s :: "'a PS" assume k: "k \<le> ps_nCcalls s"
  let ?L = "\<lambda>E m. thenP (enterlevel E) (seqP m (\<lambda>x. thenP leavelevel (retP x))) s"
  show "?L E m = ?L E' m' \<and> (\<forall>x s'. ?L E m = Inr (x, s') \<longrightarrow> ps_nCcalls s' = ps_nCcalls s)"
  proof (cases "int LUAI_MAXCCALLS \<le> ps_nCcalls s")
    case True
    obtain e where "enterlevel E s = Inl e" "enterlevel E' s = Inl e"
      using enterlevel_fails [OF True assms(1)] by blast
    then show ?thesis by (simp add: thenP_def seqP_def)
  next
    case False
    let ?s = "s\<lparr>ps_nCcalls := ps_nCcalls s + 1\<rparr>"
    have a: "agree (k + 1) m m'" using assms(2) k False by simp
    have k': "k + 1 \<le> ps_nCcalls ?s" using k by simp
    have e: "m ?s = m' ?s" by (rule agreeD(1) [OF a k'])
    have c: "ps_nCcalls t = ps_nCcalls ?s" if "m ?s = Inr (x, t)" for x t by (rule agreeD(2) [OF a k' that])
    have L: "?L F n = seqR (n ?s) (\<lambda>(x, t). Inr (x, t\<lparr>ps_nCcalls := ps_nCcalls t - 1\<rparr>))" for F n
    proof -
      have "enterlevel F s = Inr ((), ?s)" using False by (simp add: enterlevel_ok)
      then show ?thesis by (simp add: thenP_def seqP_def leavelevel_def modP_def retP_def)
    qed
    show ?thesis
    proof (cases "m' ?s")
      case (Inl x)
      then show ?thesis using e by (simp add: L)
    next
      case (Inr p)
      obtain x t where p: "p = (x, t)" by (cases p)
      have "ps_nCcalls t = ps_nCcalls s + 1" using c [of x t] e Inr p by simp
      then show ?thesis using e Inr p by (simp add: L)
    qed
  qed
qed

lemma chunk_level: "chunk E = thenP (enterlevel E) (seqP (chunk_loop E (pe_fuel E)) (\<lambda>x. thenP leavelevel (retP x)))"
  by (rule ext) (auto simp: chunk_def thenP_def seqP_def leavelevel_def modP_def retP_def)

definition subexpr_inside :: "'d penv \<Rightarrow> nat \<Rightarrow> ('d, Expr \<times> BinOpr) parser" where
  "subexpr_inside E limit =
     seqP cur_type (\<lambda>t. let uop = getunopr t in
     seqP (if uop \<noteq> OPR_NOUNOPR then
             thenP (next_token E)
             (seqP (pe_subexpr E UNARY_PRIORITY) (\<lambda>(var, op).
             genR (\<lambda>fs. luaK_prefix (pe_num E) fs uop var)))
           else simpleexp E) (\<lambda>var.
     seqP cur_type (\<lambda>t.
     subexpr_loop E (pe_fuel E) limit (getbinopr t) var)))"

lemma seqP_assoc: "seqP (seqP m f) g = seqP m (\<lambda>x. seqP (f x) g)"
proof
  fix s
  show "seqP (seqP m f) g s = seqP m (\<lambda>x. seqP (f x) g) s" by (cases "m s") (auto simp: seqP_def)
qed

lemma subexpr_level:
  "subexpr E limit = thenP (enterlevel E) (seqP (subexpr_inside E limit) (\<lambda>x. thenP leavelevel (retP x)))"
  by (simp add: subexpr_def subexpr_inside_def seqP_assoc Let_def)

lemma agree_chunk: "pe_lex E' = pe_lex E \<Longrightarrow> (k < int LUAI_MAXCCALLS \<Longrightarrow> related (k + 1) E E') \<Longrightarrow> agree k (chunk E) (chunk E')"
  unfolding chunk_level
  by (rule agree_level) (auto simp: related_env intro!: agree_rules)

lemma agree_subexpr:
  "pe_lex E' = pe_lex E \<Longrightarrow> (k < int LUAI_MAXCCALLS \<Longrightarrow> related (k + 1) E E') \<Longrightarrow> agree k (subexpr E l) (subexpr E' l)"
  unfolding subexpr_level
  by (rule agree_level) (auto simp: subexpr_inside_def related_env intro!: agree_rules)

lemma rules_env [simp]: "pe_lex (rules E n) = pe_lex E" "pe_num (rules E n) = pe_num E" "pe_fuel (rules E n) = pe_fuel E"
  by (cases n; simp add: Let_def)+

lemma rules_related:
  "int LUAI_MAXCCALLS \<le> k + int n \<Longrightarrow> int LUAI_MAXCCALLS \<le> k + int m \<Longrightarrow> k \<le> int LUAI_MAXCCALLS \<Longrightarrow>
    k < int LUAI_MAXCCALLS \<Longrightarrow> related (k + 1) (rules E n) (rules E m)"
proof (induction "nat (int LUAI_MAXCCALLS - k)" arbitrary: k n m)
  case (Suc d)
  obtain n' m' where nm: "n = Suc n'" "m = Suc m'" using Suc.prems by (cases n; cases m) auto
  have inner: "related (k + 1 + 1) (rules E n') (rules E m')" if "k + 1 < int LUAI_MAXCCALLS"
    by (rule Suc.hyps(1)) (use Suc.hyps(2) Suc.prems nm that in auto)
  show ?case
    unfolding related_def nm rules.simps Let_def
    using inner by (auto intro!: agree_chunk agree_subexpr)
qed simp

lemma agree_main:
  assumes "LUAI_MAXCCALLS \<le> n" "LUAI_MAXCCALLS \<le> m"
  shows "agree 0 (main_func (rules E n)) (main_func (rules E m))"
proof -
  have r: "related 1 (rules E n) (rules E m)"
    using rules_related [of 0 n m E] assms by (simp add: LUAI_MAXCCALLS_def)
  have t: "agree 0 (next_token (rules E n)) (next_token (rules E m))" "agree 0 (check (rules E n) u) (check (rules E m) u)" for u
    by (auto simp: next_token_def check_def error_expected_def syntaxerror_def intro!: agree_rules)
  have c: "agree 0 (chunk (rules E n)) (chunk (rules E m))"
    by (rule agree_chunk) (use r in simp_all)
  show ?thesis unfolding main_func_def by (auto intro!: agree_rules agree_modP t c)
qed

section \<open>Targets of an assignment\<close>

lemma rules_self: "related k (rules E n) (rules E n)"
proof (induction n arbitrary: k)
  case 0
  show ?case by (auto simp: related_def intro!: agree_rules)
next
  case (Suc n)
  have "agree k (chunk (rules E n)) (chunk (rules E n))" "\<And>l. agree k (subexpr (rules E n) l) (subexpr (rules E n) l)"
    by (rule agree_chunk [OF refl Suc.IH], rule agree_subexpr [OF refl Suc.IH])
  then show ?case unfolding related_def rules.simps Let_def by simp
qed

lemma agree_depth:
  assumes "\<And>d. k \<le> d \<Longrightarrow> agree k (f d) (f' d)"
  shows "agree k (seqP (getP ps_nCcalls) f) (seqP (getP ps_nCcalls) f')"
proof -
  have e: "seqP (getP ps_nCcalls) h s = h (ps_nCcalls s) s" for h s by (simp add: seqP_def getP_def)
  show ?thesis unfolding agree_def e
  proof (intro allI impI)
    fix s :: "'a PS" assume k: "k \<le> ps_nCcalls s"
    show "f (ps_nCcalls s) s = f' (ps_nCcalls s) s \<and>
        (\<forall>x s'. f (ps_nCcalls s) s = Inr (x, s') \<longrightarrow> ps_nCcalls s' = ps_nCcalls s)"
      using agreeD [OF assms [OF k] k] by blast
  qed
qed

lemma error_limit_fails: "\<exists>e. error_limit E ls pf limit what = Inl e"
  unfolding error_limit_def by (rule lexical_fails)

lemma checklimit_fails:
  assumes l: "limit < v" shows "\<exists>e. checklimit E v limit what s = Inl e"
proof (cases "cur s")
    case (Inl e)
    then show ?thesis by (simp add: checklimit_def seqP_def)
  next
    case (Inr p)
    obtain pf s' where p: "p = (pf, s')" by (cases p)
    obtain e where "error_limit (pe_lex E) (ps_lex s') pf limit what = (Inl e :: unit result)"
      using error_limit_fails by blast
    then show ?thesis using Inr p using l by (simp add: checklimit_def seqP_def getP_def liftP_def luaY_checklimit_def)
qed

text \<open>\<open>assignment\<close> calls itself for each further target and does not count as a level: its own limit,
  what the levels have left of \<open>LUAI_MAXCCALLS\<close>, stops it.\<close>

lemma agree_assignment_depth:
  assumes r: "related 0 E E" and n: "int LUAI_MAXCCALLS + 1 < nvars + int n" "int LUAI_MAXCCALLS + 1 < nvars + int m"
    and v: "nvars \<le> int LUAI_MAXCCALLS + 1"
  shows "agree 0 (assignment E n v prev nvars) (assignment E m v prev nvars)"
  using n v
proof (induction n arbitrary: m v prev nvars)
  case 0
  then show ?case by simp
next
  case (Suc n)
  obtain m' where m: "m = Suc m'" using Suc.prems(2,3) by (cases m) auto
  have rec: "agree 0 (thenP (checklimit E nvars (int LUAI_MAXCCALLS - depth) what)
        (seqP (assignment E n nv lh (nvars + 1)) f))
      (thenP (checklimit E nvars (int LUAI_MAXCCALLS - depth) what)
        (seqP (assignment E m' nv lh (nvars + 1)) f))" if f: "\<And>x. agree 0 (f x) (f x)" and d: "0 \<le> depth"
    for depth nv lh what and f :: "Expr list \<Rightarrow> ('a, Expr list) parser"
  proof (cases "nvars \<le> int LUAI_MAXCCALLS - depth")
    case True
    then have "agree 0 (assignment E n nv lh (nvars + 1)) (assignment E m' nv lh (nvars + 1))"
      using Suc.prems m d by (intro Suc.IH) auto
    then show ?thesis using f r by (intro agree_rules) auto
  next
    case False
    then have l: "int LUAI_MAXCCALLS - depth < nvars" by simp
    have "thenP (checklimit E nvars (int LUAI_MAXCCALLS - depth) what) g s =
        thenP (checklimit E nvars (int LUAI_MAXCCALLS - depth) what) h s \<and>
        (\<forall>x. thenP (checklimit E nvars (int LUAI_MAXCCALLS - depth) what) g s \<noteq> Inr x)" for g h s
    proof -
      obtain e where "checklimit E nvars (int LUAI_MAXCCALLS - depth) what s = Inl e" using checklimit_fails [OF l] by blast
      then show ?thesis by (simp add: thenP_def seqP_def)
    qed
    then show ?thesis unfolding agree_def by blast
  qed
  have lim: "agree 0 (seqP (getP ps_nCcalls) (\<lambda>depth.
        thenP (checklimit E nvars (int LUAI_MAXCCALLS - depth) what)
        (seqP (assignment E n nv lh (nvars + 1)) (\<lambda>lh. thenP (store_top (hd lh)) (retP (tl lh))))))
      (seqP (getP ps_nCcalls) (\<lambda>depth.
        thenP (checklimit E nvars (int LUAI_MAXCCALLS - depth) what)
        (seqP (assignment E m' nv lh (nvars + 1)) (\<lambda>lh. thenP (store_top (hd lh)) (retP (tl lh))))))"
    for nv lh what
    by (rule agree_depth, rule rec) (auto intro!: agree_rules)
  have conflict: "agree 0 (if kind nv = EXPR_LOCAL then check_conflict (v # prev) nv else retP (v # prev))
      (if kind nv = EXPR_LOCAL then check_conflict (v # prev) nv else retP (v # prev))" for nv
    by (intro agree_if agree_store agree_basic)
  have first: "agree 0 (check_condition E c msg) (check_condition E c msg)" "agree 0 (test_next E t) (test_next E t)" for c msg t
    using agree_checks [OF r] by simp_all
  have last: "agree 0 (thenP (assign_values E v nvars) (retP prev)) (thenP (assign_values E v nvars) (retP prev))"
    by (intro agree_thenP agree_values [OF r] agree_basic)
  show ?case unfolding m assignment.simps
    by (rule agree_thenP [OF first(1)], rule agree_seqP [OF first(2)], rule agree_if,
        rule agree_seqP [OF agree_primaryexp [OF r]], rule agree_seqP [OF conflict], rule lim, rule last)
qed

text \<open>C36: the recursion of the parser is bounded by the code's own limits. Giving the rules more than
  \<open>LUAI_MAXCCALLS\<close> levels changes no outcome, so no source text uses them up, and a function that is
  parsed leaves the depth of C calls as it was; nor does any list of targets use up the
  \<open>LUAI_MAXCCALLS + 2\<close> calls \<open>assignment\<close> has for itself, from any level the rules can be at.\<close>

theorem luaY_parser_depth:
  assumes "LUAI_MAXCCALLS \<le> n"
  shows "luaY_parser E g nCcalls z buff name =
      seqR (luaX_setinput (pe_lex E) z buff name) (\<lambda>ls.
      seqR (luaS_newlstr name g) (\<lambda>(g, _).
      main_func (rules E n) \<lparr>ps_lex = ls, ps_funcs = [], ps_G = g, ps_nCcalls = int nCcalls\<rparr>)) \<and>
    (\<forall>p s. luaY_parser E g nCcalls z buff name = Inr (p, s) \<longrightarrow> ps_nCcalls s = int nCcalls) \<and>
    (\<forall>k m v prev s. LUAI_MAXCCALLS + 2 \<le> m \<longrightarrow> 0 \<le> ps_nCcalls s \<longrightarrow>
       assignment (rules E k) m v prev 1 s = assignment (rules E k) (LUAI_MAXCCALLS + 2) v prev 1 s)"
proof -
  have a: "agree 0 (main_func (rules E LUAI_MAXCCALLS)) (main_func (rules E n))"
    by (rule agree_main) (use assms in simp_all)
  have e: "main_func (rules E LUAI_MAXCCALLS) s = main_func (rules E n) s" if "0 \<le> ps_nCcalls s" for s
    by (rule agreeD(1) [OF a that])
  show ?thesis
  proof (intro conjI allI impI)
    show "luaY_parser E g nCcalls z buff name =
      seqR (luaX_setinput (pe_lex E) z buff name) (\<lambda>ls.
      seqR (luaS_newlstr name g) (\<lambda>(g, _).
      main_func (rules E n) \<lparr>ps_lex = ls, ps_funcs = [], ps_G = g, ps_nCcalls = int nCcalls\<rparr>))"
      by (simp add: luaY_parser_def e)
    fix p s assume "luaY_parser E g nCcalls z buff name = Inr (p, s)"
    then obtain ls g' where "main_func (rules E LUAI_MAXCCALLS)
        \<lparr>ps_lex = ls, ps_funcs = [], ps_G = g', ps_nCcalls = int nCcalls\<rparr> = Inr (p, s)"
      by (auto simp: luaY_parser_def)
    from agreeD(2) [OF a _ this] show "ps_nCcalls s = int nCcalls" by simp
  next
    fix k m v prev and s :: "'a PS" assume m: "LUAI_MAXCCALLS + 2 \<le> m" "0 \<le> ps_nCcalls s"
    have "agree 0 (assignment (rules E k) m v prev 1) (assignment (rules E k) (LUAI_MAXCCALLS + 2) v prev 1)"
      by (rule agree_assignment_depth [OF rules_self]) (use m(1) in auto)
    then show "assignment (rules E k) m v prev 1 s = assignment (rules E k) (LUAI_MAXCCALLS + 2) v prev 1 s"
      using m(2) by (rule agreeD(1))
  qed
qed

theorem luaY_parser_depth_witness:
  "\<forall>(E :: unit penv) g z buff v s. luaY_parser E g 0 z buff ''=x'' =
      seqR (luaX_setinput (pe_lex E) z buff ''=x'') (\<lambda>ls.
      seqR (luaS_newlstr ''=x'' g) (\<lambda>(g, _).
      main_func (rules E 300) \<lparr>ps_lex = ls, ps_funcs = [], ps_G = g, ps_nCcalls = int 0\<rparr>)) \<and>
    assignment (rules E 3) 1000 v [] 1 (s\<lparr>ps_nCcalls := 7\<rparr>) =
      assignment (rules E 3) (LUAI_MAXCCALLS + 2) v [] 1 (s\<lparr>ps_nCcalls := 7\<rparr>)"
proof (intro allI)
  fix E :: "unit penv" and g z buff v and s :: "unit PS"
  have "LUAI_MAXCCALLS \<le> 300" and m: "LUAI_MAXCCALLS + 2 \<le> 1000" by (simp_all add: LUAI_MAXCCALLS_def)
  have d: "0 \<le> ps_nCcalls (s\<lparr>ps_nCcalls := 7\<rparr>)" by simp
  from luaY_parser_depth [OF \<open>LUAI_MAXCCALLS \<le> 300\<close>, of E g 0 z buff "''=x''"]
  show "luaY_parser E g 0 z buff ''=x'' =
      seqR (luaX_setinput (pe_lex E) z buff ''=x'') (\<lambda>ls.
      seqR (luaS_newlstr ''=x'' g) (\<lambda>(g, _).
      main_func (rules E 300) \<lparr>ps_lex = ls, ps_funcs = [], ps_G = g, ps_nCcalls = int 0\<rparr>)) \<and>
    assignment (rules E 3) 1000 v [] 1 (s\<lparr>ps_nCcalls := 7\<rparr>) =
      assignment (rules E 3) (LUAI_MAXCCALLS + 2) v [] 1 (s\<lparr>ps_nCcalls := 7\<rparr>)"
    using m d by blast
qed

end
