(* ===== verification/Api.thy ===== *)
theory Api
  imports Vm
begin

text \<open>
  The application interface (\<open>lapi.c\<close>): values by index, the stack, access to tables, calls. The
  checks \<open>api_check\<close> are assertions. Functions on several threads, on the allocator and on the
  collector are left out; user data are their header. \<open>lua_pushcclosure\<close> keeps as many upvalues
  as it is given (the code stores that number in a byte).
\<close>

section \<open>Indices\<close>

definition LUA_REGISTRYINDEX :: int where "LUA_REGISTRYINDEX = -10000"
definition LUA_ENVIRONINDEX :: int where "LUA_ENVIRONINDEX = -10001"
definition LUA_GLOBALSINDEX :: int where "LUA_GLOBALSINDEX = -10002"
definition LUAI_MAXCSTACK :: int where "LUAI_MAXCSTACK = 8000"
definition LUA_TNONE :: int where "LUA_TNONE = -1"

text \<open>Where a value is; \<open>AtNil\<close> is \<open>luaO_nilobject\<close>.\<close>

datatype location = AtStack nat | AtRegistry | AtEnv | AtGlobals | AtUpvalue addr nat | AtNil

definition curr_func :: "(addr \<times> Closure) vm" where
  "curr_func =
     seqM cur_ci (\<lambda>c.
     seqM (getstack (ci_func c)) (\<lambda>v.
     case v of FUNCTION p \<Rightarrow> seqM (the_closure p) (\<lambda>cl.
                                        retM (p, cl)) | _ \<Rightarrow> throwM Fault))"

definition api_checknelems :: "int \<Rightarrow> unit vm" where
  "api_checknelems n = seqM (getM id) (\<lambda>L. assertM (n \<le> int (l_top L) - int (l_base L)))"

definition api_incr_top :: "unit vm" where
  "api_incr_top =
     seqM cur_ci (\<lambda>c.
     seqM (getM l_top) (\<lambda>t.
     thenM (assertM (t < ci_top c))
     (set_top (t + 1))))"

text \<open>The environment of the running function is copied to the thread.\<close>

definition index2adr :: "int \<Rightarrow> location vm" where
  "index2adr idx =
     seqM (getM id) (\<lambda>L.
     if idx > 0 then
           seqM cur_ci (\<lambda>c.
           thenM (assertM (idx \<le> int (ci_top c) - int (l_base L)))
           ((let i = l_base L + nat idx - 1 in
           retM (if i \<ge> l_top L then AtNil else AtStack i))))
         else if idx > LUA_REGISTRYINDEX then
           thenM (assertM (idx \<noteq> 0 \<and> - idx \<le> int (l_top L) - int (l_base L)))
           (retM (AtStack (nat (int (l_top L) + idx))))
         else if idx = LUA_REGISTRYINDEX then retM AtRegistry
         else if idx = LUA_ENVIRONINDEX then
           seqM curr_func (\<lambda>(p, cl).
           thenM (modM (\<lambda>L. L\<lparr>l_env := TABLE (c_env cl)\<rparr>))
           (retM AtEnv))
         else if idx = LUA_GLOBALSINDEX then retM AtGlobals
         else
           seqM curr_func (\<lambda>(p, cl).
           case cl of
                 CClosure e f ups \<Rightarrow>
                   retM (if LUA_GLOBALSINDEX - idx \<le> int (length ups)
                         then AtUpvalue p (nat (LUA_GLOBALSINDEX - idx) - 1) else AtNil)
               | _ \<Rightarrow> throwM Fault))"

definition read_at :: "location \<Rightarrow> TValue vm" where
  "read_at o' =
     (case o' of
        AtStack i \<Rightarrow> getstack i
      | AtRegistry \<Rightarrow> getM (\<lambda>L. l_registry (l_G L))
      | AtEnv \<Rightarrow> getM l_env
      | AtGlobals \<Rightarrow> getM l_gt
      | AtUpvalue p n \<Rightarrow>
          seqM (the_closure p) (\<lambda>cl.
          case cl of CClosure e f ups \<Rightarrow> theM (if n < length ups then Some (ups ! n) else None) | _ \<Rightarrow> throwM Fault)
      | AtNil \<Rightarrow> retM NIL)"

definition write_at :: "location \<Rightarrow> TValue \<Rightarrow> unit vm" where
  "write_at o' v =
     (case o' of
        AtStack i \<Rightarrow> setstack i v
      | AtRegistry \<Rightarrow> modG (\<lambda>g. g\<lparr>l_registry := v\<rparr>)
      | AtEnv \<Rightarrow> modM (\<lambda>L. L\<lparr>l_env := v\<rparr>)
      | AtGlobals \<Rightarrow> modM (\<lambda>L. L\<lparr>l_gt := v\<rparr>)
      | AtUpvalue p n \<Rightarrow>
          seqM (the_closure p) (\<lambda>cl.
          case cl of
                CClosure e f ups \<Rightarrow> modG (\<lambda>g. g\<lparr>closures := (closures g)(p \<mapsto> CClosure e f (ups[n := v]))\<rparr>)
              | _ \<Rightarrow> throwM Fault)
      | AtNil \<Rightarrow> throwM Fault)"

definition slot_of :: "location \<Rightarrow> nat option" where
  "slot_of o' = (case o' of AtStack i \<Rightarrow> Some i | _ \<Rightarrow> None)"

definition api_checkvalidindex :: "location \<Rightarrow> unit vm" where
  "api_checkvalidindex o' = assertM (o' \<noteq> AtNil)"

definition the_addr :: "TValue \<Rightarrow> addr vm" where
  "the_addr v = (case v of TABLE p \<Rightarrow> retM p | _ \<Rightarrow> throwM Fault)"

definition getcurrenv :: "addr vm" where
  "getcurrenv =
     seqM (getM l_ci) (\<lambda>i.
     if i = 0 then seqM (getM l_gt) the_addr
         else seqM curr_func (\<lambda>(p, cl).
              retM (c_env cl)))"

section \<open>The stack\<close>

definition push :: "TValue \<Rightarrow> unit vm" where
  "push v = seqM (getM l_top) (\<lambda>t. thenM (setstack t v) api_incr_top)"

definition luaA_pushobject :: "TValue \<Rightarrow> unit vm" where "luaA_pushobject = push"

definition lua_checkstack :: "int \<Rightarrow> bool vm" where
  "lua_checkstack sz =
     seqM (getM id) (\<lambda>L.
     if sz > LUAI_MAXCSTACK \<or> int (l_top L) - int (l_base L) + sz > LUAI_MAXCSTACK then retM False
         else if sz > 0 then
           thenM (luaD_checkstack (nat sz))
           (seqM (getM l_ci) (\<lambda>i.
           seqM (the_ci i) (\<lambda>c.
           seqM (getM l_top) (\<lambda>t.
           thenM (whenM (ci_top c < t + nat sz) (put_ci i (c\<lparr>ci_top := t + nat sz\<rparr>)))
           (retM True)))))
         else retM True)"

definition lua_gettop :: "int vm" where "lua_gettop = getM (\<lambda>L. int (l_top L) - int (l_base L))"

definition lua_settop :: "int \<Rightarrow> unit vm" where
  "lua_settop idx =
     seqM (getM id) (\<lambda>L.
     if idx \<ge> 0 then
           thenM (assertM (idx \<le> int (l_stack_last L) - int (l_base L)))
           (thenM (init_slots (l_top L) (l_base L + nat idx))
           (set_top (l_base L + nat idx)))
         else
           thenM (assertM (- (idx + 1) \<le> int (l_top L) - int (l_base L)))
           (set_top (nat (int (l_top L) + idx + 1))))"

definition stack_index :: "location \<Rightarrow> nat vm" where
  "stack_index o' = (case o' of AtStack i \<Rightarrow> retM i | _ \<Rightarrow> throwM Fault)"

definition lua_remove :: "int \<Rightarrow> unit vm" where
  "lua_remove idx =
     seqM (index2adr idx) (\<lambda>o'.
     thenM (api_checkvalidindex o')
     (seqM (stack_index o') (\<lambda>p.
     seqM (getM l_top) (\<lambda>t.
     thenM (forM [p + 1..<t] (\<lambda>j. setobj (j - 1) j))
     (set_top (t - 1))))))"

definition lua_insert :: "int \<Rightarrow> unit vm" where
  "lua_insert idx =
     seqM (index2adr idx) (\<lambda>o'.
     thenM (api_checkvalidindex o')
     (seqM (stack_index o') (\<lambda>p.
     seqM (getM l_top) (\<lambda>t.
     thenM (forM (rev [p + 1..<t + 1]) (\<lambda>q. setobj q (q - 1)))
     (setobj p t)))))"

definition set_env :: "addr \<Rightarrow> addr \<Rightarrow> unit vm" where
  "set_env p e =
     seqM (the_closure p) (\<lambda>cl.
     modG (\<lambda>g. g\<lparr>closures := (closures g)(p \<mapsto>
           (case cl of LClosure _ pt ups \<Rightarrow> LClosure e pt ups | CClosure _ f ups \<Rightarrow> CClosure e f ups))\<rparr>))"

definition lua_replace :: "vmenv \<Rightarrow> int \<Rightarrow> unit vm" where
  "lua_replace E idx =
     seqM (getM l_ci) (\<lambda>i.
     thenM (whenM (idx = LUA_ENVIRONINDEX \<and> i = 0) (luaG_runerror E ''no calling environment''))
     (thenM (api_checknelems 1)
     (seqM (index2adr idx) (\<lambda>o'.
     thenM (api_checkvalidindex o')
     (seqM (getM l_top) (\<lambda>t.
     seqM (getstack (t - 1)) (\<lambda>v.
     thenM (if idx = LUA_ENVIRONINDEX then
           seqM curr_func (\<lambda>(p, cl).
           seqM (the_addr v) (\<lambda>e.
           set_env p e))
         else write_at o' v)
     (set_top (t - 1)))))))))"

definition lua_pushvalue :: "int \<Rightarrow> unit vm" where
  "lua_pushvalue idx = seqM (seqM (index2adr idx) read_at) push"

section \<open>Reading values\<close>

definition lua_type :: "int \<Rightarrow> int vm" where
  "lua_type idx =
     seqM (index2adr idx) (\<lambda>o'.
     seqM (read_at o') (\<lambda>v.
     retM (if o' = AtNil then LUA_TNONE else int (ttype v))))"

definition lua_typename :: "int \<Rightarrow> string" where
  "lua_typename t = (if t = LUA_TNONE then ''no value'' else luaT_typenames ! nat t)"

definition value_at :: "int \<Rightarrow> TValue vm" where "value_at idx = seqM (index2adr idx) read_at"

definition iscfunction :: "TValue \<Rightarrow> bool vm" where
  "iscfunction v = (case v of FUNCTION p \<Rightarrow> seqM (the_closure p) (\<lambda>cl.
                                                       retM (isC cl)) | _ \<Rightarrow> retM False)"

definition lua_iscfunction :: "int \<Rightarrow> bool vm" where "lua_iscfunction idx = seqM (value_at idx) iscfunction"

definition lua_isnumber :: "vmenv \<Rightarrow> int \<Rightarrow> bool vm" where
  "lua_isnumber E idx = seqM (value_at idx) (\<lambda>v. seqM (luaV_tonumber E v) (\<lambda>n. retM (n \<noteq> None)))"

definition lua_isstring :: "int \<Rightarrow> bool vm" where
  "lua_isstring idx = seqM (lua_type idx) (\<lambda>t. retM (t = 4 \<or> t = 3))"

definition lua_isuserdata :: "int \<Rightarrow> bool vm" where
  "lua_isuserdata idx = seqM (value_at idx) (\<lambda>v. retM (ttype v = 7 \<or> ttype v = 2))"

definition lua_rawequal :: "int \<Rightarrow> int \<Rightarrow> bool vm" where
  "lua_rawequal index1 index2 =
     seqM (index2adr index1) (\<lambda>o1.
     seqM (index2adr index2) (\<lambda>o2.
     seqM (read_at o1) (\<lambda>v1.
     seqM (read_at o2) (\<lambda>v2.
     retM (if o1 = AtNil \<or> o2 = AtNil then False else luaO_rawequalObj v1 v2)))))"

definition lua_equal :: "vmenv \<Rightarrow> int \<Rightarrow> int \<Rightarrow> bool vm" where
  "lua_equal E index1 index2 =
     seqM (index2adr index1) (\<lambda>o1.
     seqM (index2adr index2) (\<lambda>o2.
     seqM (read_at o1) (\<lambda>v1.
     seqM (read_at o2) (\<lambda>v2.
     if o1 = AtNil \<or> o2 = AtNil then retM False else equalobj E v1 v2))))"

definition lua_lessthan :: "vmenv \<Rightarrow> int \<Rightarrow> int \<Rightarrow> bool vm" where
  "lua_lessthan E index1 index2 =
     seqM (index2adr index1) (\<lambda>o1.
     seqM (index2adr index2) (\<lambda>o2.
     seqM (read_at o1) (\<lambda>v1.
     seqM (read_at o2) (\<lambda>v2.
     if o1 = AtNil \<or> o2 = AtNil then retM False else luaV_lessthan E v1 v2))))"

definition lua_tonumber :: "vmenv \<Rightarrow> int \<Rightarrow> lua_Number vm" where
  "lua_tonumber E idx =
     seqM (value_at idx) (\<lambda>v. seqM (luaV_tonumber E v) (\<lambda>n. retM (case n of Some n \<Rightarrow> n | None \<Rightarrow> 0)))"

definition lua_toboolean :: "int \<Rightarrow> bool vm" where
  "lua_toboolean idx = seqM (value_at idx) (\<lambda>v. retM (\<not> l_isfalse v))"

text \<open>\<open>luaV_tostring\<close> on a value anywhere.\<close>

definition tostring_at :: "vmenv \<Rightarrow> location \<Rightarrow> bool vm" where
  "tostring_at E o' =
     (case o' of
        AtStack i \<Rightarrow> luaV_tostring E i
      | _ \<Rightarrow>
          seqM (read_at o') (\<lambda>v.
          case v of
                NUMBER n \<Rightarrow> seqM (newstring E (e_num2str E n)) (\<lambda>p.
                                       thenM (write_at o' (STRING p))
                                       (retM True))
              | _ \<Rightarrow> retM False))"

definition lua_tolstring :: "vmenv \<Rightarrow> int \<Rightarrow> string option vm" where
  "lua_tolstring E idx =
     seqM (index2adr idx) (\<lambda>o'.
     seqM (read_at o') (\<lambda>v.
     seqM (case v of STRING _ \<Rightarrow> retM True | _ \<Rightarrow> tostring_at E o') (\<lambda>ok.
     if ok then
           seqM (value_at idx) (\<lambda>v.
           case v of STRING p \<Rightarrow> seqM (the_string p) (\<lambda>s. retM (Some s)) | _ \<Rightarrow> throwM Fault)
         else retM None)))"

definition the_udata :: "addr \<Rightarrow> Udata vm" where
  "the_udata p = seqM (getM (\<lambda>L. udatas (l_G L) p)) theM"

definition lua_objlen :: "vmenv \<Rightarrow> int \<Rightarrow> int vm" where
  "lua_objlen E idx =
     seqM (index2adr idx) (\<lambda>o'.
     seqM (read_at o') (\<lambda>v.
     case v of
           STRING p \<Rightarrow> seqM (the_string p) (\<lambda>s. retM (int (length s)))
         | USERDATA p \<Rightarrow> seqM (the_udata p) (\<lambda>u. retM (uint (ud_len u)))
         | TABLE p \<Rightarrow> seqM (the_table p) (\<lambda>t. liftR E (luaH_getn t))
         | NUMBER n \<Rightarrow>
             thenM (tostring_at E o')
             (seqM (read_at o') (\<lambda>v.
             case v of STRING p \<Rightarrow> seqM (the_string p) (\<lambda>s. retM (int (length s))) | _ \<Rightarrow> throwM Fault))
         | _ \<Rightarrow> retM 0))"

definition lua_tocfunction :: "int \<Rightarrow> nat option vm" where
  "lua_tocfunction idx =
     seqM (value_at idx) (\<lambda>v.
     case v of
           FUNCTION p \<Rightarrow> seqM (the_closure p) (\<lambda>cl. retM (case cl of CClosure _ f _ \<Rightarrow> Some f | _ \<Rightarrow> None))
         | _ \<Rightarrow> retM None)"

definition lua_touserdata :: "int \<Rightarrow> addr option vm" where
  "lua_touserdata idx =
     seqM (value_at idx) (\<lambda>v. retM (case v of USERDATA p \<Rightarrow> Some p | LIGHTUSERDATA p \<Rightarrow> Some p | _ \<Rightarrow> None))"

definition lua_tothread :: "int \<Rightarrow> addr option vm" where
  "lua_tothread idx = seqM (value_at idx) (\<lambda>v. retM (case v of THREAD p \<Rightarrow> Some p | _ \<Rightarrow> None))"

definition lua_topointer :: "int \<Rightarrow> addr option vm" where
  "lua_topointer idx =
     seqM (value_at idx) (\<lambda>v. retM (case v of
       TABLE p \<Rightarrow> Some p | FUNCTION p \<Rightarrow> Some p | THREAD p \<Rightarrow> Some p | USERDATA p \<Rightarrow> Some p
     | LIGHTUSERDATA p \<Rightarrow> Some p | _ \<Rightarrow> None))"

section \<open>Pushing values\<close>

definition lua_pushnil :: "unit vm" where "lua_pushnil = push NIL"
definition lua_pushnumber :: "lua_Number \<Rightarrow> unit vm" where "lua_pushnumber n = push (NUMBER n)"
definition lua_pushinteger :: "int \<Rightarrow> unit vm" where "lua_pushinteger n = push (NUMBER (cast_num n))"

definition lua_pushlstring :: "vmenv \<Rightarrow> string \<Rightarrow> unit vm" where
  "lua_pushlstring E s = seqM (newstring E s) (\<lambda>p. push (STRING p))"

text \<open>A null pointer is no string.\<close>

definition lua_pushstring :: "vmenv \<Rightarrow> string option \<Rightarrow> unit vm" where
  "lua_pushstring E s = (case s of None \<Rightarrow> lua_pushnil | Some s \<Rightarrow> lua_pushlstring E (cstr s))"

definition luaF_newCclosure :: "nat \<Rightarrow> TValue list \<Rightarrow> addr \<Rightarrow> addr vm" where
  "luaF_newCclosure f ups e = seqM new_addr (\<lambda>a.
     thenM (modG (\<lambda>g. g\<lparr>closures := (closures g)(a \<mapsto> CClosure e f ups)\<rparr>)) (retM a))"

definition lua_pushcclosure :: "nat \<Rightarrow> nat \<Rightarrow> unit vm" where
  "lua_pushcclosure fn n =
     thenM (api_checknelems (int n))
     (seqM getcurrenv (\<lambda>e.
     seqM (getM l_top) (\<lambda>t.
     seqM (getM (\<lambda>L. take n (drop (t - n) (l_stack L)))) (\<lambda>ups.
     seqM (luaF_newCclosure fn ups e) (\<lambda>cl.
     thenM (set_top (t - n))
     (push (FUNCTION cl)))))))"

definition lua_pushboolean :: "int \<Rightarrow> unit vm" where "lua_pushboolean b = push (BOOLEAN (b \<noteq> 0))"
definition lua_pushlightuserdata :: "addr \<Rightarrow> unit vm" where "lua_pushlightuserdata p = push (LIGHTUSERDATA p)"

end
