(* ===== verification/ApiCall.thy ===== *)
theory ApiCall
  imports Api Stat
begin

text \<open>
  The application interface (\<open>lapi.c\<close>), continued: tables, environments, calls and loading. A
  source text that is loaded is read by the parser of \<open>Stat\<close>; when it has an error, the strings read before it are garbage and forgotten.
\<close>

section \<open>Reading tables\<close>

definition lua_gettable :: "vmenv \<Rightarrow> int \<Rightarrow> unit vm" where
  "lua_gettable E idx =
     seqM (index2adr idx) (\<lambda>o'.
     thenM (api_checkvalidindex o')
     (seqM (read_at o') (\<lambda>v.
     seqM (getM l_top) (\<lambda>t.
     seqM (getstack (t - 1)) (\<lambda>key.
     luaV_gettable E (slot_of o', v) key (t - 1))))))"

definition lua_getfield :: "vmenv \<Rightarrow> int \<Rightarrow> string \<Rightarrow> unit vm" where
  "lua_getfield E idx k =
     seqM (index2adr idx) (\<lambda>o'.
     thenM (api_checkvalidindex o')
     (seqM (read_at o') (\<lambda>v.
     seqM (newstring E k) (\<lambda>p.
     seqM (getM l_top) (\<lambda>t.
     thenM (luaV_gettable E (slot_of o', v) (STRING p) t)
     (api_incr_top))))))"

definition table_at :: "int \<Rightarrow> addr vm" where "table_at idx = seqM (value_at idx) the_addr"

definition lua_rawget :: "int \<Rightarrow> unit vm" where
  "lua_rawget idx =
     seqM (table_at idx) (\<lambda>h.
     seqM (getM l_top) (\<lambda>t.
     seqM (getstack (t - 1)) (\<lambda>key.
     seqM (rawget_at h key) (\<lambda>v.
     setstack (t - 1) v))))"

definition api_rawgeti :: "int \<Rightarrow> int \<Rightarrow> unit vm" where
  "api_rawgeti idx n =
     seqM (table_at idx) (\<lambda>h.
     seqM (the_table h) (\<lambda>d.
     push (read_slot d (luaH_getnum d n))))"

definition lua_createtable :: "vmenv \<Rightarrow> nat \<Rightarrow> nat \<Rightarrow> unit vm" where
  "lua_createtable E narray nrec =
     seqM (liftR E (luaH_new narray nrec)) (\<lambda>d.
     seqM new_addr (\<lambda>a.
     thenM (put_table a d)
     (push (TABLE a))))"

definition lua_getmetatable :: "int \<Rightarrow> bool vm" where
  "lua_getmetatable objindex =
     seqM (value_at objindex) (\<lambda>v.
     seqM (the_metatable v) (\<lambda>mt.
     case mt of None \<Rightarrow> retM False | Some p \<Rightarrow> thenM (push (TABLE p)) (retM True)))"

text \<open>The only thread is the running one.\<close>

definition lua_getfenv :: "int \<Rightarrow> unit vm" where
  "lua_getfenv idx =
     seqM (index2adr idx) (\<lambda>o'.
     thenM (api_checkvalidindex o')
     (seqM (read_at o') (\<lambda>v.
     case v of
           FUNCTION p \<Rightarrow> seqM (the_closure p) (\<lambda>cl. push (TABLE (c_env cl)))
         | USERDATA p \<Rightarrow> seqM (the_udata p) (\<lambda>u. seqM (theM (ud_env u)) (\<lambda>e. push (TABLE e)))
         | THREAD p \<Rightarrow> seqM (getM l_gt) push
         | _ \<Rightarrow> push NIL)))"

section \<open>Writing tables\<close>

definition lua_settable :: "vmenv \<Rightarrow> int \<Rightarrow> unit vm" where
  "lua_settable E idx =
     thenM (api_checknelems 2)
     (seqM (index2adr idx) (\<lambda>o'.
     thenM (api_checkvalidindex o')
     (seqM (read_at o') (\<lambda>v.
     seqM (getM l_top) (\<lambda>t.
     seqM (getstack (t - 2)) (\<lambda>key.
     seqM (getstack (t - 1)) (\<lambda>val.
     thenM (luaV_settable E (slot_of o', v) key val)
     (seqM (getM l_top) (\<lambda>t.
     set_top (t - 2))))))))))"

definition lua_setfield :: "vmenv \<Rightarrow> int \<Rightarrow> string \<Rightarrow> unit vm" where
  "lua_setfield E idx k =
     thenM (api_checknelems 1)
     (seqM (index2adr idx) (\<lambda>o'.
     thenM (api_checkvalidindex o')
     (seqM (read_at o') (\<lambda>v.
     seqM (newstring E k) (\<lambda>p.
     seqM (getM l_top) (\<lambda>t.
     seqM (getstack (t - 1)) (\<lambda>val.
     thenM (luaV_settable E (slot_of o', v) (STRING p) val)
     (seqM (getM l_top) (\<lambda>t.
     set_top (t - 1))))))))))"

definition lua_rawset :: "vmenv \<Rightarrow> int \<Rightarrow> unit vm" where
  "lua_rawset E idx =
     thenM (api_checknelems 2)
     (seqM (table_at idx) (\<lambda>h.
     seqM (the_table h) (\<lambda>d.
     seqM (getM l_top) (\<lambda>t.
     seqM (getstack (t - 2)) (\<lambda>key.
     seqM (getstack (t - 1)) (\<lambda>val.
     seqM (getM (\<lambda>L. string_hash (l_G L))) (\<lambda>sh.
     seqM (liftR E (luaH_set sh d key)) (\<lambda>(d, s).
     thenM (put_table h (write_slot d s val))
     (set_top (t - 2))))))))))"

definition api_rawseti :: "vmenv \<Rightarrow> int \<Rightarrow> int \<Rightarrow> unit vm" where
  "api_rawseti E idx n =
     thenM (api_checknelems 1)
     (seqM (table_at idx) (\<lambda>h.
     seqM (the_table h) (\<lambda>d.
     seqM (getM l_top) (\<lambda>t.
     seqM (getstack (t - 1)) (\<lambda>val.
     seqM (getM (\<lambda>L. string_hash (l_G L))) (\<lambda>sh.
     seqM (liftR E (luaH_setnum sh d n)) (\<lambda>(d, s).
     thenM (put_table h (write_slot d s val))
     (set_top (t - 1)))))))))"

definition lua_setmetatable :: "int \<Rightarrow> bool vm" where
  "lua_setmetatable objindex =
     thenM (api_checknelems 1)
     (seqM (index2adr objindex) (\<lambda>o'.
     thenM (api_checkvalidindex o')
     (seqM (read_at o') (\<lambda>v.
     seqM (getM l_top) (\<lambda>t.
     seqM (getstack (t - 1)) (\<lambda>m.
     seqM (case m of NIL \<Rightarrow> retM None | _ \<Rightarrow> seqM (the_addr m) (\<lambda>p. retM (Some p))) (\<lambda>mt.
     thenM (case v of
           TABLE p \<Rightarrow> seqM (the_table p) (\<lambda>d. put_table p (d\<lparr>metatable := mt\<rparr>))
         | USERDATA p \<Rightarrow>
             seqM (the_udata p) (\<lambda>u. modG (\<lambda>g. g\<lparr>udatas := (udatas g)(p \<mapsto> u\<lparr>ud_metatable := mt\<rparr>)\<rparr>))
         | _ \<Rightarrow> modG (\<lambda>g. g\<lparr>g_mt := (g_mt g)[ttype v := mt]\<rparr>))
     (thenM (set_top (t - 1))
     (retM True)))))))))"

definition lua_setfenv :: "int \<Rightarrow> bool vm" where
  "lua_setfenv idx =
     thenM (api_checknelems 1)
     (seqM (index2adr idx) (\<lambda>o'.
     thenM (api_checkvalidindex o')
     (seqM (read_at o') (\<lambda>v.
     seqM (getM l_top) (\<lambda>t.
     seqM (getstack (t - 1)) (\<lambda>m.
     seqM (the_addr m) (\<lambda>e.
     seqM (case v of
                  FUNCTION p \<Rightarrow> thenM (set_env p e) (retM True)
                | USERDATA p \<Rightarrow>
                    seqM (the_udata p) (\<lambda>u.
                    thenM (modG (\<lambda>g. g\<lparr>udatas := (udatas g)(p \<mapsto> u\<lparr>ud_env := Some e\<rparr>)\<rparr>)) (retM True))
                | THREAD p \<Rightarrow> thenM (modM (\<lambda>L. L\<lparr>l_gt := TABLE e\<rparr>)) (retM True)
                | _ \<Rightarrow> retM False) (\<lambda>res.
     thenM (set_top (t - 1))
     (retM res)))))))))"

section \<open>Calls\<close>

definition adjustresults :: "int \<Rightarrow> unit vm" where
  "adjustresults nres =
     seqM (getM l_ci) (\<lambda>i.
     seqM (the_ci i) (\<lambda>c.
     seqM (getM l_top) (\<lambda>t.
     whenM (nres = LUA_MULTRET \<and> t \<ge> ci_top c) (put_ci i (c\<lparr>ci_top := t\<rparr>)))))"

definition checkresults :: "int \<Rightarrow> int \<Rightarrow> unit vm" where
  "checkresults na nr =
     seqM cur_ci (\<lambda>c.
     seqM (getM l_top) (\<lambda>t.
     assertM (nr = LUA_MULTRET \<or> int (ci_top c) - int t \<ge> nr - na)))"

definition lua_call :: "vmenv \<Rightarrow> nat \<Rightarrow> int \<Rightarrow> unit vm" where
  "lua_call E nargs nresults =
     thenM (api_checknelems (int nargs + 1))
     (thenM (checkresults (int nargs) nresults)
     (seqM (getM l_top) (\<lambda>t.
     thenM (e_call E (t - (nargs + 1)) nresults)
     (adjustresults nresults))))"

definition lua_pcall :: "vmenv \<Rightarrow> nat \<Rightarrow> int \<Rightarrow> int \<Rightarrow> int vm" where
  "lua_pcall E nargs nresults errfunc =
     thenM (api_checknelems (int nargs + 1))
     (thenM (checkresults (int nargs) nresults)
     (seqM (if errfunc = 0 then retM 0
               else
                 seqM (index2adr errfunc) (\<lambda>o'.
                 thenM (api_checkvalidindex o')
                 (stack_index o'))) (\<lambda>ef.
     seqM (getM l_top) (\<lambda>t.
     seqM (luaD_pcall E (e_call E (t - (nargs + 1)) nresults) (t - (nargs + 1)) ef) (\<lambda>status.
     thenM (adjustresults nresults)
     (retM status))))))"

definition f_Ccall :: "vmenv \<Rightarrow> nat \<Rightarrow> addr \<Rightarrow> unit vm" where
  "f_Ccall E f ud =
     seqM getcurrenv (\<lambda>e.
     seqM (luaF_newCclosure f [] e) (\<lambda>cl.
     thenM (push (FUNCTION cl))
     (thenM (push (LIGHTUSERDATA ud))
     (seqM (getM l_top) (\<lambda>t.
     e_call E (t - 2) 0)))))"

definition lua_cpcall :: "vmenv \<Rightarrow> nat \<Rightarrow> addr \<Rightarrow> int vm" where
  "lua_cpcall E f ud = seqM (getM l_top) (\<lambda>t. luaD_pcall E (f_Ccall E f ud) t 0)"

definition lua_error :: "vmenv \<Rightarrow> 'a vm" where
  "lua_error E = thenM (api_checknelems 1) (luaG_errormsg E)"

section \<open>Loading\<close>

text \<open>An error of the parser leaves its message on the stack.\<close>

definition throw_error :: "vmenv \<Rightarrow> lua_error \<Rightarrow> 'a vm" where
  "throw_error E e =
     (case e of
        SyntaxError msg \<Rightarrow> thenM (push_string msg) (luaD_throw LUA_ERRSYNTAX)
      | e \<Rightarrow> liftR E (Inl e))"

definition run_parser :: "vmenv \<Rightarrow> 'd penv \<Rightarrow> 'd ZIO \<Rightarrow> string \<Rightarrow> Proto vm" where
  "run_parser E P z name =
     seqM (getM id) (\<lambda>L.
     case luaY_parser P (l_G L) (l_nCcalls L) z \<lparr>mb_buffer = [], mb_n = 0, mb_size = 0\<rparr> name of
           Inl e \<Rightarrow> throw_error E e
         | Inr (p, s) \<Rightarrow> thenM (modG (\<lambda>_. ps_G s)) (retM p))"

definition run_undump :: "vmenv \<Rightarrow> 'd penv \<Rightarrow> 'd ZIO \<Rightarrow> string \<Rightarrow> Proto vm" where
  "run_undump E P z name =
     seqM (getM l_nCcalls) (\<lambda>n.
     case luaU_undump (le_reader (pe_lex P)) n z name of
           Inl e \<Rightarrow> throw_error E e
         | Inr (_, p) \<Rightarrow> retM p)"

primrec new_upvals :: "nat \<Rightarrow> addr option list vm" where
  "new_upvals 0 = retM []"
| "new_upvals (Suc n) = seqM luaF_newupval (\<lambda>u. seqM (new_upvals n) (\<lambda>us. retM (Some u # us)))"

definition f_parser :: "vmenv \<Rightarrow> 'd penv \<Rightarrow> 'd ZIO \<Rightarrow> string \<Rightarrow> unit vm" where
  "f_parser E P z name =
     seqM (liftR E (luaZ_lookahead (le_reader (pe_lex P)) z)) (\<lambda>(z, c).
     seqM (if c = 27 then run_undump E P z name else run_parser E P z name) (\<lambda>tf.
     seqM (getM l_gt) (\<lambda>gt.
     seqM (the_addr gt) (\<lambda>e.
     seqM (luaF_newLclosure tf (unat (p_nups tf)) e) (\<lambda>cl.
     seqM (new_upvals (unat (p_nups tf))) (\<lambda>ups.
     thenM (modG (\<lambda>g. g\<lparr>closures := (closures g)(cl \<mapsto> LClosure e tf ups)\<rparr>))
     (seqM (getM l_top) (\<lambda>t.
     thenM (setstack t (FUNCTION cl))
     (incr_top)))))))))"

definition luaD_protectedparser :: "vmenv \<Rightarrow> 'd penv \<Rightarrow> 'd ZIO \<Rightarrow> string \<Rightarrow> int vm" where
  "luaD_protectedparser E P z name =
     seqM (getM l_top) (\<lambda>t.
     seqM (getM l_errfunc) (\<lambda>ef.
     luaD_pcall E (f_parser E P z name) t ef))"

definition lua_load :: "vmenv \<Rightarrow> 'd penv \<Rightarrow> 'd \<Rightarrow> string option \<Rightarrow> int vm" where
  "lua_load E P data chunkname =
     luaD_protectedparser E P (luaZ_init data) (case chunkname of None \<Rightarrow> ''?'' | Some s \<Rightarrow> s)"

definition lua_status :: "int vm" where "lua_status = getM l_status"

section \<open>Traversal, concatenation, user data, upvalues\<close>

definition lua_next :: "vmenv \<Rightarrow> int \<Rightarrow> bool vm" where
  "lua_next E idx =
     seqM (table_at idx) (\<lambda>h.
     seqM (the_table h) (\<lambda>d.
     seqM (getM l_top) (\<lambda>t.
     seqM (getstack (t - 1)) (\<lambda>key.
     seqM (getM (\<lambda>L. string_hash (l_G L))) (\<lambda>sh.
     seqM (liftR E (luaH_next sh d key)) (\<lambda>r.
     case r of
           Some (k, v) \<Rightarrow>
             thenM (setstack (t - 1) k)
             (thenM (setstack t v)
             (thenM api_incr_top
             (retM True)))
         | None \<Rightarrow> thenM (set_top (t - 1)) (retM False)))))))"

definition lua_concat :: "vmenv \<Rightarrow> nat \<Rightarrow> unit vm" where
  "lua_concat E n =
     thenM (api_checknelems (int n))
     (seqM (getM id) (\<lambda>L.
     if n \<ge> 2 then
           thenM (luaV_concat E n (l_top L - l_base L - 1))
           (seqM (getM l_top) (\<lambda>t.
           set_top (t - (n - 1))))
         else whenM (n = 0) (lua_pushlstring E [])))"

definition sizeof_Udata :: int where "sizeof_Udata = 40"

definition luaS_newudata :: "vmenv \<Rightarrow> u64 \<Rightarrow> addr \<Rightarrow> addr vm" where
  "luaS_newudata E s e =
     thenM (whenM (uint s > MAX_SIZET - sizeof_Udata) (luaG_runerror E ''memory allocation error: block too big''))
     (seqM new_addr (\<lambda>a.
     thenM (modG (\<lambda>g. g\<lparr>udatas := (udatas g)(a \<mapsto> \<lparr>ud_metatable = None, ud_env = Some e, ud_len = s\<rparr>)\<rparr>))
     (retM a)))"

definition lua_newuserdata :: "vmenv \<Rightarrow> u64 \<Rightarrow> addr vm" where
  "lua_newuserdata E sz =
     seqM getcurrenv (\<lambda>e.
     seqM (luaS_newudata E sz e) (\<lambda>u.
     thenM (push (USERDATA u))
     (retM u)))"

text \<open>The name of an upvalue and its value; \<open>None\<close> for no such upvalue.\<close>

definition aux_upvalue :: "TValue \<Rightarrow> int \<Rightarrow> (string \<times> addr \<times> Closure) option vm" where
  "aux_upvalue fi n =
     (case fi of
        FUNCTION p \<Rightarrow>
          seqM (the_closure p) (\<lambda>f.
          case f of
                CClosure e c ups \<Rightarrow> retM (if 1 \<le> n \<and> n \<le> int (length ups) then Some ([], p, f) else None)
              | LClosure e pt ups \<Rightarrow>
                  if \<not> (1 \<le> n \<and> n \<le> int (length (p_upvalues pt))) then retM None
                  else
                    seqM (theM (p_upvalues pt ! nat (n - 1))) (\<lambda>name.
                    retM (Some (of_tstring name, p, f))))
      | _ \<Rightarrow> retM None)"

definition lua_getupvalue :: "int \<Rightarrow> int \<Rightarrow> string option vm" where
  "lua_getupvalue funcindex n =
     seqM (value_at funcindex) (\<lambda>fi.
     seqM (aux_upvalue fi n) (\<lambda>r.
     case r of
           None \<Rightarrow> retM None
         | Some (name, p, f) \<Rightarrow>
             seqM (case f of
                        CClosure e c ups \<Rightarrow> retM (ups ! nat (n - 1))
                      | LClosure e pt ups \<Rightarrow> seqM (nth_upval ups (n - 1)) get_upval) (\<lambda>v.
             thenM (push v)
             (retM (Some name)))))"

definition lua_setupvalue :: "int \<Rightarrow> int \<Rightarrow> string option vm" where
  "lua_setupvalue funcindex n =
     seqM (value_at funcindex) (\<lambda>fi.
     thenM (api_checknelems 1)
     (seqM (aux_upvalue fi n) (\<lambda>r.
     case r of
           None \<Rightarrow> retM None
         | Some (name, p, f) \<Rightarrow>
             seqM (getM l_top) (\<lambda>t.
             thenM (set_top (t - 1))
             (seqM (getstack (t - 1)) (\<lambda>v.
             thenM (case f of
                   CClosure e c ups \<Rightarrow> write_at (AtUpvalue p (nat (n - 1))) v
                 | LClosure e pt ups \<Rightarrow> seqM (nth_upval ups (n - 1)) (\<lambda>u. set_upval u v))
             (retM (Some name))))))))"

end
