(* ===== verification/Gc.thy ===== *)
theory Gc
  imports VmOps Zio
begin

text \<open>
  The collector (\<open>lgc.c\<close>, \<open>lgc.h\<close>), first part: colours and the marking of what is reachable.
  It sees every object, prototypes and threads included, in one store \<open>gco\<close> with the header
  \<open>marked\<close>; the lists chained by \<open>next\<close> and \<open>gclist\<close> are lists of addresses, in their order.
\<close>

section \<open>Objects as the collector sees them\<close>

text \<open>An open upvalue points into the stack of a thread.\<close>

datatype uvplace = InStack addr nat | Closed

record gcthread =
  th_gt :: TValue
  th_top :: nat
  th_stack_last :: nat
  th_stack :: "TValue list"
  th_base_ci :: "CallInfo list"
  th_ci :: nat
  th_allowhook :: bool
  th_openupval :: "addr list"

record gcproto =
  f_source :: "addr option"
  f_constants :: "TValue list"
  f_upvalues :: "addr option list"
  f_children :: "addr option list"
  f_locvars :: "addr option list"
  f_code :: nat      \<comment> \<open>the sizes of the vectors without references\<close>
  f_lineinfo :: nat

datatype gcbody =
    GString TString
  | GUdata Udata
  | GTable Table
  | GCClosure addr "TValue list"
  | GLClosure addr addr "addr option list"
  | GProto gcproto
  | GUpval uvplace TValue
  | GThread gcthread

record GCObject =
  marked :: u8
  body :: gcbody

fun gch_tt :: "gcbody \<Rightarrow> nat" where
  "gch_tt (GString s) = 4"
| "gch_tt (GTable t) = 5"
| "gch_tt (GCClosure e us) = 6"
| "gch_tt (GLClosure e p us) = 6"
| "gch_tt (GUdata u) = 7"
| "gch_tt (GThread th) = 8"
| "gch_tt (GProto f) = 9"
| "gch_tt (GUpval v x) = 10"

datatype GCState = GCSpause | GCSpropagate | GCSsweepstring | GCSsweep | GCSfinalize

text \<open>
  A pointer to a link is the list and the object whose link it is, \<open>None\<close> for the head.
  \<open>rootgc\<close> runs from the newest object to the main thread and the user data chained behind it;
  \<open>tmudata\<close> is the circular list of user data to be finalized, from its first element.
\<close>

datatype listhead = RootGC | StrHash nat | OpenUpval addr

record gc_State =
  gco :: "addr \<Rightarrow> GCObject option"
  currentwhite :: u8
  gcstate :: GCState
  sweepstrgc :: nat
  rootgc :: "addr list"
  sweepgc :: "addr option"
  gray :: "addr list"
  grayagain :: "addr list"
  weak :: "addr list"
  tmudata :: "addr list"
  strt_hash :: "addr list list"
  strt_nuse :: nat
  g_buffsize :: nat
  GCthreshold :: int
  totalbytes :: int
  estimate :: int
  gcdept :: int
  gcpause :: int
  gcstepmul :: int
  registry :: TValue
  mainthread :: addr
  g_uvhead :: "addr list"
  mt :: "addr option list"
  g_tmname :: "addr list"

section \<open>Computations\<close>

text \<open>\<open>None\<close> is an access to no object, an object of another type, or a failed assertion.\<close>

type_synonym 'a gcm = "gc_State \<Rightarrow> ('a \<times> gc_State) option"

definition retC :: "'a \<Rightarrow> 'a gcm" where "retC x = (\<lambda>g. Some (x, g))"
definition seqC :: "'a gcm \<Rightarrow> ('a \<Rightarrow> 'b gcm) \<Rightarrow> 'b gcm" where
  "seqC m f = (\<lambda>g. case m g of None \<Rightarrow> None | Some (x, g) \<Rightarrow> f x g)"
definition thenC :: "'a gcm \<Rightarrow> 'b gcm \<Rightarrow> 'b gcm" where "thenC m n = seqC m (\<lambda>_. n)"
definition getC :: "(gc_State \<Rightarrow> 'a) \<Rightarrow> 'a gcm" where "getC f = (\<lambda>g. Some (f g, g))"
definition modC :: "(gc_State \<Rightarrow> gc_State) \<Rightarrow> unit gcm" where "modC f = (\<lambda>g. Some ((), f g))"
definition failC :: "'a gcm" where "failC = (\<lambda>g. None)"
definition assertC :: "bool \<Rightarrow> unit gcm" where "assertC b = (if b then retC () else failC)"
definition whenC :: "bool \<Rightarrow> unit gcm \<Rightarrow> unit gcm" where "whenC b m = (if b then m else retC ())"
definition theC :: "'a option \<Rightarrow> 'a gcm" where
  "theC x = (case x of None \<Rightarrow> failC | Some x \<Rightarrow> retC x)"

primrec forC :: "'a list \<Rightarrow> ('a \<Rightarrow> unit gcm) \<Rightarrow> unit gcm" where
  "forC [] f = retC ()"
| "forC (x # xs) f = thenC (f x) (forC xs f)"

definition obj :: "addr \<Rightarrow> GCObject gcm" where "obj a = seqC (getC (\<lambda>g. gco g a)) theC"

definition set_body :: "addr \<Rightarrow> gcbody \<Rightarrow> unit gcm" where
  "set_body a b = seqC (obj a) (\<lambda>x. modC (\<lambda>g. g\<lparr>gco := (gco g)(a \<mapsto> x\<lparr>body := b\<rparr>)\<rparr>))"

definition set_marked :: "addr \<Rightarrow> u8 \<Rightarrow> unit gcm" where
  "set_marked a m = seqC (obj a) (\<lambda>x. modC (\<lambda>g. g\<lparr>gco := (gco g)(a \<mapsto> x\<lparr>marked := m\<rparr>)\<rparr>))"

definition gc_table :: "addr \<Rightarrow> Table gcm" where
  "gc_table a = seqC (obj a) (\<lambda>x. case body x of GTable h \<Rightarrow> retC h | _ \<Rightarrow> failC)"

definition gc_udata :: "addr \<Rightarrow> Udata gcm" where
  "gc_udata a = seqC (obj a) (\<lambda>x. case body x of GUdata u \<Rightarrow> retC u | _ \<Rightarrow> failC)"

definition gc_thread :: "addr \<Rightarrow> gcthread gcm" where
  "gc_thread a = seqC (obj a) (\<lambda>x. case body x of GThread th \<Rightarrow> retC th | _ \<Rightarrow> failC)"

section \<open>Colours\<close>

unbundle bit_operations_syntax

definition WHITE0BIT :: nat where "WHITE0BIT = 0"
definition WHITE1BIT :: nat where "WHITE1BIT = 1"
definition BLACKBIT :: nat where "BLACKBIT = 2"
definition FINALIZEDBIT :: nat where "FINALIZEDBIT = 3"
definition KEYWEAKBIT :: nat where "KEYWEAKBIT = 3"
definition VALUEWEAKBIT :: nat where "VALUEWEAKBIT = 4"
definition FIXEDBIT :: nat where "FIXEDBIT = 5"
definition SFIXEDBIT :: nat where "SFIXEDBIT = 6"

definition bitmask :: "nat \<Rightarrow> u8" where "bitmask b = push_bit b 1"
definition bit2mask :: "nat \<Rightarrow> nat \<Rightarrow> u8" where "bit2mask b1 b2 = bitmask b1 OR bitmask b2"
definition l_setbit :: "u8 \<Rightarrow> nat \<Rightarrow> u8" where "l_setbit x b = x OR bitmask b"
definition resetbit :: "u8 \<Rightarrow> nat \<Rightarrow> u8" where "resetbit x b = x AND NOT (bitmask b)"
definition reset2bits :: "u8 \<Rightarrow> nat \<Rightarrow> nat \<Rightarrow> u8" where "reset2bits x b1 b2 = x AND NOT (bit2mask b1 b2)"
definition testbit :: "u8 \<Rightarrow> nat \<Rightarrow> bool" where "testbit x b \<longleftrightarrow> x AND bitmask b \<noteq> 0"

definition WHITEBITS :: u8 where "WHITEBITS = bit2mask WHITE0BIT WHITE1BIT"
definition KEYWEAK :: u8 where "KEYWEAK = bitmask KEYWEAKBIT"
definition VALUEWEAK :: u8 where "VALUEWEAK = bitmask VALUEWEAKBIT"
definition maskmarks :: u8 where "maskmarks = NOT (bitmask BLACKBIT OR WHITEBITS)"

definition iswhite :: "u8 \<Rightarrow> bool" where "iswhite m \<longleftrightarrow> m AND WHITEBITS \<noteq> 0"
definition isblack :: "u8 \<Rightarrow> bool" where "isblack m \<longleftrightarrow> testbit m BLACKBIT"
definition isgray :: "u8 \<Rightarrow> bool" where "isgray m \<longleftrightarrow> \<not> isblack m \<and> \<not> iswhite m"

definition otherwhite :: "gc_State \<Rightarrow> u8" where "otherwhite g = currentwhite g XOR WHITEBITS"
definition luaC_white :: "gc_State \<Rightarrow> u8" where "luaC_white g = currentwhite g AND WHITEBITS"
definition isdead :: "gc_State \<Rightarrow> u8 \<Rightarrow> bool" where "isdead g m \<longleftrightarrow> m AND otherwhite g AND WHITEBITS \<noteq> 0"

definition makewhite :: "addr \<Rightarrow> unit gcm" where
  "makewhite a = seqC (obj a) (\<lambda>x.
                 seqC (getC luaC_white) (\<lambda>w.
                 set_marked a ((marked x AND maskmarks) OR w)))"

definition white2gray :: "addr \<Rightarrow> unit gcm" where
  "white2gray a = seqC (obj a) (\<lambda>x.
                  set_marked a (reset2bits (marked x) WHITE0BIT WHITE1BIT))"

definition black2gray :: "addr \<Rightarrow> unit gcm" where
  "black2gray a = seqC (obj a) (\<lambda>x.
                  set_marked a (resetbit (marked x) BLACKBIT))"

definition gray2black :: "addr \<Rightarrow> unit gcm" where
  "gray2black a = seqC (obj a) (\<lambda>x.
                  set_marked a (l_setbit (marked x) BLACKBIT))"

definition gc_stringmark :: "addr \<Rightarrow> unit gcm" where
  "gc_stringmark a =
     seqC (obj a) (\<lambda>x.
     case body x of
           GString s \<Rightarrow> set_marked a (reset2bits (marked x) WHITE0BIT WHITE1BIT)
         | _ \<Rightarrow> failC)"

section \<open>Marking\<close>

text \<open>
  \<open>markobject\<close> and \<open>markvalue\<close> with what marks a white object. \<open>reallymarkobject\<close> calls itself
  for the metatable and environment of user data, which are tables, and for the value of an
  upvalue, which is no upvalue; so three levels are all there are.
\<close>

definition markobject_by :: "(addr \<Rightarrow> unit gcm) \<Rightarrow> addr \<Rightarrow> unit gcm" where
  "markobject_by really t = seqC (obj t) (\<lambda>x.
                            whenC (iswhite (marked x)) (really t))"

definition markvalue_by :: "(addr \<Rightarrow> unit gcm) \<Rightarrow> TValue \<Rightarrow> unit gcm" where
  "markvalue_by really v =
     (if iscollectable v then
        seqC (obj (gcvalue v)) (\<lambda>x.
        thenC (assertC (ttype v = gch_tt (body x)))
        (whenC (iswhite (marked x)) (really (gcvalue v))))
      else retC ())"

definition upval_value :: "uvplace \<Rightarrow> TValue \<Rightarrow> TValue gcm" where
  "upval_value v own =
     (case v of
        Closed \<Rightarrow> retC own
      | InStack th i \<Rightarrow>
          seqC (gc_thread th) (\<lambda>t.
          theC (if i < length (th_stack t) then Some (th_stack t ! i) else None)))"

definition push_gray :: "addr \<Rightarrow> unit gcm" where
  "push_gray a = modC (\<lambda>g. g\<lparr>gray := a # gray g\<rparr>)"

definition mark_step :: "(addr \<Rightarrow> unit gcm) \<Rightarrow> addr \<Rightarrow> unit gcm" where
  "mark_step really a =
     seqC (obj a) (\<lambda>x.
     seqC (getC id) (\<lambda>g.
     thenC (assertC (iswhite (marked x) \<and> \<not> isdead g (marked x)))
     (thenC (white2gray a)
     (case body x of
           GString s \<Rightarrow> retC ()
         | GUdata u \<Rightarrow>
             thenC (gray2black a)
             (thenC (case ud_metatable u of None \<Rightarrow> retC () | Some m \<Rightarrow> markobject_by really m)
             (seqC (theC (ud_env u)) (\<lambda>e.
             markobject_by really e)))
         | GUpval v own \<Rightarrow>
             seqC (upval_value v own) (\<lambda>val.
             thenC (markvalue_by really val)
             (whenC (v = Closed) (gray2black a)))
         | _ \<Rightarrow> push_gray a))))"

definition reallymarkobject :: "addr \<Rightarrow> unit gcm" where
  "reallymarkobject = mark_step (mark_step (mark_step (\<lambda>_. failC)))"

definition markobject :: "addr \<Rightarrow> unit gcm" where "markobject = markobject_by reallymarkobject"
definition markvalue :: "TValue \<Rightarrow> unit gcm" where "markvalue = markvalue_by reallymarkobject"

definition marktmu :: "unit gcm" where
  "marktmu = seqC (getC tmudata) (\<lambda>us.
             forC us (\<lambda>u. thenC (makewhite u) (reallymarkobject u)))"

section \<open>Tag methods\<close>

definition gc_string_hash :: "gc_State \<Rightarrow> addr \<Rightarrow> u32" where
  "gc_string_hash g p =
     (case gco g p of Some x \<Rightarrow> (case body x of GString s \<Rightarrow> ts_hash s | _ \<Rightarrow> 0) | None \<Rightarrow> 0)"

definition gc_gettm :: "addr \<Rightarrow> TMS \<Rightarrow> TValue option gcm" where
  "gc_gettm events event =
     seqC (gc_table events) (\<lambda>h.
     seqC (getC id) (\<lambda>g.
     seqC (theC (if tm_num event < length (g_tmname g) then Some (g_tmname g ! tm_num event) else None)) (\<lambda>ename.
     (let tm = read_slot h (luaH_getstr (gc_string_hash g) h ename) in
     if tm = NIL then
           thenC (set_body events (GTable (h\<lparr>flags := flags h OR push_bit (tm_num event) 1\<rparr>)))
           (retC None)
         else retC (Some tm)))))"

definition gfasttm :: "addr option \<Rightarrow> TMS \<Rightarrow> TValue option gcm" where
  "gfasttm et e =
     (case et of
        None \<Rightarrow> retC None
      | Some m \<Rightarrow>
          seqC (gc_table m) (\<lambda>h.
          if flags h AND push_bit (tm_num e) 1 \<noteq> 0 then retC None else gc_gettm m e))"

section \<open>Traversal\<close>

definition removeentry :: "Node \<Rightarrow> Node" where
  "removeentry n = (if iscollectable (i_key n) then n\<lparr>i_key := DEADKEY (gcvalue (i_key n))\<rparr> else n)"

definition weakness :: "TValue option \<Rightarrow> (bool \<times> bool) gcm" where
  "weakness mode =
     (case mode of
        Some (STRING s) \<Rightarrow>
          seqC (obj s) (\<lambda>x.
          case body x of
                GString ts \<Rightarrow> retC (CHR ''k'' \<in> set (cstr (ts_bytes ts)), CHR ''v'' \<in> set (cstr (ts_bytes ts)))
              | _ \<Rightarrow> failC)
      | _ \<Rightarrow> retC (False, False))"

definition traverse_node :: "addr \<Rightarrow> bool \<Rightarrow> bool \<Rightarrow> nat \<Rightarrow> unit gcm" where
  "traverse_node a weakkey weakvalue i =
     seqC (gc_table a) (\<lambda>h.
     seqC (theC (if i < length (node h) then Some (node h ! i) else None)) (\<lambda>n.
     thenC (assertC (ttype (i_key n) \<noteq> 11 \<or> i_val n = NIL))
     (if i_val n = NIL then set_body a (GTable (h\<lparr>node := (node h)[i := removeentry n]\<rparr>))
         else
           thenC (assertC (i_key n \<noteq> NIL))
           (thenC (whenC (\<not> weakkey) (markvalue (i_key n)))
           (whenC (\<not> weakvalue) (markvalue (i_val n)))))))"

definition traversetable :: "addr \<Rightarrow> bool gcm" where
  "traversetable a =
     seqC (gc_table a) (\<lambda>h.
     thenC (case metatable h of None \<Rightarrow> retC () | Some m \<Rightarrow> markobject m)
     (seqC (gfasttm (metatable h) TM_MODE) (\<lambda>mode.
     seqC (weakness mode) (\<lambda>(weakkey, weakvalue).
     thenC (whenC (weakkey \<or> weakvalue)
           (seqC (obj a) (\<lambda>x.
            thenC (set_marked a ((marked x AND NOT (KEYWEAK OR VALUEWEAK)) OR
                 ((if weakkey then KEYWEAK else 0) OR (if weakvalue then VALUEWEAK else 0))))
            (modC (\<lambda>g. g\<lparr>weak := a # weak g\<rparr>)))))
     (if weakkey \<and> weakvalue then retC True
         else
           thenC (whenC (\<not> weakvalue) (forC (rev (array h)) markvalue))
           (thenC (forC (rev [0..<length (node h)]) (traverse_node a weakkey weakvalue))
           (retC (weakkey \<or> weakvalue))))))))"

definition mark_option :: "(addr \<Rightarrow> unit gcm) \<Rightarrow> addr option \<Rightarrow> unit gcm" where
  "mark_option f x = (case x of None \<Rightarrow> retC () | Some a \<Rightarrow> f a)"

definition traverseproto :: "gcproto \<Rightarrow> unit gcm" where
  "traverseproto f =
     thenC (mark_option gc_stringmark (f_source f))
     (thenC (forC (f_constants f) markvalue)
     (thenC (forC (f_upvalues f) (mark_option gc_stringmark))
     (thenC (forC (f_children f) (mark_option markobject))
     (forC (f_locvars f) (mark_option gc_stringmark)))))"

text \<open>The assertion on the number of upvalues is left out: the store has no \<open>nups\<close>.\<close>

definition traverseclosure :: "gcbody \<Rightarrow> unit gcm" where
  "traverseclosure cl =
     (case cl of
        GCClosure e us \<Rightarrow> thenC (markobject e)
                                     (forC us markvalue)
      | GLClosure e p us \<Rightarrow>
          thenC (markobject e)
          (thenC (markobject p)
          (forC us (\<lambda>u. seqC (theC u) markobject)))
      | _ \<Rightarrow> failC)"

definition gc_reallocstack :: "nat \<Rightarrow> gcthread \<Rightarrow> gcthread" where
  "gc_reallocstack newsize th =
     (let realsize = newsize + 1 + EXTRA_STACK in
      th\<lparr>th_stack := take realsize (th_stack th @ replicate (realsize - length (th_stack th)) NIL),
         th_stack_last := newsize\<rparr>)"

definition gc_reallocCI :: "nat \<Rightarrow> gcthread \<Rightarrow> gcthread" where
  "gc_reallocCI newsize th =
     th\<lparr>th_base_ci := take newsize (th_base_ci th @ replicate (newsize - length (th_base_ci th)) blank_ci)\<rparr>"

definition sizeof_TValue :: int where "sizeof_TValue = 16"
definition sizeof_CallInfo :: int where "sizeof_CallInfo = 40"

definition checkstacksizes :: "gcthread \<Rightarrow> nat \<Rightarrow> gcthread" where
  "checkstacksizes th max' =
     (let ci_used = th_ci th; s_used = max'; size_ci = length (th_base_ci th) in
      if size_ci > LUAI_MAXCALLS then th
      else
        let th = (if 4 * ci_used < size_ci \<and> 2 * BASIC_CI_SIZE < size_ci
                  then gc_reallocCI (size_ci div 2) th else th);
            stacksize = length (th_stack th)
        in if 4 * s_used < stacksize \<and> 2 * (BASIC_STACK_SIZE + EXTRA_STACK) < stacksize
           then gc_reallocstack (stacksize div 2) th else th)"

definition thread_bytes :: "gcthread \<Rightarrow> int" where
  "thread_bytes th =
     sizeof_TValue * int (length (th_stack th)) + sizeof_CallInfo * int (length (th_base_ci th))"

definition stack_lim :: "gcthread \<Rightarrow> nat" where
  "stack_lim th = fold (\<lambda>c lim. max lim (ci_top c)) (take (th_ci th + 1) (th_base_ci th)) (th_top th)"

definition clear_stack :: "nat \<Rightarrow> nat \<Rightarrow> TValue list \<Rightarrow> TValue list" where
  "clear_stack from lim st = take from st @ replicate (lim + 1 - from) NIL @ drop (max from (lim + 1)) st"

definition traversestack :: "addr \<Rightarrow> unit gcm" where
  "traversestack a =
     seqC (gc_thread a) (\<lambda>th.
     thenC (markvalue (th_gt th))
     (thenC (assertC (th_ci th < length (th_base_ci th) \<and>
           (\<forall>c \<in> set (take (th_ci th + 1) (th_base_ci th)). ci_top c \<le> th_stack_last th)))
     ((let lim = stack_lim th in
     thenC (assertC (lim < length (th_stack th)))
     (thenC (forC (take (th_top th) (th_stack th)) markvalue)
     ((let th1 = th\<lparr>th_stack := clear_stack (th_top th) lim (th_stack th)\<rparr> in
     (let th2 = checkstacksizes th1 lim in
     thenC (set_body a (GThread th2))
     (modC (\<lambda>g. g\<lparr>totalbytes := totalbytes g + (thread_bytes th2 - thread_bytes th1)\<rparr>))))))))))"

section \<open>Propagation\<close>

definition sizeCclosure :: "nat \<Rightarrow> int" where "sizeCclosure n = 56 + sizeof_TValue * (int n - 1)"
definition sizeLclosure :: "nat \<Rightarrow> int" where "sizeLclosure n = 48 + 8 * (int n - 1)"
definition sizestring :: "TString \<Rightarrow> int" where "sizestring s = 24 + (int (length (ts_bytes s)) + 1)"
definition gc_sizeudata :: "Udata \<Rightarrow> int" where "gc_sizeudata u = 40 + uint (ud_len u)"

definition proto_bytes :: "gcproto \<Rightarrow> int" where
  "proto_bytes p =
     120 + 4 * int (f_code p) + 8 * int (length (f_children p)) + sizeof_TValue * int (length (f_constants p))
     + 4 * int (f_lineinfo p) + 16 * int (length (f_locvars p)) + 8 * int (length (f_upvalues p))"

text \<open>How much was traversed, in bytes.\<close>

definition propagatemark :: "int gcm" where
  "propagatemark =
     seqC (getC gray) (\<lambda>gs.
     seqC (theC (case gs of [] \<Rightarrow> None | a # _ \<Rightarrow> Some a)) (\<lambda>o'.
     seqC (obj o') (\<lambda>x.
     thenC (assertC (isgray (marked x)))
     (thenC (gray2black o')
     (thenC (modC (\<lambda>g. g\<lparr>gray := tl gs\<rparr>))
     (case body x of
           GTable h \<Rightarrow>
             seqC (traversetable o') (\<lambda>w.
             thenC (whenC w (black2gray o'))
             (retC (64 + sizeof_TValue * int (sizearray h) + 40 * int (sizenode h))))
         | GCClosure e us \<Rightarrow> thenC (traverseclosure (body x))
                                        (retC (sizeCclosure (length us)))
         | GLClosure e p us \<Rightarrow> thenC (traverseclosure (body x))
                                          (retC (sizeLclosure (length us)))
         | GThread th \<Rightarrow>
             thenC (modC (\<lambda>g. g\<lparr>grayagain := o' # grayagain g\<rparr>))
             (thenC (black2gray o')
             (thenC (traversestack o')
             (seqC (gc_thread o') (\<lambda>th.
             retC (184 + thread_bytes th)))))
         | GProto f \<Rightarrow> thenC (traverseproto f)
                                  (retC (proto_bytes f))
         | _ \<Rightarrow> failC))))))"

text \<open>\<open>None\<close> also when the loop does not end.\<close>

partial_function (option) propagateall :: "int gcm" where
  "propagateall g =
     (if gray g = [] then Some (0, g)
      else Option.bind (propagatemark g) (\<lambda>r. Option.bind (propagateall (snd r)) (\<lambda>s. Some (fst r + fst s, snd s))))"

end
