(* ===== verification/GcSweep.thy ===== *)
theory GcSweep
  imports Gc
begin

text \<open>
  The collector (\<open>lgc.c\<close>), second part: barriers, the atomic end of marking, sweeping, finalizers,
  and the state machine that runs them in steps. \<open>luaD_call\<close>, which runs a finalizer on a thread,
  is the argument \<open>call\<close>. Byte counts are integers: the total never falls below what is freed.
\<close>

section \<open>Barriers and new objects\<close>

definition checkliveness :: "TValue \<Rightarrow> unit gcm" where
  "checkliveness v =
     (if iscollectable v then
        seqC (obj (gcvalue v)) (\<lambda>x.
        seqC (getC id) (\<lambda>g.
        assertC (ttype v = gch_tt (body x) \<and> \<not> isdead g (marked x))))
      else retC ())"

definition luaC_barrierf :: "addr \<Rightarrow> addr \<Rightarrow> unit gcm" where
  "luaC_barrierf o' v =
     seqC (obj o') (\<lambda>x.
     seqC (obj v) (\<lambda>y.
     seqC (getC id) (\<lambda>g.
     thenC (assertC (isblack (marked x) \<and> iswhite (marked y) \<and> \<not> isdead g (marked y) \<and> \<not> isdead g (marked x)))
     (thenC (assertC (gcstate g \<noteq> GCSfinalize \<and> gcstate g \<noteq> GCSpause))
     (thenC (assertC (gch_tt (body x) \<noteq> 5))
     (if gcstate g = GCSpropagate then reallymarkobject v else makewhite o'))))))"

definition luaC_barrierback :: "addr \<Rightarrow> unit gcm" where
  "luaC_barrierback t =
     seqC (gc_table t) (\<lambda>h.
     seqC (obj t) (\<lambda>x.
     seqC (getC id) (\<lambda>g.
     thenC (assertC (isblack (marked x) \<and> \<not> isdead g (marked x)))
     (thenC (assertC (gcstate g \<noteq> GCSfinalize \<and> gcstate g \<noteq> GCSpause))
     (thenC (black2gray t)
     (modC (\<lambda>g. g\<lparr>grayagain := t # grayagain g\<rparr>)))))))"

definition valiswhite :: "TValue \<Rightarrow> bool gcm" where
  "valiswhite v =
     (if iscollectable v then seqC (obj (gcvalue v)) (\<lambda>x.
                              retC (iswhite (marked x))) else retC False)"

definition luaC_objbarrier :: "addr \<Rightarrow> addr \<Rightarrow> unit gcm" where
  "luaC_objbarrier p o' =
     seqC (obj o') (\<lambda>y.
     seqC (obj p) (\<lambda>x.
     whenC (iswhite (marked y) \<and> isblack (marked x)) (luaC_barrierf p o')))"

definition luaC_objbarriert :: "addr \<Rightarrow> addr \<Rightarrow> unit gcm" where
  "luaC_objbarriert t o' =
     seqC (obj o') (\<lambda>y.
     seqC (obj t) (\<lambda>x.
     whenC (iswhite (marked y) \<and> isblack (marked x)) (luaC_barrierback t)))"

definition luaC_barrier :: "addr \<Rightarrow> TValue \<Rightarrow> unit gcm" where
  "luaC_barrier p v =
     seqC (valiswhite v) (\<lambda>w.
     seqC (obj p) (\<lambda>x.
     whenC (w \<and> isblack (marked x)) (luaC_barrierf p (gcvalue v))))"

definition luaC_barriert :: "addr \<Rightarrow> TValue \<Rightarrow> unit gcm" where
  "luaC_barriert t v =
     seqC (valiswhite v) (\<lambda>w.
     seqC (obj t) (\<lambda>x.
     whenC (w \<and> isblack (marked x)) (luaC_barrierback t)))"

text \<open>The block \<open>a\<close> comes from the allocator; the body is what the caller fills in.\<close>

definition luaC_link :: "addr \<Rightarrow> gcbody \<Rightarrow> unit gcm" where
  "luaC_link a b =
     modC (\<lambda>g. g\<lparr>gco := (gco g)(a \<mapsto> \<lparr>marked = luaC_white g, body = b\<rparr>), rootgc := a # rootgc g\<rparr>)"

definition gc_upval :: "addr \<Rightarrow> (uvplace \<times> TValue) gcm" where
  "gc_upval a = seqC (obj a) (\<lambda>x.
                case body x of GUpval v own \<Rightarrow> retC (v, own) | _ \<Rightarrow> failC)"

definition luaC_linkupval :: "addr \<Rightarrow> unit gcm" where
  "luaC_linkupval uv =
     seqC (obj uv) (\<lambda>x.
     thenC (modC (\<lambda>g. g\<lparr>rootgc := uv # rootgc g\<rparr>))
     (seqC (getC gcstate) (\<lambda>st.
     if isgray (marked x) then
           if st = GCSpropagate then
             thenC (gray2black uv)
             (seqC (gc_upval uv) (\<lambda>(v, own).
             seqC (upval_value v own) (\<lambda>val.
             luaC_barrier uv val)))
           else thenC (makewhite uv)
                (assertC (st \<noteq> GCSfinalize \<and> st \<noteq> GCSpause))
         else retC ())))"

section \<open>Freeing\<close>

definition gc_free :: "addr \<Rightarrow> int \<Rightarrow> unit gcm" where
  "gc_free a bytes = modC (\<lambda>g. g\<lparr>gco := (gco g)(a := None), totalbytes := totalbytes g - bytes\<rparr>)"

definition gc_unlinkupval :: "addr \<Rightarrow> unit gcm" where
  "gc_unlinkupval uv = modC (\<lambda>g. g\<lparr>g_uvhead := remove1 uv (g_uvhead g)\<rparr>)"

definition luaF_freeupval :: "addr \<Rightarrow> unit gcm" where
  "luaF_freeupval uv =
     seqC (gc_upval uv) (\<lambda>(v, own).
     thenC (whenC (v \<noteq> Closed) (gc_unlinkupval uv))
     (gc_free uv 40))"

definition gc_close_step :: "addr \<Rightarrow> addr \<Rightarrow> addr list \<Rightarrow> unit gcm" where
  "gc_close_step th uv rest =
     seqC (obj uv) (\<lambda>x.
     seqC (gc_upval uv) (\<lambda>(v, own).
     thenC (assertC (\<not> isblack (marked x) \<and> v \<noteq> Closed))
     (seqC (gc_thread th) (\<lambda>t.
     thenC (set_body th (GThread (t\<lparr>th_openupval := rest\<rparr>)))
     (seqC (getC id) (\<lambda>g.
     if isdead g (marked x) then luaF_freeupval uv
         else
           thenC (gc_unlinkupval uv)
           (seqC (upval_value v own) (\<lambda>val.
           thenC (checkliveness val)
           (thenC (set_body uv (GUpval Closed val))
           (luaC_linkupval uv))))))))))"

primrec gc_close_loop :: "addr \<Rightarrow> nat \<Rightarrow> addr list \<Rightarrow> unit gcm" where
  "gc_close_loop th level [] = retC ()"
| "gc_close_loop th level (uv # rest) =
     seqC (gc_upval uv) (\<lambda>(v, own).
     if (case v of InStack t i \<Rightarrow> i \<ge> level | Closed \<Rightarrow> False) then
           thenC (gc_close_step th uv rest)
           (gc_close_loop th level rest)
         else retC ())"

definition gc_luaF_close :: "addr \<Rightarrow> nat \<Rightarrow> unit gcm" where
  "gc_luaF_close th level = seqC (gc_thread th) (\<lambda>t.
                            gc_close_loop th level (th_openupval t))"

definition luaE_freethread :: "addr \<Rightarrow> unit gcm" where
  "luaE_freethread L1 =
     thenC (gc_luaF_close L1 0)
     (seqC (gc_thread L1) (\<lambda>t.
     thenC (assertC (th_openupval t = []))
     (gc_free L1 (thread_bytes t + 184))))"

definition table_bytes :: "Table \<Rightarrow> int" where
  "table_bytes h = (if isdummy h then 0 else 40 * int (sizenode h)) + sizeof_TValue * int (sizearray h) + 64"

definition freeobj :: "addr \<Rightarrow> addr \<Rightarrow> unit gcm" where
  "freeobj L o' =
     seqC (obj o') (\<lambda>x.
     case body x of
           GProto f \<Rightarrow> gc_free o' (proto_bytes f)
         | GCClosure e us \<Rightarrow> gc_free o' (sizeCclosure (length us))
         | GLClosure e p us \<Rightarrow> gc_free o' (sizeLclosure (length us))
         | GUpval v own \<Rightarrow> luaF_freeupval o'
         | GTable h \<Rightarrow> gc_free o' (table_bytes h)
         | GThread t \<Rightarrow>
             seqC (getC mainthread) (\<lambda>m.
             thenC (assertC (o' \<noteq> L \<and> o' \<noteq> m))
             (luaE_freethread o'))
         | GString s \<Rightarrow>
             thenC (modC (\<lambda>g. g\<lparr>strt_nuse := strt_nuse g - 1\<rparr>))
             (gc_free o' (sizestring s))
         | GUdata u \<Rightarrow> gc_free o' (gc_sizeudata u))"

section \<open>Sweeping\<close>

definition get_list :: "listhead \<Rightarrow> addr list gcm" where
  "get_list h =
     (case h of
        RootGC \<Rightarrow> getC rootgc
      | StrHash i \<Rightarrow> seqC (getC (\<lambda>g. if i < length (strt_hash g) then Some (strt_hash g ! i) else None)) theC
      | OpenUpval th \<Rightarrow> seqC (gc_thread th) (\<lambda>t.
                                   retC (th_openupval t)))"

definition put_list :: "listhead \<Rightarrow> addr list \<Rightarrow> unit gcm" where
  "put_list h xs =
     (case h of
        RootGC \<Rightarrow> modC (\<lambda>g. g\<lparr>rootgc := xs\<rparr>)
      | StrHash i \<Rightarrow> modC (\<lambda>g. g\<lparr>strt_hash := (strt_hash g)[i := xs]\<rparr>)
      | OpenUpval th \<Rightarrow> seqC (gc_thread th) (\<lambda>t.
                                   set_body th (GThread (t\<lparr>th_openupval := xs\<rparr>))))"

text \<open>What hangs behind the link of an object.\<close>

definition behind :: "addr option \<Rightarrow> addr list \<Rightarrow> addr list" where
  "behind p xs = (case p of None \<Rightarrow> xs | Some a \<Rightarrow> tl (dropWhile (\<lambda>x. x \<noteq> a) xs))"

definition sweep_one :: "(addr \<Rightarrow> unit gcm) \<Rightarrow> addr \<Rightarrow> listhead \<Rightarrow> addr option \<Rightarrow> addr \<Rightarrow> addr option gcm" where
  "sweep_one sweepopen L h p cur =
     seqC (obj cur) (\<lambda>x.
     thenC (case body x of GThread t \<Rightarrow> sweepopen cur | _ \<Rightarrow> retC ())
     (seqC (obj cur) (\<lambda>x.
     seqC (getC id) (\<lambda>g.
     (let deadmask = otherwhite g in
     if (marked x XOR WHITEBITS) AND deadmask \<noteq> 0 then
           thenC (assertC (\<not> isdead g (marked x) \<or> testbit (marked x) FIXEDBIT))
           (thenC (makewhite cur)
           (retC (Some cur)))
         else
           thenC (assertC (isdead g (marked x) \<or> deadmask = bitmask SFIXEDBIT))
           (seqC (get_list h) (\<lambda>xs.
           thenC (put_list h (remove1 cur xs))
           (thenC (freeobj L cur)
           (retC p)))))))))"

function sweeplist_by :: "(addr \<Rightarrow> unit gcm) \<Rightarrow> addr \<Rightarrow> listhead \<Rightarrow> nat \<Rightarrow> addr option \<Rightarrow> addr option gcm" where
  "sweeplist_by sweepopen L h n p =
     seqC (get_list h) (\<lambda>xs.
       case behind p xs of
         [] \<Rightarrow> retC p
       | cur # _ \<Rightarrow>
           if n = 0 then retC p
           else seqC (sweep_one sweepopen L h p cur) (sweeplist_by sweepopen L h (n - 1)))"
  by pat_completeness auto
termination by (relation "measure (\<lambda>(s, L, h, n, p). n)") auto

declare sweeplist_by.simps [simp del]

text \<open>The open upvalues of a thread hold no threads, so sweeping nests once.\<close>

definition MAX_LUMEM :: nat where "MAX_LUMEM = 2 ^ 64 - 3"

definition sweep_openupval :: "addr \<Rightarrow> addr \<Rightarrow> unit gcm" where
  "sweep_openupval L th = seqC (sweeplist_by (\<lambda>_. failC) L (OpenUpval th) MAX_LUMEM None) (\<lambda>_. retC ())"

definition sweeplist :: "addr \<Rightarrow> listhead \<Rightarrow> nat \<Rightarrow> addr option \<Rightarrow> addr option gcm" where
  "sweeplist L = sweeplist_by (sweep_openupval L) L"

definition sweepwholelist :: "addr \<Rightarrow> listhead \<Rightarrow> unit gcm" where
  "sweepwholelist L h = seqC (sweeplist L h MAX_LUMEM None) (\<lambda>_. retC ())"

definition MINSTRTABSIZE :: nat where "MINSTRTABSIZE = 32"

definition gc_push_chain :: "gc_State \<Rightarrow> nat \<Rightarrow> addr \<Rightarrow> addr list list \<Rightarrow> addr list list" where
  "gc_push_chain g newsize p newhash =
     (let h1 = lmod (gc_string_hash g p) newsize in newhash[h1 := p # newhash ! h1])"

definition gc_luaS_resize :: "nat \<Rightarrow> gc_State \<Rightarrow> gc_State" where
  "gc_luaS_resize newsize g =
     (if gcstate g = GCSsweepstring then g
      else g\<lparr>strt_hash := fold (gc_push_chain g newsize) (concat (strt_hash g)) (replicate newsize []),
             totalbytes := totalbytes g + 8 * int newsize - 8 * int (length (strt_hash g))\<rparr>)"

definition checkSizes :: "gc_State \<Rightarrow> gc_State" where
  "checkSizes g =
     (let g = (if strt_nuse g < length (strt_hash g) div 4 \<and> length (strt_hash g) > MINSTRTABSIZE * 2
               then gc_luaS_resize (length (strt_hash g) div 2) g else g)
      in if g_buffsize g > LUA_MINBUFFER * 2
         then let newsize = g_buffsize g div 2 in
              g\<lparr>g_buffsize := newsize, totalbytes := totalbytes g + int newsize - int (g_buffsize g)\<rparr>
         else g)"

definition luaC_freeall :: "addr \<Rightarrow> unit gcm" where
  "luaC_freeall L =
     thenC (modC (\<lambda>g. g\<lparr>currentwhite := WHITEBITS OR bitmask SFIXEDBIT\<rparr>))
     (thenC (sweepwholelist L RootGC)
     (seqC (getC (\<lambda>g. length (strt_hash g))) (\<lambda>n.
     forC [0..<n] (\<lambda>i. sweepwholelist L (StrHash i)))))"

section \<open>Finalizers\<close>

definition markfinalized :: "addr \<Rightarrow> unit gcm" where
  "markfinalized u = seqC (obj u) (\<lambda>x.
                     set_marked u (l_setbit (marked x) FINALIZEDBIT))"

primrec separate_loop :: "bool \<Rightarrow> addr list \<Rightarrow> int gcm" where
  "separate_loop all [] = retC 0"
| "separate_loop all (cur # rest) =
     seqC (obj cur) (\<lambda>x.
     seqC (gc_udata cur) (\<lambda>u.
     if \<not> (iswhite (marked x) \<or> all) \<or> testbit (marked x) FINALIZEDBIT then separate_loop all rest
         else
           seqC (gfasttm (ud_metatable u) TM_GC) (\<lambda>tm.
           thenC (markfinalized cur)
           (case tm of
                 None \<Rightarrow> separate_loop all rest
               | Some _ \<Rightarrow>
                   thenC (modC (\<lambda>g. g\<lparr>rootgc := remove1 cur (rootgc g), tmudata := tmudata g @ [cur]\<rparr>))
                   (seqC (separate_loop all rest) (\<lambda>deadmem.
                   retC (gc_sizeudata u + deadmem)))))))"

definition luaC_separateudata :: "bool \<Rightarrow> int gcm" where
  "luaC_separateudata all =
     seqC (getC (\<lambda>g. behind (Some (mainthread g)) (rootgc g))) (\<lambda>us.
     separate_loop all us)"

definition insert_behind :: "addr \<Rightarrow> addr \<Rightarrow> addr list \<Rightarrow> addr list" where
  "insert_behind a x xs = takeWhile (\<lambda>y. y \<noteq> a) xs @ [a, x] @ tl (dropWhile (\<lambda>y. y \<noteq> a) xs)"

definition put_stack :: "addr \<Rightarrow> nat \<Rightarrow> TValue \<Rightarrow> unit gcm" where
  "put_stack L i v =
     thenC (checkliveness v)
     (seqC (gc_thread L) (\<lambda>t.
     thenC (assertC (i < length (th_stack t)))
     (set_body L (GThread (t\<lparr>th_stack := (th_stack t)[i := v]\<rparr>)))))"

definition upd_thread :: "addr \<Rightarrow> (gcthread \<Rightarrow> gcthread) \<Rightarrow> unit gcm" where
  "upd_thread L f = seqC (gc_thread L) (\<lambda>t.
                    set_body L (GThread (f t)))"

definition GCTM :: "(addr \<Rightarrow> nat \<Rightarrow> unit gcm) \<Rightarrow> addr \<Rightarrow> unit gcm" where
  "GCTM call L =
     seqC (getC tmudata) (\<lambda>us.
     seqC (theC (case us of [] \<Rightarrow> None | u # _ \<Rightarrow> Some u)) (\<lambda>o'.
     seqC (gc_udata o') (\<lambda>udata.
     thenC (modC (\<lambda>g. g\<lparr>tmudata := tl us, rootgc := insert_behind (mainthread g) o' (rootgc g)\<rparr>))
     (thenC (makewhite o')
     (seqC (gfasttm (ud_metatable udata) TM_GC) (\<lambda>tm.
     case tm of
           None \<Rightarrow> retC ()
         | Some f \<Rightarrow>
             seqC (gc_thread L) (\<lambda>t.
             seqC (getC GCthreshold) (\<lambda>oldt.
             thenC (upd_thread L (\<lambda>t. t\<lparr>th_allowhook := False\<rparr>))
             (thenC (modC (\<lambda>g. g\<lparr>GCthreshold := 2 * totalbytes g\<rparr>))
             (thenC (put_stack L (th_top t) f)
             (thenC (put_stack L (th_top t + 1) (USERDATA o'))
             (thenC (upd_thread L (\<lambda>t. t\<lparr>th_top := th_top t + 2\<rparr>))
             (thenC (call L (th_top t))
             (thenC (upd_thread L (\<lambda>t'. t'\<lparr>th_allowhook := th_allowhook t\<rparr>))
             (modC (\<lambda>g. g\<lparr>GCthreshold := oldt\<rparr>))))))))))))))))"

partial_function (option) luaC_callGCTM :: "(addr \<Rightarrow> nat \<Rightarrow> unit gcm) \<Rightarrow> addr \<Rightarrow> unit gcm" where
  "luaC_callGCTM call L g =
     (if tmudata g = [] then Some ((), g)
      else Option.bind (GCTM call L g) (\<lambda>r. luaC_callGCTM call L (snd r)))"

section \<open>Marking from the roots\<close>

definition markmt :: "unit gcm" where
  "markmt = seqC (getC mt) (\<lambda>ms.
            forC ms (mark_option markobject))"

definition markroot :: "unit gcm" where
  "markroot =
     thenC (modC (\<lambda>g. g\<lparr>gray := [], grayagain := [], weak := []\<rparr>))
     (seqC (getC mainthread) (\<lambda>m.
     thenC (markobject m)
     (seqC (gc_thread m) (\<lambda>t.
     thenC (markvalue (th_gt t))
     (seqC (getC registry) (\<lambda>r.
     thenC (markvalue r)
     (thenC markmt
     (modC (\<lambda>g. g\<lparr>gcstate := GCSpropagate\<rparr>)))))))))"

definition remarkupvals :: "unit gcm" where
  "remarkupvals =
     seqC (getC g_uvhead) (\<lambda>us.
     forC us (\<lambda>uv.
           seqC (obj uv) (\<lambda>x.
           seqC (gc_upval uv) (\<lambda>(v, own).
           whenC (isgray (marked x)) (seqC (upval_value v own) markvalue)))))"

text \<open>An entry is cleared when its key or its value was not marked; strings count as values.\<close>

definition iscleared :: "TValue \<Rightarrow> bool \<Rightarrow> bool gcm" where
  "iscleared v iskey =
     (if \<not> iscollectable v then retC False
      else if ttype v = 4 then thenC (gc_stringmark (gcvalue v))
                               (retC False)
      else
        seqC (obj (gcvalue v)) (\<lambda>x.
        retC (iswhite (marked x) \<or> (ttype v = 7 \<and> \<not> iskey \<and> testbit (marked x) FINALIZEDBIT))))"

definition clear_slot :: "addr \<Rightarrow> nat \<Rightarrow> unit gcm" where
  "clear_slot a i =
     seqC (gc_table a) (\<lambda>h.
     seqC (theC (if i < length (array h) then Some (array h ! i) else None)) (\<lambda>v.
     seqC (iscleared v False) (\<lambda>c.
     whenC c (set_body a (GTable (h\<lparr>array := (array h)[i := NIL]\<rparr>))))))"

definition clear_node :: "addr \<Rightarrow> nat \<Rightarrow> unit gcm" where
  "clear_node a i =
     seqC (gc_table a) (\<lambda>h.
     seqC (theC (if i < length (node h) then Some (node h ! i) else None)) (\<lambda>n.
     if i_val n = NIL then retC ()
         else
           seqC (iscleared (i_key n) True) (\<lambda>ck.
           seqC (if ck then retC True else iscleared (i_val n) False) (\<lambda>c.
           whenC c (set_body a (GTable (h\<lparr>node := (node h)[i := removeentry (n\<lparr>i_val := NIL\<rparr>)]\<rparr>)))))))"

definition cleartable :: "addr list \<Rightarrow> unit gcm" where
  "cleartable l =
     forC l (\<lambda>a.
       seqC (gc_table a) (\<lambda>h.
       seqC (obj a) (\<lambda>x.
       thenC (assertC (testbit (marked x) VALUEWEAKBIT \<or> testbit (marked x) KEYWEAKBIT))
       (thenC (whenC (testbit (marked x) VALUEWEAKBIT) (forC (rev [0..<length (array h)]) (clear_slot a)))
       (forC (rev [0..<length (node h)]) (clear_node a))))))"

definition atomic :: "addr \<Rightarrow> unit gcm" where
  "atomic L =
     thenC remarkupvals
     (thenC propagateall
     (thenC (modC (\<lambda>g. g\<lparr>gray := weak g, weak := []\<rparr>))
     (seqC (getC mainthread) (\<lambda>m.
     seqC (obj m) (\<lambda>x.
     thenC (assertC (\<not> iswhite (marked x)))
     (thenC (markobject L)
     (thenC markmt
     (thenC propagateall
     (thenC (modC (\<lambda>g. g\<lparr>gray := grayagain g, grayagain := []\<rparr>))
     (thenC propagateall
     (seqC (luaC_separateudata False) (\<lambda>udsize.
     thenC marktmu
     (seqC propagateall (\<lambda>more.
     seqC (getC weak) (\<lambda>w.
     thenC (cleartable w)
     (modC (\<lambda>g. g\<lparr>currentwhite := otherwhite g, sweepstrgc := 0, sweepgc := None,
           gcstate := GCSsweepstring, estimate := totalbytes g - (udsize + more)\<rparr>)))))))))))))))))"

section \<open>The state machine\<close>

definition GCSTEPSIZE :: int where "GCSTEPSIZE = 1024"
definition GCSWEEPMAX :: nat where "GCSWEEPMAX = 40"
definition GCSWEEPCOST :: int where "GCSWEEPCOST = 10"
definition GCFINALIZECOST :: int where "GCFINALIZECOST = 100"

text \<open>After a sweep the estimate falls by what was freed.\<close>

definition settle :: "int \<Rightarrow> unit gcm" where
  "settle old =
     seqC (getC id) (\<lambda>g.
     thenC (assertC (old \<ge> totalbytes g))
     (modC (\<lambda>g. g\<lparr>estimate := estimate g - (old - totalbytes g)\<rparr>)))"

definition singlestep :: "(addr \<Rightarrow> nat \<Rightarrow> unit gcm) \<Rightarrow> addr \<Rightarrow> int gcm" where
  "singlestep call L =
     seqC (getC id) (\<lambda>g.
     case gcstate g of
           GCSpause \<Rightarrow> thenC markroot
                                  (retC 0)
         | GCSpropagate \<Rightarrow> if gray g \<noteq> [] then propagatemark else (thenC (atomic L)
                                                                                     (retC 0))
         | GCSsweepstring \<Rightarrow>
             thenC (modC (\<lambda>g. g\<lparr>sweepstrgc := sweepstrgc g + 1\<rparr>))
             (thenC (sweepwholelist L (StrHash (sweepstrgc g)))
             (seqC (getC (\<lambda>g. length (strt_hash g))) (\<lambda>n.
             thenC (whenC (sweepstrgc g + 1 \<ge> n) (modC (\<lambda>g. g\<lparr>gcstate := GCSsweep\<rparr>)))
             (thenC (settle (totalbytes g))
             (retC GCSWEEPCOST)))))
         | GCSsweep \<Rightarrow>
             seqC (sweeplist L RootGC GCSWEEPMAX (sweepgc g)) (\<lambda>p.
             thenC (modC (\<lambda>g. g\<lparr>sweepgc := p\<rparr>))
             (seqC (getC (\<lambda>g. behind p (rootgc g))) (\<lambda>rest.
             thenC (whenC (rest = []) (modC (\<lambda>g. (checkSizes g)\<lparr>gcstate := GCSfinalize\<rparr>)))
             (thenC (settle (totalbytes g))
             (retC (int GCSWEEPMAX * GCSWEEPCOST))))))
         | GCSfinalize \<Rightarrow>
             if tmudata g \<noteq> [] then
               (thenC (GCTM call L)
                (thenC (modC (\<lambda>g. if estimate g > GCFINALIZECOST then g\<lparr>estimate := estimate g - GCFINALIZECOST\<rparr> else g))
                (retC GCFINALIZECOST)))
             else (thenC (modC (\<lambda>g. g\<lparr>gcstate := GCSpause, gcdept := 0\<rparr>))
                   (retC 0)))"

partial_function (option) step_loop :: "(addr \<Rightarrow> nat \<Rightarrow> unit gcm) \<Rightarrow> addr \<Rightarrow> int \<Rightarrow> unit gcm" where
  "step_loop call L lim g =
     Option.bind (singlestep call L g) (\<lambda>r.
       if gcstate (snd r) = GCSpause \<or> \<not> lim - fst r > 0 then Some ((), snd r)
       else step_loop call L (lim - fst r) (snd r))"

definition setthreshold :: "gc_State \<Rightarrow> gc_State" where
  "setthreshold g = g\<lparr>GCthreshold := estimate g div 100 * gcpause g\<rparr>"

definition luaC_step :: "(addr \<Rightarrow> nat \<Rightarrow> unit gcm) \<Rightarrow> addr \<Rightarrow> unit gcm" where
  "luaC_step call L =
     seqC (getC id) (\<lambda>g.
     (let lim = GCSTEPSIZE div 100 * gcstepmul g in
     (let lim = (if lim = 0 then (int MAX_LUMEM - 1) div 2 else lim) in
     thenC (modC (\<lambda>g. g\<lparr>gcdept := gcdept g + (totalbytes g - GCthreshold g)\<rparr>))
     (thenC (step_loop call L lim)
     (modC (\<lambda>g. if gcstate g \<noteq> GCSpause
                   then if gcdept g < GCSTEPSIZE then g\<lparr>GCthreshold := totalbytes g + GCSTEPSIZE\<rparr>
                        else g\<lparr>gcdept := gcdept g - GCSTEPSIZE, GCthreshold := totalbytes g\<rparr>
                   else setthreshold g))))))"

text \<open>Single steps until the collector is in a state.\<close>

partial_function (option) steps_until :: "(addr \<Rightarrow> nat \<Rightarrow> unit gcm) \<Rightarrow> addr \<Rightarrow> GCState \<Rightarrow> unit gcm" where
  "steps_until call L st g =
     (if gcstate g = st then Some ((), g)
      else Option.bind (singlestep call L g) (\<lambda>r. steps_until call L st (snd r)))"

definition luaC_fullgc :: "(addr \<Rightarrow> nat \<Rightarrow> unit gcm) \<Rightarrow> addr \<Rightarrow> unit gcm" where
  "luaC_fullgc call L =
     thenC (modC (\<lambda>g. if gcstate g = GCSpause \<or> gcstate g = GCSpropagate
                   then g\<lparr>sweepstrgc := 0, sweepgc := None, gray := [], grayagain := [], weak := [],
                          gcstate := GCSsweepstring\<rparr>
                   else g))
     (thenC (steps_until call L GCSfinalize)
     (thenC markroot
     (thenC (steps_until call L GCSpause)
     (modC setthreshold))))"

end
