(* ===== verification/GcInv.thy ===== *)
theory GcInv
  imports GcSweep
begin

text \<open>
  The invariants of the collector: colours and the bits that hold them, references between
  objects, and the relation between a state and what marking makes of it.
\<close>

section \<open>Computations\<close>

lemma seqC_ret [simp]: "seqC (retC x) f = f x" by (simp add: seqC_def retC_def)
lemma seqC_get [simp]: "seqC (getC h) f g = f (h g) g" by (simp add: seqC_def getC_def)
lemma seqC_mod [simp]: "seqC (modC h) f g = f () (h g)" by (simp add: seqC_def modC_def)
lemma thenC_mod [simp]: "thenC (modC h) n g = n (h g)" by (simp add: thenC_def)
lemma thenC_ret [simp]: "thenC (retC x) n = n" by (simp add: thenC_def)
lemma retC_apply [simp]: "retC x g = Some (x, g)" by (simp add: retC_def)
lemma getC_apply [simp]: "getC h g = Some (h g, g)" by (simp add: getC_def)
lemma modC_apply [simp]: "modC h g = Some ((), h g)" by (simp add: modC_def)
lemma failC_apply [simp]: "failC g = None" by (simp add: failC_def)
lemma theC_Some [simp]: "theC (Some x) = retC x" by (simp add: theC_def)
lemma assertC_True [simp]: "assertC True = retC ()" by (simp add: assertC_def)
lemma whenC_simps [simp]: "whenC True m = m" "whenC False m = retC ()" by (simp_all add: whenC_def)
lemma seqC_assoc: "seqC (seqC m f) h = seqC m (\<lambda>x. seqC (f x) h)"
  by (auto simp: seqC_def fun_eq_iff split: option.splits prod.splits)

lemma seqC_eq: "m g = Some (x, g') \<Longrightarrow> seqC m f g = f x g'" by (simp add: seqC_def)
lemma seqC_run: assumes "m g = Some (x, g')" shows "\<And>f. seqC m f g = f x g'" by (simp add: seqC_def assms)
lemma thenC_run: assumes "m g = Some (x, g')" shows "\<And>n. thenC m n g = n g'" by (simp add: thenC_def seqC_def assms)
lemma thenC_eq: "m g = Some (x, g') \<Longrightarrow> thenC m n g = n g'" by (simp add: thenC_def seqC_eq)
lemma obj_eq: "gco g a = Some x \<Longrightarrow> obj a g = Some (x, g)" by (simp add: obj_def)
lemma seqC_obj: "gco g a = Some x \<Longrightarrow> seqC (obj a) f g = f x g" by (simp add: seqC_eq obj_eq)

lemma set_body_eq: "gco g a = Some x \<Longrightarrow>
    set_body a b g = Some ((), g\<lparr>gco := (gco g)(a \<mapsto> x\<lparr>body := b\<rparr>)\<rparr>)"
  by (simp add: set_body_def seqC_obj)

lemma set_marked_eq: "gco g a = Some x \<Longrightarrow>
    set_marked a m g = Some ((), g\<lparr>gco := (gco g)(a \<mapsto> x\<lparr>marked := m\<rparr>)\<rparr>)"
  by (simp add: set_marked_def seqC_obj)

lemma gc_table_eq: "gco g a = Some x \<Longrightarrow> body x = GTable h \<Longrightarrow> gc_table a g = Some (h, g)"
  by (simp add: gc_table_def seqC_obj)

lemma gc_thread_eq: "gco g a = Some x \<Longrightarrow> body x = GThread th \<Longrightarrow> gc_thread a g = Some (th, g)"
  by (simp add: gc_thread_def seqC_obj)

lemma seqC_table: "gco g a = Some x \<Longrightarrow> body x = GTable h \<Longrightarrow> seqC (gc_table a) f g = f h g"
  by (rule seqC_eq) (rule gc_table_eq)

lemma seqC_thread: "gco g a = Some x \<Longrightarrow> body x = GThread th \<Longrightarrow> seqC (gc_thread a) f g = f th g"
  by (rule seqC_eq) (rule gc_thread_eq)

section \<open>Colours\<close>

lemma bit_bitmask: "bit (bitmask b :: u8) i \<longleftrightarrow> i = b \<and> b < 8"
  by (auto simp: bitmask_def bit_simps)

lemma word_nonzero: "(w :: u8) \<noteq> 0 \<longleftrightarrow> (\<exists>i. bit w i)"
  by (metis bit_0_eq bit_eqI bot_fun_def bot_bool_def)

lemma testbit_bit: "b < 8 \<Longrightarrow> testbit m b \<longleftrightarrow> bit m b"
  by (auto simp: testbit_def word_nonzero bit_and_iff bit_bitmask)

lemma bit_WHITEBITS: "bit WHITEBITS i \<longleftrightarrow> i = 0 \<or> i = 1"
  by (auto simp: WHITEBITS_def bit2mask_def bit_or_iff bit_bitmask WHITE0BIT_def WHITE1BIT_def)

lemma iswhite_bit: "iswhite m \<longleftrightarrow> bit m 0 \<or> bit m 1"
  by (auto simp: iswhite_def word_nonzero bit_and_iff bit_WHITEBITS)

lemma isblack_bit: "isblack m \<longleftrightarrow> bit m 2" by (simp add: isblack_def testbit_bit BLACKBIT_def)
lemma isgray_bit: "isgray m \<longleftrightarrow> \<not> bit m 0 \<and> \<not> bit m 1 \<and> \<not> bit m 2"
  by (auto simp: isgray_def iswhite_bit isblack_bit)

lemma bit_otherwhite: "bit (otherwhite g) i \<longleftrightarrow> bit (currentwhite g) i \<noteq> (i = 0 \<or> i = 1)"
  by (simp add: otherwhite_def bit_xor_iff bit_WHITEBITS)

lemma isdead_bit: "isdead g m \<longleftrightarrow> (\<exists>i < 2. bit m i \<and> \<not> bit (currentwhite g) i)"
  by (auto simp: isdead_def word_nonzero bit_and_iff bit_WHITEBITS bit_otherwhite less_2_cases_iff)

lemma bit_l_setbit: "bit (l_setbit m b) i \<longleftrightarrow> bit m i \<or> (i = b \<and> b < 8)"
  by (simp add: l_setbit_def bit_or_iff bit_bitmask)
lemma bit_resetbit: "bit (resetbit m b) i \<longleftrightarrow> bit m i \<and> i \<noteq> b"
  using bit_imp_le_length [of m i] by (auto simp: resetbit_def bit_simps bit_bitmask)
lemma bit_reset2bits: "bit (reset2bits m b1 b2) i \<longleftrightarrow> bit m i \<and> i \<noteq> b1 \<and> i \<noteq> b2"
  using bit_imp_le_length [of m i] by (auto simp: reset2bits_def bit2mask_def bit_simps bit_bitmask)

lemma bit_makewhite: "bit ((m AND maskmarks) OR luaC_white g) i \<longleftrightarrow>
    (if i < 2 then bit (currentwhite g) i else i \<noteq> 2 \<and> bit m i)"
  using bit_imp_le_length [of m i]
  by (auto simp: maskmarks_def luaC_white_def bit_simps bit_bitmask bit_WHITEBITS BLACKBIT_def less_2_cases_iff)

lemmas bit_marks = iswhite_bit isblack_bit isgray_bit isdead_bit bit_l_setbit bit_resetbit bit_reset2bits
  bit_makewhite WHITE0BIT_def WHITE1BIT_def BLACKBIT_def FINALIZEDBIT_def KEYWEAKBIT_def VALUEWEAKBIT_def

section \<open>References\<close>

text \<open>A reference is an address with the type of the object it needs.\<close>

type_synonym gcref = "addr \<times> nat"

definition vrefs :: "TValue \<Rightarrow> gcref set" where
  "vrefs v = (if iscollectable v then {(gcvalue v, ttype v)} else {})"

definition orefs :: "nat \<Rightarrow> addr option \<Rightarrow> gcref set" where
  "orefs t x = (case x of None \<Rightarrow> {} | Some a \<Rightarrow> {(a, t)})"

text \<open>The references of a table: with those of its keys and those of its values, or without.\<close>

definition node_refs :: "bool \<Rightarrow> bool \<Rightarrow> Node \<Rightarrow> gcref set" where
  "node_refs k v n =
     (if i_val n = NIL then {}
      else (if k then vrefs (i_key n) else {}) \<union> (if v then vrefs (i_val n) else {}))"

definition table_refs :: "bool \<Rightarrow> bool \<Rightarrow> Table \<Rightarrow> gcref set" where
  "table_refs k v h = orefs 5 (metatable h) \<union> (if v then \<Union> (vrefs ` set (array h)) else {})
     \<union> \<Union> (node_refs k v ` set (node h))"

definition stack_at :: "gc_State \<Rightarrow> addr \<Rightarrow> nat \<Rightarrow> TValue option" where
  "stack_at g t i =
     (case gco g t of None \<Rightarrow> None | Some x \<Rightarrow>
        (case body x of
           GThread th \<Rightarrow> if i < th_top th \<and> i < length (th_stack th) then Some (th_stack th ! i) else None
         | _ \<Rightarrow> None))"

fun body_refs :: "gc_State \<Rightarrow> gcbody \<Rightarrow> gcref set" where
  "body_refs g (GString s) = {}"
| "body_refs g (GUdata u) = orefs 5 (ud_metatable u) \<union> orefs 5 (ud_env u)"
| "body_refs g (GTable h) = table_refs True True h"
| "body_refs g (GCClosure e us) = insert (e, 5) (\<Union> (vrefs ` set us))"
| "body_refs g (GLClosure e p us) = {(e, 5), (p, 9)} \<union> \<Union> (orefs 10 ` set us)"
| "body_refs g (GProto f) = orefs 4 (f_source f) \<union> \<Union> (vrefs ` set (f_constants f)) \<union>
     \<Union> (orefs 4 ` set (f_upvalues f)) \<union> \<Union> (orefs 9 ` set (f_children f)) \<union> \<Union> (orefs 4 ` set (f_locvars f))"
| "body_refs g (GUpval Closed v) = vrefs v"
| "body_refs g (GUpval (InStack t i) v) = (case stack_at g t i of None \<Rightarrow> {} | Some w \<Rightarrow> vrefs w)"
| "body_refs g (GThread th) = vrefs (th_gt th) \<union> \<Union> (vrefs ` set (take (th_top th) (th_stack th)))"

text \<open>The tag method a metatable has, as \<open>gfasttm\<close> finds it, and the weak mode of a table.\<close>

definition tab_tm :: "(addr \<Rightarrow> u32) \<Rightarrow> addr list \<Rightarrow> Table \<Rightarrow> TMS \<Rightarrow> TValue option" where
  "tab_tm sh names h e =
     (if flags h AND push_bit (tm_num e) 1 \<noteq> 0 then None
      else (let tm = read_slot h (luaH_getstr sh h (names ! tm_num e)) in if tm = NIL then None else Some tm))"

definition tm_of :: "gc_State \<Rightarrow> addr \<Rightarrow> TMS \<Rightarrow> TValue option" where
  "tm_of g m e =
     (case gco g m of None \<Rightarrow> None | Some x \<Rightarrow>
        (case body x of GTable h \<Rightarrow> tab_tm (gc_string_hash g) (g_tmname g) h e | _ \<Rightarrow> None))"

definition weak_of :: "gc_State \<Rightarrow> Table \<Rightarrow> bool \<times> bool" where
  "weak_of g h =
     (case Option.bind (metatable h) (\<lambda>m. tm_of g m TM_MODE) of
        Some (STRING s) \<Rightarrow>
          (case gco g s of None \<Rightarrow> (False, False) | Some x \<Rightarrow>
             (case body x of
                GString ts \<Rightarrow> (CHR ''k'' \<in> set (cstr (ts_bytes ts)), CHR ''v'' \<in> set (cstr (ts_bytes ts)))
              | _ \<Rightarrow> (False, False)))
      | _ \<Rightarrow> (False, False))"

text \<open>The strong references: those that marking follows.\<close>

definition strong_refs :: "gc_State \<Rightarrow> gcbody \<Rightarrow> gcref set" where
  "strong_refs g b =
     (case b of GTable h \<Rightarrow> table_refs (\<not> fst (weak_of g h)) (\<not> snd (weak_of g h)) h | _ \<Rightarrow> body_refs g b)"

lemma strong_body: "strong_refs g b \<subseteq> body_refs g b"
  by (auto simp: strong_refs_def table_refs_def node_refs_def split: gcbody.splits if_splits)

section \<open>Well-formed stores\<close>

definition has :: "gc_State \<Rightarrow> gcref \<Rightarrow> bool" where
  "has g r \<longleftrightarrow> (\<exists>x. gco g (fst r) = Some x \<and> gch_tt (body x) = snd r)"

definition node_ok :: "Table \<Rightarrow> Node \<Rightarrow> bool" where
  "node_ok h n \<longleftrightarrow> (\<forall>j. gnext n = Some j \<longrightarrow> j < length (node h)) \<and>
     (ttype (i_key n) = 11 \<or> i_key n = NIL \<longrightarrow> i_val n = NIL)"

definition gctable_ok :: "Table \<Rightarrow> bool" where
  "gctable_ok h \<longleftrightarrow> length (node h) = 2 ^ lsizenode h \<and> lsizenode h \<le> 30 \<and>
     (\<forall>n \<in> set (node h). node_ok h n) \<and>
     (\<forall>i < length (node h). \<forall>j < length (node h). \<forall>p.
        i_key (node h ! i) = STRING p \<and> i_key (node h ! j) = STRING p \<longrightarrow> i = j)"

definition gcthread_ok :: "gcthread \<Rightarrow> bool" where
  "gcthread_ok th \<longleftrightarrow> th_ci th < length (th_base_ci th) \<and> th_top th < length (th_stack th) \<and>
     th_stack_last th < length (th_stack th) \<and>
     (\<forall>c \<in> set (take (th_ci th + 1) (th_base_ci th)). ci_top c \<le> th_stack_last th)"

fun struct_ok :: "gc_State \<Rightarrow> gcbody \<Rightarrow> bool" where
  "struct_ok g (GUdata u) \<longleftrightarrow> ud_env u \<noteq> None"
| "struct_ok g (GTable h) \<longleftrightarrow> gctable_ok h"
| "struct_ok g (GLClosure e p us) \<longleftrightarrow> None \<notin> set us"
| "struct_ok g (GUpval (InStack t i) v) \<longleftrightarrow> stack_at g t i \<noteq> None"
| "struct_ok g (GThread th) \<longleftrightarrow> gcthread_ok th"
| "struct_ok g b \<longleftrightarrow> True"

definition obj_ok :: "gc_State \<Rightarrow> GCObject \<Rightarrow> bool" where
  "obj_ok g x \<longleftrightarrow> struct_ok g (body x) \<and> (\<forall>r \<in> body_refs g (body x). has g r) \<and>
     \<not> isdead g (marked x) \<and> \<not> (iswhite (marked x) \<and> isblack (marked x))"

definition heap_ok :: "gc_State \<Rightarrow> bool" where
  "heap_ok g \<longleftrightarrow> (\<forall>a x. gco g a = Some x \<longrightarrow> obj_ok g x) \<and> length (g_tmname g) = 17"

lemma heap_okD: "heap_ok g \<Longrightarrow> gco g a = Some x \<Longrightarrow> obj_ok g x" by (simp add: heap_ok_def)

lemma tm_of_cong:
  assumes "\<And>b. map_option body (gco g' b) = map_option body (gco g b)" "g_tmname g' = g_tmname g"
  shows "tm_of g' m e = tm_of g m e"
proof -
  have h: "gc_string_hash g' = gc_string_hash g"
  proof
    fix p show "gc_string_hash g' p = gc_string_hash g p"
      using assms(1) [of p] by (cases "gco g p"; cases "gco g' p") (auto simp: gc_string_hash_def)
  qed
  show ?thesis
    using assms(1) [of m] by (cases "gco g m"; cases "gco g' m") (auto simp: tm_of_def h assms(2) split: gcbody.splits)
qed

text \<open>States that differ in their lists only.\<close>

definition same_store :: "gc_State \<Rightarrow> gc_State \<Rightarrow> bool" where
  "same_store g' g \<longleftrightarrow> gco g' = gco g \<and> g_tmname g' = g_tmname g \<and> currentwhite g' = currentwhite g"

lemma same_store_refs:
  assumes "same_store g' g"
  shows "stack_at g' t i = stack_at g t i" "body_refs g' b = body_refs g b" "tm_of g' m e = tm_of g m e"
    "has g' r = has g r"
proof -
  have gco: "gco g' = gco g" using assms by (simp add: same_store_def)
  show st: "stack_at g' t i = stack_at g t i" for t i unfolding stack_at_def gco by (rule refl)
  show "body_refs g' b = body_refs g b"
  proof (cases b)
    case (GUpval v w) then show ?thesis by (cases v) (simp_all add: st)
  qed simp_all
  show "tm_of g' m e = tm_of g m e" using assms by (intro tm_of_cong) (simp_all add: same_store_def)
  show "has g' r = has g r" unfolding has_def gco by (rule refl)
qed

lemma same_store_strong:
  assumes "same_store g' g"
  shows "weak_of g' h = weak_of g h" "strong_refs g' b = strong_refs g b"
proof -
  have gco: "gco g' = gco g" using assms by (simp add: same_store_def)
  show wk: "weak_of g' h = weak_of g h" for h
    unfolding weak_of_def same_store_refs [OF assms] gco by (rule refl)
  show "strong_refs g' b = strong_refs g b"
    unfolding strong_refs_def wk same_store_refs [OF assms] by (rule refl)
qed

lemma same_store_heap:
  assumes "same_store g' g"
  shows "struct_ok g' b = struct_ok g b" "obj_ok g' x = obj_ok g x" "heap_ok g' = heap_ok g"
    "isdead g' m = isdead g m"
proof -
  show so: "struct_ok g' b = struct_ok g b" for b
  proof (cases b)
    case (GUpval v w) then show ?thesis by (cases v) (simp_all add: same_store_refs [OF assms])
  qed simp_all
  show dead: "isdead g' m = isdead g m" for m
    using assms by (simp add: same_store_def isdead_def otherwhite_def)
  show ok: "obj_ok g' x = obj_ok g x" for x
    by (simp add: obj_ok_def so dead same_store_refs [OF assms])
  show "heap_ok g' = heap_ok g" using assms by (simp add: heap_ok_def ok same_store_def)
qed

section \<open>What marking changes\<close>

text \<open>Keys of empty entries become dead, flags are set, stacks are cleared above the top.\<close>

definition node_sim :: "Node \<Rightarrow> Node \<Rightarrow> bool" where
  "node_sim n n' \<longleftrightarrow> gnext n' = gnext n \<and> i_val n' = i_val n \<and>
     (i_key n' = i_key n \<or> i_val n = NIL \<and> (\<exists>p. i_key n' = DEADKEY p))"

definition table_sim :: "Table \<Rightarrow> Table \<Rightarrow> bool" where
  "table_sim h h' \<longleftrightarrow> metatable h' = metatable h \<and> array h' = array h \<and> lsizenode h' = lsizenode h \<and>
     list_all2 node_sim (node h) (node h')"

definition thread_sim :: "gcthread \<Rightarrow> gcthread \<Rightarrow> bool" where
  "thread_sim t t' \<longleftrightarrow> th_gt t' = th_gt t \<and> th_top t' = th_top t \<and> th_ci t' = th_ci t \<and>
     th_openupval t' = th_openupval t \<and> th_allowhook t' = th_allowhook t \<and>
     take (th_top t) (th_stack t') = take (th_top t) (th_stack t) \<and>
     take (th_ci t + 1) (th_base_ci t') = take (th_ci t + 1) (th_base_ci t)"

fun sim :: "gcbody \<Rightarrow> gcbody \<Rightarrow> bool" where
  "sim (GTable h) b \<longleftrightarrow> (\<exists>h'. b = GTable h' \<and> table_sim h h')"
| "sim (GThread t) b \<longleftrightarrow> (\<exists>t'. b = GThread t' \<and> thread_sim t t' \<and> (gcthread_ok t \<longrightarrow> gcthread_ok t'))"
| "sim a b \<longleftrightarrow> b = a"

lemma node_sim_refl [simp]: "node_sim n n" by (simp add: node_sim_def)
lemma table_sim_refl [simp]: "table_sim h h" by (simp add: table_sim_def list_all2_refl)
lemma thread_sim_refl [simp]: "thread_sim t t" by (simp add: thread_sim_def)
lemma sim_refl [simp]: "sim b b" by (cases b) auto

lemma node_sim_trans: "node_sim a b \<Longrightarrow> node_sim b c \<Longrightarrow> node_sim a c"
  by (auto simp: node_sim_def)

lemma table_sim_trans: "table_sim a b \<Longrightarrow> table_sim b c \<Longrightarrow> table_sim a c"
  unfolding table_sim_def by (auto intro: list_all2_trans [of node_sim node_sim node_sim] node_sim_trans)

lemma thread_sim_trans: "thread_sim a b \<Longrightarrow> thread_sim b c \<Longrightarrow> thread_sim a c"
  by (simp add: thread_sim_def)

lemma sim_trans: "sim a b \<Longrightarrow> sim b c \<Longrightarrow> sim a c"
  by (cases a) (auto, (metis table_sim_trans thread_sim_trans)+)

lemma sim_tt: "sim a b \<Longrightarrow> gch_tt b = gch_tt a" by (cases a) auto

text \<open>What marking leaves alone.\<close>

definition rest :: "gc_State \<Rightarrow> gc_State" where
  "rest g = g\<lparr>gco := Map.empty, gray := [], grayagain := [], weak := [], totalbytes := 0\<rparr>"

definition is_open :: "gcbody \<Rightarrow> bool" where
  "is_open b \<longleftrightarrow> (\<exists>t i own. b = GUpval (InStack t i) own)"

lemma sim_open: "sim a b \<Longrightarrow> is_open b = is_open a" by (cases a) (auto simp: is_open_def)

definition obj_ext :: "gc_State \<Rightarrow> addr \<Rightarrow> GCObject \<Rightarrow> GCObject \<Rightarrow> bool" where
  "obj_ext g a x y \<longleftrightarrow> sim (body x) (body y) \<and> (iswhite (marked y) \<longrightarrow> marked y = marked x) \<and>
     (isblack (marked x) \<longrightarrow> isblack (marked y)) \<and>
     (is_open (body x) \<longrightarrow> isblack (marked y) \<longrightarrow> isblack (marked x)) \<and>
     (gch_tt (body x) \<noteq> 5 \<or> a \<in> set (weak g) \<longrightarrow> (\<forall>i \<ge> 3. bit (marked y) i = bit (marked x) i))"

text \<open>Marking work left: whites twice, as each may become gray.\<close>

definition whites :: "gc_State \<Rightarrow> addr set" where
  "whites g = {a. \<exists>x. gco g a = Some x \<and> iswhite (marked x)}"

definition work :: "gc_State \<Rightarrow> nat" where
  "work g = 2 * card (whites g) + length (gray g)"

definition ext :: "gc_State \<Rightarrow> gc_State \<Rightarrow> bool" where
  "ext g g' \<longleftrightarrow> (\<forall>a. rel_option (obj_ext g a) (gco g a) (gco g' a)) \<and> rest g' = rest g \<and>
     set (weak g) \<subseteq> set (weak g') \<and> set (grayagain g) \<subseteq> set (grayagain g') \<and>
     (\<forall>m e. tm_of g' m e = tm_of g m e) \<and> work g' \<le> work g"

lemma obj_ext_trans:
  assumes "obj_ext g1 a x y" "obj_ext g2 a y z" "a \<in> set (weak g1) \<Longrightarrow> a \<in> set (weak g2)"
  shows "obj_ext g1 a x z"
proof -
  have s: "sim (body x) (body y)" "sim (body y) (body z)" using assms by (auto simp: obj_ext_def)
  show ?thesis
    using assms sim_trans [OF s] unfolding obj_ext_def sim_tt [OF s(1)] sim_open [OF s(1)] by metis
qed

lemma ext_refl [simp]: "ext g g"
  by (auto simp: ext_def obj_ext_def intro!: option.rel_refl)

lemma extD:
  assumes "ext g g'" "gco g a = Some x"
  obtains y where "gco g' a = Some y" "obj_ext g a x y"
proof -
  have "rel_option (obj_ext g a) (gco g a) (gco g' a)" using assms(1) by (simp add: ext_def)
  then show ?thesis using that assms(2) by (cases "gco g' a") auto
qed

lemma extD':
  assumes "ext g g'" "gco g' a = Some y"
  obtains x where "gco g a = Some x" "obj_ext g a x y"
proof -
  have "rel_option (obj_ext g a) (gco g a) (gco g' a)" using assms(1) by (simp add: ext_def)
  then show ?thesis using that assms(2) by (cases "gco g a") auto
qed

lemma ext_None: "ext g g' \<Longrightarrow> gco g' a = None \<longleftrightarrow> gco g a = None"
  unfolding ext_def by (metis option.rel_distinct option.exhaust)

lemma ext_rest: "ext g g' \<Longrightarrow> rest g' = rest g" by (simp add: ext_def)

lemma rest_simps:
  assumes "rest g' = rest g"
  shows "currentwhite g' = currentwhite g" "gcstate g' = gcstate g" "rootgc g' = rootgc g"
    "tmudata g' = tmudata g" "strt_hash g' = strt_hash g" "mainthread g' = mainthread g"
    "registry g' = registry g" "mt g' = mt g" "g_uvhead g' = g_uvhead g" "g_tmname g' = g_tmname g"
    "sweepgc g' = sweepgc g" "sweepstrgc g' = sweepstrgc g" "strt_nuse g' = strt_nuse g"
proof -
  have f: "f (rest g') = f (rest g)" for f :: "gc_State \<Rightarrow> 'x" using assms by simp
  show "currentwhite g' = currentwhite g" using f [of currentwhite] by (simp add: rest_def)
  show "gcstate g' = gcstate g" using f [of gcstate] by (simp add: rest_def)
  show "rootgc g' = rootgc g" using f [of rootgc] by (simp add: rest_def)
  show "tmudata g' = tmudata g" using f [of tmudata] by (simp add: rest_def)
  show "strt_hash g' = strt_hash g" using f [of strt_hash] by (simp add: rest_def)
  show "mainthread g' = mainthread g" using f [of mainthread] by (simp add: rest_def)
  show "registry g' = registry g" using f [of registry] by (simp add: rest_def)
  show "mt g' = mt g" using f [of mt] by (simp add: rest_def)
  show "g_uvhead g' = g_uvhead g" using f [of g_uvhead] by (simp add: rest_def)
  show "g_tmname g' = g_tmname g" using f [of g_tmname] by (simp add: rest_def)
  show "sweepgc g' = sweepgc g" using f [of sweepgc] by (simp add: rest_def)
  show "sweepstrgc g' = sweepstrgc g" using f [of sweepstrgc] by (simp add: rest_def)
  show "strt_nuse g' = strt_nuse g" using f [of strt_nuse] by (simp add: rest_def)
qed

lemma ext_trans:
  assumes a: "ext g1 g2" and b: "ext g2 g3"
  shows "ext g1 g3"
proof -
  have "rel_option (obj_ext g1 a) (gco g1 a) (gco g3 a)" for a
  proof (cases "gco g1 a")
    case None
    then show ?thesis using ext_None a b by simp
  next
    case (Some x)
    obtain y where y: "gco g2 a = Some y" "obj_ext g1 a x y" using extD [OF a Some] .
    obtain z where z: "gco g3 a = Some z" "obj_ext g2 a y z" using extD [OF b y(1)] .
    have w: "a \<in> set (weak g1) \<Longrightarrow> a \<in> set (weak g2)" using a by (auto simp: ext_def)
    show ?thesis
      using Some obj_ext_trans [OF y(2) z(2) w] z(1) by simp
  qed
  then show ?thesis using a b by (auto simp: ext_def)
qed

lemma ext_has:
  assumes "ext g g'" "has g r" shows "has g' r"
proof -
  obtain x where x: "gco g (fst r) = Some x" "gch_tt (body x) = snd r" using assms(2) by (auto simp: has_def)
  obtain y where "gco g' (fst r) = Some y" "obj_ext g (fst r) x y" using extD [OF assms(1) x(1)] .
  then show ?thesis using x(2) by (auto simp: has_def obj_ext_def sim_tt)
qed

text \<open>What bodies refer to does not change.\<close>

definition simb :: "gc_State \<Rightarrow> gc_State \<Rightarrow> bool" where
  "simb g g' \<longleftrightarrow> (\<forall>a. rel_option (\<lambda>x y. sim (body x) (body y)) (gco g a) (gco g' a)) \<and>
     (\<forall>m e. tm_of g' m e = tm_of g m e)"

lemma simbD:
  assumes "simb g g'" "gco g a = Some x"
  obtains y where "gco g' a = Some y" "sim (body x) (body y)"
proof -
  have "rel_option (\<lambda>x y. sim (body x) (body y)) (gco g a) (gco g' a)" using assms(1) by (simp add: simb_def)
  then show ?thesis using that assms(2) by (cases "gco g' a") auto
qed

lemma simb_None: "simb g g' \<Longrightarrow> gco g' a = None \<longleftrightarrow> gco g a = None"
  unfolding simb_def by (metis option.rel_distinct option.exhaust)

lemma ext_simb: "ext g g' \<Longrightarrow> simb g g'"
proof -
  assume e: "ext g g'"
  have "rel_option (\<lambda>x y. sim (body x) (body y)) (gco g a) (gco g' a)" for a
  proof (cases "gco g a")
    case None then show ?thesis using ext_None [OF e, of a] by simp
  next
    case (Some x)
    obtain y where "gco g' a = Some y" "obj_ext g a x y" using extD [OF e Some] .
    then show ?thesis using Some by (simp add: obj_ext_def)
  qed
  then show ?thesis using e by (simp add: simb_def ext_def)
qed

lemma simb_stack_at:
  assumes "simb g g'" shows "stack_at g' t i = stack_at g t i"
proof (cases "gco g t")
  case None
  then show ?thesis using simb_None [OF assms, of t] by (simp add: stack_at_def)
next
  case (Some x)
  obtain y where y: "gco g' t = Some y" "sim (body x) (body y)" using simbD [OF assms Some] .
  have len: "i < length st' \<and> st' ! i = st ! i"
    if "take n st' = take n st" "i < n" "i < length st" for n and st st' :: "TValue list"
    using that by (metis length_take min_less_iff_conj nth_take)
  have eq: "(if i < n \<and> i < length st' then Some (st' ! i) else None) =
      (if i < n \<and> i < length st then Some (st ! i) else None)"
    if "take n st' = take n st" for n and st st' :: "TValue list"
  proof (cases "i < n \<and> i < length st")
    case True
    then show ?thesis using len [OF that] by simp
  next
    case False
    then have "\<not> (i < n \<and> i < length st')" using len [OF that [symmetric]] by blast
    then show ?thesis using False by simp
  qed
  show ?thesis
  proof (cases "\<exists>th. body x = GThread th")
    case True
    then obtain th th' where "body x = GThread th" "body y = GThread th'" "thread_sim th th'"
      using y(2) by auto
    then show ?thesis using Some y(1) eq [of "th_top th" "th_stack th'" "th_stack th"]
      by (simp add: stack_at_def thread_sim_def)
  next
    case False
    then have "\<nexists>th. body y = GThread th" using y(2) by (cases "body x") auto
    then show ?thesis using False Some y(1) by (auto simp: stack_at_def split: gcbody.splits)
  qed
qed

lemma node_sim_refs: "node_sim n n' \<Longrightarrow> node_refs k v n' = node_refs k v n"
  by (auto simp: node_sim_def node_refs_def)

lemma list_all2_UN:
  "list_all2 P xs ys \<Longrightarrow> (\<And>x y. P x y \<Longrightarrow> f y = f x) \<Longrightarrow> \<Union> (f ` set ys) = \<Union> (f ` set xs)"
  by (induction rule: list_all2_induct) auto

lemma table_sim_refs: "table_sim h h' \<Longrightarrow> table_refs k v h' = table_refs k v h"
  using list_all2_UN [of node_sim "node h" "node h'" "node_refs k v"]
  by (auto simp: table_sim_def table_refs_def node_sim_refs)

lemma simb_body_refs:
  assumes "simb g g'" "sim b b'" shows "body_refs g' b' = body_refs g b"
proof (cases b)
  case (GUpval v w)
  then show ?thesis using assms by (cases v) (auto simp: simb_stack_at)
qed (use assms in \<open>auto simp: table_sim_refs thread_sim_def\<close>)

lemma simb_weak_of:
  assumes "simb g g'" "table_sim h h'" shows "weak_of g' h' = weak_of g h"
proof -
  have tm: "tm_of g' m e = tm_of g m e" for m e using assms(1) by (simp add: simb_def)
  have str: "(case gco g' s of None \<Rightarrow> (False, False) | Some x \<Rightarrow>
             (case body x of GString ts \<Rightarrow> f ts | _ \<Rightarrow> (False, False)))
      = (case gco g s of None \<Rightarrow> (False, False) | Some x \<Rightarrow>
             (case body x of GString ts \<Rightarrow> f ts | _ \<Rightarrow> (False, False)))" for s and f :: "TString \<Rightarrow> bool \<times> bool"
  proof (cases "gco g s")
    case None then show ?thesis using simb_None [OF assms(1), of s] by simp
  next
    case (Some x)
    obtain y where "gco g' s = Some y" "sim (body x) (body y)" using simbD [OF assms(1) Some] .
    then show ?thesis using Some by (cases "body x") auto
  qed
  have "metatable h' = metatable h" using assms(2) by (simp add: table_sim_def)
  then show ?thesis unfolding weak_of_def tm str by simp
qed

lemma simb_strong_refs:
  assumes "simb g g'" "sim b b'" shows "strong_refs g' b' = strong_refs g b"
proof (cases b)
  case (GTable h)
  then show ?thesis using assms by (auto simp: strong_refs_def simb_weak_of table_sim_refs)
qed (use assms simb_body_refs [OF assms] in \<open>auto simp: strong_refs_def\<close>)

lemma node_sim_ok:
  assumes "node_sim n n'" "node_ok h n" "length (node h') = length (node h)" shows "node_ok h' n'"
  using assms by (auto simp: node_sim_def node_ok_def)

lemma table_sim_ok:
  assumes "table_sim h h'" "gctable_ok h" shows "gctable_ok h'"
proof -
  have l: "length (node h') = length (node h)" "lsizenode h' = lsizenode h"
    and n: "\<And>i. i < length (node h) \<Longrightarrow> node_sim (node h ! i) (node h' ! i)"
    using assms(1) by (auto simp: table_sim_def list_all2_conv_all_nth)
  have ok: "node_ok h' m" if m: "m \<in> set (node h')" for m
  proof -
    obtain i where i: "i < length (node h)" "m = node h' ! i" using m l by (metis in_set_conv_nth)
    then show ?thesis using node_sim_ok [OF n [OF i(1)] _ l(1)] assms(2) by (simp add: gctable_ok_def)
  qed
  have key: "i_key (node h' ! i) = STRING p \<Longrightarrow> i_key (node h ! i) = STRING p" if "i < length (node h)" for i p
    using n [OF that] by (auto simp: node_sim_def)
  show ?thesis using assms(2) ok l key unfolding gctable_ok_def by metis
qed

lemma simb_struct_ok:
  assumes "simb g g'" "sim b b'" "struct_ok g b" shows "struct_ok g' b'"
proof (cases b)
  case (GUpval v w)
  then show ?thesis using assms by (cases v) (auto simp: simb_stack_at)
qed (use assms in \<open>auto simp: table_sim_ok\<close>)

lemmas ext_stack_at = simb_stack_at [OF ext_simb]
lemmas ext_body_refs = simb_body_refs [OF ext_simb]
lemmas ext_weak_of = simb_weak_of [OF ext_simb]
lemmas ext_strong_refs = simb_strong_refs [OF ext_simb]
lemmas ext_struct_ok = simb_struct_ok [OF ext_simb]

lemma isdead_ext: "ext g g' \<Longrightarrow> isdead g' m = isdead g m"
  by (simp add: isdead_def otherwhite_def rest_simps [OF ext_rest])

lemma not_white_not_dead: "\<not> iswhite m \<Longrightarrow> \<not> isdead g m"
  unfolding isdead_bit iswhite_bit by (metis One_nat_def less_2_cases_iff)

lemma ext_heap_ok:
  assumes "ext g g'" "heap_ok g" shows "heap_ok g'"
proof -
  have "obj_ok g' y" if y: "gco g' a = Some y" for a y
  proof -
    obtain x where x: "gco g a = Some x" "obj_ext g a x y" using extD' [OF assms(1) y] .
    then have s: "sim (body x) (body y)" by (simp add: obj_ext_def)
    have o': "obj_ok g x" using heap_okD [OF assms(2) x(1)] .
    have "\<not> isdead g' (marked y) \<and> \<not> (iswhite (marked y) \<and> isblack (marked y))"
    proof (cases "iswhite (marked y)")
      case True
      then have "marked y = marked x" using x(2) by (simp add: obj_ext_def)
      then show ?thesis using o' isdead_ext [OF assms(1)] by (simp add: obj_ok_def)
    qed (simp add: not_white_not_dead)
    then show ?thesis
      using o' ext_body_refs [OF assms(1) s] ext_struct_ok [OF assms(1) s] ext_has [OF assms(1)]
      by (auto simp: obj_ok_def)
  qed
  moreover have "g_tmname g' = g_tmname g" using rest_simps [OF ext_rest [OF assms(1)]] by simp
  ultimately show ?thesis using assms(2) by (simp add: heap_ok_def)
qed

end
