(* ===== verification/GcMark.thy ===== *)
theory GcMark
  imports GcInv
begin

text \<open>
  Marking is correct: every step keeps the tri-colour invariant, marks what it must and nothing
  that is not reachable by strong references, and the marking of everything gray ends.
\<close>

section \<open>The invariant of marking\<close>

definition nonwhite :: "gc_State \<Rightarrow> addr \<Rightarrow> bool" where
  "nonwhite g a \<longleftrightarrow> (\<exists>x. gco g a = Some x \<and> \<not> iswhite (marked x))"

text \<open>What an object refers to is marked; of a table on the list of weak tables, what it refers to
  strongly, and its bits say how it is weak.\<close>

definition covered :: "gc_State \<Rightarrow> addr \<Rightarrow> GCObject \<Rightarrow> bool" where
  "covered g a x \<longleftrightarrow>
     (if a \<in> set (weak g)
      then (\<exists>h. body x = GTable h \<and>
             weak_of g h = (bit (marked x) KEYWEAKBIT, bit (marked x) VALUEWEAKBIT)) \<and>
           (bit (marked x) KEYWEAKBIT \<or> bit (marked x) VALUEWEAKBIT) \<and>
           (\<forall>r \<in> strong_refs g (body x). nonwhite g (fst r))
      else \<forall>r \<in> body_refs g (body x). nonwhite g (fst r))"

definition lists :: "gc_State \<Rightarrow> addr list" where
  "lists g = gray g @ grayagain g @ weak g"

definition on_list :: "addr set \<Rightarrow> gc_State \<Rightarrow> addr \<Rightarrow> bool" where
  "on_list T g a \<longleftrightarrow> (\<exists>x. gco g a = Some x \<and> gch_tt (body x) \<in> {5, 6, 8, 9} \<and>
     \<not> iswhite (marked x) \<and> (a \<notin> T \<longrightarrow> isgray (marked x)))"

text \<open>
  \<open>S\<close> are objects whose references still have to be looked at, besides the gray list; \<open>T\<close> objects
  on a list that are not gray at the moment. \<open>R\<close> bounds what is marked: it is closed under strong
  references.
\<close>

definition closed_refs :: "addr set \<Rightarrow> gc_State \<Rightarrow> bool" where
  "closed_refs R g \<longleftrightarrow> (\<forall>a x r. a \<in> R \<longrightarrow> gco g a = Some x \<longrightarrow> r \<in> strong_refs g (body x) \<longrightarrow> fst r \<in> R)"

definition Inv :: "addr set \<Rightarrow> addr set \<Rightarrow> addr set \<Rightarrow> gc_State \<Rightarrow> bool" where
  "Inv R S T g \<longleftrightarrow> heap_ok g \<and> distinct (lists g) \<and> (\<forall>a \<in> set (lists g). on_list T g a) \<and>
     (\<forall>a x. gco g a = Some x \<longrightarrow> \<not> iswhite (marked x) \<longrightarrow> a \<notin> set (gray g) \<longrightarrow> a \<notin> S \<longrightarrow> covered g a x) \<and>
     (\<forall>a. nonwhite g a \<longrightarrow> a \<in> R) \<and> closed_refs R g"

lemma InvD:
  assumes "Inv R S T g"
  shows "heap_ok g" "distinct (lists g)" "a \<in> set (lists g) \<Longrightarrow> on_list T g a"
    "gco g a = Some x \<Longrightarrow> \<not> iswhite (marked x) \<Longrightarrow> a \<notin> set (gray g) \<Longrightarrow> a \<notin> S \<Longrightarrow> covered g a x"
    "nonwhite g a \<Longrightarrow> a \<in> R" "closed_refs R g"
  using assms by (auto simp: Inv_def)

lemma ext_nonwhite:
  assumes "ext g g'" "nonwhite g a" shows "nonwhite g' a"
proof -
  obtain x where x: "gco g a = Some x" "\<not> iswhite (marked x)" using assms(2) by (auto simp: nonwhite_def)
  obtain y where "gco g' a = Some y" "obj_ext g a x y" using extD [OF assms(1) x(1)] .
  then show ?thesis using x by (auto simp: nonwhite_def obj_ext_def)
qed

lemma ext_covered:
  assumes e: "ext g g'" and x: "gco g a = Some x" "covered g a x" and y: "gco g' a = Some y"
    and w: "a \<in> set (weak g') \<longleftrightarrow> a \<in> set (weak g)"
  shows "covered g' a y"
proof -
  have xy: "obj_ext g a x y" using extD [OF e x(1)] y by auto
  then have s: "sim (body x) (body y)" by (simp add: obj_ext_def)
  show ?thesis
  proof (cases "a \<in> set (weak g)")
    case True
    then obtain h where h: "body x = GTable h" "weak_of g h = (bit (marked x) KEYWEAKBIT, bit (marked x) VALUEWEAKBIT)"
      using x(2) by (auto simp: covered_def)
    then obtain h' where h': "body y = GTable h'" "table_sim h h'" using s by auto
    have b: "bit (marked y) KEYWEAKBIT = bit (marked x) KEYWEAKBIT" "bit (marked y) VALUEWEAKBIT = bit (marked x) VALUEWEAKBIT"
      using xy True by (simp_all add: obj_ext_def KEYWEAKBIT_def VALUEWEAKBIT_def)
    have "weak_of g' h' = (bit (marked x) KEYWEAKBIT, bit (marked x) VALUEWEAKBIT)"
      using h(2) ext_weak_of [OF e h'(2)] by simp
    then show ?thesis
      using b True w h'(1) x(2) ext_strong_refs [OF e s] ext_nonwhite [OF e] by (auto simp: covered_def)
  next
    case False
    then show ?thesis using w x(2) ext_body_refs [OF e s] ext_nonwhite [OF e] by (auto simp: covered_def)
  qed
qed

lemma ext_closed:
  assumes "ext g g'" "closed_refs R g" shows "closed_refs R g'"
  unfolding closed_refs_def
proof (intro allI impI)
  fix a y r assume a: "a \<in> R" "gco g' a = Some y" "r \<in> strong_refs g' (body y)"
  obtain x where "gco g a = Some x" "obj_ext g a x y" using extD' [OF assms(1) a(2)] .
  then have "r \<in> strong_refs g (body x)" "gco g a = Some x"
    using a(3) ext_strong_refs [OF assms(1), of "body x" "body y"] by (auto simp: obj_ext_def)
  then show "fst r \<in> R" using a(1) assms(2) unfolding closed_refs_def by blast
qed

section \<open>Changing a colour\<close>

definition recolor :: "addr \<Rightarrow> u8 \<Rightarrow> gc_State \<Rightarrow> gc_State" where
  "recolor a m g = g\<lparr>gco := (gco g)(a := map_option (\<lambda>x. x\<lparr>marked := m\<rparr>) (gco g a))\<rparr>"

lemma recolor_gco: "gco (recolor a m g) b = (if b = a then map_option (\<lambda>x. x\<lparr>marked := m\<rparr>) (gco g b) else gco g b)"
  by (simp add: recolor_def)

lemma recolor_simps [simp]: "gray (recolor a m g) = gray g" "grayagain (recolor a m g) = grayagain g"
  "weak (recolor a m g) = weak g" "lists (recolor a m g) = lists g" "rest (recolor a m g) = rest g"
  "currentwhite (recolor a m g) = currentwhite g"
  by (auto simp: recolor_def lists_def rest_def)

lemma set_marked_recolor: "gco g a = Some x \<Longrightarrow> set_marked a m g = Some ((), recolor a m g)"
  by (simp add: set_marked_eq recolor_def)

lemma recolor_body: "map_option body (gco (recolor a m g) b) = map_option body (gco g b)"
  by (auto simp: recolor_gco option.map_comp o_def)

lemma recolor_tm: "tm_of (recolor a m g) = tm_of g"
  by (intro ext tm_of_cong recolor_body) (simp add: recolor_def)

lemma whites_recolor:
  assumes "\<not> iswhite m" shows "whites (recolor a m g) = whites g - {a}"
  using assms by (auto simp: whites_def recolor_gco split: if_splits)

lemma work_recolor:
  assumes "gco g a = Some x" "iswhite (marked x)" "\<not> iswhite m"
  shows "2 + work (recolor a m g) = work g"
proof -
  have "a \<in> whites g" using assms(1,2) by (auto simp: whites_def)
  then have "Suc (card (whites g - {a})) = card (whites g)"
    by (metis card.remove finite)
  then show ?thesis by (simp add: work_def whites_recolor [OF assms(3)])
qed

lemma ext_recolor:
  assumes x: "gco g a = Some x" and m: "\<not> iswhite m" "isblack (marked x) \<Longrightarrow> isblack m"
    and b: "gch_tt (body x) \<noteq> 5 \<or> a \<in> set (weak g) \<Longrightarrow> \<forall>i \<ge> 3. bit m i = bit (marked x) i"
    and o': "is_open (body x) \<Longrightarrow> isblack m \<Longrightarrow> isblack (marked x)"
  shows "ext g (recolor a m g)"
proof -
  have "rel_option (obj_ext g c) (gco g c) (gco (recolor a m g) c)" for c
    using assms by (auto simp: recolor_gco obj_ext_def intro!: option.rel_refl)
  moreover have "work (recolor a m g) \<le> work g"
    using card_mono [of "whites g" "whites g - {a}"] by (simp add: work_def whites_recolor [OF m(1)])
  ultimately show ?thesis by (simp add: ext_def recolor_tm)
qed

lemma Inv_recolor:
  assumes I: "Inv R S T g" and x: "gco g a = Some x" and m: "\<not> iswhite m" "isblack (marked x) \<Longrightarrow> isblack m"
    and b: "gch_tt (body x) \<noteq> 5 \<or> a \<in> set (weak g) \<Longrightarrow> \<forall>i \<ge> 3. bit m i = bit (marked x) i"
    and R: "a \<in> R" and S: "S \<subseteq> S'" "iswhite (marked x) \<Longrightarrow> a \<in> S'"
    and T: "T \<subseteq> T'" "a \<in> set (lists g) \<Longrightarrow> a \<notin> T' \<Longrightarrow> isgray m"
    and o': "is_open (body x) \<Longrightarrow> isblack m \<Longrightarrow> isblack (marked x)"
  shows "Inv R S' T' (recolor a m g)" (is "Inv R S' T' ?g")
proof -
  have e: "ext g ?g" by (rule ext_recolor [OF x m b o'])
  have "on_list T' ?g c" if "c \<in> set (lists g)" for c
  proof (cases "c = a")
    case True
    then show ?thesis using InvD(3) [OF I that] x m T(2) that by (auto simp: on_list_def recolor_gco)
  next
    case False
    then show ?thesis using InvD(3) [OF I that] T(1) by (auto simp: on_list_def recolor_gco)
  qed
  moreover have "covered ?g c y"
    if y: "gco ?g c = Some y" "\<not> iswhite (marked y)" "c \<notin> set (gray g)" "c \<notin> S'" for c y
  proof -
    obtain z where z: "gco g c = Some z" "obj_ext g c z y" using extD' [OF e y(1)] .
    have "\<not> iswhite (marked z)"
      using y z S(2) x by (cases "c = a") (auto simp: recolor_gco)
    then have "covered g c z" using InvD(4) [OF I z(1)] y(3,4) S(1) by auto
    then show ?thesis using ext_covered [OF e z(1) _ y(1)] by simp
  qed
  moreover have "c \<in> R" if "nonwhite ?g c" for c
    using that R InvD(5) [OF I, of c] by (cases "c = a") (auto simp: nonwhite_def recolor_gco)
  ultimately show ?thesis
    using ext_heap_ok [OF e InvD(1) [OF I]] InvD(2) [OF I] ext_closed [OF e InvD(6) [OF I]]
    by (simp add: Inv_def)
qed

lemma Inv_drop:
  assumes "Inv R (insert a S) T g"
    and "\<And>x. gco g a = Some x \<Longrightarrow> \<not> iswhite (marked x) \<Longrightarrow> a \<notin> set (gray g) \<Longrightarrow> covered g a x"
  shows "Inv R S T g"
  using assms by (auto simp: Inv_def)

lemma on_list_mono: "on_list T g a \<Longrightarrow> T \<subseteq> T' \<Longrightarrow> on_list T' g a"
  by (auto simp: on_list_def)

lemma Inv_more: "Inv R S T g \<Longrightarrow> S \<subseteq> S' \<Longrightarrow> T \<subseteq> T' \<Longrightarrow> Inv R S' T' g"
  unfolding Inv_def using on_list_mono by blast

lemma lists_nonwhite: "Inv R S T g \<Longrightarrow> gco g a = Some x \<Longrightarrow> iswhite (marked x) \<Longrightarrow> a \<notin> set (lists g)"
  using InvD(3) by (fastforce simp: on_list_def)

section \<open>Computations that mark\<close>

text \<open>A computation ends, keeps the invariant and changes no more than marking may.\<close>

definition does :: "addr set \<Rightarrow> addr set \<Rightarrow> addr set \<Rightarrow> 'a gcm \<Rightarrow> gc_State \<Rightarrow> ('a \<Rightarrow> gc_State \<Rightarrow> bool) \<Rightarrow> bool" where
  "does R S T m g Q \<longleftrightarrow> (\<exists>r g'. m g = Some (r, g') \<and> Inv R S T g' \<and> ext g g' \<and> Q r g')"

lemma doesE:
  assumes "does R S T m g Q"
  obtains r g' where "m g = Some (r, g')" "Inv R S T g'" "ext g g'" "Q r g'"
  using assms by (auto simp: does_def)

lemma does_ret: "Inv R S T g \<Longrightarrow> Q x g \<Longrightarrow> does R S T (retC x) g Q"
  by (auto simp: does_def)

lemma does_step:
  assumes "m g = Some (x, g1)" "ext g g1" "does R S T (f x) g1 Q"
  shows "does R S T (seqC m f) g Q"
  using assms(3) seqC_eq [of m g x g1 f, OF assms(1)] by (auto simp: does_def intro: ext_trans [OF assms(2)])

lemma does_seqC:
  assumes "does R S T m g P"
    and "\<And>r g'. Inv R S T g' \<Longrightarrow> ext g g' \<Longrightarrow> P r g' \<Longrightarrow> does R S T (f r) g' Q"
  shows "does R S T (seqC m f) g Q"
  using assms by (auto elim!: doesE intro!: does_step)

lemma does_thenC:
  assumes "does R S T m g P"
    and "\<And>r g'. Inv R S T g' \<Longrightarrow> ext g g' \<Longrightarrow> P r g' \<Longrightarrow> does R S T n g' Q"
  shows "does R S T (thenC m n) g Q"
  unfolding thenC_def using assms by (rule does_seqC)

lemma does_mono:
  assumes "does R S T m g P" "\<And>r g'. Inv R S T g' \<Longrightarrow> ext g g' \<Longrightarrow> P r g' \<Longrightarrow> Q r g'"
  shows "does R S T m g Q"
  using assms by (auto simp: does_def)

lemma does_forC:
  assumes "Inv R S T g" "P g"
    and step: "\<And>x g'. x \<in> set xs \<Longrightarrow> Inv R S T g' \<Longrightarrow> ext g g' \<Longrightarrow> P g' \<Longrightarrow>
      does R S T (f x) g' (\<lambda>_ g''. P g'' \<and> Q x g'')"
    and stable: "\<And>x g1 g2. x \<in> set xs \<Longrightarrow> ext g1 g2 \<Longrightarrow> Q x g1 \<Longrightarrow> Q x g2"
  shows "does R S T (forC xs f) g (\<lambda>_ g'. P g' \<and> (\<forall>x \<in> set xs. Q x g'))"
  using assms
proof (induction xs arbitrary: g)
  case Nil
  then show ?case unfolding forC.simps by (intro does_ret) simp_all
next
  case (Cons x xs)
  have "does R S T (f x) g (\<lambda>_ g''. P g'' \<and> Q x g'')" using Cons.prems by simp
  then show ?case unfolding forC.simps
  proof (rule does_thenC)
    fix r g' assume g': "Inv R S T g'" "ext g g'" "P g' \<and> Q x g'"
    have "does R S T (forC xs f) g' (\<lambda>_ g''. P g'' \<and> (\<forall>y \<in> set xs. Q y g''))"
      using g' ext_trans [OF g'(2)] Cons.prems(3,4) by (intro Cons.IH) auto
    then show "does R S T (forC xs f) g' (\<lambda>_ g''. P g'' \<and> (\<forall>y \<in> set (x # xs). Q y g''))"
      by (rule does_mono) (use g' Cons.prems(4) in \<open>auto intro: list.set_intros(1)\<close>)
  qed
qed

section \<open>Marking an object\<close>

definition marks :: "addr set \<Rightarrow> addr set \<Rightarrow> nat set \<Rightarrow> (addr \<Rightarrow> unit gcm) \<Rightarrow> bool" where
  "marks R T K f \<longleftrightarrow> (\<forall>S g a x. Inv R S T g \<longrightarrow> a \<in> R \<longrightarrow> gco g a = Some x \<longrightarrow> iswhite (marked x) \<longrightarrow>
     gch_tt (body x) \<in> K \<longrightarrow> does R S T (f a) g (\<lambda>_ g'. nonwhite g' a \<and> weak g' = weak g))"

lemma marksD: "marks R T K f \<Longrightarrow> Inv R S T g \<Longrightarrow> a \<in> R \<Longrightarrow> gco g a = Some x \<Longrightarrow> iswhite (marked x) \<Longrightarrow>
    gch_tt (body x) \<in> K \<Longrightarrow> does R S T (f a) g (\<lambda>_ g'. nonwhite g' a \<and> weak g' = weak g)"
  by (simp add: marks_def)

text \<open>A reference that may be followed.\<close>

definition may :: "addr set \<Rightarrow> nat set \<Rightarrow> gc_State \<Rightarrow> gcref \<Rightarrow> bool" where
  "may R K g r \<longleftrightarrow> has g r \<and> fst r \<in> R \<and> snd r \<in> K"

lemma ext_may: "ext g g' \<Longrightarrow> may R K g r \<Longrightarrow> may R K g' r"
  by (simp add: may_def ext_has)

lemma markobject_by_does:
  assumes "marks R T K f" "Inv R S T g" "may R K g (a, t)"
  shows "does R S T (markobject_by f a) g (\<lambda>_ g'. nonwhite g' a \<and> weak g' = weak g)"
proof -
  obtain x where x: "gco g a = Some x" "gch_tt (body x) = t" "t \<in> K" "a \<in> R"
    using assms(3) by (auto simp: may_def has_def)
  show ?thesis
  proof (cases "iswhite (marked x)")
    case True
    then show ?thesis
      using marksD [OF assms(1,2) x(4,1)] x by (simp add: markobject_by_def does_def seqC_obj)
  next
    case False
    then show ?thesis
      using x assms(2) by (simp add: markobject_by_def does_def seqC_obj nonwhite_def)
  qed
qed

lemma markvalue_by_does:
  assumes "marks R T K f" "Inv R S T g" "\<forall>r \<in> vrefs v. may R K g r"
  shows "does R S T (markvalue_by f v) g (\<lambda>_ g'. (\<forall>r \<in> vrefs v. nonwhite g' (fst r)) \<and> weak g' = weak g)"
proof (cases "iscollectable v")
  case True
  then have "may R K g (gcvalue v, ttype v)" using assms(3) by (simp add: vrefs_def)
  then obtain x where x: "gco g (gcvalue v) = Some x" "gch_tt (body x) = ttype v" "ttype v \<in> K" "gcvalue v \<in> R"
    by (auto simp: may_def has_def)
  show ?thesis
  proof (cases "iswhite (marked x)")
    case w: True
    then show ?thesis
      using marksD [OF assms(1,2) x(4,1)] x True
      by (simp add: markvalue_by_def does_def seqC_obj vrefs_def)
  next
    case False
    then show ?thesis
      using x assms(2) True by (simp add: markvalue_by_def does_def seqC_obj nonwhite_def vrefs_def)
  qed
next
  case False
  then show ?thesis using assms(2) by (simp add: markvalue_by_def vrefs_def does_def)
qed

lemma upval_value_eq:
  assumes "struct_ok g (GUpval v own)"
  obtains val where "upval_value v own g = Some (val, g)" "body_refs g (GUpval v own) = vrefs val"
proof (cases v)
  case (InStack t i)
  then obtain w where w: "stack_at g t i = Some w" using assms by auto
  then obtain x th where "gco g t = Some x" "body x = GThread th" "i < length (th_stack th)" "w = th_stack th ! i"
    by (auto simp: stack_at_def split: option.splits gcbody.splits if_splits)
  then have "upval_value v own g = Some (w, g)"
    using InStack by (simp add: upval_value_def seqC_eq [OF gc_thread_eq])
  then show ?thesis using that w InStack by auto
next
  case Closed
  then show ?thesis using that by (simp add: upval_value_def)
qed

lemma Inv_push:
  assumes "Inv R (insert a S) T g" "gco g a = Some x" "isgray (marked x)" "gch_tt (body x) \<in> {5, 6, 8, 9}"
    "a \<notin> set (lists g)"
  shows "Inv R S T (g\<lparr>gray := a # gray g\<rparr>)" (is "Inv R S T ?g")
proof -
  have e: "lists ?g = a # lists g" by (simp add: lists_def)
  have same: "same_store ?g g" by (simp add: same_store_def)
  note eq = same_store_refs [OF same] same_store_strong [OF same] same_store_heap [OF same]
  have nw: "nonwhite ?g = nonwhite g" by (simp add: nonwhite_def fun_eq_iff)
  have ol: "on_list T ?g = on_list T g" by (simp add: on_list_def fun_eq_iff)
  have cv: "covered ?g c y = covered g c y" for c y by (simp add: covered_def eq nw)
  show ?thesis
    using assms InvD [OF assms(1)]
    by (auto simp: Inv_def e ol cv nw eq closed_refs_def on_list_def isgray_def)
qed

lemma ext_push:
  assumes x: "gco g a = Some x" "iswhite (marked x)" and m: "\<not> iswhite m" "\<forall>i \<ge> 3. bit m i = bit (marked x) i"
    and b: "\<not> isblack (marked x)" "\<not> isblack m"
  shows "ext g ((recolor a m g)\<lparr>gray := a # gray g\<rparr>)" (is "ext g ?g")
proof -
  have e: "ext g (recolor a m g)" using ext_recolor x(1) m b by blast
  have s: "same_store ?g (recolor a m g)" by (simp add: same_store_def)
  have "rel_option (obj_ext g c) (gco g c) (gco ?g c)" for c using e by (simp add: ext_def)
  moreover have "rest ?g = rest g" using ext_rest [OF e] by (simp add: rest_def)
  moreover have "work ?g \<le> work g" using work_recolor [OF x m(1)] by (simp add: work_def whites_def)
  moreover have "tm_of ?g = tm_of g" using same_store_refs(3) [OF s] recolor_tm by (simp add: fun_eq_iff)
  ultimately show ?thesis by (simp add: ext_def)
qed

lemma white2gray_eq: "gco g a = Some x \<Longrightarrow>
    white2gray a g = Some ((), recolor a (reset2bits (marked x) WHITE0BIT WHITE1BIT) g)"
  by (simp add: white2gray_def seqC_obj set_marked_recolor)

lemma gray2black_eq: "gco g a = Some x \<Longrightarrow> gray2black a g = Some ((), recolor a (l_setbit (marked x) BLACKBIT) g)"
  by (simp add: gray2black_def seqC_obj set_marked_recolor)

lemma black2gray_eq: "gco g a = Some x \<Longrightarrow> black2gray a g = Some ((), recolor a (resetbit (marked x) BLACKBIT) g)"
  by (simp add: black2gray_def seqC_obj set_marked_recolor)

text \<open>A marked object on no list may become black.\<close>

lemma gray2black_does:
  assumes "Inv R S T g" "gco g a = Some x" "\<not> iswhite (marked x)" "a \<notin> set (lists g) \<or> a \<in> T"
    "\<not> is_open (body x)"
  shows "does R S T (gray2black a) g (\<lambda>_ g'. nonwhite g' a \<and> weak g' = weak g)"
proof -
  let ?m = "l_setbit (marked x) BLACKBIT"
  have m: "\<not> iswhite ?m" "\<forall>i \<ge> 3. bit ?m i = bit (marked x) i" "isblack ?m"
    using assms(3) by (auto simp: bit_marks)
  have "a \<in> R" using InvD(5) [OF assms(1)] assms(2,3) by (auto simp: nonwhite_def)
  then have "Inv R S T (recolor a ?m g)"
    using m assms by (intro Inv_recolor [OF assms(1,2)]) auto
  then show ?thesis
    using m assms(2,5) ext_recolor [OF assms(2) m(1,3)] gray2black_eq [OF assms(2)]
    by (auto simp: does_def nonwhite_def recolor_gco)
qed

lemma Inv_drop_refs:
  assumes "Inv R (insert a S) T g" "gco g a = Some x" "a \<notin> set (weak g)"
    "\<forall>r \<in> body_refs g (body x). nonwhite g (fst r)"
  shows "Inv R S T g"
proof (rule Inv_drop [OF assms(1)])
  fix y assume "gco g a = Some y"
  then show "covered g a y" using assms(2-4) by (simp add: covered_def)
qed

lemma vrefs_tt: "r \<in> vrefs v \<Longrightarrow> has g r \<Longrightarrow> snd r \<in> {4, 5, 6, 7, 8}"
proof -
  assume a: "r \<in> vrefs v" "has g r"
  then have r: "snd r = ttype v" "4 \<le> ttype v" by (auto simp: vrefs_def iscollectable_def split: if_splits)
  obtain x :: GCObject where "gch_tt (body x) = ttype v" using a(2) r by (auto simp: has_def)
  moreover have "gch_tt (body x) \<le> 10" by (cases "body x") auto
  ultimately show ?thesis using r by (cases v) auto
qed

lemma mark_step_marks:
  assumes f: "marks R T K f" and K: "7 \<in> K' \<Longrightarrow> 5 \<in> K" "10 \<in> K' \<Longrightarrow> {4, 5, 6, 7, 8} \<subseteq> K"
  shows "marks R T K' (mark_step f)"
  unfolding marks_def
proof (intro allI impI)
  fix S g a x
  assume I: "Inv R S T g" and R: "a \<in> R" and x: "gco g a = Some x" and w: "iswhite (marked x)"
    and t: "gch_tt (body x) \<in> K'"
  let ?m = "reset2bits (marked x) WHITE0BIT WHITE1BIT"
  let ?g = "recolor a ?m g"
  have ok: "obj_ok g x" using heap_okD [OF InvD(1) [OF I] x] .
  have m: "\<not> iswhite ?m" "\<forall>i \<ge> 3. bit ?m i = bit (marked x) i" "isgray ?m"
    using ok w by (auto simp: bit_marks obj_ok_def)
  have nl: "a \<notin> set (lists g)" by (rule lists_nonwhite [OF I x w])
  have nb: "\<not> isblack (marked x)" using ok w by (simp add: obj_ok_def)
  have mb: "\<not> isblack ?m" using m(3) by (simp add: isgray_def)
  have e: "ext g ?g" using ext_recolor [OF x m(1)] m(2) nb mb by blast
  have I1: "Inv R (insert a S) T ?g"
    by (rule Inv_recolor [OF I x m(1) _ _ R]) (use m nl nb mb in auto)
  have x1: "gco ?g a = Some (x\<lparr>marked := ?m\<rparr>)" using x by (simp add: recolor_gco)
  have ok1: "obj_ok ?g (x\<lparr>marked := ?m\<rparr>)" using heap_okD [OF InvD(1) [OF I1] x1] .
  have closed: "fst r \<in> R" if "r \<in> strong_refs ?g (body x)" for r
    using InvD(6) [OF I1] R x1 that unfolding closed_refs_def by fastforce
  have may: "may R K ?g r" if "r \<in> body_refs ?g (body x)" "strong_refs ?g (body x) = body_refs ?g (body x)" "snd r \<in> K" for r
    using closed [of r] that ok1 by (simp add: may_def obj_ok_def)
  have nw: "nonwhite ?g a" using x1 m(1) by (simp add: nonwhite_def)
  have start: "mark_step f a g = (case body x of
           GString s \<Rightarrow> retC ()
         | GUdata u \<Rightarrow>
             thenC (gray2black a)
             (thenC (case ud_metatable u of None \<Rightarrow> retC () | Some m \<Rightarrow> markobject_by f m)
             (seqC (theC (ud_env u)) (markobject_by f)))
         | GUpval v own \<Rightarrow>
             seqC (upval_value v own) (\<lambda>val.
             thenC (markvalue_by f val)
             (whenC (v = Closed) (gray2black a)))
         | _ \<Rightarrow> push_gray a) ?g"
    using ok w by (simp add: mark_step_def seqC_obj x obj_ok_def thenC_eq white2gray_eq cong: gcbody.case_cong)
  have nwl: "a \<notin> set (weak g)" using nl by (auto simp: lists_def)
  have w1: "weak ?g = weak g" by simp
  have finish: "does R S T (mark_step f a) g (\<lambda>_ g'. nonwhite g' a \<and> weak g' = weak g)"
    if d: "does R (insert a S) T m ?g (\<lambda>_ g'. (\<forall>r \<in> body_refs ?g (body x). nonwhite g' (fst r)) \<and> weak g' = weak ?g)"
      and mm: "mark_step f a g = m ?g" for m
  proof -
    obtain r g' where g': "m ?g = Some (r, g')" "Inv R (insert a S) T g'" "ext ?g g'"
      "\<forall>r \<in> body_refs ?g (body x). nonwhite g' (fst r)" "weak g' = weak ?g" using d by (auto elim: doesE)
    obtain y where y: "gco g' a = Some y" "obj_ext ?g a (x\<lparr>marked := ?m\<rparr>) y" using extD [OF g'(3) x1] .
    have "body_refs g' (body y) = body_refs ?g (body x)"
      using ext_body_refs [OF g'(3), of "body x" "body y"] y(2) by (simp add: obj_ext_def)
    then have "Inv R S T g'" using g'(2,4,5) y(1) nwl by (intro Inv_drop_refs [of R a S T g' y]) auto
    then show ?thesis
      using g'(1,3,5) mm ext_trans [OF e g'(3)] ext_nonwhite [OF g'(3) nw] by (simp add: does_def)
  qed
  have push: "does R S T (mark_step f a) g (\<lambda>_ g'. nonwhite g' a \<and> weak g' = weak g)"
    if "mark_step f a g = push_gray a ?g" "gch_tt (body x) \<in> {5, 6, 8, 9}"
  proof -
    have "Inv R S T (?g\<lparr>gray := a # gray ?g\<rparr>)"
      using that(2) m(3) nl by (intro Inv_push [OF I1 x1]) auto
    then show ?thesis
      using that(1) ext_push [OF x w m(1,2) nb mb] nw by (simp add: does_def push_gray_def nonwhite_def)
  qed
  have black: "does R (insert a S) T (gray2black a) ?g (\<lambda>_ g'. nonwhite g' a \<and> weak g' = weak ?g)"
    if "\<not> is_open (body x)"
    using gray2black_does [OF I1 x1] m(1) nl that by simp
  show "does R S T (mark_step f a) g (\<lambda>_ g'. nonwhite g' a \<and> weak g' = weak g)"
  proof (cases "body x")
    case (GString s)
    then show ?thesis using start I1 by (intro finish [of "retC ()"]) (auto intro: does_ret)
  next
    case (GUdata u)
    then have K5: "5 \<in> K" using K(1) t by simp
    obtain en where en: "ud_env u = Some en" using ok1 GUdata by (auto simp: obj_ok_def)
    have sr: "strong_refs ?g (body x) = body_refs ?g (body x)" by (simp add: strong_refs_def GUdata)
    show ?thesis
    proof (rule finish)
      show "mark_step f a g = thenC (gray2black a)
             (thenC (case ud_metatable u of None \<Rightarrow> retC () | Some m \<Rightarrow> markobject_by f m)
             (markobject_by f en)) ?g"
        using start by (simp add: GUdata en)
      show "does R (insert a S) T (thenC (gray2black a)
             (thenC (case ud_metatable u of None \<Rightarrow> retC () | Some m \<Rightarrow> markobject_by f m)
             (markobject_by f en))) ?g
          (\<lambda>_ g'. (\<forall>r \<in> body_refs ?g (body x). nonwhite g' (fst r)) \<and> weak g' = weak ?g)"
      proof (rule does_thenC [OF black])
        show "\<not> is_open (body x)" by (simp add: GUdata is_open_def)
      next
        fix r g1 assume g1: "Inv R (insert a S) T g1" "ext ?g g1" "nonwhite g1 a \<and> weak g1 = weak ?g"
        have "does R (insert a S) T (case ud_metatable u of None \<Rightarrow> retC () | Some m \<Rightarrow> markobject_by f m) g1
            (\<lambda>_ g'. (\<forall>r \<in> orefs 5 (ud_metatable u). nonwhite g' (fst r)) \<and> weak g' = weak g1)"
        proof (cases "ud_metatable u")
          case None
          then show ?thesis using g1(1) by (auto simp: orefs_def intro: does_ret)
        next
          case (Some mt)
          then have "may R K g1 (mt, 5)"
            using ext_may [OF g1(2) may [of "(mt, 5)"]] sr K5 GUdata by (simp add: orefs_def)
          from markobject_by_does [OF f g1(1) this] show ?thesis using Some by (simp add: orefs_def)
        qed
        then show "does R (insert a S) T (thenC (case ud_metatable u of None \<Rightarrow> retC () | Some m \<Rightarrow> markobject_by f m)
             (markobject_by f en)) g1
          (\<lambda>_ g'. (\<forall>r \<in> body_refs ?g (body x). nonwhite g' (fst r)) \<and> weak g' = weak ?g)"
        proof (rule does_thenC)
          fix r g2 assume g2: "Inv R (insert a S) T g2" "ext g1 g2"
            "(\<forall>r \<in> orefs 5 (ud_metatable u). nonwhite g2 (fst r)) \<and> weak g2 = weak g1"
          have "may R K g2 (en, 5)"
            using ext_may [OF ext_trans [OF g1(2) g2(2)] may [of "(en, 5)"]] sr K5 GUdata en by (simp add: orefs_def)
          from markobject_by_does [OF f g2(1) this]
          show "does R (insert a S) T (markobject_by f en) g2
            (\<lambda>_ g'. (\<forall>r \<in> body_refs ?g (body x). nonwhite g' (fst r)) \<and> weak g' = weak ?g)"
            by (rule does_mono) (use g1(3) g2(3) GUdata en ext_nonwhite in \<open>auto simp: orefs_def\<close>)
        qed
      qed
    qed
  next
    case (GUpval v own)
    then have KK: "{4, 5, 6, 7, 8} \<subseteq> K" using K(2) t by simp
    have sr: "strong_refs ?g (body x) = body_refs ?g (body x)" by (simp add: strong_refs_def GUpval)
    obtain val where val: "upval_value v own ?g = Some (val, ?g)" "body_refs ?g (body x) = vrefs val"
      using upval_value_eq [of ?g v own] ok1 GUpval by (auto simp: obj_ok_def)
    have mv: "\<forall>r \<in> vrefs val. may R K ?g r"
    proof
      fix r assume r: "r \<in> vrefs val"
      then have "has ?g r" using ok1 val(2) by (simp add: obj_ok_def)
      then have "snd r \<in> {4, 5, 6, 7, 8}" using vrefs_tt [OF r] by blast
      then have "snd r \<in> K" using KK by blast
      then show "may R K ?g r" using may [of r] sr val(2) r by simp
    qed
    show ?thesis
    proof (rule finish)
      show "mark_step f a g = thenC (markvalue_by f val) (whenC (v = Closed) (gray2black a)) ?g"
        using start val(1) by (simp add: GUpval seqC_eq)
      show "does R (insert a S) T (thenC (markvalue_by f val) (whenC (v = Closed) (gray2black a))) ?g
          (\<lambda>_ g'. (\<forall>r \<in> body_refs ?g (body x). nonwhite g' (fst r)) \<and> weak g' = weak ?g)"
      proof (rule does_thenC [OF markvalue_by_does [OF f I1 mv]])
        fix r g1 assume g1: "Inv R (insert a S) T g1" "ext ?g g1"
          "(\<forall>r \<in> vrefs val. nonwhite g1 (fst r)) \<and> weak g1 = weak ?g"
        show "does R (insert a S) T (whenC (v = Closed) (gray2black a)) g1
          (\<lambda>_ g'. (\<forall>r \<in> body_refs ?g (body x). nonwhite g' (fst r)) \<and> weak g' = weak ?g)"
        proof (cases "v = Closed")
          case True
          obtain y where y: "gco g1 a = Some y" "obj_ext ?g a (x\<lparr>marked := ?m\<rparr>) y" using extD [OF g1(2) x1] .
          have tt: "gch_tt (body y) = 10" "\<not> iswhite (marked y)"
            using y(2) sim_tt [of "body x" "body y"] GUpval m(1) by (auto simp: obj_ext_def)
          have "\<not> is_open (body y)" using y(2) GUpval True by (auto simp: obj_ext_def is_open_def)
          moreover have "a \<notin> set (lists g1)" using InvD(3) [OF g1(1), of a] y(1) tt by (auto simp: on_list_def)
          ultimately have "does R (insert a S) T (gray2black a) g1 (\<lambda>_ g'. nonwhite g' a \<and> weak g' = weak g1)"
            using gray2black_does [OF g1(1) y(1) tt(2)] by simp
          then show ?thesis unfolding True whenC_simps
            by (simp, elim does_mono) (use g1(3) val(2) ext_nonwhite in auto)
        next
          case False
          then show ?thesis using g1 val(2) by (auto simp: whenC_def intro: does_ret)
        qed
      qed
    qed
  qed (use start push in auto)
qed

definition "gc_types = {4 :: nat, 5, 6, 7, 8, 9, 10}"

lemma really_marks2: "marks R T {4, 5, 6, 7, 8, 9} (mark_step (mark_step (\<lambda>_. failC)))"
proof -
  have 0: "marks R T {} (\<lambda>_. failC)" by (simp add: marks_def)
  have 1: "marks R T {4, 5, 6, 8, 9} (mark_step (\<lambda>_. failC))" by (rule mark_step_marks [OF 0]) auto
  show ?thesis by (rule mark_step_marks [OF 1]) auto
qed

lemma really_marks: "marks R T gc_types reallymarkobject"
  unfolding reallymarkobject_def gc_types_def by (rule mark_step_marks [OF really_marks2]) auto

lemma has_tt: "has g r \<Longrightarrow> snd r \<in> gc_types"
proof -
  assume "has g r"
  then obtain x :: GCObject where "gch_tt (body x) = snd r" by (auto simp: has_def)
  then show ?thesis by (cases "body x") (auto simp: gc_types_def)
qed

definition mayref :: "addr set \<Rightarrow> gc_State \<Rightarrow> gcref \<Rightarrow> bool" where
  "mayref R g r \<longleftrightarrow> has g r \<and> fst r \<in> R"

lemma ext_mayref: "ext g g' \<Longrightarrow> mayref R g r \<Longrightarrow> mayref R g' r"
  by (simp add: mayref_def ext_has)

lemma mayref_may: "mayref R g r \<Longrightarrow> may R gc_types g r"
  unfolding mayref_def may_def using has_tt by blast

lemma markobject_does:
  assumes "Inv R S T g" "mayref R g (a, t)"
  shows "does R S T (markobject a) g (\<lambda>_ g'. nonwhite g' a \<and> weak g' = weak g)"
  unfolding markobject_def using markobject_by_does [OF really_marks assms(1) mayref_may [OF assms(2)]] .

lemma markvalue_does:
  assumes "Inv R S T g" "\<forall>r \<in> vrefs v. mayref R g r"
  shows "does R S T (markvalue v) g (\<lambda>_ g'. (\<forall>r \<in> vrefs v. nonwhite g' (fst r)) \<and> weak g' = weak g)"
  unfolding markvalue_def using markvalue_by_does [OF really_marks assms(1)] mayref_may assms(2) by blast

section \<open>Changing a body\<close>

definition rebody :: "addr \<Rightarrow> gcbody \<Rightarrow> gc_State \<Rightarrow> gc_State" where
  "rebody a b g = g\<lparr>gco := (gco g)(a := map_option (\<lambda>x. x\<lparr>body := b\<rparr>) (gco g a))\<rparr>"

lemma rebody_gco: "gco (rebody a b g) c = (if c = a then map_option (\<lambda>x. x\<lparr>body := b\<rparr>) (gco g c) else gco g c)"
  by (simp add: rebody_def)

lemma rebody_simps [simp]: "gray (rebody a b g) = gray g" "grayagain (rebody a b g) = grayagain g"
  "weak (rebody a b g) = weak g" "lists (rebody a b g) = lists g" "rest (rebody a b g) = rest g"
  "g_tmname (rebody a b g) = g_tmname g"
  by (auto simp: rebody_def lists_def rest_def)

lemma set_body_rebody: "gco g a = Some x \<Longrightarrow> set_body a b g = Some ((), rebody a b g)"
  by (simp add: set_body_eq rebody_def)

lemma Inv_ext:
  assumes I: "Inv R S T g" and e: "ext g g'" and l: "gray g' = gray g" "grayagain g' = grayagain g" "weak g' = weak g"
    and m: "\<And>a. map_option marked (gco g' a) = map_option marked (gco g a)"
  shows "Inv R S T g'"
proof -
  have ll: "lists g' = lists g" by (simp add: lists_def l)
  have "on_list T g' a" if a: "a \<in> set (lists g)" for a
  proof -
    obtain x where x: "gco g a = Some x" using InvD(3) [OF I a] by (auto simp: on_list_def)
    obtain y where y: "gco g' a = Some y" "obj_ext g a x y" using extD [OF e x] .
    then show ?thesis
      using InvD(3) [OF I a] x m [of a] sim_tt [of "body x" "body y"] by (auto simp: on_list_def obj_ext_def)
  qed
  moreover have "covered g' a y"
    if y: "gco g' a = Some y" "\<not> iswhite (marked y)" "a \<notin> set (gray g)" "a \<notin> S" for a y
  proof -
    obtain x where x: "gco g a = Some x" using extD' [OF e y(1)] .
    then have "covered g a x" using InvD(4) [OF I x] m [of a] y by simp
    then show ?thesis using ext_covered [OF e x _ y(1)] l by simp
  qed
  moreover have "nonwhite g' a = nonwhite g a" for a
    using m [of a] by (cases "gco g a"; cases "gco g' a") (auto simp: nonwhite_def)
  ultimately show ?thesis
    using ext_heap_ok [OF e InvD(1) [OF I]] InvD(2,5) [OF I] ext_closed [OF e InvD(6) [OF I]] l ll
    by (simp add: Inv_def)
qed

lemma rebody_marked: "map_option marked (gco (rebody a b g) c) = map_option marked (gco g c)"
  by (auto simp: rebody_gco option.map_comp o_def)

lemma rebody_hash:
  assumes "gco g a = Some x" "body x = GTable h"
  shows "gc_string_hash (rebody a (GTable h') g) = gc_string_hash g"
  using assms by (auto simp: gc_string_hash_def rebody_gco)

lemma ext_rebody:
  assumes x: "gco g a = Some x" and s: "sim (body x) b" and tm: "\<And>m e. tm_of (rebody a b g) m e = tm_of g m e"
  shows "ext g (rebody a b g)"
proof -
  have "rel_option (obj_ext g c) (gco g c) (gco (rebody a b g) c)" for c
    using x s by (auto simp: rebody_gco obj_ext_def intro!: option.rel_refl)
  moreover have "whites (rebody a b g) = whites g"
    using rebody_marked by (auto simp: whites_def rebody_gco split: if_splits)
  ultimately show ?thesis using tm by (simp add: ext_def work_def)
qed

lemma tm_rebody:
  assumes x: "gco g a = Some x" "body x = GTable h"
    and t: "\<And>e. tab_tm (gc_string_hash g) (g_tmname g) h' e = tab_tm (gc_string_hash g) (g_tmname g) h e"
  shows "tm_of (rebody a (GTable h') g) m e = tm_of g m e"
proof (cases "m = a")
  case True
  then show ?thesis using x t by (simp add: tm_of_def rebody_hash [OF x] rebody_gco)
next
  case False
  then show ?thesis by (simp add: tm_of_def rebody_hash [OF x] rebody_gco split: option.split gcbody.split)
qed

text \<open>Setting the flag of a method that is absent, and clearing keys of empty entries.\<close>

lemma tab_tm_flag:
  assumes "read_slot h (luaH_getstr sh h (names ! tm_num e)) = NIL"
  shows "tab_tm sh names (h\<lparr>flags := flags h OR push_bit (tm_num e) 1\<rparr>) e' = tab_tm sh names h e'"
proof -
  have r: "read_slot (h\<lparr>flags := f\<rparr>) s = read_slot h s" for f s by (cases "(h, s)" rule: read_slot.cases) simp_all
  have l: "luaH_getstr sh (h\<lparr>flags := f\<rparr>) p = luaH_getstr sh h p" for f p
    by (simp add: luaH_getstr_def sizenode_def)
  have b: "(w :: u8) AND push_bit k 1 \<noteq> 0 \<longleftrightarrow> bit w k" for w k
    using bit_imp_le_length [of w k] by (auto simp: word_nonzero bit_simps)
  have "bit (flags h OR push_bit (tm_num e) 1) (tm_num e') \<longleftrightarrow>
      bit (flags h) (tm_num e') \<or> (tm_num e = tm_num e' \<and> tm_num e < 8)"
    by (auto simp: bit_simps)
  then show ?thesis using assms unfolding tab_tm_def r l b by (auto simp: Let_def)
qed

lemma chain_upto_next:
  assumes "\<And>i. i < length nd \<Longrightarrow> gnext (nd' ! i) = gnext (nd ! i)"
    and "\<And>i j. i < length nd \<Longrightarrow> gnext (nd ! i) = Some j \<Longrightarrow> j < length nd" and "i < length nd"
  shows "chain_upto nd' f i = chain_upto nd f i \<and> set (chain_upto nd f i) \<subseteq> {..<length nd}"
  using assms(3)
proof (induction f arbitrary: i)
  case (Suc f)
  then show ?case using assms(1) [OF Suc.prems] assms(2) [OF Suc.prems] by (auto split: option.splits)
qed simp

lemma find_cong_key:
  assumes "\<And>n. n \<in> set ns \<Longrightarrow> (P' n \<longleftrightarrow> P n) \<or> (P n \<and> \<not> P' n \<and> v n = d)"
    and "\<And>n m. n \<in> set ns \<Longrightarrow> m \<in> set ns \<Longrightarrow> P n \<Longrightarrow> P m \<Longrightarrow> n = m"
  shows "(case find P' ns of None \<Rightarrow> d | Some n \<Rightarrow> v n) = (case find P ns of None \<Rightarrow> d | Some n \<Rightarrow> v n)"
proof (cases "find P ns")
  case None
  then have "\<And>n. n \<in> set ns \<Longrightarrow> \<not> P' n" using assms(1) by (auto simp: find_None_iff)
  then have "find P' ns = None" by (auto simp: find_None_iff)
  then show ?thesis using None by simp
next
  case (Some n)
  then have n: "n \<in> set ns" "P n" by (auto simp: find_Some_iff)
  show ?thesis
  proof (cases "P' n")
    case True
    have "P' m = P m" if "m \<in> set ns" for m
      using assms(1) [OF that] assms(2) [OF that n(1) _ n(2)] True by blast
    then have "find P' ns = find P ns" by (intro find_cong) auto
    then show ?thesis by simp
  next
    case False
    then have v: "v n = d" using assms(1) [OF n(1)] n(2) by blast
    have "\<not> P' m" if "m \<in> set ns" for m
      using assms(1) [OF that] assms(2) [OF that n(1) _ n(2)] False by blast
    then have "find P' ns = None" by (auto simp: find_None_iff)
    then show ?thesis using Some v by simp
  qed
qed

lemma gc_hashpow2_less: "k \<le> 30 \<Longrightarrow> hashpow2 (2 ^ k) h < 2 ^ k"
  using lmod_less [of k h] by (simp add: hashpow2_def lmod_def)

lemma getstr_read:
  "read_slot h (luaH_getstr sh h p) =
     (case find (\<lambda>n. i_key (node h ! n) = STRING p) (chain (node h) (hashpow2 (sizenode h) (sh p))) of
        None \<Rightarrow> NIL | Some n \<Rightarrow> i_val (node h ! n))"
proof -
  have "(case k of STRING p' \<Rightarrow> p' = p | _ \<Rightarrow> False) = (k = STRING p)" for k by (cases k) auto
  then show ?thesis by (auto simp: luaH_getstr_def split: option.splits)
qed

lemma gctable_start: "gctable_ok h \<Longrightarrow> hashpow2 (sizenode h) w < length (node h)"
  using gc_hashpow2_less [of "lsizenode h" w] by (simp add: gctable_ok_def sizenode_def twoto_def)

lemma gctable_next: "gctable_ok h \<Longrightarrow> i < length (node h) \<Longrightarrow> gnext (node h ! i) = Some j \<Longrightarrow> j < length (node h)"
  unfolding gctable_ok_def node_ok_def by (meson nth_mem)

lemma getstr_sim:
  assumes s: "table_sim h h'" and ok: "gctable_ok h"
  shows "read_slot h' (luaH_getstr sh h' p) = read_slot h (luaH_getstr sh h p)"
proof -
  have l: "length (node h') = length (node h)" "lsizenode h' = lsizenode h"
    and n: "\<And>i. i < length (node h) \<Longrightarrow> node_sim (node h ! i) (node h' ! i)"
    using s by (auto simp: table_sim_def list_all2_conv_all_nth)
  let ?i = "hashpow2 (sizenode h) (sh p)"
  have c: "chain (node h') ?i = chain (node h) ?i" "set (chain (node h) ?i) \<subseteq> {..<length (node h)}"
    using chain_upto_next [of "node h" "node h'" ?i "length (node h)"] n gctable_next [OF ok]
      gctable_start [OF ok] l unfolding chain_def by (auto simp: node_sim_def)
  have z: "sizenode h' = sizenode h" by (simp add: sizenode_def l)
  have v: "i_val (node h' ! m) = i_val (node h ! m)" if "m \<in> set (chain (node h) ?i)" for m
    using n that c(2) by (auto simp: node_sim_def)
  have "(case find (\<lambda>n. i_key (node h' ! n) = STRING p) (chain (node h) ?i) of
        None \<Rightarrow> NIL | Some n \<Rightarrow> i_val (node h ! n)) =
      (case find (\<lambda>n. i_key (node h ! n) = STRING p) (chain (node h) ?i) of
        None \<Rightarrow> NIL | Some n \<Rightarrow> i_val (node h ! n))"
  proof (rule find_cong_key)
    fix m assume "m \<in> set (chain (node h) ?i)"
    then have "node_sim (node h ! m) (node h' ! m)" using n c(2) by auto
    then show "((i_key (node h' ! m) = STRING p) = (i_key (node h ! m) = STRING p)) \<or>
        (i_key (node h ! m) = STRING p \<and> i_key (node h' ! m) \<noteq> STRING p \<and> i_val (node h ! m) = NIL)"
      by (auto simp: node_sim_def)
  next
    fix m m' assume "m \<in> set (chain (node h) ?i)" "m' \<in> set (chain (node h) ?i)"
      "i_key (node h ! m) = STRING p" "i_key (node h ! m') = STRING p"
    then show "m = m'" using c(2) ok unfolding gctable_ok_def by blast
  qed
  moreover have "(case find P (chain (node h) ?i) of None \<Rightarrow> NIL | Some n \<Rightarrow> i_val (node h' ! n)) =
      (case find P (chain (node h) ?i) of None \<Rightarrow> NIL | Some n \<Rightarrow> i_val (node h ! n))" for P
  proof (cases "find P (chain (node h) ?i)")
    case (Some m)
    then have "m \<in> set (chain (node h) ?i)" by (auto simp: find_Some_iff)
    then show ?thesis using Some v by simp
  qed simp
  ultimately show ?thesis by (simp add: getstr_read c(1) z)
qed

lemma getstr_value:
  assumes ok: "gctable_ok h" and v: "read_slot h (luaH_getstr sh h p) = v" "v \<noteq> NIL"
  shows "\<exists>n \<in> set (node h). i_val n = v"
proof -
  let ?i = "hashpow2 (sizenode h) (sh p)"
  have c: "set (chain (node h) ?i) \<subseteq> {..<length (node h)}"
    using chain_upto_next [of "node h" "node h" ?i "length (node h)"] gctable_next [OF ok] gctable_start [OF ok]
    unfolding chain_def by auto
  obtain m where "find (\<lambda>n. i_key (node h ! n) = STRING p) (chain (node h) ?i) = Some m" "i_val (node h ! m) = v"
    using v by (auto simp: getstr_read split: option.splits)
  then have "m \<in> set (chain (node h) ?i)" "i_val (node h ! m) = v" by (auto simp: find_Some_iff)
  then show ?thesis using c by force
qed

lemma tm_num_less: "tm_num e < 17"
  by (cases e) (simp_all add: tm_num_def tm_list_def)

lemma thenC_body: "gco g a = Some x \<Longrightarrow> thenC (set_body a b) n g = n (rebody a b g)"
  by (rule thenC_eq) (rule set_body_rebody)

text \<open>A computation that changes bodies only.\<close>

definition only_bodies :: "gc_State \<Rightarrow> gc_State \<Rightarrow> bool" where
  "only_bodies g g' \<longleftrightarrow> ext g g' \<and> gray g' = gray g \<and> grayagain g' = grayagain g \<and> weak g' = weak g \<and>
     (\<forall>a. map_option marked (gco g' a) = map_option marked (gco g a))"

lemma only_bodiesD: "only_bodies g g' \<Longrightarrow> ext g g'" "only_bodies g g' \<Longrightarrow> weak g' = weak g"
  by (simp_all add: only_bodies_def)

lemma only_bodies_Inv: "only_bodies g g' \<Longrightarrow> Inv R S T g \<Longrightarrow> Inv R S T g'"
  by (auto simp: only_bodies_def intro: Inv_ext)

lemma only_bodies_refl [simp]: "only_bodies g g" by (simp add: only_bodies_def)

lemma rebody_only:
  assumes "gco g a = Some x" "sim (body x) b" "\<And>m e. tm_of (rebody a b g) m e = tm_of g m e"
  shows "only_bodies g (rebody a b g)"
  using ext_rebody [OF assms] by (simp add: only_bodies_def rebody_marked)

lemma gfasttm_eq:
  assumes h: "heap_ok g" and x: "gco g m = Some x" "body x = GTable t"
  shows "\<exists>g'. gfasttm (Some m) e g = Some (tm_of g m e, g') \<and> only_bodies g g'"
proof -
  have len: "tm_num e < length (g_tmname g)" using h tm_num_less [of e] by (simp add: heap_ok_def)
  let ?tm = "read_slot t (luaH_getstr (gc_string_hash g) t (g_tmname g ! tm_num e))"
  let ?t = "t\<lparr>flags := flags t OR push_bit (tm_num e) 1\<rparr>"
  show ?thesis
  proof (cases "flags t AND push_bit (tm_num e) 1 \<noteq> 0")
    case True
    then have "tm_of g m e = None" unfolding tm_of_def tab_tm_def by (simp add: x)
    moreover have "gfasttm (Some m) e g = Some (None, g)"
      unfolding gfasttm_def option.case seqC_table [OF x] if_P [OF True] by simp
    ultimately show ?thesis by (intro exI [of _ g]) simp
  next
    case False
    note F = if_not_P [OF False]
    have tm: "tm_of g m e = (if ?tm = NIL then None else Some ?tm)"
      unfolding tm_of_def x(1) option.case x(2) gcbody.case tab_tm_def F Let_def by (rule refl)
    have g: "gfasttm (Some m) e g = (if ?tm = NIL then Some (None, rebody m (GTable ?t) g) else Some (Some ?tm, g))"
      unfolding gfasttm_def option.case seqC_table [OF x] F gc_gettm_def
      by (simp add: seqC_table [OF x] len Let_def thenC_body [OF x(1)])
    have "only_bodies g (rebody m (GTable ?t) g)" if "?tm = NIL"
    proof (rule rebody_only [OF x(1)])
      show "sim (body x) (GTable ?t)" by (simp add: x table_sim_def list_all2_refl)
      show "tm_of (rebody m (GTable ?t) g) m' e' = tm_of g m' e'" for m' e'
        by (rule tm_rebody [OF x]) (rule tab_tm_flag [OF that])
    qed
    then show ?thesis using g tm by auto
  qed
qed

lemma tm_of_value:
  assumes h: "heap_ok g" and x: "gco g m = Some x" "body x = GTable t" and v: "tm_of g m e = Some v"
  shows "\<forall>r \<in> vrefs v. has g r" and "v \<noteq> NIL"
proof -
  have ok: "obj_ok g x" using heap_okD [OF h x(1)] .
  then have g: "gctable_ok t" using x by (simp add: obj_ok_def)
  have "v \<noteq> NIL" "read_slot t (luaH_getstr (gc_string_hash g) t (g_tmname g ! tm_num e)) = v"
    using v x by (auto simp: tm_of_def tab_tm_def Let_def split: if_splits)
  then obtain n where n: "n \<in> set (node t)" "i_val n = v" using getstr_value [OF g] by metis
  then have "vrefs v \<subseteq> body_refs g (body x)"
    using \<open>v \<noteq> NIL\<close> x by (fastforce simp: table_refs_def node_refs_def)
  then show "\<forall>r \<in> vrefs v. has g r" using ok by (auto simp: obj_ok_def)
  show "v \<noteq> NIL" by fact
qed

lemma weakness_eq:
  assumes h: "heap_ok g" and m: "\<And>m. metatable t = Some m \<Longrightarrow> has g (m, 5)"
  shows "weakness (Option.bind (metatable t) (\<lambda>m. tm_of g m TM_MODE)) g = Some (weak_of g t, g)"
proof (cases "\<exists>s. Option.bind (metatable t) (\<lambda>m. tm_of g m TM_MODE) = Some (STRING s)")
  case True
  then obtain s where s: "Option.bind (metatable t) (\<lambda>m. tm_of g m TM_MODE) = Some (STRING s)" by blast
  then obtain m where m': "metatable t = Some m" "tm_of g m TM_MODE = Some (STRING s)"
    by (cases "metatable t") auto
  obtain x where x: "gco g m = Some x" "gch_tt (body x) = 5" using m [OF m'(1)] by (auto simp: has_def)
  obtain tb where tb: "body x = GTable tb" using x(2) by (cases "body x") auto
  have "has g (s, 4)" using tm_of_value(1) [OF h x(1) tb m'(2)] by (simp add: vrefs_def iscollectable_def)
  then obtain y where y: "gco g s = Some y" "gch_tt (body y) = 4" by (auto simp: has_def)
  then obtain ts where "body y = GString ts" by (cases "body y") auto
  then show ?thesis using m' y by (simp add: weakness_def seqC_obj weak_of_def)
next
  case False
  then show ?thesis
    by (auto simp: weakness_def weak_of_def split: option.splits TValue.splits)
qed

end
