(* ===== verification/GcTraverse.thy ===== *)
theory GcTraverse
  imports GcMark
begin

text \<open>
  Traversing one gray object: each kind marks what it refers to, weak tables only what they hold
  strongly, and \<open>propagatemark\<close> keeps the invariant and brings the end of marking nearer.
\<close>

section \<open>Tables\<close>

lemma node_refs_sim: "node_sim n n' \<Longrightarrow> node_refs k v n = node_refs k v n'"
  by (simp add: node_sim_refs)

lemma removeentry_sim: "i_val n = NIL \<Longrightarrow> node_sim n (removeentry n)"
  by (simp add: node_sim_def removeentry_def)

lemma table_sim_update:
  assumes "i < length (node h)" "node_sim (node h ! i) n"
  shows "table_sim h (h\<lparr>node := (node h)[i := n]\<rparr>)"
  using assms by (auto simp: table_sim_def list_all2_conv_all_nth nth_list_update)

lemma tab_tm_sim:
  assumes "table_sim h h'" "gctable_ok h" "flags h' = flags h"
  shows "tab_tm sh names h' e = tab_tm sh names h e"
  unfolding tab_tm_def getstr_sim [OF assms(1,2)] assms(3) by (rule refl)

lemma rebody_table_only:
  assumes h: "heap_ok g" and x: "gco g a = Some x" "body x = GTable h" and s: "table_sim h h'" "flags h' = flags h"
  shows "only_bodies g (rebody a (GTable h') g)"
proof (rule rebody_only [OF x(1)])
  have ok: "gctable_ok h" using heap_okD [OF h x(1)] x(2) by (simp add: obj_ok_def)
  show "sim (body x) (GTable h')" using x(2) s by simp
  show "tm_of (rebody a (GTable h') g) m e = tm_of g m e" for m e
    by (rule tm_rebody [OF x tab_tm_sim [OF s(1) ok s(2)]])
qed

definition refs_done :: "gcref set \<Rightarrow> gc_State \<Rightarrow> bool" where
  "refs_done rs g \<longleftrightarrow> (\<forall>r \<in> rs. nonwhite g (fst r))"

lemma refs_doneI: "(\<And>r. r \<in> rs \<Longrightarrow> nonwhite g (fst r)) \<Longrightarrow> refs_done rs g" by (simp add: refs_done_def)
lemma refs_done_empty [simp]: "refs_done {} g" by (simp add: refs_done_def)
lemma refs_done_Un [simp]: "refs_done (A \<union> B) g \<longleftrightarrow> refs_done A g \<and> refs_done B g" by (auto simp: refs_done_def)
lemma refs_done_UN [simp]: "refs_done (\<Union> (f ` A)) g \<longleftrightarrow> (\<forall>x \<in> A. refs_done (f x) g)" by (auto simp: refs_done_def)
lemma refs_done_insert [simp]: "refs_done (insert r A) g \<longleftrightarrow> nonwhite g (fst r) \<and> refs_done A g"
  by (auto simp: refs_done_def)

lemma ext_refs_done: "ext g g' \<Longrightarrow> refs_done rs g \<Longrightarrow> refs_done rs g'"
  by (simp add: refs_done_def ext_nonwhite)

lemma markvalue_done:
  assumes "Inv R S T g" "\<forall>r \<in> vrefs v. mayref R g r"
  shows "does R S T (markvalue v) g (\<lambda>_ g'. weak g' = weak g \<and> refs_done (vrefs v) g')"
  using markvalue_does [OF assms] by (rule does_mono) (simp add: refs_done_def)

lemma whenC_markvalue:
  assumes "Inv R S T g" "b \<Longrightarrow> \<forall>r \<in> vrefs v. mayref R g r"
  shows "does R S T (whenC b (markvalue v)) g (\<lambda>_ g'. weak g' = weak g \<and> refs_done (if b then vrefs v else {}) g')"
  using markvalue_done [OF assms(1)] assms by (auto simp: whenC_def intro: does_ret)

lemma traverse_node_does:
  assumes I: "Inv R S T g" and x: "gco g a = Some x" "body x = GTable h'" and s: "table_sim h h'"
    and i: "i < length (node h)" and may: "\<forall>r \<in> node_refs (\<not> k) (\<not> v) (node h ! i). mayref R g r"
  shows "does R S T (traverse_node a k v i) g
    (\<lambda>_ g'. weak g' = weak g \<and> refs_done (node_refs (\<not> k) (\<not> v) (node h ! i)) g')"
proof -
  have l: "i < length (node h')" "node_sim (node h ! i) (node h' ! i)"
    using s i by (auto simp: table_sim_def list_all2_conv_all_nth)
  let ?n = "node h' ! i"
  have nr: "node_refs (\<not> k) (\<not> v) (node h ! i) = node_refs (\<not> k) (\<not> v) ?n" by (rule node_refs_sim [OF l(2)])
  have ok: "gctable_ok h'" using heap_okD [OF InvD(1) [OF I] x(1)] x(2) by (simp add: obj_ok_def)
  then have no: "node_ok h' ?n" using l(1) by (simp add: gctable_ok_def)
  have start: "traverse_node a k v i g = (if i_val ?n = NIL then set_body a (GTable (h'\<lparr>node := (node h')[i := removeentry ?n]\<rparr>))
         else thenC (whenC (\<not> k) (markvalue (i_key ?n))) (whenC (\<not> v) (markvalue (i_val ?n)))) g"
    using no l(1) by (auto simp: traverse_node_def seqC_table [OF x] node_ok_def)
  show ?thesis
  proof (cases "i_val ?n = NIL")
    case True
    have "only_bodies g (rebody a (GTable (h'\<lparr>node := (node h')[i := removeentry ?n]\<rparr>)) g)"
      by (rule rebody_table_only [OF InvD(1) [OF I] x]) (simp_all add: table_sim_update l removeentry_sim True)
    then show ?thesis
      using start True only_bodies_Inv [OF _ I] only_bodiesD set_body_rebody [OF x(1)] nr
      by (simp add: does_def node_refs_def)
  next
    case False
    then have nr': "node_refs (\<not> k) (\<not> v) ?n = (if \<not> k then vrefs (i_key ?n) else {}) \<union> (if \<not> v then vrefs (i_val ?n) else {})"
      by (simp add: node_refs_def)
    have "does R S T (thenC (whenC (\<not> k) (markvalue (i_key ?n))) (whenC (\<not> v) (markvalue (i_val ?n)))) g
      (\<lambda>_ g'. weak g' = weak g \<and> refs_done (node_refs (\<not> k) (\<not> v) (node h ! i)) g')"
    proof (rule does_thenC [OF whenC_markvalue [OF I]])
      show "\<not> k \<Longrightarrow> \<forall>r \<in> vrefs (i_key ?n). mayref R g r" using may nr nr' by auto
      fix r g1 assume g1: "Inv R S T g1" "ext g g1"
        "weak g1 = weak g \<and> refs_done (if \<not> k then vrefs (i_key ?n) else {}) g1"
      have "\<not> v \<Longrightarrow> \<forall>r \<in> vrefs (i_val ?n). mayref R g1 r" using may nr nr' ext_mayref [OF g1(2)] by auto
      from whenC_markvalue [OF g1(1) this]
      show "does R S T (whenC (\<not> v) (markvalue (i_val ?n))) g1
        (\<lambda>_ g'. weak g' = weak g \<and> refs_done (node_refs (\<not> k) (\<not> v) (node h ! i)) g')"
        by (rule does_mono) (use g1(3) nr nr' ext_refs_done in auto)
    qed
    then show ?thesis using start False by (simp add: does_def)
  qed
qed
definition weakbits :: "bool \<Rightarrow> bool \<Rightarrow> u8 \<Rightarrow> u8" where
  "weakbits k v m = (m AND NOT (KEYWEAK OR VALUEWEAK)) OR
     ((if k then KEYWEAK else 0) OR (if v then VALUEWEAK else 0))"

lemma bit_weakbits: "bit (weakbits k v m) i \<longleftrightarrow> (if i = 3 then k else if i = 4 then v else bit m i)"
  using bit_imp_le_length [of m i]
  by (auto simp: weakbits_def KEYWEAK_def VALUEWEAK_def bit_simps bit_bitmask KEYWEAKBIT_def VALUEWEAKBIT_def)

lemma Inv_weak:
  assumes I: "Inv R S T g" and a: "a \<in> S" "a \<in> T" "gco g a = Some x" "gch_tt (body x) = 5" "\<not> iswhite (marked x)"
    and nl: "a \<notin> set (lists g)"
  shows "Inv R S T (g\<lparr>weak := a # weak g\<rparr>)" "ext g (g\<lparr>weak := a # weak g\<rparr>)"
proof -
  let ?g = "g\<lparr>weak := a # weak g\<rparr>"
  have same: "same_store ?g g" by (simp add: same_store_def)
  note eq = same_store_refs [OF same] same_store_strong [OF same] same_store_heap [OF same]
  have nw: "nonwhite ?g = nonwhite g" by (simp add: nonwhite_def fun_eq_iff)
  have ol: "on_list T ?g = on_list T g" by (simp add: on_list_def fun_eq_iff)
  have l: "set (lists ?g) = insert a (set (lists g))" by (auto simp: lists_def)
  have d: "distinct (lists ?g)" using InvD(2) [OF I] nl by (auto simp: lists_def)
  have cv: "covered ?g c y = covered g c y" if "c \<noteq> a" for c y using that by (simp add: covered_def eq nw)
  have cc: "covered ?g c y" if "gco g c = Some y" "\<not> iswhite (marked y)" "c \<notin> set (gray g)" "c \<notin> S" for c y
  proof -
    have "c \<noteq> a" using a(1) that(4) by blast
    then show ?thesis using cv InvD(4) [OF I that] by simp
  qed
  show "Inv R S T ?g"
    using InvD(1,2,3,5,6) [OF I] a d cc
    by (auto simp: Inv_def l ol nw eq closed_refs_def on_list_def)
  have "work ?g = work g" by (simp add: work_def whites_def)
  then show "ext g ?g" by (auto simp: ext_def eq rest_def obj_ext_def intro!: option.rel_refl)
qed

lemma ext_black:
  assumes "ext g g'" "gco g a = Some x" "isblack (marked x)" "\<not> iswhite (marked x)"
  obtains y where "gco g' a = Some y" "isblack (marked y)" "\<not> iswhite (marked y)" "sim (body x) (body y)" "obj_ext g a x y"
proof -
  obtain y where y: "gco g' a = Some y" "obj_ext g a x y" using extD [OF assms(1,2)] .
  have "isblack (marked y)" "sim (body x) (body y)" "\<not> iswhite (marked y)"
    using y(2) assms(3,4) unfolding obj_ext_def by auto
  then show thesis using that y by blast
qed

lemma black_not_listed:
  assumes "Inv R S T g" "gco g a = Some x" "isblack (marked x)" "a \<notin> T" shows "a \<notin> set (lists g)"
  using InvD(3) [OF assms(1), of a] assms by (auto simp: on_list_def isgray_def)

lemma mark_metatable:
  assumes I: "Inv R S T g" and m: "\<And>m. mt' = Some m \<Longrightarrow> mayref R g (m, 5)"
  shows "does R S T (case mt' of None \<Rightarrow> retC () | Some m \<Rightarrow> markobject m) g
    (\<lambda>_ g'. weak g' = weak g \<and> refs_done (orefs 5 mt') g')"
proof (cases mt')
  case None
  then show ?thesis using I by (auto simp: orefs_def intro: does_ret)
next
  case (Some m')
  from markobject_does [OF I m [OF Some]] show ?thesis
    unfolding Some option.case by (rule does_mono) (simp add: orefs_def)
qed

lemma gfasttm_does:
  assumes I: "Inv R S T g" and m: "\<And>m. mt' = Some m \<Longrightarrow> has g (m, 5)"
  shows "\<exists>g'. gfasttm mt' e g = Some (Option.bind mt' (\<lambda>m. tm_of g m e), g') \<and> only_bodies g g'"
proof (cases mt')
  case None
  then show ?thesis by (simp add: gfasttm_def)
next
  case (Some m')
  obtain x where x: "gco g m' = Some x" "gch_tt (body x) = 5" using m [OF Some] by (auto simp: has_def)
  obtain t where "body x = GTable t" using x(2) by (cases "body x") auto
  from gfasttm_eq [OF InvD(1) [OF I] x(1) this] show ?thesis by (simp add: Some)
qed

lemma forC_markvalue:
  assumes I: "Inv R S T g" and m: "\<And>v r. v \<in> set vs \<Longrightarrow> r \<in> vrefs v \<Longrightarrow> mayref R g r"
  shows "does R S T (forC vs markvalue) g (\<lambda>_ g'. weak g' = weak g \<and> (\<forall>v \<in> set vs. refs_done (vrefs v) g'))"
proof (rule does_forC [OF I, of "\<lambda>g'. weak g' = weak g"])
  fix v g' assume v: "v \<in> set vs" "Inv R S T g'" "ext g g'" "weak g' = weak g"
  have "\<forall>r \<in> vrefs v. mayref R g' r" using m v(1) ext_mayref [OF v(3)] by blast
  from markvalue_done [OF v(2) this]
  show "does R S T (markvalue v) g' (\<lambda>_ g''. weak g'' = weak g \<and> refs_done (vrefs v) g'')" by (simp add: v(4))
qed (auto intro: ext_refs_done)

lemma table_loops:
  assumes I: "Inv R S T g" and x: "gco g a = Some x" "body x = GTable h1" and s: "table_sim h h1"
    and may: "\<And>r. r \<in> table_refs (\<not> k) (\<not> v) h \<Longrightarrow> mayref R g r"
  shows "does R S T (thenC (whenC (\<not> v) (forC (rev (array h)) markvalue))
       (thenC (forC (rev [0..<length (node h)]) (traverse_node a k v)) (retC w))) g
     (\<lambda>r g'. r = w \<and> weak g' = weak g \<and> refs_done (if v then {} else \<Union> (vrefs ` set (array h))) g' \<and>
       refs_done (\<Union> (node_refs (\<not> k) (\<not> v) ` set (node h))) g')"
proof (rule does_thenC)
  have "mayref R g r" if "\<not> v" "u \<in> set (rev (array h))" "r \<in> vrefs u" for u r
    using may [of r] that by (auto simp: table_refs_def)
  then show "does R S T (whenC (\<not> v) (forC (rev (array h)) markvalue)) g
      (\<lambda>_ g'. weak g' = weak g \<and> refs_done (if v then {} else \<Union> (vrefs ` set (array h))) g')"
    using forC_markvalue [OF I, of "rev (array h)"] I by (auto simp: whenC_def intro: does_ret)
next
  fix r g1 assume g1: "Inv R S T g1" "ext g g1"
    "weak g1 = weak g \<and> refs_done (if v then {} else \<Union> (vrefs ` set (array h))) g1"
  have loop: "does R S T (forC (rev [0..<length (node h)]) (traverse_node a k v)) g1
    (\<lambda>_ g'. weak g' = weak g \<and> (\<forall>i \<in> set (rev [0..<length (node h)]). refs_done (node_refs (\<not> k) (\<not> v) (node h ! i)) g'))"
  proof (rule does_forC [OF g1(1), of "\<lambda>g'. weak g' = weak g"])
    show "weak g1 = weak g" using g1(3) by simp
    fix i g2 assume g2: "i \<in> set (rev [0..<length (node h)])" "Inv R S T g2" "ext g1 g2" "weak g2 = weak g"
    have e: "ext g g2" by (rule ext_trans [OF g1(2) g2(3)])
    obtain y where y: "gco g2 a = Some y" "obj_ext g a x y" using extD [OF e x(1)] .
    then obtain h2 where h2: "body y = GTable h2" "table_sim h1 h2" using x(2) by (auto simp: obj_ext_def)
    have i: "i < length (node h)" using g2(1) by simp
    then have "node_refs (\<not> k) (\<not> v) (node h ! i) \<subseteq> table_refs (\<not> k) (\<not> v) h"
      using nth_mem by (fastforce simp: table_refs_def)
    then have "\<forall>r \<in> node_refs (\<not> k) (\<not> v) (node h ! i). mayref R g2 r"
      using may ext_mayref [OF e] by blast
    from traverse_node_does [OF g2(2) y(1) h2(1) table_sim_trans [OF s h2(2)] i this]
    show "does R S T (traverse_node a k v i) g2
      (\<lambda>_ g'. weak g' = weak g \<and> refs_done (node_refs (\<not> k) (\<not> v) (node h ! i)) g')" by (simp add: g2(4))
  qed (auto intro: ext_refs_done)
  show "does R S T (thenC (forC (rev [0..<length (node h)]) (traverse_node a k v)) (retC w)) g1
     (\<lambda>r g'. r = w \<and> weak g' = weak g \<and> refs_done (if v then {} else \<Union> (vrefs ` set (array h))) g' \<and>
       refs_done (\<Union> (node_refs (\<not> k) (\<not> v) ` set (node h))) g')"
  proof (rule does_thenC [OF loop])
    fix r g2 assume g2: "Inv R S T g2" "ext g1 g2" "weak g2 = weak g \<and>
      (\<forall>i \<in> set (rev [0..<length (node h)]). refs_done (node_refs (\<not> k) (\<not> v) (node h ! i)) g2)"
    have "refs_done (node_refs (\<not> k) (\<not> v) n) g2" if "n \<in> set (node h)" for n
      using g2(3) that by (auto simp: in_set_conv_nth)
    then show "does R S T (retC w) g2
     (\<lambda>r g'. r = w \<and> weak g' = weak g \<and> refs_done (if v then {} else \<Union> (vrefs ` set (array h))) g' \<and>
       refs_done (\<Union> (node_refs (\<not> k) (\<not> v) ` set (node h))) g')"
      using g1(3) g2 ext_refs_done [OF g2(2)] by (intro does_ret) auto
  qed
qed

text \<open>What the traversal of a table leaves.\<close>

definition traversed :: "addr \<Rightarrow> bool \<Rightarrow> gc_State \<Rightarrow> bool" where
  "traversed a w g \<longleftrightarrow> (\<exists>y. gco g a = Some y \<and> covered g a y \<and> isblack (marked y) \<and> \<not> iswhite (marked y)) \<and>
     (w \<longleftrightarrow> a \<in> set (weak g)) \<and> a \<notin> set (gray g) \<and> a \<notin> set (grayagain g)"

lemma covered_table:
  assumes e: "ext g g'" and x: "gco g a = Some x" "body x = GTable h"
    and y: "gco g' a = Some y" and m: "refs_done (orefs 5 (metatable h)) g'"
    and d: "refs_done (if snd (weak_of g h) then {} else \<Union> (vrefs ` set (array h))) g'"
      "refs_done (\<Union> (node_refs (\<not> fst (weak_of g h)) (\<not> snd (weak_of g h)) ` set (node h))) g'"
    and w: "a \<in> set (weak g') \<longleftrightarrow> fst (weak_of g h) \<or> snd (weak_of g h)"
    and b: "a \<in> set (weak g') \<Longrightarrow> weak_of g h = (bit (marked y) KEYWEAKBIT, bit (marked y) VALUEWEAKBIT)"
  shows "covered g' a y"
proof -
  obtain z where "gco g' a = Some z" "obj_ext g a x z" using extD [OF e x(1)] .
  then obtain h' where h': "body y = GTable h'" "table_sim h h'" using y x(2) by (auto simp: obj_ext_def)
  have s: "strong_refs g' (body y) = table_refs (\<not> fst (weak_of g h)) (\<not> snd (weak_of g h)) h"
    using ext_weak_of [OF e h'(2)] table_sim_refs [OF h'(2)] by (simp add: strong_refs_def h'(1))
  have "refs_done (strong_refs g' (body y)) g'"
    using m d by (simp add: s table_refs_def split: if_splits)
  moreover have "body_refs g' (body y) = strong_refs g' (body y)" if "weak_of g h = (False, False)"
    unfolding s using that h'(1) table_sim_refs [OF h'(2)] by simp
  ultimately show ?thesis
    using w b h'(1) ext_weak_of [OF e h'(2)] by (cases "weak_of g h") (auto simp: covered_def refs_done_def)
qed

lemma set_weak_does:
  assumes I: "Inv R S T g" and a: "a \<in> S" "a \<notin> T" and x: "gco g a = Some x" "gch_tt (body x) = 5"
    and b: "isblack (marked x)" "\<not> iswhite (marked x)"
  shows "\<exists>g'. thenC (set_marked a (weakbits k v (marked x))) (modC (\<lambda>g. g\<lparr>weak := a # weak g\<rparr>)) g = Some ((), g') \<and>
    Inv R S (insert a T) g' \<and> ext g g' \<and> a \<in> set (weak g') \<and>
    gco g' a = Some (x\<lparr>marked := weakbits k v (marked x)\<rparr>)"
proof -
  let ?m = "weakbits k v (marked x)" let ?g = "recolor a ?m g"
  have nl: "a \<notin> set (lists g)" by (rule black_not_listed [OF I x(1) b(1) a(2)])
  then have nw: "a \<notin> set (weak g)" by (simp add: lists_def)
  have m: "\<not> iswhite ?m" "isblack ?m" using b by (simp_all add: iswhite_bit isblack_bit bit_weakbits)
  have aR: "a \<in> R" using InvD(5) [OF I] x b by (auto simp: nonwhite_def)
  have e: "ext g ?g" by (rule ext_recolor [OF x(1) m(1)]) (use m x nw in \<open>auto simp: is_open_def\<close>)
  have I1: "Inv R S (insert a T) ?g"
    by (rule Inv_recolor [OF I x(1) m(1) _ _ aR]) (use m x nw b a in \<open>auto simp: is_open_def\<close>)
  have x1: "gco ?g a = Some (x\<lparr>marked := ?m\<rparr>)" using x by (simp add: recolor_gco)
  have "Inv R S (insert a T) (?g\<lparr>weak := a # weak ?g\<rparr>)" "ext ?g (?g\<lparr>weak := a # weak ?g\<rparr>)"
    using Inv_weak [OF I1 _ _ x1] a(1) x(2) m(1) nl by auto
  moreover have "thenC (set_marked a ?m) (modC (\<lambda>g. g\<lparr>weak := a # weak g\<rparr>)) g = Some ((), ?g\<lparr>weak := a # weak ?g\<rparr>)"
    by (simp add: thenC_eq [of "set_marked a ?m", OF set_marked_recolor [OF x(1)]])
  ultimately show ?thesis using x1 ext_trans [OF e] by (intro exI [of _ "?g\<lparr>weak := a # weak ?g\<rparr>"]) auto
qed

lemma traversedI:
  assumes "Inv R S T g" "gco g a = Some y" "covered g a y" "isblack (marked y)" "\<not> iswhite (marked y)"
    "w \<longleftrightarrow> a \<in> set (weak g)" "w \<or> a \<notin> T"
  shows "traversed a w g"
proof -
  have "a \<notin> set (gray g) \<and> a \<notin> set (grayagain g)"
  proof (cases "a \<in> set (weak g)")
    case True then show ?thesis using InvD(2) [OF assms(1)] by (auto simp: lists_def)
  next
    case False then show ?thesis using black_not_listed [OF assms(1,2,4)] assms(6,7) by (auto simp: lists_def)
  qed
  then show ?thesis using assms by (auto simp: traversed_def)
qed

text \<open>The rest of the traversal, once the weak mode is known.\<close>

definition traverse_rest :: "addr \<Rightarrow> Table \<Rightarrow> bool \<Rightarrow> bool \<Rightarrow> bool gcm" where
  "traverse_rest a h k v =
     (if k \<and> v then retC True
      else thenC (whenC (\<not> v) (forC (rev (array h)) markvalue))
       (thenC (forC (rev [0..<length (node h)]) (traverse_node a k v)) (retC (k \<or> v))))"

lemma traverse_rest_does:
  assumes I: "Inv R S T g" and x: "gco g a = Some x" "body x = GTable h1" and s: "table_sim h h1"
    and may: "\<And>r. r \<in> table_refs (\<not> k) (\<not> v) h \<Longrightarrow> mayref R g r"
  shows "does R S T (traverse_rest a h k v) g (\<lambda>r g'. r = (k \<or> v) \<and> weak g' = weak g \<and>
       refs_done (if v then {} else \<Union> (vrefs ` set (array h))) g' \<and>
       refs_done (\<Union> (node_refs (\<not> k) (\<not> v) ` set (node h))) g')"
proof (cases "k \<and> v")
  case True
  then have "node_refs (\<not> k) (\<not> v) n = {}" for n by (simp add: node_refs_def)
  then show ?thesis using True I by (auto simp: traverse_rest_def intro: does_ret)
next
  case False
  show ?thesis unfolding traverse_rest_def if_not_P [OF False]
    by (rule table_loops [where k = k and v = v and w = "k \<or> v", OF I x s may])
qed

lemma whenC_obj:
  assumes "gco g a = Some x"
  shows "thenC (whenC b (seqC (obj a) f)) n g = thenC (whenC b (f x)) n g"
  by (cases b) (simp_all add: thenC_def seqC_assoc seqC_obj [OF assms] seqC_def [of "f x"])

lemma traversetable_does:
  assumes I: "Inv R S T g" and a: "a \<in> S" "a \<notin> T" and x: "gco g a = Some x" "body x = GTable h"
    and black: "isblack (marked x)" "\<not> iswhite (marked x)"
  shows "does R S (insert a T) (traversetable a) g (traversed a)"
proof -
  have ok: "obj_ok g x" using heap_okD [OF InvD(1) [OF I] x(1)] .
  have aR: "a \<in> R" using InvD(5) [OF I] x(1) black by (auto simp: nonwhite_def)
  have may: "mayref R g r" if r: "r \<in> table_refs (\<not> fst (weak_of g h)) (\<not> snd (weak_of g h)) h" for r
  proof -
    have "r \<in> strong_refs g (body x)" using r x(2) by (simp add: strong_refs_def)
    then show ?thesis
      using InvD(6) [OF I] aR x(1) ok strong_body unfolding closed_refs_def obj_ok_def mayref_def by blast
  qed
  have mm: "mayref R g (m, 5)" if "metatable h = Some m" for m
    by (rule may) (simp add: table_refs_def orefs_def that)
  obtain g1 where g1: "(case metatable h of None \<Rightarrow> retC () | Some m \<Rightarrow> markobject m) g = Some ((), g1)"
    "Inv R S T g1" "ext g g1" "refs_done (orefs 5 (metatable h)) g1"
    using mark_metatable [where mt' = "metatable h", OF I mm] by (auto elim: doesE)
  have m1: "has g1 (m, 5)" if "metatable h = Some m" for m
    using ext_mayref [OF g1(3) mm [OF that]] by (simp add: mayref_def)
  obtain g2 where g2: "gfasttm (metatable h) TM_MODE g1 = Some (Option.bind (metatable h) (\<lambda>m. tm_of g1 m TM_MODE), g2)"
    "only_bodies g1 g2"
    using gfasttm_does [where mt' = "metatable h", OF g1(2) m1] by blast
  have e12: "ext g1 g2" and I2: "Inv R S T g2" using only_bodiesD(1) [OF g2(2)] only_bodies_Inv [OF g2(2) g1(2)] .
  have e2: "ext g g2" by (rule ext_trans [OF g1(3) e12])
  have "tm_of g2 m TM_MODE = tm_of g1 m TM_MODE" for m using e12 by (simp add: ext_def)
  then have wk: "weakness (Option.bind (metatable h) (\<lambda>m. tm_of g1 m TM_MODE)) g2 = Some (weak_of g2 h, g2)"
    using weakness_eq [OF InvD(1) [OF I2], of h] ext_has [OF e12 m1] by simp
  define k where "k = fst (weak_of g h)"
  define v where "v = snd (weak_of g h)"
  have kv: "weak_of g2 h = (k, v)" using ext_weak_of [OF e2 table_sim_refl] by (simp add: k_def v_def)
  obtain y where y: "gco g2 a = Some y" "isblack (marked y)" "\<not> iswhite (marked y)" "sim (body x) (body y)"
    using ext_black [OF e2 x(1) black] by metis
  obtain h2 where h2: "body y = GTable h2" "table_sim h h2" using y(4) x(2) by auto
  let ?set = "thenC (set_marked a (weakbits k v (marked y))) (modC (\<lambda>g. g\<lparr>weak := a # weak g\<rparr>))"
  have run: "traversetable a g = thenC (whenC (k \<or> v) ?set) (traverse_rest a h k v) g2"
    unfolding traversetable_def seqC_table [OF x] 
      thenC_run [of "case metatable h of None \<Rightarrow> retC () | Some m \<Rightarrow> markobject m" g, OF g1(1)]
      seqC_run [of "gfasttm (metatable h) TM_MODE" g1, OF g2(1)]
      seqC_run [of "weakness (Option.bind (metatable h) (\<lambda>m. tm_of g1 m TM_MODE))" g2, OF wk] kv prod.case traverse_rest_def
    by (simp only: whenC_obj [OF y(1)] weakbits_def)
  have fin: "does R S (insert a T) (traversetable a) g (traversed a)"
    if g3: "whenC (k \<or> v) ?set g2 = Some ((), g3)" "Inv R S (insert a T) g3" "ext g2 g3" "a \<in> set (weak g3) \<longleftrightarrow> k \<or> v"
      and z: "gco g3 a = Some z" "isblack (marked z)" "\<not> iswhite (marked z)" "body z = GTable h2"
        "k \<or> v \<Longrightarrow> marked z = weakbits k v (marked y)"
      and T: "\<not> (k \<or> v) \<Longrightarrow> g3 = g2" for g3 z
  proof -
    have e3: "ext g g3" by (rule ext_trans [OF e2 g3(3)])
    let ?T = "if k \<or> v then insert a T else T"
    have I3: "Inv R S ?T g3" using g3(2) T I2 by auto
    obtain w g4 where g4: "traverse_rest a h k v g3 = Some (w, g4)" "Inv R S ?T g4" "ext g3 g4" "w = (k \<or> v)"
      "weak g4 = weak g3" "refs_done (if v then {} else \<Union> (vrefs ` set (array h))) g4"
      "refs_done (\<Union> (node_refs (\<not> k) (\<not> v) ` set (node h))) g4"
      using traverse_rest_does [OF I3 z(1,4) h2(2), of k v] may ext_mayref [OF e3]
      unfolding k_def v_def by (auto elim: doesE)
    have e4: "ext g g4" by (rule ext_trans [OF e3 g4(3)])
    obtain u where u: "gco g4 a = Some u" "isblack (marked u)" "\<not> iswhite (marked u)" "obj_ext g3 a z u"
      using ext_black [OF g4(3) z(1,2,3)] by metis
    have "covered g4 a u"
    proof (rule covered_table [OF e4 x u(1)])
      show "refs_done (orefs 5 (metatable h)) g4"
        using ext_refs_done [OF ext_trans [OF e12 ext_trans [OF g3(3) g4(3)]] g1(4)] .
      show "weak_of g h = (bit (marked u) KEYWEAKBIT, bit (marked u) VALUEWEAKBIT)" if "a \<in> set (weak g4)"
      proof -
        have w: "a \<in> set (weak g3)" "k \<or> v" using that g4(5) g3(4) by auto
        then have "bit (marked u) 3 = bit (marked z) 3" "bit (marked u) 4 = bit (marked z) 4"
          using u(4) by (auto simp: obj_ext_def)
        then show ?thesis using z(5) [OF w(2)] bit_weakbits k_def v_def
          by (simp add: KEYWEAKBIT_def VALUEWEAKBIT_def prod_eq_iff)
      qed
    qed (use g3(4) g4 k_def v_def in auto)
    then have "traversed a w g4"
      using traversedI [OF g4(2) u(1)] u(2,3) g4(4,5) g3(4) a(2) by auto
    moreover have "traversetable a g = Some (w, g4)"
      using run thenC_run [of "whenC (k \<or> v) ?set" g2, OF g3(1)] g4(1) by metis
    moreover have "Inv R S (insert a T) g4" by (rule Inv_more [OF g4(2)]) auto
    ultimately show ?thesis using e4 by (auto simp: does_def)
  qed
  show ?thesis
  proof (cases "k \<or> v")
    case True
    obtain g3 where "?set g2 = Some ((), g3)" "Inv R S (insert a T) g3" "ext g2 g3" "a \<in> set (weak g3)"
      "gco g3 a = Some (y\<lparr>marked := weakbits k v (marked y)\<rparr>)"
      using set_weak_does [OF I2 a y(1) _ y(2,3), of k v] h2(1) by auto
    then show ?thesis
      using fin [of g3 "y\<lparr>marked := weakbits k v (marked y)\<rparr>"] True y(2,3) h2(1)
      by (simp add: iswhite_bit isblack_bit bit_weakbits)
  next
    case False
    have "a \<notin> set (weak g2)" using black_not_listed [OF I2 y(1,2) a(2)] by (simp add: lists_def)
    then show ?thesis
      using fin [of g2 y] False Inv_more [OF I2, of S "insert a T"] y h2(1) by auto
  qed
qed

section \<open>Prototypes, closures and threads\<close>

text \<open>A computation that marks some references, in any state where it may.\<close>

definition marksrefs :: "addr set \<Rightarrow> addr set \<Rightarrow> addr set \<Rightarrow> unit gcm \<Rightarrow> gcref set \<Rightarrow> bool" where
  "marksrefs R S T m rs \<longleftrightarrow> (\<forall>g. Inv R S T g \<longrightarrow> (\<forall>r \<in> rs. mayref R g r) \<longrightarrow>
     does R S T m g (\<lambda>_ g'. weak g' = weak g \<and> refs_done rs g'))"

lemma marksrefsD: "marksrefs R S T m rs \<Longrightarrow> Inv R S T g \<Longrightarrow> \<forall>r \<in> rs. mayref R g r \<Longrightarrow>
    does R S T m g (\<lambda>_ g'. weak g' = weak g \<and> refs_done rs g')"
  by (simp add: marksrefs_def)

lemma mr_ret: "marksrefs R S T (retC ()) {}"
  by (auto simp: marksrefs_def intro: does_ret)

lemma mr_then:
  assumes "marksrefs R S T m A" "marksrefs R S T n B" shows "marksrefs R S T (thenC m n) (A \<union> B)"
  unfolding marksrefs_def
proof (intro allI impI)
  fix g assume g: "Inv R S T g" "\<forall>r \<in> A \<union> B. mayref R g r"
  then have "does R S T m g (\<lambda>_ g'. weak g' = weak g \<and> refs_done A g')"
    using marksrefsD [OF assms(1) g(1)] by blast
  then show "does R S T (thenC m n) g (\<lambda>_ g'. weak g' = weak g \<and> refs_done (A \<union> B) g')"
  proof (rule does_thenC)
    fix r g1 assume g1: "Inv R S T g1" "ext g g1" "weak g1 = weak g \<and> refs_done A g1"
    have "\<forall>r \<in> B. mayref R g1 r" using g(2) ext_mayref [OF g1(2)] by blast
    from marksrefsD [OF assms(2) g1(1) this]
    show "does R S T n g1 (\<lambda>_ g'. weak g' = weak g \<and> refs_done (A \<union> B) g')"
      by (rule does_mono) (use g1(3) ext_refs_done in auto)
  qed
qed

lemma mr_for:
  assumes "\<And>x. x \<in> set xs \<Longrightarrow> marksrefs R S T (f x) (rs x)"
  shows "marksrefs R S T (forC xs f) (\<Union> (rs ` set xs))"
  using assms
proof (induction xs)
  case Nil
  show ?case by (simp only: forC.simps list.set image_empty Union_empty mr_ret)
next
  case (Cons x xs)
  then have "marksrefs R S T (thenC (f x) (forC xs f)) (rs x \<union> \<Union> (rs ` set xs))"
    by (intro mr_then) auto
  then show ?case by simp
qed

lemma mr_value: "marksrefs R S T (markvalue v) (vrefs v)"
  unfolding marksrefs_def using markvalue_done by blast

lemma mr_object: "marksrefs R S T (markobject a) {(a, t)}"
  unfolding marksrefs_def
proof (intro allI impI)
  fix g assume g: "Inv R S T g" "\<forall>r \<in> {(a, t)}. mayref R g r"
  then have "mayref R g (a, t)" by simp
  from markobject_does [OF g(1) this]
  show "does R S T (markobject a) g (\<lambda>_ g'. weak g' = weak g \<and> refs_done {(a, t)} g')"
    by (rule does_mono) simp
qed

lemma mr_string: "marksrefs R S T (gc_stringmark a) {(a, 4)}"
  unfolding marksrefs_def
proof (intro allI impI)
  fix g assume I: "Inv R S T g" and m: "\<forall>r \<in> {(a, 4)}. mayref R g r"
  obtain x where x: "gco g a = Some x" "gch_tt (body x) = 4" "a \<in> R" using m by (auto simp: mayref_def has_def)
  obtain s where s: "body x = GString s" using x(2) by (cases "body x") auto
  let ?m = "reset2bits (marked x) WHITE0BIT WHITE1BIT" let ?g = "recolor a ?m g"
  have mm: "\<not> iswhite ?m" "isblack (marked x) \<Longrightarrow> isblack ?m" "\<forall>i \<ge> 3. bit ?m i = bit (marked x) i"
    by (auto simp: bit_marks)
  have nl: "a \<notin> set (lists g)" using InvD(3) [OF I, of a] x by (auto simp: on_list_def)
  have e: "ext g ?g" by (rule ext_recolor [OF x(1) mm(1,2)]) (use mm(3) s in \<open>auto simp: is_open_def\<close>)
  have "Inv R (insert a S) T ?g" by (rule Inv_recolor [OF I x(1) mm(1,2) _ x(3)]) (use mm(3) nl s in \<open>auto simp: is_open_def\<close>)
  then have "Inv R S T ?g"
    using x nl s by (intro Inv_drop_refs [of R a S T ?g "x\<lparr>marked := ?m\<rparr>"]) (auto simp: recolor_gco lists_def)
  moreover have "gc_stringmark a g = Some ((), ?g)"
    by (simp add: gc_stringmark_def seqC_obj x(1) s set_marked_recolor)
  moreover have "nonwhite ?g a" using x(1) mm(1) by (simp add: nonwhite_def recolor_gco)
  ultimately show "does R S T (gc_stringmark a) g (\<lambda>_ g'. weak g' = weak g \<and> refs_done {(a, 4)} g')"
    using e by (simp add: does_def)
qed

lemma mr_option:
  assumes "\<And>a. marksrefs R S T (f a) {(a, t)}" shows "marksrefs R S T (mark_option f x) (orefs t x)"
  using assms mr_ret by (cases x) (simp_all add: mark_option_def orefs_def)

lemma mr_proto: "marksrefs R S T (traverseproto f) (body_refs g (GProto f))"
  unfolding traverseproto_def body_refs.simps Un_assoc
  by (intro mr_then mr_for mr_option mr_string mr_object mr_value)

lemma mr_the: "marksrefs R S T (seqC (theC u) markobject) (orefs 10 u)" if "u \<noteq> None"
  using that mr_object by (auto simp: orefs_def)

lemma mr_closure:
  assumes "gch_tt b = 6" "struct_ok g b"
  shows "marksrefs R S T (traverseclosure b) (body_refs g b)"
proof (cases b)
  case (GCClosure e us)
  have "marksrefs R S T (thenC (markobject e) (forC us markvalue)) ({(e, 5)} \<union> \<Union> (vrefs ` set us))"
    by (intro mr_then mr_object mr_for mr_value)
  then show ?thesis by (simp add: traverseclosure_def GCClosure)
next
  case (GLClosure e p us)
  then have "None \<notin> set us" using assms by simp
  then have "marksrefs R S T (seqC (theC u) markobject) (orefs 10 u)" if "u \<in> set us" for u
    using mr_the that by metis
  then have "marksrefs R S T (thenC (markobject e) (thenC (markobject p) (forC us (\<lambda>u. seqC (theC u) markobject))))
      ({(e, 5)} \<union> ({(p, 9)} \<union> \<Union> (orefs 10 ` set us)))"
    by (intro mr_then mr_object mr_for)
  then show ?thesis by (simp add: traverseclosure_def GLClosure insert_commute)
qed (use assms in auto)

lemma fold_max_ge: "x \<le> fold (\<lambda>c lim. max lim (f c)) cs (x :: nat)"
  by (induction cs arbitrary: x) (auto intro: order_trans [OF max.cobounded1])

lemma fold_max_mem: "c \<in> set cs \<Longrightarrow> f c \<le> fold (\<lambda>c lim. max lim (f c)) cs (x :: nat)"
  by (induction cs arbitrary: x) (auto intro: order_trans [OF max.cobounded2 fold_max_ge])

lemma fold_max_le:
  "x \<le> b \<Longrightarrow> (\<And>c. c \<in> set cs \<Longrightarrow> f c \<le> b) \<Longrightarrow> fold (\<lambda>c lim. max lim (f c)) cs (x :: nat) \<le> b"
  by (induction cs arbitrary: x) auto

lemma stack_lim:
  assumes "gcthread_ok th"
  shows "th_top th \<le> stack_lim th" "stack_lim th < length (th_stack th)"
    "c \<in> set (take (th_ci th + 1) (th_base_ci th)) \<Longrightarrow> ci_top c \<le> stack_lim th"
proof -
  have ok: "th_top th \<le> length (th_stack th) - 1" "length (th_stack th) > 0"
    "\<And>c. c \<in> set (take (th_ci th + 1) (th_base_ci th)) \<Longrightarrow> ci_top c \<le> length (th_stack th) - 1"
    using assms unfolding gcthread_ok_def by fastforce+
  show "th_top th \<le> stack_lim th" unfolding stack_lim_def by (rule fold_max_ge)
  show "c \<in> set (take (th_ci th + 1) (th_base_ci th)) \<Longrightarrow> ci_top c \<le> stack_lim th"
    unfolding stack_lim_def by (rule fold_max_mem)
  have "stack_lim th \<le> length (th_stack th) - 1"
    unfolding stack_lim_def by (rule fold_max_le) (use ok in auto)
  then show "stack_lim th < length (th_stack th)" using ok(2) by linarith
qed

lemma clear_stack:
  assumes "t \<le> lim" "lim < length st"
  shows "length (clear_stack t lim st) = length st" "take t (clear_stack t lim st) = take t st"
  using assms by (auto simp: clear_stack_def)

lemma reallocstack_sim:
  assumes ok: "gcthread_ok th" and lim: "th_top th \<le> lim" "lim < n"
    "\<And>c. c \<in> set (take (th_ci th + 1) (th_base_ci th)) \<Longrightarrow> ci_top c \<le> lim"
  shows "thread_sim th (gc_reallocstack n th)" "gcthread_ok (gc_reallocstack n th)"
proof -
  have "take (th_top th) (take (Suc (n + EXTRA_STACK)) (th_stack th @ xs)) = take (th_top th) (th_stack th)" for xs
    using ok lim by (auto simp: gcthread_ok_def min_def)
  then show "thread_sim th (gc_reallocstack n th)"
    unfolding thread_sim_def gc_reallocstack_def Let_def by (simp del: take_append take_take)
  show "gcthread_ok (gc_reallocstack n th)"
    using ok lim by (fastforce simp: gcthread_ok_def gc_reallocstack_def Let_def)
qed

lemma reallocCI_sim:
  assumes ok: "gcthread_ok th" and n: "th_ci th < n"
  shows "thread_sim th (gc_reallocCI n th)" "gcthread_ok (gc_reallocCI n th)"
proof -
  have "take (th_ci th + 1) (take n (th_base_ci th @ xs)) = take (th_ci th + 1) (th_base_ci th)" for xs
    using ok n by (simp add: gcthread_ok_def min_def)
  then show "thread_sim th (gc_reallocCI n th)" "gcthread_ok (gc_reallocCI n th)"
    using ok n by (auto simp: thread_sim_def gcthread_ok_def gc_reallocCI_def)
qed

lemma checkstacksizes_sim:
  assumes ok: "gcthread_ok th" and lim: "th_top th \<le> lim"
    "\<And>c. c \<in> set (take (th_ci th + 1) (th_base_ci th)) \<Longrightarrow> ci_top c \<le> lim"
  shows "thread_sim th (checkstacksizes th lim)" "gcthread_ok (checkstacksizes th lim)"
proof -
  let ?b = "4 * th_ci th < length (th_base_ci th) \<and> 2 * BASIC_CI_SIZE < length (th_base_ci th)"
  define th1 where "th1 = (if ?b then gc_reallocCI (length (th_base_ci th) div 2) th else th)"
  have "?b \<Longrightarrow> th_ci th < length (th_base_ci th) div 2" by (auto simp: BASIC_CI_SIZE_def)
  then have 1: "thread_sim th th1" "gcthread_ok th1"
    using reallocCI_sim [OF ok, of "length (th_base_ci th) div 2"] ok by (auto simp: th1_def)
  have same: "th_top th1 = th_top th" "th_ci th1 = th_ci th"
    "take (th_ci th + 1) (th_base_ci th1) = take (th_ci th + 1) (th_base_ci th)"
    using 1(1) by (auto simp: thread_sim_def)
  let ?c = "4 * lim < length (th_stack th1) \<and> 2 * (BASIC_STACK_SIZE + EXTRA_STACK) < length (th_stack th1)"
  define th2 where "th2 = (if ?c then gc_reallocstack (length (th_stack th1) div 2) th1 else th1)"
  have 2: "thread_sim th1 th2 \<and> gcthread_ok th2"
  proof (cases ?c)
    case True
    then have "lim < length (th_stack th1) div 2"
      unfolding BASIC_STACK_SIZE_def EXTRA_STACK_def LUA_MINSTACK_def by presburger
    then show ?thesis
      using reallocstack_sim [OF 1(2), of lim "length (th_stack th1) div 2"] lim same True by (simp add: th2_def)
  qed (use 1 in \<open>auto simp: th2_def\<close>)
  have "checkstacksizes th lim = (if length (th_base_ci th) > LUAI_MAXCALLS then th else th2)"
    unfolding checkstacksizes_def Let_def th2_def th1_def by (rule refl)
  then show "thread_sim th (checkstacksizes th lim)" "gcthread_ok (checkstacksizes th lim)"
    using thread_sim_trans [OF 1(1)] 2 ok by auto
qed

lemma clear_sim:
  assumes ok: "gcthread_ok th"
  shows "thread_sim th (th\<lparr>th_stack := clear_stack (th_top th) (stack_lim th) (th_stack th)\<rparr>)"
    "gcthread_ok (th\<lparr>th_stack := clear_stack (th_top th) (stack_lim th) (th_stack th)\<rparr>)"
  using ok clear_stack [OF stack_lim(1,2) [OF ok]] by (auto simp: thread_sim_def gcthread_ok_def)

lemma tm_rebody_thread:
  assumes x: "gco g a = Some x" "body x = GThread t"
  shows "tm_of (rebody a (GThread t') g) m e = tm_of g m e"
proof -
  have "gc_string_hash (rebody a (GThread t') g) = gc_string_hash g"
    using x by (auto simp: gc_string_hash_def rebody_gco)
  then show ?thesis using x by (auto simp: tm_of_def rebody_gco split: option.split gcbody.split)
qed

lemma total_only: "only_bodies g (g\<lparr>totalbytes := n\<rparr>)"
proof -
  let ?g = "g\<lparr>totalbytes := n\<rparr>"
  have "same_store ?g g" by (simp add: same_store_def)
  note eq = same_store_refs [OF this]
  have "work ?g = work g" by (simp add: work_def whites_def)
  then show ?thesis by (auto simp: only_bodies_def ext_def eq rest_def obj_ext_def intro!: option.rel_refl)
qed

lemma only_bodies_trans:
  assumes "only_bodies g1 g2" "only_bodies g2 g3" shows "only_bodies g1 g3"
  using assms ext_trans [of g1 g2 g3] by (simp add: only_bodies_def)

lemma thread_sim_other: "thread_sim t t1 \<Longrightarrow> thread_sim t t2 \<Longrightarrow> thread_sim t1 t2"
  by (simp add: thread_sim_def)

lemma traversestack_does:
  assumes I: "Inv R S T g" and x: "gco g a = Some x" "body x = GThread th"
    and may: "\<And>r. r \<in> body_refs g (body x) \<Longrightarrow> mayref R g r"
  shows "does R S T (traversestack a) g (\<lambda>_ g'. weak g' = weak g \<and> refs_done (body_refs g (body x)) g')"
proof -
  have ok: "gcthread_ok th" using heap_okD [OF InvD(1) [OF I] x(1)] x(2) by (simp add: obj_ok_def)
  let ?lim = "stack_lim th"
  let ?th1 = "th\<lparr>th_stack := clear_stack (th_top th) ?lim (th_stack th)\<rparr>"
  let ?th2 = "checkstacksizes ?th1 ?lim"
  have t2: "thread_sim th ?th2" "gcthread_ok ?th2"
    using checkstacksizes_sim [OF clear_sim(2) [OF ok], of ?lim] stack_lim [OF ok] thread_sim_trans [OF clear_sim(1) [OF ok]]
    by auto
  have ass: "th_ci th < length (th_base_ci th)"
    "\<forall>c \<in> set (take (th_ci th + 1) (th_base_ci th)). ci_top c \<le> th_stack_last th"
    using ok by (auto simp: gcthread_ok_def)
  have refs: "body_refs g (body x) = vrefs (th_gt th) \<union> \<Union> (vrefs ` set (take (th_top th) (th_stack th)))"
    using x(2) by simp
  have "marksrefs R S T (thenC (markvalue (th_gt th)) (forC (take (th_top th) (th_stack th)) markvalue)) (body_refs g (body x))"
    unfolding refs by (intro mr_then mr_for mr_value)
  from marksrefsD [OF this I] may obtain r g1 where
    g1: "thenC (markvalue (th_gt th)) (forC (take (th_top th) (th_stack th)) markvalue) g = Some (r, g1)"
      "Inv R S T g1" "ext g g1" "weak g1 = weak g" "refs_done (body_refs g (body x)) g1"
    by (auto elim: doesE)
  obtain y where y: "gco g1 a = Some y" "obj_ext g a x y" using extD [OF g1(3) x(1)] .
  then obtain th' where th': "body y = GThread th'" "thread_sim th th'" using x(2) by (auto simp: obj_ext_def)
  have ob: "only_bodies g1 (rebody a (GThread ?th2) g1)"
  proof (rule rebody_only [OF y(1)])
    show "sim (body y) (GThread ?th2)" using th'(1) t2(2) thread_sim_other [OF th'(2) t2(1)] by simp
    show "tm_of (rebody a (GThread ?th2) g1) m e = tm_of g1 m e" for m e by (rule tm_rebody_thread [OF y(1) th'(1)])
  qed
  let ?f = "\<lambda>g. g\<lparr>totalbytes := totalbytes g + (thread_bytes ?th2 - thread_bytes ?th1)\<rparr>"
  have ob2: "only_bodies g1 (?f (rebody a (GThread ?th2) g1))"
    using only_bodies_trans [OF ob total_only] by simp
  obtain u gm where gm: "markvalue (th_gt th) g = Some (u, gm)"
    "forC (take (th_top th) (th_stack th)) markvalue gm = Some (r, g1)"
    using g1(1) by (auto simp: thenC_def seqC_def split: option.splits)
  have as: "assertC (th_ci th < length (th_base_ci th) \<and>
      (\<forall>c \<in> set (take (th_ci th + 1) (th_base_ci th)). ci_top c \<le> th_stack_last th)) = retC ()"
    "assertC (?lim < length (th_stack th)) = retC ()"
    using ass stack_lim(2) [OF ok] by (simp_all add: assertC_def)
  have "traversestack a g = Some ((), ?f (rebody a (GThread ?th2) g1))"
    unfolding traversestack_def seqC_thread [OF x] thenC_run [of "markvalue (th_gt th)" g, OF gm(1)] Let_def as
      thenC_ret thenC_run [of "forC (take (th_top th) (th_stack th)) markvalue" gm, OF gm(2)] thenC_body [OF y(1)]
    by (rule modC_apply)
  then show ?thesis
    using only_bodies_Inv [OF ob2 g1(2)] ext_trans [OF g1(3) only_bodiesD(1) [OF ob2]] only_bodiesD(2) [OF ob2] g1(4)
      ext_refs_done [OF only_bodiesD(1) [OF ob2] g1(5)]
    by (simp add: does_def)
qed

end
