(* ===== verification/GcPropagate.thy ===== *)
theory GcPropagate
  imports GcTraverse
begin

text \<open>
  \<open>propagatemark\<close> blackens one gray object and keeps the invariant; \<open>propagateall\<close> ends with no
  gray object left. \<open>step_ok\<close> is what one such step promises.
\<close>

section \<open>States with the same bodies\<close>

definition same_bodies :: "gc_State \<Rightarrow> gc_State \<Rightarrow> bool" where
  "same_bodies g' g \<longleftrightarrow> (\<forall>b. map_option body (gco g' b) = map_option body (gco g b)) \<and> g_tmname g' = g_tmname g"

lemma same_bodies_body:
  assumes "same_bodies g' g"
  shows "gco g a = None \<longleftrightarrow> gco g' a = None"
    "gco g a = Some x \<Longrightarrow> \<exists>y. gco g' a = Some y \<and> body y = body x"
  using assms by (metis same_bodies_def option.map_disc_iff, metis same_bodies_def map_option_eq_Some)

lemma same_bodies_case:
  assumes "same_bodies g' g"
  shows "(case gco g' a of None \<Rightarrow> d | Some x \<Rightarrow> f (body x)) = (case gco g a of None \<Rightarrow> d | Some x \<Rightarrow> f (body x))"
proof -
  have "map_option body (gco g' a) = map_option body (gco g a)" using assms by (simp add: same_bodies_def)
  then show ?thesis by (cases "gco g a"; cases "gco g' a") auto
qed

lemma same_bodies_refs:
  assumes s: "same_bodies g' g"
  shows "stack_at g' t i = stack_at g t i" "body_refs g' b = body_refs g b" "tm_of g' m e = tm_of g m e"
    "weak_of g' h = weak_of g h" "strong_refs g' b = strong_refs g b" "has g' r = has g r"
    "struct_ok g' b = struct_ok g b"
proof -
  show st: "stack_at g' t i = stack_at g t i" for t i unfolding stack_at_def by (rule same_bodies_case [OF s])
  show br: "body_refs g' b = body_refs g b" for b
  proof (cases b)
    case (GUpval v w) then show ?thesis by (cases v) (simp_all add: st)
  qed simp_all
  show tm: "tm_of g' m e = tm_of g m e" for m e using s by (intro tm_of_cong) (auto simp: same_bodies_def)
  have str: "(case gco g' s of None \<Rightarrow> (False, False) | Some x \<Rightarrow>
             (case body x of GString ts \<Rightarrow> f ts | _ \<Rightarrow> (False, False)))
      = (case gco g s of None \<Rightarrow> (False, False) | Some x \<Rightarrow>
             (case body x of GString ts \<Rightarrow> f ts | _ \<Rightarrow> (False, False)))" for s and f :: "TString \<Rightarrow> bool \<times> bool"
    by (rule same_bodies_case [OF s])
  show wk: "weak_of g' h = weak_of g h" for h unfolding weak_of_def tm str by (rule refl)
  show "strong_refs g' b = strong_refs g b" unfolding strong_refs_def wk br by (rule refl)
  have "(case gco g' (fst r) of None \<Rightarrow> False | Some x \<Rightarrow> gch_tt (body x) = snd r)
      = (case gco g (fst r) of None \<Rightarrow> False | Some x \<Rightarrow> gch_tt (body x) = snd r)"
    by (rule same_bodies_case [OF s])
  moreover have "has h r = (case gco h (fst r) of None \<Rightarrow> False | Some x \<Rightarrow> gch_tt (body x) = snd r)" for h
    by (simp add: has_def split: option.split)
  ultimately show "has g' r = has g r" by simp
  show "struct_ok g' b = struct_ok g b"
  proof (cases b)
    case (GUpval v w) then show ?thesis by (cases v) (simp_all add: st)
  qed simp_all
qed

lemma recolor_same_bodies: "same_bodies (recolor a m g) g"
  unfolding same_bodies_def using recolor_body by (simp add: recolor_def)

text \<open>A traversed object that has to stay gray.\<close>

lemma Inv_regray:
  assumes I: "Inv R (insert a S) (insert a T) g" and y: "gco g a = Some y" "\<not> iswhite (marked y)" "covered g a y"
  shows "Inv R S T (recolor a (resetbit (marked y) BLACKBIT) g)"
proof -
  let ?m = "resetbit (marked y) BLACKBIT" let ?g = "recolor a ?m g"
  note eq = same_bodies_refs [OF recolor_same_bodies [of a ?m g]]
  have m: "\<not> iswhite ?m" "\<not> isblack ?m" "\<forall>i \<ge> 3. bit ?m i = bit (marked y) i" "isgray ?m"
    using y(2) by (auto simp: bit_marks)
  have nw: "nonwhite ?g = nonwhite g" using y(1,2) m(1) by (auto simp: nonwhite_def recolor_gco fun_eq_iff)
  have dead: "isdead ?g w = isdead g w" for w by (simp add: isdead_def otherwhite_def)
  have ok: "obj_ok ?g z" if "gco ?g c = Some z" for c z
  proof (cases "c = a")
    case True
    then have "z = y\<lparr>marked := ?m\<rparr>" using that y(1) by (simp add: recolor_gco)
    then show ?thesis
      using heap_okD [OF InvD(1) [OF I] y(1)] m(1) not_white_not_dead [of ?m] by (simp add: obj_ok_def eq dead)
  next
    case False
    then show ?thesis using that heap_okD [OF InvD(1) [OF I], of c z] by (simp add: recolor_gco obj_ok_def eq dead)
  qed
  have ol: "on_list T ?g c" if "c \<in> set (lists g)" for c
    using InvD(3) [OF I that] y(1) m by (cases "c = a") (auto simp: on_list_def recolor_gco)
  have cv: "covered ?g c z" if z: "gco ?g c = Some z" "\<not> iswhite (marked z)" "c \<notin> set (gray g)" "c \<notin> S" for c z
  proof (cases "c = a")
    case True
    then have "z = y\<lparr>marked := ?m\<rparr>" using z(1) y(1) by (simp add: recolor_gco)
    then show ?thesis using y(3) True m(3)
      by (auto simp: covered_def eq nw KEYWEAKBIT_def VALUEWEAKBIT_def split: if_splits)
  next
    case False
    then have "covered g c z" using z InvD(4) [OF I] by (simp add: recolor_gco)
    then show ?thesis by (simp add: covered_def eq nw)
  qed
  have cl: "closed_refs R ?g"
    using InvD(6) [OF I] y(1) unfolding closed_refs_def eq by (auto simp: recolor_gco split: if_splits)
  have "g_tmname ?g = g_tmname g" by (simp add: recolor_def)
  then show ?thesis
    using InvD(1,2) [OF I] InvD(5) [OF I] ok ol cv cl by (auto simp: Inv_def nw heap_ok_def)
qed

lemma ext_regray:
  assumes e: "ext g g2" and x: "gco g a = Some x" "\<not> isblack (marked x)" and y: "gco g2 a = Some y" "\<not> iswhite (marked y)"
  shows "ext g (recolor a (resetbit (marked y) BLACKBIT) g2)"
proof -
  let ?m = "resetbit (marked y) BLACKBIT" let ?g = "recolor a ?m g2"
  have m: "\<not> iswhite ?m" "\<not> isblack ?m" "\<forall>i \<ge> 3. bit ?m i = bit (marked y) i" using y(2) by (auto simp: bit_marks)
  have "rel_option (obj_ext g c) (gco g c) (gco ?g c)" for c
  proof (cases "c = a")
    case True
    have "obj_ext g a x y" using extD [OF e x(1)] y(1) by auto
    then show ?thesis using True x y(1) m by (auto simp: recolor_gco obj_ext_def)
  next
    case False
    then show ?thesis using e by (simp add: recolor_gco ext_def)
  qed
  moreover have "work ?g \<le> work g"
    using e y(1,2) m(1) whites_recolor [OF m(1), of a g2] card_mono [of "whites g2" "whites g2 - {a}"]
    by (auto simp: ext_def work_def)
  ultimately show ?thesis using e by (simp add: ext_def recolor_tm)
qed

section \<open>One object\<close>

definition step_ok :: "addr set \<Rightarrow> addr set \<Rightarrow> 'a gcm \<Rightarrow> gc_State \<Rightarrow> bool" where
  "step_ok R S m g \<longleftrightarrow> (\<exists>n g'. m g = Some (n, g') \<and> Inv R S {} g' \<and> ext g g' \<and> work g' < work g)"

text \<open>Moving an object from the gray list to other lists, or off the lists.\<close>

lemma Inv_lists:
  assumes I: "Inv R S' T' g" and S: "\<And>c. c \<in> S' \<union> set (gray g) \<Longrightarrow> c \<in> S \<union> set gs"
    and l: "distinct (gs @ gr @ weak g)" "\<And>c. c \<in> set (gs @ gr @ weak g) \<Longrightarrow> on_list T g c"
  shows "Inv R S T (g\<lparr>gray := gs, grayagain := gr\<rparr>)" (is "Inv R S T ?g")
proof -
  have same: "same_store ?g g" by (simp add: same_store_def)
  note eq = same_store_refs [OF same] same_store_strong [OF same] same_store_heap [OF same]
  have nw: "nonwhite ?g = nonwhite g" by (simp add: nonwhite_def fun_eq_iff)
  have ol: "on_list T ?g c = on_list T g c" for c by (simp add: on_list_def)
  have cv: "covered ?g c y = covered g c y" for c y by (simp add: covered_def eq nw)
  have cc: "covered g c y" if "gco g c = Some y" "\<not> iswhite (marked y)" "c \<notin> set gs" "c \<notin> S" for c y
    using that S InvD(4) [OF I] by blast
  show ?thesis
    using InvD(1) [OF I] InvD(5,6) [OF I] l cc
    by (simp add: Inv_def nw ol cv eq lists_def closed_refs_def)
qed

lemma ext_lists:
  assumes e: "ext g g1" and w: "set (grayagain g) \<subseteq> set gr" "length gs < length (gray g)" "gray g1 = gray g"
  shows "ext g (g1\<lparr>gray := gs, grayagain := gr\<rparr>)" "work (g1\<lparr>gray := gs, grayagain := gr\<rparr>) < work g"
proof -
  let ?g = "g1\<lparr>gray := gs, grayagain := gr\<rparr>"
  have same: "same_store ?g g1" by (simp add: same_store_def)
  have w': "work ?g < work g1" using w(2,3) by (simp add: work_def whites_def)
  also have "\<dots> \<le> work g" using e by (simp add: ext_def)
  finally show "work ?g < work g" .
  then show "ext g ?g" using e w(1) same_store_refs(3) [OF same] by (simp add: ext_def rest_def)
qed

lemma propagate_start:
  assumes I: "Inv R S {} g" and a: "gray g = a # gs" and x: "gco g a = Some x"
  defines "g1 \<equiv> (recolor a (l_setbit (marked x) BLACKBIT) g)\<lparr>gray := gs\<rparr>"
  shows "isgray (marked x)" "gch_tt (body x) \<in> {5, 6, 8, 9}" "Inv R (insert a S) {} g1" "ext g g1" "work g1 < work g"
    "gco g1 a = Some (x\<lparr>marked := l_setbit (marked x) BLACKBIT\<rparr>)" "a \<notin> set (lists g1)"
    "isblack (l_setbit (marked x) BLACKBIT)" "\<not> iswhite (l_setbit (marked x) BLACKBIT)"
proof -
  let ?m = "l_setbit (marked x) BLACKBIT" let ?g = "recolor a ?m g"
  show t: "isgray (marked x)" "gch_tt (body x) \<in> {5, 6, 8, 9}"
    using InvD(3) [OF I, of a] a x by (auto simp: lists_def on_list_def)
  have m: "\<not> iswhite ?m" "isblack ?m" "\<forall>i \<ge> 3. bit ?m i = bit (marked x) i"
    using t(1) by (auto simp: bit_marks)
  then show "isblack ?m" "\<not> iswhite ?m" by simp_all
  have aR: "a \<in> R" using InvD(5) [OF I] x t(1) by (auto simp: nonwhite_def isgray_def)
  have I1: "Inv R (insert a S) {a} ?g"
    by (rule Inv_recolor [OF I x m(1) _ _ aR]) (use m t(2) in \<open>auto simp: is_open_def\<close>)
  have d: "distinct (a # gs @ grayagain g @ weak g)" using InvD(2) [OF I] a by (simp add: lists_def)
  have ol: "on_list {} ?g c" if c: "c \<in> set (gs @ grayagain g @ weak g)" for c
  proof -
    have "c \<noteq> a" "c \<in> set (lists g)" using c d a by (auto simp: lists_def)
    then show ?thesis using InvD(3) [OF I] by (simp add: on_list_def recolor_gco)
  qed
  have g1: "g1 = ?g\<lparr>gray := gs, grayagain := grayagain ?g\<rparr>" by (simp add: g1_def)
  show "Inv R (insert a S) {} g1"
    unfolding g1 by (rule Inv_lists [OF I1]) (use d ol a in auto)
  have e: "ext g ?g" by (rule ext_recolor [OF x m(1)]) (use m t(2) in \<open>auto simp: is_open_def\<close>)
  show "ext g g1" "work g1 < work g" unfolding g1 using ext_lists [OF e, of "grayagain ?g" gs] a by auto
  show "gco g1 a = Some (x\<lparr>marked := ?m\<rparr>)" using x by (simp add: g1_def recolor_gco)
  show "a \<notin> set (lists g1)" using d by (simp add: g1_def lists_def)
qed

lemma ungray_recolor:
  assumes x: "gco g a = Some x" and gr: "isgray (marked x)"
  shows "recolor a (resetbit (l_setbit (marked x) BLACKBIT) BLACKBIT) (recolor a (l_setbit (marked x) BLACKBIT) g) = g"
proof -
  have "resetbit (l_setbit (marked x) BLACKBIT) BLACKBIT = marked x"
    using gr by (intro bit_eqI) (auto simp: bit_marks)
  then show ?thesis using x by (auto simp: recolor_def fun_eq_iff)
qed

definition propagate_case :: "addr \<Rightarrow> gcbody \<Rightarrow> int gcm" where
  "propagate_case o' b =
     (case b of
        GTable h \<Rightarrow>
          seqC (traversetable o') (\<lambda>w. thenC (whenC w (black2gray o'))
            (retC (64 + sizeof_TValue * int (sizearray h) + 40 * int (sizenode h))))
      | GCClosure e us \<Rightarrow> thenC (traverseclosure b) (retC (sizeCclosure (length us)))
      | GLClosure e p us \<Rightarrow> thenC (traverseclosure b) (retC (sizeLclosure (length us)))
      | GThread th \<Rightarrow>
          thenC (modC (\<lambda>g. g\<lparr>grayagain := o' # grayagain g\<rparr>))
          (thenC (black2gray o')
          (thenC (traversestack o')
          (seqC (gc_thread o') (\<lambda>th. retC (184 + thread_bytes th)))))
      | GProto f \<Rightarrow> thenC (traverseproto f) (retC (proto_bytes f))
      | _ \<Rightarrow> failC)"

lemma propagatemark_start:
  assumes "gray g = a # gs" "gco g a = Some x" "isgray (marked x)"
  shows "propagatemark g = propagate_case a (body x) ((recolor a (l_setbit (marked x) BLACKBIT) g)\<lparr>gray := gs\<rparr>)"
proof -
  have "propagatemark g = propagate_case a (body x)
      ((recolor a (l_setbit (marked x) BLACKBIT) g)\<lparr>gray := tl (gray g)\<rparr>)"
    unfolding propagatemark_def propagate_case_def
    by (simp add: assms seqC_obj thenC_run [of "gray2black a" g, OF gray2black_eq [OF assms(2)]] cong: gcbody.case_cong)
  then show ?thesis by (simp add: assms(1))
qed

lemma step_refs:
  assumes I: "Inv R (insert a S) {} g" and x: "gco g a = Some x" "\<not> iswhite (marked x)" "a \<notin> set (weak g)"
    and m: "marksrefs R (insert a S) {} m (body_refs g (body x))" and s: "strong_refs g (body x) = body_refs g (body x)"
  shows "\<exists>g'. m g = Some ((), g') \<and> Inv R S {} g' \<and> ext g g'"
proof -
  have aR: "a \<in> R" using InvD(5) [OF I] x by (auto simp: nonwhite_def)
  have ok: "obj_ok g x" using heap_okD [OF InvD(1) [OF I] x(1)] .
  have "\<forall>r \<in> body_refs g (body x). mayref R g r"
    using InvD(6) [OF I] aR x(1) s ok unfolding closed_refs_def mayref_def obj_ok_def by blast
  from marksrefsD [OF m I this] obtain r g' where
    g': "m g = Some (r, g')" "Inv R (insert a S) {} g'" "ext g g'" "weak g' = weak g" "refs_done (body_refs g (body x)) g'"
    by (auto elim: doesE)
  obtain y where y: "gco g' a = Some y" "obj_ext g a x y" using extD [OF g'(3) x(1)] .
  have "body_refs g' (body y) = body_refs g (body x)"
    using ext_body_refs [OF g'(3)] y(2) by (simp add: obj_ext_def)
  then have "Inv R S {} g'" using Inv_drop_refs [OF g'(2) y(1)] g'(4,5) x(3) by (simp add: refs_done_def)
  then show ?thesis using g' by (intro exI [of _ g']) simp
qed

lemma propagatemark_step:
  assumes I: "Inv R S {} g" and ne: "gray g \<noteq> []"
  shows "step_ok R S propagatemark g"
proof -
  obtain a gs where a: "gray g = a # gs" using ne by (cases "gray g") auto
  have al: "a \<in> set (lists g)" using a by (simp add: lists_def)
  obtain x where x: "gco g a = Some x" using InvD(3) [OF I al] by (auto simp: on_list_def)
  let ?m = "l_setbit (marked x) BLACKBIT" let ?x = "x\<lparr>marked := ?m\<rparr>"
  let ?g1 = "(recolor a ?m g)\<lparr>gray := gs\<rparr>"
  note st = propagate_start [OF I a x]
  have run: "propagatemark g = propagate_case a (body x) ?g1" by (rule propagatemark_start [OF a x st(1)])
  have nw: "a \<notin> set (weak ?g1)" using st(7) unfolding lists_def by simp
  have fin: "step_ok R S propagatemark g"
    if "propagate_case a (body x) ?g1 = Some (n, g')" "Inv R S {} g'" "ext ?g1 g'" for n g'
  proof -
    have "work g' \<le> work ?g1" using that(3) by (simp add: ext_def)
    then show ?thesis using that run st(5) ext_trans [OF st(4) that(3)] by (auto simp: step_ok_def)
  qed
  have bx: "body ?x = body x" "marked ?x = ?m" by simp_all
  show ?thesis
  proof (cases "body x")
    case (GTable h)
    obtain w g2 where g2: "traversetable a ?g1 = Some (w, g2)" "Inv R (insert a S) {a} g2" "ext ?g1 g2" "traversed a w g2"
      using traversetable_does [OF st(3) _ _ st(6), of h] GTable st(8,9) bx by (auto elim: doesE)
    obtain y where y: "gco g2 a = Some y" "covered g2 a y" "isblack (marked y)" "\<not> iswhite (marked y)"
      using g2(4) by (auto simp: traversed_def)
    have e2: "ext g g2" by (rule ext_trans [OF st(4) g2(3)])
    show ?thesis
    proof (cases w)
      case True
      let ?g3 = "recolor a (resetbit (marked y) BLACKBIT) g2"
      have "propagate_case a (body x) ?g1 = Some (64 + sizeof_TValue * int (sizearray h) + 40 * int (sizenode h), ?g3)"
        using GTable True g2(1) black2gray_eq [OF y(1)]
        by (simp add: propagate_case_def seqC_run [of "traversetable a" ?g1, OF g2(1)]
            thenC_run [of "black2gray a" g2, OF black2gray_eq [OF y(1)]])
      moreover have "Inv R S {} ?g3" by (rule Inv_regray [OF g2(2) y(1,4,2)])
      moreover have "ext g ?g3" by (rule ext_regray [OF e2 x _ y(1,4)]) (use st(1) in \<open>simp add: isgray_def\<close>)
      moreover have "work ?g3 < work g"
      proof -
        have "work ?g3 \<le> work g2"
          using whites_recolor [of "resetbit (marked y) BLACKBIT" a g2] y(4)
            card_mono [of "whites g2" "whites g2 - {a}"] by (simp add: work_def iswhite_bit bit_resetbit BLACKBIT_def)
        also have "\<dots> \<le> work ?g1" using g2(3) by (simp add: ext_def)
        finally show ?thesis using st(5) by simp
      qed
      ultimately show ?thesis using run by (auto simp: step_ok_def)
    next
      case False
      then have "a \<notin> set (lists g2)" using g2(4) by (auto simp: traversed_def lists_def)
      then have ol: "on_list {} g2 c" if "c \<in> set (lists g2)" for c
        using InvD(3) [OF g2(2) that] that by (auto simp: on_list_def)
      have "covered g2 c z" if "gco g2 c = Some z" "\<not> iswhite (marked z)" "c \<notin> set (gray g2)" "c \<notin> S" for c z
        using InvD(4) [OF g2(2) that(1-3)] that y by (cases "c = a") auto
      then have "Inv R S {} g2" using g2(2) ol by (simp add: Inv_def)
      moreover have "propagate_case a (body x) ?g1 = Some (64 + sizeof_TValue * int (sizearray h) + 40 * int (sizenode h), g2)"
        using GTable False by (simp add: propagate_case_def seqC_run [of "traversetable a" ?g1, OF g2(1)])
      ultimately show ?thesis using fin g2(3) by blast
    qed
  next
    case (GCClosure e us)
    have "marksrefs R (insert a S) {} (traverseclosure (body x)) (body_refs ?g1 (body ?x))"
      unfolding bx(1) by (rule mr_closure) (simp_all add: GCClosure)
    moreover have "strong_refs ?g1 (body ?x) = body_refs ?g1 (body ?x)" by (simp add: strong_refs_def GCClosure)
    ultimately obtain g' where g': "traverseclosure (body x) ?g1 = Some ((), g')" "Inv R S {} g'" "ext ?g1 g'"
      using step_refs [OF st(3,6)] st(9) nw by fastforce
    have "propagate_case a (body x) ?g1 = Some (sizeCclosure (length us), g')"
      unfolding propagate_case_def GCClosure gcbody.case
      by (simp add: thenC_run [of "traverseclosure (body x)" ?g1, OF g'(1), unfolded GCClosure])
    then show ?thesis by (rule fin [OF _ g'(2,3)])
  next
    case (GLClosure e p us)
    have so: "struct_ok ?g1 (body x)" using heap_okD [OF InvD(1) [OF st(3)] st(6)] by (simp add: obj_ok_def)
    have "marksrefs R (insert a S) {} (traverseclosure (body x)) (body_refs ?g1 (body ?x))"
      unfolding bx(1) by (rule mr_closure [OF _ so]) (simp add: GLClosure)
    moreover have "strong_refs ?g1 (body ?x) = body_refs ?g1 (body ?x)" by (simp add: strong_refs_def GLClosure)
    ultimately obtain g' where g': "traverseclosure (body x) ?g1 = Some ((), g')" "Inv R S {} g'" "ext ?g1 g'"
      using step_refs [OF st(3,6)] st(9) nw by fastforce
    have "propagate_case a (body x) ?g1 = Some (sizeLclosure (length us), g')"
      unfolding propagate_case_def GLClosure gcbody.case
      by (simp add: thenC_run [of "traverseclosure (body x)" ?g1, OF g'(1), unfolded GLClosure])
    then show ?thesis by (rule fin [OF _ g'(2,3)])
  next
    case (GProto f)
    have "marksrefs R (insert a S) {} (traverseproto f) (body_refs ?g1 (body ?x))"
      unfolding bx(1) GProto body_refs.simps using mr_proto [of R "insert a S" "{}" f ?g1] by simp
    moreover have "strong_refs ?g1 (body ?x) = body_refs ?g1 (body ?x)" by (simp add: strong_refs_def GProto)
    ultimately obtain g' where g': "traverseproto f ?g1 = Some ((), g')" "Inv R S {} g'" "ext ?g1 g'"
      using step_refs [OF st(3,6)] st(9) nw by fastforce
    have "propagate_case a (body x) ?g1 = Some (proto_bytes f, g')"
      unfolding propagate_case_def GProto gcbody.case
      by (simp add: thenC_run [of "traverseproto f" ?g1, OF g'(1), unfolded GProto])
    then show ?thesis by (rule fin [OF _ g'(2,3)])
  next
    case (GThread th)
    let ?g2 = "g\<lparr>gray := gs, grayagain := a # grayagain g\<rparr>"
    have d: "distinct (a # gs @ grayagain g @ weak g)" using InvD(2) [OF I] a by (simp add: lists_def)
    have I2: "Inv R (insert a S) {} ?g2"
      by (rule Inv_lists [OF I]) (use d a InvD(3) [OF I] in \<open>auto simp: lists_def\<close>)
    have e2: "ext g ?g2" "work ?g2 < work g"
      using ext_lists [OF ext_refl, of g "a # grayagain g" gs] a by auto
    have x2: "gco ?g2 a = Some x" using x by simp
    have aR: "a \<in> R" using InvD(5) [OF I] x st(1) by (auto simp: nonwhite_def isgray_def)
    have sr: "strong_refs ?g2 (body x) = body_refs ?g2 (body x)" by (simp add: strong_refs_def GThread)
    have ok: "obj_ok ?g2 x" by (rule heap_okD [OF InvD(1) [OF I2] x2])
    have "mayref R ?g2 r" if "r \<in> body_refs ?g2 (body x)" for r
      using InvD(6) [OF I2] aR x2 sr ok that unfolding closed_refs_def mayref_def obj_ok_def by blast
    from traversestack_does [OF I2 x2 GThread this] obtain r g3 where
      g3: "traversestack a ?g2 = Some (r, g3)" "Inv R (insert a S) {} g3" "ext ?g2 g3" "weak g3 = weak ?g2"
        "refs_done (body_refs ?g2 (body x)) g3" by (auto elim: doesE)
    obtain y where y: "gco g3 a = Some y" "obj_ext ?g2 a x y" using extD [OF g3(3) x2] .
    then obtain th' where th': "body y = GThread th'" using GThread by (auto simp: obj_ext_def)
    have "body_refs g3 (body y) = body_refs ?g2 (body x)" using ext_body_refs [OF g3(3)] y(2) by (simp add: obj_ext_def)
    then have I3: "Inv R S {} g3" using Inv_drop_refs [OF g3(2) y(1)] g3(4,5) d by (simp add: refs_done_def)
    have b: "black2gray a (?g1\<lparr>grayagain := a # grayagain ?g1\<rparr>) = Some ((), ?g2)"
    proof -
      have "recolor a (resetbit ?m BLACKBIT) (?g1\<lparr>grayagain := a # grayagain ?g1\<rparr>) =
          (recolor a (resetbit ?m BLACKBIT) (recolor a ?m g))\<lparr>gray := gs, grayagain := a # grayagain g\<rparr>"
        by (simp add: recolor_def)
      then show ?thesis
        using black2gray_eq [of "?g1\<lparr>grayagain := a # grayagain ?g1\<rparr>" a ?x] st(6) ungray_recolor [OF x st(1)] by simp
    qed
    have "propagate_case a (body x) ?g1 = Some (184 + thread_bytes th', g3)"
      unfolding propagate_case_def GThread gcbody.case thenC_mod
        thenC_run [of "black2gray a" "?g1\<lparr>grayagain := a # grayagain ?g1\<rparr>", OF b]
        thenC_run [of "traversestack a" ?g2, OF g3(1)] seqC_thread [OF y(1) th'] by simp
    moreover have "work g3 < work g" using g3(3) e2(2) by (simp add: ext_def)
    ultimately show ?thesis using run I3 ext_trans [OF e2(1) g3(3)] by (auto simp: step_ok_def)
  qed (use st(2) in auto)
qed

section \<open>All gray objects\<close>

lemma propagateall_ends:
  assumes "Inv R S {} g"
  shows "\<exists>n g'. propagateall g = Some (n, g') \<and> Inv R S {} g' \<and> ext g g' \<and> gray g' = []"
  using assms
proof (induction "work g" arbitrary: g rule: less_induct)
  case less
  show ?case
  proof (cases "gray g = []")
    case True
    then show ?thesis using less.prems by (subst propagateall.simps) simp
  next
    case False
    obtain n g1 where g1: "propagatemark g = Some (n, g1)" "Inv R S {} g1" "ext g g1" "work g1 < work g"
      using propagatemark_step [OF less.prems False] by (auto simp: step_ok_def)
    obtain m g2 where g2: "propagateall g1 = Some (m, g2)" "Inv R S {} g2" "ext g1 g2" "gray g2 = []"
      using less.hyps [OF g1(4,2)] by blast
    then show ?thesis
      using False g1 ext_trans [OF g1(3) g2(3)] by (subst propagateall.simps) simp
  qed
qed

end
