(* ===== verification/GcAtomic.thy ===== *)
theory GcAtomic
  imports GcPropagate
begin

text \<open>
  The end of marking. \<open>atomic\<close> goes over what the program may have changed behind the marks, saves
  user data that have a finalizer, clears weak tables, and leaves nothing dead within reach.
\<close>

section \<open>What the whole of marking changes\<close>

definition objb :: "GCObject \<Rightarrow> GCObject \<Rightarrow> bool" where
  "objb x y \<longleftrightarrow> sim (body x) (body y) \<and> (iswhite (marked y) \<longrightarrow> iswhite (marked x)) \<and>
     (gch_tt (body x) \<noteq> 5 \<longrightarrow> testbit (marked x) FINALIZEDBIT \<longrightarrow> testbit (marked y) FINALIZEDBIT)"

definition extb :: "gc_State \<Rightarrow> gc_State \<Rightarrow> bool" where
  "extb g g' \<longleftrightarrow> (\<forall>a. rel_option objb (gco g a) (gco g' a)) \<and>
     currentwhite g' = currentwhite g \<and> mainthread g' = mainthread g \<and> registry g' = registry g \<and>
     mt g' = mt g \<and> g_uvhead g' = g_uvhead g \<and> g_tmname g' = g_tmname g \<and>
     (\<forall>m e. tm_of g' m e = tm_of g m e)"

lemma testbit3: "testbit m FINALIZEDBIT \<longleftrightarrow> bit m 3" by (simp add: testbit_bit FINALIZEDBIT_def)

lemma objb_refl [simp]: "objb x x" by (simp add: objb_def)

lemma objb_trans: "objb x y \<Longrightarrow> objb y z \<Longrightarrow> objb x z"
  unfolding objb_def using sim_trans sim_tt by metis

lemma extbD:
  assumes "extb g g'" "gco g a = Some x"
  obtains y where "gco g' a = Some y" "objb x y"
proof -
  have "rel_option objb (gco g a) (gco g' a)" using assms(1) by (simp add: extb_def)
  then show ?thesis using that assms(2) by (cases "gco g' a") auto
qed

lemma extb_refl [simp]: "extb g g" by (auto simp: extb_def intro!: option.rel_refl)

lemma extb_trans:
  assumes "extb g1 g2" "extb g2 g3" shows "extb g1 g3"
proof -
  have "rel_option objb (gco g1 a) (gco g3 a)" for a
  proof -
    have "rel_option objb (gco g1 a) (gco g2 a)" "rel_option objb (gco g2 a) (gco g3 a)"
      using assms by (auto simp: extb_def)
    then show ?thesis by (cases "gco g1 a"; cases "gco g2 a"; cases "gco g3 a") (auto intro: objb_trans)
  qed
  then show ?thesis using assms unfolding extb_def by metis
qed

lemma ext_extb: "ext g g' \<Longrightarrow> extb g g'"
proof -
  assume e: "ext g g'"
  have "rel_option objb (gco g a) (gco g' a)" for a
  proof (cases "gco g a")
    case None then show ?thesis using ext_None [OF e, of a] by simp
  next
    case (Some x)
    obtain y where "gco g' a = Some y" "obj_ext g a x y" using extD [OF e Some] .
    then show ?thesis using Some by (auto simp: obj_ext_def objb_def testbit3)
  qed
  then show ?thesis
    using e rest_simps [OF ext_rest [OF e]] by (simp add: extb_def ext_def)
qed

lemma extb_simb:
  assumes "extb g g'" shows "simb g g'"
proof -
  have "rel_option (\<lambda>x y. sim (body x) (body y)) (gco g a) (gco g' a)" for a
  proof -
    have "rel_option objb (gco g a) (gco g' a)" using assms by (simp add: extb_def)
    then show ?thesis by (rule option.rel_mono_strong) (simp add: objb_def)
  qed
  then show ?thesis using assms by (simp add: simb_def extb_def)
qed

lemma extb_nonwhite: "extb g g' \<Longrightarrow> nonwhite g a \<Longrightarrow> nonwhite g' a"
  unfolding nonwhite_def by (metis extbD objb_def)

lemma extb_has:
  assumes "extb g g'" "has g r" shows "has g' r"
proof -
  obtain x where x: "gco g (fst r) = Some x" "gch_tt (body x) = snd r" using assms(2) by (auto simp: has_def)
  obtain y where "gco g' (fst r) = Some y" "objb x y" using extbD [OF assms(1) x(1)] .
  then show ?thesis using x(2) sim_tt [of "body x" "body y"] by (auto simp: has_def objb_def)
qed

text \<open>Only lists move.\<close>

lemma same_store_extb:
  assumes "same_store g' g" "rest (g'\<lparr>tmudata := tmudata g, rootgc := rootgc g\<rparr>) = rest g" shows "extb g g'"
proof -
  have "rel_option objb (gco g a) (gco g' a)" for a using assms(1) by (auto simp: same_store_def intro!: option.rel_refl)
  then show ?thesis
    using assms(1) rest_simps [OF assms(2)] same_store_refs(3) [OF assms(1)] by (simp add: extb_def same_store_def)
qed

section \<open>Open upvalues\<close>

definition remark :: "addr \<Rightarrow> unit gcm" where
  "remark uv = seqC (obj uv) (\<lambda>x. seqC (gc_upval uv) (\<lambda>(v, own).
     whenC (isgray (marked x)) (seqC (upval_value v own) markvalue)))"

lemma seqC_upval: "gco g a = Some x \<Longrightarrow> body x = GUpval v own \<Longrightarrow> seqC (gc_upval a) f g = f (v, own) g"
  by (rule seqC_eq) (simp add: gc_upval_def seqC_obj)

definition uv_ready :: "gc_State \<Rightarrow> addr \<Rightarrow> bool" where
  "uv_ready g a \<longleftrightarrow> (\<exists>x. gco g a = Some x \<and> is_open (body x) \<and> \<not> isblack (marked x))"

lemma ext_uv_ready:
  assumes "ext g g'" "uv_ready g a" shows "uv_ready g' a"
proof -
  obtain x where x: "gco g a = Some x" "is_open (body x)" "\<not> isblack (marked x)" using assms(2) by (auto simp: uv_ready_def)
  obtain y where "gco g' a = Some y" "obj_ext g a x y" using extD [OF assms(1) x(1)] .
  then show ?thesis using x sim_open [of "body x" "body y"] by (auto simp: uv_ready_def obj_ext_def)
qed

lemma remark_does:
  assumes I: "Inv R (insert a S) {} g" and u: "uv_ready g a"
  shows "does R S {} (remark a) g (\<lambda>_ g'. weak g' = weak g)"
proof -
  obtain x t i own where x: "gco g a = Some x" "body x = GUpval (InStack t i) own" "\<not> isblack (marked x)"
    using u by (auto simp: uv_ready_def is_open_def)
  show ?thesis
  proof (cases "iswhite (marked x)")
    case True
    then have "remark a g = Some ((), g)"
      unfolding remark_def by (simp add: seqC_obj [OF x(1)] seqC_upval [OF x(1,2)] isgray_def)
    moreover have "Inv R S {} g" by (rule Inv_drop [OF I]) (use x True in auto)
    ultimately show ?thesis by (simp add: does_def)
  next
    case False
    have ok: "obj_ok g x" by (rule heap_okD [OF InvD(1) [OF I] x(1)])
    obtain val where val: "upval_value (InStack t i) own g = Some (val, g)" "body_refs g (body x) = vrefs val"
      using upval_value_eq [of g "InStack t i" own] ok x(2) by (auto simp: obj_ok_def)
    have aR: "a \<in> R" using InvD(5) [OF I] x False by (auto simp: nonwhite_def)
    have "\<forall>r \<in> vrefs val. mayref R g r"
      using InvD(6) [OF I] aR x(1) val(2) ok x(2)
      by (fastforce simp: closed_refs_def mayref_def obj_ok_def strong_refs_def)
    from markvalue_does [OF I this] obtain r g' where g': "markvalue val g = Some (r, g')" "Inv R (insert a S) {} g'"
      "ext g g'" "\<forall>r \<in> vrefs val. nonwhite g' (fst r)" "weak g' = weak g" by (auto elim: doesE)
    have run: "remark a g = Some (r, g')"
      unfolding remark_def using False x(3)
      by (simp add: seqC_obj [OF x(1)] seqC_upval [OF x(1,2)] isgray_def seqC_run [of "upval_value (InStack t i) own" g, OF val(1)] g'(1))
    obtain y where y: "gco g' a = Some y" "obj_ext g a x y" using extD [OF g'(3) x(1)] .
    have s: "sim (body x) (body y)" using y(2) by (simp add: obj_ext_def)
    have "body_refs g' (body y) = vrefs val" "gch_tt (body y) = 10"
      unfolding ext_body_refs [OF g'(3) s] val(2) sim_tt [OF s] by (simp_all add: x(2))
    moreover have "a \<notin> set (weak g')"
      using InvD(3) [OF g'(2), of a] y(1) calculation(2) by (auto simp: on_list_def lists_def)
    ultimately have "Inv R S {} g'" using Inv_drop_refs [OF g'(2) y(1)] g'(4) by simp
    then show ?thesis using run g'(3,5) by (simp add: does_def)
  qed
qed

lemma remark_loop:
  assumes "Inv R (set us \<union> S) {} g" "\<forall>a \<in> set us. uv_ready g a"
  shows "does R S {} (forC us remark) g (\<lambda>_ g'. weak g' = weak g)"
  using assms
proof (induction us arbitrary: g)
  case Nil
  then show ?case unfolding forC.simps by (intro does_ret) simp_all
next
  case (Cons a us)
  have "Inv R (insert a (set us \<union> S)) {} g" using Cons.prems(1) by simp
  from remark_does [OF this] obtain r g1
    where g1: "remark a g = Some (r, g1)" "Inv R (set us \<union> S) {} g1" "ext g g1" "weak g1 = weak g"
    using Cons.prems(2) by (auto elim: doesE)
  have "does R S {} (forC us remark) g1 (\<lambda>_ g'. weak g' = weak g1)"
    using Cons.IH [OF g1(2)] Cons.prems(2) ext_uv_ready [OF g1(3)] by simp
  then obtain q g2 where g2: "forC us remark g1 = Some (q, g2)" "Inv R S {} g2" "ext g1 g2" "weak g2 = weak g1"
    by (auto elim: doesE)
  have "forC (a # us) remark g = Some (q, g2)"
    by (simp add: thenC_run [of "remark a" g, OF g1(1)] g2(1))
  then show ?case using g2 g1(4) ext_trans [OF g1(3) g2(3)] by (simp add: does_def)
qed

lemma remarkupvals_does:
  assumes "Inv R (set (g_uvhead g) \<union> S) {} g" "\<forall>a \<in> set (g_uvhead g). uv_ready g a"
  shows "does R S {} remarkupvals g (\<lambda>_ g'. weak g' = weak g)"
proof -
  have "remarkupvals g = forC (g_uvhead g) remark g"
    by (simp add: remarkupvals_def remark_def [abs_def])
  then show ?thesis using remark_loop [OF assms] by (simp add: does_def)
qed

section \<open>Moving the lists\<close>

lemma Inv_weak_gray:
  assumes I: "Inv R S {} g" and gr: "gray g = []" and S: "S \<subseteq> S' \<union> set (weak g)"
  shows "Inv R S' {} (g\<lparr>gray := weak g, weak := []\<rparr>)" (is "Inv R S' {} ?g")
proof -
  have same: "same_store ?g g" by (simp add: same_store_def)
  note eq = same_store_refs [OF same] same_store_strong [OF same] same_store_heap [OF same]
  have nw: "nonwhite ?g = nonwhite g" by (simp add: nonwhite_def fun_eq_iff)
  have ol: "on_list {} ?g c = on_list {} g c" for c by (simp add: on_list_def)
  have cv: "covered ?g c y" if "covered g c y" "c \<notin> set (weak g)" for c y
    using that by (simp add: covered_def eq nw)
  have cc: "covered ?g c y" if "gco g c = Some y" "\<not> iswhite (marked y)" "c \<notin> set (weak g)" "c \<notin> S'" for c y
    using that S InvD(4) [OF I, of c y] gr cv by auto
  have d: "distinct (lists g)" "\<forall>c \<in> set (lists g). on_list {} g c" using InvD [OF I] by auto
  show ?thesis
    using InvD(1) [OF I] InvD(5,6) [OF I] d cc gr
    by (auto simp: Inv_def nw ol eq lists_def closed_refs_def)
qed

lemma Inv_grayagain:
  assumes I: "Inv R S {} g" and gr: "gray g = []" and S: "S \<subseteq> S' \<union> set (grayagain g)"
  shows "Inv R S' {} (g\<lparr>gray := grayagain g, grayagain := []\<rparr>)"
  by (rule Inv_lists [OF I]) (use S gr InvD [OF I] in \<open>auto simp: lists_def\<close>)

lemma Inv_same_store:
  assumes I: "Inv R S T g" and s: "same_store g' g" and l: "gray g' = gray g" "grayagain g' = grayagain g" "weak g' = weak g"
  shows "Inv R S T g'"
proof -
  note eq = same_store_refs [OF s] same_store_strong [OF s] same_store_heap [OF s]
  have gco: "gco g' = gco g" using s by (simp add: same_store_def)
  have nw: "nonwhite g' = nonwhite g" by (simp add: nonwhite_def fun_eq_iff gco)
  have ol: "on_list T g' c = on_list T g c" for c by (simp add: on_list_def gco)
  have cv: "covered g' c y = covered g c y" for c y by (simp add: covered_def eq nw l)
  show ?thesis using I by (simp add: Inv_def nw ol cv eq gco lists_def closed_refs_def l)
qed

section \<open>User data with finalizers\<close>

definition finalizable :: "gc_State \<Rightarrow> addr \<Rightarrow> bool" where
  "finalizable g a \<longleftrightarrow> (\<exists>x u m. gco g a = Some x \<and> body x = GUdata u \<and> ud_metatable u = Some m \<and>
     tm_of g m TM_GC \<noteq> None \<and> \<not> testbit (marked x) FINALIZEDBIT)"

lemma extb_finalizable:
  assumes "extb g g'" "finalizable g' a" shows "finalizable g a"
proof -
  obtain y u m where y: "gco g' a = Some y" "body y = GUdata u" "ud_metatable u = Some m"
    "tm_of g' m TM_GC \<noteq> None" "\<not> testbit (marked y) FINALIZEDBIT" using assms(2) by (auto simp: finalizable_def)
  have "rel_option objb (gco g a) (gco g' a)" using assms(1) by (simp add: extb_def)
  then obtain x where x: "gco g a = Some x" "objb x y" using y(1) by (cases "gco g a") auto
  then have "body x = GUdata u" using y(2) by (cases "body x") (auto simp: objb_def)
  moreover have "tm_of g m TM_GC \<noteq> None" using y(4) assms(1) by (simp add: extb_def)
  ultimately show ?thesis using x y by (auto simp: finalizable_def objb_def)
qed

lemma Inv_recolor_white:
  assumes I: "Inv R S T g" and x: "gco g a = Some x" "iswhite (marked x)"
    and m: "\<forall>i < 3. bit m i = bit (marked x) i"
  shows "Inv R S T (recolor a m g)" (is "Inv R S T ?g")
proof -
  note eq = same_bodies_refs [OF recolor_same_bodies [of a m g]]
  have mw: "iswhite m" "isblack m = isblack (marked x)" "\<And>g. isdead g m = isdead g (marked x)"
    using m x(2) by (auto simp: iswhite_bit isblack_bit isdead_bit)
  have nw: "nonwhite ?g = nonwhite g" using x mw(1) by (auto simp: nonwhite_def recolor_gco fun_eq_iff)
  have dead: "isdead ?g w = isdead g w" for w by (simp add: isdead_def otherwhite_def)
  have ok: "obj_ok ?g z" if z: "gco ?g c = Some z" for c z
  proof (cases "c = a")
    case True
    then have "z = x\<lparr>marked := m\<rparr>" using z x(1) by (simp add: recolor_gco)
    then show ?thesis using heap_okD [OF InvD(1) [OF I] x(1)] mw x(2) by (simp add: obj_ok_def eq dead)
  next
    case False
    then show ?thesis using z heap_okD [OF InvD(1) [OF I], of c z] by (simp add: recolor_gco obj_ok_def eq dead)
  qed
  have nl: "a \<notin> set (lists g)" by (rule lists_nonwhite [OF I x])
  have ol: "on_list T ?g c" if "c \<in> set (lists g)" for c
    using InvD(3) [OF I that] nl that by (cases "c = a") (auto simp: on_list_def recolor_gco)
  have cv: "covered ?g c z" if z: "gco ?g c = Some z" "\<not> iswhite (marked z)" "c \<notin> set (gray g)" "c \<notin> S" for c z
  proof -
    have "c \<noteq> a" using z mw(1) x(1) by (auto simp: recolor_gco)
    then have "covered g c z" using z InvD(4) [OF I] by (simp add: recolor_gco)
    then show ?thesis by (simp add: covered_def eq nw)
  qed
  have cl: "closed_refs R ?g"
    using InvD(6) [OF I] x(1) unfolding closed_refs_def eq by (auto simp: recolor_gco split: if_splits)
  have "g_tmname ?g = g_tmname g" by (simp add: recolor_def)
  then show ?thesis
    using InvD(1,2) [OF I] InvD(5) [OF I] ok ol cv cl by (auto simp: Inv_def nw heap_ok_def)
qed

lemma markfinalized_ok:
  assumes I: "Inv R S {} g" and x: "gco g a = Some x" "iswhite (marked x)" "body x = GUdata u"
  shows "\<exists>g'. markfinalized a g = Some ((), g') \<and> Inv R S {} g' \<and> extb g g' \<and> lists g' = lists g \<and>
    gray g' = gray g \<and> grayagain g' = grayagain g \<and> weak g' = weak g \<and> rest g' = rest g"
proof -
  let ?m = "l_setbit (marked x) FINALIZEDBIT" let ?g = "recolor a ?m g"
  have m: "\<forall>i < 3. bit ?m i = bit (marked x) i" by (auto simp: bit_l_setbit FINALIZEDBIT_def)
  have w: "iswhite ?m" using x(2) by (auto simp: bit_marks)
  have "rel_option objb (gco g c) (gco ?g c)" for c
    using x w by (auto simp: recolor_gco objb_def testbit_bit bit_l_setbit FINALIZEDBIT_def intro!: option.rel_refl)
  then have "extb g ?g"
    using rest_simps [of ?g g] by (simp add: extb_def recolor_tm)
  then show ?thesis
    using Inv_recolor_white [OF I x(1,2) m]
    by (intro exI [of _ ?g]) (simp add: markfinalized_def seqC_obj x(1) set_marked_recolor)
qed

definition moved :: "addr set \<Rightarrow> gc_State \<Rightarrow> gc_State \<Rightarrow> bool" where
  "moved U g g' \<longleftrightarrow> (\<exists>new. tmudata g' = tmudata g @ new \<and> set new \<subseteq> U) \<and>
     set (rootgc g') \<union> set (tmudata g') = set (rootgc g) \<union> set (tmudata g) \<and>
     gray g' = gray g \<and> grayagain g' = grayagain g \<and> weak g' = weak g"

lemma moved_trans:
  assumes "moved U g1 g2" "moved U g2 g3" shows "moved U g1 g3"
proof -
  obtain n1 where n1: "tmudata g2 = tmudata g1 @ n1" "set n1 \<subseteq> U" using assms(1) by (auto simp: moved_def)
  obtain n2 where n2: "tmudata g3 = tmudata g2 @ n2" "set n2 \<subseteq> U" using assms(2) by (auto simp: moved_def)
  have "tmudata g3 = tmudata g1 @ (n1 @ n2) \<and> set (n1 @ n2) \<subseteq> U" using n1 n2 by simp
  then have "\<exists>new. tmudata g3 = tmudata g1 @ new \<and> set new \<subseteq> U" by blast
  then show ?thesis using assms unfolding moved_def by (elim conjE) (intro conjI, simp_all only:)
qed

lemma moved_mono: "moved U g g' \<Longrightarrow> U \<subseteq> V \<Longrightarrow> moved V g g'"
  unfolding moved_def by blast

lemma moved_refl: "gray g' = gray g \<Longrightarrow> grayagain g' = grayagain g \<Longrightarrow> weak g' = weak g \<Longrightarrow> rest g' = rest g \<Longrightarrow> moved U g g'"
  using rest_simps [of g' g] by (simp add: moved_def)

lemma remove1_keeps: "set xs - {a} \<subseteq> set (remove1 a xs)" by (induction xs) auto

lemma separate_step:
  assumes I: "Inv R S {} g" and x: "gco g a = Some x" "body x = GUdata u" "iswhite (marked x)"
    "\<not> testbit (marked x) FINALIZEDBIT"
    and r: "a \<in> set (rootgc g)" "finalizable g a \<Longrightarrow> a \<in> R"
  shows "\<exists>tm g1 g2. gfasttm (ud_metatable u) TM_GC g = Some (tm, g1) \<and> markfinalized a g1 = Some ((), g2) \<and>
    Inv R S {} g2 \<and> extb g g2 \<and> moved R g g2 \<and> rest g2 = rest g \<and> (tm \<noteq> None \<longrightarrow> a \<in> R) \<and> testbit (marked x) FINALIZEDBIT = False"
proof -
  have ok: "obj_ok g x" by (rule heap_okD [OF InvD(1) [OF I] x(1)])
  have m: "has g (m, 5)" if "ud_metatable u = Some m" for m
    using ok that x(2) by (simp add: obj_ok_def orefs_def)
  obtain g1 where g1: "gfasttm (ud_metatable u) TM_GC g = Some (Option.bind (ud_metatable u) (\<lambda>m. tm_of g m TM_GC), g1)"
    "only_bodies g g1" using gfasttm_does [OF I m] by blast
  have e: "ext g g1" by (rule only_bodiesD(1) [OF g1(2)])
  obtain y where y: "gco g1 a = Some y" "obj_ext g a x y" using extD [OF e x(1)] .
  have "map_option marked (gco g1 a) = map_option marked (gco g a)" using g1(2) by (simp add: only_bodies_def)
  then have my: "marked y = marked x" using y(1) x(1) by simp
  have by': "body y = GUdata u" using y(2) x(2) by (simp add: obj_ext_def)
  obtain g2 where g2: "markfinalized a g1 = Some ((), g2)" "Inv R S {} g2" "extb g1 g2"
      "gray g2 = gray g1" "grayagain g2 = grayagain g1" "weak g2 = weak g1" "rest g2 = rest g1"
    using markfinalized_ok [OF only_bodies_Inv [OF g1(2) I] y(1) _ by'] my x(3) by auto
  have rs: "rest g2 = rest g" using g2(7) ext_rest [OF e] by simp
  have fin: "a \<in> R" if "Option.bind (ud_metatable u) (\<lambda>m. tm_of g m TM_GC) \<noteq> None"
    using r(2) that x by (cases "ud_metatable u") (auto simp: finalizable_def)
  have "moved R g g2" by (rule moved_refl) (use g1(2) g2(4-6) rs in \<open>simp_all add: only_bodies_def\<close>)
  then show ?thesis using g1 g2 rs extb_trans [OF ext_extb [OF e] g2(3)] fin x(4) by blast
qed

lemma separate_loop_does:
  assumes "Inv R S {} g" "distinct us" "\<forall>a \<in> set us. has g (a, 7) \<and> a \<in> set (rootgc g) \<and> (finalizable g a \<longrightarrow> a \<in> R)"
  shows "\<exists>n g'. separate_loop False us g = Some (n, g') \<and> Inv R S {} g' \<and> extb g g' \<and> moved (R \<inter> set us) g g'"
  using assms
proof (induction us arbitrary: g)
  case Nil
  then show ?case by (simp add: moved_refl)
next
  case (Cons a us)
  obtain x where x: "gco g a = Some x" "gch_tt (body x) = 7" using Cons.prems(3) by (auto simp: has_def)
  obtain u where u: "body x = GUdata u" using x(2) by (cases "body x") auto
  have ud: "seqC (gc_udata a) f g = f u g" for f :: "Udata \<Rightarrow> int gcm"
    by (rule seqC_eq) (simp add: gc_udata_def seqC_obj [OF x(1)] u)
  have later: "\<exists>n g'. separate_loop False us g1 = Some (n, g') \<and> Inv R S {} g' \<and> extb g1 g' \<and> moved (R \<inter> set us) g1 g'"
    if "Inv R S {} g1" "extb g g1" "set (rootgc g) - {a} \<subseteq> set (rootgc g1)" for g1
    using Cons.IH [OF that(1)] Cons.prems(2,3) that(3) extb_has [OF that(2)] extb_finalizable [OF that(2)] by fastforce
  show ?case
  proof (cases "iswhite (marked x) \<and> \<not> testbit (marked x) FINALIZEDBIT")
    case False
    then have run: "separate_loop False (a # us) g = separate_loop False us g"
      by (simp add: seqC_obj [OF x(1)] ud)
    show ?thesis unfolding run using later [OF Cons.prems(1) extb_refl] moved_mono [of "R \<inter> set us" _ _ "R \<inter> set (a # us)"]
      by (fastforce intro: moved_mono)
  next
    case True
    obtain tm g1 g2 where st: "gfasttm (ud_metatable u) TM_GC g = Some (tm, g1)" "markfinalized a g1 = Some ((), g2)"
      "Inv R S {} g2" "extb g g2" "moved R g g2" "rest g2 = rest g" "tm \<noteq> None \<Longrightarrow> a \<in> R"
      using separate_step [OF Cons.prems(1) x(1) u] True Cons.prems(3) by auto
    have m2: "moved (R \<inter> set (a # us)) g g2"
      by (rule moved_refl) (use st(5,6) in \<open>auto simp: moved_def\<close>)
    have root: "rootgc g2 = rootgc g" using rest_simps [OF st(6)] by simp
    have run: "separate_loop False (a # us) g =
        (case tm of None \<Rightarrow> separate_loop False us
         | Some _ \<Rightarrow> thenC (modC (\<lambda>g. g\<lparr>rootgc := remove1 a (rootgc g), tmudata := tmudata g @ [a]\<rparr>))
             (seqC (separate_loop False us) (\<lambda>deadmem. retC (gc_sizeudata u + deadmem)))) g2"
      using True by (simp add: seqC_obj [OF x(1)] ud seqC_run [of "gfasttm (ud_metatable u) TM_GC" g, OF st(1)]
          thenC_run [of "markfinalized a" g1, OF st(2)])
    show ?thesis
    proof (cases tm)
      case None
      obtain n g' where g': "separate_loop False us g2 = Some (n, g')" "Inv R S {} g'" "extb g2 g'" "moved (R \<inter> set us) g2 g'"
        using later [OF st(3,4)] root by auto
      then show ?thesis unfolding run None
        using extb_trans [OF st(4) g'(3)] moved_trans [OF m2 moved_mono [OF g'(4)]] by auto
    next
      case (Some t)
      let ?g3 = "g2\<lparr>rootgc := remove1 a (rootgc g2), tmudata := tmudata g2 @ [a]\<rparr>"
      have same: "same_store ?g3 g2" by (simp add: same_store_def)
      have I3: "Inv R S {} ?g3" by (rule Inv_same_store [OF st(3) same]) simp_all
      have e3: "extb g2 ?g3" by (rule same_store_extb [OF same]) (simp add: rest_def)
      have aR: "a \<in> R" using st(7) Some by simp
      have "set (rootgc g2) \<subseteq> insert a (set (remove1 a (rootgc g2)))"
        using remove1_keeps [of "rootgc g2" a] by blast
      moreover have "a \<in> set (rootgc g2)" using Cons.prems(3) root by simp
      ultimately have "moved (R \<inter> set (a # us)) g2 ?g3"
        using aR set_remove1_subset [of a "rootgc g2"] unfolding moved_def by (intro conjI exI [of _ "[a]"]) auto
      note m3 = moved_trans [OF m2 this]
      have sub: "set (rootgc g) - {a} \<subseteq> set (rootgc ?g3)"  using remove1_keeps [of "rootgc g" a] by (simp add: root)
      obtain n g' where g': "separate_loop False us ?g3 = Some (n, g')" "Inv R S {} g'" "extb ?g3 g'" "moved (R \<inter> set us) ?g3 g'"
        using later [OF I3 extb_trans [OF st(4) e3] sub] by auto
      have "separate_loop False (a # us) g = Some (gc_sizeudata u + n, g')"
        unfolding run Some by (simp add: seqC_run [of "separate_loop False us" ?g3, OF g'(1)])
      then show ?thesis
        using g'(2) extb_trans [OF extb_trans [OF st(4) e3] g'(3)] moved_trans [OF m3 moved_mono [OF g'(4)]] by auto
    qed
  qed
qed

section \<open>Marking what will be finalized\<close>

definition white_ok :: "gc_State \<Rightarrow> bool" where
  "white_ok g \<longleftrightarrow> bit (currentwhite g) 0 \<noteq> bit (currentwhite g) 1"

lemma recolor_recolor [simp]: "recolor a m (recolor a m' g) = recolor a m g"
  by (auto simp: recolor_def fun_eq_iff option.map_comp o_def)

lemma mark_udata:
  assumes x: "gco g a = Some x" "body x = GUdata u" and e: "ud_env u = Some en" and w: "white_ok g"
  defines "m \<equiv> l_setbit (reset2bits (marked x) WHITE0BIT WHITE1BIT) BLACKBIT"
  shows "thenC (makewhite a) (mark_step f a) g =
    thenC (case ud_metatable u of None \<Rightarrow> retC () | Some m \<Rightarrow> markobject_by f m) (markobject_by f en) (recolor a m g)"
proof -
  let ?m1 = "(marked x AND maskmarks) OR luaC_white g"
  let ?m2 = "reset2bits ?m1 WHITE0BIT WHITE1BIT"
  let ?g1 = "recolor a ?m1 g" let ?g2 = "recolor a ?m2 g"
  have m1: "iswhite ?m1" "\<not> isdead ?g1 ?m1"
    using w unfolding white_ok_def by (auto simp: iswhite_bit isdead_bit bit_makewhite)
  have m: "l_setbit ?m2 BLACKBIT = m"
    by (rule bit_eqI) (auto simp: m_def bit_l_setbit bit_reset2bits bit_makewhite WHITE0BIT_def WHITE1BIT_def BLACKBIT_def)
  have s1: "makewhite a g = Some ((), ?g1)"
    by (simp add: makewhite_def seqC_obj [OF x(1)] set_marked_recolor [OF x(1)])
  have x1: "gco ?g1 a = Some (x\<lparr>marked := ?m1\<rparr>)" and x2: "gco ?g2 a = Some (x\<lparr>marked := ?m2\<rparr>)"
    using x by (simp_all add: recolor_gco)
  have s2: "white2gray a ?g1 = Some ((), ?g2)" using white2gray_eq [OF x1] by simp
  have s3: "gray2black a ?g2 = Some ((), recolor a m g)" using gray2black_eq [OF x2] m by simp
  have "thenC (makewhite a) (mark_step f a) g = mark_step f a ?g1" by (rule thenC_run [of "makewhite a" g, OF s1])
  also have "\<dots> = thenC (gray2black a)
      (thenC (case ud_metatable u of None \<Rightarrow> retC () | Some m \<Rightarrow> markobject_by f m)
      (seqC (theC (ud_env u)) (markobject_by f))) ?g2"
    using m1 by (simp add: mark_step_def seqC_obj [OF x1] x(2) thenC_run [of "white2gray a" ?g1, OF s2])
  also have "\<dots> = thenC (case ud_metatable u of None \<Rightarrow> retC () | Some m \<Rightarrow> markobject_by f m)
      (markobject_by f en) (recolor a m g)"
    by (simp add: thenC_run [of "gray2black a" ?g2, OF s3] e)
  finally show ?thesis .
qed

lemma tmu_step:
  assumes I: "Inv R (insert a S) {} g" and h: "has g (a, 7)" and aR: "a \<in> R" and w: "white_ok g"
  shows "does R S {} (thenC (makewhite a) (reallymarkobject a)) g (\<lambda>_ g'. nonwhite g' a \<and> weak g' = weak g)"
proof -
  obtain x where x: "gco g a = Some x" "gch_tt (body x) = 7" using h by (auto simp: has_def)
  obtain u where u: "body x = GUdata u" using x(2) by (cases "body x") auto
  have ok: "obj_ok g x" by (rule heap_okD [OF InvD(1) [OF I] x(1)])
  obtain en where en: "ud_env u = Some en" using ok u by (auto simp: obj_ok_def)
  let ?m = "l_setbit (reset2bits (marked x) WHITE0BIT WHITE1BIT) BLACKBIT" let ?g = "recolor a ?m g"
  let ?f = "mark_step (mark_step (\<lambda>_. failC))"
  have m: "\<not> iswhite ?m" "isblack ?m" "\<forall>i \<ge> 3. bit ?m i = bit (marked x) i" by (auto simp: bit_marks)
  have nl: "a \<notin> set (lists g)" using InvD(3) [OF I, of a] x by (auto simp: on_list_def)
  have e: "ext g ?g" by (rule ext_recolor [OF x(1) m(1)]) (use m u in \<open>auto simp: is_open_def\<close>)
  have I1: "Inv R (insert a S) {} ?g"
    by (rule Inv_recolor [OF I x(1) m(1) _ _ aR]) (use m u nl in \<open>auto simp: is_open_def\<close>)
  have x1: "gco ?g a = Some (x\<lparr>marked := ?m\<rparr>)" using x by (simp add: recolor_gco)
  have refs: "body_refs ?g (body x) = orefs 5 (ud_metatable u) \<union> {(en, 5)}" by (simp add: u en orefs_def)
  have nr: "snd r = 5" if "r \<in> body_refs ?g (body x)" for r
    using that unfolding refs orefs_def by (cases "ud_metatable u") auto
  have ok1: "obj_ok ?g (x\<lparr>marked := ?m\<rparr>)" by (rule heap_okD [OF InvD(1) [OF I1] x1])
  have may: "may R {4, 5, 6, 7, 8, 9} ?g r" if "r \<in> body_refs ?g (body x)" for r
  proof -
    have "strong_refs ?g (body x) = body_refs ?g (body x)" by (simp add: strong_refs_def u)
    then have "fst r \<in> R" using InvD(6) [OF I1] aR x1 that unfolding closed_refs_def by fastforce
    then show ?thesis using that ok1 nr [OF that] by (simp add: may_def obj_ok_def)
  qed
  have f: "marks R {} {4, 5, 6, 7, 8, 9} ?f" by (rule really_marks2)
  have d1: "does R (insert a S) {} (case ud_metatable u of None \<Rightarrow> retC () | Some m \<Rightarrow> markobject_by ?f m) ?g
      (\<lambda>_ g'. refs_done (orefs 5 (ud_metatable u)) g' \<and> weak g' = weak g)"
  proof (cases "ud_metatable u")
    case None
    then show ?thesis using I1 by (auto simp: orefs_def intro: does_ret)
  next
    case (Some mt)
    then have "may R {4, 5, 6, 7, 8, 9} ?g (mt, 5)" using may refs by (simp add: orefs_def)
    from markobject_by_does [OF f I1 this] show ?thesis using Some by (simp add: orefs_def)
  qed
  have d2: "does R (insert a S) {} (thenC (case ud_metatable u of None \<Rightarrow> retC () | Some m \<Rightarrow> markobject_by ?f m)
      (markobject_by ?f en)) ?g (\<lambda>_ g'. refs_done (body_refs ?g (body x)) g' \<and> weak g' = weak g)"
  proof (rule does_thenC [OF d1])
    fix r g1 assume g1: "Inv R (insert a S) {} g1" "ext ?g g1"
      "refs_done (orefs 5 (ud_metatable u)) g1 \<and> weak g1 = weak g"
    have "may R {4, 5, 6, 7, 8, 9} g1 (en, 5)" by (rule ext_may [OF g1(2) may]) (simp add: refs)
    from markobject_by_does [OF f g1(1) this]
    show "does R (insert a S) {} (markobject_by ?f en) g1 (\<lambda>_ g'. refs_done (body_refs ?g (body x)) g' \<and> weak g' = weak g)"
      by (rule does_mono) (use g1(3) ext_refs_done in \<open>auto simp: refs\<close>)
  qed
  then obtain r g' where g': "thenC (case ud_metatable u of None \<Rightarrow> retC () | Some m \<Rightarrow> markobject_by ?f m)
      (markobject_by ?f en) ?g = Some (r, g')" "Inv R (insert a S) {} g'" "ext ?g g'"
      "refs_done (body_refs ?g (body x)) g'" "weak g' = weak g" by (auto elim: doesE)
  obtain y where y: "gco g' a = Some y" "obj_ext ?g a (x\<lparr>marked := ?m\<rparr>) y" using extD [OF g'(3) x1] .
  have "body_refs g' (body y) = body_refs ?g (body x)"
    using ext_body_refs [OF g'(3), of "body x" "body y"] y(2) by (simp add: obj_ext_def)
  moreover have "a \<notin> set (weak g')" using nl g'(5) by (simp add: lists_def)
  ultimately have "Inv R S {} g'" using Inv_drop_refs [OF g'(2) y(1)] g'(4) by (simp add: refs_done_def)
  moreover have "nonwhite g' a" by (rule ext_nonwhite [OF g'(3)]) (use x1 m(1) in \<open>simp add: nonwhite_def\<close>)
  moreover have "thenC (makewhite a) (reallymarkobject a) g = Some (r, g')"
    unfolding reallymarkobject_def using mark_udata [OF x(1) u en w, of ?f] g'(1) by simp
  ultimately show ?thesis using ext_trans [OF e g'(3)] g'(5) by (simp add: does_def)
qed

lemma tmu_loop:
  assumes "Inv R (set us \<union> S) {} g" "\<forall>a \<in> set us. has g (a, 7) \<and> a \<in> R" "white_ok g"
  shows "does R S {} (forC us (\<lambda>u. thenC (makewhite u) (reallymarkobject u))) g
    (\<lambda>_ g'. (\<forall>a \<in> set us. nonwhite g' a) \<and> weak g' = weak g)"
  using assms
proof (induction us arbitrary: g)
  case Nil
  then show ?case unfolding forC.simps by (intro does_ret) simp_all
next
  case (Cons a us)
  let ?f = "\<lambda>u. thenC (makewhite u) (reallymarkobject u)"
  have "Inv R (insert a (set us \<union> S)) {} g" using Cons.prems(1) by simp
  from tmu_step [OF this] obtain r g1
    where g1: "?f a g = Some (r, g1)" "Inv R (set us \<union> S) {} g1" "ext g g1" "nonwhite g1 a" "weak g1 = weak g"
    using Cons.prems(2,3) by (auto elim: doesE)
  have "white_ok g1" using Cons.prems(3) rest_simps [OF ext_rest [OF g1(3)]] by (simp add: white_ok_def)
  then have "does R S {} (forC us ?f) g1 (\<lambda>_ g'. (\<forall>a \<in> set us. nonwhite g' a) \<and> weak g' = weak g1)"
    using Cons.IH [OF g1(2)] Cons.prems(2) ext_has [OF g1(3)] by simp
  then obtain q g2 where g2: "forC us ?f g1 = Some (q, g2)" "Inv R S {} g2" "ext g1 g2"
    "\<forall>a \<in> set us. nonwhite g2 a" "weak g2 = weak g1" by (auto elim: doesE)
  have "forC (a # us) ?f g = Some (q, g2)"
    unfolding forC.simps thenC_run [of "?f a" g, OF g1(1)] by (rule g2(1))
  then show ?case using g2 g1(4,5) ext_trans [OF g1(3) g2(3)] ext_nonwhite [OF g2(3)] by (simp add: does_def)
qed

lemma marktmu_does:
  assumes "Inv R (set (tmudata g) \<union> S) {} g" "\<forall>a \<in> set (tmudata g). has g (a, 7) \<and> a \<in> R" "white_ok g"
  shows "does R S {} marktmu g (\<lambda>_ g'. (\<forall>a \<in> set (tmudata g). nonwhite g' a) \<and> weak g' = weak g)"
  using tmu_loop [OF assms] by (simp add: does_def marktmu_def)

end
