(* ===== verification/GcClear.thy ===== *)
theory GcClear
  imports GcAtomic
begin

text \<open>
  Clearing weak tables: \<open>cleartable\<close> empties exactly entries whose key or value was not marked, and
  afterwards nothing marked refers to anything white.
\<close>

section \<open>What clearing changes\<close>

text \<open>A value that keeps no entry: an object not marked, or user data that has been finalized.\<close>

definition dead_ref :: "gc_State \<Rightarrow> TValue \<Rightarrow> bool" where
  "dead_ref g v \<longleftrightarrow> (\<exists>x. iscollectable v \<and> ttype v \<noteq> 4 \<and> gco g (gcvalue v) = Some x \<and> gch_tt (body x) = ttype v \<and>
     (iswhite (marked x) \<or> ttype v = 7 \<and> testbit (marked x) FINALIZEDBIT))"

definition cl_slot :: "gc_State \<Rightarrow> TValue \<Rightarrow> TValue \<Rightarrow> bool" where
  "cl_slot g v v' \<longleftrightarrow> v' = v \<or> v' = NIL \<and> dead_ref g v"

definition cl_node :: "gc_State \<Rightarrow> Node \<Rightarrow> Node \<Rightarrow> bool" where
  "cl_node g n n' \<longleftrightarrow> gnext n' = gnext n \<and>
     (i_key n' = i_key n \<and> i_val n' = i_val n \<or> i_val n' = NIL \<and> (dead_ref g (i_key n) \<or> dead_ref g (i_val n)))"

definition cl_table :: "gc_State \<Rightarrow> Table \<Rightarrow> Table \<Rightarrow> bool" where
  "cl_table g h h' \<longleftrightarrow> metatable h' = metatable h \<and> flags h' = flags h \<and> lsizenode h' = lsizenode h \<and>
     list_all2 (cl_slot g) (array h) (array h') \<and> list_all2 (cl_node g) (node h) (node h')"

definition cl_body :: "gc_State \<Rightarrow> gcbody \<Rightarrow> gcbody \<Rightarrow> bool" where
  "cl_body g b b' \<longleftrightarrow> (case b of GTable h \<Rightarrow> (\<exists>h'. b' = GTable h' \<and> cl_table g h h') | _ \<Rightarrow> b' = b)"

definition cl_obj :: "gc_State \<Rightarrow> GCObject \<Rightarrow> GCObject \<Rightarrow> bool" where
  "cl_obj g x y \<longleftrightarrow> cl_body g (body x) (body y) \<and>
     (marked y = marked x \<or> gch_tt (body x) = 4 \<and> \<not> iswhite (marked y))"

definition cext :: "gc_State \<Rightarrow> gc_State \<Rightarrow> bool" where
  "cext g g' \<longleftrightarrow> (\<forall>a. rel_option (cl_obj g) (gco g a) (gco g' a)) \<and> rest g' = rest g \<and>
     lists g' = lists g \<and> gray g' = gray g \<and> weak g' = weak g"

lemma cl_refl [simp]: "cl_slot g v v" "cl_node g n n" "cl_table g h h" "cl_body g b b" "cl_obj g x x"
  by (auto simp: cl_slot_def cl_node_def cl_table_def cl_body_def cl_obj_def list_all2_refl split: gcbody.split)

lemma cext_refl [simp]: "cext g g" by (auto simp: cext_def intro!: option.rel_refl)

lemma cl_body_tt: "cl_body g b b' \<Longrightarrow> gch_tt b' = gch_tt b"
  by (auto simp: cl_body_def split: gcbody.splits)

lemma cextD:
  assumes "cext g g'" "gco g a = Some x"
  obtains y where "gco g' a = Some y" "cl_obj g x y"
proof -
  have "rel_option (cl_obj g) (gco g a) (gco g' a)" using assms(1) by (simp add: cext_def)
  then show ?thesis using that assms(2) by (cases "gco g' a") auto
qed

lemma cextD':
  assumes "cext g g'" "gco g' a = Some y"
  obtains x where "gco g a = Some x" "cl_obj g x y"
proof -
  have "rel_option (cl_obj g) (gco g a) (gco g' a)" using assms(1) by (simp add: cext_def)
  then show ?thesis using that assms(2) by (cases "gco g a") auto
qed

lemma cext_dead:
  assumes "cext g g'" "dead_ref g' v" shows "dead_ref g v"
proof -
  obtain y where y: "iscollectable v" "ttype v \<noteq> 4" "gco g' (gcvalue v) = Some y" "gch_tt (body y) = ttype v"
    "iswhite (marked y) \<or> ttype v = 7 \<and> testbit (marked y) FINALIZEDBIT" using assms(2) by (auto simp: dead_ref_def)
  obtain x where x: "gco g (gcvalue v) = Some x" "cl_obj g x y" using cextD' [OF assms(1) y(3)] .
  then have "gch_tt (body x) = ttype v" using cl_body_tt [of g "body x" "body y"] y(4) by (simp add: cl_obj_def)
  then show ?thesis using x y by (auto simp: dead_ref_def cl_obj_def)
qed

lemma cl_slot_trans: "cl_slot g a b \<Longrightarrow> cl_slot g' b c \<Longrightarrow> (\<And>v. dead_ref g' v \<Longrightarrow> dead_ref g v) \<Longrightarrow> cl_slot g a c"
  by (auto simp: cl_slot_def)

lemma cl_node_trans: "cl_node g a b \<Longrightarrow> cl_node g' b c \<Longrightarrow> (\<And>v. dead_ref g' v \<Longrightarrow> dead_ref g v) \<Longrightarrow> cl_node g a c"
  by (auto simp: cl_node_def)

lemma cl_table_trans:
  assumes a: "cl_table g h1 h2" and b: "cl_table g' h2 h3" and d: "\<And>v. dead_ref g' v \<Longrightarrow> dead_ref g v"
  shows "cl_table g h1 h3"
proof -
  have "list_all2 (cl_slot g) (array h1) (array h3)"
    by (rule list_all2_trans [of "cl_slot g" "cl_slot g'" "cl_slot g"])
      (use a b cl_slot_trans [OF _ _ d] in \<open>auto simp: cl_table_def\<close>)
  moreover have "list_all2 (cl_node g) (node h1) (node h3)"
    by (rule list_all2_trans [of "cl_node g" "cl_node g'" "cl_node g"])
      (use a b cl_node_trans [OF _ _ d] in \<open>auto simp: cl_table_def\<close>)
  ultimately show ?thesis using a b by (simp add: cl_table_def)
qed

lemma cl_obj_trans:
  assumes "cl_obj g x y" "cl_obj g' y z" "\<And>v. dead_ref g' v \<Longrightarrow> dead_ref g v"
  shows "cl_obj g x z"
proof -
  have c: "cl_body g (body x) (body y)" "cl_body g' (body y) (body z)" using assms(1,2) by (simp_all add: cl_obj_def)
  then have "cl_body g (body x) (body z)"
    using cl_table_trans [OF _ _ assms(3)] by (cases "body x") (auto simp: cl_body_def)
  then show ?thesis using assms(1,2) cl_body_tt [OF c(1)] by (auto simp: cl_obj_def)
qed

lemma cext_trans:
  assumes a: "cext g1 g2" and b: "cext g2 g3" shows "cext g1 g3"
proof -
  have "rel_option (cl_obj g1) (gco g1 c) (gco g3 c)" for c
  proof -
    have "rel_option (cl_obj g1) (gco g1 c) (gco g2 c)" "rel_option (cl_obj g2) (gco g2 c) (gco g3 c)"
      using a b by (auto simp: cext_def)
    then show ?thesis
      by (cases "gco g1 c"; cases "gco g2 c"; cases "gco g3 c") (auto intro: cl_obj_trans cext_dead [OF a])
  qed
  then show ?thesis using a b by (simp add: cext_def)
qed

lemma cext_nonwhite:
  assumes "cext g g'" "nonwhite g a" shows "nonwhite g' a"
proof -
  obtain x where x: "gco g a = Some x" "\<not> iswhite (marked x)" using assms(2) by (auto simp: nonwhite_def)
  obtain y where "gco g' a = Some y" "cl_obj g x y" using cextD [OF assms(1) x(1)] .
  then show ?thesis using x by (auto simp: nonwhite_def cl_obj_def)
qed

lemma cext_done: "cext g g' \<Longrightarrow> refs_done rs g \<Longrightarrow> refs_done rs g'"
  by (simp add: refs_done_def cext_nonwhite)

lemma cext_has:
  assumes "cext g g'" "has g r" shows "has g' r"
proof -
  obtain x where x: "gco g (fst r) = Some x" "gch_tt (body x) = snd r" using assms(2) by (auto simp: has_def)
  obtain y where "gco g' (fst r) = Some y" "cl_obj g x y" using cextD [OF assms(1) x(1)] .
  then show ?thesis using x(2) cl_body_tt [of g "body x" "body y"] by (auto simp: has_def cl_obj_def)
qed

lemma cext_stack_at:
  assumes "cext g g'" shows "stack_at g' t i = stack_at g t i"
proof (cases "gco g t")
  case None
  have "rel_option (cl_obj g) (gco g t) (gco g' t)" using assms by (simp add: cext_def)
  then show ?thesis using None by (simp add: stack_at_def)
next
  case (Some x)
  obtain y where y: "gco g' t = Some y" "cl_obj g x y" using cextD [OF assms Some] .
  then show ?thesis using Some by (cases "body x") (auto simp: stack_at_def cl_obj_def cl_body_def)
qed

lemma vrefs_NIL [simp]: "vrefs NIL = {}" by (simp add: vrefs_def iscollectable_def)

lemma cl_table_refs:
  assumes "cl_table g h h'" shows "table_refs k v h' \<subseteq> table_refs k v h"
proof -
  have "\<Union> (vrefs ` set (array h')) \<subseteq> \<Union> (vrefs ` set (array h))"
  proof -
    have "list_all2 (cl_slot g) (array h) (array h')" using assms by (simp add: cl_table_def)
    then show ?thesis by (induction rule: list_all2_induct) (auto simp: cl_slot_def)
  qed
  moreover have "\<Union> (node_refs k v ` set (node h')) \<subseteq> \<Union> (node_refs k v ` set (node h))"
  proof -
    have "list_all2 (cl_node g) (node h) (node h')" using assms by (simp add: cl_table_def)
    then show ?thesis by (induction rule: list_all2_induct) (auto simp: cl_node_def node_refs_def split: if_splits)
  qed
  moreover have "metatable h' = metatable h" using assms by (simp add: cl_table_def)
  ultimately show ?thesis unfolding table_refs_def by (intro Un_mono) auto
qed

lemma cext_refs:
  assumes "cext g g'" "cl_body g b b'" shows "body_refs g' b' \<subseteq> body_refs g b"
proof (cases b)
  case (GTable h)
  then obtain h' where h': "b' = GTable h'" "cl_table g h h'" using assms(2) by (auto simp: cl_body_def)
  then show ?thesis using cl_table_refs [OF h'(2)] GTable by simp
next
  case (GUpval v w)
  then show ?thesis using assms(2) cext_stack_at [OF assms(1)] by (cases v) (auto simp: cl_body_def)
qed (use assms(2) in \<open>auto simp: cl_body_def\<close>)

section \<open>What holds while tables are cleared\<close>

text \<open>What is marked refers to what is marked, but for the weak tables \<open>D\<close>, not cleared yet.\<close>

definition half :: "gc_State \<Rightarrow> addr \<Rightarrow> bool" where
  "half g a \<longleftrightarrow> (\<exists>x h. gco g a = Some x \<and> body x = GTable h \<and>
     (testbit (marked x) VALUEWEAKBIT \<or> testbit (marked x) KEYWEAKBIT) \<and>
     refs_done (table_refs (\<not> testbit (marked x) KEYWEAKBIT) (\<not> testbit (marked x) VALUEWEAKBIT) h) g)"

definition refs_have :: "gc_State \<Rightarrow> bool" where
  "refs_have g \<longleftrightarrow> (\<forall>a x. gco g a = Some x \<longrightarrow> (\<forall>r \<in> body_refs g (body x). has g r))"

definition clear_ok :: "addr set \<Rightarrow> gc_State \<Rightarrow> bool" where
  "clear_ok D g \<longleftrightarrow> refs_have g \<and>
     (\<forall>a x. gco g a = Some x \<longrightarrow> \<not> iswhite (marked x) \<longrightarrow> a \<notin> D \<longrightarrow> refs_done (body_refs g (body x)) g) \<and>
     (\<forall>a \<in> D. half g a)"

lemma refs_done_mono: "refs_done A g \<Longrightarrow> B \<subseteq> A \<Longrightarrow> refs_done B g" by (auto simp: refs_done_def)

lemma cext_half:
  assumes e: "cext g g'" and "half g a" shows "half g' a"
proof -
  obtain x h where x: "gco g a = Some x" "body x = GTable h"
    "testbit (marked x) VALUEWEAKBIT \<or> testbit (marked x) KEYWEAKBIT"
    "refs_done (table_refs (\<not> testbit (marked x) KEYWEAKBIT) (\<not> testbit (marked x) VALUEWEAKBIT) h) g"
    using assms(2) by (auto simp: half_def)
  obtain y where y: "gco g' a = Some y" "cl_obj g x y" using cextD [OF e x(1)] .
  obtain h' where h': "body y = GTable h'" "cl_table g h h'" using y(2) x(2) by (auto simp: cl_obj_def cl_body_def)
  have m: "marked y = marked x" using y(2) x(2) by (auto simp: cl_obj_def)
  then show ?thesis
    using y(1) h'(1) x(3) refs_done_mono [OF cext_done [OF e x(4)] cl_table_refs [OF h'(2)]] by (auto simp: half_def)
qed

lemma cext_clear_ok:
  assumes e: "cext g g'" and ok: "clear_ok D g" shows "clear_ok D g'"
proof -
  have "has g' r" if y: "gco g' a = Some y" "r \<in> body_refs g' (body y)" for a y r
  proof -
    obtain x where x: "gco g a = Some x" "cl_obj g x y" using cextD' [OF e y(1)] .
    then have "r \<in> body_refs g (body x)" using cext_refs [OF e] y(2) by (auto simp: cl_obj_def)
    then show ?thesis using ok x(1) cext_has [OF e] unfolding clear_ok_def refs_have_def by blast
  qed
  moreover have "refs_done (body_refs g' (body y)) g'"
    if y: "gco g' a = Some y" "\<not> iswhite (marked y)" "a \<notin> D" for a y
  proof -
    obtain x where x: "gco g a = Some x" "cl_obj g x y" using cextD' [OF e y(1)] .
    have r: "body_refs g' (body y) \<subseteq> body_refs g (body x)" using cext_refs [OF e] x(2) by (auto simp: cl_obj_def)
    show ?thesis
    proof (cases "gch_tt (body x) = 4")
      case True
      then have "body_refs g (body x) = {}" by (cases "body x") auto
      then show ?thesis using r by simp
    next
      case False
      then have "\<not> iswhite (marked x)" using x(2) y(2) by (auto simp: cl_obj_def)
      then have "refs_done (body_refs g (body x)) g" using ok x(1) y(3) by (simp add: clear_ok_def)
      then show ?thesis using refs_done_mono [OF cext_done [OF e] r] by simp
    qed
  qed
  moreover have "\<forall>a \<in> D. half g' a" using ok cext_half [OF e] by (simp add: clear_ok_def)
  ultimately show ?thesis by (simp add: clear_ok_def refs_have_def)
qed

text \<open>Clearing computations: they end and change no more than clearing may.\<close>

definition clears :: "'a gcm \<Rightarrow> gc_State \<Rightarrow> ('a \<Rightarrow> gc_State \<Rightarrow> bool) \<Rightarrow> bool" where
  "clears m g Q \<longleftrightarrow> (\<exists>r g'. m g = Some (r, g') \<and> cext g g' \<and> Q r g')"

lemma clearsE:
  assumes "clears m g Q" obtains r g' where "m g = Some (r, g')" "cext g g'" "Q r g'"
  using assms by (auto simp: clears_def)

lemma clears_eq: "m g = n g \<Longrightarrow> clears n g Q \<Longrightarrow> clears m g Q" by (simp add: clears_def)

lemma clears_ret: "Q x g \<Longrightarrow> clears (retC x) g Q"
  unfolding clears_def by (intro exI [of _ x] exI [of _ g]) simp

lemma clears_seqC:
  assumes "clears m g P" "\<And>r g'. cext g g' \<Longrightarrow> P r g' \<Longrightarrow> clears (f r) g' Q"
  shows "clears (seqC m f) g Q"
proof -
  obtain r g1 where 1: "m g = Some (r, g1)" "cext g g1" "P r g1" using assms(1) by (rule clearsE)
  obtain q g2 where 2: "f r g1 = Some (q, g2)" "cext g1 g2" "Q q g2" using assms(2) [OF 1(2,3)] by (rule clearsE)
  have "seqC m f g = Some (q, g2)" unfolding seqC_run [of m g, OF 1(1)] by (rule 2(1))
  then show ?thesis using cext_trans [OF 1(2) 2(2)] 2(3) by (auto simp: clears_def)
qed

lemma clears_thenC:
  assumes "clears m g P" "\<And>r g'. cext g g' \<Longrightarrow> P r g' \<Longrightarrow> clears n g' Q"
  shows "clears (thenC m n) g Q"
  unfolding thenC_def using assms by (rule clears_seqC)

lemma clears_mono: "clears m g P \<Longrightarrow> (\<And>r g'. cext g g' \<Longrightarrow> P r g' \<Longrightarrow> Q r g') \<Longrightarrow> clears m g Q"
  by (auto simp: clears_def)

lemma clears_forC:
  assumes step: "\<And>x g'. x \<in> set xs \<Longrightarrow> cext g g' \<Longrightarrow> clears (f x) g' (\<lambda>_. Q x)"
    and stable: "\<And>x g1 g2. x \<in> set xs \<Longrightarrow> cext g g1 \<Longrightarrow> cext g1 g2 \<Longrightarrow> Q x g1 \<Longrightarrow> Q x g2"
  shows "clears (forC xs f) g (\<lambda>_ g'. \<forall>x \<in> set xs. Q x g')"
  using assms
proof (induction xs arbitrary: g)
  case Nil
  show ?case unfolding forC.simps by (rule clears_ret) simp
next
  case (Cons x xs)
  have "clears (f x) g (\<lambda>_. Q x)" using Cons.prems(1) by simp
  then show ?case unfolding forC.simps
  proof (rule clears_thenC)
    fix r g' assume g': "cext g g'" "Q x g'"
    have "clears (forC xs f) g' (\<lambda>_ g''. \<forall>y \<in> set xs. Q y g'')"
    proof (rule Cons.IH)
      fix y g1 assume "y \<in> set xs" "cext g' g1"
      then show "clears (f y) g1 (\<lambda>_. Q y)" using Cons.prems(1) cext_trans [OF g'(1)] by simp
    next
      fix y g1 g2 assume "y \<in> set xs" "cext g' g1" "cext g1 g2" "Q y g1"
      then show "Q y g2" using Cons.prems(2) cext_trans [OF g'(1)] by (meson list.set_intros(2))
    qed
    then show "clears (forC xs f) g' (\<lambda>_ g''. \<forall>y \<in> set (x # xs). Q y g'')"
      by (rule clears_mono) (use g' Cons.prems(2) in auto)
  qed
qed

lemma cext_string:
  assumes x: "gco g a = Some x" "gch_tt (body x) = 4" and m: "\<not> iswhite m"
  shows "cext g (recolor a m g)"
proof -
  have "rel_option (cl_obj g) (gco g c) (gco (recolor a m g) c)" for c
    using x m by (auto simp: recolor_gco cl_obj_def intro!: option.rel_refl)
  then show ?thesis by (simp add: cext_def)
qed

definition keeps :: "gc_State \<Rightarrow> gc_State \<Rightarrow> bool" where
  "keeps g g' \<longleftrightarrow> (\<forall>b x. gco g b = Some x \<longrightarrow> gch_tt (body x) \<noteq> 4 \<longrightarrow> gco g' b = Some x)"

lemma keeps_dead: "keeps g g' \<Longrightarrow> dead_ref g v \<Longrightarrow> dead_ref g' v"
  by (auto simp: dead_ref_def keeps_def)

lemma keeps_trans: "keeps g1 g2 \<Longrightarrow> keeps g2 g3 \<Longrightarrow> keeps g1 g3" by (simp add: keeps_def)

lemma iscleared_clears:
  assumes "\<forall>r \<in> vrefs v. has g r"
  shows "clears (iscleared v key) g (\<lambda>c g'. keeps g g' \<and> (if c then dead_ref g v else refs_done (vrefs v) g'))"
proof (cases "iscollectable v")
  case False
  then show ?thesis unfolding iscleared_def if_P [OF False] by (intro clears_ret) (simp add: vrefs_def keeps_def)
next
  case True
  then obtain x where x: "gco g (gcvalue v) = Some x" "gch_tt (body x) = ttype v"
    using assms by (auto simp: vrefs_def has_def)
  show ?thesis
  proof (cases "ttype v = 4")
    case s: True
    obtain ts where ts: "body x = GString ts" using x(2) s by (cases "body x") auto
    let ?m = "reset2bits (marked x) WHITE0BIT WHITE1BIT"
    have m: "\<not> iswhite ?m" by (auto simp: bit_marks)
    have "gc_stringmark (gcvalue v) g = Some ((), recolor (gcvalue v) ?m g)"
      by (simp add: gc_stringmark_def seqC_obj [OF x(1)] ts set_marked_recolor [OF x(1)])
    then have "iscleared v key g = Some (False, recolor (gcvalue v) ?m g)"
      unfolding iscleared_def using True s
      by (simp add: thenC_run [of "gc_stringmark (gcvalue v)" g])
    moreover have "nonwhite (recolor (gcvalue v) ?m g) (gcvalue v)"
      using x(1) m by (simp add: nonwhite_def recolor_gco)
    ultimately show ?thesis
      using cext_string [OF x(1) _ m] x s by (auto simp: clears_def vrefs_def refs_done_def keeps_def recolor_gco)
  next
    case False
    have "iscleared v key g =
        Some (iswhite (marked x) \<or> (ttype v = 7 \<and> \<not> key \<and> testbit (marked x) FINALIZEDBIT), g)"
      unfolding iscleared_def using True False by (simp add: seqC_obj [OF x(1)])
    then show ?thesis using True False x
      by (auto simp: clears_def dead_ref_def refs_done_def vrefs_def nonwhite_def keeps_def)
  qed
qed

section \<open>Clearing one entry\<close>

lemma cext_table:
  assumes x: "gco g a = Some x" "body x = GTable h" and c: "cl_table g h h'"
  shows "cext g (rebody a (GTable h') g)"
proof -
  have "rel_option (cl_obj g) (gco g b) (gco (rebody a (GTable h') g) b)" for b
    using x c by (auto simp: rebody_gco cl_obj_def cl_body_def intro!: option.rel_refl)
  then show ?thesis by (simp add: cext_def)
qed

definition slot_done :: "addr \<Rightarrow> nat \<Rightarrow> gc_State \<Rightarrow> bool" where
  "slot_done a i g \<longleftrightarrow> (\<forall>x h. gco g a = Some x \<longrightarrow> body x = GTable h \<longrightarrow> i < length (array h) \<longrightarrow>
     refs_done (vrefs (array h ! i)) g)"

definition node_done :: "addr \<Rightarrow> nat \<Rightarrow> gc_State \<Rightarrow> bool" where
  "node_done a i g \<longleftrightarrow> (\<forall>x h. gco g a = Some x \<longrightarrow> body x = GTable h \<longrightarrow> i < length (node h) \<longrightarrow>
     refs_done (node_refs True True (node h ! i)) g)"

lemma cext_table_at:
  assumes "cext g g'" "gco g' a = Some y" "body y = GTable h'"
  obtains x h where "gco g a = Some x" "body x = GTable h" "cl_table g h h'"
proof -
  obtain x where x: "gco g a = Some x" "cl_obj g x y" using cextD' [OF assms(1,2)] .
  then show thesis using that assms(3) by (cases "body x") (auto simp: cl_obj_def cl_body_def)
qed

lemma slot_stable:
  assumes e: "cext g g'" and d: "slot_done a i g" shows "slot_done a i g'"
  unfolding slot_done_def
proof (intro allI impI)
  fix y h' assume y: "gco g' a = Some y" "body y = GTable h'" "i < length (array h')"
  obtain x h where x: "gco g a = Some x" "body x = GTable h" "cl_table g h h'" by (rule cext_table_at [OF e y(1,2)])
  then have "i < length (array h)" "cl_slot g (array h ! i) (array h' ! i)"
    using y(3) by (auto simp: cl_table_def list_all2_conv_all_nth)
  then have "vrefs (array h' ! i) \<subseteq> vrefs (array h ! i)" "refs_done (vrefs (array h ! i)) g"
    using d x by (auto simp: cl_slot_def slot_done_def)
  then show "refs_done (vrefs (array h' ! i)) g'" using cext_done [OF e] refs_done_mono by blast
qed

lemma node_stable:
  assumes e: "cext g g'" and d: "node_done a i g" shows "node_done a i g'"
  unfolding node_done_def
proof (intro allI impI)
  fix y h' assume y: "gco g' a = Some y" "body y = GTable h'" "i < length (node h')"
  obtain x h where x: "gco g a = Some x" "body x = GTable h" "cl_table g h h'" by (rule cext_table_at [OF e y(1,2)])
  then have "i < length (node h)" "cl_node g (node h ! i) (node h' ! i)"
    using y(3) by (auto simp: cl_table_def list_all2_conv_all_nth)
  then have "node_refs True True (node h' ! i) \<subseteq> node_refs True True (node h ! i)"
    "refs_done (node_refs True True (node h ! i)) g"
    using d x by (auto simp: cl_node_def node_done_def node_refs_def)
  then show "refs_done (node_refs True True (node h' ! i)) g'" using cext_done [OF e] refs_done_mono by blast
qed

lemma seqC_the: "seqC (theC (Some x)) f = f x" by simp

lemma clear_slot_clears:
  assumes ok: "refs_have g" and x: "gco g a = Some x" "body x = GTable h" and i: "i < length (array h)"
  shows "clears (clear_slot a i) g (\<lambda>_. slot_done a i)"
proof -
  let ?v = "array h ! i"
  have "vrefs ?v \<subseteq> body_refs g (body x)" using x(2) i by (auto simp: table_refs_def)
  then have "\<forall>r \<in> vrefs ?v. has g r" using ok x(1) unfolding refs_have_def by blast
  from iscleared_clears [OF this, of False] obtain c g1 where g1: "iscleared ?v False g = Some (c, g1)" "cext g g1"
    "keeps g g1" "if c then dead_ref g ?v else refs_done (vrefs ?v) g1" by (auto elim: clearsE)
  have x1: "gco g1 a = Some x" using g1(3) x by (auto simp: keeps_def)
  let ?h = "h\<lparr>array := (array h)[i := NIL]\<rparr>"
  have run: "clear_slot a i g = whenC c (set_body a (GTable ?h)) g1"
    unfolding clear_slot_def seqC_table [OF x] if_P [OF i] seqC_the seqC_run [of "iscleared ?v False" g, OF g1(1)] by (rule refl)
  show ?thesis
  proof (cases c)
    case True
    then have "cl_slot g1 ?v NIL" using g1(3,4) keeps_dead by (simp add: cl_slot_def)
    then have "cl_table g1 h ?h"
      using i by (auto simp: cl_table_def list_all2_conv_all_nth nth_list_update)
    then have e: "cext g1 (rebody a (GTable ?h) g1)" by (rule cext_table [OF x1 x(2)])
    have "slot_done a i (rebody a (GTable ?h) g1)"
      using x1 i by (simp add: slot_done_def rebody_gco)
    then show ?thesis
      using run True set_body_rebody [OF x1] cext_trans [OF g1(2) e] by (simp add: clears_def)
  next
    case False
    then have "slot_done a i g1" using g1(4) x1 x(2) by (simp add: slot_done_def)
    then show ?thesis using run False g1(2) by (simp add: clears_def)
  qed
qed

lemma removeentry_clear: "i_val n = NIL \<Longrightarrow> i_val (removeentry n) = NIL \<and> gnext (removeentry n) = gnext n"
  by (simp add: removeentry_def)

lemma clear_node_clears:
  assumes ok: "refs_have g" and x: "gco g a = Some x" "body x = GTable h" and i: "i < length (node h)"
  shows "clears (clear_node a i) g (\<lambda>_. node_done a i)"
proof -
  let ?n = "node h ! i"
  show ?thesis
  proof (cases "i_val ?n = NIL")
    case True
    have "clear_node a i g = Some ((), g)"
      unfolding clear_node_def seqC_table [OF x] if_P [OF i] seqC_the if_P [OF True] by simp
    then show ?thesis using x True by (simp add: clears_def node_done_def node_refs_def)
  next
    case False
    have "node_refs True True ?n \<subseteq> body_refs g (body x)" using x(2) i by (auto simp: table_refs_def)
    then have has: "has g r" if "r \<in> vrefs (i_key ?n) \<union> vrefs (i_val ?n)" for r
      using ok x(1) False that unfolding refs_have_def by (auto simp: node_refs_def)
    then have "\<forall>r \<in> vrefs (i_key ?n). has g r" by simp
    from iscleared_clears [OF this, of True] obtain ck g1 where g1: "iscleared (i_key ?n) True g = Some (ck, g1)" "cext g g1"
      "keeps g g1" "if ck then dead_ref g (i_key ?n) else refs_done (vrefs (i_key ?n)) g1" by (auto elim: clearsE)
    have "\<forall>r \<in> vrefs (i_val ?n). has g1 r" using has cext_has [OF g1(2)] by simp
    from iscleared_clears [OF this, of False] obtain cv gv where gv: "iscleared (i_val ?n) False g1 = Some (cv, gv)"
      "cext g1 gv" "keeps g1 gv" "if cv then dead_ref g1 (i_val ?n) else refs_done (vrefs (i_val ?n)) gv" by (auto elim: clearsE)
    obtain c g2 where c: "(if ck then retC True else iscleared (i_val ?n) False) g1 = Some (c, g2)" "c = (ck \<or> cv)"
      "g2 = (if ck then g1 else gv)" using gv(1) by (cases ck) auto
    have e2: "cext g1 g2" "keeps g1 g2" using gv(2,3) c(3) by (auto simp: keeps_def)
    have d: "dead_ref g2 (i_key ?n) \<or> dead_ref g2 (i_val ?n)" if c
    proof (cases ck)
      case True
      then have "dead_ref g1 (i_key ?n)" using g1(4) keeps_dead [OF g1(3)] by simp
      then show ?thesis using keeps_dead [OF e2(2)] by blast
    next
      case False
      then have "dead_ref g1 (i_val ?n)" using gv(4) that c(2) by simp
      then show ?thesis using keeps_dead [OF e2(2)] by blast
    qed
    have x2: "gco g2 a = Some x" using keeps_trans [OF g1(3) e2(2)] x by (auto simp: keeps_def)
    let ?m = "removeentry (?n\<lparr>i_val := NIL\<rparr>)" let ?h = "h\<lparr>node := (node h)[i := ?m]\<rparr>"
    have run: "clear_node a i g = whenC c (set_body a (GTable ?h)) g2"
      unfolding clear_node_def seqC_table [OF x] if_P [OF i] seqC_the if_not_P [OF False]
        seqC_run [of "iscleared (i_key ?n) True" g, OF g1(1)]
        seqC_run [of "if ck then retC True else iscleared (i_val ?n) False" g1, OF c(1)] by (rule refl)
    show ?thesis
    proof (cases c)
      case True
      then have "cl_node g2 ?n ?m" using d removeentry_clear [of "?n\<lparr>i_val := NIL\<rparr>"] by (simp add: cl_node_def)
      then have "cl_table g2 h ?h"
        using i by (auto simp: cl_table_def list_all2_conv_all_nth nth_list_update)
      then have e: "cext g2 (rebody a (GTable ?h) g2)" by (rule cext_table [OF x2 x(2)])
      have "node_done a i (rebody a (GTable ?h) g2)"
        using x2 i removeentry_clear [of "?n\<lparr>i_val := NIL\<rparr>"] by (simp add: node_done_def rebody_gco node_refs_def)
      then show ?thesis
        using run True set_body_rebody [OF x2] cext_trans [OF cext_trans [OF g1(2) e2(1)] e] by (simp add: clears_def)
    next
      case no: False
      then have "refs_done (vrefs (i_key ?n)) g2" "refs_done (vrefs (i_val ?n)) g2"
        using g1(4) gv(4) c(2,3) cext_done [OF e2(1)] by auto
      then have "node_done a i g2" using x2 x(2) by (simp add: node_done_def node_refs_def)
      then show ?thesis using run no cext_trans [OF g1(2) e2(1)] by (simp add: clears_def)
    qed
  qed
qed

section \<open>Clearing tables\<close>

definition clear_one :: "addr \<Rightarrow> unit gcm" where
  "clear_one a =
     seqC (gc_table a) (\<lambda>h.
     seqC (obj a) (\<lambda>x.
     thenC (assertC (testbit (marked x) VALUEWEAKBIT \<or> testbit (marked x) KEYWEAKBIT))
     (thenC (whenC (testbit (marked x) VALUEWEAKBIT) (forC (rev [0..<length (array h)]) (clear_slot a)))
     (forC (rev [0..<length (node h)]) (clear_node a)))))"

lemma table_later:
  assumes "cext g g'" "gco g a = Some x" "body x = GTable h"
  obtains y h' where "gco g' a = Some y" "body y = GTable h'" "marked y = marked x" "cl_table g h h'"
    "length (array h') = length (array h)" "length (node h') = length (node h)"
proof -
  obtain y where y: "gco g' a = Some y" "cl_obj g x y" using cextD [OF assms(1,2)] .
  then obtain h' where h': "body y = GTable h'" "cl_table g h h'" using assms(3) by (auto simp: cl_obj_def cl_body_def)
  then have "length (array h') = length (array h)" "length (node h') = length (node h)"
    by (auto simp: cl_table_def dest: list_all2_lengthD)
  moreover have "marked y = marked x" using y(2) assms(3) by (auto simp: cl_obj_def)
  ultimately show thesis using that y(1) h' by blast
qed

lemma table_all_done:
  assumes h: "half g a" and x: "gco g a = Some x" "body x = GTable h"
    and s: "testbit (marked x) VALUEWEAKBIT \<Longrightarrow> \<forall>i < length (array h). slot_done a i g"
    and n: "\<forall>i < length (node h). node_done a i g"
  shows "refs_done (body_refs g (body x)) g"
proof -
  have t: "refs_done (table_refs (\<not> testbit (marked x) KEYWEAKBIT) (\<not> testbit (marked x) VALUEWEAKBIT) h) g"
    using h x by (auto simp: half_def)
  have "refs_done (vrefs v) g" if v: "v \<in> set (array h)" for v
  proof (cases "testbit (marked x) VALUEWEAKBIT")
    case True
    then show ?thesis using v s x by (metis in_set_conv_nth slot_done_def)
  next
    case False
    then show ?thesis using t v by (auto simp: table_refs_def)
  qed
  moreover have "refs_done (node_refs True True nd) g" if "nd \<in> set (node h)" for nd
    using that n x by (metis in_set_conv_nth node_done_def)
  moreover have "refs_done (orefs 5 (metatable h)) g" using t by (simp add: table_refs_def)
  ultimately show ?thesis by (simp add: x(2) table_refs_def)
qed

lemma clear_one_clears:
  assumes ok: "clear_ok D g" and a: "a \<in> D"
  shows "clears (clear_one a) g (\<lambda>_. clear_ok (D - {a}))"
proof -
  obtain x h where x: "gco g a = Some x" "body x = GTable h"
    "testbit (marked x) VALUEWEAKBIT \<or> testbit (marked x) KEYWEAKBIT" using ok a by (auto simp: clear_ok_def half_def)
  let ?b = "testbit (marked x) VALUEWEAKBIT"
  have rh: "refs_have g'" if "cext g g'" for g' using cext_clear_ok [OF that ok] by (simp add: clear_ok_def)
  have "clears (forC (rev [0..<length (array h)]) (clear_slot a)) g
      (\<lambda>_ g'. \<forall>i \<in> set (rev [0..<length (array h)]). slot_done a i g')"
  proof (rule clears_forC)
    fix i g' assume i: "i \<in> set (rev [0..<length (array h)])" "cext g g'"
    obtain y h' where "gco g' a = Some y" "body y = GTable h'" "length (array h') = length (array h)"
      by (rule table_later [OF i(2) x(1,2)])
    then show "clears (clear_slot a i) g' (\<lambda>_. slot_done a i)" using clear_slot_clears [OF rh [OF i(2)]] i(1) by simp
  qed (rule slot_stable)
  then have 1: "clears (whenC ?b (forC (rev [0..<length (array h)]) (clear_slot a))) g
      (\<lambda>_ g'. ?b \<longrightarrow> (\<forall>i < length (array h). slot_done a i g'))"
    by (cases ?b) (auto simp: whenC_def intro: clears_ret elim!: clears_mono)
  have 2: "clears (forC (rev [0..<length (node h)]) (clear_node a)) g1 (\<lambda>_. clear_ok (D - {a}))"
    if g1: "cext g g1" "?b \<longrightarrow> (\<forall>i < length (array h). slot_done a i g1)" for g1
  proof -
    have "clears (forC (rev [0..<length (node h)]) (clear_node a)) g1
        (\<lambda>_ g'. \<forall>i \<in> set (rev [0..<length (node h)]). node_done a i g')"
    proof (rule clears_forC)
      fix i g' assume i: "i \<in> set (rev [0..<length (node h)])" "cext g1 g'"
      have e: "cext g g'" by (rule cext_trans [OF g1(1) i(2)])
      obtain y h' where "gco g' a = Some y" "body y = GTable h'" "length (node h') = length (node h)"
        by (rule table_later [OF e x(1,2)])
      then show "clears (clear_node a i) g' (\<lambda>_. node_done a i)" using clear_node_clears [OF rh [OF e]] i(1) by simp
    qed (rule node_stable)
    then show ?thesis
    proof (rule clears_mono)
      fix r g2 assume g2: "cext g1 g2" "\<forall>i \<in> set (rev [0..<length (node h)]). node_done a i g2"
      have e: "cext g g2" by (rule cext_trans [OF g1(1) g2(1)])
      have ok2: "clear_ok D g2" by (rule cext_clear_ok [OF e ok])
      obtain y h' where y: "gco g2 a = Some y" "body y = GTable h'" "marked y = marked x"
        "length (array h') = length (array h)" "length (node h') = length (node h)"
        by (rule table_later [OF e x(1,2)])
      have "half g2 a" using ok2 a by (simp add: clear_ok_def)
      moreover have "\<forall>i < length (array h'). slot_done a i g2" if "testbit (marked y) VALUEWEAKBIT"
        using that y(3,4) g1(2) slot_stable [OF g2(1)] by simp
      moreover have "\<forall>i < length (node h'). node_done a i g2" using g2(2) y(5) by simp
      ultimately have "refs_done (body_refs g2 (body y)) g2" by (rule table_all_done [OF _ y(1,2)])
      then have "refs_done (body_refs g2 (body z)) g2" if "gco g2 c = Some z" "\<not> iswhite (marked z)" "c \<notin> D - {a}" for c z
        using that y(1) ok2 by (cases "c = a") (auto simp: clear_ok_def)
      then show "clear_ok (D - {a}) g2" using ok2 by (auto simp: clear_ok_def)
    qed
  qed
  have "clear_one a g = thenC (whenC ?b (forC (rev [0..<length (array h)]) (clear_slot a)))
      (forC (rev [0..<length (node h)]) (clear_node a)) g"
    unfolding clear_one_def seqC_table [OF x(1,2)] seqC_obj [OF x(1)] assertC_def if_P [OF x(3)] thenC_ret by (rule refl)
  then show ?thesis by (rule clears_eq) (rule clears_thenC [OF 1], rule 2, assumption+)
qed

lemma cleartable_clears:
  assumes "clear_ok (set l) g" "distinct l"
  shows "clears (cleartable l) g (\<lambda>_. clear_ok {})"
proof -
  have "clears (forC l clear_one) g (\<lambda>_. clear_ok {})"
    using assms
  proof (induction l arbitrary: g)
    case Nil
    then show ?case unfolding forC.simps by (intro clears_ret) simp
  next
    case (Cons a l)
    have "clears (clear_one a) g (\<lambda>_. clear_ok (set (a # l) - {a}))" by (rule clear_one_clears [OF Cons.prems(1)]) simp
    then show ?case unfolding forC.simps
    proof (rule clears_thenC)
      fix r g' assume "clear_ok (set (a # l) - {a}) g'"
      moreover have "set (a # l) - {a} = set l" using Cons.prems(2) by auto
      ultimately show "clears (forC l clear_one) g' (\<lambda>_. clear_ok {})" using Cons.IH Cons.prems(2) by simp
    qed
  qed
  then show ?thesis by (simp add: cleartable_def clear_one_def [abs_def])
qed

text \<open>The invariant of marking gives that of clearing, when nothing is gray.\<close>

lemma Inv_clear_ok:
  assumes I: "Inv R {} {} g" and gr: "gray g = []"
  shows "clear_ok (set (weak g)) g"
proof -
  have "refs_have g" using InvD(1) [OF I] by (auto simp: refs_have_def heap_ok_def obj_ok_def)
  moreover have "refs_done (body_refs g (body x)) g"
    if "gco g a = Some x" "\<not> iswhite (marked x)" "a \<notin> set (weak g)" for a x
    using InvD(4) [OF I that(1,2)] gr that(3) by (simp add: covered_def refs_done_def)
  moreover have "half g a" if a: "a \<in> set (weak g)" for a
  proof -
    obtain x where x: "gco g a = Some x" "\<not> iswhite (marked x)"
      using InvD(3) [OF I, of a] a by (auto simp: lists_def on_list_def)
    then have "covered g a x" using InvD(4) [OF I] gr by simp
    then show ?thesis using a x
      by (auto simp: covered_def half_def refs_done_def strong_refs_def testbit_bit KEYWEAKBIT_def VALUEWEAKBIT_def)
  qed
  ultimately show ?thesis by (simp add: clear_ok_def)
qed

end
