(* ===== verification/GcCycle.thy ===== *)
theory GcCycle
  imports GcClear
begin

text \<open>
  A cycle of the collector: what holds while it marks in steps, and what \<open>atomic\<close> makes of it.
\<close>

section \<open>While the collector marks\<close>

definition roots_ok :: "addr set \<Rightarrow> gc_State \<Rightarrow> bool" where
  "roots_ok R g \<longleftrightarrow> has g (mainthread g, 8) \<and> nonwhite g (mainthread g) \<and> refs_done (vrefs (registry g)) g \<and>
     (\<forall>x \<in> set (mt g). \<forall>r \<in> orefs 5 x. mayref R g r)"

definition chained_udata :: "gc_State \<Rightarrow> addr list" where
  "chained_udata g = behind (Some (mainthread g)) (rootgc g)"

definition udata_ok :: "addr set \<Rightarrow> gc_State \<Rightarrow> bool" where
  "udata_ok R g \<longleftrightarrow> (\<forall>a \<in> set (tmudata g). has g (a, 7) \<and> a \<in> R) \<and> distinct (chained_udata g) \<and>
     (\<forall>a \<in> set (chained_udata g). has g (a, 7) \<and> (finalizable g a \<longrightarrow> a \<in> R))"

text \<open>What may refer to white objects: open upvalues, weak tables, tables and threads to be traversed
  again, and user data waiting for their finalizers.\<close>

definition pending :: "gc_State \<Rightarrow> addr set" where
  "pending g = set (g_uvhead g) \<union> set (weak g) \<union> set (grayagain g) \<union> set (tmudata g)"

definition marking :: "addr set \<Rightarrow> gc_State \<Rightarrow> bool" where
  "marking R g \<longleftrightarrow> Inv R (pending g) {} g \<and> white_ok g \<and> (\<forall>a \<in> set (g_uvhead g). uv_ready g a) \<and>
     roots_ok R g \<and> udata_ok R g"

lemma behind_subset: "set (behind p xs) \<subseteq> set xs"
proof (cases p)
  case (Some a)
  have "set (tl ys) \<subseteq> set ys" for ys :: "addr list" by (cases ys) auto
  then show ?thesis using set_dropWhileD by (fastforce simp: behind_def Some)
qed (simp add: behind_def)

lemma extb_mayref: "extb g g' \<Longrightarrow> mayref R g r \<Longrightarrow> mayref R g' r"
  by (simp add: mayref_def extb_has)

lemma extb_refs_done: "extb g g' \<Longrightarrow> refs_done rs g \<Longrightarrow> refs_done rs g'"
  by (simp add: refs_done_def extb_nonwhite)

lemma extb_roots:
  assumes e: "extb g g'" and "roots_ok R g" shows "roots_ok R g'"
  using assms extb_has [OF e] extb_nonwhite [OF e] extb_refs_done [OF e] extb_mayref [OF e]
  by (simp add: roots_ok_def extb_def)

lemma extb_udata:
  assumes e: "extb g g'" and l: "tmudata g' = tmudata g" "rootgc g' = rootgc g" and "udata_ok R g" shows "udata_ok R g'"
proof -
  have c: "chained_udata g' = chained_udata g" using e l(2) by (simp add: chained_udata_def extb_def)
  show ?thesis using assms(4) extb_has [OF e] extb_finalizable [OF e] by (auto simp: udata_ok_def c l(1))
qed

lemma extb_white: "extb g g' \<Longrightarrow> white_ok g \<Longrightarrow> white_ok g'"
  by (simp add: extb_def white_ok_def)

text \<open>A step of marking keeps all this, and gets something done.\<close>

lemma marking_ext:
  assumes M: "marking R g" and e: "ext g g'" and I: "Inv R (pending g) {} g'"
  shows "marking R g'"
proof -
  note rs = rest_simps [OF ext_rest [OF e]]
  have "pending g \<subseteq> pending g'" using e by (auto simp: pending_def rs ext_def)
  then have "Inv R (pending g') {} g'" by (rule Inv_more [OF I]) simp
  then show ?thesis
    using M extb_white [OF ext_extb [OF e]] extb_roots [OF ext_extb [OF e]]
      extb_udata [OF ext_extb [OF e] rs(4,3)] ext_uv_ready [OF e]
    by (simp add: marking_def rs)
qed

lemma propagate_marking:
  assumes "marking R g" "gray g \<noteq> []"
  shows "\<exists>n g'. propagatemark g = Some (n, g') \<and> marking R g' \<and> ext g g' \<and> work g' < work g"
proof -
  have "Inv R (pending g) {} g" using assms(1) by (simp add: marking_def)
  then obtain n g' where g': "propagatemark g = Some (n, g')" "Inv R (pending g) {} g'" "ext g g'" "work g' < work g"
    using propagatemark_step [OF _ assms(2), of R "pending g"] by (auto simp: step_ok_def)
  then show ?thesis using marking_ext [OF assms(1) g'(3,2)] by blast
qed

section \<open>Up to the last propagation\<close>

lemma markobject_opt:
  assumes "Inv R S {} g" "\<forall>r \<in> orefs 5 x. mayref R g r"
  shows "does R S {} (mark_option markobject x) g (\<lambda>_ g'. refs_done (orefs 5 x) g')"
proof (cases x)
  case None
  then show ?thesis using assms(1) by (auto simp: mark_option_def orefs_def intro: does_ret)
next
  case (Some a)
  then have "mayref R g (a, 5)" using assms(2) by (simp add: orefs_def)
  from markobject_does [OF assms(1) this] show ?thesis
    using Some by (auto simp: mark_option_def orefs_def elim: does_mono)
qed

lemma markmt_does:
  assumes I: "Inv R S {} g" and m: "\<forall>x \<in> set (mt g). \<forall>r \<in> orefs 5 x. mayref R g r"
  shows "does R S {} markmt g (\<lambda>_ g'. \<forall>x \<in> set (mt g). refs_done (orefs 5 x) g')"
proof -
  have "does R S {} (forC (mt g) (mark_option markobject)) g
      (\<lambda>_ g'. True \<and> (\<forall>x \<in> set (mt g). refs_done (orefs 5 x) g'))"
  proof (rule does_forC [OF I])
    fix x g' assume g': "x \<in> set (mt g)" "Inv R S {} g'" "ext g g'"
    then have "\<forall>r \<in> orefs 5 x. mayref R g' r" using m ext_mayref [OF g'(3)] by blast
    from markobject_opt [OF g'(2) this]
    show "does R S {} (mark_option markobject x) g' (\<lambda>_ g''. True \<and> refs_done (orefs 5 x) g'')" by simp
  qed (auto intro: ext_refs_done)
  then show ?thesis by (simp add: markmt_def does_def)
qed

text \<open>A stage of \<open>atomic\<close> that leaves the chains of objects alone.\<close>

definition stage :: "addr set \<Rightarrow> addr set \<Rightarrow> gc_State \<Rightarrow> gc_State \<Rightarrow> bool" where
  "stage R S g0 g \<longleftrightarrow> Inv R S {} g \<and> extb g0 g \<and> tmudata g = tmudata g0 \<and> rootgc g = rootgc g0"

lemma stage_ext: "stage R S g0 g \<Longrightarrow> Inv R S' {} g' \<Longrightarrow> ext g g' \<Longrightarrow> stage R S' g0 g'"
  using rest_simps [OF ext_rest, of g g'] by (auto simp: stage_def intro: extb_trans ext_extb)

lemma stage_lists:
  assumes "stage R S g0 g" "Inv R S' {} g'" "same_store g' g" "rest g' = rest g"
  shows "stage R S' g0 g'"
proof -
  have "extb g g'"
  proof (rule same_store_extb [OF assms(3)])
    have "g'\<lparr>tmudata := tmudata g, rootgc := rootgc g\<rparr> = g'" using rest_simps [OF assms(4)] by simp
    then show "rest (g'\<lparr>tmudata := tmudata g, rootgc := rootgc g\<rparr>) = rest g" using assms(4) by simp
  qed
  then show ?thesis
    using assms rest_simps [OF assms(4)] by (auto simp: stage_def intro: extb_trans)
qed

lemma propagateall_stage:
  assumes "stage R S g0 g"
  shows "\<exists>n g'. propagateall g = Some (n, g') \<and> stage R S g0 g' \<and> gray g' = [] \<and> ext g g'"
proof -
  have "Inv R S {} g" using assms by (simp add: stage_def)
  then obtain n g' where "propagateall g = Some (n, g')" "Inv R S {} g'" "ext g g'" "gray g' = []"
    using propagateall_ends by blast
  then show ?thesis using stage_ext [OF assms] by blast
qed

lemma atomic_first:
  assumes M: "marking R g"
  defines "S \<equiv> set (grayagain g) \<union> set (tmudata g)"
  shows "\<exists>n g1 g2. remarkupvals g = Some ((), g1) \<and> propagateall g1 = Some (n, g2) \<and>
    stage R S g (g2\<lparr>gray := weak g2, weak := []\<rparr>) \<and> set (grayagain g) \<subseteq> set (grayagain g2)"
proof -
  have I: "Inv R (set (g_uvhead g) \<union> (set (weak g) \<union> S)) {} g" "\<forall>a \<in> set (g_uvhead g). uv_ready g a"
    using M by (simp_all add: marking_def pending_def S_def Un_assoc)
  from remarkupvals_does [OF this] obtain r g1 where
    g1: "remarkupvals g = Some (r, g1)" "Inv R (set (weak g) \<union> S) {} g1" "ext g g1" by (auto elim: doesE)
  have "stage R (set (weak g) \<union> S) g g1"
    by (rule stage_ext [OF _ g1(2,3)]) (use I in \<open>auto simp: stage_def\<close>)
  then obtain n g2 where g2: "propagateall g1 = Some (n, g2)" "stage R (set (weak g) \<union> S) g g2" "gray g2 = []" "ext g1 g2"
    using propagateall_stage by blast
  have e: "ext g g2" by (rule ext_trans [OF g1(3) g2(4)])
  then have "set (weak g) \<union> S \<subseteq> S \<union> set (weak g2)" by (auto simp: ext_def)
  then have "Inv R S {} (g2\<lparr>gray := weak g2, weak := []\<rparr>)"
    using g2(2,3) Inv_weak_gray [of R "set (weak g) \<union> S" g2 S] by (simp add: stage_def)
  then have "stage R S g (g2\<lparr>gray := weak g2, weak := []\<rparr>)"
    by (rule stage_lists [OF g2(2)]) (simp_all add: same_store_def rest_def)
  then show ?thesis using g1(1) g2(1) e by (auto simp: ext_def)
qed

lemma atomic_second:
  assumes st: "stage R S g0 g" and roots: "roots_ok R g0" and L: "mayref R g0 (L, 8)"
    and S: "S \<subseteq> set (grayagain g) \<union> set (tmudata g0)"
  shows "\<exists>n k g1 g2 g3 g4. markobject L g = Some ((), g1) \<and> markmt g1 = Some ((), g2) \<and>
    propagateall g2 = Some (n, g3) \<and> propagateall (g3\<lparr>gray := grayagain g3, grayagain := []\<rparr>) = Some (k, g4) \<and>
    stage R (set (tmudata g0)) g0 g4 \<and> nonwhite g4 L \<and> (\<forall>x \<in> set (mt g0). refs_done (orefs 5 x) g4)"
proof -
  have I: "Inv R S {} g" and eb: "extb g0 g" using st by (simp_all add: stage_def)
  obtain r g1 where g1: "markobject L g = Some (r, g1)" "Inv R S {} g1" "ext g g1" "nonwhite g1 L"
    using markobject_does [OF I extb_mayref [OF eb L]] by (auto elim: doesE)
  have s1: "stage R S g0 g1" by (rule stage_ext [OF st g1(2,3)])
  have e1: "extb g0 g1" and mt1: "mt g1 = mt g0" using s1 by (simp_all add: stage_def extb_def)
  have "\<forall>x \<in> set (mt g1). \<forall>r \<in> orefs 5 x. mayref R g1 r"
    using roots extb_mayref [OF e1] mt1 by (simp add: roots_ok_def)
  from markmt_does [OF g1(2) this] obtain q g2 where g2: "markmt g1 = Some (q, g2)" "Inv R S {} g2" "ext g1 g2"
    "\<forall>x \<in> set (mt g1). refs_done (orefs 5 x) g2" by (auto elim: doesE)
  have s2: "stage R S g0 g2" by (rule stage_ext [OF s1 g2(2,3)])
  obtain n g3 where g3: "propagateall g2 = Some (n, g3)" "stage R S g0 g3" "gray g3 = []" "ext g2 g3"
    using propagateall_stage [OF s2] by blast
  have e3: "ext g g3" by (rule ext_trans [OF ext_trans [OF g1(3) g2(3)] g3(4)])
  let ?g = "g3\<lparr>gray := grayagain g3, grayagain := []\<rparr>"
  have "S \<subseteq> set (tmudata g0) \<union> set (grayagain g3)" using S e3 by (auto simp: ext_def)
  then have "Inv R (set (tmudata g0)) {} ?g" using g3(2,3) Inv_grayagain [of R S g3] by (simp add: stage_def)
  then have s4: "stage R (set (tmudata g0)) g0 ?g"
    by (rule stage_lists [OF g3(2)]) (simp_all add: same_store_def rest_def)
  obtain k g4 where g4: "propagateall ?g = Some (k, g4)" "stage R (set (tmudata g0)) g0 g4" "ext ?g g4"
    using propagateall_stage [OF s4] by blast
  have fin: "nonwhite g4 a" if "nonwhite g3 a" for a
    by (rule ext_nonwhite [OF g4(3)]) (use that in \<open>simp add: nonwhite_def\<close>)
  have "nonwhite g4 L" using fin ext_nonwhite [OF g3(4) ext_nonwhite [OF g2(3) g1(4)]] by blast
  moreover have "\<forall>x \<in> set (mt g0). refs_done (orefs 5 x) g4"
    using g2(4) mt1 fin ext_nonwhite [OF g3(4)] by (simp add: refs_done_def)
  ultimately show ?thesis using g1(1) g2(1) g3(1) g4(1,2) by auto
qed

lemma atomic_third:
  assumes st: "stage R (set (tmudata g0)) g0 g" and u: "udata_ok R g0" and w: "white_ok g0"
  shows "\<exists>n k g1 g2 g3. luaC_separateudata False g = Some (n, g1) \<and> marktmu g1 = Some ((), g2) \<and>
    propagateall g2 = Some (k, g3) \<and> Inv R {} {} g3 \<and> gray g3 = [] \<and> extb g g3 \<and>
    set (rootgc g3) \<union> set (tmudata g3) = set (rootgc g0) \<union> set (tmudata g0) \<and>
    refs_done (set (tmudata g3) \<times> {7}) g3 \<and> (\<exists>new. tmudata g3 = tmudata g0 @ new)"
proof -
  have I: "Inv R (set (tmudata g0)) {} g" and eb: "extb g0 g" using st by (simp_all add: stage_def)
  have c: "chained_udata g = chained_udata g0" using st by (simp add: stage_def chained_udata_def extb_def)
  have sub: "set (chained_udata g) \<subseteq> set (rootgc g)" unfolding chained_udata_def by (rule behind_subset)
  have us: "distinct (chained_udata g)"
    "\<forall>a \<in> set (chained_udata g). has g (a, 7) \<and> a \<in> set (rootgc g) \<and> (finalizable g a \<longrightarrow> a \<in> R)"
    using u sub extb_has [OF eb] extb_finalizable [OF eb] by (auto simp: udata_ok_def c)
  obtain n g1 where g1: "separate_loop False (chained_udata g) g = Some (n, g1)" "Inv R (set (tmudata g0)) {} g1"
    "extb g g1" "moved (R \<inter> set (chained_udata g)) g g1"
    using separate_loop_does [OF I us] by blast
  have run: "luaC_separateudata False g = Some (n, g1)"
    using g1(1) by (simp add: luaC_separateudata_def chained_udata_def)
  obtain new where new: "tmudata g1 = tmudata g @ new" "set new \<subseteq> R \<inter> set (chained_udata g)"
    using g1(4) by (auto simp: moved_def)
  have "has g (a, 7) \<and> a \<in> R" if "a \<in> set (tmudata g)" for a
    using u that st extb_has [OF eb] by (auto simp: udata_ok_def stage_def)
  then have t: "\<forall>a \<in> set (tmudata g1). has g1 (a, 7) \<and> a \<in> R"
    using us(2) new extb_has [OF g1(3)] by (simp, blast)
  have "tmudata g = tmudata g0" using st by (simp add: stage_def)
  then have "Inv R (set (tmudata g1) \<union> {}) {} g1" using g1(2) new(1) by (auto intro: Inv_more)
  moreover have "white_ok g1" using extb_white [OF extb_trans [OF eb g1(3)] w] .
  ultimately obtain r g2 where g2: "marktmu g1 = Some (r, g2)" "Inv R {} {} g2" "ext g1 g2"
    "\<forall>a \<in> set (tmudata g1). nonwhite g2 a" using marktmu_does [of R g1 "{}"] t by (auto elim: doesE)
  obtain k g3 where g3: "propagateall g2 = Some (k, g3)" "Inv R {} {} g3" "ext g2 g3" "gray g3 = []"
    using propagateall_ends [OF g2(2)] by blast
  have e: "ext g1 g3" by (rule ext_trans [OF g2(3) g3(3)])
  note rs = rest_simps [OF ext_rest [OF e]]
  have "set (rootgc g3) \<union> set (tmudata g3) = set (rootgc g0) \<union> set (tmudata g0)"
    using g1(4) st by (simp add: moved_def rs stage_def)
  moreover have "refs_done (set (tmudata g3) \<times> {7}) g3"
    using g2(4) ext_nonwhite [OF g3(3)] by (auto simp: refs_done_def rs)
  ultimately show ?thesis
    using run g2(1) g3 extb_trans [OF g1(3) ext_extb [OF e]] new(1) st rs(4) by (auto simp: stage_def)
qed

section \<open>The whole of it\<close>

definition flip :: "int \<Rightarrow> gc_State \<Rightarrow> gc_State" where
  "flip deadmem g = g\<lparr>currentwhite := otherwhite g, sweepstrgc := 0, sweepgc := None,
     gcstate := GCSsweepstring, estimate := totalbytes g - deadmem\<rparr>"

text \<open>When marking is done: \<open>g3\<close>; when weak tables are cleared: \<open>g4\<close>.\<close>

definition ends :: "addr set \<Rightarrow> addr \<Rightarrow> gc_State \<Rightarrow> gc_State \<Rightarrow> gc_State \<Rightarrow> bool" where
  "ends R L g g3 g4 \<longleftrightarrow> Inv R {} {} g3 \<and> gray g3 = [] \<and> extb g g3 \<and> cext g3 g4 \<and> clear_ok {} g4 \<and>
     set (rootgc g3) \<union> set (tmudata g3) = set (rootgc g) \<union> set (tmudata g) \<and>
     nonwhite g3 L \<and> (\<forall>x \<in> set (mt g). refs_done (orefs 5 x) g3) \<and> refs_done (set (tmudata g3) \<times> {7}) g3 \<and>
     (\<exists>new. tmudata g3 = tmudata g @ new)"

lemma atomic_ends:
  assumes M: "marking R g" and L: "mayref R g (L, 8)"
  shows "\<exists>deadmem g3 g4. atomic L g = Some ((), flip deadmem g4) \<and> ends R L g g3 g4"
proof -
  let ?S = "set (grayagain g) \<union> set (tmudata g)"
  obtain n g1 g2 where 1: "remarkupvals g = Some ((), g1)" "propagateall g1 = Some (n, g2)"
    "stage R ?S g (g2\<lparr>gray := weak g2, weak := []\<rparr>)" "set (grayagain g) \<subseteq> set (grayagain g2)"
    using atomic_first [OF M] by blast
  let ?g2 = "g2\<lparr>gray := weak g2, weak := []\<rparr>"
  have M': "roots_ok R g" "udata_ok R g" "white_ok g" using M by (simp_all add: marking_def)
  have sub: "?S \<subseteq> set (grayagain ?g2) \<union> set (tmudata g)" using 1(4) by auto
  obtain n' k' h1 h2 h3 h4 where 2: "markobject L ?g2 = Some ((), h1)" "markmt h1 = Some ((), h2)"
    "propagateall h2 = Some (n', h3)" "propagateall (h3\<lparr>gray := grayagain h3, grayagain := []\<rparr>) = Some (k', h4)"
    "stage R (set (tmudata g)) g h4" "nonwhite h4 L" "\<forall>x \<in> set (mt g). refs_done (orefs 5 x) h4"
    using atomic_second [OF 1(3) M'(1) L sub] by blast
  obtain ud mr i1 i2 i3 where 3: "luaC_separateudata False h4 = Some (ud, i1)" "marktmu i1 = Some ((), i2)"
    "propagateall i2 = Some (mr, i3)" "Inv R {} {} i3" "gray i3 = []" "extb h4 i3"
    "set (rootgc i3) \<union> set (tmudata i3) = set (rootgc g) \<union> set (tmudata g)"
    "refs_done (set (tmudata i3) \<times> {7}) i3" "\<exists>new. tmudata i3 = tmudata g @ new"
    using atomic_third [OF 2(5) M'(2,3)] by blast
  have "distinct (weak i3)" using InvD(2) [OF 3(4)] by (simp add: lists_def)
  from cleartable_clears [OF Inv_clear_ok [OF 3(4,5)] this] obtain g4 where
    g4: "cleartable (weak i3) i3 = Some ((), g4)" "cext i3 g4" "clear_ok {} g4" by (auto elim: clearsE)
  have "nonwhite g (mainthread g)" using M'(1) by (simp add: roots_ok_def)
  moreover have eb: "extb g ?g2" using 1(3) by (simp add: stage_def)
  ultimately have "nonwhite ?g2 (mainthread ?g2)" using extb_nonwhite [OF eb] by (simp add: extb_def)
  then obtain x where x: "gco ?g2 (mainthread ?g2) = Some x" "\<not> iswhite (marked x)" by (auto simp: nonwhite_def)
  have "atomic L g = Some ((), flip (ud + mr) g4)"
    unfolding atomic_def thenC_run [of remarkupvals g, OF 1(1)] thenC_run [of propagateall g1, OF 1(2)] thenC_mod seqC_get
      seqC_obj [OF x(1)] assertC_def if_P [OF x(2)] thenC_ret
      thenC_run [of "markobject L" ?g2, OF 2(1)] thenC_run [of markmt h1, OF 2(2)]
      thenC_run [of propagateall h2, OF 2(3)] thenC_run [of propagateall "h3\<lparr>gray := grayagain h3, grayagain := []\<rparr>", OF 2(4)]
      seqC_run [of "luaC_separateudata False" h4, OF 3(1)] thenC_run [of marktmu i1, OF 3(2)]
      seqC_run [of propagateall i2, OF 3(3)] thenC_run [of "cleartable (weak i3)" i3, OF g4(1)] modC_apply flip_def
    by (rule refl)
  moreover have "extb g i3" using extb_trans [OF _ 3(6)] 2(5) by (simp add: stage_def)
  moreover have "nonwhite i3 L" "\<forall>x \<in> set (mt g). refs_done (orefs 5 x) i3"
    using 2(6,7) extb_nonwhite [OF 3(6)] extb_refs_done [OF 3(6)] by auto
  ultimately show ?thesis using 3(4,5,7,8,9) g4(2,3) unfolding ends_def by blast
qed

section \<open>What it means\<close>

definition alive :: "gc_State \<Rightarrow> addr \<Rightarrow> bool" where
  "alive g a \<longleftrightarrow> (\<exists>x. gco g a = Some x \<and> \<not> isdead g (marked x))"

definition roots :: "gc_State \<Rightarrow> addr \<Rightarrow> addr set" where
  "roots g L = {mainthread g, L} \<union> fst ` vrefs (registry g) \<union> {m. Some m \<in> set (mt g)} \<union> set (tmudata g)"

inductive reach :: "(gc_State \<Rightarrow> gcbody \<Rightarrow> gcref set) \<Rightarrow> gc_State \<Rightarrow> addr \<Rightarrow> addr \<Rightarrow> bool"
  for refs g L where
  root: "a \<in> roots g L \<Longrightarrow> reach refs g L a"
| link: "reach refs g L a \<Longrightarrow> gco g a = Some x \<Longrightarrow> r \<in> refs g (body x) \<Longrightarrow> reach refs g L (fst r)"

lemma ends_alive:
  assumes "ends R L g g3 g4" shows "alive (flip u g4) a \<longleftrightarrow> nonwhite g4 a"
proof -
  let ?g = "flip u g4"
  have I: "Inv R {} {} g3" and c: "cext g3 g4" using assms by (simp_all add: ends_def)
  have cw: "currentwhite g4 = currentwhite g3" using rest_simps [of g4 g3] c by (simp add: cext_def)
  show ?thesis
  proof (cases "gco g4 a")
    case None
    then show ?thesis by (simp add: alive_def nonwhite_def flip_def)
  next
    case (Some y)
    obtain x where x: "gco g3 a = Some x" "cl_obj g3 x y" using cextD' [OF c Some] .
    have "isdead ?g (marked y)" if w: "iswhite (marked y)"
    proof -
      have "marked y = marked x" using x(2) w by (auto simp: cl_obj_def)
      moreover have "\<not> isdead g3 (marked x)" using heap_okD [OF InvD(1) [OF I] x(1)] by (simp add: obj_ok_def)
      ultimately have "\<forall>i < 2. bit (marked y) i \<longrightarrow> bit (currentwhite g4) i" by (auto simp: isdead_bit cw)
      moreover have "bit (currentwhite ?g) i = (bit (currentwhite g4) i \<noteq> (i = 0 \<or> i = 1))" for i
        by (simp add: flip_def bit_otherwhite)
      moreover obtain i where "i < 2" "bit (marked y) i" using w by (auto simp: iswhite_bit intro: that [of 0] that [of 1])
      ultimately have "i < 2 \<and> bit (marked y) i \<and> \<not> bit (currentwhite ?g) i" by (auto simp: less_2_cases_iff)
      then show ?thesis unfolding isdead_bit by blast
    qed
    then show ?thesis
      using Some not_white_not_dead by (auto simp: alive_def nonwhite_def flip_def)
  qed
qed

lemma flip_refs: "body_refs (flip u g) b = body_refs g b" "has (flip u g) r = has g r"
proof -
  have gco: "gco (flip u g) = gco g" by (simp add: flip_def)
  have st: "stack_at (flip u g) t i = stack_at g t i" for t i unfolding stack_at_def gco by (rule refl)
  show "body_refs (flip u g) b = body_refs g b"
  proof (cases b)
    case (GUpval v w) then show ?thesis by (cases v) (simp_all add: st)
  qed simp_all
  show "has (flip u g) r = has g r" unfolding has_def gco by (rule refl)
qed

lemma ends_roots:
  assumes e: "ends R L g g3 g4" and r: "roots_ok R g" and a: "a \<in> roots (flip u g4) L" shows "nonwhite g4 a"
proof -
  have eb: "extb g g3" and c: "cext g3 g4" using e by (simp_all add: ends_def)
  note rs = rest_simps [of g4 g3]
  have f: "mainthread (flip u g4) = mainthread g" "registry (flip u g4) = registry g" "mt (flip u g4) = mt g"
    "tmudata (flip u g4) = tmudata g3"
    using eb c rs by (simp_all add: flip_def cext_def extb_def)
  have "nonwhite g3 a"
    using a e r extb_nonwhite [OF eb] extb_refs_done [OF eb] unfolding roots_def f
    by (fastforce simp: ends_def roots_ok_def refs_done_def orefs_def)
  then show ?thesis by (rule cext_nonwhite [OF c])
qed

lemma ends_reach:
  assumes e: "ends R L g g3 g4" and r: "roots_ok R g" and "reach body_refs (flip u g4) L a"
  shows "nonwhite g4 a"
  using assms(3)
proof induction
  case (root a)
  then show ?case by (rule ends_roots [OF e r])
next
  case (link a x q)
  have "gco g4 a = Some x" using link.hyps(2) by (simp add: flip_def)
  moreover have "\<not> iswhite (marked x)" using link.IH calculation by (simp add: nonwhite_def)
  ultimately have "refs_done (body_refs g4 (body x)) g4" using e by (simp add: ends_def clear_ok_def)
  then show ?case using link.hyps(3) by (simp add: flip_refs refs_done_def)
qed

lemma ends_strong:
  assumes e: "ends R L g g3 g4" and r: "roots_ok R g" and "reach strong_refs g L a"
  shows "nonwhite g3 a"
  using assms(3)
proof induction
  case (root a)
  have eb: "extb g g3" and t: "set (tmudata g) \<subseteq> set (tmudata g3)" using e by (auto simp: ends_def)
  show ?case
    using root e r extb_nonwhite [OF eb] extb_refs_done [OF eb] t unfolding roots_def
    by (fastforce simp: ends_def roots_ok_def refs_done_def orefs_def)
next
  case (link a x q)
  have eb: "extb g g3" and I: "Inv R {} {} g3" and gr: "gray g3 = []" using e by (simp_all add: ends_def)
  obtain y where y: "gco g3 a = Some y" "objb x y" using extbD [OF eb link.hyps(2)] .
  have w: "\<not> iswhite (marked y)" using link.IH y(1) by (simp add: nonwhite_def)
  have "strong_refs g3 (body y) = strong_refs g (body x)"
    using simb_strong_refs [OF extb_simb [OF eb]] y(2) by (simp add: objb_def)
  then have "q \<in> strong_refs g3 (body y)" using link.hyps(3) by simp
  moreover have "covered g3 a y" using InvD(4) [OF I y(1) w] gr by simp
  ultimately show ?case using strong_body by (fastforce simp: covered_def split: if_splits)
qed

end
