(* ===== verification/GcStart.thy ===== *)
theory GcStart
  imports GcCycle
begin

text \<open>
  What begins marking and what keeps it right while the program runs: \<open>markroot\<close>, and the barriers
  the program calls after it has stored a reference.
\<close>

section \<open>The roots\<close>

lemma marking_same_store:
  assumes M: "marking R g" and s: "same_store g' g"
    and l: "gray g' = gray g" "grayagain g' = grayagain g" "weak g' = weak g" "g_uvhead g' = g_uvhead g"
      "tmudata g' = tmudata g" "rootgc g' = rootgc g" "mainthread g' = mainthread g" "registry g' = registry g" "mt g' = mt g"
  shows "marking R g'"
proof -
  have gco: "gco g' = gco g" and cw: "currentwhite g' = currentwhite g" using s by (simp_all add: same_store_def)
  have eq: "has g' r = has g r" "tm_of g' m e = tm_of g m e" for r m e by (rule same_store_refs [OF s])+
  have nw: "nonwhite g' = nonwhite g" by (simp add: nonwhite_def fun_eq_iff gco)
  have "pending g' = pending g" "chained_udata g' = chained_udata g" by (simp_all add: pending_def chained_udata_def l)
  moreover have "Inv R (pending g) {} g'" using M by (intro Inv_same_store [OF _ s]) (simp_all add: marking_def l)
  moreover have "finalizable g' = finalizable g" by (simp add: finalizable_def fun_eq_iff gco eq)
  moreover have "uv_ready g' = uv_ready g" by (simp add: uv_ready_def fun_eq_iff gco)
  ultimately show ?thesis
    using M by (simp add: marking_def white_ok_def cw roots_ok_def udata_ok_def eq nw l refs_done_def mayref_def)
qed

text \<open>Before a cycle everything is white but user data that wait for their finalizers.\<close>

definition at_rest :: "addr set \<Rightarrow> gc_State \<Rightarrow> bool" where
  "at_rest R g \<longleftrightarrow> heap_ok g \<and> (\<forall>a. nonwhite g a \<longrightarrow> a \<in> set (tmudata g)) \<and> white_ok g \<and>
     (\<forall>a \<in> set (g_uvhead g). \<exists>x. gco g a = Some x \<and> is_open (body x)) \<and>
     mayref R g (mainthread g, 8) \<and> (\<forall>r \<in> vrefs (registry g). mayref R g r) \<and>
     (\<forall>x \<in> set (mt g). \<forall>r \<in> orefs 5 x. mayref R g r) \<and> udata_ok R g \<and> closed_refs R g"

lemma rest_Inv:
  assumes r: "at_rest R g"
  defines "g0 \<equiv> g\<lparr>gray := [], grayagain := [], weak := []\<rparr>"
  shows "Inv R (set (tmudata g)) {} g0" "\<forall>a \<in> set (g_uvhead g). uv_ready g0 a"
proof -
  have same: "same_store g0 g" by (simp add: same_store_def g0_def)
  note eq = same_store_refs [OF same] same_store_strong [OF same] same_store_heap [OF same]
  have nw: "nonwhite g0 = nonwhite g" by (simp add: nonwhite_def fun_eq_iff g0_def)
  have "nonwhite g a \<Longrightarrow> a \<in> R" for a using r by (auto simp: at_rest_def udata_ok_def)
  then show "Inv R (set (tmudata g)) {} g0"
    using r unfolding Inv_def eq nw
    by (auto simp: at_rest_def lists_def g0_def nonwhite_def closed_refs_def eq(6) [unfolded g0_def])
  show "\<forall>a \<in> set (g_uvhead g). uv_ready g0 a"
  proof
    fix a assume "a \<in> set (g_uvhead g)"
    then obtain x where x: "gco g a = Some x" "is_open (body x)" using r unfolding at_rest_def by blast
    have "iswhite (marked x)"
    proof (rule ccontr)
      assume "\<not> iswhite (marked x)"
      then have "has g (a, 7)" using r x(1) by (auto simp: at_rest_def nonwhite_def udata_ok_def)
      then show False using x by (auto simp: has_def is_open_def)
    qed
    moreover have "obj_ok g x" using r x(1) by (auto simp: at_rest_def heap_ok_def)
    ultimately show "uv_ready g0 a" using x by (auto simp: uv_ready_def g0_def obj_ok_def)
  qed
qed

lemma markroot_starts:
  assumes r: "at_rest R g"
  shows "\<exists>g'. markroot g = Some ((), g') \<and> marking R g' \<and> gcstate g' = GCSpropagate \<and> extb g g' \<and> rootgc g' = rootgc g"
proof -
  let ?S = "set (tmudata g)" let ?start = "g\<lparr>gray := [], grayagain := [], weak := []\<rparr>"
  note I0 = rest_Inv [OF r]
  have same: "same_store ?start g" by (simp add: same_store_def)
  have e0: "extb g ?start" by (rule same_store_extb [OF same]) (simp add: rest_def)
  have mr: "mayref R ?start q" if "mayref R g q" for q using extb_mayref [OF e0 that] .
  have mt: "mayref R ?start (mainthread g, 8)" using r mr by (simp add: at_rest_def)
  obtain q1 g1 where g1: "markobject (mainthread g) ?start = Some (q1, g1)" "Inv R ?S {} g1" "ext ?start g1" "nonwhite g1 (mainthread g)"
    using markobject_does [OF I0(1) mt] by (auto elim: doesE)
  have "has g1 (mainthread g, 8)" using ext_mayref [OF g1(3) mt] by (simp add: mayref_def)
  then obtain y th where y: "gco g1 (mainthread g) = Some y" "body y = GThread th"
    by (auto simp: has_def) (metis gch_tt.simps gcbody.exhaust numeral_eq_iff semiring_norm(85,86,87,88,89,90))
  have mR: "mainthread g \<in> R" using r by (simp add: at_rest_def mayref_def)
  have "obj_ok g1 y" by (rule heap_okD [OF InvD(1) [OF g1(2)] y(1)])
  then have "\<forall>q \<in> vrefs (th_gt th). mayref R g1 q"
    using InvD(6) [OF g1(2)] mR y unfolding closed_refs_def mayref_def obj_ok_def strong_refs_def by fastforce
  from markvalue_does [OF g1(2) this] obtain q2 g2 where
    g2: "markvalue (th_gt th) g1 = Some (q2, g2)" "Inv R ?S {} g2" "ext g1 g2" by (auto elim: doesE)
  have e2: "ext ?start g2" by (rule ext_trans [OF g1(3) g2(3)])
  have reg: "registry g2 = registry g" "mt g2 = mt g" using rest_simps [OF ext_rest [OF e2]] by simp_all
  have "\<forall>q \<in> vrefs (registry g). mayref R g2 q" using r mr ext_mayref [OF e2] by (simp add: at_rest_def)
  from markvalue_does [OF g2(2) this] obtain q3 g3 where
    g3: "markvalue (registry g) g2 = Some (q3, g3)" "Inv R ?S {} g3" "ext g2 g3" "\<forall>q \<in> vrefs (registry g). nonwhite g3 (fst q)"
    by (auto elim: doesE)
  have e3: "ext ?start g3" by (rule ext_trans [OF e2 g3(3)])
  have "mt g3 = mt g" using rest_simps [OF ext_rest [OF e3]] by simp
  then have m3: "\<forall>x \<in> set (mt g3). \<forall>q \<in> orefs 5 x. mayref R g3 q" using r mr ext_mayref [OF e3] by (simp add: at_rest_def)
  obtain q4 g4 where g4: "markmt g3 = Some (q4, g4)" "Inv R ?S {} g4" "ext g3 g4"
    using markmt_does [OF g3(2) m3] by (auto elim: doesE)
  have e4: "ext ?start g4" by (rule ext_trans [OF e3 g4(3)])
  note rs = rest_simps [OF ext_rest [OF e4]]
  have eb: "extb g g4" by (rule extb_trans [OF e0 ext_extb [OF e4]])
  have "nonwhite g4 (mainthread g)" "refs_done (vrefs (registry g)) g4"
    using ext_nonwhite [OF g4(3)] ext_nonwhite [OF ext_trans [OF g2(3) g3(3)] g1(4)] g3(4) by (auto simp: refs_done_def)
  then have "roots_ok R g4"
    using r extb_has [OF eb] by (simp add: roots_ok_def rs at_rest_def mayref_def)
  moreover have "Inv R (pending g4) {} g4" by (rule Inv_more [OF g4(2)]) (simp_all add: pending_def rs)
  moreover have "udata_ok R g4" using extb_udata [OF eb] rs r by (simp add: at_rest_def)
  moreover have "white_ok g4" using extb_white [OF eb] r by (simp add: at_rest_def)
  ultimately have M: "marking R g4" using I0(2) ext_uv_ready [OF e4] by (simp add: marking_def rs)
  let ?g = "g4\<lparr>gcstate := GCSpropagate\<rparr>"
  have M': "marking R ?g" by (rule marking_same_store [OF M]) (simp_all add: same_store_def)
  have "markroot g = Some ((), ?g)"
    by (simp add: markroot_def reg thenC_run [of "markobject (mainthread g)" ?start, OF g1(1)] seqC_thread [OF y]
        thenC_run [of "markvalue (th_gt th)" g1, OF g2(1)] thenC_run [of "markvalue (registry g)" g2, OF g3(1)]
        thenC_run [of markmt g3, OF g4(1)])
  moreover have "extb g4 ?g"
    using same_store_refs(3) [of ?g g4] by (auto simp: extb_def same_store_def intro!: option.rel_refl)
  ultimately show ?thesis using M' extb_trans [OF eb] rs by (intro exI [of _ ?g]) simp
qed

section \<open>Storing a reference\<close>

text \<open>The program stores a value \<open>v\<close> in the object \<open>a\<close>, whose body becomes \<open>b\<close>: it refers to nothing new
  but \<open>v\<close>. An object that is neither white nor black waits on a list.\<close>

definition store_ok :: "gc_State \<Rightarrow> addr \<Rightarrow> GCObject \<Rightarrow> gcbody \<Rightarrow> TValue \<Rightarrow> bool" where
  "store_ok g a x b v \<longleftrightarrow> gco g a = Some x \<and> gch_tt b = gch_tt (body x) \<and> gch_tt b \<noteq> 8 \<and> is_open b = is_open (body x) \<and>
     struct_ok g b \<and> body_refs g b \<subseteq> body_refs g (body x) \<union> vrefs v \<and> (\<forall>r \<in> vrefs v. has g r) \<and>
     (isgray (marked x) \<longrightarrow> a \<in> set (gray g) \<union> pending g)"

definition others :: "gc_State \<Rightarrow> bool" where
  "others g \<longleftrightarrow> white_ok g \<and> (\<forall>a \<in> set (g_uvhead g). uv_ready g a) \<and> roots_ok UNIV g \<and> udata_ok UNIV g"

lemma marking_others: "marking UNIV g \<longleftrightarrow> Inv UNIV (pending g) {} g \<and> others g"
  by (auto simp: marking_def others_def)

lemma others_ext:
  assumes o': "others g" and e: "ext g g'" shows "others g'"
proof -
  note rs = rest_simps [OF ext_rest [OF e]]
  show ?thesis
    using o' extb_white [OF ext_extb [OF e]] extb_roots [OF ext_extb [OF e]]
      extb_udata [OF ext_extb [OF e] rs(4,3)] ext_uv_ready [OF e] by (simp add: others_def rs)
qed

lemma store_refs:
  assumes s: "store_ok g a x b v"
  shows "stack_at (rebody a b g) t i = stack_at g t i" "body_refs (rebody a b g) c = body_refs g c"
    "has (rebody a b g) r = has g r" "struct_ok (rebody a b g) c = struct_ok g c"
    "nonwhite (rebody a b g) = nonwhite g" "isdead (rebody a b g) m = isdead g m"
proof -
  have x: "gco g a = Some x" "gch_tt b = gch_tt (body x)" "gch_tt b \<noteq> 8" using s by (simp_all add: store_ok_def)
  have nt: "\<nexists>th. body x = GThread th" "\<nexists>th. b = GThread th" using x(2,3) by auto
  show st: "stack_at (rebody a b g) t i = stack_at g t i" for t i
    using x nt by (cases "t = a") (auto simp: stack_at_def rebody_gco split: gcbody.splits)
  show "body_refs (rebody a b g) c = body_refs g c"
  proof (cases c)
    case (GUpval u w) then show ?thesis by (cases u) (simp_all add: st)
  qed simp_all
  show "struct_ok (rebody a b g) c = struct_ok g c"
  proof (cases c)
    case (GUpval u w) then show ?thesis by (cases u) (simp_all add: st)
  qed simp_all
  show "has (rebody a b g) r = has g r" using x by (auto simp: has_def rebody_gco)
  show "nonwhite (rebody a b g) = nonwhite g" using x by (auto simp: nonwhite_def rebody_gco fun_eq_iff)
  show "isdead (rebody a b g) m = isdead g m" by (simp add: isdead_def otherwhite_def rebody_def)
qed

lemma store_Inv:
  assumes M: "marking UNIV g" and s: "store_ok g a x b v"
  shows "Inv UNIV (insert a (pending g)) {} (rebody a b g)" "others (rebody a b g)"
proof -
  let ?g = "rebody a b g"
  note eq = store_refs [OF s]
  have x: "gco g a = Some x" "gch_tt b = gch_tt (body x)" "is_open b = is_open (body x)" using s by (simp_all add: store_ok_def)
  have I: "Inv UNIV (pending g) {} g" and o': "others g" using M by (simp_all add: marking_others)
  have ok: "obj_ok ?g z" if z: "gco ?g c = Some z" for c z
  proof (cases "c = a")
    case True
    then have zz: "z = x\<lparr>body := b\<rparr>" using z x(1) by (simp add: rebody_gco)
    have "obj_ok g x" by (rule heap_okD [OF InvD(1) [OF I] x(1)])
    moreover have "\<forall>r \<in> body_refs g b. has g r" using s calculation unfolding store_ok_def obj_ok_def by blast
    ultimately show ?thesis using s by (simp add: obj_ok_def eq zz store_ok_def)
  next
    case False
    then show ?thesis using z heap_okD [OF InvD(1) [OF I], of c z] by (simp add: rebody_gco obj_ok_def eq)
  qed
  have cv: "covered ?g c z"
    if z: "gco ?g c = Some z" "\<not> iswhite (marked z)" "c \<notin> set (gray ?g)" "c \<notin> insert a (pending g)" for c z
  proof -
    have "gco g c = Some z" using z(1,4) by (simp add: rebody_gco)
    then have "covered g c z" using InvD(4) [OF I _ z(2)] z(3,4) by simp
    moreover have "c \<notin> set (weak g)" using z(4) by (simp add: pending_def)
    ultimately show ?thesis by (simp add: covered_def eq)
  qed
  have "on_list {} ?g c" if "c \<in> set (lists g)" for c
    using InvD(3) [OF I that] x by (auto simp: on_list_def rebody_gco)
  then show "Inv UNIV (insert a (pending g)) {} ?g"
    using InvD(1,2) [OF I] ok cv by (auto simp: Inv_def heap_ok_def closed_refs_def)
  have "uv_ready ?g c" if "uv_ready g c" for c using that x by (auto simp: uv_ready_def rebody_gco)
  then show "others ?g"
    using o' unfolding others_def white_ok_def roots_ok_def udata_ok_def chained_udata_def eq refs_done_def mayref_def
    by (simp add: rebody_def)
qed

lemma rebody_pending [simp]: "pending (rebody a b g) = pending g" "gcstate (rebody a b g) = gcstate g"
  by (simp_all add: pending_def rebody_def)

lemma pending_ext:
  assumes "ext g g'" shows "pending g \<subseteq> pending g'"
  using assms rest_simps [OF ext_rest [OF assms]] by (auto simp: pending_def ext_def)

text \<open>Once the stored value is marked, a black object has nothing white to refer to.\<close>

lemma store_done:
  assumes M: "marking UNIV g" and s: "store_ok g a x b v" and e: "ext (rebody a b g) g'"
    and I: "Inv UNIV (insert a (pending g)) {} g'" and w: "weak g' = weak g"
    and v: "isblack (marked x) \<Longrightarrow> refs_done (vrefs v) g'"
    and m: "\<not> isblack (marked x) \<Longrightarrow> g' = rebody a b g"
  shows "marking UNIV g'"
proof -
  let ?g = "rebody a b g"
  have x: "gco g a = Some x" using s by (simp add: store_ok_def)
  have x1: "gco ?g a = Some (x\<lparr>body := b\<rparr>)" using x by (simp add: rebody_gco)
  have I0: "Inv UNIV (pending g) {} g" using M by (simp add: marking_others)
  have sub: "pending g \<subseteq> pending g'" using pending_ext [OF e] by simp
  have I1: "Inv UNIV (insert a (pending g')) {} g'" by (rule Inv_more [OF I]) (use sub in auto)
  have "Inv UNIV (pending g') {} g'"
  proof (cases "isblack (marked x) \<and> \<not> iswhite (marked x) \<and> a \<notin> set (gray g) \<union> pending g")
    case True
    obtain y where y: "gco g' a = Some y" "obj_ext ?g a (x\<lparr>body := b\<rparr>) y" using extD [OF e x1] .
    have nw: "a \<notin> set (weak g)" using True by (simp add: pending_def)
    have "covered g a x" using InvD(4) [OF I0 x] True by simp
    then have c: "refs_done (body_refs g (body x)) g'"
      using nw ext_nonwhite [OF e] store_refs(5) [OF s] by (simp add: covered_def refs_done_def)
    have "body_refs g' (body y) = body_refs g b"
      using ext_body_refs [OF e, of b "body y"] y(2) store_refs(2) [OF s] by (simp add: obj_ext_def)
    then have "\<forall>r \<in> body_refs g' (body y). nonwhite g' (fst r)"
      using s c v True unfolding store_ok_def refs_done_def by blast
    then show ?thesis using Inv_drop_refs [OF I1 y(1)] nw w by simp
  next
    case False
    show ?thesis
    proof (cases "iswhite (marked x)")
      case True
      moreover have "obj_ok g x" by (rule heap_okD [OF InvD(1) [OF I0] x])
      ultimately have g': "g' = ?g" by (intro m) (simp add: obj_ok_def)
      show ?thesis by (rule Inv_drop [OF I1]) (use x1 True g' in auto)
    next
      case nw: False
      have "a \<in> set (gray g) \<union> pending g"
      proof (cases "isblack (marked x)")
        case True then show ?thesis using False nw by auto
      next
        case b: False
        then have "isgray (marked x)" using nw by (simp add: isgray_def)
        then show ?thesis using s by (simp add: store_ok_def)
      qed
      then consider (gray) "a \<in> set (gray g)" | (pending) "a \<in> pending g" by blast
      then show ?thesis
      proof cases
        case gray
        then have "on_list {} g a" using InvD(3) [OF I0, of a] by (simp add: lists_def)
        then have "\<not> isblack (marked x)" using x by (auto simp: on_list_def isgray_def)
        then have "g' = ?g" by (rule m)
        then show ?thesis using Inv_drop [OF I1] gray by simp
      next
        case pending
        then have "insert a (pending g') = pending g'" using sub by blast
        then show ?thesis using I1 by simp
      qed
    qed
  qed
  then show ?thesis using others_ext [OF store_Inv(2) [OF M s] e] by (simp add: marking_others)
qed

section \<open>The barriers\<close>

lemma valiswhite_eq:
  assumes "\<forall>r \<in> vrefs v. has g r"
  shows "valiswhite v g = Some (iscollectable v \<and> \<not> nonwhite g (gcvalue v), g)"
proof (cases "iscollectable v")
  case True
  then obtain y where "gco g (gcvalue v) = Some y" using assms by (auto simp: vrefs_def has_def)
  then show ?thesis using True by (simp add: valiswhite_def seqC_obj nonwhite_def)
qed (simp add: valiswhite_def)

lemma store_objects:
  assumes M: "marking UNIV g" and s: "store_ok g a x b v"
  shows "gco (rebody a b g) a = Some (x\<lparr>body := b\<rparr>)" "\<not> isdead (rebody a b g) (marked x)"
    "\<forall>r \<in> vrefs v. has (rebody a b g) r" "Inv UNIV (insert a (pending g)) {} (rebody a b g)"
proof -
  have x: "gco g a = Some x" using s by (simp add: store_ok_def)
  show x1: "gco (rebody a b g) a = Some (x\<lparr>body := b\<rparr>)" using x by (simp add: rebody_gco)
  show I: "Inv UNIV (insert a (pending g)) {} (rebody a b g)" by (rule store_Inv [OF M s])
  show "\<not> isdead (rebody a b g) (marked x)" using heap_okD [OF InvD(1) [OF I] x1] by (simp add: obj_ok_def)
  show "\<forall>r \<in> vrefs v. has (rebody a b g) r" using s store_refs(3) [OF s] by (simp add: store_ok_def)
qed

lemma barrier_unneeded:
  assumes M: "marking UNIV g" and s: "store_ok g a x b v"
    and n: "\<not> (iscollectable v \<and> \<not> nonwhite g (gcvalue v) \<and> isblack (marked x))"
  shows "marking UNIV (rebody a b g)"
proof (rule store_done [OF M s ext_refl])
  show "Inv UNIV (insert a (pending g)) {} (rebody a b g)" by (rule store_Inv [OF M s])
  assume "isblack (marked x)"
  then show "refs_done (vrefs v) (rebody a b g)" using n by (auto simp: refs_done_def vrefs_def store_refs(5) [OF s])
qed simp_all

text \<open>Forward: the value is marked.\<close>

lemma barrier_forward:
  assumes M: "marking UNIV g" and s: "store_ok g a x b v" and st: "gcstate g = GCSpropagate" and t: "gch_tt b \<noteq> 5"
  shows "\<exists>g'. luaC_barrier a v (rebody a b g) = Some ((), g') \<and> marking UNIV g'"
proof -
  let ?g = "rebody a b g"
  note o' = store_objects [OF M s]
  have nw: "nonwhite ?g = nonwhite g" by (rule store_refs(5) [OF s])
  have run: "luaC_barrier a v ?g = whenC ((iscollectable v \<and> \<not> nonwhite g (gcvalue v)) \<and> isblack (marked x))
      (luaC_barrierf a (gcvalue v)) ?g"
    unfolding luaC_barrier_def
    by (simp add: seqC_run [of "valiswhite v" ?g, OF valiswhite_eq [OF o'(3)]] seqC_obj [OF o'(1)] nw)
  show ?thesis
  proof (cases "iscollectable v \<and> \<not> nonwhite g (gcvalue v) \<and> isblack (marked x)")
    case False
    then show ?thesis using run barrier_unneeded [OF M s] by auto
  next
    case True
    then obtain y where y: "gco ?g (gcvalue v) = Some y" "gch_tt (body y) = ttype v"
      using o'(3) by (auto simp: vrefs_def has_def)
    have "\<not> nonwhite ?g (gcvalue v)" using True nw by simp
    then have w: "iswhite (marked y)" using y(1) by (simp add: nonwhite_def)
    have d: "\<not> isdead ?g (marked y)" using heap_okD [OF InvD(1) [OF o'(4)] y(1)] by (simp add: obj_ok_def)
    have "luaC_barrierf a (gcvalue v) ?g = reallymarkobject (gcvalue v) ?g"
      unfolding luaC_barrierf_def using True w d o'(2) st t by (simp add: seqC_obj [OF o'(1)] seqC_obj [OF y(1)])
    moreover have "gch_tt (body y) \<in> gc_types" by (cases "body y") (auto simp: gc_types_def)
    then have "does UNIV (insert a (pending g)) {} (reallymarkobject (gcvalue v)) ?g
        (\<lambda>_ g'. nonwhite g' (gcvalue v) \<and> weak g' = weak ?g)"
      by (rule marksD [OF really_marks o'(4) UNIV_I y(1) w])
    then obtain r g' where g': "reallymarkobject (gcvalue v) ?g = Some (r, g')" "Inv UNIV (insert a (pending g)) {} g'"
      "ext ?g g'" "nonwhite g' (gcvalue v)" "weak g' = weak ?g" by (auto elim: doesE)
    moreover have "marking UNIV g'"
      by (rule store_done [OF M s g'(3,2)]) (use g'(4,5) True in \<open>auto simp: refs_done_def vrefs_def\<close>)
    ultimately show ?thesis using run True by (intro exI [of _ g']) simp
  qed
qed

lemma Inv_recolor_marked:
  assumes I: "Inv R S T g" and x: "gco g a = Some x" "\<not> iswhite (marked x)" and m: "\<not> iswhite m"
    and a: "a \<in> S" "a \<notin> set (lists g)"
  shows "Inv R S T (recolor a m g)" (is "Inv R S T ?g")
proof -
  note eq = same_bodies_refs [OF recolor_same_bodies [of a m g]]
  have nw: "nonwhite ?g = nonwhite g" using x m by (auto simp: nonwhite_def recolor_gco fun_eq_iff)
  have dead: "isdead ?g w = isdead g w" for w by (simp add: isdead_def otherwhite_def)
  have ok: "obj_ok ?g z" if z: "gco ?g c = Some z" for c z
  proof (cases "c = a")
    case True
    then have "z = x\<lparr>marked := m\<rparr>" using z x(1) by (simp add: recolor_gco)
    then show ?thesis
      using heap_okD [OF InvD(1) [OF I] x(1)] m not_white_not_dead [of m] by (simp add: obj_ok_def eq dead)
  next
    case False
    then show ?thesis using z heap_okD [OF InvD(1) [OF I], of c z] by (simp add: recolor_gco obj_ok_def eq dead)
  qed
  have ol: "on_list T ?g c" if "c \<in> set (lists g)" for c
    using InvD(3) [OF I that] a that by (cases "c = a") (auto simp: on_list_def recolor_gco)
  have cv: "covered ?g c z" if z: "gco ?g c = Some z" "\<not> iswhite (marked z)" "c \<notin> set (gray g)" "c \<notin> S" for c z
  proof -
    have "c \<noteq> a" using z a by auto
    then have "covered g c z" using z InvD(4) [OF I] by (simp add: recolor_gco)
    then show ?thesis by (simp add: covered_def eq nw)
  qed
  have cl: "closed_refs R ?g"
    using InvD(6) [OF I] x(1) unfolding closed_refs_def eq by (auto simp: recolor_gco split: if_splits)
  have "g_tmname ?g = g_tmname g" by (simp add: recolor_def)
  then show ?thesis
    using InvD(1,2) [OF I] InvD(5) [OF I] ok ol cv cl by (auto simp: Inv_def nw heap_ok_def)
qed

text \<open>Back: the table turns gray again and waits for the end of marking.\<close>

lemma barrier_back:
  assumes M: "marking UNIV g" and s: "store_ok g a x (GTable h) v" and st: "gcstate g = GCSpropagate"
  shows "\<exists>g'. luaC_barriert a v (rebody a (GTable h) g) = Some ((), g') \<and> marking UNIV g'"
proof -
  let ?g = "rebody a (GTable h) g"
  note o' = store_objects [OF M s]
  have nw: "nonwhite ?g = nonwhite g" by (rule store_refs(5) [OF s])
  have run: "luaC_barriert a v ?g = whenC ((iscollectable v \<and> \<not> nonwhite g (gcvalue v)) \<and> isblack (marked x))
      (luaC_barrierback a) ?g"
    unfolding luaC_barriert_def
    by (simp add: seqC_run [of "valiswhite v" ?g, OF valiswhite_eq [OF o'(3)]] seqC_obj [OF o'(1)] nw)
  show ?thesis
  proof (cases "iscollectable v \<and> \<not> nonwhite g (gcvalue v) \<and> isblack (marked x)")
    case False
    then show ?thesis using run barrier_unneeded [OF M s] by auto
  next
    case True
    let ?m = "resetbit (marked x) BLACKBIT"
    let ?h = "(recolor a ?m ?g)\<lparr>grayagain := a # grayagain ?g\<rparr>"
    have w: "\<not> iswhite (marked x)" using True heap_okD [OF InvD(1) [OF o'(4)] o'(1)] by (auto simp: obj_ok_def)
    have m: "\<not> iswhite ?m" "isgray ?m" using w by (auto simp: bit_marks)
    have x1: "gco (recolor a ?m ?g) a = Some (x\<lparr>body := GTable h, marked := ?m\<rparr>)"
      using o'(1) by (simp add: recolor_gco)
    have nl: "a \<notin> set (lists ?g)"
      using black_not_listed [OF o'(4,1)] True by simp
    have "luaC_barrierback a ?g = Some ((), ?h)"
      unfolding luaC_barrierback_def
      using True o'(2) st by (simp add: seqC_table [OF o'(1)] seqC_obj [OF o'(1)]
          thenC_run [of "black2gray a" ?g, OF black2gray_eq [OF o'(1)]])
    moreover have "marking UNIV ?h"
    proof -
      have I1: "Inv UNIV (insert a (pending g)) {} (recolor a ?m ?g)"
        by (rule Inv_recolor_marked [OF o'(4,1)]) (use w m nl in auto)
      have d: "distinct (gray ?g @ (a # grayagain ?g) @ weak ?g)" using InvD(2) [OF I1] nl by (simp add: lists_def)
      have "on_list {} (recolor a ?m ?g) c" if "c \<in> set (gray ?g @ (a # grayagain ?g) @ weak ?g)" for c
        using that InvD(3) [OF I1, of c] x1 m by (cases "c = a") (auto simp: lists_def on_list_def)
      then have "Inv UNIV (insert a (pending g)) {} ((recolor a ?m ?g)\<lparr>gray := gray ?g, grayagain := a # grayagain ?g\<rparr>)"
        using d by (intro Inv_lists [OF I1]) auto
      moreover have h: "(recolor a ?m ?g)\<lparr>gray := gray ?g, grayagain := a # grayagain ?g\<rparr> = ?h" by (simp add: recolor_def)
      moreover have "pending ?h = insert a (pending g)" by (simp add: pending_def) (simp add: recolor_def rebody_def)
      ultimately have I2: "Inv UNIV (pending ?h) {} ?h" by (simp only: h)
      have e: "extb ?g ?h"
      proof -
        have "rel_option objb (gco ?g c) (gco ?h c)" for c
          using o'(1) m(1) by (auto simp: recolor_gco objb_def intro!: option.rel_refl)
        moreover have "same_store ?h (recolor a ?m ?g)" by (simp add: same_store_def)
        ultimately show ?thesis
          using same_store_refs(3) [of ?h "recolor a ?m ?g"] rest_simps [of "recolor a ?m ?g" ?g]
          by (simp add: extb_def recolor_tm)
      qed
      have uv: "uv_ready ?h c" if "uv_ready ?g c" for c
        using that o'(1) by (auto simp: uv_ready_def recolor_gco is_open_def)
      have l: "tmudata ?h = tmudata ?g" "rootgc ?h = rootgc ?g" "g_uvhead ?h = g_uvhead ?g"
        by (simp_all add: recolor_def)
      have o2: "others ?g" by (rule store_Inv(2) [OF M s])
      have "white_ok ?h" "roots_ok UNIV ?h" "udata_ok UNIV ?h"
        using o2 extb_white [OF e] extb_roots [OF e] extb_udata [OF e l(1,2)] by (simp_all only: others_def)
      moreover have "\<forall>c \<in> set (g_uvhead ?h). uv_ready ?h c" using o2 uv unfolding others_def l(3) by blast
      ultimately show ?thesis using I2 unfolding marking_others others_def by blast
    qed
    ultimately show ?thesis using run True by (intro exI [of _ ?h]) simp
  qed
qed

end
