(* ===== verification/GcSweepSpec.thy ===== *)
theory GcSweepSpec
  imports GcCycle
begin

text \<open>
  Sweeping: what a list holds that is dead is unlinked and freed, what is alive stays in its order
  and turns white for the next cycle, and no object off the list changes.
\<close>

section \<open>Lists\<close>

definition list_of :: "listhead \<Rightarrow> gc_State \<Rightarrow> addr list" where
  "list_of h g = (case h of RootGC \<Rightarrow> rootgc g | StrHash i \<Rightarrow> strt_hash g ! i | OpenUpval th \<Rightarrow> [])"

definition is_list :: "listhead \<Rightarrow> gc_State \<Rightarrow> bool" where
  "is_list h g \<longleftrightarrow> (case h of RootGC \<Rightarrow> True | StrHash i \<Rightarrow> i < length (strt_hash g) | OpenUpval th \<Rightarrow> False)"

lemma get_list_eq: "is_list h g \<Longrightarrow> get_list h g = Some (list_of h g, g)"
  by (cases h) (simp_all add: is_list_def list_of_def get_list_def)

definition with_list :: "listhead \<Rightarrow> addr list \<Rightarrow> gc_State \<Rightarrow> gc_State" where
  "with_list h xs g = (case h of RootGC \<Rightarrow> g\<lparr>rootgc := xs\<rparr> | StrHash i \<Rightarrow> g\<lparr>strt_hash := (strt_hash g)[i := xs]\<rparr> | OpenUpval th \<Rightarrow> g)"

lemma put_list_eq: "is_list h g \<Longrightarrow> put_list h xs g = Some ((), with_list h xs g)"
  by (cases h) (simp_all add: is_list_def with_list_def put_list_def)

lemma with_list_simps [simp]:
  "gco (with_list h xs g) = gco g" "currentwhite (with_list h xs g) = currentwhite g" "g_uvhead (with_list h xs g) = g_uvhead g"
  by (cases h; simp add: with_list_def)+

lemma list_of_with [simp]: "is_list h g \<Longrightarrow> list_of h (with_list h xs g) = xs"
  by (cases h) (simp_all add: is_list_def with_list_def list_of_def)

lemma is_list_with [simp]: "is_list h (with_list h xs g) = is_list h g"
  by (cases h) (simp_all add: is_list_def with_list_def)

text \<open>The link \<open>p\<close> is the last of the objects before: behind it hangs the rest.\<close>

definition link_at :: "addr list \<Rightarrow> addr option" where
  "link_at pre = (if pre = [] then None else Some (last pre))"

lemma behind_link:
  assumes "distinct (pre @ ys)" shows "behind (link_at pre) (pre @ ys) = ys"
proof (cases pre rule: rev_cases)
  case Nil
  then show ?thesis by (simp add: link_at_def behind_def)
next
  case (snoc xs a)
  have "dropWhile (\<lambda>x. x \<noteq> a) (xs @ a # ys) = a # ys"
    using assms snoc by (subst dropWhile_append2) auto
  then show ?thesis by (simp add: link_at_def behind_def snoc)
qed

section \<open>One object\<close>

text \<open>In a cycle one white bit is current, with the bit that keeps fixed objects; \<open>luaC_freeall\<close> has both
  whites, with the bit that keeps the main thread.\<close>

definition one_white :: "gc_State \<Rightarrow> bool" where
  "one_white g \<longleftrightarrow> currentwhite g = bit2mask WHITE0BIT FIXEDBIT \<or> currentwhite g = bit2mask WHITE1BIT FIXEDBIT"

definition sweeps_all :: "gc_State \<Rightarrow> bool" where
  "sweeps_all g \<longleftrightarrow> currentwhite g = WHITEBITS OR bitmask SFIXEDBIT"

definition kept :: "gc_State \<Rightarrow> addr \<Rightarrow> bool" where
  "kept g a \<longleftrightarrow> (\<exists>x. gco g a = Some x \<and>
     (if sweeps_all g then testbit (marked x) SFIXEDBIT else \<not> isdead g (marked x) \<or> testbit (marked x) FIXEDBIT))"

lemma keeps_bits:
  assumes w: "one_white g \<or> sweeps_all g" and x: "gco g a = Some x"
  shows "(marked x XOR WHITEBITS) AND otherwhite g \<noteq> 0 \<longleftrightarrow> kept g a"
    "kept g a \<Longrightarrow> \<not> isdead g (marked x) \<or> testbit (marked x) FIXEDBIT"
    "\<not> kept g a \<Longrightarrow> isdead g (marked x) \<or> otherwhite g = bitmask SFIXEDBIT"
proof -
  let ?m = "marked x"
  have nz: "((?m XOR WHITEBITS) AND otherwhite g \<noteq> 0) = (\<exists>i. bit (?m XOR WHITEBITS) i \<and> bit (otherwhite g) i)"
    by (auto simp: word_nonzero bit_and_iff)
  have "((?m XOR WHITEBITS) AND otherwhite g \<noteq> 0 \<longleftrightarrow> kept g a) \<and>
    (kept g a \<longrightarrow> \<not> isdead g ?m \<or> testbit ?m FIXEDBIT) \<and> (\<not> kept g a \<longrightarrow> isdead g ?m \<or> otherwhite g = bitmask SFIXEDBIT)"
  proof (cases "sweeps_all g")
    case True
    have "bit (otherwhite g) i \<longleftrightarrow> i = 6" for i
      using True by (auto simp: sweeps_all_def bit_otherwhite bit_or_iff bit_bitmask bit_WHITEBITS SFIXEDBIT_def)
    moreover from this have "otherwhite g = bitmask SFIXEDBIT" by (intro bit_eqI) (auto simp: bit_bitmask SFIXEDBIT_def)
    moreover have "\<not> isdead g ?m"
      using True by (auto simp: isdead_bit sweeps_all_def bit_or_iff bit_WHITEBITS less_2_cases_iff)
    ultimately show ?thesis
      using True x unfolding nz by (auto simp: kept_def bit_xor_iff bit_WHITEBITS testbit_bit SFIXEDBIT_def)
  next
    case False
    then have "currentwhite g = bit2mask 0 FIXEDBIT \<or> currentwhite g = bit2mask 1 FIXEDBIT"
      using assms(1) by (simp add: one_white_def WHITE0BIT_def WHITE1BIT_def)
    then obtain w :: nat where w: "w < 2" "currentwhite g = bit2mask w FIXEDBIT"
      using that [of 0] that [of 1] by fastforce
    have c: "bit (currentwhite g) i \<longleftrightarrow> i = w \<or> i = 5" for i
      using w by (auto simp: bit2mask_def bit_or_iff bit_bitmask FIXEDBIT_def)
    have d: "isdead g ?m \<longleftrightarrow> bit ?m (1 - w)"
      using w(1) by (auto simp: isdead_bit c less_2_cases_iff)
    have "bit (otherwhite g) i \<longleftrightarrow> i = 1 - w \<or> i = 5" for i
      using w(1) unfolding bit_otherwhite c by auto
    moreover have "bit (?m XOR WHITEBITS) (1 - w) = (\<not> bit ?m (1 - w))" "bit (?m XOR WHITEBITS) 5 = bit ?m 5"
      using w(1) by (auto simp: bit_xor_iff bit_WHITEBITS)
    ultimately have "(\<exists>i. bit (?m XOR WHITEBITS) i \<and> bit (otherwhite g) i) \<longleftrightarrow> \<not> bit ?m (1 - w) \<or> bit ?m 5" by metis
    then show ?thesis
      using False x unfolding nz by (auto simp: kept_def d testbit_bit FIXEDBIT_def)
  qed
  then show "(?m XOR WHITEBITS) AND otherwhite g \<noteq> 0 \<longleftrightarrow> kept g a"
    "kept g a \<Longrightarrow> \<not> isdead g ?m \<or> testbit ?m FIXEDBIT"
    "\<not> kept g a \<Longrightarrow> isdead g ?m \<or> otherwhite g = bitmask SFIXEDBIT" by blast+
qed

text \<open>Objects that are swept without running anything: threads have no open upvalues left, and no dead
  thread is the running or the main one.\<close>

definition sweepable :: "addr \<Rightarrow> gc_State \<Rightarrow> addr \<Rightarrow> bool" where
  "sweepable L g a \<longleftrightarrow> (\<exists>x. gco g a = Some x \<and>
     (\<forall>t. body x = GThread t \<longrightarrow> th_openupval t = [] \<and> (kept g a \<or> a \<noteq> L \<and> a \<noteq> mainthread g)))"

definition freed :: "addr \<Rightarrow> gc_State \<Rightarrow> gc_State \<Rightarrow> bool" where
  "freed a g g' \<longleftrightarrow> gco g' = (gco g)(a := None) \<and> currentwhite g' = currentwhite g \<and> rootgc g' = rootgc g \<and>
     strt_hash g' = strt_hash g \<and> mainthread g' = mainthread g \<and> set (g_uvhead g') \<subseteq> set (g_uvhead g)"

lemma gc_free_frees: "gc_free a n g = Some ((), g') \<Longrightarrow> freed a g g'"
  by (auto simp: gc_free_def freed_def)

lemma freeobj_frees:
  assumes x: "gco g a = Some x" and t: "\<forall>t. body x = GThread t \<longrightarrow> th_openupval t = [] \<and> a \<noteq> L \<and> a \<noteq> mainthread g"
  shows "\<exists>g'. freeobj L a g = Some ((), g') \<and> freed a g g'"
proof -
  have f: "\<exists>g'. gc_free a n g = Some ((), g') \<and> freed a g g'" for n by (simp add: gc_free_def freed_def)
  show ?thesis
  proof (cases "body x")
    case (GUpval v own)
    have run: "freeobj L a g = thenC (whenC (v \<noteq> Closed) (gc_unlinkupval a)) (gc_free a 40) g"
      by (simp add: freeobj_def seqC_obj [OF x] GUpval luaF_freeupval_def seqC_upval [OF x GUpval])
    show ?thesis
    proof (cases "v = Closed")
      case True
      then show ?thesis using f [of 40] unfolding run by simp
    next
      case False
      then show ?thesis using set_remove1_subset [of a "g_uvhead g"]
        unfolding run by (auto simp: gc_unlinkupval_def gc_free_def freed_def)
    qed
  next
    case (GString s)
    then show ?thesis by (simp add: freeobj_def seqC_obj [OF x] gc_free_def freed_def)
  next
    case (GThread th)
    then have th: "th_openupval th = []" "a \<noteq> L" "a \<noteq> mainthread g" using t by auto
    have "gc_luaF_close a 0 g = Some ((), g)" by (simp add: gc_luaF_close_def seqC_thread [OF x GThread] th(1))
    then show ?thesis
      using f th by (simp add: freeobj_def seqC_obj [OF x] GThread luaE_freethread_def thenC_run [of "gc_luaF_close a 0" g]
          seqC_thread [OF x GThread])
  qed (use f in \<open>simp_all add: freeobj_def seqC_obj [OF x]\<close>)
qed

lemma no_open:
  assumes x: "gco g a = Some x" "body x = GThread t" "th_openupval t = []"
  shows "sweep_openupval L a g = Some ((), g)"
proof -
  have "get_list (OpenUpval a) g = Some ([], g)" by (simp add: get_list_def seqC_thread [OF x(1,2)] x(3))
  then have "sweeplist_by (\<lambda>_. failC) L (OpenUpval a) MAX_LUMEM None g = Some (None, g)"
    by (subst sweeplist_by.simps) (simp add: seqC_run [of "get_list (OpenUpval a)" g] behind_def)
  then show ?thesis by (simp add: sweep_openupval_def seqC_eq)
qed

text \<open>What is left of an object: nothing, or the object in the current white.\<close>

definition whitened :: "gc_State \<Rightarrow> GCObject \<Rightarrow> GCObject" where
  "whitened g x = x\<lparr>marked := (marked x AND maskmarks) OR luaC_white g\<rparr>"

definition swept :: "gc_State \<Rightarrow> addr \<Rightarrow> GCObject option" where
  "swept g a = (if kept g a then map_option (whitened g) (gco g a) else None)"

lemma sweep_one_does:
  assumes w: "one_white g \<or> sweeps_all g" and l: "is_list h g" and s: "sweepable L g a"
  shows "\<exists>g'. sweep_one (sweep_openupval L) L h p a g = Some (if kept g a then Some a else p, g') \<and>
    gco g' = (gco g)(a := swept g a) \<and> currentwhite g' = currentwhite g \<and> is_list h g' \<and>
    list_of h g' = (if kept g a then list_of h g else remove1 a (list_of h g)) \<and>
    mainthread g' = mainthread g \<and> set (g_uvhead g') \<subseteq> set (g_uvhead g)"
proof -
  obtain x where x: "gco g a = Some x"
    and th: "\<forall>t. body x = GThread t \<longrightarrow> th_openupval t = [] \<and> (kept g a \<or> a \<noteq> L \<and> a \<noteq> mainthread g)"
    using s by (auto simp: sweepable_def)
  note kb = keeps_bits [OF w x]
  have open': "(case body x of GThread t \<Rightarrow> sweep_openupval L a | _ \<Rightarrow> retC ()) g = Some ((), g)"
    using no_open [OF x] th by (cases "body x") auto
  have start: "sweep_one (sweep_openupval L) L h p a g = (if kept g a
      then thenC (makewhite a) (retC (Some a)) g
      else seqC (get_list h) (\<lambda>xs. thenC (put_list h (remove1 a xs)) (thenC (freeobj L a) (retC p))) g)"
    unfolding sweep_one_def Let_def seqC_obj [OF x] thenC_run [of "case body x of GThread t \<Rightarrow> sweep_openupval L a | _ \<Rightarrow> retC ()" g, OF open'] using kb(2,3)
    by (auto simp: seqC_obj [OF x] kb(1) assertC_def)
  show ?thesis
  proof (cases "kept g a")
    case True
    let ?m = "(marked x AND maskmarks) OR luaC_white g"
    have mk: "makewhite a g = Some ((), recolor a ?m g)"
      by (simp add: makewhite_def seqC_obj [OF x] set_marked_recolor [OF x])
    have "list_of h (recolor a ?m g) = list_of h g" "is_list h (recolor a ?m g) = is_list h g"
      by (cases h; simp add: list_of_def is_list_def recolor_def)+
    moreover have "gco (recolor a ?m g) = (gco g)(a := swept g a)"
      using True x by (simp add: recolor_def swept_def whitened_def)
    moreover have "g_uvhead (recolor a ?m g) = g_uvhead g" "mainthread (recolor a ?m g) = mainthread g"
      by (simp_all add: recolor_def)
    ultimately show ?thesis
      using True l unfolding start by (simp add: thenC_run [of "makewhite a" g, OF mk])
  next
    case False
    let ?h = "with_list h (remove1 a (list_of h g)) g"
    have "mainthread ?h = mainthread g" by (cases h) (simp_all add: with_list_def)
    then obtain g' where g': "freeobj L a ?h = Some ((), g')" "freed a ?h g'"
      using freeobj_frees [of ?h a x L] x th False by auto
    have "list_of h g' = list_of h ?h" "is_list h g' = is_list h ?h"
      using g'(2) by (cases h; simp add: freed_def list_of_def is_list_def)+
    then show ?thesis
      using False l g'(2) \<open>mainthread ?h = mainthread g\<close> unfolding start
      by (simp add: seqC_run [of "get_list h" g, OF get_list_eq [OF l]] thenC_run [of "put_list h _" g, OF put_list_eq [OF l]]
          thenC_run [of "freeobj L a" ?h, OF g'(1)] freed_def swept_def)
  qed
qed

section \<open>A list\<close>

lemma sweeplist_does:
  assumes "one_white g \<or> sweeps_all g" "is_list h g" "list_of h g = pre @ ys" "distinct (pre @ ys)"
    "\<forall>a \<in> set (take n ys). sweepable L g a"
  shows "\<exists>g'. sweeplist L h n (link_at pre) g = Some (link_at (pre @ filter (kept g) (take n ys)), g') \<and>
    list_of h g' = pre @ filter (kept g) (take n ys) @ drop n ys \<and> is_list h g' \<and> currentwhite g' = currentwhite g \<and>
    mainthread g' = mainthread g \<and> (\<forall>a. gco g' a = (if a \<in> set (take n ys) then swept g a else gco g a)) \<and>
    set (g_uvhead g') \<subseteq> set (g_uvhead g)"
  using assms
proof (induction ys arbitrary: g pre n)
  case Nil
  have b: "behind (link_at pre) pre = []" using behind_link [of pre "[]"] Nil.prems by simp
  show ?case using Nil.prems
    unfolding sweeplist_def by (subst sweeplist_by.simps) (simp add: seqC_run [of "get_list h" g, OF get_list_eq] b)
next
  case (Cons a ys)
  have b: "behind (link_at pre) (pre @ a # ys) = a # ys" by (rule behind_link) (use Cons.prems in simp)
  have gl: "get_list h g = Some (pre @ a # ys, g)" using get_list_eq [OF Cons.prems(2)] Cons.prems(3) by simp
  show ?case
  proof (cases n)
    case 0
    then show ?thesis using Cons.prems
      unfolding sweeplist_def by (subst sweeplist_by.simps) (simp add: seqC_run [of "get_list h" g, OF gl] b)
  next
    case (Suc k)
    have s: "sweepable L g a" using Cons.prems(5) Suc by simp
    let ?p = "if kept g a then Some a else link_at pre" and ?pre = "pre @ filter (kept g) [a]"
    obtain g1 where g1: "sweep_one (sweep_openupval L) L h (link_at pre) a g = Some (?p, g1)" "gco g1 = (gco g)(a := swept g a)"
      "currentwhite g1 = currentwhite g" "is_list h g1"
      "list_of h g1 = (if kept g a then list_of h g else remove1 a (list_of h g))" 
      "mainthread g1 = mainthread g" "set (g_uvhead g1) \<subseteq> set (g_uvhead g)"
      using sweep_one_does [OF Cons.prems(1,2) s] by blast
    have p: "?p = link_at ?pre" by (simp add: link_at_def)
    have an: "a \<notin> set pre" "a \<notin> set ys" using Cons.prems(4) by auto
    have l1: "list_of h g1 = ?pre @ ys" using g1(5) Cons.prems(3) an by (simp add: remove1_append)
    have all: "sweeps_all g1 = sweeps_all g" using g1(3) by (simp add: sweeps_all_def)
    have ne: "gco g1 c = gco g c" if "c \<in> set ys" for c using g1(2) an that by auto
    have dead: "isdead g1 m = isdead g m" for m using g1(3) by (simp add: isdead_def otherwhite_def)
    have wh: "whitened g1 = whitened g" using g1(3) by (simp add: fun_eq_iff whitened_def luaC_white_def)
    have kp: "kept g1 c = kept g c" if "c \<in> set ys" for c unfolding kept_def ne [OF that] all dead by (rule refl)
    have sw: "swept g1 c = swept g c" if "c \<in> set ys" for c unfolding swept_def kp [OF that] ne [OF that] wh by (rule refl)
    have fl: "filter (kept g1) (take k ys) = filter (kept g) (take k ys)"
      by (intro filter_cong refl) (auto simp: kp dest: in_set_takeD)
    have ow: "one_white g1 \<or> sweeps_all g1" using Cons.prems(1) g1(3) by (simp add: one_white_def sweeps_all_def)
    have d1: "distinct (?pre @ ys)" using Cons.prems(4) by auto
    have s1: "\<forall>c \<in> set (take k ys). sweepable L g1 c"
    proof
      fix c assume c: "c \<in> set (take k ys)"
      then have "c \<in> set ys" by (rule in_set_takeD)
      then show "sweepable L g1 c"
        using Cons.prems(5) c Suc unfolding sweepable_def kp [OF \<open>c \<in> set ys\<close>] ne [OF \<open>c \<in> set ys\<close>] g1(6) by simp
    qed
    obtain g' where g': "sweeplist L h k (link_at ?pre) g1 = Some (link_at (?pre @ filter (kept g1) (take k ys)), g')"
      "list_of h g' = ?pre @ filter (kept g1) (take k ys) @ drop k ys" "is_list h g'" "currentwhite g' = currentwhite g1" "mainthread g' = mainthread g1"
      "\<forall>c. gco g' c = (if c \<in> set (take k ys) then swept g1 c else gco g1 c)"
      "set (g_uvhead g') \<subseteq> set (g_uvhead g1)"
      using Cons.IH [OF ow g1(4) l1 d1 s1] by blast
    have "gco g' c = (if c \<in> set (take n (a # ys)) then swept g c else gco g c)" for c
      using g'(6) g1(2) sw an by (auto simp: Suc dest: in_set_takeD)
    moreover have "sweeplist L h n (link_at pre) g = sweeplist L h k (link_at ?pre) g1"
      unfolding sweeplist_def by (subst sweeplist_by.simps)
        (simp add: seqC_run [of "get_list h" g, OF gl] b Suc seqC_run [of "sweep_one (sweep_openupval L) L h (link_at pre) a" g, OF g1(1)] p)
    ultimately show ?thesis
      using g'(1,2,3,4,5,7) g1(3,6,7) by (auto simp: Suc fl)
  qed
qed

end
