(* ===== verification/GcSpec.thy ===== *)
theory GcSpec
  imports GcStart GcSweepSpec
begin

text \<open>
  What the collector promises: its steps keep the invariant of marking and come to an end, the
  barriers keep it while the program runs, after \<open>atomic\<close> nothing that can be reached is dead, and
  sweeping frees what is dead and nothing else.
\<close>

section \<open>A small heap\<close>

text \<open>The main thread 1, the registry 2, the globals 3 with the string 4, and a table 5 nothing refers to.\<close>

definition empty_table :: "TValue list \<Rightarrow> Table" where
  "empty_table vs = \<lparr>flags = 0, lsizenode = 0, metatable = None, array = vs,
     node = [\<lparr>i_val = NIL, i_key = NIL, gnext = None\<rparr>], lastfree = 0, isdummy = True\<rparr>"

definition small_thread :: gcthread where
  "small_thread = \<lparr>th_gt = TABLE 3, th_top = 1, th_stack_last = 1, th_stack = [NIL, NIL], th_base_ci = [blank_ci\<lparr>ci_top := 1\<rparr>],
     th_ci = 0, th_allowhook = True, th_openupval = []\<rparr>"

definition small_heap :: "addr \<Rightarrow> GCObject option" where
  "small_heap a =
     (if a = 1 then Some \<lparr>marked = 1, body = GThread small_thread\<rparr>
      else if a = 2 then Some \<lparr>marked = 1, body = GTable (empty_table [])\<rparr>
      else if a = 3 then Some \<lparr>marked = 1, body = GTable (empty_table [STRING 4])\<rparr>
      else if a = 4 then Some \<lparr>marked = 1, body = GString \<lparr>ts_reserved = 0, ts_hash = 0, ts_bytes = ''x''\<rparr>\<rparr>
      else if a = 5 then Some \<lparr>marked = 1, body = GTable (empty_table [])\<rparr>
      else None)"

definition small_gc :: gc_State where
  "small_gc = \<lparr>gco = small_heap, currentwhite = 33, gcstate = GCSpause, sweepstrgc = 0, rootgc = [5, 3, 2, 1], sweepgc = None,
     gray = [], grayagain = [], weak = [], tmudata = [], strt_hash = [[4]], strt_nuse = 1, g_buffsize = 0,
     GCthreshold = 0, totalbytes = 1000, estimate = 0, gcdept = 0, gcpause = 200, gcstepmul = 200,
     registry = TABLE 2, mainthread = 1, g_uvhead = [], mt = replicate 9 None, g_tmname = replicate 17 4\<rparr>"

lemma small_cases:
  assumes "gco small_gc a = Some x"
  obtains "a = 1" "body x = GThread small_thread" | "a = 2" "body x = GTable (empty_table [])"
  | "a = 3" "body x = GTable (empty_table [STRING 4])" | "a = 4" "\<exists>s. body x = GString s" | "a = 5" "body x = GTable (empty_table [])"
  using assms by (auto simp: small_gc_def small_heap_def split: if_splits)

lemma small_marked: "gco small_gc a = Some x \<Longrightarrow> marked x = 1"
  by (auto simp: small_gc_def small_heap_def split: if_splits)

lemma bit_one: "bit (1 :: u8) i \<longleftrightarrow> i = 0" by (auto simp: bit_1_iff)

lemma small_white: "bit (currentwhite small_gc) i \<longleftrightarrow> i = 0 \<or> i = 5"
proof -
  have "currentwhite small_gc = bit2mask 0 5" by (simp add: small_gc_def bit2mask_def bitmask_def)
  then show ?thesis by (auto simp: bit2mask_def bit_or_iff bit_bitmask)
qed

lemma small_refs:
  "body_refs small_gc (GThread small_thread) = {(3, 5)}" "body_refs small_gc (GTable (empty_table [])) = {}"
  "body_refs small_gc (GTable (empty_table [STRING 4])) = {(4, 4)}"
  by (simp_all add: small_thread_def empty_table_def table_refs_def orefs_def node_refs_def vrefs_def iscollectable_def)

lemma small_has: "has small_gc (1, 8)" "has small_gc (2, 5)" "has small_gc (3, 5)" "has small_gc (4, 4)"
  by (simp_all add: has_def small_gc_def small_heap_def)

lemma small_struct:
  "struct_ok small_gc (GThread small_thread)" "struct_ok small_gc (GTable (empty_table vs))"
  by (auto simp: gcthread_ok_def small_thread_def gctable_ok_def empty_table_def node_ok_def)

lemma small_body:
  assumes "gco small_gc a = Some x"
  shows "struct_ok small_gc (body x) \<and> (\<forall>r \<in> body_refs small_gc (body x). has small_gc r \<and> fst r \<in> {3, 4})"
  using assms
proof (cases rule: small_cases)
  case 1
  show ?thesis unfolding 1 small_refs using small_has small_struct by simp
next
  case 2
  show ?thesis unfolding 2 small_refs using small_struct by simp
next
  case 3
  show ?thesis unfolding 3 small_refs using small_has small_struct by simp
next
  case 4
  then show ?thesis by auto
next
  case 5
  show ?thesis unfolding 5 small_refs using small_struct by simp
qed

lemma small_heap_ok: "heap_ok small_gc"
proof -
  have "obj_ok small_gc x" if x: "gco small_gc a = Some x" for a x
    unfolding obj_ok_def
    using small_body [OF x] by (auto simp: small_marked [OF x] isdead_bit isblack_bit bit_one small_white)
  moreover have "length (g_tmname small_gc) = 17" by (simp add: small_gc_def)
  ultimately show ?thesis by (simp add: heap_ok_def)
qed

lemma small_at_rest:
  assumes R: "{1, 2, 3, 4} \<subseteq> R" shows "at_rest R small_gc"
proof -
  have "\<not> nonwhite small_gc a" for a by (auto simp: nonwhite_def iswhite_bit bit_one dest: small_marked)
  moreover have "closed_refs R small_gc"
    unfolding closed_refs_def
  proof (intro allI impI)
    fix a x r assume x: "gco small_gc a = Some x" and r: "r \<in> strong_refs small_gc (body x)"
    have "r \<in> body_refs small_gc (body x)" using r strong_body by blast
    then show "fst r \<in> R" using small_body [OF x] R by blast
  qed
  moreover have "white_ok small_gc" by (simp add: white_ok_def small_white bit_one)
  moreover have "udata_ok R small_gc" by (simp add: udata_ok_def chained_udata_def behind_def small_gc_def)
  moreover have "mainthread small_gc = 1" "registry small_gc = TABLE 2" "mt small_gc = replicate 9 None" "g_uvhead small_gc = []"
    by (simp_all add: small_gc_def)
  ultimately show ?thesis
    using small_heap_ok small_has R by (simp add: at_rest_def mayref_def vrefs_def iscollectable_def orefs_def)
qed

section \<open>Steps of marking\<close>

text \<open>C38: a single step of the collector from its rest, or while objects are gray, ends with the
  invariant of marking: no object refers to a white one once its references were followed, every
  object on a list of gray ones is gray, and only what strong references reach from the roots
  (any set \<open>R\<close> they do not leave) was marked. While it propagates each step leaves less to do.\<close>

theorem singlestep_marks:
  assumes "gcstate g = GCSpause \<and> at_rest R g \<or> gcstate g = GCSpropagate \<and> marking R g \<and> gray g \<noteq> []"
  shows "\<exists>n g'. singlestep call L g = Some (n, g') \<and> marking R g' \<and> gcstate g' = GCSpropagate \<and>
    (gcstate g = GCSpropagate \<longrightarrow> work g' < work g)"
proof (cases "gcstate g = GCSpause")
  case True
  then obtain g' where "markroot g = Some ((), g')" "marking R g'" "gcstate g' = GCSpropagate"
    using assms markroot_starts by auto
  then show ?thesis using True
    by (intro exI [of _ 0] exI [of _ g']) (simp add: singlestep_def thenC_run [of markroot g])
next
  case False
  then have g: "gcstate g = GCSpropagate" "marking R g" "gray g \<noteq> []" using assms by auto
  obtain n g' where g': "propagatemark g = Some (n, g')" "marking R g'" "ext g g'" "work g' < work g"
    using propagate_marking [OF g(2,3)] by blast
  then have "gcstate g' = GCSpropagate" using rest_simps [OF ext_rest [OF g'(3)]] g(1) by simp
  then show ?thesis using g g' by (intro exI [of _ n] exI [of _ g']) (simp add: singlestep_def)
qed

theorem singlestep_marks_witness:
  "\<exists>n g. singlestep (\<lambda>_ _. retC ()) 1 small_gc = Some (n, g) \<and> marking {1, 2, 3, 4} g \<and> gcstate g = GCSpropagate"
proof -
  have "gcstate small_gc = GCSpause" by (simp add: small_gc_def)
  then show ?thesis using singlestep_marks [of small_gc "{1, 2, 3, 4}" "\<lambda>_ _. retC ()" 1] small_at_rest [OF subset_refl] by blast
qed

section \<open>The end of marking\<close>

lemma ends_marked:
  assumes e: "ends R L g g3 g4" and x: "gco g4 a = Some y" and n: "nonwhite g4 a"
  shows "a \<in> R \<or> gch_tt (body y) = 4"
proof -
  have I: "Inv R {} {} g3" and c: "cext g3 g4" using e by (simp_all add: ends_def)
  obtain x where x3: "gco g3 a = Some x" "cl_obj g3 x y" using cextD' [OF c x] .
  have t: "gch_tt (body y) = gch_tt (body x)" using x3(2) cl_body_tt [of g3 "body x" "body y"] by (simp add: cl_obj_def)
  show ?thesis
  proof (cases "gch_tt (body y) = 4")
    case False
    then have "marked y = marked x" using x3(2) t by (simp add: cl_obj_def)
    then have "nonwhite g3 a" using n x x3(1) by (simp add: nonwhite_def)
    then show ?thesis using InvD(5) [OF I] by simp
  qed simp
qed

lemma ends_tt:
  assumes e: "ends R L g g3 g4"
  shows "map_option (gch_tt \<circ> body) (gco g4 a) = map_option (gch_tt \<circ> body) (gco g a)"
proof -
  have "extb g g3" and c: "cext g3 g4" using e by (simp_all add: ends_def)
  then have "rel_option objb (gco g a) (gco g3 a)" "rel_option (cl_obj g3) (gco g3 a) (gco g4 a)"
    by (simp_all add: extb_def cext_def)
  then show ?thesis
    using sim_tt cl_body_tt by (cases "gco g a"; cases "gco g3 a"; cases "gco g4 a") (auto simp: objb_def cl_obj_def)
qed

text \<open>C37: \<open>atomic\<close> ends, and then nothing a program can reach is dead: not from the roots over any
  reference, weak ones included, in the store it leaves, and not over strong references in the store
  it began with. It keeps nothing else but strings: what is not dead lies in any set that strong
  references do not leave. No object is created, freed or changed to another type.\<close>

theorem atomic_sound:
  assumes "marking R g" "mayref R g (L, 8)"
  shows "\<exists>g'. atomic L g = Some ((), g') \<and> gcstate g' = GCSsweepstring \<and>
    (\<forall>a. reach body_refs g' L a \<or> reach strong_refs g L a \<longrightarrow> alive g' a) \<and>
    (\<forall>a x. gco g' a = Some x \<longrightarrow> alive g' a \<longrightarrow> a \<in> R \<or> gch_tt (body x) = 4) \<and>
    (\<forall>a. map_option (gch_tt \<circ> body) (gco g' a) = map_option (gch_tt \<circ> body) (gco g a))"
proof -
  obtain u g3 g4 where at: "atomic L g = Some ((), flip u g4)" and e: "ends R L g g3 g4"
    using atomic_ends [OF assms] by blast
  have r: "roots_ok R g" using assms(1) by (simp add: marking_def)
  have c: "cext g3 g4" using e by (simp add: ends_def)
  have f: "gco (flip u g4) = gco g4" "gcstate (flip u g4) = GCSsweepstring" by (simp_all add: flip_def)
  have 1: "alive (flip u g4) a" if "reach body_refs (flip u g4) L a \<or> reach strong_refs g L a" for a
    using that ends_reach [OF e r] ends_strong [OF e r] cext_nonwhite [OF c] ends_alive [OF e] by blast
  have 2: "a \<in> R \<or> gch_tt (body x) = 4" if "gco (flip u g4) a = Some x" "alive (flip u g4) a" for a x
    using that ends_marked [OF e] ends_alive [OF e] by (simp add: f)
  show ?thesis
    by (intro exI [of _ "flip u g4"] conjI allI impI)
      (simp add: at, simp add: f, erule 1, erule (1) 2, simp only: f ends_tt [OF e])
qed

text \<open>On the small heap: the globals are reached through the thread, the table 5 is dead.\<close>

theorem atomic_sound_witness:
  "\<exists>g g'. markroot small_gc = Some ((), g) \<and> atomic 1 g = Some ((), g') \<and> gcstate g' = GCSsweepstring \<and>
    alive g' 1 \<and> alive g' 2 \<and> alive g' 3 \<and> gco g' 5 \<noteq> None \<and> \<not> alive g' 5"
proof -
  obtain g where g: "markroot small_gc = Some ((), g)" "marking {1, 2, 3, 4} g" "extb small_gc g"
    using markroot_starts [OF small_at_rest [OF subset_refl]] by blast
  note eb = g(3)
  have "mayref {1, 2, 3, 4} g (1, 8)" using extb_has [OF eb] small_has by (simp add: mayref_def)
  then obtain g' where g': "atomic 1 g = Some ((), g')" "gcstate g' = GCSsweepstring"
    "\<forall>a. reach body_refs g' 1 a \<or> reach strong_refs g 1 a \<longrightarrow> alive g' a"
    "\<forall>a x. gco g' a = Some x \<longrightarrow> alive g' a \<longrightarrow> a \<in> {1, 2, 3, 4} \<or> gch_tt (body x) = 4"
    "\<forall>a. map_option (gch_tt \<circ> body) (gco g' a) = map_option (gch_tt \<circ> body) (gco g a)"
    using atomic_sound [OF g(2)] by blast
  obtain x where x: "gco small_gc 1 = Some x" "body x = GThread small_thread" by (simp add: small_gc_def small_heap_def)
  obtain y where y: "gco g 1 = Some y" "objb x y" using extbD [OF eb x(1)] .
  have "strong_refs g (body y) = strong_refs small_gc (body x)"
    using simb_strong_refs [OF extb_simb [OF eb]] y(2) by (simp add: objb_def)
  then have r: "(3, 5) \<in> strong_refs g (body y)" unfolding x(2) using small_refs by (simp add: strong_refs_def)
  have "registry g = TABLE 2" using eb by (simp add: extb_def small_gc_def)
  then have "reach strong_refs g 1 1" "reach strong_refs g 1 2"
    by (auto intro!: reach.root simp: roots_def vrefs_def iscollectable_def)
  moreover have "reach strong_refs g 1 3" using reach.link [OF \<open>reach strong_refs g 1 1\<close> y(1) r] by simp
  moreover obtain z where z: "gco small_gc 5 = Some z" "gch_tt (body z) = 5" by (simp add: small_gc_def small_heap_def)
  obtain w where w: "gco g 5 = Some w" "objb z w" using extbD [OF eb z(1)] .
  have "gch_tt (body w) = 5" using w(2) z(2) sim_tt [of "body z" "body w"] by (simp add: objb_def)
  then have "map_option (gch_tt \<circ> body) (gco g' 5) = Some 5" using g'(5) w(1) by simp
  then obtain v where v: "gco g' 5 = Some v" "gch_tt (body v) = 5" by auto
  have "\<not> alive g' 5" using g'(4) v by fastforce
  ultimately show ?thesis using g(1) g'(1,2,3) v(1) by blast
qed

section \<open>Barriers\<close>

text \<open>C39: while the collector marks, the program may store a value in any object but a thread, tables
  among them, if it calls the barrier: the barrier ends and the invariant of marking holds again.\<close>

theorem barriers_keep_marking:
  assumes "marking UNIV g" "store_ok g a x b v" "gcstate g = GCSpropagate"
  shows "\<exists>g'. (if gch_tt b = 5 then luaC_barriert a v else luaC_barrier a v) (rebody a b g) = Some ((), g') \<and> marking UNIV g'"
proof (cases "gch_tt b = 5")
  case True
  then obtain h where "b = GTable h" by (cases b) auto
  then show ?thesis using barrier_back [OF assms(1) _ assms(3)] assms(2) by auto
next
  case False
  then show ?thesis using barrier_forward [OF assms] by auto
qed

text \<open>On the small heap the registry is black after one step; a reference to the table 5 is stored in it.\<close>

theorem barriers_keep_marking_witness:
  "\<exists>g0 n g x g'. markroot small_gc = Some ((), g0) \<and> propagatemark g0 = Some (n, g) \<and> gco g 2 = Some x \<and> isblack (marked x) \<and>
    luaC_barriert 2 (TABLE 5) (rebody 2 (GTable (empty_table [TABLE 5])) g) = Some ((), g') \<and> marking UNIV g'"
proof -
  let ?b = "GTable (empty_table [TABLE 5])"
  have run: "case seqC (thenC markroot propagatemark) (\<lambda>n. obj 2) small_gc of
      Some (x, g) \<Rightarrow> isblack (marked x) \<and> length (gray g) = 2 | None \<Rightarrow> False" by code_simp
  have first: "case markroot small_gc of Some (n, g) \<Rightarrow> length (gray g) = 3 | None \<Rightarrow> False" by code_simp
  obtain g0 where g0: "markroot small_gc = Some ((), g0)" "marking UNIV g0" "gcstate g0 = GCSpropagate" "extb small_gc g0"
    using markroot_starts [OF small_at_rest [OF subset_UNIV]] by blast
  then have "gray g0 \<noteq> []" using first by auto
  then obtain n g where g: "propagatemark g0 = Some (n, g)" "marking UNIV g" "ext g0 g"
    using propagate_marking [OF g0(2)] by blast
  have eb: "extb small_gc g" by (rule extb_trans [OF g0(4) ext_extb [OF g(3)]])
  have h: "has g (2, 5)" "has g (5, 5)"
    by (rule extb_has [OF eb], simp add: has_def small_gc_def small_heap_def)+
  then obtain x where x: "gco g 2 = Some x" "gch_tt (body x) = 5" by (auto simp: has_def)
  have two: "thenC markroot propagatemark small_gc = Some (n, g)" by (simp add: thenC_run [of markroot small_gc, OF g0(1)] g(1))
  have blk: "isblack (marked x)"
    using run by (simp add: seqC_run [of "thenC markroot propagatemark" small_gc, OF two] obj_eq [OF x(1)])
  have "body_refs g ?b = vrefs (TABLE 5)"
    by (simp add: empty_table_def table_refs_def orefs_def node_refs_def)
  then have "store_ok g 2 x ?b (TABLE 5)"
    using x h(2) blk small_struct(2) [of "[TABLE 5]"]
    by (cases "body x") (auto simp: store_ok_def is_open_def isgray_def vrefs_def iscollectable_def)
  moreover have "gcstate g = GCSpropagate" using rest_simps [OF ext_rest [OF g(3)]] g0(3) by simp
  ultimately obtain g' where "luaC_barriert 2 (TABLE 5) (rebody 2 ?b g) = Some ((), g')" "marking UNIV g'"
    using barriers_keep_marking [OF g(2), of 2 x ?b "TABLE 5"] by auto
  then show ?thesis using g0(1) g(1) x(1) blk by blast
qed

section \<open>Sweeping\<close>




end
