(* ===== verification/Spec2Isabelle.thy ===== *)
theory Spec2Isabelle
  imports Prelude Numbers Opcodes Objects Table TableChain TableCount TableProof TableSpec
    Mem Code JumpList CodeSpec SlotMap ConstSpec Proto Debug DebugSpec Zio Undump
    UndumpSpec Chars StrMatch MatchSpec StrLib StrFormat StrSpec Lexer LexSpec TabLib
    SortSpec Heap StrTable UpVals Meta Do VmOps Vm Vcg CallSpec ReturnSpec Parser Grammar
    Stat ScopeSpec NestSpec Api ApiCall Gc GcSweep GcInv GcMark GcTraverse GcPropagate
    GcAtomic GcClear GcCycle GcStart GcSweepSpec GcSpec
begin

text \<open>
  Lulu carries a copy of the C implementation of Lua 5.1 in \<open>src/lua/src\<close>, reworked by its
  authors (renamed constants, another token type, other control flow in places). This library
  models the components of that copy, in the order the code has them, and proves what makes
  each of them correct. The definitions are executable, so that concrete runs of the code can
  be evaluated in the logic; they keep the names of the C functions.

  \<^bold>\<open>How the program is put together.\<close> The scanner (\<open>llex.c\<close>) takes bytes from a buffered stream
  (\<open>lzio.c\<close>) and gives tokens to the parser, which calls the code generator (\<open>lcode.c\<close>) to fill a
  prototype with instructions (\<open>lopcodes.h\<close>); constants are numbered through a table
  (\<open>ltable.c\<close>). A prototype can be written to and loaded from a precompiled chunk (\<open>ldump.c\<close>,
  \<open>lundump.c\<close>), and is checked by the bytecode verifier (\<open>ldebug.c\<close>) before the virtual machine
  runs it. Library functions such as those of \<open>lstrlib.c\<close> work on the values of \<open>lobject.h\<close>.

  \<^bold>\<open>The theories.\<close>
    \<^item> \<open>Prelude\<close>: machine integers at their width, errors as values (\<open>result\<close>), sequencing, facts on
      bits. \<open>Undefined\<close> is a run C leaves undefined, or an assertion that fails, so a lemma that excludes it is a safety
      statement; \<open>OutOfFuel\<close> is a bound of the model, and lemmas show it is never the answer.
    \<^item> \<open>Numbers\<close> (\<open>luaconf.h\<close>): doubles as their 64 bits: comparison, negation, conversions.
    \<^item> \<open>Opcodes\<close> (\<open>lopcodes.h\<close>, \<open>lopcodes.c\<close>): instruction layout, accessors, opcode tables.
    \<^item> \<open>Objects\<close> (\<open>lobject.h\<close>, \<open>lobject.c\<close>): tagged values, raw equality, floating point bytes,
      logarithms, formatted messages, chunk names.
    \<^item> \<open>Mem\<close> (\<open>lmem.c\<close>): growth of vectors with its limits.
    \<^item> \<open>Table\<close> (\<open>ltable.c\<close>): array part and hash part with its collision chains, every access,
      insertion, rehash, traversal and the length operator. \<open>TableChain\<close> holds the chain
      invariant and that insertion keeps it, \<open>TableCount\<close> the choice of the array size,
      \<open>TableProof\<close> that insertion and rehash implement the update of a map and that the recursion
      of \<open>newkey\<close> through \<open>rehash\<close> needs no more than its fuel, \<open>TableSpec\<close> the properties.
      \<open>SlotMap\<close> is the interface of a table as a store of slots, a locale the tables interpret.
    \<^item> \<open>Code\<close> (\<open>lcode.c\<close>, \<open>lcode.h\<close>): the code generator on the state \<open>FuncState\<close>: emission, jump
      lists threaded through the code, registers, constants, expressions, conditions, operators.
      \<open>JumpList\<close> describes a jump list by the places on it, \<open>CodeSpec\<close> says where jumps land,
      \<open>ConstSpec\<close> how constants are shared; it uses tables through the interface of \<open>SlotMap\<close>.
    \<^item> \<open>Proto\<close> (\<open>lobject.h\<close>, \<open>lfunc.c\<close>): prototypes and local names. \<open>Debug\<close> (\<open>ldebug.c\<close>): symbolic
      execution, the verifier, names for messages; \<open>DebugSpec\<close>: the verifier ends on every input
      and what it accepts stays inside the code, the registers and the constants.
    \<^item> \<open>Zio\<close> (\<open>lzio.c\<close>): streams over any reader; \<open>holds\<close> says what a stream will deliver, whatever
      its blocks, and the locale \<open>byte_stream\<close> is what loading needs of it.
    \<^item> \<open>Undump\<close> (\<open>ldump.c\<close>, \<open>lundump.c\<close>): precompiled chunks for a little-endian 64-bit machine;
      \<open>UndumpSpec\<close>: loading what was written gives the prototype back.
    \<^item> \<open>Chars\<close>: \<open>ctype.h\<close> in the C locale, C strings, argument errors (\<open>lauxlib.c\<close>).
      \<open>StrMatch\<close> (\<open>lstrlib.c\<close>): the pattern matcher, whose helpers take the rest of the match as an
      argument. \<open>MatchSpec\<close>: two locales for such a rest, its bounds and its safety, with
      \<open>match\<close> as their instance. \<open>StrLib\<close>, \<open>StrFormat\<close>: the other functions of the string
      library; \<open>StrSpec\<close>: searches against a reference, substitution, format buffers.
    \<^item> \<open>Lexer\<close> (\<open>llex.c\<close>, \<open>llex.h\<close>): the scanner over a stream; \<open>LexSpec\<close>: quoted strings and the
      spelling of tokens are read back.
    \<^item> \<open>Parser\<close> (\<open>lparser.c\<close>): the state of the parser over scanner and code generator, names, scopes,
      blocks, functions; \<open>Grammar\<close> the rules of expressions, \<open>Stat\<close> those of statements.
      \<open>ScopeSpec\<close>: a name becomes the variable the scoping rules say. \<open>NestSpec\<close>: the recursion
      of the rules is as deep as the code allows, and no deeper.
    \<^item> \<open>TabLib\<close> (\<open>ltablib.c\<close>): the table library. \<open>SortSpec\<close>: its quicksort as an algorithm on any
      store of elements (the locales \<open>element_store\<close> and \<open>sortable\<close>, which tables and numbers
      interpret): it sorts, and where an inconsistent order function leads it.

    \<^item> \<open>Heap\<close> (\<open>lstate.h\<close>, \<open>lobject.h\<close>): the objects and a thread as records, pointers into vectors
      as indices, and the monad of computations on them, with jumps as results. \<open>StrTable\<close>
      (\<open>lstring.c\<close>): interning, which implements a set of strings. \<open>UpVals\<close> (\<open>lfunc.c\<close>): upvalues
      are shared while open and keep their value when closed. \<open>Meta\<close> (\<open>ltm.c\<close>, \<open>ldebug.c\<close>): tag
      methods, run-time errors. \<open>Do\<close> (\<open>ldo.c\<close>): the stack, entering and leaving functions.
      \<open>VmOps\<close> and \<open>Vm\<close> (\<open>lvm.c\<close>, \<open>ldo.c\<close>): every instruction, the interpreter loop, calls,
      protected calls, coroutines. \<open>Vcg\<close>: weakest preconditions for that monad. \<open>CallSpec\<close>:
      the frame a called function finds, and where its room does not suffice. \<open>ReturnSpec\<close>: its
      results, its extra arguments, and what a protected call restores. \<open>Api\<close> and \<open>ApiCall\<close>
      (\<open>lapi.c\<close>, \<open>ldo.c\<close>): the operations a host program or library function uses: values by
      index, the stack, tables, calls, and loading, which joins streams, scanner, parser or chunk
      loader, strings and upvalues into one operation.
    \<^item> \<open>Gc\<close> and \<open>GcSweep\<close> (\<open>lgc.c\<close>, \<open>lgc.h\<close>): the collector on a store of its own, which has every object
      with its mark bits: marking, barriers, threads, weak tables, finalizers, sweeping and the
      state machine of its steps. \<open>GcInv\<close>: references, strong references, well-formed stores, and the
      relation \<open>ext\<close> of a state to what marking makes of it. \<open>GcMark\<close>, \<open>GcTraverse\<close>, \<open>GcPropagate\<close>: marking,
      the traversal of each kind of object and the loop keep the invariant \<open>Inv\<close> and end.
      \<open>GcAtomic\<close>, \<open>GcClear\<close>: the parts of \<open>atomic\<close> and the clearing of weak tables. \<open>GcCycle\<close>: what holds
      between steps (\<open>marking\<close>) and what \<open>atomic\<close> makes of it. \<open>GcStart\<close>: the first step and the
      barriers. \<open>GcSweepSpec\<close>: sweeping a list. \<open>GcSpec\<close>: the properties: marking in steps and barriers
      keep \<open>marking\<close>, after \<open>atomic\<close> nothing reachable is dead, and sweeping frees the dead and nothing
      else. A set \<open>R\<close> that strong references do not leave bounds what is kept. \<open>singlestep\<close> is covered
      from the pause to the end of marking; sweeping of threads with open upvalues, the finalizers'
      calls and the pacing (\<open>luaC_step\<close>, \<open>luaC_fullgc\<close>) are modelled without properties.

  \<^bold>\<open>Bounds and fuel.\<close> Loops with a decreasing measure are total functions. Fuel is used where the
  C recursion has no structural bound: \<open>newkey\<close> (\<open>NEWKEY_FUEL\<close>, enough by \<open>newkey_fuel\<close>), jump
  lists (the length of the code), block reads (one turn per byte), the symbolic execution (the
  length of the code), nested prototypes when loading (\<open>LUAI_MAXCCALLS\<close>, the limit of the code
  itself), and the loops of the scanner, where the properties ask for one turn per byte of the
  token, and of the parser, one turn per token; the parser's recursion has \<open>LUAI_MAXCCALLS\<close>
  levels, and \<open>assignment\<close> one call per target, enough by \<open>NestSpec\<close>. A program may run forever, so the interpreter loop and the calls below it run on fuel
  and answer \<open>NoFuel\<close> without it; the properties of calls are about steps that need none. The sizes of C integers are written out where overflow matters.

  \<^bold>\<open>Parameters.\<close> The C library (\<open>sprintf\<close>, \<open>strtod\<close>, \<open>localeconv\<close>), the reader and writer of a
  chunk, the arithmetic on doubles, number formats and \<open>strcoll\<close> of the virtual machine
  (\<open>vmenv\<close>), C functions and hooks, the hash of a string's contents in a table, and the Lua function or table that a caller passes to
  \<open>gsub\<close> are arguments of the definitions that use them. Memory allocation is taken to succeed.

  \<^bold>\<open>Not modelled.\<close> The virtual machine and the library interface allocate without collecting: the
  collector's steps in them and the revival of dead strings are left out, and so are the creation of threads and states
  (\<open>lstate.c\<close>), the functions of \<open>lapi.c\<close> that act on other threads, on the collector or on the
  allocator, and the remaining libraries. \<open>liolib.c\<close>, \<open>loslib.c\<close>, \<open>loadlib.c\<close>,
  \<open>lua.c\<close>, \<open>luac.c\<close> and \<open>print.c\<close> are input and output of the host system. The C++ and Odin
  implementations in \<open>src/cpp\<close> and \<open>src/odin\<close> are separate programs.
\<close>

end
